(* ===== verification/Prelude.thy ===== *)
theory Prelude
  imports Main "HOL-Library.Word" "HOL-Library.Monad_Syntax"
begin

text \<open>
  What the components share: the names of C's integer types, reads of a byte buffer that
  fail outside the buffer, and the generic facts about lists, options and words that carry
  the component proofs.
\<close>

unbundle bit_operations_syntax

type_synonym u8 = "8 word"
type_synonym u16 = "16 word"
type_synonym u32 = "32 word"
type_synonym u64 = "64 word"

named_theorems buffer_simps "reads and writes of byte buffers"

section \<open>Buffers\<close>

text \<open>
  A C pointer into a buffer is the list of the bytes from it to the end of the buffer.
  \<open>rd p i\<close> is \<open>p[i]\<close>; \<open>None\<close> is a read past the end of the buffer.
\<close>

definition rd :: "'a list \<Rightarrow> nat \<Rightarrow> 'a option" where
  "rd p i = (if i < length p then Some (p ! i) else None)"

lemma rd_Nil [simp, buffer_simps]: "rd [] i = None"
  by (simp add: rd_def)

lemma rd_Cons_0 [simp, buffer_simps]: "rd (x # xs) 0 = Some x"
  by (simp add: rd_def)

lemma rd_Cons_Suc [simp, buffer_simps]: "rd (x # xs) (Suc i) = rd xs i"
  by (simp add: rd_def)

lemma rd_Cons_numeral [simp, buffer_simps]: "rd (x # xs) (numeral k) = rd xs (pred_numeral k)"
  by (simp add: numeral_eq_Suc)

lemma rd_Cons_1 [simp, buffer_simps]: "rd (x # xs) 1 = rd xs 0"
  by (simp add: rd_def)

lemma rd_eq_Some_iff: "rd p i = Some x \<longleftrightarrow> i < length p \<and> p ! i = x"
  by (auto simp: rd_def)

lemma rd_append: "rd (xs @ ys) i = (if i < length xs then rd xs i else rd ys (i - length xs))"
  by (auto simp: rd_def nth_append)

section \<open>Result codes and memory\<close>

definition SQLITE_OK :: nat where "SQLITE_OK = 0"
definition SQLITE_BUSY :: nat where "SQLITE_BUSY = 5"
definition SQLITE_NOMEM :: nat where "SQLITE_NOMEM = 7"
definition SQLITE_READONLY :: nat where "SQLITE_READONLY = 8"
definition SQLITE_IOERR :: nat where "SQLITE_IOERR = 10"
definition SQLITE_IOERR_NOMEM :: nat where "SQLITE_IOERR_NOMEM = SQLITE_IOERR OR push_bit 8 12"

definition SQLITE_CORRUPT :: nat where "SQLITE_CORRUPT = 11"
definition SQLITE_CANTOPEN :: nat where "SQLITE_CANTOPEN = 14"
definition SQLITE_PROTOCOL :: nat where "SQLITE_PROTOCOL = 15"

lemmas result_codes = SQLITE_OK_def SQLITE_BUSY_def SQLITE_NOMEM_def SQLITE_READONLY_def
  SQLITE_IOERR_def SQLITE_CORRUPT_def SQLITE_CANTOPEN_def SQLITE_PROTOCOL_def

lemma IOERR_NOMEM_not_OK [simp]: "SQLITE_IOERR_NOMEM \<noteq> SQLITE_OK"
  by (simp add: SQLITE_IOERR_NOMEM_def SQLITE_IOERR_def SQLITE_OK_def)

text \<open>
  The allocations of an operation succeed or fail as a list of booleans says; past its end
  they succeed.
\<close>

definition alloc :: "bool list \<Rightarrow> bool \<times> bool list" where
  "alloc mem = (case mem of [] \<Rightarrow> (True, []) | b # bs \<Rightarrow> (b, bs))"

lemma alloc_Nil [simp]: "alloc [] = (True, [])"
  by (simp add: alloc_def)

section \<open>Words\<close>

text \<open>
  Equality of words of a fixed width, bit by bit over the numerals below the width: the goal
  it leaves is closed by \<open>simp add: bit_simps\<close> whatever shifts and masks the words
  are built from.
\<close>

lemma u8_bit_ge: "8 \<le> n \<Longrightarrow> \<not> bit (b :: u8) n"
  by (auto dest: bit_imp_le_length)

lemma u32_bit_ge: "32 \<le> n \<Longrightarrow> \<not> bit (b :: u32) n"
  by (auto dest: bit_imp_le_length)

lemma u64_bit_ge: "64 \<le> n \<Longrightarrow> \<not> bit (b :: u64) n"
  by (auto dest: bit_imp_le_length)

lemmas bit_ge = u8_bit_ge u32_bit_ge u64_bit_ge

lemma upt_8: "[0..<8] = [0, 1, 2, 3, 4, 5, 6, 7]"
  by code_simp

lemma upt_32: "[0..<32] =
    [0, 1, 2, 3, 4, 5, 6, 7, 8, 9, 10, 11, 12, 13, 14, 15, 16, 17, 18, 19, 20, 21, 22, 23,
     24, 25, 26, 27, 28, 29, 30, 31]"
  by code_simp

lemma upt_64: "[0..<64] =
    [0, 1, 2, 3, 4, 5, 6, 7, 8, 9, 10, 11, 12, 13, 14, 15, 16, 17, 18, 19, 20, 21, 22, 23,
     24, 25, 26, 27, 28, 29, 30, 31, 32, 33, 34, 35, 36, 37, 38, 39, 40, 41, 42, 43, 44, 45,
     46, 47, 48, 49, 50, 51, 52, 53, 54, 55, 56, 57, 58, 59, 60, 61, 62, 63]"
  by code_simp

lemma bit_eq8: "list_all (\<lambda>i. bit x i = bit y i)
    [0, 1, 2, 3, 4, 5, 6, 7] \<Longrightarrow> (x :: u8) = y"
  unfolding upt_8 [symmetric] by (rule bit_word_eqI) (simp add: list_all_iff)

lemma bit_eq32: "list_all (\<lambda>i. bit x i = bit y i)
    [0, 1, 2, 3, 4, 5, 6, 7, 8, 9, 10, 11, 12, 13, 14, 15, 16, 17, 18, 19, 20, 21, 22, 23,
     24, 25, 26, 27, 28, 29, 30, 31] \<Longrightarrow> (x :: u32) = y"
  unfolding upt_32 [symmetric] by (rule bit_word_eqI) (simp add: list_all_iff)

lemma bit_eq64: "list_all (\<lambda>i. bit x i = bit y i)
    [0, 1, 2, 3, 4, 5, 6, 7, 8, 9, 10, 11, 12, 13, 14, 15, 16, 17, 18, 19, 20, 21, 22, 23,
     24, 25, 26, 27, 28, 29, 30, 31, 32, 33, 34, 35, 36, 37, 38, 39, 40, 41, 42, 43, 44, 45,
     46, 47, 48, 49, 50, 51, 52, 53, 54, 55, 56, 57, 58, 59, 60, 61, 62, 63] \<Longrightarrow> (x :: u64) = y"
  unfolding upt_64 [symmetric] by (rule bit_word_eqI) (simp add: list_all_iff)

lemma and_128: "x AND 0x80 = 0 \<longleftrightarrow> \<not> bit (x :: u32) 7"
  using and_exp_eq_0_iff_not_bit [of x 7] by simp

lemma ucast_u32_u64: "ucast (ucast (w :: u32) :: u64) = w"
  by (rule bit_word_eqI) (simp add: bit_simps)

section \<open>Lists\<close>

lemma takeWhile_stop: "x \<notin> set m \<Longrightarrow> takeWhile (\<lambda>c. c \<noteq> x) (m @ x # r) = m"
  by (induction m) auto

lemma find_eq_None: "find P xs = None \<longleftrightarrow> (\<forall>x\<in>set xs. \<not> P x)"
  by (induction xs) auto

lemma find_append: "find P (xs @ ys) = (case find P xs of Some x \<Rightarrow> Some x | None \<Rightarrow> find P ys)"
  by (induction xs) auto

lemma find_SomeD: "find P xs = Some x \<Longrightarrow> x \<in> set xs \<and> P x"
  by (induction xs) (auto split: if_splits)

lemma option_eq_by_Some: "(\<And>y. u = Some y \<longleftrightarrow> v = Some y) \<Longrightarrow> u = v"
  by (cases u; cases v) auto

text \<open>A list of known length, taken apart.\<close>

lemmas small_length = numeral_eq_Suc less_Suc_eq le_Suc_eq length_Suc_conv

end
