(* ===== verification/FileDB.thy ===== *)
theory FileDB
  imports Prelude
begin

text \<open>
  The two tables of the file store (\<open>FileSaveService/DB/LCFileDB.mm\<close>, \<open>Model/\<close> and
  \<open>Model/WCDB/\<close>). A nullable string is a \<open>string option\<close>, an object or a row is a record, a
  table is the list of its rows in rowid order. The statements the class issues are modelled
  with SQL's meaning: a comparison with NULL selects nothing, \<open>INSERT OR REPLACE\<close> removes the
  row with the same primary key and appends, \<open>getOneObject\<close> is the first row in rowid order, a
  NOT NULL column refuses NULL. The file table is taken to work: a statement on it fails only
  for a constraint. The tag table may be missing (\<open>db_tags = None\<close>): then every statement on
  it fails, as it does when \<open>CREATE TABLE\<close> with its column \<open>group\<close>, an SQL keyword that
  WCDB leaves unquoted, is refused.
\<close>

type_synonym nsstring = "string option"

text \<open>\<open>[s length] == 0\<close>, which a nil \<open>s\<close> answers too.\<close>

definition length0 :: "nsstring \<Rightarrow> bool" where
  "length0 s = (case s of None \<Rightarrow> True | Some c \<Rightarrow> c = [])"

text \<open>SQL's \<open>a = b\<close> in a WHERE clause.\<close>

definition sql_eq :: "'v option \<Rightarrow> 'v option \<Rightarrow> bool" where
  "sql_eq a b = (case (a, b) of (Some x, Some y) \<Rightarrow> x = y | _ \<Rightarrow> False)"

lemma sql_eq_simps [simp]:
  "sql_eq None b = False" "sql_eq a None = False" "sql_eq (Some x) (Some y) = (x = y)"
  by (simp_all add: sql_eq_def split: option.splits)

lemma sql_eq_Some: "sql_eq a b \<longleftrightarrow> (\<exists>x. a = Some x \<and> b = Some x)"
  by (cases a; cases b) auto

lemma length0_simps [simp]: "length0 None" "length0 (Some s) \<longleftrightarrow> s = []"
  by (simp_all add: length0_def)

section \<open>Objects and tables\<close>

record LCFileM =
  fm_key :: nsstring
  fm_md5 :: nsstring
  fm_filePath :: nsstring

record LCFileTagM =
  tg_tagId :: nsstring
  tg_md5 :: nsstring
  tg_tag :: nsstring
  tg_group :: nsstring
  tg_time :: int

text \<open>
  The getter \<open>tagId\<close> of \<open>LCFileTagM\<close>: it looks at \<open>_tag\<close>, assigns \<open>_tag\<close> and returns
  \<open>_tag\<close>. \<open>%@\<close> prints nil as \<open>(null)\<close>.
\<close>

definition print_ns :: "nsstring \<Rightarrow> string" where
  "print_ns s = (case s of None \<Rightarrow> ''(null)'' | Some c \<Rightarrow> c)"

definition tagId :: "LCFileTagM \<Rightarrow> nsstring \<times> LCFileTagM" where
  "tagId t =
     (let t = (if tg_tag t = None
               then t\<lparr>tg_tag := Some (print_ns (tg_tag t) @ ''_'' @ print_ns (tg_group t))\<rparr>
               else t)
      in (tg_tag t, t))"

text \<open>The columns an object is stored with: what its getters return, \<open>tagId\<close> first.\<close>

definition tag_columns :: "LCFileTagM \<Rightarrow> LCFileTagM" where
  "tag_columns t = (case tagId t of (i, t) \<Rightarrow> t\<lparr>tg_tagId := i\<rparr>)"

record lc_db =
  db_files :: "LCFileM list"
  db_tags :: "LCFileTagM list option"

text \<open>\<open>INSERT OR REPLACE\<close> under a primary key, and the NOT NULL columns of the two tables.\<close>

definition insert_or_replace :: "('r \<Rightarrow> 'k option) \<Rightarrow> 'r \<Rightarrow> 'r list \<Rightarrow> 'r list" where
  "insert_or_replace key r rows = filter (\<lambda>x. \<not> sql_eq (key x) (key r)) rows @ [r]"

definition file_not_null :: "LCFileM \<Rightarrow> bool" where
  "file_not_null f \<longleftrightarrow> fm_key f \<noteq> None \<and> fm_md5 f \<noteq> None \<and> fm_filePath f \<noteq> None"

definition tag_not_null :: "LCFileTagM \<Rightarrow> bool" where
  "tag_not_null t \<longleftrightarrow> tg_md5 t \<noteq> None \<and> tg_tag t \<noteq> None \<and> tg_group t \<noteq> None"

section \<open>The operations of \<open>LCFileDB\<close> on files\<close>

definition lc_saveFile :: "LCFileM \<Rightarrow> ('a lc_db_scheme) \<Rightarrow> bool \<times> 'a lc_db_scheme" where
  "lc_saveFile f db =
     (if length0 (fm_md5 f) \<or> length0 (fm_key f) \<or> length0 (fm_filePath f) then (False, db)
      else if file_not_null f
      then (True, db\<lparr>db_files := insert_or_replace fm_key f (db_files db)\<rparr>)
      else (False, db))"

definition lc_db_getFileWithMd5 :: "nsstring \<Rightarrow> 'a lc_db_scheme \<Rightarrow> LCFileM option" where
  "lc_db_getFileWithMd5 md5 db = find (\<lambda>f. sql_eq (fm_md5 f) md5) (db_files db)"

definition lc_db_getFileWithKey :: "nsstring \<Rightarrow> 'a lc_db_scheme \<Rightarrow> LCFileM option" where
  "lc_db_getFileWithKey key db = find (\<lambda>f. sql_eq (fm_key f) key) (db_files db)"

definition lc_db_getFileWithfilePath :: "nsstring \<Rightarrow> 'a lc_db_scheme \<Rightarrow> LCFileM option" where
  "lc_db_getFileWithfilePath path db = find (\<lambda>f. sql_eq (fm_filePath f) path) (db_files db)"

definition lc_db_deleteFileWithMd5 :: "nsstring \<Rightarrow> 'a lc_db_scheme \<Rightarrow> bool \<times> 'a lc_db_scheme" where
  "lc_db_deleteFileWithMd5 md5 db =
     (True, db\<lparr>db_files := filter (\<lambda>f. \<not> sql_eq (fm_md5 f) md5) (db_files db)\<rparr>)"

definition lc_db_deleteFileWithMd5s :: "nsstring list \<Rightarrow> 'a lc_db_scheme \<Rightarrow> bool \<times> 'a lc_db_scheme" where
  "lc_db_deleteFileWithMd5s md5s db =
     (True, db\<lparr>db_files := filter (\<lambda>f. \<not> list_ex (sql_eq (fm_md5 f)) md5s) (db_files db)\<rparr>)"

section \<open>The operations on tags\<close>

definition lc_saveTag :: "LCFileTagM \<Rightarrow> ('a lc_db_scheme) \<Rightarrow> bool \<times> 'a lc_db_scheme" where
  "lc_saveTag t db =
     (if length0 (tg_md5 t) \<or> length0 (tg_tag t) \<or> tg_group t = None then (False, db)
      else let row = tag_columns t
           in case db_tags db of
                None \<Rightarrow> (False, db)
              | Some rows \<Rightarrow>
                  if tag_not_null row
                  then (True, db\<lparr>db_tags := Some (insert_or_replace tg_tagId row rows)\<rparr>)
                  else (False, db))"

definition lc_getTagWithTagId :: "nsstring \<Rightarrow> 'a lc_db_scheme \<Rightarrow> LCFileTagM option" where
  "lc_getTagWithTagId i db = Option.bind (db_tags db) (find (\<lambda>t. sql_eq (tg_tagId t) i))"

text \<open>The array of the rows a query selects; nil when the query fails.\<close>

definition select_tags :: "(LCFileTagM \<Rightarrow> bool) \<Rightarrow> 'a lc_db_scheme \<Rightarrow> LCFileTagM list option" where
  "select_tags cond db = map_option (filter cond) (db_tags db)"

definition lc_getTagWithMd5 :: "nsstring \<Rightarrow> 'a lc_db_scheme \<Rightarrow> LCFileTagM list option" where
  "lc_getTagWithMd5 md5 = select_tags (\<lambda>t. sql_eq (tg_md5 t) md5)"

definition lc_getTagWithTag :: "nsstring \<Rightarrow> 'a lc_db_scheme \<Rightarrow> LCFileTagM list option" where
  "lc_getTagWithTag tag = select_tags (\<lambda>t. sql_eq (tg_tag t) tag)"

definition lc_getTagWithGroup :: "nsstring \<Rightarrow> 'a lc_db_scheme \<Rightarrow> LCFileTagM list option" where
  "lc_getTagWithGroup grp = select_tags (\<lambda>t. sql_eq (tg_group t) grp)"

definition delete_tags :: "(LCFileTagM \<Rightarrow> bool) \<Rightarrow> 'a lc_db_scheme \<Rightarrow> bool \<times> 'a lc_db_scheme" where
  "delete_tags cond db =
     (case db_tags db of
        None \<Rightarrow> (False, db)
      | Some rows \<Rightarrow> (True, db\<lparr>db_tags := Some (filter (\<lambda>t. \<not> cond t) rows)\<rparr>))"

definition lc_deleteWithTagId :: "nsstring \<Rightarrow> 'a lc_db_scheme \<Rightarrow> bool \<times> 'a lc_db_scheme" where
  "lc_deleteWithTagId i = delete_tags (\<lambda>t. sql_eq (tg_tagId t) i)"

text \<open>The WHERE clause starts as \<open>1\<close>; every non-empty argument adds a conjunct.\<close>

definition lc_deleteTag :: "nsstring \<Rightarrow> nsstring \<Rightarrow> nsstring \<Rightarrow> 'a lc_db_scheme \<Rightarrow> bool \<times> 'a lc_db_scheme" where
  "lc_deleteTag tag md5 grp =
     (let expr = (\<lambda>t. True);
          expr = (if \<not> length0 tag then (\<lambda>t. expr t \<and> sql_eq (tg_tag t) tag) else expr);
          expr = (if \<not> length0 md5 then (\<lambda>t. expr t \<and> sql_eq (tg_md5 t) md5) else expr);
          expr = (if \<not> length0 grp then (\<lambda>t. expr t \<and> sql_eq (tg_group t) grp) else expr)
      in delete_tags expr)"

definition lc_deleteTagInGroup_after :: "nsstring \<Rightarrow> int \<Rightarrow> 'a lc_db_scheme \<Rightarrow> bool \<times> 'a lc_db_scheme" where
  "lc_deleteTagInGroup_after grp time =
     delete_tags (\<lambda>t. sql_eq (tg_group t) grp \<and> tg_time t \<ge> time)"

definition lc_deleteTagInGroup_before :: "nsstring \<Rightarrow> int \<Rightarrow> 'a lc_db_scheme \<Rightarrow> bool \<times> 'a lc_db_scheme" where
  "lc_deleteTagInGroup_before grp time =
     delete_tags (\<lambda>t. sql_eq (tg_group t) grp \<and> tg_time t \<le> time)"

section \<open>The join\<close>

text \<open>
  \<open>files LEFT OUTER JOIN tags ON files.md5 = tags.md5\<close>: every file with each of its tags, a
  file without any with a row of NULLs (\<open>None\<close>). The query keeps the joined rows whose
  \<open>tagId\<close> is NULL and rebuilds a file from each one's columns of the file table. When the
  statement cannot be prepared, no file is found.
\<close>

definition left_outer_join :: "LCFileM list \<Rightarrow> LCFileTagM list \<Rightarrow> (LCFileM \<times> LCFileTagM option) list" where
  "left_outer_join files tags =
     concat (map (\<lambda>f. case filter (\<lambda>t. sql_eq (fm_md5 f) (tg_md5 t)) tags of
                        [] \<Rightarrow> [(f, None)]
                      | ts \<Rightarrow> map (\<lambda>t. (f, Some t)) ts) files)"

definition lc_getNoTagFile :: "'a lc_db_scheme \<Rightarrow> LCFileM list" where
  "lc_getNoTagFile db =
     (case db_tags db of
        None \<Rightarrow> []
      | Some tags \<Rightarrow>
          map fst (filter (\<lambda>(f, t). Option.bind t tg_tagId = None)
                     (left_outer_join (db_files db) tags)))"

section \<open>The contract of a keyed table\<close>

text \<open>
  What the service relies on when it saves a row: under the row's key the table then holds
  exactly this row, other keys are untouched.
\<close>

definition rows_at :: "('r \<Rightarrow> 'k option) \<Rightarrow> 'k \<Rightarrow> 'r list \<Rightarrow> 'r list" where
  "rows_at key k rows = filter (\<lambda>x. key x = Some k) rows"

definition unique_key :: "('r \<Rightarrow> 'k option) \<Rightarrow> 'r list \<Rightarrow> bool" where
  "unique_key key rows \<longleftrightarrow> (\<forall>k. length (rows_at key k rows) \<le> 1)"

locale keyed_table =
  fixes key :: "'r \<Rightarrow> 'k option"
    and put :: "'r \<Rightarrow> 'r list \<Rightarrow> 'r list"
  assumes at_put_same: "key r = Some k \<Longrightarrow> rows_at key k (put r rows) = [r]"
    and at_put_other: "key r \<noteq> Some k \<Longrightarrow> rows_at key k (put r rows) = rows_at key k rows"
    and set_put: "set (put r rows) \<subseteq> insert r (set rows)"
begin

lemma unique_put: "unique_key key rows \<Longrightarrow> unique_key key (put r rows)"
proof (unfold unique_key_def, rule allI)
  fix k
  assume "\<forall>k. length (rows_at key k rows) \<le> 1"
  then show "length (rows_at key k (put r rows)) \<le> 1"
    using at_put_same [of r k rows] at_put_other [of r k rows] by (cases "key r = Some k") simp_all
qed

lemma unique_filter: "unique_key key rows \<Longrightarrow> unique_key key (filter P rows)"
proof -
  have "rows_at key k (filter P rows) = filter P (rows_at key k rows)" for k
    by (simp add: rows_at_def conj_commute)
  then show "unique_key key rows \<Longrightarrow> unique_key key (filter P rows)"
    unfolding unique_key_def using length_filter_le order_trans by metis
qed

lemma find_put: "key r = Some k \<Longrightarrow> find (\<lambda>x. sql_eq (key x) (Some k)) (put r rows) = Some r"
proof -
  assume "key r = Some k"
  then have "rows_at key k (put r rows) = [r]" by (rule at_put_same)
  moreover have "find P xs = (case filter P xs of [] \<Rightarrow> None | x # _ \<Rightarrow> Some x)" for P and xs :: "'r list"
    by (induction xs) auto
  ultimately show ?thesis by (simp add: rows_at_def sql_eq_Some)
qed

lemma all_put: "list_all P rows \<Longrightarrow> P r \<Longrightarrow> list_all P (put r rows)"
  using set_put [of r rows] by (auto simp: list_all_iff)

end

lemma insert_or_replace_at:
  "key r = Some k \<Longrightarrow> rows_at key k (insert_or_replace key r rows) = [r]"
  "key r \<noteq> Some k \<Longrightarrow> rows_at key k (insert_or_replace key r rows) = rows_at key k rows"
  by (auto simp: rows_at_def insert_or_replace_def filter_empty_conv sql_eq_Some intro!: filter_cong)

interpretation file_table: keyed_table fm_key "insert_or_replace fm_key"
  by unfold_locales (simp_all add: insert_or_replace_at, auto simp: insert_or_replace_def)

interpretation tag_table: keyed_table tg_tagId "insert_or_replace tg_tagId"
  by unfold_locales (simp_all add: insert_or_replace_at, auto simp: insert_or_replace_def)

section \<open>The invariant of the database\<close>

definition file_row_ok :: "LCFileM \<Rightarrow> bool" where
  "file_row_ok f \<longleftrightarrow> \<not> length0 (fm_key f) \<and> \<not> length0 (fm_md5 f) \<and> \<not> length0 (fm_filePath f)"

text \<open>The primary key of a stored tag is its name.\<close>

definition tag_row_ok :: "LCFileTagM \<Rightarrow> bool" where
  "tag_row_ok t \<longleftrightarrow> \<not> length0 (tg_md5 t) \<and> \<not> length0 (tg_tag t) \<and> tg_group t \<noteq> None
     \<and> tg_tagId t = tg_tag t"

definition db_ok :: "'a lc_db_scheme \<Rightarrow> bool" where
  "db_ok db \<longleftrightarrow>
     unique_key fm_key (db_files db) \<and> list_all file_row_ok (db_files db) \<and>
     (case db_tags db of None \<Rightarrow> True
      | Some tags \<Rightarrow> unique_key tg_tagId tags \<and> list_all tag_row_ok tags)"

lemma list_all_filter: "list_all P xs \<Longrightarrow> list_all P (filter Q xs)"
  by (auto simp: list_all_iff)

lemma length0_Some: "\<not> length0 s \<longleftrightarrow> (\<exists>c. s = Some c \<and> c \<noteq> [])"
  by (cases s) auto

lemma db_ok_saveFile: "db_ok db \<Longrightarrow> db_ok (snd (lc_saveFile f db))"
  by (auto simp: db_ok_def lc_saveFile_def file_row_ok_def
      intro: file_table.unique_put file_table.all_put)

lemma tag_columns_eq: "\<not> length0 (tg_tag t) \<Longrightarrow> tag_columns t = t\<lparr>tg_tagId := tg_tag t\<rparr>"
  by (auto simp: tag_columns_def tagId_def Let_def)

lemma db_ok_saveTag: "db_ok db \<Longrightarrow> db_ok (snd (lc_saveTag t db))"
  by (auto simp: db_ok_def lc_saveTag_def tag_columns_eq tag_row_ok_def Let_def split: option.splits
      intro: tag_table.unique_put tag_table.all_put)

lemma db_ok_delete_tags: "db_ok db \<Longrightarrow> db_ok (snd (delete_tags cond db))"
  by (auto simp: db_ok_def delete_tags_def split: option.splits
      intro: tag_table.unique_filter list_all_filter)

lemma db_ok_filter_files: "db_ok db \<Longrightarrow> db_ok (db\<lparr>db_files := filter P (db_files db)\<rparr>)"
  by (auto simp: db_ok_def intro: file_table.unique_filter list_all_filter)

lemmas lc_delete_defs = lc_deleteTag_def lc_deleteTagInGroup_after_def
  lc_deleteTagInGroup_before_def lc_deleteWithTagId_def

lemma db_ok_deletes:
  assumes "db_ok db"
  shows "db_ok (snd (lc_db_deleteFileWithMd5 m db))" "db_ok (snd (lc_db_deleteFileWithMd5s ms db))"
    "db_ok (snd (lc_deleteTag tag m grp db))" "db_ok (snd (lc_deleteTagInGroup_after grp time db))"
    "db_ok (snd (lc_deleteTagInGroup_before grp time db))" "db_ok (snd (lc_deleteWithTagId i db))"
  using assms by (simp_all add: lc_db_deleteFileWithMd5_def lc_db_deleteFileWithMd5s_def
      db_ok_filter_files lc_delete_defs Let_def db_ok_delete_tags)

text \<open>\<open>tagged tags m\<close>: some tag row has this md5.\<close>

definition tagged :: "LCFileTagM list \<Rightarrow> nsstring \<Rightarrow> bool" where
  "tagged tags m \<longleftrightarrow> list_ex (\<lambda>t. sql_eq (tg_md5 t) m) tags"

lemma sql_eq_commute: "sql_eq a b = sql_eq b a"
  by (auto simp: sql_eq_Some)

lemma left_outer_join_no_tag:
  "list_all tag_row_ok tags \<Longrightarrow>
     map fst (filter (\<lambda>(f, t). Option.bind t tg_tagId = None) (left_outer_join files tags))
     = filter (\<lambda>f. \<not> tagged tags (fm_md5 f)) files"
proof (induction files)
  case (Cons f files)
  let ?ts = "filter (\<lambda>t. sql_eq (fm_md5 f) (tg_md5 t)) tags"
  have row: "left_outer_join (f # files) tags =
      (case ?ts of [] \<Rightarrow> [(f, None)] | ts \<Rightarrow> map (\<lambda>t. (f, Some t)) ts) @ left_outer_join files tags"
    by (simp add: left_outer_join_def)
  show ?case
  proof (cases "tagged tags (fm_md5 f)")
    case False
    then have "?ts = []"
      by (auto simp: tagged_def list_ex_iff filter_empty_conv sql_eq_commute)
    with False Cons show ?thesis unfolding row by simp
  next
    case True
    then have "?ts \<noteq> []"
      by (auto simp: tagged_def list_ex_iff filter_empty_conv sql_eq_commute)
    moreover have "list_all (\<lambda>t. tg_tagId t \<noteq> None) ?ts"
      using Cons.prems by (fastforce simp: list_all_iff tag_row_ok_def length0_Some)
    ultimately have "filter (\<lambda>(f, t). Option.bind t tg_tagId = None)
        (case ?ts of [] \<Rightarrow> [(f, None)] | ts \<Rightarrow> map (\<lambda>t. (f, Some t)) ts) = []"
      by (cases ?ts) (auto simp: filter_empty_conv list_all_iff)
    with True Cons show ?thesis unfolding row by simp
  qed
qed (simp add: left_outer_join_def)

lemma lc_getNoTagFile_eq:
  "db_ok db \<Longrightarrow> lc_getNoTagFile db =
     (case db_tags db of None \<Rightarrow> []
      | Some tags \<Rightarrow> filter (\<lambda>f. \<not> tagged tags (fm_md5 f)) (db_files db))"
  by (auto simp: lc_getNoTagFile_def db_ok_def left_outer_join_no_tag split: option.splits)

section \<open>Properties\<close>


text \<open>Two file rows and one tag, for the instances of the properties.\<close>

definition ex_db :: lc_db where
  "ex_db = \<lparr>
     db_files = [\<lparr>fm_key = Some ''k'', fm_md5 = Some ''aa'', fm_filePath = Some ''/a''\<rparr>,
                 \<lparr>fm_key = Some ''l'', fm_md5 = Some ''bb'', fm_filePath = Some ''/b''\<rparr>],
     db_tags = Some [\<lparr>tg_tagId = Some ''chat'', tg_md5 = Some ''aa'', tg_tag = Some ''chat'',
                      tg_group = Some ''g'', tg_time = 1\<rparr>]\<rparr>"

lemma ex_db_ok: "db_ok ex_db"
  by (simp add: ex_db_def db_ok_def unique_key_def rows_at_def file_row_ok_def tag_row_ok_def)


text \<open>
  A tag name belongs to one file. The getter \<open>tagId\<close> returns \<open>_tag\<close>, so the primary key of
  the tag table is the bare tag name: saving a tag of the same name for another file, or in
  another group, takes it away from the first. All other tags stay.
\<close>

lemma tag_name_is_primary_key:
  assumes "db_ok db" "db_tags db = Some tags"
    and "\<not> length0 (tg_md5 t)" "\<not> length0 (tg_tag t)" "tg_group t \<noteq> None"
  shows "lc_saveTag t db =
    (True, db\<lparr>db_tags := Some (filter (\<lambda>u. tg_tag u \<noteq> tg_tag t) tags @ [t\<lparr>tg_tagId := tg_tag t\<rparr>])\<rparr>)"
proof -
  have "u \<in> set tags \<Longrightarrow> \<not> sql_eq (tg_tagId u) (tg_tag t) \<longleftrightarrow> tg_tag u \<noteq> tg_tag t" for u
    using assms(1,2,4) by (auto simp: db_ok_def list_all_iff tag_row_ok_def sql_eq_Some length0_Some)
  then have "filter (\<lambda>u. \<not> sql_eq (tg_tagId u) (tg_tag t)) tags = filter (\<lambda>u. tg_tag u \<noteq> tg_tag t) tags"
    by (rule filter_cong [OF refl])
  then show ?thesis
    using assms by (auto simp: lc_saveTag_def tag_columns_eq insert_or_replace_def tag_not_null_def length0_Some)
qed

lemma tag_name_is_primary_key_witness:
  "map_option (map tg_md5) (db_tags (snd (lc_saveTag
     \<lparr>tg_tagId = None, tg_md5 = Some ''bb'', tg_tag = Some ''chat'', tg_group = Some ''h'', tg_time = 2\<rparr> ex_db)))
   = Some [Some ''bb'']"
proof -
  obtain tags where tags: "db_tags ex_db = Some tags"
    "tags = [\<lparr>tg_tagId = Some ''chat'', tg_md5 = Some ''aa'', tg_tag = Some ''chat'',
             tg_group = Some ''g'', tg_time = 1\<rparr>]" by (simp add: ex_db_def)
  show ?thesis
    using tag_name_is_primary_key [OF ex_db_ok tags(1),
        of "\<lparr>tg_tagId = None, tg_md5 = Some ''bb'', tg_tag = Some ''chat'', tg_group = Some ''h'', tg_time = 2\<rparr>"]
    by (simp add: tags(2))
qed

end
