(* ===== verification/Md5Tools.thy ===== *)
theory Md5Tools
  imports Prelude
begin

text \<open>
  The content hash of the file store (\<open>Tools/Md5Tools.m\<close>). CommonCrypto is not part of the
  repository: its context type, \<open>CC_MD5_Init\<close>, \<open>CC_MD5_Update\<close>, \<open>CC_MD5_Final\<close> and the
  one-shot \<open>CC_MD5\<close> are parameters. What is modelled is the three ways the app feeds a file
  to them (whole, in 2 MB reads, through a stream in 8 KB reads) and the hexadecimal string.
\<close>

type_synonym bytes = "u8 list"

section \<open>The hexadecimal string\<close>

text \<open>One lower-case hexadecimal digit and the \<open>%02x\<close> of a byte.\<close>

definition hex_digit :: "nat \<Rightarrow> char" where
  "hex_digit d = ''0123456789abcdef'' ! d"

definition hex_byte :: "u8 \<Rightarrow> string" where
  "hex_byte b = [hex_digit (unat b div 16), hex_digit (unat b mod 16)]"

text \<open>The \<open>stringWithFormat:\<close> of the sixteen digest bytes \<open>result[0] \<dots> result[15]\<close>.\<close>

definition md5_format :: "bytes \<Rightarrow> string" where
  "md5_format result = concat (map hex_byte (take 16 result))"

section \<open>One shot, and in reads of \<open>1 << 21\<close> bytes\<close>

definition fileMD5WithData :: "(bytes \<Rightarrow> bytes) \<Rightarrow> bytes \<Rightarrow> string" where
  "fileMD5WithData CC_MD5 data = md5_format (CC_MD5 data)"

function md5_path_loop :: "('ctx \<Rightarrow> bytes \<Rightarrow> 'ctx) \<Rightarrow> 'ctx \<Rightarrow> bytes \<Rightarrow> 'ctx" where
  "md5_path_loop upd ctx rest =
     (let fileData = take (2 ^ 21) rest;
          ctx = upd ctx fileData
      in if fileData = [] then ctx else md5_path_loop upd ctx (drop (2 ^ 21) rest))"
  by auto
termination
  by (relation "measure (\<lambda>(upd, ctx, rest). length rest)") (auto simp: length_greater_0_conv)

declare md5_path_loop.simps [simp del]

text \<open>\<open>None\<close> is a nil file handle: the file is not there.\<close>

definition fileMD5WithPath ::
  "'ctx \<Rightarrow> ('ctx \<Rightarrow> bytes \<Rightarrow> 'ctx) \<Rightarrow> ('ctx \<Rightarrow> bytes) \<Rightarrow> bytes option \<Rightarrow> string" where
  "fileMD5WithPath CC_MD5_Init CC_MD5_Update CC_MD5_Final handle =
     (case handle of
        None \<Rightarrow> ''ERROR GETTING FILE MD5''
      | Some content \<Rightarrow> md5_format (CC_MD5_Final (md5_path_loop CC_MD5_Update CC_MD5_Init content)))"

section \<open>Through a read stream\<close>

text \<open>
  What one \<open>CFReadStreamRead\<close> returns: bytes, or -1. A stream is the list of the results of
  its reads; after the last one it is at its end and every read returns 0 bytes.
\<close>

datatype stream_read = ReadBytes bytes | ReadError

text \<open>The loop returns the hash object and \<open>hasMoreData\<close>.\<close>

fun md5_stream_loop :: "('ctx \<Rightarrow> bytes \<Rightarrow> 'ctx) \<Rightarrow> 'ctx \<Rightarrow> stream_read list \<Rightarrow> 'ctx \<times> bool" where
  "md5_stream_loop upd ctx [] = (ctx, False)"
| "md5_stream_loop upd ctx (ReadError # reads) = (ctx, True)"
| "md5_stream_loop upd ctx (ReadBytes b # reads) =
     (if b = [] then (ctx, False) else md5_stream_loop upd (upd ctx b) reads)"

text \<open>
  The C function behind \<open>getFileMD5WithPath\<close>. \<open>url\<close> and \<open>opened\<close> say whether the file URL
  and the stream could be created and opened; a NULL result is \<open>None\<close>. The loop over
  \<open>sizeof(digest)\<close> writes two digits per byte.
\<close>

definition FileMD5HashCreateWithPath ::
  "'ctx \<Rightarrow> ('ctx \<Rightarrow> bytes \<Rightarrow> 'ctx) \<Rightarrow> ('ctx \<Rightarrow> bytes) \<Rightarrow> bool \<Rightarrow> stream_read list option \<Rightarrow> bool
     \<Rightarrow> string option" where
  "FileMD5HashCreateWithPath CC_MD5_Init CC_MD5_Update CC_MD5_Final url stream opened =
     (if \<not> url then None
      else case stream of
        None \<Rightarrow> None
      | Some reads \<Rightarrow>
          if \<not> opened then None
          else (case md5_stream_loop CC_MD5_Update CC_MD5_Init reads of
                  (hashObject, hasMoreData) \<Rightarrow>
                    let didSucceed = \<not> hasMoreData;
                        digest = CC_MD5_Final hashObject
                    in if \<not> didSucceed then None else Some (md5_format digest)))"

section \<open>Facts\<close>

text \<open>Documented behaviour of an incremental hash: an update by parts is the update by the whole.\<close>

definition incremental :: "('ctx \<Rightarrow> bytes \<Rightarrow> 'ctx) \<Rightarrow> bool" where
  "incremental upd \<longleftrightarrow> (\<forall>ctx. upd ctx [] = ctx) \<and> (\<forall>ctx a b. upd (upd ctx a) b = upd ctx (a @ b))"

lemma md5_path_loop_eq: "incremental upd \<Longrightarrow> md5_path_loop upd ctx rest = upd ctx rest"
proof (induction upd ctx rest rule: md5_path_loop.induct)
  case (1 upd ctx rest)
  then show ?case
    by (subst md5_path_loop.simps) (cases "rest = []"; simp add: Let_def incremental_def)
qed

text \<open>The bytes a stream delivers when no read fails.\<close>

fun stream_bytes :: "stream_read list \<Rightarrow> bytes" where
  "stream_bytes (ReadBytes b # reads) = (if b = [] then [] else b @ stream_bytes reads)"
| "stream_bytes _ = []"

lemma md5_stream_loop_ok:
  "incremental upd \<Longrightarrow> md5_stream_loop upd ctx reads = (c, False) \<Longrightarrow> c = upd ctx (stream_bytes reads)"
  by (induction upd ctx reads rule: md5_stream_loop.induct) (auto simp: incremental_def split: if_splits)

lemma md5_stream_loop_error:
  "snd (md5_stream_loop upd ctx reads) \<longleftrightarrow>
     (\<exists>bs rest. reads = map ReadBytes bs @ ReadError # rest \<and> [] \<notin> set bs)"
proof (induction upd ctx reads rule: md5_stream_loop.induct)
  case (2 upd ctx reads)
  then show ?case by (auto intro: exI [of _ "[]"])
next
  case (3 upd ctx b reads)
  show ?case
  proof (cases "b = []")
    case False
    with 3 show ?thesis
      by (auto simp: Cons_eq_append_conv map_eq_Cons_conv intro: exI [of _ "b # bs" for bs])
        (metis list.simps(9) append_Cons set_ConsD)
  qed (auto simp: Cons_eq_append_conv)
qed auto

lemma hex_digit_inj: "d < 16 \<Longrightarrow> e < 16 \<Longrightarrow> hex_digit d = hex_digit e \<longleftrightarrow> d = e"
  unfolding hex_digit_def by (rule nth_eq_iff_index_eq) simp_all

lemma hex_byte_inj: "hex_byte a = hex_byte b \<longleftrightarrow> a = b"
proof
  assume "hex_byte a = hex_byte b"
  moreover have "unat a < 256" "unat b < 256"
    using unsigned_less [of a, where 'a = nat] unsigned_less [of b, where 'a = nat] by simp_all
  then have "unat a div 16 < 16" "unat b div 16 < 16" by (simp_all add: div_less_iff_less_mult)
  ultimately have "unat a div 16 = unat b div 16" "unat a mod 16 = unat b mod 16"
    by (simp_all add: hex_byte_def hex_digit_inj)
  then have "unat a = unat b" by (metis div_mult_mod_eq)
  then show "a = b" by (rule word_unat_eq_iff [THEN iffD2])
qed simp

lemma concat_hex_inj: "concat (map hex_byte xs) = concat (map hex_byte ys) \<longleftrightarrow> xs = ys"
proof (induction xs arbitrary: ys)
  case Nil
  then show ?case by (cases ys) (simp_all add: hex_byte_def)
next
  case (Cons x xs)
  have len: "length (hex_byte a) = length (hex_byte b)" for a b by (simp add: hex_byte_def)
  show ?case
  proof (cases ys)
    case Nil
    then show ?thesis by (simp add: hex_byte_def)
  next
    case (Cons y ys')
    then show ?thesis using Cons.IH len by (simp add: hex_byte_inj)
  qed
qed

lemma length_concat_hex: "length (concat (map hex_byte xs)) = 2 * length xs"
  by (induction xs) (simp_all add: hex_byte_def)

section \<open>Properties\<close>

text \<open>
  The three ways to hash a file agree. For an incremental hash whose one-shot form is
  init, one update and final, \<open>fileMD5WithData\<close>, \<open>fileMD5WithPath\<close> (which reads 2 MB at a
  time and makes a last empty update) and \<open>getFileMD5WithPath\<close> (over any stream delivering
  the content without error) give the same string; digests of sixteen bytes give strings of
  32 digits, different for different digests. A failing read gives NULL.
\<close>

lemma md5_agree:
  assumes "incremental upd" and "CC_MD5 content = fin (upd ini content)"
    and "stream_bytes reads = content"
  shows "fileMD5WithPath ini upd fin (Some content) = fileMD5WithData CC_MD5 content \<and>
         FileMD5HashCreateWithPath ini upd fin True (Some reads) True =
           (if \<exists>bs rest. reads = map ReadBytes bs @ ReadError # rest \<and> [] \<notin> set bs then None
            else Some (fileMD5WithData CC_MD5 content)) \<and>
         (length d = 16 \<and> length d' = 16 \<longrightarrow>
            length (md5_format d) = 32 \<and> (md5_format d = md5_format d' \<longleftrightarrow> d = d'))"
proof -
  obtain c more where loop: "md5_stream_loop upd ini reads = (c, more)" by fastforce
  have "more \<longleftrightarrow> (\<exists>bs rest. reads = map ReadBytes bs @ ReadError # rest \<and> [] \<notin> set bs)"
    using md5_stream_loop_error [of upd ini reads] loop by simp
  moreover have "c = upd ini content" if "\<not> more"
    using md5_stream_loop_ok [OF assms(1), of ini reads c] loop that assms(3) by simp
  ultimately show ?thesis using assms loop
    by (auto simp: fileMD5WithPath_def fileMD5WithData_def FileMD5HashCreateWithPath_def Let_def
        md5_path_loop_eq md5_format_def concat_hex_inj length_concat_hex)
qed

lemma md5_agree_witness:
  "FileMD5HashCreateWithPath [] (@) (\<lambda>c. take 16 c) True
     (Some [ReadBytes [1, 2], ReadBytes [255]]) True = Some ''0102ff''"
  using md5_agree [of "(@)" "take 16" "[1, 2, 255]" "take 16" "[]"
      "[ReadBytes [1, 2], ReadBytes [255]]" "[]" "[]"]
  by (simp add: incremental_def fileMD5WithData_def md5_format_def hex_byte_def hex_digit_def
      Cons_eq_append_conv map_eq_Cons_conv Cons_eq_map_conv)

end
