(* ===== verification/FileSave.thy ===== *)
theory FileSave
  imports FileDB Md5Tools
begin

text \<open>
  The file service (\<open>FileSaveService/LCFileSaveService.m\<close>): one copy of a file is kept on disk,
  under the directory of the day and named by its md5, for as long as the tag table holds a tag
  for that md5. The state is the database with the file system beside it. Assertions are those
  of a release build (\<open>NSAssert\<close> is nothing there).
\<close>

section \<open>The file system\<close>

text \<open>Paths are strings; regular files have a content, directories are a set of paths.\<close>

record store = lc_db +
  st_files :: "string \<rightharpoonup> bytes"
  st_dirs :: "string \<Rightarrow> bool"

text \<open>What the service asks of its surroundings: the documents directory, the date as the
  locale prints it, the clock, and the md5 string of a content.\<close>

record env =
  e_md5 :: "bytes \<Rightarrow> string"
  e_rootDir :: string
  e_timeStr :: string
  e_now :: int

definition fileExistsAtPath :: "nsstring \<Rightarrow> store \<Rightarrow> bool" where
  "fileExistsAtPath p st =
     (case p of None \<Rightarrow> False | Some q \<Rightarrow> st_files st q \<noteq> None \<or> st_dirs st q)"

text \<open>Foundation's path functions.\<close>

definition stringByAppendingPathComponent :: "string \<Rightarrow> string \<Rightarrow> string" where
  "stringByAppendingPathComponent dir c =
     (if dir = [] then c else if last dir = CHR ''/'' then dir @ c else dir @ ''/'' @ c)"

definition lastPathComponent :: "string \<Rightarrow> string" where
  "lastPathComponent p = rev (takeWhile (\<lambda>c. c \<noteq> CHR ''/'') (rev p))"

definition stringByDeletingLastPathComponent :: "string \<Rightarrow> string" where
  "stringByDeletingLastPathComponent p =
     rev (drop 1 (dropWhile (\<lambda>c. c \<noteq> CHR ''/'') (rev p)))"

text \<open>The characters after the last dot of the last component, unless it starts the name.\<close>

definition pathExtension :: "string \<Rightarrow> string" where
  "pathExtension p =
     (let c = lastPathComponent p; ext = rev (takeWhile (\<lambda>c. c \<noteq> CHR ''.'') (rev c))
      in if length ext + 1 < length c then ext else [])"

definition stringByAppendingPathExtension :: "string \<Rightarrow> string \<Rightarrow> string" where
  "stringByAppendingPathExtension p ext = p @ ''.'' @ ext"

text \<open>
  Copy and move of a regular file fail (\<open>None\<close>) when the source is missing, the destination
  exists or its directory does not.
\<close>

definition copyItem :: "string \<Rightarrow> string \<Rightarrow> store \<Rightarrow> store option" where
  "copyItem src dst st =
     (case st_files st src of
        None \<Rightarrow> None
      | Some content \<Rightarrow>
          if fileExistsAtPath (Some dst) st \<or> \<not> st_dirs st (stringByDeletingLastPathComponent dst)
          then None
          else Some (st\<lparr>st_files := (st_files st)(dst \<mapsto> content)\<rparr>))"

definition moveItem :: "string \<Rightarrow> string \<Rightarrow> store \<Rightarrow> store option" where
  "moveItem src dst st =
     map_option (\<lambda>st'. st'\<lparr>st_files := (st_files st')(src := None)\<rparr>) (copyItem src dst st)"

text \<open>Removing a directory removes what is below it.\<close>

definition below :: "string \<Rightarrow> string \<Rightarrow> bool" where
  "below p q \<longleftrightarrow> q = p \<or> take (length p + 1) q = p @ ''/''"

definition removeItemAtPath :: "nsstring \<Rightarrow> store \<Rightarrow> store" where
  "removeItemAtPath p st =
     (case p of
        None \<Rightarrow> st
      | Some q \<Rightarrow>
          if st_dirs st q
          then st\<lparr>st_files := (\<lambda>r. if below q r then None else st_files st r),
                  st_dirs := (\<lambda>r. st_dirs st r \<and> \<not> below q r)\<rparr>
          else st\<lparr>st_files := (st_files st)(q := None)\<rparr>)"

section \<open>Private methods\<close>

text \<open>The step of the enumeration: \<open>addObject:\<close> and the removal of the file.\<close>

definition remove_file_of :: "LCFileM \<Rightarrow> store \<Rightarrow> store" where
  "remove_file_of f st =
     (if fm_filePath f \<noteq> None \<and> fileExistsAtPath (fm_filePath f) st
      then removeItemAtPath (fm_filePath f) st else st)"

definition p_deleteNoTagFile :: "store \<Rightarrow> store" where
  "p_deleteNoTagFile st =
     (let files = lc_getNoTagFile st;
          md5s = map fm_md5 files;
          st = fold remove_file_of files st
      in snd (lc_db_deleteFileWithMd5s md5s st))"

definition p_getSaveDir :: "env \<Rightarrow> string" where
  "p_getSaveDir e = stringByAppendingPathComponent (e_rootDir e) (e_timeStr e)"

text \<open>A message to a nil \<open>fileM\<close> answers nil.\<close>

definition p_fileExist :: "LCFileM option \<Rightarrow> store \<Rightarrow> bool \<times> store" where
  "p_fileExist fileM st =
     (let path = Option.bind fileM fm_filePath; md5 = Option.bind fileM fm_md5
      in if \<not> fileExistsAtPath path st
         then (False, snd (lc_deleteTag None md5 None (snd (lc_db_deleteFileWithMd5 md5 st))))
         else if (case lc_getTagWithMd5 md5 st of None \<Rightarrow> 0 | Some ts \<Rightarrow> length ts) = 0
         then (False, removeItemAtPath path (snd (lc_db_deleteFileWithMd5 md5 st)))
         else (True, st))"

definition new_path :: "env \<Rightarrow> string \<Rightarrow> string \<Rightarrow> string" where
  "new_path e sourcePath md5 =
     stringByAppendingPathExtension
       (stringByAppendingPathComponent (p_getSaveDir e) md5) (pathExtension sourcePath)"

text \<open>The part of \<open>p_copyFile\<close> after the lookup of \<open>oldFile\<close>.\<close>

definition p_copyNew :: "env \<Rightarrow> string \<Rightarrow> string \<Rightarrow> bool \<Rightarrow> store \<Rightarrow> nsstring \<times> store" where
  "p_copyNew e sourcePath md5 deleteSource st =
     (let filePath = new_path e sourcePath md5
      in if \<not> fileExistsAtPath (Some filePath) st
         then (case (if deleteSource then moveItem sourcePath filePath st
                     else copyItem sourcePath filePath st) of
                 None \<Rightarrow> (None, st)
               | Some st \<Rightarrow> (Some filePath, st))
         else (Some filePath, st))"

definition p_copyFile :: "env \<Rightarrow> string \<Rightarrow> string \<Rightarrow> bool \<Rightarrow> store \<Rightarrow> nsstring \<times> store" where
  "p_copyFile e sourcePath md5 deleteSource st =
     (case lc_db_getFileWithMd5 (Some md5) st of
        Some oldFile \<Rightarrow>
          if fileExistsAtPath (fm_filePath oldFile) st then (fm_filePath oldFile, st)
          else p_copyNew e sourcePath md5 deleteSource st
      | None \<Rightarrow> p_copyNew e sourcePath md5 deleteSource st)"

section \<open>Public methods\<close>

text \<open>
  The outer \<open>None\<close> is the exception of reading a directory as a file, the inner one the nil of
  the two early returns. \<open>tagM\<close> gets its \<open>md5\<close> and its \<open>time\<close>.
\<close>

definition lc_saveFileFrom ::
  "env \<Rightarrow> nsstring \<Rightarrow> nsstring \<Rightarrow> nsstring \<Rightarrow> nsstring \<Rightarrow> int \<Rightarrow> bool \<Rightarrow> store
     \<Rightarrow> (LCFileM option \<times> store) option" where
  "lc_saveFileFrom e sourcePath key tag grp time deleteSource st =
     (case sourcePath of
        None \<Rightarrow> Some (None, st)
      | Some src \<Rightarrow>
          if \<not> fileExistsAtPath sourcePath st then Some (None, st)
          else if length0 tag then Some (None, st)
          else (case st_files st src of
                  None \<Rightarrow> None
                | Some content \<Rightarrow>
                    let md5 = e_md5 e content;
                        key = (case key of None \<Rightarrow> md5 | Some k \<Rightarrow> k);
                        (filePath, st) = p_copyFile e src md5 deleteSource st;
                        fileM = \<lparr>fm_key = Some key, fm_md5 = Some md5, fm_filePath = filePath\<rparr>;
                        tagM = \<lparr>tg_tagId = None, tg_md5 = Some md5, tg_tag = None, tg_group = None,
                                tg_time = (if time \<noteq> 0 then time else e_now e)\<rparr>;
                        (_, st) = lc_saveFile fileM st;
                        (_, st) = lc_saveTag tagM st
                    in Some (Some fileM, st)))"

definition lc_getFileWithMd5 :: "nsstring \<Rightarrow> store \<Rightarrow> LCFileM option \<times> store" where
  "lc_getFileWithMd5 md5 st =
     (let fileM = lc_db_getFileWithMd5 md5 st; (ok, st) = p_fileExist fileM st
      in if \<not> ok then (None, st) else (fileM, st))"

definition lc_getFileWithKey :: "nsstring \<Rightarrow> store \<Rightarrow> LCFileM option \<times> store" where
  "lc_getFileWithKey key st =
     (let fileM = lc_db_getFileWithKey key st; (ok, st) = p_fileExist fileM st
      in if \<not> ok then (None, st) else (fileM, st))"

definition lc_getFileWithFilePath :: "nsstring \<Rightarrow> store \<Rightarrow> LCFileM option \<times> store" where
  "lc_getFileWithFilePath path st =
     (let fileM = lc_db_getFileWithfilePath path st; (ok, st) = p_fileExist fileM st
      in if \<not> ok then (None, st) else (fileM, st))"

definition lc_deleteFileWithMd5 :: "nsstring \<Rightarrow> nsstring \<Rightarrow> nsstring \<Rightarrow> store \<Rightarrow> bool \<times> store" where
  "lc_deleteFileWithMd5 md5 tag grp st =
     (let (_, st) = lc_deleteTag tag md5 grp st in (True, p_deleteNoTagFile st))"

definition lc_deleteFileWithKey :: "nsstring \<Rightarrow> nsstring \<Rightarrow> nsstring \<Rightarrow> store \<Rightarrow> bool \<times> store" where
  "lc_deleteFileWithKey key tag grp st =
     (let fileM = lc_db_getFileWithKey key st
      in lc_deleteFileWithMd5 (Option.bind fileM fm_md5) tag grp st)"

definition lc_deleteFileWithFilePath ::
  "nsstring \<Rightarrow> nsstring \<Rightarrow> nsstring \<Rightarrow> store \<Rightarrow> bool \<times> store" where
  "lc_deleteFileWithFilePath path tag grp st =
     (let fileM = lc_db_getFileWithfilePath path st
      in lc_deleteFileWithMd5 (Option.bind fileM fm_md5) tag grp st)"

definition lc_deleteFileInGroup_after :: "nsstring \<Rightarrow> int \<Rightarrow> store \<Rightarrow> bool \<times> store" where
  "lc_deleteFileInGroup_after grp time st =
     (let (_, st) = lc_deleteTagInGroup_after grp time st in (True, p_deleteNoTagFile st))"

definition lc_deleteFileInGroup_before :: "nsstring \<Rightarrow> int \<Rightarrow> store \<Rightarrow> bool \<times> store" where
  "lc_deleteFileInGroup_before grp time st =
     (let (_, st) = lc_deleteTagInGroup_before grp time st in (True, p_deleteNoTagFile st))"

section \<open>Operations that only remove\<close>

text \<open>
  Every operation but saving only removes: rows, tags and files. \<open>shrinks\<close> is what they all
  have in common, and each invariant below needs to be looked at once for it.
\<close>

definition tags_of :: "'a lc_db_scheme \<Rightarrow> LCFileTagM set" where
  "tags_of db = (case db_tags db of None \<Rightarrow> {} | Some ts \<Rightarrow> set ts)"

definition shrinks :: "store \<Rightarrow> store \<Rightarrow> bool" where
  "shrinks st st' \<longleftrightarrow>
     set (db_files st') \<subseteq> set (db_files st) \<and> tags_of st' \<subseteq> tags_of st \<and>
     (db_tags st' = None \<longleftrightarrow> db_tags st = None) \<and>
     (\<forall>p c. st_files st' p = Some c \<longrightarrow> st_files st p = Some c) \<and>
     (db_ok st \<longrightarrow> db_ok st')"

lemma shrinks_refl [simp]: "shrinks st st"
  by (simp add: shrinks_def)

lemma shrinks_trans: "shrinks st st' \<Longrightarrow> shrinks st' st'' \<Longrightarrow> shrinks st st''"
  by (auto simp: shrinks_def)

lemma shrinks_delete_tags: "shrinks st (snd (delete_tags cond st))"
  using db_ok_delete_tags [of st cond]
  by (auto simp: shrinks_def delete_tags_def tags_of_def split: option.splits)

lemma shrinks_filter_files: "shrinks st (st\<lparr>db_files := filter P (db_files st)\<rparr>)"
  using db_ok_filter_files [of st P] by (auto simp: shrinks_def tags_of_def)

lemma shrinks_db:
  "shrinks st (snd (lc_db_deleteFileWithMd5 m st))" "shrinks st (snd (lc_db_deleteFileWithMd5s ms st))"
  "shrinks st (snd (lc_deleteTag tag m grp st))" "shrinks st (snd (lc_deleteTagInGroup_after grp t st))"
  "shrinks st (snd (lc_deleteTagInGroup_before grp t st))"
  by (simp_all add: lc_db_deleteFileWithMd5_def lc_db_deleteFileWithMd5s_def shrinks_filter_files
      lc_delete_defs Let_def shrinks_delete_tags)

text \<open>The database does not depend on the file system.\<close>

lemma db_ok_more [simp]:
  "db_ok (st\<lparr>st_files := g\<rparr>) = db_ok st" "db_ok (st\<lparr>st_files := g, st_dirs := d\<rparr>) = db_ok st"
  by (simp_all add: db_ok_def)

lemma shrinks_removeItem: "shrinks st (removeItemAtPath p st)"
  by (auto simp: shrinks_def removeItemAtPath_def tags_of_def split: option.splits if_splits)

lemma shrinks_fold_remove: "shrinks st (fold remove_file_of fs st)"
proof (induction fs arbitrary: st)
  case (Cons f fs)
  have "shrinks st (remove_file_of f st)"
    by (simp add: remove_file_of_def shrinks_removeItem)
  with Cons show ?case by (simp add: shrinks_trans)
qed simp

lemma shrinks_deleteNoTagFile: "shrinks st (p_deleteNoTagFile st)"
  unfolding p_deleteNoTagFile_def Let_def using shrinks_fold_remove shrinks_db(2) shrinks_trans by blast

lemma shrinks_fileExist: "shrinks st (snd (p_fileExist f st))"
  by (simp add: p_fileExist_def Let_def shrinks_trans [OF shrinks_db(1) shrinks_db(3)]
      shrinks_trans [OF shrinks_db(1) shrinks_removeItem])

lemma shrinks_get:
  "shrinks st (snd (lc_getFileWithMd5 m st))" "shrinks st (snd (lc_getFileWithKey k st))"
  "shrinks st (snd (lc_getFileWithFilePath p st))"
  using shrinks_fileExist [of st]
  by (auto simp: lc_getFileWithMd5_def lc_getFileWithKey_def lc_getFileWithFilePath_def Let_def
      split: prod.splits) (metis snd_conv)+

lemma shrinks_delete:
  "shrinks st (snd (lc_deleteFileWithMd5 m tag grp st))"
  "shrinks st (snd (lc_deleteFileWithKey k tag grp st))"
  "shrinks st (snd (lc_deleteFileWithFilePath p tag grp st))"
  "shrinks st (snd (lc_deleteFileInGroup_after grp t st))"
  "shrinks st (snd (lc_deleteFileInGroup_before grp t st))"
proof -
  show *: "shrinks st (snd (lc_deleteFileWithMd5 m tag grp st))" for m tag
    by (simp add: lc_deleteFileWithMd5_def case_prod_unfold
        shrinks_trans [OF shrinks_db(3) shrinks_deleteNoTagFile])
  show "shrinks st (snd (lc_deleteFileWithKey k tag grp st))"
    "shrinks st (snd (lc_deleteFileWithFilePath p tag grp st))"
    using * by (simp_all add: lc_deleteFileWithKey_def lc_deleteFileWithFilePath_def Let_def)
  show "shrinks st (snd (lc_deleteFileInGroup_after grp t st))"
    "shrinks st (snd (lc_deleteFileInGroup_before grp t st))"
    by (simp_all add: lc_deleteFileInGroup_after_def lc_deleteFileInGroup_before_def case_prod_unfold
        shrinks_trans [OF shrinks_db(4) shrinks_deleteNoTagFile]
        shrinks_trans [OF shrinks_db(5) shrinks_deleteNoTagFile])
qed

section \<open>Saving\<close>

text \<open>Saving touches the database with one insertion: the tag is refused for want of a name.\<close>

lemma saveTag_refused: "tg_tag t = None \<Longrightarrow> lc_saveTag t st = (False, st)"
  by (simp add: lc_saveTag_def)

text \<open>A new file is the source's content under the new path, the source kept or not.\<close>

definition copied :: "string \<Rightarrow> string \<Rightarrow> store \<Rightarrow> store \<Rightarrow> bool" where
  "copied src dst st st' \<longleftrightarrow>
     st_files st dst = None \<and>
     (\<exists>c. st_files st src = Some c \<and>
        (st' = st\<lparr>st_files := (st_files st)(dst \<mapsto> c)\<rparr> \<or>
         st' = st\<lparr>st_files := ((st_files st)(dst \<mapsto> c))(src := None)\<rparr>))"

lemma copyItem_copied: "copyItem src dst st = Some st' \<Longrightarrow> copied src dst st st'"
  by (auto simp: copyItem_def copied_def fileExistsAtPath_def split: option.splits if_splits)

lemma moveItem_copied: "moveItem src dst st = Some st' \<Longrightarrow> copied src dst st st'"
  by (auto simp: moveItem_def copyItem_def copied_def fileExistsAtPath_def split: option.splits if_splits)

lemma copyNew_cases:
  "p_copyNew e src m del st = (path, st') \<Longrightarrow>
     (st' = st \<and> (path = None \<or> path = Some (new_path e src m) \<and> fileExistsAtPath path st)) \<or>
     (path = Some (new_path e src m) \<and> copied src (new_path e src m) st st')"
  unfolding p_copyNew_def Let_def
  by (cases del; simp split: if_splits option.splits add: copyItem_copied moveItem_copied)

lemma copyFile_cases:
  "p_copyFile e src m del st = (path, st') \<Longrightarrow>
     (\<exists>f. lc_db_getFileWithMd5 (Some m) st = Some f \<and> path = fm_filePath f \<and> st' = st) \<or>
     (st' = st \<and> (path = None \<or> path = Some (new_path e src m) \<and> fileExistsAtPath path st)) \<or>
     (path = Some (new_path e src m) \<and> copied src (new_path e src m) st st')"
  using copyNew_cases [of e src m del st path st']
  by (auto simp: p_copyFile_def split: option.splits if_splits)

text \<open>What a save that gets as far as the copy does.\<close>

lemma saveFileFrom_cases:
  assumes "lc_saveFileFrom e src key tag grp time del st = Some (r, st')"
  shows "(r = None \<and> st' = st) \<or>
     (\<exists>s c k cp. src = Some s \<and> st_files st s = Some c \<and>
        cp = p_copyFile e s (e_md5 e c) del st \<and>
        r = Some \<lparr>fm_key = Some k, fm_md5 = Some (e_md5 e c), fm_filePath = fst cp\<rparr> \<and>
        st' = snd (lc_saveFile (the r) (snd cp)))"
  using assms
  by (auto simp: lc_saveFileFrom_def Let_def saveTag_refused case_prod_unfold
      split: option.splits if_splits)

section \<open>Sequences of operations\<close>

text \<open>
  Paths the service gives to files: of some day, for some md5, with the extension of some
  source.
\<close>

definition store_path :: "env \<Rightarrow> string \<Rightarrow> string \<Rightarrow> bool" where
  "store_path e m p \<longleftrightarrow>
     (\<exists>day s c. m = e_md5 e c \<and> p = new_path (e\<lparr>e_timeStr := day\<rparr>) s m)"

text \<open>
  One operation of the service, at any day and time, or anything else that happens to files
  and directories except writing under the service's own names.
\<close>

inductive fs_step :: "env \<Rightarrow> store \<Rightarrow> store \<Rightarrow> bool" for e where
  save: "lc_saveFileFrom (e\<lparr>e_timeStr := day, e_now := now\<rparr>) src key tag grp time del st = Some (r, st')
     \<Longrightarrow> fs_step e st st'"
| get_md5: "fs_step e st (snd (lc_getFileWithMd5 m st))"
| get_key: "fs_step e st (snd (lc_getFileWithKey k st))"
| get_path: "fs_step e st (snd (lc_getFileWithFilePath p st))"
| delete_md5: "fs_step e st (snd (lc_deleteFileWithMd5 m tag grp st))"
| delete_key: "fs_step e st (snd (lc_deleteFileWithKey k tag grp st))"
| delete_path: "fs_step e st (snd (lc_deleteFileWithFilePath p tag grp st))"
| delete_after: "fs_step e st (snd (lc_deleteFileInGroup_after grp time st))"
| delete_before: "fs_step e st (snd (lc_deleteFileInGroup_before grp time st))"
| outside: "(\<And>m p. store_path e m p \<Longrightarrow> g p = None \<or> g p = st_files st p)
     \<Longrightarrow> fs_step e st (st\<lparr>st_files := g, st_dirs := d\<rparr>)"

inductive fs_steps :: "env \<Rightarrow> store \<Rightarrow> store \<Rightarrow> bool" for e where
  none: "fs_steps e st st"
| more: "fs_steps e st st' \<Longrightarrow> fs_step e st' st'' \<Longrightarrow> fs_steps e st st''"

text \<open>The three kinds of step, as the invariants see them.\<close>

lemma fs_step_kinds:
  assumes "fs_step e st st'"
  obtains (shrink) "shrinks st st'"
  | (save) day now src key tag grp time del r
    where "lc_saveFileFrom (e\<lparr>e_timeStr := day, e_now := now\<rparr>) src key tag grp time del st = Some (r, st')"
  | (outside) g d where "st' = st\<lparr>st_files := g, st_dirs := d\<rparr>"
      "\<And>m p. store_path e m p \<Longrightarrow> g p = None \<or> g p = st_files st p"
  using assms
proof (cases rule: fs_step.cases)
  case save
  then show ?thesis by (rule that(2))
next
  case outside
  then show ?thesis using that(3) by blast
qed (simp_all add: that(1) shrinks_get shrinks_delete)

lemma fs_steps_invariant:
  assumes "fs_steps e st st'" "I st" "\<And>a b. I a \<Longrightarrow> fs_step e a b \<Longrightarrow> I b"
  shows "I st'"
  using assms(1,2) by (induction rule: fs_steps.induct) (use assms(3) in blast)+

text \<open>The database invariant, and the tag table, over a save.\<close>

lemma copied_db:
  "copied src dst st st' \<Longrightarrow> db_ok st' = db_ok st \<and> db_files st' = db_files st \<and> db_tags st' = db_tags st"
  by (auto simp: copied_def)

lemma copyFile_db:
  assumes "p_copyFile e s m del st = (path, st1)"
  shows "db_ok st1 = db_ok st \<and> db_files st1 = db_files st \<and> db_tags st1 = db_tags st"
  using copyFile_cases [OF assms] copied_db by blast

lemma saveFile_tags: "db_tags (snd (lc_saveFile f st)) = db_tags st"
  by (simp add: lc_saveFile_def)

lemma save_db:
  assumes "lc_saveFileFrom e src key tag grp time del st = Some (r, st')"
  shows "(db_ok st \<longrightarrow> db_ok st') \<and> db_tags st' = db_tags st"
  using saveFileFrom_cases [OF assms]
proof (elim disjE exE conjE)
  fix s c k cp
  assume "cp = p_copyFile e s (e_md5 e c) del st"
  then have "p_copyFile e s (e_md5 e c) del st = (fst cp, snd cp)" by simp
  from copyFile_db [OF this] show "st' = snd (lc_saveFile (the r) (snd cp)) \<Longrightarrow> ?thesis"
    using db_ok_saveFile [of "snd cp" "the r"] saveFile_tags [of "the r" "snd cp"] by simp
qed simp

lemma step_db:
  assumes "fs_step e st st'"
  shows "(db_ok st \<longrightarrow> db_ok st') \<and> tags_of st' \<subseteq> tags_of st"
  using assms
proof (cases rule: fs_step_kinds)
  case shrink
  then show ?thesis by (simp add: shrinks_def)
next
  case save
  then show ?thesis using save_db by (simp add: tags_of_def)
next
  case outside
  then show ?thesis by (simp add: tags_of_def)
qed

section \<open>Integrity of the stored files\<close>

text \<open>An md5 string has no slash and no dot (32 hexadecimal digits, see \<open>Md5Tools\<close>).\<close>

definition plain :: "string \<Rightarrow> bool" where
  "plain s \<longleftrightarrow> s \<noteq> [] \<and> CHR ''/'' \<notin> set s \<and> CHR ''.'' \<notin> set s"

definition plain_md5 :: "env \<Rightarrow> bool" where
  "plain_md5 e \<longleftrightarrow> (\<forall>c. plain (e_md5 e c))"

text \<open>The md5 in the name of a stored file.\<close>

definition path_md5 :: "string \<Rightarrow> string" where
  "path_md5 p = takeWhile (\<lambda>c. c \<noteq> CHR ''.'') (lastPathComponent p)"

lemma lastPathComponent_append:
  assumes "CHR ''/'' \<notin> set c" "dir = [] \<or> last dir = CHR ''/''"
  shows "lastPathComponent (dir @ c) = c"
proof -
  have "takeWhile (\<lambda>c. c \<noteq> CHR ''/'') (rev dir) = []"
    using assms(2) by (cases dir rule: rev_cases) auto
  moreover have "takeWhile (\<lambda>c. c \<noteq> CHR ''/'') (rev c @ rev dir) =
      rev c @ takeWhile (\<lambda>c. c \<noteq> CHR ''/'') (rev dir)"
    using assms(1) by (intro takeWhile_append2) auto
  ultimately show ?thesis by (simp add: lastPathComponent_def)
qed

lemma slash_extension: "CHR ''/'' \<notin> set (pathExtension s)"
proof -
  have "CHR ''/'' \<notin> set (lastPathComponent s)"
    by (auto simp: lastPathComponent_def dest: set_takeWhileD)
  then show ?thesis
    by (auto simp: pathExtension_def Let_def dest: set_takeWhileD)
qed

lemma path_md5_new_path: "plain m \<Longrightarrow> path_md5 (new_path e s m) = m"
proof -
  assume m: "plain m"
  let ?c = "m @ ''.'' @ pathExtension s"
  let ?dir = "p_getSaveDir e"
  let ?d = "if ?dir = [] \<or> last ?dir = CHR ''/'' then ?dir else ?dir @ ''/''"
  have "?d = [] \<or> last ?d = CHR ''/''" by simp
  moreover have "new_path e s m = ?d @ ?c"
    by (simp add: new_path_def stringByAppendingPathExtension_def stringByAppendingPathComponent_def)
  moreover have "CHR ''/'' \<notin> set ?c" using m slash_extension by (simp add: plain_def)
  ultimately have "lastPathComponent (new_path e s m) = ?c" by (simp add: lastPathComponent_append)
  then show ?thesis using m by (simp add: path_md5_def plain_def takeWhile_stop)
qed

lemma store_path_md5: "plain_md5 e \<Longrightarrow> store_path e m p \<Longrightarrow> m = path_md5 p"
  by (auto simp: store_path_def plain_md5_def path_md5_new_path)

text \<open>
  Every row names its file by its md5, and whatever is under a stored file's name has that md5.
\<close>

definition rows_named :: "env \<Rightarrow> store \<Rightarrow> bool" where
  "rows_named e st \<longleftrightarrow>
     (\<forall>f\<in>set (db_files st). \<exists>p m. fm_filePath f = Some p \<and> fm_md5 f = Some m \<and> store_path e m p)"

definition names_true :: "env \<Rightarrow> store \<Rightarrow> bool" where
  "names_true e st \<longleftrightarrow>
     (\<forall>p m c. store_path e m p \<longrightarrow> st_files st p = Some c \<longrightarrow> e_md5 e c = m)"

definition integrity :: "env \<Rightarrow> store \<Rightarrow> bool" where
  "integrity e st \<longleftrightarrow> rows_named e st \<and> names_true e st"

lemma integrity_shrinks: "shrinks st st' \<Longrightarrow> integrity e st \<Longrightarrow> integrity e st'"
  unfolding shrinks_def integrity_def rows_named_def names_true_def
  by (elim conjE) (intro conjI ballI allI impI; blast)

lemma names_true_copied:
  assumes "plain_md5 e" "names_true e st" "copied s (new_path (e\<lparr>e_timeStr := day, e_now := now\<rparr>) s m) st st'"
    "st_files st s = Some c" "m = e_md5 e c"
  shows "names_true e st'"
proof -
  let ?dst = "new_path (e\<lparr>e_timeStr := day, e_now := now\<rparr>) s m"
  have dst: "store_path e m ?dst"
    using assms(5) by (auto simp: store_path_def new_path_def p_getSaveDir_def)
  show ?thesis unfolding names_true_def
  proof (intro allI impI)
    fix p m' c'
    assume p: "store_path e m' p" and c': "st_files st' p = Some c'"
    show "e_md5 e c' = m'"
    proof (cases "p = ?dst")
      case True
      then have "c' = c" using c' assms(3,4) by (auto simp: copied_def split: if_splits)
      moreover have "m' = m" using store_path_md5 [OF assms(1)] p dst True by metis
      ultimately show ?thesis using assms(5) by simp
    next
      case False
      then have "st_files st p = Some c'" using c' assms(3) by (auto simp: copied_def split: if_splits)
      then show ?thesis using assms(2) p by (simp add: names_true_def)
    qed
  qed
qed

lemma rows_named_find:
  "rows_named e st \<Longrightarrow> lc_db_getFileWithMd5 (Some m) st = Some f \<Longrightarrow>
     \<exists>p. fm_filePath f = Some p \<and> store_path e m p"
  unfolding rows_named_def lc_db_getFileWithMd5_def
  by (auto simp: find_Some_iff sql_eq_Some) (metis nth_mem option.inject)

lemma rows_named_saveFile:
  assumes "rows_named e st" "fm_md5 f = Some m" "\<And>p. fm_filePath f = Some p \<Longrightarrow> store_path e m p"
  shows "rows_named e (snd (lc_saveFile f st))"
  using assms by (auto simp: rows_named_def lc_saveFile_def insert_or_replace_def length0_Some)

lemma integrity_save:
  assumes "plain_md5 e" "integrity e st"
    "lc_saveFileFrom (e\<lparr>e_timeStr := day, e_now := now\<rparr>) src key tag grp time del st = Some (r, st')"
  shows "integrity e st'"
  using saveFileFrom_cases [OF assms(3)]
proof (elim disjE exE conjE)
  let ?e = "e\<lparr>e_timeStr := day, e_now := now\<rparr>"
  fix s c k cp
  assume c: "st_files st s = Some c" and "cp = p_copyFile ?e s (e_md5 ?e c) del st"
    and r: "r = Some \<lparr>fm_key = Some k, fm_md5 = Some (e_md5 ?e c), fm_filePath = fst cp\<rparr>"
    and st': "st' = snd (lc_saveFile (the r) (snd cp))"
  then have cp: "p_copyFile ?e s (e_md5 e c) del st = (fst cp, snd cp)" by simp
  have new: "store_path e (e_md5 e c) (new_path ?e s (e_md5 e c))"
    by (auto simp: store_path_def new_path_def p_getSaveDir_def)
  have rows: "rows_named e (snd cp)"
    using copyFile_db [OF cp] assms(2) by (simp add: integrity_def rows_named_def)
  have path: "store_path e (e_md5 e c) p" if "fst cp = Some p" for p
    using copyFile_cases [OF cp] new that rows_named_find [of e st "e_md5 e c"] assms(2)
    by (auto simp: integrity_def)
  have "names_true e (snd cp)"
    using copyFile_cases [OF cp] assms(2) names_true_copied [OF assms(1) _ _ c refl]
    by (auto simp: integrity_def)
  moreover have "names_true e (snd (lc_saveFile f st1)) = names_true e st1" for f st1
    by (simp add: names_true_def lc_saveFile_def)
  ultimately show ?thesis
    using rows_named_saveFile [OF rows, of "the r" "e_md5 e c"] path
    by (simp add: integrity_def st' r)
qed (use assms(2) in simp)

lemma integrity_step:
  assumes "plain_md5 e" "integrity e st" "fs_step e st st'"
  shows "integrity e st'"
  using assms(3)
proof (cases rule: fs_step_kinds)
  case shrink
  then show ?thesis using assms(2) by (rule integrity_shrinks)
next
  case save
  then show ?thesis using assms(1,2) by (blast intro: integrity_save)
next
  case (outside g d)
  then show ?thesis using assms(2)
    by (simp add: integrity_def rows_named_def names_true_def) (metis option.distinct(1))
qed

section \<open>What the reads and the deletions do\<close>

lemma fold_remove_files:
  assumes "\<And>f p. f \<in> set fs \<Longrightarrow> fm_filePath f = Some p \<Longrightarrow> \<not> st_dirs st p"
  shows "fold remove_file_of fs st =
    st\<lparr>st_files := (\<lambda>q. if \<exists>f\<in>set fs. fm_filePath f = Some q then None else st_files st q)\<rparr>"
  using assms
proof (induction fs arbitrary: st)
  case (Cons f fs)
  let ?st = "st\<lparr>st_files := (\<lambda>q. if fm_filePath f = Some q then None else st_files st q)\<rparr>"
  have step: "remove_file_of f st = ?st"
    using Cons.prems [of f]
    by (cases "fm_filePath f")
      (auto simp: remove_file_of_def removeItemAtPath_def fileExistsAtPath_def fun_eq_iff
        intro!: store.equality)
  have "fold remove_file_of fs ?st =
      ?st\<lparr>st_files := (\<lambda>q. if \<exists>f\<in>set fs. fm_filePath f = Some q then None else st_files ?st q)\<rparr>"
    by (rule Cons.IH) (use Cons.prems in auto)
  moreover have "(\<lambda>q. if \<exists>g\<in>set fs. fm_filePath g = Some q then None else st_files ?st q) =
      (\<lambda>q. if \<exists>g\<in>set (f # fs). fm_filePath g = Some q then None else st_files st q)"
    by (auto simp: fun_eq_iff)
  ultimately show ?case by (simp add: step)
qed simp

text \<open>The rows left by a collection, and the files.\<close>

definition tag_list :: "'a lc_db_scheme \<Rightarrow> LCFileTagM list" where
  "tag_list db = (case db_tags db of None \<Rightarrow> [] | Some ts \<Rightarrow> ts)"

definition files_not_dirs :: "store \<Rightarrow> bool" where
  "files_not_dirs st \<longleftrightarrow>
     (\<forall>f\<in>set (db_files st). \<forall>p. fm_filePath f = Some p \<longrightarrow> \<not> st_dirs st p)"

lemma p_deleteNoTagFile_eq:
  assumes "db_ok st" "files_not_dirs st" "db_tags st = Some ts"
  shows "p_deleteNoTagFile st = st\<lparr>
     db_files := filter (\<lambda>f. tagged ts (fm_md5 f)) (db_files st),
     st_files := (\<lambda>q. if \<exists>f\<in>set (db_files st). \<not> tagged ts (fm_md5 f) \<and> fm_filePath f = Some q
                     then None else st_files st q)\<rparr>"
proof -
  let ?fs = "filter (\<lambda>f. \<not> tagged ts (fm_md5 f)) (db_files st)"
  have fs: "lc_getNoTagFile st = ?fs" using assms(1,3) by (simp add: lc_getNoTagFile_eq)
  have "f \<in> set (db_files st) \<Longrightarrow>
      list_ex (sql_eq (fm_md5 f)) (map fm_md5 ?fs) \<longleftrightarrow> \<not> tagged ts (fm_md5 f)" for f
    using assms(1) by (auto simp: list_ex_iff sql_eq_Some db_ok_def list_all_iff file_row_ok_def length0_Some)
      (metis option.inject)
  then have "filter (\<lambda>f. \<not> list_ex (sql_eq (fm_md5 f)) (map fm_md5 ?fs)) (db_files st)
      = filter (\<lambda>f. tagged ts (fm_md5 f)) (db_files st)"
    by (intro filter_cong) auto
  moreover have "fold remove_file_of ?fs st = st\<lparr>st_files := (\<lambda>q.
      if \<exists>f\<in>set ?fs. fm_filePath f = Some q then None else st_files st q)\<rparr>"
    using assms(2) by (intro fold_remove_files) (auto simp: files_not_dirs_def)
  ultimately show ?thesis
    unfolding p_deleteNoTagFile_def Let_def fs lc_db_deleteFileWithMd5s_def
    by (auto simp: fun_eq_iff intro!: store.equality)
qed

lemma tag_count_0:
  "(case lc_getTagWithMd5 m st of None \<Rightarrow> 0 | Some ts \<Rightarrow> length ts) = 0 \<longleftrightarrow> \<not> tagged (tag_list st) m"
  by (auto simp: lc_getTagWithMd5_def select_tags_def tag_list_def tagged_def list_ex_iff
      filter_empty_conv split: option.splits)

text \<open>The three outcomes of \<open>p_fileExist\<close> on a row, and its outcome on nil.\<close>

lemma p_fileExist_row:
  assumes "fm_md5 f = Some m" "m \<noteq> []" "fm_filePath f = Some p" "\<not> st_dirs st p"
  shows "p_fileExist (Some f) st =
    (if st_files st p = None
     then (False, st\<lparr>db_files := filter (\<lambda>g. fm_md5 g \<noteq> Some m) (db_files st),
                     db_tags := map_option (filter (\<lambda>t. tg_md5 t \<noteq> Some m)) (db_tags st)\<rparr>)
     else if \<not> tagged (tag_list st) (Some m)
     then (False, st\<lparr>db_files := filter (\<lambda>g. fm_md5 g \<noteq> Some m) (db_files st),
                     st_files := (st_files st)(p := None)\<rparr>)
     else (True, st))"
proof -
  have eq: "sql_eq x (Some m) \<longleftrightarrow> x = Some m" for x by (auto simp: sql_eq_Some)
  have del: "snd (lc_db_deleteFileWithMd5 (Some m) st) =
      st\<lparr>db_files := filter (\<lambda>g. fm_md5 g \<noteq> Some m) (db_files st)\<rparr>"
    by (simp add: lc_db_deleteFileWithMd5_def eq)
  have tags: "snd (lc_deleteTag None (Some m) None st') =
      st'\<lparr>db_tags := map_option (filter (\<lambda>t. tg_md5 t \<noteq> Some m)) (db_tags st')\<rparr>" for st' :: store
    using assms(2) by (simp add: lc_deleteTag_def Let_def delete_tags_def eq split: option.splits)
  show ?thesis
    using assms tag_count_0 [of "Some m" st]
    by (simp add: p_fileExist_def Let_def del tags fileExistsAtPath_def removeItemAtPath_def)
qed

lemma p_fileExist_nil:
  "p_fileExist None st = (False, st\<lparr>db_tags := map_option (\<lambda>ts. []) (db_tags st)\<rparr>)"
  by (simp add: p_fileExist_def Let_def fileExistsAtPath_def lc_db_deleteFileWithMd5_def
      lc_deleteTag_def delete_tags_def split: option.splits)

lemma p_fileExist_no_tags: "tags_of st = {} \<Longrightarrow> \<not> fst (p_fileExist f st)"
proof -
  assume "tags_of st = {}"
  then have "(case lc_getTagWithMd5 m st of None \<Rightarrow> 0 | Some ts \<Rightarrow> length ts) = 0" for m
    by (auto simp: tag_count_0 tags_of_def tag_list_def tagged_def split: option.splits)
  then show ?thesis by (simp add: p_fileExist_def Let_def)
qed

lemma no_tags_steps: "fs_steps e st st' \<Longrightarrow> tags_of st = {} \<Longrightarrow> tags_of st' = {}"
  using fs_steps_invariant [of e st st' "\<lambda>st. tags_of st = {}"] step_db by blast

section \<open>A concrete store\<close>

text \<open>A store with one tagged file, used to instantiate the properties.\<close>

definition ex_env :: env where
  "ex_env = \<lparr>e_md5 = (\<lambda>c. if c = [] then ''d4'' else ''5e''), e_rootDir = ''/D'',
     e_timeStr = ''1'', e_now = 7\<rparr>"

definition ex_row :: LCFileM where
  "ex_row = \<lparr>fm_key = Some ''k'', fm_md5 = Some ''5e'', fm_filePath = Some ''/D/1/5e.txt''\<rparr>"

definition ex_tag :: LCFileTagM where
  "ex_tag = \<lparr>tg_tagId = Some ''chat'', tg_md5 = Some ''5e'', tg_tag = Some ''chat'',
     tg_group = Some ''g'', tg_time = 5\<rparr>"

definition ex_store :: store where
  "ex_store = \<lparr>db_files = [ex_row], db_tags = Some [ex_tag],
     st_files = [''/D/1/5e.txt'' \<mapsto> [1], ''/tmp/a.txt'' \<mapsto> [1]],
     st_dirs = (\<lambda>p. p \<in> {''/D'', ''/D/1'', ''/tmp''})\<rparr>"

definition ex_fresh :: store where
  "ex_fresh = \<lparr>db_files = [], db_tags = Some [], st_files = [''/tmp/a.txt'' \<mapsto> [1]],
     st_dirs = (\<lambda>p. p \<in> {''/D'', ''/D/1'', ''/tmp''})\<rparr>"

lemmas ex_defs = ex_env_def ex_row_def ex_tag_def ex_store_def ex_fresh_def

lemma ex_store_ok: "db_ok ex_store" "files_not_dirs ex_store"
  by (simp_all add: ex_defs db_ok_def unique_key_def rows_at_def file_row_ok_def tag_row_ok_def
      files_not_dirs_def)

lemma ex_plain: "plain_md5 ex_env"
  by (simp add: plain_md5_def plain_def ex_env_def)

lemma ex_integrity: "integrity ex_env ex_store"
proof -
  have md5: "st_files ex_store p = Some c \<Longrightarrow> c = [1]" for p c
    by (auto simp: ex_store_def split: if_splits)
  have "store_path ex_env ''5e'' ''/D/1/5e.txt''"
    unfolding store_path_def
    by (rule exI [of _ "''1''"], rule exI [of _ "''a.txt''"], rule exI [of _ "[1]"])
      (simp add: ex_env_def new_path_def p_getSaveDir_def stringByAppendingPathComponent_def
        stringByAppendingPathExtension_def pathExtension_def lastPathComponent_def)
  moreover have "e_md5 ex_env [1] = m" if "store_path ex_env m p" "st_files ex_store p = Some [1]" for m p
  proof (cases "p = ''/D/1/5e.txt''")
    case True
    then show ?thesis using store_path_md5 [OF ex_plain that(1)]
      by (simp add: path_md5_def lastPathComponent_def ex_env_def)
  next
    case False
    then have "p = ''/tmp/a.txt''" using that(2) by (simp add: ex_store_def split: if_splits)
    moreover have "take 2 p = ''/D''"
      using that(1) by (auto simp: store_path_def new_path_def p_getSaveDir_def ex_env_def
          stringByAppendingPathComponent_def stringByAppendingPathExtension_def)
    ultimately show ?thesis by simp
  qed
  moreover have "rows_named ex_env ex_store"
    using calculation(1) unfolding rows_named_def ex_store_def ex_row_def by simp
  ultimately show ?thesis using md5 unfolding integrity_def names_true_def by blast
qed

lemmas path_simps = new_path_def p_getSaveDir_def stringByAppendingPathComponent_def
  stringByAppendingPathExtension_def pathExtension_def lastPathComponent_def
  stringByDeletingLastPathComponent_def Let_def

section \<open>Properties\<close>

text \<open>
  C1: no file ever comes back. \<open>lc_saveFileFrom\<close> fills in only the md5 and the time of its tag,
  so \<open>lc_saveTag\<close> refuses it for want of a name; starting from a tag table that is empty or
  missing, whatever sequence of saves, reads, deletions and outside changes happens, every
  \<open>lc_getFileWith\<dots>\<close> answers nil.
\<close>

theorem saved_file_never_returned:
  assumes "fs_steps e st0 st" and "db_tags st0 = None \<or> db_tags st0 = Some []"
  shows "fst (lc_getFileWithMd5 m st) = None \<and> fst (lc_getFileWithKey k st) = None
    \<and> fst (lc_getFileWithFilePath p st) = None"
proof -
  have "tags_of st = {}" using no_tags_steps [OF assms(1)] assms(2) by (auto simp: tags_of_def)
  then have "\<not> fst (p_fileExist f st)" for f by (rule p_fileExist_no_tags)
  then show ?thesis
    by (simp add: lc_getFileWithMd5_def lc_getFileWithKey_def lc_getFileWithFilePath_def
        case_prod_unfold)
qed

theorem saved_file_never_returned_witness:
  "\<exists>f st1. lc_saveFileFrom ex_env (Some ''/tmp/a.txt'') (Some ''k'') (Some ''chat'') (Some ''g'') 0 False ex_fresh
       = Some (Some f, st1)
     \<and> f \<in> set (db_files st1) \<and> st_files st1 ''/D/1/5e.txt'' = Some [1]
     \<and> fst (lc_getFileWithKey (Some ''k'') st1) = None"
proof -
  obtain f st1 where save: "lc_saveFileFrom (ex_env\<lparr>e_timeStr := ''1'', e_now := 7\<rparr>) (Some ''/tmp/a.txt'')
        (Some ''k'') (Some ''chat'') (Some ''g'') 0 False ex_fresh = Some (Some f, st1)"
      "f \<in> set (db_files st1)" "st_files st1 ''/D/1/5e.txt'' = Some [1]"
    by (simp add: ex_defs lc_saveFileFrom_def p_copyFile_def p_copyNew_def copyItem_def path_simps
        fileExistsAtPath_def lc_db_getFileWithMd5_def lc_saveFile_def lc_saveTag_def file_not_null_def
        insert_or_replace_def)
  have "fs_steps ex_env ex_fresh st1" by (rule fs_steps.more [OF fs_steps.none fs_step.save [OF save(1)]])
  then have "fst (lc_getFileWithKey (Some ''k'') st1) = None"
    using saved_file_never_returned [of ex_env ex_fresh st1] by (simp add: ex_fresh_def)
  moreover have "ex_env\<lparr>e_timeStr := ''1'', e_now := 7\<rparr> = ex_env" by (simp add: ex_env_def)
  ultimately show ?thesis using save by auto
qed

text \<open>
  C3: the database invariant. Every sequence of operations keeps both tables well formed: at
  most one row per primary key, no NULL or empty column where the code forbids it, and a tag's
  primary key is its name.
\<close>

theorem fs_db_invariant:
  assumes "fs_steps e st0 st" "db_ok st0"
  shows "db_ok st"
  using fs_steps_invariant [OF assms(1), of db_ok] assms(2) step_db by blast

theorem fs_db_invariant_witness: "db_ok (snd (lc_getFileWithKey (Some ''k'') ex_store))"
  using fs_db_invariant [OF fs_steps.more [OF fs_steps.none fs_step.get_key] ex_store_ok(1)] .

text \<open>
  C2: integrity of the stored files. If md5 strings have no slash and no dot, and nobody else
  writes under the service's own names, then after any sequence of operations the file of every
  row, if it is still there, has the md5 the row says; in particular a file that a read returns
  has the md5 that was asked for.
\<close>

theorem stored_content_has_md5:
  assumes "plain_md5 e" "integrity e st0" "fs_steps e st0 st"
    and "f \<in> set (db_files st)" "fm_filePath f = Some p" "st_files st p = Some c"
  shows "fm_md5 f = Some (e_md5 e c) \<and>
    (fst (lc_getFileWithMd5 m st) = Some f \<longrightarrow> m = Some (e_md5 e c))"
proof -
  have "integrity e st"
    using fs_steps_invariant [OF assms(3), of "integrity e"] assms(1,2) integrity_step by blast
  then have "fm_md5 f = Some (e_md5 e c)"
    using assms(4-6) by (auto simp: integrity_def rows_named_def names_true_def)
  moreover have "sql_eq (fm_md5 f) m" if "fst (lc_getFileWithMd5 m st) = Some f"
    using that by (auto simp: lc_getFileWithMd5_def lc_db_getFileWithMd5_def Let_def case_prod_unfold
        split: if_splits dest: find_SomeD)
  ultimately show ?thesis by (auto simp: sql_eq_Some)
qed

theorem stored_content_has_md5_witness:
  "fm_md5 ex_row = Some (e_md5 ex_env [1])"
  by (rule stored_content_has_md5 [OF ex_plain ex_integrity fs_steps.none, THEN conjunct1,
        of ex_row "''/D/1/5e.txt''"]) (simp_all add: ex_store_def ex_row_def)

text \<open>
  What a read by md5 answers. The first row with the md5 decides: the row is returned and
  nothing changes when its file exists and some tag has the md5; otherwise nil is returned, all
  rows with the md5 are gone, and so is the file; when it was the file that was missing, the
  tags with that md5 are gone as well.
\<close>

lemma get_by_md5:
  assumes "db_ok st" "files_not_dirs st"
    and row: "lc_db_getFileWithMd5 (Some m) st = Some f" "fm_filePath f = Some p"
    and get: "lc_getFileWithMd5 (Some m) st = (r, st')"
  shows "fm_md5 f = Some m \<and>
    (if st_files st p \<noteq> None \<and> tagged (tag_list st) (Some m) then r = Some f \<and> st' = st
     else r = None \<and> st_files st' p = None
       \<and> db_files st' = filter (\<lambda>g. fm_md5 g \<noteq> Some m) (db_files st)
       \<and> tag_list st' = filter (\<lambda>t. tg_md5 t \<noteq> Some m) (tag_list st))"
proof -
  have f: "f \<in> set (db_files st)" "fm_md5 f = Some m"
    using row(1) by (auto simp: lc_db_getFileWithMd5_def sql_eq_Some dest: find_SomeD)
  have "m \<noteq> []" using f assms(1) by (auto simp: db_ok_def list_all_iff file_row_ok_def)
  moreover have "\<not> st_dirs st p" using f row(2) assms(2) by (simp add: files_not_dirs_def)
  ultimately have *: "p_fileExist (Some f) st = (if st_files st p = None
     then (False, st\<lparr>db_files := filter (\<lambda>g. fm_md5 g \<noteq> Some m) (db_files st),
                     db_tags := map_option (filter (\<lambda>t. tg_md5 t \<noteq> Some m)) (db_tags st)\<rparr>)
     else if \<not> tagged (tag_list st) (Some m)
     then (False, st\<lparr>db_files := filter (\<lambda>g. fm_md5 g \<noteq> Some m) (db_files st),
                     st_files := (st_files st)(p := None)\<rparr>)
     else (True, st))"
    by (intro p_fileExist_row f(2) row(2))
  have untagged: "filter (\<lambda>t. tg_md5 t \<noteq> Some m) ts = ts" if "\<not> tagged ts (Some m)" for ts
    using that by (auto simp: tagged_def list_ex_iff sql_eq_Some filter_id_conv)
  show ?thesis using get f(2) row(1) untagged [of "tag_list st"]
    by (auto simp: lc_getFileWithMd5_def * tag_list_def Let_def split: if_splits option.splits)
qed

lemma get_by_md5_witness:
  "lc_getFileWithMd5 (Some ''5e'') ex_store = (Some ex_row, ex_store)"
proof -
  obtain r st' where get: "lc_getFileWithMd5 (Some ''5e'') ex_store = (r, st')" by fastforce
  have "lc_db_getFileWithMd5 (Some ''5e'') ex_store = Some ex_row" "fm_filePath ex_row = Some ''/D/1/5e.txt''"
    by (simp_all add: lc_db_getFileWithMd5_def ex_defs)
  from get_by_md5 [OF ex_store_ok this get] get show ?thesis
    by (simp add: ex_store_def ex_tag_def tag_list_def tagged_def)
qed





text \<open>
  One copy on disk. When a row with the source's md5 has its file on disk, saving the source
  again, under any key, returns that file's path and leaves every file where it is; the source
  is left in place too, even when its removal was asked for.
\<close>

lemma save_again_shares_file:
  assumes "src = Some s" "st_files st s = Some c" "\<not> length0 tag"
    and "lc_db_getFileWithMd5 (Some (e_md5 e c)) st = Some old" "fileExistsAtPath (fm_filePath old) st"
  shows "\<exists>f st'. lc_saveFileFrom e src key tag grp time del st = Some (Some f, st')
     \<and> fm_filePath f = fm_filePath old \<and> fm_md5 f = Some (e_md5 e c)
     \<and> st_files st' = st_files st \<and> st_dirs st' = st_dirs st"
  using assms by (auto simp: lc_saveFileFrom_def p_copyFile_def Let_def saveTag_refused
      case_prod_unfold lc_saveFile_def fileExistsAtPath_def split: option.splits)

lemma save_again_shares_file_witness:
  "\<exists>f st'. lc_saveFileFrom ex_env (Some ''/tmp/a.txt'') (Some ''k2'') (Some ''x'') None 0 True ex_store = Some (Some f, st')
     \<and> fm_filePath f = Some ''/D/1/5e.txt'' \<and> st_files st' ''/tmp/a.txt'' = Some [1]"
proof -
  have "lc_db_getFileWithMd5 (Some (e_md5 ex_env [1])) ex_store = Some ex_row"
    "fileExistsAtPath (fm_filePath ex_row) ex_store" "st_files ex_store ''/tmp/a.txt'' = Some [1]"
    by (simp_all add: lc_db_getFileWithMd5_def fileExistsAtPath_def ex_defs)
  from save_again_shares_file [OF refl this(3) _ this(1,2), of "Some ''x''" "Some ''k2''" None 0 True]
  show ?thesis by (auto simp: ex_store_def ex_row_def)
qed

end
