(* ===== verification/NetTask.thy ===== *)
theory NetTask
  imports FileDB
begin

text \<open>
  Transfer tasks and their table (\<open>FileNetService/Model/LCFileNetTask.m\<close>,
  \<open>FileNetService/DB/LCFileTaskDB.mm\<close>). A task is a mutable object; its fields are a record
  here and \<open>NetService\<close> keeps the records in a heap. Sizes are 64-bit numbers that only get
  stored and compared, so they are \<open>int\<close>. A callback block is known by its identity.
\<close>

section \<open>Tasks\<close>

datatype LCFileNetTaskStatus =
    LCFileNetTaskStatusCreate | LCFileNetTaskStatusProgress | LCFileNetTaskStatusFinish
  | LCFileNetTaskStatusFailed | LCFileNetTaskStatusCanceled | LCFileNetTaskStatusPause
  | LCFileNetTaskStatusInterrupt | LCFileNetTaskStatusUnkown

datatype LCFileNetTaskType =
    LCFileNetTaskTypeUnknown | LCFileNetTaskTypeUpload | LCFileNetTaskTypeDownload

type_synonym block = nat

record LCFileNetTask =
  t_taskId :: nsstring
  t_fileKey :: nsstring
  t_md5 :: nsstring
  t_type :: LCFileNetTaskType
  t_status :: LCFileNetTaskStatus
  t_way :: nsstring
  t_totalSize :: int
  t_finishedSize :: int
  t_fileName :: nsstring
  t_filePath :: nsstring
  t_url :: nsstring
  t_progressCallback :: "block option"
  t_finishCallback :: "block option"
  t_statusCallback :: "block option"

text \<open>\<open>[[LCFileNetTask alloc] init]\<close>: every field zero, which is the first enumerator.\<close>

definition new_task :: LCFileNetTask where
  "new_task = \<lparr>t_taskId = None, t_fileKey = None, t_md5 = None,
     t_type = LCFileNetTaskTypeUnknown, t_status = LCFileNetTaskStatusCreate, t_way = None,
     t_totalSize = 0, t_finishedSize = 0, t_fileName = None, t_filePath = None, t_url = None,
     t_progressCallback = None, t_finishCallback = None, t_statusCallback = None\<rparr>"

definition lc_uploadTask :: "nsstring \<Rightarrow> nsstring \<Rightarrow> nsstring \<Rightarrow> nsstring \<Rightarrow> LCFileNetTask" where
  "lc_uploadTask taskId fileKey md5 filePath =
     new_task\<lparr>t_taskId := taskId, t_fileKey := fileKey, t_type := LCFileNetTaskTypeUpload,
              t_filePath := filePath\<rparr>"

definition lc_downlaodTask :: "nsstring \<Rightarrow> nsstring \<Rightarrow> nsstring \<Rightarrow> nsstring \<Rightarrow> LCFileNetTask" where
  "lc_downlaodTask taskId fileKey filePath url =
     new_task\<lparr>t_taskId := taskId, t_fileKey := fileKey, t_filePath := filePath, t_url := url\<rparr>"

section \<open>The task table\<close>

text \<open>Blocks are not columns: a row is a task without callbacks.\<close>

definition task_columns :: "LCFileNetTask \<Rightarrow> LCFileNetTask" where
  "task_columns t =
     t\<lparr>t_progressCallback := None, t_finishCallback := None, t_statusCallback := None\<rparr>"

type_synonym task_table = "LCFileNetTask list"

definition lc_saveTask :: "LCFileNetTask \<Rightarrow> task_table \<Rightarrow> bool \<times> task_table" where
  "lc_saveTask t rows =
     (if t_taskId t = None then (False, rows)
      else (True, insert_or_replace t_taskId (task_columns t) rows))"

definition lc_getTaskByTaskId :: "nsstring \<Rightarrow> task_table \<Rightarrow> LCFileNetTask option" where
  "lc_getTaskByTaskId i rows = find (\<lambda>t. sql_eq (t_taskId t) i) rows"

definition lc_getTaskByMd5 :: "nsstring \<Rightarrow> task_table \<Rightarrow> LCFileNetTask list" where
  "lc_getTaskByMd5 md5 rows = filter (\<lambda>t. sql_eq (t_md5 t) md5) rows"

definition lc_getTaskByFileKey :: "nsstring \<Rightarrow> task_table \<Rightarrow> LCFileNetTask list" where
  "lc_getTaskByFileKey fileKey rows = filter (\<lambda>t. sql_eq (t_fileKey t) fileKey) rows"

definition lc_deleteTaskByTaskId :: "nsstring \<Rightarrow> task_table \<Rightarrow> task_table" where
  "lc_deleteTaskByTaskId i rows = filter (\<lambda>t. \<not> sql_eq (t_taskId t) i) rows"

definition update_rows :: "nsstring \<Rightarrow> (LCFileNetTask \<Rightarrow> LCFileNetTask) \<Rightarrow> task_table \<Rightarrow> task_table" where
  "update_rows i f rows = map (\<lambda>t. if sql_eq (t_taskId t) i then f t else t) rows"

definition lc_updateTask_status :: "nsstring \<Rightarrow> LCFileNetTaskStatus \<Rightarrow> task_table \<Rightarrow> task_table" where
  "lc_updateTask_status i status = update_rows i (\<lambda>t. t\<lparr>t_status := status\<rparr>)"

definition lc_updateTask_size :: "nsstring \<Rightarrow> int \<Rightarrow> int \<Rightarrow> task_table \<Rightarrow> task_table" where
  "lc_updateTask_size i finishedSize totalSize =
     update_rows i (\<lambda>t. t\<lparr>t_finishedSize := finishedSize, t_totalSize := totalSize\<rparr>)"

definition lc_updateTask_filePath :: "nsstring \<Rightarrow> nsstring \<Rightarrow> task_table \<Rightarrow> task_table" where
  "lc_updateTask_filePath i filePath = update_rows i (\<lambda>t. t\<lparr>t_filePath := filePath\<rparr>)"

section \<open>The table is keyed by \<open>taskId\<close>\<close>

definition task_table_ok :: "task_table \<Rightarrow> bool" where
  "task_table_ok rows \<longleftrightarrow> unique_key t_taskId rows \<and> list_all (\<lambda>t. t_taskId t \<noteq> None) rows"

interpretation task_table: keyed_table t_taskId "insert_or_replace t_taskId"
  by unfold_locales (simp_all add: insert_or_replace_at, auto simp: insert_or_replace_def)

lemma task_columns_id [simp]: "t_taskId (task_columns t) = t_taskId t"
  "t_status (task_columns t) = t_status t" "task_columns (task_columns t) = task_columns t"
  by (simp_all add: task_columns_def)

lemma task_table_ok_Nil [simp]: "task_table_ok []"
  by (simp add: task_table_ok_def unique_key_def rows_at_def)

lemma task_table_ok_save: "task_table_ok rows \<Longrightarrow> task_table_ok (snd (lc_saveTask t rows))"
  by (auto simp: task_table_ok_def lc_saveTask_def intro: task_table.unique_put task_table.all_put)

lemma task_table_ok_delete: "task_table_ok rows \<Longrightarrow> task_table_ok (lc_deleteTaskByTaskId i rows)"
  by (auto simp: task_table_ok_def lc_deleteTaskByTaskId_def intro: task_table.unique_filter list_all_filter)

lemma unique_key_map:
  assumes "\<And>t. key (f t) = key t"
  shows "unique_key key (map f rows) = unique_key key rows"
  by (simp add: unique_key_def rows_at_def filter_map comp_def assms)

lemma task_table_ok_update:
  assumes "\<And>t. t_taskId (f t) = t_taskId t"
  shows "task_table_ok (update_rows i f rows) = task_table_ok rows"
  unfolding task_table_ok_def update_rows_def
  by (subst unique_key_map) (auto simp: assms list_all_iff)

lemma task_table_ok_updates [simp]:
  "task_table_ok (lc_updateTask_status i s rows) = task_table_ok rows"
  "task_table_ok (lc_updateTask_size i fs ts rows) = task_table_ok rows"
  "task_table_ok (lc_updateTask_filePath i p rows) = task_table_ok rows"
  by (simp_all add: lc_updateTask_status_def lc_updateTask_size_def lc_updateTask_filePath_def
      task_table_ok_update)

lemma get_save: "t_taskId t = Some k \<Longrightarrow>
    lc_getTaskByTaskId (Some k) (snd (lc_saveTask t rows)) = Some (task_columns t)"
  by (simp add: lc_getTaskByTaskId_def lc_saveTask_def task_table.find_put)

lemma get_delete: "lc_getTaskByTaskId i (lc_deleteTaskByTaskId i rows) = None"
  by (simp add: lc_getTaskByTaskId_def lc_deleteTaskByTaskId_def find_eq_None)

lemma find_map: "find P (map f xs) = map_option f (find (\<lambda>x. P (f x)) xs)"
  by (induction xs) auto

lemma get_update:
  assumes "\<And>t. t_taskId (f t) = t_taskId t"
  shows "lc_getTaskByTaskId (Some k) (update_rows (Some i) f rows) =
    map_option (if k = i then f else id) (lc_getTaskByTaskId (Some k) rows)"
proof -
  have eq: "sql_eq x (Some m) \<longleftrightarrow> x = Some m" for x and m :: string by (auto simp: sql_eq_Some)
  have id: "t_taskId (if t_taskId t = Some i then f t else t) = t_taskId t" for t
    by (simp add: assms)
  show ?thesis
    by (cases "find (\<lambda>t. t_taskId t = Some k) rows")
      (auto simp: lc_getTaskByTaskId_def update_rows_def find_map eq id dest: find_SomeD)
qed

lemma get_taskId: "lc_getTaskByTaskId i rows = Some t \<Longrightarrow> i = t_taskId t \<and> t_taskId t \<noteq> None"
  by (auto simp: lc_getTaskByTaskId_def sql_eq_Some dest: find_SomeD)

end
