(* ===== verification/NetService.thy ===== *)
theory NetService
  imports NetTask
begin

text \<open>
  The transfer service and its operations (\<open>FileNetService/LCFileNetService.m\<close>,
  \<open>FileNetService/Model/LCFileNetOperation.m\<close>). Tasks and operations are objects that the
  cache, the operation dictionary, the queues and the handler share, so they live in heaps and
  are known by their address. A handler is whatever implements the protocol
  \<open>LCFileNetHander\<close>: which of its methods it has, and which callbacks it makes before a method
  returns, are parameters; later callbacks are steps of their own. What observers, callback
  blocks and the handler are told is appended to a log. A method is a state transformer, \<open>None\<close>
  an Objective-C exception (a nil dictionary key, an unrecognized selector).
\<close>

section \<open>State\<close>

datatype hander_call = HanderUpload | HanderDownload | HanderResumUpload | HanderResumDownload
  | HanderCancel | HanderPause

text \<open>What a handler does to the task before it calls back, and the callbacks.\<close>

datatype reply = ReplyProgress int int | ReplySet nsstring nsstring | ReplySizes int int | ReplyFinish bool

record hander =
  responds :: "hander_call \<Rightarrow> bool"
  replies :: "hander_call \<Rightarrow> LCFileNetTask \<Rightarrow> reply list"

record net_env =
  ne_hander :: "hander option"
  ne_fileExists :: "string \<Rightarrow> bool"
  ne_md5 :: "string \<Rightarrow> string"

text \<open>Observers told of a change (with the status at that time), blocks run, handler called.\<close>

datatype notice =
    StatusChange nat LCFileNetTaskStatus | ProgressNote nat | FinishNote nat bool
  | StatusBlock block nat | ProgressBlock block nat | FinishBlock block nat bool
  | HanderCalled hander_call nat

record LCFileNetOperation =
  o_task :: nat
  o_executing :: bool
  o_finished :: bool
  o_cancelled :: bool

datatype queue = UploadQueue | DownloadQueue | GivenQueue nat

record svc =
  tasks :: "nat \<Rightarrow> LCFileNetTask"
  next_task :: nat
  ops :: "nat \<Rightarrow> LCFileNetOperation"
  next_op :: nat
  cache :: "string \<rightharpoonup> nat"
  taskOperationDic :: "string \<rightharpoonup> nat"
  queued :: "(nat \<times> queue) list"
  task_db :: task_table
  progressCallbackCache :: "string \<rightharpoonup> block list"
  statusCallbackCache :: "string \<rightharpoonup> block list"
  finishCallbackCache :: "string \<rightharpoonup> block list"
  told :: "notice list"

definition init_svc :: svc where
  "init_svc = \<lparr>tasks = (\<lambda>_. new_task), next_task = 0,
     ops = (\<lambda>_. \<lparr>o_task = 0, o_executing = False, o_finished = False, o_cancelled = False\<rparr>),
     next_op = 0, cache = Map.empty, taskOperationDic = Map.empty, queued = [], task_db = [],
     progressCallbackCache = Map.empty, statusCallbackCache = Map.empty,
     finishCallbackCache = Map.empty, told = []\<rparr>"

definition upd_task :: "nat \<Rightarrow> (LCFileNetTask \<Rightarrow> LCFileNetTask) \<Rightarrow> svc \<Rightarrow> svc" where
  "upd_task a f s = s\<lparr>tasks := (tasks s)(a := f (tasks s a))\<rparr>"

definition upd_op :: "nat \<Rightarrow> (LCFileNetOperation \<Rightarrow> LCFileNetOperation) \<Rightarrow> svc \<Rightarrow> svc" where
  "upd_op oid f s = s\<lparr>ops := (ops s)(oid := f (ops s oid))\<rparr>"

definition upd_db :: "(task_table \<Rightarrow> task_table) \<Rightarrow> svc \<Rightarrow> svc" where
  "upd_db f s = s\<lparr>task_db := f (task_db s)\<rparr>"

definition tell :: "notice list \<Rightarrow> svc \<Rightarrow> svc" where
  "tell ns s = s\<lparr>told := told s @ ns\<rparr>"

definition alloc_task :: "LCFileNetTask \<Rightarrow> svc \<Rightarrow> nat \<times> svc" where
  "alloc_task t s = (next_task s, s\<lparr>tasks := (tasks s)(next_task s := t), next_task := next_task s + 1\<rparr>)"

abbreviation id_of :: "svc \<Rightarrow> nat \<Rightarrow> nsstring" where
  "id_of s a \<equiv> t_taskId (tasks s a)"

abbreviation status_of :: "svc \<Rightarrow> nat \<Rightarrow> LCFileNetTaskStatus" where
  "status_of s a \<equiv> t_status (tasks s a)"

text \<open>\<open>objectForKey:\<close> with a nil key answers nil.\<close>

definition lookup :: "(string \<rightharpoonup> 'v) \<Rightarrow> nsstring \<Rightarrow> 'v option" where
  "lookup m k = Option.bind k m"

definition blocks_of :: "(string \<rightharpoonup> block list) \<Rightarrow> nsstring \<Rightarrow> block list" where
  "blocks_of m k = (case lookup m k of None \<Rightarrow> [] | Some bs \<Rightarrow> bs)"

section \<open>Notifications\<close>

definition p_notifyProgress :: "nat \<Rightarrow> svc \<Rightarrow> svc" where
  "p_notifyProgress a s =
     (if status_of s a \<noteq> LCFileNetTaskStatusProgress \<or> t_totalSize (tasks s a) = 0
         \<or> t_finishedSize (tasks s a) = 0 then s
      else tell (ProgressNote a # map (\<lambda>b. ProgressBlock b a) (blocks_of (progressCallbackCache s) (id_of s a))) s)"

definition p_notifyStatusChange :: "nat \<Rightarrow> svc \<Rightarrow> svc" where
  "p_notifyStatusChange a s =
     tell (StatusChange a (status_of s a) #
           map (\<lambda>b. StatusBlock b a) (blocks_of (statusCallbackCache s) (id_of s a))) s"

text \<open>The blocks of a finished task are run and forgotten; \<open>removeObjectForKey:nil\<close> raises.\<close>

definition p_notifyFinish :: "nat \<Rightarrow> bool \<Rightarrow> svc \<Rightarrow> svc option" where
  "p_notifyFinish a err s =
     (let s = tell (FinishNote a err #
                    map (\<lambda>b. FinishBlock b a err) (blocks_of (finishCallbackCache s) (id_of s a))) s
      in case id_of s a of
           None \<Rightarrow> None
         | Some k \<Rightarrow> Some (s\<lparr>progressCallbackCache := (progressCallbackCache s)(k := None),
                            statusCallbackCache := (statusCallbackCache s)(k := None),
                            finishCallbackCache := (finishCallbackCache s)(k := None)\<rparr>))"

text \<open>A block is added once; \<open>setObject:forKey:nil\<close> raises.\<close>

definition add_block :: "block option \<Rightarrow> string \<Rightarrow> (string \<rightharpoonup> block list) \<Rightarrow> (string \<rightharpoonup> block list)" where
  "add_block b k m =
     (let bs = (case m k of None \<Rightarrow> [] | Some bs \<Rightarrow> bs);
          bs = (case b of None \<Rightarrow> bs | Some x \<Rightarrow> if x \<in> set bs then bs else bs @ [x])
      in m(k \<mapsto> bs))"

definition p_saveCallback :: "nat \<Rightarrow> svc \<Rightarrow> svc option" where
  "p_saveCallback a s =
     (case id_of s a of
        None \<Rightarrow> None
      | Some k \<Rightarrow> Some (s\<lparr>
          progressCallbackCache := add_block (t_progressCallback (tasks s a)) k (progressCallbackCache s),
          statusCallbackCache := add_block (t_statusCallback (tasks s a)) k (statusCallbackCache s),
          finishCallbackCache := add_block (t_finishCallback (tasks s a)) k (finishCallbackCache s)\<rparr>))"

section \<open>The service as the observer of its operations\<close>

definition lc_netOperationStart :: "nat \<Rightarrow> svc \<Rightarrow> svc" where
  "lc_netOperationStart a s =
     (let s = upd_task a (\<lambda>t. t\<lparr>t_status := LCFileNetTaskStatusProgress\<rparr>) s;
          s = upd_db (lc_updateTask_status (id_of s a) LCFileNetTaskStatusProgress) s
      in p_notifyStatusChange a s)"

definition lc_netOperationStatusFinish :: "nat \<Rightarrow> bool \<Rightarrow> svc \<Rightarrow> svc option" where
  "lc_netOperationStatusFinish a err s =
     (let s = (if err then upd_task a (\<lambda>t. t\<lparr>t_status := LCFileNetTaskStatusFailed\<rparr>) s else s);
          s = upd_db (\<lambda>rows. snd (lc_saveTask (tasks s a) rows)) s
      in p_notifyFinish a err s)"

definition lc_netOperationProgressUpdate :: "nat \<Rightarrow> svc \<Rightarrow> svc" where
  "lc_netOperationProgressUpdate a s =
     p_notifyProgress a
       (upd_db (lc_updateTask_size (id_of s a) (t_finishedSize (tasks s a)) (t_totalSize (tasks s a))) s)"

definition lc_netOperationStatusUpadte :: "nat \<Rightarrow> svc \<Rightarrow> svc" where
  "lc_netOperationStatusUpadte a s =
     p_notifyStatusChange a (upd_db (lc_updateTask_status (id_of s a) (status_of s a)) s)"

section \<open>Operations\<close>

definition p_finishOperatioin :: "nat \<Rightarrow> svc \<Rightarrow> svc" where
  "p_finishOperatioin oid = upd_op oid (\<lambda>p. p\<lparr>o_executing := False, o_finished := True\<rparr>)"

definition p_notifyStatusUpadteWithNewStatus :: "nat \<Rightarrow> LCFileNetTaskStatus \<Rightarrow> svc \<Rightarrow> svc" where
  "p_notifyStatusUpadteWithNewStatus oid status s =
     (let a = o_task (ops s oid) in
      lc_netOperationStatusUpadte a (upd_task a (\<lambda>t. t\<lparr>t_status := status\<rparr>) s))"

definition hander_responds :: "net_env \<Rightarrow> hander_call \<Rightarrow> bool" where
  "hander_responds e c = (case ne_hander e of None \<Rightarrow> False | Some h \<Rightarrow> responds h c)"

definition hander_replies :: "net_env \<Rightarrow> hander_call \<Rightarrow> LCFileNetTask \<Rightarrow> reply list" where
  "hander_replies e c t = (case ne_hander e of None \<Rightarrow> [] | Some h \<Rightarrow> replies h c t)"

fun run_replies :: "(reply \<Rightarrow> svc \<Rightarrow> svc option) \<Rightarrow> reply list \<Rightarrow> svc \<Rightarrow> svc option" where
  "run_replies f [] s = Some s"
| "run_replies f (r # rs) s = do { s \<leftarrow> f r s; run_replies f rs s }"

text \<open>The progress block all four transfer methods pass to the handler.\<close>

definition progress_block :: "nat \<Rightarrow> svc \<Rightarrow> svc" where
  "progress_block oid s =
     (let s = lc_netOperationProgressUpdate (o_task (ops s oid)) s
      in if o_cancelled (ops s oid) then p_finishOperatioin oid s else s)"

text \<open>The finish block of \<open>p_startUpload\<close> and \<open>p_startDownload\<close>.\<close>

definition finish_block :: "nat \<Rightarrow> bool \<Rightarrow> svc \<Rightarrow> svc option" where
  "finish_block oid err s =
     (let s = p_notifyStatusUpadteWithNewStatus oid
                (if err then LCFileNetTaskStatusFailed else LCFileNetTaskStatusFinish) s
      in map_option (p_finishOperatioin oid) (lc_netOperationStatusFinish (o_task (ops s oid)) err s))"

text \<open>What a handler does with the blocks it got, the finish block being \<open>fin\<close>.\<close>

fun handle_reply :: "nat \<Rightarrow> (bool \<Rightarrow> svc \<Rightarrow> svc option) \<Rightarrow> reply \<Rightarrow> svc \<Rightarrow> svc option" where
  "handle_reply oid fin (ReplyProgress finishedSize totalSize) s =
     Some (progress_block oid (upd_task (o_task (ops s oid))
       (\<lambda>t. t\<lparr>t_finishedSize := finishedSize, t_totalSize := totalSize\<rparr>) s))"
| "handle_reply oid fin (ReplySet url md5) s =
     Some (upd_task (o_task (ops s oid)) (\<lambda>t. t\<lparr>t_url := url, t_md5 := md5\<rparr>) s)"
| "handle_reply oid fin (ReplySizes finishedSize totalSize) s =
     Some (upd_task (o_task (ops s oid)) (\<lambda>t. t\<lparr>t_finishedSize := finishedSize, t_totalSize := totalSize\<rparr>) s)"
| "handle_reply oid fin (ReplyFinish err) s = fin err s"

definition start_reply :: "nat \<Rightarrow> reply \<Rightarrow> svc \<Rightarrow> svc option" where
  "start_reply oid = handle_reply oid (finish_block oid)"

definition call_hander :: "hander_call \<Rightarrow> nat \<Rightarrow> svc \<Rightarrow> svc" where
  "call_hander c oid s = tell [HanderCalled c (o_task (ops s oid))] s"

definition p_start :: "hander_call \<Rightarrow> net_env \<Rightarrow> nat \<Rightarrow> svc \<Rightarrow> svc option" where
  "p_start c e oid s =
     (if hander_responds e c
      then run_replies (start_reply oid) (hander_replies e c (tasks s (o_task (ops s oid)))) (call_hander c oid s)
      else Some (p_finishOperatioin oid s))"

definition p_startUpload :: "net_env \<Rightarrow> nat \<Rightarrow> svc \<Rightarrow> svc option" where
  "p_startUpload = p_start HanderUpload"

definition p_startDownload :: "net_env \<Rightarrow> nat \<Rightarrow> svc \<Rightarrow> svc option" where
  "p_startDownload = p_start HanderDownload"

text \<open>A failed resumption starts over.\<close>

definition resume_reply :: "hander_call \<Rightarrow> net_env \<Rightarrow> nat \<Rightarrow> reply \<Rightarrow> svc \<Rightarrow> svc option" where
  "resume_reply c e oid =
     handle_reply oid (\<lambda>err s. if err then p_start c e oid s else finish_block oid False s)"

definition p_resumUpload :: "net_env \<Rightarrow> nat \<Rightarrow> svc \<Rightarrow> svc option" where
  "p_resumUpload e oid s =
     (if hander_responds e HanderResumUpload
      then run_replies (resume_reply HanderUpload e oid)
             (hander_replies e HanderResumUpload (tasks s (o_task (ops s oid))))
             (call_hander HanderResumUpload oid s)
      else Some s)"

definition p_resumDownLoad :: "net_env \<Rightarrow> nat \<Rightarrow> svc \<Rightarrow> svc option" where
  "p_resumDownLoad e oid s =
     (if hander_responds e HanderResumDownload
      then run_replies (resume_reply HanderDownload e oid)
             (hander_replies e HanderResumDownload (tasks s (o_task (ops s oid))))
             (call_hander HanderResumDownload oid s)
      else Some s)"

definition resumable :: "LCFileNetTaskStatus \<Rightarrow> bool" where
  "resumable st \<longleftrightarrow> st = LCFileNetTaskStatusPause \<or> st = LCFileNetTaskStatusFailed
     \<or> st = LCFileNetTaskStatusInterrupt"

definition op_main :: "net_env \<Rightarrow> nat \<Rightarrow> svc \<Rightarrow> svc option" where
  "op_main e oid s =
     (let a = o_task (ops s oid); t = tasks s a in
      map_option (lc_netOperationStart a)
        (if t_type t = LCFileNetTaskTypeUpload
         then (if resumable (t_status t) then p_resumUpload e oid s else p_startUpload e oid s)
         else if t_type t = LCFileNetTaskTypeDownload
         then (if resumable (t_status t) then p_resumDownLoad e oid s else p_startDownload e oid s)
         else Some s))"

definition op_start :: "net_env \<Rightarrow> nat \<Rightarrow> svc \<Rightarrow> svc option" where
  "op_start e oid s =
     (if o_cancelled (ops s oid) then Some (upd_op oid (\<lambda>p. p\<lparr>o_finished := True\<rparr>) s)
      else op_main e oid (upd_op oid (\<lambda>p. p\<lparr>o_executing := True\<rparr>) s))"

definition op_cancel :: "net_env \<Rightarrow> nat \<Rightarrow> svc \<Rightarrow> svc" where
  "op_cancel e oid s =
     (let s = (if \<not> o_finished (ops s oid) \<or> \<not> o_cancelled (ops s oid)
               then p_notifyStatusUpadteWithNewStatus oid LCFileNetTaskStatusCanceled
                      (if hander_responds e HanderCancel then call_hander HanderCancel oid s else s)
               else s)
      in p_finishOperatioin oid (upd_op oid (\<lambda>p. p\<lparr>o_cancelled := True\<rparr>) s))"

text \<open>\<open>pause\<close> asks whether the handler can cancel and then tells it to pause.\<close>

definition op_pause :: "net_env \<Rightarrow> nat \<Rightarrow> svc \<Rightarrow> svc option" where
  "op_pause e oid s =
     map_option (\<lambda>s. p_finishOperatioin oid (upd_op oid (\<lambda>p. p\<lparr>o_cancelled := True\<rparr>) s))
       (if \<not> o_finished (ops s oid) \<or> \<not> o_cancelled (ops s oid)
        then map_option (p_notifyStatusUpadteWithNewStatus oid LCFileNetTaskStatusPause)
               (if hander_responds e HanderCancel
                then (if hander_responds e HanderPause then Some (call_hander HanderPause oid s) else None)
                else Some s)
        else Some s)"

section \<open>Service methods\<close>

definition p_getTaskFromCacheByKey :: "nsstring \<Rightarrow> svc \<Rightarrow> nat option" where
  "p_getTaskFromCacheByKey key s = lookup (cache s) key"

definition p_setTask :: "nat \<Rightarrow> nsstring \<Rightarrow> svc \<Rightarrow> svc" where
  "p_setTask a key s = (case key of None \<Rightarrow> s | Some k \<Rightarrow> s\<lparr>cache := (cache s)(k \<mapsto> a)\<rparr>)"

definition p_checkTask :: "net_env \<Rightarrow> nat \<Rightarrow> svc \<Rightarrow> bool \<times> svc" where
  "p_checkTask e a s =
     (let t = tasks s a in
      if t_type t = LCFileNetTaskTypeUnknown \<or> t_taskId t = None then (False, s)
      else if t_type t = LCFileNetTaskTypeUpload
      then (case t_filePath t of
              None \<Rightarrow> (False, s)
            | Some p \<Rightarrow>
                if \<not> ne_fileExists e p then (False, s)
                else if t_md5 t = None then (True, upd_task a (\<lambda>t. t\<lparr>t_md5 := Some (ne_md5 e p)\<rparr>) s)
                else (True, s))
      else (True, s))"

definition new_operation :: "nat \<Rightarrow> LCFileNetOperation" where
  "new_operation a = \<lparr>o_task = a, o_executing = False, o_finished = False, o_cancelled = False\<rparr>"

text \<open>An operation made for the task, put in the dictionary and in a queue.\<close>

definition add_operation :: "nat \<Rightarrow> queue \<Rightarrow> svc \<Rightarrow> svc option" where
  "add_operation a q s =
     (case id_of s a of
        None \<Rightarrow> None
      | Some k \<Rightarrow>
          let oid = next_op s in
          Some (s\<lparr>ops := (ops s)(oid := new_operation a), next_op := oid + 1,
                  taskOperationDic := (taskOperationDic s)(k \<mapsto> oid), queued := queued s @ [(oid, q)]\<rparr>))"

definition p_addTask :: "nat \<Rightarrow> queue option \<Rightarrow> svc \<Rightarrow> svc option" where
  "p_addTask a q s =
     (if t_type (tasks s a) = LCFileNetTaskTypeUpload
      then add_operation a (case q of None \<Rightarrow> UploadQueue | Some q \<Rightarrow> q) s
      else if t_type (tasks s a) = LCFileNetTaskTypeDownload
      then add_operation a (case q of None \<Rightarrow> DownloadQueue | Some q \<Rightarrow> q) s
      else Some s)"

definition lc_startTask :: "net_env \<Rightarrow> nat \<Rightarrow> queue option \<Rightarrow> svc \<Rightarrow> svc option" where
  "lc_startTask e a q s = do {
     s \<leftarrow> p_saveCallback a s;
     (case p_checkTask e a s of
        (False, s) \<Rightarrow> p_notifyFinish a True s
      | (True, s) \<Rightarrow>
        (case p_getTaskFromCacheByKey (id_of s a) s of
           Some old \<Rightarrow>
             if status_of s old = LCFileNetTaskStatusFinish then p_notifyFinish old False s
             else if resumable (status_of s old) then p_addTask old q s
             else Some s
         | None \<Rightarrow>
             (case lc_getTaskByTaskId (id_of s a) (task_db s) of
                Some row \<Rightarrow>
                  let (d, s) = alloc_task row s;
                      s = p_setTask d (id_of s d) s
                  in if status_of s d = LCFileNetTaskStatusFinish then p_notifyFinish d False s
                     else if status_of s d = LCFileNetTaskStatusProgress
                             \<or> status_of s d = LCFileNetTaskStatusCreate
                     then p_addTask d q (upd_task d (\<lambda>t. t\<lparr>t_status := LCFileNetTaskStatusInterrupt\<rparr>) s)
                     else p_addTask d q s
              | None \<Rightarrow>
                  let s = p_setTask a (id_of s a) s;
                      s = upd_db (\<lambda>rows. snd (lc_saveTask (tasks s a) rows)) s
                  in p_addTask a q s)))
   }"

text \<open>When the cache has no task, the database is asked for \<open>task.taskId\<close> of the nil \<open>task\<close>.\<close>

definition lc_resumTask :: "net_env \<Rightarrow> nsstring \<Rightarrow> queue option \<Rightarrow> svc \<Rightarrow> svc option" where
  "lc_resumTask e taskId q s =
     (let task = p_getTaskFromCacheByKey taskId s;
          (task, s) = (case task of
             Some a \<Rightarrow> (Some a, s)
           | None \<Rightarrow>
               (case lc_getTaskByTaskId None (task_db s) of
                  None \<Rightarrow> (None, s)
                | Some row \<Rightarrow> (case alloc_task row s of (d, s) \<Rightarrow> (Some d, s))))
      in case task of
           None \<Rightarrow> Some s
         | Some a \<Rightarrow> if status_of s a \<noteq> LCFileNetTaskStatusFinish then lc_startTask e a q s else Some s)"

definition lc_cancelTask :: "net_env \<Rightarrow> nsstring \<Rightarrow> svc \<Rightarrow> svc option" where
  "lc_cancelTask e taskId s =
     (case (p_getTaskFromCacheByKey taskId s, taskId) of
        (Some a, Some k) \<Rightarrow>
          if status_of s a = LCFileNetTaskStatusFinish then Some s
          else let s = (case taskOperationDic s k of None \<Rightarrow> s | Some oid \<Rightarrow> op_cancel e oid s);
                   s = s\<lparr>taskOperationDic := (taskOperationDic s)(k := None)\<rparr>;
                   s = upd_db (lc_deleteTaskByTaskId taskId) s;
                   s = upd_task a (\<lambda>t. t\<lparr>t_status := LCFileNetTaskStatusCanceled\<rparr>) s;
                   s = p_notifyStatusChange a s
               in map_option (\<lambda>s. s\<lparr>cache := (cache s)(k := None)\<rparr>) (p_notifyFinish a True s)
      | _ \<Rightarrow> Some s)"

definition lc_pauseTask :: "net_env \<Rightarrow> nsstring \<Rightarrow> svc \<Rightarrow> svc option" where
  "lc_pauseTask e taskId s =
     (case p_getTaskFromCacheByKey taskId s of
        None \<Rightarrow> Some s
      | Some a \<Rightarrow>
          if status_of s a = LCFileNetTaskStatusFinish then Some s
          else map_option
                 (\<lambda>s. p_notifyStatusChange a (upd_task a (\<lambda>t. t\<lparr>t_status := LCFileNetTaskStatusPause\<rparr>) s))
                 (case lookup (taskOperationDic s) taskId of None \<Rightarrow> Some s | Some oid \<Rightarrow> op_pause e oid s))"

text \<open>\<open>allKeys\<close> of the dictionary, in whatever order it returns them.\<close>

fun pause_each :: "net_env \<Rightarrow> string list \<Rightarrow> svc \<Rightarrow> svc option" where
  "pause_each e [] s = Some s"
| "pause_each e (k # ks) s = do { s \<leftarrow> lc_pauseTask e (Some k) s; pause_each e ks s }"

definition lc_pauseAllTask :: "net_env \<Rightarrow> (svc \<Rightarrow> string list) \<Rightarrow> svc \<Rightarrow> svc option" where
  "lc_pauseAllTask e allKeys s = pause_each e (allKeys s) s"

definition lc_updatetask :: "nsstring \<Rightarrow> nsstring \<Rightarrow> svc \<Rightarrow> svc" where
  "lc_updatetask key filePath = upd_db (lc_updateTask_filePath key filePath)"

definition lc_getTask :: "nsstring \<Rightarrow> svc \<Rightarrow> nat option \<times> svc" where
  "lc_getTask taskId s =
     (case p_getTaskFromCacheByKey taskId s of
        Some a \<Rightarrow> (Some a, s)
      | None \<Rightarrow>
          (case lc_getTaskByTaskId taskId (task_db s) of
             None \<Rightarrow> (None, s)
           | Some row \<Rightarrow>
               let (d, s) = alloc_task row s;
                   s = (if status_of s d = LCFileNetTaskStatusCreate
                           \<or> status_of s d = LCFileNetTaskStatusProgress
                        then upd_task d (\<lambda>t. t\<lparr>t_status := LCFileNetTaskStatusInterrupt\<rparr>) s else s)
               in (Some d, p_setTask d (id_of s d) s)))"

section \<open>What transfers leave alone\<close>

text \<open>
  Everything an operation or a notification does is \<open>quiet\<close>: it leaves the cache, the
  dictionary, the queues and the identity of every task alone. \<open>runs\<close> adds that it raises no
  exception.
\<close>

definition blocks_ok :: "svc \<Rightarrow> bool" where
  "blocks_ok s \<longleftrightarrow> (\<forall>k bs. progressCallbackCache s k = Some bs \<longrightarrow> distinct bs) \<and>
     (\<forall>k bs. statusCallbackCache s k = Some bs \<longrightarrow> distinct bs) \<and>
     (\<forall>k bs. finishCallbackCache s k = Some bs \<longrightarrow> distinct bs)"

definition quiet :: "svc \<Rightarrow> svc \<Rightarrow> bool" where
  "quiet s s' \<longleftrightarrow>
     cache s' = cache s \<and> taskOperationDic s' = taskOperationDic s \<and> queued s' = queued s \<and>
     next_task s' = next_task s \<and> next_op s' = next_op s \<and>
     (\<forall>oid. o_task (ops s' oid) = o_task (ops s oid)) \<and>
     (\<forall>a. id_of s' a = id_of s a \<and> t_type (tasks s' a) = t_type (tasks s a)) \<and>
     (task_table_ok (task_db s) \<longrightarrow> task_table_ok (task_db s')) \<and>
     (blocks_ok s \<longrightarrow> blocks_ok s') \<and> (\<exists>ns. told s' = told s @ ns)"

definition runs :: "svc \<Rightarrow> svc option \<Rightarrow> bool" where
  "runs s r \<longleftrightarrow> (\<exists>s'. r = Some s' \<and> quiet s s')"

lemma quiet_refl [simp]: "quiet s s"
  by (simp add: quiet_def)

lemma quiet_trans: "quiet s s' \<Longrightarrow> quiet s' s'' \<Longrightarrow> quiet s s''"
  by (auto simp: quiet_def)

lemma quiet_task: "quiet s s' \<Longrightarrow> o_task (ops s' oid) = o_task (ops s oid)"
  and quiet_id: "quiet s s' \<Longrightarrow> id_of s' a = id_of s a"
  by (simp_all add: quiet_def)

lemma quiet_upd_task:
  "(\<And>t. t_taskId (f t) = t_taskId t \<and> t_type (f t) = t_type t) \<Longrightarrow> quiet s (upd_task a f s)"
  by (simp add: quiet_def upd_task_def blocks_ok_def)

lemma quiet_upd_op: "(\<And>p. o_task (f p) = o_task p) \<Longrightarrow> quiet s (upd_op oid f s)"
  by (simp add: quiet_def upd_op_def blocks_ok_def)

lemma quiet_upd_db: "(\<And>rows. task_table_ok rows \<Longrightarrow> task_table_ok (f rows)) \<Longrightarrow> quiet s (upd_db f s)"
  by (simp add: quiet_def upd_db_def blocks_ok_def)

lemma quiet_tell: "quiet s (tell ns s)"
  by (simp add: quiet_def tell_def blocks_ok_def)

lemma quiet_notify: "quiet s (p_notifyProgress a s)" "quiet s (p_notifyStatusChange a s)"
  by (simp_all add: p_notifyProgress_def p_notifyStatusChange_def quiet_tell)

lemma runs_notifyFinish: "id_of s a \<noteq> None \<Longrightarrow> runs s (p_notifyFinish a err s)"
  by (auto simp: runs_def p_notifyFinish_def Let_def tell_def quiet_def blocks_ok_def)

lemma runs_Some: "runs s (Some s') = quiet s s'"
  by (simp add: runs_def)

lemma runs_after: "quiet s s' \<Longrightarrow> runs s' r \<Longrightarrow> runs s r"
  by (auto simp: runs_def intro: quiet_trans)

lemma runs_map: "runs s r \<Longrightarrow> (\<And>s'. quiet s s' \<Longrightarrow> quiet s' (f s')) \<Longrightarrow> runs s (map_option f r)"
  by (auto simp: runs_def intro: quiet_trans)

lemma runs_bind:
  assumes "runs s r" "\<And>s'. quiet s s' \<Longrightarrow> runs s' (f s')"
  shows "runs s (Option.bind r f)"
proof -
  from assms(1) obtain s' where "r = Some s'" "quiet s s'" by (auto simp: runs_def)
  then show ?thesis using runs_after assms(2) by simp
qed

lemma quiet_observer:
  "quiet s (lc_netOperationStart a s)" "quiet s (lc_netOperationProgressUpdate a s)"
  "quiet s (lc_netOperationStatusUpadte a s)"
proof -
  have db: "quiet s (upd_db f s)" if "\<And>rows. task_table_ok (f rows) = task_table_ok rows" for f s
    using that by (intro quiet_upd_db) simp
  show "quiet s (lc_netOperationStart a s)"
    unfolding lc_netOperationStart_def Let_def
    by (rule quiet_trans [OF quiet_upd_task quiet_trans [OF db quiet_notify(2)]]) simp_all
  show "quiet s (lc_netOperationProgressUpdate a s)"
    unfolding lc_netOperationProgressUpdate_def by (rule quiet_trans [OF db quiet_notify(1)]) simp
  show "quiet s (lc_netOperationStatusUpadte a s)"
    unfolding lc_netOperationStatusUpadte_def by (rule quiet_trans [OF db quiet_notify(2)]) simp
qed

lemma runs_StatusFinish:
  assumes "id_of s a \<noteq> None"
  shows "runs s (lc_netOperationStatusFinish a err s)"
proof -
  let ?s1 = "if err then upd_task a (\<lambda>t. t\<lparr>t_status := LCFileNetTaskStatusFailed\<rparr>) s else s"
  let ?s2 = "upd_db (\<lambda>rows. snd (lc_saveTask (tasks ?s1 a) rows)) ?s1"
  have "quiet s ?s1" by (simp add: quiet_upd_task)
  moreover have "quiet ?s1 ?s2" by (intro quiet_upd_db task_table_ok_save)
  ultimately have q: "quiet s ?s2" by (rule quiet_trans)
  then have "runs ?s2 (p_notifyFinish a err ?s2)"
    using assms by (intro runs_notifyFinish) (simp add: quiet_id)
  with q show ?thesis unfolding lc_netOperationStatusFinish_def Let_def by (rule runs_after)
qed

lemma quiet_finishOp: "quiet s (p_finishOperatioin oid s)"
  by (simp add: p_finishOperatioin_def quiet_upd_op)

lemma quiet_newStatus: "quiet s (p_notifyStatusUpadteWithNewStatus oid st s)"
  unfolding p_notifyStatusUpadteWithNewStatus_def Let_def
  by (rule quiet_trans [OF quiet_upd_task quiet_observer(3)]) simp

lemma quiet_progress_block: "quiet s (progress_block oid s)"
  unfolding progress_block_def Let_def
  using quiet_observer(2) quiet_finishOp by (simp add: quiet_trans [OF quiet_observer(2) quiet_finishOp])

text \<open>An operation whose task has an id: all operations of a reachable state.\<close>

definition live :: "svc \<Rightarrow> nat \<Rightarrow> bool" where
  "live s oid \<longleftrightarrow> id_of s (o_task (ops s oid)) \<noteq> None"

lemma live_quiet: "quiet s s' \<Longrightarrow> live s' oid = live s oid"
  by (simp add: live_def quiet_task quiet_id)

lemma runs_finish_block:
  assumes "live s oid"
  shows "runs s (finish_block oid err s)"
proof -
  let ?s = "p_notifyStatusUpadteWithNewStatus oid
              (if err then LCFileNetTaskStatusFailed else LCFileNetTaskStatusFinish) s"
  have q: "quiet s ?s" by (rule quiet_newStatus)
  then have "id_of ?s (o_task (ops ?s oid)) \<noteq> None"
    using assms live_quiet [OF q] by (simp add: live_def)
  then have "runs ?s (map_option (p_finishOperatioin oid)
      (lc_netOperationStatusFinish (o_task (ops ?s oid)) err ?s))"
    by (intro runs_map runs_StatusFinish quiet_finishOp)
  with q show ?thesis unfolding finish_block_def Let_def by (rule runs_after)
qed

lemma runs_handle_reply:
  "(\<And>err s. live s oid \<Longrightarrow> runs s (fin err s)) \<Longrightarrow> live s oid \<Longrightarrow> runs s (handle_reply oid fin r s)"
  by (cases r) (auto simp: runs_Some intro!: quiet_upd_task quiet_trans [OF quiet_upd_task quiet_progress_block])

lemma runs_replies:
  "(\<And>r s. live s oid \<Longrightarrow> runs s (f r s)) \<Longrightarrow> live s oid \<Longrightarrow> runs s (run_replies f rs s)"
proof (induction rs arbitrary: s)
  case (Cons r rs)
  then show ?case by (auto intro!: runs_bind simp: live_quiet)
qed (simp add: runs_Some)

lemma quiet_call: "quiet s (call_hander c oid s)"
  by (simp add: call_hander_def quiet_tell)

lemma runs_call:
  assumes "live s oid" "\<And>r s. live s oid \<Longrightarrow> runs s (f r s)"
  shows "runs s (run_replies f rs (call_hander c oid s))"
proof -
  have "live (call_hander c oid s) oid" using assms(1) live_quiet [OF quiet_call] by blast
  then have "runs (call_hander c oid s) (run_replies f rs (call_hander c oid s))"
    using assms(2) by (intro runs_replies)
  then show ?thesis by (rule runs_after [OF quiet_call])
qed

lemma runs_start_reply: "live s oid \<Longrightarrow> runs s (start_reply oid r s)"
  unfolding start_reply_def by (intro runs_handle_reply runs_finish_block)

lemma runs_start: "live s oid \<Longrightarrow> runs s (p_start c e oid s)"
  unfolding p_start_def by (simp add: runs_Some quiet_finishOp runs_call runs_start_reply)

lemma runs_resume_reply: "live s oid \<Longrightarrow> runs s (resume_reply c e oid r s)"
  unfolding resume_reply_def
  by (intro runs_handle_reply) (simp_all add: runs_start runs_finish_block)

lemma runs_resume: "live s oid \<Longrightarrow> runs s (p_resumUpload e oid s)"
  "live s oid \<Longrightarrow> runs s (p_resumDownLoad e oid s)"
  unfolding p_resumUpload_def p_resumDownLoad_def
  by (simp_all add: runs_Some runs_call runs_resume_reply)

lemma runs_main: "live s oid \<Longrightarrow> runs s (op_main e oid s)"
  unfolding op_main_def Let_def p_startUpload_def p_startDownload_def
  by (intro runs_map) (simp_all add: runs_start runs_resume quiet_observer runs_Some)

lemma runs_op_start:
  assumes "live s oid"
  shows "runs s (op_start e oid s)"
proof -
  let ?s = "upd_op oid (\<lambda>p. p\<lparr>o_executing := True\<rparr>) s"
  have q: "quiet s ?s" by (simp add: quiet_upd_op)
  then have "live ?s oid" using assms live_quiet by blast
  then have "runs s (op_main e oid ?s)" using runs_after [OF q] runs_main by blast
  then show ?thesis by (simp add: op_start_def runs_Some quiet_upd_op)
qed

lemma quiet_op_end: "quiet s (p_finishOperatioin oid (upd_op oid (\<lambda>p. p\<lparr>o_cancelled := True\<rparr>) s))"
  by (rule quiet_trans [OF quiet_upd_op quiet_finishOp]) simp

lemma quiet_cancel: "quiet s (op_cancel e oid s)"
proof -
  have "quiet s (p_notifyStatusUpadteWithNewStatus oid LCFileNetTaskStatusCanceled
      (if hander_responds e HanderCancel then call_hander HanderCancel oid s else s))"
    by (simp add: quiet_newStatus quiet_trans [OF quiet_call quiet_newStatus])
  then show ?thesis unfolding op_cancel_def Let_def
    by (simp add: quiet_op_end quiet_trans [OF _ quiet_op_end])
qed

text \<open>A handler that can cancel but not pause makes \<open>pause\<close> raise.\<close>

definition pauses :: "net_env \<Rightarrow> bool" where
  "pauses e \<longleftrightarrow> (hander_responds e HanderCancel \<longrightarrow> hander_responds e HanderPause)"

lemma runs_pause: "pauses e \<Longrightarrow> runs s (op_pause e oid s)"
  unfolding op_pause_def
  by (intro runs_map quiet_op_end)
    (simp add: pauses_def runs_Some quiet_newStatus quiet_trans [OF quiet_call quiet_newStatus])

section \<open>The invariant of the service\<close>

text \<open>
  The cache maps an id to the object with that id; the operation registered for an id works on
  the cached object; every operation made and every queued one is real; one row per task id; no
  block is registered twice.
\<close>

definition svc_ok :: "svc \<Rightarrow> bool" where
  "svc_ok s \<longleftrightarrow>
     (\<forall>k a. cache s k = Some a \<longrightarrow> a < next_task s \<and> id_of s a = Some k) \<and>
     (\<forall>k oid. taskOperationDic s k = Some oid \<longrightarrow>
        oid < next_op s \<and> cache s k = Some (o_task (ops s oid))) \<and>
     (\<forall>oid < next_op s. o_task (ops s oid) < next_task s \<and> live s oid) \<and>
     (\<forall>(oid, q) \<in> set (queued s). oid < next_op s) \<and>
     task_table_ok (task_db s) \<and> blocks_ok s"

lemma svc_ok_init: "svc_ok init_svc"
  by (simp add: svc_ok_def init_svc_def blocks_ok_def)

lemma svc_ok_quiet: "quiet s s' \<Longrightarrow> svc_ok s \<Longrightarrow> svc_ok s'"
  unfolding svc_ok_def by (simp add: live_quiet) (simp add: quiet_def)

text \<open>A method keeps the invariant and does not raise.\<close>

definition fine :: "svc option \<Rightarrow> bool" where
  "fine r \<longleftrightarrow> (\<exists>s'. r = Some s' \<and> svc_ok s')"

lemma fine_Some [simp]: "fine (Some s) = svc_ok s"
  by (simp add: fine_def)

lemma fine_runs: "svc_ok s \<Longrightarrow> runs s r \<Longrightarrow> fine r"
  by (auto simp: runs_def fine_def intro: svc_ok_quiet)

lemma fine_map: "fine r \<Longrightarrow> (\<And>s. svc_ok s \<Longrightarrow> svc_ok (f s)) \<Longrightarrow> fine (map_option f r)"
  by (auto simp: fine_def)

lemma svc_ok_cache: "svc_ok s \<Longrightarrow> cache s k = Some a \<Longrightarrow> a < next_task s \<and> id_of s a = Some k"
  by (simp add: svc_ok_def)

lemma cached: "p_getTaskFromCacheByKey i s = Some a \<Longrightarrow> \<exists>k. i = Some k \<and> cache s k = Some a"
  by (cases i) (simp_all add: p_getTaskFromCacheByKey_def lookup_def)

lemma quiet_saveCallback:
  "id_of s a \<noteq> None \<Longrightarrow> runs s (p_saveCallback a s)"
  by (auto simp: runs_def p_saveCallback_def quiet_def blocks_ok_def add_block_def Let_def
      split: option.splits)

lemma quiet_check: "quiet s (snd (p_checkTask e a s))"
  by (auto simp: p_checkTask_def Let_def quiet_upd_task split: option.splits)

lemma fine_add_operation:
  assumes "svc_ok s" "cache s k = Some a"
  shows "fine (add_operation a q s)"
  using assms svc_ok_cache [OF assms]
  by (auto simp: add_operation_def Let_def svc_ok_def live_def new_operation_def blocks_ok_def less_Suc_eq)

lemma fine_addTask: "svc_ok s \<Longrightarrow> cache s k = Some a \<Longrightarrow> fine (p_addTask a q s)"
  by (simp add: p_addTask_def fine_add_operation)

lemma svc_ok_alloc: "svc_ok s \<Longrightarrow> svc_ok (snd (alloc_task t s))"
  unfolding svc_ok_def alloc_task_def live_def blocks_ok_def
  by (auto simp: less_Suc_eq)

lemma svc_ok_setTask:
  assumes "svc_ok s" "a < next_task s" "id_of s a = Some k" "cache s k = None"
  shows "svc_ok (p_setTask a (Some k) s)"
proof -
  have "taskOperationDic s k = None"
    using assms(1,4) by (cases "taskOperationDic s k") (auto simp: svc_ok_def)
  then show ?thesis using assms
    by (auto simp: svc_ok_def p_setTask_def live_def blocks_ok_def)
qed

lemma svc_ok_db: "svc_ok s \<Longrightarrow> (\<And>rows. task_table_ok rows \<Longrightarrow> task_table_ok (f rows)) \<Longrightarrow> svc_ok (upd_db f s)"
  using quiet_upd_db svc_ok_quiet by blast

text \<open>A row of the database becomes an object of the cache.\<close>

lemma svc_ok_load:
  assumes "svc_ok s" "lc_getTaskByTaskId (Some k) (task_db s) = Some row" "cache s k = None"
    and "alloc_task row s = (d, s1)"
  shows "svc_ok (p_setTask d (id_of s1 d) s1)" "cache (p_setTask d (id_of s1 d) s1) k = Some d"
    "id_of s1 d = Some k" "d < next_task s1" "svc_ok s1"
proof -
  have s1: "s1 = snd (alloc_task row s)" and d: "d = next_task s" using assms(4) by (auto simp: alloc_task_def)
  show ok: "svc_ok s1" unfolding s1 by (rule svc_ok_alloc [OF assms(1)])
  show id: "id_of s1 d = Some k" and lt: "d < next_task s1"
    using assms(4) get_taskId [OF assms(2)] by (auto simp: alloc_task_def)
  have "cache s1 k = None" using assms(3,4) by (auto simp: alloc_task_def)
  then show "svc_ok (p_setTask d (id_of s1 d) s1)" using svc_ok_setTask [OF ok lt id] id by simp
  show "cache (p_setTask d (id_of s1 d) s1) k = Some d" by (simp add: id p_setTask_def)
qed

lemma fine_startTask:
  assumes "svc_ok s" "a < next_task s" "id_of s a = Some k"
  shows "fine (lc_startTask e a q s)"
proof -
  obtain s1 where s1: "p_saveCallback a s = Some s1" "quiet s s1"
    using quiet_saveCallback [of s a] assms(3) by (auto simp: runs_def)
  obtain ok s2 where s2: "p_checkTask e a s1 = (ok, s2)" "quiet s1 s2"
    using quiet_check [of s1 e a] by (cases "p_checkTask e a s1") auto
  have q2: "quiet s s2" using s1(2) s2(2) by (rule quiet_trans)
  have ok2: "svc_ok s2" by (rule svc_ok_quiet [OF q2 assms(1)])
  have a2: "a < next_task s2" "id_of s2 a = Some k" using q2 assms(2,3) by (simp_all add: quiet_def)
  show ?thesis
  proof (cases ok)
    case False
    then show ?thesis using fine_runs [OF ok2 runs_notifyFinish [of s2 a True]] a2(2)
      by (simp add: lc_startTask_def s1 s2)
  next
    case ok: True
    show ?thesis
    proof (cases "cache s2 k")
      case (Some old)
      then show ?thesis
        using ok ok2 fine_addTask [OF ok2 Some] fine_runs [OF ok2 runs_notifyFinish [of s2 old False]]
          svc_ok_cache [OF ok2 Some]
        by (simp add: lc_startTask_def s1 s2 p_getTaskFromCacheByKey_def lookup_def a2)
    next
      case miss: None
      show ?thesis
      proof (cases "lc_getTaskByTaskId (Some k) (task_db s2)")
        case (Some row)
        obtain d s3 where s3: "alloc_task row s2 = (d, s3)" by fastforce
        note load = svc_ok_load [OF ok2 Some miss s3]
        let ?s = "p_setTask d (id_of s3 d) s3"
        let ?t = "upd_task d (\<lambda>t. t\<lparr>t_status := LCFileNetTaskStatusInterrupt\<rparr>) ?s"
        have id: "id_of ?s d \<noteq> None" using load(3) by (simp add: p_setTask_def)
        have qt: "quiet ?s ?t" by (simp add: quiet_upd_task)
        have "svc_ok ?t" by (rule svc_ok_quiet [OF qt load(1)])
        moreover have "cache ?t k = Some d" using qt load(2) by (simp add: quiet_def)
        ultimately have "fine (p_addTask d q ?t)" by (rule fine_addTask)
        then show ?thesis
          using ok fine_addTask [OF load(1,2)] fine_runs [OF load(1) runs_notifyFinish [OF id]]
          by (simp add: lc_startTask_def s1 s2 s3 p_getTaskFromCacheByKey_def lookup_def a2 miss Some Let_def)
      next
        case None
        let ?s = "p_setTask a (Some k) s2"
        let ?t = "upd_db (\<lambda>rows. snd (lc_saveTask (tasks ?s a) rows)) ?s"
        have "svc_ok ?t"
          by (intro svc_ok_db svc_ok_setTask ok2 a2 miss task_table_ok_save)
        moreover have "cache ?t k = Some a" by (simp add: upd_db_def p_setTask_def)
        ultimately have "fine (p_addTask a q ?t)" by (rule fine_addTask)
        then show ?thesis using ok
          by (simp add: lc_startTask_def s1 s2 p_getTaskFromCacheByKey_def lookup_def a2 miss None Let_def)
      qed
    qed
  qed
qed

lemma get_nil: "lc_getTaskByTaskId None rows = None"
  by (simp add: lc_getTaskByTaskId_def find_eq_None)

lemma fine_resumTask: "svc_ok s \<Longrightarrow> fine (lc_resumTask e i q s)"
  by (auto simp: lc_resumTask_def Let_def get_nil split: option.splits
      dest!: cached dest: svc_ok_cache intro!: fine_startTask)

lemma fine_cancelTask:
  assumes "svc_ok s"
  shows "fine (lc_cancelTask e i s)"
proof (cases "p_getTaskFromCacheByKey i s")
  case (Some a)
  then obtain k where k: "i = Some k" "cache s k = Some a" using cached by blast
  let ?s1 = "case taskOperationDic s k of None \<Rightarrow> s | Some oid \<Rightarrow> op_cancel e oid s"
  let ?s2 = "?s1\<lparr>taskOperationDic := (taskOperationDic ?s1)(k := None)\<rparr>"
  let ?s3 = "upd_db (lc_deleteTaskByTaskId i) ?s2"
  let ?s4 = "upd_task a (\<lambda>t. t\<lparr>t_status := LCFileNetTaskStatusCanceled\<rparr>) ?s3"
  let ?s5 = "p_notifyStatusChange a ?s4"
  have q1: "quiet s ?s1" by (simp add: quiet_cancel split: option.splits)
  then have ok1: "svc_ok ?s1" using assms by (rule svc_ok_quiet)
  then have ok2: "svc_ok ?s2" by (auto simp: svc_ok_def live_def blocks_ok_def split: if_splits)
  then have ok3: "svc_ok ?s3" by (intro svc_ok_db task_table_ok_delete)
  have q5: "quiet ?s3 ?s5" by (rule quiet_trans [OF quiet_upd_task quiet_notify(2)]) simp
  then have ok5: "svc_ok ?s5" using ok3 by (rule svc_ok_quiet)
  have "cache ?s3 k = Some a" using q1 k(2) by (simp add: quiet_def upd_db_def)
  then have c5: "cache ?s5 k = Some a" using q5 by (simp add: quiet_def)
  have d5: "taskOperationDic ?s5 k = None" using q5 by (simp add: quiet_def upd_db_def)
  obtain s6 where s6: "p_notifyFinish a True ?s5 = Some s6" "quiet ?s5 s6"
    using runs_notifyFinish [of ?s5 a True] svc_ok_cache [OF ok5 c5] by (auto simp: runs_def)
  have "taskOperationDic s6 k = None" using s6(2) d5 by (simp add: quiet_def)
  moreover have "svc_ok s6" by (rule svc_ok_quiet [OF s6(2) ok5])
  ultimately have "svc_ok (s6\<lparr>cache := (cache s6)(k := None)\<rparr>)"
    by (auto simp: svc_ok_def live_def blocks_ok_def)
  then show ?thesis using assms Some k s6(1) by (simp add: lc_cancelTask_def Let_def)
qed (simp add: assms lc_cancelTask_def)

lemma fine_pauseTask:
  assumes "svc_ok s" "pauses e"
  shows "fine (lc_pauseTask e i s)"
proof (cases "p_getTaskFromCacheByKey i s")
  case (Some a)
  have end_ok: "quiet s (p_notifyStatusChange a (upd_task a (\<lambda>t. t\<lparr>t_status := LCFileNetTaskStatusPause\<rparr>) s))"
    for s by (rule quiet_trans [OF quiet_upd_task quiet_notify(2)]) simp
  have "runs s (case lookup (taskOperationDic s) i of None \<Rightarrow> Some s | Some oid \<Rightarrow> op_pause e oid s)"
    using runs_pause [OF assms(2)] by (simp add: runs_Some split: option.splits)
  then have "runs s (map_option
      (\<lambda>s. p_notifyStatusChange a (upd_task a (\<lambda>t. t\<lparr>t_status := LCFileNetTaskStatusPause\<rparr>) s))
      (case lookup (taskOperationDic s) i of None \<Rightarrow> Some s | Some oid \<Rightarrow> op_pause e oid s))"
    by (rule runs_map) (rule end_ok)
  then show ?thesis using Some assms(1) fine_runs [OF assms(1)] by (simp add: lc_pauseTask_def)
qed (simp add: assms lc_pauseTask_def)

lemma fine_pause_each: "svc_ok s \<Longrightarrow> pauses e \<Longrightarrow> fine (pause_each e ks s)"
proof (induction ks arbitrary: s)
  case (Cons k ks)
  then obtain s' where "lc_pauseTask e (Some k) s = Some s'" "svc_ok s'"
    using fine_pauseTask unfolding fine_def by blast
  with Cons show ?case by simp
qed simp

lemma svc_ok_updatetask: "svc_ok s \<Longrightarrow> svc_ok (lc_updatetask key p s)"
  unfolding lc_updatetask_def by (intro svc_ok_db) simp_all

lemma svc_ok_getTask:
  assumes "svc_ok s"
  shows "svc_ok (snd (lc_getTask i s))"
proof (cases "p_getTaskFromCacheByKey i s")
  case miss: None
  show ?thesis
  proof (cases "lc_getTaskByTaskId i (task_db s)")
    case (Some row)
    then obtain k where k: "i = Some k" using get_taskId by (metis not_None_eq)
    obtain d s1 where s1: "alloc_task row s = (d, s1)" by fastforce
    have "cache s k = None" using miss k by (simp add: p_getTaskFromCacheByKey_def lookup_def)
    note load = svc_ok_load [OF assms Some [unfolded k] this s1]
    let ?s = "p_setTask d (id_of s1 d) s1"
    let ?f = "\<lambda>t. t\<lparr>t_status := LCFileNetTaskStatusInterrupt\<rparr>"
    have "quiet ?s (upd_task d ?f ?s)" by (simp add: quiet_upd_task)
    then have "svc_ok (upd_task d ?f ?s)" using load(1) by (rule svc_ok_quiet)
    moreover have "p_setTask d (id_of (upd_task d ?f s1) d) (upd_task d ?f s1) = upd_task d ?f ?s"
      by (simp add: p_setTask_def upd_task_def split: option.splits)
    ultimately show ?thesis using load(1) miss Some
      by (simp add: lc_getTask_def s1 Let_def)
  qed (simp add: lc_getTask_def miss assms)
qed (simp add: lc_getTask_def assms)

section \<open>Steps\<close>

text \<open>
  The program creates a task object, calls a service method, a queue starts an operation, or
  the handler makes a callback of a transfer (\<open>c\<close> says which kind of transfer was resumed).
  \<open>None\<close> as the result is an exception.
\<close>

inductive net_step :: "net_env \<Rightarrow> svc \<Rightarrow> svc option \<Rightarrow> bool" for e where
  new: "net_step e s (Some (snd (alloc_task t s)))"
| start: "a < next_task s \<Longrightarrow> id_of s a \<noteq> None \<Longrightarrow> net_step e s (lc_startTask e a q s)"
| resume: "net_step e s (lc_resumTask e i q s)"
| cancel: "net_step e s (lc_cancelTask e i s)"
| pause: "net_step e s (lc_pauseTask e i s)"
| pause_all: "net_step e s (lc_pauseAllTask e allKeys s)"
| update_path: "net_step e s (Some (lc_updatetask key p s))"
| get: "net_step e s (Some (snd (lc_getTask i s)))"
| queue_start: "(oid, q) \<in> set (queued s) \<Longrightarrow> net_step e s (op_start e oid s)"
| callback_start: "oid < next_op s \<Longrightarrow> net_step e s (start_reply oid r s)"
| callback_resume: "oid < next_op s \<Longrightarrow> net_step e s (resume_reply c e oid r s)"

inductive net_steps :: "net_env \<Rightarrow> svc \<Rightarrow> svc \<Rightarrow> bool" for e where
  none: "net_steps e s s"
| more: "net_steps e s s' \<Longrightarrow> net_step e s' (Some s'') \<Longrightarrow> net_steps e s s''"

lemma fine_step:
  assumes "net_step e s r" "svc_ok s" "pauses e"
  shows "fine r"
proof -
  have live: "oid < next_op s \<Longrightarrow> live s oid" for oid using assms(2) by (simp add: svc_ok_def)
  have queued: "(oid, q) \<in> set (queued s) \<Longrightarrow> oid < next_op s" for oid q
    using assms(2) by (auto simp: svc_ok_def)
  from assms(1) show ?thesis
  proof (cases rule: net_step.cases)
    case start
    then show ?thesis using fine_startTask [OF assms(2)] by auto
  next
    case queue_start
    then show ?thesis using fine_runs [OF assms(2) runs_op_start] live queued by blast
  qed (use assms(2,3) live in \<open>simp_all add: svc_ok_alloc fine_resumTask fine_cancelTask
        fine_pauseTask lc_pauseAllTask_def fine_pause_each svc_ok_updatetask svc_ok_getTask
        fine_runs [OF _ runs_start_reply] fine_runs [OF _ runs_resume_reply]\<close>)
qed

section \<open>Single methods\<close>

lemma get_update_status:
  "lc_getTaskByTaskId (Some k) (lc_updateTask_status (Some k) st rows) =
     map_option (\<lambda>t. t\<lparr>t_status := st\<rparr>) (lc_getTaskByTaskId (Some k) rows)"
  unfolding lc_updateTask_status_def by (subst get_update) simp_all

lemmas transfer_defs = finish_block_def p_notifyStatusUpadteWithNewStatus_def
  lc_netOperationStatusUpadte_def lc_netOperationStatusFinish_def p_notifyFinish_def
  p_notifyStatusChange_def p_finishOperatioin_def upd_task_def upd_op_def upd_db_def tell_def

text \<open>The finish block, told in full.\<close>

lemma finish_block_eq:
  fixes err :: bool
  assumes "o_task (ops s oid) = a" "id_of s a = Some k"
  defines "t \<equiv> (tasks s a)\<lparr>t_status := if err then LCFileNetTaskStatusFailed else LCFileNetTaskStatusFinish\<rparr>"
  shows "\<exists>s'. finish_block oid err s = Some s' \<and> tasks s' = (tasks s)(a := t)
     \<and> lc_getTaskByTaskId (Some k) (task_db s') = Some (task_columns t)
     \<and> o_finished (ops s' oid) \<and> \<not> o_executing (ops s' oid)
     \<and> told s' = told s
         @ StatusChange a (t_status t) # map (\<lambda>b. StatusBlock b a) (blocks_of (statusCallbackCache s) (Some k))
         @ FinishNote a err # map (\<lambda>b. FinishBlock b a err) (blocks_of (finishCallbackCache s) (Some k))
     \<and> progressCallbackCache s' k = None \<and> statusCallbackCache s' k = None
     \<and> finishCallbackCache s' k = None
     \<and> cache s' = cache s \<and> queued s' = queued s \<and> next_op s' = next_op s
     \<and> (\<forall>p. o_task (ops s' p) = o_task (ops s p))"
proof -
  have "t_taskId t = Some k" using assms(2) by (simp add: t_def)
  from get_save [OF this] show ?thesis
    using assms(1,2) by (cases err) (simp_all add: transfer_defs Let_def t_def)
qed

lemma lc_netOperationStart_eq:
  assumes "id_of s a = Some k"
  shows "status_of (lc_netOperationStart a s) a = LCFileNetTaskStatusProgress"
    "lc_getTaskByTaskId (Some k) (task_db (lc_netOperationStart a s)) =
       map_option (\<lambda>t. t\<lparr>t_status := LCFileNetTaskStatusProgress\<rparr>) (lc_getTaskByTaskId (Some k) (task_db s))"
    "set (told s) \<subseteq> set (told (lc_netOperationStart a s))"
  using assms
  by (auto simp: lc_netOperationStart_def Let_def upd_task_def upd_db_def p_notifyStatusChange_def
      tell_def get_update_status)

text \<open>Starting a task whose cached object is neither finished nor resumable.\<close>

lemma start_busy:
  assumes "svc_ok s" "cache s k = Some a" "status_of s a \<noteq> LCFileNetTaskStatusFinish"
    "\<not> resumable (status_of s a)" "id_of s b = Some k" "lc_startTask e b q s = Some s'"
  shows "next_op s' = next_op s \<and> queued s' = queued s \<and> cache s' = cache s"
proof -
  obtain s1 where s1: "p_saveCallback b s = Some s1" "quiet s s1"
    using quiet_saveCallback [of s b] assms(5) by (auto simp: runs_def)
  have st1: "status_of s1 x = status_of s x" for x
    using s1(1) assms(5) by (auto simp: p_saveCallback_def)
  obtain ok s2 where s2: "p_checkTask e b s1 = (ok, s2)" by fastforce
  have q2: "quiet s1 s2" using quiet_check [of s1 e b] s2 by simp
  have st2: "status_of s2 x = status_of s1 x" for x
    using s2 by (auto simp: p_checkTask_def Let_def upd_task_def split: if_splits option.splits)
  have q: "quiet s s2" using s1(2) q2 by (rule quiet_trans)
  have id2: "id_of s2 b = Some k" "cache s2 k = Some a" using q assms(2,5) by (simp_all add: quiet_def)
  have "quiet s2 s'"
  proof (cases ok)
    case False
    then have "p_notifyFinish b True s2 = Some s'" using assms(6) by (simp add: lc_startTask_def s1 s2)
    then show ?thesis using runs_notifyFinish [of s2 b True] id2(1) by (simp add: runs_def)
  next
    case True
    then have "s' = s2"
      using assms(3,4,6) id2 by (simp add: lc_startTask_def s1 s2 p_getTaskFromCacheByKey_def lookup_def st1 st2)
    then show ?thesis by simp
  qed
  with q have "quiet s s'" by (rule quiet_trans)
  then show ?thesis by (simp add: quiet_def)
qed

section \<open>Concrete services\<close>

text \<open>An upload task, a service that holds it in memory, and one that has it in its database.\<close>

definition net_ex_task :: LCFileNetTask where
  "net_ex_task = (lc_uploadTask (Some ''t'') None (Some ''m'') (Some ''/f''))\<lparr>t_finishCallback := Some 7\<rparr>"

text \<open>A handler with all methods that fails at once.\<close>

definition net_ex_env :: net_env where
  "net_ex_env = \<lparr>ne_hander = Some \<lparr>responds = (\<lambda>_. True), replies = (\<lambda>_ _. [ReplyFinish True])\<rparr>,
     ne_fileExists = (\<lambda>_. True), ne_md5 = (\<lambda>_. ''m'')\<rparr>"

definition ex_new :: svc where
  "ex_new = snd (alloc_task net_ex_task init_svc)"

definition ex_started :: svc where
  "ex_started = the (lc_startTask net_ex_env 0 None ex_new)"

lemmas net_ex_defs = net_ex_task_def net_ex_env_def ex_new_def lc_uploadTask_def new_task_def init_svc_def
  alloc_task_def

lemma ex_new_ok: "svc_ok ex_new"
  unfolding ex_new_def by (rule svc_ok_alloc [OF svc_ok_init])

lemma ex_new_facts: "tasks ex_new 0 = net_ex_task" "next_task ex_new = 1" "next_op ex_new = 0"
  "cache ex_new = Map.empty" "task_db ex_new = []" "told ex_new = []" "queued ex_new = []"
  by (simp_all add: ex_new_def alloc_task_def init_svc_def)

lemma ex_started_ok: "lc_startTask net_ex_env 0 None ex_new = Some ex_started" "svc_ok ex_started"
  using fine_startTask [OF ex_new_ok, of 0 "''t''" net_ex_env None]
  by (auto simp: ex_new_facts fine_def ex_started_def net_ex_task_def lc_uploadTask_def new_task_def)

lemma ex_started_facts:
  "cache ex_started ''t'' = Some 0" "queued ex_started = [(0, UploadQueue)]" "next_op ex_started = 1"
  "ops ex_started 0 = new_operation 0" "id_of ex_started 0 = Some ''t''"
  "t_type (tasks ex_started 0) = LCFileNetTaskTypeUpload"
  "status_of ex_started 0 = LCFileNetTaskStatusCreate"
  "lc_getTaskByTaskId (Some ''t'') (task_db ex_started) = Some (task_columns (tasks ex_started 0))"
  "taskOperationDic ex_started ''t'' = Some 0"
  by (simp_all add: ex_started_def net_ex_defs lc_startTask_def p_saveCallback_def p_checkTask_def
      p_getTaskFromCacheByKey_def lookup_def lc_getTaskByTaskId_def p_setTask_def upd_db_def
      upd_task_def lc_saveTask_def insert_or_replace_def p_addTask_def add_operation_def Let_def
      task_columns_def)

section \<open>Properties\<close>



text \<open>What \<open>p_checkTask\<close> accepts, and the task with its md5 filled in.\<close>

definition acceptable :: "net_env \<Rightarrow> LCFileNetTask \<Rightarrow> bool" where
  "acceptable e t \<longleftrightarrow> t_type t = LCFileNetTaskTypeDownload \<or>
     (t_type t = LCFileNetTaskTypeUpload \<and> (\<exists>p. t_filePath t = Some p \<and> ne_fileExists e p))"

definition checked_task :: "net_env \<Rightarrow> LCFileNetTask \<Rightarrow> LCFileNetTask" where
  "checked_task e t =
     (if t_type t = LCFileNetTaskTypeUpload \<and> t_md5 t = None
      then t\<lparr>t_md5 := map_option (ne_md5 e) (t_filePath t)\<rparr> else t)"

lemma p_checkTask_accepts:
  assumes "acceptable e (tasks s a)" "id_of s a \<noteq> None"
  shows "p_checkTask e a s = (True, s\<lparr>tasks := (tasks s)(a := checked_task e (tasks s a))\<rparr>)"
  using assms by (auto simp: acceptable_def p_checkTask_def checked_task_def upd_task_def Let_def)

lemma p_checkTask_refuses:
  assumes "\<not> acceptable e (tasks s a)"
  shows "p_checkTask e a s = (False, s)"
  using assms by (cases "t_type (tasks s a)")
    (auto simp: acceptable_def p_checkTask_def Let_def split: option.splits)

lemma checked_task_simps [simp]: "t_taskId (checked_task e t) = t_taskId t"
  "t_type (checked_task e t) = t_type t" "t_status (checked_task e t) = t_status t"
  by (simp_all add: checked_task_def)

text \<open>
  C13: starting a task the service does not know. If the check accepts it, its row is stored (the
  md5 of an upload filled in), the object becomes the cached one for its id, and exactly one
  operation for it is registered and queued, in the given queue or in the one of its type.
\<close>

theorem start_new_task:
  assumes "id_of s a = Some k" "acceptable e (tasks s a)"
    and "cache s k = None" "lc_getTaskByTaskId (Some k) (task_db s) = None"
  shows "\<exists>s'. lc_startTask e a q s = Some s'
    \<and> cache s' = (cache s)(k \<mapsto> a) \<and> tasks s' = (tasks s)(a := checked_task e (tasks s a))
    \<and> lc_getTaskByTaskId (Some k) (task_db s') = Some (task_columns (checked_task e (tasks s a)))
    \<and> taskOperationDic s' = (taskOperationDic s)(k \<mapsto> next_op s)
    \<and> ops s' (next_op s) = new_operation a \<and> next_op s' = next_op s + 1
    \<and> queued s' = queued s @ [(next_op s, case q of Some q \<Rightarrow> q | None \<Rightarrow>
         if t_type (tasks s a) = LCFileNetTaskTypeUpload then UploadQueue else DownloadQueue)]
    \<and> told s' = told s"
proof -
  have type: "t_type (tasks s a) = LCFileNetTaskTypeUpload \<or> t_type (tasks s a) = LCFileNetTaskTypeDownload"
    using assms(2) by (auto simp: acceptable_def)
  have "t_taskId (checked_task e (tasks s a)) = Some k" using assms(1) by simp
  from type get_save [OF this] show ?thesis using assms
    by (elim disjE; cases q) (simp_all add: lc_startTask_def p_saveCallback_def p_checkTask_accepts
        p_getTaskFromCacheByKey_def lookup_def p_setTask_def upd_db_def p_addTask_def
        add_operation_def Let_def)
qed

theorem start_new_task_witness:
  "\<exists>s'. lc_startTask net_ex_env 0 (Some (GivenQueue 3)) ex_new = Some s' \<and> queued s' = [(0, GivenQueue 3)]
     \<and> t_md5 (tasks s' 0) = Some ''m''"
proof -
  have "acceptable net_ex_env (tasks ex_new 0)" "id_of ex_new 0 = Some ''t''"
    by (simp_all add: ex_new_facts acceptable_def net_ex_task_def net_ex_env_def lc_uploadTask_def new_task_def)
  moreover have "t_md5 (checked_task net_ex_env net_ex_task) = Some ''m''"
    by (simp add: checked_task_def net_ex_task_def net_ex_env_def lc_uploadTask_def new_task_def)
  ultimately show ?thesis using start_new_task [of ex_new 0 "''t''" net_ex_env "Some (GivenQueue 3)"]
    by (auto simp: ex_new_facts lc_getTaskByTaskId_def)
qed

text \<open>
  A refused task. A task of unknown type, or an upload whose file is missing, is reported as
  finished with an error and nothing else happens: no row, no cached object, no operation. Every
  task made by \<open>lc_downlaodTask\<close> is refused, for it never sets the type.
\<close>

lemma start_refused:
  assumes "id_of s a = Some k" "\<not> acceptable e (tasks s a)"
  shows "(\<exists>s' blocks. lc_startTask e a q s = Some s' \<and> told s' = told s @ FinishNote a True # blocks
      \<and> cache s' = cache s \<and> task_db s' = task_db s \<and> queued s' = queued s \<and> next_op s' = next_op s)
    \<and> \<not> acceptable e (lc_downlaodTask i fileKey filePath url)"
proof
  show "\<not> acceptable e (lc_downlaodTask i fileKey filePath url)"
    by (simp add: acceptable_def lc_downlaodTask_def new_task_def)
  show "\<exists>s' blocks. lc_startTask e a q s = Some s' \<and> told s' = told s @ FinishNote a True # blocks
      \<and> cache s' = cache s \<and> task_db s' = task_db s \<and> queued s' = queued s \<and> next_op s' = next_op s"
    using assms by (simp add: lc_startTask_def p_saveCallback_def p_checkTask_refuses
        p_notifyFinish_def tell_def Let_def)
qed

lemma start_refused_witness:
  "\<exists>s'. lc_startTask net_ex_env 0 None
      (snd (alloc_task (lc_downlaodTask (Some ''t'') (Some ''k'') (Some ''/f'') (Some ''u'')) init_svc)) = Some s'
    \<and> FinishNote 0 True \<in> set (told s') \<and> queued s' = []"
proof -
  let ?s = "snd (alloc_task (lc_downlaodTask (Some ''t'') (Some ''k'') (Some ''/f'') (Some ''u'')) init_svc)"
  have "id_of ?s 0 = Some ''t''" "\<not> acceptable net_ex_env (tasks ?s 0)" "queued ?s = []"
    by (simp_all add: alloc_task_def init_svc_def lc_downlaodTask_def new_task_def acceptable_def)
  then show ?thesis using start_refused [of ?s 0 "''t''" net_ex_env None] by fastforce
qed

text \<open>
  C12: a finished transfer is reported once. The finish block of an operation leaves the task
  failed or finished, stores it in its row, ends the operation, and tells in this order: the
  status, the status blocks, the end, and every finish block registered for the task, once and
  in the order of registration; after that no block is registered for it.
\<close>

theorem finish_reported_once:
  assumes "o_task (ops s oid) = a" "id_of s a = Some k"
  shows "\<exists>s' t. start_reply oid (ReplyFinish err) s = Some s'
     \<and> t = (tasks s a)\<lparr>t_status := if err then LCFileNetTaskStatusFailed else LCFileNetTaskStatusFinish\<rparr>
     \<and> tasks s' = (tasks s)(a := t)
     \<and> lc_getTaskByTaskId (Some k) (task_db s') = Some (task_columns t)
     \<and> o_finished (ops s' oid) \<and> \<not> o_executing (ops s' oid)
     \<and> told s' = told s
         @ StatusChange a (t_status t) # map (\<lambda>b. StatusBlock b a) (blocks_of (statusCallbackCache s) (Some k))
         @ FinishNote a err # map (\<lambda>b. FinishBlock b a err) (blocks_of (finishCallbackCache s) (Some k))
     \<and> blocks_of (finishCallbackCache s') (Some k) = []"
  using finish_block_eq [OF assms, of err]
  by (auto simp: start_reply_def blocks_of_def lookup_def)

theorem finish_reported_once_witness:
  "\<exists>s'. start_reply 0 (ReplyFinish False) ex_started = Some s'
     \<and> status_of s' 0 = LCFileNetTaskStatusFinish \<and> FinishNote 0 False \<in> set (told s')"
  using finish_reported_once [of ex_started 0 0 "''t''" False]
  by (auto simp: ex_started_facts new_operation_def)

text \<open>The handler fails before it returns.\<close>

lemma failed_at_once:
  assumes ok: "svc_ok s" and k: "id_of s a = Some k" "cache s k = Some a" "o_task (ops s oid) = a"
    and run: "\<not> o_cancelled (ops s oid)" "status_of s a = LCFileNetTaskStatusCreate"
      "t_type (tasks s a) = LCFileNetTaskTypeUpload"
    and hander: "hander_responds e HanderUpload"
      "hander_replies e HanderUpload (tasks s a) = [ReplyFinish True]"
  shows "\<exists>s'. op_start e oid s = Some s' \<and> FinishNote a True \<in> set (told s')
    \<and> status_of s' a = LCFileNetTaskStatusProgress
    \<and> map_option t_status (lc_getTaskByTaskId (Some k) (task_db s')) = Some LCFileNetTaskStatusProgress
    \<and> (\<forall>e' b q s''. id_of s' b = Some k \<longrightarrow> lc_startTask e' b q s' = Some s'' \<longrightarrow>
         next_op s'' = next_op s' \<and> queued s'' = queued s')"
proof -
  let ?s0 = "call_hander HanderUpload oid (upd_op oid (\<lambda>p. p\<lparr>o_executing := True\<rparr>) s)"
  have s0: "o_task (ops ?s0 oid) = a" "tasks ?s0 = tasks s" "cache ?s0 = cache s"
    using k(3) by (simp_all add: call_hander_def tell_def upd_op_def)
  have ok0: "svc_ok ?s0"
    by (rule svc_ok_quiet [OF quiet_trans [OF quiet_upd_op quiet_call] ok]) simp
  obtain s1 where s1: "finish_block oid True ?s0 = Some s1" "cache s1 = cache s"
      "id_of s1 a = Some k" "FinishNote a True \<in> set (told s1)"
      "map_option t_status (lc_getTaskByTaskId (Some k) (task_db s1)) = Some LCFileNetTaskStatusFailed"
    using finish_block_eq [OF s0(1), of k True] k(1) s0(2,3) by auto
  let ?s2 = "lc_netOperationStart a s1"
  have main: "op_start e oid s = Some ?s2"
    using run hander s1(1) k(3)
    by (simp add: op_start_def op_main_def p_startUpload_def p_start_def start_reply_def
        resumable_def upd_op_def)
  have ok1: "svc_ok s1"
  proof -
    have "live ?s0 oid" using k(1) s0 by (simp add: live_def)
    from runs_finish_block [OF this, of True] s1(1) have "quiet ?s0 s1" by (simp add: runs_def)
    then show ?thesis using ok0 by (rule svc_ok_quiet)
  qed
  have ok2: "svc_ok ?s2" using quiet_observer(1) ok1 by (rule svc_ok_quiet)
  have c2: "cache ?s2 k = Some a"
    using quiet_observer(1) [of s1 a] s1(2) k(2) by (simp add: quiet_def)
  have st: "status_of ?s2 a = LCFileNetTaskStatusProgress"
    using lc_netOperationStart_eq(1) [OF s1(3)] .
  have "map_option t_status (lc_getTaskByTaskId (Some k) (task_db ?s2)) = Some LCFileNetTaskStatusProgress"
    using lc_netOperationStart_eq(2) [OF s1(3)] s1(5) by (auto simp: map_option_case split: option.splits)
  moreover have "FinishNote a True \<in> set (told ?s2)" using lc_netOperationStart_eq(3) [OF s1(3)] s1(4) by auto
  moreover have "next_op s'' = next_op ?s2 \<and> queued s'' = queued ?s2"
    if "id_of ?s2 b = Some k" "lc_startTask e' b q ?s2 = Some s''" for e' b q s''
    using start_busy [OF ok2 c2 _ _ that] st by (simp add: resumable_def)
  ultimately show ?thesis using main st by auto
qed



text \<open>
  C11: a cancelled task comes back. \<open>lc_cancelTask\<close> deletes the row of the task, but the finish
  block of the cancelled transfer, when the handler calls it with the error of the cancellation,
  stores the task again, as failed.
\<close>

theorem cancelled_task_comes_back:
  assumes ok: "svc_ok s" and k: "cache s k = Some a" "taskOperationDic s k = Some oid"
    and run: "status_of s a \<noteq> LCFileNetTaskStatusFinish"
  shows "\<exists>s1 s2. lc_cancelTask e (Some k) s = Some s1
    \<and> cache s1 k = None \<and> taskOperationDic s1 k = None
    \<and> lc_getTaskByTaskId (Some k) (task_db s1) = None
    \<and> start_reply oid (ReplyFinish True) s1 = Some s2
    \<and> map_option t_status (lc_getTaskByTaskId (Some k) (task_db s2)) = Some LCFileNetTaskStatusFailed"
proof -
  let ?s2 = "(op_cancel e oid s)\<lparr>taskOperationDic := (taskOperationDic (op_cancel e oid s))(k := None)\<rparr>"
  let ?s4 = "upd_task a (\<lambda>t. t\<lparr>t_status := LCFileNetTaskStatusCanceled\<rparr>)
               (upd_db (lc_deleteTaskByTaskId (Some k)) ?s2)"
  let ?s5 = "p_notifyStatusChange a ?s4"
  have op: "o_task (ops s oid) = a" using ok k by (auto simp: svc_ok_def)
  have q: "quiet s (op_cancel e oid s)" by (rule quiet_cancel)
  have id: "id_of s a = Some k" using svc_ok_cache [OF ok k(1)] by simp
  have s5: "id_of ?s5 a = Some k" "o_task (ops ?s5 oid) = a" "taskOperationDic ?s5 k = None"
      "lc_getTaskByTaskId (Some k) (task_db ?s5) = None" "cache ?s5 = cache s"
    using q op id by (auto simp: p_notifyStatusChange_def tell_def upd_task_def upd_db_def quiet_def get_delete)
  obtain s6 where s6: "p_notifyFinish a True ?s5 = Some s6" "id_of s6 a = Some k"
      "o_task (ops s6 oid) = a" "taskOperationDic s6 k = None" "task_db s6 = task_db ?s5"
    using s5 by (auto simp: p_notifyFinish_def tell_def Let_def)
  let ?s1 = "s6\<lparr>cache := (cache s6)(k := None)\<rparr>"
  have "lc_cancelTask e (Some k) s = Some ?s1"
    using k run s6(1) by (simp add: lc_cancelTask_def p_getTaskFromCacheByKey_def lookup_def Let_def)
  moreover obtain s2 where "start_reply oid (ReplyFinish True) ?s1 = Some s2"
      "map_option t_status (lc_getTaskByTaskId (Some k) (task_db s2)) = Some LCFileNetTaskStatusFailed"
    using finish_block_eq [of ?s1 oid a k True] s6(2,3) by (auto simp: start_reply_def)
  ultimately show ?thesis using s5(4) s6(4,5) by auto
qed

theorem cancelled_task_comes_back_witness:
  "\<exists>s1 s2. lc_cancelTask net_ex_env (Some ''t'') ex_started = Some s1
    \<and> start_reply 0 (ReplyFinish True) s1 = Some s2
    \<and> lc_getTaskByTaskId (Some ''t'') (task_db s2) \<noteq> None"
  using cancelled_task_comes_back [OF ex_started_ok(2), of "''t''" 0 0 net_ex_env]
  by (auto simp: ex_started_facts)

text \<open>
  A task that is only in the database cannot be resumed. \<open>lc_resumTask\<close> looks it up by the id
  of the nil task, finds nothing and does nothing, whatever the table holds. And a finished task
  is final: pausing, cancelling or resuming it changes nothing.
\<close>

lemma resume_and_final:
  shows "(cache s k = None \<longrightarrow> lc_resumTask e (Some k) q s = Some s) \<and>
    (cache s k = Some a \<and> status_of s a = LCFileNetTaskStatusFinish \<longrightarrow>
       lc_resumTask e (Some k) q s = Some s \<and> lc_pauseTask e (Some k) s = Some s
       \<and> lc_cancelTask e (Some k) s = Some s)"
  by (simp add: lc_resumTask_def lc_pauseTask_def lc_cancelTask_def p_getTaskFromCacheByKey_def
      lookup_def get_nil Let_def)

lemma resume_and_final_witness:
  "lc_getTaskByTaskId (Some ''t'') (task_db (ex_new\<lparr>task_db := [net_ex_task]\<rparr>)) = Some net_ex_task
   \<and> lc_resumTask net_ex_env (Some ''t'') None (ex_new\<lparr>task_db := [net_ex_task]\<rparr>) = Some (ex_new\<lparr>task_db := [net_ex_task]\<rparr>)"
  using resume_and_final [of "ex_new\<lparr>task_db := [net_ex_task]\<rparr>" "''t''" net_ex_env None]
  by (simp add: ex_new_facts lc_getTaskByTaskId_def) (simp add: net_ex_task_def lc_uploadTask_def new_task_def)

end
