(* ===== verification/ProtocolFinder.thy ===== *)
theory ProtocolFinder
  imports Prelude
begin

text \<open>
  The registry of observers by protocol (\<open>Tools/ProtocolFinder.m\<close>): a dictionary from protocol
  names to arrays of weak pointers. A weak pointer to a deallocated object reads as NULL, which
  is \<open>None\<close>; \<open>compact\<close> drops the NULLs. All accesses go through one serial queue, so every method
  is one atomic step on the registry.
\<close>

type_synonym registry = "string \<rightharpoonup> nat option list"

text \<open>\<open>allObjects\<close> of a weak pointer array: its live objects.\<close>

definition allObjects :: "nat option list \<Rightarrow> nat list" where
  "allObjects ps = map the (filter (\<lambda>p. p \<noteq> None) ps)"

definition compact :: "nat option list \<Rightarrow> nat option list" where
  "compact ps = filter (\<lambda>p. p \<noteq> None) ps"

text \<open>The array of a protocol, with a NULL added (so that \<open>compact\<close> works) and compacted; an
  empty one is made when there is none.\<close>

definition objArrayForProtocol :: "string \<Rightarrow> registry \<Rightarrow> nat option list \<times> registry" where
  "objArrayForProtocol p reg =
     (case reg p of
        Some ps \<Rightarrow> let ps = compact (ps @ [None]) in (ps, reg(p \<mapsto> ps))
      | None \<Rightarrow> ([], reg(p \<mapsto> [])))"

fun register_each :: "nat \<Rightarrow> string list \<Rightarrow> registry \<Rightarrow> registry" where
  "register_each obj [] reg = reg"
| "register_each obj (p # protocols) reg =
     (let (ps, reg) = objArrayForProtocol p reg
      in register_each obj protocols
           (if obj \<notin> set (allObjects ps) then reg(p \<mapsto> ps @ [Some obj]) else reg))"

text \<open>\<open>!obj || !protocols.count\<close> is \<open>None\<close> or the empty list.\<close>

definition registerObj :: "nat option \<Rightarrow> string list \<Rightarrow> registry \<Rightarrow> registry" where
  "registerObj obj protocols reg =
     (case obj of None \<Rightarrow> reg
      | Some x \<Rightarrow> if protocols = [] then reg else register_each x protocols reg)"

text \<open>The loop of \<open>removeObj\<close> stops at the first pointer to the object.\<close>

fun remove_first :: "nat \<Rightarrow> nat option list \<Rightarrow> nat option list" where
  "remove_first obj [] = []"
| "remove_first obj (p # ps) = (if p = Some obj then ps else p # remove_first obj ps)"

fun remove_each :: "nat \<Rightarrow> string list \<Rightarrow> registry \<Rightarrow> registry" where
  "remove_each obj [] reg = reg"
| "remove_each obj (p # protocols) reg =
     (let (ps, reg) = objArrayForProtocol p reg
      in remove_each obj protocols (reg(p \<mapsto> remove_first obj ps)))"

definition removeObj :: "nat option \<Rightarrow> string list \<Rightarrow> registry \<Rightarrow> registry" where
  "removeObj obj protocols reg =
     (case obj of None \<Rightarrow> reg
      | Some x \<Rightarrow> if protocols = [] then reg else remove_each x protocols reg)"

definition findObjForProtocol :: "string \<Rightarrow> registry \<Rightarrow> nat list \<times> registry" where
  "findObjForProtocol p reg = (case objArrayForProtocol p reg of (ps, reg) \<Rightarrow> (allObjects ps, reg))"

definition findLastestObjForProtocol :: "string \<Rightarrow> registry \<Rightarrow> nat option \<times> registry" where
  "findLastestObjForProtocol p reg =
     (case findObjForProtocol p reg of (objs, reg) \<Rightarrow> (if objs = [] then None else Some (last objs), reg))"

text \<open>The objects \<open>execute:selector:run:\<close> runs the block on, in order.\<close>

definition execute :: "string \<Rightarrow> (nat \<Rightarrow> bool) \<Rightarrow> registry \<Rightarrow> nat list \<times> registry" where
  "execute p respondsToSelector reg =
     (case findObjForProtocol p reg of (objs, reg) \<Rightarrow> (filter respondsToSelector objs, reg))"

text \<open>An object goes away: its weak pointers become NULL.\<close>

definition dealloc :: "nat \<Rightarrow> registry \<Rightarrow> registry" where
  "dealloc obj reg = (\<lambda>p. map_option (map (\<lambda>q. if q = Some obj then None else q)) (reg p))"

section \<open>The registry as ordered sets\<close>

text \<open>What a registry stands for: the live objects of each protocol, in order.\<close>

definition observers :: "registry \<Rightarrow> string \<Rightarrow> nat list" where
  "observers reg p = (case reg p of None \<Rightarrow> [] | Some ps \<Rightarrow> allObjects ps)"

definition add_new :: "nat \<Rightarrow> nat list \<Rightarrow> nat list" where
  "add_new x xs = (if x \<in> set xs then xs else xs @ [x])"

lemma allObjects_simps [simp]:
  "allObjects [] = []" "allObjects (ps @ qs) = allObjects ps @ allObjects qs"
  "allObjects [Some x] = [x]" "allObjects [None] = []" "allObjects (compact ps) = allObjects ps"
  by (simp_all add: allObjects_def compact_def)

lemma observers_upd: "observers (reg(p \<mapsto> ps)) = (observers reg)(p := allObjects ps)"
  by (auto simp: observers_def fun_eq_iff)

lemma objArray_observers:
  "objArrayForProtocol p reg = (ps, reg') \<Longrightarrow>
     allObjects ps = observers reg p \<and> observers reg' = observers reg \<and> None \<notin> set ps"
proof (cases "reg p")
  case None
  then show "objArrayForProtocol p reg = (ps, reg') \<Longrightarrow> ?thesis"
    by (auto simp: objArrayForProtocol_def observers_upd) (simp_all add: observers_def fun_eq_iff)
next
  case (Some qs)
  have "None \<notin> set (compact (qs @ [None]))" by (simp add: compact_def)
  with Some show "objArrayForProtocol p reg = (ps, reg') \<Longrightarrow> ?thesis"
    by (auto simp: objArrayForProtocol_def observers_upd Let_def) (simp_all add: observers_def fun_eq_iff)
qed

lemma observers_register_each:
  "distinct ps \<Longrightarrow> observers (register_each x ps reg) p =
     (if p \<in> set ps then add_new x (observers reg p) else observers reg p)"
proof (induction ps arbitrary: reg)
  case (Cons q ps)
  obtain arr reg' where arr: "objArrayForProtocol q reg = (arr, reg')" by fastforce
  let ?r = "if x \<notin> set (allObjects arr) then reg'(q \<mapsto> arr @ [Some x]) else reg'"
  have "observers ?r = (observers reg)(q := add_new x (observers reg q))"
    using objArray_observers [OF arr] by (auto simp: observers_upd add_new_def fun_eq_iff)
  with Cons show ?case by (auto simp: arr)
qed simp

lemma allObjects_remove_first: "None \<notin> set ps \<Longrightarrow> allObjects (remove_first x ps) = remove1 x (allObjects ps)"
  by (induction x ps rule: remove_first.induct) (auto simp: allObjects_def)

lemma observers_remove_each:
  "distinct ps \<Longrightarrow> observers (remove_each x ps reg) p =
     (if p \<in> set ps then remove1 x (observers reg p) else observers reg p)"
proof (induction ps arbitrary: reg)
  case (Cons q ps)
  obtain arr reg' where arr: "objArrayForProtocol q reg = (arr, reg')" by fastforce
  have "observers (reg'(q \<mapsto> remove_first x arr)) = (observers reg)(q := remove1 x (observers reg q))"
    using objArray_observers [OF arr] by (simp add: observers_upd allObjects_remove_first)
  with Cons show ?case by (auto simp: arr)
qed simp

lemma observers_dealloc: "observers (dealloc x reg) p = filter (\<lambda>y. y \<noteq> x) (observers reg p)"
proof -
  have "allObjects (map (\<lambda>q. if q = Some x then None else q) ps) = filter (\<lambda>y. y \<noteq> x) (allObjects ps)" for ps
  proof (induction ps)
    case (Cons a ps)
    then show ?case by (cases a) (auto simp: allObjects_def)
  qed simp
  then show ?thesis by (simp add: observers_def dealloc_def split: option.splits)
qed

section \<open>Property\<close>



end
