(* ===== verification/Varint.thy ===== *)
theory Varint
  imports Prelude
begin

text \<open>
  Variable-length integers and big-endian words of the SQL engine
  (\<open>Example/Pods/WCDBOptimizedSQLCipher/src/util.c\<close>): the encoder, the unrolled decoder
  and their agreement with a byte-at-a-time reference.
\<close>

section \<open>Encoding\<close>

lemma unat_drop_bit_less: "drop_bit 7 (v :: u64) \<noteq> 0 \<Longrightarrow> unat (drop_bit 7 v) < unat v"
proof -
  assume "drop_bit 7 v \<noteq> 0"
  then have "v \<noteq> 0" by auto
  then show ?thesis
    by (simp add: unat_drop_bit_eq div_less_dividend unat_gt_0 drop_bit_eq_div [where 'a = nat]
        del: drop_bit_eq_div)
qed

text \<open>The loop of \<open>putVarint64\<close> that fills \<open>buf\<close> from the low seven bits up.\<close>

function putVarint_buf :: "u64 \<Rightarrow> u8 list" where
  "putVarint_buf v =
     (let b = ucast ((v AND 0x7f) OR 0x80); v' = drop_bit 7 v
      in if v' \<noteq> 0 then b # putVarint_buf v' else [b])"
  by pat_completeness auto
termination
  by (relation "measure unat") (auto simp: unat_drop_bit_less)

declare putVarint_buf.simps [simp del]

text \<open>The nine-byte form: the low byte last, the other eight seven bits each.\<close>

fun putVarint_nine :: "nat \<Rightarrow> u64 \<Rightarrow> u8 list" where
  "putVarint_nine 0 v = []"
| "putVarint_nine (Suc i) v =
     putVarint_nine i (drop_bit 7 v) @ [ucast ((v AND 0x7f) OR 0x80)]"

definition putVarint64 :: "u64 \<Rightarrow> u8 list" where
  "putVarint64 v =
     (if v AND push_bit 32 0xff000000 \<noteq> 0
      then putVarint_nine 8 (drop_bit 8 v) @ [ucast v]
      else let buf = putVarint_buf v in rev (buf[0 := buf ! 0 AND 0x7f]))"

definition sqlite3PutVarint :: "u64 \<Rightarrow> u8 list" where
  "sqlite3PutVarint v =
     (if v \<le> 0x7f then [ucast (v AND 0x7f)]
      else if v \<le> 0x3fff
      then [ucast ((drop_bit 7 v AND 0x7f) OR 0x80), ucast (v AND 0x7f)]
      else putVarint64 v)"

section \<open>Decoding\<close>

definition SLOT_2_0 :: u32 where "SLOT_2_0 = 0x001fc07f"
definition SLOT_4_2_0 :: u32 where "SLOT_4_2_0 = 0xf01fc07f"

text \<open>
  The five- to nine-byte forms, entered with \<open>a\<close> holding \<open>p0<<14 | p2\<close> (masked) and
  \<open>b\<close> holding \<open>p1<<14 | p3\<close> (unmasked).
\<close>

definition getVarint_5to9 :: "u32 \<Rightarrow> u32 \<Rightarrow> u8 list \<Rightarrow> (nat \<times> u64) option" where
  "getVarint_5to9 a b p = do {
     let b = b AND SLOT_2_0;
     let s = a;
     p4 \<leftarrow> rd p 4;
     let a = push_bit 14 a OR ucast p4;
     if a AND 0x80 = 0 then do {
       let b = push_bit 7 b;
       let a = a OR b;
       let s = drop_bit 18 s;
       Some (5, push_bit 32 (ucast s) OR ucast a)
     } else do {
     let s = push_bit 7 s OR b;
     p5 \<leftarrow> rd p 5;
     let b = push_bit 14 b OR ucast p5;
     if b AND 0x80 = 0 then do {
       let a = push_bit 7 (a AND SLOT_2_0) OR b;
       let s = drop_bit 18 s;
       Some (6, push_bit 32 (ucast s) OR ucast a)
     } else do {
     p6 \<leftarrow> rd p 6;
     let a = push_bit 14 a OR ucast p6;
     if a AND 0x80 = 0 then do {
       let a = a AND SLOT_4_2_0;
       let b = push_bit 7 (b AND SLOT_2_0);
       let a = a OR b;
       let s = drop_bit 11 s;
       Some (7, push_bit 32 (ucast s) OR ucast a)
     } else do {
     let a = a AND SLOT_2_0;
     p7 \<leftarrow> rd p 7;
     let b = push_bit 14 b OR ucast p7;
     if b AND 0x80 = 0 then do {
       let b = b AND SLOT_4_2_0;
       let a = push_bit 7 a OR b;
       let s = drop_bit 4 s;
       Some (8, push_bit 32 (ucast s) OR ucast a)
     } else do {
     p8 \<leftarrow> rd p 8;
     let a = push_bit 15 a OR ucast p8;
     let b = push_bit 8 (b AND SLOT_2_0);
     let a = a OR b;
     let s = push_bit 4 s;
     p4' \<leftarrow> rd p 4;
     let b = drop_bit 3 (ucast p4' AND 0x7f);
     let s = s OR b;
     Some (9, push_bit 32 (ucast s) OR ucast a)
     }}}}}"

definition sqlite3GetVarint :: "u8 list \<Rightarrow> (nat \<times> u64) option" where
  "sqlite3GetVarint p = do {
     p0 \<leftarrow> rd p 0;
     let a = (ucast p0 :: u32);
     if a AND 0x80 = 0 then Some (1, ucast a)
     else do {
     p1 \<leftarrow> rd p 1;
     let b = (ucast p1 :: u32);
     if b AND 0x80 = 0 then do {
       let a = push_bit 7 (a AND 0x7f) OR b;
       Some (2, ucast a)
     } else do {
     p2 \<leftarrow> rd p 2;
     let a = push_bit 14 a OR ucast p2;
     if a AND 0x80 = 0 then do {
       let a = a AND SLOT_2_0;
       let b = push_bit 7 (b AND 0x7f);
       let a = a OR b;
       Some (3, ucast a)
     } else do {
     let a = a AND SLOT_2_0;
     p3 \<leftarrow> rd p 3;
     let b = push_bit 14 b OR ucast p3;
     if b AND 0x80 = 0 then do {
       let b = b AND SLOT_2_0;
       let a = push_bit 7 a OR b;
       Some (4, ucast a)
     } else getVarint_5to9 a b p
     }}}}"

text \<open>The eighth bit of a byte says that another byte follows.\<close>

definition cont_bit :: "u8 \<Rightarrow> bool" where
  "cont_bit b = bit b 7"

text \<open>The decoder the comment at the top of the format describes, one byte at a time.\<close>

fun varint_ref :: "nat \<Rightarrow> u64 \<Rightarrow> u8 list \<Rightarrow> (nat \<times> u64) option" where
  "varint_ref n acc [] = None"
| "varint_ref n acc (b # bs) =
     (if n = 8 then Some (9, push_bit 8 acc OR ucast b)
      else if \<not> cont_bit b then Some (Suc n, push_bit 7 acc OR ucast b)
      else varint_ref (Suc n) (push_bit 7 acc OR ucast (b AND 0x7f)) bs)"

text \<open>\<open>sqlite3GetVarint32\<close>: the decoder with a 32-bit result, saturating at \<open>0xffffffff\<close>.\<close>

definition sqlite3GetVarint32 :: "u8 list \<Rightarrow> (nat \<times> u32) option" where
  "sqlite3GetVarint32 p = do {
     p0 \<leftarrow> rd p 0;
     let a = (ucast p0 :: u32);
     p1 \<leftarrow> rd p 1;
     let b = (ucast p1 :: u32);
     if b AND 0x80 = 0 then do {
       let a = push_bit 7 (a AND 0x7f);
       Some (2, a OR b)
     } else do {
     p2 \<leftarrow> rd p 2;
     let a = push_bit 14 a OR ucast p2;
     if a AND 0x80 = 0 then do {
       let a = a AND (push_bit 14 0x7f OR 0x7f);
       let b = push_bit 7 (b AND 0x7f);
       Some (3, a OR b)
     } else do {
       (n, v64) \<leftarrow> sqlite3GetVarint p;
       if v64 AND 0xffffffff \<noteq> v64 then Some (n, 0xffffffff)
       else Some (n, ucast v64)
     }}}"

text \<open>The macro \<open>getVarint32\<close> of \<open>sqliteInt.h\<close>, which inlines the one-byte case.\<close>

definition getVarint32 :: "u8 list \<Rightarrow> (nat \<times> u32) option" where
  "getVarint32 p = do {
     p0 \<leftarrow> rd p 0;
     if p0 < 0x80 then Some (1, ucast p0) else sqlite3GetVarint32 p
   }"

function varintLen_loop :: "nat \<Rightarrow> u64 \<Rightarrow> nat" where
  "varintLen_loop i v =
     (let v = drop_bit 7 v in if v \<noteq> 0 then varintLen_loop (Suc i) v else i)"
  by pat_completeness auto
termination
proof (relation "measure (\<lambda>(i, v). unat v)")
  show "wf (measure (\<lambda>(i :: nat, v :: u64). unat v))" by simp
next
  fix i v and v' :: u64
  assume "v' = drop_bit 7 v" "v' \<noteq> 0"
  then show "((Suc i, v'), i, v) \<in> measure (\<lambda>(i, v). unat v)"
    using unat_drop_bit_less by auto
qed

declare varintLen_loop.simps [simp del]

definition sqlite3VarintLen :: "u64 \<Rightarrow> nat" where
  "sqlite3VarintLen v = varintLen_loop 1 v"

section \<open>Big-endian words\<close>

definition sqlite3Get4byte :: "u8 list \<Rightarrow> u32 option" where
  "sqlite3Get4byte p = do {
     p0 \<leftarrow> rd p 0; p1 \<leftarrow> rd p 1; p2 \<leftarrow> rd p 2; p3 \<leftarrow> rd p 3;
     Some (push_bit 24 (ucast p0) OR push_bit 16 (ucast p1) OR push_bit 8 (ucast p2)
           OR ucast p3)
   }"

definition sqlite3Put4byte :: "u32 \<Rightarrow> u8 list" where
  "sqlite3Put4byte v =
     [ucast (drop_bit 24 v), ucast (drop_bit 16 v), ucast (drop_bit 8 v), ucast v]"

section \<open>The unrolled decoder agrees with the reference\<close>

lemmas getVarint_simps =
  sqlite3GetVarint_def getVarint_5to9_def SLOT_2_0_def SLOT_4_2_0_def and_128 bit_simps Let_def cont_bit_def
lemma getVarint_1:
  "\<not> cont_bit p0 \<Longrightarrow> 
   sqlite3GetVarint (p0 # q) = varint_ref 0 0 (p0 # q)"
  by (simp add: getVarint_simps) (rule bit_eq64, simp add: bit_simps u8_bit_ge disj_ac)

lemma getVarint_2:
  "cont_bit p0 \<Longrightarrow> \<not> cont_bit p1 \<Longrightarrow> 
   sqlite3GetVarint (p0 # p1 # q) = varint_ref 0 0 (p0 # p1 # q)"
  by (simp add: getVarint_simps) (rule bit_eq64, simp add: bit_simps u8_bit_ge disj_ac)

lemma getVarint_3:
  "cont_bit p0 \<Longrightarrow> cont_bit p1 \<Longrightarrow> \<not> cont_bit p2 \<Longrightarrow> 
   sqlite3GetVarint (p0 # p1 # p2 # q) = varint_ref 0 0 (p0 # p1 # p2 # q)"
  by (simp add: getVarint_simps) (rule bit_eq64, simp add: bit_simps u8_bit_ge disj_ac)

lemma getVarint_4:
  "cont_bit p0 \<Longrightarrow> cont_bit p1 \<Longrightarrow> cont_bit p2 \<Longrightarrow> \<not> cont_bit p3 \<Longrightarrow> 
   sqlite3GetVarint (p0 # p1 # p2 # p3 # q) = varint_ref 0 0 (p0 # p1 # p2 # p3 # q)"
  by (simp add: getVarint_simps) (rule bit_eq64, simp add: bit_simps u8_bit_ge disj_ac)

lemma getVarint_5:
  "cont_bit p0 \<Longrightarrow> cont_bit p1 \<Longrightarrow> cont_bit p2 \<Longrightarrow> cont_bit p3 \<Longrightarrow> \<not> cont_bit p4 \<Longrightarrow> 
   sqlite3GetVarint (p0 # p1 # p2 # p3 # p4 # q) = varint_ref 0 0 (p0 # p1 # p2 # p3 # p4 # q)"
  by (simp add: getVarint_simps) (rule bit_eq64, simp add: bit_simps u8_bit_ge disj_ac)

lemma getVarint_6:
  "cont_bit p0 \<Longrightarrow> cont_bit p1 \<Longrightarrow> cont_bit p2 \<Longrightarrow> cont_bit p3 \<Longrightarrow> cont_bit p4 \<Longrightarrow> \<not> cont_bit p5 \<Longrightarrow> 
   sqlite3GetVarint (p0 # p1 # p2 # p3 # p4 # p5 # q) = varint_ref 0 0 (p0 # p1 # p2 # p3 # p4 # p5 # q)"
  by (simp add: getVarint_simps) (rule bit_eq64, simp add: bit_simps u8_bit_ge disj_ac)

lemma getVarint_7:
  "cont_bit p0 \<Longrightarrow> cont_bit p1 \<Longrightarrow> cont_bit p2 \<Longrightarrow> cont_bit p3 \<Longrightarrow> cont_bit p4 \<Longrightarrow> cont_bit p5 \<Longrightarrow> \<not> cont_bit p6 \<Longrightarrow> 
   sqlite3GetVarint (p0 # p1 # p2 # p3 # p4 # p5 # p6 # q) = varint_ref 0 0 (p0 # p1 # p2 # p3 # p4 # p5 # p6 # q)"
  by (simp add: getVarint_simps) (rule bit_eq64, simp add: bit_simps u8_bit_ge disj_ac)

lemma getVarint_8:
  "cont_bit p0 \<Longrightarrow> cont_bit p1 \<Longrightarrow> cont_bit p2 \<Longrightarrow> cont_bit p3 \<Longrightarrow> cont_bit p4 \<Longrightarrow> cont_bit p5 \<Longrightarrow> cont_bit p6 \<Longrightarrow> \<not> cont_bit p7 \<Longrightarrow> 
   sqlite3GetVarint (p0 # p1 # p2 # p3 # p4 # p5 # p6 # p7 # q) = varint_ref 0 0 (p0 # p1 # p2 # p3 # p4 # p5 # p6 # p7 # q)"
  by (simp add: getVarint_simps) (rule bit_eq64, simp add: bit_simps u8_bit_ge disj_ac)

lemma getVarint_9:
  "cont_bit p0 \<Longrightarrow> cont_bit p1 \<Longrightarrow> cont_bit p2 \<Longrightarrow> cont_bit p3 \<Longrightarrow> cont_bit p4 \<Longrightarrow> cont_bit p5 \<Longrightarrow> cont_bit p6 \<Longrightarrow> cont_bit p7 \<Longrightarrow> 
   sqlite3GetVarint (p0 # p1 # p2 # p3 # p4 # p5 # p6 # p7 # p8 # q) = varint_ref 0 0 (p0 # p1 # p2 # p3 # p4 # p5 # p6 # p7 # p8 # q)"
  by (simp add: getVarint_simps) (rule bit_eq64, simp add: bit_simps u8_bit_ge disj_ac)

lemma getVarint_short:
  "length p < 9 \<Longrightarrow> list_all cont_bit p \<Longrightarrow> sqlite3GetVarint p = varint_ref 0 0 p"
  by (auto simp: small_length getVarint_simps)

lemma getVarint_stop:
  "length xs < 8 \<Longrightarrow> list_all cont_bit xs \<Longrightarrow> \<not> cont_bit y \<Longrightarrow>
   sqlite3GetVarint (xs @ y # ys) = varint_ref 0 0 (xs @ y # ys)"
  by (auto simp: small_length simp del: varint_ref.simps
      intro: getVarint_1 getVarint_2 getVarint_3 getVarint_4 getVarint_5 getVarint_6 getVarint_7 getVarint_8)

lemma getVarint_full:
  "length xs = 8 \<Longrightarrow> list_all cont_bit xs \<Longrightarrow>
   sqlite3GetVarint (xs @ y # ys) = varint_ref 0 0 (xs @ y # ys)"
  by (auto simp: small_length simp del: varint_ref.simps intro: getVarint_9)

lemma getVarint_eq_ref: "sqlite3GetVarint p = varint_ref 0 0 p"
proof (cases "8 \<le> length (takeWhile cont_bit p)")
  case True
  let ?xs = "take 8 (takeWhile cont_bit p)"
  obtain zs where zs: "p = ?xs @ zs"
    by (metis append_assoc append_take_drop_id takeWhile_dropWhile_id)
  have xs: "length ?xs = 8" "list_all cont_bit ?xs"
    using True by (auto simp: list_all_iff dest: in_set_takeD set_takeWhileD)
  show ?thesis
  proof (cases zs)
    case Nil
    then have p: "p = ?xs" using zs by simp
    have "length p = 8" "list_all cont_bit p"
      using xs p by metis+
    then show ?thesis by (simp add: getVarint_short)
  next
    case (Cons y ys)
    with xs zs getVarint_full [of ?xs y ys] show ?thesis by simp
  qed
next
  case False
  let ?xs = "takeWhile cont_bit p"
  have xs: "length ?xs < 8" "list_all cont_bit ?xs"
    using False by (auto simp: list_all_iff dest: set_takeWhileD)
  show ?thesis
  proof (cases "dropWhile cont_bit p")
    case Nil
    then have "p = ?xs" by (metis append_Nil2 takeWhile_dropWhile_id)
    with xs show ?thesis using getVarint_short [of p] by simp
  next
    case (Cons y ys)
    then have "p = ?xs @ y # ys" "\<not> cont_bit y"
      by (metis takeWhile_dropWhile_id) (metis Cons hd_dropWhile list.distinct(1) list.sel(1))
    with xs show ?thesis by (metis getVarint_stop)
  qed
qed

section \<open>Round trip\<close>

definition varint_val :: "u64 \<Rightarrow> u8 list \<Rightarrow> u64" where
  "varint_val = foldl (\<lambda>acc b. push_bit 7 acc OR ucast (b AND 0x7f))"

lemma varint_val_append: "varint_val acc (xs @ ys) = varint_val (varint_val acc xs) ys"
  by (simp add: varint_val_def)

lemma varint_val_single: "varint_val acc [b] = push_bit 7 acc OR ucast (b AND 0x7f)"
  by (simp add: varint_val_def)

lemma varint_ref_append:
  "list_all cont_bit xs \<Longrightarrow> n + length xs \<le> 8 \<Longrightarrow>
   varint_ref n acc (xs @ ys) = varint_ref (n + length xs) (varint_val acc xs) ys"
  by (induction xs arbitrary: n acc) (auto simp: varint_val_def)

lemma cont_bit_or_128: "cont_bit (ucast ((v AND 0x7f) OR 0x80 :: u64))"
  by (simp add: cont_bit_def bit_simps)

lemma low7: "ucast (ucast ((v AND 0x7f) OR 0x80 :: u64) AND 0x7f :: u8) = (v AND 0x7f :: u64)"
  by (rule bit_eq64) (simp add: bit_simps)

lemma join7: "push_bit 7 (drop_bit 7 v) OR (v AND 0x7f) = (v :: u64)"
  by (rule bit_eq64) (simp add: bit_simps)

lemma putVarint_buf_not_Nil [simp]: "putVarint_buf v \<noteq> []"
  by (subst putVarint_buf.simps) (simp add: Let_def)

lemma putVarint_buf_cont: "list_all cont_bit (putVarint_buf v)"
proof (induction v rule: putVarint_buf.induct)
  case (1 v)
  then show ?case
    by (subst putVarint_buf.simps) (auto simp: Let_def cont_bit_or_128)
qed

lemma putVarint_buf_val: "varint_val 0 (rev (putVarint_buf v)) = v"
proof (induction v rule: putVarint_buf.induct)
  case (1 v)
  show ?case
  proof (cases "drop_bit 7 v = 0")
    case True
    then have "varint_val 0 (rev (putVarint_buf v)) = v AND 0x7f"
      by (simp add: putVarint_buf.simps [of v] varint_val_single low7)
    also have "\<dots> = v" using join7 [of v] True by simp
    finally show ?thesis .
  next
    case False
    with 1 have "varint_val 0 (rev (putVarint_buf (drop_bit 7 v))) = drop_bit 7 v"
      by blast
    with False show ?thesis
      by (simp add: putVarint_buf.simps [of v] varint_val_append varint_val_single low7 join7)
  qed
qed

lemma unat_drop7: "unat (drop_bit 7 (v :: u64)) = unat v div 128"
  by (simp add: unat_drop_bit_eq drop_bit_eq_div [where 'a = nat] del: drop_bit_eq_div)

lemma putVarint_buf_length:
  "0 < k \<Longrightarrow> unat v < 2 ^ (7 * k) \<Longrightarrow> length (putVarint_buf v) \<le> k"
proof (induction v arbitrary: k rule: putVarint_buf.induct)
  case (1 v)
  show ?case
  proof (cases "drop_bit 7 v = 0")
    case True
    with 1 show ?thesis by (simp add: putVarint_buf.simps [of v])
  next
    case False
    then have "unat (drop_bit 7 v) \<noteq> 0" by (simp add: unat_eq_0)
    then have "128 \<le> unat v" unfolding unat_drop7 by simp
    with 1(2,3) have "k \<noteq> 1" by auto
    with 1(2) obtain j where k: "k = Suc j" "0 < j" by (cases k) auto
    have "unat (drop_bit 7 v) < 2 ^ (7 * j)"
      using 1(3) k unfolding unat_drop7 by (simp add: power_add less_mult_imp_div_less)
    with 1(1) False k have "length (putVarint_buf (drop_bit 7 v)) \<le> j" by blast
    with False k show ?thesis by (simp add: putVarint_buf.simps [of v])
  qed
qed

lemma putVarint_nine_length [simp]: "length (putVarint_nine i v) = i"
  by (induction i v rule: putVarint_nine.induct) auto

lemma putVarint_nine_cont: "list_all cont_bit (putVarint_nine i v)"
  by (induction i v rule: putVarint_nine.induct) (auto simp: cont_bit_or_128)

lemma mask7: "(0x7f :: u64) = mask 7"
  by (simp add: mask_eq_exp_minus_1)

lemma putVarint_nine_val: "varint_val 0 (putVarint_nine i v) = take_bit (7 * i) v"
proof (induction i v rule: putVarint_nine.induct)
  case (2 i v)
  have "push_bit 7 (take_bit (7 * i) (drop_bit 7 v)) OR (v AND 0x7f) = take_bit (7 * Suc i) v"
    by (rule bit_word_eqI) (auto simp: bit_simps mask7)
  with 2 show ?case by (simp add: varint_val_append varint_val_single low7)
qed (simp add: varint_val_def)

text \<open>The value the eight or fewer leading bytes and the last byte of an encoding carry.\<close>

lemma join8: "push_bit 8 (take_bit 56 (drop_bit 8 v)) OR ucast (ucast v :: u8) = (v :: u64)"
  by (rule bit_eq64) (simp add: bit_simps)

lemma high_byte_zero: "v AND push_bit 32 0xff000000 = 0 \<longleftrightarrow> unat (v :: u64) < 2 ^ 56"
proof -
  have "v AND push_bit 32 0xff000000 = push_bit 56 (drop_bit 56 v)"
    by (rule bit_eq64) (simp add: bit_simps)
  also have "\<dots> = 0 \<longleftrightarrow> drop_bit 56 v = 0"
  proof -
    have "drop_bit 56 (push_bit 56 (drop_bit 56 v)) = drop_bit 56 v"
      by (rule bit_eq64) (simp add: bit_simps u64_bit_ge)
    then show ?thesis by (metis drop_bit_of_0 push_bit_of_0)
  qed
  also have "\<dots> \<longleftrightarrow> unat v div 2 ^ 56 = 0"
    by (metis unat_drop_bit_eq drop_bit_eq_div unat_eq_0)
  finally show ?thesis by (simp add: div_eq_0_iff)
qed

lemma last_byte: "\<not> cont_bit (ucast (v AND 0x7f :: u64))" "ucast (ucast (v AND 0x7f) :: u8) = (v AND 0x7f :: u64)"
  by (simp add: cont_bit_def bit_simps) (rule bit_eq64, simp add: bit_simps)

lemma putVarint_buf_Cons: "putVarint_buf v = ucast ((v AND 0x7f) OR 0x80) # (if drop_bit 7 v = 0 then [] else putVarint_buf (drop_bit 7 v))"
  by (subst putVarint_buf.simps) (simp add: Let_def)

lemma mask_last: "ucast ((v AND 0x7f) OR 0x80 :: u64) AND 0x7f = (ucast (v AND 0x7f) :: u8)"
  by (rule bit_word_eqI) (auto simp: bit_simps less_Suc_eq numeral_eq_Suc)

definition varint_enc :: "u64 \<Rightarrow> u8 list" where
  "varint_enc v = (if drop_bit 7 v = 0 then [] else rev (putVarint_buf (drop_bit 7 v))) @ [ucast (v AND 0x7f)]"

lemma putVarint64_short: "unat v < 2 ^ 56 \<Longrightarrow> putVarint64 v = varint_enc v"
  unfolding putVarint64_def using high_byte_zero [of v]
  by (simp only: if_False not_True_eq_False) (simp add: putVarint_buf_Cons [of v] mask_last varint_enc_def)

lemma sqlite3PutVarint_short: "unat v < 2 ^ 56 \<Longrightarrow> sqlite3PutVarint v = varint_enc v"
proof -
  assume v: "unat v < 2 ^ 56"
  have zero: "drop_bit 7 w = 0 \<longleftrightarrow> w \<le> 0x7f" for w :: u64
    by (simp add: unat_eq_0 [symmetric] unat_drop7 word_le_nat_alt del: drop_bit_eq_div unat_eq_0) auto
  have two: "drop_bit 7 (drop_bit 7 w) = 0 \<longleftrightarrow> w \<le> 0x3fff" for w :: u64
    by (simp add: unat_eq_0 [symmetric] unat_drop7 word_le_nat_alt del: drop_bit_eq_div unat_eq_0 drop_bit_drop_bit) auto
  show ?thesis
    using putVarint64_short [OF v] two [of v]
    by (auto simp: sqlite3PutVarint_def varint_enc_def zero putVarint_buf_Cons [of "drop_bit 7 v"])
qed

lemma varint_enc_decodes:
  assumes "unat v < 2 ^ 56"
  shows "varint_ref 0 0 (varint_enc v @ rest) = Some (length (varint_enc v), v)"
proof (cases "drop_bit 7 v = 0")
  case True
  then show ?thesis using join7 [of v] last_byte [of v] by (simp add: varint_enc_def)
next
  case False
  let ?b = "putVarint_buf (drop_bit 7 v)"
  have "unat (drop_bit 7 v) < 2 ^ (7 * 7)" using assms by (simp add: unat_drop7 del: drop_bit_eq_div)
  then have len: "length ?b \<le> 7" by (intro putVarint_buf_length) auto
  have "list_all cont_bit (rev ?b)" using putVarint_buf_cont by (simp add: list_all_iff)
  from varint_ref_append [OF this, of 0 0 "ucast (v AND 0x7f) # rest"] len False join7 [of v]
  show ?thesis by (simp add: varint_enc_def putVarint_buf_val last_byte)
qed

lemma putVarint64_nine:
  assumes "\<not> unat v < 2 ^ 56"
  shows "putVarint64 v = putVarint_nine 8 (drop_bit 8 v) @ [ucast v]"
  unfolding putVarint64_def using assms high_byte_zero [of v] by (simp only: if_True not_False_eq_True)

lemma nine_decodes: "varint_ref 0 0 (putVarint_nine 8 (drop_bit 8 v) @ [ucast v] @ rest) = Some (9, v)"
  using varint_ref_append [of "putVarint_nine 8 (drop_bit 8 v)" 0 0 "[ucast v] @ rest"] join8 [of v]
  by (simp add: putVarint_nine_cont putVarint_nine_val)

lemma sqlite3PutVarint_nine:
  assumes "\<not> unat v < 2 ^ 56"
  shows "sqlite3PutVarint v = putVarint_nine 8 (drop_bit 8 v) @ [ucast v]"
  using assms putVarint64_nine [OF assms] by (simp add: sqlite3PutVarint_def word_le_nat_alt)

lemma PutVarint_GetVarint:
  "sqlite3GetVarint (sqlite3PutVarint v @ rest) = Some (length (sqlite3PutVarint v), v)"
proof (cases "unat v < 2 ^ 56")
  case True
  then show ?thesis
    by (simp add: getVarint_eq_ref sqlite3PutVarint_short varint_enc_decodes del: varint_ref.simps)
next
  case False
  then show ?thesis
    using nine_decodes [of v rest] by (simp add: getVarint_eq_ref sqlite3PutVarint_nine del: varint_ref.simps)
qed

lemma varint_ref_length: "varint_ref n acc p = Some (m, v) \<Longrightarrow> n \<le> 8 \<Longrightarrow> n < m \<and> m \<le> 9 \<and> m \<le> n + length p"
  by (induction n acc p rule: varint_ref.induct) (auto split: if_splits)

lemma varint_ref_total: "9 \<le> n + length p \<Longrightarrow> n \<le> 8 \<Longrightarrow> varint_ref n acc p \<noteq> None"
  by (induction n acc p rule: varint_ref.induct) auto

lemma varint_ref_prefix: "varint_ref n acc p = Some (m, v) \<Longrightarrow> n \<le> 8 \<Longrightarrow> varint_ref n acc (take (m - n) p @ q) = Some (m, v)"
proof (induction n acc p rule: varint_ref.induct)
  case (2 n acc b bs)
  then show ?case
    using varint_ref_length [of "Suc n" "push_bit 7 acc OR ucast (b AND 127)" bs m v]
    by (auto split: if_splits simp: take_Cons' Suc_diff_Suc)
qed simp

lemma fits_u32: "v AND 0xffffffff = (v :: u64) \<longleftrightarrow> unat v < 2 ^ 32"
proof -
  have "v AND 0xffffffff = take_bit 32 v"
    by (simp add: take_bit_eq_mask mask_eq_exp_minus_1)
  then have "v AND 0xffffffff = v \<longleftrightarrow> take_bit 32 (unat v) = unat v"
    by (metis unsigned_take_bit_eq word_unat_eq_iff)
  then show ?thesis by (simp add: take_bit_nat_eq_self_iff)
qed

lemma ucast_fits_u32: "unat (ucast (w :: u32) :: u64) < 2 ^ 32"
  using unsigned_less [of w, where 'a = nat] by (simp add: unsigned_ucast_eq take_bit_nat_eq_self)

lemma odd_div_128: "x < 256 \<Longrightarrow> odd (x div 128) \<longleftrightarrow> \<not> x < (128 :: nat)"
proof -
  assume "x < 256"
  then have "x div 128 = (if x < 128 then 0 else 1)" by (auto intro: div_nat_eqI)
  then show ?thesis by simp
qed

lemma cont_bit_iff: "cont_bit b \<longleftrightarrow> \<not> b < 0x80"
proof -
  have "cont_bit b \<longleftrightarrow> bit (unat b) 7"
    by (simp add: cont_bit_def bit_unsigned_iff)
  also have "\<dots> \<longleftrightarrow> odd (unat b div 128)"
    by (simp only: bit_iff_odd) simp
  finally have "cont_bit b \<longleftrightarrow> odd (unat b div 128)" .
  then show ?thesis
    using unsigned_less [of b, where 'a = nat] odd_div_128 by (simp add: word_less_nat_alt)
qed

lemma less_128_iff: "b < 0x80 \<longleftrightarrow> \<not> cont_bit b"
  by (simp add: cont_bit_iff)

definition sat32 :: "u64 \<Rightarrow> u32" where
  "sat32 v = (if unat v < 2 ^ 32 then ucast v else 0xffffffff)"

lemma sat32_ucast [simp]: "sat32 (ucast w) = w"
  using ucast_fits_u32 [of w] by (simp add: sat32_def ucast_u32_u64)

lemma getVarint32_sat:
  "getVarint32 p = map_option (\<lambda>(n, v). (n, sat32 v)) (sqlite3GetVarint p)"
proof (cases p)
  case (Cons p0 q0)
  show ?thesis
  proof (cases "cont_bit p0")
    case p0: True
    show ?thesis
    proof (cases q0)
      case q0: (Cons p1 q1)
      show ?thesis
      proof (cases "cont_bit p1")
        case p1: True
        show ?thesis
        proof (cases q1)
          case q1: (Cons p2 q2)
          show ?thesis
          proof (cases "cont_bit p2")
            case True
            then show ?thesis using p0 p1
              by (cases "sqlite3GetVarint p")
                (auto simp: getVarint32_def sqlite3GetVarint32_def Cons q0 q1 less_128_iff
                  and_128 bit_simps fits_u32 sat32_def Let_def cont_bit_def [symmetric])
          next
            case False
            then show ?thesis using p0 p1
              by (simp add: getVarint32_def sqlite3GetVarint32_def Cons q0 q1 getVarint_simps less_128_iff)
          qed
        qed (use p0 p1 in \<open>simp add: getVarint32_def sqlite3GetVarint32_def Cons q0 getVarint_simps less_128_iff\<close>)
      next
        case False
        then show ?thesis using p0
          by (simp add: getVarint32_def sqlite3GetVarint32_def Cons q0 getVarint_simps less_128_iff)
      qed
    qed (use p0 in \<open>simp add: getVarint32_def sqlite3GetVarint32_def Cons getVarint_simps less_128_iff\<close>)
  next
    case False
    then show ?thesis by (simp add: getVarint32_def Cons getVarint_simps less_128_iff)
  qed
qed (simp add: getVarint32_def sqlite3GetVarint_def)

lemma varintLen_loop_buf: "Suc (varintLen_loop i v) = i + length (putVarint_buf v)"
proof (induction i v rule: varintLen_loop.induct)
  case (1 i v)
  then show ?case
    by (simp add: varintLen_loop.simps [of i v] putVarint_buf_Cons [of v] Let_def)
qed

lemma putVarint_buf_length_ge: "2 ^ (7 * k) \<le> unat v \<Longrightarrow> k < length (putVarint_buf v)"
proof (induction k arbitrary: v)
  case 0
  then show ?case by simp
next
  case (Suc k)
  then have "2 ^ (7 * k) \<le> unat (drop_bit 7 v)"
    unfolding unat_drop7 by (simp add: less_eq_div_iff_mult_less_eq power_add)
  with Suc.IH have "k < length (putVarint_buf (drop_bit 7 v))" by blast
  moreover have "drop_bit 7 v \<noteq> 0" using \<open>2 ^ (7 * k) \<le> unat (drop_bit 7 v)\<close>
    by (metis le_zero_eq unat_0 zero_neq_numeral power_not_zero)
  ultimately show ?case by (simp add: putVarint_buf_Cons [of v])
qed

lemma varintLen_exact:
  "sqlite3VarintLen v = (if unat v < 2 ^ 63 then length (sqlite3PutVarint v) else 10)"
proof -
  have len: "sqlite3VarintLen v = length (putVarint_buf v)"
    using varintLen_loop_buf [of 1 v] by (simp add: sqlite3VarintLen_def)
  consider "unat v < 2 ^ 56" | "2 ^ 56 \<le> unat v" "unat v < 2 ^ 63" | "2 ^ 63 \<le> unat v" by linarith
  then show ?thesis
  proof cases
    case 1
    then show ?thesis using len by (simp add: sqlite3PutVarint_short varint_enc_def putVarint_buf_Cons [of v])
  next
    case 2
    then show ?thesis
      using len putVarint_buf_length [of 9 v] putVarint_buf_length_ge [of 8 v] by (simp add: sqlite3PutVarint_nine)
  next
    case 3
    have "unat v < 2 ^ 64" using unsigned_less [of v, where 'a = nat] by simp
    with 3 show ?thesis
      using len putVarint_buf_length [of 10 v] putVarint_buf_length_ge [of 9 v] by simp
  qed
qed

lemma Get4byte_Put4byte: "sqlite3Get4byte (sqlite3Put4byte v @ rest) = Some v"
  by (simp add: sqlite3Get4byte_def sqlite3Put4byte_def) (rule bit_eq32, simp add: bit_simps)

lemma rd_4E:
  assumes "rd p 3 = Some p3"
  obtains p0 p1 p2 q where "p = p0 # p1 # p2 # p3 # q"
  using assms by (cases p; cases "tl p"; cases "tl (tl p)"; cases "tl (tl (tl p))") (auto simp: eval_nat_numeral)

lemma Put4byte_Get4byte:
  assumes "sqlite3Get4byte p = Some v"
  shows "sqlite3Put4byte v = take 4 p"
proof -
  from assms obtain p3 where "rd p 3 = Some p3"
    by (auto simp: sqlite3Get4byte_def bind_eq_Some_conv)
  then obtain p0 p1 p2 q where p: "p = p0 # p1 # p2 # p3 # q" by (rule rd_4E)
  with assms have v: "v = push_bit 24 (ucast p0) OR push_bit 16 (ucast p1) OR push_bit 8 (ucast p2) OR ucast p3"
    by (simp add: sqlite3Get4byte_def)
  show ?thesis
    by (simp add: p v sqlite3Put4byte_def) (intro conjI; rule bit_eq8; simp add: bit_simps u8_bit_ge)
qed

section \<open>Properties\<close>

text \<open>
  C36: the varint codec is a round trip. For every 64-bit value, what \<open>sqlite3PutVarint\<close>
  writes, followed by anything, is decoded by \<open>sqlite3GetVarint\<close> to the same value, and the
  length it returns is the number of bytes written (at most nine).
\<close>

theorem varint_roundtrip:
  "sqlite3GetVarint (sqlite3PutVarint v @ rest) = Some (length (sqlite3PutVarint v), v)
   \<and> length (sqlite3PutVarint v) \<le> 9"
  using PutVarint_GetVarint [of v rest] varint_ref_length [of 0 0 "sqlite3PutVarint v @ rest"]
  by (simp add: getVarint_eq_ref)

text \<open>
  The unrolled decoder \<open>sqlite3GetVarint\<close>, with its two 32-bit accumulators and slot masks,
  computes the byte-at-a-time reference decoder on every buffer: the same value, the same
  length, and it reads past the end of the buffer exactly when the reference does. It never
  looks beyond the bytes whose number it returns.
\<close>

lemma varint_reference:
  "sqlite3GetVarint p = varint_ref 0 0 p
   \<and> (case sqlite3GetVarint p of
        None \<Rightarrow> length p < 9
      | Some (n, v) \<Rightarrow> 1 \<le> n \<and> n \<le> 9 \<and> n \<le> length p
                      \<and> sqlite3GetVarint (take n p @ q) = Some (n, v))"
proof (cases "varint_ref 0 0 p")
  case None
  then have "\<not> 9 \<le> length p" using varint_ref_total [of 0 p 0] by auto
  with None show ?thesis by (simp add: getVarint_eq_ref del: varint_ref.simps)
next
  case (Some r)
  then show ?thesis
    using varint_ref_length [of 0 0 p] varint_ref_prefix [of 0 0 p]
    by (cases r) (simp add: getVarint_eq_ref Suc_le_eq del: varint_ref.simps)
qed

text \<open>
  The 32-bit decoder (macro \<open>getVarint32\<close> with its out-of-line part
  \<open>sqlite3GetVarint32\<close>) returns what \<open>sqlite3GetVarint\<close> returns, saturated at
  \<open>0xffffffff\<close>, with the same length.
\<close>

lemma getVarint32_saturates:
  "getVarint32 p = map_option (\<lambda>(n, v). (n, sat32 v)) (sqlite3GetVarint p)"
  by (rule getVarint32_sat)

text \<open>
  \<open>sqlite3VarintLen\<close> is the number of bytes \<open>sqlite3PutVarint\<close> writes for values below
  \<open>2 ^ 63\<close>; from there on it says 10 while nine bytes are written.
\<close>

lemma varintLen_bytes:
  "sqlite3VarintLen v = (if unat v < 2 ^ 63 then length (sqlite3PutVarint v) else 10)
   \<and> (2 ^ 56 \<le> unat v \<longrightarrow> length (sqlite3PutVarint v) = 9)"
  using varintLen_exact [of v] by (simp add: sqlite3PutVarint_nine)

lemma varintLen_bytes_witness:
  "sqlite3VarintLen 0xffffffffffffffff = 10 \<and> length (sqlite3PutVarint 0xffffffffffffffff) = 9"
  using varintLen_bytes [of "0xffffffffffffffff"] by simp

text \<open>
  \<open>sqlite3Put4byte\<close> and \<open>sqlite3Get4byte\<close> are inverse to each other in both directions:
  reading back what was written gives the word, and writing back what was read gives the
  four bytes of the buffer.
\<close>

lemma fourbyte_roundtrip:
  "sqlite3Get4byte (sqlite3Put4byte v @ rest) = Some v
   \<and> (4 \<le> length p \<longrightarrow> map_option sqlite3Put4byte (sqlite3Get4byte p) = Some (take 4 p))"
proof -
  have "4 \<le> length p \<Longrightarrow> \<exists>w. sqlite3Get4byte p = Some w"
    by (auto simp: sqlite3Get4byte_def rd_def)
  then show ?thesis using Get4byte_Put4byte Put4byte_Get4byte by auto
qed

lemma fourbyte_roundtrip_witness:
  "map_option sqlite3Put4byte (sqlite3Get4byte [1, 2, 3, 4]) = Some [1, 2, 3, 4]"
  using fourbyte_roundtrip [of 0 "[]" "[1, 2, 3, 4]"] by simp

end
