(* ===== verification/IntArith.thy ===== *)
theory IntArith
  imports Prelude
begin

text \<open>
  Checked signed arithmetic and logarithmic estimates of the SQL engine
  (\<open>Example/Pods/WCDBOptimizedSQLCipher/src/util.c\<close>). Signed C integers are
  \<open>int\<close>s, and every signed operation is wrapped in \<open>ck64\<close> (or \<open>ck32\<close>), which is
  \<open>None\<close> where the C expression overflows and its behaviour is undefined: a result
  \<open>Some \<dots>\<close> says that no step of the routine was undefined.
\<close>

section \<open>Signed C arithmetic\<close>

definition LARGEST_INT64 :: int where "LARGEST_INT64 = 2 ^ 63 - 1"
definition SMALLEST_INT64 :: int where "SMALLEST_INT64 = - (2 ^ 63)"

definition in_i64 :: "int \<Rightarrow> bool" where
  "in_i64 x \<longleftrightarrow> SMALLEST_INT64 \<le> x \<and> x \<le> LARGEST_INT64"

definition ck64 :: "int \<Rightarrow> int option" where
  "ck64 x = (if in_i64 x then Some x else None)"

definition ck32 :: "int \<Rightarrow> int option" where
  "ck32 x = (if - (2 ^ 31) \<le> x \<and> x < 2 ^ 31 then Some x else None)"

text \<open>C's division truncates towards zero and is undefined for a zero divisor.\<close>

definition cdiv :: "int \<Rightarrow> int \<Rightarrow> int option" where
  "cdiv a b = (if b = 0 then None else ck64 (sgn a * sgn b * (\<bar>a\<bar> div \<bar>b\<bar>)))"

section \<open>Overflow-checked addition, subtraction and multiplication\<close>

text \<open>
  The routines take \<open>*pA\<close> and return the error flag with the new \<open>*pA\<close>.
\<close>

definition sqlite3AddInt64 :: "int \<Rightarrow> int \<Rightarrow> (bool \<times> int) option" where
  "sqlite3AddInt64 iA iB = do {
     ov \<leftarrow> (if iB \<ge> 0
           then (if iA > 0 then do { d \<leftarrow> ck64 (LARGEST_INT64 - iA); Some (d < iB) }
                 else Some False)
           else (if iA < 0
                 then do {
                   s \<leftarrow> ck64 (iA + LARGEST_INT64);
                   m \<leftarrow> ck64 (- s);
                   t \<leftarrow> ck64 (iB + 1);
                   Some (m > t) }
                 else Some False));
     if ov then Some (True, iA)
     else do { r \<leftarrow> ck64 (iA + iB); Some (False, r) }
   }"

definition sqlite3SubInt64 :: "int \<Rightarrow> int \<Rightarrow> (bool \<times> int) option" where
  "sqlite3SubInt64 iA iB =
     (if iB = SMALLEST_INT64
      then (if iA \<ge> 0 then Some (True, iA)
            else do { r \<leftarrow> ck64 (iA - iB); Some (False, r) })
      else do { m \<leftarrow> ck64 (- iB); sqlite3AddInt64 iA m })"

definition sqlite3MulInt64 :: "int \<Rightarrow> int \<Rightarrow> (bool \<times> int) option" where
  "sqlite3MulInt64 iA iB = do {
     ov \<leftarrow> (if iB > 0
           then do {
             q \<leftarrow> cdiv LARGEST_INT64 iB;
             if iA > q then Some True
             else do { q' \<leftarrow> cdiv SMALLEST_INT64 iB; Some (iA < q') } }
           else if iB < 0
           then (if iA > 0
                 then do { q \<leftarrow> cdiv SMALLEST_INT64 iA; Some (iB < q) }
                 else if iA < 0
                 then (if iB = SMALLEST_INT64 then Some True
                       else if iA = SMALLEST_INT64 then Some True
                       else do {
                         nA \<leftarrow> ck64 (- iA);
                         nB \<leftarrow> ck64 (- iB);
                         q \<leftarrow> cdiv LARGEST_INT64 nB;
                         Some (nA > q) })
                 else Some False)
           else Some False);
     if ov then Some (True, iA)
     else do { r \<leftarrow> ck64 (iA * iB); Some (False, r) }
   }"

definition sqlite3AbsInt32 :: "int \<Rightarrow> int option" where
  "sqlite3AbsInt32 x =
     (if x \<ge> 0 then Some x
      else if x = - (2 ^ 31) then Some 0x7fffffff
      else ck32 (- x))"

text \<open>What the comment promises: the exact result, or the flag and \<open>*pA\<close> unchanged.\<close>

definition int64_result :: "int \<Rightarrow> int \<Rightarrow> (bool \<times> int) option" where
  "int64_result iA r = Some (if in_i64 r then (False, r) else (True, iA))"

lemmas i64_defs = in_i64_def LARGEST_INT64_def SMALLEST_INT64_def

lemma AddInt64_exact:
  "in_i64 a \<Longrightarrow> in_i64 b \<Longrightarrow> sqlite3AddInt64 a b = int64_result a (a + b)"
  by (auto simp: sqlite3AddInt64_def int64_result_def ck64_def i64_defs)

lemma SubInt64_exact:
  "in_i64 a \<Longrightarrow> in_i64 b \<Longrightarrow> sqlite3SubInt64 a b = int64_result a (a - b)"
  using AddInt64_exact [of a "- b"]
  by (auto simp: sqlite3SubInt64_def int64_result_def ck64_def i64_defs)

lemma div_less_iff_mult: "(0 :: int) < b \<Longrightarrow> L div b < a \<longleftrightarrow> L < a * b"
proof -
  assume b: "0 < b"
  have L: "L = (L div b) * b + L mod b" "0 \<le> L mod b" "L mod b < b" using b by simp_all
  show ?thesis
  proof
    assume "L div b < a"
    then have "(L div b + 1) * b \<le> a * b" using b by (intro mult_right_mono) auto
    then have "(L div b) * b + b \<le> a * b" by (simp add: algebra_simps)
    with L show "L < a * b" by linarith
  next
    assume "L < a * b"
    with L have "(L div b) * b < a * b" by linarith
    with b show "L div b < a" by simp
  qed
qed

lemma div_le_self: "(0 :: int) < b \<Longrightarrow> 0 \<le> L \<Longrightarrow> 0 \<le> L div b \<and> L div b \<le> L"
  by (simp add: pos_imp_zdiv_nonneg_iff) (metis div_by_1 zdiv_mono2 int_one_le_iff_zero_less zero_less_one)

lemma cdiv_largest: "0 < b \<Longrightarrow> cdiv LARGEST_INT64 b = Some (LARGEST_INT64 div b)"
  using div_le_self [of b LARGEST_INT64] by (simp add: cdiv_def ck64_def i64_defs)

lemma cdiv_smallest: "0 < b \<Longrightarrow> cdiv SMALLEST_INT64 b = Some (- (2 ^ 63 div b))"
  using div_le_self [of b "2 ^ 63"] by (simp add: cdiv_def ck64_def i64_defs)

lemma MulInt64_exact:
  assumes "in_i64 a" "in_i64 b"
  shows "sqlite3MulInt64 a b = int64_result a (a * b)"
proof -
  consider "0 < b" | "b < 0" "0 < a" | "b < 0" "a < 0" | "b = 0 \<or> (a = 0 \<and> b < 0)" by linarith
  then show ?thesis
  proof cases
    case 1
    have "LARGEST_INT64 div b < a \<longleftrightarrow> LARGEST_INT64 < a * b"
      using 1 by (rule div_less_iff_mult)
    moreover have "a < - (2 ^ 63 div b) \<longleftrightarrow> 2 ^ 63 < - (a * b)"
      using div_less_iff_mult [OF 1, of "2 ^ 63" "- a"] by simp linarith
    ultimately show ?thesis using 1
      by (simp add: sqlite3MulInt64_def cdiv_largest cdiv_smallest)
        (auto simp: int64_result_def ck64_def i64_defs)
  next
    case 2
    have "b < - (2 ^ 63 div a) \<longleftrightarrow> 2 ^ 63 < - (a * b)"
      using div_less_iff_mult [OF 2(2), of "2 ^ 63" "- b"] by (simp add: mult.commute) linarith
    moreover have "a * b < 0" using 2 by (simp add: mult_pos_neg)
    ultimately show ?thesis using 2
      by (simp add: sqlite3MulInt64_def cdiv_smallest)
        (auto simp: int64_result_def ck64_def i64_defs)
  next
    case 3
    have pos: "0 < a * b" "- a \<le> a * b" "- b \<le> a * b"
      using 3 mult_left_mono [of 1 "- b" "- a"] mult_left_mono [of 1 "- a" "- b"]
      by (simp_all add: mult_neg_neg mult.commute)
    show ?thesis
    proof (cases "a = SMALLEST_INT64 \<or> b = SMALLEST_INT64")
      case True
      then have "\<not> in_i64 (a * b)" using pos(2,3) by (auto simp: i64_defs)
      then show ?thesis using 3 True by (auto simp: sqlite3MulInt64_def int64_result_def)
    next
      case False
      then have ck: "in_i64 (- a)" "in_i64 (- b)"
        using assms 3 by (auto simp: i64_defs)
      have "LARGEST_INT64 div (- b) < - a \<longleftrightarrow> LARGEST_INT64 < a * b"
        using div_less_iff_mult [of "- b" LARGEST_INT64 "- a"] 3 by simp
      moreover have "in_i64 (a * b) \<longleftrightarrow> a * b \<le> LARGEST_INT64"
        using pos(1) by (simp add: i64_defs)
      ultimately show ?thesis using 3 False
        by (simp add: sqlite3MulInt64_def ck cdiv_largest int64_result_def ck64_def)
    qed
  qed (auto simp: sqlite3MulInt64_def int64_result_def ck64_def i64_defs)
qed

lemma AbsInt32_exact:
  "- (2 ^ 31) \<le> x \<Longrightarrow> x < 2 ^ 31 \<Longrightarrow> sqlite3AbsInt32 x = Some (min \<bar>x\<bar> (2 ^ 31 - 1))"
  by (auto simp: sqlite3AbsInt32_def ck32_def)


section \<open>Logarithmic estimates\<close>

text \<open>
  A \<open>LogEst\<close> is an \<open>i16\<close>; the C computes on promoted \<open>int\<close>s and converts the result
  back, which is \<open>i16\<close> here.
\<close>

definition i16 :: "int \<Rightarrow> int" where
  "i16 x = signed_take_bit 15 x"

definition logEstAdd_x :: "int list" where
  "logEstAdd_x =
    [10, 10, 9, 9, 8, 8, 7, 7, 7, 6, 6, 6, 5, 5, 5, 4, 4, 4, 4,
     3, 3, 3, 3, 3, 3, 2, 2, 2, 2, 2, 2, 2]"

definition sqlite3LogEstAdd :: "int \<Rightarrow> int \<Rightarrow> int option" where
  "sqlite3LogEstAdd a b =
     (if a \<ge> b
      then (if a > b + 49 then Some a
            else if a > b + 31 then Some (i16 (a + 1))
            else map_option (\<lambda>d. i16 (a + d)) (rd logEstAdd_x (nat (a - b))))
      else (if b > a + 49 then Some b
            else if b > a + 31 then Some (i16 (b + 1))
            else map_option (\<lambda>d. i16 (b + d)) (rd logEstAdd_x (nat (b - a)))))"

definition logEst_a :: "int list" where
  "logEst_a = [0, 2, 3, 5, 6, 7, 8, 9]"

text \<open>\<open>while( x<8 ){ y -= 10; x <<= 1; }\<close>: would not end for \<open>x = 0\<close>.\<close>

partial_function (option) logEst_up :: "u64 \<Rightarrow> int \<Rightarrow> (u64 \<times> int) option" where
  "logEst_up x y = (if x < 8 then logEst_up (push_bit 1 x) (y - 10) else Some (x, y))"

function logEst_down4 :: "u64 \<Rightarrow> int \<Rightarrow> u64 \<times> int" where
  "logEst_down4 x y = (if x > 255 then logEst_down4 (drop_bit 4 x) (y + 40) else (x, y))"
  by auto
termination
  by (relation "measure (\<lambda>(x, y). unat x)")
    (auto simp: word_less_nat_alt drop_bit_eq_div unat_div)

function logEst_down1 :: "u64 \<Rightarrow> int \<Rightarrow> u64 \<times> int" where
  "logEst_down1 x y = (if x > 15 then logEst_down1 (drop_bit 1 x) (y + 10) else (x, y))"
  by auto
termination
  by (relation "measure (\<lambda>(x, y). unat x)")
    (auto simp: word_less_nat_alt drop_bit_eq_div unat_div)

declare logEst_down4.simps [simp del] logEst_down1.simps [simp del]

definition sqlite3LogEst :: "u64 \<Rightarrow> int option" where
  "sqlite3LogEst x =
     (if x < 2 then Some 0
      else do {
        (x, y) \<leftarrow> (if x < 8 then logEst_up x 40
                  else case logEst_down4 x 40 of (x, y) \<Rightarrow> Some (logEst_down1 x y));
        e \<leftarrow> rd logEst_a (unat (x AND 7));
        Some (i16 (e + y - 10))
      })"

lemma LogEstAdd_commute: "sqlite3LogEstAdd a b = sqlite3LogEstAdd b a"
  by (cases "a = b") (auto simp: sqlite3LogEstAdd_def)

lemma i16_id: "-32768 \<le> x \<Longrightarrow> x \<le> 32767 \<Longrightarrow> i16 x = x"
  unfolding i16_def by (rule signed_take_bit_int_eq_self) simp_all

lemma logEstAdd_x_bounds: "i \<le> 31 \<Longrightarrow> \<exists>d. rd logEstAdd_x i = Some d \<and> 2 \<le> d \<and> d \<le> 10"
proof -
  have len: "length logEstAdd_x = 32" by (simp add: logEstAdd_x_def)
  have "list_all (\<lambda>d. 2 \<le> d \<and> d \<le> 10) logEstAdd_x" by (simp add: logEstAdd_x_def)
  then have "i < length logEstAdd_x \<Longrightarrow> 2 \<le> logEstAdd_x ! i \<and> logEstAdd_x ! i \<le> 10"
    by (simp add: list_all_length)
  then show "i \<le> 31 \<Longrightarrow> ?thesis" by (auto simp: rd_def len)
qed

lemma LogEstAdd_ge:
  assumes "- 32768 \<le> b" "b \<le> a" "a \<le> 32757"
  shows "\<exists>s. sqlite3LogEstAdd a b = Some s \<and> a \<le> s \<and> s \<le> a + 10"
proof (cases "a > b + 31")
  case True
  then show ?thesis using assms by (auto simp: sqlite3LogEstAdd_def i16_id)
next
  case False
  then have "nat (a - b) \<le> 31" using assms by simp
  from logEstAdd_x_bounds [OF this] obtain d
    where "rd logEstAdd_x (nat (a - b)) = Some d" "2 \<le> d" "d \<le> 10" by blast
  then show ?thesis using assms False by (auto simp: sqlite3LogEstAdd_def i16_id)
qed

lemma LogEstAdd_max:
  assumes "- 32768 \<le> a" "- 32768 \<le> b" "a \<le> 32757" "b \<le> 32757"
  shows "\<exists>s. sqlite3LogEstAdd a b = Some s \<and> max a b \<le> s \<and> s \<le> max a b + 10"
  using LogEstAdd_ge [of b a] LogEstAdd_ge [of a b] assms LogEstAdd_commute [of a b]
  by (cases "b \<le> a") (simp_all add: max_def)

text \<open>
  The estimate: the two shift loops leave the four leading bits \<open>m\<close> of \<open>x\<close>, and \<open>y\<close> counts
  the bits dropped.
\<close>


lemma logEst_down4_spec:
  "logEst_down4 x y = (x', y') \<Longrightarrow>
     \<exists>k. unat x' = unat x div 2 ^ k \<and> y' = y + 10 * int k \<and> (8 \<le> unat x \<longrightarrow> 8 \<le> unat x')"
proof (induction x y rule: logEst_down4.induct)
  case (1 x y)
  show ?case
  proof (cases "x > 255")
    case True
    then obtain k where k: "unat x' = unat (drop_bit 4 x) div 2 ^ k" "y' = y + 40 + 10 * int k"
        "8 \<le> unat (drop_bit 4 x) \<longrightarrow> 8 \<le> unat x'"
      using 1 by (subst (asm) logEst_down4.simps) force
    have "unat (drop_bit 4 x) = unat x div 2 ^ 4" by (simp add: drop_bit_eq_div unat_div)
    with k True show ?thesis
      by (intro exI [of _ "4 + k"])
        (auto simp: power_add div_mult2_eq word_less_nat_alt)
  next
    case False
    with 1(2) show ?thesis by (subst (asm) logEst_down4.simps) (auto intro: exI [of _ 0])
  qed
qed

lemma logEst_down1_spec:
  "logEst_down1 x y = (x', y') \<Longrightarrow>
     \<exists>k. unat x' = unat x div 2 ^ k \<and> y' = y + 10 * int k \<and> (8 \<le> unat x \<longrightarrow> 8 \<le> unat x')
       \<and> unat x' \<le> 15"
proof (induction x y rule: logEst_down1.induct)
  case (1 x y)
  show ?case
  proof (cases "x > 15")
    case True
    then obtain k where k: "unat x' = unat (drop_bit 1 x) div 2 ^ k" "y' = y + 10 + 10 * int k"
        "8 \<le> unat (drop_bit 1 x) \<longrightarrow> 8 \<le> unat x'" "unat x' \<le> 15"
      using 1 by (subst (asm) logEst_down1.simps) force
    have "unat (drop_bit 1 x) = unat x div 2" by (simp add: drop_bit_eq_div unat_div)
    with k True show ?thesis
      by (intro exI [of _ "Suc k"])
        (auto simp: div_mult2_eq word_less_nat_alt)
  next
    case False
    with 1(2) show ?thesis
      by (subst (asm) logEst_down1.simps)
        (auto intro: exI [of _ 0] simp: word_less_nat_alt)
  qed
qed

lemma logEst_a_eq:
  assumes "8 \<le> m" "m \<le> (15 :: nat)"
  shows "\<exists>e. rd logEst_a (m mod 8) = Some (int e) \<and> e \<le> 9
           \<and> 2 ^ (30 + e) \<le> 2 * m ^ 10 \<and> (m + 1) ^ 10 \<le> 2 ^ (32 + e)"
proof -
  have "list_all (\<lambda>m. \<exists>e. rd logEst_a (m mod 8) = Some (int e) \<and> e \<le> 9
       \<and> 2 ^ (30 + e) \<le> 2 * m ^ 10 \<and> (m + 1) ^ 10 \<le> 2 ^ (32 + e)) [8..<16]"
    by (simp add: logEst_a_def upt_rec)
  moreover have "m \<in> set [8..<16]" using assms unfolding set_upt by simp
  ultimately show ?thesis unfolding list_all_iff by blast
qed

text \<open>\<open>est\<close> is within a factor: \<open>x\<^sup>1\<^sup>0 \<approx> 2\<^sup>e\<^sup>s\<^sup>t\<close>.\<close>

definition estimates :: "int \<Rightarrow> nat \<Rightarrow> bool" where
  "estimates est x \<longleftrightarrow> 0 \<le> est \<and> 2 ^ nat est \<le> 2 * x ^ 10 \<and> x ^ 10 \<le> 2 ^ (nat est + 2)"

lemma logEst_leading:
  assumes m: "m = x div 2 ^ k" "8 \<le> m" "m \<le> (15 :: nat)"
    and e: "2 ^ (30 + e) \<le> 2 * m ^ 10" "(m + 1) ^ 10 \<le> 2 ^ (32 + e)"
  shows "estimates (30 + 10 * int k + int e) x"
proof -
  have "x mod 2 ^ k < 2 ^ k" by simp
  then have "m * 2 ^ k \<le> x" "x \<le> (m + 1) * 2 ^ k"
    using div_mult_mod_eq [of x "2 ^ k"] unfolding m(1) by (simp_all, linarith)
  then have le: "(m * 2 ^ k) ^ 10 \<le> x ^ 10" "x ^ 10 \<le> ((m + 1) * 2 ^ k) ^ 10"
    by (simp_all only: power_mono)
  have n: "nat (30 + 10 * int k + int e) = 30 + e + 10 * k" by simp
  have pw: "(2 ^ k) ^ 10 = (2 :: nat) ^ (10 * k)" by (simp add: power_mult [symmetric] mult.commute)
  have "2 ^ (30 + e + 10 * k) \<le> (2 * m ^ 10) * (2 ^ k) ^ 10"
    using mult_right_mono [OF e(1), of "(2 ^ k) ^ 10"] by (simp add: power_add pw)
  also have "\<dots> \<le> 2 * x ^ 10" using le(1) by (simp add: power_mult_distrib)
  finally have lo: "2 ^ (30 + e + 10 * k) \<le> 2 * x ^ 10" .
  have "x ^ 10 \<le> 2 ^ (32 + e) * (2 ^ k) ^ 10"
    using order_trans [OF le(2) [unfolded power_mult_distrib] mult_right_mono [OF e(2)]] by simp
  also have "\<dots> = 2 ^ (30 + e + 10 * k + 2)" by (simp add: power_add pw)
  finally show ?thesis using lo unfolding estimates_def n by simp
qed

lemma LogEst_small:
  assumes "x \<noteq> 0" "x < 8"
  shows "\<exists>est. sqlite3LogEst x = Some est \<and> estimates est (unat x)"
proof -
  have "unat x \<noteq> 0" using assms by (simp add: unat_eq_0)
  then have x: "unat x \<in> {1 ..< 8}" using assms by (auto simp: word_less_nat_alt)
  then have "x = of_nat (unat x) \<and> unat x \<in> {1, 2, 3, 4, 5, 6, 7}"
    by (auto simp: atLeastLessThan_nat_numeral)
  then have "x \<in> {1, 2, 3, 4, 5, 6, 7}" by (metis (no_types, lifting) insert_iff of_nat_1 of_nat_numeral empty_iff)
  moreover have "list_all (\<lambda>x. \<exists>est. sqlite3LogEst x = Some est \<and> estimates est (unat x))
      [1, 2, 3, 4, 5, 6, 7]"
    by (simp add: sqlite3LogEst_def logEst_up.simps logEst_a_def i16_id estimates_def)
  ultimately show ?thesis by auto
qed

lemma LogEst_large:
  assumes "8 \<le> unat x"
  shows "\<exists>est. sqlite3LogEst x = Some est \<and> estimates est (unat x)"
proof -
  obtain x1 y1 where d4: "logEst_down4 x 40 = (x1, y1)" by fastforce
  obtain x2 y2 where d1: "logEst_down1 x1 y1 = (x2, y2)" by fastforce
  obtain j where j: "unat x1 = unat x div 2 ^ j" "y1 = 40 + 10 * int j" "8 \<le> unat x1"
    using logEst_down4_spec [OF d4] assms by auto
  obtain i where i: "unat x2 = unat x1 div 2 ^ i" "y2 = y1 + 10 * int i" "8 \<le> unat x2" "unat x2 \<le> 15"
    using logEst_down1_spec [OF d1] j(3) by auto
  define k where "k = j + i"
  have m: "unat x2 = unat x div 2 ^ k" and y: "y2 = 40 + 10 * int k"
    using i j by (simp_all add: k_def power_add div_mult2_eq)
  have "2 ^ k \<le> unat x" using m i(3) by (metis div_less not_le not_numeral_le_zero)
  then have "(2 :: nat) ^ k < 2 ^ 64" using unsigned_less [of x, where ?'a = nat] by simp
  then have k: "k < 64" using power_less_imp_less_exp [of 2 k 64] by simp
  obtain e where e: "rd logEst_a (unat x2 mod 8) = Some (int e)" "e \<le> 9"
      "2 ^ (30 + e) \<le> 2 * unat x2 ^ 10" "(unat x2 + 1) ^ 10 \<le> 2 ^ (32 + e)"
    using logEst_a_eq [OF i(3,4)] by blast
  have and7: "unat (x2 AND 7) = unat x2 mod 8"
  proof -
    have "x2 AND 7 = take_bit 3 x2" by (simp add: take_bit_eq_mask mask_eq_exp_minus_1)
    then show ?thesis by (simp add: unsigned_take_bit_eq) (simp add: take_bit_eq_mod)
  qed
  have "sqlite3LogEst x = Some (30 + 10 * int k + int e)"
    using assms d4 d1 e(1,2) k by (simp add: sqlite3LogEst_def and7 y i16_id word_less_nat_alt)
  then show ?thesis using logEst_leading [OF m i(3,4) e(3,4)] by blast
qed

lemma LogEst_total: "x \<noteq> 0 \<Longrightarrow> \<exists>est. sqlite3LogEst x = Some est \<and> estimates est (unat x)"
  using LogEst_small [of x] LogEst_large [of x] by (cases "x < 8") (auto simp: word_less_nat_alt)

section \<open>Properties\<close>

text \<open>
  The overflow-checked routines are exact. On 64-bit operands \<open>sqlite3AddInt64\<close>,
  \<open>sqlite3SubInt64\<close> and \<open>sqlite3MulInt64\<close> return the mathematical result when it fits and
  the flag with \<open>*pA\<close> unchanged when it does not; no intermediate expression overflows and
  no division is by zero.
\<close>

lemma int64_checked_exact:
  assumes "in_i64 a" "in_i64 b"
  shows "sqlite3AddInt64 a b = int64_result a (a + b) \<and>
         sqlite3SubInt64 a b = int64_result a (a - b) \<and>
         sqlite3MulInt64 a b = int64_result a (a * b)"
  using assms AddInt64_exact SubInt64_exact MulInt64_exact by simp

lemma int64_checked_exact_witness:
  "sqlite3MulInt64 SMALLEST_INT64 (- 1) = Some (True, SMALLEST_INT64)"
  using int64_checked_exact [of SMALLEST_INT64 "- 1"]
  by (simp add: int64_result_def i64_defs)

text \<open>
  \<open>sqlite3LogEst\<close> approximates \<open>10 * log2 x\<close> for every 64-bit \<open>x > 0\<close>: it returns
  an estimate \<open>e\<close> with \<open>2 ^ e \<le> 2 * x ^ 10\<close> and \<open>x ^ 10 \<le> 2 ^ (e + 2)\<close> (so it is at most 1 above
  and 2 below the logarithm), its loops end and its table is never read out of range.
  \<open>sqlite3LogEstAdd\<close> is commutative and stays within 10 above the larger estimate.
\<close>

lemma LogEst_bounds:
  assumes "x \<noteq> 0"
    and "- 32768 \<le> a" "- 32768 \<le> b" "a \<le> 32757" "b \<le> 32757"
  shows "(\<exists>est. sqlite3LogEst x = Some est \<and> estimates est (unat x)) \<and>
         sqlite3LogEstAdd a b = sqlite3LogEstAdd b a \<and>
         (\<exists>s. sqlite3LogEstAdd a b = Some s \<and> max a b \<le> s \<and> s \<le> max a b + 10)"
  using assms LogEst_total LogEstAdd_commute LogEstAdd_max by blast

lemma LogEst_bounds_witness:
  "\<exists>est. sqlite3LogEst 1000 = Some est \<and> estimates est 1000"
  using LogEst_bounds [of 1000 0 0] by simp

end
