(* ===== verification/Ctype.thy ===== *)
theory Ctype
  imports Prelude
begin

text \<open>
  Character classes, case folding and the string routines of the SQL engine that rest on them
  (\<open>Example/Pods/WCDBOptimizedSQLCipher/src/global.c\<close>, \<open>util.c\<close>, \<open>sqliteInt.h\<close>; the ASCII
  branch of the tables). A zero-terminated string is the list of its bytes before the
  terminator; reading at its end gives the terminator.
\<close>

type_synonym cstring = "u8 list"

section \<open>The tables\<close>

definition sqlite3UpperToLower :: "u8 list" where
  "sqlite3UpperToLower = map of_nat [
     0, 1, 2, 3, 4, 5, 6, 7, 8, 9, 10, 11, 12, 13, 14, 15,
     16, 17, 18, 19, 20, 21, 22, 23, 24, 25, 26, 27, 28, 29, 30, 31,
     32, 33, 34, 35, 36, 37, 38, 39, 40, 41, 42, 43, 44, 45, 46, 47,
     48, 49, 50, 51, 52, 53, 54, 55, 56, 57, 58, 59, 60, 61, 62, 63,
     64, 97, 98, 99, 100, 101, 102, 103, 104, 105, 106, 107, 108, 109, 110, 111,
     112, 113, 114, 115, 116, 117, 118, 119, 120, 121, 122, 91, 92, 93, 94, 95,
     96, 97, 98, 99, 100, 101, 102, 103, 104, 105, 106, 107, 108, 109, 110, 111,
     112, 113, 114, 115, 116, 117, 118, 119, 120, 121, 122, 123, 124, 125, 126, 127,
     128, 129, 130, 131, 132, 133, 134, 135, 136, 137, 138, 139, 140, 141, 142, 143,
     144, 145, 146, 147, 148, 149, 150, 151, 152, 153, 154, 155, 156, 157, 158, 159,
     160, 161, 162, 163, 164, 165, 166, 167, 168, 169, 170, 171, 172, 173, 174, 175,
     176, 177, 178, 179, 180, 181, 182, 183, 184, 185, 186, 187, 188, 189, 190, 191,
     192, 193, 194, 195, 196, 197, 198, 199, 200, 201, 202, 203, 204, 205, 206, 207,
     208, 209, 210, 211, 212, 213, 214, 215, 216, 217, 218, 219, 220, 221, 222, 223,
     224, 225, 226, 227, 228, 229, 230, 231, 232, 233, 234, 235, 236, 237, 238, 239,
     240, 241, 242, 243, 244, 245, 246, 247, 248, 249, 250, 251, 252, 253, 254, 255]"

definition sqlite3CtypeMap :: "u8 list" where
  "sqlite3CtypeMap = map of_nat [
     0x00, 0x00, 0x00, 0x00, 0x00, 0x00, 0x00, 0x00, 0x00, 0x01, 0x01, 0x01, 0x01, 0x01, 0x00, 0x00,
     0x00, 0x00, 0x00, 0x00, 0x00, 0x00, 0x00, 0x00, 0x00, 0x00, 0x00, 0x00, 0x00, 0x00, 0x00, 0x00,
     0x01, 0x00, 0x80, 0x00, 0x40, 0x00, 0x00, 0x80, 0x00, 0x00, 0x00, 0x00, 0x00, 0x00, 0x00, 0x00,
     0x0c, 0x0c, 0x0c, 0x0c, 0x0c, 0x0c, 0x0c, 0x0c, 0x0c, 0x0c, 0x00, 0x00, 0x00, 0x00, 0x00, 0x00,
     0x00, 0x0a, 0x0a, 0x0a, 0x0a, 0x0a, 0x0a, 0x02, 0x02, 0x02, 0x02, 0x02, 0x02, 0x02, 0x02, 0x02,
     0x02, 0x02, 0x02, 0x02, 0x02, 0x02, 0x02, 0x02, 0x02, 0x02, 0x02, 0x80, 0x00, 0x00, 0x00, 0x40,
     0x80, 0x2a, 0x2a, 0x2a, 0x2a, 0x2a, 0x2a, 0x22, 0x22, 0x22, 0x22, 0x22, 0x22, 0x22, 0x22, 0x22,
     0x22, 0x22, 0x22, 0x22, 0x22, 0x22, 0x22, 0x22, 0x22, 0x22, 0x22, 0x00, 0x00, 0x00, 0x00, 0x00,
     0x40, 0x40, 0x40, 0x40, 0x40, 0x40, 0x40, 0x40, 0x40, 0x40, 0x40, 0x40, 0x40, 0x40, 0x40, 0x40,
     0x40, 0x40, 0x40, 0x40, 0x40, 0x40, 0x40, 0x40, 0x40, 0x40, 0x40, 0x40, 0x40, 0x40, 0x40, 0x40,
     0x40, 0x40, 0x40, 0x40, 0x40, 0x40, 0x40, 0x40, 0x40, 0x40, 0x40, 0x40, 0x40, 0x40, 0x40, 0x40,
     0x40, 0x40, 0x40, 0x40, 0x40, 0x40, 0x40, 0x40, 0x40, 0x40, 0x40, 0x40, 0x40, 0x40, 0x40, 0x40,
     0x40, 0x40, 0x40, 0x40, 0x40, 0x40, 0x40, 0x40, 0x40, 0x40, 0x40, 0x40, 0x40, 0x40, 0x40, 0x40,
     0x40, 0x40, 0x40, 0x40, 0x40, 0x40, 0x40, 0x40, 0x40, 0x40, 0x40, 0x40, 0x40, 0x40, 0x40, 0x40,
     0x40, 0x40, 0x40, 0x40, 0x40, 0x40, 0x40, 0x40, 0x40, 0x40, 0x40, 0x40, 0x40, 0x40, 0x40, 0x40,
     0x40, 0x40, 0x40, 0x40, 0x40, 0x40, 0x40, 0x40, 0x40, 0x40, 0x40, 0x40, 0x40, 0x40, 0x40, 0x40]"

definition UpperToLower :: "u8 \<Rightarrow> u8" where
  "UpperToLower c = sqlite3UpperToLower ! unat c"

definition ctype :: "u8 \<Rightarrow> u8" where
  "ctype c = sqlite3CtypeMap ! unat c"

text \<open>The macros of \<open>sqliteInt.h\<close>.\<close>

definition sqlite3Isspace :: "u8 \<Rightarrow> bool" where "sqlite3Isspace c \<longleftrightarrow> ctype c AND 0x01 \<noteq> 0"
definition sqlite3Isalnum :: "u8 \<Rightarrow> bool" where "sqlite3Isalnum c \<longleftrightarrow> ctype c AND 0x06 \<noteq> 0"
definition sqlite3Isalpha :: "u8 \<Rightarrow> bool" where "sqlite3Isalpha c \<longleftrightarrow> ctype c AND 0x02 \<noteq> 0"
definition sqlite3Isdigit :: "u8 \<Rightarrow> bool" where "sqlite3Isdigit c \<longleftrightarrow> ctype c AND 0x04 \<noteq> 0"
definition sqlite3Isxdigit :: "u8 \<Rightarrow> bool" where "sqlite3Isxdigit c \<longleftrightarrow> ctype c AND 0x08 \<noteq> 0"
definition sqlite3Isquote :: "u8 \<Rightarrow> bool" where "sqlite3Isquote c \<longleftrightarrow> ctype c AND 0x80 \<noteq> 0"
definition IdChar :: "u8 \<Rightarrow> bool" where "IdChar c \<longleftrightarrow> ctype c AND 0x46 \<noteq> 0"
definition sqlite3Toupper :: "u8 \<Rightarrow> u8" where "sqlite3Toupper c = c AND NOT (ctype c AND 0x20)"

text \<open>The tables run by run, and so by intervals of the byte.\<close>

lemma UpperToLower_runs:
  "sqlite3UpperToLower = map of_nat ([0..<65] @ [65 + 32..<91 + 32] @ [91..<256])"
  unfolding sqlite3UpperToLower_def by (rule arg_cong [of _ _ "map of_nat"]) code_simp

text \<open>A table by runs: each run's end and value.\<close>

fun run_at :: "(nat \<times> 'a) list \<Rightarrow> 'a \<Rightarrow> nat \<Rightarrow> 'a" where
  "run_at [] d n = d"
| "run_at ((e, x) # rs) d n = (if n < e then x else run_at rs d n)"

fun run_list :: "nat \<Rightarrow> (nat \<times> 'a) list \<Rightarrow> 'a list" where
  "run_list b [] = []"
| "run_list b ((e, x) # rs) = replicate (e - b) x @ run_list e rs"

lemma run_list_nth:
  "sorted (b # map fst rs) \<Longrightarrow> b \<le> n \<Longrightarrow> n - b < length (run_list b rs) \<Longrightarrow>
     run_list b rs ! (n - b) = run_at rs d n"
proof (induction b rs rule: run_list.induct)
  case (2 b e x rs)
  then have "n - b - (e - b) = n - e" if "e \<le> n" using that by auto
  with 2 show ?case by (auto simp: nth_append)
qed simp

definition ctype_runs :: "(nat \<times> nat) list" where
  "ctype_runs = [
     (9, 0x00), (14, 0x01), (32, 0x00), (33, 0x01), (34, 0x00), (35, 0x80), (36, 0x00), (37,
     0x40), (39, 0x00), (40, 0x80), (48, 0x00), (58, 0x0c), (65, 0x00), (71, 0x0a), (91,
     0x02), (92, 0x80), (95, 0x00), (96, 0x40), (97, 0x80), (103, 0x2a), (123, 0x22), (128,
     0x00), (256, 0x40)]"

lemma CtypeMap_runs: "sqlite3CtypeMap = map of_nat (run_list 0 ctype_runs)"
  unfolding sqlite3CtypeMap_def by (rule arg_cong [of _ _ "map of_nat"]) code_simp

lemma length_ctype_runs: "length (run_list 0 ctype_runs) = 256"
  by code_simp

lemma u8_less_256: "unat (c :: u8) < 256"
  using unsigned_less [of c, where 'a = nat] by simp

lemma nth_shifted: "a \<le> b \<Longrightarrow> b \<le> e \<Longrightarrow> n < e \<Longrightarrow>
    ([0..<a] @ [a + k..<b + k] @ [b..<e]) ! n = (if a \<le> n \<and> n < b then n + k else n)"
  by (auto simp: nth_append)

lemma length_shifted: "a \<le> b \<Longrightarrow> b \<le> e \<Longrightarrow> length ([0..<a] @ [a + k..<b + k] @ [b..<e]) = e"
  by simp

lemma UpperToLower_eq: "UpperToLower c = (if 65 \<le> c \<and> c \<le> 90 then c + 32 else c)"
proof -
  have "length ([0..<65] @ [65 + 32..<91 + 32] @ [91..<256]) = 256"
    by (rule length_shifted) simp_all
  then have "UpperToLower c = of_nat (([0..<65] @ [65 + 32..<91 + 32] @ [91..<256]) ! unat c)"
    unfolding UpperToLower_def UpperToLower_runs using u8_less_256 [of c]
    by (intro nth_map) (simp only:)
  also have "\<dots> = of_nat (if 65 \<le> unat c \<and> unat c < 91 then unat c + 32 else unat c)"
    using u8_less_256 [of c] by (subst nth_shifted) simp_all
  finally show ?thesis by (auto simp: word_le_nat_alt)
qed

lemma ctype_eq: "ctype c =
    (if c < 9 then 0x00 else if c < 14 then 0x01 else if c < 32 then 0x00 else if c < 33 then
     0x01 else if c < 34 then 0x00 else if c < 35 then 0x80 else if c < 36 then 0x00 else if
     c < 37 then 0x40 else if c < 39 then 0x00 else if c < 40 then 0x80 else if c < 48 then
     0x00 else if c < 58 then 0x0c else if c < 65 then 0x00 else if c < 71 then 0x0a else if
     c < 91 then 0x02 else if c < 92 then 0x80 else if c < 95 then 0x00 else if c < 96 then
     0x40 else if c < 97 then 0x80 else if c < 103 then 0x2a else if c < 123 then 0x22 else
     if c < 128 then 0x00 else 0x40)"
proof -
  have s: "sorted (0 # map fst ctype_runs)" by (simp add: ctype_runs_def)
  have "ctype c = of_nat (run_at ctype_runs 0x40 (unat c))"
    unfolding ctype_def CtypeMap_runs
    using run_list_nth [OF s, of "unat c" "0x40"] u8_less_256 [of c]
    by (simp add: length_ctype_runs)
  then show ?thesis using u8_less_256 [of c]
    by (simp add: ctype_runs_def word_less_nat_alt)
qed

lemmas ctype_macros = sqlite3Isspace_def sqlite3Isalnum_def sqlite3Isalpha_def sqlite3Isdigit_def
  sqlite3Isxdigit_def sqlite3Isquote_def IdChar_def

lemma ctype_classes:
  "sqlite3Isspace c \<longleftrightarrow> (9 \<le> c \<and> c \<le> 13) \<or> c = 32"
  "sqlite3Isalpha c \<longleftrightarrow> (65 \<le> c \<and> c \<le> 90) \<or> (97 \<le> c \<and> c \<le> 122)"
  "sqlite3Isdigit c \<longleftrightarrow> 48 \<le> c \<and> c \<le> 57"
  "sqlite3Isxdigit c \<longleftrightarrow> (48 \<le> c \<and> c \<le> 57) \<or> (65 \<le> c \<and> c \<le> 70) \<or> (97 \<le> c \<and> c \<le> 102)"
  "sqlite3Isquote c \<longleftrightarrow> c = 34 \<or> c = 39 \<or> c = 91 \<or> c = 96"
  by (auto simp: ctype_macros ctype_eq word_less_nat_alt word_le_nat_alt word_unat_eq_iff)

lemma ctype_alnum: "sqlite3Isalnum c \<longleftrightarrow> sqlite3Isalpha c \<or> sqlite3Isdigit c"
  by (auto simp: ctype_macros ctype_eq)

lemma IdChar_iff: "IdChar c \<longleftrightarrow> sqlite3Isalnum c \<or> c = 36 \<or> c = 95 \<or> 128 \<le> c"
  by (auto simp: ctype_macros ctype_eq word_less_nat_alt word_le_nat_alt word_unat_eq_iff)

section \<open>Comparison without case\<close>

definition hd0 :: "cstring \<Rightarrow> u8" where
  "hd0 z = (case z of [] \<Rightarrow> 0 | c # _ \<Rightarrow> c)"

lemma hd0_simps [simp]: "hd0 [] = 0" "hd0 (c # z) = c"
  by (simp_all add: hd0_def)

lemma hd0_nonzero: "hd0 z \<noteq> 0 \<Longrightarrow> z \<noteq> []"
  by auto

definition char_diff :: "u8 \<Rightarrow> u8 \<Rightarrow> int" where
  "char_diff a b = int (unat (UpperToLower a)) - int (unat (UpperToLower b))"

function sqlite3StrICmp :: "cstring \<Rightarrow> cstring \<Rightarrow> int" where
  "sqlite3StrICmp a b =
     (let c = char_diff (hd0 a) (hd0 b)
      in if c \<noteq> 0 \<or> hd0 a = 0 then c else sqlite3StrICmp (tl a) (tl b))"
  by auto
termination
  by (relation "measure (\<lambda>(a, b). length a)") (auto dest: hd0_nonzero)

declare sqlite3StrICmp.simps [simp del]

definition sqlite3_stricmp :: "cstring option \<Rightarrow> cstring option \<Rightarrow> int" where
  "sqlite3_stricmp zLeft zRight =
     (case zLeft of
        None \<Rightarrow> if zRight \<noteq> None then - 1 else 0
      | Some a \<Rightarrow> (case zRight of None \<Rightarrow> 1 | Some b \<Rightarrow> sqlite3StrICmp a b))"

text \<open>The loop of \<open>sqlite3_strnicmp\<close> ends with \<open>N\<close> decremented once more than the characters passed.\<close>

function strnicmp_loop :: "int \<Rightarrow> cstring \<Rightarrow> cstring \<Rightarrow> int \<times> cstring \<times> cstring" where
  "strnicmp_loop N a b =
     (if N > 0 \<and> hd0 a \<noteq> 0 \<and> UpperToLower (hd0 a) = UpperToLower (hd0 b)
      then strnicmp_loop (N - 1) (tl a) (tl b) else (N - 1, a, b))"
  by auto
termination
  by (relation "measure (\<lambda>(N, a, b). nat N)") auto

declare strnicmp_loop.simps [simp del]

definition sqlite3_strnicmp :: "cstring option \<Rightarrow> cstring option \<Rightarrow> int \<Rightarrow> int" where
  "sqlite3_strnicmp zLeft zRight N =
     (case zLeft of
        None \<Rightarrow> if zRight \<noteq> None then - 1 else 0
      | Some a \<Rightarrow> (case zRight of
          None \<Rightarrow> 1
        | Some b \<Rightarrow> (case strnicmp_loop N a b of
            (N, a, b) \<Rightarrow> if N < 0 then 0 else char_diff (hd0 a) (hd0 b))))"

section \<open>Removing quotes\<close>

text \<open>
  The loop of \<open>sqlite3Dequote\<close> from \<open>z[i]\<close> on, and what it writes at \<open>z[j]\<close> (always behind
  the reads). \<open>None\<close>: it runs into the end of the string, which the code only asserts not to happen.
\<close>

fun dequote_loop :: "u8 \<Rightarrow> cstring \<Rightarrow> cstring option" where
  "dequote_loop quote [] = None"
| "dequote_loop quote (c # z) =
     (if c = quote
      then (if hd0 z = quote then map_option ((#) quote) (dequote_loop quote (tl z)) else Some [])
      else map_option ((#) c) (dequote_loop quote z))"

definition sqlite3Dequote :: "cstring \<Rightarrow> cstring option" where
  "sqlite3Dequote z =
     (if \<not> sqlite3Isquote (hd0 z) then Some z
      else dequote_loop (if hd0 z = 0x5b then 0x5d else hd0 z) (tl z))"

section \<open>Facts\<close>

text \<open>Strings without an embedded terminator, and their case-folded bytes.\<close>

definition proper :: "cstring \<Rightarrow> bool" where
  "proper z \<longleftrightarrow> 0 \<notin> set z"

lemma proper_simps [simp]: "proper []" "proper (c # z) \<longleftrightarrow> c \<noteq> 0 \<and> proper z"
  by (auto simp: proper_def)

lemma proper_tl: "proper z \<Longrightarrow> proper (tl z)"
  by (cases z) auto

definition fold_case :: "cstring \<Rightarrow> cstring" where
  "fold_case z = map UpperToLower z"

lemma fold_case_simps [simp]: "fold_case [] = []" "fold_case (c # z) = UpperToLower c # fold_case z"
  by (simp_all add: fold_case_def)

lemma UpperToLower_0 [simp]: "UpperToLower 0 = 0"
  by (simp add: UpperToLower_eq)

lemma UpperToLower_eq_0: "UpperToLower c = 0 \<longleftrightarrow> c = 0"
proof -
  have "c + 32 \<noteq> 0" if "c \<le> 90"
  proof
    assume "c + 32 = 0"
    then have "c = - 32" by (simp add: eq_neg_iff_add_eq_0)
    with that show False by simp
  qed
  then show ?thesis by (auto simp: UpperToLower_eq)
qed

lemma char_diff_0: "char_diff a b = 0 \<longleftrightarrow> UpperToLower a = UpperToLower b"
  by (simp add: char_diff_def word_uint_eq_iff)

lemma char_diff_less: "char_diff a b < 0 \<longleftrightarrow> UpperToLower a < UpperToLower b"
  by (simp add: char_diff_def word_less_def)

lemma char_diff_swap: "char_diff b a = - char_diff a b"
  by (simp add: char_diff_def)

lemma StrICmp_Cons: "a \<noteq> 0 \<Longrightarrow> sqlite3StrICmp (a # x) (b # y) =
    (if UpperToLower a = UpperToLower b then sqlite3StrICmp x y else char_diff a b)"
  by (subst sqlite3StrICmp.simps) (auto simp: Let_def char_diff_0)

lemma StrICmp_Nil: "sqlite3StrICmp [] y = char_diff 0 (hd0 y)"
  "proper x \<Longrightarrow> sqlite3StrICmp x [] = char_diff (hd0 x) 0"
  by (cases x; subst sqlite3StrICmp.simps; simp add: Let_def char_diff_0 UpperToLower_eq_0)+

lemma StrICmp_swap: "proper x \<Longrightarrow> proper y \<Longrightarrow> sqlite3StrICmp y x = - sqlite3StrICmp x y"
proof (induction x arbitrary: y)
  case Nil
  then show ?case by (simp add: StrICmp_Nil char_diff_swap [of 0])
next
  case (Cons a x)
  then show ?case by (cases y) (auto simp: StrICmp_Nil StrICmp_Cons char_diff_swap [of a])
qed

lemma StrICmp_eq_0: "proper x \<Longrightarrow> proper y \<Longrightarrow> sqlite3StrICmp x y = 0 \<longleftrightarrow> fold_case x = fold_case y"
proof (induction x arbitrary: y)
  case Nil
  then show ?case
    by (cases y) (auto simp: StrICmp_Nil char_diff_0 UpperToLower_eq_0 eq_commute [of "0 :: u8"])
next
  case (Cons a x)
  then show ?case
    by (cases y) (auto simp: StrICmp_Nil StrICmp_Cons char_diff_0 UpperToLower_eq_0)
qed

text \<open>The order of the results: lexicographic on the folded bytes.\<close>

fun lex_less :: "cstring \<Rightarrow> cstring \<Rightarrow> bool" where
  "lex_less x [] = False"
| "lex_less [] (b # y) = True"
| "lex_less (a # x) (b # y) = (a < b \<or> (a = b \<and> lex_less x y))"

lemma lex_less_trans: "lex_less x y \<Longrightarrow> lex_less y z \<Longrightarrow> lex_less x z"
proof (induction x y arbitrary: z rule: lex_less.induct)
  case (2 b y)
  then show ?case by (cases z) auto
next
  case (3 a x b y)
  then show ?case by (cases z) auto
qed simp

lemma StrICmp_less: "proper x \<Longrightarrow> proper y \<Longrightarrow> sqlite3StrICmp x y < 0 \<longleftrightarrow> lex_less (fold_case x) (fold_case y)"
proof (induction x arbitrary: y)
  case Nil
  have "0 < UpperToLower c \<longleftrightarrow> c \<noteq> 0" for c
    using UpperToLower_eq_0 [of c] word_neq_0_conv by metis
  with Nil show ?case by (cases y) (auto simp: StrICmp_Nil char_diff_less)
next
  case (Cons a x)
  then show ?case
    by (cases y) (auto simp: StrICmp_Nil StrICmp_Cons char_diff_less)
qed

lemma strnicmp_step:
  "N > 0 \<Longrightarrow> a \<noteq> 0 \<Longrightarrow> UpperToLower a = UpperToLower b \<Longrightarrow>
     sqlite3_strnicmp (Some (a # x)) (Some (b # y)) N = sqlite3_strnicmp (Some x) (Some y) (N - 1)"
  unfolding sqlite3_strnicmp_def option.case by (subst strnicmp_loop.simps) simp

lemma strnicmp_stop:
  "N > 0 \<Longrightarrow> \<not> (hd0 x \<noteq> 0 \<and> UpperToLower (hd0 x) = UpperToLower (hd0 y)) \<Longrightarrow>
     sqlite3_strnicmp (Some x) (Some y) N = char_diff (hd0 x) (hd0 y)"
  unfolding sqlite3_strnicmp_def option.case by (subst strnicmp_loop.simps) auto

lemma strnicmp_take:
  "0 \<le> N \<Longrightarrow> proper x \<Longrightarrow> proper y \<Longrightarrow>
     sqlite3_strnicmp (Some x) (Some y) N = sqlite3StrICmp (take (nat N) x) (take (nat N) y)"
proof (induction "nat N" arbitrary: N x y)
  case 0
  then have "N = 0" by simp
  then show ?case
    by (simp add: sqlite3_strnicmp_def strnicmp_loop.simps [of 0] StrICmp_Nil char_diff_def)
next
  case (Suc n)
  then have N: "N > 0" "n = nat (N - 1)" by simp_all
  show ?case
  proof (cases "hd0 x \<noteq> 0 \<and> UpperToLower (hd0 x) = UpperToLower (hd0 y)")
    case True
    then obtain a x' where x: "x = a # x'" by (cases x) auto
    from True have "hd0 y \<noteq> 0" by (metis UpperToLower_eq_0)
    then obtain b y' where y: "y = b # y'" by (cases y) auto
    have "sqlite3_strnicmp (Some x) (Some y) N = sqlite3_strnicmp (Some x') (Some y') (N - 1)"
      using True N x y strnicmp_step by simp
    also have "\<dots> = sqlite3StrICmp (take n x') (take n y')"
      using Suc.hyps(1) [OF N(2), of x' y'] Suc.prems N x y by simp
    finally show ?thesis using True Suc.hyps(2) [symmetric] by (simp add: x y StrICmp_Cons)
  next
    case False
    then have "sqlite3_strnicmp (Some x) (Some y) N = char_diff (hd0 x) (hd0 y)"
      using N strnicmp_stop by blast
    moreover have "hd0 (take (nat N) z) = hd0 z" for z
      using N by (cases z) (auto simp: take_Cons' )
    ultimately show ?thesis using False
      by (subst sqlite3StrICmp.simps) (auto simp: Let_def char_diff_0)
  qed
qed

text \<open>Writing a string between quotes: the closing quote doubled inside.\<close>

definition closing :: "u8 \<Rightarrow> u8" where
  "closing q = (if q = 0x5b then 0x5d else q)"

definition quoted :: "u8 \<Rightarrow> cstring \<Rightarrow> cstring" where
  "quoted q z = q # concat (map (\<lambda>c. if c = closing q then [c, c] else [c]) z) @ [closing q]"

lemma dequote_loop_quoted:
  "q \<noteq> 0 \<Longrightarrow> hd0 rest \<noteq> q \<Longrightarrow>
     dequote_loop q (concat (map (\<lambda>c. if c = q then [c, c] else [c]) z) @ q # rest) = Some z"
  by (induction z) auto

section \<open>Properties\<close>

text \<open>
  Case-insensitive comparison is a total preorder on zero-terminated strings whose classes are
  the strings that fold to the same bytes: 0 exactly for those, opposite results when the
  arguments are swapped, the order transitive; \<open>sqlite3_strnicmp\<close> is the comparison of the
  first \<open>N\<close> bytes.
\<close>

lemma StrICmp_order:
  assumes "proper x" "proper y" "proper z" "0 \<le> N"
  shows "(sqlite3StrICmp x y = 0 \<longleftrightarrow> fold_case x = fold_case y)
    \<and> sqlite3StrICmp y x = - sqlite3StrICmp x y
    \<and> (sqlite3StrICmp x y < 0 \<and> sqlite3StrICmp y z < 0 \<longrightarrow> sqlite3StrICmp x z < 0)
    \<and> sqlite3_strnicmp (Some x) (Some y) N = sqlite3StrICmp (take (nat N) x) (take (nat N) y)"
proof (intro conjI impI)
  show "sqlite3StrICmp x z < 0" if "sqlite3StrICmp x y < 0 \<and> sqlite3StrICmp y z < 0"
    using that assms(1-3) by (auto simp: StrICmp_less intro: lex_less_trans)
qed (use assms StrICmp_swap [OF assms(1,2)] in \<open>simp_all add: StrICmp_eq_0 strnicmp_take\<close>)

lemma StrICmp_order_witness:
  "sqlite3StrICmp [65, 98] [97, 66] = 0 \<and> sqlite3_strnicmp (Some [65, 98]) (Some [97]) 1 = 0"
proof -
  have "fold_case [65, 98] = fold_case [97, 66]" by (simp add: UpperToLower_eq)
  moreover have "fold_case [65] = fold_case [97]" by (simp add: UpperToLower_eq)
  ultimately show ?thesis
    using StrICmp_order [of "[65, 98]" "[97, 66]" "[]" 0] StrICmp_order [of "[65]" "[97]" "[]" 0]
      StrICmp_order [of "[65, 98]" "[97]" "[]" 1]
    by simp
qed

text \<open>
  \<open>sqlite3Dequote\<close> undoes quoting. A string between any of the four kinds of quotes
  (brackets included) with the closing quote doubled inside is dequoted to the string, and a
  string that does not start with a quote is left alone.
\<close>

lemma Dequote_quoted:
  assumes "sqlite3Isquote q" "\<not> sqlite3Isquote (hd0 s)"
  shows "sqlite3Dequote (quoted q z) = Some z \<and> sqlite3Dequote s = Some s"
proof -
  have "closing q \<noteq> 0" using assms(1) by (auto simp: ctype_classes closing_def)
  with assms show ?thesis
    using dequote_loop_quoted [of "closing q" "[]" z]
    by (simp add: sqlite3Dequote_def quoted_def closing_def split: if_splits)
qed

lemma Dequote_quoted_witness:
  "sqlite3Dequote [0x5b, 0x61, 0x5d, 0x5d, 0x5d] = Some [0x61, 0x5d]"
  using Dequote_quoted [of "0x5b" "[]" "[0x61, 0x5d]"]
  by (simp add: ctype_classes quoted_def closing_def)

end
