(* ===== verification/LinkedList.thy ===== *)
theory LinkedList
  imports Prelude
begin

text \<open>
  The doubly linked list under the two hash tables of the engine (\<open>src/hash.c\<close>,
  \<open>ext/fts3/fts3_hash.c\<close>): elements in a heap, \<open>next\<close> and \<open>prev\<close> pointers, linking an element in
  front of another and unlinking one, exactly as the C statements do it, with the list of
  addresses such a structure stands for. All elements of a table are on one list, and the
  elements of one bucket are neighbours on it; the facts about such groups are here too.
\<close>

section \<open>The heap\<close>

record ('k, 'd) elem =
  e_next :: "nat option"
  e_prev :: "nat option"
  e_key :: 'k
  e_data :: 'd

type_synonym ('k, 'd) heap = "nat \<Rightarrow> ('k, 'd) elem"

definition set_next :: "nat \<Rightarrow> nat option \<Rightarrow> ('k, 'd) heap \<Rightarrow> ('k, 'd) heap" where
  "set_next a p h = h(a := (h a)\<lparr>e_next := p\<rparr>)"

definition set_prev :: "nat \<Rightarrow> nat option \<Rightarrow> ('k, 'd) heap \<Rightarrow> ('k, 'd) heap" where
  "set_prev a p h = h(a := (h a)\<lparr>e_prev := p\<rparr>)"

text \<open>
  The pointer part of \<open>insertElement\<close>: \<open>pNew\<close> goes in front of \<open>pHead\<close>, or to the front of the
  list when there is no \<open>pHead\<close>.
\<close>

definition link :: "nat option \<Rightarrow> nat \<Rightarrow> nat option \<Rightarrow> ('k, 'd) heap \<Rightarrow> nat option \<times> ('k, 'd) heap" where
  "link pHead pNew first h =
     (case pHead of
        Some hp \<Rightarrow>
          let h = set_next pNew (Some hp) h;
              h = set_prev pNew (e_prev (h hp)) h;
              (first, h) = (case e_prev (h hp) of
                 Some p \<Rightarrow> (first, set_next p (Some pNew) h)
               | None \<Rightarrow> (Some pNew, h))
          in (first, set_prev hp (Some pNew) h)
      | None \<Rightarrow>
          let h = set_next pNew first h;
              h = (case first of Some f \<Rightarrow> set_prev f (Some pNew) h | None \<Rightarrow> h)
          in (Some pNew, set_prev pNew None h))"

definition unlink :: "nat \<Rightarrow> nat option \<Rightarrow> ('k, 'd) heap \<Rightarrow> nat option \<times> ('k, 'd) heap" where
  "unlink elem first h =
     (let (first, h) = (case e_prev (h elem) of
            Some p \<Rightarrow> (first, set_next p (e_next (h elem)) h)
          | None \<Rightarrow> (e_next (h elem), h));
          h = (case e_next (h elem) of Some n \<Rightarrow> set_prev n (e_prev (h elem)) h | None \<Rightarrow> h)
      in (first, h))"

section \<open>The list a heap holds\<close>

text \<open>
  \<open>seg h p prev as q l\<close>: from pointer \<open>p\<close>, whose element's \<open>prev\<close> is \<open>prev\<close>, the \<open>next\<close>
  pointers run through \<open>as\<close> to \<open>q\<close>, and \<open>l\<close> is the last address passed.
\<close>

fun seg :: "('k, 'd) heap \<Rightarrow> nat option \<Rightarrow> nat option \<Rightarrow> nat list \<Rightarrow> nat option \<Rightarrow> nat option \<Rightarrow> bool" where
  "seg h p prev [] q l \<longleftrightarrow> p = q \<and> l = prev"
| "seg h p prev (a # as) q l \<longleftrightarrow>
     p = Some a \<and> e_prev (h a) = prev \<and> seg h (e_next (h a)) (Some a) as q l"

definition dll :: "('k, 'd) heap \<Rightarrow> nat option \<Rightarrow> nat list \<Rightarrow> bool" where
  "dll h first xs \<longleftrightarrow> distinct xs \<and> (\<exists>l. seg h first None xs None l)"

lemma seg_append:
  "seg h p prev (xs @ ys) q l \<longleftrightarrow> (\<exists>r m. seg h p prev xs r m \<and> seg h r m ys q l)"
  by (induction xs arbitrary: p prev) auto

lemma seg_cong: "(\<And>a. a \<in> set xs \<Longrightarrow> h a = h' a) \<Longrightarrow> seg h p prev xs q l = seg h' p prev xs q l"
  by (induction xs arbitrary: p prev) auto

lemma seg_last: "seg h p prev xs q l \<Longrightarrow> l = (if xs = [] then prev else Some (last xs))"
  by (induction xs arbitrary: p prev) (auto split: if_splits)

lemma seg_first: "seg h p prev xs q l \<Longrightarrow> p = (if xs = [] then q else Some (hd xs))"
  by (cases xs) auto

text \<open>Only the last element's \<open>next\<close> and the first one's \<open>prev\<close> tie a segment to its ends.\<close>

lemma seg_set_last:
  assumes "seg h p prev (xs @ [b]) q l" "b \<notin> set xs"
  shows "seg (set_next b r h) p prev (xs @ [b]) r (Some b)"
proof -
  from assms(1) obtain p' m where 1: "seg h p prev xs p' m" "p' = Some b" "e_prev (h b) = m"
    by (auto simp: seg_append)
  have "seg (set_next b r h) p prev xs p' m"
    using 1(1) assms(2) by (subst seg_cong [of _ _ h]) (auto simp: set_next_def)
  with 1 show ?thesis by (auto simp: seg_append set_next_def)
qed

lemma seg_set_first:
  assumes "seg h p prev (a # ys) q l" "a \<notin> set ys"
  shows "seg (set_prev a r h) (Some a) r (a # ys) q l"
proof -
  have "seg (set_prev a r h) (e_next (h a)) (Some a) ys q l"
    using assms by (subst seg_cong [of _ _ h]) (auto simp: set_prev_def)
  then show ?thesis by (simp add: set_prev_def)
qed

text \<open>Keys and data never change, and nothing outside the list does.\<close>

definition same_content :: "('k, 'd) heap \<Rightarrow> ('k, 'd) heap \<Rightarrow> bool" where
  "same_content h h' \<longleftrightarrow> (\<forall>a. e_key (h' a) = e_key (h a) \<and> e_data (h' a) = e_data (h a))"

lemma same_content_refl [simp]: "same_content h h"
  by (simp add: same_content_def)

lemma same_content_trans: "same_content h h' \<Longrightarrow> same_content h' h'' \<Longrightarrow> same_content h h''"
  by (simp add: same_content_def)

lemma same_content_set [simp]: "same_content h (set_next a p h)" "same_content h (set_prev a p h)"
  by (simp_all add: same_content_def set_next_def set_prev_def)

lemma link_content:
  assumes "link pHead new first h = (first', h')"
  shows "same_content h h'"
  using assms
  by (auto simp: link_def Let_def split: option.splits prod.splits)
    (auto simp: same_content_def set_next_def set_prev_def)

lemma unlink_content:
  assumes "unlink elem first h = (first', h')"
  shows "same_content h h'"
  using assms
  by (auto simp: unlink_def Let_def split: option.splits prod.splits)
    (auto simp: same_content_def set_next_def set_prev_def)

lemma set_other: "a \<noteq> b \<Longrightarrow> set_next b p h a = h a" "a \<noteq> b \<Longrightarrow> set_prev b p h a = h a"
  by (simp_all add: set_next_def set_prev_def)

lemma set_same [simp]:
  "e_next (set_next a p h a) = p" "e_prev (set_next a p h b) = e_prev (h b)"
  "e_prev (set_prev a p h a) = p" "e_next (set_prev a p h b) = e_next (h b)"
  by (simp_all add: set_next_def set_prev_def)

text \<open>Linking in front of the element \<open>y\<close>, which has \<open>xs\<close> before it.\<close>

lemma link_before:
  assumes d: "dll h first (xs @ y # ys)" and new: "new \<notin> set (xs @ y # ys)"
    and l: "link (Some y) new first h = (first', h')"
  shows "dll h' first' (xs @ new # y # ys)"
    and "\<And>a. a \<notin> set (new # xs @ y # ys) \<Longrightarrow> h' a = h a"
proof -
  obtain r m l' where s: "seg h first None xs r m" "r = Some y" "e_prev (h y) = m"
      "seg h (e_next (h y)) (Some y) ys None l'"
    using d by (auto simp: dll_def seg_append)
  have dist: "distinct (xs @ new # y # ys)" using d new by (auto simp: dll_def)
  have yn: "y \<noteq> new" using new by auto
  show "dll h' first' (xs @ new # y # ys)"
  proof (cases xs rule: rev_cases)
    case Nil
    then have m: "m = None" "first = Some y" using s by simp_all
    then have h': "first' = Some new" "h' = set_prev y (Some new) (set_prev new None (set_next new (Some y) h))"
      using l s(3) yn by (auto simp: link_def Let_def set_other)
    have "seg h' (e_next (h y)) (Some y) ys None l'"
      using s(4) dist Nil by (subst seg_cong [of _ _ h]) (auto simp: h' set_next_def set_prev_def)
    then show ?thesis using dist yn Nil
      by (auto simp: dll_def h' set_next_def set_prev_def)
  next
    case (snoc zs b)
    then have m: "m = Some b" using seg_last [OF s(1)] by simp
    have by': "b \<noteq> y" "b \<noteq> new" "b \<notin> set zs" using dist snoc by auto
    let ?h = "set_prev new (Some b) (set_next new (Some y) h)"
    have h': "first' = first" "h' = set_prev y (Some new) (set_next b (Some new) ?h)"
      using l s(3) yn m by (auto simp: link_def Let_def set_other)
    have "seg ?h first None xs r m"
      using s(1) dist by (subst seg_cong [of _ _ h]) (auto simp: set_next_def set_prev_def)
    then have "seg (set_next b (Some new) ?h) first None (zs @ [b]) (Some new) (Some b)"
      using by'(3) unfolding snoc by (rule seg_set_last)
    then have 1: "seg h' first None xs (Some new) (Some b)"
      unfolding snoc by (subst seg_cong [of _ _ "set_next b (Some new) ?h"])
        (use dist snoc in \<open>auto simp: h' set_next_def set_prev_def\<close>)
    have 2: "seg h' (e_next (h y)) (Some y) ys None l'"
      using s(4) dist snoc by (subst seg_cong [of _ _ h]) (auto simp: h' set_next_def set_prev_def)
    have "e_prev (h' new) = Some b" "e_next (h' new) = Some y"
        "e_prev (h' y) = Some new" "e_next (h' y) = e_next (h y)"
      using by'(1,2) yn by (simp_all add: h' set_next_def set_prev_def)
    then show ?thesis using dist 1 2 h'(1) by (auto simp: dll_def seg_append)
  qed
  have m_in: "p \<in> set xs" if "e_prev (h y) = Some p" for p
    using seg_last [OF s(1)] s(3) that by (auto split: if_splits)
  show "h' a = h a" if "a \<notin> set (new # xs @ y # ys)" for a
    using l that m_in yn by (auto simp: link_def Let_def set_next_def set_prev_def split: option.splits)
qed

lemma link_front:
  assumes d: "dll h first xs" and new: "new \<notin> set xs" and l: "link None new first h = (first', h')"
  shows "dll h' first' (new # xs)" and "\<And>a. a \<notin> set (new # xs) \<Longrightarrow> h' a = h a"
proof -
  show "dll h' first' (new # xs)"
  proof (cases xs)
    case Nil
    then show ?thesis using d l by (auto simp: dll_def link_def Let_def set_next_def set_prev_def)
  next
    case (Cons y ys)
    obtain l' where s: "first = Some y" "seg h first None (y # ys) None l'" using d Cons by (auto simp: dll_def)
    have yn: "y \<noteq> new" "y \<notin> set ys" "new \<notin> set ys" "distinct ys" using d new Cons by (auto simp: dll_def)
    have h': "first' = Some new" "h' = set_prev new None (set_prev y (Some new) (set_next new (Some y) h))"
      using l s(1) by (auto simp: link_def)
    have "seg h (e_next (h y)) (Some y) ys None l'" using s by simp
    then have "seg h' (e_next (h y)) (Some y) ys None l'"
      using yn by (subst seg_cong [of _ _ h]) (auto simp: h' set_next_def set_prev_def)
    then show ?thesis using yn
      by (auto simp: dll_def Cons h' set_next_def set_prev_def)
  qed
  have "first = Some f \<Longrightarrow> f \<in> set xs" for f using d by (cases xs) (auto simp: dll_def)
  then show "h' a = h a" if "a \<notin> set (new # xs)" for a
    using l that by (auto simp: link_def Let_def set_next_def set_prev_def split: option.splits)
qed

text \<open>Unlinking an element.\<close>

lemma unlink_dll:
  assumes d: "dll h first (xs @ x # ys)" and l: "unlink x first h = (first', h')"
  shows "dll h' first' (xs @ ys)" and "\<And>a. a \<notin> set (xs @ ys) \<Longrightarrow> h' a = h a"
proof -
  obtain r m l' where s: "seg h first None xs r m" "r = Some x" "e_prev (h x) = m"
      "seg h (e_next (h x)) (Some x) ys None l'"
    using d by (auto simp: dll_def seg_append)
  have dist: "distinct (xs @ x # ys)" using d by (simp add: dll_def)
  define h1 where "h1 = (case m of Some p \<Rightarrow> set_next p (e_next (h x)) h | None \<Rightarrow> h)"
  have m_eq: "m = (if xs = [] then None else Some (last xs))" using seg_last [OF s(1)] .
  have n_eq: "e_next (h x) = (if ys = [] then None else Some (hd ys))" using seg_first [OF s(4)] .
  have x1: "h1 x = h x"
    using dist by (cases xs rule: rev_cases) (auto simp: h1_def m_eq set_other)
  have f': "first' = (if xs = [] then e_next (h x) else first)
    \<and> h' = (case e_next (h x) of Some n \<Rightarrow> set_prev n m h1 | None \<Rightarrow> h1)"
  proof (cases m)
    case None
    then have "unlink x first h = (e_next (h x), case e_next (h x) of Some n \<Rightarrow> set_prev n m h1 | None \<Rightarrow> h1)"
      using s(3) by (simp add: unlink_def h1_def split: option.splits)
    then show ?thesis using l None m_eq by (simp split: if_splits)
  next
    case (Some p)
    then have "unlink x first h = (first, case e_next (h1 x) of Some n \<Rightarrow> set_prev n (e_prev (h1 x)) h1 | None \<Rightarrow> h1)"
      using s(3) by (simp add: unlink_def h1_def split: option.splits)
    then show ?thesis using l Some m_eq unfolding x1 s(3) by (simp split: if_splits)
  qed
  have 1: "seg h1 first' None xs (e_next (h x)) m"
  proof (cases xs rule: rev_cases)
    case Nil
    then show ?thesis by (simp add: f' m_eq)
  next
    case (snoc zs b)
    then have "seg (set_next b (e_next (h x)) h) first None (zs @ [b]) (e_next (h x)) (Some b)"
      using s(1) dist by (intro seg_set_last) auto
    then show ?thesis using snoc by (simp add: f' m_eq h1_def)
  qed
  have 2: "seg h1 (e_next (h x)) (Some x) ys None l'"
  proof -
    have "last xs \<notin> set ys" if "xs \<noteq> []" using last_in_set [OF that] dist by auto
    then show ?thesis using s(4)
      by (subst seg_cong [of _ _ h]) (auto simp: h1_def m_eq set_next_def split: if_splits)
  qed
  have "seg h' first' None xs (e_next (h x)) m \<and> (\<exists>l. seg h' (e_next (h x)) m ys None l)"
  proof (cases ys)
    case Nil
    then show ?thesis using 1 by (simp add: f' n_eq)
  next
    case (Cons n zs)
    have h': "h' = set_prev n m h1" using Cons by (simp add: f' n_eq)
    have "seg h' first' None xs (e_next (h x)) m"
      using 1 dist Cons by (subst seg_cong [of _ _ h1]) (auto simp: h' set_next_def set_prev_def)
    moreover have "seg h' (Some n) m (n # zs) None l'"
      using 2 dist unfolding h' Cons by (intro seg_set_first) (auto simp: n_eq Cons)
    ultimately show ?thesis using Cons by (auto simp: n_eq)
  qed
  then show "dll h' first' (xs @ ys)" using dist by (auto simp: dll_def seg_append)
  show "h' a = h a" if "a \<notin> set (xs @ ys)" for a
  proof -
    have "m = Some a \<Longrightarrow> False" "e_next (h x) = Some a \<Longrightarrow> False"
      using that by (auto simp: m_eq n_eq split: if_splits)
    then show ?thesis by (auto simp: f' h1_def set_next_def set_prev_def split: option.splits)
  qed
qed

section \<open>Groups of neighbours\<close>

text \<open>The elements with property \<open>P\<close> are neighbours on the list.\<close>

definition contig :: "('a \<Rightarrow> bool) \<Rightarrow> 'a list \<Rightarrow> bool" where
  "contig P xs \<longleftrightarrow> (\<exists>us vs ws. xs = us @ vs @ ws \<and>
     (\<forall>x\<in>set us. \<not> P x) \<and> (\<forall>x\<in>set vs. P x) \<and> (\<forall>x\<in>set ws. \<not> P x))"

lemma contig_filter:
  assumes "contig P xs"
  obtains us ws where "xs = us @ filter P xs @ ws" "\<forall>x\<in>set us. \<not> P x" "\<forall>x\<in>set ws. \<not> P x"
proof -
  obtain us vs ws where s: "xs = us @ vs @ ws" "\<forall>x\<in>set us. \<not> P x" "\<forall>x\<in>set vs. P x" "\<forall>x\<in>set ws. \<not> P x"
    using assms by (auto simp: contig_def)
  then have "filter P xs = vs" by (simp add: filter_empty_conv filter_id_conv)
  then show ?thesis using s by (intro that [of us ws]) simp_all
qed

lemma contig_filter_ex:
  assumes "contig P xs"
  shows "\<exists>us ws. xs = us @ filter P xs @ ws"
  by (rule contig_filter [OF assms]) (intro exI)

lemma contig_Cons_not: "\<not> P x \<Longrightarrow> contig P (x # xs) = contig P xs"
proof
  assume x: "\<not> P x" and "contig P (x # xs)"
  then obtain us vs ws where s: "x # xs = us @ vs @ ws" "\<forall>x\<in>set us. \<not> P x" "\<forall>x\<in>set vs. P x"
      "\<forall>x\<in>set ws. \<not> P x" by (auto simp: contig_def)
  show "contig P xs"
  proof (cases us)
    case (Cons u us')
    then show ?thesis using s unfolding contig_def by (intro exI [of _ us'] exI [of _ vs] exI [of _ ws]) auto
  next
    case Nil
    then have "vs = []" using s x by (cases vs) auto
    then have "xs = [] @ [] @ tl ws" "\<forall>x\<in>set (tl ws). \<not> P x" using s Nil by (cases ws; auto)+
    then show ?thesis unfolding contig_def by fastforce
  qed
next
  assume x: "\<not> P x" and "contig P xs"
  then obtain us vs ws where "xs = us @ vs @ ws" "\<forall>x\<in>set us. \<not> P x" "\<forall>x\<in>set vs. P x"
      "\<forall>x\<in>set ws. \<not> P x" by (auto simp: contig_def)
  then show "contig P (x # xs)" using x unfolding contig_def
    by (intro exI [of _ "x # us"] exI [of _ vs] exI [of _ ws]) auto
qed

lemma contig_none: "\<forall>x\<in>set xs. \<not> P x \<Longrightarrow> contig P xs"
  unfolding contig_def by (intro exI [of _ xs] exI [of _ "[]"]) auto

lemma contig_Cons: "P x \<Longrightarrow> contig P (x # xs) \<longleftrightarrow> contig P xs \<and> (xs = [] \<or> P (hd xs) \<or> (\<forall>y\<in>set xs. \<not> P y))"
proof
  assume x: "P x" and "contig P (x # xs)"
  then obtain us vs ws where s: "x # xs = us @ vs @ ws" "\<forall>x\<in>set us. \<not> P x" "\<forall>x\<in>set vs. P x"
      "\<forall>x\<in>set ws. \<not> P x" by (auto simp: contig_def)
  then have us: "us = []" using x by (cases us) auto
  then obtain vs' where vs: "vs = x # vs'" using s x by (cases vs) auto
  have xs: "xs = vs' @ ws" using s us vs by simp
  then have "contig P xs" using s vs unfolding contig_def by (intro exI [of _ "[]"] exI [of _ vs'] exI [of _ ws]) auto
  moreover have "xs = [] \<or> P (hd xs) \<or> (\<forall>y\<in>set xs. \<not> P y)"
    using s vs xs by (cases vs') auto
  ultimately show "contig P xs \<and> (xs = [] \<or> P (hd xs) \<or> (\<forall>y\<in>set xs. \<not> P y))" ..
next
  assume x: "P x" and *: "contig P xs \<and> (xs = [] \<or> P (hd xs) \<or> (\<forall>y\<in>set xs. \<not> P y))"
  then obtain us vs ws where s: "xs = us @ vs @ ws" "\<forall>x\<in>set us. \<not> P x" "\<forall>x\<in>set vs. P x"
      "\<forall>x\<in>set ws. \<not> P x" by (auto simp: contig_def)
  show "contig P (x # xs)"
  proof (cases "\<forall>y\<in>set xs. \<not> P y")
    case True
    then show ?thesis using x unfolding contig_def by (intro exI [of _ "[]"] exI [of _ "[x]"] exI [of _ xs]) auto
  next
    case False
    then have "P (hd xs)" "xs \<noteq> []" using * by auto
    then have "us = []" using s by (cases us) auto
    then show ?thesis using x s unfolding contig_def by (intro exI [of _ "[]"] exI [of _ "x # vs"] exI [of _ ws]) auto
  qed
qed

lemma contig_remove: "contig P (xs @ x # ys) \<Longrightarrow> contig P (xs @ ys)"
proof (induction xs)
  case Nil
  then show ?case by (cases "P x") (auto simp: contig_Cons contig_Cons_not)
next
  case (Cons a xs)
  show ?case
  proof (cases "P a")
    case False
    with Cons show ?thesis by (simp add: contig_Cons_not)
  next
    case True
    then have *: "contig P (xs @ x # ys)" "xs @ x # ys = [] \<or> P (hd (xs @ x # ys)) \<or> (\<forall>y\<in>set (xs @ x # ys). \<not> P y)"
      using Cons.prems by (simp_all add: contig_Cons)
    have "xs @ ys = [] \<or> P (hd (xs @ ys)) \<or> (\<forall>y\<in>set (xs @ ys). \<not> P y)"
    proof (cases xs)
      case Nil
      have "ys = [] \<or> P (hd ys) \<or> (\<forall>y\<in>set ys. \<not> P y)" if "P x"
        using * Nil that by (simp add: contig_Cons)
      then show ?thesis using * Nil by auto
    next
      case (Cons b zs)
      then show ?thesis using * by auto
    qed
    then show ?thesis using Cons.IH * True by (simp add: contig_Cons)
  qed
qed

text \<open>An element without \<open>P\<close> may go in front of an element without \<open>P\<close>.\<close>

lemma contig_insert_not:
  "contig P (xs @ y # ys) \<Longrightarrow> \<not> P x \<Longrightarrow> \<not> P y \<Longrightarrow> contig P (xs @ x # y # ys)"
proof (induction xs)
  case Nil
  then show ?case by (simp add: contig_Cons_not)
next
  case (Cons a xs)
  then show ?case by (cases "P a"; cases xs) (auto simp: contig_Cons contig_Cons_not)
qed

text \<open>An element with \<open>P\<close> may go in front of the first one with \<open>P\<close>.\<close>

lemma contig_insert:
  "contig P (xs @ y # ys) \<Longrightarrow> P x \<Longrightarrow> P y \<Longrightarrow> \<forall>a\<in>set xs. \<not> P a \<Longrightarrow> contig P (xs @ x # y # ys)"
proof (induction xs)
  case Nil
  then show ?case by (simp add: contig_Cons)
next
  case (Cons a xs)
  then show ?case by (simp add: contig_Cons_not)
qed

section \<open>Buckets\<close>

text \<open>
  A bucket records how many elements it has and where they start. \<open>idx\<close> gives the bucket of an
  element.
\<close>

type_synonym bucket = "nat \<times> nat option"

definition bucket_ok :: "('a \<Rightarrow> bool) \<Rightarrow> 'a list \<Rightarrow> nat \<times> 'a option \<Rightarrow> bool" where
  "bucket_ok P xs b \<longleftrightarrow> contig P xs \<and> fst b = length (filter P xs) \<and>
     (filter P xs \<noteq> [] \<longrightarrow> snd b = Some (hd (filter P xs)))"

definition buckets_ok :: "(nat \<Rightarrow> nat) \<Rightarrow> nat list \<Rightarrow> bucket list \<Rightarrow> bool" where
  "buckets_ok idx xs B \<longleftrightarrow>
     (\<forall>a\<in>set xs. idx a < length B) \<and> (\<forall>i<length B. bucket_ok (\<lambda>a. idx a = i) xs (B ! i))"

lemma buckets_ok_empty: "\<forall>i<n. fst (B ! i) = 0 \<Longrightarrow> length B = n \<Longrightarrow> buckets_ok idx [] B"
  by (auto simp: buckets_ok_def bucket_ok_def contig_none)

lemma contig_cong:
  assumes "\<And>a. a \<in> set xs \<Longrightarrow> P a = Q a" "contig P xs"
  shows "contig Q xs"
proof -
  obtain us vs ws where "xs = us @ vs @ ws" "\<forall>x\<in>set us. \<not> P x" "\<forall>x\<in>set vs. P x" "\<forall>x\<in>set ws. \<not> P x"
    using assms(2) by (auto simp: contig_def)
  then show ?thesis using assms(1) unfolding contig_def by (intro exI [of _ us] exI [of _ vs] exI [of _ ws]) auto
qed

lemma bucket_ok_cong:
  assumes "\<And>a. a \<in> set xs \<Longrightarrow> P a = Q a" "bucket_ok P xs b"
  shows "bucket_ok Q xs b"
proof -
  have "filter P xs = filter Q xs" using assms(1) by (rule filter_cong [OF refl])
  moreover have "contig Q xs" using assms(2) by (intro contig_cong [OF assms(1)]) (simp_all add: bucket_ok_def)
  ultimately show ?thesis using assms(2) by (simp add: bucket_ok_def)
qed

lemma buckets_ok_cong:
  assumes "\<And>a. a \<in> set xs \<Longrightarrow> idx a = idx' a" "buckets_ok idx xs B"
  shows "buckets_ok idx' xs B"
proof -
  have "bucket_ok (\<lambda>a. idx' a = i) xs (B ! i)" if "i < length B" for i
  proof (rule bucket_ok_cong)
    show "bucket_ok (\<lambda>a. idx a = i) xs (B ! i)" using assms(2) that by (simp add: buckets_ok_def)
    show "(idx a = i) = (idx' a = i)" if "a \<in> set xs" for a by (simp add: assms(1) [OF that])
  qed
  moreover have "\<forall>a\<in>set xs. idx' a < length B"
    using assms(2) by (simp add: buckets_ok_def assms(1) [symmetric])
  ultimately show ?thesis by (simp add: buckets_ok_def)
qed

text \<open>Linking an element into its bucket.\<close>

lemma link_bucket:
  assumes d: "dll h first xs" "new \<notin> set xs" and B: "buckets_ok idx xs B"
    and i: "idx new = i" "i < length B" "B ! i = (cnt, chain)"
    and l: "link (if cnt \<noteq> 0 then chain else None) new first h = (first', h')"
  shows "\<exists>xs'. dll h' first' xs' \<and> set xs' = insert new (set xs) \<and> length xs' = Suc (length xs)
    \<and> buckets_ok idx xs' (B[i := (cnt + 1, Some new)]) \<and> (\<forall>a. a \<notin> set (new # xs) \<longrightarrow> h' a = h a)"
proof -
  let ?P = "\<lambda>a. idx a = i"
  have ok: "bucket_ok (\<lambda>a. idx a = j) xs (B ! j)" if "j < length B" for j
    using B that by (simp add: buckets_ok_def)
  have bi: "contig ?P xs" "cnt = length (filter ?P xs)" "filter ?P xs \<noteq> [] \<Longrightarrow> chain = Some (hd (filter ?P xs))"
    using ok [OF i(2), unfolded i(3) bucket_ok_def fst_conv snd_conv] by blast+
  have in_range: "\<forall>a\<in>set xs. idx a < length B" using B by (simp add: buckets_ok_def)
  show ?thesis
  proof (cases "filter ?P xs")
    case Nil
    then have l0: "link None new first h = (first', h')" using l bi(2) by simp
    have none: "\<forall>a\<in>set xs. \<not> ?P a" using Nil by (simp add: filter_empty_conv)
    have "bucket_ok (\<lambda>a. idx a = j) (new # xs) (B[i := (cnt + 1, Some new)] ! j)"
      if "j < length B" for j
    proof (cases "j = i")
      case True
      then show ?thesis using i none bi(2) Nil contig_none [OF none]
        by (simp add: bucket_ok_def contig_Cons)
    next
      case False
      then show ?thesis using ok [OF that] i(1) by (simp add: bucket_ok_def contig_Cons_not)
    qed
    then have "buckets_ok idx (new # xs) (B[i := (cnt + 1, Some new)])"
      using in_range i by (simp add: buckets_ok_def)
    moreover have "dll h' first' (new # xs)" "\<forall>a. a \<notin> set (new # xs) \<longrightarrow> h' a = h a"
      using link_front [OF d l0] by blast+
    ultimately show ?thesis by (intro exI [of _ "new # xs"]) simp
  next
    case (Cons y vs)
    obtain us ws where s: "xs = us @ filter ?P xs @ ws" "\<forall>a\<in>set us. \<not> ?P a" "\<forall>a\<in>set ws. \<not> ?P a"
      using contig_filter [OF bi(1)] by blast
    have xs: "xs = us @ y # (vs @ ws)" using s(1) [unfolded Cons] by simp
    have "y \<in> set (filter ?P xs)" unfolding Cons by simp
    then have Py: "?P y" by simp
    have ly: "link (Some y) new first h = (first', h')" using l bi(2,3) Cons by simp
    let ?xs = "us @ new # y # (vs @ ws)"
    note link = link_before [OF d(1) [unfolded xs] d(2) [unfolded xs] ly]
    have "bucket_ok (\<lambda>a. idx a = j) ?xs (B[i := (cnt + 1, Some new)] ! j)" if "j < length B" for j
    proof (cases "j = i")
      case True
      have "contig ?P ?xs" using bi(1) i(1) Py s(2) unfolding xs by (intro contig_insert) auto
      moreover have "filter ?P ?xs = new # filter ?P xs"
        using s(2) i(1) by (subst xs) (simp add: filter_empty_conv)
      ultimately show ?thesis using True i bi(2) by (simp add: bucket_ok_def)
    next
      case False
      have "contig (\<lambda>a. idx a = j) ?xs"
        using ok [OF that] False i(1) Py unfolding xs by (intro contig_insert_not) (auto simp: bucket_ok_def)
      moreover have "filter (\<lambda>a. idx a = j) ?xs = filter (\<lambda>a. idx a = j) xs"
        using False i(1) by (subst xs) simp
      ultimately show ?thesis using ok [OF that] False by (simp add: bucket_ok_def)
    qed
    then have "buckets_ok idx ?xs (B[i := (cnt + 1, Some new)])"
      using in_range i by (simp add: buckets_ok_def xs)
    moreover have "dll h' first' ?xs" by (rule link(1))
    moreover have "\<forall>a. a \<notin> set (new # xs) \<longrightarrow> h' a = h a" using link(2) unfolding xs by blast
    ultimately show ?thesis by (intro exI [of _ ?xs]) (auto simp: xs)
  qed
qed

text \<open>Unlinking an element from its bucket.\<close>

lemma unlink_bucket:
  assumes d: "dll h first xs" "x \<in> set xs" and B: "buckets_ok idx xs B"
    and i: "idx x = i" "B ! i = (cnt, chain)"
    and l: "unlink x first h = (first', h')"
    and c: "chain' = (if chain = Some x then e_next (h' x) else chain) \<or> (cnt = 1 \<and> chain' = None)"
  shows "\<exists>as bs. xs = as @ x # bs \<and> dll h' first' (as @ bs)
    \<and> buckets_ok idx (as @ bs) (B[i := (cnt - 1, chain')])
    \<and> (\<forall>a. a \<notin> set (as @ bs) \<longrightarrow> h' a = h a)"
proof -
  obtain as bs where xs: "xs = as @ x # bs" using d(2) by (meson split_list)
  note un = unlink_dll [OF d(1) [unfolded xs] l]
  have dist: "distinct (as @ x # bs)" using d(1) xs by (simp add: dll_def)
  have ilt: "i < length B" using B d(2) i(1) by (auto simp: buckets_ok_def)
  have ok: "bucket_ok (\<lambda>a. idx a = j) xs (B ! j)" if "j < length B" for j
    using B that by (simp add: buckets_ok_def)
  have bi: "contig (\<lambda>a. idx a = i) xs" "cnt = length (filter (\<lambda>a. idx a = i) xs)"
      "filter (\<lambda>a. idx a = i) xs \<noteq> [] \<Longrightarrow> chain = Some (hd (filter (\<lambda>a. idx a = i) xs))"
    using ok [OF ilt, unfolded i(2) bucket_ok_def fst_conv snd_conv] by blast+
  have hx: "h' x = h x" using un(2) [of x] dist by auto
  have nxt: "e_next (h x) = (if bs = [] then None else Some (hd bs))"
  proof -
    obtain l where "seg h (e_next (h x)) (Some x) bs None l"
      using d(1) unfolding xs by (auto simp: dll_def seg_append)
    then show ?thesis by (rule seg_first)
  qed
  have "bucket_ok (\<lambda>a. idx a = j) (as @ bs) (B[i := (cnt - 1, chain')] ! j)" if "j < length B" for j
  proof (cases "j = i")
    case False
    then have "filter (\<lambda>a. idx a = j) (as @ bs) = filter (\<lambda>a. idx a = j) xs" using i(1) xs by simp
    then show ?thesis using ok [OF that] False contig_remove [of "\<lambda>a. idx a = j" as x bs]
      by (simp add: bucket_ok_def xs)
  next
    case True
    let ?P = "\<lambda>a. idx a = i"
    have f: "filter ?P xs = filter ?P as @ x # filter ?P bs" using i(1) xs by simp
    have "chain' = Some (hd (filter ?P (as @ bs)))" if ne: "filter ?P (as @ bs) \<noteq> []"
    proof -
      have "cnt = Suc (length (filter ?P (as @ bs)))" using bi(2) unfolding f by simp
      then have cnt: "cnt \<noteq> 1" using ne by (simp del: filter_append)
      then have c': "chain' = (if chain = Some x then e_next (h x) else chain)" using c hx by simp
      have ch: "chain = Some (hd (filter ?P as @ [x]))" using bi(3) f by (cases "filter ?P as") auto
      show ?thesis
      proof (cases "filter ?P as")
        case (Cons y ys)
        then have "y \<in> set as" by (metis filter_eq_ConsD in_set_conv_decomp)
        then have "y \<noteq> x" using dist by auto
        then show ?thesis using c' ch Cons by simp
      next
        case Nil
        obtain us ws where s: "xs = us @ filter ?P xs @ ws" "\<forall>a\<in>set us. \<not> ?P a" "\<forall>a\<in>set ws. \<not> ?P a"
          using contig_filter [OF bi(1)] by blast
        have "contig ?P (x # bs)"
        proof -
          have "\<forall>a\<in>set as. \<not> ?P a" using Nil by (simp add: filter_empty_conv)
          then have "contig ?P (as @ x # bs) \<longrightarrow> contig ?P (x # bs)"
            by (induction as) (auto simp: contig_Cons_not)
          then show ?thesis using bi(1) xs by simp
        qed
        then have "bs = [] \<or> ?P (hd bs) \<or> (\<forall>y\<in>set bs. \<not> ?P y)" using i(1) by (simp add: contig_Cons)
        moreover have "filter ?P bs \<noteq> []" using ne Nil by simp
        ultimately have "bs \<noteq> []" "?P (hd bs)" by (auto simp: filter_empty_conv)
        then show ?thesis using c' ch Nil nxt by (cases bs) auto
      qed
    qed
    moreover have "cnt - 1 = length (filter ?P (as @ bs))" using bi(2) f by simp
    moreover have "contig ?P (as @ bs)" using bi(1) contig_remove unfolding xs by metis
    ultimately show ?thesis using True ilt by (simp add: bucket_ok_def)
  qed
  then have "buckets_ok idx (as @ bs) (B[i := (cnt - 1, chain')])"
    using B xs by (auto simp: buckets_ok_def)
  then show ?thesis using xs un by blast
qed

text \<open>The segment a bucket points to.\<close>

lemma bucket_seg:
  assumes d: "dll h first xs" and B: "buckets_ok idx xs B" and i: "i < length B" "B ! i = (cnt, chain)"
  shows "cnt = length (filter (\<lambda>a. idx a = i) xs) \<and>
    (filter (\<lambda>a. idx a = i) xs \<noteq> [] \<longrightarrow>
       (\<exists>prev q l. seg h chain prev (filter (\<lambda>a. idx a = i) xs) q l))"
proof -
  let ?P = "\<lambda>a. idx a = i"
  have bi: "contig ?P xs" "cnt = length (filter ?P xs)" "filter ?P xs \<noteq> [] \<Longrightarrow> chain = Some (hd (filter ?P xs))"
    using B [unfolded buckets_ok_def, THEN conjunct2, rule_format, OF i(1), unfolded i(2) bucket_ok_def fst_conv snd_conv]
    by blast+
  define vs where "vs = filter ?P xs"
  obtain us ws where s: "xs = us @ vs @ ws" using contig_filter_ex [OF bi(1)] unfolding vs_def by iprover
  obtain l where "seg h first None xs None l" using d by (auto simp: dll_def)
  then obtain p m q k where sg: "seg h p m vs q k" unfolding s seg_append by blast
  have "p = chain" if "vs \<noteq> []" using seg_first [OF sg] bi(3) that by (simp add: vs_def)
  then have "vs \<noteq> [] \<longrightarrow> (\<exists>prev q l. seg h chain prev vs q l)" using sg by metis
  with bi(2) show ?thesis unfolding vs_def by simp
qed

end
