(* ===== verification/Dictionary.thy ===== *)
theory Dictionary
  imports Prelude
begin

text \<open>
  What the two hash tables of the engine promise their clients: a map from keys, up to a notion
  of sameness, to data. Storing null data deletes; storing returns the data that was there.
\<close>

text \<open>A client's updates, one after the other, each with what the allocator gives it then.\<close>

primrec run_updates :: "('m \<Rightarrow> 's \<Rightarrow> 'k \<Rightarrow> 'd option \<Rightarrow> ('d option \<times> 's) option) \<Rightarrow> ('s \<Rightarrow> 'm)
    \<Rightarrow> ('k \<times> 'd option) list \<Rightarrow> 's \<Rightarrow> ('d option list \<times> 's) option" where
  "run_updates upd memory [] s = Some ([], s)"
| "run_updates upd memory (kd # ops) s = do {
     (r, s') \<leftarrow> upd (memory s) s (fst kd) (snd kd);
     (rs, s'') \<leftarrow> run_updates upd memory ops s';
     Some (r # rs, s'') }"

text \<open>The same updates on the map: what each returns, and the map left.\<close>

primrec map_updates :: "('k \<Rightarrow> 'c) \<Rightarrow> ('k \<times> 'd option) list \<Rightarrow> ('c \<Rightarrow> 'd option) \<Rightarrow> 'd option list \<times> ('c \<Rightarrow> 'd option)" where
  "map_updates canon [] m = ([], m)"
| "map_updates canon (kd # ops) m =
     (let (rs, m') = map_updates canon ops (m(canon (fst kd) := snd kd)) in (m (canon (fst kd)) # rs, m'))"

locale dictionary =
  fixes wf :: "'s \<Rightarrow> bool"
    and content :: "'s \<Rightarrow> 'c \<Rightarrow> 'd option"
    and canon :: "'k \<Rightarrow> 'c"
    and key_ok :: "'k \<Rightarrow> bool"
    and lookup :: "'s \<Rightarrow> 'k \<Rightarrow> 'd option option"
    and update :: "'m \<Rightarrow> 's \<Rightarrow> 'k \<Rightarrow> 'd option \<Rightarrow> ('d option \<times> 's) option"
    and mem_ok :: "'m \<Rightarrow> 's \<Rightarrow> bool"
  assumes lookup: "wf s \<Longrightarrow> key_ok k \<Longrightarrow> lookup s k = Some (content s (canon k))"
    and update: "wf s \<Longrightarrow> key_ok k \<Longrightarrow> mem_ok m s \<Longrightarrow>
      \<exists>s'. update m s k d = Some (content s (canon k), s') \<and> wf s' \<and> content s' = (content s)(canon k := d)"
begin

lemma run:
  assumes "wf s" "\<And>s. wf s \<Longrightarrow> mem_ok (memory s) s" "\<forall>kd\<in>set ops. key_ok (fst kd)"
  shows "\<exists>rs s'. run_updates update memory ops s = Some (rs, s') \<and> wf s' \<and>
    map_updates canon ops (content s) = (rs, content s')"
  using assms(1,3)
proof (induction ops arbitrary: s)
  case Nil
  then show ?case by simp
next
  case (Cons kd ops)
  have k: "key_ok (fst kd)" using Cons.prems(2) by simp
  obtain s1 where s1: "update (memory s) s (fst kd) (snd kd) = Some (content s (canon (fst kd)), s1)"
      "wf s1" "content s1 = (content s)(canon (fst kd) := snd kd)"
    using update [OF Cons.prems(1) k assms(2) [OF Cons.prems(1)], of "snd kd"] by blast
  obtain rs s' where "run_updates update memory ops s1 = Some (rs, s')" "wf s'"
      "map_updates canon ops (content s1) = (rs, content s')"
    using Cons.IH [OF s1(2)] Cons.prems(2) by auto
  then show ?case using s1 by simp
qed

lemma lookup_after_run:
  assumes "wf s" "\<And>s. wf s \<Longrightarrow> mem_ok (memory s) s" "\<forall>kd\<in>set ops. key_ok (fst kd)" "key_ok k"
  shows "\<exists>rs s'. run_updates update memory ops s = Some (rs, s') \<and> fst (map_updates canon ops (content s)) = rs
    \<and> lookup s' k = Some (snd (map_updates canon ops (content s)) (canon k))"
  using run [OF assms(1-3)] lookup [OF _ assms(4)] by fastforce

end

lemma map_updates_last:
  "snd (map_updates canon ops m) c =
     (case find (\<lambda>kd. canon (fst kd) = c) (rev ops) of Some kd \<Rightarrow> snd kd | None \<Rightarrow> m c)"
proof (induction ops arbitrary: m)
  case (Cons kd ops)
  then show ?case by (simp add: split_beta find_append split: option.split)
qed simp

end
