(* ===== verification/HashTable.thy ===== *)
theory HashTable
  imports LinkedList Ctype Dictionary
begin

text \<open>
  The generic hash table of the SQL engine (\<open>Example/Pods/WCDBOptimizedSQLCipher/src/hash.c\<close>,
  \<open>hash.h\<close>): schema objects, collations, functions and the WAL repair all keep their names in
  it. All elements are on one doubly linked list; once the table has ten elements it gets
  buckets, each a count and a pointer to the first of its elements on the list. The state is
  the C structure with the heap its elements live in and a log of the elements freed.
  \<open>sqlite3Malloc\<close> is a parameter: the address of a new element, and for the bucket array the
  size in bytes of the block it got, which may be larger than asked.
\<close>

section \<open>State\<close>

record ('k, 'd) Hash =
  h_htsize :: nat
  h_count :: nat
  h_first :: "nat option"
  h_ht :: "bucket list option"
  h_heap :: "('k, 'd) heap"
  h_freed :: "nat list"

section \<open>Operations\<close>

definition sqlite3HashInit :: "('k, 'd, 'm) Hash_scheme \<Rightarrow> ('k, 'd, 'm) Hash_scheme" where
  "sqlite3HashInit pNew = pNew\<lparr>h_first := None, h_count := 0, h_htsize := 0, h_ht := None\<rparr>"

partial_function (option) free_loop ::
    "nat option \<Rightarrow> ('k, 'd, 'm) Hash_scheme \<Rightarrow> ('k, 'd, 'm) Hash_scheme option" where
  "free_loop elem pH = (case elem of
     None \<Rightarrow> Some pH
   | Some e \<Rightarrow>
       let next_elem = e_next (h_heap pH e)
       in free_loop next_elem (pH\<lparr>h_freed := h_freed pH @ [e]\<rparr>))"

definition sqlite3HashClear :: "('k, 'd, 'm) Hash_scheme \<Rightarrow> ('k, 'd, 'm) Hash_scheme option" where
  "sqlite3HashClear pH = do {
     let elem = h_first pH;
     pH \<leftarrow> free_loop elem (pH\<lparr>h_first := None, h_ht := None, h_htsize := 0\<rparr>);
     Some (pH\<lparr>h_count := 0\<rparr>) }"

fun strHash_loop :: "u32 \<Rightarrow> cstring \<Rightarrow> u32" where
  "strHash_loop h [] = h"
| "strHash_loop h (c # z) =
     (if c = 0 then h else strHash_loop ((h + ucast (UpperToLower c)) * 0x9e3779b1) z)"

definition strHash :: "cstring \<Rightarrow> u32" where
  "strHash z = strHash_loop 0 z"

text \<open>\<open>pEntry\<close> is the index of the bucket, \<open>None\<close> for a null pointer.\<close>

definition insertElement ::
    "('k, 'd, 'm) Hash_scheme \<Rightarrow> nat option \<Rightarrow> nat \<Rightarrow> ('k, 'd, 'm) Hash_scheme" where
  "insertElement pH pEntry pNew =
     (let (pHead, ht) = (case (pEntry, h_ht pH) of
            (Some i, Some B) \<Rightarrow>
              (if fst (B ! i) \<noteq> 0 then snd (B ! i) else None, Some (B[i := (fst (B ! i) + 1, Some pNew)]))
          | _ \<Rightarrow> (None, h_ht pH));
          (first, heap) = link pHead pNew (h_first pH) (h_heap pH)
      in pH\<lparr>h_ht := ht, h_first := first, h_heap := heap\<rparr>)"

text \<open>The loop of \<open>rehash\<close>; \<open>idx\<close> is the bucket of a key.\<close>

partial_function (option) relink_loop ::
    "('k \<Rightarrow> nat) \<Rightarrow> nat option \<Rightarrow> ('k, 'd, 'm) Hash_scheme \<Rightarrow> ('k, 'd, 'm) Hash_scheme option" where
  "relink_loop idx elem pH = (case elem of
     None \<Rightarrow> Some pH
   | Some e \<Rightarrow>
       let h = idx (e_key (h_heap pH e));
           next_elem = e_next (h_heap pH e)
       in relink_loop idx next_elem (insertElement pH (Some h) e))"

definition SQLITE_MALLOC_SOFT_LIMIT :: nat where "SQLITE_MALLOC_SOFT_LIMIT = 1024"

definition sizeof_ht :: nat where "sizeof_ht = 16"

definition rehash :: "(nat \<Rightarrow> nat option) \<Rightarrow> (cstring, 'd, 'm) Hash_scheme \<Rightarrow> nat
    \<Rightarrow> ((cstring, 'd, 'm) Hash_scheme \<times> bool) option" where
  "rehash malloc pH new_size =
     (let new_size = (if new_size * sizeof_ht > SQLITE_MALLOC_SOFT_LIMIT
                      then SQLITE_MALLOC_SOFT_LIMIT div sizeof_ht else new_size)
      in if new_size = h_htsize pH then Some (pH, False)
         else case malloc (new_size * sizeof_ht) of
           None \<Rightarrow> Some (pH, False)
         | Some bytes \<Rightarrow> do {
             let new_size = bytes div sizeof_ht;
             let elem = h_first pH;
             pH \<leftarrow> relink_loop (\<lambda>k. unat (strHash k) mod new_size) elem
                    (pH\<lparr>h_ht := Some (replicate new_size (0, None)), h_htsize := new_size, h_first := None\<rparr>);
             Some (pH, True) })"

text \<open>\<open>None\<close> is the null pointer followed, which the assertion excludes.\<close>

fun find_loop :: "(cstring, 'd) heap \<Rightarrow> cstring \<Rightarrow> nat \<Rightarrow> nat option \<Rightarrow> nat option option" where
  "find_loop h pKey 0 elem = Some None"
| "find_loop h pKey (Suc n) None = None"
| "find_loop h pKey (Suc n) (Some e) =
     (if sqlite3StrICmp (e_key (h e)) pKey = 0 then Some (Some e)
      else find_loop h pKey n (e_next (h e)))"

definition findElementWithHash ::
    "(cstring, 'd, 'm) Hash_scheme \<Rightarrow> cstring \<Rightarrow> (nat option \<times> nat) option" where
  "findElementWithHash pH pKey =
     (case h_ht pH of
        Some B \<Rightarrow>
          let h = unat (strHash pKey) mod h_htsize pH
          in map_option (\<lambda>elem. (elem, h)) (find_loop (h_heap pH) pKey (fst (B ! h)) (snd (B ! h)))
      | None \<Rightarrow> map_option (\<lambda>elem. (elem, 0)) (find_loop (h_heap pH) pKey (h_count pH) (h_first pH)))"

text \<open>The bucket part of the two removal routines: the count goes down, and the chain moves on.\<close>

definition removeElementGivenHash ::
    "('k, 'd, 'm) Hash_scheme \<Rightarrow> nat \<Rightarrow> nat \<Rightarrow> ('k, 'd, 'm) Hash_scheme option" where
  "removeElementGivenHash pH elem h =
     (let (first, heap) = unlink elem (h_first pH) (h_heap pH);
          ht = (case h_ht pH of
              Some B \<Rightarrow>
                let chain = (if snd (B ! h) = Some elem then e_next (heap elem) else snd (B ! h))
                in Some (B[h := (fst (B ! h) - 1, chain)])
            | None \<Rightarrow> None);
          pH = pH\<lparr>h_first := first, h_heap := heap, h_ht := ht, h_freed := h_freed pH @ [elem],
                  h_count := h_count pH - 1\<rparr>
      in if h_count pH = 0 then sqlite3HashClear pH else Some pH)"

definition sqlite3HashFind :: "(cstring, 'd, 'm) Hash_scheme \<Rightarrow> cstring \<Rightarrow> 'd option option" where
  "sqlite3HashFind pH pKey = do {
     (elem, h) \<leftarrow> findElementWithHash pH pKey;
     Some (map_option (\<lambda>e. e_data (h_heap pH e)) elem) }"

definition set_entry :: "nat \<Rightarrow> 'k \<Rightarrow> 'd \<Rightarrow> ('k, 'd) heap \<Rightarrow> ('k, 'd) heap" where
  "set_entry a k d h = h(a := (h a)\<lparr>e_key := k, e_data := d\<rparr>)"

text \<open>
  \<open>new_elem\<close> is the address \<open>sqlite3Malloc\<close> gives for a new element, \<open>malloc\<close> what it gives for
  the buckets. The result is the returned pointer and the table; null data is \<open>None\<close>.
\<close>

definition sqlite3HashInsert :: "(nat \<Rightarrow> nat option) \<Rightarrow> nat option \<Rightarrow> (cstring, 'd, 'm) Hash_scheme
    \<Rightarrow> cstring \<Rightarrow> 'd option \<Rightarrow> ('d option \<times> (cstring, 'd, 'm) Hash_scheme) option" where
  "sqlite3HashInsert malloc new_elem pH pKey data = do {
     (elem, h) \<leftarrow> findElementWithHash pH pKey;
     case elem of
       Some e \<Rightarrow>
         let old_data = e_data (h_heap pH e)
         in (case data of
               None \<Rightarrow> map_option (\<lambda>pH. (Some old_data, pH)) (removeElementGivenHash pH e h)
             | Some d \<Rightarrow> Some (Some old_data, pH\<lparr>h_heap := set_entry e pKey d (h_heap pH)\<rparr>))
     | None \<Rightarrow>
         (case (data, new_elem) of
            (None, _) \<Rightarrow> Some (None, pH)
          | (Some d, None) \<Rightarrow> Some (Some d, pH)
          | (Some d, Some a) \<Rightarrow> do {
              let pH = pH\<lparr>h_heap := set_entry a pKey d (h_heap pH), h_count := h_count pH + 1\<rparr>;
              (pH, h) \<leftarrow> (if h_count pH \<ge> 10 \<and> h_count pH > 2 * h_htsize pH then do {
                  (pH, resized) \<leftarrow> rehash malloc pH (h_count pH * 2);
                  Some (pH, if resized then unat (strHash pKey) mod h_htsize pH else h) }
                else Some (pH, h));
              Some (None, insertElement pH (if h_ht pH = None then None else Some h) a) }) }"

section \<open>Well-formed tables\<close>

text \<open>
  \<open>xs\<close> is the list of the elements. \<open>canon\<close> makes keys equal that the table takes for the
  same, and \<open>idx n\<close> is the bucket of a key in a table of \<open>n\<close> buckets.
\<close>

definition keys_ok :: "('k \<Rightarrow> bool) \<Rightarrow> ('k \<Rightarrow> 'c) \<Rightarrow> ('k, 'd) heap \<Rightarrow> nat list \<Rightarrow> bool" where
  "keys_ok kok canon h xs \<longleftrightarrow>
     (\<forall>a\<in>set xs. kok (e_key (h a))) \<and> distinct (map (\<lambda>a. canon (e_key (h a))) xs)"

definition struct_ok :: "(nat \<Rightarrow> 'k \<Rightarrow> nat) \<Rightarrow> ('k, 'd, 'm) Hash_scheme \<Rightarrow> nat list \<Rightarrow> bool" where
  "struct_ok idx pH xs \<longleftrightarrow> dll (h_heap pH) (h_first pH) xs \<and>
     (case h_ht pH of
        None \<Rightarrow> h_htsize pH = 0
      | Some B \<Rightarrow> h_htsize pH = length B \<and> B \<noteq> [] \<and>
          buckets_ok (\<lambda>a. idx (length B) (e_key (h_heap pH a))) xs B)"

definition table_ok :: "('k \<Rightarrow> bool) \<Rightarrow> ('k \<Rightarrow> 'c) \<Rightarrow> (nat \<Rightarrow> 'k \<Rightarrow> nat) \<Rightarrow> ('k, 'd, 'm) Hash_scheme
    \<Rightarrow> nat list \<Rightarrow> bool" where
  "table_ok kok canon idx pH xs \<longleftrightarrow>
     struct_ok idx pH xs \<and> h_count pH = length xs \<and> keys_ok kok canon (h_heap pH) xs"

text \<open>The elements of a table, by walking its list.\<close>

primrec walk :: "('k, 'd) heap \<Rightarrow> nat \<Rightarrow> nat option \<Rightarrow> nat list" where
  "walk h 0 p = []"
| "walk h (Suc n) p = (case p of None \<Rightarrow> [] | Some a \<Rightarrow> a # walk h n (e_next (h a)))"

definition elements :: "('k, 'd, 'm) Hash_scheme \<Rightarrow> nat list" where
  "elements pH = walk (h_heap pH) (h_count pH) (h_first pH)"

lemma walk_seg: "seg h p prev xs q l \<Longrightarrow> walk h (length xs) p = xs"
  by (induction xs arbitrary: p prev) auto

lemma table_ok_elements: "table_ok kok canon idx pH xs \<Longrightarrow> elements pH = xs"
  by (auto simp: table_ok_def struct_ok_def dll_def elements_def walk_seg)

text \<open>The map a table stands for.\<close>

definition table_map :: "('k \<Rightarrow> 'c) \<Rightarrow> ('k, 'd) heap \<Rightarrow> nat list \<Rightarrow> 'c \<Rightarrow> 'd option" where
  "table_map canon h xs = map_of (map (\<lambda>a. (canon (e_key (h a)), e_data (h a))) xs)"

lemma distinct_keys: "keys_ok kok canon h xs \<Longrightarrow> distinct xs"
  by (auto simp: keys_ok_def distinct_map)

lemma keys_inj: "keys_ok kok canon h xs \<Longrightarrow> a \<in> set xs \<Longrightarrow> b \<in> set xs \<Longrightarrow>
    canon (e_key (h a)) = canon (e_key (h b)) \<Longrightarrow> a = b"
  by (auto simp: keys_ok_def distinct_map inj_on_def)

lemma table_map_Some:
  assumes "keys_ok kok canon h xs"
  shows "table_map canon h xs c = Some d \<longleftrightarrow> (\<exists>a\<in>set xs. canon (e_key (h a)) = c \<and> e_data (h a) = d)"
proof -
  have "distinct (map fst (map (\<lambda>a. (canon (e_key (h a)), e_data (h a))) xs))"
    using assms by (simp add: keys_ok_def comp_def)
  then show ?thesis unfolding table_map_def by (subst map_of_eq_Some_iff) (auto simp: image_iff)
qed

lemma table_map_None: "table_map canon h xs c = None \<longleftrightarrow> (\<forall>a\<in>set xs. canon (e_key (h a)) \<noteq> c)"
  by (auto simp: table_map_def map_of_eq_None_iff image_iff)

text \<open>Only the elements and what they hold matter, not their order or their pointers.\<close>

lemma keys_ok_cong:
  assumes "keys_ok kok canon h xs" "set xs' = set xs" "length xs' = length xs"
    and "\<forall>a\<in>set xs. e_key (h' a) = e_key (h a)"
  shows "keys_ok kok canon h' xs'"
proof -
  have "distinct xs" by (rule distinct_keys [OF assms(1)])
  then have "distinct xs'" using assms(2,3) by (metis card_distinct distinct_card)
  then show ?thesis using assms by (auto simp: keys_ok_def distinct_map inj_on_def)
qed

lemma table_map_cong:
  assumes "keys_ok kok canon h xs" "set xs' = set xs" "length xs' = length xs"
    and same: "\<forall>a\<in>set xs. e_key (h' a) = e_key (h a) \<and> e_data (h' a) = e_data (h a)"
  shows "table_map canon h' xs' = table_map canon h xs"
proof
  fix c
  have k: "keys_ok kok canon h' xs'" by (rule keys_ok_cong [OF assms(1-3)]) (use same in blast)
  show "table_map canon h' xs' c = table_map canon h xs c"
  proof (cases "table_map canon h xs c")
    case None
    then have "table_map canon h' xs' c = None" using same assms(2) by (simp add: table_map_None)
    then show ?thesis using None by simp
  next
    case (Some d)
    then obtain a where "a \<in> set xs" "canon (e_key (h a)) = c" "e_data (h a) = d"
      unfolding table_map_Some [OF assms(1)] by blast
    then have "table_map canon h' xs' c = Some d"
      unfolding table_map_Some [OF k] using same assms(2) by auto
    then show ?thesis using Some by simp
  qed
qed

section \<open>Linking into a table\<close>

lemma insertElement_frame:
  "h_count (insertElement pH e a) = h_count pH" "h_htsize (insertElement pH e a) = h_htsize pH"
  "h_freed (insertElement pH e a) = h_freed pH" "Hash.more (insertElement pH e a) = Hash.more pH"
  by (simp_all add: insertElement_def split: prod.splits option.splits)

lemma insertElement_content: "same_content (h_heap pH) (h_heap (insertElement pH e a))"
proof -
  have "same_content (h_heap pH) (snd (link pHead a (h_first pH) (h_heap pH)))" for pHead
    by (rule link_content [of pHead a "h_first pH" _ "fst (link pHead a (h_first pH) (h_heap pH))"]) simp
  then show ?thesis by (simp add: insertElement_def split_beta)
qed

lemma insertElement_bucket:
  assumes d: "dll (h_heap pH) (h_first pH) xs" "new \<notin> set xs" and ht: "h_ht pH = Some B"
    and B: "buckets_ok idx xs B" "idx new < length B"
  shows "\<exists>xs' B'. dll (h_heap (insertElement pH (Some (idx new)) new)) (h_first (insertElement pH (Some (idx new)) new)) xs'
    \<and> set xs' = insert new (set xs) \<and> length xs' = Suc (length xs)
    \<and> h_ht (insertElement pH (Some (idx new)) new) = Some B' \<and> length B' = length B \<and> buckets_ok idx xs' B'
    \<and> (\<forall>a. a \<notin> set (new # xs) \<longrightarrow> h_heap (insertElement pH (Some (idx new)) new) a = h_heap pH a)"
proof -
  obtain cnt chain where b: "B ! idx new = (cnt, chain)" by fastforce
  obtain first heap where l: "link (if cnt \<noteq> 0 then chain else None) new (h_first pH) (h_heap pH) = (first, heap)"
    by fastforce
  have "insertElement pH (Some (idx new)) new =
      pH\<lparr>h_ht := Some (B[idx new := (cnt + 1, Some new)]), h_first := first, h_heap := heap\<rparr>"
    using l by (simp add: insertElement_def ht b split: if_splits)
  then show ?thesis using link_bucket [OF d B(1) refl B(2) b l] by auto
qed

lemma insertElement_plain:
  assumes "dll (h_heap pH) (h_first pH) xs" "new \<notin> set xs" "h_ht pH = None"
  shows "dll (h_heap (insertElement pH None new)) (h_first (insertElement pH None new)) (new # xs)"
    and "h_ht (insertElement pH None new) = None"
proof -
  obtain first heap where l: "link None new (h_first pH) (h_heap pH) = (first, heap)" by fastforce
  then have *: "insertElement pH None new = pH\<lparr>h_first := first, h_heap := heap\<rparr>"
    using assms(3) by (simp add: insertElement_def)
  show "dll (h_heap (insertElement pH None new)) (h_first (insertElement pH None new)) (new # xs)"
    using link_front(1) [OF assms(1,2) l] by (simp add: *)
  show "h_ht (insertElement pH None new) = None" using assms(3) by (simp add: *)
qed

text \<open>The elements still to be moved, by their \<open>next\<close> pointers.\<close>

fun nexts :: "('k, 'd) heap \<Rightarrow> nat option \<Rightarrow> nat list \<Rightarrow> bool" where
  "nexts h p [] \<longleftrightarrow> p = None"
| "nexts h p (a # as) \<longleftrightarrow> p = Some a \<and> nexts h (e_next (h a)) as"

lemma nexts_cong: "(\<And>a. a \<in> set xs \<Longrightarrow> h a = h' a) \<Longrightarrow> nexts h p xs = nexts h' p xs"
  by (induction xs arbitrary: p) auto

lemma seg_nexts: "seg h p prev xs None l \<Longrightarrow> nexts h p xs"
  by (induction xs arbitrary: p prev) auto

lemma dll_nexts: "dll h first xs \<Longrightarrow> nexts h first xs"
  by (auto simp: dll_def intro: seg_nexts)

lemma dll_Nil [simp]: "dll h None []" "dll h first [] \<longleftrightarrow> first = None"
  by (auto simp: dll_def)

lemma relink:
  assumes "nexts (h_heap pH) p rs" "distinct (ys @ rs)" "dll (h_heap pH) (h_first pH) ys"
    and "h_ht pH = Some B" "buckets_ok (\<lambda>a. idx (e_key (h_heap pH a))) ys B" "\<And>k. idx k < length B"
  shows "\<exists>pH' zs B'. relink_loop idx p pH = Some pH' \<and> dll (h_heap pH') (h_first pH') zs
    \<and> set zs = set (ys @ rs) \<and> length zs = length (ys @ rs) \<and> h_ht pH' = Some B' \<and> length B' = length B
    \<and> buckets_ok (\<lambda>a. idx (e_key (h_heap pH' a))) zs B' \<and> same_content (h_heap pH) (h_heap pH')
    \<and> (\<forall>a. a \<notin> set (ys @ rs) \<longrightarrow> h_heap pH' a = h_heap pH a)
    \<and> pH' = pH\<lparr>h_first := h_first pH', h_ht := h_ht pH', h_heap := h_heap pH'\<rparr>"
  using assms
proof (induction rs arbitrary: p pH ys B)
  case Nil
  then show ?case by (subst relink_loop.simps) (auto intro!: exI [of _ ys])
next
  case (Cons e rs)
  let ?i = "idx (e_key (h_heap pH e))"
  let ?pH = "insertElement pH (Some ?i) e"
  have p: "p = Some e" "nexts (h_heap pH) (e_next (h_heap pH e)) rs" using Cons.prems(1) by simp_all
  have step: "relink_loop idx p pH = relink_loop idx (e_next (h_heap pH e)) ?pH"
    by (subst relink_loop.simps) (simp add: p(1))
  have e: "e \<notin> set ys" "e \<notin> set rs" "set ys \<inter> set rs = {}" "distinct rs" "distinct ys" using Cons.prems(2) by auto
  obtain ys' B' where i: "dll (h_heap ?pH) (h_first ?pH) ys'" "set ys' = insert e (set ys)"
      "length ys' = Suc (length ys)" "h_ht ?pH = Some B'" "length B' = length B"
      "buckets_ok (\<lambda>a. idx (e_key (h_heap pH a))) ys' B'"
      "\<forall>a. a \<notin> set (e # ys) \<longrightarrow> h_heap ?pH a = h_heap pH a"
    using insertElement_bucket [OF Cons.prems(3) e(1) Cons.prems(4,5)] Cons.prems(6) by blast
  have keys: "e_key (h_heap ?pH a) = e_key (h_heap pH a)" for a
    using insertElement_content [of pH "Some ?i" e] by (simp add: same_content_def)
  have n: "nexts (h_heap ?pH) (e_next (h_heap pH e)) rs"
    using p(2) i(7) e by (subst nexts_cong [of _ _ "h_heap pH"]) auto
  have d: "distinct (ys' @ rs)" using i(1,2) e by (auto simp: dll_def)
  have b: "buckets_ok (\<lambda>a. idx (e_key (h_heap ?pH a))) ys' B'" using i(6) by (simp add: keys)
  have r: "idx k < length B'" for k using Cons.prems(6) i(5) by simp
  obtain pH' zs B'' where r: "relink_loop idx (e_next (h_heap pH e)) ?pH = Some pH'"
      "dll (h_heap pH') (h_first pH') zs" "set zs = set (ys' @ rs)" "length zs = length (ys' @ rs)"
      "h_ht pH' = Some B''" "length B'' = length B'" "buckets_ok (\<lambda>a. idx (e_key (h_heap pH' a))) zs B''"
      "same_content (h_heap ?pH) (h_heap pH')" "\<forall>a. a \<notin> set (ys' @ rs) \<longrightarrow> h_heap pH' a = h_heap ?pH a"
      "pH' = ?pH\<lparr>h_first := h_first pH', h_ht := h_ht pH', h_heap := h_heap pH'\<rparr>"
    using Cons.IH [OF n d i(1) i(4) b r] by metis
  have "pH' = pH\<lparr>h_first := h_first pH', h_ht := h_ht pH', h_heap := h_heap pH'\<rparr>"
    using r(10) insertElement_frame [of pH "Some ?i" e] by (cases pH', cases pH) simp
  moreover have "same_content (h_heap pH) (h_heap pH')"
    using same_content_trans [OF insertElement_content r(8)] .
  ultimately show ?case
    unfolding step using r i by (intro exI [of _ pH'] exI [of _ zs] exI [of _ B'']) auto
qed

section \<open>The operations on well-formed tables\<close>

lemma free_loop_nexts:
  "nexts (h_heap pH) p rs \<Longrightarrow> free_loop p pH = Some (pH\<lparr>h_freed := h_freed pH @ rs\<rparr>)"
proof (induction rs arbitrary: p pH)
  case Nil
  then show ?case by (subst free_loop.simps) simp
next
  case (Cons a rs)
  then show ?case by (subst free_loop.simps) simp
qed

lemma table_ok_empty: "h_first pH = None \<Longrightarrow> h_count pH = 0 \<Longrightarrow> h_htsize pH = 0 \<Longrightarrow> h_ht pH = None
    \<Longrightarrow> table_ok kok canon idx pH []"
  by (simp add: table_ok_def struct_ok_def keys_ok_def)

lemma clear_table:
  assumes "struct_ok idx pH xs"
  shows "\<exists>pH'. sqlite3HashClear pH = Some pH' \<and> table_ok kok canon idx' pH' [] \<and> h_freed pH' = h_freed pH @ xs
    \<and> h_heap pH' = h_heap pH \<and> Hash.more pH' = Hash.more pH"
proof -
  have "nexts (h_heap pH) (h_first pH) xs" using assms by (simp add: struct_ok_def dll_nexts)
  then show ?thesis by (simp add: sqlite3HashClear_def free_loop_nexts table_ok_empty)
qed

lemma struct_ok_set_entry:
  assumes "struct_ok idx pH xs" "a \<notin> set xs \<or> idx (h_htsize pH) k = idx (h_htsize pH) (e_key (h_heap pH a))"
  shows "struct_ok idx (pH\<lparr>h_heap := set_entry a k d (h_heap pH), h_count := n\<rparr>) xs"
proof -
  have "seg (set_entry a k d (h_heap pH)) p prev ys q l = seg (h_heap pH) p prev ys q l" for p prev ys q l
    by (induction ys arbitrary: p prev) (auto simp: set_entry_def)
  then have d: "dll (set_entry a k d (h_heap pH)) (h_first pH) xs" using assms(1) by (simp add: struct_ok_def dll_def)
  have i: "idx (h_htsize pH) (e_key (set_entry a k d (h_heap pH) b)) = idx (h_htsize pH) (e_key (h_heap pH b))"
    if "b \<in> set xs" for b
    using assms(2) that by (auto simp: set_entry_def)
  have "buckets_ok (\<lambda>a'. idx (length B) (e_key (set_entry a k d (h_heap pH) a'))) xs B"
    if "h_ht pH = Some B" for B
  proof -
    have *: "h_htsize pH = length B" "buckets_ok (\<lambda>a. idx (length B) (e_key (h_heap pH a))) xs B"
      using assms(1) that by (simp_all add: struct_ok_def)
    show ?thesis by (rule buckets_ok_cong [OF _ *(2)]) (use i *(1) in simp)
  qed
  then show ?thesis using d assms(1) by (auto simp: struct_ok_def split: option.splits)
qed

lemma unlink_table:
  assumes s: "struct_ok idx pH xs" "keys_ok kok canon (h_heap pH) xs" and x: "x \<in> set xs"
    and h: "h_ht pH \<noteq> None \<Longrightarrow> h = idx (h_htsize pH) (e_key (h_heap pH x))"
    and u: "unlink x (h_first pH) (h_heap pH) = (first, heap)"
    and c: "\<And>B. h_ht pH = Some B \<Longrightarrow> chain B = (if snd (B ! h) = Some x then e_next (heap x) else snd (B ! h))
      \<or> (fst (B ! h) = 1 \<and> chain B = None)"
    and pH1: "pH1 = pH\<lparr>h_first := first, h_heap := heap,
      h_ht := map_option (\<lambda>B. B[h := (fst (B ! h) - 1, chain B)]) (h_ht pH),
      h_freed := h_freed pH @ [x], h_count := n\<rparr>"
  shows "\<exists>xs'. struct_ok idx pH1 xs' \<and> keys_ok kok canon heap xs' \<and> set xs' = set xs - {x} \<and>
    Suc (length xs') = length xs \<and> same_content (h_heap pH) heap"
proof -
  have d: "dll (h_heap pH) (h_first pH) xs" using s(1) by (simp add: struct_ok_def)
  have same: "same_content (h_heap pH) heap" by (rule unlink_content [OF u])
  have "\<exists>as bs. xs = as @ x # bs \<and> struct_ok idx pH1 (as @ bs)"
  proof (cases "h_ht pH")
    case None
    obtain as bs where xs: "xs = as @ x # bs" using x by (meson split_list)
    have "dll heap first (as @ bs)" using d unfolding xs by (rule unlink_dll(1) [OF _ u])
    then show ?thesis using xs None s(1) by (auto simp: struct_ok_def pH1)
  next
    case (Some B)
    have B: "h_htsize pH = length B" "B \<noteq> []" "buckets_ok (\<lambda>a. idx (length B) (e_key (h_heap pH a))) xs B"
      using s(1) Some by (simp_all add: struct_ok_def)
    have hx: "idx (length B) (e_key (h_heap pH x)) = h" using h Some B(1) by simp
    obtain cnt ch where b: "B ! h = (cnt, ch)" by fastforce
    have c': "chain B = (if ch = Some x then e_next (heap x) else ch) \<or> (cnt = 1 \<and> chain B = None)"
      using c [OF Some] unfolding b fst_conv snd_conv .
    obtain as bs where ab: "xs = as @ x # bs" "dll heap first (as @ bs)"
        "buckets_ok (\<lambda>a. idx (length B) (e_key (h_heap pH a))) (as @ bs) (B[h := (cnt - 1, chain B)])"
      using unlink_bucket [OF d x B(3) hx b u c'] by blast
    have "buckets_ok (\<lambda>a. idx (length B) (e_key (heap a))) (as @ bs) (B[h := (cnt - 1, chain B)])"
      by (rule buckets_ok_cong [OF _ ab(3)]) (use same in \<open>simp add: same_content_def\<close>)
    then have "struct_ok idx pH1 (as @ bs)" using ab(2) B(1,2) by (simp add: struct_ok_def pH1 Some b)
    then show ?thesis using ab(1) by blast
  qed
  then obtain as bs where ab: "xs = as @ x # bs" "struct_ok idx pH1 (as @ bs)" by blast
  have "keys_ok kok canon (h_heap pH) (as @ bs)" using s(2) by (simp add: keys_ok_def ab(1))
  then have k: "keys_ok kok canon heap (as @ bs)"
    by (rule keys_ok_cong) (use same in \<open>simp_all add: same_content_def\<close>)
  have "set (as @ bs) = set xs - {x}" using distinct_keys [OF s(2)] ab(1) by auto
  moreover have "Suc (length (as @ bs)) = length xs" by (simp add: ab(1))
  ultimately show ?thesis using same ab(2) k by blast
qed

lemma remove_table:
  assumes t: "table_ok kok canon idx pH xs" and x: "x \<in> set xs"
    and h: "h_ht pH \<noteq> None \<Longrightarrow> h = idx (h_htsize pH) (e_key (h_heap pH x))"
  shows "\<exists>pH' xs'. removeElementGivenHash pH x h = Some pH' \<and> table_ok kok canon idx pH' xs'
    \<and> set xs' = set xs - {x} \<and> h_freed pH' = h_freed pH @ [x] \<and> same_content (h_heap pH) (h_heap pH')"
proof -
  obtain first heap where u: "unlink x (h_first pH) (h_heap pH) = (first, heap)" by fastforce
  let ?chain = "\<lambda>B. if snd (B ! h) = Some x then e_next (heap x) else snd (B ! h)"
  define pH1 where "pH1 = pH\<lparr>h_first := first, h_heap := heap,
      h_ht := map_option (\<lambda>B. B[h := (fst (B ! h) - 1, ?chain B)]) (h_ht pH),
      h_freed := h_freed pH @ [x], h_count := h_count pH - 1\<rparr>"
  have r: "removeElementGivenHash pH x h = (if h_count pH1 = 0 then sqlite3HashClear pH1 else Some pH1)"
    by (cases "h_ht pH") (simp_all add: removeElementGivenHash_def u pH1_def Let_def)
  have s: "struct_ok idx pH xs" "keys_ok kok canon (h_heap pH) xs" "h_count pH = length xs"
    using t by (simp_all add: table_ok_def)
  obtain xs' where x': "struct_ok idx pH1 xs'" "keys_ok kok canon heap xs'" "set xs' = set xs - {x}"
      "Suc (length xs') = length xs" "same_content (h_heap pH) heap"
    using unlink_table [OF s(1,2) x h u disjI1 [OF refl] pH1_def] by blast
  have t': "table_ok kok canon idx pH1 xs'" using x' s(3) by (simp add: table_ok_def pH1_def)
  show ?thesis
  proof (cases "h_count pH1 = 0")
    case False
    then show ?thesis using r x' t' by (intro exI [of _ pH1] exI [of _ xs']) (simp add: pH1_def)
  next
    case True
    then have e: "xs' = []" "struct_ok idx pH1 xs'" using t' by (auto simp: table_ok_def)
    obtain pH' where "sqlite3HashClear pH1 = Some pH'" "table_ok kok canon idx pH' []"
        "h_freed pH' = h_freed pH1 @ xs'" "h_heap pH' = h_heap pH1"
      using clear_table [OF e(2)] by blast
    then show ?thesis using r x' True e(1) by (intro exI [of _ pH'] exI [of _ "[]"]) (simp add: pH1_def)
  qed
qed

section \<open>Finding\<close>

definition hash_idx :: "nat \<Rightarrow> cstring \<Rightarrow> nat" where
  "hash_idx n k = unat (strHash k) mod n"

lemma hash_idx_less: "0 < n \<Longrightarrow> hash_idx n k < n"
  by (simp add: hash_idx_def)

definition hash_wf :: "(cstring, 'd, 'm) Hash_scheme \<Rightarrow> bool" where
  "hash_wf pH \<longleftrightarrow> table_ok proper fold_case hash_idx pH (elements pH)"

definition hash_map :: "(cstring, 'd, 'm) Hash_scheme \<Rightarrow> cstring \<Rightarrow> 'd option" where
  "hash_map pH = table_map fold_case (h_heap pH) (elements pH)"

lemma strHash_loop_fold: "proper z \<Longrightarrow> proper z' \<Longrightarrow> fold_case z = fold_case z' \<Longrightarrow> strHash_loop h z = strHash_loop h z'"
proof (induction z arbitrary: z' h)
  case Nil
  then show ?case by (simp add: fold_case_def)
next
  case (Cons c z)
  then obtain c' y where z': "z' = c' # y" by (cases z') auto
  then show ?case using Cons by simp
qed

lemma strHash_fold: "proper z \<Longrightarrow> proper z' \<Longrightarrow> fold_case z = fold_case z' \<Longrightarrow> hash_idx n z = hash_idx n z'"
  by (simp add: hash_idx_def strHash_def strHash_loop_fold [of z z'])

lemma find_loop_seg: "seg h p prev xs q l \<Longrightarrow>
    find_loop h k (length xs) p = Some (find (\<lambda>a. sqlite3StrICmp (e_key (h a)) k = 0) xs)"
  by (induction xs arbitrary: p prev) auto

lemma findElement_table:
  assumes t: "table_ok proper fold_case hash_idx pH xs" and k: "proper k"
  shows "\<exists>e i. findElementWithHash pH k = Some (e, i)
    \<and> (h_ht pH \<noteq> None \<longrightarrow> i = hash_idx (h_htsize pH) k)
    \<and> (case e of None \<Rightarrow> \<forall>a\<in>set xs. fold_case (e_key (h_heap pH a)) \<noteq> fold_case k
       | Some a \<Rightarrow> a \<in> set xs \<and> fold_case (e_key (h_heap pH a)) = fold_case k)"
proof -
  let ?Q = "\<lambda>a. sqlite3StrICmp (e_key (h_heap pH a)) k = 0"
  have s: "struct_ok hash_idx pH xs" "h_count pH = length xs" "\<forall>a\<in>set xs. proper (e_key (h_heap pH a))"
    using t by (simp_all add: table_ok_def keys_ok_def)
  have d: "dll (h_heap pH) (h_first pH) xs" using s(1) by (simp add: struct_ok_def)
  have Q: "?Q a \<longleftrightarrow> fold_case (e_key (h_heap pH a)) = fold_case k" if "a \<in> set xs" for a
    using s(3) k that by (simp add: StrICmp_eq_0)
  show ?thesis
  proof (cases "h_ht pH")
    case None
    have "find_loop (h_heap pH) k (h_count pH) (h_first pH) = Some (find ?Q xs)"
      using d unfolding s(2) dll_def by (blast intro: find_loop_seg)
    then show ?thesis using None Q by (auto simp: findElementWithHash_def find_eq_None split: option.splits dest: find_SomeD)
  next
    case (Some B)
    have B: "h_htsize pH = length B" "B \<noteq> []" "buckets_ok (\<lambda>a. hash_idx (length B) (e_key (h_heap pH a))) xs B"
      using s(1) Some by (simp_all add: struct_ok_def)
    define i where "i = hash_idx (length B) k"
    define vs where "vs = filter (\<lambda>a. hash_idx (length B) (e_key (h_heap pH a)) = i) xs"
    obtain cnt chain where b: "B ! i = (cnt, chain)" by fastforce
    have il: "i < length B" using B(2) by (simp add: i_def hash_idx_def)
    have seg: "cnt = length vs \<and> (vs \<noteq> [] \<longrightarrow> (\<exists>prev q l. seg (h_heap pH) chain prev vs q l))"
      using bucket_seg [OF d B(3) il b] unfolding vs_def by simp
    then have f: "find_loop (h_heap pH) k cnt chain = Some (find ?Q vs)"
    proof (cases "vs = []")
      case False
      then show ?thesis using seg find_loop_seg by metis
    qed simp
    have vs: "a \<in> set vs \<longleftrightarrow> a \<in> set xs" if "fold_case (e_key (h_heap pH a)) = fold_case k" for a
      using that strHash_fold [OF _ k that] s(3) by (auto simp: vs_def i_def)
    have "set vs \<subseteq> set xs" by (auto simp: vs_def)
    then have "case find ?Q vs of None \<Rightarrow> \<forall>a\<in>set xs. fold_case (e_key (h_heap pH a)) \<noteq> fold_case k
       | Some a \<Rightarrow> a \<in> set xs \<and> fold_case (e_key (h_heap pH a)) = fold_case k"
      using vs Q by (auto simp: find_eq_None split: option.splits dest: find_SomeD)
    moreover have "findElementWithHash pH k = Some (find ?Q vs, i)"
      using f b by (simp add: findElementWithHash_def Some B(1) i_def hash_idx_def)
    ultimately show ?thesis using B(1) by (simp add: i_def)
  qed
qed

section \<open>Inserting\<close>

text \<open>What the allocator of the bucket array promises: at least what was asked.\<close>

definition malloc_ok :: "(nat \<Rightarrow> nat option) \<Rightarrow> bool" where
  "malloc_ok malloc \<longleftrightarrow> (\<forall>n m. malloc n = Some m \<longrightarrow> n \<le> m)"

lemma rehash_table:
  assumes s: "struct_ok hash_idx pH xs" and m: "malloc_ok malloc" and n: "0 < n"
  shows "\<exists>pH' b xs'. rehash malloc pH n = Some (pH', b) \<and> struct_ok hash_idx pH' xs' \<and> set xs' = set xs
    \<and> length xs' = length xs \<and> same_content (h_heap pH) (h_heap pH')
    \<and> h_count pH' = h_count pH \<and> h_freed pH' = h_freed pH \<and> Hash.more pH' = Hash.more pH
    \<and> (if b then h_ht pH' \<noteq> None else pH' = pH)"
proof -
  define n' where "n' = (if n * sizeof_ht > SQLITE_MALLOC_SOFT_LIMIT
                      then SQLITE_MALLOC_SOFT_LIMIT div sizeof_ht else n)"
  have n': "0 < n'" using n by (simp add: n'_def sizeof_ht_def SQLITE_MALLOC_SOFT_LIMIT_def)
  show ?thesis
  proof (cases "n' = h_htsize pH \<or> malloc (n' * sizeof_ht) = None")
    case True
    then have "rehash malloc pH n = Some (pH, False)"
      unfolding rehash_def n'_def [symmetric] Let_def by (auto split: if_splits)
    then show ?thesis using s by (intro exI [of _ pH] exI [of _ False] exI [of _ xs]) simp
  next
    case False
    then obtain bytes where b: "malloc (n' * sizeof_ht) = Some bytes" by auto
    define N where "N = bytes div sizeof_ht"
    have "n' * sizeof_ht \<le> bytes" using m b by (simp add: malloc_ok_def)
    then have N: "0 < N" using n' by (simp add: N_def sizeof_ht_def div_greater_zero_iff)
    let ?i = "\<lambda>k. unat (strHash k) mod N"
    let ?B = "replicate N (0::nat, None)"
    define pH0 where "pH0 = pH\<lparr>h_ht := Some ?B, h_htsize := N, h_first := None\<rparr>"
    have d: "dll (h_heap pH) (h_first pH) xs" "distinct xs" using s by (simp_all add: struct_ok_def dll_def)
    have 1: "nexts (h_heap pH0) (h_first pH) xs" using dll_nexts [OF d(1)] by (simp add: pH0_def)
    have 2: "buckets_ok (\<lambda>a. ?i (e_key (h_heap pH0 a))) [] ?B" by (rule buckets_ok_empty [of N]) simp_all
    obtain pH' zs B' where r: "relink_loop ?i (h_first pH) pH0 = Some pH'" "dll (h_heap pH') (h_first pH') zs"
        "set zs = set xs" "length zs = length xs" "h_ht pH' = Some B'" "length B' = N"
        "buckets_ok (\<lambda>a. ?i (e_key (h_heap pH' a))) zs B'" "same_content (h_heap pH0) (h_heap pH')"
        "pH' = pH0\<lparr>h_first := h_first pH', h_ht := h_ht pH', h_heap := h_heap pH'\<rparr>"
      using relink [OF 1, of "[]" ?B ?i] d(2) 2 N by (auto simp: pH0_def)
    have "rehash malloc pH n = Some (pH', True)"
      using False b r(1) unfolding rehash_def n'_def [symmetric] Let_def N_def pH0_def by simp
    moreover have f: "h_htsize pH' = N" "h_count pH' = h_count pH" "h_freed pH' = h_freed pH" "Hash.more pH' = Hash.more pH"
      by (subst r(9), simp add: pH0_def)+
    moreover have "struct_ok hash_idx pH' zs"
      using r(2,5,6,7) N f(1) by (auto simp: struct_ok_def hash_idx_def)
    ultimately show ?thesis using r(3,4,5,8)
      by (intro exI [of _ pH'] exI [of _ True] exI [of _ zs]) (simp add: pH0_def)
  qed
qed

lemma table_update:
  assumes t: "table_ok kok canon idx pH xs" and e: "e \<in> set xs" "canon (e_key (h_heap pH e)) = canon k" "kok k"
    and i: "idx (h_htsize pH) k = idx (h_htsize pH) (e_key (h_heap pH e))"
  shows "table_ok kok canon idx (pH\<lparr>h_heap := set_entry e k d (h_heap pH)\<rparr>) xs"
    and "table_map canon (set_entry e k d (h_heap pH)) xs = (table_map canon (h_heap pH) xs)(canon k \<mapsto> d)"
proof -
  let ?h = "set_entry e k d (h_heap pH)"
  have s: "struct_ok idx pH xs" "h_count pH = length xs" and ko: "keys_ok kok canon (h_heap pH) xs"
    using t by (simp_all add: table_ok_def)
  have c: "canon (e_key (?h a)) = canon (e_key (h_heap pH a))" for a
    using e(2) by (simp add: set_entry_def)
  have k: "keys_ok kok canon ?h xs" using ko e(3) by (auto simp: keys_ok_def c) (simp add: set_entry_def)
  have "pH\<lparr>h_heap := ?h\<rparr> = pH\<lparr>h_heap := ?h, h_count := h_count pH\<rparr>" by simp
  then have "struct_ok idx (pH\<lparr>h_heap := ?h\<rparr>) xs" using struct_ok_set_entry [OF s(1) disjI2 [OF i]] by metis
  then show "table_ok kok canon idx (pH\<lparr>h_heap := ?h\<rparr>) xs" using k s(2) by (simp add: table_ok_def)
  show "table_map canon ?h xs = (table_map canon (h_heap pH) xs)(canon k \<mapsto> d)"
  proof
    fix x
    show "table_map canon ?h xs x = ((table_map canon (h_heap pH) xs)(canon k \<mapsto> d)) x"
    proof (cases "x = canon k")
      case True
      then show ?thesis using e c by (simp add: table_map_Some [OF k] bexI [of _ e]) (auto simp: set_entry_def)
    next
      case False
      have "table_map canon ?h xs x = Some y \<longleftrightarrow> table_map canon (h_heap pH) xs x = Some y" for y
        unfolding table_map_Some [OF k] table_map_Some [OF ko] c using False e(2) by (auto simp: set_entry_def)
      then have "table_map canon ?h xs x = table_map canon (h_heap pH) xs x" by (rule option_eq_by_Some)
      then show ?thesis using False by simp
    qed
  qed
qed

lemma table_delete_map:
  assumes k: "keys_ok kok canon h xs" "e \<in> set xs" "canon (e_key (h e)) = c"
    and s: "set xs' = set xs - {e}" "keys_ok kok canon h' xs'" "same_content h h'"
  shows "table_map canon h' xs' = (table_map canon h xs)(c := None)"
proof
  fix x
  have same: "e_key (h' a) = e_key (h a)" "e_data (h' a) = e_data (h a)" for a
    using s(3) by (simp_all add: same_content_def)
  have "table_map canon h' xs' x = Some y \<longleftrightarrow> ((table_map canon h xs)(c := None)) x = Some y" for y
  proof (cases "x = c")
    case True
    have only: "a = e" if "a \<in> set xs" "canon (e_key (h a)) = canon (e_key (h e))" for a
      by (rule keys_inj [OF k(1) that(1) k(2) that(2)])
    have "table_map canon h' xs' x \<noteq> Some y"
      unfolding table_map_Some [OF s(2)] same s(1) using True k(3) only by auto
    then show ?thesis using True by simp
  next
    case False
    then show ?thesis using k(3) by (auto simp: table_map_Some [OF s(2)] table_map_Some [OF k(1)] same s(1))
  qed
  then show "table_map canon h' xs' x = ((table_map canon h xs)(c := None)) x" by (rule option_eq_by_Some)
qed

text \<open>A new element: the heap entry, the buckets if the table grows, then the links.\<close>

lemma insert_table:
  assumes s: "struct_ok idx pH xs" "keys_ok kok canon (h_heap pH) xs" "h_count pH = Suc (length xs)"
    and a: "a \<notin> set xs" "kok (e_key (h_heap pH a))"
    and new: "\<forall>b\<in>set xs. canon (e_key (h_heap pH b)) \<noteq> canon (e_key (h_heap pH a))"
    and h: "h_ht pH \<noteq> None \<Longrightarrow> h = idx (h_htsize pH) (e_key (h_heap pH a))"
    and idx: "\<And>n k. 0 < n \<Longrightarrow> idx n k < n"
    and r: "pH' = insertElement pH (if h_ht pH = None then None else Some h) a"
  shows "\<exists>xs'. table_ok kok canon idx pH' xs' \<and> set xs' = insert a (set xs) \<and>
    same_content (h_heap pH) (h_heap pH')"
proof -
  have d: "dll (h_heap pH) (h_first pH) xs" using s(1) by (simp add: struct_ok_def)
  have c: "same_content (h_heap pH) (h_heap pH')" unfolding r by (rule insertElement_content)
  have f: "h_count pH' = h_count pH" "h_htsize pH' = h_htsize pH" by (simp_all add: r insertElement_frame)
  have "\<exists>xs'. struct_ok idx pH' xs' \<and> set xs' = insert a (set xs) \<and> length xs' = Suc (length xs)"
  proof (cases "h_ht pH")
    case None
    then have r: "pH' = insertElement pH None a" by (simp add: r)
    show ?thesis using insertElement_plain [OF d a(1) None] s(1) None f
      by (intro exI [of _ "a # xs"]) (simp add: struct_ok_def r)
  next
    case (Some B)
    have B: "h_htsize pH = length B" "B \<noteq> []" "buckets_ok (\<lambda>a. idx (length B) (e_key (h_heap pH a))) xs B"
      using s(1) Some by (simp_all add: struct_ok_def)
    have il: "idx (length B) (e_key (h_heap pH a)) < length B" using B(2) by (simp add: idx)
    have r: "pH' = insertElement pH (Some (idx (length B) (e_key (h_heap pH a)))) a"
      using h Some B(1) by (simp add: r)
    obtain xs' B' where i: "dll (h_heap pH') (h_first pH') xs'" "set xs' = insert a (set xs)"
        "length xs' = Suc (length xs)" "h_ht pH' = Some B'" "length B' = length B"
        "buckets_ok (\<lambda>a. idx (length B) (e_key (h_heap pH a))) xs' B'"
      using insertElement_bucket [OF d a(1) Some B(3) il] unfolding r by blast
    have "buckets_ok (\<lambda>a. idx (length B) (e_key (h_heap pH' a))) xs' B'"
      by (rule buckets_ok_cong [OF _ i(6)]) (use c in \<open>simp add: same_content_def\<close>)
    then show ?thesis using i B f by (intro exI [of _ xs']) (auto simp: struct_ok_def)
  qed
  then obtain xs' where x: "struct_ok idx pH' xs'" "set xs' = insert a (set xs)" "length xs' = Suc (length xs)"
    by blast
  have "keys_ok kok canon (h_heap pH) (a # xs)" using s(2) a(2) new by (auto simp: keys_ok_def)
  then have "keys_ok kok canon (h_heap pH') xs'"
    by (rule keys_ok_cong) (use c x in \<open>simp_all add: same_content_def\<close>)
  then show ?thesis using x c f s(3) by (intro exI [of _ xs']) (simp add: table_ok_def)
qed

lemma table_add_map:
  assumes k: "keys_ok kok canon h xs" "keys_ok kok canon h' xs'"
    and s: "set xs' = insert a (set xs)" "a \<notin> set xs" "\<forall>b\<in>set xs. e_key (h' b) = e_key (h b) \<and> e_data (h' b) = e_data (h b)"
  shows "table_map canon h' xs' = (table_map canon h xs)(canon (e_key (h' a)) \<mapsto> e_data (h' a))"
proof
  fix x
  have "table_map canon h' xs' x = Some y \<longleftrightarrow>
      ((table_map canon h xs)(canon (e_key (h' a)) \<mapsto> e_data (h' a))) x = Some y" for y
  proof (cases "x = canon (e_key (h' a))")
    case True
    have "b = a" if "b \<in> set xs'" "canon (e_key (h' b)) = canon (e_key (h' a))" for b
      using keys_inj [OF k(2) that(1), of a] that(2) s(1) by simp
    then show ?thesis using True s(1) by (auto simp: table_map_Some [OF k(2)])
  next
    case False
    then show ?thesis using s by (auto simp: table_map_Some [OF k(1)] table_map_Some [OF k(2)])
  qed
  then show "table_map canon h' xs' x = ((table_map canon h xs)(canon (e_key (h' a)) \<mapsto> e_data (h' a))) x"
    by (rule option_eq_by_Some)
qed

lemma hash_wfI: "table_ok proper fold_case hash_idx pH xs \<Longrightarrow> hash_wf pH \<and> elements pH = xs"
  by (simp add: hash_wf_def table_ok_elements)

lemma hash_find_ok:
  assumes "hash_wf pH" "proper k"
  shows "sqlite3HashFind pH k = Some (hash_map pH (fold_case k))"
proof -
  have t: "table_ok proper fold_case hash_idx pH (elements pH)" using assms(1) by (simp add: hash_wf_def)
  then have k: "keys_ok proper fold_case (h_heap pH) (elements pH)" by (simp add: table_ok_def)
  obtain e i where f: "findElementWithHash pH k = Some (e, i)"
      "case e of None \<Rightarrow> \<forall>a\<in>set (elements pH). fold_case (e_key (h_heap pH a)) \<noteq> fold_case k
       | Some a \<Rightarrow> a \<in> set (elements pH) \<and> fold_case (e_key (h_heap pH a)) = fold_case k"
    using findElement_table [OF t assms(2)] by blast
  show ?thesis
  proof (cases e)
    case None
    then have "hash_map pH (fold_case k) = None" using f(2) by (simp add: hash_map_def table_map_None)
    then show ?thesis using f(1) None by (simp add: sqlite3HashFind_def)
  next
    case (Some a)
    then have "hash_map pH (fold_case k) = Some (e_data (h_heap pH a))"
      using f(2) by (auto simp: hash_map_def table_map_Some [OF k])
    then show ?thesis using f(1) Some by (simp add: sqlite3HashFind_def)
  qed
qed

text \<open>The allocator gives a new element an address no element of the table has.\<close>

definition fresh_in :: "nat option \<Rightarrow> ('k, 'd, 'm) Hash_scheme \<Rightarrow> bool" where
  "fresh_in new pH \<longleftrightarrow> (case new of None \<Rightarrow> True | Some a \<Rightarrow> a \<notin> set (elements pH))"

lemma hash_replace_ok:
  assumes w: "hash_wf pH" "proper k" and f: "hash_map pH (fold_case k) = Some old"
  shows "\<exists>pH'. sqlite3HashInsert malloc new pH k data = Some (Some old, pH') \<and> hash_wf pH'
    \<and> hash_map pH' = (hash_map pH)(fold_case k := data)
    \<and> (\<exists>gone. h_freed pH' = h_freed pH @ gone \<and> set gone = set (elements pH) - set (elements pH'))"
proof -
  let ?xs = "elements pH"
  have t: "table_ok proper fold_case hash_idx pH ?xs" using w(1) by (simp add: hash_wf_def)
  then have ko: "keys_ok proper fold_case (h_heap pH) ?xs" by (simp add: table_ok_def)
  obtain el i where fe: "findElementWithHash pH k = Some (el, i)"
      "h_ht pH \<noteq> None \<longrightarrow> i = hash_idx (h_htsize pH) k"
      "case el of None \<Rightarrow> \<forall>a\<in>set ?xs. fold_case (e_key (h_heap pH a)) \<noteq> fold_case k
       | Some a \<Rightarrow> a \<in> set ?xs \<and> fold_case (e_key (h_heap pH a)) = fold_case k"
    using findElement_table [OF t w(2)] by blast
  have "el \<noteq> None"
    using fe(3) f by (cases el) (auto simp: hash_map_def table_map_Some [OF ko])
  then obtain e where e: "el = Some e" "e \<in> set ?xs" "fold_case (e_key (h_heap pH e)) = fold_case k"
    using fe(3) by auto
  have old: "e_data (h_heap pH e) = old"
    using f e(2,3) keys_inj [OF ko] by (fastforce simp: hash_map_def table_map_Some [OF ko])
  have pe: "proper (e_key (h_heap pH e))" using ko e(2) by (simp add: keys_ok_def)
  have idx: "hash_idx n k = hash_idx n (e_key (h_heap pH e))" for n
    by (rule strHash_fold [OF w(2) pe e(3) [symmetric]])
  show ?thesis
  proof (cases data)
    case None
    have "h_ht pH \<noteq> None \<Longrightarrow> i = hash_idx (h_htsize pH) (e_key (h_heap pH e))" using fe(2) idx by simp
    then obtain pH' xs' where r: "removeElementGivenHash pH e i = Some pH'" "table_ok proper fold_case hash_idx pH' xs'"
        "set xs' = set ?xs - {e}" "h_freed pH' = h_freed pH @ [e]" "same_content (h_heap pH) (h_heap pH')"
      using remove_table [OF t e(2)] by blast
    have x: "hash_wf pH'" "elements pH' = xs'" using hash_wfI [OF r(2)] by simp_all
    have "keys_ok proper fold_case (h_heap pH') xs'" using r(2) by (simp add: table_ok_def)
    then have "hash_map pH' = (hash_map pH)(fold_case k := None)"
      unfolding hash_map_def x(2) by (rule table_delete_map [OF ko e(2,3) r(3) _ r(5)])
    then show ?thesis using fe(1) e(1,2) old None r x
      by (intro exI [of _ pH']) (auto simp: sqlite3HashInsert_def intro!: exI [of _ "[e]"])
  next
    case (Some d)
    let ?pH = "pH\<lparr>h_heap := set_entry e k d (h_heap pH)\<rparr>"
    note u = table_update [OF t e(2,3) w(2) idx, of d]
    have x: "hash_wf ?pH" "elements ?pH = ?xs" using hash_wfI [OF u(1)] by simp_all
    have "sqlite3HashInsert malloc new pH k data = Some (Some old, ?pH)"
      using fe(1) e(1) old Some by (simp add: sqlite3HashInsert_def)
    moreover have "hash_map ?pH = (hash_map pH)(fold_case k := data)"
      unfolding hash_map_def x(2) using u(2) Some by simp
    ultimately show ?thesis using x by (intro exI [of _ ?pH]) simp
  qed
qed

lemma hash_absent:
  assumes w: "hash_wf pH" "proper k" and f: "hash_map pH (fold_case k) = None"
  obtains i where "findElementWithHash pH k = Some (None, i)" "h_ht pH \<noteq> None \<longrightarrow> i = hash_idx (h_htsize pH) k"
    "\<forall>a\<in>set (elements pH). fold_case (e_key (h_heap pH a)) \<noteq> fold_case k"
proof -
  have t: "table_ok proper fold_case hash_idx pH (elements pH)" using w(1) by (simp add: hash_wf_def)
  then have n: "\<forall>a\<in>set (elements pH). fold_case (e_key (h_heap pH a)) \<noteq> fold_case k"
    using f by (simp add: hash_map_def table_map_None)
  obtain e i where "findElementWithHash pH k = Some (e, i)" "h_ht pH \<noteq> None \<longrightarrow> i = hash_idx (h_htsize pH) k"
      "case e of None \<Rightarrow> True | Some a \<Rightarrow> a \<in> set (elements pH) \<and> fold_case (e_key (h_heap pH a)) = fold_case k"
    using findElement_table [OF t w(2)] by (fastforce split: option.splits)
  then show ?thesis using that n by (cases e) auto
qed

lemma hash_absent_ok:
  assumes w: "hash_wf pH" "proper k" and f: "hash_map pH (fold_case k) = None"
    and m: "malloc_ok malloc" "fresh_in new pH"
  shows "data = None \<Longrightarrow> sqlite3HashInsert malloc new pH k data = Some (None, pH)"
    and "new = None \<Longrightarrow> sqlite3HashInsert malloc new pH k data = Some (data, pH)"
    and "data = Some d \<Longrightarrow> new = Some a \<Longrightarrow> \<exists>pH'. sqlite3HashInsert malloc new pH k data = Some (None, pH')
      \<and> hash_wf pH' \<and> hash_map pH' = (hash_map pH)(fold_case k \<mapsto> d)
      \<and> h_freed pH' = h_freed pH \<and> set (elements pH') = insert a (set (elements pH))"
proof -
  let ?xs = "elements pH"
  obtain i where fe: "findElementWithHash pH k = Some (None, i)" "h_ht pH \<noteq> None \<longrightarrow> i = hash_idx (h_htsize pH) k"
      "\<forall>a\<in>set ?xs. fold_case (e_key (h_heap pH a)) \<noteq> fold_case k"
    using hash_absent [OF w f] .
  show "data = None \<Longrightarrow> sqlite3HashInsert malloc new pH k data = Some (None, pH)"
    using fe(1) by (simp add: sqlite3HashInsert_def)
  show "new = None \<Longrightarrow> sqlite3HashInsert malloc new pH k data = Some (data, pH)"
    using fe(1) by (cases data) (simp_all add: sqlite3HashInsert_def)
  assume data: "data = Some d" and new: "new = Some a"
  have t: "table_ok proper fold_case hash_idx pH ?xs" using w(1) by (simp add: hash_wf_def)
  then have s: "struct_ok hash_idx pH ?xs" "h_count pH = length ?xs" and ko: "keys_ok proper fold_case (h_heap pH) ?xs"
    by (simp_all add: table_ok_def)
  have a: "a \<notin> set ?xs" using m(2) new by (simp add: fresh_in_def)
  define pH1 where "pH1 = pH\<lparr>h_heap := set_entry a k d (h_heap pH), h_count := h_count pH + 1\<rparr>"
  have s1: "struct_ok hash_idx pH1 ?xs" unfolding pH1_def by (rule struct_ok_set_entry [OF s(1) disjI1 [OF a]])
  have kd: "e_key (h_heap pH1 a) = k" "e_data (h_heap pH1 a) = d" "\<forall>b\<in>set ?xs. h_heap pH1 b = h_heap pH b"
    using a by (auto simp: pH1_def set_entry_def)
  obtain pH2 i2 xs2 where r: "(if h_count pH1 \<ge> 10 \<and> h_count pH1 > 2 * h_htsize pH1 then do {
                  (pH, resized) \<leftarrow> rehash malloc pH1 (h_count pH1 * 2);
                  Some (pH, if resized then unat (strHash k) mod h_htsize pH else i) }
                else Some (pH1, i)) = Some (pH2, i2)"
      "struct_ok hash_idx pH2 xs2" "set xs2 = set ?xs" "length xs2 = length ?xs"
      "same_content (h_heap pH1) (h_heap pH2)" "h_count pH2 = h_count pH1" "h_freed pH2 = h_freed pH1"
      "h_ht pH2 \<noteq> None \<longrightarrow> i2 = hash_idx (h_htsize pH2) k"
  proof (cases "h_count pH1 \<ge> 10 \<and> h_count pH1 > 2 * h_htsize pH1")
    case False
    show thesis
    proof (rule that [of pH1 i ?xs, OF _ s1])
      show "(if h_count pH1 \<ge> 10 \<and> h_count pH1 > 2 * h_htsize pH1 then do {
                  (pH, resized) \<leftarrow> rehash malloc pH1 (h_count pH1 * 2);
                  Some (pH, if resized then unat (strHash k) mod h_htsize pH else i) }
                else Some (pH1, i)) = Some (pH1, i)"
        by (rule if_not_P [OF False])
      show "h_ht pH1 \<noteq> None \<longrightarrow> i = hash_idx (h_htsize pH1) k" using fe(2) by (simp add: pH1_def)
    qed simp_all
  next
    case True
    have n: "0 < h_count pH1 * 2" using True by simp
    obtain pH2 b xs2 where rh: "rehash malloc pH1 (h_count pH1 * 2) = Some (pH2, b)" "struct_ok hash_idx pH2 xs2"
        "set xs2 = set ?xs" "length xs2 = length ?xs" "same_content (h_heap pH1) (h_heap pH2)"
        "h_count pH2 = h_count pH1" "h_freed pH2 = h_freed pH1" "if b then h_ht pH2 \<noteq> None else pH2 = pH1"
      using rehash_table [OF s1 m(1) n] by blast
    let ?i = "if b then unat (strHash k) mod h_htsize pH2 else i"
    have "h_ht pH2 \<noteq> None \<longrightarrow> ?i = hash_idx (h_htsize pH2) k"
      using rh(8) fe(2) by (cases b) (simp_all add: hash_idx_def pH1_def)
    then show thesis using True rh by (intro that [of pH2 ?i xs2]) simp_all
  qed
  let ?pH' = "insertElement pH2 (if h_ht pH2 = None then None else Some i2) a"
  have ins: "sqlite3HashInsert malloc new pH k data = Some (None, ?pH')"
    using fe(1) r(1) data new by (simp add: sqlite3HashInsert_def pH1_def [symmetric] Let_def del: One_nat_def)
  have same: "e_key (h_heap pH2 b) = e_key (h_heap pH1 b)" "e_data (h_heap pH2 b) = e_data (h_heap pH1 b)" for b
    using r(5) by (simp_all add: same_content_def)
  have k2: "keys_ok proper fold_case (h_heap pH2) xs2"
    by (rule keys_ok_cong [OF ko r(3,4)]) (simp add: same kd(3))
  have c2: "h_count pH2 = Suc (length xs2)" using r(4,6) s(2) by (simp add: pH1_def)
  have a2: "a \<notin> set xs2" "proper (e_key (h_heap pH2 a))" using a r(3) w(2) by (simp_all add: same kd)
  have n2: "\<forall>b\<in>set xs2. fold_case (e_key (h_heap pH2 b)) \<noteq> fold_case (e_key (h_heap pH2 a))"
    using fe(3) kd r(3) by (simp add: same)
  obtain xs' where x: "table_ok proper fold_case hash_idx ?pH' xs'" "set xs' = insert a (set xs2)"
      "same_content (h_heap pH2) (h_heap ?pH')"
    using insert_table [OF r(2) k2 c2 a2 n2 _ hash_idx_less refl] r(8) by (auto simp: same kd)
  have w': "hash_wf ?pH'" "elements ?pH' = xs'" using hash_wfI [OF x(1)] by simp_all
  have same': "e_key (h_heap ?pH' b) = e_key (h_heap pH1 b)" "e_data (h_heap ?pH' b) = e_data (h_heap pH1 b)" for b
    using x(3) by (simp_all add: same_content_def same)
  have "keys_ok proper fold_case (h_heap ?pH') xs'" using x(1) by (simp add: table_ok_def)
  then have "hash_map ?pH' = (hash_map pH)(fold_case k \<mapsto> d)"
    using table_add_map [OF ko, of "h_heap ?pH'" xs' a] x(2) r(3) a kd
    unfolding hash_map_def w'(2) by (simp add: same')
  then show "\<exists>pH'. sqlite3HashInsert malloc new pH k data = Some (None, pH')
      \<and> hash_wf pH' \<and> hash_map pH' = (hash_map pH)(fold_case k \<mapsto> d)
      \<and> h_freed pH' = h_freed pH \<and> set (elements pH') = insert a (set (elements pH))"
    using ins w' x(2) r(3,7) by (intro exI [of _ ?pH']) (simp add: insertElement_frame pH1_def)
qed

section \<open>The contract of the table\<close>

definition hash_update :: "(nat \<Rightarrow> nat option) \<times> nat \<Rightarrow> (cstring, 'd) Hash \<Rightarrow> cstring \<Rightarrow> 'd option
    \<Rightarrow> ('d option \<times> (cstring, 'd) Hash) option" where
  "hash_update m pH k d = sqlite3HashInsert (fst m) (Some (snd m)) pH k d"

definition hash_memory :: "(nat \<Rightarrow> nat option) \<times> nat \<Rightarrow> ('k, 'd) Hash \<Rightarrow> bool" where
  "hash_memory m pH \<longleftrightarrow> malloc_ok (fst m) \<and> snd m \<notin> set (elements pH)"

interpretation hash_table: dictionary hash_wf hash_map fold_case proper sqlite3HashFind hash_update hash_memory
proof unfold_locales
  fix pH :: "(cstring, 'd) Hash" and k :: cstring
  assume w: "hash_wf pH" "proper k"
  then show "sqlite3HashFind pH k = Some (hash_map pH (fold_case k))" by (rule hash_find_ok)
  fix m d
  assume m: "hash_memory m pH"
  show "\<exists>s'. hash_update m pH k d = Some (hash_map pH (fold_case k), s') \<and> hash_wf s' \<and>
      hash_map s' = (hash_map pH)(fold_case k := d)"
  proof (cases "hash_map pH (fold_case k)")
    case (Some old)
    then show ?thesis unfolding hash_update_def using hash_replace_ok [OF w Some] by fastforce
  next
    case None
    have "malloc_ok (fst m)" "fresh_in (Some (snd m)) pH" using m by (simp_all add: hash_memory_def fresh_in_def)
    note a = hash_absent_ok [OF w None this]
    show ?thesis
    proof (cases d)
      case None
      then show ?thesis using a(1) [of d] w(1) \<open>hash_map pH (fold_case k) = None\<close>
        by (auto simp: hash_update_def fun_upd_idem)
    next
      case (Some x)
      then show ?thesis using a(3) [OF Some refl] None by (auto simp: hash_update_def)
    qed
  qed
qed

text \<open>An empty table, in a heap that holds anything.\<close>

lemma hash_wf_empty: "h_first pH = None \<Longrightarrow> h_count pH = 0 \<Longrightarrow> h_htsize pH = 0 \<Longrightarrow> h_ht pH = None
    \<Longrightarrow> hash_wf pH \<and> hash_map pH = Map.empty"
  by (simp add: hash_wf_def hash_map_def elements_def table_ok_empty table_map_def)

lemma hash_wf_Init: "hash_wf (sqlite3HashInit pH)" "hash_map (sqlite3HashInit pH) = Map.empty"
  using hash_wf_empty [of "sqlite3HashInit pH"] by (simp_all add: sqlite3HashInit_def)

text \<open>
  Storing in a well-formed table, with an address that no element has: if the key, up to
  case, is not there and there is no memory for an element, the data comes back and the table
  is unchanged, as its comment says; in every other case the old data comes back, and the map
  the table stands for is updated at that key and at no other, whether the table has buckets
  or not, grows or cannot grow.
\<close>

lemma HashInsert_contract:
  assumes "hash_wf pH" "proper pKey" "malloc_ok malloc" "fresh_in new_elem pH"
  shows "\<exists>r pH'. sqlite3HashInsert malloc new_elem pH pKey data = Some (r, pH') \<and> hash_wf pH' \<and>
    (if data \<noteq> None \<and> new_elem = None \<and> hash_map pH (fold_case pKey) = None then r = data \<and> pH' = pH
     else r = hash_map pH (fold_case pKey) \<and> hash_map pH' = (hash_map pH)(fold_case pKey := data))"
proof (cases "hash_map pH (fold_case pKey)")
  case (Some old)
  then show ?thesis using hash_replace_ok [OF assms(1,2) Some] by fastforce
next
  case None
  note a = hash_absent_ok [OF assms(1,2) None assms(3,4)]
  show ?thesis
  proof (cases data)
    case None
    then show ?thesis using a(1) [of data] assms(1) \<open>hash_map pH (fold_case pKey) = None\<close> by (auto simp: fun_upd_idem)
  next
    case (Some d)
    then show ?thesis using a(2) [of data] a(3) [OF Some] assms(1) None by (cases new_elem) auto
  qed
qed

text \<open>
  C31: After any stores and deletions on a freshly initialised table, whatever growths of the
  bucket array happen or fail on the way, looking up a key gives the data of the last
  operation on that key, up to case, and no operation reads outside the table.
\<close>

theorem Hash_history:
  assumes "malloc_ok malloc" "\<And>pH. hash_wf pH \<Longrightarrow> new pH \<notin> set (elements pH)"
    and "\<forall>kd\<in>set ops. proper (fst kd)" "proper pKey"
  shows "\<exists>rs pH. run_updates hash_update (\<lambda>pH. (malloc, new pH)) ops (sqlite3HashInit pH0) = Some (rs, pH) \<and>
    sqlite3HashFind pH pKey = Some
      (case find (\<lambda>kd. fold_case (fst kd) = fold_case pKey) (rev ops) of Some kd \<Rightarrow> snd kd | None \<Rightarrow> None)"
proof -
  have "\<And>pH. hash_wf pH \<Longrightarrow> hash_memory (malloc, new pH) pH" using assms(1,2) by (simp add: hash_memory_def)
  from hash_table.lookup_after_run [OF hash_wf_Init(1) this assms(3,4)] show ?thesis
    by (fastforce simp: map_updates_last hash_wf_Init)
qed

text \<open>An allocator that never gives an address in use: one above all of them.\<close>

definition above :: "(cstring, 'd) Hash \<Rightarrow> nat" where
  "above pH = Suc (sum_list (elements pH))"

lemma above_fresh: "above pH \<notin> set (elements pH)"
  using member_le_sum_list [of "above pH" "elements pH"] by (auto simp: above_def)

lemma HashInsert_contract_witness:
  "\<exists>r pH'. sqlite3HashInsert (\<lambda>n. None) (Some 7)
      (sqlite3HashInit \<lparr>h_htsize = 3, h_count = 2, h_first = Some 1, h_ht = None,
        h_heap = (\<lambda>_. \<lparr>e_next = None, e_prev = None, e_key = [], e_data = (0::nat)\<rparr>), h_freed = []\<rparr>)
      [97] (Some 5) = Some (r, pH') \<and> hash_map pH' = [[97] \<mapsto> 5] \<and> r = None"
proof -
  let ?pH = "sqlite3HashInit \<lparr>h_htsize = 3, h_count = 2, h_first = Some 1, h_ht = None,
        h_heap = (\<lambda>_. \<lparr>e_next = None, e_prev = None, e_key = [], e_data = (0::nat)\<rparr>), h_freed = []\<rparr>"
  have 1: "hash_wf ?pH" "hash_map ?pH = Map.empty" by (rule hash_wf_Init)+
  have 2: "fresh_in (Some 7) ?pH" by (simp add: fresh_in_def elements_def sqlite3HashInit_def)
  have 3: "malloc_ok (\<lambda>n. None)" by (simp add: malloc_ok_def)
  have 4: "fold_case [97] = [97]" by (simp add: fold_case_def UpperToLower_eq)
  have 5: "proper [97]" by simp
  show ?thesis using HashInsert_contract [OF 1(1) 5 3 2, of "Some 5"] 1(2) 4 by auto
qed

theorem Hash_history_witness:
  "\<exists>rs pH. run_updates hash_update (\<lambda>pH. (\<lambda>n. Some (n + 8), above pH))
      [([97], Some (1::nat)), ([65], Some 2), ([98], Some 3), ([98], None)]
      (sqlite3HashInit \<lparr>h_htsize = 3, h_count = 2, h_first = Some 1, h_ht = None,
        h_heap = (\<lambda>_. \<lparr>e_next = None, e_prev = None, e_key = [], e_data = 0\<rparr>), h_freed = []\<rparr>) = Some (rs, pH)
    \<and> sqlite3HashFind pH [97] = Some (Some 2)"
proof -
  have 1: "malloc_ok (\<lambda>n. Some (n + 8))" by (simp add: malloc_ok_def)
  have 2: "fold_case [97] = [97]" "fold_case [65] = [97]" "fold_case [98] = [98]"
    by (simp_all add: fold_case_def UpperToLower_eq)
  have 3: "proper [97]" by simp
  have 4: "\<forall>kd\<in>set [([97], Some (1::nat)), ([65], Some 2), ([98], Some 3), ([98], None)]. proper (fst kd)" by simp
  show ?thesis using Hash_history [OF 1 above_fresh 4 3] 2 by simp
qed

end
