(* ===== verification/FtsHash.thy ===== *)
theory FtsHash
  imports HashTable
begin

text \<open>
  The hash table of the full-text module (\<open>Example/Pods/WCDBOptimizedSQLCipher/ext/fts3/
  fts3_hash.c\<close>, \<open>fts3_hash.h\<close>): tokenizers by name and pending terms. It is the table of
  \<open>hash.c\<close> with keys of a given length, compared as strings or as bytes, a power of two
  buckets from the first element on, and optional private copies of the keys. Its state is that
  table's with two more fields. A key is the bytes from its address on and its length.
\<close>

section \<open>State\<close>

datatype key_class = FTS3_HASH_STRING | FTS3_HASH_BINARY

type_synonym fts_key = "u8 list \<times> int"

record 'd Fts3Hash = "(fts_key, 'd) Hash" +
  keyClass :: key_class
  copyKey :: bool

section \<open>Operations\<close>

definition sqlite3Fts3HashInit :: "'d Fts3Hash \<Rightarrow> key_class \<Rightarrow> bool \<Rightarrow> 'd Fts3Hash" where
  "sqlite3Fts3HashInit pNew kc ck =
     pNew\<lparr>keyClass := kc, copyKey := ck, h_first := None, h_count := 0, h_htsize := 0, h_ht := None\<rparr>"

definition sqlite3Fts3HashClear :: "'d Fts3Hash \<Rightarrow> 'd Fts3Hash option" where
  "sqlite3Fts3HashClear pH = do {
     let elem = h_first pH;
     pH \<leftarrow> free_loop elem (pH\<lparr>h_first := None, h_ht := None, h_htsize := 0\<rparr>);
     Some (pH\<lparr>h_count := 0\<rparr>) }"

text \<open>A \<open>char\<close> is signed: the xor sees it sign-extended.\<close>

primrec hash_bytes :: "u32 \<Rightarrow> u8 list \<Rightarrow> u32" where
  "hash_bytes h [] = h"
| "hash_bytes h (c # z) = hash_bytes ((push_bit 3 h XOR h) XOR scast c) z"

definition fts3StrHash :: "fts_key \<Rightarrow> u32" where
  "fts3StrHash k =
     (let (z, nKey) = k;
          n = (if nKey \<le> 0 then length (takeWhile (\<lambda>c. c \<noteq> 0) z) else nat nKey)
      in hash_bytes 0 (take n z) AND 0x7fffffff)"

definition fts3BinHash :: "fts_key \<Rightarrow> u32" where
  "fts3BinHash k = (let (z, nKey) = k in hash_bytes 0 (take (nat nKey) z) AND 0x7fffffff)"

fun strncmp :: "nat \<Rightarrow> u8 list \<Rightarrow> u8 list \<Rightarrow> int" where
  "strncmp 0 x y = 0"
| "strncmp (Suc n) x y =
     (if hd0 x \<noteq> hd0 y then uint (hd0 x) - uint (hd0 y)
      else if hd0 x = 0 then 0 else strncmp n (tl x) (tl y))"

fun memcmp :: "nat \<Rightarrow> u8 list \<Rightarrow> u8 list \<Rightarrow> int" where
  "memcmp 0 x y = 0"
| "memcmp (Suc n) x y = (if hd0 x \<noteq> hd0 y then uint (hd0 x) - uint (hd0 y) else memcmp n (tl x) (tl y))"

definition fts3StrCompare :: "fts_key \<Rightarrow> fts_key \<Rightarrow> int" where
  "fts3StrCompare k1 k2 = (if snd k1 \<noteq> snd k2 then 1 else strncmp (nat (snd k1)) (fst k1) (fst k2))"

definition fts3BinCompare :: "fts_key \<Rightarrow> fts_key \<Rightarrow> int" where
  "fts3BinCompare k1 k2 = (if snd k1 \<noteq> snd k2 then 1 else memcmp (nat (snd k1)) (fst k1) (fst k2))"

definition ftsHashFunction :: "key_class \<Rightarrow> fts_key \<Rightarrow> u32" where
  "ftsHashFunction kc = (if kc = FTS3_HASH_STRING then fts3StrHash else fts3BinHash)"

definition ftsCompareFunction :: "key_class \<Rightarrow> fts_key \<Rightarrow> fts_key \<Rightarrow> int" where
  "ftsCompareFunction kc = (if kc = FTS3_HASH_STRING then fts3StrCompare else fts3BinCompare)"

text \<open>\<open>i\<close> is the index of \<open>pEntry\<close> in the bucket array.\<close>

definition fts3HashInsertElement :: "'d Fts3Hash \<Rightarrow> nat \<Rightarrow> nat \<Rightarrow> 'd Fts3Hash" where
  "fts3HashInsertElement pH i pNew =
     (case h_ht pH of
        Some B \<Rightarrow>
          let pHead = snd (B ! i);
              (first, heap) = link pHead pNew (h_first pH) (h_heap pH)
          in pH\<lparr>h_first := first, h_heap := heap, h_ht := Some (B[i := (fst (B ! i) + 1, Some pNew)])\<rparr>
      | None \<Rightarrow> pH)"

text \<open>The index \<open>hash & (htsize - 1)\<close>.\<close>

definition mask_idx :: "u32 \<Rightarrow> nat \<Rightarrow> nat" where
  "mask_idx h n = nat (uint h AND (int n - 1))"

partial_function (option) fts3_relink ::
    "nat \<Rightarrow> nat option \<Rightarrow> 'd Fts3Hash \<Rightarrow> 'd Fts3Hash option" where
  "fts3_relink new_size elem pH = (case elem of
     None \<Rightarrow> Some pH
   | Some e \<Rightarrow>
       let h = mask_idx (ftsHashFunction (keyClass pH) (e_key (h_heap pH e))) new_size;
           next_elem = e_next (h_heap pH e)
       in fts3_relink new_size next_elem (fts3HashInsertElement pH h e))"

text \<open>The boolean is the return value: a memory allocation error.\<close>

definition fts3Rehash :: "(nat \<Rightarrow> bool) \<Rightarrow> 'd Fts3Hash \<Rightarrow> nat \<Rightarrow> ('d Fts3Hash \<times> bool) option" where
  "fts3Rehash malloc pH new_size =
     (if \<not> malloc (new_size * sizeof_ht) then Some (pH, True)
      else do {
        let elem = h_first pH;
        pH \<leftarrow> fts3_relink new_size elem
               (pH\<lparr>h_ht := Some (replicate new_size (0, None)), h_htsize := new_size, h_first := None\<rparr>);
        Some (pH, False) })"

fun fts3_find_loop :: "key_class \<Rightarrow> (fts_key, 'd) heap \<Rightarrow> fts_key \<Rightarrow> nat \<Rightarrow> nat option \<Rightarrow> nat option" where
  "fts3_find_loop kc h k 0 elem = None"
| "fts3_find_loop kc h k (Suc n) None = None"
| "fts3_find_loop kc h k (Suc n) (Some e) =
     (if ftsCompareFunction kc (e_key (h e)) k = 0 then Some e
      else fts3_find_loop kc h k n (e_next (h e)))"

definition fts3FindElementByHash :: "'d Fts3Hash \<Rightarrow> fts_key \<Rightarrow> nat \<Rightarrow> nat option" where
  "fts3FindElementByHash pH k h =
     (case h_ht pH of
        Some B \<Rightarrow> fts3_find_loop (keyClass pH) (h_heap pH) k (fst (B ! h)) (snd (B ! h))
      | None \<Rightarrow> None)"

definition fts3RemoveElementByHash :: "'d Fts3Hash \<Rightarrow> nat \<Rightarrow> nat \<Rightarrow> 'd Fts3Hash option" where
  "fts3RemoveElementByHash pH elem h =
     (let (first, heap) = unlink elem (h_first pH) (h_heap pH);
          ht = map_option (\<lambda>B.
            let count = fst (B ! h) - 1;
                chain = (if snd (B ! h) = Some elem then e_next (heap elem) else snd (B ! h));
                chain = (if count = 0 then None else chain)
            in B[h := (count, chain)]) (h_ht pH);
          pH = pH\<lparr>h_first := first, h_heap := heap, h_ht := ht, h_freed := h_freed pH @ [elem],
                  h_count := h_count pH - 1\<rparr>
      in if h_count pH = 0 then sqlite3Fts3HashClear pH else Some pH)"

definition sqlite3Fts3HashFindElem :: "'d Fts3Hash \<Rightarrow> fts_key \<Rightarrow> nat option" where
  "sqlite3Fts3HashFindElem pH k =
     (if h_ht pH = None then None
      else fts3FindElementByHash pH k (mask_idx (ftsHashFunction (keyClass pH) k) (h_htsize pH)))"

definition sqlite3Fts3HashFind :: "'d Fts3Hash \<Rightarrow> fts_key \<Rightarrow> 'd option" where
  "sqlite3Fts3HashFind pH k = map_option (\<lambda>e. e_data (h_heap pH e)) (sqlite3Fts3HashFindElem pH k)"

text \<open>
  What the allocator gives during one insertion: whether there is memory for a bucket array of
  a size, the address of a new element, and whether there is memory for a copy of the key.
\<close>

record fts_memory =
  fm_ht :: "nat \<Rightarrow> bool"
  fm_elem :: "nat option"
  fm_key :: bool

text \<open>The two growth steps before a new element, and whether one failed.\<close>

definition fts3_grow :: "fts_memory \<Rightarrow> 'd Fts3Hash \<Rightarrow> ('d Fts3Hash \<times> bool) option" where
  "fts3_grow m pH = do {
     (pH, failed) \<leftarrow> (if h_htsize pH = 0 then fts3Rehash (fm_ht m) pH 8 else Some (pH, False));
     if failed then Some (pH, True)
     else if h_count pH \<ge> h_htsize pH then fts3Rehash (fm_ht m) pH (h_htsize pH * 2)
     else Some (pH, False) }"

definition sqlite3Fts3HashInsert :: "fts_memory \<Rightarrow> 'd Fts3Hash \<Rightarrow> fts_key \<Rightarrow> 'd option
    \<Rightarrow> ('d option \<times> 'd Fts3Hash) option" where
  "sqlite3Fts3HashInsert m pH k data =
     (let hraw = ftsHashFunction (keyClass pH) k;
          h = mask_idx hraw (h_htsize pH)
      in case fts3FindElementByHash pH k h of
        Some e \<Rightarrow>
          let old_data = e_data (h_heap pH e)
          in (case data of
                None \<Rightarrow> map_option (\<lambda>pH. (Some old_data, pH)) (fts3RemoveElementByHash pH e h)
              | Some d \<Rightarrow> Some (Some old_data, pH\<lparr>h_heap := set_entry e (e_key (h_heap pH e)) d (h_heap pH)\<rparr>))
      | None \<Rightarrow>
          (case data of
             None \<Rightarrow> Some (None, pH)
           | Some d \<Rightarrow> do {
               (pH, failed) \<leftarrow> fts3_grow m pH;
               if failed then Some (data, pH\<lparr>h_count := 0\<rparr>)
               else (case fm_elem m of
                   None \<Rightarrow> Some (data, pH)
                 | Some a \<Rightarrow>
                     if copyKey pH \<and> \<not> fm_key m then Some (data, pH)
                     else
                       let key = (if copyKey pH then (take (nat (snd k)) (fst k), snd k) else k);
                           pH = pH\<lparr>h_heap := set_entry a key d (h_heap pH), h_count := h_count pH + 1\<rparr>;
                           h = mask_idx hraw (h_htsize pH)
                       in Some (None, fts3HashInsertElement pH h a)) }))"

section \<open>Keys\<close>

definition fts_canon :: "fts_key \<Rightarrow> u8 list" where
  "fts_canon k = take (nat (snd k)) (fst k)"

text \<open>
  A key of positive length within its memory; a string has no terminator before its last byte.
\<close>

definition fts_key_ok :: "key_class \<Rightarrow> fts_key \<Rightarrow> bool" where
  "fts_key_ok kc k \<longleftrightarrow> 0 < snd k \<and> nat (snd k) \<le> length (fst k) \<and>
     (kc = FTS3_HASH_STRING \<longrightarrow> 0 \<notin> set (take (nat (snd k) - 1) (fst k)))"

definition fts_idx :: "key_class \<Rightarrow> nat \<Rightarrow> fts_key \<Rightarrow> nat" where
  "fts_idx kc n k = unat (ftsHashFunction kc k) mod n"

lemma memcmp_0: "n \<le> length x \<Longrightarrow> n \<le> length y \<Longrightarrow> memcmp n x y = 0 \<longleftrightarrow> take n x = take n y"
proof (induction n x y rule: memcmp.induct)
  case (2 n x y)
  then show ?case by (cases x; cases y) (auto simp: word_uint_eq_iff)
qed simp

lemma strncmp_0: "n \<le> length x \<Longrightarrow> n \<le> length y \<Longrightarrow> 0 \<notin> set (take (n - 1) x) \<Longrightarrow>
    strncmp n x y = 0 \<longleftrightarrow> take n x = take n y"
proof (induction n x y rule: strncmp.induct)
  case (2 n x y)
  then obtain a x' b y' where xy: "x = a # x'" "y = b # y'" by (cases x; cases y) auto
  show ?case
  proof (cases n)
    case 0
    then show ?thesis by (auto simp: xy word_uint_eq_iff)
  next
    case (Suc m)
    then have "a \<noteq> 0" "0 \<notin> set (take (n - 1) x')" using 2(4) xy by auto
    then show ?thesis using 2 by (auto simp: xy word_uint_eq_iff)
  qed
qed simp

lemma fts_compare: "fts_key_ok kc k1 \<Longrightarrow> fts_key_ok kc k2 \<Longrightarrow>
    ftsCompareFunction kc k1 k2 = 0 \<longleftrightarrow> fts_canon k1 = fts_canon k2"
proof -
  assume ok: "fts_key_ok kc k1" "fts_key_ok kc k2"
  have "fts_canon k1 = fts_canon k2 \<Longrightarrow> length (fts_canon k1) = length (fts_canon k2)" by simp
  moreover have "length (fts_canon k1) = nat (snd k1)" "length (fts_canon k2) = nat (snd k2)"
    using ok by (simp_all add: fts_canon_def fts_key_ok_def)
  ultimately have len: "fts_canon k1 = fts_canon k2 \<Longrightarrow> snd k1 = snd k2"
    using ok by (auto simp: fts_key_ok_def dest!: eq_nat_nat_iff [THEN iffD1, rotated -1])
  show ?thesis
  proof (cases "snd k1 = snd k2")
    case True
    then show ?thesis using ok
      by (cases kc) (simp_all add: ftsCompareFunction_def fts3StrCompare_def fts3BinCompare_def
          fts_key_ok_def strncmp_0 memcmp_0 fts_canon_def)
  next
    case False
    then show ?thesis using len
      by (auto simp: ftsCompareFunction_def fts3StrCompare_def fts3BinCompare_def)
  qed
qed

lemma fts_hash: "fts_key_ok kc k \<Longrightarrow> ftsHashFunction kc k = hash_bytes 0 (fts_canon k) AND 0x7fffffff"
  by (cases k) (simp add: ftsHashFunction_def fts3StrHash_def fts3BinHash_def fts_canon_def fts_key_ok_def)

lemma fts_idx_canon: "fts_key_ok kc k1 \<Longrightarrow> fts_key_ok kc k2 \<Longrightarrow> fts_canon k1 = fts_canon k2 \<Longrightarrow>
    fts_idx kc n k1 = fts_idx kc n k2"
  by (simp add: fts_idx_def fts_hash)

lemma fts_idx_less: "0 < n \<Longrightarrow> fts_idx kc n k < n"
  by (simp add: fts_idx_def)

lemma fts_copy:
  assumes "fts_key_ok kc k"
  shows "fts_key_ok kc (take (nat (snd k)) (fst k), snd k)" "fts_canon (take (nat (snd k)) (fst k), snd k) = fts_canon k"
  using assms by (auto simp: fts_key_ok_def fts_canon_def min_def)

definition pow2 :: "nat \<Rightarrow> bool" where
  "pow2 n \<longleftrightarrow> (\<exists>j. n = 2 ^ j)"

lemma pow2_simps: "pow2 8" "pow2 n \<Longrightarrow> pow2 (n * 2)" "pow2 n \<Longrightarrow> 0 < n"
proof -
  show "pow2 8" unfolding pow2_def by (rule exI [of _ 3]) simp
  show "pow2 n \<Longrightarrow> pow2 (n * 2)" unfolding pow2_def by (metis power_Suc2)
  show "pow2 n \<Longrightarrow> 0 < n" by (auto simp: pow2_def)
qed

lemma mask_idx_mod:
  assumes "pow2 n"
  shows "mask_idx h n = unat h mod n"
proof -
  obtain j where n: "n = 2 ^ j" using assms by (auto simp: pow2_def)
  have "uint h AND (2 ^ j - 1) = uint h mod 2 ^ j"
    using take_bit_eq_mask [of j "uint h"] by (simp only: mask_eq_exp_minus_1 take_bit_eq_mod)
  moreover have "int n = 2 ^ j" by (simp add: n)
  ultimately have "mask_idx h n = nat (uint h mod int n)" by (simp only: mask_idx_def)
  then show ?thesis by (simp add: nat_mod_distrib)
qed

lemma mask_fts_idx: "pow2 n \<Longrightarrow> mask_idx (ftsHashFunction kc k) n = fts_idx kc n k"
  by (simp add: mask_idx_mod fts_idx_def)

section \<open>The table of \<open>hash.c\<close> inside\<close>

text \<open>An empty bucket has no chain, so that the head of a chain need not be guarded by its count.\<close>

definition no_stale :: "bucket list \<Rightarrow> bool" where
  "no_stale B \<longleftrightarrow> (\<forall>b\<in>set B. fst b = 0 \<longrightarrow> snd b = None)"

definition fts_buckets :: "'d Fts3Hash \<Rightarrow> bool" where
  "fts_buckets pH \<longleftrightarrow> (case h_ht pH of None \<Rightarrow> True | Some B \<Rightarrow> pow2 (length B) \<and> no_stale B)"

lemma no_stale_update:
  assumes "no_stale B" "fst b = 0 \<longrightarrow> snd b = None"
  shows "no_stale (B[i := b])"
  unfolding no_stale_def
proof
  fix x
  assume "x \<in> set (B[i := b])"
  then have "x = b \<or> x \<in> set B" using set_update_subset_insert [of B i b] by auto
  then show "fst x = 0 \<longrightarrow> snd x = None" using assms by (auto simp: no_stale_def)
qed

lemma fts3HashInsertElement_eq:
  assumes "h_ht pH = Some B" "no_stale B" "i < length B"
  shows "fts3HashInsertElement pH i a = insertElement pH (Some i) a"
    and "\<exists>B'. h_ht (fts3HashInsertElement pH i a) = Some B' \<and> no_stale B' \<and> length B' = length B"
    and "keyClass (fts3HashInsertElement pH i a) = keyClass pH"
    and "copyKey (fts3HashInsertElement pH i a) = copyKey pH"
proof -
  have "fst (B ! i) = 0 \<Longrightarrow> snd (B ! i) = None" using assms(2,3) by (simp add: no_stale_def)
  then have "(if fst (B ! i) \<noteq> 0 then snd (B ! i) else None) = snd (B ! i)" by simp
  then show "fts3HashInsertElement pH i a = insertElement pH (Some i) a"
    using assms(1) by (simp add: fts3HashInsertElement_def insertElement_def split: prod.splits)
  show "\<exists>B'. h_ht (fts3HashInsertElement pH i a) = Some B' \<and> no_stale B' \<and> length B' = length B"
    using assms(1) no_stale_update [OF assms(2), of "(fst (B ! i) + 1, Some a)"]
    by (auto simp: fts3HashInsertElement_def split: prod.splits)
qed (use assms in \<open>auto simp: fts3HashInsertElement_def split: prod.splits\<close>)

lemma fts3_relink_eq:
  assumes "relink_loop (fts_idx kc n) p pH = Some pH'" "h_ht pH = Some B" "no_stale B" "length B = n" "pow2 n"
    and "keyClass pH = kc"
  shows "fts3_relink n p pH = Some pH' \<and> (\<exists>B'. h_ht pH' = Some B' \<and> no_stale B' \<and> length B' = n)
    \<and> keyClass pH' = kc \<and> copyKey pH' = copyKey pH"
proof -
  let ?P = "\<lambda>idx p pH pH'. \<forall>B. idx = fts_idx kc n \<longrightarrow> h_ht pH = Some B \<longrightarrow> no_stale B \<longrightarrow> length B = n
    \<longrightarrow> keyClass pH = kc \<longrightarrow> fts3_relink n p pH = Some pH' \<and> (\<exists>B'. h_ht pH' = Some B' \<and> no_stale B' \<and> length B' = n)
    \<and> keyClass pH' = kc \<and> copyKey pH' = copyKey pH"
  have "?P (fts_idx kc n) p pH pH'"
  proof (rule relink_loop.raw_induct [OF _ assms(1), where P = ?P], intro allI impI)
    fix rec idx p and pH pH' :: "'a Fts3Hash" and B
    assume IH: "\<And>i q s r. rec i q s = Some r \<Longrightarrow> ?P i q s r"
      and r: "(case p of None \<Rightarrow> Some pH | Some e \<Rightarrow>
         let h = idx (e_key (h_heap pH e)); next_elem = e_next (h_heap pH e)
         in rec idx next_elem (insertElement pH (Some h) e)) = Some pH'"
      and a: "idx = fts_idx kc n" "h_ht pH = Some B" "no_stale B" "length B = n" "keyClass pH = kc"
    show "fts3_relink n p pH = Some pH' \<and> (\<exists>B'. h_ht pH' = Some B' \<and> no_stale B' \<and> length B' = n)
        \<and> keyClass pH' = kc \<and> copyKey pH' = copyKey pH"
    proof (cases p)
      case None
      then show ?thesis using r a by (subst fts3_relink.simps) auto
    next
      case (Some e)
      let ?i = "fts_idx kc n (e_key (h_heap pH e))"
      have il: "?i < length B" using a(4) pow2_simps(3) [OF assms(5)] by (simp add: fts_idx_less)
      note i = fts3HashInsertElement_eq [OF a(2,3) il, of e]
      obtain B' where B': "h_ht (insertElement pH (Some ?i) e) = Some B'" "no_stale B'" "length B' = n"
        using i(1,2) a(4) by auto
      have "rec idx (e_next (h_heap pH e)) (insertElement pH (Some ?i) e) = Some pH'" using r Some a(1) by simp
      from IH [OF this] B' a(1,5) i(1,3,4)
      have *: "fts3_relink n (e_next (h_heap pH e)) (insertElement pH (Some ?i) e) = Some pH'
          \<and> (\<exists>B'. h_ht pH' = Some B' \<and> no_stale B' \<and> length B' = n) \<and> keyClass pH' = kc \<and> copyKey pH' = copyKey pH"
        by simp
      have "fts3_relink n p pH = fts3_relink n (e_next (h_heap pH e)) (insertElement pH (Some ?i) e)"
        by (subst fts3_relink.simps) (simp add: Some a(5) mask_fts_idx [OF assms(5)] i(1))
      then show ?thesis using * by simp
    qed
  qed
  then show ?thesis using assms by simp
qed

section \<open>Well-formed tables\<close>

definition fts_struct :: "'d Fts3Hash \<Rightarrow> nat list \<Rightarrow> bool" where
  "fts_struct pH xs \<longleftrightarrow> struct_ok (fts_idx (keyClass pH)) pH xs \<and>
     keys_ok (fts_key_ok (keyClass pH)) fts_canon (h_heap pH) xs \<and> fts_buckets pH \<and>
     (h_ht pH = None \<longrightarrow> xs = [])"

definition fts_wf :: "'d Fts3Hash \<Rightarrow> bool" where
  "fts_wf pH \<longleftrightarrow> fts_struct pH (elements pH) \<and> h_count pH = length (elements pH)"

definition fts_map :: "'d Fts3Hash \<Rightarrow> u8 list \<Rightarrow> 'd option" where
  "fts_map pH = table_map fts_canon (h_heap pH) (elements pH)"

lemma fts_structD:
  assumes "fts_struct pH xs"
  shows "dll (h_heap pH) (h_first pH) xs" "keys_ok (fts_key_ok (keyClass pH)) fts_canon (h_heap pH) xs"
    and "h_ht pH = None \<Longrightarrow> h_htsize pH = 0 \<and> xs = []"
    and "h_ht pH = Some B \<Longrightarrow> h_htsize pH = length B \<and> pow2 (length B) \<and> no_stale B \<and> B \<noteq> [] \<and>
      buckets_ok (\<lambda>a. fts_idx (keyClass pH) (length B) (e_key (h_heap pH a))) xs B"
  using assms by (simp_all add: fts_struct_def struct_ok_def fts_buckets_def)

lemma fts_find_loop_seg: "seg h p prev xs q l \<Longrightarrow>
    fts3_find_loop kc h k (length xs) p = find (\<lambda>a. ftsCompareFunction kc (e_key (h a)) k = 0) xs"
  by (induction xs arbitrary: p prev) auto

lemma fts_findElement:
  assumes t: "fts_struct pH xs" and k: "fts_key_ok (keyClass pH) k"
  shows "case fts3FindElementByHash pH k (mask_idx (ftsHashFunction (keyClass pH) k) (h_htsize pH)) of
      None \<Rightarrow> \<forall>a\<in>set xs. fts_canon (e_key (h_heap pH a)) \<noteq> fts_canon k
    | Some a \<Rightarrow> a \<in> set xs \<and> fts_canon (e_key (h_heap pH a)) = fts_canon k
        \<and> h_ht pH \<noteq> None"
proof (cases "h_ht pH")
  case None
  then show ?thesis using fts_structD(3) [OF t] by (simp add: fts3FindElementByHash_def)
next
  case (Some B)
  let ?kc = "keyClass pH"
  let ?Q = "\<lambda>a. ftsCompareFunction ?kc (e_key (h_heap pH a)) k = 0"
  note s = fts_structD [OF t]
  note B = s(4) [OF Some]
  have ok: "fts_key_ok ?kc (e_key (h_heap pH a))" if "a \<in> set xs" for a using s(2) that by (simp add: keys_ok_def)
  define i where "i = fts_idx ?kc (length B) k"
  define vs where "vs = filter (\<lambda>a. fts_idx ?kc (length B) (e_key (h_heap pH a)) = i) xs"
  obtain cnt chain where b: "B ! i = (cnt, chain)" by fastforce
  have il: "i < length B" using B by (simp add: i_def fts_idx_less)
  have bo: "buckets_ok (\<lambda>a. fts_idx (keyClass pH) (length B) (e_key (h_heap pH a))) xs B" using B by blast
  have seg: "cnt = length vs \<and> (vs \<noteq> [] \<longrightarrow> (\<exists>prev q l. seg (h_heap pH) chain prev vs q l))"
    using bucket_seg [OF s(1) bo il b] unfolding vs_def by simp
  then have f: "fts3_find_loop ?kc (h_heap pH) k cnt chain = find ?Q vs"
  proof (cases "vs = []")
    case False
    then show ?thesis using seg fts_find_loop_seg by metis
  qed simp
  have Q: "?Q a \<longleftrightarrow> fts_canon (e_key (h_heap pH a)) = fts_canon k" if "a \<in> set xs" for a
    by (rule fts_compare [OF ok [OF that] k])
  have vs: "a \<in> set vs \<longleftrightarrow> a \<in> set xs" if "fts_canon (e_key (h_heap pH a)) = fts_canon k" for a
    using fts_idx_canon [OF ok k that] by (auto simp: vs_def i_def)
  have "set vs \<subseteq> set xs" by (auto simp: vs_def)
  then have "case find ?Q vs of None \<Rightarrow> \<forall>a\<in>set xs. fts_canon (e_key (h_heap pH a)) \<noteq> fts_canon k
     | Some a \<Rightarrow> a \<in> set xs \<and> fts_canon (e_key (h_heap pH a)) = fts_canon k"
    using vs Q by (auto simp: find_eq_None split: option.splits dest: find_SomeD)
  moreover have "mask_idx (ftsHashFunction ?kc k) (h_htsize pH) = i"
    using B by (simp add: mask_fts_idx i_def)
  then have "fts3FindElementByHash pH k (mask_idx (ftsHashFunction ?kc k) (h_htsize pH)) = find ?Q vs"
    using f b by (simp add: fts3FindElementByHash_def Some)
  ultimately show ?thesis using Some by (simp split: option.splits)
qed

section \<open>Growing\<close>

lemma fts3Rehash_ok:
  assumes t: "fts_struct pH xs" and n: "pow2 n" "malloc (n * sizeof_ht)"
  shows "\<exists>pH' xs'. fts3Rehash malloc pH n = Some (pH', False) \<and> fts_struct pH' xs' \<and> set xs' = set xs
    \<and> length xs' = length xs \<and> same_content (h_heap pH) (h_heap pH') \<and> h_count pH' = h_count pH
    \<and> h_freed pH' = h_freed pH \<and> keyClass pH' = keyClass pH \<and> copyKey pH' = copyKey pH
    \<and> h_htsize pH' = n \<and> h_ht pH' \<noteq> None"
proof -
  let ?kc = "keyClass pH"
  let ?B = "replicate n (0::nat, None)"
  note s = fts_structD [OF t]
  have N: "0 < n" by (rule pow2_simps(3) [OF n(1)])
  define pH0 where "pH0 = pH\<lparr>h_ht := Some ?B, h_htsize := n, h_first := None\<rparr>"
  have 1: "nexts (h_heap pH0) (h_first pH) xs" using dll_nexts [OF s(1)] by (simp add: pH0_def)
  have 2: "buckets_ok (\<lambda>a. fts_idx ?kc n (e_key (h_heap pH0 a))) [] ?B" by (rule buckets_ok_empty [of n]) simp_all
  have 3: "distinct ([] @ xs)" using distinct_keys [OF s(2)] by simp
  have 4: "fts_idx ?kc n k < length ?B" for k using N by (simp add: fts_idx_less)
  have 5: "dll (h_heap pH0) (h_first pH0) []" "h_ht pH0 = Some ?B" by (simp_all add: pH0_def)
  obtain pH' zs B' where r: "relink_loop (fts_idx ?kc n) (h_first pH) pH0 = Some pH'" "dll (h_heap pH') (h_first pH') zs"
      "set zs = set xs" "length zs = length xs" "h_ht pH' = Some B'" "length B' = n"
      "buckets_ok (\<lambda>a. fts_idx ?kc n (e_key (h_heap pH' a))) zs B'" "same_content (h_heap pH0) (h_heap pH')"
      "pH' = pH0\<lparr>h_first := h_first pH', h_ht := h_ht pH', h_heap := h_heap pH'\<rparr>"
    using relink [OF 1 3 5 2 4] by auto
  have e: "fts3_relink n (h_first pH) pH0 = Some pH'" "no_stale B'" "keyClass pH' = ?kc" "copyKey pH' = copyKey pH"
    using fts3_relink_eq [OF r(1) 5(2) _ _ n(1)] r(5) by (auto simp: pH0_def no_stale_def)
  have "fts3Rehash malloc pH n = Some (pH', False)" using n(2) e(1) by (simp add: fts3Rehash_def pH0_def)
  moreover have f: "h_htsize pH' = n" "h_count pH' = h_count pH" "h_freed pH' = h_freed pH"
    by (subst r(9), simp add: pH0_def)+
  moreover have c: "same_content (h_heap pH) (h_heap pH')" using r(8) by (simp add: pH0_def)
  moreover have st: "struct_ok (fts_idx ?kc) pH' zs" using r(2,5,6,7) N f(1) by (auto simp: struct_ok_def)
  moreover have ko: "keys_ok (fts_key_ok ?kc) fts_canon (h_heap pH') zs"
    by (rule keys_ok_cong [OF s(2)]) (use r(3,4) c in \<open>simp_all add: same_content_def\<close>)
  moreover have bo: "fts_buckets pH'" using r(5,6) e(2) n(1) by (simp add: fts_buckets_def)
  moreover have "fts_struct pH' zs" using st ko bo e(3) r(5) by (simp add: fts_struct_def)
  ultimately show ?thesis using r(3,4,5) e(3,4) by (intro exI [of _ pH'] exI [of _ zs]) simp
qed

lemma fts3_grow_ok:
  assumes t: "fts_struct pH xs" and m: "\<forall>n. fm_ht m n"
  shows "\<exists>pH' xs'. fts3_grow m pH = Some (pH', False) \<and> fts_struct pH' xs' \<and> set xs' = set xs
    \<and> length xs' = length xs \<and> same_content (h_heap pH) (h_heap pH') \<and> h_count pH' = h_count pH
    \<and> h_freed pH' = h_freed pH \<and> keyClass pH' = keyClass pH \<and> copyKey pH' = copyKey pH \<and> h_ht pH' \<noteq> None"
proof -
  obtain pH1 xs1 where r1: "(if h_htsize pH = 0 then fts3Rehash (fm_ht m) pH 8 else Some (pH, False)) = Some (pH1, False)"
      "fts_struct pH1 xs1" "set xs1 = set xs" "length xs1 = length xs" "same_content (h_heap pH) (h_heap pH1)"
      "h_count pH1 = h_count pH" "h_freed pH1 = h_freed pH" "keyClass pH1 = keyClass pH" "copyKey pH1 = copyKey pH"
      "h_ht pH1 \<noteq> None"
  proof (cases "h_htsize pH = 0")
    case True
    have "fm_ht m (8 * sizeof_ht)" using m ..
    with fts3Rehash_ok [OF t pow2_simps(1)] True that show thesis by force
  next
    case False
    then have "h_ht pH \<noteq> None" using fts_structD(3) [OF t] by auto
    then show thesis using False t by (intro that [of pH xs]) simp_all
  qed
  show ?thesis
  proof (cases "h_count pH1 \<ge> h_htsize pH1")
    case False
    then show ?thesis using r1 by (intro exI [of _ pH1] exI [of _ xs1]) (simp add: fts3_grow_def)
  next
    case True
    obtain B where "h_ht pH1 = Some B" using r1(10) by blast
    then have "pow2 (h_htsize pH1)" using fts_structD(4) [OF r1(2)] by simp
    note p = pow2_simps(2) [OF this]
    have "fm_ht m (h_htsize pH1 * 2 * sizeof_ht)" using m ..
    from fts3Rehash_ok [of pH1 xs1, OF r1(2) p, of "fm_ht m", OF this]
    obtain pH' xs' where r: "fts3Rehash (fm_ht m) pH1 (h_htsize pH1 * 2) = Some (pH', False)" "fts_struct pH' xs'"
        "set xs' = set xs1" "length xs' = length xs1" "same_content (h_heap pH1) (h_heap pH')"
        "h_count pH' = h_count pH1" "h_freed pH' = h_freed pH1" "keyClass pH' = keyClass pH1"
        "copyKey pH' = copyKey pH1" "h_ht pH' \<noteq> None" by blast
    have "same_content (h_heap pH) (h_heap pH')" by (rule same_content_trans [OF r1(5) r(5)])
    then show ?thesis using r r1 True
      by (intro exI [of _ pH'] exI [of _ xs']) (simp add: fts3_grow_def)
  qed
qed

text \<open>Growth that fails leaves the table as it was, or an empty table with eight buckets.\<close>

lemma fts3_grow_fails:
  assumes t: "fts_struct pH xs" "xs \<noteq> []" and n: "h_count pH \<ge> h_htsize pH" "\<not> fm_ht m (h_htsize pH * 2 * sizeof_ht)"
  shows "fts3_grow m pH = Some (pH, True)"
proof -
  have "h_ht pH \<noteq> None" using fts_structD(3) [OF t(1)] t(2) by auto
  then obtain B where "h_ht pH = Some B" by blast
  then have "h_htsize pH \<noteq> 0" using fts_structD(4) [OF t(1)] by simp
  then show ?thesis using n by (simp add: fts3_grow_def fts3Rehash_def)
qed

section \<open>Storing and deleting\<close>

lemma fts3_remove:
  assumes t: "fts_struct pH xs" and x: "x \<in> set xs"
    and h: "h = mask_idx (ftsHashFunction (keyClass pH) (e_key (h_heap pH x))) (h_htsize pH)"
  shows "\<exists>pH'. fts3RemoveElementByHash pH x h = Some pH' \<and> keyClass pH' = keyClass pH \<and> copyKey pH' = copyKey pH \<and>
     (if h_count pH \<le> 1 then fts_wf pH' \<and> elements pH' = [] \<and>
        (\<exists>gone. h_freed pH' = h_freed pH @ x # gone \<and> set gone = set xs - {x})
      else \<exists>xs'. fts_struct pH' xs' \<and> set xs' = set xs - {x} \<and> same_content (h_heap pH) (h_heap pH') \<and>
        h_count pH' = h_count pH - 1 \<and> h_freed pH' = h_freed pH @ [x] \<and> Suc (length xs') = length xs)"
proof -
  let ?kc = "keyClass pH"
  note s = fts_structD [OF t]
  have st: "struct_ok (fts_idx ?kc) pH xs" using t by (simp add: fts_struct_def)
  obtain B where B: "h_ht pH = Some B" using s(3) x by (cases "h_ht pH") auto
  note B' = s(4) [OF B]
  have hx: "h = fts_idx ?kc (h_htsize pH) (e_key (h_heap pH x))" unfolding h using B' by (simp add: mask_fts_idx)
  obtain first heap where u: "unlink x (h_first pH) (h_heap pH) = (first, heap)" by fastforce
  let ?chain = "\<lambda>B. if fst (B ! h) - 1 = 0 then None else if snd (B ! h) = Some x then e_next (heap x) else snd (B ! h)"
  define pH1 where "pH1 = pH\<lparr>h_first := first, h_heap := heap,
      h_ht := map_option (\<lambda>B. B[h := (fst (B ! h) - 1, ?chain B)]) (h_ht pH),
      h_freed := h_freed pH @ [x], h_count := h_count pH - 1\<rparr>"
  have r: "fts3RemoveElementByHash pH x h = (if h_count pH1 = 0 then sqlite3Fts3HashClear pH1 else Some pH1)"
    by (simp add: fts3RemoveElementByHash_def u pH1_def Let_def)
  have "x \<in> set (filter (\<lambda>a. fts_idx ?kc (length B) (e_key (h_heap pH a)) = h) xs)"
    using x hx B' by simp
  then have "0 < length (filter (\<lambda>a. fts_idx ?kc (length B) (e_key (h_heap pH a)) = h) xs)"
    by (rule length_pos_if_in_set)
  moreover have "h < length B" using hx B' by (simp add: fts_idx_less)
  moreover from this have "fst (B ! h) = length (filter (\<lambda>a. fts_idx ?kc (length B) (e_key (h_heap pH a)) = h) xs)"
    using B' by (simp add: buckets_ok_def bucket_ok_def)
  ultimately have "0 < fst (B ! h)" by simp
  then have c: "?chain B' = (if snd (B' ! h) = Some x then e_next (heap x) else snd (B' ! h))
      \<or> (fst (B' ! h) = 1 \<and> ?chain B' = None)" if "h_ht pH = Some B'" for B'
    using that B by auto
  obtain xs' where x': "struct_ok (fts_idx ?kc) pH1 xs'" "keys_ok (fts_key_ok ?kc) fts_canon heap xs'"
      "set xs' = set xs - {x}" "Suc (length xs') = length xs" "same_content (h_heap pH) heap"
    using unlink_table [OF st s(2) x hx u c pH1_def] by blast
  show ?thesis
  proof (cases "h_count pH \<le> 1")
    case False
    have "fts_buckets pH1" using B B' by (auto simp: fts_buckets_def pH1_def intro!: no_stale_update)
    then have "fts_struct pH1 xs'" using x' B by (simp add: fts_struct_def pH1_def)
    moreover have "h_count pH1 = h_count pH - 1" "h_heap pH1 = heap" "h_freed pH1 = h_freed pH @ [x]"
        "keyClass pH1 = ?kc" "copyKey pH1 = copyKey pH" by (simp_all add: pH1_def)
    ultimately show ?thesis using r x' False by (intro exI [of _ pH1]) auto
  next
    case True
    have n: "nexts (h_heap pH1) (h_first pH1) xs'" using x'(1) by (simp add: struct_ok_def dll_nexts)
    then show ?thesis using True r x'(3)
      by (simp add: sqlite3Fts3HashClear_def free_loop_nexts fts_wf_def fts_struct_def struct_ok_def
          keys_ok_def fts_buckets_def elements_def pH1_def)
  qed
qed

lemma fts_wfI:
  assumes "fts_struct pH xs" "h_count pH = length xs"
  shows "fts_wf pH \<and> elements pH = xs"
proof -
  have "elements pH = xs" using fts_structD(1) [OF assms(1)] assms(2)
    by (auto simp: dll_def elements_def walk_seg)
  then show ?thesis using assms by (simp add: fts_wf_def)
qed

lemma fts_wf_table: "fts_wf pH \<Longrightarrow>
    table_ok (fts_key_ok (keyClass pH)) fts_canon (fts_idx (keyClass pH)) pH (elements pH)"
  by (simp add: fts_wf_def fts_struct_def table_ok_def)

lemma fts_find_ok:
  assumes "fts_struct pH xs" "fts_key_ok (keyClass pH) k"
  shows "sqlite3Fts3HashFind pH k = table_map fts_canon (h_heap pH) xs (fts_canon k)"
proof -
  note s = fts_structD [OF assms(1)]
  let ?e = "fts3FindElementByHash pH k (mask_idx (ftsHashFunction (keyClass pH) k) (h_htsize pH))"
  have e: "sqlite3Fts3HashFindElem pH k = ?e"
    by (simp add: sqlite3Fts3HashFindElem_def fts3FindElementByHash_def split: option.split)
  note f = fts_findElement [OF assms]
  show ?thesis
  proof (cases ?e)
    case None
    then have "table_map fts_canon (h_heap pH) xs (fts_canon k) = None" using f by (simp add: table_map_None)
    then show ?thesis using None by (simp add: sqlite3Fts3HashFind_def e)
  next
    case (Some a)
    then have "table_map fts_canon (h_heap pH) xs (fts_canon k) = Some (e_data (h_heap pH a))"
      using f by (auto simp: table_map_Some [OF s(2)])
    then show ?thesis using Some by (simp add: sqlite3Fts3HashFind_def e)
  qed
qed

lemma fts_delete:
  assumes t: "fts_struct pH xs" and k: "fts_key_ok (keyClass pH) k"
    and e: "fts3FindElementByHash pH k (mask_idx (ftsHashFunction (keyClass pH) k) (h_htsize pH)) = Some e"
  shows "e \<in> set xs" "fts_canon (e_key (h_heap pH e)) = fts_canon k"
    and "\<exists>pH'. sqlite3Fts3HashInsert m pH k None = Some (Some (e_data (h_heap pH e)), pH') \<and>
      keyClass pH' = keyClass pH \<and> copyKey pH' = copyKey pH \<and>
     (if h_count pH \<le> 1 then fts_wf pH' \<and> elements pH' = [] \<and>
        (\<exists>gone. h_freed pH' = h_freed pH @ e # gone \<and> set gone = set xs - {e})
      else \<exists>xs'. fts_struct pH' xs' \<and> set xs' = set xs - {e} \<and> same_content (h_heap pH) (h_heap pH') \<and>
        h_count pH' = h_count pH - 1 \<and> h_freed pH' = h_freed pH @ [e] \<and> Suc (length xs') = length xs)"
proof -
  show x: "e \<in> set xs" "fts_canon (e_key (h_heap pH e)) = fts_canon k"
    using fts_findElement [OF t k] e by simp_all
  have "fts_key_ok (keyClass pH) (e_key (h_heap pH e))" using fts_structD(2) [OF t] x(1) by (simp add: keys_ok_def)
  then have "ftsHashFunction (keyClass pH) (e_key (h_heap pH e)) = ftsHashFunction (keyClass pH) k"
    using x(2) k by (simp add: fts_hash)
  then have h: "mask_idx (ftsHashFunction (keyClass pH) k) (h_htsize pH) =
      mask_idx (ftsHashFunction (keyClass pH) (e_key (h_heap pH e))) (h_htsize pH)" by simp
  have "sqlite3Fts3HashInsert m pH k None = map_option (\<lambda>pH'. (Some (e_data (h_heap pH e)), pH'))
      (fts3RemoveElementByHash pH e (mask_idx (ftsHashFunction (keyClass pH) k) (h_htsize pH)))"
    using e by (simp add: sqlite3Fts3HashInsert_def)
  then show "\<exists>pH'. sqlite3Fts3HashInsert m pH k None = Some (Some (e_data (h_heap pH e)), pH') \<and>
      keyClass pH' = keyClass pH \<and> copyKey pH' = copyKey pH \<and>
     (if h_count pH \<le> 1 then fts_wf pH' \<and> elements pH' = [] \<and>
        (\<exists>gone. h_freed pH' = h_freed pH @ e # gone \<and> set gone = set xs - {e})
      else \<exists>xs'. fts_struct pH' xs' \<and> set xs' = set xs - {e} \<and> same_content (h_heap pH) (h_heap pH') \<and>
        h_count pH' = h_count pH - 1 \<and> h_freed pH' = h_freed pH @ [e] \<and> Suc (length xs') = length xs)"
    using fts3_remove [OF t x(1) h] by (elim exE conjE) (simp only: option.map(2) option.inject prod.inject, blast)
qed

lemma fts_found:
  assumes "fts_struct pH xs" "fts_key_ok (keyClass pH) k" "table_map fts_canon (h_heap pH) xs (fts_canon k) = Some old"
  obtains e where "fts3FindElementByHash pH k (mask_idx (ftsHashFunction (keyClass pH) k) (h_htsize pH)) = Some e"
    "e \<in> set xs" "fts_canon (e_key (h_heap pH e)) = fts_canon k" "e_data (h_heap pH e) = old"
proof -
  note s = fts_structD [OF assms(1)]
  note f = fts_findElement [OF assms(1,2)]
  obtain a where a: "a \<in> set xs" "fts_canon (e_key (h_heap pH a)) = fts_canon k" "e_data (h_heap pH a) = old"
    using assms(3) by (auto simp: table_map_Some [OF s(2)])
  then obtain e where e: "fts3FindElementByHash pH k (mask_idx (ftsHashFunction (keyClass pH) k) (h_htsize pH)) = Some e"
    using f by (auto split: option.splits)
  then have "e \<in> set xs" "fts_canon (e_key (h_heap pH e)) = fts_canon k" using f by simp_all
  moreover have "e = a" by (rule keys_inj [OF s(2) calculation(1) a(1)]) (simp add: calculation(2) a(2))
  ultimately show ?thesis using that e a(3) by blast
qed

lemma fts_replace_ok:
  assumes w: "fts_wf pH" "fts_key_ok (keyClass pH) k" and f: "fts_map pH (fts_canon k) = Some old"
  shows "\<exists>pH'. sqlite3Fts3HashInsert m pH k data = Some (Some old, pH') \<and> fts_wf pH' \<and> keyClass pH' = keyClass pH
    \<and> fts_map pH' = (fts_map pH)(fts_canon k := data)"
proof -
  let ?xs = "elements pH"
  have t: "fts_struct pH ?xs" "h_count pH = length ?xs" using w(1) by (simp_all add: fts_wf_def)
  note ko = fts_structD(2) [OF t(1)]
  obtain e where e: "fts3FindElementByHash pH k (mask_idx (ftsHashFunction (keyClass pH) k) (h_htsize pH)) = Some e"
      "e \<in> set ?xs" "fts_canon (e_key (h_heap pH e)) = fts_canon k" "e_data (h_heap pH e) = old"
    using fts_found [OF t(1) w(2) f [unfolded fts_map_def]] .
  show ?thesis
  proof (cases data)
    case None
    obtain pH' where r: "sqlite3Fts3HashInsert m pH k None = Some (Some old, pH')" "keyClass pH' = keyClass pH"
      "if h_count pH \<le> 1 then fts_wf pH' \<and> elements pH' = [] \<and>
        (\<exists>gone. h_freed pH' = h_freed pH @ e # gone \<and> set gone = set ?xs - {e})
      else \<exists>xs'. fts_struct pH' xs' \<and> set xs' = set ?xs - {e} \<and> same_content (h_heap pH) (h_heap pH') \<and>
        h_count pH' = h_count pH - 1 \<and> h_freed pH' = h_freed pH @ [e] \<and> Suc (length xs') = length ?xs"
      using fts_delete(3) [OF t(1) w(2) e(1)] e(4) by blast
    have "fts_wf pH' \<and> fts_map pH' = (fts_map pH)(fts_canon k := None)"
    proof (cases "h_count pH \<le> 1")
      case True
      then have "?xs = [e]" using t(2) e(2) by (cases ?xs) auto
      then have "fts_map pH = [fts_canon k \<mapsto> old]" using e(3,4) by (simp add: fts_map_def table_map_def)
      moreover have "fts_map pH' = Map.empty" using r(3) True by (simp add: fts_map_def table_map_def)
      ultimately show ?thesis using r(3) True by simp
    next
      case False
      then obtain xs' where x: "fts_struct pH' xs'" "set xs' = set ?xs - {e}" "same_content (h_heap pH) (h_heap pH')"
          "h_count pH' = h_count pH - 1" "Suc (length xs') = length ?xs" using r(3) by auto
      then have w': "fts_wf pH'" "elements pH' = xs'" using fts_wfI [of pH' xs'] t(2) by simp_all
      have "fts_map pH' = (fts_map pH)(fts_canon k := None)"
        unfolding fts_map_def w'(2)
        by (rule table_delete_map [OF ko e(2,3) x(2) fts_structD(2) [OF x(1), unfolded r(2)] x(3)])
      then show ?thesis using w' by simp
    qed
    then show ?thesis using r(1,2) None by blast
  next
    case (Some d)
    let ?pH = "pH\<lparr>h_heap := set_entry e (e_key (h_heap pH e)) d (h_heap pH)\<rparr>"
    have ke: "fts_key_ok (keyClass pH) (e_key (h_heap pH e))" using ko e(2) by (simp add: keys_ok_def)
    note u = table_update [OF fts_wf_table [OF w(1)] e(2) refl ke refl, of d]
    have "fts_struct ?pH ?xs" using u(1) t(1)
      by (simp add: fts_struct_def table_ok_def fts_buckets_def)
    then have x: "fts_wf ?pH" "elements ?pH = ?xs" using fts_wfI [of ?pH ?xs] t(2) by simp_all
    have "sqlite3Fts3HashInsert m pH k data = Some (Some old, ?pH)"
      using e(1,4) Some by (simp add: sqlite3Fts3HashInsert_def)
    moreover have "fts_map ?pH = (fts_map pH)(fts_canon k := data)"
      unfolding fts_map_def x(2) using u(2) e(3) Some by simp
    ultimately show ?thesis using x by (intro exI [of _ ?pH]) simp
  qed
qed

lemma fts_absent:
  assumes w: "fts_wf pH" "fts_key_ok (keyClass pH) k" and f: "fts_map pH (fts_canon k) = None"
  shows "fts3FindElementByHash pH k (mask_idx (ftsHashFunction (keyClass pH) k) (h_htsize pH)) = None"
    and "\<forall>a\<in>set (elements pH). fts_canon (e_key (h_heap pH a)) \<noteq> fts_canon k"
proof -
  have t: "fts_struct pH (elements pH)" using w(1) by (simp add: fts_wf_def)
  show n: "\<forall>a\<in>set (elements pH). fts_canon (e_key (h_heap pH a)) \<noteq> fts_canon k"
    using f by (simp add: fts_map_def table_map_None)
  show "fts3FindElementByHash pH k (mask_idx (ftsHashFunction (keyClass pH) k) (h_htsize pH)) = None"
    using fts_findElement [OF t w(2)] n by (auto split: option.splits)
qed

definition fts_memory_ok :: "fts_memory \<Rightarrow> 'd Fts3Hash \<Rightarrow> bool" where
  "fts_memory_ok m pH \<longleftrightarrow> (\<forall>n. fm_ht m n) \<and> fm_key m \<and> (\<exists>a. fm_elem m = Some a \<and> a \<notin> set (elements pH))"

lemma fts_add_ok:
  assumes w: "fts_wf pH" "fts_key_ok (keyClass pH) k" and f: "fts_map pH (fts_canon k) = None"
    and m: "fts_memory_ok m pH"
  shows "\<exists>pH'. sqlite3Fts3HashInsert m pH k (Some d) = Some (None, pH') \<and> fts_wf pH' \<and> keyClass pH' = keyClass pH
    \<and> fts_map pH' = (fts_map pH)(fts_canon k \<mapsto> d)"
proof -
  let ?kc = "keyClass pH" and ?xs = "elements pH"
  have t: "fts_struct pH ?xs" "h_count pH = length ?xs" using w(1) by (simp_all add: fts_wf_def)
  note ko = fts_structD(2) [OF t(1)]
  note ab = fts_absent [OF w f]
  obtain a where a: "fm_elem m = Some a" "a \<notin> set ?xs" and mk: "fm_key m" "\<forall>n. fm_ht m n"
    using m by (auto simp: fts_memory_ok_def)
  obtain pH1 xs1 where g: "fts3_grow m pH = Some (pH1, False)" "fts_struct pH1 xs1" "set xs1 = set ?xs"
      "length xs1 = length ?xs" "same_content (h_heap pH) (h_heap pH1)" "h_count pH1 = h_count pH"
      "keyClass pH1 = ?kc" "copyKey pH1 = copyKey pH" "h_ht pH1 \<noteq> None"
    using fts3_grow_ok [OF t(1) mk(2)] by blast
  obtain B where B: "h_ht pH1 = Some B" using g(9) by blast
  note B' = fts_structD(4) [OF g(2) B]
  define key where "key = (if copyKey pH1 then (take (nat (snd k)) (fst k), snd k) else k)"
  have key: "fts_key_ok ?kc key" "fts_canon key = fts_canon k"
    using fts_copy [OF w(2)] w(2) by (simp_all add: key_def)
  define pH2 where "pH2 = pH1\<lparr>h_heap := set_entry a key d (h_heap pH1), h_count := h_count pH1 + 1\<rparr>"
  let ?i = "fts_idx ?kc (h_htsize pH2) key"
  have sz: "h_htsize pH2 = length B" "keyClass pH2 = ?kc" "h_ht pH2 = Some B" using B B' g(7) by (simp_all add: pH2_def)
  have il: "?i < length B" using B' sz by (simp add: fts_idx_less)
  have i: "mask_idx (ftsHashFunction ?kc k) (h_htsize pH2) = ?i"
    using B' sz fts_idx_canon [OF w(2) key(1) key(2) [symmetric]] by (simp add: mask_fts_idx)
  let ?pH' = "fts3HashInsertElement pH2 ?i a"
  have ns: "no_stale B" using B' by blast
  note e = fts3HashInsertElement_eq [OF sz(3) ns il, of a]
  have p2: "pH1\<lparr>h_heap := set_entry a key d (h_heap pH1), h_count := Suc (h_count pH1)\<rparr> = pH2"
      "mask_idx (ftsHashFunction ?kc k) (h_htsize pH1) = ?i" using i by (simp_all add: pH2_def)
  have ins: "sqlite3Fts3HashInsert m pH k (Some d) = Some (None, ?pH')"
    using ab(1) g(1,7) a(1) mk(1) p2
    by (simp add: sqlite3Fts3HashInsert_def Let_def key_def [symmetric])
  have same1: "e_key (h_heap pH1 b) = e_key (h_heap pH b)" "e_data (h_heap pH1 b) = e_data (h_heap pH b)" for b
    using g(5) by (simp_all add: same_content_def)
  have kd: "e_key (h_heap pH2 a) = key" "e_data (h_heap pH2 a) = d" "\<forall>b\<in>set ?xs. h_heap pH2 b = h_heap pH1 b"
    using a(2) by (auto simp: pH2_def set_entry_def)
  have a1: "a \<notin> set xs1" using a(2) g(3) by simp
  have "struct_ok (fts_idx ?kc) pH1 xs1" using g(2,7) by (simp add: fts_struct_def)
  then have s2: "struct_ok (fts_idx ?kc) pH2 xs1" unfolding pH2_def by (rule struct_ok_set_entry) (use a1 in blast)
  have k2: "keys_ok (fts_key_ok ?kc) fts_canon (h_heap pH2) xs1"
    by (rule keys_ok_cong [OF ko g(3,4)]) (simp add: same1 kd(3))
  have c2: "h_count pH2 = Suc (length xs1)" using g(4,6) t(2) by (simp add: pH2_def)
  have n2: "\<forall>b\<in>set xs1. fts_canon (e_key (h_heap pH2 b)) \<noteq> fts_canon (e_key (h_heap pH2 a))"
    using ab(2) kd g(3) key(2) by (simp add: same1)
  have ka: "fts_key_ok ?kc (e_key (h_heap pH2 a))" using key(1) kd(1) by simp
  have r: "?pH' = insertElement pH2 (if h_ht pH2 = None then None else Some ?i) a" using e(1) sz(3) by simp
  obtain xs' where x: "table_ok (fts_key_ok ?kc) fts_canon (fts_idx ?kc) ?pH' xs'" "set xs' = insert a (set xs1)"
      "same_content (h_heap pH2) (h_heap ?pH')"
    using insert_table [OF s2 k2 c2 a1 ka n2 _ fts_idx_less r] kd(1) by blast
  have kc: "keyClass ?pH' = ?kc" using e(3) sz(2) by simp
  have "fts_buckets ?pH'" using e(2) B' by (auto simp: fts_buckets_def)
  then have "fts_struct ?pH' xs'" using x(1) kc e(2) by (auto simp: fts_struct_def table_ok_def)
  moreover have "h_count ?pH' = length xs'" using x(1) by (simp add: table_ok_def)
  ultimately have w': "fts_wf ?pH'" "elements ?pH' = xs'" using fts_wfI by blast+
  have same: "e_key (h_heap ?pH' b) = e_key (h_heap pH2 b)" "e_data (h_heap ?pH' b) = e_data (h_heap pH2 b)" for b
    using x(3) by (simp_all add: same_content_def)
  have "keys_ok (fts_key_ok ?kc) fts_canon (h_heap ?pH') xs'" using x(1) by (simp add: table_ok_def)
  then have "fts_map ?pH' = (fts_map pH)(fts_canon k \<mapsto> d)"
    using table_add_map [OF ko, of "h_heap ?pH'" xs' a] x(2) g(3) a(2) kd key(2)
    unfolding fts_map_def w'(2) by (simp add: same same1)
  then show ?thesis using ins w' kc by blast
qed

definition fts_of_class :: "key_class \<Rightarrow> 'd Fts3Hash \<Rightarrow> bool" where
  "fts_of_class kc pH \<longleftrightarrow> fts_wf pH \<and> keyClass pH = kc"

definition fts_lookup :: "'d Fts3Hash \<Rightarrow> fts_key \<Rightarrow> 'd option option" where
  "fts_lookup pH k = Some (sqlite3Fts3HashFind pH k)"

interpretation fts_table: dictionary "fts_of_class kc" fts_map fts_canon "fts_key_ok kc" fts_lookup
    sqlite3Fts3HashInsert fts_memory_ok
  for kc
proof unfold_locales
  fix pH :: "'d Fts3Hash" and k :: fts_key
  assume "fts_of_class kc pH" "fts_key_ok kc k"
  then have w: "fts_wf pH" "fts_key_ok (keyClass pH) k" "keyClass pH = kc" by (simp_all add: fts_of_class_def)
  then show "fts_lookup pH k = Some (fts_map pH (fts_canon k))"
    using fts_find_ok [of pH "elements pH" k] by (simp add: fts_lookup_def fts_map_def fts_wf_def)
  fix m d
  assume m: "fts_memory_ok m pH"
  show "\<exists>s'. sqlite3Fts3HashInsert m pH k d = Some (fts_map pH (fts_canon k), s') \<and> fts_of_class kc s' \<and>
      fts_map s' = (fts_map pH)(fts_canon k := d)"
  proof (cases "fts_map pH (fts_canon k)")
    case (Some old)
    then show ?thesis using fts_replace_ok [OF w(1,2) Some] w(3) by (fastforce simp: fts_of_class_def)
  next
    case None
    show ?thesis
    proof (cases d)
      case (Some x)
      then show ?thesis using fts_add_ok [OF w(1,2) None m, of x] None w(3) by (auto simp: fts_of_class_def)
    next
      case dn: None
      then show ?thesis using fts_absent(1) [OF w(1,2) None] None w
        by (auto simp: sqlite3Fts3HashInsert_def fts_of_class_def fun_upd_idem)
    qed
  qed
qed

lemma fts_of_class_Init: "fts_of_class kc (sqlite3Fts3HashInit pH kc ck)" "fts_map (sqlite3Fts3HashInit pH kc ck) = Map.empty"
  by (simp_all add: fts_of_class_def fts_wf_def fts_struct_def struct_ok_def keys_ok_def fts_buckets_def
      fts_map_def table_map_def elements_def sqlite3Fts3HashInit_def)

section \<open>The contract of the table\<close>

text \<open>
  C37: After any stores and deletions on a freshly initialised full-text hash table, of either
  key class and with or without copies of the keys, as long as the allocator succeeds, every
  operation returns what the key had before, and looking a key up gives the data of the last
  operation on the same bytes.
\<close>

theorem Fts3Hash_history:
  assumes "\<And>pH. fts_of_class kc pH \<Longrightarrow> fts_memory_ok (memory pH) pH"
    and "\<forall>kd\<in>set ops. fts_key_ok kc (fst kd)" "fts_key_ok kc k"
  shows "\<exists>rs pH. run_updates sqlite3Fts3HashInsert memory ops (sqlite3Fts3HashInit pH0 kc ck) = Some (rs, pH) \<and>
    rs = fst (map_updates fts_canon ops Map.empty) \<and>
    sqlite3Fts3HashFind pH k =
      (case find (\<lambda>kd. fts_canon (fst kd) = fts_canon k) (rev ops) of Some kd \<Rightarrow> snd kd | None \<Rightarrow> None)"
  using fts_table.lookup_after_run [of kc "sqlite3Fts3HashInit pH0 kc ck" memory ops k, OF fts_of_class_Init(1) assms]
  by (auto simp: fts_lookup_def fts_of_class_Init(2) map_updates_last)

text \<open>
  When the bucket array cannot grow, the insertion hands its data back, and the table still
  finds what it found; but its element count is reset to zero, so it is not unchanged as the
  comment says: the next deletion of any key that is there empties the whole table.
\<close>

lemma Fts3Hash_failed_growth:
  assumes w: "fts_wf pH" and k: "fts_key_ok (keyClass pH) k" "fts_map pH (fts_canon k) = None"
    and n: "elements pH \<noteq> []" "h_count pH \<ge> h_htsize pH" "\<not> fm_ht m (h_htsize pH * 2 * sizeof_ht)"
  shows "\<exists>pH1. sqlite3Fts3HashInsert m pH k (Some d) = Some (Some d, pH1) \<and> h_count pH1 = 0 \<and>
    (\<forall>k'. fts_key_ok (keyClass pH) k' \<longrightarrow> sqlite3Fts3HashFind pH1 k' = sqlite3Fts3HashFind pH k') \<and>
    (\<forall>k' old m'. fts_key_ok (keyClass pH) k' \<and> sqlite3Fts3HashFind pH k' = Some old \<longrightarrow>
      (\<exists>pH2. sqlite3Fts3HashInsert m' pH1 k' None = Some (Some old, pH2) \<and> fts_wf pH2 \<and> elements pH2 = []))"
proof -
  let ?xs = "elements pH"
  define pH1 where "pH1 = pH\<lparr>h_count := 0\<rparr>"
  have t: "fts_struct pH ?xs" using w by (simp add: fts_wf_def)
  have t1: "fts_struct pH1 ?xs" using t
    by (simp add: fts_struct_def struct_ok_def fts_buckets_def pH1_def split: option.splits)
  have kc: "keyClass pH1 = keyClass pH" "h_heap pH1 = h_heap pH" "h_count pH1 = 0" by (simp_all add: pH1_def)
  have find: "sqlite3Fts3HashFind pH1 k' = sqlite3Fts3HashFind pH k'" if "fts_key_ok (keyClass pH) k'" for k'
    using fts_find_ok [OF t that] fts_find_ok [OF t1] that kc by simp
  have "sqlite3Fts3HashInsert m pH k (Some d) = Some (Some d, pH1)"
    using fts_absent(1) [OF w k] fts3_grow_fails [OF t n]
    by (simp add: sqlite3Fts3HashInsert_def pH1_def)
  moreover have "\<exists>pH2. sqlite3Fts3HashInsert m' pH1 k' None = Some (Some old, pH2) \<and> fts_wf pH2 \<and> elements pH2 = []"
    if "fts_key_ok (keyClass pH) k'" "sqlite3Fts3HashFind pH k' = Some old" for k' old m'
  proof -
    have k': "fts_key_ok (keyClass pH1) k'" using that(1) kc by simp
    have "table_map fts_canon (h_heap pH1) ?xs (fts_canon k') = Some old"
      using fts_find_ok [OF t that(1)] that(2) kc(2) by simp
    then obtain e where e: "fts3FindElementByHash pH1 k' (mask_idx (ftsHashFunction (keyClass pH1) k') (h_htsize pH1)) = Some e"
        "e_data (h_heap pH1 e) = old"
      using fts_found [OF t1 k'] by metis
    show ?thesis using fts_delete(3) [OF t1 k' e(1), of m'] e(2) kc(3) by auto
  qed
  ultimately show ?thesis using find kc(3) by blast
qed

definition fts_above :: "'d Fts3Hash \<Rightarrow> fts_memory" where
  "fts_above pH = \<lparr>fm_ht = \<lambda>_. True, fm_elem = Some (Suc (sum_list (elements pH))), fm_key = True\<rparr>"

lemma fts_above_ok: "fts_memory_ok (fts_above pH) pH"
  using member_le_sum_list [of "Suc (sum_list (elements pH))" "elements pH"]
  by (auto simp: fts_memory_ok_def fts_above_def)

definition two_keys :: "nat Fts3Hash" where
  "two_keys = \<lparr>h_htsize = 1, h_count = 2, h_first = Some 0, h_ht = Some [(2, Some 0)],
     h_heap = (\<lambda>a. if a = 0 then \<lparr>e_next = Some 1, e_prev = None, e_key = ([97], 1), e_data = 10\<rparr>
                   else \<lparr>e_next = None, e_prev = Some 0, e_key = ([98], 1), e_data = 11\<rparr>),
     h_freed = [], keyClass = FTS3_HASH_BINARY, copyKey = False\<rparr>"

lemma two_keys_wf: "fts_wf two_keys" "elements two_keys = [0, 1]"
proof -
  show e: "elements two_keys = [0, 1]" by (simp add: elements_def two_keys_def numeral_2_eq_2)
  have d: "dll (h_heap two_keys) (Some 0) [0, 1]" by (auto simp: dll_def two_keys_def)
  have "bucket_ok (\<lambda>a. True) [0, 1::nat] (2, Some 0)"
    by (simp add: bucket_ok_def contig_Cons) (simp add: contig_def)
  then have b: "buckets_ok (\<lambda>a. 0) [0, 1] [(2, Some 0)]" by (simp add: buckets_ok_def)
  have p: "pow2 1" unfolding pow2_def by (rule exI [of _ 0]) simp
  have "fts_struct two_keys [0, 1]"
    using d b p by (simp add: fts_struct_def struct_ok_def keys_ok_def fts_buckets_def no_stale_def
        two_keys_def fts_idx_def fts_key_ok_def fts_canon_def)
  then show "fts_wf two_keys" using e by (simp add: fts_wf_def) (simp add: two_keys_def)
qed

theorem Fts3Hash_history_witness:
  "\<exists>rs pH. run_updates sqlite3Fts3HashInsert fts_above
      [(([97, 0], 2), Some (1::nat)), (([98, 0], 2), Some 2), (([97, 0, 7], 2), Some 3)]
      (sqlite3Fts3HashInit two_keys FTS3_HASH_STRING True) = Some (rs, pH) \<and> rs = [None, None, Some 1] \<and>
    sqlite3Fts3HashFind pH ([97, 0], 2) = Some 3"
proof -
  let ?ops = "[(([97, 0], 2), Some (1::nat)), (([98, 0], 2), Some 2), (([97, 0, 7], 2), Some 3)] :: (fts_key \<times> nat option) list"
  have 1: "\<forall>kd\<in>set ?ops. fts_key_ok FTS3_HASH_STRING (fst kd)" by (simp add: fts_key_ok_def)
  have 2: "fts_key_ok FTS3_HASH_STRING ([97, 0], 2)" by (simp add: fts_key_ok_def)
  have 3: "fts_canon ([97, 0], 2) = [97, 0]" "fts_canon ([98, 0], 2) = [98, 0]" "fts_canon ([97, 0, 7], 2) = [97, 0]"
    by (simp_all add: fts_canon_def numeral_2_eq_2)
  have 4: "map_updates fts_canon ?ops Map.empty = ([None, None, Some 1],
      Map.empty([97, 0] \<mapsto> 1, [98, 0] \<mapsto> 2, [97, 0] \<mapsto> 3))" by (simp add: 3 Let_def)
  show ?thesis using Fts3Hash_history [OF fts_above_ok 1 2, of two_keys True] by (simp only: 4 fst_conv) (simp add: 3)
qed

lemma Fts3Hash_failed_growth_witness:
  "\<exists>pH1 pH2. sqlite3Fts3HashInsert \<lparr>fm_ht = \<lambda>_. False, fm_elem = Some 5, fm_key = True\<rparr> two_keys ([99], 1) (Some 12)
      = Some (Some 12, pH1) \<and> sqlite3Fts3HashInsert \<lparr>fm_ht = \<lambda>_. True, fm_elem = Some 5, fm_key = True\<rparr> pH1 ([97], 1) None
      = Some (Some 10, pH2) \<and> elements pH2 = []"
proof -
  let ?m = "\<lparr>fm_ht = \<lambda>_. False, fm_elem = Some 5, fm_key = True\<rparr>"
  have t: "fts_struct two_keys [0, 1]" using two_keys_wf by (simp add: fts_wf_def)
  have k: "fts_key_ok (keyClass two_keys) ([99], 1)" "fts_key_ok (keyClass two_keys) ([97], 1)"
    by (simp_all add: fts_key_ok_def two_keys_def)
  have m: "fts_map two_keys = [[98] \<mapsto> 11, [97] \<mapsto> 10]"
    by (simp add: fts_map_def table_map_def two_keys_wf(2)) (simp add: two_keys_def fts_canon_def)
  have c: "fts_canon ([99], 1) = [99]" "fts_canon ([97], 1) = [97]" by (simp_all add: fts_canon_def)
  have n: "h_htsize two_keys \<le> h_count two_keys" by (simp add: two_keys_def)
  have f: "sqlite3Fts3HashFind two_keys ([97], 1) = Some 10"
    using fts_find_ok [OF t k(2)] m by (simp add: fts_map_def two_keys_wf(2) c)
  have a: "fts_map two_keys (fts_canon ([99], 1)) = None" by (simp add: m c)
  show ?thesis
    using Fts3Hash_failed_growth [OF two_keys_wf(1) k(1) a _ n, of ?m 12] two_keys_wf(2) f k(2) by fastforce
qed

end
