(* ===== verification/Complete.thy ===== *)
theory Complete
  imports Ctype "HOL-Library.Sublist"
begin

text \<open>
  \<open>sqlite3_complete\<close> (\<open>Example/Pods/WCDBOptimizedSQLCipher/src/complete.c\<close>): whether a text is
  one or more complete SQL statements. A scanner cuts the text into tokens, and a table of
  eight states follows them, so that a semicolon inside a trigger does not end the statement.
  The text is the list of its bytes before the terminator.
\<close>

section \<open>Tokens\<close>

definition tkSEMI :: nat where "tkSEMI = 0"
definition tkWS :: nat where "tkWS = 1"
definition tkOTHER :: nat where "tkOTHER = 2"
definition tkEXPLAIN :: nat where "tkEXPLAIN = 3"
definition tkCREATE :: nat where "tkCREATE = 4"
definition tkTEMP :: nat where "tkTEMP = 5"
definition tkTRIGGER :: nat where "tkTRIGGER = 6"
definition tkEND :: nat where "tkEND = 7"

lemmas token_defs = tkSEMI_def tkWS_def tkOTHER_def tkEXPLAIN_def tkCREATE_def tkTEMP_def
  tkTRIGGER_def tkEND_def

definition trans_table :: "nat list list" where
  "trans_table =
    [[1, 0, 2, 3, 4, 2, 2, 2],
     [1, 1, 2, 3, 4, 2, 2, 2],
     [1, 2, 2, 2, 2, 2, 2, 2],
     [1, 3, 3, 2, 4, 2, 2, 2],
     [1, 4, 2, 2, 2, 4, 5, 2],
     [6, 5, 5, 5, 5, 5, 5, 5],
     [6, 6, 5, 5, 5, 5, 5, 7],
     [1, 7, 5, 5, 5, 5, 5, 5]]"

definition bytes :: "string \<Rightarrow> cstring" where
  "bytes s = map of_char s"

section \<open>The scanner\<close>

text \<open>
  One turn of the switch: a token and the text after it, or a return from inside: of 0 for an
  unterminated comment or quote, of \<open>state == 1\<close> for a line comment that ends the text.
\<close>

datatype scan = Token nat cstring | Return_0 | Return_state

text \<open>Past the closing \<open>*/\<close>.\<close>

fun skip_comment :: "cstring \<Rightarrow> cstring option" where
  "skip_comment [] = None"
| "skip_comment (c # z) = (if c = 42 \<and> hd0 z = 47 then Some (tl z) else skip_comment z)"

fun skip_to :: "u8 \<Rightarrow> cstring \<Rightarrow> cstring option" where
  "skip_to q [] = None"
| "skip_to q (c # z) = (if c = q then Some z else skip_to q z)"

definition word_token :: "cstring \<Rightarrow> nat \<Rightarrow> nat" where
  "word_token z nId =
     (let is = (\<lambda>w. sqlite3_strnicmp (Some z) (Some w) (int nId) = 0);
          c = hd0 z
      in if c = 99 \<or> c = 67 then
           (if nId = 6 \<and> is (bytes ''create'') then tkCREATE else tkOTHER)
         else if c = 116 \<or> c = 84 then
           (if nId = 7 \<and> is (bytes ''trigger'') then tkTRIGGER
            else if nId = 4 \<and> is (bytes ''temp'') then tkTEMP
            else if nId = 9 \<and> is (bytes ''temporary'') then tkTEMP
            else tkOTHER)
         else if c = 101 \<or> c = 69 then
           (if nId = 3 \<and> is (bytes ''end'') then tkEND
            else if nId = 7 \<and> is (bytes ''explain'') then tkEXPLAIN
            else tkOTHER)
         else tkOTHER)"

definition scan_token :: "u8 \<Rightarrow> cstring \<Rightarrow> scan" where
  "scan_token c r =
     (if c = 59 then Token tkSEMI r
      else if c = 32 \<or> c = 13 \<or> c = 9 \<or> c = 10 \<or> c = 12 then Token tkWS r
      else if c = 47 then
        (if hd0 r \<noteq> 42 then Token tkOTHER r
         else case skip_comment (tl r) of None \<Rightarrow> Return_0 | Some z \<Rightarrow> Token tkWS z)
      else if c = 45 then
        (if hd0 r \<noteq> 45 then Token tkOTHER r
         else case skip_to 10 r of None \<Rightarrow> Return_state | Some z \<Rightarrow> Token tkWS z)
      else if c = 91 then
        (case skip_to 93 r of None \<Rightarrow> Return_0 | Some z \<Rightarrow> Token tkOTHER z)
      else if c = 96 \<or> c = 34 \<or> c = 39 then
        (case skip_to c r of None \<Rightarrow> Return_0 | Some z \<Rightarrow> Token tkOTHER z)
      else if IdChar c then
        (let nId = length (takeWhile IdChar (c # r))
         in Token (word_token (c # r) nId) (drop nId (c # r)))
      else Token tkOTHER r)"

lemma skip_comment_shorter: "skip_comment z = Some z' \<Longrightarrow> length z' < length z"
  by (induction z) (auto split: if_splits)

lemma skip_to_shorter: "skip_to q z = Some z' \<Longrightarrow> length z' < length z"
  by (induction z) (auto split: if_splits)

lemma scan_token_shorter:
  assumes "scan_token c r = Token t z"
  shows "length z \<le> length r"
proof (cases "IdChar c")
  case True
  then have "length (drop (length (takeWhile IdChar (c # r))) (c # r)) \<le> length r" by simp
  then show ?thesis using assms skip_comment_shorter [of "tl r"] skip_to_shorter [of _ r]
    unfolding scan_token_def Let_def by (auto split: if_splits option.splits simp del: takeWhile.simps drop_Suc_Cons dest!: less_imp_le)
next
  case False
  then show ?thesis using assms skip_comment_shorter [of "tl r"] skip_to_shorter [of _ r]
    unfolding scan_token_def Let_def by (auto split: if_splits option.splits dest!: less_imp_le)
qed

function complete_loop :: "nat \<Rightarrow> cstring \<Rightarrow> bool" where
  "complete_loop state [] = (state = 1)"
| "complete_loop state (c # z) =
     (case scan_token c z of
        Token token z \<Rightarrow> complete_loop (trans_table ! state ! token) z
      | Return_0 \<Rightarrow> False
      | Return_state \<Rightarrow> state = 1)"
  by pat_completeness auto
termination
  by (relation "measure (\<lambda>(s, z). length z)") (auto dest: scan_token_shorter)

definition sqlite3_complete :: "cstring \<Rightarrow> bool" where
  "sqlite3_complete zSql = complete_loop 0 zSql"

section \<open>Complete statements\<close>

text \<open>The tokens of a text; \<open>None\<close> when a comment or a quote is not closed.\<close>

function tokens :: "cstring \<Rightarrow> nat list option" where
  "tokens [] = Some []"
| "tokens (c # z) =
     (case scan_token c z of
        Token token z \<Rightarrow> map_option ((#) token) (tokens z)
      | Return_0 \<Rightarrow> None
      | Return_state \<Rightarrow> Some [])"
  by pat_completeness auto
termination
  by (relation "measure length") (auto dest: scan_token_shorter)

text \<open>
  What may open a trigger: \<open>CREATE\<close>, any number of \<open>TEMP\<close>, \<open>TRIGGER\<close>, possibly after
  \<open>EXPLAIN\<close> and ordinary tokens. The result is what follows.
\<close>

fun temp_trigger :: "nat list \<Rightarrow> nat list option" where
  "temp_trigger [] = None"
| "temp_trigger (t # w) = (if t = tkTEMP then temp_trigger w else if t = tkTRIGGER then Some w else None)"

fun create_trigger :: "nat list \<Rightarrow> nat list option" where
  "create_trigger [] = None"
| "create_trigger (t # w) = (if t = tkOTHER then create_trigger w else if t = tkCREATE then temp_trigger w else None)"

fun trigger_intro :: "nat list \<Rightarrow> nat list option" where
  "trigger_intro [] = None"
| "trigger_intro (t # w) = (if t = tkEXPLAIN then create_trigger w else if t = tkCREATE then temp_trigger w else None)"

definition ends_in_semi :: "nat list \<Rightarrow> bool" where
  "ends_in_semi w \<longleftrightarrow> w \<noteq> [] \<and> last w = tkSEMI \<and> tkSEMI \<notin> set (butlast w)"

definition ends_in_end :: "nat list \<Rightarrow> bool" where
  "ends_in_end w \<longleftrightarrow> suffix [tkSEMI, tkEND, tkSEMI] w \<and> \<not> sublist [tkSEMI, tkEND, tkSEMI] (butlast w)"

text \<open>
  A statement ends at its first semicolon, one that creates a trigger at its first
  semicolon, \<open>END\<close>, semicolon.
\<close>

definition statement :: "nat list \<Rightarrow> bool" where
  "statement w = (case trigger_intro w of Some v \<Rightarrow> ends_in_end v | None \<Rightarrow> ends_in_semi w)"

section \<open>The state machine recognises them\<close>

definition trans :: "nat \<Rightarrow> nat \<Rightarrow> nat" where
  "trans s t = trans_table ! s ! t"

definition run :: "nat \<Rightarrow> nat list \<Rightarrow> nat" where
  "run s ts = foldl trans s ts"

lemma run_simps [simp]: "run s [] = s" "run s (t # ts) = run (trans s t) ts" "run s (ts @ us) = run (run s ts) us"
  by (simp_all add: run_def)

lemma complete_loop_tokens:
  "complete_loop s z = (case tokens z of None \<Rightarrow> False | Some ts \<Rightarrow> run s ts = 1)"
  by (induction s z rule: complete_loop.induct) (auto simp: trans_def split: scan.splits option.splits)

definition is_token :: "nat \<Rightarrow> bool" where
  "is_token t \<longleftrightarrow> t \<in> {0, 2, 3, 4, 5, 6, 7}"

lemma scan_token_range: "scan_token c r = Token t z \<Longrightarrow> t = tkWS \<or> is_token t"
  unfolding scan_token_def word_token_def Let_def
  by (auto simp: token_defs is_token_def split: if_splits option.splits)

lemma tokens_range: "tokens z = Some ts \<Longrightarrow> \<forall>t\<in>set ts. t = tkWS \<or> is_token t"
proof (induction z arbitrary: ts rule: tokens.induct)
  case (2 c z)
  show ?case
  proof (cases "scan_token c z")
    case (Token t z')
    then obtain us where "tokens z' = Some us" "ts = t # us" using "2.prems" by auto
    then show ?thesis using "2.IH" [OF Token] scan_token_range [OF Token] by simp
  qed (use "2.prems" in auto)
qed simp

lemma trans_ws: "s < 8 \<Longrightarrow> trans s tkWS = s"
  by (auto simp: trans_def trans_table_def token_defs less_Suc_eq numeral_eq_Suc)

lemma trans_less: "s < 8 \<Longrightarrow> t = tkWS \<or> is_token t \<Longrightarrow> trans s t < 8"
  by (auto simp: trans_def trans_table_def token_defs is_token_def less_Suc_eq numeral_eq_Suc)

lemma run_no_ws: "s < 8 \<Longrightarrow> \<forall>t\<in>set ts. t = tkWS \<or> is_token t \<Longrightarrow>
    run s ts = run s (filter (\<lambda>t. t \<noteq> tkWS) ts)"
  by (induction ts arbitrary: s) (auto simp: trans_ws trans_less)

lemma trans_rows:
  assumes "is_token t"
  shows "trans 0 t = trans 1 t"
    and "trans 1 t = (if t = 0 then 1 else if t = 3 then 3 else if t = 4 then 4 else 2)"
    and "trans 2 t = (if t = 0 then 1 else 2)"
    and "trans 3 t = (if t = 0 then 1 else if t = 2 then 3 else if t = 4 then 4 else 2)"
    and "trans 4 t = (if t = 0 then 1 else if t = 5 then 4 else if t = 6 then 5 else 2)"
    and "trans 5 t = (if t = 0 then 6 else 5)"
    and "trans 6 t = (if t = 0 then 6 else if t = 7 then 7 else 5)"
    and "trans 7 t = (if t = 0 then 1 else 5)"
  using assms by (auto simp: trans_def trans_table_def is_token_def)

text \<open>\<open>first s w\<close>: from state \<open>s\<close>, the machine comes to state 1 at the end of \<open>w\<close> and not before.\<close>

fun first :: "nat \<Rightarrow> nat list \<Rightarrow> bool" where
  "first s [] = False"
| "first s (t # w) = (if trans s t = 1 then w = [] else first (trans s t) w)"

lemma first_run: "first s w \<Longrightarrow> run s w = 1 \<and> w \<noteq> []"
  by (induction s w rule: first.induct) (auto split: if_splits)

lemma run_first: "ts \<noteq> [] \<Longrightarrow> run s ts = 1 \<Longrightarrow> \<exists>w rest. ts = w @ rest \<and> first s w \<and> run 1 rest = 1"
proof (induction ts arbitrary: s)
  case (Cons t ts)
  show ?case
  proof (cases "trans s t = 1")
    case True
    then show ?thesis using Cons.prems by (intro exI [of _ "[t]"] exI [of _ ts]) simp
  next
    case False
    then have "ts \<noteq> []" "run (trans s t) ts = 1" using Cons.prems by auto
    then obtain w rest where "ts = w @ rest" "first (trans s t) w" "run 1 rest = 1" using Cons.IH by blast
    then show ?thesis using False by (intro exI [of _ "t # w"] exI [of _ rest]) simp
  qed
qed simp

lemma run_concat: "run 1 ts = 1 \<longleftrightarrow> (\<exists>ws. ts = concat ws \<and> (\<forall>w\<in>set ws. first 1 w))"
proof
  show "run 1 ts = 1 \<Longrightarrow> \<exists>ws. ts = concat ws \<and> (\<forall>w\<in>set ws. first 1 w)"
  proof (induction "length ts" arbitrary: ts rule: less_induct)
    case less
    show ?case
    proof (cases "ts = []")
      case True
      then show ?thesis by (intro exI [of _ "[]"]) simp
    next
      case False
      then obtain w rest where w: "ts = w @ rest" "first 1 w" "run 1 rest = 1" using run_first less.prems by blast
      then have "length rest < length ts" using first_run by fastforce
      then obtain ws where "rest = concat ws" "\<forall>w\<in>set ws. first 1 w" using less.hyps w(3) by blast
      then show ?thesis using w by (intro exI [of _ "w # ws"]) simp
    qed
  qed
  assume "\<exists>ws. ts = concat ws \<and> (\<forall>w\<in>set ws. first 1 w)"
  then obtain ws where "ts = concat ws" "\<forall>w\<in>set ws. first 1 w" by blast
  then show "run 1 ts = 1" by (induction ws arbitrary: ts) (auto dest: first_run)
qed

lemma first_2: "\<forall>t\<in>set w. is_token t \<Longrightarrow> first 2 w = ends_in_semi w"
  by (induction w) (auto simp: trans_rows ends_in_semi_def token_defs split: if_splits)

lemma ends_in_end_rules:
  "\<not> ends_in_end []" "\<not> ends_in_end [0]" "\<not> ends_in_end [0, 7]"
  "t \<noteq> 0 \<Longrightarrow> ends_in_end (t # w) = ends_in_end w"
  "ends_in_end (0 # 0 # w) = ends_in_end (0 # w)"
  "ends_in_end (0 # 7 # 0 # w) = (w = [])"
  "t \<noteq> 0 \<Longrightarrow> ends_in_end (0 # 7 # t # w) = ends_in_end w"
  "t \<noteq> 0 \<Longrightarrow> t \<noteq> 7 \<Longrightarrow> ends_in_end (0 # t # w) = ends_in_end w"
  by (auto simp: ends_in_end_def token_defs suffix_Cons sublist_Cons_right prefix_Cons split: if_splits)

lemma first_trigger: "\<forall>t\<in>set w. is_token t \<Longrightarrow>
    first 5 w = ends_in_end w \<and> first 6 w = ends_in_end (0 # w) \<and> first 7 w = ends_in_end (0 # 7 # w)"
  by (induction w) (auto simp: trans_rows ends_in_end_rules)

lemma first_temp: "\<forall>t\<in>set w. is_token t \<Longrightarrow>
    first 4 w = (case temp_trigger w of Some v \<Rightarrow> ends_in_end v | None \<Rightarrow> ends_in_semi w)"
proof (induction w)
  case (Cons t w)
  then have "is_token t" "\<forall>t\<in>set w. is_token t" by simp_all
  then show ?case using Cons.IH first_2 [of w] first_trigger [of w]
    by (auto simp: trans_rows token_defs ends_in_semi_def split: option.splits)
qed (simp add: ends_in_semi_def)

lemma first_explain: "\<forall>t\<in>set w. is_token t \<Longrightarrow>
    first 3 w = (case create_trigger w of Some v \<Rightarrow> ends_in_end v | None \<Rightarrow> ends_in_semi w)"
proof (induction w)
  case (Cons t w)
  then have "is_token t" "\<forall>t\<in>set w. is_token t" by simp_all
  then show ?case using Cons.IH first_2 [of w] first_temp [of w]
    by (auto simp: trans_rows token_defs ends_in_semi_def split: option.splits)
qed (simp add: ends_in_semi_def)

lemma first_statement: "\<forall>t\<in>set w. is_token t \<Longrightarrow> first 1 w = statement w"
proof (cases w)
  case (Cons t v)
  assume "\<forall>t\<in>set w. is_token t"
  then have t: "is_token t" and v: "\<forall>t\<in>set v. is_token t" using Cons by simp_all
  have s: "ends_in_semi (u # v) = (if u = 0 then v = [] else ends_in_semi v)" for u
    by (auto simp: ends_in_semi_def token_defs)
  show ?thesis
    unfolding Cons statement_def trigger_intro.simps first.simps trans_rows(2) [OF t] token_defs
    using first_2 [OF v] first_temp [OF v] first_explain [OF v] by (simp add: s split: option.splits)
qed (simp add: statement_def ends_in_semi_def)

lemma run_statements:
  assumes "\<forall>t\<in>set ts. is_token t"
  shows "run 1 ts = 1 \<longleftrightarrow> (\<exists>ws. ts = concat ws \<and> (\<forall>w\<in>set ws. statement w))"
proof -
  have "(\<forall>w\<in>set ws. first 1 w) \<longleftrightarrow> (\<forall>w\<in>set ws. statement w)" if "ts = concat ws" for ws
  proof (rule ball_cong [OF refl])
    fix w
    assume "w \<in> set ws"
    then show "first 1 w = statement w" using assms that by (intro first_statement) auto
  qed
  then show ?thesis unfolding run_concat by blast
qed

text \<open>
  C38: \<open>sqlite3_complete\<close> accepts exactly the texts whose comments and quotes are closed (a
  line comment may end the text) and whose tokens, white space and comments left out, are one
  or more statements: each ended by its first semicolon, or, when it opens with \<open>CREATE\<close>,
  \<open>TEMP\<close> any number of times, \<open>TRIGGER\<close>, possibly explained, by its first \<open>; END ;\<close>.
\<close>

theorem complete_statements:
  "sqlite3_complete z \<longleftrightarrow>
     (case tokens z of
        None \<Rightarrow> False
      | Some ts \<Rightarrow> \<exists>ws. ws \<noteq> [] \<and> filter (\<lambda>t. t \<noteq> tkWS) ts = concat ws \<and> list_all statement ws)"
proof (cases "tokens z")
  case None
  then show ?thesis by (simp add: sqlite3_complete_def complete_loop_tokens)
next
  case (Some ts)
  let ?us = "filter (\<lambda>t. t \<noteq> tkWS) ts"
  have r: "\<forall>t\<in>set ts. t = tkWS \<or> is_token t" by (rule tokens_range [OF Some])
  then have us: "\<forall>t\<in>set ?us. is_token t" by auto
  have "sqlite3_complete z \<longleftrightarrow> run 0 ?us = 1"
    using Some run_no_ws [OF _ r, of 0] by (simp add: sqlite3_complete_def complete_loop_tokens)
  also have "\<dots> \<longleftrightarrow> ?us \<noteq> [] \<and> run 1 ?us = 1" using us by (cases ?us) (auto simp: trans_rows(1))
  also have "\<dots> \<longleftrightarrow> (\<exists>ws. ws \<noteq> [] \<and> ?us = concat ws \<and> list_all statement ws)"
  proof -
    have e: "\<not> statement []" by (simp add: statement_def ends_in_semi_def)
    show ?thesis unfolding run_statements [OF us] list_all_iff
    proof (intro iffI conjI; elim exE conjE)
      fix ws
      assume "?us \<noteq> []" "?us = concat ws" "\<forall>w\<in>set ws. statement w"
      then show "\<exists>ws. ws \<noteq> [] \<and> ?us = concat ws \<and> (\<forall>w\<in>set ws. statement w)" by (intro exI [of _ ws]) auto
    next
      fix ws
      assume w: "ws \<noteq> []" "?us = concat ws" "\<forall>w\<in>set ws. statement w"
      then obtain w ws' where "ws = w # ws'" by (cases ws) auto
      then show "?us \<noteq> []" using w e by auto
      show "\<exists>ws. ?us = concat ws \<and> (\<forall>w\<in>set ws. statement w)" using w by blast
    qed
  qed
  finally show ?thesis using Some by simp
qed

end
