(* ===== verification/Bitvec.thy ===== *)
theory Bitvec
  imports Prelude
begin

text \<open>
  The sparse bitmap of the pager (\<open>Example/Pods/WCDBOptimizedSQLCipher/src/bitvec.c\<close>): which
  pages of a database are journalled. An object is a straight bitmap, an open-addressing hash
  table, or an array of smaller bitmaps, and changes its form as it fills. Numbers are
  naturals below \<open>2 ^ 32\<close>; the sizes are those of 64-bit pointers. \<open>None\<close> is undefined
  behaviour: an index outside an array, or a probe that never finds a free slot. The
  allocations of an operation succeed or fail as a list of booleans says; past its end they
  succeed.
\<close>

section \<open>State\<close>

definition BITVEC_SZ :: nat where "BITVEC_SZ = 512"
definition BITVEC_USIZE :: nat where "BITVEC_USIZE = (BITVEC_SZ - 3 * 4) div 8 * 8"
definition BITVEC_SZELEM :: nat where "BITVEC_SZELEM = 8"
definition BITVEC_NELEM :: nat where "BITVEC_NELEM = BITVEC_USIZE div 1"
definition BITVEC_NBIT :: nat where "BITVEC_NBIT = BITVEC_NELEM * BITVEC_SZELEM"
definition BITVEC_NINT :: nat where "BITVEC_NINT = BITVEC_USIZE div 4"
definition BITVEC_MXHASH :: nat where "BITVEC_MXHASH = BITVEC_NINT div 2"
definition BITVEC_HASH :: "nat \<Rightarrow> nat" where "BITVEC_HASH x = x * 1 mod BITVEC_NINT"
definition BITVEC_NPTR :: nat where "BITVEC_NPTR = BITVEC_USIZE div 8"

lemma BITVEC_simps [simp]:
  "BITVEC_SZELEM = 8" "BITVEC_NELEM = 496" "BITVEC_NBIT = 3968" "BITVEC_NINT = 124"
  "BITVEC_MXHASH = 62" "BITVEC_HASH x = x mod 124" "BITVEC_NPTR = 62"
  by (simp_all add: BITVEC_SZELEM_def BITVEC_NELEM_def BITVEC_NBIT_def BITVEC_NINT_def
      BITVEC_MXHASH_def BITVEC_HASH_def BITVEC_NPTR_def BITVEC_USIZE_def BITVEC_SZ_def)

text \<open>The union is whatever the size and the divisor make of it.\<close>

datatype Bitvec =
  Bitvec (iSize: nat) (nSet: nat) (iDivisor: nat) (bv_u: bv_union)
and bv_union =
  aBitmap "u8 list" | aHash "nat list" | apSub "Bitvec option list"

section \<open>Operations\<close>

text \<open>A zeroed object.\<close>

definition bv_zero :: "nat \<Rightarrow> Bitvec" where
  "bv_zero n = Bitvec n 0 0
     (if n \<le> BITVEC_NBIT then aBitmap (replicate BITVEC_NELEM 0) else aHash (replicate BITVEC_NINT 0))"

definition sqlite3BitvecCreate :: "bool list \<Rightarrow> nat \<Rightarrow> Bitvec option \<times> bool list" where
  "sqlite3BitvecCreate mem n = (let (ok, mem) = alloc mem in (if ok then Some (bv_zero n) else None, mem))"

text \<open>The probe loop of the test; every slot is seen within \<open>BITVEC_NINT\<close> steps.\<close>

primrec test_probe :: "nat \<Rightarrow> nat list \<Rightarrow> nat \<Rightarrow> nat \<Rightarrow> bool option" where
  "test_probe 0 a h i = None"
| "test_probe (Suc n) a h i =
     (if a ! h \<noteq> 0 then
        (if a ! h = i then Some True else test_probe n a ((h + 1) mod BITVEC_NINT) i)
      else Some False)"

text \<open>The loops of \<open>sqlite3BitvecTestNotNull\<close>, from the zero-based index on.\<close>

function test_loop :: "Bitvec \<Rightarrow> nat \<Rightarrow> bool option" where
  "test_loop (Bitvec s ns d (apSub subs)) i =
     (if i div d < length subs then
        (case subs ! (i div d) of
           None \<Rightarrow> Some False
         | Some p \<Rightarrow> test_loop p (i mod d))
      else None)"
| "test_loop (Bitvec s ns d (aBitmap bm)) i =
     (if i div BITVEC_SZELEM < length bm
      then Some (bm ! (i div BITVEC_SZELEM) AND push_bit (i mod BITVEC_SZELEM) 1 \<noteq> 0) else None)"
| "test_loop (Bitvec s ns d (aHash a)) i = test_probe BITVEC_NINT a (BITVEC_HASH i) (i + 1)"
  by (metis Bitvec.exhaust bv_union.exhaust surj_pair) auto
termination
proof (relation "measure (\<lambda>(p, i). size p)")
  fix s ns d and subs :: "Bitvec option list" and i p
  assume "i div d < length subs" "subs ! (i div d) = Some p"
  then have "Some p \<in> set subs" by (metis nth_mem)
  then have "size_option size (Some p) \<le> size_list (size_option size) subs" by (rule size_list_estimation') simp
  then show "((p, i mod d), Bitvec s ns d (apSub subs), i) \<in> measure (\<lambda>(p, i). size p)" by simp
qed simp

definition sqlite3BitvecTestNotNull :: "Bitvec \<Rightarrow> nat \<Rightarrow> bool option" where
  "sqlite3BitvecTestNotNull p i =
     (let i = (i + 2 ^ 32 - 1) mod 2 ^ 32 in if i \<ge> iSize p then Some False else test_loop p i)"

definition sqlite3BitvecTest :: "Bitvec option \<Rightarrow> nat \<Rightarrow> bool option" where
  "sqlite3BitvecTest p i = (case p of None \<Rightarrow> Some False | Some p \<Rightarrow> sqlite3BitvecTestNotNull p i)"

text \<open>The collision loop of the set: \<open>Some None\<close> when the value is there, else the free slot.\<close>

primrec set_probe :: "nat \<Rightarrow> nat list \<Rightarrow> nat \<Rightarrow> nat \<Rightarrow> nat option option" where
  "set_probe 0 a h i = None"
| "set_probe (Suc n) a h i =
     (if a ! h = i then Some None
      else let h = h + 1; h = (if h \<ge> BITVEC_NINT then 0 else h)
           in if a ! h \<noteq> 0 then set_probe n a h i else Some (Some h))"

text \<open>
  \<open>sqlite3BitvecSet\<close>, with fuel for its loop into the sub-bitmaps and its recursion: 10 is
  always enough, as is proved below. The result is the code, the object and the allocations left.
\<close>

primrec set_fuel :: "nat \<Rightarrow> bool list \<Rightarrow> Bitvec \<Rightarrow> nat \<Rightarrow> (nat \<times> Bitvec \<times> bool list) option" where
  "set_fuel 0 mem p i = None"
| "set_fuel (Suc n) mem p i =
     (let i = i - 1 in
      case bv_u p of
        apSub subs \<Rightarrow>
          let bin = i div iDivisor p; i = i mod iDivisor p
          in if bin < length subs then
               (let (sub, mem) = (case subs ! bin of
                      None \<Rightarrow> sqlite3BitvecCreate mem (iDivisor p) | Some q \<Rightarrow> (Some q, mem))
                in case sub of
                     None \<Rightarrow> Some (SQLITE_NOMEM, p, mem)
                   | Some q \<Rightarrow> do {
                       (rc, q, mem) \<leftarrow> set_fuel n mem q (i + 1);
                       Some (rc, Bitvec (iSize p) (nSet p) (iDivisor p) (apSub (subs[bin := Some q])), mem) })
             else None
      | aBitmap bm \<Rightarrow>
          if i div BITVEC_SZELEM < length bm then
            Some (SQLITE_OK, Bitvec (iSize p) (nSet p) (iDivisor p)
              (aBitmap (bm[i div BITVEC_SZELEM := bm ! (i div BITVEC_SZELEM) OR push_bit (i mod BITVEC_SZELEM) 1])), mem)
          else None
      | aHash a \<Rightarrow>
          let h = BITVEC_HASH i; i = i + 1;
              add = (\<lambda>h. Some (SQLITE_OK, Bitvec (iSize p) (nSet p + 1) (iDivisor p) (aHash (a[h := i])), mem));
              rehash = (\<lambda>h.
                if nSet p \<ge> BITVEC_MXHASH then
                  (let (ok, mem) = alloc mem
                   in if \<not> ok then Some (SQLITE_NOMEM, p, mem)
                      else
                        let p = Bitvec (iSize p) (nSet p) ((iSize p + BITVEC_NPTR - 1) div BITVEC_NPTR)
                                  (apSub (replicate BITVEC_NPTR None))
                        in foldl (\<lambda>r v. do {
                                    (rc, p, mem) \<leftarrow> r;
                                    if v \<noteq> 0 then do {
                                      (rc', p, mem) \<leftarrow> set_fuel n mem p v;
                                      Some (rc OR rc', p, mem) }
                                    else Some (rc, p, mem) })
                             (set_fuel n mem p i) a)
                else add h)
          in if a ! h = 0 then
               (if nSet p < BITVEC_NINT - 1 then add h else rehash h)
             else do {
               slot \<leftarrow> set_probe BITVEC_NINT a h i;
               case slot of None \<Rightarrow> Some (SQLITE_OK, p, mem) | Some h \<Rightarrow> rehash h })"

definition sqlite3BitvecSet :: "bool list \<Rightarrow> Bitvec option \<Rightarrow> nat \<Rightarrow> (nat \<times> Bitvec option \<times> bool list) option" where
  "sqlite3BitvecSet mem p i =
     (case p of
        None \<Rightarrow> Some (SQLITE_OK, None, mem)
      | Some p \<Rightarrow> map_option (\<lambda>(rc, p, mem). (rc, Some p, mem)) (set_fuel 10 mem p i))"

text \<open>The probe and the loop that rebuild the hash table without a value.\<close>

primrec free_probe :: "nat \<Rightarrow> nat list \<Rightarrow> nat \<Rightarrow> nat option" where
  "free_probe 0 a h = None"
| "free_probe (Suc n) a h =
     (if a ! h \<noteq> 0 then (let h = h + 1 in free_probe n a (if h \<ge> BITVEC_NINT then 0 else h)) else Some h)"

primrec clear_loop :: "nat list \<Rightarrow> nat \<Rightarrow> nat \<Rightarrow> nat list \<Rightarrow> (nat \<times> nat list) option" where
  "clear_loop [] i ns a = Some (ns, a)"
| "clear_loop (v # vs) i ns a =
     (if v \<noteq> 0 \<and> v \<noteq> i + 1 then do {
        h \<leftarrow> free_probe BITVEC_NINT a (BITVEC_HASH (v - 1));
        clear_loop vs i (ns + 1) (a[h := v]) }
      else clear_loop vs i ns a)"

function clear_from :: "Bitvec \<Rightarrow> nat \<Rightarrow> Bitvec option" where
  "clear_from (Bitvec s ns d (apSub subs)) i =
     (if i div d < length subs then
        (case subs ! (i div d) of
           None \<Rightarrow> Some (Bitvec s ns d (apSub subs))
         | Some p \<Rightarrow> map_option (\<lambda>q. Bitvec s ns d (apSub (subs[i div d := Some q]))) (clear_from p (i mod d)))
      else None)"
| "clear_from (Bitvec s ns d (aBitmap bm)) i =
     (if i div BITVEC_SZELEM < length bm
      then Some (Bitvec s ns d (aBitmap
        (bm[i div BITVEC_SZELEM := bm ! (i div BITVEC_SZELEM) AND NOT (push_bit (i mod BITVEC_SZELEM) 1)])))
      else None)"
| "clear_from (Bitvec s ns d (aHash a)) i =
     map_option (\<lambda>(ns, a). Bitvec s ns d (aHash a)) (clear_loop a i 0 (replicate BITVEC_NINT 0))"
  by (metis Bitvec.exhaust bv_union.exhaust surj_pair) auto
termination
proof (relation "measure (\<lambda>(p, i). size p)")
  fix s ns d and subs :: "Bitvec option list" and i p
  assume "i div d < length subs" "subs ! (i div d) = Some p"
  then have "Some p \<in> set subs" by (metis nth_mem)
  then have "size_option size (Some p) \<le> size_list (size_option size) subs" by (rule size_list_estimation') simp
  then show "((p, i mod d), Bitvec s ns d (apSub subs), i) \<in> measure (\<lambda>(p, i). size p)" by simp
qed simp

definition sqlite3BitvecClear :: "Bitvec option \<Rightarrow> nat \<Rightarrow> Bitvec option option" where
  "sqlite3BitvecClear p i =
     (case p of None \<Rightarrow> Some None | Some p \<Rightarrow> map_option Some (clear_from p (i - 1)))"

definition sqlite3BitvecSize :: "Bitvec \<Rightarrow> nat" where
  "sqlite3BitvecSize p = iSize p"

section \<open>The hash table\<close>

text \<open>The slot \<open>k\<close> steps after the home slot of a value.\<close>

definition slot :: "nat \<Rightarrow> nat \<Rightarrow> nat" where
  "slot h k = (h + k) mod 124"

lemma slot_simps [simp]: "slot h k < 124" "h < 124 \<Longrightarrow> slot h 0 = h" "slot (slot h j) k = slot h (j + k)"
  "slot (h mod 124) k = slot h k"
  unfolding slot_def by (simp_all add: mod_simps add.assoc)

lemma slot_wrap: "h < 124 \<Longrightarrow> (if h + 1 \<ge> 124 then 0 else h + 1) = slot h 1"
  by (cases "h = 123") (auto simp: slot_def)

text \<open>
  Every value is reached from its home slot through full slots, no value is there twice, the
  count is right and a slot is free.
\<close>

definition reached :: "nat list \<Rightarrow> nat \<Rightarrow> bool" where
  "reached a p \<longleftrightarrow> (\<exists>k. slot (a ! p - 1) k = p \<and> (\<forall>j\<le>k. a ! slot (a ! p - 1) j \<noteq> 0))"

definition hash_ok :: "nat \<Rightarrow> nat \<Rightarrow> nat list \<Rightarrow> bool" where
  "hash_ok s ns a \<longleftrightarrow> length a = 124 \<and> ns = length (filter (\<lambda>v. v \<noteq> 0) a) \<and> ns < 124 \<and>
     (\<forall>v\<in>set a. v \<le> s) \<and> distinct (filter (\<lambda>v. v \<noteq> 0) a) \<and> (\<forall>p<124. a ! p \<noteq> 0 \<longrightarrow> reached a p)"

text \<open>From every slot a free one is less than 124 steps away; \<open>z\<close> is the distance.\<close>

definition free_at :: "nat list \<Rightarrow> nat \<Rightarrow> nat \<Rightarrow> bool" where
  "free_at a h z \<longleftrightarrow> z < 124 \<and> a ! slot h z = 0 \<and> (\<forall>j<z. a ! slot h j \<noteq> 0)"

lemma free_exists:
  assumes "hash_ok s ns a" "h < 124"
  obtains z where "free_at a h z"
proof -
  have len: "length a = 124" "length (filter (\<lambda>v. v \<noteq> 0) a) < 124" using assms(1) by (simp_all add: hash_ok_def)
  have "\<exists>p<124. a ! p = 0"
  proof (rule ccontr)
    assume "\<not> ?thesis"
    then have "\<forall>v\<in>set a. v \<noteq> 0" using len(1) by (metis in_set_conv_nth)
    then have "filter (\<lambda>v. v \<noteq> 0) a = a" by (simp add: filter_id_conv)
    then show False using len by simp
  qed
  then obtain p where p: "p < 124" "a ! p = 0" by blast
  have "slot h ((p + 124 - h) mod 124) = p" using p(1) assms(2) by (simp add: slot_def mod_simps)
  then have ex: "\<exists>k. k < 124 \<and> a ! slot h k = 0" using p by (intro exI [of _ "(p + 124 - h) mod 124"]) simp
  define z where "z = (LEAST k. k < 124 \<and> a ! slot h k = 0)"
  have "z < 124 \<and> a ! slot h z = 0" unfolding z_def by (rule LeastI_ex [OF ex])
  moreover have "a ! slot h j \<noteq> 0" if "j < z" for j
    using not_less_Least [of j "\<lambda>k. k < 124 \<and> a ! slot h k = 0"] that calculation unfolding z_def [symmetric] by simp
  ultimately show ?thesis by (intro that [of z]) (simp add: free_at_def)
qed

lemma test_probe_run: "\<forall>j<z. a ! slot h j \<noteq> 0 \<Longrightarrow> a ! slot h z = 0 \<Longrightarrow> z < n \<Longrightarrow> h < 124 \<Longrightarrow>
    test_probe n a h i = Some (\<exists>k<z. a ! slot h k = i)"
proof (induction z arbitrary: n h)
  case 0
  then show ?case by (cases n) simp_all
next
  case (Suc z)
  obtain m where n: "n = Suc m" "z < m" using Suc.prems(3) by (cases n) simp_all
  have h0: "a ! h \<noteq> 0" using Suc.prems(1,4) by (metis slot_simps(2) zero_less_Suc)
  have s: "(h + 1) mod 124 = slot h 1" by (simp add: slot_def)
  have "test_probe m a (slot h 1) i = Some (\<exists>k<z. a ! slot (slot h 1) k = i)"
    using Suc.prems by (intro Suc.IH) (simp_all add: n)
  moreover have "(\<exists>k<Suc z. a ! slot h k = i) \<longleftrightarrow> a ! h = i \<or> (\<exists>k<z. a ! slot h (Suc k) = i)"
    using Suc.prems(4) by (auto simp: Ex_less_Suc2)
  moreover have "test_probe n a h i = (if a ! h = i then Some True else test_probe m a (slot h 1) i)"
    unfolding n test_probe.simps BITVEC_simps s using h0 by simp
  ultimately show ?case by (cases "a ! h = i") simp_all
qed

lemma set_probe_run: "\<forall>j<z. a ! slot h j \<noteq> 0 \<Longrightarrow> a ! slot h z = 0 \<Longrightarrow> 0 < z \<Longrightarrow> z \<le> n \<Longrightarrow> h < 124 \<Longrightarrow>
    set_probe n a h i = Some (if \<exists>k<z. a ! slot h k = i then None else Some (slot h z))"
proof (induction z arbitrary: n h)
  case 0
  then show ?case by simp
next
  case (Suc z)
  obtain m where n: "n = Suc m" "z \<le> m" using Suc.prems(4) by (cases n) simp_all
  have s: "(if h + 1 \<ge> 124 then 0 else h + 1) = slot h 1" by (rule slot_wrap [OF Suc.prems(5)])
  have ex: "(\<exists>k<Suc z. a ! slot h k = i) \<longleftrightarrow> a ! h = i \<or> (\<exists>k<z. a ! slot h (Suc k) = i)"
    using Suc.prems(5) by (auto simp: Ex_less_Suc2)
  have step: "set_probe n a h i = (if a ! h = i then Some None
      else if a ! slot h 1 \<noteq> 0 then set_probe m a (slot h 1) i else Some (Some (slot h 1)))"
    unfolding n set_probe.simps Let_def BITVEC_simps s ..
  show ?case
  proof (cases z)
    case 0
    then show ?thesis using Suc.prems(2) ex step by simp
  next
    case (Suc y)
    have "a ! slot h 1 \<noteq> 0" using Suc.prems(1) Suc by simp
    moreover have "set_probe m a (slot h 1) i = Some (if \<exists>k<z. a ! slot (slot h 1) k = i then None else Some (slot (slot h 1) z))"
      using Suc.prems Suc n by (intro Suc.IH) simp_all
    ultimately have "set_probe n a h i = (if a ! h = i then Some None
        else Some (if \<exists>k<z. a ! slot h (Suc k) = i then None else Some (slot h (Suc z))))"
      unfolding step by (simp split del: if_split cong: if_cong)
    then show ?thesis unfolding ex by (cases "a ! h = i") simp_all
  qed
qed

lemma free_probe_run: "\<forall>j<z. a ! slot h j \<noteq> 0 \<Longrightarrow> a ! slot h z = 0 \<Longrightarrow> z < n \<Longrightarrow> h < 124 \<Longrightarrow>
    free_probe n a h = Some (slot h z)"
proof (induction z arbitrary: n h)
  case 0
  then show ?case by (cases n) simp_all
next
  case (Suc z)
  obtain m where n: "n = Suc m" "z < m" using Suc.prems(3) by (cases n) simp_all
  have h0: "a ! h \<noteq> 0" using Suc.prems(1,4) by (metis slot_simps(2) zero_less_Suc)
  have s: "(if h + 1 \<ge> 124 then 0 else h + 1) = slot h 1" by (rule slot_wrap [OF Suc.prems(4)])
  have "free_probe n a h = free_probe m a (slot h 1)"
    unfolding n free_probe.simps Let_def BITVEC_simps s using h0 by simp
  also have "\<dots> = Some (slot (slot h 1) z)" using Suc.prems by (intro Suc.IH) (simp_all add: n)
  finally show ?case by simp
qed

text \<open>A value is in the table exactly when it is before the free slot.\<close>

lemma reached_before:
  assumes ok: "hash_ok s ns a" and z: "free_at a (slot (i - 1) 0) z" and i: "i \<noteq> 0"
  shows "(\<exists>k<z. a ! slot (slot (i - 1) 0) k = i) \<longleftrightarrow> i \<in> set a"
proof
  have len: "length a = 124" using ok by (simp add: hash_ok_def)
  assume "\<exists>k<z. a ! slot (slot (i - 1) 0) k = i"
  then show "i \<in> set a" using len by (metis nth_mem slot_simps(1))
next
  have len: "length a = 124" using ok by (simp add: hash_ok_def)
  assume "i \<in> set a"
  then obtain p where p: "p < 124" "a ! p = i" using len by (metis in_set_conv_nth)
  then have "reached a p" using ok i by (simp add: hash_ok_def)
  then obtain k where k: "slot (i - 1) k = p" "\<forall>j\<le>k. a ! slot (i - 1) j \<noteq> 0" by (auto simp: reached_def p(2))
  have "k < z"
  proof (rule ccontr)
    assume "\<not> k < z"
    then have "a ! slot (i - 1) z \<noteq> 0" using k(2) by simp
    then show False using z by (simp add: free_at_def)
  qed
  then show "\<exists>k<z. a ! slot (slot (i - 1) 0) k = i" using k(1) p(2) by (intro exI [of _ k]) simp
qed

lemma hash_ok_empty: "hash_ok s 0 (replicate 124 0)"
  by (simp add: hash_ok_def)

lemma home_slot: "i mod 124 = slot i 0"
  by (simp add: slot_def)

lemma hash_add:
  assumes ok: "hash_ok s ns a" and z: "free_at a (slot (i - 1) 0) z" and i: "i \<noteq> 0" "i \<notin> set a" "i \<le> s"
    and n: "ns + 1 < 124"
  shows "hash_ok s (ns + 1) (a[slot (i - 1) z := i])"
    and "\<And>j. j \<noteq> 0 \<Longrightarrow> j \<in> set (a[slot (i - 1) z := i]) \<longleftrightarrow> j = i \<or> j \<in> set a"
proof -
  let ?P = "slot (i - 1) z"
  let ?a = "a[?P := i]"
  have len: "length a = 124" using ok by (simp add: hash_ok_def)
  then have P: "?P < length a" by simp
  have aP: "a ! ?P = 0" using z by (simp add: free_at_def)
  have split: "a = take ?P a @ 0 # drop (Suc ?P) a" "?a = take ?P a @ i # drop (Suc ?P) a"
    using id_take_nth_drop [OF P] upd_conv_take_nth_drop [OF P] aP by simp_all
  show mem: "j \<in> set ?a \<longleftrightarrow> j = i \<or> j \<in> set a" if "j \<noteq> 0" for j
  proof -
    have "set ?a = insert i (set (take ?P a) \<union> set (drop (Suc ?P) a))" by (subst split(2)) auto
    moreover have "set a = insert 0 (set (take ?P a) \<union> set (drop (Suc ?P) a))" by (subst split(1)) auto
    ultimately show ?thesis using that by auto
  qed
  let ?l = "filter (\<lambda>v. v \<noteq> 0) (take ?P a)" and ?r = "filter (\<lambda>v. v \<noteq> 0) (drop (Suc ?P) a)"
  have f: "filter (\<lambda>v. v \<noteq> 0) a = ?l @ ?r" "filter (\<lambda>v. v \<noteq> 0) ?a = ?l @ i # ?r"
    using arg_cong [OF split(1), of "filter (\<lambda>v. v \<noteq> 0)"] arg_cong [OF split(2), of "filter (\<lambda>v. v \<noteq> 0)"] i(1)
    by (simp_all only: filter_append filter.simps not_True_eq_False not_False_eq_True if_True if_False simp_thms)
  have "i \<notin> set (?l @ ?r)" unfolding f(1) [symmetric] using i(2) by simp
  then have d: "distinct (filter (\<lambda>v. v \<noteq> 0) ?a)" using ok f by (simp add: hash_ok_def)
  have mono: "?a ! q \<noteq> 0" if "a ! q \<noteq> 0" for q using that i(1) P by (cases "q = ?P") (simp_all add: nth_list_update)
  have "reached ?a p" if p: "p < 124" "?a ! p \<noteq> 0" for p
  proof (cases "p = ?P")
    case True
    then have v: "?a ! p = i" using P by simp
    have "?a ! slot (i - 1) j \<noteq> 0" if "j \<le> z" for j
    proof (cases "j = z")
      case True
      then show ?thesis using P i(1) by simp
    next
      case False
      then show ?thesis using z that by (intro mono) (simp add: free_at_def)
    qed
    then show ?thesis using True v unfolding reached_def by (intro exI [of _ z]) simp
  next
    case False
    then have v: "?a ! p = a ! p" using P by simp
    then have "reached a p" using ok p by (simp add: hash_ok_def)
    then show ?thesis using mono unfolding reached_def v by blast
  qed
  moreover have "\<forall>v\<in>set ?a. v \<le> s" using ok i(3) set_update_subset_insert [of a ?P i] by (auto simp: hash_ok_def)
  ultimately show "hash_ok s (ns + 1) ?a" using ok f d n len by (simp add: hash_ok_def)
qed

lemma clear_loop_ok:
  "hash_ok s ns a \<Longrightarrow> \<forall>v\<in>set vs. v \<le> s \<Longrightarrow> distinct (filter (\<lambda>v. v \<noteq> 0) vs) \<Longrightarrow>
    \<forall>v\<in>set vs. v \<noteq> 0 \<longrightarrow> v \<notin> set a \<Longrightarrow> ns + length (filter (\<lambda>v. v \<noteq> 0) vs) < 124 \<Longrightarrow>
    \<exists>ns' a'. clear_loop vs i ns a = Some (ns', a') \<and> hash_ok s ns' a' \<and>
      (\<forall>j. j \<noteq> 0 \<longrightarrow> (j \<in> set a' \<longleftrightarrow> j \<in> set a \<or> (j \<in> set vs \<and> j \<noteq> i + 1)))"
proof (induction vs arbitrary: ns a)
  case Nil
  then show ?case by simp
next
  case (Cons v vs)
  show ?case
  proof (cases "v \<noteq> 0 \<and> v \<noteq> i + 1")
    case False
    have "\<exists>ns' a'. clear_loop vs i ns a = Some (ns', a') \<and> hash_ok s ns' a' \<and>
      (\<forall>j. j \<noteq> 0 \<longrightarrow> (j \<in> set a' \<longleftrightarrow> j \<in> set a \<or> (j \<in> set vs \<and> j \<noteq> i + 1)))"
      using Cons.prems by (intro Cons.IH) (auto split: if_splits)
    then show ?thesis using False by auto
  next
    case True
    obtain z where z: "free_at a (slot (v - 1) 0) z" using free_exists [OF Cons.prems(1), of "slot (v - 1) 0"] by auto
    let ?a = "a[slot (v - 1) z := v]"
    have n: "ns + 1 < 124" using Cons.prems(5) True by simp
    have v: "v \<noteq> 0" "v \<notin> set a" "v \<le> s" using True Cons.prems(2,4) by simp_all
    note h = hash_add [OF Cons.prems(1) z v n]
    have "free_probe 124 a (slot (v - 1) 0) = Some (slot (slot (v - 1) 0) z)"
      using z by (intro free_probe_run) (simp_all add: free_at_def)
    then have f: "free_probe 124 a ((v - 1) mod 124) = Some (slot (v - 1) z)" by (simp add: home_slot)
    have "\<forall>u\<in>set vs. u \<noteq> 0 \<longrightarrow> u \<notin> set ?a"
      using Cons.prems(3,4) True h(2) by auto
    then have "\<exists>ns' a'. clear_loop vs i (ns + 1) ?a = Some (ns', a') \<and> hash_ok s ns' a' \<and>
      (\<forall>j. j \<noteq> 0 \<longrightarrow> (j \<in> set a' \<longleftrightarrow> j \<in> set ?a \<or> (j \<in> set vs \<and> j \<noteq> i + 1)))"
      using Cons.prems True by (intro Cons.IH [OF h(1)]) auto
    then obtain ns' a' where r: "clear_loop vs i (ns + 1) ?a = Some (ns', a')" "hash_ok s ns' a'"
      "\<forall>j. j \<noteq> 0 \<longrightarrow> (j \<in> set a' \<longleftrightarrow> j \<in> set ?a \<or> (j \<in> set vs \<and> j \<noteq> i + 1))" by blast
    have "clear_loop (v # vs) i ns a = Some (ns', a')" using True f r(1) by simp
    then show ?thesis using r h(2) True by auto
  qed
qed

section \<open>Well-formed bitmaps\<close>

definition sub_size :: "nat \<Rightarrow> nat" where
  "sub_size s = (s + 61) div 62"

inductive bv_wf :: "Bitvec \<Rightarrow> bool" where
  bitmap: "s \<le> 3968 \<Longrightarrow> length bm = 496 \<Longrightarrow> bv_wf (Bitvec s ns 0 (aBitmap bm))"
| hash: "3968 < s \<Longrightarrow> hash_ok s ns a \<Longrightarrow> bv_wf (Bitvec s ns 0 (aHash a))"
| sub: "3968 < s \<Longrightarrow> length subs = 62 \<Longrightarrow>
    (\<forall>p. Some p \<in> set subs \<longrightarrow> iSize p = sub_size s \<and> bv_wf p) \<Longrightarrow>
    bv_wf (Bitvec s ns (sub_size s) (apSub subs))"

inductive_cases bitmap_wfE: "bv_wf (Bitvec s ns d (aBitmap bm))"
inductive_cases hash_wfE: "bv_wf (Bitvec s ns d (aHash a))"
inductive_cases sub_wfE: "bv_wf (Bitvec s ns d (apSub subs))"

text \<open>The zero-based index \<open>i\<close> is in.\<close>

definition has :: "Bitvec \<Rightarrow> nat \<Rightarrow> bool" where
  "has p i \<longleftrightarrow> test_loop p i = Some True"

lemma sub_size_bounds: "i < s \<Longrightarrow> i div sub_size s < 62" "i < s \<Longrightarrow> i mod sub_size s < sub_size s"
    "i < s \<Longrightarrow> 0 < sub_size s"
proof -
  assume i: "i < s"
  then show 0: "0 < sub_size s" by (simp add: sub_size_def)
  then show "i mod sub_size s < sub_size s" by simp
  have "s \<le> 62 * sub_size s" by (simp add: sub_size_def)
  then have "i < 62 * sub_size s" using i by simp
  then show "i div sub_size s < 62" using 0 by (simp add: div_less_iff_less_mult)
qed

lemma has_hash: "hash_ok s ns a \<Longrightarrow> test_loop (Bitvec s ns d (aHash a)) i = Some (i + 1 \<in> set a)"
proof -
  assume ok: "hash_ok s ns a"
  obtain z where z: "free_at a (slot (i + 1 - 1) 0) z" using free_exists [OF ok, of "slot (i + 1 - 1) 0"] by auto
  have "test_probe 124 a (slot i 0) (i + 1) = Some (\<exists>k<z. a ! slot (slot i 0) k = i + 1)"
    using z by (intro test_probe_run) (simp_all add: free_at_def)
  then show ?thesis using reached_before [OF ok z] by (simp add: home_slot)
qed

lemma bit_and_push: "(x AND push_bit k 1 \<noteq> 0) = bit x k" if "k < 8" for x :: u8
  using that and_exp_eq_0_iff_not_bit [of x k] by (simp add: push_bit_eq_mult)

lemma test_total: "bv_wf p \<Longrightarrow> i < iSize p \<Longrightarrow> test_loop p i = Some (has p i)"
proof (induction arbitrary: i rule: bv_wf.induct)
  case (bitmap s bm ns)
  then show ?case by (simp add: has_def)
next
  case (hash s ns a)
  then show ?case using has_hash [OF hash(2)] by (simp add: has_def)
next
  case (sub s subs ns)
  then have i: "i < s" by simp
  note b = sub_size_bounds [OF i]
  show ?case
  proof (cases "subs ! (i div sub_size s)")
    case None
    then show ?thesis using b sub(2) by (simp add: has_def)
  next
    case (Some p)
    then have "Some p \<in> set subs" using b sub(2) by (metis nth_mem)
    then show ?thesis using sub.IH b Some sub(2) by (auto simp: has_def)
  qed
qed

section \<open>Setting\<close>

definition is_sub :: "Bitvec \<Rightarrow> bool" where
  "is_sub p \<longleftrightarrow> (case bv_u p of apSub _ \<Rightarrow> True | _ \<Rightarrow> False)"

text \<open>
  What an attempt to add the indices \<open>P\<close> may do: never add another; add all and keep all when
  the code is zero; succeed when memory does.
\<close>

definition set_ok :: "(nat \<Rightarrow> bool) \<Rightarrow> Bitvec \<Rightarrow> bool list \<Rightarrow> (nat \<times> Bitvec \<times> bool list) option \<Rightarrow> bool" where
  "set_ok P p mem r \<longleftrightarrow> (\<exists>rc p' mem'. r = Some (rc, p', mem') \<and> bv_wf p' \<and> iSize p' = iSize p \<and>
     (is_sub p \<longrightarrow> is_sub p') \<and> (rc = 0 \<or> rc = 7) \<and>
     (\<forall>j<iSize p. has p' j \<longrightarrow> has p j \<or> P j) \<and>
     (rc = 0 \<longrightarrow> (\<forall>j<iSize p. has p' j \<longleftrightarrow> has p j \<or> P j)) \<and>
     (mem = [] \<longrightarrow> rc = 0 \<and> mem' = []))"

lemma set_okI:
  assumes "bv_wf p'" "iSize p' = iSize p" "is_sub p \<Longrightarrow> is_sub p'" "\<And>j. j < iSize p \<Longrightarrow> has p' j \<longleftrightarrow> has p j \<or> P j"
  shows "set_ok P p mem (Some (SQLITE_OK, p', mem))"
  using assms by (simp add: set_ok_def SQLITE_OK_def)

lemma set_ok_nomem: "bv_wf p \<Longrightarrow> mem \<noteq> [] \<Longrightarrow> set_ok P p mem (Some (SQLITE_NOMEM, p, mem'))"
  by (simp add: set_ok_def SQLITE_NOMEM_def)

lemma bit_set:
  fixes bm :: "u8 list"
  assumes "i div 8 < length bm" "j div 8 < length bm"
  shows "bit (bm[i div 8 := bm ! (i div 8) OR push_bit (i mod 8) 1] ! (j div 8)) (j mod 8)
    \<longleftrightarrow> bit (bm ! (j div 8)) (j mod 8) \<or> j = i"
    and "bit (bm[i div 8 := bm ! (i div 8) AND NOT (push_bit (i mod 8) 1)] ! (j div 8)) (j mod 8)
    \<longleftrightarrow> bit (bm ! (j div 8)) (j mod 8) \<and> j \<noteq> i"
proof -
  have e: "j = i \<longleftrightarrow> j div 8 = i div 8 \<and> j mod 8 = i mod 8" by (metis div_mult_mod_eq)
  have l: "j mod 8 < 8" by simp
  show "bit (bm[i div 8 := bm ! (i div 8) OR push_bit (i mod 8) 1] ! (j div 8)) (j mod 8)
    \<longleftrightarrow> bit (bm ! (j div 8)) (j mod 8) \<or> j = i"
    using assms l unfolding e by (cases "i div 8 = j div 8") (auto simp: bit_simps)
  show "bit (bm[i div 8 := bm ! (i div 8) AND NOT (push_bit (i mod 8) 1)] ! (j div 8)) (j mod 8)
    \<longleftrightarrow> bit (bm ! (j div 8)) (j mod 8) \<and> j \<noteq> i"
    using assms l unfolding e by (cases "i div 8 = j div 8") (auto simp: bit_simps)
qed

lemma has_bitmap: "s \<le> 3968 \<Longrightarrow> length bm = 496 \<Longrightarrow> j < s \<Longrightarrow>
    has (Bitvec s ns d (aBitmap bm)) j \<longleftrightarrow> bit (bm ! (j div 8)) (j mod 8)"
proof -
  assume "s \<le> 3968" "length bm = 496" "j < s"
  moreover from this have "j div 8 < 496" by (simp add: div_less_iff_less_mult)
  ultimately show ?thesis using bit_and_push [of "j mod 8" "bm ! (j div 8)"] by (simp add: has_def)
qed

lemma has_hash_iff: "hash_ok s ns a \<Longrightarrow> has (Bitvec s ns' d (aHash a)) j \<longleftrightarrow> j + 1 \<in> set a"
  using has_hash [of s ns a j] by (simp add: has_def)

lemma has_sub: "length subs = 62 \<Longrightarrow> j < s \<Longrightarrow> has (Bitvec s ns (sub_size s) (apSub subs)) j \<longleftrightarrow>
    (case subs ! (j div sub_size s) of None \<Rightarrow> False | Some p \<Rightarrow> has p (j mod sub_size s))"
  using sub_size_bounds(1) [of j s] by (simp add: has_def split: option.splits)

lemma bv_wf_zero: "bv_wf (bv_zero s)" "iSize (bv_zero s) = s" "\<not> has (bv_zero s) j"
proof -
  show "bv_wf (bv_zero s)" by (auto simp: bv_zero_def intro!: bv_wf.intros hash_ok_empty)
  show "\<not> has (bv_zero s) j"
    using has_hash [OF hash_ok_empty, of s 0 j] by (auto simp: bv_zero_def has_def)
qed (simp add: bv_zero_def)

lemma set_bitmap:
  assumes "s \<le> 3968" "length bm = 496" "0 < i" "i \<le> s"
  shows "set_ok (\<lambda>j. j + 1 = i) (Bitvec s ns 0 (aBitmap bm)) mem (set_fuel (Suc n) mem (Bitvec s ns 0 (aBitmap bm)) i)"
proof -
  have i: "(i - 1) div 8 < 496" using assms by (simp add: div_less_iff_less_mult)
  let ?bm = "bm[(i - 1) div 8 := bm ! ((i - 1) div 8) OR push_bit ((i - 1) mod 8) 1]"
  have "set_ok (\<lambda>j. j + 1 = i) (Bitvec s ns 0 (aBitmap bm)) mem (Some (SQLITE_OK, Bitvec s ns 0 (aBitmap ?bm), mem))"
  proof (rule set_okI)
    show "bv_wf (Bitvec s ns 0 (aBitmap ?bm))" using assms by (intro bv_wf.bitmap) simp_all
    show "has (Bitvec s ns 0 (aBitmap ?bm)) j \<longleftrightarrow> has (Bitvec s ns 0 (aBitmap bm)) j \<or> j + 1 = i"
      if "j < iSize (Bitvec s ns 0 (aBitmap bm))" for j
    proof -
      have j: "j < s" "j div 8 < length bm" using that assms by (simp_all add: div_less_iff_less_mult)
      have "has (Bitvec s ns 0 (aBitmap ?bm)) j \<longleftrightarrow> bit (bm ! (j div 8)) (j mod 8) \<or> j = i - 1"
        using assms i j by (simp only: has_bitmap length_list_update bit_set(1))
      then show ?thesis using assms j(1) by (auto simp: has_bitmap)
    qed
  qed (simp_all add: is_sub_def)
  then show ?thesis using i assms(2) by (simp add: Let_def)
qed

lemma set_sub:
  assumes w: "bv_wf (Bitvec s ns (sub_size s) (apSub subs))" and i: "0 < i" "i \<le> s"
    and IH: "\<And>q mem i. bv_wf q \<Longrightarrow> iSize q = sub_size s \<Longrightarrow> 0 < i \<Longrightarrow> i \<le> sub_size s \<Longrightarrow>
      set_ok (\<lambda>j. j + 1 = i) q mem (set_fuel n mem q i)"
  shows "set_ok (\<lambda>j. j + 1 = i) (Bitvec s ns (sub_size s) (apSub subs)) mem
    (set_fuel (Suc n) mem (Bitvec s ns (sub_size s) (apSub subs)) i)"
proof -
  let ?p = "Bitvec s ns (sub_size s) (apSub subs)"
  have subs: "3968 < s" "length subs = 62" "\<And>p. Some p \<in> set subs \<Longrightarrow> iSize p = sub_size s \<and> bv_wf p"
    using w by (auto elim: sub_wfE)
  define d where "d = sub_size s"
  define bin r where "bin = (i - 1) div d" and "r = (i - 1) mod d"
  have il: "i - 1 < s" using i by simp
  have b: "bin < 62" "r < d" using sub_size_bounds [OF il] by (simp_all add: bin_def r_def d_def)
  define q where "q = (case subs ! bin of None \<Rightarrow> bv_zero d | Some q \<Rightarrow> q)"
  have q: "bv_wf q" "iSize q = d" using bv_wf_zero [of d] subs(2,3) b(1)
    by (auto simp: q_def d_def split: option.split) (metis nth_mem)+
  have hq: "has q j \<longleftrightarrow> (case subs ! bin of None \<Rightarrow> False | Some p \<Rightarrow> has p j)" for j
    using bv_wf_zero(3) by (simp add: q_def split: option.split)
  have main: "set_ok (\<lambda>j. j + 1 = i) ?p mem0 (do {
      (rc, q, mem) \<leftarrow> set_fuel n mem1 q (r + 1);
      Some (rc, Bitvec s ns d (apSub (subs[bin := Some q])), mem) })" if m: "mem0 = [] \<longrightarrow> mem1 = []" for mem0 mem1
  proof -
    obtain rc q' mem' where r1: "set_fuel n mem1 q (r + 1) = Some (rc, q', mem')" "bv_wf q'" "iSize q' = d"
        "rc = 0 \<or> rc = 7" "\<forall>j<d. has q' j \<longrightarrow> has q j \<or> j = r"
        "rc = 0 \<longrightarrow> (\<forall>j<d. has q' j \<longleftrightarrow> has q j \<or> j = r)" "mem1 = [] \<longrightarrow> rc = 0 \<and> mem' = []"
      using IH [OF q [unfolded d_def], of "r + 1" mem1] b(2) q(2) unfolding d_def set_ok_def by auto
    let ?subs = "subs[bin := Some q']"
    have w': "bv_wf (Bitvec s ns d (apSub ?subs))" unfolding d_def
    proof (rule bv_wf.sub [OF subs(1)])
      show "\<forall>p. Some p \<in> set ?subs \<longrightarrow> iSize p = sub_size s \<and> bv_wf p"
        using subs(3) r1(2,3) set_update_subset_insert [of subs bin "Some q'"] by (auto simp: d_def)
    qed (simp add: subs(2))
    have h: "has (Bitvec s ns d (apSub ?subs)) j \<longleftrightarrow> (if j div d = bin then has q' (j mod d) else has (Bitvec s ns d (apSub subs)) j)"
      if "j < s" for j
      using that b(1) subs(2) by (simp add: has_sub d_def nth_list_update)
    have h0: "has (Bitvec s ns d (apSub subs)) j \<longleftrightarrow> has q (j mod d)" if "j < s" "j div d = bin" for j
      using that subs(2) hq by (simp add: has_sub d_def)
    have e: "Suc j = i \<longleftrightarrow> j div d = bin \<and> j mod d = r" for j
    proof -
      have "Suc j = i \<longleftrightarrow> j = i - 1" using i by auto
      then show ?thesis unfolding bin_def r_def by (metis div_mult_mod_eq)
    qed
    have md: "j mod d < d" for j using b(2) by (intro mod_less_divisor) simp
    show ?thesis unfolding set_ok_def
      using r1 w' m
      by (intro exI [of _ rc] exI [of _ "Bitvec s ns d (apSub ?subs)"] exI [of _ mem'])
        (auto simp: is_sub_def d_def [symmetric] h h0 e md)
  qed
  show ?thesis
  proof (cases "subs ! bin")
    case (Some p)
    then have "q = p" by (simp add: q_def)
    then show ?thesis using main [of mem mem] Some b(1) subs(2) by (simp add: bin_def r_def d_def Let_def)
  next
    case None
    then have q: "q = bv_zero d" by (simp add: q_def)
    obtain ok mem1 where a: "alloc mem = (ok, mem1)" by fastforce
    then have m: "mem = [] \<longrightarrow> ok \<and> mem1 = []" by (auto simp: alloc_def)
    show ?thesis
    proof (cases ok)
      case True
      then show ?thesis using main [of mem mem1] m None b(1) subs(2) a q
        by (simp add: bin_def r_def d_def sqlite3BitvecCreate_def Let_def)
    next
      case False
      then have "set_ok (\<lambda>j. j + 1 = i) ?p mem (Some (SQLITE_NOMEM, ?p, mem1))" using m by (intro set_ok_nomem [OF w]) auto
      then show ?thesis using False None b(1) subs(2) a by (simp add: bin_def d_def sqlite3BitvecCreate_def Let_def)
    qed
  qed
qed

text \<open>The loop that puts the values of a full hash table into the sub-bitmaps.\<close>

lemma set_ok_cong: "set_ok P p mem r \<Longrightarrow> (\<And>j. P j = Q j) \<Longrightarrow> set_ok Q p mem r"
  by (simp add: set_ok_def)

lemma set_ok_step:
  assumes r: "set_ok P p mem (Some (rc, p1, mem1))"
    and s: "set_ok Q p1 mem1 (Some (rc', p2, mem2))"
  shows "set_ok (\<lambda>j. P j \<or> Q j) p mem (Some (rc OR rc', p2, mem2))"
proof -
  have rc: "rc = 0 \<or> rc = 7" "rc' = 0 \<or> rc' = 7" using r s by (auto simp: set_ok_def)
  then have z: "rc OR rc' = 0 \<longleftrightarrow> rc = 0 \<and> rc' = 0" "rc OR rc' = 0 \<or> rc OR rc' = 7" by auto
  show ?thesis using r s z unfolding set_ok_def by auto
qed

lemma set_values:
  assumes step: "\<And>p mem i. bv_wf p \<Longrightarrow> is_sub p \<Longrightarrow> iSize p = s \<Longrightarrow> 0 < i \<Longrightarrow> i \<le> s \<Longrightarrow>
      set_ok (\<lambda>j. j + 1 = i) p mem (f mem p i)"
    and vs: "\<forall>v\<in>set vs. v \<le> s" and p: "iSize p = s" "is_sub p"
    and r: "set_ok P p mem r"
  shows "set_ok (\<lambda>j. P j \<or> j + 1 \<in> set vs) p mem (foldl (\<lambda>r v. do {
                                    (rc, p, mem) \<leftarrow> r;
                                    if v \<noteq> 0 then do {
                                      (rc', p, mem) \<leftarrow> f mem p v;
                                      Some (rc OR rc', p, mem) }
                                    else Some (rc, p, mem) }) r vs)"
  using vs r
proof (induction vs arbitrary: r P)
  case Nil
  then show ?case by (simp add: set_ok_def)
next
  case (Cons v vs)
  obtain rc p1 mem1 where r: "r = Some (rc, p1, mem1)" "bv_wf p1" "iSize p1 = s" "is_sub p1"
    using Cons.prems(2) p by (auto simp: set_ok_def)
  let ?r = "do { (rc, p, mem) \<leftarrow> r; if v \<noteq> 0 then do { (rc', p, mem) \<leftarrow> f mem p v; Some (rc OR rc', p, mem) }
       else Some (rc, p, mem) }"
  have "set_ok (\<lambda>j. P j \<or> j + 1 = v) p mem ?r"
  proof (cases "v = 0")
    case True
    then show ?thesis using Cons.prems(2) r(1) by simp
  next
    case False
    have o: "set_ok (\<lambda>j. j + 1 = v) p1 mem1 (f mem1 p1 v)" using False Cons.prems(1) r by (intro step) simp_all
    then obtain rc' p2 mem2 where e: "f mem1 p1 v = Some (rc', p2, mem2)" by (auto simp: set_ok_def)
    show ?thesis using set_ok_step [OF Cons.prems(2) [unfolded r(1)] o [unfolded e]] False r(1) e by simp
  qed
  then have "set_ok (\<lambda>j. (P j \<or> j + 1 = v) \<or> j + 1 \<in> set vs) p mem (foldl (\<lambda>r v. do {
      (rc, p, mem) \<leftarrow> r; if v \<noteq> 0 then do { (rc', p, mem) \<leftarrow> f mem p v; Some (rc OR rc', p, mem) }
      else Some (rc, p, mem) }) ?r vs)"
    using Cons.prems(1) by (intro Cons.IH) simp_all
  then show ?case by (simp only: foldl.simps) (erule set_ok_cong, auto)
qed

lemma set_hash:
  assumes w: "bv_wf (Bitvec s ns 0 (aHash a))" and i: "0 < i" "i \<le> s"
    and IH: "\<And>p mem i. bv_wf p \<Longrightarrow> is_sub p \<Longrightarrow> iSize p = s \<Longrightarrow> 0 < i \<Longrightarrow> i \<le> s \<Longrightarrow>
      set_ok (\<lambda>j. j + 1 = i) p mem (set_fuel n mem p i)"
  shows "set_ok (\<lambda>j. j + 1 = i) (Bitvec s ns 0 (aHash a)) mem (set_fuel (Suc n) mem (Bitvec s ns 0 (aHash a)) i)"
proof -
  let ?p = "Bitvec s ns 0 (aHash a)"
  have ok: "3968 < s" "hash_ok s ns a" using w by (auto elim: hash_wfE)
  obtain z where z: "free_at a (slot (i - 1) 0) z" using free_exists [OF ok(2), of "slot (i - 1) 0"] by auto
  have in_a: "(\<exists>k<z. a ! slot (i - 1) k = i) \<longleftrightarrow> i \<in> set a" using reached_before [OF ok(2) z] i by simp
  define p1 where "p1 = Bitvec s ns (sub_size s) (apSub (replicate 62 None))"
  have p1: "bv_wf p1" "is_sub p1" "iSize p1 = s" "\<And>j. j < s \<Longrightarrow> \<not> has p1 j"
    using ok(1) sub_size_bounds(1) [of _ s] bv_wf.sub [of s "replicate 62 None" ns]
    by (auto simp: p1_def is_sub_def has_sub)
  define split where "split = (\<lambda>mem. foldl (\<lambda>r v. do {
                                    (rc, p, mem) \<leftarrow> r;
                                    if v \<noteq> 0 then do {
                                      (rc', p, mem) \<leftarrow> set_fuel n mem p v;
                                      Some (rc OR rc', p, mem) }
                                    else Some (rc, p, mem) }) (set_fuel n mem p1 i) a)"
  have sp: "set_ok (\<lambda>j. j + 1 = i \<or> j + 1 \<in> set a) p1 mem (split mem)" for mem
    unfolding split_def using ok(2) p1 i by (intro set_values [of s] IH) (auto simp: hash_ok_def)
  have "set_ok (\<lambda>j. j + 1 = i) ?p mem0 (split mem1)" if "mem0 = [] \<longrightarrow> mem1 = []" for mem0 mem1
    using sp [of mem1] that p1(3,4) by (auto simp: set_ok_def has_hash_iff [OF ok(2)] is_sub_def)
  then have rehash: "set_ok (\<lambda>j. j + 1 = i) ?p mem (let (ok, mem) = alloc mem in if \<not> ok then Some (SQLITE_NOMEM, ?p, mem) else split mem)"
    using set_ok_nomem [OF w] by (auto simp: alloc_def split: list.splits)
  have add: "set_ok (\<lambda>j. j + 1 = i) ?p mem (Some (SQLITE_OK, Bitvec s (ns + 1) 0 (aHash (a[slot (i - 1) z := i])), mem))"
    if "i \<notin> set a" "ns + 1 < 124"
  proof -
    have i0: "i \<noteq> 0" using i by simp
    note h = hash_add [OF ok(2) z i0 that(1) i(2) that(2)]
    show ?thesis
    proof (rule set_okI)
      show "bv_wf (Bitvec s (ns + 1) 0 (aHash (a[slot (i - 1) z := i])))" by (rule bv_wf.hash [OF ok(1) h(1)])
      have "j + 1 \<in> set (a[slot (i - 1) z := i]) \<longleftrightarrow> j + 1 = i \<or> j + 1 \<in> set a" for j by (rule h(2)) simp
      then show "has (Bitvec s (ns + 1) 0 (aHash (a[slot (i - 1) z := i]))) j \<longleftrightarrow> has ?p j \<or> j + 1 = i" for j
        unfolding has_hash_iff [OF h(1)] has_hash_iff [OF ok(2)] by blast
    qed (simp_all add: is_sub_def)
  qed
  obtain okm mem1 where al: "alloc mem = (okm, mem1)" by fastforce
  have m: "(i - Suc 0) mod 124 = slot (i - Suc 0) 0" by (simp add: home_slot)
  show ?thesis
  proof (cases "z = 0")
    case True
    then have a0: "a ! slot (i - 1) 0 = 0" "i \<notin> set a" using z in_a by (simp_all add: free_at_def)
    show ?thesis
    proof (cases "ns < 123")
      case True
      then show ?thesis using add a0 \<open>z = 0\<close> i by (simp add: m Let_def)
    next
      case False
      then show ?thesis using rehash a0 i al
        by (cases okm) (simp_all add: m Let_def split_def p1_def sub_size_def add.commute [of 61 s])
    qed
  next
    case False
    then have a1: "a ! slot (i - 1) 0 \<noteq> 0" using z by (simp add: free_at_def)
    have "set_probe 124 a (slot (i - 1) 0) i = Some (if \<exists>k<z. a ! slot (slot (i - 1) 0) k = i then None else Some (slot (slot (i - 1) 0) z))"
      using z False by (intro set_probe_run) (simp_all add: free_at_def)
    then have pr: "set_probe 124 a (slot (i - 1) 0) i = Some (if i \<in> set a then None else Some (slot (i - 1) z))"
      using in_a by simp
    show ?thesis
    proof (cases "i \<in> set a")
      case True
      have "set_ok (\<lambda>j. j + 1 = i) ?p mem (Some (SQLITE_OK, ?p, mem))"
        by (rule set_okI) (use w True in \<open>auto simp: has_hash_iff [OF ok(2)]\<close>)
      then show ?thesis using True pr a1 i by (simp add: m Let_def)
    next
      case False
      show ?thesis
      proof (cases "ns \<ge> 62")
        case True
        then show ?thesis using rehash False pr a1 i al
          by (cases okm) (simp_all add: m Let_def split_def p1_def sub_size_def add.commute [of 61 s])
      next
        case ns: False
        then show ?thesis using add False pr a1 i by (simp add: m Let_def)
      qed
    qed
  qed
qed

lemma sub_size_le: "s \<le> 62 * x \<Longrightarrow> sub_size s \<le> x"
  by (simp add: sub_size_def)

text \<open>
  Fuel: with sizes of at most \<open>3968 * 62 ^ k\<close> the recursion goes through at most \<open>k\<close> levels of
  sub-bitmaps, one step into each and one for each hash table that is split.
\<close>

lemma set_fuel_ok:
  "bv_wf p \<Longrightarrow> 0 < i \<Longrightarrow> i \<le> iSize p \<Longrightarrow> iSize p \<le> 3968 * 62 ^ k \<Longrightarrow>
    2 * k + 1 \<le> n \<or> is_sub p \<and> 2 * k \<le> n \<Longrightarrow>
    set_ok (\<lambda>j. j + 1 = i) p mem (set_fuel n mem p i)"
proof (induction n arbitrary: p i k mem)
  case 0
  then have "is_sub p" "k = 0" by simp_all
  have "\<not> is_sub p \<or> 3968 < iSize p" using 0(1) by (cases rule: bv_wf.cases) (simp_all add: is_sub_def)
  then show ?case using 0 \<open>is_sub p\<close> \<open>k = 0\<close> by simp
next
  case (Suc n)
  from Suc.prems(1) show ?case
  proof (cases rule: bv_wf.cases)
    case (bitmap s bm ns)
    show ?thesis unfolding bitmap(1) by (rule set_bitmap) (use Suc.prems bitmap in simp_all)
  next
    case (hash s ns a)
    have "k \<noteq> 0" using hash Suc.prems(4) by (cases k) simp_all
    show ?thesis unfolding hash(1)
    proof (rule set_hash)
      fix p mem i
      assume "bv_wf p" "is_sub p" "iSize p = s" "0 < i" "i \<le> s"
      then show "set_ok (\<lambda>j. j + 1 = i) p mem (set_fuel n mem p i)"
        using Suc.prems hash by (intro Suc.IH [where k = k]) (auto simp: is_sub_def)
    qed (use Suc.prems hash in simp_all)
  next
    case (sub s subs ns)
    then obtain k' where k: "k = Suc k'" using Suc.prems(4) by (cases k) simp_all
    have sz: "sub_size s \<le> 3968 * 62 ^ k'" using Suc.prems(4) sub(1) k by (intro sub_size_le) simp
    show ?thesis unfolding sub(1)
    proof (rule set_sub)
      fix q mem i
      assume "bv_wf q" "iSize q = sub_size s" "0 < i" "i \<le> sub_size s"
      then show "set_ok (\<lambda>j. j + 1 = i) q mem (set_fuel n mem q i)"
        using Suc.prems(5) sz k by (intro Suc.IH [where k = k']) auto
    qed (use Suc.prems sub in simp_all)
  qed
qed

section \<open>Clearing\<close>

lemma clear_hash:
  assumes "3968 < s" "hash_ok s ns a" "i < s"
  shows "\<exists>q. clear_from (Bitvec s ns 0 (aHash a)) i = Some q \<and> bv_wf q \<and> iSize q = s \<and>
    (\<forall>j. j < s \<longrightarrow> has q j = (has (Bitvec s ns 0 (aHash a)) j \<and> j \<noteq> i))"
proof -
  have "\<exists>ns' a'. clear_loop a i 0 (replicate 124 0) = Some (ns', a') \<and> hash_ok s ns' a' \<and>
      (\<forall>j. j \<noteq> 0 \<longrightarrow> (j \<in> set a' \<longleftrightarrow> j \<in> set (replicate 124 0) \<or> (j \<in> set a \<and> j \<noteq> i + 1)))"
    using assms(2) by (intro clear_loop_ok hash_ok_empty) (auto simp: hash_ok_def)
  then obtain ns' a' where c: "clear_loop a i 0 (replicate 124 0) = Some (ns', a')" "hash_ok s ns' a'"
      "\<forall>j. j \<noteq> 0 \<longrightarrow> (j \<in> set a' \<longleftrightarrow> j \<in> set (replicate 124 0) \<or> (j \<in> set a \<and> j \<noteq> i + 1))" by blast
  have h: "has (Bitvec s ns' 0 (aHash a')) j \<longleftrightarrow> has (Bitvec s ns 0 (aHash a)) j \<and> j \<noteq> i" for j
    unfolding has_hash_iff [OF c(2)] has_hash_iff [OF assms(2)] using c(3) by simp
  have "bv_wf (Bitvec s ns' 0 (aHash a'))" by (rule bv_wf.hash [OF assms(1) c(2)])
  then show ?thesis using c(1) h by simp
qed

lemma clear_ok: "bv_wf p \<Longrightarrow> i < iSize p \<Longrightarrow> \<exists>q. clear_from p i = Some q \<and> bv_wf q \<and> iSize q = iSize p \<and>
    (\<forall>j<iSize p. has q j \<longleftrightarrow> has p j \<and> j \<noteq> i)"
proof (induction arbitrary: i rule: bv_wf.induct)
  case (bitmap s bm ns)
  then have i: "i < s" "i div 8 < 496" by (simp_all add: div_less_iff_less_mult)
  let ?bm = "bm[i div 8 := bm ! (i div 8) AND NOT (push_bit (i mod 8) 1)]"
  have w: "bv_wf (Bitvec s ns 0 (aBitmap ?bm))" using bitmap by (intro bv_wf.bitmap) simp_all
  have h: "has (Bitvec s ns 0 (aBitmap ?bm)) j \<longleftrightarrow> has (Bitvec s ns 0 (aBitmap bm)) j \<and> j \<noteq> i" if "j < s" for j
  proof -
    have "j div 8 < length bm" using that bitmap(1,2) by (simp add: div_less_iff_less_mult)
    then show ?thesis using bitmap(1,2) that i by (simp only: has_bitmap length_list_update bit_set(2))
  qed
  have "clear_from (Bitvec s ns 0 (aBitmap bm)) i = Some (Bitvec s ns 0 (aBitmap ?bm))" using i bitmap(2) by simp
  then show ?case using w h by (intro exI [of _ "Bitvec s ns 0 (aBitmap ?bm)"]) simp
next
  case (hash s ns a)
  then show ?case using clear_hash [of s ns a i] by simp
next
  case (sub s subs ns)
  then have i: "i < s" by simp
  note b = sub_size_bounds [OF i]
  have w: "bv_wf (Bitvec s ns (sub_size s) (apSub subs))" using sub by (intro bv_wf.sub) auto
  show ?case
  proof (cases "subs ! (i div sub_size s)")
    case None
    then have "\<not> has (Bitvec s ns (sub_size s) (apSub subs)) i" using has_sub [OF sub(2) i] by simp
    then show ?thesis using None w b sub(2) by (intro exI [of _ "Bitvec s ns (sub_size s) (apSub subs)"]) auto
  next
    case (Some p)
    then have p: "Some p \<in> set subs" using b sub(2) by (metis nth_mem)
    then obtain q where q: "clear_from p (i mod sub_size s) = Some q" "bv_wf q" "iSize q = sub_size s"
        "\<forall>j < sub_size s. has q j \<longleftrightarrow> has p j \<and> j \<noteq> i mod sub_size s"
      using sub.IH b(2) by metis
    let ?subs = "subs[i div sub_size s := Some q]"
    have "\<forall>p. Some p \<in> set ?subs \<longrightarrow> iSize p = sub_size s \<and> bv_wf p"
      using sub(3) q(2,3) set_update_subset_insert [of subs "i div sub_size s" "Some q"] by auto
    then have w': "bv_wf (Bitvec s ns (sub_size s) (apSub ?subs))" using sub by (intro bv_wf.sub) simp_all
    have "has (Bitvec s ns (sub_size s) (apSub ?subs)) j \<longleftrightarrow> has (Bitvec s ns (sub_size s) (apSub subs)) j \<and> j \<noteq> i"
      if j: "j < s" for j
    proof (cases "j div sub_size s = i div sub_size s")
      case False
      then show ?thesis using j sub(2) by (auto simp: has_sub)
    next
      case True
      have e: "j \<noteq> i \<longleftrightarrow> j mod sub_size s \<noteq> i mod sub_size s" using True by (metis div_mult_mod_eq)
      show ?thesis using j sub(2) b Some True q(4) e sub_size_bounds(2) [OF j] by (simp add: has_sub)
    qed
    then show ?thesis using q(1) Some w' b sub(2)
      by (intro exI [of _ "Bitvec s ns (sub_size s) (apSub ?subs)"]) simp
  qed
qed

section \<open>The contract\<close>

definition bitvec_ok :: "Bitvec \<Rightarrow> bool" where
  "bitvec_ok p \<longleftrightarrow> bv_wf p \<and> iSize p < 2 ^ 32"

lemma TestNotNull_has:
  assumes "bitvec_ok p" "j < 2 ^ 32"
  shows "sqlite3BitvecTestNotNull p j = Some (0 < j \<and> j \<le> iSize p \<and> has p (j - 1))"
proof (cases j)
  case 0
  then show ?thesis using assms by (simp add: sqlite3BitvecTestNotNull_def bitvec_ok_def)
next
  case (Suc k)
  then have "(j + 2 ^ 32 - 1) mod 2 ^ 32 = k" using assms(2) by simp
  then have "sqlite3BitvecTestNotNull p j = (if k \<ge> iSize p then Some False else test_loop p k)"
    by (simp only: sqlite3BitvecTestNotNull_def Let_def)
  then show ?thesis using test_total [of p k] assms(1) Suc by (simp add: bitvec_ok_def)
qed

lemma BitvecSet_ok:
  assumes "bitvec_ok p" "0 < i" "i \<le> iSize p"
  shows "set_ok (\<lambda>j. j + 1 = i) p mem (set_fuel 10 mem p i)"
proof -
  have "iSize p \<le> 3968 * 62 ^ 4" using assms(1) by (simp add: bitvec_ok_def)
  then show ?thesis using assms by (intro set_fuel_ok [where k = 4]) (simp_all add: bitvec_ok_def)
qed

text \<open>What the pager relies on: a set of page numbers with a fixed limit.\<close>

locale page_set =
  fixes wf :: "'s \<Rightarrow> bool" and limit :: "'s \<Rightarrow> nat" and test :: "'s \<Rightarrow> nat \<Rightarrow> bool option"
    and add :: "'s \<Rightarrow> nat \<Rightarrow> 's option" and remove :: "'s \<Rightarrow> nat \<Rightarrow> 's option"
  assumes test: "wf s \<Longrightarrow> j < 2 ^ 32 \<Longrightarrow> \<exists>b. test s j = Some b"
    and add: "wf s \<Longrightarrow> 0 < i \<Longrightarrow> i \<le> limit s \<Longrightarrow> \<exists>s'. add s i = Some s' \<and> wf s' \<and> limit s' = limit s \<and>
      (\<forall>j<2 ^ 32. test s' j = (if j = i then Some True else test s j))"
    and remove: "wf s \<Longrightarrow> 0 < i \<Longrightarrow> i \<le> limit s \<Longrightarrow> \<exists>s'. remove s i = Some s' \<and> wf s' \<and> limit s' = limit s \<and>
      (\<forall>j<2 ^ 32. test s' j = (if j = i then Some False else test s j))"
begin

lemma step: "wf s \<Longrightarrow> 0 < i \<Longrightarrow> i \<le> limit s \<Longrightarrow> \<exists>s'. (if b then add s i else remove s i) = Some s' \<and> wf s' \<and>
    limit s' = limit s \<and> (\<forall>j<2 ^ 32. test s' j = (if j = i then Some b else test s j))"
  using add [of s i] remove [of s i] by (cases b) (simp_all split del: if_split cong: if_cong)

end

text \<open>A history: pages journalled (\<open>True\<close>) and forgotten (\<open>False\<close>).\<close>

primrec page_ops :: "('s \<Rightarrow> nat \<Rightarrow> 's option) \<Rightarrow> ('s \<Rightarrow> nat \<Rightarrow> 's option) \<Rightarrow> (nat \<times> bool) list \<Rightarrow> 's \<Rightarrow> 's option" where
  "page_ops add remove [] s = Some s"
| "page_ops add remove (op # ops) s = do {
     s \<leftarrow> (if snd op then add s (fst op) else remove s (fst op));
     page_ops add remove ops s }"

context page_set
begin

lemma history: "wf s \<Longrightarrow> \<forall>op\<in>set ops. 0 < fst op \<and> fst op \<le> limit s \<Longrightarrow> \<exists>s'. page_ops add remove ops s = Some s' \<and> wf s' \<and>
    (\<forall>j<2 ^ 32. test s' j = (case find (\<lambda>op. fst op = j) (rev ops) of Some op \<Rightarrow> Some (snd op) | None \<Rightarrow> test s j))"
proof (induction ops arbitrary: s)
  case Nil
  then show ?case by simp
next
  case (Cons op ops)
  obtain s1 where s1: "(if snd op then add s (fst op) else remove s (fst op)) = Some s1" "wf s1" "limit s1 = limit s"
      "\<forall>j<2 ^ 32. test s1 j = (if j = fst op then Some (snd op) else test s j)"
    using step [OF Cons.prems(1), of "fst op" "snd op"] Cons.prems(2) by auto
  have "\<forall>op\<in>set ops. 0 < fst op \<and> fst op \<le> limit s1" using Cons.prems(2) s1(3) by simp
  then obtain s' where s': "page_ops add remove ops s1 = Some s'" "wf s'"
      "\<forall>j<2 ^ 32. test s' j = (case find (\<lambda>op. fst op = j) (rev ops) of Some op \<Rightarrow> Some (snd op) | None \<Rightarrow> test s1 j)"
    using Cons.IH [OF s1(2)] by blast
  have "find (\<lambda>op. fst op = j) (rev (op # ops)) = (case find (\<lambda>op. fst op = j) (rev ops) of Some x \<Rightarrow> Some x
      | None \<Rightarrow> if fst op = j then Some op else None)" for j
    by (simp add: find_append split: option.split)
  then show ?case using s1 s' by (auto simp del: find.simps rev.simps split: option.splits)
qed

end

definition bitvec_add :: "Bitvec \<Rightarrow> nat \<Rightarrow> Bitvec option" where
  "bitvec_add p i = (case sqlite3BitvecSet [] (Some p) i of Some (rc, p, mem) \<Rightarrow> p | None \<Rightarrow> None)"

definition bitvec_remove :: "Bitvec \<Rightarrow> nat \<Rightarrow> Bitvec option" where
  "bitvec_remove p i = Option.bind (sqlite3BitvecClear (Some p) i) (\<lambda>p. p)"

interpretation bitvec: page_set bitvec_ok iSize sqlite3BitvecTestNotNull bitvec_add bitvec_remove
proof unfold_locales
  fix p :: Bitvec and i j :: nat
  assume p: "bitvec_ok p"
  show "\<exists>b. sqlite3BitvecTestNotNull p j = Some b" if "j < 2 ^ 32" using TestNotNull_has [OF p that] by blast
  assume i: "0 < i" "i \<le> iSize p"
  obtain rc p' mem' where s: "set_fuel 10 [] p i = Some (rc, p', mem')" "bv_wf p'" "iSize p' = iSize p"
      "\<forall>j<iSize p. has p' j \<longleftrightarrow> has p j \<or> j + 1 = i"
    using BitvecSet_ok [OF p i, of "[]"] by (auto simp: set_ok_def)
  have p': "bitvec_ok p'" using p s by (simp add: bitvec_ok_def)
  have "sqlite3BitvecTestNotNull p' j = (if j = i then Some True else sqlite3BitvecTestNotNull p j)" if "j < 2 ^ 32" for j
    using TestNotNull_has [OF p' that] TestNotNull_has [OF p that] s(3,4) i by auto
  then show "\<exists>s'. bitvec_add p i = Some s' \<and> bitvec_ok s' \<and> iSize s' = iSize p \<and>
      (\<forall>j<2 ^ 32. sqlite3BitvecTestNotNull s' j = (if j = i then Some True else sqlite3BitvecTestNotNull p j))"
    using s p' by (simp add: bitvec_add_def sqlite3BitvecSet_def)
  have "i - 1 < iSize p" using i by simp
  then obtain q where q: "clear_from p (i - 1) = Some q" "bv_wf q" "iSize q = iSize p"
      "\<forall>j<iSize p. has q j \<longleftrightarrow> has p j \<and> j \<noteq> i - 1"
    using clear_ok [of p "i - 1"] p by (auto simp: bitvec_ok_def)
  have q': "bitvec_ok q" using p q by (simp add: bitvec_ok_def)
  have "sqlite3BitvecTestNotNull q j = (if j = i then Some False else sqlite3BitvecTestNotNull p j)" if "j < 2 ^ 32" for j
    using TestNotNull_has [OF q' that] TestNotNull_has [OF p that] q(3,4) i by auto
  then show "\<exists>s'. bitvec_remove p i = Some s' \<and> bitvec_ok s' \<and> iSize s' = iSize p \<and>
      (\<forall>j<2 ^ 32. sqlite3BitvecTestNotNull s' j = (if j = i then Some False else sqlite3BitvecTestNotNull p j))"
    using q q' by (simp add: bitvec_remove_def sqlite3BitvecClear_def)
qed

text \<open>
  C33: Setting a bit in range, whichever of its allocations fail, leaves a well-formed bitmap of
  the same size and sets no other bit; when it returns \<open>SQLITE_OK\<close> the bit is set and every
  other bit is as before, and it does so whenever no allocation fails.
\<close>

theorem BitvecSet_contract:
  assumes "bitvec_ok p" "0 < i" "i \<le> iSize p"
  shows "\<exists>rc p' mem'. sqlite3BitvecSet mem (Some p) i = Some (rc, Some p', mem') \<and> bitvec_ok p' \<and> iSize p' = iSize p \<and>
    (rc = SQLITE_OK \<or> rc = SQLITE_NOMEM) \<and> (mem = [] \<longrightarrow> rc = SQLITE_OK) \<and>
    (\<forall>j<2 ^ 32. sqlite3BitvecTestNotNull p' j = Some True \<longrightarrow> j = i \<or> sqlite3BitvecTestNotNull p j = Some True) \<and>
    (rc = SQLITE_OK \<longrightarrow> (\<forall>j<2 ^ 32. sqlite3BitvecTestNotNull p' j =
       (if j = i then Some True else sqlite3BitvecTestNotNull p j)))"
proof -
  obtain rc p' mem' where s: "set_fuel 10 mem p i = Some (rc, p', mem')" "bv_wf p'" "iSize p' = iSize p" "rc = 0 \<or> rc = 7"
      "\<forall>j<iSize p. has p' j \<longrightarrow> has p j \<or> j + 1 = i" "rc = 0 \<longrightarrow> (\<forall>j<iSize p. has p' j \<longleftrightarrow> has p j \<or> j + 1 = i)"
      "mem = [] \<longrightarrow> rc = 0"
    using BitvecSet_ok [OF assms, of mem] by (auto simp: set_ok_def)
  have p': "bitvec_ok p'" using assms(1) s by (simp add: bitvec_ok_def)
  have t: "sqlite3BitvecTestNotNull p' j = Some (0 < j \<and> j \<le> iSize p \<and> has p' (j - 1))"
      "sqlite3BitvecTestNotNull p j = Some (0 < j \<and> j \<le> iSize p \<and> has p (j - 1))" if "j < 2 ^ 32" for j
    using TestNotNull_has [OF p' that] TestNotNull_has [OF assms(1) that] s(3) by simp_all
  have "\<forall>j<2 ^ 32. sqlite3BitvecTestNotNull p' j = Some True \<longrightarrow> j = i \<or> sqlite3BitvecTestNotNull p j = Some True"
  proof (intro allI impI)
    fix j :: nat
    assume j: "j < 2 ^ 32" "sqlite3BitvecTestNotNull p' j = Some True"
    then have "0 < j" "j - 1 < iSize p" "has p' (j - 1)" using t(1) [OF j(1)] by auto
    then show "j = i \<or> sqlite3BitvecTestNotNull p j = Some True" using s(5) t(2) [OF j(1)] by auto
  qed
  moreover have "rc = 0 \<longrightarrow> (\<forall>j<2 ^ 32. sqlite3BitvecTestNotNull p' j = (if j = i then Some True else sqlite3BitvecTestNotNull p j))"
    using t s(6) assms(2,3) by auto
  ultimately show ?thesis using s p'
    by (intro exI [of _ rc] exI [of _ p'] exI [of _ mem'])
      (simp add: sqlite3BitvecSet_def SQLITE_OK_def SQLITE_NOMEM_def)
qed

text \<open>
  C32: After any history of setting and clearing bits of a new bitmap, whatever forms it goes
  through, testing a bit tells whether the last operation on it was a set, with memory for
  every allocation.
\<close>

theorem Bitvec_history:
  assumes "n < 2 ^ 32" "\<forall>op\<in>set ops. 0 < fst op \<and> fst op \<le> n" "j < 2 ^ 32"
  shows "\<exists>p. Option.bind (fst (sqlite3BitvecCreate [] n)) (page_ops bitvec_add bitvec_remove ops) = Some p \<and>
    sqlite3BitvecTest (Some p) j = Some (case find (\<lambda>op. fst op = j) (rev ops) of Some op \<Rightarrow> snd op | None \<Rightarrow> False)"
proof -
  have z: "bitvec_ok (bv_zero n)" using assms(1) bv_wf_zero by (simp add: bitvec_ok_def)
  have "sqlite3BitvecTestNotNull (bv_zero n) j = Some False"
    using TestNotNull_has [OF z assms(3)] bv_wf_zero(3) by simp
  moreover have "fst (sqlite3BitvecCreate [] n) = Some (bv_zero n)" by (simp add: sqlite3BitvecCreate_def alloc_def)
  ultimately show ?thesis using bitvec.history [OF z, of ops] assms(2,3) bv_wf_zero(2)
    by (auto simp: sqlite3BitvecTest_def split: option.splits)
qed

theorem BitvecSet_contract_witness:
  "\<exists>rc p' mem'. sqlite3BitvecSet [False] (Some (bv_zero 5000)) 17 = Some (rc, Some p', mem') \<and> iSize p' = 5000"
  using BitvecSet_contract [of "bv_zero 5000" 17 "[False]"] bv_wf_zero [of 5000] by (auto simp: bitvec_ok_def)

theorem Bitvec_history_witness:
  "\<exists>p. Option.bind (fst (sqlite3BitvecCreate [] 100)) (page_ops bitvec_add bitvec_remove [(3, True), (9, True), (3, False)]) = Some p
    \<and> sqlite3BitvecTest (Some p) 3 = Some False"
  using Bitvec_history [of 100 "[(3, True), (9, True), (3, False)]" 3] by simp

end
