(* ===== verification/RowSet.thy ===== *)
theory RowSet
  imports Prelude "HOL-Library.Tree"
begin

text \<open>
  Sets of row ids (\<open>Example/Pods/WCDBOptimizedSQLCipher/src/rowset.c\<close>): the ids a statement will
  delete or update, taken out in order, and the ids an \<open>OR\<close> of indices has already seen,
  tested batch by batch. Entries linked by \<open>pRight\<close> are lists of their values, search trees of
  entries are trees of their values (no entry is on two lists or trees at once), and the
  forest list is the list of its trees. Row ids are compared only, so they are integers.
  \<open>pLast\<close> is the last entry of the list. Whether an operation's allocation succeeds is a parameter.
\<close>

section \<open>State\<close>

definition ROWSET_ENTRY_PER_CHUNK :: nat where
  "ROWSET_ENTRY_PER_CHUNK = (1024 - 8) div 24"

record RowSet =
  rs_chunks :: nat
  rs_entry :: "int list"
  rs_forest :: "int tree list"
  rs_fresh :: nat
  rs_sorted :: bool
  rs_next :: bool
  rs_batch :: int

text \<open>\<open>nFresh\<close> entries fit behind the object in the space it is made in.\<close>

definition sqlite3RowSetInit :: "nat \<Rightarrow> RowSet" where
  "sqlite3RowSetInit nFresh = \<lparr>rs_chunks = 0, rs_entry = [], rs_forest = [], rs_fresh = nFresh,
     rs_sorted = True, rs_next = False, rs_batch = 0\<rparr>"

definition sqlite3RowSetClear :: "RowSet \<Rightarrow> RowSet" where
  "sqlite3RowSetClear p = p\<lparr>rs_chunks := 0, rs_fresh := 0, rs_entry := [], rs_forest := [],
     rs_sorted := True, rs_next := False\<rparr>"

definition rowSetEntryAlloc :: "bool \<Rightarrow> RowSet \<Rightarrow> bool \<times> RowSet" where
  "rowSetEntryAlloc ok p =
     (if rs_fresh p = 0 then
        (if \<not> ok then (False, p)
         else (True, p\<lparr>rs_chunks := rs_chunks p + 1, rs_fresh := ROWSET_ENTRY_PER_CHUNK - 1\<rparr>))
      else (True, p\<lparr>rs_fresh := rs_fresh p - 1\<rparr>))"

definition sqlite3RowSetInsert :: "bool \<Rightarrow> RowSet \<Rightarrow> int \<Rightarrow> RowSet" where
  "sqlite3RowSetInsert ok p rowid =
     (let (got, p) = rowSetEntryAlloc ok p
      in if \<not> got then p
         else let p = (if rs_entry p \<noteq> [] \<and> rowid \<le> last (rs_entry p) then p\<lparr>rs_sorted := False\<rparr> else p)
              in p\<lparr>rs_entry := rs_entry p @ [rowid]\<rparr>)"

section \<open>Sorting\<close>

text \<open>The lists are not empty; the tail pointer writes behind the cursor.\<close>

fun rowSetEntryMerge :: "int list \<Rightarrow> int list \<Rightarrow> int list" where
  "rowSetEntryMerge (a # pA) (b # pB) =
     (if a \<le> b then
        (if a < b then [a] else []) @ (if pA = [] then b # pB else rowSetEntryMerge pA (b # pB))
      else b # (if pB = [] then a # pA else rowSetEntryMerge (a # pA) pB))"
| "rowSetEntryMerge [] pB = pB"
| "rowSetEntryMerge pA [] = pA"

text \<open>
  The inner loop of \<open>rowSetEntrySort\<close> over the buckets from \<open>i\<close> on, an empty list for a null
  bucket; \<open>None\<close> is the index past the last of the 40.
\<close>

fun sort_carry :: "int list list \<Rightarrow> int list \<Rightarrow> int list list option" where
  "sort_carry [] pIn = None"
| "sort_carry (b # bs) pIn =
     (if b \<noteq> [] then map_option ((#) []) (sort_carry bs (rowSetEntryMerge b pIn))
      else Some (pIn # bs))"

primrec sort_fill :: "int list \<Rightarrow> int list list \<Rightarrow> int list list option" where
  "sort_fill [] aBucket = Some aBucket"
| "sort_fill (v # pIn) aBucket = do {
     aBucket \<leftarrow> sort_carry aBucket [v];
     sort_fill pIn aBucket }"

definition sort_collect :: "int list list \<Rightarrow> int list" where
  "sort_collect aBucket =
     foldl (\<lambda>pIn b. if b = [] then pIn else if pIn \<noteq> [] then rowSetEntryMerge pIn b else b)
       (aBucket ! 0) (tl aBucket)"

definition rowSetEntrySort :: "int list \<Rightarrow> int list option" where
  "rowSetEntrySort pIn = map_option sort_collect (sort_fill pIn (replicate 40 []))"

section \<open>Trees\<close>

fun rowSetTreeToList :: "int tree \<Rightarrow> int list" where
  "rowSetTreeToList Leaf = []"
| "rowSetTreeToList (Node l v r) =
     (if l \<noteq> Leaf then rowSetTreeToList l else []) @ v # (if r \<noteq> Leaf then rowSetTreeToList r else [])"

fun rowSetNDeepTree :: "int list \<Rightarrow> nat \<Rightarrow> int tree \<times> int list" where
  "rowSetNDeepTree [] iDepth = (Leaf, [])"
| "rowSetNDeepTree (v # list) iDepth =
     (if iDepth > 1 then
        (case rowSetNDeepTree (v # list) (iDepth - 1) of
           (l, []) \<Rightarrow> (l, [])
         | (l, p # list) \<Rightarrow> (case rowSetNDeepTree list (iDepth - 1) of (r, list) \<Rightarrow> (Node l p r, list)))
      else (Node Leaf v Leaf, list))"

lemma NDeepTree_shorter: "length (snd (rowSetNDeepTree list d)) \<le> length list"
proof (induction list d rule: rowSetNDeepTree.induct)
  case (2 v list d)
  show ?case
  proof (cases "d > 1")
    case True
    obtain l xs where l: "rowSetNDeepTree (v # list) (d - 1) = (l, xs)" by fastforce
    then have xs: "length xs \<le> Suc (length list)" using "2.IH"(1) [OF True] by simp
    show ?thesis
    proof (cases xs)
      case Nil
      then show ?thesis using True l by simp
    next
      case (Cons p ys)
      obtain r zs where r: "rowSetNDeepTree ys (d - 1) = (r, zs)" by fastforce
      then have "length zs \<le> length ys" using "2.IH"(2) [OF True l [symmetric] Cons] by simp
      then show ?thesis using True l r Cons xs by simp
    qed
  qed simp
qed simp

lemma NDeepTree_snd: "(r, ys) = rowSetNDeepTree list d \<Longrightarrow> length ys < Suc (length list)"
  using NDeepTree_shorter [of list d] by (metis less_Suc_eq_le snd_conv)

function tree_loop :: "nat \<Rightarrow> int tree \<Rightarrow> int list \<Rightarrow> int tree" where
  "tree_loop iDepth p [] = p"
| "tree_loop iDepth p (v # list) =
     (case rowSetNDeepTree list iDepth of (r, list) \<Rightarrow> tree_loop (iDepth + 1) (Node p v r) list)"
  by pat_completeness auto
termination
  by (relation "measure (\<lambda>(d, p, list). length list)") (auto dest: NDeepTree_snd)

definition rowSetListToTree :: "int list \<Rightarrow> int tree" where
  "rowSetListToTree pList = tree_loop 1 (Node Leaf (hd pList) Leaf) (tl pList)"

section \<open>Taking out and testing\<close>

definition sqlite3RowSetNext :: "RowSet \<Rightarrow> (int option \<times> RowSet) option" where
  "sqlite3RowSetNext p = do {
     p \<leftarrow> (if \<not> rs_next p then do {
              entry \<leftarrow> (if \<not> rs_sorted p then rowSetEntrySort (rs_entry p) else Some (rs_entry p));
              Some (p\<lparr>rs_entry := entry, rs_sorted := True, rs_next := True\<rparr>) }
            else Some p);
     (case rs_entry p of
        v # rest \<Rightarrow>
          let p = p\<lparr>rs_entry := rest\<rparr>
          in Some (Some v, if rest = [] then sqlite3RowSetClear p else p)
      | [] \<Rightarrow> Some (None, p)) }"

text \<open>
  The loop over the forest: the new entries go into the first free place, together with the
  trees before it. Without one, a place is allocated; \<open>got\<close> says whether that succeeded.
\<close>

fun forest_add :: "bool \<Rightarrow> int tree list \<Rightarrow> int list \<Rightarrow> int tree list" where
  "forest_add got [] p = (if got then [rowSetListToTree p] else [])"
| "forest_add got (t # ts) p =
     (if t = Leaf then rowSetListToTree p # ts
      else Leaf # forest_add got ts (rowSetEntryMerge (rowSetTreeToList t) p))"

fun tree_test :: "int tree \<Rightarrow> int \<Rightarrow> bool" where
  "tree_test Leaf rowid = False"
| "tree_test (Node l v r) rowid =
     (if v < rowid then tree_test r rowid else if v > rowid then tree_test l rowid else True)"

definition sqlite3RowSetTest :: "bool \<Rightarrow> RowSet \<Rightarrow> int \<Rightarrow> int \<Rightarrow> (bool \<times> RowSet) option" where
  "sqlite3RowSetTest ok pRowSet iBatch iRowid = do {
     p \<leftarrow> (if iBatch \<noteq> rs_batch pRowSet then do {
              p \<leftarrow> (if rs_entry pRowSet \<noteq> [] then do {
                       entry \<leftarrow> (if \<not> rs_sorted pRowSet then rowSetEntrySort (rs_entry pRowSet)
                                 else Some (rs_entry pRowSet));
                       (let (got, q) = (if Leaf \<in> set (rs_forest pRowSet) then (True, pRowSet)
                                        else rowSetEntryAlloc ok pRowSet)
                        in Some (q\<lparr>rs_forest := forest_add got (rs_forest q) entry,
                                   rs_entry := [], rs_sorted := True\<rparr>)) }
                     else Some pRowSet);
              Some (p\<lparr>rs_batch := iBatch\<rparr>) }
            else Some pRowSet);
     Some (list_ex (\<lambda>t. tree_test t iRowid) (rs_forest p), p) }"

section \<open>Merging and sorting\<close>

abbreviation strict :: "int list \<Rightarrow> bool" where
  "strict xs \<equiv> sorted_wrt (<) xs"

lemma set_merge: "set (rowSetEntryMerge xs ys) = set xs \<union> set ys"
proof (induction xs ys rule: rowSetEntryMerge.induct)
  case (1 a xs b ys)
  then show ?case by (cases "a \<le> b"; cases "xs = []"; cases "ys = []"; cases "a < b") (auto simp del: rowSetEntryMerge.simps(2,3))
qed simp_all

lemma merge_nonempty: "xs \<noteq> [] \<or> ys \<noteq> [] \<Longrightarrow> rowSetEntryMerge xs ys \<noteq> []"
  using set_merge [of xs ys] by auto

lemma strict_merge: "strict xs \<Longrightarrow> strict ys \<Longrightarrow> strict (rowSetEntryMerge xs ys)"
proof (induction xs ys rule: rowSetEntryMerge.induct)
  case (1 a xs b ys)
  show ?case
  proof (cases "a \<le> b")
    case True
    show ?thesis
    proof (cases "xs = []")
      case True
      then show ?thesis using 1 \<open>a \<le> b\<close> by auto
    next
      case False
      then have "strict (rowSetEntryMerge xs (b # ys))" using 1 \<open>a \<le> b\<close> by simp
      then show ?thesis using False 1 \<open>a \<le> b\<close> by (auto simp: set_merge)
    qed
  next
    case False
    show ?thesis
    proof (cases "ys = []")
      case True
      then show ?thesis using 1 False by auto
    next
      case ys: False
      then have "strict (rowSetEntryMerge (a # xs) ys)" using 1 False by simp
      then show ?thesis using False ys 1 by (auto simp: set_merge)
    qed
  qed
qed simp_all

text \<open>How many entries the buckets have taken: bucket \<open>i\<close> is full when bit \<open>i\<close> of it is set.\<close>

fun taken :: "int list list \<Rightarrow> nat" where
  "taken [] = 0"
| "taken (b # bs) = (if b \<noteq> [] then 1 else 0) + 2 * taken bs"

definition bucket_set :: "int list list \<Rightarrow> int set" where
  "bucket_set bs = (\<Union>b\<in>set bs. set b)"

lemma bucket_set_simps [simp]: "bucket_set [] = {}" "bucket_set (b # bs) = set b \<union> bucket_set bs"
  by (simp_all add: bucket_set_def)

lemma taken_less: "taken bs < 2 ^ length bs"
  by (induction bs) auto

lemma sort_carry_ok:
  "taken bs + 1 < 2 ^ length bs \<Longrightarrow> list_all strict bs \<Longrightarrow> strict x \<Longrightarrow> x \<noteq> [] \<Longrightarrow>
    \<exists>bs'. sort_carry bs x = Some bs' \<and> length bs' = length bs \<and> taken bs' = taken bs + 1 \<and>
      list_all strict bs' \<and> bucket_set bs' = bucket_set bs \<union> set x"
proof (induction bs arbitrary: x)
  case Nil
  then show ?case by simp
next
  case (Cons b bs)
  show ?case
  proof (cases "b = []")
    case True
    then show ?thesis using Cons.prems by auto
  next
    case False
    have "taken bs + 1 < 2 ^ length bs" using Cons.prems(1) False by simp
    then obtain bs' where "sort_carry bs (rowSetEntryMerge b x) = Some bs'" "length bs' = length bs"
        "taken bs' = taken bs + 1" "list_all strict bs'" "bucket_set bs' = bucket_set bs \<union> set (rowSetEntryMerge b x)"
      using Cons.IH [of "rowSetEntryMerge b x"] Cons.prems False strict_merge [of b x] merge_nonempty [of b x] by auto
    then show ?thesis using False by (auto simp: set_merge)
  qed
qed

lemma sort_fill_ok:
  "taken bs + length xs < 2 ^ length bs \<Longrightarrow> list_all strict bs \<Longrightarrow>
    \<exists>bs'. sort_fill xs bs = Some bs' \<and> length bs' = length bs \<and> list_all strict bs' \<and>
      bucket_set bs' = bucket_set bs \<union> set xs"
proof (induction xs arbitrary: bs)
  case Nil
  then show ?case by simp
next
  case (Cons v xs)
  then obtain bs1 where b: "sort_carry bs [v] = Some bs1" "length bs1 = length bs" "taken bs1 = taken bs + 1"
      "list_all strict bs1" "bucket_set bs1 = bucket_set bs \<union> set [v]"
    using sort_carry_ok [of bs "[v]"] by auto
  have "\<exists>bs'. sort_fill xs bs1 = Some bs' \<and> length bs' = length bs1 \<and> list_all strict bs' \<and>
      bucket_set bs' = bucket_set bs1 \<union> set xs"
    using Cons.prems b by (intro Cons.IH) simp_all
  then show ?case using b by auto
qed

lemma sort_collect_fold:
  "list_all strict bs \<Longrightarrow> strict x \<Longrightarrow>
    strict (foldl (\<lambda>pIn b. if b = [] then pIn else if pIn \<noteq> [] then rowSetEntryMerge pIn b else b) x bs) \<and>
    set (foldl (\<lambda>pIn b. if b = [] then pIn else if pIn \<noteq> [] then rowSetEntryMerge pIn b else b) x bs)
      = set x \<union> bucket_set bs"
proof (induction bs arbitrary: x)
  case Nil
  then show ?case by simp
next
  case (Cons b bs)
  let ?x = "if b = [] then x else if x \<noteq> [] then rowSetEntryMerge x b else b"
  have "strict ?x" "set ?x = set x \<union> set b" using Cons.prems by (simp_all add: strict_merge set_merge)
  then show ?case using Cons.IH [of ?x] Cons.prems by auto
qed

lemma rowSetEntrySort_ok:
  assumes "length xs < 2 ^ 40"
  shows "\<exists>ys. rowSetEntrySort xs = Some ys \<and> strict ys \<and> set ys = set xs"
proof -
  have z: "taken (replicate n ([] :: int list)) = 0" "bucket_set (replicate n []) = {}" for n
    by (induction n) simp_all
  have "taken (replicate 40 ([] :: int list)) + length xs < 2 ^ length (replicate 40 ([] :: int list))"
    unfolding z(1) using assms by simp
  moreover have "list_all strict (replicate 40 [])" by (simp add: list_all_iff)
  ultimately obtain bs where bs: "sort_fill xs (replicate 40 []) = Some bs" "length bs = 40" "list_all strict bs" "bucket_set bs = set xs"
    using sort_fill_ok [of "replicate 40 []" xs] unfolding z(2) by auto
  then obtain b bs' where "bs = b # bs'" by (cases bs) auto
  then show ?thesis using bs sort_collect_fold [of bs' b] by (simp add: rowSetEntrySort_def sort_collect_def)
qed

section \<open>Trees of sorted lists\<close>

lemma rowSetTreeToList_inorder: "rowSetTreeToList t = inorder t"
  by (induction t) auto

text \<open>A tree of depth \<open>d\<close> takes as many entries as a full one has, or all there are.\<close>

lemma NDeepTree_ok:
  "rowSetNDeepTree list d = (t, rest) \<Longrightarrow> 0 < d \<Longrightarrow>
    inorder t @ rest = list \<and> height t \<le> d \<and> (rest \<noteq> [] \<longrightarrow> Suc (size t) = 2 ^ d)"
proof (induction list d arbitrary: t rest rule: rowSetNDeepTree.induct)
  case (1 d)
  then show ?case by simp
next
  case (2 v list d)
  show ?case
  proof (cases "d > 1")
    case False
    then have "d = 1" using "2.prems"(2) by simp
    then show ?thesis using "2.prems" by auto
  next
    case True
    then obtain d' where d: "d = Suc d'" "0 < d'" by (cases d) auto
    obtain l xs where l: "rowSetNDeepTree (v # list) (d - 1) = (l, xs)" by fastforce
    note il = "2.IH"(1) [OF True l]
    show ?thesis
    proof (cases xs)
      case Nil
      then show ?thesis using True l il "2.prems" d by auto
    next
      case (Cons p ys)
      obtain r zs where r: "rowSetNDeepTree ys (d - 1) = (r, zs)" by fastforce
      note ir = "2.IH"(2) [OF True l [symmetric] Cons r]
      show ?thesis using True l r Cons il ir "2.prems" d by auto
    qed
  qed
qed

lemma tree_loop_ok:
  "height t = d \<Longrightarrow> Suc (size t) = 2 ^ d \<Longrightarrow> 0 < d \<Longrightarrow>
    inorder (tree_loop d t list) = inorder t @ list \<and>
    2 ^ (height (tree_loop d t list) - 1) \<le> size (tree_loop d t list)"
proof (induction d t list rule: tree_loop.induct)
  case (1 d p)
  then obtain e where "d = Suc e" by (cases d) auto
  moreover have "(1::nat) \<le> 2 ^ e" by simp
  ultimately show ?case using 1 by simp
next
  case (2 d p v list)
  obtain r rest where r: "rowSetNDeepTree list d = (r, rest)" by fastforce
  note n = NDeepTree_ok [OF r "2.prems"(3)]
  have h: "height (Node p v r) = d + 1" using n "2.prems"(1) by simp
  show ?case
  proof (cases "rest = []")
    case True
    have "2 ^ d \<le> size (Node p v r)" using "2.prems"(2) by simp
    then show ?thesis using True r n h by simp
  next
    case False
    then have s: "Suc (size (Node p v r)) = 2 ^ (d + 1)" using n "2.prems"(2) by simp
    have "inorder (tree_loop (d + 1) (Node p v r) rest) = inorder (Node p v r) @ rest \<and>
        2 ^ (height (tree_loop (d + 1) (Node p v r) rest) - 1) \<le> size (tree_loop (d + 1) (Node p v r) rest)"
      using h s by (intro "2.IH" [OF r [symmetric]]) simp_all
    then show ?thesis using r n by auto
  qed
qed

lemma ListToTree_inorder: "xs \<noteq> [] \<Longrightarrow> inorder (rowSetListToTree xs) = xs"
  using tree_loop_ok [of "Node Leaf (hd xs) Leaf" 1 "tl xs"] by (simp add: rowSetListToTree_def)

lemma ListToTree_Leaf: "xs \<noteq> [] \<Longrightarrow> rowSetListToTree xs \<noteq> Leaf"
  using ListToTree_inorder [of xs] by auto

lemma tree_test_set: "strict (inorder t) \<Longrightarrow> tree_test t x \<longleftrightarrow> x \<in> set_tree t"
  by (induction t) (auto simp: sorted_wrt_append)

section \<open>Well-formed sets\<close>

definition rs_wf :: "RowSet \<Rightarrow> bool" where
  "rs_wf p \<longleftrightarrow> (rs_sorted p \<longrightarrow> strict (rs_entry p)) \<and> list_all (\<lambda>t. strict (inorder t)) (rs_forest p)"

definition forest_set :: "int tree list \<Rightarrow> int set" where
  "forest_set ts = (\<Union>t\<in>set ts. set_tree t)"

lemma forest_set_simps [simp]: "forest_set [] = {}" "forest_set (t # ts) = set_tree t \<union> forest_set ts"
  by (simp_all add: forest_set_def)

lemma Insert_ok:
  assumes "rs_wf p"
  shows "rs_wf (sqlite3RowSetInsert True p v)" "rs_entry (sqlite3RowSetInsert True p v) = rs_entry p @ [v]"
    "rs_forest (sqlite3RowSetInsert True p v) = rs_forest p" "rs_batch (sqlite3RowSetInsert True p v) = rs_batch p"
    "rs_next (sqlite3RowSetInsert True p v) = rs_next p"
proof -
  have last: "strict xs \<Longrightarrow> xs = [] \<or> last xs < v \<Longrightarrow> strict (xs @ [v])" for xs
    by (cases xs rule: rev_cases) (auto simp: sorted_wrt_append)
  show "rs_wf (sqlite3RowSetInsert True p v)"
    using assms last [of "rs_entry p"] by (auto simp: rs_wf_def sqlite3RowSetInsert_def rowSetEntryAlloc_def)
qed (auto simp: sqlite3RowSetInsert_def rowSetEntryAlloc_def)

lemma Insert_all: "rs_wf p \<Longrightarrow> rs_wf (foldl (sqlite3RowSetInsert True) p xs) \<and>
    rs_entry (foldl (sqlite3RowSetInsert True) p xs) = rs_entry p @ xs \<and>
    rs_next (foldl (sqlite3RowSetInsert True) p xs) = rs_next p"
  by (induction xs arbitrary: p) (auto simp: Insert_ok)

lemma forest_add_ok:
  "list_all (\<lambda>t. strict (inorder t)) ts \<Longrightarrow> strict p \<Longrightarrow> p \<noteq> [] \<Longrightarrow>
    list_all (\<lambda>t. strict (inorder t)) (forest_add True ts p) \<and>
    forest_set (forest_add True ts p) = forest_set ts \<union> set p"
proof (induction ts arbitrary: p)
  case Nil
  then show ?case using ListToTree_inorder [of p] by (simp flip: set_inorder)
next
  case (Cons t ts)
  show ?case
  proof (cases "t = Leaf")
    case True
    then show ?thesis using Cons.prems ListToTree_inorder [of p] by (simp add: Un_commute flip: set_inorder)
  next
    case False
    let ?q = "rowSetEntryMerge (rowSetTreeToList t) p"
    have "strict ?q" "?q \<noteq> []" "set ?q = set_tree t \<union> set p"
      using Cons.prems strict_merge merge_nonempty [of "rowSetTreeToList t" p]
      by (simp_all add: rowSetTreeToList_inorder set_merge)
    then show ?thesis using Cons.IH [of ?q] Cons.prems(1) False by auto
  qed
qed

lemma forest_test: "list_all (\<lambda>t. strict (inorder t)) ts \<Longrightarrow> list_ex (\<lambda>t. tree_test t x) ts \<longleftrightarrow> x \<in> forest_set ts"
  by (induction ts) (auto simp: tree_test_set)

lemma sorted_entries:
  assumes "rs_wf p" "length (rs_entry p) < 2 ^ 40"
  obtains ys where "(if \<not> rs_sorted p then rowSetEntrySort (rs_entry p) else Some (rs_entry p)) = Some ys"
    "strict ys" "set ys = set (rs_entry p)"
  using assms rowSetEntrySort_ok [of "rs_entry p"] by (cases "rs_sorted p") (auto simp: rs_wf_def)

lemma Test_ok:
  assumes w: "rs_wf p" "length (rs_entry p) < 2 ^ 40"
  shows "\<exists>p'. sqlite3RowSetTest True p b x =
      Some (x \<in> forest_set (rs_forest p) \<or> b \<noteq> rs_batch p \<and> x \<in> set (rs_entry p), p') \<and> rs_wf p' \<and> rs_batch p' = b \<and>
    forest_set (rs_forest p') = forest_set (rs_forest p) \<union> (if b \<noteq> rs_batch p then set (rs_entry p) else {}) \<and>
    rs_entry p' = (if b \<noteq> rs_batch p then [] else rs_entry p)"
proof (cases "b \<noteq> rs_batch p \<and> rs_entry p \<noteq> []")
  case False
  then have "sqlite3RowSetTest True p b x = Some (list_ex (\<lambda>t. tree_test t x) (rs_forest p), p\<lparr>rs_batch := b\<rparr>)"
    by (auto simp: sqlite3RowSetTest_def)
  then show ?thesis using False w forest_test [of "rs_forest p" x] by (auto simp: rs_wf_def)
next
  case True
  obtain ys where ys: "(if \<not> rs_sorted p then rowSetEntrySort (rs_entry p) else Some (rs_entry p)) = Some ys"
    "strict ys" "set ys = set (rs_entry p)" using sorted_entries [OF w] .
  then have ne: "ys \<noteq> []" using True by auto
  obtain q where q: "(if Leaf \<in> set (rs_forest p) then (True, p) else rowSetEntryAlloc True p) = (True, q)"
      "rs_forest q = rs_forest p"
    by (cases "Leaf \<in> set (rs_forest p)"; cases "rs_fresh p = 0") (auto simp: rowSetEntryAlloc_def)
  let ?f = "forest_add True (rs_forest p) ys"
  have f: "list_all (\<lambda>t. strict (inorder t)) ?f" "forest_set ?f = forest_set (rs_forest p) \<union> set (rs_entry p)"
    using forest_add_ok [OF _ ys(2) ne, of "rs_forest p"] w ys(3) by (simp_all add: rs_wf_def)
  have "sqlite3RowSetTest True p b x = Some (list_ex (\<lambda>t. tree_test t x) ?f,
      q\<lparr>rs_forest := ?f, rs_entry := [], rs_sorted := True, rs_batch := b\<rparr>)"
    using True ys(1) q by (simp add: sqlite3RowSetTest_def split del: if_split)
  then show ?thesis using True f forest_test [OF f(1), of x] by (simp add: rs_wf_def)
qed

section \<open>Row sets are sets\<close>

primrec drain :: "nat \<Rightarrow> RowSet \<Rightarrow> (int option list \<times> RowSet) option" where
  "drain 0 p = Some ([], p)"
| "drain (Suc n) p = do {
     (v, p) \<leftarrow> sqlite3RowSetNext p;
     (vs, p) \<leftarrow> drain n p;
     Some (v # vs, p) }"

lemma drain_empty: "rs_entry p = [] \<Longrightarrow> rs_sorted p \<Longrightarrow> \<exists>p'. drain k p = Some (replicate k None, p')"
proof (induction k arbitrary: p)
  case (Suc k)
  let ?p = "p\<lparr>rs_sorted := True, rs_next := True\<rparr>"
  have "sqlite3RowSetNext p = Some (None, if rs_next p then p else ?p)" using Suc.prems by (simp add: sqlite3RowSetNext_def)
  then show ?case using Suc.IH [of p] Suc.IH [of ?p] Suc.prems by auto
qed simp

lemma drain_next: "rs_entry p = ys \<Longrightarrow> rs_next p \<Longrightarrow> rs_sorted p \<Longrightarrow>
    \<exists>p'. drain (length ys + k) p = Some (map Some ys @ replicate k None, p')"
proof (induction ys arbitrary: p)
  case Nil
  then show ?case using drain_empty [of p k] by simp
next
  case (Cons v ys)
  show ?case
  proof (cases "ys = []")
    case True
    let ?p = "sqlite3RowSetClear (p\<lparr>rs_entry := []\<rparr>)"
    have "sqlite3RowSetNext p = Some (Some v, ?p)" using Cons.prems True by (simp add: sqlite3RowSetNext_def)
    then show ?thesis using drain_empty [of ?p k] True by (auto simp: sqlite3RowSetClear_def)
  next
    case False
    let ?p = "p\<lparr>rs_entry := ys\<rparr>"
    have "sqlite3RowSetNext p = Some (Some v, ?p)" using Cons.prems False by (simp add: sqlite3RowSetNext_def)
    then show ?thesis using Cons.IH [of ?p] Cons.prems by auto
  qed
qed

lemma rs_wf_Init: "rs_wf (sqlite3RowSetInit n)" "rs_entry (sqlite3RowSetInit n) = []" "rs_next (sqlite3RowSetInit n) = False"
  by (simp_all add: rs_wf_def sqlite3RowSetInit_def)

text \<open>
  Ids inserted in any order come out of \<open>sqlite3RowSetNext\<close> in increasing order, each once,
  and then it reports the set empty: fewer than \<open>2 ^ 40\<close> insertions never run past the 40
  buckets of the sort.
\<close>

lemma RowSet_next_sorted:
  assumes "length xs < 2 ^ 40"
  shows "map_option fst (drain (card (set xs) + k) (foldl (sqlite3RowSetInsert True) (sqlite3RowSetInit n) xs))
    = Some (map Some (sorted_list_of_set (set xs)) @ replicate k None)"
proof -
  let ?p = "foldl (sqlite3RowSetInsert True) (sqlite3RowSetInit n) xs"
  have p: "rs_wf ?p" "rs_entry ?p = xs" "\<not> rs_next ?p"
    using Insert_all [OF rs_wf_Init(1) [of n], of xs] rs_wf_Init(2,3) [of n] by simp_all
  obtain ys where ys: "(if \<not> rs_sorted ?p then rowSetEntrySort (rs_entry ?p) else Some (rs_entry ?p)) = Some ys"
    "strict ys" "set ys = set xs" using sorted_entries [OF p(1)] assms p(2) by metis
  have eq: "ys = sorted_list_of_set (set xs)" "length ys = card (set xs)"
    using ys(2,3) strict_sorted_equal by (metis sorted_list_of_set.idem_if_sorted_distinct strict_sorted_iff, metis distinct_card strict_sorted_iff)
  let ?q = "?p\<lparr>rs_entry := ys, rs_sorted := True, rs_next := True\<rparr>"
  have "sqlite3RowSetNext ?p = sqlite3RowSetNext ?q"
    using ys(1) p(3) by (simp add: sqlite3RowSetNext_def split del: if_split)
  then have "drain (Suc m) ?p = drain (Suc m) ?q" for m by simp
  then have "map_option fst (drain m ?p) = map_option fst (drain m ?q)" for m by (cases m) simp_all
  moreover obtain p' where "drain (length ys + k) ?q = Some (map Some ys @ replicate k None, p')"
    using drain_next [of ?q ys k] by auto
  ultimately show ?thesis using eq by simp
qed

text \<open>
  The tree made of a sorted list holds the list in order and is balanced: twice the
  \<open>height - 1\<close>-th power of two is more than its length at most, so a test of \<open>n\<close> ids
  descends at most \<open>1 + log2 n\<close> levels.
\<close>

lemma ListToTree_balanced:
  assumes "xs \<noteq> []"
  shows "inorder (rowSetListToTree xs) = xs \<and> 2 ^ (height (rowSetListToTree xs) - 1) \<le> length xs"
proof -
  have "inorder (rowSetListToTree xs) = xs" by (rule ListToTree_inorder [OF assms])
  moreover from this have "size (rowSetListToTree xs) = length xs" by (metis length_inorder)
  moreover have "2 ^ (height (rowSetListToTree xs) - 1) \<le> size (rowSetListToTree xs)"
    using tree_loop_ok [of "Node Leaf (hd xs) Leaf" 1 "tl xs"] by (simp add: rowSetListToTree_def)
  ultimately show ?thesis by simp
qed

text \<open>A statement's use of the set for tests: insertions, and tests with a batch number.\<close>

datatype rs_op = Insert_id int | Test_id int int

primrec rs_run :: "rs_op list \<Rightarrow> RowSet \<Rightarrow> (bool list \<times> RowSet) option" where
  "rs_run [] p = Some ([], p)"
| "rs_run (op # ops) p =
     (case op of
        Insert_id v \<Rightarrow> rs_run ops (sqlite3RowSetInsert True p v)
      | Test_id b v \<Rightarrow> do {
          (r, p) \<leftarrow> sqlite3RowSetTest True p b v;
          (rs, p) \<leftarrow> rs_run ops p;
          Some (r # rs, p) })"

text \<open>Its specification: the ids of earlier batches, those of this batch, and its number.\<close>

primrec rs_spec :: "rs_op list \<Rightarrow> int set \<Rightarrow> int set \<Rightarrow> int \<Rightarrow> bool list" where
  "rs_spec [] old new batch = []"
| "rs_spec (op # ops) old new batch =
     (case op of
        Insert_id v \<Rightarrow> rs_spec ops old (insert v new) batch
      | Test_id b v \<Rightarrow>
          if b \<noteq> batch then (v \<in> old \<union> new) # rs_spec ops (old \<union> new) {} b
          else (v \<in> old) # rs_spec ops old new batch)"

lemma rs_run_spec:
  "rs_wf p \<Longrightarrow> length (rs_entry p) + length ops < 2 ^ 40 \<Longrightarrow>
    \<exists>p'. rs_run ops p = Some (rs_spec ops (forest_set (rs_forest p)) (set (rs_entry p)) (rs_batch p), p') \<and> rs_wf p'"
proof (induction ops arbitrary: p)
  case Nil
  then show ?case by simp
next
  case (Cons op ops)
  show ?case
  proof (cases op)
    case (Insert_id v)
    then show ?thesis using Cons.IH [of "sqlite3RowSetInsert True p v"] Cons.prems Insert_ok [OF Cons.prems(1)] by simp
  next
    case (Test_id b v)
    obtain p1 where p1: "sqlite3RowSetTest True p b v =
        Some (v \<in> forest_set (rs_forest p) \<or> b \<noteq> rs_batch p \<and> v \<in> set (rs_entry p), p1)" "rs_wf p1" "rs_batch p1 = b"
      "forest_set (rs_forest p1) = forest_set (rs_forest p) \<union> (if b \<noteq> rs_batch p then set (rs_entry p) else {})"
      "rs_entry p1 = (if b \<noteq> rs_batch p then [] else rs_entry p)"
      using Test_ok [OF Cons.prems(1), of b v] Cons.prems(2) by auto
    then obtain p' where "rs_run ops p1 = Some (rs_spec ops (forest_set (rs_forest p1)) (set (rs_entry p1)) (rs_batch p1), p')" "rs_wf p'"
      using Cons.IH [OF p1(2)] Cons.prems(2) by (auto split: if_splits)
    then show ?thesis using p1 Test_id by (cases "b \<noteq> rs_batch p") auto
  qed
qed

text \<open>
  C34: Over any history of insertions and tests, a test answers whether the id was inserted
  before the last change of the batch number: the forest of trees, its merges and its sorts
  implement a set of old ids and a set of new ones.
\<close>

theorem RowSet_history:
  assumes "length ops < 2 ^ 40"
  shows "map_option fst (rs_run ops (sqlite3RowSetInit n)) = Some (rs_spec ops {} {} 0)"
  using rs_run_spec [OF rs_wf_Init(1), of n ops] assms by (auto simp: sqlite3RowSetInit_def)

lemma RowSet_next_sorted_witness:
  "map_option fst (drain (2 + 1) (foldl (sqlite3RowSetInsert True) (sqlite3RowSetInit 0) [7, -3, 7])) = Some [Some (-3), Some 7, None]"
proof -
  have c: "card (set [7, -3, 7 :: int]) = 2"
    by (simp add: insert_commute [of "- 3" 7])
  have s: "sorted_list_of_set (set [7, -3, 7 :: int]) = [-3, 7]" unfolding sorted_list_of_set_sort_remdups by simp
  have n: "replicate 1 None = [None :: int option]" by simp
  show ?thesis using RowSet_next_sorted [of "[7, -3, 7]" 1 0, unfolded c s n] by simp
qed

lemma ListToTree_balanced_witness:
  "inorder (rowSetListToTree [1, 2, 3, 4, 5]) = [1, 2, 3, 4, 5] \<and> height (rowSetListToTree [1, 2, 3, 4, 5]) = 3"
  using ListToTree_balanced [of "[1, 2, 3, 4, 5]"] by (simp add: rowSetListToTree_def)

theorem RowSet_history_witness:
  "map_option fst (rs_run [Insert_id 4, Test_id 1 4, Insert_id 5, Test_id 1 5, Test_id 2 5] (sqlite3RowSetInit 3))
    = Some [True, False, True]"
  using RowSet_history [of "[Insert_id 4, Test_id 1 4, Insert_id 5, Test_id 1 5, Test_id 2 5]" 3] by simp

end
