(* ===== verification/MemJournal.thy ===== *)
theory MemJournal
  imports Prelude
begin

text \<open>
  The in-memory rollback journal (\<open>Example/Pods/WCDBOptimizedSQLCipher/src/memjournal.c\<close>), in
  the build without \<open>SQLITE_ENABLE_ATOMIC_WRITE\<close>: a file kept as a chain of chunks, which is
  written to a real file when it grows past \<open>nSpill\<close>. The chain is the list of the chunks'
  bytes written so far, a chunk pointer is its position in it. \<open>None\<close> is undefined behaviour:
  a null chunk, a read of bytes never written, a division by a chunk size of zero. The
  underlying file system is a parameter, a record of the functions of \<open>sqlite3_vfs\<close> and
  \<open>sqlite3_io_methods\<close> that the journal calls, over a state \<open>'w\<close> of its own.
\<close>

section \<open>State\<close>

type_synonym FileChunk = "u8 list"

definition MEMJOURNAL_DFLT_FILECHUNKSIZE :: nat where "MEMJOURNAL_DFLT_FILECHUNKSIZE = 1024"

definition sizeof_FileChunk :: nat where "sizeof_FileChunk = 16"

record FilePoint =
  iOffset :: nat
  pChunk :: "nat option"

record MemJournal =
  nChunkSize :: nat
  nSpill :: int
  nSize :: nat
  pFirst :: "FileChunk list"
  endpoint :: FilePoint
  readpoint :: FilePoint
  flags :: nat
  zJournal :: "u8 list"

record 'w vfs =
  xOpen :: "u8 list \<Rightarrow> nat \<Rightarrow> 'w \<Rightarrow> nat \<times> 'w"
  xRead :: "nat \<Rightarrow> nat \<Rightarrow> 'w \<Rightarrow> nat \<times> u8 list \<times> 'w"
  xWrite :: "u8 list \<Rightarrow> nat \<Rightarrow> 'w \<Rightarrow> nat \<times> 'w"
  xTruncate :: "nat \<Rightarrow> 'w \<Rightarrow> nat \<times> 'w"
  xClose :: "'w \<Rightarrow> 'w"

text \<open>The file handle: its methods are those of the journal in memory or of the real file.\<close>

datatype handle = Memory MemJournal | Real

definition start_point :: FilePoint where
  "start_point = \<lparr>iOffset = 0, pChunk = None\<rparr>"

section \<open>Reading\<close>

fun find_chunk :: "nat \<Rightarrow> FileChunk list \<Rightarrow> nat \<Rightarrow> nat \<Rightarrow> nat \<Rightarrow> nat option" where
  "find_chunk sz [] iOff iOfst i = None"
| "find_chunk sz (c # cs) iOff iOfst i =
     (if iOff + sz \<le> iOfst then find_chunk sz cs (iOff + sz) iOfst (i + 1) else Some i)"

text \<open>The copying loop, over the chunks from number \<open>i\<close> on.\<close>

fun read_loop :: "nat \<Rightarrow> FileChunk list \<Rightarrow> nat \<Rightarrow> nat \<Rightarrow> nat \<Rightarrow> (u8 list \<times> nat option) option" where
  "read_loop sz [] i nRead iChunkOffset = None"
| "read_loop sz (c # cs) i nRead iChunkOffset =
     (let iSpace = sz - iChunkOffset; nCopy = min nRead iSpace
      in if iChunkOffset + nCopy > length c then None
         else let out = take nCopy (drop iChunkOffset c)
              in if nRead < iSpace then Some (out, Some i)
                 else if cs = [] then Some (out, None)
                 else if nRead - iSpace > 0 then do {
                   (rest, p) \<leftarrow> read_loop sz cs (i + 1) (nRead - iSpace) 0;
                   Some (out @ rest, p) }
                 else Some (out, Some (i + 1)))"

definition memjrnlRead :: "MemJournal \<Rightarrow> nat \<Rightarrow> nat \<Rightarrow> (u8 list \<times> MemJournal) option" where
  "memjrnlRead p iAmt iOfst = do {
     i \<leftarrow> (if iOffset (readpoint p) \<noteq> iOfst \<or> iOfst = 0
           then find_chunk (nChunkSize p) (pFirst p) 0 iOfst 0 else pChunk (readpoint p));
     (out, q) \<leftarrow> (if nChunkSize p = 0 then None
                  else read_loop (nChunkSize p) (drop i (pFirst p)) i iAmt (iOfst mod nChunkSize p));
     Some (out, p\<lparr>readpoint := \<lparr>iOffset = (if q \<noteq> None then iOfst + iAmt else 0), pChunk = q\<rparr>\<rparr>) }"

section \<open>Spilling to the real file\<close>

definition memjrnlFreeChunks :: "MemJournal \<Rightarrow> MemJournal" where
  "memjrnlFreeChunks p = p\<lparr>pFirst := []\<rparr>"

fun write_chunks :: "'w vfs \<Rightarrow> FileChunk list \<Rightarrow> nat \<Rightarrow> nat \<Rightarrow> nat \<Rightarrow> 'w \<Rightarrow> (nat \<times> 'w) option" where
  "write_chunks vfs [] nChunk iOff eof w = Some (SQLITE_OK, w)"
| "write_chunks vfs (c # cs) nChunk iOff eof w =
     (let nChunk = (if iOff + nChunk > eof then eof - iOff else nChunk)
      in if nChunk > length c then None
         else case xWrite vfs (take nChunk c) iOff w of
           (rc, w) \<Rightarrow> if rc \<noteq> SQLITE_OK then Some (rc, w)
                      else write_chunks vfs cs nChunk (iOff + nChunk) eof w)"

text \<open>The object is copied, zeroed, and restored when the file could not be made.\<close>

definition memjrnlCreateFile :: "'w vfs \<Rightarrow> MemJournal \<Rightarrow> 'w \<Rightarrow> (nat \<times> handle \<times> 'w) option" where
  "memjrnlCreateFile vfs p w =
     (case xOpen vfs (zJournal p) (flags p AND 0x87f7f) w of
        (rc, w) \<Rightarrow>
          if rc \<noteq> SQLITE_OK then Some (rc, Memory p, w)
          else do {
            (rc, w) \<leftarrow> write_chunks vfs (pFirst p) (nChunkSize p) 0 (iOffset (endpoint p)) w;
            Some (if rc = SQLITE_OK then (rc, Real, w) else (rc, Memory p, xClose vfs w)) })"

section \<open>Writing\<close>

text \<open>
  A new chunk is linked behind the last one. A write into a chunk keeps what stands before
  the offset; bytes between the end of the chunk's content and the offset would be undefined.
\<close>

definition link_chunk :: "MemJournal \<Rightarrow> MemJournal" where
  "link_chunk p =
     (case pChunk (endpoint p) of
        None \<Rightarrow> p\<lparr>pFirst := [[]], endpoint := (endpoint p)\<lparr>pChunk := Some 0\<rparr>\<rparr>
      | Some k \<Rightarrow> p\<lparr>pFirst := take (k + 1) (pFirst p) @ [[]], endpoint := (endpoint p)\<lparr>pChunk := Some (k + 1)\<rparr>\<rparr>)"

definition fill_chunk :: "MemJournal \<Rightarrow> nat \<Rightarrow> u8 list \<Rightarrow> MemJournal option" where
  "fill_chunk p iChunkOffset z = do {
     k \<leftarrow> pChunk (endpoint p);
     c \<leftarrow> rd (pFirst p) k;
     if iChunkOffset \<le> length c then
       Some (p\<lparr>pFirst := (pFirst p)[k := take iChunkOffset c @ z @ drop (iChunkOffset + length z) c],
               endpoint := (endpoint p)\<lparr>iOffset := iOffset (endpoint p) + length z\<rparr>\<rparr>)
     else None }"

function write_loop :: "bool list \<Rightarrow> MemJournal \<Rightarrow> u8 list \<Rightarrow> (nat \<times> MemJournal) option" where
  "write_loop mem p zWrite =
     (if zWrite = [] then Some (SQLITE_OK, p)
      else if nChunkSize p = 0 then None
      else
        let iChunkOffset = iOffset (endpoint p) mod nChunkSize p;
            iSpace = min (length zWrite) (nChunkSize p - iChunkOffset);
            (ok, mem) = (if iChunkOffset = 0 then alloc mem else (True, mem))
        in if \<not> ok then Some (SQLITE_IOERR_NOMEM, p)
           else case fill_chunk (if iChunkOffset = 0 then link_chunk p else p) iChunkOffset (take iSpace zWrite) of
             None \<Rightarrow> None
           | Some p \<Rightarrow> write_loop mem p (drop iSpace zWrite))"
  by pat_completeness auto
termination
  by (relation "measure (\<lambda>(mem, p, z). length z)") (auto simp: min_def)

declare write_loop.simps [simp del]

definition memjrnlWrite :: "'w vfs \<Rightarrow> bool list \<Rightarrow> MemJournal \<Rightarrow> u8 list \<Rightarrow> nat \<Rightarrow> 'w \<Rightarrow> (nat \<times> handle \<times> 'w) option" where
  "memjrnlWrite vfs mem p zBuf iOfst w =
     (if nSpill p > 0 \<and> int (length zBuf + iOfst) > nSpill p then do {
        (rc, h, w) \<leftarrow> memjrnlCreateFile vfs p w;
        (if rc = SQLITE_OK then (case xWrite vfs zBuf iOfst w of (rc, w) \<Rightarrow> Some (rc, h, w))
         else Some (rc, h, w)) }
      else do {
        (rc, p) \<leftarrow> write_loop mem p zBuf;
        Some (rc, Memory (if rc = SQLITE_OK then p\<lparr>nSize := length zBuf + iOfst\<rparr> else p), w) })"

section \<open>The other methods\<close>

definition memjrnlTruncate :: "MemJournal \<Rightarrow> nat \<Rightarrow> nat \<times> MemJournal" where
  "memjrnlTruncate p sz =
     (SQLITE_OK,
      if sz = 0 then (memjrnlFreeChunks p)\<lparr>nSize := 0, endpoint := start_point, readpoint := start_point\<rparr>
      else p)"

definition memjrnlClose :: "MemJournal \<Rightarrow> nat \<times> MemJournal" where
  "memjrnlClose p = (SQLITE_OK, memjrnlFreeChunks p)"

definition memjrnlSync :: "MemJournal \<Rightarrow> nat \<times> MemJournal" where
  "memjrnlSync p = (SQLITE_OK, p)"

definition memjrnlFileSize :: "MemJournal \<Rightarrow> nat \<times> nat" where
  "memjrnlFileSize p = (SQLITE_OK, iOffset (endpoint p))"

definition sqlite3JournalOpen :: "'w vfs \<Rightarrow> u8 list \<Rightarrow> nat \<Rightarrow> int \<Rightarrow> 'w \<Rightarrow> nat \<times> handle \<times> 'w" where
  "sqlite3JournalOpen vfs zName fl spill w =
     (if spill = 0 then (case xOpen vfs zName (fl AND 0x87f7f) w of (rc, w) \<Rightarrow> (rc, Real, w))
      else (SQLITE_OK,
            Memory \<lparr>nChunkSize = (if spill > 0 then nat spill
                                  else 8 + MEMJOURNAL_DFLT_FILECHUNKSIZE - sizeof_FileChunk),
              nSpill = spill, nSize = 0, pFirst = [], endpoint = start_point, readpoint = start_point,
              flags = fl, zJournal = zName\<rparr>, w))"

definition sqlite3MemJournalOpen :: "'w vfs \<Rightarrow> 'w \<Rightarrow> nat \<times> handle \<times> 'w" where
  "sqlite3MemJournalOpen vfs w = sqlite3JournalOpen vfs [] 0 (-1) w"

definition sqlite3JournalIsInMemory :: "handle \<Rightarrow> bool" where
  "sqlite3JournalIsInMemory h = (case h of Memory p \<Rightarrow> True | Real \<Rightarrow> False)"
text \<open>The wrappers of \<open>os.c\<close>, which call the methods of the handle.\<close>

definition sqlite3OsRead :: "'w vfs \<Rightarrow> handle \<Rightarrow> nat \<Rightarrow> nat \<Rightarrow> 'w \<Rightarrow> (nat \<times> u8 list \<times> handle \<times> 'w) option" where
  "sqlite3OsRead vfs h amt ofst w =
     (case h of
        Memory p \<Rightarrow> map_option (\<lambda>(z, p). (SQLITE_OK, z, Memory p, w)) (memjrnlRead p amt ofst)
      | Real \<Rightarrow> (case xRead vfs amt ofst w of (rc, z, w) \<Rightarrow> Some (rc, z, Real, w)))"

definition sqlite3OsWrite :: "'w vfs \<Rightarrow> bool list \<Rightarrow> handle \<Rightarrow> u8 list \<Rightarrow> nat \<Rightarrow> 'w \<Rightarrow> (nat \<times> handle \<times> 'w) option" where
  "sqlite3OsWrite vfs mem h z ofst w =
     (case h of
        Memory p \<Rightarrow> memjrnlWrite vfs mem p z ofst w
      | Real \<Rightarrow> (case xWrite vfs z ofst w of (rc, w) \<Rightarrow> Some (rc, Real, w)))"

definition sqlite3OsTruncate :: "'w vfs \<Rightarrow> handle \<Rightarrow> nat \<Rightarrow> 'w \<Rightarrow> nat \<times> handle \<times> 'w" where
  "sqlite3OsTruncate vfs h sz w =
     (case h of
        Memory p \<Rightarrow> (case memjrnlTruncate p sz of (rc, p) \<Rightarrow> (rc, Memory p, w))
      | Real \<Rightarrow> (case xTruncate vfs sz w of (rc, w) \<Rightarrow> (rc, Real, w)))"

section \<open>The invariant\<close>

text \<open>Every chunk but the last is full, and the last is not empty.\<close>

definition chunks_ok :: "nat \<Rightarrow> FileChunk list \<Rightarrow> bool" where
  "chunks_ok sz cs \<longleftrightarrow> list_all (\<lambda>c. length c = sz) (butlast cs) \<and> (cs \<noteq> [] \<longrightarrow> last cs \<noteq> [] \<and> length (last cs) \<le> sz)"

abbreviation content :: "MemJournal \<Rightarrow> u8 list" where
  "content p \<equiv> concat (pFirst p)"

text \<open>The read point is at the start of the file, where it is not used, or in the chunk of its offset.\<close>

definition journal_ok :: "MemJournal \<Rightarrow> bool" where
  "journal_ok p \<longleftrightarrow> 0 < nChunkSize p \<and> chunks_ok (nChunkSize p) (pFirst p)
     \<and> endpoint p = \<lparr>iOffset = length (content p), pChunk = (if pFirst p = [] then None else Some (length (pFirst p) - 1))\<rparr>
     \<and> (iOffset (readpoint p) \<noteq> 0 \<longrightarrow> pChunk (readpoint p) = Some (iOffset (readpoint p) div nChunkSize p))"

lemma chunks_ok_Nil [simp]: "chunks_ok sz []"
  by (simp add: chunks_ok_def)

lemma chunks_ok_Cons: "chunks_ok sz (c # cs) \<longleftrightarrow>
    (if cs = [] then c \<noteq> [] \<and> length c \<le> sz else length c = sz \<and> chunks_ok sz cs)"
  by (auto simp: chunks_ok_def)

lemma chunks_ok_snoc: "chunks_ok sz (us @ [c]) \<longleftrightarrow> list_all (\<lambda>u. length u = sz) us \<and> c \<noteq> [] \<and> length c \<le> sz"
  by (simp add: chunks_ok_def)

lemma full_chunks: "list_all (\<lambda>u. length u = sz) us \<Longrightarrow> length (concat us) = length us * sz"
  by (induction us) auto

lemma find_chunk_ok:
  assumes "0 < sz"
  shows "chunks_ok sz cs \<Longrightarrow> o1 \<le> o2 \<Longrightarrow> o2 < o1 + length (concat cs) \<Longrightarrow>
    find_chunk sz cs o1 o2 i = Some (i + (o2 - o1) div sz) \<and> (o2 - o1) div sz < length cs"
proof (induction cs arbitrary: o1 i)
  case (Cons c cs)
  show ?case
  proof (cases "o1 + sz \<le> o2")
    case True
    then have c: "length c = sz" "chunks_ok sz cs" using Cons.prems by (auto simp: chunks_ok_Cons split: if_splits)
    have "(o2 - o1) div sz = Suc ((o2 - (o1 + sz)) div sz)"
      using True assms by (metis diff_diff_left le_add_diff_inverse2 le_div_geq nat_le_linear ordered_cancel_comm_monoid_diff_class.le_diff_conv2 trans_le_add1 add_leD1 add.commute)
    then show ?thesis using Cons.IH [of "o1 + sz" "i + 1"] Cons.prems True c by simp
  next
    case False
    then have "o2 - o1 < sz" using Cons.prems(2) by linarith
    then have "(o2 - o1) div sz = 0" by simp
    then show ?thesis using False by simp
  qed
qed simp

lemma read_loop_ok:
  assumes "0 < sz"
  shows "chunks_ok sz cs \<Longrightarrow> off < sz \<Longrightarrow> 0 < n \<Longrightarrow> off + n \<le> length (concat cs) \<Longrightarrow>
    \<exists>q. read_loop sz cs i n off = Some (take n (drop off (concat cs)), q) \<and> (q = None \<or> q = Some (i + (off + n) div sz))"
proof (induction cs arbitrary: i n off)
  case (Cons c cs)
  let ?sp = "sz - off"
  show ?case
  proof (cases "cs = []")
    case True
    then have "length c \<le> sz" "off + n \<le> length c" using Cons.prems by (auto simp: chunks_ok_Cons)
    then show ?thesis using True assms by (auto simp: Let_def min_def)
  next
    case cs: False
    then have c: "length c = sz" "chunks_ok sz cs" using Cons.prems by (auto simp: chunks_ok_Cons)
    consider "n < ?sp" | "n = ?sp" | "n > ?sp" by linarith
    then show ?thesis
    proof cases
      case 1
      then show ?thesis using c cs by (auto simp: Let_def min_def)
    next
      case 2
      then show ?thesis using c cs assms Cons.prems by (auto simp: Let_def min_def)
    next
      case 3
      then have "0 + (n - ?sp) \<le> length (concat cs)" using Cons.prems(4) c by simp
      then obtain q where q: "read_loop sz cs (i + 1) (n - ?sp) 0 = Some (take (n - ?sp) (drop 0 (concat cs)), q)"
        "q = None \<or> q = Some (i + 1 + (0 + (n - ?sp)) div sz)"
        using Cons.IH [OF c(2) assms, of "n - ?sp" "i + 1"] 3 by auto
      have "off + n = sz + (n - ?sp)" using 3 Cons.prems by linarith
      then have "(off + n) div sz = (sz + (n - ?sp)) div sz" by simp
      then have d: "(off + n) div sz = 1 + (n - ?sp) div sz"
        using div_add_self1 [of sz "n - ?sp"] assms by (metis add.commute less_not_refl)
      then show ?thesis using q c cs 3 Cons.prems by (auto simp: Let_def min_def)
    qed
  qed
qed simp

lemma drop_chunks:
  "chunks_ok sz cs \<Longrightarrow> i < length cs \<Longrightarrow> chunks_ok sz (drop i cs) \<and> concat (drop i cs) = drop (i * sz) (concat cs)"
proof (induction i arbitrary: cs)
  case (Suc i)
  then obtain c cs' where cs: "cs = c # cs'" by (cases cs) auto
  then have "cs' \<noteq> []" using Suc.prems by auto
  then show ?case using Suc cs by (auto simp: chunks_ok_Cons)
qed simp

lemma memjrnlRead_ok:
  assumes p: "journal_ok p" and n: "0 < n" "ofst + n \<le> length (content p)"
  shows "\<exists>r. memjrnlRead p n ofst = Some (take n (drop ofst (content p)), p\<lparr>readpoint := r\<rparr>) \<and> journal_ok (p\<lparr>readpoint := r\<rparr>)"
proof -
  let ?sz = "nChunkSize p" and ?i = "ofst div nChunkSize p"
  have sz: "0 < ?sz" and cs: "chunks_ok ?sz (pFirst p)" using p by (simp_all add: journal_ok_def)
  have f: "find_chunk ?sz (pFirst p) 0 ofst 0 = Some ?i" "?i < length (pFirst p)"
    using find_chunk_ok [OF sz cs, of 0 ofst 0] n by simp_all
  have i: "(if iOffset (readpoint p) \<noteq> ofst \<or> ofst = 0 then find_chunk ?sz (pFirst p) 0 ofst 0 else pChunk (readpoint p)) = Some ?i"
    using f(1) p by (auto simp: journal_ok_def)
  have d: "chunks_ok ?sz (drop ?i (pFirst p))" "concat (drop ?i (pFirst p)) = drop (?i * ?sz) (content p)"
    using drop_chunks [OF cs f(2)] by simp_all
  have e: "ofst mod ?sz + ?i * ?sz = ofst" by (metis mod_div_mult_eq)
  have l: "ofst mod ?sz + n \<le> length (concat (drop ?i (pFirst p)))"
    unfolding d(2) length_drop using n(2) e by linarith
  obtain q where q: "read_loop ?sz (drop ?i (pFirst p)) ?i n (ofst mod ?sz) =
      Some (take n (drop (ofst mod ?sz) (concat (drop ?i (pFirst p)))), q)"
      "q = None \<or> q = Some (?i + (ofst mod ?sz + n) div ?sz)"
    using read_loop_ok [OF sz d(1) _ n(1) l, of ?i] sz by auto
  have "ofst + n = ofst mod ?sz + n + ?i * ?sz" using e by linarith
  then have "(ofst + n) div ?sz = ?i + (ofst mod ?sz + n) div ?sz" using sz by (metis div_mult_self1 less_not_refl)
  moreover have "drop (ofst mod ?sz) (concat (drop ?i (pFirst p))) = drop ofst (content p)"
    unfolding d(2) drop_drop e ..
  ultimately show ?thesis using q sz p unfolding memjrnlRead_def i by (auto simp: journal_ok_def)
qed

lemma chunk_split:
  assumes "journal_ok p" "pFirst p \<noteq> []"
  obtains us c where "pFirst p = us @ [c]" "list_all (\<lambda>u. length u = nChunkSize p) us" "c \<noteq> []" "length c \<le> nChunkSize p"
    "length (content p) = length us * nChunkSize p + length c"
proof -
  obtain us c where "pFirst p = us @ [c]" by (metis assms(2) rev_exhaust)
  then show thesis using that assms by (simp add: journal_ok_def chunks_ok_snoc full_chunks)
qed

text \<open>One turn of the writing loop.\<close>

lemma fill_chunk_ok:
  assumes p: "journal_ok p" and off: "off = length (content p) mod nChunkSize p"
    and z: "z \<noteq> []" "length z \<le> nChunkSize p - off"
  shows "\<exists>cs e. fill_chunk (if off = 0 then link_chunk p else p) off z = Some (p\<lparr>pFirst := cs, endpoint := e\<rparr>)
    \<and> journal_ok (p\<lparr>pFirst := cs, endpoint := e\<rparr>) \<and> concat cs = content p @ z"
proof -
  let ?sz = "nChunkSize p"
  have ends: "iOffset (endpoint p) = length (content p)" "pChunk (endpoint p) = (if pFirst p = [] then None else Some (length (pFirst p) - 1))"
    and sz: "0 < ?sz" using p by (simp_all add: journal_ok_def)
  show ?thesis
  proof (cases "pFirst p = []")
    case True
    let ?e = "\<lparr>iOffset = length z, pChunk = Some 0\<rparr>"
    have "fill_chunk (link_chunk p) 0 z = Some (p\<lparr>pFirst := [z], endpoint := ?e\<rparr>)"
      using True ends by (simp add: link_chunk_def fill_chunk_def rd_def)
    moreover have "journal_ok (p\<lparr>pFirst := [z], endpoint := ?e\<rparr>)"
      using p z by (simp add: journal_ok_def chunks_ok_Cons)
    ultimately show ?thesis using True off by (intro exI [of _ "[z]"] exI [of _ ?e]) simp
  next
    case False
    obtain us c where c: "pFirst p = us @ [c]" "list_all (\<lambda>u. length u = ?sz) us" "c \<noteq> []" "length c \<le> ?sz"
        "length (content p) = length us * ?sz + length c" by (rule chunk_split [OF p False])
    show ?thesis
    proof (cases "length c = ?sz")
      case True
      have off0: "off = 0" unfolding off c(5) True by simp
      let ?e = "\<lparr>iOffset = length (content p) + length z, pChunk = Some (length us + 1)\<rparr>"
      let ?cs = "(us @ [c]) @ [z]"
      have "fill_chunk (link_chunk p) 0 z = Some (p\<lparr>pFirst := ?cs, endpoint := ?e\<rparr>)"
        using c(1) ends by (simp add: link_chunk_def fill_chunk_def rd_def nth_append list_update_append)
      moreover have "chunks_ok ?sz ?cs" unfolding chunks_ok_snoc using c(2) z True off0 by simp
      then have "journal_ok (p\<lparr>pFirst := ?cs, endpoint := ?e\<rparr>)" using p c(1) by (simp add: journal_ok_def)
      ultimately show ?thesis using c(1) off0 by (intro exI [of _ ?cs] exI [of _ ?e]) simp
    next
      case False
      then have offc: "off = length c" unfolding off c(5) using c(4) by simp
      let ?e = "\<lparr>iOffset = length (content p) + length z, pChunk = Some (length us)\<rparr>"
      let ?cs = "us @ [c @ z]"
      have "fill_chunk p (length c) z = Some (p\<lparr>pFirst := ?cs, endpoint := ?e\<rparr>)"
        using c(1) ends by (simp add: fill_chunk_def rd_def list_update_append)
      moreover have "chunks_ok ?sz ?cs" unfolding chunks_ok_snoc using c z offc by simp
      then have "journal_ok (p\<lparr>pFirst := ?cs, endpoint := ?e\<rparr>)" using p c(1) by (simp add: journal_ok_def)
      ultimately show ?thesis using c(1,3) offc by (intro exI [of _ ?cs] exI [of _ ?e]) simp
    qed
  qed
qed

definition written :: "bool list \<Rightarrow> MemJournal \<Rightarrow> u8 list \<Rightarrow> nat \<Rightarrow> FileChunk list \<Rightarrow> FilePoint \<Rightarrow> bool" where
  "written mem p z rc cs e \<longleftrightarrow> journal_ok (p\<lparr>pFirst := cs, endpoint := e\<rparr>) \<and> (\<exists>k. concat cs = content p @ take k z
    \<and> (rc = SQLITE_OK \<and> k = length z \<or> rc = SQLITE_IOERR_NOMEM \<and> mem \<noteq> [] \<and> k < length z))"

lemma written_more:
  assumes "written mem' (p\<lparr>pFirst := cs, endpoint := e\<rparr>) (drop n z) rc cs' e'" "concat cs = content p @ take n z"
    "n \<le> length z" "mem' \<noteq> [] \<longrightarrow> mem \<noteq> []"
  shows "written mem p z rc cs' e'"
proof -
  obtain k where k: "concat cs' = concat cs @ take k (drop n z)"
    "rc = SQLITE_OK \<and> k = length z - n \<or> rc = SQLITE_IOERR_NOMEM \<and> mem' \<noteq> [] \<and> k < length z - n"
    using assms(1) by (auto simp: written_def)
  then have "concat cs' = content p @ take (n + k) z" using assms(2) by (simp add: take_add)
  moreover have "rc = SQLITE_OK \<and> n + k = length z \<or> rc = SQLITE_IOERR_NOMEM \<and> mem \<noteq> [] \<and> n + k < length z"
    using k(2) assms(3,4) by linarith
  ultimately show ?thesis using assms(1) unfolding written_def by auto
qed

lemma write_loop_ok:
  "journal_ok p \<Longrightarrow> \<exists>rc cs e. write_loop mem p z = Some (rc, p\<lparr>pFirst := cs, endpoint := e\<rparr>) \<and> written mem p z rc cs e"
proof (induction "length z" arbitrary: mem p z rule: less_induct)
  case less
  define sz where "sz = nChunkSize p"
  define off where "off = length (content p) mod sz"
  define n where "n = min (length z) (sz - off)"
  have sz: "0 < sz" and e: "iOffset (endpoint p) = length (content p)" using less.prems by (simp_all add: journal_ok_def sz_def)
  show ?case
  proof (cases "z = []")
    case True
    then show ?thesis using less.prems by (intro exI [of _ SQLITE_OK] exI [of _ "pFirst p"] exI [of _ "endpoint p"])
        (simp add: write_loop.simps written_def)
  next
    case z: False
    obtain ok mem' where m: "(if off = 0 then alloc mem else (True, mem)) = (ok, mem')" by fastforce
    then have mem: "\<not> ok \<or> mem' \<noteq> [] \<longrightarrow> mem \<noteq> []" by (auto split: if_splits)
    have w: "write_loop mem p z = (if \<not> ok then Some (SQLITE_IOERR_NOMEM, p)
        else case fill_chunk (if off = 0 then link_chunk p else p) off (take n z) of None \<Rightarrow> None
          | Some p \<Rightarrow> write_loop mem' p (drop n z))"
      using z sz e m unfolding sz_def off_def n_def
      by (subst write_loop.simps) (simp add: Let_def split del: if_split cong: if_cong)
    show ?thesis
    proof (cases ok)
      case False
      then show ?thesis using w mem z less.prems
        by (intro exI [of _ SQLITE_IOERR_NOMEM] exI [of _ "pFirst p"] exI [of _ "endpoint p"])
          (auto simp: written_def)
    next
      case True
      have off: "off < sz" using sz by (simp add: off_def)
      then have n: "0 < n" "n \<le> length z" "n \<le> sz - off" using z by (simp_all add: n_def)
      then have "take n z \<noteq> []" "length (take n z) \<le> sz - off" by auto
      then obtain cs e1 where q: "fill_chunk (if off = 0 then link_chunk p else p) off (take n z) = Some (p\<lparr>pFirst := cs, endpoint := e1\<rparr>)"
          "journal_ok (p\<lparr>pFirst := cs, endpoint := e1\<rparr>)" "concat cs = content p @ take n z"
        using fill_chunk_ok [OF less.prems, of off "take n z"] unfolding off_def sz_def by blast
      have l: "length (drop n z) < length z" using n by simp
      obtain rc cs' e' where r: "write_loop mem' (p\<lparr>pFirst := cs, endpoint := e1\<rparr>) (drop n z) = Some (rc, p\<lparr>pFirst := cs', endpoint := e'\<rparr>)"
          "written mem' (p\<lparr>pFirst := cs, endpoint := e1\<rparr>) (drop n z) rc cs' e'"
        using less.hyps [OF l q(2), of mem'] by fastforce
      have "write_loop mem p z = Some (rc, p\<lparr>pFirst := cs', endpoint := e'\<rparr>)" unfolding w using True q(1) r(1) by simp
      then show ?thesis using written_more [OF r(2) q(3) n(2)] mem by blast
    qed
  qed
qed
section \<open>Contracts of the operations\<close>

lemma journal_ok_fields: "journal_ok (p\<lparr>nSize := n\<rparr>) = journal_ok p"
  by (simp add: journal_ok_def)

lemma write_chunks_total:
  "chunks_ok sz cs \<Longrightarrow> \<exists>rc w'. write_chunks vfs cs sz iOff (iOff + length (concat cs)) w = Some (rc, w')"
proof (induction cs arbitrary: iOff w)
  case (Cons c cs)
  show ?case
  proof (cases "cs = []")
    case True
    then show ?thesis using Cons.prems by (auto simp: Let_def chunks_ok_Cons split: prod.splits)
  next
    case False
    then have c: "length c = sz" "chunks_ok sz cs" using Cons.prems by (simp_all add: chunks_ok_Cons)
    show ?thesis using Cons.IH [OF c(2), of "iOff + sz"] c(1) by (auto simp: Let_def add.assoc split: prod.splits)
  qed
qed simp

lemma memjrnlCreateFile_ok:
  assumes "journal_ok p"
  shows "\<exists>rc h w'. memjrnlCreateFile vfs p w = Some (rc, h, w') \<and> (if rc = SQLITE_OK then h = Real else h = Memory p)"
proof (cases "xOpen vfs (zJournal p) (flags p AND 0x87f7f) w")
  case (Pair rc w1)
  obtain rc2 w2 where "write_chunks vfs (pFirst p) (nChunkSize p) 0 (iOffset (endpoint p)) w1 = Some (rc2, w2)"
    using write_chunks_total [of "nChunkSize p" "pFirst p" vfs 0 w1] assms by (auto simp: journal_ok_def)
  then show ?thesis using Pair by (simp add: memjrnlCreateFile_def)
qed

text \<open>A file system that never fails, whose file is a list of bytes.\<close>

definition file_system :: "'w vfs \<Rightarrow> ('w \<Rightarrow> u8 list) \<Rightarrow> bool" where
  "file_system vfs file \<longleftrightarrow>
     (\<forall>n f w. \<exists>w'. xOpen vfs n f w = (SQLITE_OK, w') \<and> file w' = []) \<and>
     (\<forall>z w. \<exists>w'. xWrite vfs z (length (file w)) w = (SQLITE_OK, w') \<and> file w' = file w @ z) \<and>
     (\<forall>n k w. k + n \<le> length (file w) \<longrightarrow>
        (\<exists>w'. xRead vfs n k w = (SQLITE_OK, take n (drop k (file w)), w') \<and> file w' = file w)) \<and>
     (\<forall>w. \<exists>w'. xTruncate vfs 0 w = (SQLITE_OK, w') \<and> file w' = [])"

lemma file_system_rules:
  assumes "file_system vfs file"
  obtains (xOpen) w' where "xOpen vfs n f w = (SQLITE_OK, w')" "file w' = []"
  using assms unfolding file_system_def by metis

lemma file_system_write:
  assumes "file_system vfs file" "k = length (file w)"
  obtains w' where "xWrite vfs z k w = (SQLITE_OK, w')" "file w' = file w @ z"
  using assms unfolding file_system_def by metis

lemma write_chunks_file:
  assumes vfs: "file_system vfs file"
  shows "chunks_ok sz cs \<Longrightarrow> iOff = length (file w) \<Longrightarrow>
    \<exists>w'. write_chunks vfs cs sz iOff (iOff + length (concat cs)) w = Some (SQLITE_OK, w') \<and> file w' = file w @ concat cs"
proof (induction cs arbitrary: iOff w)
  case (Cons c cs)
  obtain w1 where w1: "xWrite vfs c iOff w = (SQLITE_OK, w1)" "file w1 = file w @ c"
    by (rule file_system_write [OF vfs Cons.prems(2)])
  show ?case
  proof (cases "cs = []")
    case True
    then show ?thesis using w1 Cons.prems by (auto simp: Let_def chunks_ok_Cons)
  next
    case False
    then have c: "length c = sz" "chunks_ok sz cs" using Cons.prems by (simp_all add: chunks_ok_Cons)
    show ?thesis using Cons.IH [OF c(2), of "iOff + sz" w1] w1 c(1) Cons.prems(2) by (auto simp: Let_def add.assoc)
  qed
qed simp

lemma memjrnlCreateFile_file:
  assumes vfs: "file_system vfs file" and p: "journal_ok p"
  shows "\<exists>w'. memjrnlCreateFile vfs p w = Some (SQLITE_OK, Real, w') \<and> file w' = content p"
proof -
  obtain w1 where w1: "xOpen vfs (zJournal p) (flags p AND 0x87f7f) w = (SQLITE_OK, w1)" "file w1 = []"
    by (rule file_system_rules [OF vfs])
  then show ?thesis using write_chunks_file [OF vfs, of "nChunkSize p" "pFirst p" 0 w1] p
    by (auto simp: memjrnlCreateFile_def journal_ok_def)
qed

section \<open>The interface: a file that is appended to\<close>

datatype file_op = Append "u8 list" | Read_at nat nat | Truncate

locale append_file =
  fixes ok :: "'s \<Rightarrow> bool" and bytes :: "'s \<Rightarrow> u8 list"
    and add_bytes :: "'s \<Rightarrow> u8 list \<Rightarrow> 's option"
    and read_at :: "'s \<Rightarrow> nat \<Rightarrow> nat \<Rightarrow> (u8 list \<times> 's) option"
    and clear :: "'s \<Rightarrow> 's option"
  assumes add_bytes: "ok s \<Longrightarrow> \<exists>s'. add_bytes s z = Some s' \<and> ok s' \<and> bytes s' = bytes s @ z"
    and read_at: "ok s \<Longrightarrow> 0 < n \<Longrightarrow> k + n \<le> length (bytes s) \<Longrightarrow>
      \<exists>s'. read_at s n k = Some (take n (drop k (bytes s)), s') \<and> ok s' \<and> bytes s' = bytes s"
    and clear: "ok s \<Longrightarrow> \<exists>s'. clear s = Some s' \<and> ok s' \<and> bytes s' = []"

text \<open>A history of the file, with the results of its reads, and of the list it stands for.\<close>

primrec file_run :: "('s \<Rightarrow> u8 list \<Rightarrow> 's option) \<Rightarrow> ('s \<Rightarrow> nat \<Rightarrow> nat \<Rightarrow> (u8 list \<times> 's) option) \<Rightarrow> ('s \<Rightarrow> 's option) \<Rightarrow>
    file_op list \<Rightarrow> 's \<Rightarrow> (u8 list list \<times> 's) option" where
  "file_run add_bytes read_at clear [] s = Some ([], s)"
| "file_run add_bytes read_at clear (x # xs) s =
     (case x of
        Append z \<Rightarrow> Option.bind (add_bytes s z) (file_run add_bytes read_at clear xs)
      | Read_at n k \<Rightarrow> do {
          (z, s) \<leftarrow> read_at s n k;
          (zs, s) \<leftarrow> file_run add_bytes read_at clear xs s;
          Some (z # zs, s) }
      | Truncate \<Rightarrow> Option.bind (clear s) (file_run add_bytes read_at clear xs))"

fun file_spec :: "file_op list \<Rightarrow> u8 list \<Rightarrow> u8 list list" where
  "file_spec [] b = []"
| "file_spec (Append z # xs) b = file_spec xs (b @ z)"
| "file_spec (Read_at n k # xs) b = take n (drop k b) # file_spec xs b"
| "file_spec (Truncate # xs) b = file_spec xs []"

fun in_range :: "file_op list \<Rightarrow> nat \<Rightarrow> bool" where
  "in_range [] len = True"
| "in_range (Append z # xs) len = in_range xs (len + length z)"
| "in_range (Read_at n k # xs) len = (0 < n \<and> k + n \<le> len \<and> in_range xs len)"
| "in_range (Truncate # xs) len = in_range xs 0"

context append_file
begin

lemma history:
  "ok s \<Longrightarrow> in_range xs (length (bytes s)) \<Longrightarrow>
    \<exists>s'. file_run add_bytes read_at clear xs s = Some (file_spec xs (bytes s), s') \<and> ok s'"
proof (induction xs arbitrary: s)
  case (Cons x xs)
  show ?case
  proof (cases x)
    case (Append z)
    obtain s1 where "add_bytes s z = Some s1" "ok s1" "bytes s1 = bytes s @ z"
      using add_bytes [OF Cons.prems(1), of z] by auto
    then show ?thesis using Cons.IH [of s1] Cons.prems(2) Append by auto
  next
    case (Read_at n k)
    then obtain s1 where "read_at s n k = Some (take n (drop k (bytes s)), s1)" "ok s1" "bytes s1 = bytes s"
      using read_at [OF Cons.prems(1)] Cons.prems(2) by auto
    then show ?thesis using Cons.IH [of s1] Cons.prems(2) Read_at by auto
  next
    case Truncate
    obtain s1 where "clear s = Some s1" "ok s1" "bytes s1 = []"
      using clear [OF Cons.prems(1)] by auto
    then show ?thesis using Cons.IH [of s1] Cons.prems(2) Truncate by auto
  qed
qed simp

end
section \<open>The journal implements it\<close>

text \<open>What the pager does with a journal: it writes at the end, reads, and truncates to nothing.\<close>

definition journal_bytes :: "('w \<Rightarrow> u8 list) \<Rightarrow> handle \<times> 'w \<Rightarrow> u8 list" where
  "journal_bytes file s = (case s of (Memory p, w) \<Rightarrow> content p | (Real, w) \<Rightarrow> file w)"

definition journal_inv :: "'w vfs \<Rightarrow> ('w \<Rightarrow> u8 list) \<Rightarrow> handle \<times> 'w \<Rightarrow> bool" where
  "journal_inv vfs file s \<longleftrightarrow> file_system vfs file \<and> (case s of (Memory p, w) \<Rightarrow> journal_ok p | (Real, w) \<Rightarrow> True)"

definition ok_result :: "nat \<times> 'a \<Rightarrow> 'a option" where
  "ok_result r = (if fst r = SQLITE_OK then Some (snd r) else None)"

definition journal_append :: "'w vfs \<Rightarrow> ('w \<Rightarrow> u8 list) \<Rightarrow> handle \<times> 'w \<Rightarrow> u8 list \<Rightarrow> (handle \<times> 'w) option" where
  "journal_append vfs file s z =
     Option.bind (sqlite3OsWrite vfs [] (fst s) z (length (journal_bytes file s)) (snd s)) ok_result"

definition journal_read :: "'w vfs \<Rightarrow> handle \<times> 'w \<Rightarrow> nat \<Rightarrow> nat \<Rightarrow> (u8 list \<times> handle \<times> 'w) option" where
  "journal_read vfs s n k = Option.bind (sqlite3OsRead vfs (fst s) n k (snd s)) ok_result"

definition journal_truncate :: "'w vfs \<Rightarrow> handle \<times> 'w \<Rightarrow> (handle \<times> 'w) option" where
  "journal_truncate vfs s = ok_result (sqlite3OsTruncate vfs (fst s) 0 (snd s))"

lemma memjrnlWrite_file:
  assumes vfs: "file_system vfs file" and p: "journal_ok p"
  shows "\<exists>h w'. memjrnlWrite vfs [] p z (length (content p)) w = Some (SQLITE_OK, h, w') \<and>
    journal_inv vfs file (h, w') \<and> journal_bytes file (h, w') = content p @ z"
proof (cases "nSpill p > 0 \<and> int (length z + length (content p)) > nSpill p")
  case True
  obtain w1 where w1: "memjrnlCreateFile vfs p w = Some (SQLITE_OK, Real, w1)" "file w1 = content p"
    using memjrnlCreateFile_file [OF vfs p] by blast
  obtain w2 where "xWrite vfs z (length (content p)) w1 = (SQLITE_OK, w2)" "file w2 = file w1 @ z"
    using file_system_write [OF vfs] w1(2) by metis
  then show ?thesis using True w1 vfs by (simp add: memjrnlWrite_def journal_inv_def journal_bytes_def)
next
  case False
  obtain rc cs e where l: "write_loop [] p z = Some (rc, p\<lparr>pFirst := cs, endpoint := e\<rparr>)" "written [] p z rc cs e"
    using write_loop_ok [OF p] by blast
  then have r: "rc = SQLITE_OK" "concat cs = content p @ z" "journal_ok (p\<lparr>pFirst := cs, endpoint := e\<rparr>)"
    by (auto simp: written_def)
  have "memjrnlWrite vfs [] p z (length (content p)) w =
      Some (SQLITE_OK, Memory (p\<lparr>pFirst := cs, endpoint := e, nSize := length z + length (content p)\<rparr>), w)"
    unfolding memjrnlWrite_def if_not_P [OF False] using l(1) r(1) by simp
  then show ?thesis using r(2,3) vfs by (simp add: journal_inv_def journal_bytes_def journal_ok_fields)
qed

interpretation journal: append_file "journal_inv vfs f" "journal_bytes f" "journal_append vfs f"
  "journal_read vfs" "journal_truncate vfs" for vfs f
proof
  fix s :: "handle \<times> 'a" and z n k
  assume s: "journal_inv vfs f s"
  then have vfs: "file_system vfs f" by (simp add: journal_inv_def)
  obtain h w where hw: "s = (h, w)" by (cases s)
  show "\<exists>s'. journal_append vfs f s z = Some s' \<and> journal_inv vfs f s' \<and> journal_bytes f s' = journal_bytes f s @ z"
  proof (cases h)
    case (Memory p)
    then show ?thesis using memjrnlWrite_file [OF vfs, of p z w] s hw
      by (auto simp: journal_append_def sqlite3OsWrite_def journal_bytes_def journal_inv_def ok_result_def)
  next
    case Real
    obtain w' where "xWrite vfs z (length (f w)) w = (SQLITE_OK, w')" "f w' = f w @ z"
      using file_system_write [OF vfs] by metis
    then show ?thesis using Real s hw
      by (auto simp: journal_append_def sqlite3OsWrite_def journal_bytes_def journal_inv_def ok_result_def)
  qed
  show "\<exists>s'. journal_truncate vfs s = Some s' \<and> journal_inv vfs f s' \<and> journal_bytes f s' = []"
  proof (cases h)
    case (Memory p)
    then show ?thesis using s hw by (auto simp: journal_truncate_def sqlite3OsTruncate_def memjrnlTruncate_def memjrnlFreeChunks_def
        journal_bytes_def journal_inv_def ok_result_def journal_ok_def start_point_def)
  next
    case Real
    obtain w' where "xTruncate vfs 0 w = (SQLITE_OK, w')" "f w' = []" using vfs unfolding file_system_def by metis
    then show ?thesis using Real s hw by (auto simp: journal_truncate_def sqlite3OsTruncate_def journal_bytes_def journal_inv_def ok_result_def)
  qed
  assume n: "0 < n" "k + n \<le> length (journal_bytes f s)"
  show "\<exists>s'. journal_read vfs s n k = Some (take n (drop k (journal_bytes f s)), s') \<and> journal_inv vfs f s'
      \<and> journal_bytes f s' = journal_bytes f s"
  proof (cases h)
    case (Memory p)
    then have "journal_ok p" "k + n \<le> length (content p)" using s n(2) hw by (simp_all add: journal_inv_def journal_bytes_def)
    then show ?thesis using memjrnlRead_ok [of p n k] n(1) Memory vfs hw
      by (auto simp: journal_read_def sqlite3OsRead_def journal_bytes_def journal_inv_def ok_result_def)
  next
    case Real
    then have b: "journal_bytes f s = f w" by (simp add: hw journal_bytes_def)
    obtain w' where "xRead vfs n k w = (SQLITE_OK, take n (drop k (f w)), w')" "f w' = f w"
      using vfs n(2) unfolding file_system_def b by blast
    then show ?thesis using Real s hw by (auto simp: journal_read_def sqlite3OsRead_def journal_bytes_def journal_inv_def ok_result_def)
  qed
qed
section \<open>Properties\<close>

lemma open_ok:
  assumes vfs: "file_system vfs f"
  shows "\<exists>h w'. sqlite3JournalOpen vfs name fl spill w = (SQLITE_OK, h, w') \<and> journal_inv vfs f (h, w') \<and> journal_bytes f (h, w') = []"
proof (cases "spill = 0")
  case True
  obtain w' where "xOpen vfs name (fl AND 0x87f7f) w = (SQLITE_OK, w')" "f w' = []"
    by (rule file_system_rules [OF vfs])
  then show ?thesis using True vfs by (simp add: sqlite3JournalOpen_def journal_inv_def journal_bytes_def)
next
  case False
  then show ?thesis using vfs
    by (simp add: sqlite3JournalOpen_def journal_inv_def journal_bytes_def journal_ok_def start_point_def
        MEMJOURNAL_DFLT_FILECHUNKSIZE_def sizeof_FileChunk_def)
qed

text \<open>
  C35: A journal opened with any spill size behaves, over any history of writes at its end,
  reads in its range and truncations, as the list of the bytes written: whether they are in
  chunks in memory, in the real file, or moved there by the write that passed the spill size,
  and whichever way a read finds its chunk. The file system and the memory do not fail.
\<close>

theorem Journal_history:
  assumes "file_system vfs f" "in_range xs 0"
  shows "\<exists>h w'. sqlite3JournalOpen vfs name fl spill w = (SQLITE_OK, h, w') \<and>
    map_option fst (file_run (journal_append vfs f) (journal_read vfs) (journal_truncate vfs) xs (h, w')) = Some (file_spec xs [])"
proof -
  obtain h w' where "sqlite3JournalOpen vfs name fl spill w = (SQLITE_OK, h, w')" "journal_inv vfs f (h, w')" "journal_bytes f (h, w') = []"
    using open_ok [OF assms(1)] by blast
  moreover from this obtain s where "file_run (journal_append vfs f) (journal_read vfs) (journal_truncate vfs) xs (h, w') = Some (file_spec xs [], s)"
    using journal.history [of vfs f "(h, w')" xs] assms(2) by auto
  ultimately show ?thesis by simp
qed

text \<open>
  A write at the end of a journal in memory always returns, whatever the file system and
  the memory do. If the spill fails, the journal stays in memory exactly as it was; if an
  allocation fails, the journal is well formed and holds its content and a proper prefix of the
  data; only when the real file was made is the journal no longer in memory.
\<close>

lemma memjrnlWrite_failure:
  assumes "journal_ok p"
  shows "\<exists>rc h w'. memjrnlWrite vfs mem p z (length (content p)) w = Some (rc, h, w') \<and>
    (case h of
       Real \<Rightarrow> 0 < nSpill p
     | Memory q \<Rightarrow> journal_ok q \<and>
         (if rc = SQLITE_OK then content q = content p @ z
          else q = p \<or> rc = SQLITE_IOERR_NOMEM \<and> (\<exists>k < length z. content q = content p @ take k z)))"
proof (cases "nSpill p > 0 \<and> int (length z + length (content p)) > nSpill p")
  case True
  obtain rc h w1 where "memjrnlCreateFile vfs p w = Some (rc, h, w1)" "if rc = SQLITE_OK then h = Real else h = Memory p"
    using memjrnlCreateFile_ok [OF assms, of vfs w] by (elim exE conjE)
  then show ?thesis using True assms by (auto simp: memjrnlWrite_def split: if_splits prod.splits)
next
  case False
  obtain rc cs e where l: "write_loop mem p z = Some (rc, p\<lparr>pFirst := cs, endpoint := e\<rparr>)" "written mem p z rc cs e"
    using write_loop_ok [OF assms] by blast
  then show ?thesis unfolding memjrnlWrite_def if_not_P [OF False] written_def
    by (auto simp: journal_ok_fields)
qed

text \<open>A file system on a single list of bytes.\<close>

definition list_vfs :: "u8 list vfs" where
  "list_vfs = \<lparr>xOpen = (\<lambda>n f w. (SQLITE_OK, [])),
     xRead = (\<lambda>n k w. (SQLITE_OK, take n (drop k w), w)),
     xWrite = (\<lambda>z k w. (SQLITE_OK, take k w @ z @ drop (k + length z) w)),
     xTruncate = (\<lambda>k w. (SQLITE_OK, take k w)),
     xClose = (\<lambda>w. w)\<rparr>"

theorem Journal_history_witness:
  "\<exists>h w'. sqlite3JournalOpen list_vfs [] 0 4 [] = (SQLITE_OK, h, w') \<and>
    map_option fst (file_run (journal_append list_vfs id) (journal_read list_vfs) (journal_truncate list_vfs)
      [Append [1, 2, 3], Read_at 2 1, Append [4, 5], Read_at 5 0] (h, w')) = Some [[2, 3], [1, 2, 3, 4, 5]]"
  using Journal_history [of list_vfs id "[Append [1, 2, 3], Read_at 2 1, Append [4, 5], Read_at 5 0]" "[]" 0 4 "[]"]
  by (simp add: file_system_def list_vfs_def)

lemma memjrnlWrite_failure_witness:
  "\<exists>rc h w'. memjrnlWrite list_vfs [False] \<lparr>nChunkSize = 1016, nSpill = -1, nSize = 0, pFirst = [], endpoint = start_point,
      readpoint = start_point, flags = 0, zJournal = []\<rparr> [1, 2] 0 [] = Some (rc, h, w') \<and> h \<noteq> Real"
proof -
  let ?p = "\<lparr>nChunkSize = 1016, nSpill = -1, nSize = 0, pFirst = [], endpoint = start_point,
      readpoint = start_point, flags = 0, zJournal = []\<rparr>"
  have "journal_ok ?p" by (simp add: journal_ok_def start_point_def)
  from memjrnlWrite_failure [OF this, of list_vfs "[False]" "[1, 2]" "[]"] obtain rc h w'
    where "memjrnlWrite list_vfs [False] ?p [1, 2] 0 [] = Some (rc, h, w')" "h = Real \<longrightarrow> 0 < nSpill ?p"
    by (elim exE conjE) (auto split: handle.splits)
  then show ?thesis by auto
qed

end
