(* ===== verification/RandomStream.thy ===== *)
theory RandomStream
  imports Prelude "HOL-Library.Multiset"
begin

text \<open>
  The pseudo-random number generator (\<open>Example/Pods/WCDBOptimizedSQLCipher/src/random.c\<close>): the
  RC4 stream of a 256-byte seed. The operating system's seed and the result of
  \<open>sqlite3_initialize\<close> are parameters; the mutex around the body makes each call atomic.
\<close>

section \<open>State\<close>

record sqlite3PrngType =
  isInit :: bool
  prng_i :: u8
  prng_j :: u8
  prng_s :: "u8 list"

definition sqlite3Prng :: sqlite3PrngType where
  "sqlite3Prng = \<lparr>isInit = False, prng_i = 0, prng_j = 0, prng_s = replicate 256 0\<rparr>"

definition s_at :: "sqlite3PrngType \<Rightarrow> u8 \<Rightarrow> u8" where
  "s_at p n = prng_s p ! unat n"

section \<open>The generator\<close>

text \<open>A turn of the seeding loop, at index \<open>i\<close>, with byte \<open>k\<close> of the seed.\<close>

definition seed_step :: "sqlite3PrngType \<Rightarrow> nat \<times> u8 \<Rightarrow> sqlite3PrngType" where
  "seed_step p ik =
     (let (i, k) = ik;
          p = p\<lparr>prng_j := prng_j p + (prng_s p ! i + k)\<rparr>;
          t = s_at p (prng_j p);
          p = p\<lparr>prng_s := (prng_s p)[unat (prng_j p) := prng_s p ! i]\<rparr>
      in p\<lparr>prng_s := (prng_s p)[i := t]\<rparr>)"

definition prng_seed :: "u8 list \<Rightarrow> sqlite3PrngType \<Rightarrow> sqlite3PrngType" where
  "prng_seed k p =
     (let p = p\<lparr>prng_j := 0, prng_i := 0, prng_s := map of_nat [0..<256]\<rparr>
      in (foldl seed_step p (zip [0..<256] k))\<lparr>isInit := True\<rparr>)"

definition prng_byte :: "sqlite3PrngType \<Rightarrow> u8 \<times> sqlite3PrngType" where
  "prng_byte p =
     (let p = p\<lparr>prng_i := prng_i p + 1\<rparr>;
          t = s_at p (prng_i p);
          p = p\<lparr>prng_j := prng_j p + t\<rparr>;
          p = p\<lparr>prng_s := (prng_s p)[unat (prng_i p) := s_at p (prng_j p)]\<rparr>;
          p = p\<lparr>prng_s := (prng_s p)[unat (prng_j p) := t]\<rparr>;
          t = t + s_at p (prng_i p)
      in (s_at p t, p))"

primrec prng_bytes :: "nat \<Rightarrow> sqlite3PrngType \<Rightarrow> u8 list \<times> sqlite3PrngType" where
  "prng_bytes 0 p = ([], p)"
| "prng_bytes (Suc n) p =
     (case prng_byte p of (b, p) \<Rightarrow> (case prng_bytes n p of (bs, p) \<Rightarrow> (b # bs, p)))"

definition sqlite3_randomness :: "nat \<Rightarrow> u8 list \<Rightarrow> int \<Rightarrow> bool \<Rightarrow> sqlite3PrngType \<Rightarrow> u8 list \<times> sqlite3PrngType" where
  "sqlite3_randomness init_rc seed N pBuf p =
     (if init_rc \<noteq> 0 then ([], p)
      else if N \<le> 0 \<or> \<not> pBuf then ([], p\<lparr>isInit := False\<rparr>)
      else prng_bytes (nat N) (if \<not> isInit p then prng_seed seed p else p))"

section \<open>The state is a permutation of the bytes\<close>

definition prng_ok :: "sqlite3PrngType \<Rightarrow> bool" where
  "prng_ok p \<longleftrightarrow> length (prng_s p) = 256 \<and> (isInit p \<longrightarrow> set (prng_s p) = UNIV)"

lemma u8_index [simp]: "unat (x :: u8) < 256"
proof -
  have "unat x < 2 ^ LENGTH(8)" by (rule unsigned_less)
  then show ?thesis by simp
qed

lemma all_bytes: "set (map of_nat [0..<256] :: u8 list) = UNIV"
proof (intro set_eqI iffI UNIV_I)
  fix x :: u8
  have "unat x \<in> {0..<256}" by simp
  then show "x \<in> set (map of_nat [0..<256])" by (auto intro: image_eqI [of _ _ "unat x"])
qed

text \<open>Both loops exchange two elements of the array.\<close>

lemma seed_step_swap: "i < 256 \<Longrightarrow> length (prng_s p) = 256 \<Longrightarrow>
    length (prng_s (seed_step p (i, k))) = 256 \<and> set (prng_s (seed_step p (i, k))) = set (prng_s p)"
  by (simp add: seed_step_def Let_def s_at_def set_swap)

lemma seed_steps: "list_all (\<lambda>ik. fst ik < 256) iks \<Longrightarrow> length (prng_s p) = 256 \<Longrightarrow>
    length (prng_s (foldl seed_step p iks)) = 256 \<and> set (prng_s (foldl seed_step p iks)) = set (prng_s p)"
  by (induction iks arbitrary: p) (auto simp: seed_step_swap)

lemma prng_seed_ok: "prng_ok (prng_seed k p)" "isInit (prng_seed k p)"
proof -
  have "list_all (\<lambda>ik. fst ik < 256) (zip [0..<256] k)" by (auto simp: list_all_iff dest: set_zip_leftD)
  then show "prng_ok (prng_seed k p)" unfolding prng_seed_def Let_def prng_ok_def
    using seed_steps [of "zip [0..<256] k" "p\<lparr>prng_j := 0, prng_i := 0, prng_s := map of_nat [0..<256]\<rparr>"] all_bytes
    by (simp del: upt_conv_Cons_Cons)
qed (simp add: prng_seed_def Let_def)

lemma prng_seed_fresh: "prng_seed k (p\<lparr>isInit := b\<rparr>) = prng_seed k p"
proof -
  have s: "seed_step (q\<lparr>isInit := b\<rparr>) ik = (seed_step q ik)\<lparr>isInit := b\<rparr>" for q ik
    by (cases ik) (simp add: seed_step_def Let_def s_at_def)
  have "foldl seed_step (q\<lparr>isInit := b\<rparr>) iks = (foldl seed_step q iks)\<lparr>isInit := b\<rparr>" for q iks
    by (induction iks arbitrary: q) (simp_all add: s)
  note fold = this
  let ?q = "p\<lparr>prng_j := 0, prng_i := 0, prng_s := map of_nat [0..<256]\<rparr>"
  have e: "p\<lparr>isInit := b\<rparr>\<lparr>prng_j := 0, prng_i := 0, prng_s := map of_nat [0..<256]\<rparr> = ?q\<lparr>isInit := b\<rparr>" by simp
  show ?thesis unfolding prng_seed_def Let_def e fold by simp
qed

lemma prng_byte_swap: "length (prng_s p) = 256 \<Longrightarrow> length (prng_s (snd (prng_byte p))) = 256
    \<and> set (prng_s (snd (prng_byte p))) = set (prng_s p) \<and> isInit (snd (prng_byte p)) = isInit p"
  by (simp add: prng_byte_def Let_def s_at_def set_swap)

lemma prng_bytes_ok: "prng_ok p \<Longrightarrow> prng_ok (snd (prng_bytes n p)) \<and> isInit (snd (prng_bytes n p)) = isInit p"
proof (induction n arbitrary: p)
  case (Suc n)
  then have "prng_ok (snd (prng_byte p))" "isInit (snd (prng_byte p)) = isInit p"
    using prng_byte_swap [of p] by (auto simp: prng_ok_def)
  then show ?case using Suc.IH [of "snd (prng_byte p)"] by (simp add: case_prod_beta)
qed simp

lemma prng_bytes_length: "length (fst (prng_bytes n p)) = n"
  by (induction n arbitrary: p) (simp_all add: case_prod_beta)

lemma prng_bytes_add: "prng_bytes (m + n) p =
    (fst (prng_bytes m p) @ fst (prng_bytes n (snd (prng_bytes m p))), snd (prng_bytes n (snd (prng_bytes m p))))"
  by (induction m arbitrary: p) (simp_all add: case_prod_beta)

lemma randomness_ok:
  assumes "prng_ok p"
  shows "prng_ok (snd (sqlite3_randomness rc seed N buf p))"
    "rc = 0 \<Longrightarrow> 0 < N \<Longrightarrow> buf \<Longrightarrow> isInit (snd (sqlite3_randomness rc seed N buf p))"
  using assms prng_seed_ok [of seed p] prng_bytes_ok [of "if \<not> isInit p then prng_seed seed p else p" "nat N"]
  by (auto simp: sqlite3_randomness_def prng_ok_def split: if_splits)

section \<open>Properties\<close>

text \<open>
  The generator is a stream. From every reachable state, a call for \<open>N\<close> bytes returns \<open>N\<close>
  bytes, and two calls return what one call for all the bytes would: the seed the second call
  is given has no effect. A call for no bytes makes the next one start again from its seed.
  The array stays a permutation of the 256 bytes throughout.
\<close>

lemma randomness_stream:
  assumes "prng_ok p" "0 < M" "0 < N"
  shows "length (fst (sqlite3_randomness 0 seed M True p)) = nat M
    \<and> fst (sqlite3_randomness 0 seed (M + N) True p)
      = fst (sqlite3_randomness 0 seed M True p) @ fst (sqlite3_randomness 0 seed' N True (snd (sqlite3_randomness 0 seed M True p)))
    \<and> (K \<le> 0 \<longrightarrow> sqlite3_randomness 0 seed' N True (snd (sqlite3_randomness 0 seed K True p)) = prng_bytes (nat N) (prng_seed seed' p))
    \<and> prng_ok (snd (sqlite3_randomness 0 seed M True p)) \<and> set (prng_s (snd (sqlite3_randomness 0 seed M True p))) = UNIV"
proof -
  let ?p = "if \<not> isInit p then prng_seed seed p else p" and ?q = "snd (sqlite3_randomness 0 seed M True p)"
  have M: "sqlite3_randomness 0 seed M True p = prng_bytes (nat M) ?p" using assms(2) by (simp add: sqlite3_randomness_def)
  have MN: "sqlite3_randomness 0 seed (M + N) True p = prng_bytes (nat M + nat N) ?p"
    using assms(2,3) by (simp add: sqlite3_randomness_def nat_add_distrib)
  have q: "prng_ok ?q" "isInit ?q" using randomness_ok [OF assms(1)] assms(2) by simp_all
  then have N: "sqlite3_randomness 0 seed' N True ?q = prng_bytes (nat N) ?q" using assms(3) by (simp add: sqlite3_randomness_def)
  have "K \<le> 0 \<longrightarrow> sqlite3_randomness 0 seed' N True (snd (sqlite3_randomness 0 seed K True p)) = prng_bytes (nat N) (prng_seed seed' p)"
    using assms(3) by (simp add: sqlite3_randomness_def prng_seed_fresh)
  then show ?thesis using q prng_bytes_add [of "nat M" "nat N" ?p] N unfolding M MN by (simp add: prng_bytes_length prng_ok_def)
qed

lemma randomness_stream_witness:
  "length (fst (sqlite3_randomness 0 [1, 2, 3] 5 True sqlite3Prng)) = 5"
  using randomness_stream [of sqlite3Prng 5 1 "[1, 2, 3]" "[]" 0] by (simp add: prng_ok_def sqlite3Prng_def)

end
