(* ===== verification/Numbers.thy ===== *)
theory Numbers
  imports Ctype IntArith
begin

text \<open>
  Numbers in text (\<open>Example/Pods/WCDBOptimizedSQLCipher/src/util.c\<close>): the conversions of
  decimal and hexadecimal text to 64-bit and 32-bit integers, in the three encodings, and of
  hexadecimal text to bytes. A buffer is its list of bytes, an index past its end gives
  \<open>None\<close>; a zero-terminated string is the list of its bytes. A value stored through a pointer
  is part of the result, as the integer it is.
\<close>

section \<open>Decimal text\<close>

definition SQLITE_UTF8 :: nat where "SQLITE_UTF8 = 1"
definition SQLITE_UTF16LE :: nat where "SQLITE_UTF16LE = 2"
definition SQLITE_UTF16BE :: nat where "SQLITE_UTF16BE = 3"

definition pow63 :: "u8 list" where
  "pow63 = [57, 50, 50, 51, 51, 55, 50, 48, 51, 54, 56, 53, 52, 55, 55, 53, 56, 48]"

text \<open>The loop of \<open>compare2pow63\<close>, over the digits of the constant.\<close>

fun compare_loop :: "u8 list \<Rightarrow> nat \<Rightarrow> nat \<Rightarrow> u8 list \<Rightarrow> int option" where
  "compare_loop zNum incr i [] = Some 0"
| "compare_loop zNum incr i (d # ds) = do {
     z \<leftarrow> rd zNum i;
     let c = (int (unat z) - int (unat d)) * 10;
     (if c = 0 then compare_loop zNum incr (i + incr) ds else Some c) }"

definition compare2pow63 :: "u8 list \<Rightarrow> nat \<Rightarrow> nat \<Rightarrow> int option" where
  "compare2pow63 zNum i incr = do {
     c \<leftarrow> compare_loop zNum incr i pow63;
     (if c = 0 then do { z \<leftarrow> rd zNum (i + 18 * incr); Some (int (unat z) - 56) } else Some c) }"

definition incr_of :: "nat \<Rightarrow> nat" where
  "incr_of enc = (if enc = SQLITE_UTF8 then 1 else 2)"

lemma incr_pos [simp]: "0 < incr_of enc" "incr_of enc \<noteq> 0"
  by (simp_all add: incr_of_def)

text \<open>The loops that pass characters, from index \<open>i\<close> on while it is below \<open>zEnd\<close>.\<close>

function skip :: "(u8 \<Rightarrow> bool) \<Rightarrow> u8 list \<Rightarrow> nat \<Rightarrow> nat \<Rightarrow> nat \<Rightarrow> nat option" where
  "skip P zNum zEnd enc i =
     (if i < zEnd then do {
        c \<leftarrow> rd zNum i;
        (if P c then skip P zNum zEnd enc (i + incr_of enc) else Some i) }
      else Some i)"
  by pat_completeness auto
termination
  by (relation "measure (\<lambda>(P, z, e, enc, i). e - i)") (auto intro: diff_less_mono2)

function digits_loop :: "u8 list \<Rightarrow> nat \<Rightarrow> nat \<Rightarrow> nat \<Rightarrow> u64 \<Rightarrow> (nat \<times> u64) option" where
  "digits_loop zNum zEnd enc i u =
     (if i < zEnd then do {
        c \<leftarrow> rd zNum i;
        (if 48 \<le> c \<and> c \<le> 57 then digits_loop zNum zEnd enc (i + incr_of enc) (u * 10 + ucast c - 48)
         else Some (i, u)) }
      else Some (i, u))"
  by pat_completeness auto
termination
  by (relation "measure (\<lambda>(z, e, enc, i, u). e - i)") (auto intro: diff_less_mono2)

declare skip.simps [simp del] digits_loop.simps [simp del]

text \<open>The value stored.\<close>

definition stored :: "bool \<Rightarrow> u64 \<Rightarrow> int" where
  "stored neg u =
     (if uint u > LARGEST_INT64 then (if neg then SMALLEST_INT64 else LARGEST_INT64)
      else if neg then - uint u else uint u)"

text \<open>The part after the limits of the text have been found.\<close>

definition atoi64_scan :: "u8 list \<Rightarrow> nat \<Rightarrow> nat \<Rightarrow> bool \<Rightarrow> nat \<Rightarrow> (nat \<times> int) option" where
  "atoi64_scan zNum zEnd enc nonNum z = do {
     let incr = incr_of enc;
     z \<leftarrow> skip sqlite3Isspace zNum zEnd enc z;
     (neg, z) \<leftarrow>
       (if z < zEnd then do {
          c \<leftarrow> rd zNum z;
          Some (c = 45, if c = 45 \<or> c = 43 then z + incr else z) }
        else Some (False, z));
     let zStart = z;
     z \<leftarrow> skip (\<lambda>c. c = 48) zNum zEnd enc z;
     (e, u) \<leftarrow> digits_loop zNum zEnd enc z 0;
     let i = e - z;
     (if e < zEnd \<or> (i = 0 \<and> zStart = z) \<or> i > 19 * incr \<or> nonNum then Some (1, stored neg u)
      else if i < 19 * incr then Some (0, stored neg u)
      else do {
        c \<leftarrow> compare2pow63 zNum z incr;
        Some (if c < 0 then 0 else if c > 0 then 1 else if neg then 0 else 2, stored neg u) }) }"

definition sqlite3Atoi64 :: "u8 list \<Rightarrow> nat \<Rightarrow> nat \<Rightarrow> (nat \<times> int) option" where
  "sqlite3Atoi64 zNum len enc =
     (if enc = SQLITE_UTF8 then atoi64_scan zNum len enc False 0
      else do {
        i \<leftarrow> skip (\<lambda>c. c = 0) zNum len enc (3 - enc);
        atoi64_scan zNum (i XOR 1) enc (i < len) (enc AND 1) })"

section \<open>Hexadecimal text and 32-bit numbers\<close>

definition sqlite3HexToInt :: "u8 \<Rightarrow> u8" where
  "sqlite3HexToInt h = (h + 9 * (1 AND drop_bit 6 h)) AND 0xf"

definition hex_step :: "u64 \<Rightarrow> u8 \<Rightarrow> u64" where
  "hex_step u c = u * 16 + ucast (sqlite3HexToInt c)"

definition sqlite3DecOrHexToI64 :: "cstring \<Rightarrow> (nat \<times> int) option" where
  "sqlite3DecOrHexToI64 z =
     (if hd0 z = 48 \<and> (hd0 (tl z) = 120 \<or> hd0 (tl z) = 88) then
        let ds = dropWhile (\<lambda>c. c = 48) (drop 2 z);
            hs = takeWhile sqlite3Isxdigit ds;
            u = foldl hex_step 0 hs
        in Some (if drop (length hs) ds = [] \<and> length hs \<le> 16 then 0 else 1, sint u)
      else sqlite3Atoi64 z (length z) SQLITE_UTF8)"

definition hex32_step :: "u32 \<Rightarrow> u8 \<Rightarrow> u32" where
  "hex32_step u c = u * 16 + ucast (sqlite3HexToInt c)"

text \<open>The decimal loop: the number of digits it takes, at most \<open>n\<close>, and the value.\<close>

fun int32_loop :: "nat \<Rightarrow> cstring \<Rightarrow> int \<Rightarrow> nat \<times> int" where
  "int32_loop (Suc n) (z # zs) v =
     (let c = int (unat z) - 48
      in if c \<ge> 0 \<and> c \<le> 9 then (case int32_loop n zs (v * 10 + c) of (i, v) \<Rightarrow> (i + 1, v)) else (0, v))"
| "int32_loop n zs v = (0, v)"

text \<open>The result is the value stored, or \<open>None\<close> for false.\<close>

definition sqlite3GetInt32 :: "cstring \<Rightarrow> int option" where
  "sqlite3GetInt32 zNum =
     (let (neg, z, hex) =
        (if hd0 zNum = 45 then (True, tl zNum, False)
         else if hd0 zNum = 43 then (False, tl zNum, False)
         else if hd0 zNum = 48 \<and> (hd0 (tl zNum) = 120 \<or> hd0 (tl zNum) = 88) \<and> sqlite3Isxdigit (hd0 (drop 2 zNum))
         then (False, drop 2 zNum, True)
         else (False, zNum, False));
          z = dropWhile (\<lambda>c. c = 48) z
      in if hex then
           (let hs = take 8 (takeWhile sqlite3Isxdigit z); u = foldl hex32_step 0 hs
            in if u AND 0x80000000 = 0 \<and> \<not> sqlite3Isxdigit (hd0 (drop (length hs) z)) then Some (sint u) else None)
         else
           (case int32_loop 11 z 0 of (i, v) \<Rightarrow>
              if i > 10 then None
              else if v - of_bool neg > 2147483647 then None
              else Some (if neg then - v else v)))"

definition sqlite3Atoi :: "cstring option \<Rightarrow> int" where
  "sqlite3Atoi z = (case z of None \<Rightarrow> 0 | Some z \<Rightarrow> (case sqlite3GetInt32 z of None \<Rightarrow> 0 | Some x \<Rightarrow> x))"

text \<open>\<open>sqlite3HexToBlob\<close> on \<open>n\<close> bytes of text; the terminator it adds is left out.\<close>

fun hex_bytes :: "u8 list \<Rightarrow> u8 list" where
  "hex_bytes (a # b # z) = (push_bit 4 (sqlite3HexToInt a) OR sqlite3HexToInt b) # hex_bytes z"
| "hex_bytes z = []"

definition sqlite3HexToBlob :: "bool \<Rightarrow> u8 list \<Rightarrow> nat \<Rightarrow> u8 list option" where
  "sqlite3HexToBlob malloc z n = (if malloc then Some (hex_bytes (take n z)) else None)"
section \<open>Values of digits\<close>

definition is_digit :: "u8 \<Rightarrow> bool" where
  "is_digit c \<longleftrightarrow> 48 \<le> c \<and> c \<le> 57"

definition digit :: "u8 \<Rightarrow> int" where
  "digit c = int (unat c) - 48"

fun dec_value :: "u8 list \<Rightarrow> int" where
  "dec_value [] = 0"
| "dec_value (c # cs) = digit c * 10 ^ length cs + dec_value cs"

lemma digit_range: "is_digit c \<Longrightarrow> 0 \<le> digit c \<and> digit c \<le> 9"
  by (simp add: is_digit_def digit_def word_le_def)

lemma digit_zero: "is_digit c \<Longrightarrow> digit c = 0 \<longleftrightarrow> c = 48"
  by (simp add: digit_def word_uint_eq_iff)

lemma dec_value_bounds: "list_all is_digit ds \<Longrightarrow> 0 \<le> dec_value ds \<and> dec_value ds < 10 ^ length ds"
proof (induction ds)
  case (Cons c cs)
  then have "0 \<le> digit c" "digit c \<le> 9" "0 \<le> dec_value cs" "dec_value cs < 10 ^ length cs"
    using digit_range [of c] by simp_all
  then have "digit c * 10 ^ length cs \<le> 9 * 10 ^ length cs" "0 \<le> digit c * 10 ^ length cs"
    by (intro mult_right_mono mult_nonneg_nonneg; simp)+
  then show ?case unfolding dec_value.simps length_Cons power_Suc
    using \<open>0 \<le> dec_value cs\<close> \<open>dec_value cs < 10 ^ length cs\<close> by linarith
qed simp

lemma dec_value_leading: "list_all is_digit (c # cs) \<Longrightarrow> c \<noteq> 48 \<Longrightarrow> 10 ^ length cs \<le> dec_value (c # cs)"
proof -
  assume a: "list_all is_digit (c # cs)" "c \<noteq> 48"
  then have "1 \<le> digit c" using digit_range [of c] digit_zero [of c] by auto
  then have "1 * 10 ^ length cs \<le> digit c * 10 ^ length cs" by (intro mult_right_mono) simp_all
  moreover have "0 \<le> dec_value cs" using a dec_value_bounds [of cs] by simp
  ultimately show ?thesis unfolding dec_value.simps by linarith
qed

lemma dec_value_zeros: "list_all (\<lambda>c. c = 48) zs \<Longrightarrow> dec_value (zs @ ds) = dec_value ds"
  by (induction zs) (auto simp: digit_def)

lemma dec_value_snoc: "dec_value (ds @ [c]) = dec_value ds * 10 + digit c"
  by (induction ds) (simp_all add: algebra_simps)

definition u64_step :: "u64 \<Rightarrow> u8 \<Rightarrow> u64" where
  "u64_step u c = u * 10 + ucast c - 48"

lemma u64_step_int: "u64_step (of_int v) c = of_int (v * 10 + digit c)"
proof -
  have "(of_int (uint c) :: u64) = ucast c" by (rule ucast_eq [symmetric])
  moreover have "digit c = uint c - 48" by (simp add: digit_def)
  ultimately show ?thesis by (simp add: u64_step_def)
qed

lemma u64_steps: "foldl u64_step (of_int v) ds = of_int (v * 10 ^ length ds + dec_value ds)"
proof (induction ds arbitrary: v)
  case (Cons c ds)
  have "foldl u64_step (of_int v) (c # ds) = of_int ((v * 10 + digit c) * 10 ^ length ds + dec_value ds)"
    by (simp only: foldl_Cons u64_step_int Cons)
  then show ?case by (simp add: algebra_simps)
qed simp

section \<open>Scanning code units\<close>

text \<open>
  From index \<open>off\<close> on, at every \<open>incr\<close>-th byte below \<open>e\<close>, the buffer has the bytes \<open>us\<close>.
\<close>

definition units :: "u8 list \<Rightarrow> nat \<Rightarrow> nat \<Rightarrow> nat \<Rightarrow> u8 list \<Rightarrow> bool" where
  "units z off incr e us \<longleftrightarrow>
     (\<forall>k. off + k * incr < e \<longleftrightarrow> k < length us) \<and> (\<forall>k < length us. rd z (off + k * incr) = Some (us ! k))"

lemma units_drop: "units z off incr e us \<Longrightarrow> k \<le> length us \<Longrightarrow> units z (off + k * incr) incr e (drop k us)"
  unfolding units_def by (auto simp: add.assoc add_mult_distrib [symmetric] nth_append)

lemma units_Nil: "units z off incr e [] \<Longrightarrow> \<not> off < e"
  unfolding units_def by (metis add.right_neutral less_nat_zero_code list.size(3) mult_0)

lemma units_Cons: "units z off incr e (c # us) \<Longrightarrow> off < e \<and> rd z off = Some c \<and> units z (off + incr) incr e us"
  using units_drop [of z off incr e "c # us" 1] unfolding units_def
  by (metis (no_types, lifting) One_nat_def add.right_neutral drop0 drop_Suc_Cons le_numeral_extra(4) length_greater_0_conv list.distinct(1) list.size(4) le_add2 mult_0 nat_mult_1 nth_Cons_0)

lemma skip_units: "units z off (incr_of enc) e us \<Longrightarrow>
    skip P z e enc off = Some (off + length (takeWhile P us) * incr_of enc)"
proof (induction us arbitrary: off)
  case Nil
  then show ?case using units_Nil by (simp add: skip.simps)
next
  case (Cons c us)
  note u = units_Cons [OF Cons.prems]
  then show ?case using Cons.IH [of "off + incr_of enc"] by (subst skip.simps) simp
qed

lemma digits_units: "units z off (incr_of enc) e us \<Longrightarrow>
    digits_loop z e enc off u = Some (off + length (takeWhile is_digit us) * incr_of enc, foldl u64_step u (takeWhile is_digit us))"
proof (induction us arbitrary: off u)
  case Nil
  then show ?case using units_Nil by (simp add: digits_loop.simps)
next
  case (Cons c us)
  note u = units_Cons [OF Cons.prems]
  then show ?case using Cons.IH [of "off + incr_of enc"] by (subst digits_loop.simps) (simp add: is_digit_def [symmetric] u64_step_def [symmetric])
qed
section \<open>Comparison with \<open>2 ^ 63\<close>\<close>

lemma unat_diff_digit: "int (unat c) - int (unat d) = digit c - digit d"
  by (simp add: digit_def)

lemma compare_digits:
  assumes "list_all is_digit cs" "list_all is_digit ds" "length cs = length ds" "digit c < digit d"
  shows "dec_value (c # cs) < dec_value (d # ds)"
proof -
  have "(digit c + 1) * 10 ^ length ds \<le> digit d * 10 ^ length ds" using assms(4) by (intro mult_right_mono) simp_all
  moreover have "dec_value cs < 10 ^ length ds" "0 \<le> dec_value ds"
    using dec_value_bounds assms(1-3) by (metis, metis)
  ultimately show ?thesis unfolding dec_value.simps assms(3) distrib_right by linarith
qed

lemma compare_loop_units:
  "units z off incr e us \<Longrightarrow> length ds \<le> length us \<Longrightarrow> list_all is_digit us \<Longrightarrow> list_all is_digit ds \<Longrightarrow>
    \<exists>c. compare_loop z incr off ds = Some c \<and> sgn c = sgn (dec_value (take (length ds) us) - dec_value ds)"
proof (induction ds arbitrary: off us)
  case (Cons d ds)
  then obtain c us' where us: "us = c # us'" by (cases us) auto
  note u = units_Cons [OF Cons.prems(1) [unfolded us]]
  let ?xs = "take (length ds) us'"
  have xs: "list_all is_digit ?xs" "list_all is_digit ds" "length ?xs = length ds"
    using Cons.prems us by (auto simp: list_all_iff dest: in_set_takeD)
  show ?case
  proof (cases "digit c = digit d")
    case True
    then have "uint c = uint d" by (simp add: digit_def)
    then show ?thesis using u us Cons.IH [of "off + incr" us'] Cons.prems xs(3) True by (simp add: unat_diff_digit)
  next
    case False
    then have r: "compare_loop z incr off (d # ds) = Some ((digit c - digit d) * 10)" using u False by (auto simp: digit_def)
    have t: "take (length (d # ds)) us = c # ?xs" using us by simp
    show ?thesis
    proof (cases "digit c < digit d")
      case True
      then show ?thesis using compare_digits [OF xs True] unfolding r t by simp
    next
      case False
      then have "digit d < digit c" using \<open>digit c \<noteq> digit d\<close> by simp
      then show ?thesis using compare_digits [OF xs(2,1) xs(3) [symmetric]] unfolding r t by simp
    qed
  qed
qed simp

lemma pow63_digits: "list_all is_digit pow63" "length pow63 = 18" "dec_value pow63 = 922337203685477580"
  by (simp_all add: pow63_def is_digit_def digit_def)

lemma compare2pow63_units:
  assumes u: "units z off incr e us" and d: "list_all is_digit us" "length us = 19"
  shows "\<exists>c. compare2pow63 z off incr = Some c \<and> sgn c = sgn (dec_value us - 2 ^ 63)"
proof -
  obtain xs y where us: "us = xs @ [y]" by (metis d(2) list.size(3) rev_exhaust zero_neq_numeral)
  have xs: "length xs = 18" "is_digit y" using d us by simp_all
  obtain c where c: "compare_loop z incr off pow63 = Some c" "sgn c = sgn (dec_value xs - 922337203685477580)"
    using compare_loop_units [OF u _ d(1) pow63_digits(1)] us d(2) xs(1) by (auto simp: pow63_digits)
  have y: "rd z (off + 18 * incr) = Some y" using u us xs(1) unfolding units_def
    by (auto dest: spec [of _ "18"] simp: nth_append)
  have v: "dec_value us - 2 ^ 63 = (dec_value xs - 922337203685477580) * 10 + (digit y - 8)"
    using us by (simp add: dec_value_snoc)
  have dy: "0 \<le> digit y" "digit y \<le> 9" "int (unat y) - 56 = digit y - 8" using digit_range [OF xs(2)] by (simp_all add: digit_def)
  show ?thesis
  proof (cases "c = 0")
    case True
    then have "dec_value xs = 922337203685477580" using c(2) by (simp add: sgn_if split: if_splits)
    then show ?thesis using True c(1) y v dy(3) by (simp add: compare2pow63_def)
  next
    case False
    have "sgn c = sgn ((dec_value xs - 922337203685477580) * 10 + (digit y - 8))"
      using False c(2) dy(1,2) by (auto simp: sgn_if split: if_splits)
    then show ?thesis using False c(1) v by (simp add: compare2pow63_def)
  qed
qed

section \<open>What the text stands for\<close>

text \<open>
  White space, a sign, digits, and what is left. The code is 0 for an integer of 64 bits, 2 for
  \<open>2 ^ 63\<close>, and 1 when there is no digit, something after the digits, or too large a number.
\<close>

definition int_text :: "u8 list \<Rightarrow> bool \<times> u8 list \<times> u8 list" where
  "int_text us =
     (let s = dropWhile sqlite3Isspace us;
          t = (if s \<noteq> [] \<and> (hd s = 45 \<or> hd s = 43) then tl s else s)
      in (s \<noteq> [] \<and> hd s = 45, takeWhile is_digit t, dropWhile is_digit t))"

definition int_text_value :: "u8 list \<Rightarrow> int" where
  "int_text_value us = (case int_text us of (neg, ds, rest) \<Rightarrow> if neg then - dec_value ds else dec_value ds)"

definition int_text_code :: "u8 list \<Rightarrow> nat" where
  "int_text_code us = (case int_text us of (neg, ds, rest) \<Rightarrow>
     if ds = [] \<or> rest \<noteq> [] then 1 else if in_i64 (int_text_value us) then 0
     else if int_text_value us = 2 ^ 63 then 2 else 1)"

definition int_text_stored :: "u8 list \<Rightarrow> int" where
  "int_text_stored us = (case int_text us of (neg, ds, rest) \<Rightarrow> stored neg (of_int (dec_value ds)))"
lemma stored_value: "uint (of_int v :: u64) = v \<Longrightarrow> in_i64 (if neg then - v else v) \<Longrightarrow>
    stored neg (of_int v) = (if neg then - v else v)"
  by (cases neg) (auto simp: stored_def i64_defs)

lemma uint_small: "0 \<le> v \<Longrightarrow> v < 2 ^ 64 \<Longrightarrow> uint (of_int v :: u64) = v"
  by (simp add: unsigned_of_int take_bit_int_eq_self)

text \<open>Leading zeros are passed first, and do not count.\<close>

lemma digits_split:
  fixes t :: "u8 list"
  defines "zs \<equiv> takeWhile (\<lambda>c. c = 48) t" and "t' \<equiv> dropWhile (\<lambda>c. c = 48) t"
  shows "takeWhile is_digit t = zs @ takeWhile is_digit t'" "dropWhile is_digit t = dropWhile is_digit t'"
    "dec_value (takeWhile is_digit t) = dec_value (takeWhile is_digit t')"
proof -
  have z: "is_digit 48" by (simp add: is_digit_def)
  show 1: "takeWhile is_digit t = zs @ takeWhile is_digit t'" unfolding zs_def t'_def
    by (induction t) (auto simp: z)
  show "dropWhile is_digit t = dropWhile is_digit t'" unfolding t'_def by (induction t) (auto simp: z)
  have "list_all (\<lambda>c. c = 48) zs" unfolding zs_def by (simp add: list_all_iff) (metis set_takeWhileD)
  then show "dec_value (takeWhile is_digit t) = dec_value (takeWhile is_digit t')" unfolding 1 by (rule dec_value_zeros)
qed

lemma no_leading_zero:
  assumes "takeWhile P (dropWhile (\<lambda>c. c = 48) t) = c # cs"
  shows "c \<noteq> (48 :: u8)"
proof -
  have "dropWhile (\<lambda>c. c = 48) t \<noteq> []" by (metis assms list.distinct(1) takeWhile.simps(1))
  then have "hd (dropWhile (\<lambda>c. c = 48) t) \<noteq> 48" using hd_dropWhile [of "\<lambda>c. c = 48" t] by simp
  moreover have "hd (dropWhile (\<lambda>c. c = 48) t) = c" using assms by (cases "dropWhile (\<lambda>c. c = 48) t") (auto split: if_splits)
  ultimately show ?thesis by simp
qed

lemma all_takeWhile: "list_all P (takeWhile P xs)"
  by (simp add: list_all_iff) (metis set_takeWhileD)

text \<open>The number of significant digits decides, and at 19 the comparison.\<close>

lemma code_by_digits:
  fixes neg :: bool
  assumes ds: "list_all is_digit ds" "ds = [] \<or> hd ds \<noteq> 48"
  defines "v \<equiv> dec_value ds"
  defines "n \<equiv> (if neg then - v else v)"
  shows "length ds > 19 \<Longrightarrow> \<not> in_i64 n \<and> n \<noteq> 2 ^ 63" "length ds < 19 \<Longrightarrow> in_i64 n"
    "in_i64 n \<longleftrightarrow> v < 2 ^ 63 \<or> neg \<and> v = 2 ^ 63" "n = 2 ^ 63 \<longleftrightarrow> \<not> neg \<and> v = 2 ^ 63"
proof -
  have b: "0 \<le> v" "v < 10 ^ length ds" using dec_value_bounds [OF ds(1)] by (simp_all add: v_def)
  show "in_i64 n \<longleftrightarrow> v < 2 ^ 63 \<or> neg \<and> v = 2 ^ 63" "n = 2 ^ 63 \<longleftrightarrow> \<not> neg \<and> v = 2 ^ 63"
    using b(1) by (auto simp: n_def i64_defs)
  {
    assume "length ds > 19"
    then obtain c cs where c: "ds = c # cs" "19 \<le> length cs" by (cases ds) auto
    then have "(10 :: int) ^ 19 \<le> 10 ^ length cs" by (intro power_increasing) simp_all
    also have "\<dots> \<le> v" using dec_value_leading [of c cs] ds c by (simp add: v_def)
    finally show "\<not> in_i64 n \<and> n \<noteq> 2 ^ 63" by (auto simp: n_def i64_defs)
  }
  assume "length ds < 19"
  then have "(10 :: int) ^ length ds \<le> 10 ^ 18" by (intro power_increasing) simp_all
  then show "in_i64 n" using b by (auto simp: n_def i64_defs)
qed
lemma atoi64_scan_units:
  assumes u: "units z off (incr_of enc) zEnd us"
  shows "atoi64_scan z zEnd enc nonNum off = Some (if nonNum then 1 else int_text_code us, int_text_stored us)"
proof -
  let ?i = "incr_of enc"
  define s where "s = dropWhile sqlite3Isspace us"
  define z1 where "z1 = off + length (takeWhile sqlite3Isspace us) * ?i"
  define sign where "sign \<longleftrightarrow> s \<noteq> [] \<and> (hd s = 45 \<or> hd s = 43)"
  define neg where "neg \<longleftrightarrow> s \<noteq> [] \<and> hd s = 45"
  define t where "t = (if sign then tl s else s)"
  define z2 where "z2 = (if sign then z1 + ?i else z1)"
  define zs where "zs = takeWhile (\<lambda>c. c = 48) t"
  define t' where "t' = dropWhile (\<lambda>c. c = 48) t"
  define z3 where "z3 = z2 + length zs * ?i"
  define ds where "ds = takeWhile is_digit t'"
  have s1: "skip sqlite3Isspace z zEnd enc off = Some z1" unfolding z1_def by (rule skip_units [OF u])
  have us: "units z z1 ?i zEnd s" unfolding z1_def s_def dropWhile_eq_drop
    by (rule units_drop [OF u]) (simp add: length_takeWhile_le)
  have sg: "(if z1 < zEnd then do { c \<leftarrow> rd z z1; Some (c = 45, if c = 45 \<or> c = 43 then z1 + ?i else z1) } else Some (False, z1))
      = Some (neg, z2)" and ut: "units z z2 ?i zEnd t"
    using us units_Nil [of z z1 ?i zEnd] units_Cons [of z z1 ?i zEnd]
    by (cases s; force simp: neg_def sign_def z2_def t_def)+
  have s2: "skip (\<lambda>c. c = 48) z zEnd enc z2 = Some z3" unfolding z3_def zs_def by (rule skip_units [OF ut])
  have ut': "units z z3 ?i zEnd t'" unfolding z3_def t'_def zs_def dropWhile_eq_drop
    by (rule units_drop [OF ut]) (simp add: length_takeWhile_le)
  have dg: "digits_loop z zEnd enc z3 0 = Some (z3 + length ds * ?i, of_int (dec_value ds))"
    unfolding ds_def using digits_units [OF ut', of 0] u64_steps [of 0 ds] by (simp add: ds_def)
  have it: "int_text us = (neg, zs @ ds, dropWhile is_digit t')" "dec_value (zs @ ds) = dec_value ds"
    using digits_split [of t] by (simp_all add: int_text_def Let_def s_def [symmetric] neg_def sign_def [symmetric] t_def [symmetric]
        zs_def t'_def ds_def)
  have rest: "z3 + length ds * ?i < zEnd \<longleftrightarrow> dropWhile is_digit t' \<noteq> []"
    using ut' unfolding units_def by (auto simp: dropWhile_eq_drop ds_def)
  have d: "list_all is_digit ds" unfolding ds_def by (rule all_takeWhile)
  have d2: "ds = [] \<or> hd ds \<noteq> 48"
  proof (cases ds)
    case (Cons c cs)
    then show ?thesis using no_leading_zero [of is_digit t c cs] by (simp add: ds_def t'_def)
  qed simp
  have len: "z3 + length ds * ?i - z3 = length ds * ?i" "length ds * ?i = 0 \<longleftrightarrow> ds = []" "z2 = z3 \<longleftrightarrow> zs = []"
    "length ds * ?i > 19 * ?i \<longleftrightarrow> length ds > 19" "length ds * ?i < 19 * ?i \<longleftrightarrow> length ds < 19"
    by (simp_all add: z3_def)
  let ?v = "dec_value ds"
  have r: "atoi64_scan z zEnd enc nonNum off =
      (if dropWhile is_digit t' \<noteq> [] \<or> (ds = [] \<and> zs = []) \<or> length ds > 19 \<or> nonNum then Some (1, stored neg (of_int ?v))
       else if length ds < 19 then Some (0, stored neg (of_int ?v))
       else do {
         c \<leftarrow> compare2pow63 z z3 ?i;
         Some (if c < 0 then 0 else if c > 0 then 1 else if neg then 0 else 2, stored neg (of_int ?v)) })"
    unfolding atoi64_scan_def Let_def s1 Option.bind.bind_lunit sg prod.case s2 dg len rest by (rule refl)
  have st: "int_text_stored us = stored neg (of_int ?v)" by (simp add: int_text_stored_def it)
  have code: "int_text_code us = (if ds = [] \<and> zs = [] \<or> dropWhile is_digit t' \<noteq> [] then 1
      else if in_i64 (if neg then - ?v else ?v) then 0 else if (if neg then - ?v else ?v) = 2 ^ 63 then 2 else 1)"
    by (simp add: int_text_code_def int_text_value_def it)
  note c = code_by_digits [OF d d2, of neg]
  show ?thesis
  proof (cases "dropWhile is_digit t' \<noteq> [] \<or> (ds = [] \<and> zs = []) \<or> length ds > 19 \<or> nonNum")
    case True
    then show ?thesis unfolding r st code using c(1) by auto
  next
    case False
    show ?thesis
    proof (cases "length ds < 19")
      case True
      then show ?thesis unfolding r st code using False c(2) by simp
    next
      case 19: False
      then have l: "length ds = 19" using False by simp
      have "t' = ds" using False by (metis append.right_neutral ds_def takeWhile_dropWhile_id)
      then obtain k where k: "compare2pow63 z z3 ?i = Some k" "sgn k = sgn (?v - 2 ^ 63)"
        using compare2pow63_units [OF ut' _ _] d l by auto
      have "(k < 0 \<longleftrightarrow> ?v < 2 ^ 63) \<and> (0 < k \<longleftrightarrow> 2 ^ 63 < ?v)" using k(2) by (auto simp: sgn_if split: if_splits)
      then show ?thesis unfolding r st code c(3,4) using False 19 k(1) by auto
    qed
  qed
qed
lemma stored_exact:
  assumes "int_text_code us = 0"
  shows "int_text_stored us = int_text_value us"
proof -
  obtain neg ds rest where t: "int_text us = (neg, ds, rest)" by (metis prod_cases3)
  have "list_all is_digit ds" using t unfolding int_text_def Let_def by (auto simp: all_takeWhile)
  then have v: "0 \<le> dec_value ds" using dec_value_bounds by blast
  have i: "in_i64 (if neg then - dec_value ds else dec_value ds)"
    using assms t by (auto simp: int_text_code_def int_text_value_def split: if_splits)
  then have "uint (of_int (dec_value ds) :: u64) = dec_value ds"
    using v by (intro uint_small) (auto simp: i64_defs split: if_splits)
  then show ?thesis using stored_value [OF _ i] t by (simp add: int_text_stored_def int_text_value_def)
qed

section \<open>UTF-16\<close>

text \<open>A text of code units, each with its low and its high byte, in the two byte orders.\<close>

definition utf16le :: "(u8 \<times> u8) list \<Rightarrow> u8 list" where
  "utf16le ps = concat (map (\<lambda>(lo, hi). [lo, hi]) ps)"

definition utf16be :: "(u8 \<times> u8) list \<Rightarrow> u8 list" where
  "utf16be ps = concat (map (\<lambda>(lo, hi). [hi, lo]) ps)"

lemma rd_pairs: "k < length ps \<Longrightarrow> rd (utf16le ps) (2 * k) = Some (fst (ps ! k)) \<and> rd (utf16le ps) (2 * k + 1) = Some (snd (ps ! k))
    \<and> rd (utf16be ps) (2 * k) = Some (snd (ps ! k)) \<and> rd (utf16be ps) (2 * k + 1) = Some (fst (ps ! k))"
proof (induction ps arbitrary: k)
  case (Cons p ps)
  then show ?case by (cases k) (auto simp: utf16le_def utf16be_def split: prod.splits)
qed simp

lemma units_pairs:
  assumes "m \<le> length ps"
  shows "units (utf16le ps) 0 2 (2 * m) (map fst (take m ps))" "units (utf16be ps) 1 2 (2 * m + 1) (map fst (take m ps))"
    "units (utf16le ps) 1 2 (2 * m) (map snd (take m ps))" "units (utf16be ps) 0 2 (2 * m) (map snd (take m ps))"
  using assms rd_pairs [of _ ps] by (auto simp: units_def mult.commute [of _ 2])

lemma xor_one: "(2 * k + 1) XOR 1 = (2 * k :: nat)" "(2 * k) XOR 1 = (2 * k + 1 :: nat)"
  by (simp_all add: xor_Suc_0_eq)

lemma stop_iff: "(\<exists>p\<in>set ps. snd p \<noteq> (0 :: u8)) \<longleftrightarrow> length (takeWhile (\<lambda>p. snd p = 0) ps) < length ps"
  by (induction ps) auto

lemma Atoi64_utf16:
  fixes ps :: "(u8 \<times> u8) list"
  defines "us \<equiv> map fst (takeWhile (\<lambda>p. snd p = 0) ps)" and "nonNum \<equiv> (\<exists>p\<in>set ps. snd p \<noteq> 0)"
  shows "sqlite3Atoi64 (utf16le ps) (2 * length ps) SQLITE_UTF16LE = Some (if nonNum then 1 else int_text_code us, int_text_stored us)"
    "sqlite3Atoi64 (utf16be ps) (2 * length ps) SQLITE_UTF16BE = Some (if nonNum then 1 else int_text_code us, int_text_stored us)"
proof -
  let ?m = "length (takeWhile (\<lambda>p. snd p = 0) ps)"
  have m: "?m \<le> length ps" by (rule length_takeWhile_le)
  have us: "us = map fst (take ?m ps)" unfolding us_def by (metis takeWhile_eq_take)
  have n: "nonNum \<longleftrightarrow> ?m < length ps" unfolding nonNum_def by (rule stop_iff)
  have w: "length (takeWhile (\<lambda>c. c = 0) (map snd ps)) = ?m" by (simp add: takeWhile_map comp_def)
  note lens = units_pairs [of "length ps" ps, simplified]
  have "skip (\<lambda>c. c = 0) (utf16le ps) (2 * length ps) SQLITE_UTF16LE 1 = Some (2 * ?m + 1)"
    using skip_units [of "utf16le ps" 1 SQLITE_UTF16LE "2 * length ps" "map snd ps" "\<lambda>c. c = 0"] lens(3) w
    by (simp add: incr_of_def SQLITE_UTF8_def SQLITE_UTF16LE_def mult.commute)
  moreover have "atoi64_scan (utf16le ps) (2 * ?m) SQLITE_UTF16LE nonNum 0 = Some (if nonNum then 1 else int_text_code us, int_text_stored us)"
    using units_pairs(1) [OF m] us by (intro atoi64_scan_units) (simp add: incr_of_def SQLITE_UTF8_def SQLITE_UTF16LE_def)
  ultimately show "sqlite3Atoi64 (utf16le ps) (2 * length ps) SQLITE_UTF16LE = Some (if nonNum then 1 else int_text_code us, int_text_stored us)"
    using n xor_one(1) [of ?m]
    by (cases nonNum) (simp_all add: sqlite3Atoi64_def SQLITE_UTF8_def SQLITE_UTF16LE_def)
  have "skip (\<lambda>c. c = 0) (utf16be ps) (2 * length ps) SQLITE_UTF16BE 0 = Some (2 * ?m)"
    using skip_units [of "utf16be ps" 0 SQLITE_UTF16BE "2 * length ps" "map snd ps" "\<lambda>c. c = 0"] lens(4) w
    by (simp add: incr_of_def SQLITE_UTF8_def SQLITE_UTF16BE_def mult.commute)
  moreover have "atoi64_scan (utf16be ps) (2 * ?m + 1) SQLITE_UTF16BE nonNum 1 = Some (if nonNum then 1 else int_text_code us, int_text_stored us)"
    using units_pairs(2) [OF m] us by (intro atoi64_scan_units) (simp add: incr_of_def SQLITE_UTF8_def SQLITE_UTF16BE_def)
  ultimately show "sqlite3Atoi64 (utf16be ps) (2 * length ps) SQLITE_UTF16BE = Some (if nonNum then 1 else int_text_code us, int_text_stored us)"
    using n xor_one(2) [of ?m]
    by (cases nonNum) (simp_all add: sqlite3Atoi64_def SQLITE_UTF8_def SQLITE_UTF16BE_def)
qed
section \<open>32-bit numbers and hexadecimal text\<close>

lemma int32_loop_value: "int32_loop n z v =
    (let ds = take n (takeWhile is_digit z) in (length ds, v * 10 ^ length ds + dec_value ds))"
proof (induction n z v rule: int32_loop.induct)
  case (1 n c zs v)
  have d: "0 \<le> digit c \<and> digit c \<le> 9 \<longleftrightarrow> is_digit c"
    by (auto simp: is_digit_def digit_def word_le_def)
  show ?case
  proof (cases "is_digit c")
    case True
    then have "int32_loop n zs (v * 10 + digit c) = (let ds = take n (takeWhile is_digit zs)
        in (length ds, (v * 10 + digit c) * 10 ^ length ds + dec_value ds))"
      using "1.IH" [of "digit c"] d by (simp add: digit_def)
    then show ?thesis using True unfolding int32_loop.simps Let_def digit_def [symmetric] d
      by (simp add: algebra_simps)
  qed (unfold int32_loop.simps Let_def digit_def [symmetric] d, simp)
qed (auto simp: Let_def)

text \<open>The value of hexadecimal digits.\<close>

definition hex_digit :: "u8 \<Rightarrow> int" where
  "hex_digit c = uint (sqlite3HexToInt c)"

fun hex_value :: "u8 list \<Rightarrow> int" where
  "hex_value [] = 0"
| "hex_value (c # cs) = hex_digit c * 16 ^ length cs + hex_value cs"

lemma hex_digit_range: "0 \<le> hex_digit c" "hex_digit c < 16"
proof -
  have "uint (x AND 0xf) < 16" for x :: u8
    using and_mask_less' [of 4 x] by (simp add: mask_eq_exp_minus_1 word_less_def)
  then show "hex_digit c < 16" by (simp add: hex_digit_def sqlite3HexToInt_def)
qed (simp add: hex_digit_def)

lemma hex_value_bounds: "0 \<le> hex_value cs \<and> hex_value cs < 16 ^ length cs"
proof (induction cs)
  case (Cons c cs)
  have "hex_digit c * 16 ^ length cs \<le> 15 * 16 ^ length cs" "0 \<le> hex_digit c * 16 ^ length cs"
    using hex_digit_range [of c] by (intro mult_right_mono mult_nonneg_nonneg; simp)+
  then show ?case using Cons unfolding hex_value.simps length_Cons power_Suc by linarith
qed simp

lemma xdigit_cases: "sqlite3Isxdigit c \<Longrightarrow> c \<in> set [48, 49, 50, 51, 52, 53, 54, 55, 56, 57, 65, 66, 67, 68, 69, 70, 97, 98, 99, 100, 101, 102]"
  unfolding ctype_classes by (simp add: word_le_nat_alt word_unat_eq_iff) arith

lemma hex_digit_zero: "sqlite3Isxdigit c \<Longrightarrow> hex_digit c = 0 \<longleftrightarrow> c = 48"
  by (drule xdigit_cases) (auto simp: hex_digit_def sqlite3HexToInt_def)

lemma hex32_steps: "uint (foldl hex32_step u cs) = (uint u * 16 ^ length cs + hex_value cs) mod 2 ^ 32"
proof (induction cs arbitrary: u)
  case (Cons c cs)
  have "uint (hex32_step u c) = (uint u * 16 + hex_digit c) mod 2 ^ 32"
    by (simp add: hex32_step_def hex_digit_def uint_word_ariths unsigned_ucast_eq take_bit_eq_mod mod_simps)
  moreover have "(((uint u * 16 + hex_digit c) mod 2 ^ 32) * 16 ^ length cs + hex_value cs) mod 2 ^ 32
      = ((uint u * 16 + hex_digit c) * 16 ^ length cs + hex_value cs) mod 2 ^ 32" by (metis mod_add_left_eq mod_mult_left_eq)
  ultimately show ?case using Cons by (simp add: algebra_simps)
next
  case Nil
  have "uint u < 2 ^ 32" using unsigned_less [of u] by simp
  then show ?case by simp
qed

lemma hex_value_leading: "sqlite3Isxdigit c \<Longrightarrow> c \<noteq> 48 \<Longrightarrow> 16 ^ length cs \<le> hex_value (c # cs)"
proof -
  assume "sqlite3Isxdigit c" "c \<noteq> 48"
  then have "1 \<le> hex_digit c" using hex_digit_range(1) [of c] hex_digit_zero [of c] by linarith
  then have "1 * 16 ^ length cs \<le> hex_digit c * 16 ^ length cs" by (intro mult_right_mono) simp_all
  then show ?thesis using hex_value_bounds [of cs] unfolding hex_value.simps by linarith
qed

lemma positive_u32: "(u :: u32) AND 0x80000000 = 0 \<longleftrightarrow> uint u < 2 ^ 31" "uint u < 2 ^ 31 \<Longrightarrow> sint u = uint u"
proof -
  have u: "0 \<le> uint u" "uint u < 2 ^ 32" using unsigned_less [of u] by simp_all
  have "u AND 0x80000000 = 0 \<longleftrightarrow> \<not> bit (uint u) 31"
    using and_exp_eq_0_iff_not_bit [of u 31] by (simp add: bit_uint_iff)
  also have "\<dots> \<longleftrightarrow> even (uint u div 2 ^ 31)" by (simp add: bit_iff_odd)
  also have "uint u div 2 ^ 31 = (if uint u < 2 ^ 31 then 0 else 1)"
    using u by (auto intro: int_div_pos_eq [of _ _ _ "uint u - 2 ^ 31"])
  also have "even (if uint u < 2 ^ 31 then 0 else 1 :: int) \<longleftrightarrow> uint u < 2 ^ 31" by simp
  finally show "u AND 0x80000000 = 0 \<longleftrightarrow> uint u < 2 ^ 31" .
  assume "uint u < 2 ^ 31"
  then have "signed_take_bit 31 (uint u) = uint u" by (intro signed_take_bit_int_eq_self; use u in linarith)
  then show "sint u = uint u" by (simp add: sint_uint)
qed

section \<open>Properties\<close>

text \<open>
  The value of a text as a 32-bit integer: the digits after the sign (or after \<open>0x\<close>), whatever
  follows them, if the number they write is in range; no digit is the number 0.
\<close>

definition int32_text :: "cstring \<Rightarrow> int option" where
  "int32_text z =
     (if hd0 z = 48 \<and> (hd0 (tl z) = 120 \<or> hd0 (tl z) = 88) \<and> sqlite3Isxdigit (hd0 (drop 2 z)) then
        let v = hex_value (takeWhile sqlite3Isxdigit (drop 2 z)) in if v < 2 ^ 31 then Some v else None
      else
        let t = (if hd0 z = 45 \<or> hd0 z = 43 then tl z else z);
            v = dec_value (takeWhile is_digit t);
            v = (if hd0 z = 45 then - v else v)
        in if - (2 ^ 31) \<le> v \<and> v < 2 ^ 31 then Some v else None)"

lemma dec_part:
  fixes t :: "u8 list"
  defines "v \<equiv> dec_value (takeWhile is_digit t)"
  shows "(case int32_loop 11 (dropWhile (\<lambda>c. c = 48) t) 0 of (i, v) \<Rightarrow>
      if i > 10 then None else if v - of_bool neg > 2147483647 then None else Some (if neg then - v else v))
    = (let v = (if neg then - v else v) in if - (2 ^ 31) \<le> v \<and> v < 2 ^ 31 then Some v else None)"
proof -
  define ds where "ds = takeWhile is_digit (dropWhile (\<lambda>c. c = 48) t)"
  have d: "list_all is_digit ds" unfolding ds_def by (rule all_takeWhile)
  have v: "v = dec_value ds" unfolding v_def ds_def by (rule digits_split)
  have v0: "0 \<le> v" using dec_value_bounds [OF d] by (simp add: v)
  show ?thesis
  proof (cases "length ds > 10")
    case True
    then obtain c cs where c: "ds = c # cs" "10 \<le> length cs" by (cases ds) auto
    then have "c \<noteq> 48" using no_leading_zero [of is_digit t c cs] by (simp add: ds_def)
    then have "10 ^ length cs \<le> v" using dec_value_leading [of c cs] d c by (simp add: v)
    moreover have "(10 :: int) ^ 10 \<le> 10 ^ length cs" using c(2) by (intro power_increasing) simp_all
    ultimately have "10 ^ 10 \<le> v" by linarith
    then show ?thesis using True by (auto simp: int32_loop_value ds_def [symmetric] Let_def)
  next
    case False
    then have "take 11 ds = ds" by simp
    then show ?thesis using v0 False by (auto simp: int32_loop_value ds_def [symmetric] v [symmetric] Let_def)
  qed
qed

lemma hex_zeros: "list_all (\<lambda>c. c = 48) zs \<Longrightarrow> hex_value (zs @ ds) = hex_value ds"
  by (induction zs) (auto simp: hex_digit_def sqlite3HexToInt_def)

lemma hex_split: "hex_value (takeWhile sqlite3Isxdigit t) = hex_value (takeWhile sqlite3Isxdigit (dropWhile (\<lambda>c. c = 48) t))"
proof -
  have z: "sqlite3Isxdigit 48" by (simp add: ctype_classes)
  have "takeWhile sqlite3Isxdigit t = takeWhile (\<lambda>c. c = 48) t @ takeWhile sqlite3Isxdigit (dropWhile (\<lambda>c. c = 48) t)"
    by (induction t) (auto simp: z)
  then show ?thesis using hex_zeros all_takeWhile by metis
qed

lemma hex_part:
  fixes t :: "u8 list"
  defines "v \<equiv> hex_value (takeWhile sqlite3Isxdigit t)" and "z \<equiv> dropWhile (\<lambda>c. c = 48) t"
  defines "hs \<equiv> take 8 (takeWhile sqlite3Isxdigit z)"
  defines "u \<equiv> foldl hex32_step 0 hs"
  shows "(if u AND 0x80000000 = 0 \<and> \<not> sqlite3Isxdigit (hd0 (drop (length hs) z)) then Some (sint u) else None)
    = (if v < 2 ^ 31 then Some v else None)"
proof -
  define ds where "ds = takeWhile sqlite3Isxdigit z"
  have d: "list_all sqlite3Isxdigit ds" unfolding ds_def by (rule all_takeWhile)
  have v: "v = hex_value ds" unfolding v_def ds_def z_def by (rule hex_split)
  have hs: "hs = take 8 ds" by (simp add: hs_def ds_def)
  have zero: "\<not> sqlite3Isxdigit 0" by (simp add: ctype_classes)
  show ?thesis
  proof (cases "length ds > 8")
    case True
    then obtain c cs where c: "ds = c # cs" "8 \<le> length cs" by (cases ds) auto
    then have "c \<noteq> 48" using no_leading_zero [of sqlite3Isxdigit t c cs] by (simp add: ds_def z_def)
    then have "16 ^ length cs \<le> v" using hex_value_leading [of c cs] d c by (simp add: v)
    moreover have "(16 :: int) ^ 8 \<le> 16 ^ length cs" using c(2) by (intro power_increasing) simp_all
    ultimately have "16 ^ 8 \<le> v" by linarith
    moreover have "sqlite3Isxdigit (hd0 (drop (length hs) z))"
    proof -
      have "drop (length hs) z = drop 8 ds @ dropWhile sqlite3Isxdigit z"
        using True by (metis append_take_drop_id drop_append ds_def hs length_take less_imp_le min.absorb2 takeWhile_dropWhile_id diff_self_eq_0 drop0 diff_is_0_eq)
      moreover obtain e es where e: "drop 8 ds = e # es" using True by (cases "drop 8 ds") auto
      moreover have "e \<in> set ds" using e by (metis in_set_dropD list.set_intros(1))
      ultimately show ?thesis using d by (simp add: list_all_iff)
    qed
    ultimately show ?thesis by simp
  next
    case False
    then have h: "hs = ds" by (simp add: hs)
    have "drop (length hs) z = dropWhile sqlite3Isxdigit z" by (simp add: h ds_def dropWhile_eq_drop)
    then have "\<not> sqlite3Isxdigit (hd0 (drop (length hs) z))"
      using hd_dropWhile [of sqlite3Isxdigit z] zero by (cases "dropWhile sqlite3Isxdigit z") auto
    moreover have "uint u = v mod 2 ^ 32" unfolding u_def h v using hex32_steps [of 0 ds] by simp
    moreover have "0 \<le> v" "v < 16 ^ length ds" using hex_value_bounds [of ds] by (simp_all add: v)
    moreover have "(16 :: int) ^ length ds \<le> 16 ^ 8" using False by (intro power_increasing) simp_all
    ultimately show ?thesis using positive_u32 [of u] by simp
  qed
qed
lemma GetInt32_value: "sqlite3GetInt32 z = int32_text z"
proof (cases "hd0 z = 48 \<and> (hd0 (tl z) = 120 \<or> hd0 (tl z) = 88) \<and> sqlite3Isxdigit (hd0 (drop 2 z))")
  case True
  then show ?thesis using hex_part [of "drop 2 z"] unfolding sqlite3GetInt32_def int32_text_def by (simp add: Let_def)
next
  case False
  then show ?thesis
    using dec_part [of True "tl z"] dec_part [of False "tl z"] dec_part [of False z]
    unfolding sqlite3GetInt32_def int32_text_def if_not_P [OF False]
    by (cases "hd0 z = 45"; cases "hd0 z = 43") (simp_all add: Let_def)
qed

text \<open>The text of a byte in lower case.\<close>

definition hex_char :: "u8 \<Rightarrow> u8" where
  "hex_char n = (if n < 10 then 48 + n else 87 + n)"

definition hex_text :: "u8 list \<Rightarrow> u8 list" where
  "hex_text bs = concat (map (\<lambda>b. [hex_char (drop_bit 4 b), hex_char (b AND 0xf)]) bs)"

lemma HexToInt_char: "n < 16 \<Longrightarrow> sqlite3HexToInt (hex_char n) = n"
proof -
  assume "n < 16"
  then have "n \<in> set [0, 1, 2, 3, 4, 5, 6, 7, 8, 9, 10, 11, 12, 13, 14, 15]"
    by (simp add: word_less_nat_alt word_unat_eq_iff) arith
  then show ?thesis by (auto simp: hex_char_def sqlite3HexToInt_def)
qed

lemma nibbles: "drop_bit 4 b < (16 :: u8)" "b AND 0xf < (16 :: u8)" "push_bit 4 (drop_bit 4 b) OR (b AND 0xf) = (b :: u8)"
proof -
  show "b AND 0xf < (16 :: u8)" using and_mask_less' [of 4 b] by (simp add: mask_eq_exp_minus_1)
  have "uint b < 256" using unsigned_less [of b] by simp
  then show "drop_bit 4 b < (16 :: u8)" by (simp add: word_less_def drop_bit_eq_div uint_div)
  show "push_bit 4 (drop_bit 4 b) OR (b AND 0xf) = (b :: u8)"
    by (rule bit_eq8) (simp add: bit_simps)
qed

lemma hex_bytes_text: "hex_bytes (hex_text bs) = bs"
  by (induction bs) (simp_all add: hex_text_def HexToInt_char nibbles)

lemma hex_text_length: "length (hex_text bs) = 2 * length bs"
  by (induction bs) (simp_all add: hex_text_def)

text \<open>
  \<open>sqlite3Atoi64\<close> is exact in every encoding. On UTF-8 text it returns 0, with the value,
  for a 64-bit integer between optional white space and the end of the text, 2 for
  \<open>2 ^ 63\<close>, and 1 for everything else; on UTF-16 in either byte order it returns and stores
  what it does on the low bytes of the units before the first non-ASCII one, and 1 if there is
  one. No read is outside the buffer.
\<close>

lemma Atoi64_text:
  "sqlite3Atoi64 z (length z) SQLITE_UTF8 = Some (int_text_code z, int_text_stored z)
   \<and> (int_text_code z = 0 \<longrightarrow> int_text_stored z = int_text_value z)
   \<and> (let us = map fst (takeWhile (\<lambda>p. snd p = 0) ps);
          r = Some (if \<exists>p\<in>set ps. snd p \<noteq> 0 then 1 else int_text_code us, int_text_stored us)
      in sqlite3Atoi64 (utf16le ps) (2 * length ps) SQLITE_UTF16LE = r
         \<and> sqlite3Atoi64 (utf16be ps) (2 * length ps) SQLITE_UTF16BE = r)"
proof -
  have "units z 0 1 (length z) z" by (simp add: units_def rd_def)
  then have "sqlite3Atoi64 z (length z) SQLITE_UTF8 = Some (int_text_code z, int_text_stored z)"
    using atoi64_scan_units [of z 0 SQLITE_UTF8 "length z" z False]
    by (simp add: sqlite3Atoi64_def incr_of_def)
  then show ?thesis using stored_exact Atoi64_utf16 [of ps] by (simp add: Let_def)
qed

lemma Atoi64_text_witness:
  "sqlite3Atoi64 [32, 45, 49, 50] 4 SQLITE_UTF8 = Some (0, -12)"
proof -
  have "int_text [32, 45, 49, 50] = (True, [49, 50], [])"
    by (simp add: int_text_def ctype_classes is_digit_def)
  then have "int_text_code [32, 45, 49, 50] = 0" "int_text_value [32, 45, 49, 50] = -12"
    by (simp_all add: int_text_code_def int_text_value_def digit_def i64_defs)
  moreover have "length [32, 45, 49, 50 :: u8] = 4" by simp
  ultimately show ?thesis using Atoi64_text [of "[32, 45, 49, 50]" "[]"] by (simp del: list.size)
qed

text \<open>
  \<open>sqlite3GetInt32\<close> accepts a decimal text, with a sign, or a hexadecimal one exactly when
  the number its digits write is in range, and gives that number. A text without digits is
  accepted as 0, and whatever follows the digits is passed over.
\<close>

lemma GetInt32_text:
  "sqlite3GetInt32 z = int32_text z \<and> sqlite3Atoi (Some z) = (case int32_text z of Some v \<Rightarrow> v | None \<Rightarrow> 0)"
  by (simp add: GetInt32_value sqlite3Atoi_def)

text \<open>
  \<open>sqlite3HexToBlob\<close> inverts the hexadecimal text of any bytes.
\<close>

lemma HexToBlob_text:
  "sqlite3HexToBlob True (hex_text bs @ rest) (2 * length bs) = Some bs"
  by (simp add: sqlite3HexToBlob_def hex_bytes_text hex_text_length)

text \<open>From \<open>2 ^ 64\<close> on, the value that is stored with code 1 is not the nearest one: it wraps.\<close>

lemma Atoi64_wraps: "int_text_stored [49, 56, 52, 52, 54, 55, 52, 52, 48, 55, 51, 55, 48, 57, 53, 53, 49, 54, 49, 55] = 1"
proof -
  let ?z = "[49, 56, 52, 52, 54, 55, 52, 52, 48, 55, 51, 55, 48, 57, 53, 53, 49, 54, 49, 55] :: u8 list"
  have "int_text ?z = (False, ?z, [])" by (simp add: int_text_def ctype_classes is_digit_def)
  moreover have "dec_value ?z = 18446744073709551617" by (simp add: digit_def)
  ultimately show ?thesis by (simp add: int_text_stored_def stored_def i64_defs)
qed

end
