(* ===== verification/Utf.thy ===== *)
theory Utf
  imports Numbers
begin

text \<open>
  Text encodings (\<open>Example/Pods/WCDBOptimizedSQLCipher/src/utf.c\<close>): the reading and writing
  of characters in UTF-8 and in the two byte orders of UTF-16, and the translation of a whole
  text. A buffer up to its end is a list of bytes; a zero-terminated string is the list of the
  bytes before the terminator, and reading a character there gives 0. \<open>None\<close> is a read or a
  write outside a buffer. The native byte order is little-endian.
\<close>

section \<open>Characters\<close>

definition sqlite3Utf8Trans1 :: "u32 list" where
  "sqlite3Utf8Trans1 =
    [0x00, 0x01, 0x02, 0x03, 0x04, 0x05, 0x06, 0x07,
     0x08, 0x09, 0x0a, 0x0b, 0x0c, 0x0d, 0x0e, 0x0f,
     0x10, 0x11, 0x12, 0x13, 0x14, 0x15, 0x16, 0x17,
     0x18, 0x19, 0x1a, 0x1b, 0x1c, 0x1d, 0x1e, 0x1f,
     0x00, 0x01, 0x02, 0x03, 0x04, 0x05, 0x06, 0x07,
     0x08, 0x09, 0x0a, 0x0b, 0x0c, 0x0d, 0x0e, 0x0f,
     0x00, 0x01, 0x02, 0x03, 0x04, 0x05, 0x06, 0x07,
     0x00, 0x01, 0x02, 0x03, 0x00, 0x01, 0x00, 0x00]"

definition WRITE_UTF8 :: "u32 \<Rightarrow> u8 list" where
  "WRITE_UTF8 c =
     (if c < 0x80 then [ucast (c AND 0xFF)]
      else if c < 0x800 then
        [0xC0 + ucast (drop_bit 6 c AND 0x1F), 0x80 + ucast (c AND 0x3F)]
      else if c < 0x10000 then
        [0xE0 + ucast (drop_bit 12 c AND 0x0F), 0x80 + ucast (drop_bit 6 c AND 0x3F), 0x80 + ucast (c AND 0x3F)]
      else
        [0xF0 + ucast (drop_bit 18 c AND 0x07), 0x80 + ucast (drop_bit 12 c AND 0x3F),
         0x80 + ucast (drop_bit 6 c AND 0x3F), 0x80 + ucast (c AND 0x3F)])"

definition WRITE_UTF16LE :: "u32 \<Rightarrow> u8 list" where
  "WRITE_UTF16LE c =
     (if c \<le> 0xFFFF then [ucast (c AND 0xFF), ucast (drop_bit 8 c AND 0xFF)]
      else
        [ucast ((drop_bit 10 c AND 0x3F) + (drop_bit 10 (c - 0x10000) AND 0xC0)),
         ucast (0xD8 + (drop_bit 18 (c - 0x10000) AND 0x03)),
         ucast (c AND 0xFF),
         ucast (0xDC + (drop_bit 8 c AND 0x03))])"

definition WRITE_UTF16BE :: "u32 \<Rightarrow> u8 list" where
  "WRITE_UTF16BE c =
     (if c \<le> 0xFFFF then [ucast (drop_bit 8 c AND 0xFF), ucast (c AND 0xFF)]
      else
        [ucast (0xD8 + (drop_bit 18 (c - 0x10000) AND 0x03)),
         ucast ((drop_bit 10 c AND 0x3F) + (drop_bit 10 (c - 0x10000) AND 0xC0)),
         ucast (0xDC + (drop_bit 8 c AND 0x03)),
         ucast (c AND 0xFF)])"

text \<open>The two units of a surrogate pair put together.\<close>

definition join_pair :: "u32 \<Rightarrow> u32 \<Rightarrow> u32" where
  "join_pair c c2 = (c2 AND 0x03FF) + push_bit 10 (c AND 0x003F) + push_bit 10 ((c AND 0x03C0) + 0x0040)"

text \<open>\<open>TERM\<close> is 1, or asks whether the buffer has more.\<close>

fun READ_UTF16LE :: "bool \<Rightarrow> u8 list \<Rightarrow> (u32 \<times> u8 list) option" where
  "READ_UTF16LE t (b0 # b1 # z) =
     (let c = ucast b0 + push_bit 8 (ucast b1)
      in if c \<ge> 0xD800 \<and> c < 0xE000 \<and> (t \<or> z \<noteq> []) then
           (case z of
              b2 # b3 # z \<Rightarrow> Some (join_pair c (ucast b2 + push_bit 8 (ucast b3)), z)
            | _ \<Rightarrow> None)
         else Some (c, z))"
| "READ_UTF16LE t z = None"

fun READ_UTF16BE :: "bool \<Rightarrow> u8 list \<Rightarrow> (u32 \<times> u8 list) option" where
  "READ_UTF16BE t (b0 # b1 # z) =
     (let c = push_bit 8 (ucast b0) + ucast b1
      in if c \<ge> 0xD800 \<and> c < 0xE000 \<and> (t \<or> z \<noteq> []) then
           (case z of
              b2 # b3 # z \<Rightarrow> Some (join_pair c (push_bit 8 (ucast b2) + ucast b3), z)
            | _ \<Rightarrow> None)
         else Some (c, z))"
| "READ_UTF16BE t z = None"

text \<open>The loop over continuation bytes and the test of the value.\<close>

fun utf8_tail :: "u32 \<Rightarrow> u8 list \<Rightarrow> u32 \<times> u8 list" where
  "utf8_tail c [] = (c, [])"
| "utf8_tail c (b # z) =
     (if b AND 0xc0 = 0x80 then utf8_tail (push_bit 6 c + ucast (0x3f AND b)) z else (c, b # z))"

definition utf8_check :: "u32 \<Rightarrow> u32" where
  "utf8_check c = (if c < 0x80 \<or> c AND 0xFFFFF800 = 0xD800 \<or> c AND 0xFFFFFFFE = 0xFFFE then 0xFFFD else c)"

fun READ_UTF8 :: "u8 list \<Rightarrow> (u32 \<times> u8 list) option" where
  "READ_UTF8 [] = None"
| "READ_UTF8 (b # z) =
     (if b \<ge> 0xc0 then
        (case utf8_tail (sqlite3Utf8Trans1 ! unat (b - 0xc0)) z of (c, z) \<Rightarrow> Some (utf8_check c, z))
      else Some (ucast b, z))"

text \<open>On a zero-terminated string; behind the terminator nothing is read any more.\<close>

fun sqlite3Utf8Read :: "cstring \<Rightarrow> u32 \<times> cstring" where
  "sqlite3Utf8Read [] = (0, [])"
| "sqlite3Utf8Read (b # z) =
     (if b \<ge> 0xc0 then
        (case utf8_tail (sqlite3Utf8Trans1 ! unat (b - 0xc0)) z of (c, z) \<Rightarrow> (utf8_check c, z))
      else (ucast b, z))"

definition is_cont :: "u8 \<Rightarrow> bool" where
  "is_cont b \<longleftrightarrow> b AND 0xc0 = 0x80"

fun SQLITE_SKIP_UTF8 :: "cstring \<Rightarrow> cstring" where
  "SQLITE_SKIP_UTF8 [] = []"
| "SQLITE_SKIP_UTF8 (b # z) = (if b \<ge> 0xc0 then dropWhile is_cont z else z)"

section \<open>Texts\<close>

text \<open>The text and encoding of a \<open>Mem\<close> with \<open>MEM_Str\<close>.\<close>

record Mem =
  m_z :: "u8 list"
  m_enc :: nat

lemma utf8_tail_shorter: "length (snd (utf8_tail c z)) \<le> length z"
  by (induction z arbitrary: c) (auto intro: le_SucI)

lemma READ_UTF8_shorter: "READ_UTF8 z = Some (c, z') \<Longrightarrow> length z' < length z"
  using utf8_tail_shorter by (cases z) (auto simp: less_Suc_eq_le split: if_splits prod.splits, metis snd_conv)

lemma READ_UTF16_shorter: "READ_UTF16LE t z = Some (c, z') \<Longrightarrow> length z' < length z"
  "READ_UTF16BE t z = Some (c, z') \<Longrightarrow> length z' < length z"
  by (cases "(t, z)" rule: READ_UTF16LE.cases; auto simp: Let_def split: if_splits list.splits)+

text \<open>The loops of the translation, with the reader and the writer they use.\<close>

function translate_loop :: "nat \<Rightarrow> (u32 \<Rightarrow> u8 list) \<Rightarrow> u8 list \<Rightarrow> u8 list option" where
  "translate_loop enc W zIn =
     (if zIn = [] then Some []
      else case (if enc = SQLITE_UTF8 then READ_UTF8 zIn
                 else if enc = SQLITE_UTF16LE then READ_UTF16LE False zIn else READ_UTF16BE False zIn) of
        None \<Rightarrow> None
      | Some (c, z) \<Rightarrow> map_option ((@) (W c)) (translate_loop enc W z))"
  by pat_completeness auto
termination
  by (relation "measure (\<lambda>(enc, W, z). length z)") (auto dest: READ_UTF8_shorter READ_UTF16_shorter split: if_splits)

declare translate_loop.simps [simp del]

definition writer :: "nat \<Rightarrow> u32 \<Rightarrow> u8 list" where
  "writer enc = (if enc = SQLITE_UTF8 then WRITE_UTF8 else if enc = SQLITE_UTF16LE then WRITE_UTF16LE else WRITE_UTF16BE)"

fun swap_bytes :: "u8 list \<Rightarrow> u8 list" where
  "swap_bytes (a # b # z) = b # a # swap_bytes z"
| "swap_bytes z = z"

definition even_part :: "u8 list \<Rightarrow> u8 list" where
  "even_part z = take (length z - length z mod 2) z"

definition sqlite3VdbeMemTranslate :: "bool \<Rightarrow> Mem \<Rightarrow> nat \<Rightarrow> (nat \<times> Mem) option" where
  "sqlite3VdbeMemTranslate malloc pMem desiredEnc =
     (if m_enc pMem \<noteq> SQLITE_UTF8 \<and> desiredEnc \<noteq> SQLITE_UTF8 then
        (if \<not> malloc then Some (SQLITE_NOMEM, pMem)
         else Some (SQLITE_OK, \<lparr>m_z = swap_bytes (m_z pMem), m_enc = desiredEnc\<rparr>))
      else
        let pMem = (if desiredEnc = SQLITE_UTF8 then pMem\<lparr>m_z := even_part (m_z pMem)\<rparr> else pMem);
            len = length (m_z pMem) * 2 + (if desiredEnc = SQLITE_UTF8 then 1 else 2)
        in if \<not> malloc then Some (SQLITE_NOMEM, pMem)
           else do {
             z \<leftarrow> translate_loop (m_enc pMem) (writer desiredEnc) (m_z pMem);
             (if length z + (if desiredEnc = SQLITE_UTF8 then 1 else 2) > len then None
              else Some (SQLITE_OK, \<lparr>m_z = z, m_enc = desiredEnc\<rparr>)) })"

definition sqlite3VdbeMemHandleBom :: "bool \<Rightarrow> Mem \<Rightarrow> nat \<times> Mem" where
  "sqlite3VdbeMemHandleBom malloc pMem =
     (let bom = (case m_z pMem of
                   b1 # b2 # z \<Rightarrow>
                     if b1 = 0xFF \<and> b2 = 0xFE then SQLITE_UTF16LE
                     else if b1 = 0xFE \<and> b2 = 0xFF then SQLITE_UTF16BE else 0
                 | _ \<Rightarrow> 0)
      in if bom \<noteq> 0 then
           (if \<not> malloc then (SQLITE_NOMEM, pMem)
            else (SQLITE_OK, \<lparr>m_z = drop 2 (m_z pMem), m_enc = bom\<rparr>))
         else (SQLITE_OK, pMem))"

text \<open>
  Counting characters: of a zero-terminated string, or of at most \<open>nByte\<close> bytes of it. The
  limit is only tested between characters, so the last one may pass it.
\<close>

lemma SKIP_shorter: "z \<noteq> [] \<Longrightarrow> length (SQLITE_SKIP_UTF8 z) < length z"
  by (cases z) (auto simp: less_Suc_eq_le length_dropWhile_le)

function char_count :: "cstring \<Rightarrow> int \<Rightarrow> nat" where
  "char_count z n =
     (if z \<noteq> [] \<and> n > 0
      then Suc (char_count (SQLITE_SKIP_UTF8 z) (n - int (length z - length (SQLITE_SKIP_UTF8 z)))) else 0)"
  by pat_completeness auto
termination
  by (relation "measure (\<lambda>(z, n). length z)") (auto intro: SKIP_shorter)

declare char_count.simps [simp del]

definition sqlite3Utf8CharLen :: "cstring \<Rightarrow> int \<Rightarrow> nat" where
  "sqlite3Utf8CharLen zIn nByte = char_count zIn (if nByte \<ge> 0 then nByte else int (length zIn))"

text \<open>The number of bytes of the first \<open>nChar\<close> characters of a UTF-16 text.\<close>

primrec sqlite3Utf16ByteLen :: "nat \<Rightarrow> u8 list \<Rightarrow> nat option" where
  "sqlite3Utf16ByteLen 0 z = Some 0"
| "sqlite3Utf16ByteLen (Suc n) z = do {
     (c, z') \<leftarrow> READ_UTF16LE True z;
     m \<leftarrow> sqlite3Utf16ByteLen n z';
     Some (length z - length z' + m) }"
section \<open>Words as numbers\<close>

lemma u32_field: "n < 2 ^ 32 \<Longrightarrow> drop_bit k (of_nat n :: u32) AND mask m = of_nat (n div 2 ^ k mod 2 ^ m)"
proof -
  assume n: "n < 2 ^ 32"
  then have u: "unat (of_nat n :: u32) = n" by (simp add: unsigned_of_nat take_bit_nat_eq_self)
  have "n div 2 ^ k mod 2 ^ m \<le> n" by (meson div_le_dividend le_trans mod_less_eq_dividend)
  then have "unat (of_nat (n div 2 ^ k mod 2 ^ m) :: u32) = n div 2 ^ k mod 2 ^ m"
    using n by (simp add: unsigned_of_nat take_bit_nat_eq_self)
  moreover have "unat (take_bit m (drop_bit k (of_nat n :: u32))) = n div 2 ^ k mod 2 ^ m"
    unfolding unsigned_take_bit_eq unsigned_drop_bit_eq u using n
    by (simp only: take_bit_nat_eq_self len_num1 len_bit0 len_bit1) (simp add: take_bit_eq_mod drop_bit_eq_div)
  ultimately show ?thesis by (simp add: take_bit_eq_mask [symmetric] word_unat_eq_iff)
qed

lemma ucast_of_nat: "(ucast (of_nat n :: u32) :: u8) = of_nat n" "(ucast (of_nat m :: u8) :: u32) = of_nat (m mod 256)"
  by (simp_all add: word_unat_eq_iff unsigned_ucast_eq unsigned_of_nat take_bit_take_bit take_bit_eq_mod mod_mod_cancel)

lemma unat_u8_of_nat: "k < 256 \<Longrightarrow> unat (of_nat k :: u8) = k"
  by (simp add: unsigned_of_nat take_bit_nat_eq_self)

lemma u32_fields:
  assumes "n < 2 ^ 32"
  shows "(of_nat n :: u32) AND 0xFF = of_nat (n mod 256)" "(of_nat n :: u32) AND 0x3F = of_nat (n mod 64)"
    "drop_bit 6 (of_nat n :: u32) AND 0x1F = of_nat (n div 64 mod 32)" "drop_bit 6 (of_nat n :: u32) AND 0x3F = of_nat (n div 64 mod 64)"
    "drop_bit 12 (of_nat n :: u32) AND 0x0F = of_nat (n div 4096 mod 16)" "drop_bit 12 (of_nat n :: u32) AND 0x3F = of_nat (n div 4096 mod 64)"
    "drop_bit 18 (of_nat n :: u32) AND 0x07 = of_nat (n div 262144 mod 8)" "drop_bit 18 (of_nat n :: u32) AND 0x03 = of_nat (n div 262144 mod 4)"
    "drop_bit 8 (of_nat n :: u32) AND 0xFF = of_nat (n div 256 mod 256)" "drop_bit 8 (of_nat n :: u32) AND 0x03 = of_nat (n div 256 mod 4)"
    "drop_bit 10 (of_nat n :: u32) AND 0x3F = of_nat (n div 1024 mod 64)" "(of_nat n :: u32) AND 0x3FF = of_nat (n mod 1024)"
  using u32_field [OF assms, of 0 8] u32_field [OF assms, of 0 6] u32_field [OF assms, of 6 5] u32_field [OF assms, of 6 6]
    u32_field [OF assms, of 12 4] u32_field [OF assms, of 12 6] u32_field [OF assms, of 18 3] u32_field [OF assms, of 18 2]
    u32_field [OF assms, of 8 8] u32_field [OF assms, of 8 2] u32_field [OF assms, of 10 6] u32_field [OF assms, of 0 10]
  by (simp_all add: mask_eq_exp_minus_1)

text \<open>A continuation byte adds six bits; the lead bytes carry the first ones.\<close>

lemma utf8_tail_cont: "x < 64 \<Longrightarrow> utf8_tail t (of_nat (128 + x) # z) = utf8_tail (t * 64 + of_nat x) z"
proof -
  have "\<forall>x < (64 :: nat). (of_nat (128 + x) :: u8) AND 0xc0 = 0x80 \<and> (ucast (0x3f AND (of_nat (128 + x) :: u8)) :: u32) = of_nat x"
    by code_simp
  then show "x < 64 \<Longrightarrow> ?thesis" by (simp add: push_bit_eq_mult)
qed

lemma utf8_tail_stop: "\<not> is_cont (hd0 z) \<Longrightarrow> utf8_tail c z = (c, z)"
  by (cases z) (auto simp: is_cont_def)

lemma lead_bytes:
  "x < 32 \<Longrightarrow> sqlite3Utf8Trans1 ! x = of_nat x" "x < 16 \<Longrightarrow> sqlite3Utf8Trans1 ! (32 + x) = of_nat x"
  "x < 8 \<Longrightarrow> sqlite3Utf8Trans1 ! (48 + x) = of_nat x"
proof -
  have "\<forall>x < (32 :: nat). sqlite3Utf8Trans1 ! x = of_nat x" by code_simp
  then show "x < 32 \<Longrightarrow> sqlite3Utf8Trans1 ! x = of_nat x" by simp
  have "\<forall>x < (16 :: nat). sqlite3Utf8Trans1 ! (32 + x) = of_nat x" by code_simp
  then show "x < 16 \<Longrightarrow> sqlite3Utf8Trans1 ! (32 + x) = of_nat x" by simp
  have "\<forall>x < (8 :: nat). sqlite3Utf8Trans1 ! (48 + x) = of_nat x" by code_simp
  then show "x < 8 \<Longrightarrow> sqlite3Utf8Trans1 ! (48 + x) = of_nat x" by simp
qed

lemma high_bits: "n < 2 ^ 32 \<Longrightarrow> (of_nat n :: u32) AND NOT (mask k) = of_nat (n div 2 ^ k * 2 ^ k)"
proof -
  assume n: "n < 2 ^ 32"
  then have u: "unat (of_nat n :: u32) = n" by (simp add: unsigned_of_nat take_bit_nat_eq_self)
  have f: "x AND mask 32 = x" for x :: u32 by (rule bit_word_eqI) (simp add: bit_simps)
  have "(of_nat n :: u32) AND NOT (mask k) = push_bit k (drop_bit k (of_nat n))"
    by (rule bit_word_eqI) (auto simp: bit_simps)
  also have "drop_bit k (of_nat n :: u32) = of_nat (n div 2 ^ k)"
    using u32_field [OF n, of k 32] n unfolding f by (simp add: le_less_trans [OF div_le_dividend])
  finally show ?thesis by (simp add: push_bit_eq_mult)
qed

lemma u32_eq_iff: "n < 2 ^ 32 \<Longrightarrow> m < 2 ^ 32 \<Longrightarrow> (of_nat n :: u32) = of_nat m \<longleftrightarrow> n = m"
  by (simp add: word_unat_eq_iff unsigned_of_nat take_bit_nat_eq_self)

lemma u32_less_iff: "n < 2 ^ 32 \<Longrightarrow> m < 2 ^ 32 \<Longrightarrow> (of_nat n :: u32) < of_nat m \<longleftrightarrow> n < m"
  by (simp add: word_less_nat_alt unsigned_of_nat take_bit_nat_eq_self)

lemma masks: "(0xFFFFF800 :: u32) = NOT (mask 11)" "(0xFFFFFFFE :: u32) = NOT (mask 1)"
  by code_simp+

lemma utf8_check_value:
  assumes n: "n < 2 ^ 32"
  shows "utf8_check (of_nat n) = (if n < 128 \<or> n div 2048 = 27 \<or> n div 2 = 32767 then 0xFFFD else of_nat n)"
proof -
  have "(of_nat n :: u32) < 0x80 \<longleftrightarrow> n < 128" using u32_less_iff [OF n, of 128] by simp
  moreover have "n div 2048 * 2048 \<le> n" "n div 2 * 2 \<le> n" by simp_all
  then have "(of_nat n :: u32) AND 0xFFFFF800 = 0xD800 \<longleftrightarrow> n div 2048 = 27"
    "(of_nat n :: u32) AND 0xFFFFFFFE = 0xFFFE \<longleftrightarrow> n div 2 = 32767"
    using high_bits [OF n, of 11] high_bits [OF n, of 1] n
      u32_eq_iff [of "n div 2048 * 2048" "27 * 2048"] u32_eq_iff [of "n div 2 * 2" "32767 * 2"]
    unfolding masks by simp_all
  ultimately show ?thesis by (simp add: utf8_check_def)
qed

section \<open>Characters survive their encodings\<close>

lemma Utf8Read_lead: "192 \<le> k \<Longrightarrow> k < 256 \<Longrightarrow> sqlite3Utf8Read (of_nat k # z) =
    (case utf8_tail (sqlite3Utf8Trans1 ! (k - 192)) z of (c, z) \<Rightarrow> (utf8_check c, z))"
proof -
  assume k: "192 \<le> k" "k < 256"
  then have "0xc0 \<le> (of_nat k :: u8)" by (simp add: word_le_nat_alt unat_u8_of_nat)
  moreover from this have "unat ((of_nat k :: u8) - 0xc0) = k - 192" using k by (simp add: unat_sub unat_u8_of_nat)
  ultimately show ?thesis by simp
qed

lemma lt_0x110000: "n < 0x110000 \<Longrightarrow> n < (2 :: nat) ^ 32"
  by simp

lemma WRITE_UTF8_bytes:
  assumes n: "n < 0x110000"
  shows "WRITE_UTF8 (of_nat n) = map of_nat
    (if n < 128 then [n]
     else if n < 2048 then [192 + n div 64, 128 + n mod 64]
     else if n < 65536 then [224 + n div 4096, 128 + n div 64 mod 64, 128 + n mod 64]
     else [240 + n div 262144, 128 + n div 4096 mod 64, 128 + n div 64 mod 64, 128 + n mod 64])"
  using u32_less_iff [OF lt_0x110000 [OF n], of 128] u32_less_iff [OF lt_0x110000 [OF n], of 2048] u32_less_iff [OF lt_0x110000 [OF n], of 65536] n
  by (simp add: WRITE_UTF8_def u32_fields ucast_of_nat)

text \<open>The digits of a number to base 64.\<close>

lemma base64: "n div 64 * 64 + n mod 64 = (n :: nat)" "(n div 4096 * 64 + n div 64 mod 64) * 64 + n mod 64 = n"
  "((n div 262144 * 64 + n div 4096 mod 64) * 64 + n div 64 mod 64) * 64 + n mod 64 = n"
proof -
  have 1: "m div 64 * 64 + m mod 64 = m" for m :: nat by simp
  have e: "n div 4096 = n div 64 div 64" "n div 262144 = n div 4096 div 64" by (simp_all add: div_mult2_eq [symmetric])
  show "n div 64 * 64 + n mod 64 = n" by (rule 1)
  show 2: "(n div 4096 * 64 + n div 64 mod 64) * 64 + n mod 64 = n" unfolding e(1) 1 ..
  show "((n div 262144 * 64 + n div 4096 mod 64) * 64 + n div 64 mod 64) * 64 + n mod 64 = n" unfolding e(2) 1 2 ..
qed

lemma Utf8Read_value:
  assumes "192 \<le> k" "k < 256" "utf8_tail (sqlite3Utf8Trans1 ! (k - 192)) zs = (of_nat n, z)" "128 \<le> n" "n < 0x110000"
  shows "sqlite3Utf8Read (of_nat k # zs) = (if n div 2048 = 27 \<or> n div 2 = 32767 then 0xFFFD else of_nat n, z)"
  using Utf8Read_lead [OF assms(1,2), of zs] utf8_check_value [OF lt_0x110000 [OF assms(5)]] assms(3,4)
  by (simp del: sqlite3Utf8Read.simps)

lemma utf8_tail_mod: "utf8_tail (of_nat a) (of_nat (128 + m mod 64) # z) = utf8_tail (of_nat (a * 64 + m mod 64)) z"
  using utf8_tail_cont [of "m mod 64" "of_nat a" z] by (simp del: utf8_tail.simps)

lemma Utf8Read_WRITE:
  assumes n: "n < 0x110000" and z: "\<not> is_cont (hd0 z)"
  shows "sqlite3Utf8Read (WRITE_UTF8 (of_nat n) @ z) =
    (if n div 2048 = 27 \<or> n div 2 = 32767 then 0xFFFD else of_nat n, z)"
proof -
  note stop = utf8_tail_stop [OF z]
  consider "n < 128" | "128 \<le> n" "n < 2048" | "2048 \<le> n" "n < 65536" | "65536 \<le> n" by linarith
  then show ?thesis
  proof cases
    case 1
    then have "\<not> 0xc0 \<le> (of_nat n :: u8)" "n div 2048 = 0" "n div 2 < 32767"
      by (simp_all add: word_le_nat_alt unat_u8_of_nat)
    then show ?thesis using 1 n unfolding WRITE_UTF8_bytes [OF n] by (simp add: ucast_of_nat)
  next
    case 2
    let ?b = "n mod 64"
    have w: "WRITE_UTF8 (of_nat n) = [of_nat (192 + n div 64), of_nat (128 + ?b)]"
      unfolding WRITE_UTF8_bytes [OF n] using 2 by (simp del: of_nat_add)
    have k: "192 + n div 64 - 192 = n div 64" "n div 64 < 32" using 2 by simp_all
    have "utf8_tail (of_nat (n div 64)) (of_nat (128 + ?b) # z) = (of_nat n, z)"
      unfolding utf8_tail_mod stop base64 ..
    then show ?thesis unfolding w append.simps using n 2 k lead_bytes(1) [OF k(2)] by (intro Utf8Read_value) simp_all
  next
    case 3
    let ?b = "n div 64 mod 64" and ?c = "n mod 64"
    have w: "WRITE_UTF8 (of_nat n) = [of_nat (192 + (32 + n div 4096)), of_nat (128 + ?b), of_nat (128 + ?c)]"
      unfolding WRITE_UTF8_bytes [OF n] using 3 by (simp del: of_nat_add)
    have k: "192 + (32 + n div 4096) - 192 = 32 + n div 4096" "n div 4096 < 16" using 3 by simp_all
    have "utf8_tail (of_nat (n div 4096)) (of_nat (128 + ?b) # of_nat (128 + ?c) # z) = (of_nat n, z)"
      unfolding utf8_tail_mod stop base64 ..
    then show ?thesis unfolding w append.simps using n 3 k lead_bytes(2) [OF k(2)] by (intro Utf8Read_value) simp_all
  next
    case 4
    let ?a = "n div 4096 mod 64" and ?b = "n div 64 mod 64" and ?c = "n mod 64"
    have w: "WRITE_UTF8 (of_nat n) = [of_nat (192 + (48 + n div 262144)), of_nat (128 + ?a), of_nat (128 + ?b), of_nat (128 + ?c)]"
      unfolding WRITE_UTF8_bytes [OF n] using 4 by (simp del: of_nat_add)
    have k: "192 + (48 + n div 262144) - 192 = 48 + n div 262144" "n div 262144 < 8" using n by simp_all
    have "utf8_tail (of_nat (n div 262144)) (of_nat (128 + ?a) # of_nat (128 + ?b) # of_nat (128 + ?c) # z) = (of_nat n, z)"
      unfolding utf8_tail_mod stop base64 ..
    then show ?thesis unfolding w append.simps using n 4 k lead_bytes(3) [OF k(2)] by (intro Utf8Read_value) simp_all
  qed
qed
text \<open>The units of UTF-16, and the bytes of a unit.\<close>

definition utf16_units :: "nat \<Rightarrow> nat list" where
  "utf16_units n = (if n < 0x10000 then [n] else [0xD800 + (n - 0x10000) div 1024, 0xDC00 + n mod 1024])"

lemma u32_C0: "m < 2 ^ 32 \<Longrightarrow> drop_bit 10 (of_nat m :: u32) AND 0xC0 = of_nat (m div 65536 mod 4 * 64)"
proof -
  assume m: "m < 2 ^ 32"
  have "drop_bit 10 (of_nat m :: u32) AND 0xC0 = push_bit 6 (drop_bit 16 (of_nat m) AND mask 2)"
    by (rule bit_eq32) (simp add: bit_simps)
  also have "drop_bit 16 (of_nat m :: u32) AND mask 2 = of_nat (m div 65536 mod 4)" using u32_field [OF m, of 16 2] by simp
  finally show ?thesis by (simp add: push_bit_eq_mult)
qed

lemma u32_3C0: "m < 2 ^ 32 \<Longrightarrow> (of_nat m :: u32) AND 0x3C0 = of_nat (m div 64 mod 16 * 64)"
proof -
  assume m: "m < 2 ^ 32"
  have "(of_nat m :: u32) AND 0x3C0 = push_bit 6 (drop_bit 6 (of_nat m) AND mask 4)"
    by (rule bit_eq32) (simp add: bit_simps)
  also have "drop_bit 6 (of_nat m :: u32) AND mask 4 = of_nat (m div 64 mod 16)" using u32_field [OF m, of 6 4] by simp
  finally show ?thesis by (simp add: push_bit_eq_mult)
qed

lemma surrogate_bytes:
  fixes n :: nat
  assumes "0x10000 \<le> n" "n < 0x110000"
  defines "m \<equiv> n - 0x10000" and "h \<equiv> 0xD800 + (n - 0x10000) div 1024" and "l \<equiv> 0xDC00 + n mod 1024"
  shows "n div 1024 mod 64 + m div 65536 mod 4 * 64 = h mod 256" "0xD8 + m div 262144 mod 4 = h div 256"
    "n mod 256 = l mod 256" "0xDC + n div 256 mod 4 = l div 256" "h < 65536" "l < 65536" "55296 \<le> h" "h < 56320"
    "n mod 1024 + h mod 64 * 1024 + (h div 64 mod 16 * 64 + 64) * 1024 = n" "l mod 1024 = n mod 1024"
proof -
  define q where "q = m div 1024"
  have n: "n = q * 1024 + m mod 1024 + 65536" "m < 0x100000" using assms(1,2) unfolding q_def m_def by simp_all
  then have q: "q < 1024" by (simp add: q_def)
  have h: "h = 55296 + q" by (simp add: h_def q_def m_def)
  have nq: "n div 1024 = q + 64" "n mod 1024 = m mod 1024"
  proof -
    have nm: "n = m + 65536" using assms(1) by (simp add: m_def)
    show "n div 1024 = q + 64" "n mod 1024 = m mod 1024" unfolding nm q_def
      using div_mult_self1 [of 1024 m 64] mod_mult_self1 [of m 64 1024] by (simp_all add: add.commute)
  qed
  have e: "m div 65536 = q div 64" "m div 262144 = q div 256" unfolding q_def by (simp_all add: div_mult2_eq [symmetric])
  have split: "k mod (b * c) = b * (k div b mod c) + k mod b" for k b c :: nat by (rule mod_mult2_eq)
  have "h mod 256 = q mod (64 * 4)" unfolding h using mod_mult_self1 [of q 216 256] by (simp add: add.commute)
  moreover have "(q + 64) mod 64 = q mod 64" by simp
  ultimately show "n div 1024 mod 64 + m div 65536 mod 4 * 64 = h mod 256" unfolding nq e split by simp
  have "h div 256 = 216 + q div 256" unfolding h using div_mult_self1 [of 256 q 216] by simp
  moreover have "q div 256 < 4" using q by simp
  ultimately show "0xD8 + m div 262144 mod 4 = h div 256" unfolding e by simp
  have "l mod 256 = n mod 1024 mod 256" unfolding l_def using mod_mult_self1 [of "n mod 1024" 220 256] by (simp add: add.commute)
  then show "n mod 256 = l mod 256" using mod_mod_cancel [of 256 1024 n] by simp
  have "l div 256 = 220 + n mod (256 * 4) div 256" unfolding l_def using div_mult_self1 [of 256 "n mod 1024" 220] by simp
  then show "0xDC + n div 256 mod 4 = l div 256" unfolding split by simp
  show "h < 65536" "55296 \<le> h" "h < 56320" using q h by simp_all
  have "n mod 1024 < 1024" by simp
  then show "l < 65536" unfolding l_def by linarith
  show "l mod 1024 = n mod 1024" unfolding l_def using mod_mult_self1 [of "n mod 1024" 55 1024] by (simp add: add.commute)
  have "h mod 64 = q mod 64" unfolding h using mod_mult_self1 [of q 864 64] by (simp add: add.commute)
  moreover have "h div 64 = 864 + q div 64" unfolding h using div_mult_self1 [of 64 q 864] by simp
  moreover have "(864 + q div 64) mod 16 = q div 64" using mod_mult_self1 [of "q div 64" 54 16] q by (simp add: add.commute)
  moreover have "q mod 64 * 1024 + (q div 64 * 64 + 64) * 1024 = q * 1024 + 65536"
  proof -
    have "a * 64 + b = q \<Longrightarrow> b * 1024 + (a * 64 + 64) * 1024 = q * 1024 + 65536" for a b by simp
    then show ?thesis using div_mult_mod_eq [of q 64] by blast
  qed
  ultimately have "h mod 64 * 1024 + (h div 64 mod 16 * 64 + 64) * 1024 = q * 1024 + 65536" by simp
  then show "n mod 1024 + h mod 64 * 1024 + (h div 64 mod 16 * 64 + 64) * 1024 = n" using n(1) nq(2) by linarith
qed

lemma WRITE_UTF16_bytes:
  assumes n: "n < 0x110000"
  shows "WRITE_UTF16LE (of_nat n) = concat (map (\<lambda>u. [of_nat (u mod 256), of_nat (u div 256)]) (utf16_units n))"
    "WRITE_UTF16BE (of_nat n) = concat (map (\<lambda>u. [of_nat (u div 256), of_nat (u mod 256)]) (utf16_units n))"
proof -
  have n32: "n < 2 ^ 32" using n by simp
  have le: "(of_nat n :: u32) \<le> 0xFFFF \<longleftrightarrow> n < 0x10000"
    using n32 by (auto simp: word_le_nat_alt unsigned_of_nat take_bit_nat_eq_self)
  have "WRITE_UTF16LE (of_nat n) = concat (map (\<lambda>u. [of_nat (u mod 256), of_nat (u div 256)]) (utf16_units n))
    \<and> WRITE_UTF16BE (of_nat n) = concat (map (\<lambda>u. [of_nat (u div 256), of_nat (u mod 256)]) (utf16_units n))"
  proof (cases "n < 0x10000")
    case True
    then have "n div 256 mod 256 = n div 256" by simp
    then show ?thesis using True le unfolding WRITE_UTF16LE_def WRITE_UTF16BE_def utf16_units_def u32_fields [OF n32] ucast_of_nat
      by (simp del: of_nat_add)
  next
    case False
    define m where "m = n - 0x10000"
    have m: "(of_nat n :: u32) - 0x10000 = of_nat m" "m < 2 ^ 32" using False n by (simp_all add: m_def of_nat_diff)
    note b = surrogate_bytes [OF _ n, folded m_def]
    have "0x10000 \<le> n" using False by simp
    note b = b [OF this]
    have a: "(0xD8 :: u32) + of_nat k = of_nat (0xD8 + k)" "(0xDC :: u32) + of_nat k = of_nat (0xDC + k)" for k by simp_all
    show ?thesis using False le
      unfolding WRITE_UTF16LE_def WRITE_UTF16BE_def utf16_units_def m(1) u32_fields [OF n32] u32_fields [OF m(2)] u32_C0 [OF m(2)]
        of_nat_add [symmetric] a ucast_of_nat b m_def [symmetric]
      by (simp del: of_nat_add)
  qed
  then show "WRITE_UTF16LE (of_nat n) = concat (map (\<lambda>u. [of_nat (u mod 256), of_nat (u div 256)]) (utf16_units n))"
    "WRITE_UTF16BE (of_nat n) = concat (map (\<lambda>u. [of_nat (u div 256), of_nat (u mod 256)]) (utf16_units n))" by simp_all
qed
definition surrogate :: "nat \<Rightarrow> bool" where
  "surrogate n \<longleftrightarrow> n div 2048 = 27"

lemma surrogate_range: "surrogate n \<longleftrightarrow> 0xD800 \<le> n \<and> n < 0xE000"
  unfolding surrogate_def by auto

lemma unit_value:
  assumes "u < 65536"
  shows "(ucast (of_nat (u mod 256) :: u8) + push_bit 8 (ucast (of_nat (u div 256) :: u8)) :: u32) = of_nat u"
    "(push_bit 8 (ucast (of_nat (u div 256) :: u8)) + ucast (of_nat (u mod 256) :: u8) :: u32) = of_nat u"
proof -
  have e: "(of_nat a + of_nat b * 256 :: u32) = of_nat (a + b * 256)" for a b by simp
  have "(of_nat (u mod 256) + of_nat (u div 256) * 256 :: u32) = of_nat u" unfolding e mod_div_mult_eq ..
  moreover have "u div 256 mod 256 = u div 256" using assms by simp
  ultimately show "(ucast (of_nat (u mod 256) :: u8) + push_bit 8 (ucast (of_nat (u div 256) :: u8)) :: u32) = of_nat u"
    "(push_bit 8 (ucast (of_nat (u div 256) :: u8)) + ucast (of_nat (u mod 256) :: u8) :: u32) = of_nat u"
    by (simp_all add: ucast_of_nat push_bit_eq_mult add.commute)
qed

lemma join_pair_value:
  assumes "0x10000 \<le> n" "n < 0x110000"
  shows "join_pair (of_nat (0xD800 + (n - 0x10000) div 1024)) (of_nat (0xDC00 + n mod 1024)) = of_nat n"
proof -
  note b = surrogate_bytes [OF assms]
  let ?h = "0xD800 + (n - 0x10000) div 1024" and ?l = "0xDC00 + n mod 1024"
  have 32: "?h < 2 ^ 32" "?l < 2 ^ 32" using b(5,6) by simp_all
  have "join_pair (of_nat ?h) (of_nat ?l) = of_nat (n mod 1024 + ?h mod 64 * 1024 + (?h div 64 mod 16 * 64 + 64) * 1024)"
    unfolding join_pair_def u32_fields [OF 32(1)] u32_fields [OF 32(2)] u32_3C0 [OF 32(1)] b(10)
    by (simp add: push_bit_eq_mult algebra_simps)
  then show ?thesis unfolding b(9) .
qed

lemma READ_UTF16_WRITE:
  assumes n: "n < 0x110000" "\<not> surrogate n"
  shows "READ_UTF16LE t (WRITE_UTF16LE (of_nat n) @ z) = Some (of_nat n, z)"
    "READ_UTF16BE t (WRITE_UTF16BE (of_nat n) @ z) = Some (of_nat n, z)"
proof -
  have s: "(of_nat u :: u32) \<ge> 0xD800 \<and> (of_nat u :: u32) < 0xE000 \<longleftrightarrow> surrogate u" if "u < 65536" for u
    using that u32_less_iff [of u "0xD800"] u32_less_iff [of u "0xE000"] by (auto simp: surrogate_range not_less [symmetric])
  have "READ_UTF16LE t (WRITE_UTF16LE (of_nat n) @ z) = Some (of_nat n, z) \<and> READ_UTF16BE t (WRITE_UTF16BE (of_nat n) @ z) = Some (of_nat n, z)"
  proof (cases "n < 0x10000")
    case True
    then have "n < 65536" by simp
    note u = unit_value [OF this] s [OF this]
    show ?thesis using True n(2) u(3) unfolding WRITE_UTF16_bytes [OF n(1)] utf16_units_def
      by (auto simp: u(1,2) Let_def)
  next
    case False
    then have f: "0x10000 \<le> n" by simp
    note b = surrogate_bytes [OF f n(1)]
    note u = unit_value [OF b(5)] s [OF b(5)] unit_value [OF b(6)]
    have "surrogate (0xD800 + (n - 0x10000) div 1024)" using b(7,8) unfolding surrogate_range by linarith
    then show ?thesis using False u(3) join_pair_value [OF f n(1)] unfolding WRITE_UTF16_bytes [OF n(1)] utf16_units_def
      by (simp add: u(1,2,4,5) Let_def del: of_nat_add)
  qed
  then show "READ_UTF16LE t (WRITE_UTF16LE (of_nat n) @ z) = Some (of_nat n, z)"
    "READ_UTF16BE t (WRITE_UTF16BE (of_nat n) @ z) = Some (of_nat n, z)" by simp_all
qed

section \<open>Texts survive translation\<close>

text \<open>Characters that every encoding keeps: not a surrogate, and not \<open>U+FFFE\<close> or \<open>U+FFFF\<close>.\<close>

definition text_char :: "nat \<Rightarrow> bool" where
  "text_char n \<longleftrightarrow> n < 0x110000 \<and> \<not> surrogate n \<and> n div 2 \<noteq> 32767"

definition encode :: "nat \<Rightarrow> nat list \<Rightarrow> u8 list" where
  "encode enc cs = concat (map (\<lambda>n. writer enc (of_nat n)) cs)"

lemma encode_simps [simp]: "encode enc [] = []" "encode enc (n # cs) = writer enc (of_nat n) @ encode enc cs"
  by (simp_all add: encode_def)

lemma WRITE_UTF8_start: "n < 0x110000 \<Longrightarrow> \<not> is_cont (hd0 (WRITE_UTF8 (of_nat n) @ z)) \<and> WRITE_UTF8 (of_nat n) \<noteq> []"
proof -
  assume n: "n < 0x110000"
  have c: "\<not> is_cont (of_nat k)" if "k < 128 \<or> 192 \<le> k" "k < 256" for k
  proof -
    have "\<forall>k < (256 :: nat). k < 128 \<or> 192 \<le> k \<longrightarrow> (of_nat k :: u8) AND 0xc0 \<noteq> 0x80" by code_simp
    then show ?thesis using that unfolding is_cont_def by blast
  qed
  have "192 + n div 64 < 256 \<or> 2048 \<le> n" "224 + n div 4096 < 256 \<or> 65536 \<le> n" "240 + n div 262144 < 256" using n by auto
  then show ?thesis using n c [of n] c [of "192 + n div 64"] c [of "224 + n div 4096"] c [of "240 + n div 262144"]
    unfolding WRITE_UTF8_bytes [OF n] by (auto simp del: of_nat_add)
qed

lemma encode_start: "list_all text_char cs \<Longrightarrow> \<not> is_cont (hd0 (encode SQLITE_UTF8 cs))"
  using WRITE_UTF8_start by (cases cs) (auto simp: writer_def text_char_def, simp add: is_cont_def)

lemma READ_UTF8_eq: "z \<noteq> [] \<Longrightarrow> READ_UTF8 z = Some (sqlite3Utf8Read z)"
  by (cases z) (auto split: prod.splits)

definition enc_ok :: "nat \<Rightarrow> bool" where
  "enc_ok enc \<longleftrightarrow> enc = SQLITE_UTF8 \<or> enc = SQLITE_UTF16LE \<or> enc = SQLITE_UTF16BE"

lemmas enc_defs = SQLITE_UTF8_def SQLITE_UTF16LE_def SQLITE_UTF16BE_def

lemma translate_loop_text:
  "enc_ok enc \<Longrightarrow> list_all text_char cs \<Longrightarrow> translate_loop enc W (encode enc cs) = Some (concat (map (\<lambda>n. W (of_nat n)) cs))"
proof (induction cs)
  case Nil
  then show ?case by (simp add: translate_loop.simps)
next
  case (Cons n cs)
  then have "text_char n" and cs: "list_all text_char cs" by simp_all
  then have n: "n < 0x110000" "\<not> surrogate n" "n div 2 \<noteq> 32767" by (simp_all add: text_char_def)
  have ne: "writer enc (of_nat n) \<noteq> []"
    using WRITE_UTF8_start [OF n(1)] WRITE_UTF16_bytes [OF n(1)] by (auto simp: writer_def utf16_units_def)
  have r: "(if enc = SQLITE_UTF8 then READ_UTF8 (encode enc (n # cs))
      else if enc = SQLITE_UTF16LE then READ_UTF16LE False (encode enc (n # cs)) else READ_UTF16BE False (encode enc (n # cs)))
    = Some (of_nat n, encode enc cs)"
    using Cons.prems(1) n cs ne encode_start [OF cs] READ_UTF16_WRITE [OF n(1,2)] Utf8Read_WRITE [OF n(1) encode_start [OF cs]]
    by (auto simp: enc_ok_def writer_def enc_defs READ_UTF8_eq surrogate_def)
  then show ?case using Cons.IH [OF Cons.prems(1) cs] ne by (subst translate_loop.simps) simp
qed

lemma swap_text: "list_all text_char cs \<Longrightarrow> swap_bytes (encode SQLITE_UTF16LE cs) = encode SQLITE_UTF16BE cs"
  "list_all text_char cs \<Longrightarrow> swap_bytes (encode SQLITE_UTF16BE cs) = encode SQLITE_UTF16LE cs"
  by (induction cs) (auto simp: writer_def enc_defs text_char_def WRITE_UTF16_bytes utf16_units_def)
section \<open>The output always fits\<close>

lemma WRITE_lengths: "length (WRITE_UTF8 c) \<le> 4" "c < 0x10000 \<Longrightarrow> length (WRITE_UTF8 c) \<le> 3"
  "length (WRITE_UTF16LE c) = (if c \<le> 0xFFFF then 2 else 4)" "length (WRITE_UTF16BE c) = (if c \<le> 0xFFFF then 2 else 4)"
  by (simp_all add: WRITE_UTF8_def WRITE_UTF16LE_def WRITE_UTF16BE_def)

text \<open>A character above \<open>U+FFFF\<close> takes two bytes of UTF-8 at least, even in a malformed text.\<close>

lemma utf8_check_small: "c \<le> 0xFFFF \<Longrightarrow> utf8_check c \<le> 0xFFFF"
  by (simp add: utf8_check_def)

lemma Trans1_small: "b \<ge> 0xc0 \<Longrightarrow> sqlite3Utf8Trans1 ! unat (b - 0xc0 :: u8) \<le> 0xFFFF"
proof -
  assume "b \<ge> 0xc0"
  then have "unat (b - 0xc0) < 64" by (simp add: unat_sub word_le_nat_alt) (use u8_less_256 [of b] in linarith)
  moreover have "\<forall>i < (64 :: nat). sqlite3Utf8Trans1 ! i \<le> 0xFFFF" by code_simp
  ultimately show ?thesis by blast
qed

lemma utf8_tail_short: "length (snd (utf8_tail c z)) = length z \<Longrightarrow> fst (utf8_tail c z) = c"
proof (cases z)
  case (Cons b y)
  assume "length (snd (utf8_tail c z)) = length z"
  then show ?thesis using utf8_tail_shorter [of "push_bit 6 c + ucast (0x3f AND b)" y] Cons by auto
qed simp

lemma READ_UTF8_growth: "READ_UTF8 z = Some (c, z') \<Longrightarrow> (if c \<le> 0xFFFF then 1 else 2) + length z' \<le> length z"
proof (cases z)
  case (Cons b y)
  assume r: "READ_UTF8 z = Some (c, z')"
  show ?thesis
  proof (cases "b \<ge> 0xc0")
    case True
    let ?t = "sqlite3Utf8Trans1 ! unat (b - 0xc0)"
    have t: "c = utf8_check (fst (utf8_tail ?t y))" "z' = snd (utf8_tail ?t y)" using r True Cons by (auto split: prod.splits)
    show ?thesis
    proof (cases "length z' = length y")
      case True
      then have "c \<le> 0xFFFF" using t utf8_tail_short [of ?t y] utf8_check_small [OF Trans1_small [OF \<open>b \<ge> 0xc0\<close>]] by simp
      then show ?thesis using True Cons by simp
    next
      case False
      then show ?thesis using utf8_tail_shorter [of ?t y] t Cons by auto
    qed
  next
    case False
    moreover have "(ucast b :: u32) \<le> 0xFFFF" using u8_less_256 [of b]
      by (simp add: word_le_nat_alt unsigned_ucast_eq take_bit_nat_eq_self)
    ultimately show ?thesis using r Cons by auto
  qed
qed simp

lemma u16_small: "(ucast (b0 :: u8) + push_bit 8 (ucast (b1 :: u8)) :: u32) < 0x10000"
proof -
  have "unat (ucast b0 :: u32) < 256" "unat (ucast b1 :: u32) < 256" using u8_less_256 [of b0] u8_less_256 [of b1]
    by (simp_all add: unsigned_ucast_eq take_bit_nat_eq_self)
  then have "unat (ucast b1 * 256 :: u32) = unat (ucast b1 :: u32) * 256" "unat (ucast b0 :: u32) + unat (ucast b1 :: u32) * 256 < 65536"
    by (simp_all add: unat_word_ariths)
  then show ?thesis by (simp add: push_bit_eq_mult word_less_nat_alt unat_word_ariths)
qed

lemma READ_UTF16_growth:
  assumes "even (length z)" "z \<noteq> []"
  shows "\<exists>c z'. READ_UTF16LE False z = Some (c, z') \<and> even (length z') \<and> (if c < 0x10000 then 2 else 4) + length z' \<le> length z"
    "\<exists>c z'. READ_UTF16BE False z = Some (c, z') \<and> even (length z') \<and> (if c < 0x10000 then 2 else 4) + length z' \<le> length z"
proof -
  obtain b0 b1 y where z: "z = b0 # b1 # y" using assms by (metis even_Suc length_Cons list.size(3) neq_Nil_conv even_zero)
  then have "y = [] \<or> (\<exists>b2 b3 x. y = b2 # b3 # x)" using assms(1)
    by (metis even_Suc length_Cons list.size(3) neq_Nil_conv even_zero)
  then show "\<exists>c z'. READ_UTF16LE False z = Some (c, z') \<and> even (length z') \<and> (if c < 0x10000 then 2 else 4) + length z' \<le> length z"
    "\<exists>c z'. READ_UTF16BE False z = Some (c, z') \<and> even (length z') \<and> (if c < 0x10000 then 2 else 4) + length z' \<le> length z"
    using z assms(1) u16_small [of b0 b1] u16_small [of b1 b0] by (auto simp: Let_def add.commute)
qed

lemma translate_loop_fits:
  "enc_ok enc \<Longrightarrow> enc_ok enc' \<Longrightarrow> (enc = SQLITE_UTF8) \<noteq> (enc' = SQLITE_UTF8) \<Longrightarrow> enc = SQLITE_UTF8 \<or> even (length z) \<Longrightarrow>
    \<exists>out. translate_loop enc (writer enc') z = Some out \<and> length out \<le> length z * 2"
proof (induction enc "writer enc'" z rule: translate_loop.induct)
  case (1 enc z)
  show ?case
  proof (cases "z = []")
    case True
    then show ?thesis by (simp add: translate_loop.simps)
  next
    case False
    have "\<exists>c z'. (if enc = SQLITE_UTF8 then READ_UTF8 z else if enc = SQLITE_UTF16LE then READ_UTF16LE False z else READ_UTF16BE False z) = Some (c, z')
        \<and> (enc = SQLITE_UTF8 \<or> even (length z')) \<and> length (writer enc' c) + length z' * 2 \<le> length z * 2"
    proof (cases "enc = SQLITE_UTF8")
      case True
      obtain c z' where c: "READ_UTF8 z = Some (c, z')" using False READ_UTF8_eq [of z] by (metis surj_pair)
      have "length (writer enc' c) = (if c \<le> 0xFFFF then 2 else 4)" using True "1.prems"(3) WRITE_lengths(3,4) [of c] by (simp add: writer_def)
      then show ?thesis using True c READ_UTF8_growth [OF c] by (auto split: if_splits)
    next
      case e: False
      then have "even (length z)" "writer enc' = WRITE_UTF8" using "1.prems" by (auto simp: writer_def)
      moreover from this(1) obtain c z' where c: "(if enc = SQLITE_UTF16LE then READ_UTF16LE False z else READ_UTF16BE False z) = Some (c, z')"
          "even (length z')" "(if c < 0x10000 then 2 else 4) + length z' \<le> length z"
        using READ_UTF16_growth [OF _ False] by (cases "enc = SQLITE_UTF16LE") auto
      moreover have "length (WRITE_UTF8 c) \<le> (if c < 0x10000 then 3 else 4)" using WRITE_lengths(1,2) [of c] by simp
      ultimately show ?thesis using e by (intro exI [of _ c] exI [of _ z']) (auto split: if_splits)
    qed
    then obtain c z' where r: "(if enc = SQLITE_UTF8 then READ_UTF8 z else if enc = SQLITE_UTF16LE then READ_UTF16LE False z else READ_UTF16BE False z)
        = Some (c, z')" "enc = SQLITE_UTF8 \<or> even (length z')" "length (writer enc' c) + length z' * 2 \<le> length z * 2"
      by (elim exE conjE)
    obtain out where "translate_loop enc (writer enc') z' = Some out" "length out \<le> length z' * 2"
      using "1.hyps" [OF False r(1) refl "1.prems"(1,2,3) r(2)] by (elim exE conjE)
    then show ?thesis using False r by (subst translate_loop.simps) simp
  qed
qed

lemma even_part_even: "even (length (even_part z))" "even (length z) \<Longrightarrow> even_part z = z"
  by (simp_all add: even_part_def minus_mod_eq_mult_div)

lemma encode_even: "enc = SQLITE_UTF16LE \<or> enc = SQLITE_UTF16BE \<Longrightarrow> even (length (encode enc cs))"
  by (induction cs) (auto simp: writer_def enc_defs WRITE_lengths)

text \<open>The second case of the translation, through the loop.\<close>

lemma translate_through_loop:
  assumes e: "enc_ok (m_enc p)" "enc_ok enc" "(m_enc p = SQLITE_UTF8) \<noteq> (enc = SQLITE_UTF8)"
  defines "z \<equiv> (if enc = SQLITE_UTF8 then even_part (m_z p) else m_z p)"
  shows "\<exists>out. translate_loop (m_enc p) (writer enc) z = Some out \<and>
    sqlite3VdbeMemTranslate True p enc = Some (SQLITE_OK, \<lparr>m_z = out, m_enc = enc\<rparr>)"
proof -
  have "m_enc p = SQLITE_UTF8 \<or> even (length z)" using e(3) even_part_even(1) by (auto simp: z_def)
  then obtain out where "translate_loop (m_enc p) (writer enc) z = Some out" "length out \<le> length z * 2"
    using translate_loop_fits [OF e] by blast
  then show ?thesis using e(3) by (auto simp: sqlite3VdbeMemTranslate_def Let_def z_def)
qed

section \<open>Properties\<close>

text \<open>
  C39: Every Unicode character survives each of its encodings, read back in front of any
  following text: UTF-8 gives the character, or \<open>U+FFFD\<close> for a surrogate, \<open>U+FFFE\<close> and
  \<open>U+FFFF\<close>, and both byte orders of UTF-16 give every character but a surrogate.
\<close>

theorem utf_characters:
  assumes "n < 0x110000"
  shows "(\<not> is_cont (hd0 z) \<longrightarrow> sqlite3Utf8Read (WRITE_UTF8 (of_nat n) @ z) =
      (if 0xD800 \<le> n \<and> n < 0xE000 \<or> n = 0xFFFE \<or> n = 0xFFFF then 0xFFFD else of_nat n, z))
    \<and> (\<not> (0xD800 \<le> n \<and> n < 0xE000) \<longrightarrow> READ_UTF16LE t (WRITE_UTF16LE (of_nat n) @ z) = Some (of_nat n, z)
        \<and> READ_UTF16BE t (WRITE_UTF16BE (of_nat n) @ z) = Some (of_nat n, z))"
proof -
  have "n div 2048 = 27 \<longleftrightarrow> 0xD800 \<le> n \<and> n < 0xE000" using surrogate_range [of n] by (simp add: surrogate_def)
  moreover have "n div 2 = 32767 \<longleftrightarrow> n = 0xFFFE \<or> n = 0xFFFF" by auto
  ultimately show ?thesis using Utf8Read_WRITE [OF assms, of z] READ_UTF16_WRITE [OF assms, of t z]
    unfolding surrogate_range by simp
qed

text \<open>
  Translating a text of such characters between any two encodings gives its text in the
  other encoding, so translating back gives the text again.
\<close>

lemma translate_text:
  assumes "enc_ok enc" "enc_ok enc'" "enc \<noteq> enc'" "list_all text_char cs"
  shows "sqlite3VdbeMemTranslate True \<lparr>m_z = encode enc cs, m_enc = enc\<rparr> enc' = Some (SQLITE_OK, \<lparr>m_z = encode enc' cs, m_enc = enc'\<rparr>)"
proof (cases "(enc = SQLITE_UTF8) \<noteq> (enc' = SQLITE_UTF8)")
  case True
  have "even_part (encode enc cs) = encode enc cs" if "enc' = SQLITE_UTF8"
    using assms(1,3) that encode_even by (intro even_part_even(2)) (auto simp: enc_ok_def)
  then show ?thesis using translate_through_loop [of "\<lparr>m_z = encode enc cs, m_enc = enc\<rparr>" enc'] True assms(1,2)
      translate_loop_text [OF assms(1,4), of "writer enc'"] by (auto simp: encode_def)
next
  case False
  then show ?thesis using assms swap_text [OF assms(4)] by (auto simp: sqlite3VdbeMemTranslate_def enc_ok_def enc_defs)
qed

text \<open>
  C40: Whatever bytes the text holds, malformed or cut off, the translation reads only the
  text and its output with the terminator fits into the buffer it allocates.
\<close>

theorem translate_fits:
  assumes "enc_ok (m_enc p)" "enc_ok enc" "m_enc p \<noteq> enc"
  shows "\<exists>rc q. sqlite3VdbeMemTranslate malloc p enc = Some (rc, q) \<and> (rc = SQLITE_OK \<longleftrightarrow> malloc)"
proof (cases "malloc \<and> (m_enc p = SQLITE_UTF8) \<noteq> (enc = SQLITE_UTF8)")
  case True
  then show ?thesis using translate_through_loop [OF assms(1,2)] by auto
next
  case False
  then show ?thesis using assms by (auto simp: sqlite3VdbeMemTranslate_def Let_def SQLITE_OK_def SQLITE_NOMEM_def)
qed

theorem utf_characters_witness:
  "sqlite3Utf8Read (WRITE_UTF8 0x20AC) = (0x20AC, [])"
  using utf_characters [of "0x20AC" "[]" True] by (simp add: is_cont_def)

lemma translate_text_witness:
  "sqlite3VdbeMemTranslate True \<lparr>m_z = encode 1 [0x41, 0x20AC, 0x1F600], m_enc = 1\<rparr> 2 =
    Some (SQLITE_OK, \<lparr>m_z = encode 2 [0x41, 0x20AC, 0x1F600], m_enc = 2\<rparr>)"
  using translate_text [of 1 2 "[0x41, 0x20AC, 0x1F600]"] by (simp add: enc_ok_def enc_defs text_char_def surrogate_def)

theorem translate_fits_witness:
  "\<exists>q. sqlite3VdbeMemTranslate True \<lparr>m_z = [0xD8, 0x00, 0x41], m_enc = 3\<rparr> 1 = Some (SQLITE_OK, q)"
  using translate_fits [of "\<lparr>m_z = [0xD8, 0x00, 0x41], m_enc = 3\<rparr>" 1 True] by (auto simp: enc_ok_def enc_defs)

end
