(* ===== verification/Like.thy ===== *)
theory Like
  imports Utf
begin

text \<open>
  The \<open>LIKE\<close> and \<open>GLOB\<close> operators (\<open>Example/Pods/WCDBOptimizedSQLCipher/src/func.c\<close>):
  \<open>patternCompare\<close> and the functions around it. Strings are zero-terminated UTF-8, the lists
  of their bytes; characters are 32-bit words.
\<close>

section \<open>The comparison\<close>

record compareInfo =
  matchAll :: u8
  matchOne :: u8
  matchSet :: u8
  noCase :: bool

definition globInfo :: compareInfo where
  "globInfo = \<lparr>matchAll = 42, matchOne = 63, matchSet = 91, noCase = False\<rparr>"

definition likeInfoNorm :: compareInfo where
  "likeInfoNorm = \<lparr>matchAll = 37, matchOne = 95, matchSet = 0, noCase = True\<rparr>"

definition likeInfoAlt :: compareInfo where
  "likeInfoAlt = \<lparr>matchAll = 37, matchOne = 95, matchSet = 0, noCase = False\<rparr>"

text \<open>The macros on characters, which look at the low byte.\<close>

definition char_tolower :: "u32 \<Rightarrow> u8" where
  "char_tolower c = UpperToLower (ucast c)"

definition char_toupper :: "u32 \<Rightarrow> u32" where
  "char_toupper c = c AND NOT (ucast (ctype (ucast c) AND 0x20))"

text \<open>Behind a \<open>*\<close>: more of them, and \<open>?\<close>, each of which takes a character of the string.\<close>

lemma Utf8Read_shorter: "z \<noteq> [] \<Longrightarrow> length (snd (sqlite3Utf8Read z)) < length z"
  using utf8_tail_shorter by (cases z) (auto simp: less_Suc_eq_le split: prod.splits, metis snd_conv)

lemma Utf8Read_le: "length (snd (sqlite3Utf8Read z)) \<le> length z"
  using Utf8Read_shorter [of z] by (cases z) auto

function star_skip :: "u32 \<Rightarrow> u32 \<Rightarrow> cstring \<Rightarrow> cstring \<Rightarrow> (u32 \<times> cstring \<times> cstring) option" where
  "star_skip all one p s =
     (let c = fst (sqlite3Utf8Read p); p' = snd (sqlite3Utf8Read p)
      in if p \<noteq> [] \<and> (c = all \<or> c = one) then
           (if c = one then
              (if fst (sqlite3Utf8Read s) = 0 then None else star_skip all one p' (snd (sqlite3Utf8Read s)))
            else star_skip all one p' s)
         else Some (c, p', s))"
  by pat_completeness auto
termination
  by (relation "measure (\<lambda>(all, one, p, s). length p)") (auto intro: Utf8Read_shorter)

declare star_skip.simps [simp del]

text \<open>The three searches of the string for a place where the rest of the pattern matches.\<close>

fun search_byte :: "(cstring \<Rightarrow> bool) \<Rightarrow> u32 \<Rightarrow> u32 \<Rightarrow> cstring \<Rightarrow> bool" where
  "search_byte P c cx [] = False"
| "search_byte P c cx (b # s) =
     (if ucast b \<noteq> c \<and> ucast b \<noteq> cx then search_byte P c cx s else if P s then True else search_byte P c cx s)"

function search_char :: "(cstring \<Rightarrow> bool) \<Rightarrow> u32 \<Rightarrow> cstring \<Rightarrow> bool" where
  "search_char P c s =
     (let c2 = fst (sqlite3Utf8Read s); s' = snd (sqlite3Utf8Read s)
      in if s = [] \<or> c2 = 0 then False
         else if c2 \<noteq> c then search_char P c s'
         else if P s' then True else search_char P c s')"
  by pat_completeness auto
termination
  by (relation "measure (\<lambda>(P, c, s). length s)") (auto intro: Utf8Read_shorter)

function search_set :: "(cstring \<Rightarrow> bool) \<Rightarrow> cstring \<Rightarrow> bool" where
  "search_set P s = (if s = [] then False else if \<not> P s then search_set P (SQLITE_SKIP_UTF8 s) else True)"
  by pat_completeness auto
termination
  by (relation "measure (\<lambda>(P, s). length s)") (auto intro: SKIP_shorter)

declare search_char.simps [simp del] search_set.simps [simp del]

lemma search_byte_cong [fundef_cong]:
  "(\<And>s. P s = Q s) \<Longrightarrow> s1 = s2 \<Longrightarrow> c1 = c2 \<Longrightarrow> d1 = d2 \<Longrightarrow> search_byte P c1 d1 s1 = search_byte Q c2 d2 s2"
  by (drule ext) simp

lemma search_char_cong [fundef_cong]:
  "(\<And>s. P s = Q s) \<Longrightarrow> s1 = s2 \<Longrightarrow> c1 = c2 \<Longrightarrow> search_char P c1 s1 = search_char Q c2 s2"
  by (drule ext) simp

lemma search_set_cong [fundef_cong]:
  "(\<And>s. P s = Q s) \<Longrightarrow> s1 = s2 \<Longrightarrow> search_set P s1 = search_set Q s2"
  by (drule ext) simp

text \<open>The members of a set, against the character \<open>c\<close>: whether it was seen, and what follows.\<close>

function set_loop :: "u32 \<Rightarrow> u32 \<Rightarrow> u32 \<Rightarrow> bool \<Rightarrow> cstring \<Rightarrow> u32 \<times> bool \<times> cstring" where
  "set_loop c c2 prior_c seen p =
     (if c2 \<noteq> 0 \<and> c2 \<noteq> 93 then
        (if c2 = 45 \<and> hd0 p \<noteq> 93 \<and> hd0 p \<noteq> 0 \<and> prior_c > 0 then
           let c2 = fst (sqlite3Utf8Read p); p = snd (sqlite3Utf8Read p);
               seen = (if c \<ge> prior_c \<and> c \<le> c2 then True else seen)
           in set_loop c (fst (sqlite3Utf8Read p)) 0 seen (snd (sqlite3Utf8Read p))
         else
           let seen = (if c = c2 then True else seen)
           in set_loop c (fst (sqlite3Utf8Read p)) c2 seen (snd (sqlite3Utf8Read p)))
      else (c2, seen, p))"
  by pat_completeness auto
termination
proof (relation "measure (\<lambda>(c, c2, prior, seen, p). length p + (if c2 \<noteq> 0 then 1 else 0))", goal_cases)
  case (2 c c2 prior_c seen p c2' p' seen')
  then have "p \<noteq> []" by auto
  then have "length p' < length p" using 2 Utf8Read_shorter by blast
  then show ?case using 2 Utf8Read_le [of p'] by auto
next
  case (3 c c2 prior_c seen p seen')
  then show ?case using Utf8Read_shorter [of p] by (cases "p = []") auto
qed simp

declare set_loop.simps [simp del]

text \<open>A whole set: what follows it if the character is accepted.\<close>

definition match_set :: "u32 \<Rightarrow> cstring \<Rightarrow> cstring option" where
  "match_set c p =
     (let (c2, p) = sqlite3Utf8Read p;
          invert = (c2 = 94);
          (c2, p) = (if invert then sqlite3Utf8Read p else (c2, p));
          seen = (c2 = 93 \<and> c = 93);
          (c2, p) = (if c2 = 93 then sqlite3Utf8Read p else (c2, p));
          (c2, seen, p) = set_loop c c2 0 seen p
      in if c2 = 0 \<or> seen = invert then None else Some p)"

lemma star_skip_shorter: "star_skip all one p s = Some (c, p', s') \<Longrightarrow> c \<noteq> 0 \<Longrightarrow> length p' < length p"
proof (induction all one p s rule: star_skip.induct)
  case (1 all one p s)
  show ?case
  proof (cases "p \<noteq> [] \<and> (fst (sqlite3Utf8Read p) = all \<or> fst (sqlite3Utf8Read p) = one)")
    case True
    then have "length p' < length (snd (sqlite3Utf8Read p))"
      using 1 by (subst (asm) star_skip.simps) (auto simp: Let_def split: if_splits)
    then show ?thesis using True Utf8Read_shorter [of p] by simp
  next
    case False
    then have "c = fst (sqlite3Utf8Read p)" "p' = snd (sqlite3Utf8Read p)" using "1.prems"(1)
      by (subst (asm) star_skip.simps; simp add: Let_def split: if_splits)+
    then show ?thesis using "1.prems"(2) Utf8Read_shorter [of p] by (cases "p = []") auto
  qed
qed

lemma set_loop_le: "set_loop c c2 prior seen p = (d, b, p') \<Longrightarrow> length p' \<le> length p"
proof (induction c c2 prior seen p rule: set_loop.induct)
  case (1 c c2 prior_c seen p)
  have le: "length (snd (sqlite3Utf8Read (snd (sqlite3Utf8Read p)))) \<le> length p"
    using Utf8Read_le [of p] Utf8Read_le [of "snd (sqlite3Utf8Read p)"] by linarith
  show ?case using 1 le Utf8Read_le [of p]
    by (subst (asm) set_loop.simps) (auto simp: Let_def split: if_splits intro: le_trans)
qed

lemma match_set_le: "match_set c p = Some p' \<Longrightarrow> length p' \<le> length p"
proof -
  assume m: "match_set c p = Some p'"
  obtain c1 p1 where 1: "sqlite3Utf8Read p = (c1, p1)" by fastforce
  obtain c2 p2 where 2: "(if c1 = 94 then sqlite3Utf8Read p1 else (c1, p1)) = (c2, p2)" by fastforce
  obtain c3 p3 where 3: "(if c2 = 93 then sqlite3Utf8Read p2 else (c2, p2)) = (c3, p3)" by fastforce
  have "length p1 \<le> length p" using Utf8Read_le [of p] 1 by simp
  moreover have "length p2 \<le> length p1" using Utf8Read_le [of p1] 2 by (auto split: if_splits)
  moreover have "length p3 \<le> length p2" using Utf8Read_le [of p2] 3 by (auto split: if_splits)
  moreover obtain d b p4 where 4: "set_loop c c3 0 (c2 = 93 \<and> c = 93) p3 = (d, b, p4)" by (metis prod_cases3)
  moreover have "length p4 \<le> length p3" by (rule set_loop_le [OF 4])
  moreover have "p' = p4" using m unfolding match_set_def 1 Let_def prod.case 2 3 4 by (simp split: if_splits)
  ultimately show ?thesis by simp
qed

lemma read_twice: "p \<noteq> [] \<Longrightarrow> length (snd (sqlite3Utf8Read (snd (sqlite3Utf8Read p)))) < length p"
  using Utf8Read_shorter [of p] Utf8Read_le [of "snd (sqlite3Utf8Read p)"] by linarith

lemma star_then_shorter:
  assumes "star_skip a o1 (snd (sqlite3Utf8Read p)) s = Some (c, p2, s2)" "p \<noteq> []" "c \<noteq> 0"
  shows "Suc (length p2) < length p" "length (snd (sqlite3Utf8Read p2)) < length p"
  using star_skip_shorter [OF assms(1,3)] Utf8Read_shorter [OF assms(2)] Utf8Read_le [of p2] by linarith+

lemma set_then_shorter: "match_set c (snd (sqlite3Utf8Read p)) = Some p2 \<Longrightarrow> p \<noteq> [] \<Longrightarrow> length p2 < length p"
  using match_set_le [of c "snd (sqlite3Utf8Read p)" p2] Utf8Read_shorter [of p] by linarith

function patternCompare :: "compareInfo \<Rightarrow> u32 \<Rightarrow> cstring \<Rightarrow> cstring \<Rightarrow> bool" where
  "patternCompare info matchOther p s =
     (let c = fst (sqlite3Utf8Read p); p1 = snd (sqlite3Utf8Read p)
      in if p = [] \<or> c = 0 then s = []
         else if c = ucast (matchAll info) then
           (case star_skip (ucast (matchAll info)) (ucast (matchOne info)) p1 s of
              None \<Rightarrow> False
            | Some (c, p2, s2) \<Rightarrow>
                if c = 0 then True
                else if c = matchOther \<and> matchSet info \<noteq> 0 then
                  search_set (\<lambda>s. patternCompare info matchOther (ucast c # p2) s) s2
                else
                  let escaped = (c = matchOther);
                      c3 = (if escaped then fst (sqlite3Utf8Read p2) else c);
                      p3 = (if escaped then snd (sqlite3Utf8Read p2) else p2)
                  in if escaped \<and> c3 = 0 then False
                     else if c3 \<le> 0x80 then
                       search_byte (\<lambda>s. patternCompare info matchOther p3 s)
                         (if noCase info then ucast (char_tolower c3) else c3)
                         (if noCase info then char_toupper c3 else c3) s2
                     else search_char (\<lambda>s. patternCompare info matchOther p3 s) c3 s2)
         else if c = matchOther \<and> matchSet info \<noteq> 0 then
           (if fst (sqlite3Utf8Read s) = 0 then False
            else case match_set (fst (sqlite3Utf8Read s)) p1 of
                None \<Rightarrow> False
              | Some p2 \<Rightarrow> patternCompare info matchOther p2 (snd (sqlite3Utf8Read s)))
         else
           let escaped = (c = matchOther);
               c3 = (if escaped then fst (sqlite3Utf8Read p1) else c);
               p2 = (if escaped then snd (sqlite3Utf8Read p1) else p1);
               c2 = fst (sqlite3Utf8Read s); s' = snd (sqlite3Utf8Read s)
           in if escaped \<and> c3 = 0 then False
              else if c3 = c2 then patternCompare info matchOther p2 s'
              else if noCase info \<and> char_tolower c3 = char_tolower c2 \<and> c3 < 0x80 \<and> c2 < 0x80
                then patternCompare info matchOther p2 s'
              else if c3 = ucast (matchOne info) \<and> \<not> escaped \<and> c2 \<noteq> 0 then patternCompare info matchOther p2 s'
              else False)"
  by pat_completeness auto
termination
  by (relation "measure (\<lambda>(info, m, p, s). length p)")
    (auto simp: Utf8Read_shorter read_twice set_then_shorter dest: star_then_shorter)

declare patternCompare.simps [simp del]

section \<open>The functions around it\<close>

definition sqlite3_strglob :: "cstring \<Rightarrow> cstring \<Rightarrow> bool" where
  "sqlite3_strglob zGlobPattern zString = (\<not> patternCompare globInfo 91 zGlobPattern zString)"

definition sqlite3_strlike :: "cstring \<Rightarrow> cstring \<Rightarrow> u32 \<Rightarrow> bool" where
  "sqlite3_strlike zPattern zStr esc = (\<not> patternCompare likeInfoNorm esc zPattern zStr)"

text \<open>
  An argument of the SQL function is a blob or not, and its text, if it is not \<open>NULL\<close>; the
  result is a truth value, an error, or \<open>NULL\<close>.
\<close>

record like_arg =
  is_blob :: bool
  arg_text :: "cstring option"

datatype like_result = Result_int bool | Result_error string | Result_null

definition likeFunc :: "nat \<Rightarrow> compareInfo \<Rightarrow> like_arg \<Rightarrow> like_arg \<Rightarrow> like_arg option \<Rightarrow> like_result" where
  "likeFunc limit info a0 a1 esc =
     (if is_blob a0 \<or> is_blob a1 then Result_int False
      else
        let zB = arg_text a0; zA = arg_text a1;
            nPat = (case zB of None \<Rightarrow> 0 | Some z \<Rightarrow> length z);
            compare = (\<lambda>escape. case (zA, zB) of
              (Some zA, Some zB) \<Rightarrow> Result_int (patternCompare info escape zB zA) | _ \<Rightarrow> Result_null)
        in if nPat > limit then Result_error ''LIKE or GLOB pattern too complex''
           else case esc of
             None \<Rightarrow> compare (ucast (matchSet info))
           | Some e \<Rightarrow>
               (case arg_text e of
                  None \<Rightarrow> Result_null
                | Some zEsc \<Rightarrow>
                    if sqlite3Utf8CharLen zEsc (-1) \<noteq> 1
                    then Result_error ''ESCAPE expression must be a single character''
                    else compare (fst (sqlite3Utf8Read zEsc))))"

end
