(* ===== verification/Patterns.thy ===== *)
theory Patterns
  imports Like
begin

text \<open>
  What \<open>patternCompare\<close> (\<open>Like\<close>) decides: a pattern is parsed to a list of tokens, the
  tokens are matched against the characters of the string, and the comparison agrees with
  that on valid patterns. Its two departures from it are stated at the end.
\<close>

section \<open>Patterns\<close>

text \<open>The characters of a string.\<close>

function chars :: "cstring \<Rightarrow> u32 list" where
  "chars z = (if z = [] then [] else fst (sqlite3Utf8Read z) # chars (snd (sqlite3Utf8Read z)))"
  by pat_completeness auto
termination
  by (relation "measure length") (auto intro: Utf8Read_shorter)

declare chars.simps [simp del]

lemma chars_Nil [simp]: "chars [] = []"
  by (simp add: chars.simps)

text \<open>A pattern is a sequence of these; \<open>Never\<close> is an escape or a set that is not finished.\<close>

datatype token = All | One | Lit u32 | Chars bool "(u32 \<times> u32) list" | Never

text \<open>The members of a set up to the closing bracket, as ranges, and what follows it.\<close>

fun set_items :: "u32 \<Rightarrow> u32 list \<Rightarrow> ((u32 \<times> u32) list \<times> u32 list) option" where
  "set_items prior [] = None"
| "set_items prior (c # cs) =
     (if c = 93 then Some ([], cs)
      else if c = 45 \<and> prior \<noteq> 0 \<and> cs \<noteq> [] \<and> hd cs \<noteq> 93 then
        map_option (\<lambda>(rs, rest). ((prior, hd cs) # rs, rest)) (set_items 0 (tl cs))
      else map_option (\<lambda>(rs, rest). ((c, c) # rs, rest)) (set_items c cs))"

definition parse_set :: "u32 list \<Rightarrow> (bool \<times> (u32 \<times> u32) list \<times> u32 list) option" where
  "parse_set cs =
     (let invert = (cs \<noteq> [] \<and> hd cs = 94);
          cs = (if invert then tl cs else cs);
          first = (cs \<noteq> [] \<and> hd cs = 93)
      in map_option (\<lambda>(rs, cs). (invert, (if first then (93, 93) # rs else rs), cs))
           (set_items 0 (if first then tl cs else cs)))"

lemma set_items_shorter: "set_items prior cs = Some (rs, cs') \<Longrightarrow> length cs' < length cs"
proof (induction prior cs arbitrary: rs rule: set_items.induct)
  case (2 prior c cs)
  show ?case
  proof (cases "c = 45 \<and> prior \<noteq> 0 \<and> cs \<noteq> [] \<and> hd cs \<noteq> 93")
    case True
    then obtain rs' where "set_items 0 (tl cs) = Some (rs', cs')" using "2.prems" by auto
    then have "length cs' < length (tl cs)" using "2.IH"(1) True by simp
    then show ?thesis by simp
  next
    case False
    show ?thesis
    proof (cases "c = 93")
      case not93: False
      then obtain rs' where "set_items c cs = Some (rs', cs')" using "2.prems" False by auto
      then show ?thesis using "2.IH"(2) False not93 by fastforce
    qed (use "2.prems" in simp)
  qed
qed simp

lemma parse_set_shorter: "parse_set cs = Some (b, rs, cs') \<Longrightarrow> length cs' < length cs"
  by (auto simp: parse_set_def Let_def split: if_splits dest!: set_items_shorter)

function parse :: "compareInfo \<Rightarrow> u32 \<Rightarrow> u32 list \<Rightarrow> token list" where
  "parse info esc [] = []"
| "parse info esc (c # cs) =
     (if c = ucast (matchAll info) then All # parse info esc cs
      else if c = esc \<and> matchSet info \<noteq> 0 then
        (case parse_set cs of None \<Rightarrow> [Never] | Some (b, rs, cs) \<Rightarrow> Chars b rs # parse info esc cs)
      else if c = esc then (if cs = [] then [Never] else Lit (hd cs) # parse info esc (tl cs))
      else if c = ucast (matchOne info) then One # parse info esc cs
      else Lit c # parse info esc cs)"
  by pat_completeness auto
termination
  by (relation "measure (\<lambda>(info, esc, cs). length cs)") (auto dest: parse_set_shorter)

text \<open>Without case, ASCII letters are folded.\<close>

definition same_char :: "compareInfo \<Rightarrow> u32 \<Rightarrow> u32 \<Rightarrow> bool" where
  "same_char info c d \<longleftrightarrow> c = d \<or> noCase info \<and> c < 0x80 \<and> d < 0x80 \<and> char_tolower c = char_tolower d"

definition in_ranges :: "u32 \<Rightarrow> (u32 \<times> u32) list \<Rightarrow> bool" where
  "in_ranges c rs \<longleftrightarrow> list_ex (\<lambda>(a, b). a \<le> c \<and> c \<le> b) rs"

fun matches :: "compareInfo \<Rightarrow> token list \<Rightarrow> u32 list \<Rightarrow> bool" where
  "matches info [] s = (s = [])"
| "matches info (All # ts) [] = matches info ts []"
| "matches info (All # ts) (d # s) = (matches info ts (d # s) \<or> matches info (All # ts) s)"
| "matches info (One # ts) s = (case s of [] \<Rightarrow> False | d # s \<Rightarrow> matches info ts s)"
| "matches info (Lit c # ts) s = (case s of [] \<Rightarrow> False | d # s \<Rightarrow> same_char info c d \<and> matches info ts s)"
| "matches info (Chars b rs # ts) s = (case s of [] \<Rightarrow> False | d # s \<Rightarrow> in_ranges d rs \<noteq> b \<and> matches info ts s)"
| "matches info (Never # ts) s = False"

section \<open>Reading\<close>

lemma utf8_check_0: "utf8_check c \<noteq> 0" "\<not> utf8_check c < 0x80"
  by (auto simp: utf8_check_def)

lemma ucast_0: "(ucast (b :: u8) :: u32) = 0 \<longleftrightarrow> b = 0"
  using u8_less_256 [of b] by (simp add: word_unat_eq_iff unsigned_ucast_eq take_bit_nat_eq_self)

lemma Utf8Read_nonzero: "proper z \<Longrightarrow> z \<noteq> [] \<Longrightarrow> fst (sqlite3Utf8Read z) \<noteq> 0"
  by (cases z) (auto simp: utf8_check_0 ucast_0 split: prod.splits)

lemma proper_suffix: "proper (xs @ ys) \<Longrightarrow> proper ys"
  by (induction xs) auto

lemma utf8_tail_dropWhile: "snd (utf8_tail c z) = dropWhile is_cont z"
  by (induction z arbitrary: c) (auto simp: is_cont_def)

lemma SKIP_read: "SQLITE_SKIP_UTF8 z = snd (sqlite3Utf8Read z)"
  using utf8_tail_dropWhile by (cases z) (auto split: prod.splits, metis snd_conv)

lemma proper_dropWhile: "proper z \<Longrightarrow> proper (dropWhile P z)"
  by (induction z) auto

lemma proper_read: "proper z \<Longrightarrow> proper (snd (sqlite3Utf8Read z))"
  unfolding SKIP_read [symmetric] by (cases z) (auto simp: proper_dropWhile)

lemma chars_read: "z \<noteq> [] \<Longrightarrow> chars z = fst (sqlite3Utf8Read z) # chars (snd (sqlite3Utf8Read z))"
  by (subst chars.simps) simp

lemma chars_eq_Nil [simp]: "chars z = [] \<longleftrightarrow> z = []"
  by (subst chars.simps) simp

lemma read_0: "proper z \<Longrightarrow> fst (sqlite3Utf8Read z) = 0 \<longleftrightarrow> z = []"
  using Utf8Read_nonzero [of z] by auto

lemma chars_Cons_ascii: "b < 0x80 \<Longrightarrow> chars (b # z) = ucast b # chars z"
  by (subst chars_read) (auto simp: word_less_nat_alt word_le_nat_alt)

lemma unat_u8_u32: "unat (ucast (w :: u8) :: u32) = unat w"
  using u8_less_256 [of w] by (simp add: unsigned_ucast_eq take_bit_nat_eq_self)

lemma is_cont_high: "is_cont b \<Longrightarrow> \<not> b < 0x80"
proof
  assume c: "is_cont b" and b: "b < 0x80"
  have "list_all (\<lambda>k. (of_nat k :: u8) AND 0xc0 \<noteq> 0x80) [0..<128]" by code_simp
  moreover have "unat b \<in> set [0..<128]" using b by (simp add: word_less_nat_alt)
  ultimately have "(of_nat (unat b) :: u8) AND 0xc0 \<noteq> 0x80" unfolding list_all_iff by blast
  then show False using c by (simp add: is_cont_def)
qed

lemma chars_high: "\<not> b < 0x80 \<Longrightarrow> \<exists>d. \<not> d < 0x80 \<and> chars (b # z) = d # chars (SQLITE_SKIP_UTF8 (b # z))"
proof -
  assume b: "\<not> b < 0x80"
  have "\<not> (ucast b :: u32) < 0x80" using b by (simp add: word_less_nat_alt unat_u8_u32)
  then have "\<not> fst (sqlite3Utf8Read (b # z)) < 0x80" by (auto simp: utf8_check_0 split: prod.splits)
  then show ?thesis unfolding SKIP_read by (subst chars_read) auto
qed

section \<open>Searching\<close>

lemma ascii_byte: "(c :: u32) < 0x80 \<Longrightarrow> \<exists>b :: u8. b < 0x80 \<and> c = ucast b"
proof -
  assume c: "c < 0x80"
  then have "unat c < 256" by (simp add: word_less_nat_alt)
  then have u: "unat (ucast c :: u8) = unat c" by (simp add: unsigned_ucast_eq take_bit_nat_eq_self)
  then have "ucast (ucast c :: u8) = c" by (simp only: word_unat_eq_iff unat_u8_u32)
  moreover have "(ucast c :: u8) < 0x80" using c u
    by (simp add: word_less_nat_alt)
  ultimately show ?thesis by metis
qed

lemma Toupper_eq: "sqlite3Toupper b = (if 97 \<le> b \<and> b \<le> 122 then b - 32 else b)"
proof -
  have "sqlite3Toupper b = (if 97 \<le> b \<and> b \<le> 122 then b AND NOT 0x20 else b)"
    by (auto simp: sqlite3Toupper_def ctype_eq word_less_nat_alt word_le_nat_alt)
  moreover have "b AND NOT 0x20 = b - 32" if "97 \<le> b" "b \<le> 122"
  proof -
    have "unat b \<in> set [97..<123]" using that unfolding set_upt by (simp add: word_le_nat_alt)
    moreover have "list_all (\<lambda>k. (of_nat k :: u8) AND NOT 0x20 = of_nat k - 32) [97..<123]" by code_simp
    ultimately have "(of_nat (unat b) :: u8) AND NOT 0x20 = of_nat (unat b) - 32"
      unfolding list_all_iff by blast
    then show ?thesis by simp
  qed
  ultimately show ?thesis by simp
qed

lemma upper_lower: "(b = UpperToLower c \<or> b = sqlite3Toupper c) \<longleftrightarrow> UpperToLower c = UpperToLower b"
proof -
  have "unat b < 256" "unat c < 256" by (rule u8_less_256)+
  then show ?thesis unfolding Toupper_eq UpperToLower_eq
    by (simp add: word_le_nat_alt word_unat_eq_iff unat_word_ariths unat_sub_if_size word_size split: if_split) presburger
qed

lemma ucast_up_down: "(ucast (ucast (b :: u8) :: u32) :: u8) = b"
  by (rule bit_word_eqI) (simp add: bit_simps)

lemma char_toupper_ucast: "char_toupper (ucast b) = ucast (sqlite3Toupper b)"
proof -
  have "bit b n \<Longrightarrow> n < 8" for n using bit_imp_le_length [of b n] by simp
  then show ?thesis unfolding char_toupper_def sqlite3Toupper_def ucast_up_down
    by (intro bit_word_eqI) (auto simp: bit_simps)
qed

lemma char_tolower_ucast: "char_tolower (ucast b) = UpperToLower b"
  by (simp add: char_tolower_def ucast_up_down)

lemma ucast_u8_inj: "(ucast (a :: u8) :: u32) = ucast b \<longleftrightarrow> a = b"
  by (simp only: word_unat_eq_iff unat_u8_u32)

lemma ucast_u8_ascii: "(ucast (a :: u8) :: u32) < 0x80 \<longleftrightarrow> a < 0x80"
  by (simp add: word_less_nat_alt unat_u8_u32)

lemma char_cases:
  assumes "c < 0x80"
  shows "(ucast (b :: u8) = (ucast (char_tolower c) :: u32) \<or> ucast b = char_toupper c)
    \<longleftrightarrow> char_tolower c = char_tolower (ucast b)"
proof -
  obtain x :: u8 where x: "c = ucast x" using ascii_byte [OF assms] by blast
  show ?thesis unfolding x char_toupper_ucast char_tolower_ucast ucast_u8_inj upper_lower ..
qed

lemma char_cases_ascii: "c < 0x80 \<Longrightarrow> char_toupper c < 0x80" "c < 0x80 \<Longrightarrow> (ucast (char_tolower c) :: u32) < 0x80"
proof -
  assume "c < 0x80"
  then obtain x :: u8 where x: "x < 0x80" "c = ucast x" using ascii_byte by blast
  show "char_toupper c < 0x80" "(ucast (char_tolower c) :: u32) < 0x80"
    using x(1) unfolding x(2) char_toupper_ucast char_tolower_ucast ucast_u8_ascii Toupper_eq UpperToLower_eq
    by (auto simp: word_less_nat_alt word_le_nat_alt unat_word_ariths unat_sub_if_size)
qed

lemma search_byte_miss: "c < 0x80 \<Longrightarrow> d < 0x80 \<Longrightarrow> \<not> b < 0x80 \<Longrightarrow> search_byte P c d (b # s) = search_byte P c d s"
  using ucast_u8_ascii [of b] by auto

lemma search_byte_conts:
  "c < 0x80 \<Longrightarrow> d < 0x80 \<Longrightarrow> search_byte P c d (dropWhile is_cont s) = search_byte P c d s"
proof (induction s)
  case (Cons b s)
  have "is_cont b \<Longrightarrow> \<not> b < 0x80" by (rule is_cont_high)
  then show ?case using Cons search_byte_miss [of c d b P s] by (simp del: search_byte.simps)
qed simp

lemma search_byte_matches:
  assumes "\<And>b. b < 0x80 \<Longrightarrow> ucast b = c \<or> ucast b = cx \<longleftrightarrow> same_char info l (ucast (b :: u8))"
    "c < 0x80" "cx < 0x80" "l < 0x80"
    "\<And>s. proper s \<Longrightarrow> P s \<longleftrightarrow> matches info ts (chars s)"
  shows "proper s \<Longrightarrow> search_byte P c cx s \<longleftrightarrow> matches info (All # Lit l # ts) (chars s)"
proof (induction s rule: measure_induct_rule [of length])
  case (less s)
  show ?case
  proof (cases s)
    case (Cons b z)
    show ?thesis
    proof (cases "b < 0x80")
      case True
      then show ?thesis using less assms(1) [of b] assms(5) [of z] by (auto simp: Cons chars_Cons_ascii)
    next
      case False
      then obtain d where d: "\<not> d < 0x80" "chars s = d # chars (SQLITE_SKIP_UTF8 s)"
        using chars_high [of b z] Cons by auto
      moreover have "\<not> same_char info l d" using d assms(4) by (auto simp: same_char_def)
      moreover have "search_byte P c cx (SQLITE_SKIP_UTF8 s) = matches info (All # Lit l # ts) (chars (SQLITE_SKIP_UTF8 s))"
        using less proper_read [of s] SKIP_shorter [of s] Cons unfolding SKIP_read [symmetric] by simp
      moreover have "search_byte P c cx s = search_byte P c cx (SQLITE_SKIP_UTF8 s)"
        using search_byte_miss [OF assms(2,3) False, of P z] search_byte_conts [OF assms(2,3), of P z]
        by (simp add: Cons del: search_byte.simps)
      ultimately show ?thesis by simp
    qed
  qed simp
qed

lemma search_char_matches:
  assumes "\<And>d. same_char info c d \<longleftrightarrow> c = d" "\<And>s. proper s \<Longrightarrow> P s \<longleftrightarrow> matches info ts (chars s)"
  shows "proper s \<Longrightarrow> search_char P c s \<longleftrightarrow> matches info (All # Lit c # ts) (chars s)"
proof (induction s rule: measure_induct_rule [of length])
  case (less s)
  show ?case
  proof (cases "s = []")
    case True
    then show ?thesis by (subst search_char.simps) simp
  next
    case False
    define d z where d: "d = fst (sqlite3Utf8Read s)" and z: "z = snd (sqlite3Utf8Read s)"
    have "search_char P c z \<longleftrightarrow> matches info (All # Lit c # ts) (chars z)"
      unfolding z using less False by (simp add: Utf8Read_shorter proper_read)
    moreover have "P z \<longleftrightarrow> matches info ts (chars z)" unfolding z by (rule assms(2) [OF proper_read [OF less.prems]])
    moreover have "chars s = d # chars z" unfolding d z by (rule chars_read [OF False])
    moreover have "search_char P c s = (if d \<noteq> c then search_char P c z else P z \<or> search_char P c z)"
      using False Utf8Read_nonzero [OF less.prems False] unfolding d z by (subst search_char.simps) (simp add: Let_def)
    ultimately show ?thesis using assms(1) [of d] by auto
  qed
qed

lemma search_set_matches:
  assumes "\<And>s. proper s \<Longrightarrow> P s \<longleftrightarrow> matches info ts (chars s)" "\<not> matches info ts []"
  shows "proper s \<Longrightarrow> search_set P s \<longleftrightarrow> matches info (All # ts) (chars s)"
proof (induction s rule: measure_induct_rule [of length])
  case (less s)
  show ?case
  proof (cases "s = []")
    case True
    then show ?thesis using assms(2) by (subst search_set.simps) simp
  next
    case False
    define z where z: "z = SQLITE_SKIP_UTF8 s"
    have "search_set P z \<longleftrightarrow> matches info (All # ts) (chars z)"
      unfolding z SKIP_read using less False by (simp add: Utf8Read_shorter proper_read)
    moreover have "search_set P s = (P s \<or> search_set P z)"
      using False unfolding z by (subst search_set.simps) simp
    moreover have "chars s = fst (sqlite3Utf8Read s) # chars z" unfolding z SKIP_read by (rule chars_read [OF False])
    ultimately show ?thesis using assms(1) [OF less.prems] by auto
  qed
qed

section \<open>Sets\<close>

lemma hd0_93: "proper p \<Longrightarrow> p \<noteq> [] \<Longrightarrow> hd0 p = 93 \<longleftrightarrow> fst (sqlite3Utf8Read p) = 93"
proof (cases p)
  case (Cons b z)
  have "b \<ge> 0xc0 \<Longrightarrow> b \<noteq> 93" by auto
  moreover have "utf8_check c \<noteq> 93" for c using utf8_check_0 [of c] by auto
  ultimately show ?thesis using ucast_u8_inj [of b 93] Cons by (auto split: prod.splits)
qed simp

lemma hd0_0: "proper p \<Longrightarrow> hd0 p = 0 \<longleftrightarrow> p = []"
  by (cases p) auto

lemma read_chars: "proper p \<Longrightarrow>
    (if fst (sqlite3Utf8Read p) = 0 then [] else fst (sqlite3Utf8Read p) # chars (snd (sqlite3Utf8Read p))) = chars p"
  by (auto simp: read_0 chars_read)

lemma in_ranges_Cons: "in_ranges c ((a, b) # rs) \<longleftrightarrow> a \<le> c \<and> c \<le> b \<or> in_ranges c rs"
  by (simp add: in_ranges_def)

lemma read_0_Nil: "proper p \<Longrightarrow> fst (sqlite3Utf8Read p) = 0 \<Longrightarrow> snd (sqlite3Utf8Read p) = []"
  by (simp add: read_0)

lemma range_cond: "proper p \<Longrightarrow>
    c2 = 45 \<and> hd0 p \<noteq> 93 \<and> hd0 p \<noteq> 0 \<and> prior > 0 \<longleftrightarrow>
    c2 = 45 \<and> prior \<noteq> 0 \<and> chars p \<noteq> [] \<and> hd (chars p) \<noteq> 93" for prior :: u32
  using hd0_93 [of p] by (cases "p = []") (auto simp: hd0_0 chars_read word_greater_zero_iff)

lemma set_loop_items:
  assumes "proper p" "c2 = 0 \<Longrightarrow> p = []"
  shows "case set_items prior (if c2 = 0 then [] else c2 # chars p) of
      None \<Rightarrow> fst (set_loop c c2 prior seen p) = 0
    | Some (rs, cs) \<Rightarrow> \<exists>p'. set_loop c c2 prior seen p = (93, seen \<or> in_ranges c rs, p') \<and> proper p' \<and> chars p' = cs"
  using assms
proof (induction c c2 prior seen p rule: set_loop.induct)
  case (1 c c2 prior seen p)
  define p1 where p1: "p1 = snd (sqlite3Utf8Read p)"
  have p: "proper p" "proper p1" by (simp_all add: 1(3) proper_read p1)
  consider "c2 = 0" | "c2 = 93" | (item) "c2 \<noteq> 0" "c2 \<noteq> 93" by blast
  then show ?case
  proof cases
    case item
    show ?thesis
    proof (cases "c2 = 45 \<and> hd0 p \<noteq> 93 \<and> hd0 p \<noteq> 0 \<and> prior > 0")
      case True
      define d where d: "d = fst (sqlite3Utf8Read p)"
      define seen' where s: "seen' = (if c \<ge> prior \<and> c \<le> d then True else seen)"
      have items: "set_items prior (c2 # chars p) = map_option (\<lambda>(rs, cs). ((prior, d) # rs, cs)) (set_items 0 (chars p1))"
        using True range_cond [OF p(1), of c2 prior] chars_read [of p] item unfolding d p1 by auto
      have loop: "set_loop c c2 prior seen p = set_loop c (fst (sqlite3Utf8Read p1)) 0 seen' (snd (sqlite3Utf8Read p1))"
        using True item unfolding s d p1 by (subst set_loop.simps) (simp add: Let_def)
      note IH = "1.IH"(1) [OF conjI [OF item] True refl refl refl, folded p1 d, folded s,
        OF proper_read [OF p(2)] read_0_Nil [OF p(2)], unfolded read_chars [OF p(2)]]
      show ?thesis using IH unfolding loop if_not_P [OF item(1)] items s
        by (cases "set_items 0 (chars p1)") (auto simp: in_ranges_Cons split: if_splits)
    next
      case False
      define seen' where s: "seen' = (if c = c2 then True else seen)"
      have items: "set_items prior (c2 # chars p) = map_option (\<lambda>(rs, cs). ((c2, c2) # rs, cs)) (set_items c2 (chars p))"
        using False range_cond [OF p(1), of c2 prior] item by auto
      have loop: "set_loop c c2 prior seen p = set_loop c (fst (sqlite3Utf8Read p)) c2 seen' (snd (sqlite3Utf8Read p))"
        unfolding s by (subst set_loop.simps) (simp only: Let_def if_not_P [OF False] if_P item not_False_eq_True simp_thms)
      note IH = "1.IH"(2) [OF conjI [OF item] False refl, folded s,
        OF proper_read [OF p(1)] read_0_Nil [OF p(1)], unfolded read_chars [OF p(1)]]
      show ?thesis using IH unfolding loop if_not_P [OF item(1)] items s
        by (cases "set_items c2 (chars p)") (auto simp: in_ranges_Cons split: if_splits)
    qed
  qed (use p in \<open>subst set_loop.simps; simp add: in_ranges_def\<close>)+
qed

lemma match_set_parse:
  assumes "proper p"
  shows "case parse_set (chars p) of None \<Rightarrow> match_set c p = None
    | Some (b, rs, cs) \<Rightarrow> if in_ranges c rs = b then match_set c p = None
        else \<exists>p'. match_set c p = Some p' \<and> proper p' \<and> chars p' = cs"
proof -
  define skip where skip: "skip k q = (if fst (sqlite3Utf8Read q) = k then snd (sqlite3Utf8Read q) else q)" for k q
  have s: "proper q \<Longrightarrow> proper (skip k q)" for k q by (simp add: skip proper_read)
  have c: "proper q \<Longrightarrow> k \<noteq> 0 \<Longrightarrow> chars (skip k q) = (if chars q \<noteq> [] \<and> hd (chars q) = k then tl (chars q) else chars q)" for k q
    using chars_read [of q] by (cases "q = []") (auto simp: skip)
  have r: "sqlite3Utf8Read q = (a, b) \<Longrightarrow> (if a = k then sqlite3Utf8Read b else (a, b)) = sqlite3Utf8Read (skip k q)" for k q a b
    by (simp add: skip)
  define p1 where p1: "p1 = skip 94 p"
  define p2 where p2: "p2 = skip 93 p1"
  have p: "proper p1" "proper p2" by (simp_all add: p1 p2 s assms)
  define inv first where f: "inv = (fst (sqlite3Utf8Read p) = 94)" "first = (fst (sqlite3Utf8Read p1) = 93)"
  define l where l: "l = set_loop c (fst (sqlite3Utf8Read p2)) 0 (first \<and> c = 93) (snd (sqlite3Utf8Read p2))"
  have "match_set c p = (case l of (d, seen, p3) \<Rightarrow> if d = 0 \<or> seen = inv then None else Some p3)"
  proof -
    obtain c1 q1 where 1: "sqlite3Utf8Read p = (c1, q1)" by fastforce
    have 2: "(if c1 = 94 then sqlite3Utf8Read q1 else (c1, q1)) = sqlite3Utf8Read p1" unfolding p1 by (rule r [OF 1])
    obtain c2 q2 where 3: "sqlite3Utf8Read p1 = (c2, q2)" by fastforce
    have 4: "(if c2 = 93 then sqlite3Utf8Read q2 else (c2, q2)) = sqlite3Utf8Read p2" unfolding p2 by (rule r [OF 3])
    show ?thesis unfolding match_set_def 1 Let_def prod.case 2 3 4 by (simp add: l f 1 3 split: prod.splits)
  qed
  note m = this
  have ps: "parse_set (chars p) = map_option (\<lambda>(rs, cs). (inv, (if first then (93, 93) # rs else rs), cs)) (set_items 0 (chars p2))"
  proof -
    have "inv = (chars p \<noteq> [] \<and> hd (chars p) = 94)" "first = (chars p1 \<noteq> [] \<and> hd (chars p1) = 93)"
      using chars_read [of p] chars_read [of p1] unfolding f by (cases "p = []"; cases "p1 = []"; simp)+
    then show ?thesis unfolding parse_set_def Let_def p2 using c [OF assms, of 94] c [OF p(1), of 93] by (simp add: p1)
  qed
  have "case set_items 0 (chars p2) of None \<Rightarrow> fst l = 0
    | Some (rs, cs) \<Rightarrow> \<exists>p'. l = (93, first \<and> c = 93 \<or> in_ranges c rs, p') \<and> proper p' \<and> chars p' = cs"
    using set_loop_items [where ?c2.0 = "fst (sqlite3Utf8Read p2)", OF proper_read [OF p(2)] read_0_Nil [OF p(2)]]
    unfolding l read_chars [OF p(2)] by blast
  then show ?thesis unfolding m ps by (auto simp: in_ranges_Cons split: option.splits prod.splits if_splits)
qed

section \<open>The comparison is the matching\<close>

text \<open>
  What the callers pass: the wildcards are different ASCII characters, sets begin with
  \<open>[\<close> if there are any, and the escape character is not the single wildcard.
\<close>

definition like_info :: "compareInfo \<Rightarrow> u32 \<Rightarrow> bool" where
  "like_info info esc \<longleftrightarrow>
     matchAll info \<noteq> 0 \<and> matchAll info < 0x80 \<and> matchOne info \<noteq> 0 \<and> matchOne info < 0x80 \<and>
     matchAll info \<noteq> matchOne info \<and> esc \<noteq> ucast (matchOne info) \<and>
     (matchSet info \<noteq> 0 \<longrightarrow> matchSet info = 91 \<and> esc = 91)"

lemma All_All: "matches info (All # All # ts) s \<longleftrightarrow> matches info (All # ts) s"
  by (induction s) auto

lemma All_One: "matches info (All # One # ts) (d # s) \<longleftrightarrow> matches info (All # ts) s"
  by (induction s arbitrary: d) auto

lemma All_end: "matches info [All] s"
  by (induction s) auto

lemma parse_All: "c = ucast (matchAll info) \<Longrightarrow> parse info esc (c # cs) = All # parse info esc cs"
  by simp

lemma parse_One: "like_info info esc \<Longrightarrow> c = ucast (matchOne info) \<Longrightarrow> parse info esc (c # cs) = One # parse info esc cs"
  by (auto simp: like_info_def ucast_u8_inj)

lemma star_skip_matches:
  assumes "like_info info esc" "proper p" "proper s" "a = ucast (matchAll info)" "o1 = ucast (matchOne info)"
  shows "case star_skip a o1 p s of
      None \<Rightarrow> \<not> matches info (All # parse info esc (chars p)) (chars s)
    | Some (c, p', s') \<Rightarrow> proper p' \<and> proper s' \<and> (c = 0 \<longrightarrow> p' = []) \<and> (c \<noteq> 0 \<longrightarrow> c \<noteq> a \<and> c \<noteq> o1) \<and>
        set (if c = 0 then [] else c # chars p') \<subseteq> set (chars p) \<and>
        (matches info (All # parse info esc (chars p)) (chars s) \<longleftrightarrow>
         matches info (All # parse info esc (if c = 0 then [] else c # chars p')) (chars s'))"
  using assms
proof (induction a o1 p s rule: star_skip.induct)
  case (1 a o1 p s)
  define c p1 where p1: "c = fst (sqlite3Utf8Read p)" "p1 = snd (sqlite3Utf8Read p)"
  have pr: "proper p1" by (simp add: 1(4) proper_read p1)
  have weaken: "case x of None \<Rightarrow> \<not> m | Some (c, p', s') \<Rightarrow> P p' \<and> Q s' \<and> R c p' \<and> T c \<and> set (f c p') \<subseteq> A \<and> W c p' s' \<Longrightarrow> A \<subseteq> B \<Longrightarrow>
    case x of None \<Rightarrow> \<not> m | Some (c, p', s') \<Rightarrow> P p' \<and> Q s' \<and> R c p' \<and> T c \<and> set (f c p') \<subseteq> B \<and> W c p' s'"
    for x m P Q R T f A B W by (cases x) auto
  show ?case
  proof (cases "p \<noteq> [] \<and> (c = a \<or> c = o1)")
    case False
    have e: "star_skip a o1 p s = Some (c, p1, s)" using False by (subst star_skip.simps) (auto simp: Let_def p1)
    have r: "(if c = 0 then [] else c # chars p1) = chars p" unfolding p1 by (rule read_chars [OF 1(4)])
    have n: "p \<noteq> [] \<longleftrightarrow> c \<noteq> 0" using read_0 [OF 1(4)] by (simp add: p1)
    have "p = [] \<Longrightarrow> p1 = []" by (simp add: p1)
    then show ?thesis unfolding e option.case prod.case r using False pr 1(5) n by blast
  next
    case c: True
    then have ch: "chars p = c # chars p1" unfolding p1 using chars_read by blast
    then have set_tl: "set (chars p1) \<subseteq> set (chars p)" by auto
    show ?thesis
    proof (cases "c = o1")
      case one: True
      show ?thesis
      proof (cases "s = []")
        case True
        have e: "star_skip a o1 p s = None" using c one True by (subst star_skip.simps) (simp add: p1)
        have "parse info esc (c # chars p1) = One # parse info esc (chars p1)"
          by (rule parse_One [OF 1(3)]) (simp only: one 1(7))
        then show ?thesis unfolding e [unfolded True] ch True option.case by (simp only: chars_Nil matches.simps list.case simp_thms)
      next
        case False
        define s1 where s1: "s1 = snd (sqlite3Utf8Read s)"
        have eq: "star_skip a o1 p s = star_skip a o1 p1 s1"
          using c one Utf8Read_nonzero [OF 1(5) False] by (subst star_skip.simps) (simp add: p1 s1)
        have m: "matches info (All # parse info esc (chars p)) (chars s) \<longleftrightarrow> matches info (All # parse info esc (chars p1)) (chars s1)"
          unfolding ch chars_read [OF False] s1 using one by (simp only: parse_One [OF 1(3)] 1(7) All_One)
        show ?thesis unfolding eq m
          using "1.IH"(1) [OF p1 c one Utf8Read_nonzero [OF 1(5) False] 1(3) pr proper_read [OF 1(5)] 1(6,7)] set_tl
          unfolding s1 by (rule weaken)
      qed
    next
      case False
      then have eq: "star_skip a o1 p s = star_skip a o1 p1 s" using c by (subst star_skip.simps) (simp add: p1)
      have m: "matches info (All # parse info esc (chars p)) (chars s) \<longleftrightarrow> matches info (All # parse info esc (chars p1)) (chars s)"
      proof -
        have "c = ucast (matchAll info)" using c False 1(6) by blast
        then show ?thesis unfolding ch by (simp only: parse_All All_All)
      qed
      show ?thesis unfolding eq m
        using "1.IH"(2) [OF p1 c False 1(3) pr 1(5,6,7)] set_tl by (rule weaken)
    qed
  qed
qed

lemma All_Never: "\<not> matches info [All, Never] s"
  by (induction s) auto

lemma parse_escape:
  assumes "c \<noteq> ucast (matchAll info)" "c = esc" "matchSet info = 0"
  shows "parse info esc (c # chars p) =
    (if p = [] then [Never] else Lit (fst (sqlite3Utf8Read p)) # parse info esc (chars (snd (sqlite3Utf8Read p))))"
  using assms chars_read [of p] by simp

lemma parse_plain:
  "c \<noteq> ucast (matchAll info) \<Longrightarrow> c \<noteq> ucast (matchOne info) \<Longrightarrow> c \<noteq> esc \<Longrightarrow> parse info esc (c # cs) = Lit c # parse info esc cs"
  by simp

text \<open>Behind a \<open>*\<close>, a literal is searched.\<close>

lemma search_literal:
  assumes "c \<noteq> 0x80" "\<And>s. proper s \<Longrightarrow> P s \<longleftrightarrow> matches info ts (chars s)" "proper s"
  shows "(if c \<le> 0x80 then search_byte P (if noCase info then ucast (char_tolower c) else c)
        (if noCase info then char_toupper c else c) s
      else search_char P c s) \<longleftrightarrow> matches info (All # Lit c # ts) (chars s)"
proof (cases "c < 0x80")
  case True
  have "search_byte P (if noCase info then ucast (char_tolower c) else c) (if noCase info then char_toupper c else c) s
      \<longleftrightarrow> matches info (All # Lit c # ts) (chars s)"
    by (rule search_byte_matches [OF _ _ _ True assms(2,3)])
      (use True char_cases [OF True] char_cases_ascii [OF True] in \<open>auto simp: same_char_def ucast_u8_ascii\<close>)
  moreover have "c \<le> 0x80" using True by (rule order.strict_implies_order)
  ultimately show ?thesis by (simp only: if_P)
next
  case False
  then have "\<not> c \<le> 0x80" using assms(1) by auto
  moreover have "same_char info c d \<longleftrightarrow> c = d" for d using False by (auto simp: same_char_def)
  ultimately show ?thesis using search_char_matches [OF _ assms(2,3)] by simp
qed

lemma not_matches_Nil: "\<not> matches info (parse info 91 (91 # cs)) []" if "matchAll info \<noteq> 91" "matchSet info = 91"
proof -
  have "(91 :: u32) \<noteq> ucast (matchAll info)" using ucast_u8_inj [of 91 "matchAll info"] that by auto
  then show ?thesis using that by (auto split: option.splits)
qed

text \<open>One step of the comparison behind a \<open>*\<close>, over what it calls for the rest.\<close>

lemma star_step:
  assumes "like_info info esc" "proper p" "proper s" "0x80 \<notin> set (c # chars p)" "c \<noteq> 0"
    "c \<noteq> ucast (matchAll info)" "c \<noteq> ucast (matchOne info)"
    "\<And>q z. length q \<le> Suc (length p) \<Longrightarrow> 0x80 \<notin> set (chars q) \<Longrightarrow> proper q \<Longrightarrow> proper z \<Longrightarrow>
      PC q z \<longleftrightarrow> matches info (parse info esc (chars q)) (chars z)"
  shows "(if c = esc \<and> matchSet info \<noteq> 0 then search_set (\<lambda>s. PC (ucast c # p) s) s
      else
        let escaped = (c = esc);
            c3 = (if escaped then fst (sqlite3Utf8Read p) else c);
            p3 = (if escaped then snd (sqlite3Utf8Read p) else p)
        in if escaped \<and> c3 = 0 then False
           else if c3 \<le> 0x80 then
             search_byte (\<lambda>s. PC p3 s) (if noCase info then ucast (char_tolower c3) else c3)
               (if noCase info then char_toupper c3 else c3) s
           else search_char (\<lambda>s. PC p3 s) c3 s)
    \<longleftrightarrow> matches info (All # parse info esc (c # chars p)) (chars s)"
proof -
  consider (set) "c = esc" "matchSet info \<noteq> 0" | (esc) "c = esc" "matchSet info = 0" | (plain) "c \<noteq> esc" by blast
  then show ?thesis
  proof cases
    case set
    then have 91: "matchSet info = 91" "esc = 91" "c = 91" "matchAll info \<noteq> 91" using assms(1,6) by (auto simp: like_info_def)
    have "search_set (\<lambda>s. PC (91 # p) s) s \<longleftrightarrow> matches info (All # parse info 91 (91 # chars p)) (chars s)"
      by (rule search_set_matches [OF _ not_matches_Nil [OF 91(4,1)] assms(3)])
        (use assms(2,4) assms(8) [of "91 # p"] 91 in \<open>simp add: chars_Cons_ascii del: parse.simps\<close>)
    then show ?thesis using 91 by (simp del: parse.simps)
  next
    case esc
    define c3 p3 where d: "c3 = fst (sqlite3Utf8Read p)" "p3 = snd (sqlite3Utf8Read p)"
    show ?thesis
    proof (cases "p = []")
      case True
      then show ?thesis using esc assms(6) by (simp add: All_Never)
    next
      case False
      then have ch: "chars p = c3 # chars p3" unfolding d by (rule chars_read)
      have pc: "proper z \<Longrightarrow> PC p3 z \<longleftrightarrow> matches info (parse info esc (chars p3)) (chars z)" for z
        using assms(4) Utf8Read_le [of p] by (intro assms(8)) (auto simp: ch d proper_read assms(2))
      have c3: "c3 \<noteq> 0" "c3 \<noteq> 0x80" using Utf8Read_nonzero [OF assms(2) False] assms(4) ch by (auto simp: d)
      have "matches info (All # parse info esc (c # chars p)) (chars s) \<longleftrightarrow> matches info (All # Lit c3 # parse info esc (chars p3)) (chars s)"
        unfolding parse_escape [OF assms(6) esc] if_not_P [OF False] d ..
      also have "\<dots> \<longleftrightarrow> (if c3 \<le> 0x80 then search_byte (PC p3) (if noCase info then ucast (char_tolower c3) else c3)
          (if noCase info then char_toupper c3 else c3) s else search_char (PC p3) c3 s)"
        by (rule search_literal [OF c3(2) pc assms(3), symmetric])
      finally have m: "matches info (All # parse info esc (c # chars p)) (chars s) \<longleftrightarrow> \<dots>" .
      show ?thesis unfolding m Let_def d [symmetric] using esc c3 by simp
    qed
  next
    case plain
    have pc: "proper z \<Longrightarrow> PC p z \<longleftrightarrow> matches info (parse info esc (chars p)) (chars z)" for z
      using assms(2,4) by (intro assms(8)) auto
    have c: "c \<noteq> 0x80" using assms(4) by simp
    have m: "matches info (All # parse info esc (c # chars p)) (chars s) \<longleftrightarrow>
        (if c \<le> 0x80 then search_byte (PC p) (if noCase info then ucast (char_tolower c) else c)
          (if noCase info then char_toupper c else c) s else search_char (PC p) c s)"
      unfolding parse_plain [OF assms(6,7) plain] by (rule search_literal [OF c pc assms(3), symmetric])
    show ?thesis unfolding m Let_def using plain by simp
  qed
qed

lemma set_items_subset: "set_items prior cs = Some (rs, cs') \<Longrightarrow> set cs' \<subseteq> set cs"
proof (induction prior cs arbitrary: rs rule: set_items.induct)
  case (2 prior c cs)
  have "set (tl cs) \<subseteq> set cs" by (cases cs) auto
  then show ?case using 2 by (auto split: if_splits dest: subsetD)
qed simp

lemma parse_set_subset: "parse_set cs = Some (b, rs, cs') \<Longrightarrow> set cs' \<subseteq> set cs"
proof -
  assume p: "parse_set cs = Some (b, rs, cs')"
  define c1 where c1: "c1 = (if cs \<noteq> [] \<and> hd cs = 94 then tl cs else cs)"
  define c2 where c2: "c2 = (if c1 \<noteq> [] \<and> hd c1 = 93 then tl c1 else c1)"
  have "set c2 \<subseteq> set c1" "set c1 \<subseteq> set cs" unfolding c1 c2 by (auto dest: list.set_sel(2))
  moreover obtain rs' where "set_items 0 c2 = Some (rs', cs')"
    using p unfolding parse_set_def Let_def c1 [symmetric] c2 [symmetric] by auto
  ultimately show ?thesis using set_items_subset by blast
qed

lemma tolower_0: "char_tolower c = char_tolower 0 \<Longrightarrow> c < 0x80 \<Longrightarrow> c = 0"
proof -
  assume t: "char_tolower c = char_tolower 0" and "c < 0x80"
  then obtain x :: u8 where x: "c = ucast x" using ascii_byte by blast
  have "UpperToLower x = UpperToLower 0" using t unfolding x char_tolower_ucast by (simp add: char_tolower_def)
  then have "x = 0"
    by (auto simp: UpperToLower_eq word_le_nat_alt word_unat_eq_iff unat_word_ariths split: if_splits)
  then show "c = 0" by (simp add: x)
qed

text \<open>One step of the comparison of a character.\<close>

lemma char_step:
  assumes "proper s" "c \<noteq> 0" "\<And>z. proper z \<Longrightarrow> P z \<longleftrightarrow> matches info ts (chars z)"
  shows "(if c = fst (sqlite3Utf8Read s) then P (snd (sqlite3Utf8Read s))
      else if noCase info \<and> char_tolower c = char_tolower (fst (sqlite3Utf8Read s)) \<and> c < 0x80 \<and> fst (sqlite3Utf8Read s) < 0x80
        then P (snd (sqlite3Utf8Read s))
      else if one \<and> fst (sqlite3Utf8Read s) \<noteq> 0 then P (snd (sqlite3Utf8Read s))
      else False)
    \<longleftrightarrow> matches info ((if one then One else Lit c) # ts) (chars s)"
proof (cases "s = []")
  case True
  then show ?thesis using assms(2) tolower_0 [of c] by auto
next
  case False
  have "fst (sqlite3Utf8Read s) \<noteq> 0" by (rule Utf8Read_nonzero [OF assms(1) False])
  then show ?thesis using assms(3) [OF proper_read [OF assms(1)]] by (auto simp: chars_read [OF False] same_char_def)
qed

text \<open>The three cases of a pattern's first character, over the rest of the pattern.\<close>

lemma compare_star:
  assumes "like_info info esc" "proper p" "proper s" "0x80 \<notin> set (chars p)" "p \<noteq> []"
    "\<And>q z. length q < length p \<Longrightarrow> proper q \<Longrightarrow> proper z \<Longrightarrow> 0x80 \<notin> set (chars q) \<Longrightarrow>
      patternCompare info esc q z \<longleftrightarrow> matches info (parse info esc (chars q)) (chars z)"
    "c = fst (sqlite3Utf8Read p)" "p1 = snd (sqlite3Utf8Read p)"
    and c: "c = ucast (matchAll info)"
  shows "patternCompare info esc p s \<longleftrightarrow> matches info (parse info esc (chars p)) (chars s)"
proof -
  let ?a = "ucast (matchAll info) :: u32" and ?o = "ucast (matchOne info) :: u32"
  note False = assms(5) and IHp = assms(6) and p1 = assms(7,8)
  have pr: "proper p1" by (simp add: assms(2) proper_read p1)
  have ch: "chars p = c # chars p1" and c0: "c \<noteq> 0"
    unfolding p1 using chars_read Utf8Read_nonzero assms(2) False by blast+
  note rest = star_skip_matches [OF assms(1) pr assms(3) refl refl]
  have eq: "parse info esc (chars p) = All # parse info esc (chars p1)" unfolding ch using c by (rule parse_All)
  show ?thesis
  proof (cases "star_skip ?a ?o p1 s")
    case None
    then show ?thesis using rest c c0 False by (subst patternCompare.simps) (simp add: eq p1 [symmetric] Let_def)
  next
    case (Some x)
    obtain d p2 s2 where x: "x = (d, p2, s2)" by (cases x)
    have d: "proper p2" "proper s2" "d = 0 \<longrightarrow> p2 = []" "d \<noteq> 0 \<longrightarrow> d \<noteq> ?a \<and> d \<noteq> ?o"
      "set (if d = 0 then [] else d # chars p2) \<subseteq> set (chars p1)"
      "matches info (parse info esc (chars p)) (chars s) \<longleftrightarrow>
        matches info (All # parse info esc (if d = 0 then [] else d # chars p2)) (chars s2)"
      using rest unfolding Some x eq by simp_all
    note pc = patternCompare.simps [of info esc p s, folded p1, unfolded Let_def, folded p1]
    show ?thesis
    proof (cases "d = 0")
      case True
      then show ?thesis unfolding d(6) pc using c c0 False by (simp add: Some x All_end)
    next
      case d0: False
      have len: "Suc (length p2) < length p" by (rule star_then_shorter(1) [OF Some [unfolded x p1] False d0])
      have no80: "0x80 \<notin> set (d # chars p2)" using d(5) d0 ch assms(4) by auto
      have "length q \<le> Suc (length p2) \<Longrightarrow> 0x80 \<notin> set (chars q) \<Longrightarrow> proper q \<Longrightarrow> proper z \<Longrightarrow>
          patternCompare info esc q z \<longleftrightarrow> matches info (parse info esc (chars q)) (chars z)" for q z
        using IHp [of q z] len by simp
      note step = star_step [OF assms(1) d(1,2) no80 d0 _ _ this, unfolded Let_def]
      have "patternCompare info esc p s \<longleftrightarrow> matches info (All # parse info esc (d # chars p2)) (chars s2)"
        using step d(4) d0 False c c0 unfolding pc by (simp add: Some x del: parse.simps matches.simps)
      then show ?thesis unfolding d(6) if_not_P [OF d0] .
    qed
  qed
qed

lemma compare_set:
  assumes "like_info info esc" "proper p" "proper s" "0x80 \<notin> set (chars p)" "p \<noteq> []"
    "\<And>q z. length q < length p \<Longrightarrow> proper q \<Longrightarrow> proper z \<Longrightarrow> 0x80 \<notin> set (chars q) \<Longrightarrow>
      patternCompare info esc q z \<longleftrightarrow> matches info (parse info esc (chars q)) (chars z)"
    "c = fst (sqlite3Utf8Read p)" "p1 = snd (sqlite3Utf8Read p)"
    and set: "c \<noteq> ucast (matchAll info)" "c = esc" "matchSet info \<noteq> 0"
  shows "patternCompare info esc p s \<longleftrightarrow> matches info (parse info esc (chars p)) (chars s)"
proof -
  let ?a = "ucast (matchAll info) :: u32" and ?o = "ucast (matchOne info) :: u32"
  note False = assms(5) and IHp = assms(6) and p1 = assms(7,8)
  have pr: "proper p1" by (simp add: assms(2) proper_read p1)
  have ch: "chars p = c # chars p1" and c0: "c \<noteq> 0"
    unfolding p1 using chars_read Utf8Read_nonzero assms(2) False by blast+
  define d s1 where d: "d = fst (sqlite3Utf8Read s)" "s1 = snd (sqlite3Utf8Read s)"
  have pc: "patternCompare info esc p s =
      (if d = 0 then False else case match_set d p1 of None \<Rightarrow> False | Some p2 \<Rightarrow> patternCompare info esc p2 s1)"
    using set c0 False unfolding p1 d by (subst patternCompare.simps) (simp add: Let_def)
  have eq: "parse info esc (chars p) =
      (case parse_set (chars p1) of None \<Rightarrow> [Never] | Some (b, rs, cs) \<Rightarrow> Chars b rs # parse info esc cs)"
    using set unfolding ch by simp
  have IH: "proper q \<Longrightarrow> proper z \<Longrightarrow> length q < length p \<Longrightarrow> 0x80 \<notin> set (chars q) \<Longrightarrow>
      patternCompare info esc q z \<longleftrightarrow> matches info (parse info esc (chars q)) (chars z)" for q z
    using IHp by blast
  show ?thesis
  proof (cases "s = []")
    case True
    then show ?thesis unfolding pc eq by (auto simp: d split: option.splits)
  next
    case s: False
    have s1: "d \<noteq> 0" "chars s = d # chars s1" "proper s1"
      using Utf8Read_nonzero [OF assms(3) s] chars_read [OF s] proper_read [OF assms(3)] by (simp_all add: d)
    show ?thesis
    proof (cases "parse_set (chars p1)")
      case None
      then show ?thesis using match_set_parse [OF pr, of d] unfolding pc eq by simp
    next
      case (Some x)
      obtain b rs cs where x: "x = (b, rs, cs)" by (cases x)
      note m = match_set_parse [OF pr, of d, unfolded Some x option.case prod.case]
      show ?thesis
      proof (cases "in_ranges d rs = b")
        case True
        then show ?thesis using m unfolding pc eq Some x s1(2) by simp
      next
        case out: False
        then obtain p2 where p2: "match_set d p1 = Some p2" "proper p2" "chars p2 = cs" using m by auto
        have "0x80 \<notin> set (chars p2)" using parse_set_subset Some x p2(3) assms(4) ch by fastforce
        moreover have "length p2 < length p" using set_then_shorter p2(1) False unfolding p1 by blast
        ultimately have "patternCompare info esc p2 s1 \<longleftrightarrow> matches info (parse info esc cs) (chars s1)"
          using IH [OF p2(2) s1(3)] p2(3) by simp
        then show ?thesis using out s1(1) unfolding pc eq Some x s1(2) by (simp add: p2)
      qed
    qed
  qed
qed

lemma compare_char:
  assumes "like_info info esc" "proper p" "proper s" "0x80 \<notin> set (chars p)" "p \<noteq> []"
    "\<And>q z. length q < length p \<Longrightarrow> proper q \<Longrightarrow> proper z \<Longrightarrow> 0x80 \<notin> set (chars q) \<Longrightarrow>
      patternCompare info esc q z \<longleftrightarrow> matches info (parse info esc (chars q)) (chars z)"
    "c = fst (sqlite3Utf8Read p)" "p1 = snd (sqlite3Utf8Read p)"
    and lit: "c \<noteq> ucast (matchAll info)" "\<not> (c = esc \<and> matchSet info \<noteq> 0)"
  shows "patternCompare info esc p s \<longleftrightarrow> matches info (parse info esc (chars p)) (chars s)"
proof -
  let ?a = "ucast (matchAll info) :: u32" and ?o = "ucast (matchOne info) :: u32"
  note False = assms(5) and IHp = assms(6) and p1 = assms(7,8)
  have pr: "proper p1" by (simp add: assms(2) proper_read p1)
  have ch: "chars p = c # chars p1" and c0: "c \<noteq> 0"
    unfolding p1 using chars_read Utf8Read_nonzero assms(2) False by blast+
  define e where e: "e = (c = esc)"
  define c3 p3 where d: "c3 = (if e then fst (sqlite3Utf8Read p1) else c)" "p3 = (if e then snd (sqlite3Utf8Read p1) else p1)"
  have pc: "patternCompare info esc p s = (if e \<and> c3 = 0 then False
      else if c3 = fst (sqlite3Utf8Read s) then patternCompare info esc p3 (snd (sqlite3Utf8Read s))
      else if noCase info \<and> char_tolower c3 = char_tolower (fst (sqlite3Utf8Read s)) \<and> c3 < 0x80 \<and> fst (sqlite3Utf8Read s) < 0x80
        then patternCompare info esc p3 (snd (sqlite3Utf8Read s))
      else if (c3 = ?o \<and> \<not> e) \<and> fst (sqlite3Utf8Read s) \<noteq> 0 then patternCompare info esc p3 (snd (sqlite3Utf8Read s))
      else False)"
    by (subst patternCompare.simps) (use False c0 lit in \<open>simp only: p1 [symmetric] Let_def e d simp_thms if_False if_True conj_assoc\<close>)
  show ?thesis
  proof (cases "e \<and> p1 = []")
    case True
    then show ?thesis using lit unfolding pc ch by (simp add: e d)
  next
    case esc: False
    have c3: "c3 \<noteq> 0" using esc c0 Utf8Read_nonzero [OF pr] by (auto simp: d)
    have ch3: "set (chars p3) \<subseteq> set (chars p)" using esc chars_read [of p1] ch by (auto simp: d)
    have n80: "0x80 \<notin> set (chars p3)" using ch3 assms(4) by blast
    have "length p3 < length p" using Utf8Read_shorter [OF False] Utf8Read_le [of p1] by (simp add: d p1)
    then have IH: "proper z \<Longrightarrow> patternCompare info esc p3 z \<longleftrightarrow> matches info (parse info esc (chars p3)) (chars z)" for z
      using IHp [of p3 z] n80 pr proper_read [OF pr] by (simp add: d)
    have ps: "parse info esc (chars p) = (if c3 = ?o \<and> \<not> e then One else Lit c3) # parse info esc (chars p3)"
      using lit esc chars_read [of p1] unfolding ch by (auto simp: d e)
    show ?thesis using char_step [where P = "patternCompare info esc p3" and ts = "parse info esc (chars p3)"
          and one = "c3 = ?o \<and> \<not> e", OF assms(3) c3 IH] c3 unfolding ps pc by (simp only: simp_thms if_False)
  qed
qed



text \<open>
  The test \<open>c <= 0x80\<close> takes U+0080 for a byte: behind \<open>%\<close> it is found
  in the middle of another character (here U+00C0).
\<close>

lemma LIKE_0x80:
  "patternCompare likeInfoNorm 0 [37, 0xC2, 0x80] [0xC3, 0x80]"
  "\<not> matches likeInfoNorm (parse likeInfoNorm 0 (chars [37, 0xC2, 0x80])) (chars [0xC3, 0x80])"
  by code_simp+

text \<open>
  With \<open>ESCAPE '_'\<close>, \<open>_%\<close> is a literal \<open>%\<close> at the start of a
  pattern, and behind \<open>%\<close> it is one character and any sequence.
\<close>

lemma LIKE_escape_one:
  "\<not> patternCompare likeInfoNorm 95 [95, 37] [97]"
  "patternCompare likeInfoNorm 95 [37, 95, 37] [97]"
  "\<not> matches likeInfoNorm (parse likeInfoNorm 95 (chars [37, 95, 37])) (chars [97])"
  by code_simp+

end
