(* ===== verification/S3Hander.thy ===== *)
theory S3Hander
  imports NetService
begin

text \<open>
  The transfer handler on Amazon S3 (\<open>FileNetService/AWSS3/LCS3Hander.m\<close>) and the service
  with it. A method of the handler answers at once or leaves a job behind: something that the
  SDK, a copy or a request for a URL will report on. Reports are events, in any order; what the
  handler does on one is a step that gives the next job, if any, and the replies to the
  operation. The SDK (its transfers are known by number), the file system and the md5 are
  parameters. The SDK announces a transfer it has created before it reports on it.
\<close>

section \<open>State\<close>

datatype aws_class = AWSS3TransferUtilityUploadTask | AWSS3TransferUtilityMultiPartUploadTask
  | AWSS3TransferUtilityDownloadTask

datatype aws_call = AWSResume nat | AWSSuspend nat | AWSCancel nat | AWSCreateDirectory string

text \<open>The blocks a method was given: of which operation, and in which of its methods.\<close>

record request =
  rq_oid :: nat
  rq_upload :: bool
  rq_resumed :: bool

datatype job =
    Replicating request LCFileNetTask | CopyURL request LCFileNetTask
  | CopyingItem request LCFileNetTask | Creating request aws_class
  | Transfer request nat | UploadURL request

record LCS3Hander =
  taskDic :: "string \<rightharpoonup> nat"
  aws_class_of :: "nat \<Rightarrow> aws_class"
  next_aws :: nat
  jobs :: "job list"
  aws_calls :: "aws_call list"

record hander_env =
  he_fileExists :: "string \<Rightarrow> bool"
  he_md5 :: "string \<Rightarrow> string"

definition init_s3 :: LCS3Hander where
  "init_s3 = \<lparr>taskDic = Map.empty, aws_class_of = (\<lambda>_. AWSS3TransferUtilityUploadTask),
     next_aws = 0, jobs = [], aws_calls = []\<rparr>"

definition add_job :: "job \<Rightarrow> LCS3Hander \<Rightarrow> LCS3Hander" where
  "add_job j h = h\<lparr>jobs := jobs h @ [j]\<rparr>"

definition aws :: "aws_call \<Rightarrow> LCS3Hander \<Rightarrow> LCS3Hander" where
  "aws c h = h\<lparr>aws_calls := aws_calls h @ [c]\<rparr>"

definition path_exists :: "hander_env \<Rightarrow> nsstring \<Rightarrow> bool" where
  "path_exists he p = (case p of None \<Rightarrow> False | Some q \<Rightarrow> he_fileExists he q)"

section \<open>Starting\<close>

text \<open>\<open>componentsSeparatedByString:\<close> with a slash, and the path without its last component.\<close>

fun components :: "string \<Rightarrow> string list" where
  "components [] = [[]]"
| "components (c # p) =
     (if c = CHR ''/'' then [] # components p
      else case components p of d # ds \<Rightarrow> (c # d) # ds | [] \<Rightarrow> [[c]])"

definition p_creatDirectoryByFilePath :: "hander_env \<Rightarrow> string \<Rightarrow> LCS3Hander \<Rightarrow> LCS3Hander" where
  "p_creatDirectoryByFilePath he filePath h =
     (let path = concat (map (\<lambda>d. d @ ''/'') (butlast (components filePath)))
      in if he_fileExists he path then h else aws (AWSCreateDirectory path) h)"

text \<open>More than ten million bytes are uploaded in parts.\<close>

definition s3_startUpload :: "hander_env \<Rightarrow> request \<Rightarrow> LCFileNetTask \<Rightarrow> LCS3Hander \<Rightarrow> LCS3Hander \<times> reply list" where
  "s3_startUpload he rq t h =
     (if t_fileKey t = None \<or> t_filePath t = None \<or> \<not> path_exists he (t_filePath t)
      then (h, [ReplyFinish True])
      else if t_totalSize t > 10 * 1000 * 1000
      then (add_job (Creating rq AWSS3TransferUtilityMultiPartUploadTask) h, [])
      else (add_job (Creating rq AWSS3TransferUtilityUploadTask) h, []))"

definition s3_startDownload :: "hander_env \<Rightarrow> request \<Rightarrow> LCFileNetTask \<Rightarrow> LCS3Hander \<Rightarrow> LCS3Hander \<times> reply list" where
  "s3_startDownload he rq t h =
     (case (t_fileKey t, t_filePath t) of
        (Some k, Some p) \<Rightarrow>
          (add_job (Creating rq AWSS3TransferUtilityDownloadTask) (p_creatDirectoryByFilePath he p h), [])
      | _ \<Rightarrow> (h, [ReplyFinish True]))"

definition s3_start :: "hander_env \<Rightarrow> request \<Rightarrow> LCFileNetTask \<Rightarrow> LCS3Hander \<Rightarrow> LCS3Hander \<times> reply list" where
  "s3_start he rq t h = (if rq_upload rq then s3_startUpload he rq t h else s3_startDownload he rq t h)"

text \<open>A copy that fails, at once or later, is followed by a transfer.\<close>

definition p_copyTask :: "hander_env \<Rightarrow> request \<Rightarrow> LCFileNetTask \<Rightarrow> LCFileNetTask \<Rightarrow> LCS3Hander \<Rightarrow> LCS3Hander \<times> reply list" where
  "p_copyTask he rq target source h =
     (if t_type target = LCFileNetTaskTypeUpload then (add_job (Replicating rq source) h, [])
      else if t_type target = LCFileNetTaskTypeDownload then
        (if path_exists he (t_filePath source) then (add_job (CopyingItem rq source) h, [])
         else s3_start he rq target h)
      else s3_start he rq target h)"

definition finished_task :: "LCFileNetTask list \<Rightarrow> LCFileNetTask option" where
  "finished_task rows = find (\<lambda>t. t_status t = LCFileNetTaskStatusFinish) rows"

definition lc_fileNetHanderUpload :: "hander_env \<Rightarrow> task_table \<Rightarrow> nat \<Rightarrow> LCFileNetTask \<Rightarrow> LCS3Hander \<Rightarrow> LCS3Hander \<times> reply list" where
  "lc_fileNetHanderUpload he db oid t h =
     (let rq = \<lparr>rq_oid = oid, rq_upload = True, rq_resumed = False\<rparr>
      in case finished_task (lc_getTaskByMd5 (t_md5 t) db) of
           Some oldTask \<Rightarrow> p_copyTask he rq t oldTask h
         | None \<Rightarrow> s3_startUpload he rq t h)"

definition lc_fileNetHanderDownload :: "hander_env \<Rightarrow> task_table \<Rightarrow> nat \<Rightarrow> LCFileNetTask \<Rightarrow> LCS3Hander \<Rightarrow> LCS3Hander \<times> reply list" where
  "lc_fileNetHanderDownload he db oid t h =
     (let rq = \<lparr>rq_oid = oid, rq_upload = False, rq_resumed = False\<rparr>
      in case finished_task (lc_getTaskByFileKey (t_fileKey t) db) of
           Some oldTask \<Rightarrow> p_copyTask he rq t oldTask h
         | None \<Rightarrow> s3_startDownload he rq t h)"

section \<open>Resuming, cancelling, pausing\<close>

text \<open>The blocks of a transfer are replaced by those of the resuming operation.\<close>

definition set_blocks :: "request \<Rightarrow> nat \<Rightarrow> LCS3Hander \<Rightarrow> LCS3Hander" where
  "set_blocks rq n h =
     add_job (Transfer rq n) (h\<lparr>jobs := filter (\<lambda>j. \<forall>r. j \<noteq> Transfer r n) (jobs h)\<rparr>)"

definition lc_fileNetHanderResumUploadTask :: "nat \<Rightarrow> LCFileNetTask \<Rightarrow> LCS3Hander \<Rightarrow> LCS3Hander \<times> reply list" where
  "lc_fileNetHanderResumUploadTask oid t h =
     (case lookup (taskDic h) (t_taskId t) of
        None \<Rightarrow> (h, [ReplyFinish True])
      | Some n \<Rightarrow>
          if aws_class_of h n = AWSS3TransferUtilityUploadTask \<or> aws_class_of h n = AWSS3TransferUtilityMultiPartUploadTask
          then (aws (AWSResume n) (set_blocks \<lparr>rq_oid = oid, rq_upload = True, rq_resumed = True\<rparr> n h), [])
          else (h, []))"

definition lc_fileNetHanderResumDownloadTask :: "nat \<Rightarrow> LCFileNetTask \<Rightarrow> LCS3Hander \<Rightarrow> LCS3Hander \<times> reply list" where
  "lc_fileNetHanderResumDownloadTask oid t h =
     (case lookup (taskDic h) (t_taskId t) of
        None \<Rightarrow> (h, [ReplyFinish True])
      | Some n \<Rightarrow>
          if aws_class_of h n = AWSS3TransferUtilityDownloadTask
          then (aws (AWSResume n) (set_blocks \<lparr>rq_oid = oid, rq_upload = False, rq_resumed = True\<rparr> n h), [])
          else (h, []))"

definition lc_fileNetHanderCancelTask :: "LCFileNetTask \<Rightarrow> LCS3Hander \<Rightarrow> LCS3Hander" where
  "lc_fileNetHanderCancelTask t h =
     (case lookup (taskDic h) (t_taskId t) of None \<Rightarrow> h | Some n \<Rightarrow> aws (AWSCancel n) h)"

definition lc_fileNetHanderPauseTask :: "LCFileNetTask \<Rightarrow> LCS3Hander \<Rightarrow> LCS3Hander" where
  "lc_fileNetHanderPauseTask t h =
     (case lookup (taskDic h) (t_taskId t) of None \<Rightarrow> h | Some n \<Rightarrow> aws (AWSSuspend n) h)"

text \<open>The transfers of an earlier run, suspended and known by the key of their object.\<close>

definition new_aws :: "aws_class \<Rightarrow> LCS3Hander \<Rightarrow> nat \<times> LCS3Hander" where
  "new_aws c h = (next_aws h, h\<lparr>aws_class_of := (aws_class_of h)(next_aws h := c), next_aws := next_aws h + 1\<rparr>)"

fun load_each :: "aws_class \<Rightarrow> string list \<Rightarrow> LCS3Hander \<Rightarrow> LCS3Hander" where
  "load_each c [] h = h"
| "load_each c (key # keys) h =
     (let (n, h) = new_aws c h; h = aws (AWSSuspend n) h
      in load_each c keys (h\<lparr>taskDic := (taskDic h)(key \<mapsto> n)\<rparr>))"

definition loadHistoryAWSTask :: "string list \<Rightarrow> string list \<Rightarrow> string list \<Rightarrow> LCS3Hander \<Rightarrow> LCS3Hander" where
  "loadHistoryAWSTask uploads multiparts downloads h =
     load_each AWSS3TransferUtilityDownloadTask downloads
       (load_each AWSS3TransferUtilityMultiPartUploadTask multiparts
         (load_each AWSS3TransferUtilityUploadTask uploads h))"

section \<open>Events\<close>

text \<open>Reports of a replication, a URL, a local copy, a creation, and of a transfer.\<close>

datatype s3_event = Replicated bool | GotURL nsstring bool | ItemCopied bool | Created bool
  | Progressed int int | Completed bool

fun fits :: "job \<Rightarrow> s3_event \<Rightarrow> bool" where
  "fits (Replicating rq old) (Replicated err) = True"
| "fits (CopyURL rq old) (GotURL url err) = True"
| "fits (CopyingItem rq old) (ItemCopied err) = True"
| "fits (Creating rq c) (Created err) = True"
| "fits (Transfer rq n) (Progressed got want) = True"
| "fits (Transfer rq n) (Completed err) = True"
| "fits (UploadURL rq) (GotURL url err) = True"
| "fits j ev = False"

text \<open>The copied task takes over the sizes; a copy in spite of an error is followed by a transfer.\<close>

definition copied :: "hander_env \<Rightarrow> request \<Rightarrow> LCFileNetTask \<Rightarrow> LCFileNetTask \<Rightarrow> bool \<Rightarrow> LCS3Hander \<Rightarrow> LCS3Hander \<times> reply list" where
  "copied he rq t old err h =
     (let t = t\<lparr>t_finishedSize := t_finishedSize old, t_totalSize := t_totalSize old\<rparr>;
          sizes = ReplySizes (t_finishedSize old) (t_totalSize old)
      in if err then (case s3_start he rq t h of (h, rs) \<Rightarrow> (h, sizes # rs))
         else (h, [sizes, ReplyProgress (t_finishedSize old) (t_totalSize old), ReplyFinish False]))"

text \<open>The transfer is forgotten when it ends, unless it was resumed.\<close>

definition forget :: "request \<Rightarrow> nsstring \<Rightarrow> LCS3Hander \<Rightarrow> LCS3Hander option" where
  "forget rq i h =
     (if rq_resumed rq then Some h
      else map_option (\<lambda>k. h\<lparr>taskDic := (taskDic h)(k := None)\<rparr>) i)"

text \<open>What \<open>fileMD5WithPath:\<close> answers.\<close>

definition md5_of :: "hander_env \<Rightarrow> nsstring \<Rightarrow> string" where
  "md5_of he p = (if path_exists he p then he_md5 he (the p) else ''ERROR GETTING FILE MD5'')"

fun job_event :: "hander_env \<Rightarrow> LCFileNetTask \<Rightarrow> job \<Rightarrow> s3_event \<Rightarrow> LCS3Hander \<Rightarrow> (LCS3Hander \<times> reply list) option" where
  "job_event he t (Replicating rq old) (Replicated err) h =
     Some (if err then s3_start he rq t h else (add_job (CopyURL rq old) h, []))"
| "job_event he t (CopyURL rq old) (GotURL url err) h =
     (case copied he rq (t\<lparr>t_url := url\<rparr>) old err h of (h, rs) \<Rightarrow> Some (h, ReplySet url (t_md5 t) # rs))"
| "job_event he t (CopyingItem rq old) (ItemCopied err) h =
     (let md5 = (if err then t_md5 t else Some (md5_of he (t_filePath t)))
      in case copied he rq (t\<lparr>t_md5 := md5\<rparr>) old err h of (h, rs) \<Rightarrow> Some (h, ReplySet (t_url t) md5 # rs))"
| "job_event he t (Creating rq c) (Created err) h =
     (if err then Some (h, [ReplyFinish True])
      else case t_taskId t of
        None \<Rightarrow> None
      | Some k \<Rightarrow> let (n, h) = new_aws c h in Some (add_job (Transfer rq n) (h\<lparr>taskDic := (taskDic h)(k \<mapsto> n)\<rparr>), []))"
| "job_event he t (Transfer rq n) (Progressed got want) h =
     Some (add_job (Transfer rq n) h, [ReplyProgress (max got (t_finishedSize t)) want])"
| "job_event he t (Transfer rq n) (Completed err) h =
     map_option (\<lambda>h. if err then (h, [ReplyFinish True])
                      else if rq_upload rq then (add_job (UploadURL rq) h, [])
                      else (h, [ReplySet (t_url t) (Some (md5_of he (t_filePath t))), ReplyFinish False]))
       (forget rq (t_taskId t) h)"
| "job_event he t (UploadURL rq) (GotURL url err) h = Some (h, [ReplySet url (t_md5 t), ReplyFinish err])"
| "job_event he t j ev h = Some (h, [])"

section \<open>The service with this handler\<close>

text \<open>What a method answers before it returns, for an operation of the service in some state.\<close>

definition s3_call :: "hander_env \<Rightarrow> task_table \<Rightarrow> nat \<Rightarrow> hander_call \<Rightarrow> LCFileNetTask \<Rightarrow> LCS3Hander \<Rightarrow> LCS3Hander \<times> reply list" where
  "s3_call he db oid c t h =
     (case c of
        HanderUpload \<Rightarrow> lc_fileNetHanderUpload he db oid t h
      | HanderDownload \<Rightarrow> lc_fileNetHanderDownload he db oid t h
      | HanderResumUpload \<Rightarrow> lc_fileNetHanderResumUploadTask oid t h
      | HanderResumDownload \<Rightarrow> lc_fileNetHanderResumDownloadTask oid t h
      | HanderCancel \<Rightarrow> (lc_fileNetHanderCancelTask t h, [])
      | HanderPause \<Rightarrow> (lc_fileNetHanderPauseTask t h, []))"

definition s3_env :: "hander_env \<Rightarrow> svc \<Rightarrow> LCS3Hander \<Rightarrow> nat \<Rightarrow> net_env" where
  "s3_env he s h oid = \<lparr>ne_hander = Some \<lparr>responds = (\<lambda>_. True),
     replies = (\<lambda>c t. snd (s3_call he (task_db s) oid c t h))\<rparr>,
     ne_fileExists = he_fileExists he, ne_md5 = he_md5 he\<rparr>"

text \<open>
  The calls that a step of the service has made, as its log tells them. Only an operation calls
  for a transfer (\<open>Some oid\<close>); the methods of the service only cancel and pause.
\<close>

fun hear :: "hander_env \<Rightarrow> svc \<Rightarrow> nat option \<Rightarrow> notice list \<Rightarrow> LCS3Hander \<Rightarrow> LCS3Hander" where
  "hear he s op [] h = h"
| "hear he s op (HanderCalled c a # ns) h =
     hear he s op ns
       (case (c, op) of
          (HanderCancel, _) \<Rightarrow> lc_fileNetHanderCancelTask (tasks s a) h
        | (HanderPause, _) \<Rightarrow> lc_fileNetHanderPauseTask (tasks s a) h
        | (_, Some oid) \<Rightarrow> fst (s3_call he (task_db s) oid c (tasks s a) h)
        | (_, None) \<Rightarrow> h)"
| "hear he s op (n # ns) h = hear he s op ns h"

definition after_calls :: "hander_env \<Rightarrow> svc \<Rightarrow> nat option \<Rightarrow> LCS3Hander \<Rightarrow> svc \<Rightarrow> svc \<times> LCS3Hander" where
  "after_calls he s op h s' = (s', hear he s op (drop (length (told s)) (told s')) h)"

fun job_request :: "job \<Rightarrow> request" where
  "job_request (Replicating rq old) = rq"
| "job_request (CopyURL rq old) = rq"
| "job_request (CopyingItem rq old) = rq"
| "job_request (Creating rq c) = rq"
| "job_request (Transfer rq n) = rq"
| "job_request (UploadURL rq) = rq"

text \<open>The blocks of a request, as the operation made them.\<close>

definition deliver :: "net_env \<Rightarrow> request \<Rightarrow> reply \<Rightarrow> svc \<Rightarrow> svc option" where
  "deliver e rq r =
     (if rq_resumed rq then resume_reply (if rq_upload rq then HanderUpload else HanderDownload) e (rq_oid rq) r
      else start_reply (rq_oid rq) r)"

definition without :: "nat \<Rightarrow> 'a list \<Rightarrow> 'a list" where
  "without i xs = take i xs @ drop (Suc i) xs"

definition s3_report :: "hander_env \<Rightarrow> nat \<Rightarrow> s3_event \<Rightarrow> svc \<Rightarrow> LCS3Hander \<Rightarrow> (svc \<times> LCS3Hander) option" where
  "s3_report he i ev s h =
     (let j = jobs h ! i; rq = job_request j; oid = rq_oid rq in
      case job_event he (tasks s (o_task (ops s oid))) j ev (h\<lparr>jobs := without i (jobs h)\<rparr>) of
        None \<Rightarrow> None
      | Some (h, rs) \<Rightarrow>
          map_option (after_calls he s (Some oid) h) (run_replies (deliver (s3_env he s h oid) rq) rs s))"

inductive s3_step :: "hander_env \<Rightarrow> svc \<times> LCS3Hander \<Rightarrow> (svc \<times> LCS3Hander) option \<Rightarrow> bool" for he where
  new: "s3_step he (s, h) (Some (snd (alloc_task t s), h))"
| start: "a < next_task s \<Longrightarrow> id_of s a \<noteq> None \<Longrightarrow>
    s3_step he (s, h) (map_option (after_calls he s None h) (lc_startTask (s3_env he s h 0) a q s))"
| resume: "s3_step he (s, h) (map_option (after_calls he s None h) (lc_resumTask (s3_env he s h 0) i q s))"
| cancel: "s3_step he (s, h) (map_option (after_calls he s None h) (lc_cancelTask (s3_env he s h 0) i s))"
| pause: "s3_step he (s, h) (map_option (after_calls he s None h) (lc_pauseTask (s3_env he s h 0) i s))"
| pause_all: "s3_step he (s, h)
    (map_option (after_calls he s None h) (lc_pauseAllTask (s3_env he s h 0) allKeys s))"
| update_path: "s3_step he (s, h) (Some (lc_updatetask key p s, h))"
| get: "s3_step he (s, h) (Some (snd (lc_getTask i s), h))"
| queue_start: "(oid, q) \<in> set (queued s) \<Longrightarrow>
    s3_step he (s, h) (map_option (after_calls he s (Some oid) h) (op_start (s3_env he s h oid) oid s))"
| report: "i < length (jobs h) \<Longrightarrow> fits (jobs h ! i) ev \<Longrightarrow> s3_step he (s, h) (s3_report he i ev s h)"
| history: "s3_step he (s, h) (Some (s, loadHistoryAWSTask us ms ds h))"

inductive s3_steps :: "hander_env \<Rightarrow> svc \<times> LCS3Hander \<Rightarrow> svc \<times> LCS3Hander \<Rightarrow> bool" for he where
  none: "s3_steps he c c"
| more: "s3_steps he c c' \<Longrightarrow> s3_step he c' (Some c'') \<Longrightarrow> s3_steps he c c''"

section \<open>Every request is answered once\<close>

definition waiting :: "request \<Rightarrow> LCS3Hander \<Rightarrow> nat" where
  "waiting rq h = length (filter (\<lambda>j. job_request j = rq) (jobs h))"

fun is_finish :: "reply \<Rightarrow> bool" where
  "is_finish (ReplyFinish err) = True"
| "is_finish r = False"

definition finishes :: "reply list \<Rightarrow> nat" where
  "finishes rs = length (filter is_finish rs)"

lemma finishes_simps [simp]: "finishes [] = 0" "finishes (r # rs) = of_bool (is_finish r) + finishes rs"
  by (simp_all add: finishes_def)

lemma waiting_add [simp]: "waiting rq (add_job j h) = waiting rq h + of_bool (job_request j = rq)"
  by (simp add: waiting_def add_job_def)

lemma waiting_aws [simp]: "waiting rq (aws c h) = waiting rq h"
  by (simp add: waiting_def aws_def)

lemma waiting_directory [simp]: "waiting rq (p_creatDirectoryByFilePath he p h) = waiting rq h"
  by (simp add: p_creatDirectoryByFilePath_def Let_def)

text \<open>One answer, now or by the job that is left.\<close>

definition answers :: "request \<Rightarrow> LCS3Hander \<Rightarrow> LCS3Hander \<times> reply list \<Rightarrow> bool" where
  "answers rq h r \<longleftrightarrow> waiting rq (fst r) + finishes (snd r) = waiting rq h + 1 \<and>
     (\<forall>q. q \<noteq> rq \<longrightarrow> waiting q (fst r) = waiting q h)"

lemma answers_start: "answers rq h (s3_start he rq t h)"
  by (auto simp: answers_def s3_start_def s3_startUpload_def s3_startDownload_def split: option.splits)

lemma answers_startUpload: "answers rq h (s3_startUpload he rq t h)" and
  answers_startDownload: "answers rq h (s3_startDownload he rq t h)"
  by (auto simp: answers_def s3_startUpload_def s3_startDownload_def split: option.splits)

lemma answers_copy: "answers rq h (p_copyTask he rq t old h)"
  using answers_start [of rq h he t] by (simp add: p_copyTask_def) (simp add: answers_def)

lemma answers_copied: "answers rq h (copied he rq t old err h)"
  using answers_start [of rq h he "t\<lparr>t_finishedSize := t_finishedSize old, t_totalSize := t_totalSize old\<rparr>"]
  by (auto simp: copied_def answers_def Let_def split: prod.splits)

lemma answers_event:
  assumes "fits j ev" "job_event he t j ev h = Some r"
  shows "answers (job_request j) h r"
  using assms
proof (cases "(j, ev)" rule: fits.cases)
  case (1 rq old err)
  then show ?thesis using assms answers_start by (auto simp: answers_def split: if_splits)
next
  case (2 rq old url err)
  then show ?thesis using assms answers_copied [of rq h he "t\<lparr>t_url := url\<rparr>" old err]
    by (auto simp: answers_def split: prod.splits)
next
  case (3 rq old err)
  then show ?thesis using assms
      answers_copied [of rq h he "t\<lparr>t_md5 := if err then t_md5 t else Some (md5_of he (t_filePath t))\<rparr>" old err]
    by (auto simp: answers_def Let_def split: prod.splits)
next
  case (4 rq c err)
  then show ?thesis using assms
    by (auto simp: answers_def waiting_def new_aws_def add_job_def split: if_splits option.splits)
next
  case (6 rq n err)
  then show ?thesis using assms
    by (auto simp: answers_def waiting_def forget_def add_job_def split: if_splits)
qed (auto simp: answers_def)

section \<open>The service with the handler\<close>

definition jobs_ok :: "svc \<Rightarrow> LCS3Hander \<Rightarrow> bool" where
  "jobs_ok s h \<longleftrightarrow> (\<forall>j \<in> set (jobs h). rq_oid (job_request j) < next_op s)"

lemma jobs_ok_add [simp]: "jobs_ok s (add_job j h) \<longleftrightarrow> rq_oid (job_request j) < next_op s \<and> jobs_ok s h"
  by (auto simp: jobs_ok_def add_job_def)

lemma jobs_ok_aws [simp]: "jobs_ok s (aws c h) = jobs_ok s h"
  by (simp add: jobs_ok_def aws_def)

lemma jobs_ok_dic [simp]: "jobs_ok s (h\<lparr>taskDic := d\<rparr>) = jobs_ok s h"
  by (simp add: jobs_ok_def)

lemma jobs_ok_directory [simp]: "jobs_ok s (p_creatDirectoryByFilePath he p h) = jobs_ok s h"
  by (simp add: p_creatDirectoryByFilePath_def Let_def)

lemma jobs_ok_blocks: "jobs_ok s h \<Longrightarrow> rq_oid rq < next_op s \<Longrightarrow> jobs_ok s (set_blocks rq n h)"
  by (auto simp: set_blocks_def jobs_ok_def add_job_def)

lemma jobs_ok_start: "jobs_ok s h \<Longrightarrow> rq_oid rq < next_op s \<Longrightarrow> jobs_ok s (fst (s3_start he rq t h))"
  by (auto simp: s3_start_def s3_startUpload_def s3_startDownload_def split: option.splits)

lemma jobs_ok_copy: "jobs_ok s h \<Longrightarrow> rq_oid rq < next_op s \<Longrightarrow> jobs_ok s (fst (p_copyTask he rq t old h))"
  by (simp add: p_copyTask_def jobs_ok_start)

lemma jobs_ok_call:
  assumes "jobs_ok s h" "oid < next_op s"
  shows "jobs_ok s (fst (s3_call he db oid c t h))"
proof -
  let ?u = "\<lparr>rq_oid = oid, rq_upload = True, rq_resumed = False\<rparr>" and ?d = "\<lparr>rq_oid = oid, rq_upload = False, rq_resumed = False\<rparr>"
  show ?thesis using assms jobs_ok_start [of s h ?u he t] jobs_ok_start [of s h ?d he t]
      jobs_ok_copy [of s h ?u he t] jobs_ok_copy [of s h ?d he t]
    by (cases c) (auto simp: Let_def s3_call_def lc_fileNetHanderUpload_def lc_fileNetHanderDownload_def s3_start_def
        lc_fileNetHanderResumUploadTask_def lc_fileNetHanderResumDownloadTask_def
        lc_fileNetHanderCancelTask_def lc_fileNetHanderPauseTask_def jobs_ok_blocks split: option.splits)
qed

lemma jobs_ok_cancel: "jobs_ok s h \<Longrightarrow> jobs_ok s (lc_fileNetHanderCancelTask t h)"
  "jobs_ok s h \<Longrightarrow> jobs_ok s (lc_fileNetHanderPauseTask t h)"
  by (simp_all add: lc_fileNetHanderCancelTask_def lc_fileNetHanderPauseTask_def split: option.split)

lemma jobs_ok_hear:
  "jobs_ok s h \<Longrightarrow> (\<And>oid. op = Some oid \<Longrightarrow> oid < next_op s) \<Longrightarrow> jobs_ok s (hear he s' op ns h)"
  by (induction he s' op ns h rule: hear.induct)
    (auto simp: jobs_ok_cancel jobs_ok_call split: hander_call.split option.split)

lemma jobs_ok_load: "jobs_ok s (load_each c keys h) = jobs_ok s h"
  by (induction c keys h rule: load_each.induct) (simp_all add: new_aws_def Let_def aws_def jobs_ok_def)

lemma jobs_ok_event:
  assumes "job_event he t j ev h = Some r" "fits j ev" "jobs_ok s h" "rq_oid (job_request j) < next_op s"
  shows "jobs_ok s (fst r)"
proof -
  have c: "jobs_ok s (fst (copied he rq t old err h))" if "rq_oid rq < next_op s" for rq t old err
    using that jobs_ok_start [OF assms(3) that] by (simp add: copied_def Let_def assms(3) case_prod_beta)
  show ?thesis
  proof (cases "(j, ev)" rule: fits.cases)
    case (1 rq old err)
    then show ?thesis using assms jobs_ok_start [OF assms(3), of rq he t] by (auto split: if_splits)
  next
    case (2 rq old url err)
    then show ?thesis using assms(1,4) c [of rq "t\<lparr>t_url := url\<rparr>" old err] by (auto split: prod.splits)
  next
    case (3 rq old err)
    then show ?thesis
      using assms(1,4) c [of rq "t\<lparr>t_md5 := if err then t_md5 t else Some (md5_of he (t_filePath t))\<rparr>" old err]
      by (auto simp: Let_def split: prod.splits)
  next
    case (4 rq c err)
    then show ?thesis using assms(1,3,4)
      by (auto simp: new_aws_def jobs_ok_def add_job_def split: if_splits option.splits)
  next
    case (6 rq n err)
    then show ?thesis using assms(1,3,4) by (auto simp: forget_def split: if_splits)
  qed (use assms in auto)
qed

text \<open>Operations are only made, so a request keeps naming one.\<close>

definition grows :: "svc \<Rightarrow> svc option \<Rightarrow> bool" where
  "grows s r \<longleftrightarrow> (\<forall>s'. r = Some s' \<longrightarrow> next_op s \<le> next_op s')"

lemma grows_runs: "runs s r \<Longrightarrow> grows s r"
  by (auto simp: runs_def grows_def quiet_def)

lemma grows_simps [simp]: "grows s None" "grows s (Some s') \<longleftrightarrow> next_op s \<le> next_op s'"
  by (simp_all add: grows_def)

lemma grows_bind: "grows s r \<Longrightarrow> (\<And>s'. r = Some s' \<Longrightarrow> grows s' (f s')) \<Longrightarrow> grows s (Option.bind r f)"
  by (cases r) (auto simp: grows_def intro: le_trans)

lemma grows_from: "grows s' r \<Longrightarrow> next_op s = next_op s' \<Longrightarrow> grows s r"
  by (simp add: grows_def)

lemma grows_notifyFinish: "grows s (p_notifyFinish a err s)"
  by (simp add: p_notifyFinish_def Let_def tell_def split: option.split)

lemma grows_addTask: "grows s (p_addTask a q s)"
  by (simp add: p_addTask_def add_operation_def Let_def split: option.split)

lemma next_op_simps [simp]: "next_op (upd_task a f s) = next_op s" "next_op (upd_db g s) = next_op s"
  "next_op (p_setTask a k s) = next_op s" "next_op (snd (alloc_task t s)) = next_op s"
  "next_op (p_notifyStatusChange a s) = next_op s" "next_op (snd (p_checkTask e a s)) = next_op s"
  by (auto simp: upd_task_def upd_db_def p_setTask_def alloc_task_def p_notifyStatusChange_def tell_def
      p_checkTask_def Let_def split: option.split)

lemma grows_start: "grows s (lc_startTask e a q s)"
proof -
  have "grows s (p_saveCallback a s)" by (simp add: p_saveCallback_def split: option.split)
  moreover have "grows s (case p_checkTask e a s of
        (False, s) \<Rightarrow> p_notifyFinish a True s
      | (True, s) \<Rightarrow>
        (case p_getTaskFromCacheByKey (id_of s a) s of
           Some old \<Rightarrow>
             if status_of s old = LCFileNetTaskStatusFinish then p_notifyFinish old False s
             else if resumable (status_of s old) then p_addTask old q s
             else Some s
         | None \<Rightarrow>
             (case lc_getTaskByTaskId (id_of s a) (task_db s) of
                Some row \<Rightarrow>
                  let (d, s) = alloc_task row s;
                      s = p_setTask d (id_of s d) s
                  in if status_of s d = LCFileNetTaskStatusFinish then p_notifyFinish d False s
                     else if status_of s d = LCFileNetTaskStatusProgress
                             \<or> status_of s d = LCFileNetTaskStatusCreate
                     then p_addTask d q (upd_task d (\<lambda>t. t\<lparr>t_status := LCFileNetTaskStatusInterrupt\<rparr>) s)
                     else p_addTask d q s
              | None \<Rightarrow>
                  let s = p_setTask a (id_of s a) s;
                      s = upd_db (\<lambda>rows. snd (lc_saveTask (tasks s a) rows)) s
                  in p_addTask a q s)))" for s
  proof -
    obtain ok s1 where c: "p_checkTask e a s = (ok, s1)" by fastforce
    have n: "next_op s = next_op s1" using next_op_simps(6) [of e a s] c by simp
    have al: "next_op s2 = next_op s1" if "alloc_task row s1 = (d, s2)" for row d s2
      using next_op_simps(4) [of row s1] that by simp
    show ?thesis unfolding c
      by (auto simp: Let_def n al split: bool.split option.split prod.split
          intro: grows_from [OF grows_notifyFinish] grows_from [OF grows_addTask])
  qed
  ultimately show ?thesis unfolding lc_startTask_def by (intro grows_bind)
qed

lemma grows_resume: "grows s (lc_resumTask e i q s)"
  by (auto simp: lc_resumTask_def Let_def get_nil grows_start split: option.split)

lemma grows_map: "grows s r \<Longrightarrow> (\<And>s. next_op (f s) = next_op s) \<Longrightarrow> grows s (map_option f r)"
  by (cases r) simp_all

lemma next_op_cancel: "next_op (op_cancel e oid s) = next_op s"
  using quiet_cancel [of s e oid] by (simp add: quiet_def)

lemma grows_cancel: "grows s (lc_cancelTask e i s)"
  unfolding lc_cancelTask_def Let_def
  by (auto simp: next_op_cancel split: option.split intro!: grows_map grows_from [OF grows_notifyFinish])

lemma grows_pause: "pauses e \<Longrightarrow> grows s (lc_pauseTask e i s)"
  unfolding lc_pauseTask_def
  by (auto split: option.split intro!: grows_map grows_runs [OF runs_pause])

lemma grows_pause_each: "pauses e \<Longrightarrow> grows s (pause_each e ks s)"
  by (induction ks arbitrary: s) (auto intro: grows_bind grows_pause)

lemma grows_pause_all: "pauses e \<Longrightarrow> grows s (lc_pauseAllTask e allKeys s)"
  by (simp add: lc_pauseAllTask_def grows_pause_each)

lemma next_op_get: "next_op (snd (lc_getTask i s)) = next_op s"
proof -
  have "next_op s' = next_op s" if "alloc_task row s = (d, s')" for row d s'
    using next_op_simps(4) [of row s] that by simp
  then show ?thesis by (auto simp: lc_getTask_def Let_def split: option.split prod.split)
qed

lemma pauses_s3 [simp]: "pauses (s3_env he s h oid)"
  by (simp add: pauses_def hander_responds_def s3_env_def)

definition system_ok :: "svc \<times> LCS3Hander \<Rightarrow> bool" where
  "system_ok c \<longleftrightarrow> svc_ok (fst c) \<and> jobs_ok (fst c) (snd c)"

definition safe :: "(svc \<times> LCS3Hander) option \<Rightarrow> bool" where
  "safe r \<longleftrightarrow> (\<exists>c. r = Some c \<and> system_ok c)"

lemma jobs_ok_later: "jobs_ok s h \<Longrightarrow> next_op s \<le> next_op s' \<Longrightarrow> jobs_ok s' h"
  by (auto simp: jobs_ok_def)

lemma safe_after:
  assumes "fine r" "grows s r" "jobs_ok s h" "\<And>oid. op = Some oid \<Longrightarrow> oid < next_op s"
  shows "safe (map_option (after_calls he s op h) r)"
proof -
  obtain s' where s': "r = Some s'" "svc_ok s'" using assms(1) by (auto simp: fine_def)
  then have "next_op s \<le> next_op s'" using assms(2) by simp
  then have "jobs_ok s' (hear he s op ns h)" for ns
    using jobs_ok_later [OF jobs_ok_hear [OF assms(3,4)]] by blast
  then show ?thesis using s' by (simp add: safe_def system_ok_def after_calls_def)
qed

lemma safe_report:
  assumes "svc_ok s" "jobs_ok s h" "i < length (jobs h)" "fits (jobs h ! i) ev"
  shows "safe (s3_report he i ev s h)"
proof -
  define j where j: "j = jobs h ! i"
  define oid where oid: "oid = rq_oid (job_request j)"
  let ?h = "h\<lparr>jobs := without i (jobs h)\<rparr>"
  have op: "oid < next_op s" using assms(2,3) unfolding j oid jobs_ok_def by simp
  have live: "live s oid" using assms(1) op by (simp add: svc_ok_def)
  have h: "jobs_ok s ?h" using assms(2) unfolding jobs_ok_def without_def
    by (auto dest: in_set_takeD in_set_dropD)
  have "job_event he (tasks s (o_task (ops s oid))) j ev ?h \<noteq> None"
    using live assms(4) unfolding j [symmetric] live_def
    by (cases "(j, ev)" rule: fits.cases) (auto simp: Let_def new_aws_def forget_def split: prod.split)
  then obtain h1 rs where e: "job_event he (tasks s (o_task (ops s oid))) j ev ?h = Some (h1, rs)" by auto
  have h1: "jobs_ok s h1" using jobs_ok_event [OF e _ h] assms(4) op unfolding j oid by simp
  have "runs s (run_replies (deliver (s3_env he s h1 oid) (job_request j)) rs s)"
    by (rule runs_replies [OF _ live])
      (simp add: deliver_def oid [symmetric] runs_start_reply runs_resume_reply)
  then have "safe (map_option (after_calls he s (Some oid) h1) (run_replies (deliver (s3_env he s h1 oid) (job_request j)) rs s))"
    using op by (intro safe_after fine_runs [OF assms(1)] grows_runs h1) auto
  then show ?thesis unfolding s3_report_def Let_def j [symmetric] oid [symmetric] e by simp
qed

lemma safe_step:
  assumes "s3_step he (s, h) r" "system_ok (s, h)"
  shows "safe r"
proof -
  have ok: "svc_ok s" "jobs_ok s h" using assms(2) by (simp_all add: system_ok_def)
  note fine = fine_step [OF _ ok(1) pauses_s3]
  have queued: "(oid, q) \<in> set (queued s) \<Longrightarrow> oid < next_op s" for oid q
    using ok(1) by (auto simp: svc_ok_def)
  from assms(1) show ?thesis
  proof (cases rule: s3_step.cases)
    case (new t)
    then show ?thesis using svc_ok_alloc [OF ok(1), of t] ok(2) by (auto simp: safe_def system_ok_def jobs_ok_def)
  next
    case (start a q)
    then show ?thesis by (auto intro!: safe_after ok fine net_step.start grows_start)
  next
    case (resume i q)
    then show ?thesis by (auto intro!: safe_after ok fine net_step.resume grows_resume)
  next
    case (cancel i)
    then show ?thesis by (auto intro!: safe_after ok fine net_step.cancel grows_cancel)
  next
    case (pause i)
    then show ?thesis by (auto intro!: safe_after ok fine net_step.pause grows_pause)
  next
    case (pause_all allKeys)
    then show ?thesis
      by (auto intro!: safe_after ok fine net_step.pause_all grows_pause_all)
  next
    case (update_path key p)
    then show ?thesis using svc_ok_updatetask [OF ok(1)] ok(2) by (auto simp: safe_def system_ok_def jobs_ok_def lc_updatetask_def)
  next
    case (get i)
    then show ?thesis using svc_ok_getTask [OF ok(1)] ok(2) by (auto simp: safe_def system_ok_def jobs_ok_def next_op_get)
  next
    case (queue_start oid q)
    have "live s oid" using ok(1) queued [OF queue_start(2)] by (simp add: svc_ok_def)
    then show ?thesis using queue_start queued [OF queue_start(2)]
      by (auto intro!: safe_after ok fine net_step.queue_start grows_runs [OF runs_op_start])
  next
    case (report i ev)
    then show ?thesis using safe_report [OF ok] by simp
  next
    case (history us ms ds)
    then show ?thesis using ok by (simp add: safe_def system_ok_def loadHistoryAWSTask_def jobs_ok_load)
  qed
qed

text \<open>An example: files that all exist, and the first operation's upload.\<close>

definition s3_ex_env :: hander_env where
  "s3_ex_env = \<lparr>he_fileExists = (\<lambda>_. True), he_md5 = (\<lambda>_. ''m'')\<rparr>"

definition s3_ex_request :: request where
  "s3_ex_request = \<lparr>rq_oid = 0, rq_upload = True, rq_resumed = False\<rparr>"

section \<open>Properties\<close>



text \<open>
  An upload without a file key, which the service accepts, is lost. The handler refuses it
  before it returns, so its end is reported with an error and then the task and its row are set to
  \<open>Progress\<close> for good; the handler is left with nothing to do.
\<close>

lemma S3_upload_without_key:
  assumes "svc_ok s" "id_of s a = Some k" "cache s k = Some a" "o_task (ops s oid) = a"
    "\<not> o_cancelled (ops s oid)" "status_of s a = LCFileNetTaskStatusCreate"
    "t_type (tasks s a) = LCFileNetTaskTypeUpload" "t_fileKey (tasks s a) = None"
    "finished_task (lc_getTaskByMd5 (t_md5 (tasks s a)) (task_db s)) = None"
  shows "\<exists>s'. op_start (s3_env he s h oid) oid s = Some s' \<and> FinishNote a True \<in> set (told s')
    \<and> status_of s' a = LCFileNetTaskStatusProgress
    \<and> fst (s3_call he (task_db s) oid HanderUpload (tasks s a) h) = h
    \<and> (\<forall>e b q s''. id_of s' b = Some k \<longrightarrow> lc_startTask e b q s' = Some s'' \<longrightarrow>
         next_op s'' = next_op s' \<and> queued s'' = queued s')"
proof -
  have call: "s3_call he (task_db s) oid HanderUpload (tasks s a) h = (h, [ReplyFinish True])"
    using assms(8,9) by (simp add: s3_call_def lc_fileNetHanderUpload_def s3_startUpload_def Let_def)
  then have "hander_replies (s3_env he s h oid) HanderUpload (tasks s a) = [ReplyFinish True]"
    by (simp add: hander_replies_def s3_env_def)
  moreover have "hander_responds (s3_env he s h oid) HanderUpload" by (simp add: hander_responds_def s3_env_def)
  ultimately show ?thesis using failed_at_once [OF assms(1-7), of "s3_env he s h oid"] call by auto
qed



lemma S3_upload_without_key_witness:
  "\<exists>s'. op_start (s3_env s3_ex_env ex_started init_s3 0) 0 ex_started = Some s'
     \<and> FinishNote 0 True \<in> set (told s') \<and> status_of s' 0 = LCFileNetTaskStatusProgress"
proof -
  have "t_fileKey (tasks ex_started 0) = None"
    "finished_task (lc_getTaskByMd5 (t_md5 (tasks ex_started 0)) (task_db ex_started)) = None"
    by (simp_all add: ex_started_def net_ex_defs lc_startTask_def p_saveCallback_def p_checkTask_def
      p_getTaskFromCacheByKey_def lookup_def lc_getTaskByTaskId_def p_setTask_def upd_db_def
      upd_task_def lc_saveTask_def insert_or_replace_def p_addTask_def add_operation_def Let_def
      task_columns_def lc_getTaskByMd5_def finished_task_def)
  then show ?thesis
    using S3_upload_without_key [OF ex_started_ok(2), of 0 "''t''" 0 s3_ex_env init_s3]
    by (auto simp: ex_started_facts new_operation_def)
qed

text \<open>
  The transfers of an earlier run are filed under the keys of their objects and looked up under
  the id of the task: unless it is such a key, a resumption fails and the upload starts over.
\<close>

lemma load_each_dic: "dom (taskDic (load_each c keys h)) = dom (taskDic h) \<union> set keys"
  by (induction c keys h rule: load_each.induct) (auto simp: new_aws_def Let_def aws_def)

lemma S3_history_key:
  assumes "t_taskId t = Some k" "k \<notin> set us \<union> set ms \<union> set ds"
  shows "lc_fileNetHanderResumUploadTask oid t (loadHistoryAWSTask us ms ds init_s3)
    = (loadHistoryAWSTask us ms ds init_s3, [ReplyFinish True])"
proof -
  have "k \<notin> dom (taskDic (loadHistoryAWSTask us ms ds init_s3))"
    using assms(2) by (simp add: loadHistoryAWSTask_def load_each_dic init_s3_def del: domIff)
  then have "taskDic (loadHistoryAWSTask us ms ds init_s3) k = None" by (simp add: domIff)
  then show ?thesis by (simp add: lc_fileNetHanderResumUploadTask_def lookup_def assms(1))
qed

end
