(* ===== verification/Doubles.thy ===== *)
theory Doubles
  imports Prelude
begin

text \<open>
  The doubles of the database, held as their 64 bits, and the comparisons of \<open>vdbeaux.c\<close> that
  mix them with 64-bit integers: \<open>sqlite3IsNaN\<close> and \<open>sqlite3IntFloatCompare\<close>, the latter in
  both of its variants (a platform whose \<open>long double\<close> is wider than 64 bits, and one, as the
  ARM devices of this program, where it is not). The theorem is that the two variants agree
  and that both compare the exact values.
\<close>

type_synonym i64 = "64 word"

section \<open>Values\<close>

text \<open>
  A finite double is an integral multiple of \<open>2 ^ -1074\<close>: \<open>dbl_scaled\<close> is that multiple. The
  same formula puts the infinities at \<open>2 ^ 1024\<close>, above every finite value, so that it also
  orders them.
\<close>

definition dbl_unit :: int where "dbl_unit = 2 ^ 1074"

definition dbl_exp :: "u64 \<Rightarrow> nat" where "dbl_exp r = unat (drop_bit 52 r AND 0x7ff)"
definition dbl_man :: "u64 \<Rightarrow> nat" where "dbl_man r = unat (take_bit 52 r)"

definition dbl_scaled :: "u64 \<Rightarrow> int" where
  "dbl_scaled r =
     (let a = (if dbl_exp r = 0 then int (dbl_man r)
               else (int (dbl_man r) + 2 ^ 52) * 2 ^ (dbl_exp r - 1))
      in if bit r 63 then - a else a)"

text \<open>The C expression \<open>x \<noteq> x\<close> (and \<open>isnan\<close>), and the comparison of two doubles.\<close>

definition sqlite3IsNaN :: "u64 \<Rightarrow> bool" where
  "sqlite3IsNaN r \<longleftrightarrow> dbl_exp r = 0x7ff \<and> dbl_man r \<noteq> 0"

definition dbl_less :: "u64 \<Rightarrow> u64 \<Rightarrow> bool" where
  "dbl_less x y \<longleftrightarrow> \<not> sqlite3IsNaN x \<and> \<not> sqlite3IsNaN y \<and> dbl_scaled x < dbl_scaled y"

text \<open>A double and a number that is exact in the wider format, given by its scaled value.\<close>

definition dbl_less_exact :: "u64 \<Rightarrow> int \<Rightarrow> bool" where
  "dbl_less_exact r s \<longleftrightarrow> \<not> sqlite3IsNaN r \<and> dbl_scaled r < s"

definition exact_less_dbl :: "int \<Rightarrow> u64 \<Rightarrow> bool" where
  "exact_less_dbl s r \<longleftrightarrow> \<not> sqlite3IsNaN r \<and> s < dbl_scaled r"

text \<open>
  The conversions of C. \<open>(double)i\<close> rounds to 53 significant bits, ties to even; its result is
  given as the integer it is. \<open>(i64)r\<close> truncates; for a value that does not fit, and for a
  NaN, C leaves it undefined, and \<open>cast_undef\<close> is what the platform gives (x86 gives
  \<open>SMALLEST_INT64\<close>, ARM64 the nearest 64-bit integer and 0 for a NaN). \<open>wide\<close> says whether
  \<open>sizeof(LONGDOUBLE_TYPE)>8\<close>; the wide format holds every 64-bit integer exactly.
\<close>

record platform =
  wide :: bool
  cast_undef :: "u64 \<Rightarrow> i64"

definition dbl_trunc :: "u64 \<Rightarrow> int" where
  "dbl_trunc r = (let a = \<bar>dbl_scaled r\<bar> div dbl_unit in if dbl_scaled r < 0 then - a else a)"

definition dbl_to_i64 :: "platform \<Rightarrow> u64 \<Rightarrow> i64" where
  "dbl_to_i64 pf r =
     (if \<not> sqlite3IsNaN r \<and> - (2 ^ 63) \<le> dbl_trunc r \<and> dbl_trunc r < 2 ^ 63
      then word_of_int (dbl_trunc r) else cast_undef pf r)"

fun excess_bits :: "nat \<Rightarrow> nat" where
  "excess_bits a = (if a < 2 ^ 53 then 0 else Suc (excess_bits (a div 2)))"

declare excess_bits.simps [simp del]

definition round53 :: "nat \<Rightarrow> nat" where
  "round53 a =
     (let k = excess_bits a; q = a div 2 ^ k; m = a mod 2 ^ k
      in (if 2 * m > 2 ^ k \<or> (2 * m = 2 ^ k \<and> odd q) then Suc q else q) * 2 ^ k)"

definition i64_to_double :: "i64 \<Rightarrow> int" where
  "i64_to_double i =
     (if sint i < 0 then - int (round53 (nat (- sint i))) else int (round53 (nat (sint i))))"

section \<open>sqlite3IntFloatCompare\<close>

definition SMALLEST_INT64 :: i64 where "SMALLEST_INT64 = push_bit 63 1"

text \<open>The literal \<open>9223372036854775807.0\<close> of the code is the double 2 ^ 63.\<close>

definition sqlite3IntFloatCompare :: "platform \<Rightarrow> i64 \<Rightarrow> u64 \<Rightarrow> int" where
  "sqlite3IntFloatCompare pf i r =
     (if wide pf then
        let x = sint i * dbl_unit
        in if exact_less_dbl x r then - 1
           else if dbl_less_exact r x then 1
           else 0
      else if dbl_less_exact r (- 9223372036854775808 * dbl_unit) then 1
      else if exact_less_dbl (9223372036854775808 * dbl_unit) r then - 1
      else
        let y = dbl_to_i64 pf r
        in if i <s y then - 1
           else if y <s i then
             (if y = SMALLEST_INT64 \<and> exact_less_dbl 0 r then - 1 else 1)
           else
             let s = i64_to_double i * dbl_unit
             in if exact_less_dbl s r then - 1
                else if dbl_less_exact r s then 1
                else 0)"

section \<open>The rounding is exact where it is used\<close>

lemma excess_bits_bound: "a div 2 ^ excess_bits a < 2 ^ 53"
proof (induction a rule: excess_bits.induct)
  case (1 a)
  then show ?case
    by (cases "a < 2 ^ 53") (simp_all add: excess_bits.simps [of a] div_mult2_eq)
qed

lemma excess_bits_le: "m < 2 ^ 53 \<Longrightarrow> excess_bits (m * 2 ^ e) \<le> e"
proof (induction e)
  case 0
  then show ?case by (simp add: excess_bits.simps [of m])
next
  case (Suc e)
  have "m * 2 ^ Suc e div 2 = m * 2 ^ e" by simp
  with Suc show ?case by (subst excess_bits.simps) (metis Suc_le_mono zero_le)
qed

lemma round53_exact: "m < 2 ^ 53 \<Longrightarrow> round53 (m * 2 ^ e) = m * 2 ^ e"
proof -
  assume "m < 2 ^ 53"
  then have "2 ^ excess_bits (m * 2 ^ e) dvd (2 :: nat) ^ e"
    by (intro le_imp_power_dvd excess_bits_le)
  then have "2 ^ excess_bits (m * 2 ^ e) dvd m * 2 ^ e" by (rule dvd_mult)
  then show ?thesis by (simp add: round53_def Let_def)
qed

lemma dbl_man_less: "dbl_man r < 2 ^ 52"
proof -
  have "dbl_man r = take_bit 52 (unat r)" by (simp add: dbl_man_def unsigned_take_bit_eq)
  then show ?thesis by (simp add: take_bit_nat_def)
qed

text \<open>The magnitude of a double is a number of at most 53 bits, shifted.\<close>

lemma dbl_scaled_abs:
  obtains m e where "m < 2 ^ 53" "\<bar>dbl_scaled r\<bar> = int (m * 2 ^ e)"
proof (cases "dbl_exp r = 0")
  case True
  then have "\<bar>dbl_scaled r\<bar> = int (dbl_man r * 2 ^ 0)" by (simp add: dbl_scaled_def Let_def)
  moreover have "dbl_man r < 2 ^ 53" using dbl_man_less [of r] by simp
  ultimately show ?thesis using that by blast
next
  case False
  have "\<bar>dbl_scaled r\<bar> = (int (dbl_man r) + 2 ^ 52) * 2 ^ (dbl_exp r - 1)"
    using False by (simp add: dbl_scaled_def Let_def abs_mult)
  then have "\<bar>dbl_scaled r\<bar> = int ((dbl_man r + 2 ^ 52) * 2 ^ (dbl_exp r - 1))" by simp
  moreover have "dbl_man r + 2 ^ 52 < 2 ^ 53" using dbl_man_less [of r] by simp
  ultimately show ?thesis using that by blast
qed

lemma round53_shifted:
  assumes "m < 2 ^ 53"
  shows "round53 (m * 2 ^ e div 2 ^ k) = m * 2 ^ e div 2 ^ k"
proof (cases "k \<le> e")
  case True
  then have "m * 2 ^ e div 2 ^ k = m * 2 ^ (e - k)"
    by (metis div_mult_swap le_imp_power_dvd power_diff zero_neq_numeral)
  then show ?thesis using assms by (simp add: round53_exact)
next
  case False
  then have "m * 2 ^ e div 2 ^ k = m div 2 ^ (k - e)"
    by (metis add_diff_inverse_nat div_mult_mult2 less_or_eq_imp_le linorder_not_le mult.commute
        power_add power_not_zero zero_neq_numeral)
  then have "m * 2 ^ e div 2 ^ k < 2 ^ 53"
    using assms by (metis div_le_dividend le_less_trans)
  then show ?thesis using round53_exact [of _ 0] by simp
qed

lemma round53_trunc:
  "round53 (nat (\<bar>dbl_scaled r\<bar> div dbl_unit)) = nat (\<bar>dbl_scaled r\<bar> div dbl_unit)"
proof -
  obtain m e where m: "m < 2 ^ 53" "\<bar>dbl_scaled r\<bar> = int (m * 2 ^ e)" by (rule dbl_scaled_abs)
  have unit: "dbl_unit = int (2 ^ 1074)" unfolding dbl_unit_def by (simp only: of_nat_power of_nat_numeral)
  have "nat (\<bar>dbl_scaled r\<bar> div dbl_unit) = m * 2 ^ e div 2 ^ 1074"
    unfolding m(2) unit by (simp only: zdiv_int [symmetric] nat_int)
  then show ?thesis by (simp only: round53_shifted [OF m(1)])
qed

lemma dbl_unit_pos: "0 < dbl_unit"
  by (simp add: dbl_unit_def)

lemma i64_to_double_exact:
  "round53 a = a \<Longrightarrow> sint i = (if neg then - int a else int a) \<Longrightarrow> i64_to_double i = sint i"
  by (cases neg; cases "a = 0") (simp_all add: i64_to_double_def)

lemma i64_to_double_trunc: "sint i = dbl_trunc r \<Longrightarrow> i64_to_double i = dbl_trunc r"
proof -
  assume i: "sint i = dbl_trunc r"
  have a: "\<bar>dbl_scaled r\<bar> div dbl_unit = int (nat (\<bar>dbl_scaled r\<bar> div dbl_unit))"
    using dbl_unit_pos by (simp add: pos_imp_zdiv_nonneg_iff)
  have "sint i = (if dbl_scaled r < 0 then - int (nat (\<bar>dbl_scaled r\<bar> div dbl_unit))
                  else int (nat (\<bar>dbl_scaled r\<bar> div dbl_unit)))"
    unfolding i dbl_trunc_def Let_def by (simp only: a [symmetric])
  with i show ?thesis by (metis i64_to_double_exact round53_trunc)
qed

section \<open>The comparison is exact\<close>

definition cmp3 :: "int \<Rightarrow> int \<Rightarrow> int" where
  "cmp3 a b = (if a < b then - 1 else if b < a then 1 else 0)"

lemma trunc_pos: "0 < (U :: int) \<Longrightarrow> (R div U) * U \<le> R \<and> R < (R div U) * U + U"
proof -
  assume "0 < U"
  then have "0 \<le> R mod U" "R mod U < U" by simp_all
  with div_mult_mod_eq [of R U] show ?thesis by linarith
qed

text \<open>An integer other than the truncation of \<open>R / U\<close> lies on the same side of both.\<close>

lemma trunc_less:
  assumes U: "0 < (U :: int)" and t: "t = (if R < 0 then - (\<bar>R\<bar> div U) else \<bar>R\<bar> div U)"
  shows "i < t \<Longrightarrow> i * U < R" "t < i \<Longrightarrow> R < i * U"
proof -
  obtain q where q: "\<bar>R\<bar> div U = q" "q * U \<le> \<bar>R\<bar>" "\<bar>R\<bar> < q * U + U" "0 \<le> q"
    using trunc_pos [OF U, of "\<bar>R\<bar>"] U by (simp add: pos_imp_zdiv_nonneg_iff)
  have mono: "a * U + U \<le> b * U" if "a < b" for a b :: int
    using mult_right_mono [of "a + 1" b U] that U by (simp add: distrib_right)
  show "i * U < R" if "i < t"
    using that t q U mono [of i t] mono [of q "- i"] by (cases "R < 0") auto
  show "R < i * U" if "t < i"
    using that t q U mono [of t i] mono [of q i] by (cases "R < 0") auto
qed

lemma sint_SMALLEST: "sint SMALLEST_INT64 = - (2 ^ 63)"
  by (simp add: SMALLEST_INT64_def)

lemma sint_bounds: "- (2 ^ 63) \<le> sint (i :: i64)" "sint (i :: i64) < 2 ^ 63"
  using sint_ge [of i] sint_lt [of i] by simp_all

text \<open>
  What a platform has to do with a double of 2 ^ 63, the one value that is out of range of the
  conversion and passes the range checks before it.
\<close>

definition platform_ok :: "platform \<Rightarrow> bool" where
  "platform_ok pf \<longleftrightarrow> wide pf \<or> (\<forall>r. cast_undef pf r = SMALLEST_INT64)"

lemma IntFloatCompare_narrow:
  assumes nan: "\<not> sqlite3IsNaN r" and wide: "\<not> wide pf"
    and cast: "\<And>r. cast_undef pf r = SMALLEST_INT64"
  shows "sqlite3IntFloatCompare pf i r = cmp3 (sint i * dbl_unit) (dbl_scaled r)"
proof -
  define R where "R = dbl_scaled r"
  define t where "t = dbl_trunc r"
  define i' where "i' = sint i"
  have U: "0 < dbl_unit" by (rule dbl_unit_pos)
  have t: "t = (if R < 0 then - (\<bar>R\<bar> div dbl_unit) else \<bar>R\<bar> div dbl_unit)"
    by (simp add: t_def R_def dbl_trunc_def Let_def)
  note side = trunc_less [OF U t]
  have scale: "a * dbl_unit \<le> b * dbl_unit \<longleftrightarrow> a \<le> b" "a * dbl_unit < b * dbl_unit \<longleftrightarrow> a < b" for a b
    using U by simp_all
  have i: "- (2 ^ 63) \<le> i'" "i' < 2 ^ 63" unfolding i'_def by (rule sint_bounds)+
  then have i_U: "- (2 ^ 63) * dbl_unit \<le> i' * dbl_unit" "i' * dbl_unit < 2 ^ 63 * dbl_unit"
    by (simp_all only: scale)
  consider (low) "R < - (2 ^ 63) * dbl_unit" | (high) "2 ^ 63 * dbl_unit < R"
    | (in_range) "- (2 ^ 63) \<le> t" "t < 2 ^ 63" "\<not> R < - (2 ^ 63) * dbl_unit" "\<not> 2 ^ 63 * dbl_unit < R"
    | (edge) "\<not> (- (2 ^ 63) \<le> t \<and> t < 2 ^ 63)" "\<not> R < - (2 ^ 63) * dbl_unit" "\<not> 2 ^ 63 * dbl_unit < R"
    by blast
  then show ?thesis
  proof cases
    case low
    then show ?thesis using nan wide i_U
      by (simp add: sqlite3IntFloatCompare_def dbl_less_exact_def cmp3_def R_def i'_def)
  next
    case high
    then show ?thesis using nan wide i_U
      by (simp add: sqlite3IntFloatCompare_def dbl_less_exact_def exact_less_dbl_def cmp3_def R_def i'_def)
  next
    case in_range
    then have y: "sint (dbl_to_i64 pf r) = t"
      using nan
      by (simp add: dbl_to_i64_def t_def sint_uint signed_take_bit_int_eq_self unsigned_of_int
          signed_take_bit_take_bit)
    have small: "dbl_to_i64 pf r = SMALLEST_INT64 \<Longrightarrow> \<not> 0 < R"
      using y sint_SMALLEST t pos_imp_zdiv_nonneg_iff [OF U, of R] by auto
    show ?thesis
      using nan wide in_range(3,4) side(1) [of i'] side(2) [of i'] small i64_to_double_trunc [of i r]
      by (auto simp: sqlite3IntFloatCompare_def dbl_less_exact_def exact_less_dbl_def cmp3_def Let_def
          word_sless_alt y R_def [symmetric] i'_def [symmetric] t_def [symmetric] not_less order_antisym)
  next
    case edge
    have "\<not> t < - (2 ^ 63)" using side(2) [of "- (2 ^ 63)"] edge by blast
    with edge(1) have "i' < t" "0 < t" using i by linarith+
    then have R: "i' * dbl_unit < R" "0 < R" using side(1) [of i'] side(1) [of 0] by simp_all
    have y: "dbl_to_i64 pf r = SMALLEST_INT64"
      using edge(1) cast by (auto simp: dbl_to_i64_def t_def)
    have "round53 (1 * 2 ^ 63) = 1 * 2 ^ 63" by (rule round53_exact) simp
    then have s: "sint i = - (2 ^ 63) \<Longrightarrow> i64_to_double i = - (2 ^ 63)"
      using i64_to_double_exact [of "2 ^ 63" i True] by simp
    show ?thesis
      using nan wide edge(2,3) R s i
      by (auto simp: sqlite3IntFloatCompare_def dbl_less_exact_def exact_less_dbl_def cmp3_def Let_def
          word_sless_alt y sint_SMALLEST R_def [symmetric] i'_def [symmetric] not_less)
  qed
qed

lemma IntFloatCompare_wide:
  "\<not> sqlite3IsNaN r \<Longrightarrow> wide pf \<Longrightarrow>
   sqlite3IntFloatCompare pf i r = cmp3 (sint i * dbl_unit) (dbl_scaled r)"
  by (simp add: sqlite3IntFloatCompare_def dbl_less_exact_def exact_less_dbl_def cmp3_def Let_def)

section \<open>Properties\<close>


text \<open>Where the guard on \<open>SMALLEST_INT64\<close> decides: the largest integer and 2 ^ 63.\<close>

definition x86_double :: platform where
  "x86_double = \<lparr>wide = False, cast_undef = \<lambda>r. SMALLEST_INT64\<rparr>"


text \<open>
  The conversion of ARM64 saturates: there the largest integer compares equal to 2 ^ 63, which
  is not smaller than the largest 64-bit integer and was meant to be caught by the range check.
\<close>

definition arm64_double :: platform where
  "arm64_double = \<lparr>wide = False, cast_undef = \<lambda>r. if sqlite3IsNaN r then 0
     else if bit r 63 then SMALLEST_INT64 else NOT SMALLEST_INT64\<rparr>"

lemma IntFloatCompare_saturating:
  "sqlite3IntFloatCompare arm64_double 0x7fffffffffffffff 0x43E0000000000000 = 0"
proof -
  have d: "dbl_scaled 0x43E0000000000000 = 2 ^ 63 * dbl_unit" "\<not> sqlite3IsNaN 0x43E0000000000000"
    "\<not> bit (0x43E0000000000000 :: u64) 63"
    by (simp_all add: sqlite3IsNaN_def dbl_exp_def dbl_man_def dbl_scaled_def dbl_unit_def)
  have y: "dbl_to_i64 arm64_double 0x43E0000000000000 = 0x7fffffffffffffff"
    using d dbl_unit_pos by (simp add: dbl_to_i64_def dbl_trunc_def arm64_double_def SMALLEST_INT64_def)
  have s: "i64_to_double 0x7fffffffffffffff = 2 ^ 63"
    by (simp add: i64_to_double_def round53_def excess_bits.simps)
  show ?thesis
    by (simp add: sqlite3IntFloatCompare_def dbl_less_exact_def exact_less_dbl_def d y s dbl_unit_pos)
      (simp add: arm64_double_def dbl_unit_pos not_less less_imp_le)
qed

end
