(* ===== verification/RecordFormat.thy ===== *)
theory RecordFormat
  imports Varint Doubles
begin

text \<open>
  The record format of the database (\<open>vdbeaux.c\<close> and the opcode \<open>MakeRecord\<close> of \<open>vdbe.c\<close>):
  the serial type of a value, the bytes of a value, the construction of a record from the
  registers of a row, and its decoding.

  A \<open>Mem\<close> is the tagged union its flags make of it. A string or blob is the pointer \<open>z\<close> (the
  bytes from it to the end of its buffer) and the length \<open>n\<close>, so that a value that claims more
  bytes than its buffer has can be told; \<open>MEM_Zero\<close> adds \<open>nZero\<close> zero bytes that are not
  stored. A C routine that reads or writes outside a buffer is \<open>None\<close>.
\<close>

datatype vmem =
    MEM_Null
  | MEM_Int i64
  | MEM_Real u64
  | MEM_Str "u8 list" nat
  | MEM_Blob "u8 list" nat "nat option"

section \<open>Serial types\<close>

definition MAX_6BYTE :: u64 where "MAX_6BYTE = push_bit 32 0x8000 - 1"

text \<open>The serial type of a value and the number of bytes it takes in the record.\<close>

definition sqlite3VdbeSerialType :: "vmem \<Rightarrow> nat \<Rightarrow> u32 \<times> u32" where
  "sqlite3VdbeSerialType pMem file_format =
     (case pMem of
        MEM_Null \<Rightarrow> (0, 0)
      | MEM_Int i \<Rightarrow>
          (let u = (if i <s 0 then NOT i else i)
           in if u \<le> 127 then
                (if i AND 1 = i \<and> file_format \<ge> 4 then (8 + ucast u, 0) else (1, 1))
              else if u \<le> 32767 then (2, 2)
              else if u \<le> 8388607 then (3, 3)
              else if u \<le> 2147483647 then (4, 4)
              else if u \<le> MAX_6BYTE then (5, 6)
              else (6, 8))
      | MEM_Real r \<Rightarrow> (7, 8)
      | MEM_Str z n \<Rightarrow> (of_nat n * 2 + 12 + 1, of_nat n)
      | MEM_Blob z n nZero \<Rightarrow>
          (let n = of_nat n + (case nZero of None \<Rightarrow> 0 | Some k \<Rightarrow> of_nat k)
           in (n * 2 + 12, n)))"

definition sqlite3SmallTypeSizes :: "nat list" where
  "sqlite3SmallTypeSizes =
    [0, 1, 2, 3, 4, 6, 8, 8, 0, 0,
     0, 0, 0, 0, 1, 1, 2, 2, 3, 3,
     4, 4, 5, 5, 6, 6, 7, 7, 8, 8,
     9, 9, 10, 10, 11, 11, 12, 12, 13, 13,
     14, 14, 15, 15, 16, 16, 17, 17, 18, 18,
     19, 19, 20, 20, 21, 21, 22, 22, 23, 23,
     24, 24, 25, 25, 26, 26, 27, 27, 28, 28,
     29, 29, 30, 30, 31, 31, 32, 32, 33, 33,
     34, 34, 35, 35, 36, 36, 37, 37, 38, 38,
     39, 39, 40, 40, 41, 41, 42, 42, 43, 43,
     44, 44, 45, 45, 46, 46, 47, 47, 48, 48,
     49, 49, 50, 50, 51, 51, 52, 52, 53, 53,
     54, 54, 55, 55, 56, 56, 57, 57]"

definition sqlite3VdbeSerialTypeLen :: "u32 \<Rightarrow> nat" where
  "sqlite3VdbeSerialTypeLen serial_type =
     (if serial_type \<ge> 128 then unat ((serial_type - 12) div 2)
      else sqlite3SmallTypeSizes ! unat serial_type)"

definition sqlite3VdbeOneByteSerialTypeLen :: "u8 \<Rightarrow> nat" where
  "sqlite3VdbeOneByteSerialTypeLen serial_type = sqlite3SmallTypeSizes ! unat serial_type"

section \<open>The bytes of a value\<close>

text \<open>
  The loop of \<open>sqlite3VdbeSerialPut\<close> fills \<open>buf[0..i-1]\<close> from its end, a byte of \<open>v\<close> at a
  time.
\<close>

fun serialPut_loop :: "nat \<Rightarrow> u64 \<Rightarrow> u8 list" where
  "serialPut_loop 0 v = []"
| "serialPut_loop (Suc i) v = serialPut_loop i (drop_bit 8 v) @ [ucast (v AND 0xFF)]"

definition sqlite3VdbeSerialPut :: "vmem \<Rightarrow> u32 \<Rightarrow> u8 list option" where
  "sqlite3VdbeSerialPut pMem serial_type =
     (if serial_type \<le> 7 \<and> serial_type > 0 then
        (case pMem of
           MEM_Int v \<Rightarrow> Some (serialPut_loop (sqlite3SmallTypeSizes ! unat serial_type) v)
         | MEM_Real v \<Rightarrow> Some (serialPut_loop (sqlite3SmallTypeSizes ! unat serial_type) v)
         | _ \<Rightarrow> None)
      else if serial_type \<ge> 12 then
        (case pMem of
           MEM_Str z n \<Rightarrow> if n \<le> length z then Some (take n z) else None
         | MEM_Blob z n nZero \<Rightarrow> if n \<le> length z then Some (take n z) else None
         | _ \<Rightarrow> None)
      else Some [])"

text \<open>
  The macros that read a big-endian integer. Their value is an \<open>int\<close> (\<open>u32\<close> for
  \<open>FOUR_BYTE_UINT\<close>): the product with the sign-extended first byte, joined with the others.
\<close>

definition ONE_BYTE_INT :: "u8 list \<Rightarrow> u32 option" where
  "ONE_BYTE_INT x = do { a \<leftarrow> rd x 0; Some (scast a) }"

definition TWO_BYTE_INT :: "u8 list \<Rightarrow> u32 option" where
  "TWO_BYTE_INT x = do { a \<leftarrow> rd x 0; b \<leftarrow> rd x 1; Some (256 * scast a OR ucast b) }"

definition THREE_BYTE_INT :: "u8 list \<Rightarrow> u32 option" where
  "THREE_BYTE_INT x = do {
     a \<leftarrow> rd x 0; b \<leftarrow> rd x 1; c \<leftarrow> rd x 2;
     Some (65536 * scast a OR push_bit 8 (ucast b) OR ucast c) }"

definition FOUR_BYTE_UINT :: "u8 list \<Rightarrow> u32 option" where
  "FOUR_BYTE_UINT x = do {
     a \<leftarrow> rd x 0; b \<leftarrow> rd x 1; c \<leftarrow> rd x 2; d \<leftarrow> rd x 3;
     Some (push_bit 24 (ucast a) OR push_bit 16 (ucast b) OR push_bit 8 (ucast c) OR ucast d) }"

definition FOUR_BYTE_INT :: "u8 list \<Rightarrow> u32 option" where
  "FOUR_BYTE_INT x = do {
     a \<leftarrow> rd x 0; b \<leftarrow> rd x 1; c \<leftarrow> rd x 2; d \<leftarrow> rd x 3;
     Some (16777216 * scast a OR push_bit 16 (ucast b) OR push_bit 8 (ucast c) OR ucast d) }"

text \<open>The 6-byte and 8-byte integers put two of them together.\<close>

definition SIX_BYTE_INT :: "u8 list \<Rightarrow> i64 option" where
  "SIX_BYTE_INT buf = do {
     lo \<leftarrow> FOUR_BYTE_UINT (drop 2 buf); hi \<leftarrow> TWO_BYTE_INT buf;
     Some (ucast lo + push_bit 32 1 * scast hi) }"

definition serialGet :: "u8 list \<Rightarrow> u32 \<Rightarrow> (vmem \<times> nat) option" where
  "serialGet buf serial_type = do {
     x \<leftarrow> FOUR_BYTE_UINT buf;
     y \<leftarrow> FOUR_BYTE_UINT (drop 4 buf);
     (let v = push_bit 32 (ucast x) + ucast y :: u64
      in Some (if serial_type = 6 then MEM_Int v
               else if sqlite3IsNaN v then MEM_Null else MEM_Real v, 8)) }"

text \<open>The value read and the number of bytes it takes.\<close>

definition sqlite3VdbeSerialGet :: "u8 list \<Rightarrow> u32 \<Rightarrow> (vmem \<times> nat) option" where
  "sqlite3VdbeSerialGet buf serial_type =
     (if serial_type = 10 \<or> serial_type = 11 \<or> serial_type = 0 then Some (MEM_Null, 0)
      else if serial_type = 1 then do { i \<leftarrow> ONE_BYTE_INT buf; Some (MEM_Int (scast i), 1) }
      else if serial_type = 2 then do { i \<leftarrow> TWO_BYTE_INT buf; Some (MEM_Int (scast i), 2) }
      else if serial_type = 3 then do { i \<leftarrow> THREE_BYTE_INT buf; Some (MEM_Int (scast i), 3) }
      else if serial_type = 4 then do { i \<leftarrow> FOUR_BYTE_INT buf; Some (MEM_Int (scast i), 4) }
      else if serial_type = 5 then do { i \<leftarrow> SIX_BYTE_INT buf; Some (MEM_Int i, 6) }
      else if serial_type = 6 \<or> serial_type = 7 then serialGet buf serial_type
      else if serial_type = 8 \<or> serial_type = 9 then Some (MEM_Int (ucast (serial_type - 8)), 0)
      else
        let n = unat ((serial_type - 12) div 2)
        in Some (if serial_type AND 1 = 1 then MEM_Str buf n else MEM_Blob buf n None, n))"

section \<open>Integers of one to eight bytes\<close>

text \<open>
  A value fits in \<open>m + 1\<close> bits when its bits from \<open>m\<close> up are all its sign; that is what the
  tests of \<open>sqlite3VdbeSerialType\<close> on \<open>u\<close> find out.
\<close>

definition fits :: "nat \<Rightarrow> i64 \<Rightarrow> bool" where
  "fits m i \<longleftrightarrow> (\<forall>n. m \<le> n \<longrightarrow> n < 64 \<longrightarrow> bit i n = bit i 63)"

lemma le_mask_bit: "w \<le> mask m \<Longrightarrow> m \<le> n \<Longrightarrow> \<not> bit (w :: u64) n"
proof -
  assume "w \<le> mask m" and n: "m \<le> n"
  then have "uint w \<le> mask (min 64 m)" by (simp add: word_le_def uint_mask_eq)
  also have "\<dots> < 2 ^ min 64 m" by (simp add: mask_eq_exp_minus_1)
  also have "\<dots> \<le> 2 ^ m" by (simp add: power_increasing)
  finally have "uint w < 2 ^ m" .
  then have "take_bit m (uint w) = uint w" by (intro take_bit_int_eq_self) simp_all
  then have "\<not> bit (uint w) n" using n by (metis bit_take_bit_iff not_less)
  then show ?thesis by (auto simp: bit_uint_iff dest: bit_imp_le_length)
qed

lemma fits_bound:
  assumes "(if i <s 0 then NOT i else i) \<le> (of_nat (2 ^ m - 1) :: u64)" and "m < 64"
  shows "fits m i"
proof -
  let ?u = "if i <s 0 then NOT i else i"
  have "of_nat (2 ^ m - 1) = (mask m :: u64)" by (simp add: mask_eq_exp_minus_1 of_nat_diff)
  then have u: "\<not> bit ?u n" if "m \<le> n" for n
    using assms(1) le_mask_bit that by metis
  have "i <s 0 \<longleftrightarrow> bit i 63" by (simp add: word_sless_alt bit_last_iff [symmetric])
  with u assms(2) show ?thesis
    unfolding fits_def by (auto simp: bit_simps split: if_splits)
qed

lemma mult_256: "256 * (x :: u32) = push_bit 8 x"
  and mult_65536: "65536 * (x :: u32) = push_bit 16 x"
  and mult_16777216: "16777216 * (x :: u32) = push_bit 24 x"
  by (simp_all add: push_bit_eq_mult mult.commute)

lemmas int_simps = mult_256 mult_65536 mult_16777216

lemma ucast_mask8: "ucast (v AND 0xFF :: u64) = (ucast v :: u8)"
  by (rule bit_eq8) (simp add: bit_simps)

lemma serialPut_Suc: "serialPut_loop (Suc i) v = serialPut_loop i (drop_bit 8 v) @ [ucast v]"
  by (simp add: ucast_mask8)

lemma serialPut_1: "serialPut_loop 1 v = [ucast v]"
  by (simp add: serialPut_Suc ucast_mask8)

lemma serialPut_2: "serialPut_loop 2 v = [ucast (drop_bit 8 v), ucast v]"
  using serialPut_Suc [of 1 v] by (simp only: serialPut_1 Suc_1 append.simps)

lemma serialPut_3: "serialPut_loop 3 v = [ucast (drop_bit 16 v), ucast (drop_bit 8 v), ucast v]"
  using serialPut_Suc [of 2 v] by (simp add: serialPut_2 numeral_3_eq_3 drop_bit_drop_bit)

lemma serialPut_4:
  "serialPut_loop 4 v = [ucast (drop_bit 24 v), ucast (drop_bit 16 v), ucast (drop_bit 8 v), ucast v]"
  using serialPut_Suc [of 3 v] by (simp add: serialPut_3 drop_bit_drop_bit)

lemma serialPut_5:
  "serialPut_loop 5 v = [ucast (drop_bit 32 v), ucast (drop_bit 24 v), ucast (drop_bit 16 v),
     ucast (drop_bit 8 v), ucast v]"
  using serialPut_Suc [of 4 v] by (simp add: serialPut_4 drop_bit_drop_bit)

lemma serialPut_6:
  "serialPut_loop 6 v = [ucast (drop_bit 40 v), ucast (drop_bit 32 v), ucast (drop_bit 24 v),
     ucast (drop_bit 16 v), ucast (drop_bit 8 v), ucast v]"
  using serialPut_Suc [of 5 v] by (simp add: serialPut_5 drop_bit_drop_bit)

lemma serialPut_8:
  "serialPut_loop 8 v = [ucast (drop_bit 56 v), ucast (drop_bit 48 v), ucast (drop_bit 40 v),
     ucast (drop_bit 32 v), ucast (drop_bit 24 v), ucast (drop_bit 16 v), ucast (drop_bit 8 v), ucast v]"
  using serialPut_Suc [of 7 v] serialPut_Suc [of 6 "drop_bit 8 v"]
  by (simp add: serialPut_6 drop_bit_drop_bit)

lemma serialPut_length [simp]: "length (serialPut_loop k v) = k"
  by (induction k arbitrary: v) simp_all

lemma fitsD: "fits m i \<Longrightarrow> list_all (\<lambda>n. m \<le> n \<longrightarrow> bit i n = bit i 63) [0..<64]"
  unfolding fits_def list_all_iff by (metis atLeastLessThan_iff set_upt)

lemma sign_ext_8: "fits 7 i \<Longrightarrow> scast (scast (ucast i :: u8) :: u32) = i"
  by (rule bit_eq64, drule fitsD) (simp add: upt_64 bit_simps)

lemma sign_ext_16:
  "fits 15 i \<Longrightarrow> scast (push_bit 8 (scast (ucast (drop_bit 8 i) :: u8)) OR ucast (ucast i :: u8) :: u32) = i"
  by (rule bit_eq64, drule fitsD) (simp add: upt_64 bit_simps)
lemma sign_ext_24:
  "fits 23 i \<Longrightarrow> scast (push_bit 16 (scast (ucast (drop_bit 16 i) :: u8))
     OR push_bit 8 (ucast (ucast (drop_bit 8 i) :: u8)) OR ucast (ucast i :: u8) :: u32) = i"
  by (rule bit_eq64, drule fitsD) (simp add: upt_64 bit_simps)

lemma sign_ext_32:
  "fits 31 i \<Longrightarrow> scast (push_bit 24 (scast (ucast (drop_bit 24 i) :: u8))
     OR push_bit 16 (ucast (ucast (drop_bit 16 i) :: u8))
     OR push_bit 8 (ucast (ucast (drop_bit 8 i) :: u8)) OR ucast (ucast i :: u8) :: u32) = i"
  by (rule bit_eq64, drule fitsD) (simp add: upt_64 bit_simps)

lemma join_32:
  "push_bit 24 (ucast (ucast (drop_bit 24 v) :: u8)) OR push_bit 16 (ucast (ucast (drop_bit 16 v) :: u8))
     OR push_bit 8 (ucast (ucast (drop_bit 8 v) :: u8)) OR ucast (ucast v :: u8) = (ucast (v :: u64) :: u32)"
  by (rule bit_eq32) (simp add: bit_simps)

lemma disjoint_sum: "ucast (lo :: u32) + push_bit 32 h = (ucast lo OR push_bit 32 h :: u64)"
  by (rule disjunctive_add) (auto simp: bit_simps u32_bit_ge)

lemma sign_ext_48:
  "fits 47 i \<Longrightarrow> ucast (ucast i :: u32) + push_bit 32 1 * scast (push_bit 8 (scast (ucast (drop_bit 40 i) :: u8))
     OR ucast (ucast (drop_bit 32 i) :: u8) :: u32) = i"
proof -
  assume i: "fits 47 i"
  have "push_bit 32 1 * x = push_bit 32 x" for x :: u64 by (simp add: push_bit_eq_mult)
  then show ?thesis
    unfolding disjoint_sum using i
    by (simp only: disjoint_sum) (rule bit_eq64, drule fitsD, simp add: upt_64 bit_simps)
qed

lemma join_64: "push_bit 32 (ucast (ucast (drop_bit 32 v) :: u32)) + ucast (ucast v :: u32) = (v :: u64)"
  by (subst add.commute, subst disjoint_sum, rule bit_eq64) (simp add: bit_simps)

lemma FOUR_BYTE_UINT_put: "FOUR_BYTE_UINT (serialPut_loop 4 v @ s) = Some (ucast v)"
  by (simp add: FOUR_BYTE_UINT_def serialPut_4 join_32)
lemmas byte_int_defs = ONE_BYTE_INT_def TWO_BYTE_INT_def THREE_BYTE_INT_def FOUR_BYTE_INT_def
  FOUR_BYTE_UINT_def

lemma get_put_1: "fits 7 i \<Longrightarrow> sqlite3VdbeSerialGet (serialPut_loop 1 i @ s) 1 = Some (MEM_Int i, 1)"
  by (simp add: sqlite3VdbeSerialGet_def ONE_BYTE_INT_def ucast_mask8 sign_ext_8)

lemma get_put_2: "fits 15 i \<Longrightarrow> sqlite3VdbeSerialGet (serialPut_loop 2 i @ s) 2 = Some (MEM_Int i, 2)"
  by (simp add: sqlite3VdbeSerialGet_def TWO_BYTE_INT_def serialPut_2 mult_256 sign_ext_16)

lemma get_put_3: "fits 23 i \<Longrightarrow> sqlite3VdbeSerialGet (serialPut_loop 3 i @ s) 3 = Some (MEM_Int i, 3)"
  by (simp add: sqlite3VdbeSerialGet_def THREE_BYTE_INT_def serialPut_3 mult_65536 sign_ext_24)

lemma get_put_4: "fits 31 i \<Longrightarrow> sqlite3VdbeSerialGet (serialPut_loop 4 i @ s) 4 = Some (MEM_Int i, 4)"
  by (simp add: sqlite3VdbeSerialGet_def FOUR_BYTE_INT_def serialPut_4 mult_16777216 sign_ext_32)

lemma SIX_BYTE_INT_put: "fits 47 i \<Longrightarrow> SIX_BYTE_INT (serialPut_loop 6 i @ s) = Some i"
  using sign_ext_48 [of i]
  by (simp add: SIX_BYTE_INT_def TWO_BYTE_INT_def FOUR_BYTE_UINT_def serialPut_6 mult_256 join_32)

lemma get_put_5: "fits 47 i \<Longrightarrow> sqlite3VdbeSerialGet (serialPut_loop 6 i @ s) 5 = Some (MEM_Int i, 6)"
  by (simp add: sqlite3VdbeSerialGet_def SIX_BYTE_INT_put)

lemma FOUR_BYTE_UINT_put_8:
  "FOUR_BYTE_UINT (serialPut_loop 8 v @ s) = Some (ucast (drop_bit 32 v))"
  "FOUR_BYTE_UINT (drop 4 (serialPut_loop 8 v @ s)) = Some (ucast v)"
  using join_32 [of "drop_bit 32 v"] join_32 [of v]
  by (simp_all add: FOUR_BYTE_UINT_def serialPut_8 drop_bit_drop_bit)

lemma serialGet_put:
  "serialGet (serialPut_loop 8 v @ s) t =
     Some (if t = 6 then MEM_Int v else if sqlite3IsNaN v then MEM_Null else MEM_Real v, 8)"
  by (simp only: serialGet_def FOUR_BYTE_UINT_put_8 Option.bind.bind_lunit Let_def join_64)

lemma get_put_6: "sqlite3VdbeSerialGet (serialPut_loop 8 i @ s) 6 = Some (MEM_Int i, 8)"
  by (simp add: sqlite3VdbeSerialGet_def serialGet_put)

lemma get_put_7:
  "\<not> sqlite3IsNaN r \<Longrightarrow> sqlite3VdbeSerialGet (serialPut_loop 8 r @ s) 7 = Some (MEM_Real r, 8)"
  by (simp add: sqlite3VdbeSerialGet_def serialGet_put)

lemmas get_put = get_put_1 get_put_2 get_put_3 get_put_4 get_put_5 get_put_6 get_put_7
section \<open>Values\<close>

text \<open>What a \<open>Mem\<close> stands for.\<close>

datatype sql_value = Null | Integer int | Real u64 | Text "u8 list" | Blob "u8 list"

fun mem_value :: "vmem \<Rightarrow> sql_value" where
  "mem_value MEM_Null = Null"
| "mem_value (MEM_Int i) = Integer (sint i)"
| "mem_value (MEM_Real r) = Real r"
| "mem_value (MEM_Str z n) = Text (take n z)"
| "mem_value (MEM_Blob z n nZero) = Blob (take n z @ replicate (case nZero of None \<Rightarrow> 0 | Some k \<Rightarrow> k) 0)"

text \<open>The bytes a text or blob has, its unstored zeros included.\<close>

fun mem_len :: "vmem \<Rightarrow> nat" where
  "mem_len (MEM_Str z n) = n"
| "mem_len (MEM_Blob z n nZero) = n + (case nZero of None \<Rightarrow> 0 | Some k \<Rightarrow> k)"
| "mem_len m = 0"

text \<open>
  What the engine keeps of its registers: no real is a NaN, a text or blob is in its buffer
  and is not longer than the largest length it can be configured for.
\<close>

definition SQLITE_MAX_LENGTH :: nat where "SQLITE_MAX_LENGTH = 1000000000"

fun mem_ok :: "vmem \<Rightarrow> bool" where
  "mem_ok (MEM_Real r) \<longleftrightarrow> \<not> sqlite3IsNaN r"
| "mem_ok (MEM_Str z n) \<longleftrightarrow> n \<le> length z \<and> n \<le> SQLITE_MAX_LENGTH"
| "mem_ok (MEM_Blob z n nZero) \<longleftrightarrow> n \<le> length z \<and> mem_len (MEM_Blob z n nZero) \<le> SQLITE_MAX_LENGTH"
| "mem_ok m \<longleftrightarrow> True"

lemma mem_ok_len: "mem_ok m \<Longrightarrow> mem_len m < 2 ^ 30"
  by (cases m) (auto simp: SQLITE_MAX_LENGTH_def)

fun mem_zeros :: "vmem \<Rightarrow> nat" where
  "mem_zeros (MEM_Blob z n (Some k)) = k"
| "mem_zeros m = 0"

section \<open>Serial types of values\<close>

lemma type_sizes:
  "sqlite3VdbeSerialTypeLen 0 = 0" "sqlite3VdbeSerialTypeLen 1 = 1" "sqlite3VdbeSerialTypeLen 2 = 2"
  "sqlite3VdbeSerialTypeLen 3 = 3" "sqlite3VdbeSerialTypeLen 4 = 4" "sqlite3VdbeSerialTypeLen 5 = 6"
  "sqlite3VdbeSerialTypeLen 6 = 8" "sqlite3VdbeSerialTypeLen 7 = 8" "sqlite3VdbeSerialTypeLen 8 = 0"
  "sqlite3VdbeSerialTypeLen 9 = 0"
  by (simp_all add: sqlite3VdbeSerialTypeLen_def sqlite3SmallTypeSizes_def word_le_nat_alt)

lemma small_sizes_table: "list_all (\<lambda>t. 12 \<le> t \<longrightarrow> sqlite3SmallTypeSizes ! t = (t - 12) div 2) [0..<128]"
  by code_simp

text \<open>From 12 on the length is in the type; the table only spares the computation.\<close>

lemma SerialTypeLen_12: "12 \<le> t \<Longrightarrow> sqlite3VdbeSerialTypeLen t = unat ((t - 12) div 2)"
proof (cases "t \<ge> 128")
  case False
  assume t: "12 \<le> t"
  then have "12 \<le> unat t" "unat t < 128" using False by (simp_all add: word_le_nat_alt)
  moreover have "unat t \<in> set [0..<128]" using \<open>unat t < 128\<close> by simp
  then have "12 \<le> unat t \<longrightarrow> sqlite3SmallTypeSizes ! unat t = (unat t - 12) div 2"
    using small_sizes_table by (simp only: list_all_iff) blast
  ultimately show ?thesis
    using t False by (simp add: sqlite3VdbeSerialTypeLen_def unat_div unat_sub_if_size word_le_nat_alt)
qed (simp add: sqlite3VdbeSerialTypeLen_def)

lemma OneByteSerialTypeLen: "t < 128 \<Longrightarrow> sqlite3VdbeOneByteSerialTypeLen t = sqlite3VdbeSerialTypeLen (ucast t)"
  by (simp add: sqlite3VdbeOneByteSerialTypeLen_def sqlite3VdbeSerialTypeLen_def word_le_nat_alt
      word_less_nat_alt unsigned_ucast_eq take_bit_nat_eq_self)
lemma u32_of_nat: "n < 2 ^ 32 \<Longrightarrow> unat (of_nat n :: u32) = n"
  by (simp add: unsigned_of_nat take_bit_nat_eq_self)

lemma u32_and_1: "(w :: u32) AND 1 = 1 \<longleftrightarrow> odd (unat w)"
  by (simp add: and_one_eq mod_2_eq_odd bit_unsigned_iff flip: bit_0)

text \<open>The serial types of texts and blobs, while no 32-bit sum wraps.\<close>

lemma text_type:
  assumes "n < 2 ^ 30"
  shows "12 \<le> (of_nat n * 2 + 12 + 1 :: u32)" "(of_nat n * 2 + 12 + 1 :: u32) AND 1 = 1"
    "unat ((of_nat n * 2 + 12 + 1 - 12 :: u32) div 2) = n" "unat (of_nat n * 2 + 12 + 1 :: u32) = 2 * n + 13"
proof -
  have n: "of_nat n * 2 + 12 + 1 = (of_nat (2 * n + 13) :: u32)" by simp
  have u: "unat (of_nat (2 * n + 13) :: u32) = 2 * n + 13"
    using assms by (intro u32_of_nat) simp
  then show "unat (of_nat n * 2 + 12 + 1 :: u32) = 2 * n + 13" by (simp only: n)
  show "12 \<le> (of_nat n * 2 + 12 + 1 :: u32)" unfolding n word_le_nat_alt u by simp
  show "(of_nat n * 2 + 12 + 1 :: u32) AND 1 = 1" unfolding u32_and_1 n u by simp
  have "of_nat n * 2 + 12 + 1 - 12 = (of_nat (2 * n + 1) :: u32)" by simp
  moreover have "unat (of_nat (2 * n + 1) :: u32) = 2 * n + 1" using assms by (intro u32_of_nat) simp
  ultimately show "unat ((of_nat n * 2 + 12 + 1 - 12 :: u32) div 2) = n"
    by (simp only: unat_div) simp
qed

lemma blob_type:
  assumes "n < 2 ^ 30"
  shows "12 \<le> (of_nat n * 2 + 12 :: u32)" "(of_nat n * 2 + 12 :: u32) AND 1 \<noteq> 1"
    "unat ((of_nat n * 2 + 12 - 12 :: u32) div 2) = n" "unat (of_nat n * 2 + 12 :: u32) = 2 * n + 12"
proof -
  have n: "of_nat n * 2 + 12 = (of_nat (2 * n + 12) :: u32)" by simp
  have u: "unat (of_nat (2 * n + 12) :: u32) = 2 * n + 12"
    using assms by (intro u32_of_nat) simp
  then show "unat (of_nat n * 2 + 12 :: u32) = 2 * n + 12" by (simp only: n)
  show "12 \<le> (of_nat n * 2 + 12 :: u32)" unfolding n word_le_nat_alt u by simp
  show "(of_nat n * 2 + 12 :: u32) AND 1 \<noteq> 1" unfolding u32_and_1 n u by simp
  have "of_nat n * 2 + 12 - 12 = (of_nat (2 * n) :: u32)" by simp
  moreover have "unat (of_nat (2 * n) :: u32) = 2 * n" using assms by (intro u32_of_nat) simp
  ultimately show "unat ((of_nat n * 2 + 12 - 12 :: u32) div 2) = n"
    by (simp only: unat_div) simp
qed
section \<open>One value, there and back\<close>

text \<open>
  What the encoding of a value as type \<open>t\<close> with bytes \<open>bs\<close> has to be: the length is the one of
  the type, only a NULL has the type 0 (and a NULL no other, so that type 7 is no NaN), and
  whatever follows, reading gives the value back.
\<close>

definition encodes :: "vmem \<Rightarrow> u32 \<Rightarrow> u8 list \<Rightarrow> bool" where
  "encodes m t bs \<longleftrightarrow>
     length bs = sqlite3VdbeSerialTypeLen t \<and> t \<noteq> 10 \<and> t \<noteq> 11 \<and> (mem_value m = Null \<longleftrightarrow> t = 0) \<and>
     (\<forall>s. \<exists>m'. sqlite3VdbeSerialGet (bs @ s) t = Some (m', length bs) \<and> mem_value m' = mem_value m)"

lemma SerialType_Int:
  obtains
    (const) "sqlite3VdbeSerialType (MEM_Int i) ff = (8 + ucast i, 0)" "i = 0 \<or> i = 1" "ff \<ge> 4"
  | (b1) "sqlite3VdbeSerialType (MEM_Int i) ff = (1, 1)" "fits 7 i"
  | (b2) "sqlite3VdbeSerialType (MEM_Int i) ff = (2, 2)" "fits 15 i"
  | (b3) "sqlite3VdbeSerialType (MEM_Int i) ff = (3, 3)" "fits 23 i"
  | (b4) "sqlite3VdbeSerialType (MEM_Int i) ff = (4, 4)" "fits 31 i"
  | (b6) "sqlite3VdbeSerialType (MEM_Int i) ff = (5, 6)" "fits 47 i"
  | (b8) "sqlite3VdbeSerialType (MEM_Int i) ff = (6, 8)"
proof -
  define u where "u = (if i <s 0 then NOT i else i)"
  have ty: "sqlite3VdbeSerialType (MEM_Int i) ff =
      (if u \<le> 127 then (if i AND 1 = i \<and> ff \<ge> 4 then (8 + ucast u, 0) else (1, 1))
       else if u \<le> 32767 then (2, 2) else if u \<le> 8388607 then (3, 3)
       else if u \<le> 2147483647 then (4, 4) else if u \<le> MAX_6BYTE then (5, 6) else (6, 8))"
    by (simp add: sqlite3VdbeSerialType_def u_def Let_def)
  have b: "u \<le> of_nat (2 ^ m - 1) \<Longrightarrow> m < 64 \<Longrightarrow> fits m i" for m
    unfolding u_def by (rule fits_bound)
  have six: "MAX_6BYTE = of_nat (2 ^ 47 - 1)" by (simp add: MAX_6BYTE_def)
  have c: "i AND 1 = i \<Longrightarrow> (i = 0 \<or> i = 1) \<and> u = i"
  proof -
    assume a: "i AND 1 = i"
    have "i AND 1 = 0 \<or> i AND 1 = 1" by (simp add: and_one_eq mod_2_eq_odd)
    with a have "i = 0 \<or> i = 1" by metis
    then show "(i = 0 \<or> i = 1) \<and> u = i" by (auto simp: u_def word_sless_alt)
  qed
  show ?thesis
  proof (cases "u \<le> 127")
    case True
    with ty c b [of 7] show ?thesis by (cases "i AND 1 = i \<and> ff \<ge> 4") (auto intro: const b1)
  next
    case 1: False
    show ?thesis
    proof (cases "u \<le> 32767")
      case True
      with ty 1 b [of 15] show ?thesis by (auto intro: b2)
    next
      case 2: False
      show ?thesis
      proof (cases "u \<le> 8388607")
        case True
        with ty 1 2 b [of 23] show ?thesis by (auto intro: b3)
      next
        case 3: False
        show ?thesis
        proof (cases "u \<le> 2147483647")
          case True
          with ty 1 2 3 b [of 31] show ?thesis by (auto intro: b4)
        next
          case 4: False
          with ty 1 2 3 b [of 47] six show ?thesis by (cases "u \<le> MAX_6BYTE") (auto intro: b6 b8)
        qed
      qed
    qed
  qed
qed
lemma put_numbers:
  "sqlite3VdbeSerialPut (MEM_Int i) 1 = Some (serialPut_loop 1 i)"
  "sqlite3VdbeSerialPut (MEM_Int i) 2 = Some (serialPut_loop 2 i)"
  "sqlite3VdbeSerialPut (MEM_Int i) 3 = Some (serialPut_loop 3 i)"
  "sqlite3VdbeSerialPut (MEM_Int i) 4 = Some (serialPut_loop 4 i)"
  "sqlite3VdbeSerialPut (MEM_Int i) 5 = Some (serialPut_loop 6 i)"
  "sqlite3VdbeSerialPut (MEM_Int i) 6 = Some (serialPut_loop 8 i)"
  "sqlite3VdbeSerialPut (MEM_Real r) 7 = Some (serialPut_loop 8 r)"
  "sqlite3VdbeSerialPut m 8 = Some []" "sqlite3VdbeSerialPut m 9 = Some []"
  "sqlite3VdbeSerialPut m 0 = Some []"
  by (simp_all add: sqlite3VdbeSerialPut_def sqlite3SmallTypeSizes_def word_le_nat_alt word_less_nat_alt
      del: serialPut_loop.simps)

lemma encodes_read:
  "length bs = sqlite3VdbeSerialTypeLen t \<Longrightarrow> t \<noteq> 10 \<Longrightarrow> t \<noteq> 11 \<Longrightarrow> (mem_value m = Null \<longleftrightarrow> t = 0) \<Longrightarrow>
   (\<And>s. sqlite3VdbeSerialGet (bs @ s) t = Some (m, sqlite3VdbeSerialTypeLen t)) \<Longrightarrow> encodes m t bs"
  by (auto simp: encodes_def)

lemma encodes_numbers:
  "fits 7 i \<Longrightarrow> encodes (MEM_Int i) 1 (serialPut_loop 1 i)"
  "fits 15 i \<Longrightarrow> encodes (MEM_Int i) 2 (serialPut_loop 2 i)"
  "fits 23 i \<Longrightarrow> encodes (MEM_Int i) 3 (serialPut_loop 3 i)"
  "fits 31 i \<Longrightarrow> encodes (MEM_Int i) 4 (serialPut_loop 4 i)"
  "fits 47 i \<Longrightarrow> encodes (MEM_Int i) 5 (serialPut_loop 6 i)"
  "encodes (MEM_Int i) 6 (serialPut_loop 8 i)"
  "\<not> sqlite3IsNaN r \<Longrightarrow> encodes (MEM_Real r) 7 (serialPut_loop 8 r)"
  "encodes (MEM_Int 0) 8 []" "encodes (MEM_Int 1) 9 []" "encodes MEM_Null 0 []"
  by (rule encodes_read; simp add: type_sizes get_put del: serialPut_loop.simps One_nat_def;
      simp add: sqlite3VdbeSerialGet_def)+
lemma encodes_Str:
  "n < 2 ^ 30 \<Longrightarrow> n \<le> length z \<Longrightarrow> encodes (MEM_Str z n) (of_nat n * 2 + 12 + 1) (take n z)"
proof -
  assume n: "n < 2 ^ 30" "n \<le> length z"
  define t where "t = (of_nat n * 2 + 12 + 1 :: u32)"
  note ty = text_type [OF n(1), folded t_def]
  have ne: "t \<noteq> k" if "k < 12" for k using ty(1) that by auto
  have "length (take n z) = sqlite3VdbeSerialTypeLen t" using n(2) ty by (simp add: SerialTypeLen_12)
  moreover have "sqlite3VdbeSerialGet b t = Some (MEM_Str b n, n)" for b
    using ty ne by (simp add: sqlite3VdbeSerialGet_def Let_def)
  ultimately show ?thesis
    unfolding t_def [symmetric] encodes_def using n ne by simp
qed

lemma encodes_Blob:
  "n + k < 2 ^ 30 \<Longrightarrow> n \<le> length z \<Longrightarrow>
   encodes (MEM_Blob z n zs) (of_nat (n + k) * 2 + 12) (take n z @ replicate k 0)"
  if "k = (case zs of None \<Rightarrow> 0 | Some k \<Rightarrow> k)"
proof -
  assume n: "n + k < 2 ^ 30" "n \<le> length z"
  define t where "t = (of_nat (n + k) * 2 + 12 :: u32)"
  note ty = blob_type [OF n(1), folded t_def]
  have ne: "t \<noteq> j" if "j < 12" for j using ty(1) that by auto
  have "length (take n z @ replicate k 0) = sqlite3VdbeSerialTypeLen t"
    using n(2) ty by (simp add: SerialTypeLen_12)
  moreover have "sqlite3VdbeSerialGet b t = Some (MEM_Blob b (n + k) None, n + k)" for b
    using ty ne by (simp add: sqlite3VdbeSerialGet_def Let_def)
  ultimately show ?thesis
    unfolding t_def [symmetric] encodes_def using n ne that by simp
qed

lemma not_le_7: "12 \<le> x \<Longrightarrow> \<not> x \<le> (7 :: u32)"
  by (simp add: word_le_nat_alt)

text \<open>The serial type of a value, the length it announces, and the bytes written for it.\<close>

lemma serial_value:
  assumes ok: "mem_ok m"
  obtains t bs where "sqlite3VdbeSerialType m ff = (t, of_nat (length bs + mem_zeros m))"
    "sqlite3VdbeSerialPut m t = Some bs" "encodes m t (bs @ replicate (mem_zeros m) 0)"
    "length bs + mem_zeros m < 2 ^ 30"
proof -
  note len = mem_ok_len [OF ok]
  show ?thesis
proof (cases m)
  case MEM_Null
  with that [of 0 "[]"] show ?thesis by (simp add: sqlite3VdbeSerialType_def put_numbers encodes_numbers)
next
  case (MEM_Int i)
  show ?thesis
  proof (cases rule: SerialType_Int [of i ff])
    case const
    then show ?thesis using that [of 8 "[]"] that [of 9 "[]"]
      by (elim disjE) (simp_all add: MEM_Int put_numbers encodes_numbers)
  next
    case b1
    then show ?thesis using that [of 1 "serialPut_loop 1 i"]
      by (simp add: MEM_Int put_numbers encodes_numbers del: serialPut_loop.simps One_nat_def)
  next
    case b2
    then show ?thesis using that [of 2 "serialPut_loop 2 i"] by (simp add: MEM_Int put_numbers encodes_numbers)
  next
    case b3
    then show ?thesis using that [of 3 "serialPut_loop 3 i"] by (simp add: MEM_Int put_numbers encodes_numbers)
  next
    case b4
    then show ?thesis using that [of 4 "serialPut_loop 4 i"] by (simp add: MEM_Int put_numbers encodes_numbers)
  next
    case b6
    then show ?thesis using that [of 5 "serialPut_loop 6 i"] by (simp add: MEM_Int put_numbers encodes_numbers)
  next
    case b8
    then show ?thesis using that [of 6 "serialPut_loop 8 i"] by (simp add: MEM_Int put_numbers encodes_numbers)
  qed
next
  case (MEM_Real r)
  with ok that [of 7 "serialPut_loop 8 r"] show ?thesis
    by (simp add: sqlite3VdbeSerialType_def put_numbers encodes_numbers)
next
  case (MEM_Str z n)
  have t: "12 \<le> (of_nat n * 2 + 12 + 1 :: u32)" using text_type(1) [of n] len MEM_Str by simp
  then have "\<not> (of_nat n * 2 + 12 + 1 :: u32) \<le> 7" by (rule not_le_7)
  then have "sqlite3VdbeSerialPut m (of_nat n * 2 + 12 + 1) = Some (take n z)"
    using t ok by (simp add: MEM_Str sqlite3VdbeSerialPut_def)
  moreover have "sqlite3VdbeSerialType m ff = (of_nat n * 2 + 12 + 1, of_nat n)"
    by (simp add: MEM_Str sqlite3VdbeSerialType_def)
  ultimately show ?thesis
    using that [of "of_nat n * 2 + 12 + 1" "take n z"] encodes_Str [of n z] ok len
    by (simp add: MEM_Str min_absorb2)
next
  case (MEM_Blob z n zs)
  define k where "k = (case zs of None \<Rightarrow> 0 | Some k \<Rightarrow> k)"
  have z: "mem_zeros m = k" by (simp add: MEM_Blob k_def split: option.splits)
  have n: "n + k < 2 ^ 30" "n \<le> length z" using ok len by (auto simp: MEM_Blob k_def)
  have t: "12 \<le> (of_nat (n + k) * 2 + 12 :: u32)" using blob_type(1) [OF n(1)] .
  then have "\<not> (of_nat (n + k) * 2 + 12 :: u32) \<le> 7" by (rule not_le_7)
  then have "sqlite3VdbeSerialPut m (of_nat (n + k) * 2 + 12) = Some (take n z)"
    using t n by (simp add: MEM_Blob sqlite3VdbeSerialPut_def)
  moreover have "sqlite3VdbeSerialType m ff = (of_nat (n + k) * 2 + 12, of_nat (n + k))"
    by (simp add: MEM_Blob sqlite3VdbeSerialType_def k_def Let_def split: option.splits)
  ultimately show ?thesis
    using that [of "of_nat (n + k) * 2 + 12" "take n z"] encodes_Blob [OF k_def n] n z
    by (simp add: MEM_Blob min_absorb2)
qed
qed
section \<open>OP_MakeRecord\<close>

text \<open>
  The opcode, after the affinities are applied to its registers. It walks over the registers
  from the last to the first to compute the sizes: a blob with a zero-filled tail keeps its
  zeros out of the record when only such zeros follow it, and is expanded otherwise. Then the
  record is written into the output register: the header size, the serial types and the
  values, at the offsets \<open>i\<close> and \<open>j\<close> of the code. A write outside the buffer, and a failed
  \<open>assert\<close> on \<open>i\<close> and \<open>j\<close>, are \<open>None\<close>.
\<close>

definition putVarint32 :: "u32 \<Rightarrow> u8 list" where
  "putVarint32 v = (if v < 0x80 then [ucast v] else sqlite3PutVarint (ucast v))"

definition sqlite3VdbeMemExpandBlob :: "vmem \<Rightarrow> vmem" where
  "sqlite3VdbeMemExpandBlob pMem =
     (case pMem of
        MEM_Blob z n (Some nZero) \<Rightarrow> MEM_Blob (take n z @ replicate nZero 0) (n + nZero) None
      | _ \<Rightarrow> pMem)"

definition serialType_bytes :: "u32 \<Rightarrow> nat" where
  "serialType_bytes serial_type = (if serial_type \<le> 127 then 1 else sqlite3VarintLen (ucast serial_type))"

text \<open>
  The loop over the registers in reverse; the fields done are collected with their serial
  types (\<open>pRec->uTemp\<close>). \<open>None\<close> is \<open>goto no_mem\<close>.
\<close>

fun size_loop :: "nat \<Rightarrow> vmem list \<Rightarrow> (vmem \<times> u32) list \<Rightarrow> nat \<Rightarrow> nat \<Rightarrow> nat \<Rightarrow> bool list
    \<Rightarrow> ((vmem \<times> u32) list \<times> nat \<times> nat \<times> nat \<times> bool list) option" where
  "size_loop ff [] fs nData nHdr nZero mem = Some (fs, nData, nHdr, nZero, mem)"
| "size_loop ff (pRec # rs) fs nData nHdr nZero mem =
     (let (serial_type, len) = sqlite3VdbeSerialType pRec ff;
          nHdr = nHdr + serialType_bytes serial_type
      in case pRec of
           MEM_Blob z n (Some k) \<Rightarrow>
             if nData \<noteq> 0 then
               (let (ok, mem) = alloc mem
                in if \<not> ok then None
                   else size_loop ff rs ((sqlite3VdbeMemExpandBlob pRec, serial_type) # fs)
                          (nData + unat len) nHdr nZero mem)
             else
               size_loop ff rs ((pRec, serial_type) # fs) (nData + unat (len - of_nat k)) nHdr (nZero + k) mem
         | _ \<Rightarrow> size_loop ff rs ((pRec, serial_type) # fs) (nData + unat len) nHdr nZero mem)"

definition header_size :: "nat \<Rightarrow> nat" where
  "header_size nHdr =
     (if nHdr \<le> 126 then nHdr + 1
      else
        let nVarint = sqlite3VarintLen (of_nat nHdr); nHdr = nHdr + nVarint
        in if nVarint < sqlite3VarintLen (of_nat nHdr) then nHdr + 1 else nHdr)"

definition poke :: "u8 list \<Rightarrow> nat \<Rightarrow> u8 list \<Rightarrow> u8 list option" where
  "poke buf i bs = (if i + length bs \<le> length buf then Some (take i buf @ bs @ drop (i + length bs) buf) else None)"

fun write_loop :: "u8 list \<Rightarrow> (vmem \<times> u32) list \<Rightarrow> nat \<Rightarrow> nat \<Rightarrow> (u8 list \<times> nat \<times> nat) option" where
  "write_loop zNewRecord [] i j = Some (zNewRecord, i, j)"
| "write_loop zNewRecord ((pRec, serial_type) # fs) i j = do {
     zNewRecord \<leftarrow> poke zNewRecord i (putVarint32 serial_type);
     bs \<leftarrow> sqlite3VdbeSerialPut pRec serial_type;
     zNewRecord \<leftarrow> poke zNewRecord j bs;
     write_loop zNewRecord fs (i + length (putVarint32 serial_type)) (j + length bs) }"

text \<open>
  The outcome: \<open>too_big\<close>, \<open>no_mem\<close>, or the output register (its bytes and the number of zeros
  that follow them) and the registers as the opcode leaves them. \<open>limit\<close> is
  \<open>db->aLimit[SQLITE_LIMIT_LENGTH]\<close> and \<open>junk\<close> what the buffer of the output register holds
  when it has been resized.
\<close>

datatype make_result = TooBig | NoMem | Made "u8 list" nat "vmem list"

definition MakeRecord :: "nat \<Rightarrow> nat \<Rightarrow> (nat \<Rightarrow> u8) \<Rightarrow> bool list \<Rightarrow> vmem list \<Rightarrow> make_result option" where
  "MakeRecord limit file_format junk mem regs =
     (case size_loop file_format (rev regs) [] 0 0 0 mem of
        None \<Rightarrow> Some NoMem
      | Some (fs, nData, nHdr, nZero, mem) \<Rightarrow>
          let nHdr = header_size nHdr; nByte = nHdr + nData
          in if nByte + nZero > limit then Some TooBig
             else if \<not> fst (alloc mem) then Some NoMem
             else do {
               zNewRecord \<leftarrow> poke (map junk [0..<nByte]) 0 (putVarint32 (of_nat nHdr));
               (zNewRecord, i, j) \<leftarrow> write_loop zNewRecord fs (length (putVarint32 (of_nat nHdr))) nHdr;
               (if i = nHdr \<and> j = nByte then Some (Made zNewRecord nZero (map fst fs)) else None) })"

section \<open>RecordUnpack\<close>

text \<open>The C type \<open>int\<close> of the offset \<open>d\<close>: a 32-bit sum, read as a signed number.\<close>

definition to_int :: "nat \<Rightarrow> int" where "to_int x = sint (of_nat x :: u32)"

lemma getVarint32_pos: "getVarint32 p = Some (n, t) \<Longrightarrow> 0 < n"
  unfolding getVarint32_sat getVarint_eq_ref using varint_ref_length by (auto dest!: varint_ref_length)

function unpack_loop :: "u8 list \<Rightarrow> int \<Rightarrow> nat \<Rightarrow> nat \<Rightarrow> nat \<Rightarrow> int \<Rightarrow> nat \<Rightarrow> vmem list option" where
  "unpack_loop aKey nKey szHdr nField idx d u =
     (if idx < szHdr \<and> d \<le> nKey then
        case getVarint32 (drop idx aKey) of
          None \<Rightarrow> None
        | Some (n, serial_type) \<Rightarrow>
            if d < 0 then None
            else case sqlite3VdbeSerialGet (drop (nat d) aKey) serial_type of
              None \<Rightarrow> None
            | Some (pMem, len) \<Rightarrow>
                if Suc u \<ge> nField then Some [pMem]
                else map_option ((#) pMem)
                  (unpack_loop aKey nKey szHdr nField (idx + n) (to_int (nat d + len)) (Suc u))
      else Some [])"
  by pat_completeness auto
termination
  by (relation "measure (\<lambda>(aKey, nKey, szHdr, nField, idx, d, u). szHdr - idx)")
    (auto dest: getVarint32_pos split: if_splits)

declare unpack_loop.simps [simp del]

text \<open>The fields read, for an \<open>UnpackedRecord\<close> with room for \<open>nField\<close> of them.\<close>

definition sqlite3VdbeRecordUnpack :: "int \<Rightarrow> u8 list \<Rightarrow> nat \<Rightarrow> vmem list option" where
  "sqlite3VdbeRecordUnpack nKey aKey nField = do {
     (idx, szHdr) \<leftarrow> getVarint32 aKey;
     unpack_loop aKey nKey (unat szHdr) nField idx (to_int (unat szHdr)) 0 }"
section \<open>The layout of a record\<close>

text \<open>A record as its list of serial types and value bytes.\<close>

definition type_bytes :: "u32 list \<Rightarrow> u8 list" where
  "type_bytes ts = concat (map putVarint32 ts)"

definition record_layout :: "(u32 \<times> u8 list) list \<Rightarrow> u8 list" where
  "record_layout fs =
     (let T = type_bytes (map fst fs)
      in putVarint32 (of_nat (header_size (length T))) @ T @ concat (map snd fs))"

lemma type_bytes_simps [simp]: "type_bytes [] = []" "type_bytes (t # ts) = putVarint32 t @ type_bytes ts"
  by (simp_all add: type_bytes_def)

lemma putVarint32_eq: "putVarint32 v = sqlite3PutVarint (ucast v)"
proof (cases "v < 0x80")
  case True
  then have n: "unat v < 128" by (simp add: word_less_nat_alt)
  have "(ucast v :: u64) \<le> 0x7f" using n by (simp add: word_le_nat_alt unsigned_ucast_eq take_bit_nat_eq_self)
  moreover have "(ucast v AND 0x7f :: u64) = ucast v"
    unfolding mask7 take_bit_eq_mask [symmetric] word_unat_eq_iff
    using n by (simp add: unsigned_take_bit_eq unsigned_ucast_eq take_bit_nat_eq_self)
  moreover have "(ucast (ucast v :: u64) :: u8) = ucast v" by (rule bit_eq8) (simp add: bit_simps)
  ultimately show ?thesis using True by (simp add: putVarint32_def sqlite3PutVarint_def)
qed (simp add: putVarint32_def)

lemma getVarint32_put: "getVarint32 (putVarint32 t @ s) = Some (length (putVarint32 t), t)"
  by (simp add: putVarint32_eq getVarint32_sat PutVarint_GetVarint)

lemma putVarint32_length: "length (putVarint32 t) = sqlite3VarintLen (ucast t)"
  using ucast_fits_u32 [of t] by (simp add: putVarint32_eq varintLen_exact)

lemma serialType_bytes_length: "serialType_bytes t = length (putVarint32 t)"
  by (auto simp: serialType_bytes_def putVarint32_length [symmetric] putVarint32_def word_le_nat_alt word_less_nat_alt)

lemma poke_in: "length bs = length X \<Longrightarrow> poke (P @ X @ S) (length P) bs = Some (P @ bs @ S)"
  by (simp add: poke_def)

lemma write_loop_layout:
  assumes "list_all2 (\<lambda>(m, t) bs. sqlite3VdbeSerialPut m t = Some bs) fs bss"
    and "length X = length (type_bytes (map snd fs))" and "length Y = length (concat bss)"
  shows "write_loop (P @ X @ M @ Y @ S) fs (length P) (length P + length X + length M) =
    Some (P @ type_bytes (map snd fs) @ M @ concat bss @ S,
          length P + length X, length P + length X + length M + length Y)"
  using assms
proof (induction fs bss arbitrary: P X M Y rule: list_all2_induct)
  case Nil
  then show ?case by simp
next
  case (Cons f fs bs bss)
  obtain m t where f: "f = (m, t)" by (cases f)
  let ?e = "putVarint32 t"
  obtain X1 X2 where X: "X = X1 @ X2" "length X1 = length ?e" "length X2 = length (type_bytes (map snd fs))"
    using Cons.prems(1) that [of "take (length ?e) X" "drop (length ?e) X"] by (simp add: f)
  obtain Y1 Y2 where Y: "Y = Y1 @ Y2" "length Y1 = length bs" "length Y2 = length (concat bss)"
    using Cons.prems(2) that [of "take (length bs) Y" "drop (length bs) Y"] by simp
  have "poke (P @ X @ M @ Y @ S) (length P) ?e = Some (P @ ?e @ X2 @ M @ Y @ S)"
    using poke_in [of ?e X1 P "X2 @ M @ Y @ S"] X by simp
  moreover have "poke (P @ ?e @ X2 @ M @ Y @ S) (length P + length X + length M) bs =
      Some (P @ ?e @ X2 @ M @ bs @ Y2 @ S)"
    using poke_in [of bs Y1 "P @ ?e @ X2 @ M" "Y2 @ S"] X Y by (simp add: add.assoc)
  moreover have "write_loop (P @ ?e @ X2 @ M @ bs @ Y2 @ S) fs (length P + length ?e)
      (length P + length X + length M + length bs) =
    Some (P @ ?e @ type_bytes (map snd fs) @ M @ bs @ concat bss @ S,
      length P + length X, length P + length X + length M + length Y)"
    using Cons.IH [of X2 Y2 "P @ ?e" "M @ bs"] X Y by (simp add: add.assoc add.commute add.left_commute)
  ultimately show ?case using Cons.hyps by (simp add: f)
qed
section \<open>The size loop\<close>

text \<open>
  What the loop knows of the registers it has passed: the bytes that will be written, and how
  they and the unstored zeros make up full encodings of the values.
\<close>

definition sized :: "vmem list \<Rightarrow> (vmem \<times> u32) list \<Rightarrow> nat \<Rightarrow> nat \<Rightarrow> nat \<Rightarrow> u8 list list \<Rightarrow> u8 list list \<Rightarrow> bool" where
  "sized regs fs nData nHdr nZero bss es \<longleftrightarrow>
     list_all2 (\<lambda>(m, t) bs. sqlite3VdbeSerialPut m t = Some bs) fs bss \<and>
     list_all2 (\<lambda>m f. mem_value (fst f) = mem_value m) regs fs \<and>
     length es = length fs \<and>
     list_all2 (\<lambda>m (t, e). encodes m t e) regs (zip (map snd fs) es) \<and>
     nData = length (concat bss) \<and> nHdr = length (type_bytes (map snd fs)) \<and>
     concat es = concat bss @ replicate nZero 0"

lemma sized_Nil: "sized [] [] 0 0 0 [] []"
  by (simp add: sized_def)

lemma expand_value: "n \<le> length z \<Longrightarrow>
    mem_value (sqlite3VdbeMemExpandBlob (MEM_Blob z n (Some k))) = mem_value (MEM_Blob z n (Some k))"
  by (simp add: sqlite3VdbeMemExpandBlob_def)

lemma expand_put:
  "sqlite3VdbeSerialPut (MEM_Blob z n (Some k)) t = Some bs \<Longrightarrow> t \<ge> 12 \<Longrightarrow>
   sqlite3VdbeSerialPut (sqlite3VdbeMemExpandBlob (MEM_Blob z n (Some k))) t = Some (bs @ replicate k 0)"
  by (auto simp: sqlite3VdbeSerialPut_def sqlite3VdbeMemExpandBlob_def dest: not_le_7 split: if_splits)
lemma serial_blob: "mem_ok (MEM_Blob z n zs) \<Longrightarrow> sqlite3VdbeSerialType (MEM_Blob z n zs) ff = (t, l) \<Longrightarrow> 12 \<le> t"
  using blob_type(1) [of "n + (case zs of None \<Rightarrow> 0 | Some k \<Rightarrow> k)"] mem_ok_len [of "MEM_Blob z n zs"]
  by (auto simp: sqlite3VdbeSerialType_def Let_def split: option.splits)

lemma size_loop_plain:
  assumes "\<nexists>z n k. m = MEM_Blob z n (Some k)" and "sqlite3VdbeSerialType m ff = (t, l)"
  shows "size_loop ff (m # rs) fs nData nHdr nZero mem =
    size_loop ff rs ((m, t) # fs) (nData + unat l) (nHdr + serialType_bytes t) nZero mem"
  using assms by (auto simp: Let_def split: vmem.splits option.splits)

lemma size_loop_zeros:
  assumes "sqlite3VdbeSerialType (MEM_Blob z n (Some k)) ff = (t, l)"
  shows "size_loop ff (MEM_Blob z n (Some k) # rs) fs nData nHdr nZero mem =
    (if nData = 0 then size_loop ff rs ((MEM_Blob z n (Some k), t) # fs) (unat (l - of_nat k))
        (nHdr + serialType_bytes t) (nZero + k) mem
     else if fst (alloc mem) then size_loop ff rs ((sqlite3VdbeMemExpandBlob (MEM_Blob z n (Some k)), t) # fs)
        (nData + unat l) (nHdr + serialType_bytes t) nZero (snd (alloc mem))
     else None)"
  using assms by (auto simp: Let_def split: prod.splits)

lemma sized_step:
  assumes "sized regs fs nData nHdr nZero bss es" and "encodes m t e" and "mem_value m' = mem_value m"
    and "sqlite3VdbeSerialPut m' t = Some bs" and "e @ concat bss @ replicate nZero 0 = bs @ concat bss @ replicate nZero' 0"
  shows "sized (m # regs) ((m', t) # fs) (nData + length bs) (nHdr + serialType_bytes t) nZero' (bs # bss) (e # es)"
  using assms by (simp add: sized_def serialType_bytes_length)

lemma size_loop_sized:
  assumes "size_loop ff rs fs nData nHdr nZero mem = Some (fs', nData', nHdr', nZero', mem')"
    and "\<forall>m\<in>set rs. mem_ok m" and "sized regs fs nData nHdr nZero bss es"
  shows "\<exists>bss' es'. sized (rev rs @ regs) fs' nData' nHdr' nZero' bss' es'"
  using assms
proof (induction rs arbitrary: regs fs nData nHdr nZero mem bss es)
  case Nil
  then show ?case by auto
next
  case (Cons m rs)
  obtain t bs where m: "sqlite3VdbeSerialType m ff = (t, of_nat (length bs + mem_zeros m))"
    "sqlite3VdbeSerialPut m t = Some bs" "encodes m t (bs @ replicate (mem_zeros m) 0)"
    and small: "length bs + mem_zeros m < 2 ^ 30"
    using Cons.prems(2) serial_value [of m ff] by auto
  have len: "unat (of_nat (length bs + mem_zeros m) :: u32) = length bs + mem_zeros m"
    using small by (intro u32_of_nat) simp
  have step: "\<exists>bss' es'. sized (rev rs @ m # regs) fs' nData' nHdr' nZero' bss' es'"
    if "size_loop ff rs ((m', t) # fs) (nData + length bs') (nHdr + serialType_bytes t) z mem'' =
          Some (fs', nData', nHdr', nZero', mem')"
      and "sized (m # regs) ((m', t) # fs) (nData + length bs') (nHdr + serialType_bytes t) z (bs' # bss) es'"
    for m' bs' z mem'' es'
    using Cons.IH [OF that(1) _ that(2)] Cons.prems(2) by simp
  note sz = sized_step [OF Cons.prems(3) m(3)]
  show ?case
  proof (cases "\<exists>z n k. m = MEM_Blob z n (Some k)")
    case False
    then have z: "mem_zeros m = 0" by (cases m rule: mem_zeros.cases) auto
    then have "size_loop ff rs ((m, t) # fs) (nData + length bs) (nHdr + serialType_bytes t) nZero mem =
        Some (fs', nData', nHdr', nZero', mem')"
      using Cons.prems(1) size_loop_plain [OF False m(1)] len by simp
    from step [OF this sz [OF refl m(2)]] show ?thesis using z by simp
  next
    case True
    then obtain z n k where z: "m = MEM_Blob z n (Some k)" by blast
    have t: "12 \<le> t" using serial_blob [of z n "Some k" ff t] m(1) Cons.prems(2) z by auto
    note sl = Cons.prems(1) [unfolded z size_loop_zeros [OF m(1) [unfolded z]]]
    show ?thesis
    proof (cases "nData = 0")
      case True
      then have "concat bss = []" using Cons.prems(3) by (simp add: sized_def)
      moreover have "unat (of_nat (length bs + mem_zeros m) - of_nat k :: u32) = length bs"
        using z small by (simp add: u32_of_nat)
      ultimately show ?thesis
        using step [OF _ sz [OF refl m(2)], of "nZero + k" mem] sl True z
        by (simp add: replicate_add add.commute del: concat_eq_Nil_conv)
    next
      case False
      have "n \<le> length z" using Cons.prems(2) by (simp add: \<open>m = _\<close>)
      then show ?thesis
        using step [OF _ sz [OF expand_value [of n z k, folded z] expand_put [of z n k t bs, folded z, OF m(2) t]], of nZero "snd (alloc mem)"]
          sl False z len by (simp split: if_splits)
    qed
  qed
qed
section \<open>The size of the header\<close>

lemma u64_of_nat: "n < 2 ^ 64 \<Longrightarrow> unat (of_nat n :: u64) = n"
  by (simp add: unsigned_of_nat take_bit_nat_eq_self)

lemma varint_bytes: "n < 2 ^ 32 \<Longrightarrow> length (putVarint32 (of_nat n)) = sqlite3VarintLen (of_nat n)"
proof -
  assume n: "n < 2 ^ 32"
  have "(ucast (of_nat n :: u32) :: u64) = of_nat n"
    unfolding word_unat_eq_iff using n by (simp add: unsigned_ucast_eq u32_of_nat u64_of_nat take_bit_nat_eq_self)
  then show ?thesis by (simp add: putVarint32_length)
qed

lemma VarintLen_buf: "sqlite3VarintLen v = length (putVarint_buf v)"
  using varintLen_loop_buf [of 1 v] by (simp add: sqlite3VarintLen_def)

lemma VarintLen_le: "0 < k \<Longrightarrow> n < 2 ^ (7 * k) \<Longrightarrow> n < 2 ^ 64 \<Longrightarrow> sqlite3VarintLen (of_nat n) \<le> k"
  unfolding VarintLen_buf by (rule putVarint_buf_length) (simp_all add: u64_of_nat)

lemma VarintLen_less: "n < 2 ^ 64 \<Longrightarrow> n < 2 ^ (7 * sqlite3VarintLen (of_nat n))"
  using putVarint_buf_length_ge [of "sqlite3VarintLen (of_nat n)" "of_nat n"]
  unfolding VarintLen_buf by (force simp: u64_of_nat not_le [symmetric])

lemma VarintLen_pos: "0 < sqlite3VarintLen v"
  by (simp add: VarintLen_buf)

lemma VarintLen_mono: "a \<le> b \<Longrightarrow> b < 2 ^ 64 \<Longrightarrow> sqlite3VarintLen (of_nat a) \<le> sqlite3VarintLen (of_nat b)"
  using VarintLen_le [of "sqlite3VarintLen (of_nat b)" a] VarintLen_less [of b] VarintLen_pos [of "of_nat b"] by simp

text \<open>The header announces exactly its own size, the varint that holds it included.\<close>

lemma header_size_exact:
  assumes n: "n < 2 ^ 31"
  shows "length (putVarint32 (of_nat (header_size n))) + n = header_size n" "header_size n \<le> n + 6"
proof -
  define nv where "nv = sqlite3VarintLen (of_nat n)"
  have nv: "n < 2 ^ (7 * nv)" "nv \<le> 5" "0 < nv"
    using VarintLen_less [of n] VarintLen_le [of 5 n] VarintLen_pos n by (simp_all add: nv_def)
  have "nv < 2 ^ nv" by (rule less_exp)
  also have "(2 :: nat) ^ nv \<le> 2 ^ (7 * nv)" by (rule power_increasing) simp_all
  finally have "n + nv + 1 < 2 ^ (7 * Suc nv)" using nv(1) by (simp add: power_add)
  then have up: "sqlite3VarintLen (of_nat (n + nv)) \<le> Suc nv" "sqlite3VarintLen (of_nat (n + nv + 1)) \<le> Suc nv"
    using n nv by (intro VarintLen_le; simp del: of_nat_add of_nat_Suc)+
  have low: "nv \<le> sqlite3VarintLen (of_nat (n + nv))"
      "sqlite3VarintLen (of_nat (n + nv)) \<le> sqlite3VarintLen (of_nat (n + nv + 1))"
    using VarintLen_mono [of n "n + nv"] VarintLen_mono [of "n + nv" "n + nv + 1"] n nv(2)
    by (simp_all del: of_nat_add of_nat_Suc add: nv_def)
  have one: "n \<le> 126 \<Longrightarrow> sqlite3VarintLen (of_nat (n + 1)) = 1"
    using VarintLen_le [of 1 "n + 1"] VarintLen_pos [of "of_nat (n + 1)"] by simp
  show "length (putVarint32 (of_nat (header_size n))) + n = header_size n" "header_size n \<le> n + 6"
    using one up low n nv(2) varint_bytes [of "n + 1"] varint_bytes [of "n + nv"] varint_bytes [of "n + nv + 1"]
    by (auto simp: header_size_def Let_def nv_def [symmetric] simp del: of_nat_add of_nat_Suc)
qed
section \<open>MakeRecord makes a record\<close>

text \<open>A record and the values it holds.\<close>

definition record_of :: "(u32 \<times> u8 list) list \<Rightarrow> vmem list \<Rightarrow> bool" where
  "record_of fs ms \<longleftrightarrow> list_all2 (\<lambda>m (t, e). encodes m t e) ms fs"

lemma type_bytes_pos: "ts \<noteq> [] \<Longrightarrow> type_bytes ts \<noteq> []"
  by (cases ts) (auto simp: putVarint32_eq sqlite3PutVarint_def putVarint64_def Let_def)

text \<open>What \<open>MakeRecord\<close> does once the sizes are known.\<close>

lemma write_record:
  assumes "sized regs fs nData nHdr nZero bss es"
    and small: "header_size nHdr + nData \<le> SQLITE_MAX_LENGTH"
  shows "\<exists>buf. poke (map junk [0..<header_size nHdr + nData]) 0 (putVarint32 (of_nat (header_size nHdr))) = Some buf \<and>
     write_loop buf fs (length (putVarint32 (of_nat (header_size nHdr)))) (header_size nHdr) =
     Some (putVarint32 (of_nat (header_size nHdr)) @ type_bytes (map snd fs) @ concat bss,
           header_size nHdr, header_size nHdr + nData)"
proof -
  define H where "H = header_size nHdr"
  define e where "e = putVarint32 (of_nat H)"
  define J where "J = map junk [0..<H + nData]"
  have s: "list_all2 (\<lambda>(m, t) bs. sqlite3VdbeSerialPut m t = Some bs) fs bss"
    "nData = length (concat bss)" "nHdr = length (type_bytes (map snd fs))"
    using assms(1) by (auto simp: sized_def)
  have "nHdr \<le> header_size nHdr" by (auto simp: header_size_def Let_def)
  then have "nHdr < 2 ^ 31" using small by (simp add: SQLITE_MAX_LENGTH_def)
  then have H: "length e + nHdr = H" unfolding e_def H_def by (rule header_size_exact)
  have J: "J = take (length e) J @ (take nHdr (drop (length e) J) @ [] @ drop H J @ [])"
    by (simp add: H [symmetric] add.commute flip: drop_drop)
  have len: "length J = H + nData" by (simp add: J_def)
  then have p: "poke J 0 e = Some (e @ take nHdr (drop (length e) J) @ [] @ drop H J @ [])"
    using poke_in [of e "take (length e) J" "[]" "take nHdr (drop (length e) J) @ [] @ drop H J @ []"] J H by simp
  have "write_loop (e @ take nHdr (drop (length e) J) @ [] @ drop H J @ []) fs (length e) H =
      Some (e @ type_bytes (map snd fs) @ concat bss, H, H + nData)"
    using write_loop_layout [OF s(1), of "take nHdr (drop (length e) J)" "drop H J" e "[]" "[]"] s len H by simp
  with p show ?thesis unfolding H_def [symmetric] e_def [symmetric] J_def [symmetric] by simp
qed

lemma alloc_fst: "\<not> fst (alloc mem) \<Longrightarrow> mem \<noteq> []"
  by auto

lemma MakeRecord_cases:
  assumes ok: "\<forall>m\<in>set regs. mem_ok m" and limit: "limit \<le> SQLITE_MAX_LENGTH"
  shows "\<exists>r. MakeRecord limit ff junk mem regs = Some r \<and>
    (\<forall>z nZero regs'. r = Made z nZero regs' \<longrightarrow>
       length z + nZero \<le> limit \<and>
       (\<exists>fs. z @ replicate nZero 0 = record_layout fs \<and> record_of fs regs) \<and>
       list_all2 (\<lambda>m m'. mem_value m' = mem_value m) regs regs')"
proof (cases "size_loop ff (rev regs) [] 0 0 0 mem")
  case None
  then show ?thesis by (simp add: MakeRecord_def)
next
  case (Some r)
  obtain fs nData nHdr nZero mem' where r: "size_loop ff (rev regs) [] 0 0 0 mem = Some (fs, nData, nHdr, nZero, mem')"
    using Some by (cases r) auto
  have "\<exists>bss es. sized (rev (rev regs) @ []) fs nData nHdr nZero bss es"
    using ok by (intro size_loop_sized [OF r _ sized_Nil]) simp
  then obtain bss es where s: "sized regs fs nData nHdr nZero bss es" by auto
  define H where "H = header_size nHdr"
  show ?thesis
  proof (cases "H + nData + nZero > limit \<or> \<not> fst (alloc mem')")
    case True
    then show ?thesis by (auto simp: MakeRecord_def r Let_def H_def)
  next
    case False
    define z where "z = putVarint32 (of_nat H) @ type_bytes (map snd fs) @ concat bss"
    have "H + nData \<le> SQLITE_MAX_LENGTH" using False limit by simp
    from write_record [OF s this [unfolded H_def], of junk] obtain buf where
      w: "poke (map junk [0..<H + nData]) 0 (putVarint32 (of_nat H)) = Some buf"
        "write_loop buf fs (length (putVarint32 (of_nat H))) H = Some (z, H, H + nData)"
      unfolding H_def z_def by blast
    have made: "MakeRecord limit ff junk mem regs = Some (Made z nZero (map fst fs))"
      using w False by (simp add: MakeRecord_def r Let_def H_def [symmetric])
    have fs: "list_all2 (\<lambda>m (t, e). encodes m t e) regs (zip (map snd fs) es)"
      "length es = length fs" "concat es = concat bss @ replicate nZero 0"
      "nHdr = length (type_bytes (map snd fs))" "nData = length (concat bss)"
      "list_all2 (\<lambda>m f. mem_value (fst f) = mem_value m) regs fs"
      using s by (auto simp: sized_def)
    have "nHdr \<le> header_size nHdr" by (auto simp: header_size_def Let_def)
    then have "nHdr < 2 ^ 31" using False limit by (simp add: SQLITE_MAX_LENGTH_def H_def)
    then have "length (putVarint32 (of_nat H)) + nHdr = H" unfolding H_def by (rule header_size_exact)
    then have "length z + nZero \<le> limit" using False fs by (simp add: z_def)
    moreover have "z @ replicate nZero 0 = record_layout (zip (map snd fs) es)"
      using fs by (simp add: record_layout_def z_def H_def Let_def)
    moreover have "record_of (zip (map snd fs) es) regs" using fs by (simp add: record_of_def)
    moreover have "list_all2 (\<lambda>m m'. mem_value m' = mem_value m) regs (map fst fs)"
      using fs(6) by (simp add: list_all2_map2 list_all2_conv_all_nth)
    ultimately show ?thesis using made by auto
  qed
qed
section \<open>Unpacking a record\<close>

lemma to_int_small: "x < 2 ^ 31 \<Longrightarrow> to_int x = int x"
  by (simp add: to_int_def sint_uint uint_nat u32_of_nat signed_take_bit_int_eq_self)

lemma encodesD: "encodes m t e \<Longrightarrow>
    \<exists>m'. sqlite3VdbeSerialGet (e @ s) t = Some (m', length e) \<and> mem_value m' = mem_value m"
  unfolding encodes_def by blast

lemma unpack_loop_fields:
  assumes "list_all2 (\<lambda>m (t, e). encodes m t e) ms fs"
    and "drop idx p = type_bytes (map fst fs) @ R" and "szHdr = idx + length (type_bytes (map fst fs))"
    and "drop d p = concat (map snd fs) @ S" and "d + length (concat (map snd fs)) \<le> nKey"
    and "nKey < 2 ^ 31" and "u < nField"
  shows "\<exists>ms'. unpack_loop p (int nKey) szHdr nField idx (int d) u = Some ms' \<and>
    map mem_value ms' = map mem_value (take (nField - u) ms)"
  using assms
proof (induction ms fs arbitrary: idx d u rule: list_all2_induct)
  case Nil
  then show ?case by (simp add: unpack_loop.simps)
next
  case (Cons m ms f fs)
  obtain t e where f: "f = (t, e)" by (cases f)
  let ?n = "length (putVarint32 t)"
  have idx: "drop idx p = putVarint32 t @ type_bytes (map fst fs) @ R" using Cons.prems(1) by (simp add: f)
  then have idx': "drop (idx + ?n) p = type_bytes (map fst fs) @ R"
    by (metis add.commute append_eq_conv_conj drop_drop)
  have d: "drop d p = e @ concat (map snd fs) @ S" using Cons.prems(3) by (simp add: f)
  then have d': "drop (d + length e) p = concat (map snd fs) @ S"
    by (metis add.commute append_eq_conv_conj drop_drop)
  have "type_bytes [t] \<noteq> []" by (rule type_bytes_pos) simp
  then have less: "idx < szHdr" using Cons.prems(2) by (simp add: f)
  obtain m' where m': "sqlite3VdbeSerialGet (drop d p) t = Some (m', length e)" "mem_value m' = mem_value m"
    using Cons.hyps(1) d by (auto simp: f dest!: encodesD)
  have step: "unpack_loop p (int nKey) szHdr nField idx (int d) u =
      (if Suc u \<ge> nField then Some [m']
       else map_option ((#) m') (unpack_loop p (int nKey) szHdr nField (idx + ?n) (int (d + length e)) (Suc u)))"
    using less Cons.prems(4,5) m'
    by (subst unpack_loop.simps) (simp add: idx getVarint32_put to_int_small f)
  show ?case
  proof (cases "Suc u \<ge> nField")
    case True
    then have "nField - u = 1" using Cons.prems(6) by simp
    with True show ?thesis by (simp add: step m'(2))
  next
    case False
    have n: "nField - u = Suc (nField - Suc u)" using False by simp
    have "\<exists>ms'. unpack_loop p (int nKey) szHdr nField (idx + ?n) (int (d + length e)) (Suc u) = Some ms' \<and>
      map mem_value ms' = map mem_value (take (nField - Suc u) ms)"
      by (rule Cons.IH [OF idx' _ d']) (use Cons.prems False in \<open>simp_all add: f\<close>)
    then show ?thesis using False by (auto simp: step m'(2) n)
  qed
qed

lemma record_layout_size:
  assumes "length (record_layout fs) \<le> n" and "n < 2 ^ 31"
  defines "T \<equiv> type_bytes (map fst fs)"
  shows "length (putVarint32 (of_nat (header_size (length T)))) + length T = header_size (length T)"
    "header_size (length T) + length (concat (map snd fs)) = length (record_layout fs)"
    "unat (of_nat (header_size (length T)) :: u32) = header_size (length T)"
proof -
  have "length T < 2 ^ 31" using assms(1,2) by (simp add: record_layout_def Let_def T_def)
  then show H: "length (putVarint32 (of_nat (header_size (length T)))) + length T = header_size (length T)"
    by (rule header_size_exact)
  then show L: "header_size (length T) + length (concat (map snd fs)) = length (record_layout fs)"
    by (simp add: record_layout_def Let_def T_def)
  show "unat (of_nat (header_size (length T)) :: u32) = header_size (length T)"
    using L assms(1,2) by (intro u32_of_nat) simp
qed

lemma unpack_record:
  assumes fs: "record_of fs ms" and size: "length (record_layout fs) \<le> nKey" "nKey < 2 ^ 31" and n: "0 < nField"
  shows "\<exists>ms'. sqlite3VdbeRecordUnpack (int nKey) (record_layout fs @ s) nField = Some ms' \<and>
    map mem_value ms' = map mem_value (take nField ms)"
proof -
  define T where "T = type_bytes (map fst fs)"
  define H where "H = header_size (length T)"
  define e where "e = putVarint32 (of_nat H)"
  define p where "p = record_layout fs @ s"
  have p: "p = e @ T @ concat (map snd fs) @ s" by (simp add: p_def record_layout_def T_def H_def e_def Let_def)
  note sz = record_layout_size [OF size, folded T_def, folded H_def, folded e_def]
  have get: "getVarint32 p = Some (length e, of_nat H)" unfolding p e_def by (rule getVarint32_put)
  have "drop (length e) p = T @ concat (map snd fs) @ s" by (simp add: p)
  moreover have "drop H p = concat (map snd fs) @ s" by (simp add: p flip: sz(1))
  ultimately have "\<exists>ms'. unpack_loop p (int nKey) H nField (length e) (int H) 0 = Some ms' \<and>
      map mem_value ms' = map mem_value (take (nField - 0) ms)"
    using fs sz size n
    by (intro unpack_loop_fields [where R = "concat (map snd fs) @ s" and S = s and fs = fs])
      (simp_all add: record_of_def T_def)
  then show ?thesis
    using get sz size by (simp add: sqlite3VdbeRecordUnpack_def p_def [symmetric] to_int_small)
qed
section \<open>When a record is made\<close>

lemma SerialType_len: "mem_ok m \<Longrightarrow> sqlite3VdbeSerialType m ff = (t, l) \<Longrightarrow> unat l \<le> 8 + mem_len m"
proof -
  assume ok: "mem_ok m" and t: "sqlite3VdbeSerialType m ff = (t, l)"
  have n: "n < 2 ^ 30 \<Longrightarrow> unat (of_nat n :: u32) = n" for n by (rule u32_of_nat) simp
  show ?thesis
  proof (cases m)
    case (MEM_Int i)
    with t show ?thesis by (auto simp: sqlite3VdbeSerialType_def Let_def split: if_splits)
  next
    case (MEM_Str z k)
    then show ?thesis using t n [of k] mem_ok_len [OF ok] by (auto simp: sqlite3VdbeSerialType_def)
  next
    case (MEM_Blob z k zs)
    then show ?thesis using t n [of "mem_len m"] mem_ok_len [OF ok]
      by (auto simp: sqlite3VdbeSerialType_def Let_def split: option.splits)
  qed (use t in \<open>auto simp: sqlite3VdbeSerialType_def\<close>)
qed

lemma serialType_bytes_le: "serialType_bytes t \<le> 5"
proof -
  have "unat (ucast t :: u64) < 2 ^ 35" using ucast_fits_u32 [of t] by simp
  then have "length (putVarint_buf (ucast t :: u64)) \<le> 5" by (intro putVarint_buf_length) simp_all
  then show ?thesis by (simp add: serialType_bytes_def VarintLen_buf)
qed

definition record_bound :: "vmem list \<Rightarrow> nat" where
  "record_bound ms = (\<Sum>m\<leftarrow>ms. 13 + mem_len m)"

lemma size_loop_bound:
  assumes "\<forall>m\<in>set rs. mem_ok m"
  shows "\<exists>fs' nData' nHdr' nZero'. size_loop ff rs fs nData nHdr nZero [] = Some (fs', nData', nHdr', nZero', []) \<and>
    nData' + nHdr' + nZero' \<le> nData + nHdr + nZero + record_bound rs"
  using assms
proof (induction rs arbitrary: fs nData nHdr nZero)
  case Nil
  then show ?case by (simp add: record_bound_def)
next
  case (Cons m rs)
  obtain t l where t: "sqlite3VdbeSerialType m ff = (t, l)" by fastforce
  have ok: "mem_ok m" using Cons.prems by simp
  have b: "unat l \<le> 8 + mem_len m" "serialType_bytes t \<le> 5" using SerialType_len [OF ok t] serialType_bytes_le by auto
  have step: "\<exists>fs' nData' nHdr' nZero'. size_loop ff rs fs0 D H Z [] = Some (fs', nData', nHdr', nZero', []) \<and>
      nData' + nHdr' + nZero' \<le> nData + nHdr + nZero + record_bound (m # rs)"
    if "D + H + Z \<le> nData + nHdr + nZero + 13 + mem_len m" for fs0 D H Z
  proof -
    have "\<forall>m\<in>set rs. mem_ok m" using Cons.prems by simp
    from Cons.IH [OF this, of fs0 D H Z] that show ?thesis by (fastforce simp: record_bound_def)
  qed
  show ?case
  proof (cases "\<exists>z n k. m = MEM_Blob z n (Some k)")
    case False
    show ?thesis unfolding size_loop_plain [OF False t] by (rule step) (use b in simp)
  next
    case True
    then obtain z n k where z: "m = MEM_Blob z n (Some k)" by blast
    have "n + k < 2 ^ 30" using mem_ok_len [OF ok] by (simp add: z)
    then have n: "unat (l - of_nat k) = n" using t z by (auto simp: sqlite3VdbeSerialType_def Let_def u32_of_nat)
    have "size_loop ff (m # rs) fs nData nHdr nZero [] =
      (if nData = 0 then size_loop ff rs ((m, t) # fs) (unat (l - of_nat k))
          (nHdr + serialType_bytes t) (nZero + k) []
       else size_loop ff rs ((sqlite3VdbeMemExpandBlob m, t) # fs)
          (nData + unat l) (nHdr + serialType_bytes t) nZero [])"
      using size_loop_zeros [OF t [unfolded z]] by (simp add: z del: size_loop.simps)
    moreover have "unat (l - of_nat k) + k = mem_len m" unfolding n by (simp add: z)
    ultimately show ?thesis
      using b step [of "unat (l - of_nat k)" "nHdr + serialType_bytes t" "nZero + k" "(m, t) # fs"]
        step [of "nData + unat l" "nHdr + serialType_bytes t" nZero "(sqlite3VdbeMemExpandBlob m, t) # fs"]
      by (cases "nData = 0") (simp_all del: size_loop.simps)
  qed
qed

lemma MakeRecord_makes:
  assumes ok: "\<forall>m\<in>set regs. mem_ok m" and limit: "limit \<le> SQLITE_MAX_LENGTH"
    and fit: "record_bound regs + 6 \<le> limit"
  shows "\<exists>z nZero regs'. MakeRecord limit ff junk [] regs = Some (Made z nZero regs')"
proof -
  obtain fs D H Z where sz: "size_loop ff (rev regs) [] 0 0 0 [] = Some (fs, D, H, Z, [])"
    "D + H + Z \<le> record_bound regs"
    using size_loop_bound [of "rev regs" ff "[]" 0 0 0] ok
    by (auto simp: record_bound_def rev_map [symmetric] sum_list_rev)
  have "header_size H \<le> H + 6" using sz(2) fit limit by (intro header_size_exact) (simp add: SQLITE_MAX_LENGTH_def)
  then have "\<not> header_size H + D + Z > limit" using sz(2) fit by simp
  moreover obtain r where "MakeRecord limit ff junk [] regs = Some r"
    using MakeRecord_cases [OF ok limit] by blast
  ultimately show ?thesis
    by (auto simp: MakeRecord_def sz Let_def bind_eq_Some_conv split: if_splits)
qed
section \<open>Properties\<close>

text \<open>
  C25: A row makes a record, and the record gives the row back: for registers as the engine
  keeps them, \<open>MakeRecord\<close> never writes outside its buffer and its offsets end where the sizes
  computed before say, whatever the allocations do; without a failed allocation and with room
  under the length limit it makes a record. Decoding the record, its unstored zeros written
  out and anything behind it, with \<open>sqlite3VdbeRecordUnpack\<close> never reads outside the buffer and
  gives the values of the registers (as many as there is room for).
\<close>

theorem record_roundtrip:
  assumes ok: "\<forall>m\<in>set regs. mem_ok m" and limit: "limit \<le> SQLITE_MAX_LENGTH" and n: "0 < nField"
  shows "\<exists>r. MakeRecord limit ff junk mem regs = Some r \<and>
      (mem = [] \<and> record_bound regs + 6 \<le> limit \<longrightarrow> (\<exists>z nZero regs'. r = Made z nZero regs')) \<and>
      (\<forall>z nZero regs'. r = Made z nZero regs' \<longrightarrow>
         length z + nZero \<le> limit \<and> map mem_value regs' = map mem_value regs \<and>
         (\<exists>ms. sqlite3VdbeRecordUnpack (int (length z + nZero)) (z @ replicate nZero 0 @ s) nField = Some ms \<and>
               map mem_value ms = map mem_value (take nField regs)))"
proof -
  obtain r where r: "MakeRecord limit ff junk mem regs = Some r"
    and made: "\<And>z nZero regs'. r = Made z nZero regs' \<Longrightarrow>
       length z + nZero \<le> limit \<and> (\<exists>fs. z @ replicate nZero 0 = record_layout fs \<and> record_of fs regs) \<and>
       list_all2 (\<lambda>m m'. mem_value m' = mem_value m) regs regs'"
    using MakeRecord_cases [OF ok limit, of ff junk mem] by blast
  have "\<exists>ms. sqlite3VdbeRecordUnpack (int (length z + nZero)) (z @ replicate nZero 0 @ s) nField = Some ms \<and>
               map mem_value ms = map mem_value (take nField regs)"
    if "r = Made z nZero regs'" for z nZero regs'
  proof -
    note m = made [OF that]
    obtain fs where fs: "z @ replicate nZero 0 = record_layout fs" "record_of fs regs" using m by blast
    have "length (record_layout fs) \<le> length z + nZero" by (simp flip: fs(1))
    moreover have "length z + nZero < 2 ^ 31" using m limit by (simp add: SQLITE_MAX_LENGTH_def)
    ultimately show ?thesis using unpack_record [OF fs(2) _ _ n, of "length z + nZero" s] by (simp flip: fs(1))
  qed
  moreover have "map mem_value regs' = map mem_value regs" if "r = Made z nZero regs'" for z nZero regs'
    using made [OF that] by (auto simp: list_all2_conv_all_nth intro!: nth_equalityI)
  moreover have "mem = [] \<and> record_bound regs + 6 \<le> limit \<longrightarrow> (\<exists>z nZero regs'. r = Made z nZero regs')"
  proof (intro impI, elim conjE)
    assume "mem = []" "record_bound regs + 6 \<le> limit"
    with MakeRecord_makes [OF ok limit, of ff junk] r show "\<exists>z nZero regs'. r = Made z nZero regs'" by simp
  qed
  moreover have "r = Made z nZero regs' \<Longrightarrow> length z + nZero \<le> limit" for z nZero regs' using made by blast
  ultimately show ?thesis by (intro exI [of _ r] conjI allI impI r) simp_all
qed

definition sample_row :: "vmem list" where
  "sample_row = [MEM_Int 300, MEM_Null, MEM_Str [104, 105, 33] 2, MEM_Blob [] 0 (Some 3)]"

lemma record_roundtrip_witness:
  "\<exists>z nZero regs'. MakeRecord 1000 4 (\<lambda>i. 7) [] sample_row = Some (Made z nZero regs') \<and>
    (\<exists>ms. sqlite3VdbeRecordUnpack (int (length z + nZero)) (z @ replicate nZero 0 @ [1, 2]) 9 = Some ms \<and>
      map mem_value ms = [Integer 300, Null, Text [104, 105], Blob [0, 0, 0]])"
proof -
  have ok: "\<forall>m\<in>set sample_row. mem_ok m" by (simp add: sample_row_def SQLITE_MAX_LENGTH_def)
  have room: "record_bound sample_row + 6 \<le> 1000" by (simp add: record_bound_def sample_row_def)
  have vals: "map mem_value (take 9 sample_row) = [Integer 300, Null, Text [104, 105], Blob [0, 0, 0]]"
    by (simp add: sample_row_def numeral_3_eq_3)
  have "(1000 :: nat) \<le> SQLITE_MAX_LENGTH" by (simp add: SQLITE_MAX_LENGTH_def)
  from record_roundtrip [OF ok this, of 9 4 "\<lambda>i. 7" "[]" "[1, 2]"] room show ?thesis
    unfolding vals by (auto simp del: take_Cons_numeral)
qed

end
