(* ===== verification/RecordCompare.thy ===== *)
theory RecordCompare
  imports RecordFormat Utf Ctype
begin

text \<open>
  Comparison of values and of records (\<open>vdbeaux.c\<close>): the order of two \<open>Mem\<close> values, the
  comparison of a serialized key with an unpacked one, which decodes no more of the key than it
  has to, and its two fast variants for keys that begin with an integer or with a text of the
  collation BINARY; the built-in collations of \<open>main.c\<close>. A read outside a buffer is \<open>None\<close>.
\<close>

section \<open>Collations\<close>

text \<open>The C library's \<open>memcmp\<close>: the bytes as unsigned numbers, the first difference decides.\<close>

fun bytes_cmp :: "u8 list \<Rightarrow> u8 list \<Rightarrow> int" where
  "bytes_cmp (a # x) (b # y) = (if a \<noteq> b then uint a - uint b else bytes_cmp x y)"
| "bytes_cmp x y = 0"

definition memcmp_n :: "nat \<Rightarrow> u8 list \<Rightarrow> u8 list \<Rightarrow> int option" where
  "memcmp_n n x y = (if n \<le> length x \<and> n \<le> length y then Some (bytes_cmp (take n x) (take n y)) else None)"

text \<open>A collating function takes two texts of known lengths; \<open>padFlag\<close> makes BINARY to RTRIM.\<close>

fun spaces_end :: "u8 list \<Rightarrow> nat \<Rightarrow> nat" where
  "spaces_end z 0 = 0"
| "spaces_end z (Suc n) = (if z ! n = 32 then spaces_end z n else Suc n)"

definition allSpaces :: "u8 list \<Rightarrow> bool" where
  "allSpaces z \<longleftrightarrow> spaces_end z (length z) = 0"

definition binCollFunc :: "bool \<Rightarrow> u8 list \<Rightarrow> u8 list \<Rightarrow> int" where
  "binCollFunc padFlag key1 key2 =
     (let n = (if length key1 < length key2 then length key1 else length key2);
          rc = bytes_cmp (take n key1) (take n key2)
      in if rc = 0 then
           (if padFlag \<and> allSpaces (drop n key1) \<and> allSpaces (drop n key2) then rc
            else int (length key1) - int (length key2))
         else rc)"

definition nocaseCollatingFunc :: "u8 list \<Rightarrow> u8 list \<Rightarrow> int" where
  "nocaseCollatingFunc key1 key2 =
     (let r = sqlite3_strnicmp (Some key1) (Some key2)
                (int (if length key1 < length key2 then length key1 else length key2))
      in if r = 0 then int (length key1) - int (length key2) else r)"

section \<open>Keys\<close>

text \<open>
  What describes a key: a collation per field (\<open>None\<close> is the null pointer, BINARY), the sort
  order of each field (true for DESC), and the encoding of the database. Two things of the
  surroundings are kept with it: how the platform converts doubles, and whether the memory
  for converting the left and the right text to the encoding of a collation is there.
\<close>

record CollSeq =
  coll_enc :: nat
  xCmp :: "u8 list \<Rightarrow> u8 list \<Rightarrow> int"

record KeyInfo =
  ki_enc :: nat
  ki_nField :: nat
  ki_nXField :: nat
  aSortOrder :: "bool list"
  aColl :: "CollSeq option list"
  ki_platform :: platform
  ki_mallocs :: "bool \<times> bool"

record UnpackedRecord =
  pKeyInfo :: KeyInfo
  aMem :: "vmem list"
  nField :: nat
  default_rc :: int
  errCode :: nat
  r1 :: int
  r2 :: int
  eqSeen :: bool


section \<open>Values\<close>

text \<open>
  The text in the encoding \<open>enc\<close>; the inner \<open>None\<close> is the null pointer of a failed
  conversion.
\<close>

definition valueToText :: "bool \<Rightarrow> nat \<Rightarrow> u8 list \<Rightarrow> nat \<Rightarrow> u8 list option option" where
  "valueToText malloc mem_enc z enc =
     (if mem_enc \<noteq> enc then do {
        (rc, pVal) \<leftarrow> sqlite3VdbeMemTranslate malloc \<lparr>m_z = z, m_enc = mem_enc\<rparr> enc;
        Some (if m_enc pVal = enc then Some (m_z pVal) else None) }
      else Some (Some z))"

text \<open>The result and whether \<open>*prcErr\<close> is set to \<open>SQLITE_NOMEM\<close>.\<close>

definition vdbeCompareMemString :: "KeyInfo \<Rightarrow> u8 list \<Rightarrow> u8 list \<Rightarrow> CollSeq \<Rightarrow> (int \<times> bool) option" where
  "vdbeCompareMemString ki z1 z2 pColl =
     (if ki_enc ki = coll_enc pColl then Some (xCmp pColl z1 z2, False)
      else do {
        v1 \<leftarrow> valueToText (fst (ki_mallocs ki)) (ki_enc ki) z1 (coll_enc pColl);
        v2 \<leftarrow> valueToText (snd (ki_mallocs ki)) (ki_enc ki) z2 (coll_enc pColl);
        (let rc = xCmp pColl (case v1 of None \<Rightarrow> [] | Some t \<Rightarrow> t) (case v2 of None \<Rightarrow> [] | Some t \<Rightarrow> t)
         in Some (rc, v1 = None \<or> v2 = None)) })"

fun isAllZero :: "u8 list \<Rightarrow> nat \<Rightarrow> bool option" where
  "isAllZero z 0 = Some True"
| "isAllZero z (Suc n) = do { c \<leftarrow> rd z 0; if c \<noteq> 0 then Some False else isAllZero (drop 1 z) n }"

text \<open>A blob as its pointer, its length and its \<open>MEM_Zero\<close>.\<close>

fun sqlite3BlobCompare :: "u8 list \<times> nat \<times> nat option \<Rightarrow> u8 list \<times> nat \<times> nat option \<Rightarrow> int option" where
  "sqlite3BlobCompare (z1, n1, Some k1) (z2, n2, Some k2) = Some (int k1 - int k2)"
| "sqlite3BlobCompare (z1, n1, Some k1) (z2, n2, None) =
     do { b \<leftarrow> isAllZero z2 n2; Some (if \<not> b then - 1 else int k1 - int n2) }"
| "sqlite3BlobCompare (z1, n1, None) (z2, n2, Some k2) =
     do { b \<leftarrow> isAllZero z1 n1; Some (if \<not> b then 1 else int n1 - int k2) }"
| "sqlite3BlobCompare (z1, n1, None) (z2, n2, None) =
     do { c \<leftarrow> memcmp_n (if n1 > n2 then n2 else n1) z1 z2; Some (if c \<noteq> 0 then c else int n1 - int n2) }"

text \<open>The bytes of a text; a length beyond the buffer is a read outside it.\<close>

definition str_bytes :: "u8 list \<Rightarrow> nat \<Rightarrow> u8 list option" where
  "str_bytes z n = (if n \<le> length z then Some (take n z) else None)"

definition of_bool_int :: "bool \<Rightarrow> int" where "of_bool_int b = (if b then 1 else 0)"

fun sqlite3MemCompare :: "KeyInfo \<Rightarrow> vmem \<Rightarrow> vmem \<Rightarrow> CollSeq option \<Rightarrow> int option" where
  "sqlite3MemCompare ki MEM_Null m2 pColl = Some (of_bool_int (m2 = MEM_Null) - 1)"
| "sqlite3MemCompare ki m1 MEM_Null pColl = Some 1"
| "sqlite3MemCompare ki (MEM_Int i) (MEM_Int j) pColl =
     Some (if i <s j then - 1 else if j <s i then 1 else 0)"
| "sqlite3MemCompare ki (MEM_Real r) (MEM_Real s) pColl =
     Some (if dbl_less r s then - 1 else if dbl_less s r then 1 else 0)"
| "sqlite3MemCompare ki (MEM_Int i) (MEM_Real r) pColl = Some (sqlite3IntFloatCompare (ki_platform ki) i r)"
| "sqlite3MemCompare ki (MEM_Int i) m2 pColl = Some (- 1)"
| "sqlite3MemCompare ki (MEM_Real r) (MEM_Int i) pColl = Some (- sqlite3IntFloatCompare (ki_platform ki) i r)"
| "sqlite3MemCompare ki (MEM_Real r) m2 pColl = Some (- 1)"
| "sqlite3MemCompare ki m1 (MEM_Int i) pColl = Some 1"
| "sqlite3MemCompare ki m1 (MEM_Real r) pColl = Some 1"
| "sqlite3MemCompare ki (MEM_Blob z1 n1 k1) (MEM_Str z2 n2) pColl = Some 1"
| "sqlite3MemCompare ki (MEM_Str z1 n1) (MEM_Blob z2 n2 k2) pColl = Some (- 1)"
| "sqlite3MemCompare ki (MEM_Str z1 n1) (MEM_Str z2 n2) pColl =
     (case pColl of
        Some c \<Rightarrow> do { t1 \<leftarrow> str_bytes z1 n1; t2 \<leftarrow> str_bytes z2 n2;
                       map_option fst (vdbeCompareMemString ki t1 t2 c) }
      | None \<Rightarrow> sqlite3BlobCompare (z1, n1, None) (z2, n2, None))"
| "sqlite3MemCompare ki (MEM_Blob z1 n1 k1) (MEM_Blob z2 n2 k2) pColl =
     sqlite3BlobCompare (z1, n1, k1) (z2, n2, k2)"
section \<open>A serialized key and an unpacked key\<close>

definition vdbeRecordDecodeInt :: "u32 \<Rightarrow> u8 list \<Rightarrow> i64 option" where
  "vdbeRecordDecodeInt serial_type aKey =
     (if serial_type = 0 \<or> serial_type = 1 then map_option scast (ONE_BYTE_INT aKey)
      else if serial_type = 2 then map_option scast (TWO_BYTE_INT aKey)
      else if serial_type = 3 then map_option scast (THREE_BYTE_INT aKey)
      else if serial_type = 4 then map_option scast (FOUR_BYTE_UINT aKey)
      else if serial_type = 5 then SIX_BYTE_INT aKey
      else if serial_type = 6 then do {
        x \<leftarrow> FOUR_BYTE_UINT aKey; y \<leftarrow> FOUR_BYTE_UINT (drop 4 aKey);
        Some (push_bit 32 (ucast x) OR ucast y) }
      else Some (ucast (serial_type - 8)))"

text \<open>The double that \<open>serialGet\<close> leaves in \<open>mem1.u.r\<close>, a NaN included.\<close>

definition mem1_real :: "u8 list \<Rightarrow> u64 option" where
  "mem1_real buf = do {
     x \<leftarrow> FOUR_BYTE_UINT buf; y \<leftarrow> FOUR_BYTE_UINT (drop 4 buf);
     Some (push_bit 32 (ucast x) + ucast y) }"

text \<open>
  One round of the loop of \<open>sqlite3VdbeRecordCompareWithSkip\<close>: a corrupt record, or the result
  \<open>rc\<close> with the serial type that was read and whether memory ran out. \<open>idx1\<close> and \<open>d1\<close> are
  the offsets of the serial type and of the value in \<open>aKey1\<close>.
\<close>

datatype field_result = Corrupt | Compared int u32 bool

definition compare_rhs_int :: "KeyInfo \<Rightarrow> u8 list \<Rightarrow> nat \<Rightarrow> nat \<Rightarrow> i64 \<Rightarrow> field_result option" where
  "compare_rhs_int ki aKey1 d1 idx1 i = do {
     b \<leftarrow> rd aKey1 idx1;
     (let serial_type = ucast b
      in if serial_type \<ge> 10 then Some (Compared 1 serial_type False)
         else if serial_type = 0 then Some (Compared (- 1) serial_type False)
         else if serial_type = 7 then do {
           v \<leftarrow> mem1_real (drop d1 aKey1);
           Some (Compared (- sqlite3IntFloatCompare (ki_platform ki) i v) serial_type False) }
         else do {
           lhs \<leftarrow> vdbeRecordDecodeInt serial_type (drop d1 aKey1);
           Some (Compared (if lhs <s i then - 1 else if i <s lhs then 1 else 0) serial_type False) }) }"

definition compare_rhs_real :: "KeyInfo \<Rightarrow> u8 list \<Rightarrow> nat \<Rightarrow> nat \<Rightarrow> u64 \<Rightarrow> field_result option" where
  "compare_rhs_real ki aKey1 d1 idx1 r = do {
     b \<leftarrow> rd aKey1 idx1;
     (let serial_type = ucast b
      in if serial_type \<ge> 10 then Some (Compared 1 serial_type False)
         else if serial_type = 0 then Some (Compared (- 1) serial_type False)
         else if serial_type = 7 then do {
           v \<leftarrow> mem1_real (drop d1 aKey1);
           Some (Compared (if dbl_less v r then - 1 else if dbl_less r v then 1 else 0) serial_type False) }
         else do {
           (mem1, n) \<leftarrow> sqlite3VdbeSerialGet (drop d1 aKey1) serial_type;
           (case mem1 of
              MEM_Int v \<Rightarrow> Some (Compared (sqlite3IntFloatCompare (ki_platform ki) v r) serial_type False)
            | _ \<Rightarrow> None) }) }"

definition compare_rhs_str ::
    "KeyInfo \<Rightarrow> CollSeq option \<Rightarrow> nat \<Rightarrow> u8 list \<Rightarrow> nat \<Rightarrow> nat \<Rightarrow> u8 list \<Rightarrow> nat \<Rightarrow> field_result option" where
  "compare_rhs_str ki pColl nKey1 aKey1 d1 idx1 z n = do {
     (k, serial_type) \<leftarrow> getVarint32 (drop idx1 aKey1);
     (if serial_type < 12 then Some (Compared (- 1) serial_type False)
      else if serial_type AND 1 \<noteq> 1 then Some (Compared 1 serial_type False)
      else
        let mem1_n = unat ((serial_type - 12) div 2)
        in if d1 + mem1_n > nKey1 then Some Corrupt
           else (case pColl of
             Some c \<Rightarrow> do {
               t1 \<leftarrow> str_bytes (drop d1 aKey1) mem1_n; t2 \<leftarrow> str_bytes z n;
               (rc, oom) \<leftarrow> vdbeCompareMemString ki t1 t2 c;
               Some (Compared rc serial_type oom) }
           | None \<Rightarrow> do {
               rc \<leftarrow> memcmp_n (min mem1_n n) (drop d1 aKey1) z;
               Some (Compared (if rc = 0 then int mem1_n - int n else rc) serial_type False) })) }"

definition compare_rhs_blob ::
    "nat \<Rightarrow> u8 list \<Rightarrow> nat \<Rightarrow> nat \<Rightarrow> u8 list \<Rightarrow> nat \<Rightarrow> nat option \<Rightarrow> field_result option" where
  "compare_rhs_blob nKey1 aKey1 d1 idx1 z n nZero = do {
     (k, serial_type) \<leftarrow> getVarint32 (drop idx1 aKey1);
     (if serial_type < 12 \<or> serial_type AND 1 = 1 then Some (Compared (- 1) serial_type False)
      else
        let nStr = unat ((serial_type - 12) div 2)
        in if d1 + nStr > nKey1 then Some Corrupt
           else (case nZero of
             Some k \<Rightarrow> do {
               b \<leftarrow> isAllZero (drop d1 aKey1) nStr;
               Some (Compared (if \<not> b then 1 else int nStr - int k) serial_type False) }
           | None \<Rightarrow> do {
               rc \<leftarrow> memcmp_n (min nStr n) (drop d1 aKey1) z;
               Some (Compared (if rc = 0 then int nStr - int n else rc) serial_type False) })) }"

definition compare_rhs_null :: "u8 list \<Rightarrow> nat \<Rightarrow> field_result option" where
  "compare_rhs_null aKey1 idx1 = do {
     b \<leftarrow> rd aKey1 idx1;
     (let serial_type = ucast b in Some (Compared (of_bool_int (serial_type \<noteq> 0)) serial_type False)) }"

definition compare_field ::
    "KeyInfo \<Rightarrow> CollSeq option \<Rightarrow> nat \<Rightarrow> u8 list \<Rightarrow> nat \<Rightarrow> nat \<Rightarrow> vmem \<Rightarrow> field_result option" where
  "compare_field ki pColl nKey1 aKey1 d1 idx1 pRhs =
     (case pRhs of
        MEM_Int i \<Rightarrow> compare_rhs_int ki aKey1 d1 idx1 i
      | MEM_Real r \<Rightarrow> compare_rhs_real ki aKey1 d1 idx1 r
      | MEM_Str z n \<Rightarrow> compare_rhs_str ki pColl nKey1 aKey1 d1 idx1 z n
      | MEM_Blob z n nZero \<Rightarrow> compare_rhs_blob nKey1 aKey1 d1 idx1 z n nZero
      | MEM_Null \<Rightarrow> compare_rhs_null aKey1 idx1)"

text \<open>The loop, from field \<open>i\<close> on.\<close>

function compare_loop :: "nat \<Rightarrow> u8 list \<Rightarrow> nat \<Rightarrow> UnpackedRecord \<Rightarrow> nat \<Rightarrow> nat \<Rightarrow> nat \<Rightarrow> (int \<times> UnpackedRecord) option" where
  "compare_loop nKey1 aKey1 szHdr1 p i d1 idx1 =
     (case (rd (aMem p) i, rd (aColl (pKeyInfo p)) i, rd (aSortOrder (pKeyInfo p)) i) of
        (Some pRhs, Some pColl, Some desc) \<Rightarrow>
          (case compare_field (pKeyInfo p) pColl nKey1 aKey1 d1 idx1 pRhs of
             None \<Rightarrow> None
           | Some Corrupt \<Rightarrow> Some (0, p\<lparr>errCode := SQLITE_CORRUPT\<rparr>)
           | Some (Compared rc serial_type oom) \<Rightarrow>
               let p = (if oom then p\<lparr>errCode := SQLITE_NOMEM\<rparr> else p)
               in if rc \<noteq> 0 then Some (if desc then - rc else rc, p)
                  else
                    let i' = Suc i; d1 = d1 + sqlite3VdbeSerialTypeLen serial_type;
                        idx1 = idx1 + sqlite3VarintLen (ucast serial_type)
                    in if idx1 < szHdr1 \<and> i' < nField p \<and> d1 \<le> nKey1
                       then compare_loop nKey1 aKey1 szHdr1 p i' d1 idx1
                       else Some (default_rc p, p\<lparr>eqSeen := True\<rparr>))
      | _ \<Rightarrow> None)"
  by pat_completeness auto
termination
  by (relation "measure (\<lambda>(nKey1, aKey1, szHdr1, p, i, d1, idx1). nField p - i)") (auto split: if_splits)

declare compare_loop.simps [simp del]

definition sqlite3VdbeRecordCompareWithSkip ::
    "nat \<Rightarrow> u8 list \<Rightarrow> UnpackedRecord \<Rightarrow> bool \<Rightarrow> (int \<times> UnpackedRecord) option" where
  "sqlite3VdbeRecordCompareWithSkip nKey1 aKey1 p bSkip =
     (if bSkip then do {
        (n, s1) \<leftarrow> getVarint32 (drop 1 aKey1);
        szHdr1 \<leftarrow> rd aKey1 0;
        compare_loop nKey1 aKey1 (unat szHdr1) p 1 (unat szHdr1 + sqlite3VdbeSerialTypeLen s1) (1 + n) }
      else do {
        (idx1, szHdr1) \<leftarrow> getVarint32 aKey1;
        (if unat szHdr1 > nKey1 then Some (0, p\<lparr>errCode := SQLITE_CORRUPT\<rparr>)
         else compare_loop nKey1 aKey1 (unat szHdr1) p 0 (unat szHdr1) idx1) })"

definition sqlite3VdbeRecordCompare :: "nat \<Rightarrow> u8 list \<Rightarrow> UnpackedRecord \<Rightarrow> (int \<times> UnpackedRecord) option" where
  "sqlite3VdbeRecordCompare nKey1 aKey1 p = sqlite3VdbeRecordCompareWithSkip nKey1 aKey1 p False"
section \<open>The fast variants\<close>

text \<open>The integer at \<open>aKey\<close>; the inner \<open>None\<close> is a first field that is no integer.\<close>

definition compareInt_lhs :: "u32 \<Rightarrow> u8 list \<Rightarrow> i64 option option" where
  "compareInt_lhs serial_type aKey =
     (if serial_type = 1 then map_option (Some \<circ> scast) (ONE_BYTE_INT aKey)
      else if serial_type = 2 then map_option (Some \<circ> scast) (TWO_BYTE_INT aKey)
      else if serial_type = 3 then map_option (Some \<circ> scast) (THREE_BYTE_INT aKey)
      else if serial_type = 4 then map_option (Some \<circ> scast) (FOUR_BYTE_UINT aKey)
      else if serial_type = 5 then map_option Some (SIX_BYTE_INT aKey)
      else if serial_type = 6 then do {
        x \<leftarrow> FOUR_BYTE_UINT aKey; y \<leftarrow> FOUR_BYTE_UINT (drop 4 aKey);
        Some (Some (push_bit 32 (ucast x) OR ucast y)) }
      else if serial_type = 8 then Some (Some 0)
      else if serial_type = 9 then Some (Some 1)
      else Some None)"

definition vdbeRecordCompareInt :: "nat \<Rightarrow> u8 list \<Rightarrow> UnpackedRecord \<Rightarrow> (int \<times> UnpackedRecord) option" where
  "vdbeRecordCompareInt nKey1 pKey1 p = do {
     b0 \<leftarrow> rd pKey1 0;
     b1 \<leftarrow> rd pKey1 1;
     lhs \<leftarrow> compareInt_lhs (ucast b1) (drop (unat (b0 AND 0x3F)) pKey1);
     (case lhs of
        None \<Rightarrow> sqlite3VdbeRecordCompare nKey1 pKey1 p
      | Some lhs \<Rightarrow>
          (case rd (aMem p) 0 of
             Some (MEM_Int v) \<Rightarrow>
               if lhs <s v then Some (r1 p, p)
               else if v <s lhs then Some (r2 p, p)
               else if nField p > 1 then sqlite3VdbeRecordCompareWithSkip nKey1 pKey1 p True
               else Some (default_rc p, p\<lparr>eqSeen := True\<rparr>)
           | _ \<Rightarrow> None)) }"

definition vdbeRecordCompareString :: "nat \<Rightarrow> u8 list \<Rightarrow> UnpackedRecord \<Rightarrow> (int \<times> UnpackedRecord) option" where
  "vdbeRecordCompareString nKey1 aKey1 p = do {
     (k, t) \<leftarrow> getVarint32 (drop 1 aKey1);
     (let serial_type = sint t
      in if serial_type < 12 then Some (r1 p, p)
         else if t AND 1 \<noteq> 1 then Some (r2 p, p)
         else do {
           szHdr \<leftarrow> rd aKey1 0;
           (let nStr = nat ((serial_type - 12) div 2); szHdr = unat szHdr
            in if szHdr + nStr > nKey1 then Some (0, p\<lparr>errCode := SQLITE_CORRUPT\<rparr>)
               else (case rd (aMem p) 0 of
                 Some (MEM_Str z n) \<Rightarrow> do {
                   res \<leftarrow> memcmp_n (min n nStr) (drop szHdr aKey1) z;
                   (if res = 0 then
                      (let res = int nStr - int n
                       in if res = 0 then
                            (if nField p > 1 then sqlite3VdbeRecordCompareWithSkip nKey1 aKey1 p True
                             else Some (default_rc p, p\<lparr>eqSeen := True\<rparr>))
                          else if res > 0 then Some (r2 p, p) else Some (r1 p, p))
                    else if res > 0 then Some (r2 p, p) else Some (r1 p, p)) }
               | _ \<Rightarrow> None)) }) }"

text \<open>
  The function that \<open>sqlite3VdbeFindCompare\<close> returns, and the record with the results \<open>r1\<close> and
  \<open>r2\<close> the fast variants give for a smaller and a larger first field.
\<close>

datatype RecordCompare = Compare_Int | Compare_String | Compare_Record

definition sqlite3VdbeFindCompare :: "UnpackedRecord \<Rightarrow> (RecordCompare \<times> UnpackedRecord) option" where
  "sqlite3VdbeFindCompare p =
     (if ki_nField (pKeyInfo p) + ki_nXField (pKeyInfo p) \<le> 13 then do {
        m \<leftarrow> rd (aMem p) 0;
        desc \<leftarrow> rd (aSortOrder (pKeyInfo p)) 0;
        c \<leftarrow> rd (aColl (pKeyInfo p)) 0;
        (let p = (if desc then p\<lparr>r1 := 1, r2 := - 1\<rparr> else p\<lparr>r1 := - 1, r2 := 1\<rparr>)
         in Some (case m of
              MEM_Int i \<Rightarrow> (Compare_Int, p)
            | MEM_Str z n \<Rightarrow> (if c = None then Compare_String else Compare_Record, p)
            | _ \<Rightarrow> (Compare_Record, p))) }
      else Some (Compare_Record, p))"

fun run_compare :: "RecordCompare \<Rightarrow> nat \<Rightarrow> u8 list \<Rightarrow> UnpackedRecord \<Rightarrow> (int \<times> UnpackedRecord) option" where
  "run_compare Compare_Int = vdbeRecordCompareInt"
| "run_compare Compare_String = vdbeRecordCompareString"
| "run_compare Compare_Record = sqlite3VdbeRecordCompare"
section \<open>The order of values\<close>

text \<open>
  What the comparisons are to compute, as -1, 0 or 1: NULL comes first, then the numbers by
  their exact values, then the texts by their collation, then the blobs byte by byte.
\<close>

fun bytes_order :: "u8 list \<Rightarrow> u8 list \<Rightarrow> int" where
  "bytes_order [] [] = 0"
| "bytes_order [] (b # y) = - 1"
| "bytes_order (a # x) [] = 1"
| "bytes_order (a # x) (b # y) = (if a < b then - 1 else if b < a then 1 else bytes_order x y)"

definition text_order :: "CollSeq option \<Rightarrow> u8 list \<Rightarrow> u8 list \<Rightarrow> int" where
  "text_order pColl x y = (case pColl of None \<Rightarrow> bytes_order x y | Some c \<Rightarrow> sgn (xCmp c x y))"

fun value_rank :: "sql_value \<Rightarrow> int" where
  "value_rank Null = 0"
| "value_rank (Integer i) = 1"
| "value_rank (Real r) = 1"
| "value_rank (Text x) = 2"
| "value_rank (Blob x) = 3"

fun value_num :: "sql_value \<Rightarrow> int" where
  "value_num (Integer i) = i * dbl_unit"
| "value_num (Real r) = dbl_scaled r"
| "value_num v = 0"

fun value_order :: "CollSeq option \<Rightarrow> sql_value \<Rightarrow> sql_value \<Rightarrow> int" where
  "value_order pColl (Text x) (Text y) = text_order pColl x y"
| "value_order pColl (Blob x) (Blob y) = bytes_order x y"
| "value_order pColl v w =
     (if value_rank v = value_rank w then cmp3 (value_num v) (value_num w)
      else cmp3 (value_rank v) (value_rank w))"

section \<open>Bytes\<close>

lemma bytes_order_prefix:
  "bytes_cmp (take n x) (take n y) \<noteq> 0 \<Longrightarrow> bytes_order x y = sgn (bytes_cmp (take n x) (take n y))"
  by (induction x y arbitrary: n rule: bytes_order.induct)
    (auto simp: take_Cons word_less_def sgn_if not_less split: nat.splits if_splits)

lemma bytes_order_same:
  "bytes_cmp (take n x) (take n y) = 0 \<Longrightarrow> min (length x) (length y) \<le> n \<Longrightarrow>
   bytes_order x y = sgn (int (length x) - int (length y))"
  by (induction x y arbitrary: n rule: bytes_order.induct)
    (auto simp: take_Cons word_uint_eq_iff word_less_def split: nat.splits if_splits)

lemma memcmp_order:
  assumes "length x = n1" "length y = n2"
  shows "\<exists>c. memcmp_n (min n1 n2) (x @ s) (y @ t) = Some c \<and>
    sgn (if c = 0 then int n1 - int n2 else c) = bytes_order x y"
proof -
  let ?n = "min n1 n2"
  have "memcmp_n ?n (x @ s) (y @ t) = Some (bytes_cmp (take ?n x) (take ?n y))"
    using assms by (simp add: memcmp_n_def trans_le_add1)
  then show ?thesis
    using bytes_order_prefix [of ?n x y] bytes_order_same [of ?n x y] assms by simp
qed

lemma isAllZero_eq: "n \<le> length z \<Longrightarrow> isAllZero z n = Some (list_all (\<lambda>b. b = 0) (take n z))"
proof (induction n arbitrary: z)
  case (Suc n)
  then obtain b y where "z = b # y" by (cases z) auto
  with Suc show ?case by simp
qed simp

lemma zeros_order:
  "bytes_order x (replicate k 0) = (if \<not> list_all (\<lambda>b. b = 0) x then 1 else sgn (int (length x) - int k))"
  "bytes_order (replicate k 0) x = (if \<not> list_all (\<lambda>b. b = 0) x then - 1 else sgn (int k - int (length x)))"
proof (induction k arbitrary: x)
  case (Suc k)
  {
    case 1
    then show ?case using Suc by (cases x) (auto simp: word_neq_0_conv)
  next
    case 2
    then show ?case using Suc by (cases x) (auto simp: word_neq_0_conv)
  }
qed (case_tac [!] x, auto)
section \<open>MemCompare computes the order of values\<close>

text \<open>
  What a comparison may be given: values as the engine keeps them, a blob with unstored zeros
  being only zeros (the \<open>assert\<close> of \<open>sqlite3BlobCompare\<close>), and a collation in the encoding
  of the database.
\<close>

fun key_mem :: "vmem \<Rightarrow> bool" where
  "key_mem (MEM_Blob z n (Some k)) \<longleftrightarrow> n = 0 \<and> mem_ok (MEM_Blob z n (Some k))"
| "key_mem m \<longleftrightarrow> mem_ok m"

definition key_coll :: "KeyInfo \<Rightarrow> CollSeq option \<Rightarrow> bool" where
  "key_coll ki pColl \<longleftrightarrow> (case pColl of None \<Rightarrow> True | Some c \<Rightarrow> coll_enc c = ki_enc ki)"

lemma sgn_cmp3 [simp]: "sgn (cmp3 a b) = cmp3 a b"
  by (simp add: cmp3_def)

lemma cmp3_swap: "- cmp3 a b = cmp3 b a"
  by (simp add: cmp3_def)

lemma cmp3_scale: "cmp3 (a * dbl_unit) (b * dbl_unit) = cmp3 a b"
  using dbl_unit_pos by (simp add: cmp3_def)

lemma dbl_order: "\<not> sqlite3IsNaN r \<Longrightarrow> \<not> sqlite3IsNaN s \<Longrightarrow>
    (if dbl_less r s then - 1 else if dbl_less s r then 1 else 0) = cmp3 (dbl_scaled r) (dbl_scaled s)"
  by (simp add: dbl_less_def cmp3_def)

lemma int_order: "(if i <s j then - 1 else if j <s i then 1 else 0) = cmp3 (sint i) (sint (j :: i64))"
  by (simp add: cmp3_def word_sless_alt)

lemma IntFloat_order: "platform_ok pf \<Longrightarrow> \<not> sqlite3IsNaN r \<Longrightarrow>
    sqlite3IntFloatCompare pf i r = cmp3 (sint i * dbl_unit) (dbl_scaled r)"
  using IntFloatCompare_wide [of r pf i] IntFloatCompare_narrow [of r pf i]
  unfolding platform_ok_def by blast

lemma text_order_coll: "key_coll ki (Some c) \<Longrightarrow>
    vdbeCompareMemString ki x y c = Some (xCmp c x y, False) \<and> text_order (Some c) x y = sgn (xCmp c x y)"
  by (simp add: vdbeCompareMemString_def key_coll_def text_order_def)

lemma BlobCompare_order:
  assumes "n1 \<le> length z1" "n2 \<le> length z2" "k1 \<noteq> None \<Longrightarrow> n1 = 0" "k2 \<noteq> None \<Longrightarrow> n2 = 0"
  shows "\<exists>c. sqlite3BlobCompare (z1, n1, k1) (z2, n2, k2) = Some c \<and>
    sgn c = bytes_order (take n1 z1 @ replicate (case k1 of None \<Rightarrow> 0 | Some k \<Rightarrow> k) 0)
                        (take n2 z2 @ replicate (case k2 of None \<Rightarrow> 0 | Some k \<Rightarrow> k) 0)"
proof (cases k1; cases k2)
  assume k: "k1 = None" "k2 = None"
  have "(if n1 > n2 then n2 else n1) = min n1 n2" by (simp add: min_def)
  moreover have "z1 = take n1 z1 @ drop n1 z1" "z2 = take n2 z2 @ drop n2 z2" by simp_all
  ultimately show ?thesis
    using k memcmp_order [of "take n1 z1" n1 "take n2 z2" n2 "drop n1 z1" "drop n2 z2"] assms
    by (auto simp: if_distrib cong: if_cong)
qed (use assms in \<open>auto simp: isAllZero_eq zeros_order list_all_iff\<close>)

lemma key_mem_ok: "key_mem m \<Longrightarrow> mem_ok m"
  by (cases m rule: key_mem.cases) auto

lemma key_mem_Blob: "key_mem (MEM_Blob z n k) \<Longrightarrow> n \<le> length z \<and> (k \<noteq> None \<longrightarrow> n = 0)"
  by (cases k) auto

lemma MemCompare_order:
  assumes k: "key_mem m1" "key_mem m2" and c: "key_coll ki c" and pf: "platform_ok (ki_platform ki)"
  shows "\<exists>rc. sqlite3MemCompare ki m1 m2 c = Some rc \<and> sgn rc = value_order c (mem_value m1) (mem_value m2)"
proof (cases m1)
  case MEM_Null
  then show ?thesis by (cases m2) (simp_all add: of_bool_int_def cmp3_def)
next
  case (MEM_Int i)
  then show ?thesis using k pf
    by (cases m2) (simp_all add: int_order cmp3_scale IntFloat_order cmp3_def [of 1] key_mem_ok)
next
  case (MEM_Real r)
  then show ?thesis using k pf
    by (cases m2) (simp_all add: dbl_order IntFloat_order cmp3_swap cmp3_def [of 1])
next
  case 1: (MEM_Str z1 n1)
  show ?thesis
  proof (cases m2)
    case 2: (MEM_Str z2 n2)
    show ?thesis
    proof (cases c)
      case None
      then show ?thesis using BlobCompare_order [of n1 z1 n2 z2 None None] k
        by (simp add: 1 2 text_order_def)
    next
      case (Some d)
      then show ?thesis using k text_order_coll [of ki d] c
        by (simp add: 1 2 str_bytes_def)
    qed
  qed (use 1 in \<open>simp_all add: cmp3_def\<close>)
next
  case 1: (MEM_Blob z1 n1 k1)
  show ?thesis
  proof (cases m2)
    case 2: (MEM_Blob z2 n2 k2)
    show ?thesis
      using k [unfolded 1 2, THEN key_mem_Blob] BlobCompare_order [of n1 z1 n2 z2 k1 k2] by (simp add: 1 2)
  qed (use 1 in \<open>simp_all add: cmp3_def\<close>)
qed
section \<open>A field of a record\<close>

lemma add_or_32: "push_bit 32 (ucast x) + ucast y = (push_bit 32 (ucast x) OR ucast (y :: u32) :: u64)"
  by (rule disjunctive_add) (auto simp: bit_simps u32_bit_ge)

lemma four_byte_int: "FOUR_BYTE_UINT b = FOUR_BYTE_INT b"
proof -
  have "push_bit 24 (ucast (a :: u8)) = (16777216 * scast a :: u32)" for a
    unfolding mult_16777216 by (rule bit_eq32) (simp add: bit_simps u8_bit_ge)
  then show ?thesis by (simp add: FOUR_BYTE_UINT_def FOUR_BYTE_INT_def)
qed

text \<open>The two decoders of an integer agree.\<close>

lemma DecodeInt_eq:
  assumes "t = 1 \<or> t = 2 \<or> t = 3 \<or> t = 4 \<or> t = 5 \<or> t = 6 \<or> t = 8 \<or> t = 9"
  shows "vdbeRecordDecodeInt t b = map_option (\<lambda>(m, n). case m of MEM_Int i \<Rightarrow> i | _ \<Rightarrow> 0) (sqlite3VdbeSerialGet b t)"
  using assms
  by (elim disjE; simp add: vdbeRecordDecodeInt_def sqlite3VdbeSerialGet_def serialGet_def four_byte_int add_or_32
        split: option.splits bind_splits)

lemma small_u32: "(t :: u32) = 0 \<or> t = 1 \<or> t = 2 \<or> t = 3 \<or> t = 4 \<or> t = 5 \<or> t = 6 \<or> t = 7 \<or> t = 8 \<or> t = 9
    \<or> t = 10 \<or> t = 11 \<or> 12 \<le> t"
proof (cases "12 \<le> t")
  case False
  then have "unat t < 12" by (simp add: word_le_nat_alt)
  then have "unat t \<in> set [0..<12]" by simp
  then show ?thesis by (auto simp: word_unat_eq_iff upt_rec)
qed simp

text \<open>
  What an encoded value is, by its serial type, and what the comparison reads of it; \<open>e\<close> are
  its bytes and \<open>s\<close> whatever follows.
\<close>

lemma encodes_cases:
  assumes e: "encodes m t e"
  obtains
    (Null) "t = 0" "mem_value m = Null" "e = []"
  | (Int) i where "t < 10" "t \<noteq> 0" "t \<noteq> 7" "mem_value m = Integer (sint i)"
      "vdbeRecordDecodeInt t (e @ s) = Some i" "sqlite3VdbeSerialGet (e @ s) t = Some (MEM_Int i, length e)"
  | (Real) r where "t = 7" "mem_value m = Real r" "\<not> sqlite3IsNaN r" "mem1_real (e @ s) = Some r"
  | (Text) "12 \<le> t" "t AND 1 = 1" "mem_value m = Text e" "unat ((t - 12) div 2) = length e"
  | (Blob) "12 \<le> t" "t AND 1 \<noteq> 1" "mem_value m = Blob e" "unat ((t - 12) div 2) = length e"
proof -
  obtain m' where get: "sqlite3VdbeSerialGet (e @ s) t = Some (m', length e)" and val: "mem_value m' = mem_value m"
    using e by (auto dest: encodesD)
  have t: "t \<noteq> 10" "t \<noteq> 11" "mem_value m = Null \<longleftrightarrow> t = 0" "length e = sqlite3VdbeSerialTypeLen t"
    using e by (auto simp: encodes_def)
  consider "t = 0" | "t = 1 \<or> t = 2 \<or> t = 3 \<or> t = 4 \<or> t = 5 \<or> t = 6 \<or> t = 8 \<or> t = 9" | "t = 7" | "12 \<le> t"
    using t(1,2) small_u32 [of t] by blast
  then show ?thesis
  proof cases
    case 1
    with t show ?thesis by (intro Null) (simp_all add: type_sizes)
  next
    case 2
    then obtain i where i: "m' = MEM_Int i"
      using get by (elim disjE; auto simp: sqlite3VdbeSerialGet_def serialGet_def split: bind_splits)
    have "t < 10 \<and> t \<noteq> 0 \<and> t \<noteq> 7" using 2 by (elim disjE) (simp_all add: word_less_nat_alt)
    then show ?thesis using get val i DecodeInt_eq [OF 2, of "e @ s"] by (intro Int [of i]) auto
  next
    case 3
    then show ?thesis
      using get val [symmetric] t(3) Real
      by (auto simp: sqlite3VdbeSerialGet_def serialGet_def mem1_real_def Let_def split: bind_splits if_splits)
  next
    case 4
    then have n: "unat ((t - 12) div 2) = length e" using t(4) by (simp add: SerialTypeLen_12)
    have "t \<noteq> k" if "k < 12" for k using 4 that by auto
    then have "sqlite3VdbeSerialGet (e @ s) t =
        Some (if t AND 1 = 1 then MEM_Str (e @ s) (length e) else MEM_Blob (e @ s) (length e) None, length e)"
      by (simp add: sqlite3VdbeSerialGet_def n Let_def)
    with get val have "mem_value m = (if t AND 1 = 1 then Text e else Blob e)" by auto
    then show ?thesis using 4 n Text Blob by (cases "t AND 1 = 1") auto
  qed
qed

lemma first_byte:
  obtains b where "rd (putVarint32 t @ s) 0 = Some b" "t < 128 \<longrightarrow> ucast b = t"
    "\<not> t < 128 \<longrightarrow> (10 :: u32) \<le> ucast b"
proof (cases "t < 128")
  case True
  have "(ucast (ucast t :: u8) :: u32) = t"
    unfolding word_unat_eq_iff using True
    by (simp add: unsigned_ucast_eq unsigned_take_bit_eq word_less_nat_alt take_bit_nat_eq_self)
  with True that [of "ucast t"] show ?thesis by (simp add: putVarint32_def)
next
  case False
  have v: "getVarint32 (putVarint32 t @ s) = Some (length (putVarint32 t), t)" by (rule getVarint32_put)
  then obtain b where b: "rd (putVarint32 t @ s) 0 = Some b" by (auto simp: getVarint32_def split: bind_splits)
  have "\<not> b < 0x80"
  proof
    assume "b < 0x80"
    with v b have "t = ucast b" by (simp add: getVarint32_def)
    with \<open>b < 0x80\<close> False show False by (simp add: word_less_nat_alt unsigned_ucast_eq take_bit_nat_eq_self)
  qed
  moreover have "unat b < 2 ^ 32" using unsigned_less [of b, where 'a = nat] by simp
  ultimately have "(10 :: u32) \<le> ucast b"
    by (simp add: word_less_nat_alt word_le_nat_alt unsigned_ucast_eq take_bit_nat_eq_self)
  with b False that [of b] show ?thesis by simp
qed
lemma rd_drop: "rd (drop k p) 0 = rd p k"
  by (simp add: rd_def)

lemma byte_type:
  assumes "drop idx p = putVarint32 t @ R"
  obtains b where "rd p idx = Some b" "t < 128 \<longrightarrow> ucast b = t" "\<not> t < 128 \<longrightarrow> (10 :: u32) \<le> ucast b"
proof -
  obtain b where b: "rd (putVarint32 t @ R) 0 = Some b" "t < 128 \<longrightarrow> ucast b = t"
    "\<not> t < 128 \<longrightarrow> (10 :: u32) \<le> ucast b" by (rule first_byte)
  have "rd p idx = Some b" using b(1) assms rd_drop [of idx p] by simp
  with b(2,3) that show ?thesis by blast
qed

text \<open>
  A round of the loop compares the value of the field with the value on the right, and has
  read the serial type when they are equal.
\<close>

definition field_outcome :: "CollSeq option \<Rightarrow> vmem \<Rightarrow> u32 \<Rightarrow> vmem \<Rightarrow> field_result option \<Rightarrow> bool" where
  "field_outcome c m t r res \<longleftrightarrow>
     (\<exists>rc st. res = Some (Compared rc st False) \<and>
        sgn rc = value_order c (mem_value m) (mem_value r) \<and> (rc = 0 \<longrightarrow> st = t))"

lemma ge_128: "\<not> t < 128 \<Longrightarrow> 12 \<le> (t :: u32)" "t < 10 \<Longrightarrow> t < (128 :: u32)" "12 \<le> t \<Longrightarrow> 10 \<le> (t :: u32)"
  "12 \<le> t \<Longrightarrow> t \<noteq> 0 \<and> \<not> t < (12 :: u32)" "t < 10 \<Longrightarrow> \<not> 10 \<le> (t :: u32) \<and> t < 12"
  by (auto simp: word_less_nat_alt word_le_nat_alt)

lemma field_outcomeI:
  "res = Some (Compared rc st False) \<Longrightarrow> sgn rc = value_order c (mem_value m) (mem_value r) \<Longrightarrow>
   (rc = 0 \<Longrightarrow> st = t) \<Longrightarrow> field_outcome c m t r res"
  by (simp add: field_outcome_def)

lemma compare_int:
  assumes e: "encodes m t e" and idx: "drop idx p = putVarint32 t @ R" and d: "drop d p = e @ S"
    and pf: "platform_ok (ki_platform ki)"
  shows "field_outcome c m t (MEM_Int i) (compare_rhs_int ki p d idx i)"
proof -
  obtain b where b: "rd p idx = Some b" "t < 128 \<longrightarrow> ucast b = t" "\<not> t < 128 \<longrightarrow> (10 :: u32) \<le> ucast b"
    using idx by (rule byte_type)
  have big: "12 \<le> t \<Longrightarrow> (10 :: u32) \<le> ucast b" using b(2,3) ge_128(3) by (cases "t < 128") auto
  note simps = compare_rhs_int_def b(1) d
  from e show ?thesis
  proof (cases rule: encodes_cases [where s = S])
    case Null
    then have "ucast b = (0 :: u32)" using b(2) by simp
    then show ?thesis using Null
      by (intro field_outcomeI [where rc = "- 1" and st = 0]) (simp_all add: simps cmp3_def)
  next
    case (Int j)
    then have t: "ucast b = t" "\<not> 10 \<le> t" using b(2) ge_128(2,5) by auto
    show ?thesis
      by (rule field_outcomeI [where rc = "if j <s i then - 1 else if i <s j then 1 else 0" and st = t])
        (use Int t in \<open>simp_all add: simps int_order cmp3_scale\<close>)
  next
    case (Real r)
    then have t: "ucast b = (7 :: u32)" using b(2) by simp
    show ?thesis
      by (rule field_outcomeI [where rc = "- sqlite3IntFloatCompare (ki_platform ki) i r" and st = 7])
        (use Real t pf in \<open>simp_all add: simps IntFloat_order cmp3_swap\<close>)
  next
    case Text
    then show ?thesis using big
      by (intro field_outcomeI [where rc = 1 and st = "ucast b"]) (simp_all add: simps cmp3_def)
  next
    case Blob
    then show ?thesis using big
      by (intro field_outcomeI [where rc = 1 and st = "ucast b"]) (simp_all add: simps cmp3_def)
  qed
qed

lemma compare_real:
  assumes e: "encodes m t e" and idx: "drop idx p = putVarint32 t @ R" and d: "drop d p = e @ S"
    and pf: "platform_ok (ki_platform ki)" and nan: "\<not> sqlite3IsNaN r"
  shows "field_outcome c m t (MEM_Real r) (compare_rhs_real ki p d idx r)"
proof -
  obtain b where b: "rd p idx = Some b" "t < 128 \<longrightarrow> ucast b = t" "\<not> t < 128 \<longrightarrow> (10 :: u32) \<le> ucast b"
    using idx by (rule byte_type)
  have big: "12 \<le> t \<Longrightarrow> (10 :: u32) \<le> ucast b" using b(2,3) ge_128(3) by (cases "t < 128") auto
  note simps = compare_rhs_real_def b(1) d
  from e show ?thesis
  proof (cases rule: encodes_cases [where s = S])
    case Null
    then have "ucast b = (0 :: u32)" using b(2) by simp
    then show ?thesis using Null
      by (intro field_outcomeI [where rc = "- 1" and st = 0]) (simp_all add: simps cmp3_def)
  next
    case (Int j)
    then have t: "ucast b = t" "\<not> 10 \<le> t" using b(2) ge_128(2,5) by auto
    show ?thesis
      by (rule field_outcomeI [where rc = "sqlite3IntFloatCompare (ki_platform ki) j r" and st = t])
        (use Int t pf nan in \<open>simp_all add: simps IntFloat_order\<close>)
  next
    case (Real v)
    then have t: "ucast b = (7 :: u32)" using b(2) by simp
    show ?thesis
      by (rule field_outcomeI [where rc = "if dbl_less v r then - 1 else if dbl_less r v then 1 else 0" and st = 7])
        (use Real t nan in \<open>simp_all add: simps dbl_order\<close>)
  next
    case Text
    then show ?thesis using big
      by (intro field_outcomeI [where rc = 1 and st = "ucast b"]) (simp_all add: simps cmp3_def)
  next
    case Blob
    then show ?thesis using big
      by (intro field_outcomeI [where rc = 1 and st = "ucast b"]) (simp_all add: simps cmp3_def)
  qed
qed

lemma compare_null:
  assumes "encodes m t e" "drop idx p = putVarint32 t @ R"
  shows "field_outcome c m t MEM_Null (compare_rhs_null p idx)"
proof -
  obtain b where b: "rd p idx = Some b" "t < 128 \<longrightarrow> ucast b = t" "\<not> t < 128 \<longrightarrow> (10 :: u32) \<le> ucast b"
    using assms(2) by (rule byte_type)
  have z: "(ucast b = (0 :: u32)) = (t = 0)" using b(2,3) by (cases "t < 128") auto
  have n: "mem_value m = Null \<longleftrightarrow> t = 0" using assms(1) by (simp add: encodes_def)
  show ?thesis
  proof (cases "t = 0")
    case True
    then show ?thesis using b(1) z n
      by (simp add: compare_rhs_null_def field_outcome_def of_bool_int_def cmp3_def)
  next
    case False
    then have "value_order c (mem_value m) Null = 1" using n by (cases "mem_value m") (simp_all add: cmp3_def)
    then show ?thesis using False b(1) z
      by (simp add: compare_rhs_null_def field_outcome_def of_bool_int_def)
  qed
qed
lemma compare_str:
  assumes e: "encodes m t e" and idx: "drop idx p = putVarint32 t @ R" and d: "drop d p = e @ S"
    and fit: "d + length e \<le> nKey" and c: "key_coll ki c" and z: "n \<le> length z"
  shows "field_outcome c m t (MEM_Str z n) (compare_rhs_str ki c nKey p d idx z n)"
proof -
  have g: "getVarint32 (drop idx p) = Some (length (putVarint32 t), t)" unfolding idx by (rule getVarint32_put)
  note simps = compare_rhs_str_def g d
  from e show ?thesis
  proof (cases rule: encodes_cases [where s = S])
    case Null
    then show ?thesis by (intro field_outcomeI [where rc = "- 1" and st = t]) (simp_all add: simps cmp3_def)
  next
    case (Int j)
    then show ?thesis using ge_128(5)
      by (intro field_outcomeI [where rc = "- 1" and st = t]) (simp_all add: simps cmp3_def)
  next
    case (Real v)
    then show ?thesis by (intro field_outcomeI [where rc = "- 1" and st = t]) (simp_all add: simps cmp3_def)
  next
    case Text
    then have t: "\<not> t < 12" using ge_128(4) by blast
    show ?thesis
    proof (cases c)
      case None
      obtain x where x: "memcmp_n (min (length e) n) (e @ S) (take n z @ drop n z) = Some x"
        "sgn (if x = 0 then int (length e) - int n else x) = bytes_order e (take n z)"
        using memcmp_order [of e "length e" "take n z" n S "drop n z"] z by auto
      show ?thesis
        by (rule field_outcomeI [where rc = "if x = 0 then int (length e) - int n else x" and st = t])
          (use Text t fit x None in \<open>simp_all add: simps text_order_def Let_def\<close>)
    next
      case (Some a)
      show ?thesis
        by (rule field_outcomeI [where rc = "xCmp a e (take n z)" and st = t])
          (use Text t fit z text_order_coll [of ki a e "take n z"] c Some in
            \<open>simp_all add: simps str_bytes_def Let_def\<close>)
    qed
  next
    case Blob
    then show ?thesis using ge_128(4)
      by (intro field_outcomeI [where rc = 1 and st = t]) (simp_all add: simps cmp3_def)
  qed
qed

lemma compare_blob:
  assumes e: "encodes m t e" and idx: "drop idx p = putVarint32 t @ R" and d: "drop d p = e @ S"
    and fit: "d + length e \<le> nKey" and z: "key_mem (MEM_Blob z n k)"
  shows "field_outcome c m t (MEM_Blob z n k) (compare_rhs_blob nKey p d idx z n k)"
proof -
  have g: "getVarint32 (drop idx p) = Some (length (putVarint32 t), t)" unfolding idx by (rule getVarint32_put)
  note simps = compare_rhs_blob_def g d
  have z: "n \<le> length z" "k \<noteq> None \<Longrightarrow> n = 0" using key_mem_Blob [OF z] by auto
  from e show ?thesis
  proof (cases rule: encodes_cases [where s = S])
    case Null
    then show ?thesis by (intro field_outcomeI [where rc = "- 1" and st = t]) (simp_all add: simps cmp3_def)
  next
    case (Int j)
    then show ?thesis using ge_128(5)
      by (intro field_outcomeI [where rc = "- 1" and st = t]) (simp_all add: simps cmp3_def)
  next
    case (Real v)
    then show ?thesis by (intro field_outcomeI [where rc = "- 1" and st = t]) (simp_all add: simps cmp3_def)
  next
    case Text
    then show ?thesis by (intro field_outcomeI [where rc = "- 1" and st = t]) (simp_all add: simps cmp3_def)
  next
    case Blob
    then have t: "\<not> t < 12" using ge_128(4) by blast
    show ?thesis
    proof (cases k)
      case None
      obtain x where x: "memcmp_n (min (length e) n) (e @ S) (take n z @ drop n z) = Some x"
        "sgn (if x = 0 then int (length e) - int n else x) = bytes_order e (take n z)"
        using memcmp_order [of e "length e" "take n z" n S "drop n z"] z by auto
      show ?thesis
        by (rule field_outcomeI [where rc = "if x = 0 then int (length e) - int n else x" and st = t])
          (use Blob t fit x None in \<open>simp_all add: simps Let_def\<close>)
    next
      case (Some j)
      show ?thesis
        by (rule field_outcomeI [where st = t and
              rc = "if \<not> list_all (\<lambda>b. b = 0) e then 1 else int (length e) - int j"])
          (use Blob t fit z Some in \<open>simp_all add: simps Let_def isAllZero_eq zeros_order\<close>)
    qed
  qed
qed

lemma compare_field_outcome:
  assumes e: "encodes m t e" and idx: "drop idx p = putVarint32 t @ R" and d: "drop d p = e @ S"
    and fit: "d + length e \<le> nKey" and r: "key_mem r" and c: "key_coll ki c"
    and pf: "platform_ok (ki_platform ki)"
  shows "field_outcome c m t r (compare_field ki c nKey p d idx r)"
proof (cases r)
  case MEM_Null
  then show ?thesis using compare_null [OF e idx] by (simp add: compare_field_def)
next
  case (MEM_Int i)
  then show ?thesis using compare_int [OF e idx d pf] by (simp add: compare_field_def)
next
  case (MEM_Real v)
  then show ?thesis using compare_real [OF e idx d pf, of v] r by (simp add: compare_field_def)
next
  case (MEM_Str z n)
  then show ?thesis using compare_str [OF e idx d fit c, of n z] r by (simp add: compare_field_def)
next
  case (MEM_Blob z n k)
  then show ?thesis using compare_blob [OF e idx d fit, of z n k] r by (simp add: compare_field_def)
qed
section \<open>Records\<close>

text \<open>The order of two rows of values: the first field in which they differ, with its direction.\<close>

fun record_diff :: "CollSeq option list \<Rightarrow> bool list \<Rightarrow> sql_value list \<Rightarrow> sql_value list \<Rightarrow> int option" where
  "record_diff (c # cs) (desc # ds) (v # vs) (w # ws) =
     (let x = value_order c v w
      in if x \<noteq> 0 then Some (if desc then - x else x) else record_diff cs ds vs ws)"
| "record_diff cs ds vs ws = None"

text \<open>An unpacked key that the comparison may be given.\<close>

definition key_ok :: "UnpackedRecord \<Rightarrow> bool" where
  "key_ok p \<longleftrightarrow>
     0 < nField p \<and> nField p \<le> length (aMem p) \<and>
     nField p \<le> length (aColl (pKeyInfo p)) \<and> nField p \<le> length (aSortOrder (pKeyInfo p)) \<and>
     (\<forall>m\<in>set (aMem p). key_mem m) \<and> (\<forall>c\<in>set (aColl (pKeyInfo p)). key_coll (pKeyInfo p) c) \<and>
     platform_ok (ki_platform (pKeyInfo p))"

definition key_diff :: "vmem list \<Rightarrow> UnpackedRecord \<Rightarrow> nat \<Rightarrow> int option" where
  "key_diff ms p i =
     record_diff (drop i (aColl (pKeyInfo p))) (drop i (aSortOrder (pKeyInfo p)))
       (map mem_value ms) (map mem_value (take (nField p - i) (drop i (aMem p))))"

text \<open>
  The result of a comparison: the sign of the first difference, the record on the right
  unchanged; or its \<open>default_rc\<close> and the mark that the keys were found equal.
\<close>

definition outcome :: "UnpackedRecord \<Rightarrow> int option \<Rightarrow> (int \<times> UnpackedRecord) option \<Rightarrow> bool" where
  "outcome p x res \<longleftrightarrow>
     (case x of
        Some y \<Rightarrow> \<exists>rc. res = Some (rc, p) \<and> sgn rc = y
      | None \<Rightarrow> res = Some (default_rc p, p\<lparr>eqSeen := True\<rparr>))"

lemma key_diff_step:
  assumes "key_ok p" "i < nField p"
  shows "key_diff (m # ms) p i =
    (let x = value_order (aColl (pKeyInfo p) ! i) (mem_value m) (mem_value (aMem p ! i))
     in if x \<noteq> 0 then Some (if aSortOrder (pKeyInfo p) ! i then - x else x) else key_diff ms p (Suc i))"
proof -
  have "drop i (aColl (pKeyInfo p)) = aColl (pKeyInfo p) ! i # drop (Suc i) (aColl (pKeyInfo p))"
    "drop i (aSortOrder (pKeyInfo p)) = aSortOrder (pKeyInfo p) ! i # drop (Suc i) (aSortOrder (pKeyInfo p))"
    "drop i (aMem p) = aMem p ! i # drop (Suc i) (aMem p)"
    using assms by (simp_all add: key_ok_def Cons_nth_drop_Suc)
  moreover have "nField p - i = Suc (nField p - Suc i)" using assms(2) by simp
  ultimately show ?thesis unfolding key_diff_def by simp
qed

lemma key_diff_end: "key_diff [] p i = None" "nField p \<le> i \<Longrightarrow> key_diff ms p i = None"
  unfolding key_diff_def by (cases "(drop i (aColl (pKeyInfo p)), drop i (aSortOrder (pKeyInfo p)),
    map mem_value ms, [] :: sql_value list)" rule: record_diff.cases; simp)
    (cases "(drop i (aColl (pKeyInfo p)), drop i (aSortOrder (pKeyInfo p)),
    map mem_value ms, [] :: sql_value list)" rule: record_diff.cases; simp)

lemma compare_loop_outcome:
  assumes ok: "key_ok p"
    and "list_all2 (\<lambda>m (t, e). encodes m t e) ms fs"
    and "drop idx k = type_bytes (map fst fs) @ R" and "szHdr = idx + length (type_bytes (map fst fs))"
    and "drop d k = concat (map snd fs) @ S" and "d + length (concat (map snd fs)) \<le> nKey"
    and "i < nField p" and "fs \<noteq> []"
  shows "outcome p (key_diff ms p i) (compare_loop nKey k szHdr p i d idx)"
  using assms(2-)
proof (induction ms fs arbitrary: idx d i rule: list_all2_induct)
  case Nil
  then show ?case by simp
next
  case (Cons m ms f fs)
  obtain t e where f: "f = (t, e)" by (cases f)
  let ?ki = "pKeyInfo p"
  let ?n = "length (putVarint32 t)"
  have idx: "drop idx k = putVarint32 t @ type_bytes (map fst fs) @ R" using Cons.prems(1) by (simp add: f)
  then have idx': "drop (idx + ?n) k = type_bytes (map fst fs) @ R"
    by (metis add.commute append_eq_conv_conj drop_drop)
  have d: "drop d k = e @ concat (map snd fs) @ S" using Cons.prems(3) by (simp add: f)
  then have d': "drop (d + length e) k = concat (map snd fs) @ S"
    by (metis add.commute append_eq_conv_conj drop_drop)
  have i: "rd (aMem p) i = Some (aMem p ! i)" "rd (aColl ?ki) i = Some (aColl ?ki ! i)"
    "rd (aSortOrder ?ki) i = Some (aSortOrder ?ki ! i)"
    using ok Cons.prems(5) by (auto simp: key_ok_def rd_def)
  have e: "encodes m t e" using Cons.hyps(1) by (simp add: f)
  have "field_outcome (aColl ?ki ! i) m t (aMem p ! i) (compare_field ?ki (aColl ?ki ! i) nKey k d idx (aMem p ! i))"
    using ok Cons.prems(4,5) by (intro compare_field_outcome [OF e idx d]) (auto simp: f key_ok_def)
  then obtain rc st where rc: "compare_field ?ki (aColl ?ki ! i) nKey k d idx (aMem p ! i) = Some (Compared rc st False)"
    "sgn rc = value_order (aColl ?ki ! i) (mem_value m) (mem_value (aMem p ! i))" "rc = 0 \<longrightarrow> st = t"
    by (auto simp: field_outcome_def)
  show ?case
  proof (cases "rc = 0")
    case False
    then have "sgn rc \<noteq> 0" by (simp add: sgn_if)
    then show ?thesis using rc False i
      by (subst compare_loop.simps) (auto simp: outcome_def key_diff_step [OF ok Cons.prems(5)] Let_def)
  next
    case True
    have next_field: "idx + ?n < szHdr \<longleftrightarrow> fs \<noteq> []"
      using Cons.prems(2) type_bytes_pos [of "map fst fs"] by (cases fs) (auto simp: f)
    have len: "sqlite3VarintLen (ucast t) = ?n" "sqlite3VdbeSerialTypeLen t = length e"
      using e by (simp_all add: putVarint32_length encodes_def)
    have diff: "key_diff (m # ms) p i = key_diff ms p (Suc i)"
      using rc True by (simp add: key_diff_step [OF ok Cons.prems(5)])
    show ?thesis
    proof (cases "fs \<noteq> [] \<and> Suc i < nField p")
      case more: True
      have "outcome p (key_diff ms p (Suc i)) (compare_loop nKey k szHdr p (Suc i) (d + length e) (idx + ?n))"
        by (rule Cons.IH [OF idx' _ d']) (use Cons.prems more in \<open>simp_all add: f\<close>)
      then show ?thesis using rc True i more next_field Cons.prems(4)
        by (subst compare_loop.simps) (simp add: diff len f)
    next
      case False
      then have "key_diff ms p (Suc i) = None"
        using Cons.hyps(2) key_diff_end by (auto simp: not_less)
      then show ?thesis using rc True i False next_field
        by (subst compare_loop.simps) (auto simp: outcome_def diff len)
    qed
  qed
qed
section \<open>Comparing a record\<close>

text \<open>A serialized record of the values \<open>ms\<close> and an unpacked key to compare it with.\<close>

definition comparable :: "(u32 \<times> u8 list) list \<Rightarrow> vmem list \<Rightarrow> nat \<Rightarrow> UnpackedRecord \<Rightarrow> bool" where
  "comparable fs ms nKey p \<longleftrightarrow>
     record_of fs ms \<and> fs \<noteq> [] \<and> length (record_layout fs) \<le> nKey \<and> nKey \<le> SQLITE_MAX_LENGTH \<and> key_ok p"

definition header_of :: "(u32 \<times> u8 list) list \<Rightarrow> nat" where
  "header_of fs = header_size (length (type_bytes (map fst fs)))"

lemma comparable_sizes:
  assumes "comparable fs ms nKey p"
  shows "length (putVarint32 (of_nat (header_of fs))) + length (type_bytes (map fst fs)) = header_of fs"
    "header_of fs + length (concat (map snd fs)) \<le> nKey"
    "unat (of_nat (header_of fs) :: u32) = header_of fs"
proof -
  have n: "length (record_layout fs) \<le> nKey" "nKey < 2 ^ 31"
    using assms by (simp_all add: comparable_def SQLITE_MAX_LENGTH_def)
  note sz = record_layout_size [OF n]
  show "length (putVarint32 (of_nat (header_of fs))) + length (type_bytes (map fst fs)) = header_of fs"
    "unat (of_nat (header_of fs) :: u32) = header_of fs"
    using sz(1,3) by (simp_all add: header_of_def)
  show "header_of fs + length (concat (map snd fs)) \<le> nKey" using sz(2) n(1) by (simp add: header_of_def)
qed

lemma record_layout_parts:
  "record_layout fs = putVarint32 (of_nat (header_of fs)) @ type_bytes (map fst fs) @ concat (map snd fs)"
  by (simp add: record_layout_def header_of_def Let_def)

lemma record_data:
  assumes "comparable fs ms nKey p"
  shows "drop (header_of fs) (record_layout fs @ s) = concat (map snd fs) @ s"
proof -
  have "record_layout fs @ s =
      (putVarint32 (of_nat (header_of fs)) @ type_bytes (map fst fs)) @ concat (map snd fs) @ s"
    by (simp add: record_layout_parts)
  then show ?thesis by (metis append_eq_conv_conj length_append comparable_sizes(1) [OF assms])
qed

lemma compare_outcome:
  assumes c: "comparable fs ms nKey p"
  shows "outcome p (key_diff ms p 0) (sqlite3VdbeRecordCompare nKey (record_layout fs @ s) p)"
proof -
  let ?k = "record_layout fs @ s"
  let ?n = "length (putVarint32 (of_nat (header_of fs)))"
  have "drop ?n ?k = type_bytes (map fst fs) @ (concat (map snd fs) @ s)" by (simp add: record_layout_parts)
  then have "outcome p (key_diff ms p 0) (compare_loop nKey ?k (header_of fs) p 0 (header_of fs) ?n)"
    using c comparable_sizes [OF c] record_data [OF c]
    by (intro compare_loop_outcome [where fs = fs and S = s]) (auto simp: comparable_def record_of_def key_ok_def)
  moreover have "getVarint32 ?k = Some (?n, of_nat (header_of fs))"
    unfolding record_layout_parts append_assoc by (rule getVarint32_put)
  ultimately show ?thesis
    using comparable_sizes [OF c] by (simp add: sqlite3VdbeRecordCompare_def sqlite3VdbeRecordCompareWithSkip_def)
qed

text \<open>With a header size of one byte, the first serial type is at offset 1.\<close>

lemma one_byte_header: "n < 128 \<Longrightarrow> putVarint32 (of_nat n) = [of_nat n]"
proof -
  assume n: "n < 128"
  then have "unat (of_nat n :: u32) = n" by (simp add: u32_of_nat)
  moreover have "(ucast (of_nat n :: u32) :: u8) = of_nat n"
    unfolding word_unat_eq_iff using n by (simp add: unsigned_ucast_eq unsigned_of_nat take_bit_nat_eq_self)
  ultimately show ?thesis using n by (simp add: putVarint32_def word_less_nat_alt)
qed

lemma skip_outcome:
  assumes c: "comparable fs (m # ms) nKey p" and H: "header_of fs < 128" and fs: "fs = (t, e) # fs'"
    and more: "fs' \<noteq> []" "1 < nField p"
  shows "outcome p (key_diff ms p 1) (sqlite3VdbeRecordCompareWithSkip nKey (record_layout fs @ s) p True)"
proof -
  define k where "k = record_layout fs @ s"
  let ?H = "header_of fs"
  have k: "k = of_nat ?H # putVarint32 t @ type_bytes (map fst fs') @ e @ concat (map snd fs') @ s"
    by (simp add: k_def record_layout_parts one_byte_header [OF H] fs [symmetric])
      (simp add: fs)
  have e: "encodes m t e" "list_all2 (\<lambda>m (t, e). encodes m t e) ms fs'"
    using c by (simp_all add: comparable_def record_of_def fs)
  have g: "getVarint32 (drop 1 k) = Some (length (putVarint32 t), t)" unfolding k by (simp add: getVarint32_put)
  have r: "rd k 0 = Some (of_nat ?H)" "unat (of_nat ?H :: u8) = ?H"
    using H by (simp_all add: k unsigned_of_nat take_bit_nat_eq_self)
  have "drop (1 + length (putVarint32 t)) k = type_bytes (map fst fs') @ (e @ concat (map snd fs') @ s)"
    by (simp add: k)
  moreover have "drop ?H k = e @ concat (map snd fs') @ s"
    using record_data [OF c] by (simp add: k_def fs)
  then have "drop (?H + length e) k = concat (map snd fs') @ s"
    by (metis add.commute append_eq_conv_conj drop_drop)
  moreover have "?H = 1 + length (putVarint32 t) + length (type_bytes (map fst fs'))"
    using comparable_sizes(1) [OF c] by (simp add: one_byte_header [OF H]) (simp add: fs)
  moreover have "?H + length e + length (concat (map snd fs')) \<le> nKey"
    using comparable_sizes(2) [OF c] by (simp add: fs)
  ultimately have "outcome p (key_diff ms p 1) (compare_loop nKey k ?H p 1 (?H + length e) (1 + length (putVarint32 t)))"
    using e more c by (intro compare_loop_outcome [where fs = fs' and S = s]) (simp_all add: comparable_def)
  moreover have "sqlite3VdbeSerialTypeLen t = length e" using e(1) by (simp add: encodes_def)
  ultimately show ?thesis
    using g r unfolding k_def [symmetric] by (simp add: sqlite3VdbeRecordCompareWithSkip_def)
qed
section \<open>The fast variants agree\<close>

lemma compareInt_lhs_decode:
  "t = 1 \<or> t = 2 \<or> t = 3 \<or> t = 4 \<or> t = 5 \<or> t = 6 \<or> t = 8 \<or> t = 9 \<Longrightarrow>
   compareInt_lhs t b = map_option Some (vdbeRecordDecodeInt t b)"
  by (elim disjE; simp add: compareInt_lhs_def vdbeRecordDecodeInt_def option.map_comp split: bind_splits)

lemma compareInt_lhs_other: "t = 0 \<or> t = 7 \<or> 10 \<le> t \<Longrightarrow> compareInt_lhs t b = Some None"
  by (auto simp: compareInt_lhs_def word_le_nat_alt)

lemma outcome_less: "outcome p (Some y) (Some (rc, p)) \<longleftrightarrow> sgn rc = y"
  by (simp add: outcome_def)

text \<open>The results that \<open>sqlite3VdbeFindCompare\<close> prepares.\<close>

definition results_set :: "UnpackedRecord \<Rightarrow> bool" where
  "results_set p \<longleftrightarrow>
     r1 p = (if aSortOrder (pKeyInfo p) ! 0 then 1 else - 1) \<and>
     r2 p = (if aSortOrder (pKeyInfo p) ! 0 then - 1 else 1)"

lemma type_bytes_length_le: "length (type_bytes ts) \<le> 5 * length ts"
proof (induction ts)
  case (Cons t ts)
  then show ?case using serialType_bytes_le [of t] by (simp add: serialType_bytes_length)
qed simp

lemma header_small:
  assumes "length fs \<le> 13" "fs = (t, e) # fs'"
  shows "header_of fs < 128" "t < 128 \<Longrightarrow> header_of fs < 64"
proof -
  have "length (type_bytes (map fst fs)) \<le> length (putVarint32 t) + 60"
    using type_bytes_length_le [of "map fst fs'"] assms by simp
  moreover have "length (putVarint32 t) \<le> 5" using serialType_bytes_le [of t] by (simp add: serialType_bytes_length)
  moreover have "t < 128 \<Longrightarrow> length (putVarint32 t) = 1" by (simp add: putVarint32_def)
  ultimately show "header_of fs < 128" "t < 128 \<Longrightarrow> header_of fs < 64"
    by (auto simp: header_of_def header_size_def)
qed

lemma first_field:
  assumes c: "comparable fs (m # ms) nKey p" and n: "length fs \<le> 13"
  obtains t e fs' b where "fs = (t, e) # fs'" "encodes m t e" "header_of fs < 128" "t < 128 \<longrightarrow> header_of fs < 64"
    "rd (record_layout fs @ s) 0 = Some (of_nat (header_of fs))"
    "drop 1 (record_layout fs @ s) = putVarint32 t @ type_bytes (map fst fs') @ concat (map snd fs) @ s"
    "rd (record_layout fs @ s) 1 = Some b" "t < 128 \<longrightarrow> ucast b = t" "\<not> t < 128 \<longrightarrow> (10 :: u32) \<le> ucast b"
    "drop (header_of fs) (record_layout fs @ s) = e @ concat (map snd fs') @ s" "fs' = [] \<longleftrightarrow> ms = []"
proof -
  obtain t e fs' where fs: "fs = (t, e) # fs'" and e: "encodes m t e" and rest: "list_all2 (\<lambda>m (t, e). encodes m t e) ms fs'"
    using c by (auto simp: comparable_def record_of_def list_all2_Cons1)
  note h = header_small [OF n fs]
  have k: "record_layout fs @ s = of_nat (header_of fs) # putVarint32 t @ type_bytes (map fst fs') @ concat (map snd fs) @ s"
    by (simp add: record_layout_parts one_byte_header [OF h(1)]) (simp add: fs)
  then have d1: "drop 1 (record_layout fs @ s) = putVarint32 t @ type_bytes (map fst fs') @ concat (map snd fs) @ s"
    by simp
  obtain b where b: "rd (record_layout fs @ s) 1 = Some b" "t < 128 \<longrightarrow> ucast b = t"
    "\<not> t < 128 \<longrightarrow> (10 :: u32) \<le> ucast b"
    using d1 by (rule byte_type)
  have "drop (header_of fs) (record_layout fs @ s) = e @ concat (map snd fs') @ s"
    using record_data [OF c, of s] by (simp add: fs)
  moreover have "fs' = [] \<longleftrightarrow> ms = []" using rest by auto
  moreover have "rd (record_layout fs @ s) 0 = Some (of_nat (header_of fs))" unfolding k by simp
  ultimately show ?thesis using that [of t e fs' b] fs e h d1 b by blast
qed

lemma unat_header: "n < 64 \<Longrightarrow> unat ((of_nat n :: u8) AND 0x3F) = n"
proof -
  assume n: "n < 64"
  have "(0x3F :: u8) = mask 6" by (simp add: mask_eq_exp_minus_1)
  then have "(of_nat n :: u8) AND 0x3F = take_bit 6 (of_nat n)" by (simp only: take_bit_eq_mask)
  with n show ?thesis by (simp add: unsigned_take_bit_eq unsigned_of_nat take_bit_nat_eq_self)
qed

lemma CompareInt_outcome:
  assumes c: "comparable fs (m # ms) nKey p" and n: "length fs \<le> 13" and r: "results_set p"
    and i: "aMem p ! 0 = MEM_Int i" and more: "ms \<noteq> [] \<or> nField p = 1"
  shows "outcome p (key_diff (m # ms) p 0) (vdbeRecordCompareInt nKey (record_layout fs @ s) p)"
proof -
  define k where "k = record_layout fs @ s"
  from first_field [OF c n] obtain t e fs' b where
    fs: "fs = (t, e) # fs'" and e: "encodes m t e" and h: "header_of fs < 128" "t < 128 \<longrightarrow> header_of fs < 64"
    and k0: "rd k 0 = Some (of_nat (header_of fs))" and b: "rd k 1 = Some b" "t < 128 \<longrightarrow> ucast b = t"
      "\<not> t < 128 \<longrightarrow> (10 :: u32) \<le> ucast b"
    and d: "drop (header_of fs) k = e @ concat (map snd fs') @ s" and empty: "fs' = [] \<longleftrightarrow> ms = []"
    unfolding k_def by metis
  have ok: "key_ok p" "0 < nField p" using c by (auto simp: comparable_def key_ok_def)
  have slow: "compareInt_lhs (ucast b) (drop (unat ((of_nat (header_of fs) :: u8) AND 0x3F)) k) = Some None \<Longrightarrow> ?thesis"
    using compare_outcome [OF c, of s] k0 b(1) unfolding k_def [symmetric] by (simp add: vdbeRecordCompareInt_def)
  from e show ?thesis
  proof (cases rule: encodes_cases [where s = "concat (map snd fs') @ s"])
    case (Int j)
    then have t: "t < 128" "t = 1 \<or> t = 2 \<or> t = 3 \<or> t = 4 \<or> t = 5 \<or> t = 6 \<or> t = 8 \<or> t = 9"
      using ge_128(2) small_u32 [of t] by (auto simp: word_le_nat_alt word_less_nat_alt)
    then have "ucast b = t" "unat ((of_nat (header_of fs) :: u8) AND 0x3F) = header_of fs"
      using b h unat_header by auto
    then have lhs: "compareInt_lhs (ucast b) (drop (unat ((of_nat (header_of fs) :: u8) AND 0x3F)) k) = Some (Some j)"
      using Int(5) t(2) d by (simp add: compareInt_lhs_decode)
    have v: "rd (aMem p) 0 = Some (MEM_Int i)" using ok i by (auto simp: key_ok_def rd_def)
    have diff: "key_diff (m # ms) p 0 =
      (let x = cmp3 (sint j) (sint i)
       in if x \<noteq> 0 then Some (if aSortOrder (pKeyInfo p) ! 0 then - x else x) else key_diff ms p 1)"
      using key_diff_step [OF ok, of m ms] by (simp add: Int(4) i cmp3_scale Let_def)
    consider "j <s i" | "i <s j" | "\<not> j <s i" "\<not> i <s j" by blast
    then show ?thesis
    proof cases
      case 1
      then show ?thesis using r k0 b(1) lhs v unfolding k_def [symmetric]
        by (simp add: vdbeRecordCompareInt_def diff outcome_less results_set_def cmp3_def word_sless_alt)
    next
      case 2
      then have "\<not> j <s i" by (simp add: word_sless_alt)
      with 2 show ?thesis using r k0 b(1) lhs v unfolding k_def [symmetric]
        by (simp add: vdbeRecordCompareInt_def diff outcome_less results_set_def cmp3_def word_sless_alt)
    next
      case 3
      then have "cmp3 (sint j) (sint i) = 0" by (simp add: cmp3_def word_sless_alt)
      then have diff: "key_diff (m # ms) p 0 = key_diff ms p 1" by (simp add: diff)
      show ?thesis
      proof (cases "1 < nField p")
        case True
        then show ?thesis using skip_outcome [OF c h(1) fs _ True, of s] 3 k0 b(1) lhs v more empty
          unfolding k_def [symmetric] by (simp add: vdbeRecordCompareInt_def diff)
      next
        case False
        then have "key_diff ms p 1 = None" by (simp add: key_diff_end)
        then show ?thesis using False 3 k0 b(1) lhs v unfolding k_def [symmetric]
          by (simp add: vdbeRecordCompareInt_def diff outcome_def)
      qed
    qed
  next
    case Null
    then show ?thesis using b by (intro slow compareInt_lhs_other) simp
  next
    case (Real v)
    then show ?thesis using b by (intro slow compareInt_lhs_other) simp
  next
    case Text
    then show ?thesis using b ge_128(3) by (intro slow compareInt_lhs_other) (cases "t < 128"; auto)
  next
    case Blob
    then show ?thesis using b ge_128(3) by (intro slow compareInt_lhs_other) (cases "t < 128"; auto)
  qed
qed

lemma sint_type: "unat (t :: u32) < 2 ^ 31 \<Longrightarrow> sint t = int (unat t)"
proof -
  assume "unat t < 2 ^ 31"
  then have "nat (uint t) < 2147483648" by (simp only: nat_uint_eq) simp
  then have "uint t < 2147483648" by linarith
  then have "uint t < 2 ^ 31" by simp
  moreover have "- (2 ^ 31) \<le> uint t" by (rule order_trans [of _ 0]) simp_all
  ultimately have "signed_take_bit 31 (uint t) = uint t" by (intro signed_take_bit_int_eq_self)
  then show ?thesis by (simp add: sint_uint)
qed

lemma unat_of_uint: "uint (t :: u32) < int n \<Longrightarrow> unat t < n"
  using uint_nat [of t] by linarith

text \<open>A first difference decides; otherwise the rest of the fields does.\<close>

lemma first_diff:
  assumes "key_ok p" "results_set p"
    and "x = value_order (aColl (pKeyInfo p) ! 0) (mem_value m) (mem_value (aMem p ! 0))"
  shows "x = - 1 \<Longrightarrow> outcome p (key_diff (m # ms) p 0) (Some (r1 p, p))"
    "x = 1 \<Longrightarrow> outcome p (key_diff (m # ms) p 0) (Some (r2 p, p))"
    "x = 0 \<Longrightarrow> key_diff (m # ms) p 0 = key_diff ms p 1"
proof -
  have "0 < nField p" using assms(1) by (simp add: key_ok_def)
  then have step: "key_diff (m # ms) p 0 =
      (if x \<noteq> 0 then Some (if aSortOrder (pKeyInfo p) ! 0 then - x else x) else key_diff ms p 1)"
    unfolding assms(3) by (simp only: key_diff_step [OF assms(1)] Let_def One_nat_def)
  have r: "r1 p = (if aSortOrder (pKeyInfo p) ! 0 then 1 else - 1)"
    "r2 p = (if aSortOrder (pKeyInfo p) ! 0 then - 1 else 1)"
    using assms(2) by (auto simp: results_set_def)
  show "x = - 1 \<Longrightarrow> outcome p (key_diff (m # ms) p 0) (Some (r1 p, p))"
    unfolding step r by (auto simp: outcome_less)
  show "x = 1 \<Longrightarrow> outcome p (key_diff (m # ms) p 0) (Some (r2 p, p))"
    unfolding step r by (auto simp: outcome_less)
  show "x = 0 \<Longrightarrow> key_diff (m # ms) p 0 = key_diff ms p 1"
    unfolding step by simp
qed

lemma type_of_len:
  assumes "12 \<le> t" "unat ((t - 12) div 2) = n" "n \<le> SQLITE_MAX_LENGTH"
  shows "sint (t :: u32) = int (unat t)" "\<not> sint t < 12" "nat ((sint t - 12) div 2) = n"
proof -
  have t: "12 \<le> unat t" using assms(1) by (simp add: word_le_nat_alt)
  have n: "(unat t - 12) div 2 = n" using assms(1,2) by (simp add: unat_div unat_sub_if_size word_le_nat_alt)
  then have "unat t < 2 ^ 31" using assms(3) by (simp add: SQLITE_MAX_LENGTH_def)
  then show s: "sint t = int (unat t)" by (rule sint_type)
  show "\<not> sint t < 12" using t unfolding s by linarith
  have "(int (unat t) - 12) div 2 = int ((unat t - 12) div 2)" using t by (simp add: zdiv_int of_nat_diff)
  then show "nat ((sint t - 12) div 2) = n" unfolding s n by simp
qed

lemma CompareString_outcome:
  assumes c: "comparable fs (m # ms) nKey p" and n: "length fs \<le> 13" and r: "results_set p"
    and z: "aMem p ! 0 = MEM_Str z nz" and coll: "aColl (pKeyInfo p) ! 0 = None"
    and more: "ms \<noteq> [] \<or> nField p = 1"
  shows "outcome p (key_diff (m # ms) p 0) (vdbeRecordCompareString nKey (record_layout fs @ s) p)"
proof -
  define k where "k = record_layout fs @ s"
  from first_field [OF c n] obtain t e fs' where
    fs: "fs = (t, e) # fs'" and e: "encodes m t e" and h: "header_of fs < 128"
    and k0: "rd k 0 = Some (of_nat (header_of fs))"
    and k1: "drop 1 k = putVarint32 t @ type_bytes (map fst fs') @ concat (map snd fs) @ s"
    and d: "drop (header_of fs) k = e @ concat (map snd fs') @ s" and empty: "fs' = [] \<longleftrightarrow> ms = []"
    unfolding k_def by metis
  have ok: "key_ok p" using c by (simp add: comparable_def)
  have v: "rd (aMem p) 0 = Some (MEM_Str z nz)" "nz \<le> length z"
  proof -
    have "aMem p ! 0 \<in> set (aMem p)" "0 < length (aMem p)" using ok by (auto simp: key_ok_def intro!: nth_mem)
    with ok z show "rd (aMem p) 0 = Some (MEM_Str z nz)" "nz \<le> length z"
      by (auto simp: key_ok_def rd_def)
  qed
  have g: "getVarint32 (drop 1 k) = Some (length (putVarint32 t), t)" unfolding k1 by (rule getVarint32_put)
  have H: "unat (of_nat (header_of fs) :: u8) = header_of fs" using h by (simp add: unsigned_of_nat take_bit_nat_eq_self)
  have fit: "header_of fs + length e \<le> nKey" "length e \<le> SQLITE_MAX_LENGTH"
    using comparable_sizes(2) [OF c] c by (auto simp: fs comparable_def)
  note first = first_diff [OF ok r, unfolded z coll, OF refl]
  note run = vdbeRecordCompareString_def g g [unfolded One_nat_def] k_def [symmetric]
  have small: "t < 12 \<Longrightarrow> sint t < 12" using sint_type [of t] unat_of_uint [of t "2 ^ 31"] by (simp add: word_less_def)
  from e show ?thesis
  proof (cases rule: encodes_cases [where s = "concat (map snd fs') @ s"])
    case Null
    then show ?thesis using small first(1) by (simp add: run cmp3_def)
  next
    case (Int j)
    then show ?thesis using small ge_128(5) first(1) by (simp add: run cmp3_def)
  next
    case (Real w)
    then show ?thesis using small first(1) by (simp add: run cmp3_def)
  next
    case Blob
    have "\<not> sint t < 12" using type_of_len [OF Blob(1,4) fit(2)] by simp
    then show ?thesis using Blob first(2) by (simp add: run cmp3_def)
  next
    case Text
    note t = type_of_len(2,3) [OF Text(1,4) fit(2)]
    obtain x where x: "memcmp_n (min (length e) nz) (e @ concat (map snd fs') @ s) (take nz z @ drop nz z) = Some x"
      "sgn (if x = 0 then int (length e) - int nz else x) = bytes_order e (take nz z)"
      using memcmp_order [of e "length e" "take nz z" nz "concat (map snd fs') @ s" "drop nz z"] v by auto
    have x': "memcmp_n (min nz (length e)) (drop (header_of fs) k) z = Some x"
      using x(1) by (simp add: d min.commute)
    let ?y = "if x = 0 then int (length e) - int nz else x"
    have o: "value_order None (mem_value m) (Text (take nz z)) = sgn ?y"
      using x(2) by (simp add: Text text_order_def)
    have run: "vdbeRecordCompareString nKey k p =
      (if ?y = 0 then (if nField p > 1 then sqlite3VdbeRecordCompareWithSkip nKey k p True
                       else Some (default_rc p, p\<lparr>eqSeen := True\<rparr>))
       else if ?y > 0 then Some (r2 p, p) else Some (r1 p, p))"
      using t Text k0 H fit v x' by (auto simp: vdbeRecordCompareString_def g [unfolded One_nat_def] Let_def)
    consider "?y < 0" | "?y > 0" | "?y = 0" by linarith
    then show ?thesis
    proof cases
      case 1
      then show ?thesis using first(1) o run unfolding k_def by simp
    next
      case 2
      then show ?thesis using first(2) o run unfolding k_def by simp
    next
      case 3
      then have diff: "key_diff (m # ms) p 0 = key_diff ms p 1" using first(3) o by simp
      show ?thesis
      proof (cases "1 < nField p")
        case True
        then show ?thesis using skip_outcome [OF c h(1) fs _ True, of s] 3 more empty run diff unfolding k_def by simp
      next
        case False
        then have "key_diff ms p 1 = None" by (simp add: key_diff_end)
        then show ?thesis using False 3 run diff unfolding k_def by (simp add: outcome_def)
      qed
    qed
  qed
qed
section \<open>What a collation has to be\<close>

text \<open>
  The contract of a collating function: it orders the texts. The order of values built on one
  that keeps it is an order again.
\<close>

definition collation_value :: "nat \<Rightarrow> (u8 list \<Rightarrow> u8 list \<Rightarrow> int) \<Rightarrow> CollSeq" where
  "collation_value enc cmp = \<lparr>coll_enc = enc, xCmp = cmp\<rparr>"

lemma bytes_order_swap: "bytes_order y x = - bytes_order x y"
  by (induction x y rule: bytes_order.induct) auto

lemma bytes_order_trans: "bytes_order x y \<le> 0 \<Longrightarrow> bytes_order y z \<le> 0 \<Longrightarrow> bytes_order x z \<le> 0"
proof (induction x y arbitrary: z rule: bytes_order.induct)
  case (4 a x b y)
  then show ?case by (cases z) (auto split: if_splits)
qed (case_tac [!] z, auto)

lemma cmp3_le: "cmp3 a b \<le> 0 \<longleftrightarrow> a \<le> b"
  by (simp add: cmp3_def)

lemma value_order_rank:
  "value_rank v < value_rank w \<Longrightarrow> value_order c v w = - 1"
  "value_order c v w \<le> 0 \<Longrightarrow> value_rank v \<le> value_rank w"
  by (cases v; cases w; simp add: cmp3_def split: if_splits)+

lemma value_order_num: "value_rank v = value_rank w \<Longrightarrow> value_rank v \<le> 1 \<Longrightarrow>
    value_order c v w = cmp3 (value_num v) (value_num w)"
  by (cases v; cases w) simp_all

locale collation =
  fixes cmp :: "u8 list \<Rightarrow> u8 list \<Rightarrow> int"
  assumes swap: "sgn (cmp y x) = - sgn (cmp x y)"
    and trans: "cmp x y \<le> 0 \<Longrightarrow> cmp y z \<le> 0 \<Longrightarrow> cmp x z \<le> 0"
begin

lemma text_order_cmp: "text_order (Some \<lparr>coll_enc = enc, xCmp = cmp\<rparr>) x y = sgn (cmp x y)"
  by (simp add: text_order_def)

lemma sgn_le: "sgn i \<le> 0 \<longleftrightarrow> i \<le> (0 :: int)"
  by (simp add: sgn_if)

lemma value_swap:
  "value_order (Some \<lparr>coll_enc = enc, xCmp = cmp\<rparr>) w v = - value_order (Some \<lparr>coll_enc = enc, xCmp = cmp\<rparr>) v w"
proof (cases v; cases w)
  fix x y assume "v = Text x" "w = Text y"
  then show ?thesis using swap [of y x] by (simp add: text_order_cmp)
next
  fix x y assume "v = Blob x" "w = Blob y"
  then show ?thesis using bytes_order_swap [of y x] by simp
qed (simp_all add: cmp3_swap)

lemma value_trans:
  assumes "value_order (Some \<lparr>coll_enc = enc, xCmp = cmp\<rparr>) u v \<le> 0"
    and "value_order (Some \<lparr>coll_enc = enc, xCmp = cmp\<rparr>) v w \<le> 0"
  shows "value_order (Some \<lparr>coll_enc = enc, xCmp = cmp\<rparr>) u w \<le> 0"
proof -
  let ?c = "Some \<lparr>coll_enc = enc, xCmp = cmp\<rparr>"
  have rank: "value_rank u \<le> value_rank v" "value_rank v \<le> value_rank w"
    using assms value_order_rank(2) by blast+
  consider "value_rank u < value_rank w" | "value_rank u \<le> 1" "value_rank u = value_rank v" "value_rank v = value_rank w"
    | x y z where "u = Text x" "v = Text y" "w = Text z" | x y z where "u = Blob x" "v = Blob y" "w = Blob z"
    using rank by (cases u; cases v; cases w; force)
  then show ?thesis
  proof cases
    case 1
    then show ?thesis by (simp add: value_order_rank(1))
  next
    case 2
    then show ?thesis using assms by (simp add: value_order_num cmp3_le)
  next
    case 3
    then show ?thesis using assms trans [of x y z] by (simp add: text_order_cmp sgn_le)
  next
    case 4
    then show ?thesis using assms bytes_order_trans [of x y z] by simp
  qed
qed

end
section \<open>The built-in collations\<close>

lemma min_if: "(if a < b then a else b) = min a (b :: nat)"
  by (simp add: min_def)

lemma BINARY_order: "sgn (binCollFunc False x y) = bytes_order x y"
  unfolding binCollFunc_def min_if
  using bytes_order_prefix [of "min (length x) (length y)" x y] bytes_order_same [of "min (length x) (length y)" x y]
  by (simp add: Let_def)

lemma sgn_nonpos: "sgn i = j \<Longrightarrow> i \<le> 0 \<longleftrightarrow> j \<le> (0 :: int)"
  by (auto simp: sgn_if split: if_splits)

interpretation bytes: collation bytes_order
proof unfold_locales
  show "sgn (bytes_order y x) = - sgn (bytes_order x y)" for x y
    using bytes_order_swap [of y x] by simp
qed (rule bytes_order_trans)

interpretation binary: collation "binCollFunc False"
proof unfold_locales
  show "sgn (binCollFunc False y x) = - sgn (binCollFunc False x y)" for x y
    unfolding BINARY_order by (rule bytes_order_swap)
  show "binCollFunc False x z \<le> 0" if "binCollFunc False x y \<le> 0" "binCollFunc False y z \<le> 0" for x y z
    using that bytes_order_trans [of x y z] by (simp add: sgn_nonpos [OF BINARY_order])
qed

text \<open>
  NOCASE compares the texts in lower case up to the first zero byte, and then the lengths.
\<close>

fun nocase_key :: "u8 list \<Rightarrow> u8 list" where
  "nocase_key [] = []"
| "nocase_key (a # x) = (if a = 0 then [0] else UpperToLower a # nocase_key x)"

definition nocase_order :: "u8 list \<Rightarrow> u8 list \<Rightarrow> int" where
  "nocase_order x y =
     (let c = bytes_order (nocase_key x) (nocase_key y)
      in if c \<noteq> 0 then c else sgn (int (length x) - int (length y)))"

lemma nocase_key_Cons: "nocase_key (a # x) = UpperToLower a # (if a = 0 then [] else nocase_key x)"
  using UpperToLower_eq_0 [of a] by simp

lemma strnicmp_0: "sqlite3_strnicmp (Some x) (Some y) 0 = 0"
  by (simp add: sqlite3_strnicmp_def strnicmp_loop.simps [of 0])

lemma strnicmp_Cons: "sqlite3_strnicmp (Some (a # x)) (Some (b # y)) (int (Suc n)) =
    (if a \<noteq> 0 \<and> UpperToLower a = UpperToLower b then sqlite3_strnicmp (Some x) (Some y) (int n)
     else char_diff a b)"
  by (simp add: sqlite3_strnicmp_def strnicmp_loop.simps [of "1 + int n"])

lemma NOCASE_order: "sgn (nocaseCollatingFunc x y) = nocase_order x y"
proof -
  have "sgn (let r = sqlite3_strnicmp (Some x) (Some y) (int (min (length x) (length y)))
             in if r = 0 then int (length x) - int (length y) else r) = nocase_order x y"
  proof (induction x y rule: list_induct2')
    case (4 a x b y)
    have n: "int (min (length (a # x)) (length (b # y))) = int (Suc (min (length x) (length y)))" by simp
    show ?case
    proof (cases "a \<noteq> 0 \<and> UpperToLower a = UpperToLower b")
      case True
      then have "b \<noteq> 0" using UpperToLower_eq_0 by metis
      with True have "nocase_order (a # x) (b # y) = nocase_order x y" by (simp add: nocase_order_def Let_def)
      moreover have "int (length (a # x)) - int (length (b # y)) = int (length x) - int (length y)" by simp
      ultimately show ?thesis using 4 unfolding n strnicmp_Cons using True by (simp only: if_True simp_thms)
    next
      case False
      then have diff: "sqlite3_strnicmp (Some (a # x)) (Some (b # y)) (int (min (length (a # x)) (length (b # y)))) = char_diff a b"
        unfolding n strnicmp_Cons by (rule if_not_P)
      show ?thesis
      proof (cases "UpperToLower a = UpperToLower b")
        case True
        then have "a = 0" "b = 0" using False UpperToLower_eq_0 by metis+
        then show ?thesis unfolding diff by (simp add: nocase_order_def nocase_key_Cons char_diff_def Let_def)
      next
        case ne: False
        then have "char_diff a b \<noteq> 0" "sgn (char_diff a b) = (if UpperToLower a < UpperToLower b then - 1 else 1)"
          by (auto simp: char_diff_def word_less_def sgn_if word_uint_eq_iff)
        moreover have "bytes_order (UpperToLower a # u) (UpperToLower b # v) =
            (if UpperToLower a < UpperToLower b then - 1 else 1)" for u v using ne by auto
        ultimately show ?thesis unfolding diff nocase_order_def nocase_key_Cons by simp
      qed
    qed
  qed (simp_all add: nocase_order_def strnicmp_0)
  then show ?thesis by (simp only: nocaseCollatingFunc_def min_if)
qed

lemma nocase_order_swap: "nocase_order y x = - nocase_order x y"
  using bytes_order_swap [of "nocase_key y" "nocase_key x"] by (auto simp: nocase_order_def Let_def sgn_if)

lemma nocase_order_le:
  "nocase_order x y \<le> 0 \<longleftrightarrow> bytes_order (nocase_key x) (nocase_key y) < 0 \<or>
     bytes_order (nocase_key x) (nocase_key y) = 0 \<and> length x \<le> length y"
  by (auto simp: nocase_order_def Let_def sgn_if)

lemma bytes_order_strict:
  "bytes_order x y < 0 \<Longrightarrow> bytes_order y z \<le> 0 \<Longrightarrow> bytes_order x z < 0"
  "bytes_order x y \<le> 0 \<Longrightarrow> bytes_order y z < 0 \<Longrightarrow> bytes_order x z < 0"
  using bytes_order_trans [of x y z] bytes_order_trans [of z x y] bytes_order_trans [of y z x]
    bytes_order_swap [of x y] bytes_order_swap [of y z] bytes_order_swap [of x z] by linarith+

lemma nocase_order_trans: "nocase_order x y \<le> 0 \<Longrightarrow> nocase_order y z \<le> 0 \<Longrightarrow> nocase_order x z \<le> 0"
  using bytes_order_strict [of "nocase_key x" "nocase_key y" "nocase_key z"]
    bytes_order_trans [of "nocase_key x" "nocase_key y" "nocase_key z"]
  by (auto simp: nocase_order_le)

interpretation nocase: collation nocaseCollatingFunc
proof unfold_locales
  show "sgn (nocaseCollatingFunc y x) = - sgn (nocaseCollatingFunc x y)" for x y
    unfolding NOCASE_order by (rule nocase_order_swap)
  show "nocaseCollatingFunc x z \<le> 0" if "nocaseCollatingFunc x y \<le> 0" "nocaseCollatingFunc y z \<le> 0" for x y z
    using that nocase_order_trans [of x y z] by (simp add: sgn_nonpos [OF NOCASE_order])
qed
section \<open>Properties\<close>

definition built_in :: "nat \<Rightarrow> CollSeq option \<Rightarrow> bool" where
  "built_in enc pColl \<longleftrightarrow> pColl = None \<or>
     pColl = Some \<lparr>coll_enc = enc, xCmp = binCollFunc False\<rparr> \<or>
     pColl = Some \<lparr>coll_enc = enc, xCmp = nocaseCollatingFunc\<rparr>"

lemma sgn_bytes_order: "sgn (bytes_order x y) = bytes_order x y"
  unfolding BINARY_order [symmetric] by (rule sgn_sgn)

lemma value_order_None: "value_order None v w = value_order (Some \<lparr>coll_enc = enc, xCmp = bytes_order\<rparr>) v w"
  by (cases v; cases w) (simp_all add: text_order_def sgn_bytes_order)

lemma built_in_swap: "built_in enc c \<Longrightarrow> value_order c w v = - value_order c v w"
  unfolding built_in_def
  by (elim disjE; simp only: value_order_None [of _ _ enc])
    (rule bytes.value_swap binary.value_swap nocase.value_swap)+

lemma built_in_trans:
  "built_in enc c \<Longrightarrow> value_order c u v \<le> 0 \<Longrightarrow> value_order c v w \<le> 0 \<Longrightarrow> value_order c u w \<le> 0"
  unfolding built_in_def
  by (elim disjE; simp only: value_order_None [of _ _ enc])
    (erule (1) bytes.value_trans binary.value_trans nocase.value_trans)+


definition sample_key :: KeyInfo where
  "sample_key = \<lparr>ki_enc = SQLITE_UTF8, ki_nField = 2, ki_nXField = 0, aSortOrder = [False, True],
     aColl = [None, Some \<lparr>coll_enc = SQLITE_UTF8, xCmp = nocaseCollatingFunc\<rparr>],
     ki_platform = x86_double, ki_mallocs = (True, True)\<rparr>"

lemma x86_ok: "platform_ok x86_double"
  by (simp add: platform_ok_def x86_double_def)

text \<open>
  RTRIM is not an order: ``x'' followed by a space equals ``x'', ``x'' is smaller than
  ``x'' followed by a tab, and yet ``x'' followed by a space is larger than that. So the
  contract that BINARY and NOCASE keep does not hold of it.
\<close>

lemma rtrim_no_order:
  "binCollFunc True [120, 32] [120] = 0 \<and> binCollFunc True [120] [120, 9] < 0 \<and>
   binCollFunc True [120, 9] [120, 32] < 0 \<and> \<not> collation (binCollFunc True)"
proof -
  have c: "binCollFunc True [120, 32] [120] = 0" "binCollFunc True [120] [120, 9] < 0"
    "binCollFunc True [120, 9] [120, 32] < 0"
    by (simp_all add: binCollFunc_def allSpaces_def)
  have "\<not> collation (binCollFunc True)"
  proof
    assume "collation (binCollFunc True)"
    from collation.trans [OF this, of "[120, 32]" "[120]" "[120, 9]"] c(1,2)
    have "binCollFunc True [120, 32] [120, 9] \<le> 0" by simp
    then show False by (simp add: binCollFunc_def)
  qed
  with c show ?thesis by blast
qed

lemma made_comparable:
  assumes made: "MakeRecord limit ff junk mem regs = Some (Made z nZero regs')"
    and regs: "\<forall>m\<in>set regs. mem_ok m" "regs \<noteq> []" and limit: "limit \<le> SQLITE_MAX_LENGTH" and p: "key_ok p"
  obtains fs where "z @ replicate nZero 0 = record_layout fs" "comparable fs regs (length z + nZero) p"
    "length fs = length regs"
proof -
  from MakeRecord_cases [OF regs(1) limit, of ff junk mem] made obtain fs where
    fs: "length z + nZero \<le> limit" "z @ replicate nZero 0 = record_layout fs" "record_of fs regs" by auto
  have len: "length fs = length regs" using fs(3) by (auto simp: record_of_def dest: list_all2_lengthD)
  moreover have "length (record_layout fs) = length z + nZero" by (simp flip: fs(2))
  ultimately have "comparable fs regs (length z + nZero) p"
    using fs p limit regs(2) by (auto simp: comparable_def)
  then show ?thesis using that fs(2) len by blast
qed

text \<open>
  C26: Comparing a stored record with an unpacked key gives the order of the rows: for a record
  that \<open>MakeRecord\<close> made of any registers (its unstored zeros written out, whatever lies
  behind it), \<open>sqlite3VdbeRecordCompare\<close> never reads outside the buffer and never reports
  corruption; its sign is that of the first field in which the values differ, reversed for a
  descending field, and without a difference in the fields both have it returns \<open>default_rc\<close>
  and marks the keys as found equal.
\<close>

theorem RecordCompare_order:
  assumes "MakeRecord limit ff junk mem regs = Some (Made z nZero regs')"
    and "\<forall>m\<in>set regs. mem_ok m" "regs \<noteq> []" and "limit \<le> SQLITE_MAX_LENGTH" and "key_ok p"
  shows "outcome p (key_diff regs p 0)
    (sqlite3VdbeRecordCompare (length z + nZero) (z @ replicate nZero 0 @ s) p)"
  by (rule made_comparable [OF assms]) (simp add: compare_outcome flip: append_assoc)

text \<open>
  C27: The comparison that \<open>sqlite3VdbeFindCompare\<close> chooses is as good: for a record of at most
  as many fields as the key has columns, the variants that look only at the first integer or
  text give the same outcome as the general comparison, with the results \<open>r1\<close> and \<open>r2\<close> that
  were chosen for the sort order of the first field. A record of a single field is only
  compared with a key of a single field: the variants do not test for the end of the header.
\<close>

theorem FindCompare_agrees:
  assumes made: "MakeRecord limit ff junk mem regs = Some (Made z nZero regs')"
    and regs: "\<forall>m\<in>set regs. mem_ok m" "regs \<noteq> []" and limit: "limit \<le> SQLITE_MAX_LENGTH" and p: "key_ok p"
    and n: "length regs \<le> ki_nField (pKeyInfo p) + ki_nXField (pKeyInfo p)"
    and more: "length regs = 1 \<longrightarrow> nField p = 1"
  shows "\<exists>f p'. sqlite3VdbeFindCompare p = Some (f, p') \<and> key_diff regs p' 0 = key_diff regs p 0 \<and>
    outcome p' (key_diff regs p' 0) (run_compare f (length z + nZero) (z @ replicate nZero 0 @ s) p')"
proof (cases "ki_nField (pKeyInfo p) + ki_nXField (pKeyInfo p) \<le> 13")
  case False
  then show ?thesis using RecordCompare_order [OF made regs limit p]
    by (intro exI [of _ Compare_Record] exI [of _ p]) (simp add: sqlite3VdbeFindCompare_def)
next
  case True
  define p' where "p' = (if aSortOrder (pKeyInfo p) ! 0 then p\<lparr>r1 := 1, r2 := - 1\<rparr> else p\<lparr>r1 := - 1, r2 := 1\<rparr>)"
  have p': "aMem p' = aMem p" "pKeyInfo p' = pKeyInfo p" "nField p' = nField p" by (simp_all add: p'_def)
  have ok: "key_ok p'" using p by (simp add: key_ok_def p')
  have r: "results_set p'" by (simp add: results_set_def p'_def)
  have diff: "key_diff regs p' 0 = key_diff regs p 0" by (simp add: key_diff_def p')
  obtain m ms where m: "regs = m # ms" using regs(2) by (cases regs) auto
  obtain fs where fs: "z @ replicate nZero 0 = record_layout fs" "comparable fs (m # ms) (length z + nZero) p'"
    "length fs \<le> 13"
    using made_comparable [OF made regs limit ok] n True m p' by (metis le_trans)
  have more': "ms \<noteq> [] \<or> nField p' = 1" using more m p' by auto
  have rd0: "rd (aMem p) 0 = Some (aMem p ! 0)" "rd (aSortOrder (pKeyInfo p)) 0 = Some (aSortOrder (pKeyInfo p) ! 0)"
    "rd (aColl (pKeyInfo p)) 0 = Some (aColl (pKeyInfo p) ! 0)"
    using p by (auto simp: key_ok_def rd_def)
  have slow: "outcome p' (key_diff regs p' 0) (run_compare Compare_Record (length z + nZero) (z @ replicate nZero 0 @ s) p')"
    using RecordCompare_order [OF made regs limit ok] by simp
  have int: "outcome p' (key_diff regs p' 0) (run_compare Compare_Int (length z + nZero) (z @ replicate nZero 0 @ s) p')"
    if "aMem p ! 0 = MEM_Int i" for i
    using CompareInt_outcome [OF fs(2,3) r _ more', of i s] that fs(1) m p' by (simp flip: append_assoc)
  have str: "outcome p' (key_diff regs p' 0) (run_compare Compare_String (length z + nZero) (z @ replicate nZero 0 @ s) p')"
    if "aMem p ! 0 = MEM_Str x k" "aColl (pKeyInfo p) ! 0 = None" for x k
    using CompareString_outcome [OF fs(2,3) r _ _ more', of x k s] that fs(1) m p' by (simp flip: append_assoc)
  obtain f where f: "sqlite3VdbeFindCompare p = Some (f, p')"
    "outcome p' (key_diff regs p' 0) (run_compare f (length z + nZero) (z @ replicate nZero 0 @ s) p')"
    using True rd0 slow int str
    by (cases "aMem p ! 0") (auto simp: sqlite3VdbeFindCompare_def Let_def p'_def [symmetric])
  then show ?thesis using diff by blast
qed

definition sample_search :: UnpackedRecord where
  "sample_search = \<lparr>pKeyInfo = sample_key, aMem = [MEM_Int 300, MEM_Str [65] 1], nField = 2, default_rc = - 1,
     errCode = 0, r1 = 0, r2 = 0, eqSeen = False\<rparr>"

lemma sample_search_ok: "key_ok sample_search"
  by (simp add: key_ok_def sample_search_def sample_key_def key_coll_def x86_ok SQLITE_MAX_LENGTH_def)

text \<open>A row that differs from the key in the second field, which is descending.\<close>

definition sample_stored :: "vmem list" where "sample_stored = [MEM_Int 300, MEM_Str [66] 1]"

lemma sample_made: "MakeRecord 1000 4 (\<lambda>i. 7) [] sample_stored = Some (Made [3, 2, 15, 1, 44, 66] 0 sample_stored)"
  by code_simp

lemma sample_diff: "key_diff sample_stored sample_search 0 = Some (- 1)"
  by code_simp

lemma sample_stored_ok: "\<forall>m\<in>set sample_stored. mem_ok m" "sample_stored \<noteq> []" "length sample_stored = 2"
  by (simp_all add: sample_stored_def SQLITE_MAX_LENGTH_def)

lemma six: "length [3, 2, 15, 1, 44, 66 :: u8] + 0 = 6" "[3, 2, 15, 1, 44, 66] @ replicate 0 0 @ [9] = [3, 2, 15, 1, 44, 66, 9 :: u8]"
  by simp_all

lemma limit_1000: "1000 \<le> SQLITE_MAX_LENGTH"
  by (simp add: SQLITE_MAX_LENGTH_def)

lemma RecordCompare_order_witness:
  "\<exists>rc. sqlite3VdbeRecordCompare 6 [3, 2, 15, 1, 44, 66, 9] sample_search = Some (rc, sample_search) \<and> sgn rc = - 1"
  using RecordCompare_order [OF sample_made sample_stored_ok(1,2) limit_1000 sample_search_ok, of "[9]"]
  unfolding six by (simp add: sample_diff outcome_def)

lemma FindCompare_agrees_witness:
  "\<exists>f p'. sqlite3VdbeFindCompare sample_search = Some (f, p') \<and>
    outcome p' (Some (- 1)) (run_compare f 6 [3, 2, 15, 1, 44, 66, 9] p')"
proof -
  have "length sample_stored \<le> ki_nField (pKeyInfo sample_search) + ki_nXField (pKeyInfo sample_search)"
    "length sample_stored = 1 \<longrightarrow> nField sample_search = 1"
    by (simp_all add: sample_stored_ok sample_search_def sample_key_def)
  from FindCompare_agrees [OF sample_made sample_stored_ok(1,2) limit_1000 sample_search_ok this, of "[9]"]
  show ?thesis unfolding six sample_diff by (elim exE conjE) (simp only:, blast)
qed

end
