(* ===== verification/WalIndex.thy ===== *)
theory WalIndex
  imports Varint
begin

text \<open>
  The index of the write-ahead log (\<open>src/wal.c\<close>): the shared memory that says which frame of
  the log holds the newest copy of a page. It consists of pages of 32768 bytes, each with the
  page numbers of up to 4096 frames and a hash table of 8192 slots over them; the first one
  begins with two copies of a header and the state of the checkpoint. Slots are 16 bits wide
  and hold the number of a frame within its page, 0 for an empty slot.

  \<open>Wal\<close> is a connection's handle; its field \<open>wi\<close> is the shared memory its pointers reach.
  Two connections on one log are two handles with the same \<open>wi\<close>. The shared memory is mapped
  page by page, and what the operating system answers is an argument (\<open>wal_env\<close>).
\<close>

section \<open>The index and the handle\<close>

record WalIndexHdr =
  iVersion :: u32
  unused :: u32
  iChange :: u32
  isInit :: u8
  bigEndCksum :: u8
  hszPage :: u16
  mxFrame :: u32
  nPage :: u32
  aFrameCksum :: "u32 \<times> u32"
  aSalt :: "u8 list"
  aCksum :: "u32 \<times> u32"

record WalCkptInfo =
  nBackfill :: u32
  aReadMark :: "u32 list"
  nBackfillAttempted :: u32

text \<open>The words of a page of the index, of which the first 34 of page 0 are the headers.\<close>

record index_page =
  aWord :: "nat \<Rightarrow> u32"
  aHash :: "nat \<Rightarrow> u16"

record wal_index =
  hdr0 :: WalIndexHdr
  hdr1 :: WalIndexHdr
  ckptInfo :: WalCkptInfo
  ipage :: "nat \<Rightarrow> index_page"

definition WAL_NORMAL_MODE :: nat where "WAL_NORMAL_MODE = 0"
definition WAL_EXCLUSIVE_MODE :: nat where "WAL_EXCLUSIVE_MODE = 1"
definition WAL_HEAPMEMORY_MODE :: nat where "WAL_HEAPMEMORY_MODE = 2"

definition WAL_SHM_RDONLY :: nat where "WAL_SHM_RDONLY = 2"

record Wal =
  wi :: wal_index
  iCallback :: u32
  mxWalSize :: int
  nWiData :: nat
  apWiData :: "nat \<Rightarrow> bool"
  szPage :: u32
  readLock :: int
  exclusiveMode :: nat
  writeLock :: bool
  ckptLock :: bool
  readOnly :: nat
  truncateOnCommit :: bool
  syncHeader :: bool
  padToSectorBoundary :: bool
  hdr :: WalIndexHdr
  minFrame :: u32
  iReCksum :: u32
  nCkpt :: u32

text \<open>
  What growing the array of pointers, allocating page \<open>i\<close> in memory and mapping page \<open>i\<close> of the
  shared memory report; a mapping gives a result code and whether the pointer is set.
\<close>

record wal_env =
  grow :: "nat \<Rightarrow> bool"
  page_alloc :: "nat \<Rightarrow> bool"
  shm_map :: "nat \<Rightarrow> bool \<Rightarrow> nat \<times> bool"

definition HASHTABLE_NPAGE :: nat where "HASHTABLE_NPAGE = 4096"
definition HASHTABLE_HASH_1 :: nat where "HASHTABLE_HASH_1 = 383"
definition HASHTABLE_NSLOT :: nat where "HASHTABLE_NSLOT = HASHTABLE_NPAGE * 2"
definition WALINDEX_HDR_SIZE :: nat where "WALINDEX_HDR_SIZE = 136"
definition HASHTABLE_NPAGE_ONE :: nat where
  "HASHTABLE_NPAGE_ONE = HASHTABLE_NPAGE - WALINDEX_HDR_SIZE div 4"

lemmas wal_consts = HASHTABLE_NPAGE_def HASHTABLE_HASH_1_def HASHTABLE_NSLOT_def
  WALINDEX_HDR_SIZE_def HASHTABLE_NPAGE_ONE_def

definition zero_hdr :: WalIndexHdr where
  "zero_hdr = \<lparr>iVersion = 0, unused = 0, iChange = 0, isInit = 0, bigEndCksum = 0, hszPage = 0,
     mxFrame = 0, nPage = 0, aFrameCksum = (0, 0), aSalt = replicate 8 0, aCksum = (0, 0)\<rparr>"

definition zero_page :: "nat \<Rightarrow> wal_index \<Rightarrow> wal_index" where
  "zero_page i x =
     (let y = x\<lparr>ipage := (ipage x)(i := \<lparr>aWord = (\<lambda>_. 0), aHash = (\<lambda>_. 0)\<rparr>)\<rparr>
      in if i = 0
         then y\<lparr>hdr0 := zero_hdr, hdr1 := zero_hdr,
                ckptInfo := \<lparr>nBackfill = 0, aReadMark = replicate 5 0, nBackfillAttempted = 0\<rparr>\<rparr>
         else y)"

definition walIndexPage :: "wal_env \<Rightarrow> Wal \<Rightarrow> nat \<Rightarrow> nat \<times> nat option \<times> Wal" where
  "walIndexPage E W i =
     (if nWiData W \<le> i \<and> \<not> grow E i then (SQLITE_NOMEM, None, W)
      else
        let W1 = (if nWiData W \<le> i
                  then W\<lparr>nWiData := i + 1,
                         apWiData := (\<lambda>j. if nWiData W \<le> j \<and> j \<le> i then False else apWiData W j)\<rparr>
                  else W);
            (rc, W2) =
              (if apWiData W1 i then (SQLITE_OK, W1)
               else if exclusiveMode W1 = WAL_HEAPMEMORY_MODE then
                 (if page_alloc E i
                  then (SQLITE_OK, W1\<lparr>apWiData := (apWiData W1)(i := True), wi := zero_page i (wi W1)\<rparr>)
                  else (SQLITE_NOMEM, W1))
               else
                 let (r, p) = shm_map E i (writeLock W1);
                     W2 = W1\<lparr>apWiData := (apWiData W1)(i := p)\<rparr>
                 in if r = SQLITE_READONLY
                    then (SQLITE_OK, W2\<lparr>readOnly := readOnly W2 OR WAL_SHM_RDONLY\<rparr>)
                    else (r, W2))
        in (rc, if apWiData W2 i then Some i else None, W2))"

section \<open>Hashing\<close>

definition walHash :: "u32 \<Rightarrow> nat" where
  "walHash iPage = unat ((iPage * of_nat HASHTABLE_HASH_1) AND of_nat (HASHTABLE_NSLOT - 1))"

definition walNextHash :: "nat \<Rightarrow> nat" where
  "walNextHash iPriorHash = (iPriorHash + 1) AND (HASHTABLE_NSLOT - 1)"

text \<open>
  The page on which frame \<open>iFrame\<close> is indexed. The sum is one of 32 bits, the difference one
  of 64 bits, and the quotient is stored in an \<open>int\<close>.
\<close>

definition walFramePage :: "u32 \<Rightarrow> int" where
  "walFramePage iFrame =
     sint (ucast (((ucast (iFrame + of_nat HASHTABLE_NPAGE) :: u64) - of_nat HASHTABLE_NPAGE_ONE - 1)
                  div of_nat HASHTABLE_NPAGE) :: u32)"

text \<open>
  The table on page \<open>iHash\<close>: the page, the word at which its array of page numbers starts and
  the number of the frame before its first one. \<open>aPgno[idx]\<close> of the code, with \<open>idx\<close> from 1,
  is \<open>pgno_at\<close>.
\<close>

record hash_loc =
  loc_page :: nat
  loc_base :: nat
  iZero :: u32

definition walHashGet :: "wal_env \<Rightarrow> Wal \<Rightarrow> int \<Rightarrow> nat \<times> hash_loc \<times> Wal" where
  "walHashGet E W iHash =
     (let (rc, p, W') = walIndexPage E W (nat iHash)
      in (rc,
          if iHash = 0
          then \<lparr>loc_page = 0, loc_base = WALINDEX_HDR_SIZE div 4, iZero = 0\<rparr>
          else \<lparr>loc_page = nat iHash, loc_base = 0,
                iZero = of_nat HASHTABLE_NPAGE_ONE + (of_int iHash - 1) * of_nat HASHTABLE_NPAGE\<rparr>,
          W'))"

definition pgno_at :: "Wal \<Rightarrow> hash_loc \<Rightarrow> nat \<Rightarrow> u32" where
  "pgno_at W L idx = aWord (ipage (wi W) (loc_page L)) (loc_base L + idx - 1)"

definition hash_at :: "Wal \<Rightarrow> hash_loc \<Rightarrow> nat \<Rightarrow> u16" where
  "hash_at W L = aHash (ipage (wi W) (loc_page L))"

definition set_page :: "Wal \<Rightarrow> hash_loc \<Rightarrow> (nat \<Rightarrow> u32) \<Rightarrow> (nat \<Rightarrow> u16) \<Rightarrow> Wal" where
  "set_page W L f h =
     W\<lparr>wi := (wi W)\<lparr>ipage := (ipage (wi W))(loc_page L := \<lparr>aWord = f, aHash = h\<rparr>)\<rparr>\<rparr>"

definition walFramePgno :: "Wal \<Rightarrow> u32 \<Rightarrow> u32" where
  "walFramePgno W iFrame =
     (let iHash = walFramePage iFrame
      in if iHash = 0
         then aWord (ipage (wi W) 0) (unat (of_nat (WALINDEX_HDR_SIZE div 4) + (ucast iFrame :: u64) - 1))
         else aWord (ipage (wi W) (nat iHash))
                (unat (((ucast (iFrame - 1) :: u64) - of_nat HASHTABLE_NPAGE_ONE) mod of_nat HASHTABLE_NPAGE)))"

section \<open>Writing the index\<close>

definition walCleanupHash :: "wal_env \<Rightarrow> Wal \<Rightarrow> Wal" where
  "walCleanupHash E W =
     (if mxFrame (hdr W) = 0 then W
      else
        let (rc, L, W) = walHashGet E W (walFramePage (mxFrame (hdr W)));
            iLimit = sint (mxFrame (hdr W) - iZero L);
            h = (\<lambda>i. if i < HASHTABLE_NSLOT \<and> uint (hash_at W L i) > iLimit then 0 else hash_at W L i);
            f = (\<lambda>j. if int (loc_base L) + iLimit \<le> int j \<and> j < HASHTABLE_NPAGE then 0
                     else aWord (ipage (wi W) (loc_page L)) j)
        in set_page W L f h)"

text \<open>
  The search for an empty slot gives up (\<open>None\<close>) after \<open>nCollide\<close> collisions.
\<close>

fun append_slot :: "(nat \<Rightarrow> u16) \<Rightarrow> nat \<Rightarrow> nat \<Rightarrow> nat option" where
  "append_slot h iKey nCollide =
     (if h iKey = 0 then Some iKey
      else if nCollide = 0 then None
      else append_slot h (walNextHash iKey) (nCollide - 1))"

declare append_slot.simps [simp del]

definition walIndexAppend :: "wal_env \<Rightarrow> Wal \<Rightarrow> u32 \<Rightarrow> u32 \<Rightarrow> nat \<times> Wal" where
  "walIndexAppend E W iFrame iPage =
     (let (rc, L, W) = walHashGet E W (walFramePage iFrame)
      in if rc \<noteq> SQLITE_OK then (rc, W)
         else
           let idx = unat (iFrame - iZero L);
               W1 = (if idx = 1
                     then set_page W L
                            (\<lambda>j. if loc_base L \<le> j \<and> j < HASHTABLE_NPAGE then 0
                                 else aWord (ipage (wi W) (loc_page L)) j)
                            (\<lambda>i. if i < HASHTABLE_NSLOT then 0 else hash_at W L i)
                     else W);
               W2 = (if pgno_at W1 L idx \<noteq> 0 then walCleanupHash E W1 else W1)
           in case append_slot (hash_at W2 L) (walHash iPage) idx of
                None \<Rightarrow> (SQLITE_CORRUPT, W2)
              | Some iKey \<Rightarrow>
                  (SQLITE_OK,
                   set_page W2 L
                     ((aWord (ipage (wi W2) (loc_page L)))(loc_base L + idx - 1 := iPage))
                     ((hash_at W2 L)(iKey := of_nat idx))))"

section \<open>Searching the index\<close>

text \<open>
  The loop over the slots of one table: \<open>iRead\<close> is the best frame so far, \<open>None\<close> the error
  that reports more collisions than there are slots.
\<close>

fun find_slots :: "(nat \<Rightarrow> u16) \<Rightarrow> (nat \<Rightarrow> u32) \<Rightarrow> u32 \<Rightarrow> u32 \<Rightarrow> u32 \<Rightarrow> u32 \<Rightarrow> nat \<Rightarrow> nat \<Rightarrow> u32
    \<Rightarrow> u32 option" where
  "find_slots h pg iZ iLast iMin pgno iKey nCollide iRead =
     (if h iKey = 0 then Some iRead
      else
        let iFrame = ucast (h iKey) + iZ;
            iRead' = (if iFrame \<le> iLast \<and> iMin \<le> iFrame \<and> pg (unat (h iKey)) = pgno
                      then iFrame else iRead)
        in if nCollide = 0 then None
           else find_slots h pg iZ iLast iMin pgno (walNextHash iKey) (nCollide - 1) iRead')"

declare find_slots.simps [simp del]

function find_tables :: "wal_env \<Rightarrow> Wal \<Rightarrow> u32 \<Rightarrow> u32 \<Rightarrow> int \<Rightarrow> int \<Rightarrow> u32 \<Rightarrow> nat \<times> u32 \<times> Wal" where
  "find_tables E W pgno iLast iMinHash iHash iRead =
     (if iMinHash \<le> iHash \<and> iRead = 0 then
        let (rc, L, W') = walHashGet E W iHash
        in if rc \<noteq> SQLITE_OK then (rc, iRead, W')
           else case find_slots (hash_at W' L) (pgno_at W' L) (iZero L) iLast (minFrame W') pgno
                       (walHash pgno) HASHTABLE_NSLOT iRead of
                  None \<Rightarrow> (SQLITE_CORRUPT, iRead, W')
                | Some r \<Rightarrow> find_tables E W' pgno iLast iMinHash (iHash - 1) r
      else (SQLITE_OK, iRead, W))"
  by pat_completeness auto
termination
  by (relation "measure (\<lambda>(E, W, pgno, iLast, iMinHash, iHash, iRead). nat (iHash - iMinHash + 1))")
    auto

declare find_tables.simps [simp del]

definition sqlite3WalFindFrame :: "wal_env \<Rightarrow> Wal \<Rightarrow> u32 \<Rightarrow> nat \<times> u32 \<times> Wal" where
  "sqlite3WalFindFrame E W pgno =
     (let iLast = mxFrame (hdr W)
      in if iLast = 0 \<or> readLock W = 0 then (SQLITE_OK, 0, W)
         else find_tables E W pgno iLast (walFramePage (minFrame W)) (walFramePage iLast) 0)"

section \<open>One hash table\<close>

abbreviation slot :: "u32 \<Rightarrow> nat \<Rightarrow> nat" where
  "slot p d \<equiv> (walHash p + d) mod 8192"

lemma walHash_less: "walHash p < 8192"
proof -
  have "(p * 383) AND 8191 \<le> 8191" by (rule word_and_le1)
  then have "unat ((p * 383) AND 8191) \<le> unat (8191 :: u32)" by (simp only: word_le_nat_alt)
  then show ?thesis by (simp add: walHash_def wal_consts)
qed

lemma walNextHash_eq: "walNextHash k = (k + 1) mod 8192"
  using take_bit_eq_mask [of 13 "k + 1"]
  by (simp add: walNextHash_def wal_consts take_bit_eq_mod mask_eq_exp_minus_1)

lemma walHash_mod [simp]: "walHash p mod 8192 = walHash p"
  using walHash_less by simp

lemma slot_0 [simp]: "slot p 0 = walHash p"
  using walHash_less by simp

lemma walNextHash_slot [simp]: "walNextHash (slot p d) = slot p (Suc d)"
  by (simp add: walNextHash_eq mod_Suc_eq)

lemma slot_inj: "d < 8192 \<Longrightarrow> e < 8192 \<Longrightarrow> slot p d = slot p e \<Longrightarrow> d = e"
proof (induction d e rule: linorder_wlog)
  case (le d e)
  then have "(e - d) mod 8192 = 0"
    using mod_eq_dvd_iff_nat [of "walHash p + d" "walHash p + e" 8192] by (simp add: dvd_eq_mod_eq_0)
  then show ?case using le by simp
qed simp

text \<open>
  The table \<open>h\<close> over the page numbers \<open>pg 1\<close> to \<open>pg n\<close>: no slot holds anything else, no entry
  is held twice, and on the way from the hash of a page to its entry all slots hold older
  entries. The last clause is what open addressing gives, and what makes a search that takes
  the last match right for every reader, whatever was appended since.
\<close>

definition tab_ok :: "(nat \<Rightarrow> u16) \<Rightarrow> (nat \<Rightarrow> u32) \<Rightarrow> nat \<Rightarrow> bool" where
  "tab_ok h pg n \<longleftrightarrow>
     n \<le> 4096 \<and> (\<forall>k<8192. unat (h k) \<le> n) \<and>
     (\<forall>k<8192. \<forall>k'<8192. h k = h k' \<and> h k \<noteq> 0 \<longrightarrow> k = k') \<and>
     (\<forall>i. 1 \<le> i \<and> i \<le> n \<longrightarrow>
        (\<exists>d<8192. unat (h (slot (pg i) d)) = i \<and>
                  (\<forall>e<d. h (slot (pg i) e) \<noteq> 0 \<and> unat (h (slot (pg i) e)) < i)))"

lemma tab_okD:
  assumes "tab_ok h pg n"
  shows "n \<le> 4096" and "k < 8192 \<Longrightarrow> unat (h k) \<le> n"
    and "k < 8192 \<Longrightarrow> k' < 8192 \<Longrightarrow> h k = h k' \<Longrightarrow> h k \<noteq> 0 \<Longrightarrow> k = k'"
    and "1 \<le> i \<Longrightarrow> i \<le> n \<Longrightarrow> \<exists>d<8192. unat (h (slot (pg i) d)) = i \<and>
                  (\<forall>e<d. h (slot (pg i) e) \<noteq> 0 \<and> unat (h (slot (pg i) e)) < i)"
  using assms unfolding tab_ok_def by blast+

lemma tab_ok_cong:
  assumes "tab_ok h pg n" and "\<forall>i. 1 \<le> i \<and> i \<le> n \<longrightarrow> pg' i = pg i" and "\<forall>k<8192. h' k = h k"
  shows "tab_ok h' pg' n"
  unfolding tab_ok_def
proof (intro conjI allI impI)
  fix i assume i: "1 \<le> i \<and> i \<le> n"
  then show "\<exists>d<8192. unat (h' (slot (pg' i) d)) = i \<and>
      (\<forall>e<d. h' (slot (pg' i) e) \<noteq> 0 \<and> unat (h' (slot (pg' i) e)) < i)"
    using tab_okD(4) [OF assms(1), of i] assms(2,3) by simp
next
  fix k k' assume "k < 8192" "k' < 8192" "h' k = h' k' \<and> h' k \<noteq> 0"
  then show "k = k'" using tab_okD(3) [OF assms(1), of k k'] assms(3) by metis
qed (use tab_okD(1,2) [OF assms(1)] assms(3) in auto)

lemma tab_ok_empty: "\<forall>k<8192. h k = 0 \<Longrightarrow> tab_ok h pg 0"
  by (simp add: tab_ok_def)

text \<open>A search finds an empty slot after at most \<open>n\<close> entries.\<close>

lemma tab_ok_empty_slot:
  assumes "tab_ok h pg n"
  obtains d where "d \<le> n" "h (slot p d) = 0" "\<forall>e<d. h (slot p e) \<noteq> 0"
proof -
  have "\<exists>d\<le>n. h (slot p d) = 0"
  proof (rule ccontr)
    assume none: "\<not> (\<exists>d\<le>n. h (slot p d) = 0)"
    let ?f = "\<lambda>d. unat (h (slot p d))"
    have n: "n \<le> 4096" using tab_okD(1) [OF assms] .
    have "inj_on ?f {0..n}"
    proof (rule inj_onI)
      fix d e assume "d \<in> {0..n}" "e \<in> {0..n}" and eq: "?f d = ?f e"
      then have "d \<le> n" "e \<le> n" by auto
      moreover from this none have "h (slot p d) \<noteq> 0" by blast
      moreover have "h (slot p d) = h (slot p e)" using eq by (simp only: word_unat_eq_iff)
      ultimately show "d = e"
        using tab_okD(3) [OF assms, of "slot p d" "slot p e"] slot_inj [of d e p] n by simp
    qed
    moreover have "?f ` {0..n} \<subseteq> {1..n}"
    proof
      fix x assume "x \<in> ?f ` {0..n}"
      then obtain d where "d \<le> n" "x = ?f d" by auto
      moreover from this none have "h (slot p d) \<noteq> 0" by blast
      then have "?f d \<noteq> 0" by (simp add: unat_eq_zero)
      ultimately show "x \<in> {1..n}" using tab_okD(2) [OF assms, of "slot p d"] by simp
    qed
    ultimately have "card {0..n} \<le> card {1..n}" by (metis card_inj_on_le finite_atLeastAtMost)
    then show False by simp
  qed
  then obtain d where "d \<le> n" "h (slot p d) = 0" by blast
  then have "(LEAST d. h (slot p d) = 0) \<le> n" and "h (slot p (LEAST d. h (slot p d) = 0)) = 0"
    and "\<forall>e<(LEAST d. h (slot p d) = 0). h (slot p e) \<noteq> 0"
    using Least_le [of "\<lambda>d. h (slot p d) = 0" d] LeastI [of "\<lambda>d. h (slot p d) = 0" d]
      not_less_Least [of _ "\<lambda>d. h (slot p d) = 0"] by auto
  then show thesis by (rule that)
qed

lemma append_slot_from:
  assumes "h (slot p d) = 0" and "\<forall>e<d. h (slot p e) \<noteq> 0" and "e \<le> d" and "d - e \<le> c"
  shows "append_slot h (slot p e) c = Some (slot p d)"
  using assms(3,4)
proof (induction "d - e" arbitrary: e c)
  case 0
  then show ?case using assms(1) by (simp add: append_slot.simps)
next
  case (Suc m)
  then have "h (slot p e) \<noteq> 0" using assms(2) by simp
  moreover have "append_slot h (slot p (Suc e)) (c - 1) = Some (slot p d)"
    using Suc by (intro Suc.hyps(1)) auto
  ultimately show ?case
    using Suc.hyps(2) Suc.prems by (subst append_slot.simps) (simp only: walNextHash_slot, simp)
qed

lemma tab_ok_insert:
  assumes "tab_ok h pg n" and n: "n < 4096" and d: "h (slot p d) = 0"
    and before: "\<forall>e<d. h (slot p e) \<noteq> 0" and "d \<le> n"
  shows "tab_ok (h(slot p d := of_nat (n + 1))) (pg(n + 1 := p)) (n + 1)"
proof -
  let ?v = "of_nat (n + 1) :: u16"
  let ?h = "h(slot p d := ?v)"
  have v: "unat ?v = n + 1" using n by (simp add: unat_of_nat take_bit_nat_eq_self del: of_nat_add of_nat_Suc)
  then have v0: "?v \<noteq> 0" by (metis add_is_0 one_neq_zero unat_0)
  have old: "unat (h k) \<le> n" if "k < 8192" for k using tab_okD(2) [OF assms(1) that] .
  then have not_v: "h k \<noteq> ?v" if "k < 8192" for k
    using old [OF that] v by (metis add_le_same_cancel1 not_one_le_zero)
  have 2: "\<forall>k<8192. unat (?h k) \<le> n + 1"
    using old v by (metis fun_upd_apply le_Suc_eq Suc_eq_plus1 order_refl)
  have 3: "\<forall>k<8192. \<forall>k'<8192. ?h k = ?h k' \<and> ?h k \<noteq> 0 \<longrightarrow> k = k'"
  proof (intro allI impI)
    fix k k' assume k: "k < 8192" "k' < 8192" "?h k = ?h k' \<and> ?h k \<noteq> 0"
    show "k = k'"
    proof (cases "k = slot p d \<or> k' = slot p d")
      case True
      then show ?thesis using k not_v [of k] not_v [of k'] by (auto split: if_splits)
    next
      case False
      then have "h k = h k'" "h k \<noteq> 0" using k(3) by auto
      then show ?thesis by (rule tab_okD(3) [OF assms(1) k(1,2)])
    qed
  qed
  have 4: "\<exists>b<8192. unat (?h (slot ((pg(n + 1 := p)) i) b)) = i \<and>
      (\<forall>e<b. ?h (slot ((pg(n + 1 := p)) i) e) \<noteq> 0 \<and> unat (?h (slot ((pg(n + 1 := p)) i) e)) < i)"
    if i: "1 \<le> i" "i \<le> n + 1" for i
  proof (cases "i = n + 1")
    case True
    have "?h (slot p e) \<noteq> 0 \<and> unat (?h (slot p e)) < n + 1" if "e < d" for e
    proof -
      have "slot p e \<noteq> slot p d"
        using slot_inj [of e d p] that n \<open>d \<le> n\<close> by auto
      then show ?thesis using before that old [of "slot p e"] by (simp add: less_Suc_eq_le)
    qed
    then show ?thesis using True v n \<open>d \<le> n\<close> by (intro exI [of _ d]) simp
  next
    case False
    then have "i \<le> n" using i by simp
    then obtain b where b: "b < 8192" "unat (h (slot (pg i) b)) = i"
      and path: "\<forall>e<b. h (slot (pg i) e) \<noteq> 0 \<and> unat (h (slot (pg i) e)) < i"
      using tab_okD(4) [OF assms(1) i(1)] by blast
    have "h (slot (pg i) b) \<noteq> 0" using b(2) i(1) by (metis not_one_le_zero unat_0)
    then have "slot (pg i) b \<noteq> slot p d" using d by auto
    moreover have "slot (pg i) e \<noteq> slot p d" if "e < b" for e using path that d by metis
    ultimately show ?thesis using b path False by (intro exI [of _ b]) simp
  qed
  have 1: "n + 1 \<le> 4096" using n by simp
  show ?thesis unfolding tab_ok_def by (intro conjI allI impI 1 2 3 4) simp_all
qed

text \<open>Removing the newest entries leaves the way to the others intact.\<close>

lemma tab_ok_remove:
  assumes "tab_ok h pg n" and "m \<le> n"
    and h': "\<forall>k<8192. h' k = (if unat (h k) > m then 0 else h k)"
  shows "tab_ok h' pg m"
proof -
  have 4: "\<exists>b<8192. unat (h' (slot (pg i) b)) = i \<and>
      (\<forall>e<b. h' (slot (pg i) e) \<noteq> 0 \<and> unat (h' (slot (pg i) e)) < i)"
    if i: "1 \<le> i" "i \<le> m" for i
  proof -
    obtain b where b: "b < 8192" "unat (h (slot (pg i) b)) = i"
      and path: "\<forall>e<b. h (slot (pg i) e) \<noteq> 0 \<and> unat (h (slot (pg i) e)) < i"
      using tab_okD(4) [OF assms(1) i(1)] i(2) assms(2) by (meson le_trans)
    then show ?thesis using h' i(2) by (intro exI [of _ b]) (auto simp: not_less)
  qed
  have 3: "\<forall>k<8192. \<forall>k'<8192. h' k = h' k' \<and> h' k \<noteq> 0 \<longrightarrow> k = k'"
    using tab_okD(3) [OF assms(1)] h' by (metis (full_types))
  show ?thesis unfolding tab_ok_def using assms(2) tab_okD(1) [OF assms(1)] h' 3 4 by auto
qed

text \<open>
  The search of one table is a fold over the slots before the first empty one; it ends with the
  newest entry that matches.
\<close>

definition find_step :: "(nat \<Rightarrow> u16) \<Rightarrow> (nat \<Rightarrow> u32) \<Rightarrow> u32 \<Rightarrow> u32 \<Rightarrow> u32 \<Rightarrow> u32 \<Rightarrow> nat \<Rightarrow> u32 \<Rightarrow> u32" where
  "find_step h pg iZ iLast iMin p k r =
     (let iFrame = ucast (h k) + iZ
      in if iFrame \<le> iLast \<and> iMin \<le> iFrame \<and> pg (unat (h k)) = p then iFrame else r)"

lemma find_slots_fold:
  assumes "h (slot p d) = 0" and "\<forall>e<d. h (slot p e) \<noteq> 0" and "e \<le> d" and "d - e \<le> c"
  shows "find_slots h pg iZ iLast iMin p (slot p e) c r
    = Some (fold (\<lambda>b. find_step h pg iZ iLast iMin p (slot p b)) [e..<d] r)"
  using assms(3,4)
proof (induction "d - e" arbitrary: e c r)
  case 0
  then show ?case using assms(1) by (simp add: find_slots.simps)
next
  case (Suc m)
  then have "h (slot p e) \<noteq> 0" using assms(2) by simp
  moreover have "find_slots h pg iZ iLast iMin p (slot p (Suc e)) (c - 1) s
    = Some (fold (\<lambda>b. find_step h pg iZ iLast iMin p (slot p b)) [Suc e..<d] s)" for s
    using Suc by (intro Suc.hyps(1)) auto
  moreover have "[e..<d] = e # [Suc e..<d]" using Suc.hyps(2) by (simp add: upt_conv_Cons)
  moreover have "c \<noteq> 0" using Suc.hyps(2) Suc.prems by simp
  ultimately show ?case
    by (subst find_slots.simps) (simp only: walNextHash_slot if_False Let_def find_step_def fold_simps o_apply)
qed

lemma fold_last_match:
  assumes "\<forall>b\<in>set bs. \<not> Q b" and "Q b"
  shows "fold (\<lambda>b r. if Q b then f b else r) (as @ b # bs) r = f b"
proof -
  have "fold (\<lambda>b r. if Q b then f b else r) bs s = s" for s
    using assms(1) by (induction bs arbitrary: s) auto
  then show ?thesis using assms(2) by simp
qed

text \<open>What a search for \<open>p\<close> among the frames \<open>iMin\<close> to \<open>iLast\<close> must give.\<close>

definition newest :: "(nat \<Rightarrow> u32) \<Rightarrow> u32 \<Rightarrow> nat \<Rightarrow> nat \<Rightarrow> nat \<Rightarrow> bool" where
  "newest pg p lo hi r \<longleftrightarrow>
     (if r = 0 then \<forall>i. lo \<le> i \<and> i \<le> hi \<longrightarrow> pg i \<noteq> p
      else lo \<le> r \<and> r \<le> hi \<and> pg r = p \<and> (\<forall>i. r < i \<and> i \<le> hi \<longrightarrow> pg i \<noteq> p))"

lemma tab_ok_order:
  assumes "tab_ok h pg n" and i: "1 \<le> i" "i < j" "j \<le> n" and p: "pg i = p" "pg j = p"
    and a: "a < 8192" "unat (h (slot p a)) = i" and b: "b < 8192" "unat (h (slot p b)) = j"
  shows "a < b"
proof (rule ccontr)
  assume "\<not> a < b"
  obtain d where d: "d < 8192" "unat (h (slot p d)) = i"
    and path: "\<forall>e<d. h (slot p e) \<noteq> 0 \<and> unat (h (slot p e)) < i"
    using tab_okD(4) [OF assms(1), of i] i p by auto
  have "h (slot p d) = h (slot p a)" using d(2) a(2) by (simp only: word_unat_eq_iff)
  moreover have "h (slot p d) \<noteq> 0" using d(2) i(1) by (metis not_one_le_zero unat_0)
  ultimately have "d = a"
    using tab_okD(3) [OF assms(1), of "slot p d" "slot p a"] slot_inj [OF d(1) a(1)] by simp
  moreover have "a \<noteq> b" using a(2) b(2) i(2) by auto
  ultimately have "b < d" using \<open>\<not> a < b\<close> by simp
  then show False using path b(2) i(2) by auto
qed

lemma find_slots_newest:
  assumes ok: "tab_ok h pg n" and len: "unat iZ + n < 2 ^ 32" and iM: "0 < iMin"
    and c: "n \<le> c" and hi: "hi = min (unat iLast) (unat iZ + n)"
  obtains r where "find_slots h pg iZ iLast iMin p (walHash p) c 0 = Some r"
    and "newest (\<lambda>f. if unat iZ < f then pg (f - unat iZ) else p + 1) p (unat iMin) hi (unat r)"
proof -
  obtain d where d: "d \<le> n" "h (slot p d) = 0" and before: "\<forall>e<d. h (slot p e) \<noteq> 0"
    by (rule tab_ok_empty_slot [OF ok])
  let ?Q = "\<lambda>b. ucast (h (slot p b)) + iZ \<le> iLast \<and> iMin \<le> ucast (h (slot p b)) + iZ
                \<and> pg (unat (h (slot p b))) = p"
  let ?f = "\<lambda>b. ucast (h (slot p b)) + iZ :: u32"
  let ?r = "fold (\<lambda>b r. if ?Q b then ?f b else r) [0..<d] 0"
  let ?pg = "\<lambda>f. if unat iZ < f then pg (f - unat iZ) else p + 1"
  have frame: "unat (?f b) = unat iZ + unat (h (slot p b))" if "b < 8192" for b
  proof -
    have "unat (ucast (h (slot p b)) :: u32) = unat (h (slot p b))" by (simp add: unsigned_ucast_eq take_bit_nat_eq_self order.strict_trans [OF unsigned_less])
    moreover have "unat (h (slot p b)) \<le> n" using tab_okD(2) [OF ok] by simp
    ultimately show ?thesis using len by (simp add: unat_plus_if_size word_size)
  qed
  have n: "n \<le> 4096" using tab_okD(1) [OF ok] .
  have at: "\<exists>b<d. unat (h (slot p b)) = i" if i: "1 \<le> i" "i \<le> n" "pg i = p" for i
  proof -
    obtain b where b: "b < 8192" "unat (h (slot p b)) = i"
      and path: "\<forall>e<b. h (slot p e) \<noteq> 0 \<and> unat (h (slot p e)) < i"
      using tab_okD(4) [OF ok, of i] i by auto
    have "h (slot p b) \<noteq> 0" using b(2) i(1) by (metis not_one_le_zero unat_0)
    then have "b \<noteq> d" using d by auto
    moreover have "\<not> d < b" using path d(2) by auto
    ultimately show ?thesis using b by (intro exI [of _ b]) auto
  qed
  have none: "\<forall>i. unat iMin \<le> i \<and> i \<le> hi \<longrightarrow> ?pg i \<noteq> p" if noQ: "\<forall>b<d. \<not> ?Q b"
  proof (intro allI impI)
    fix i assume i: "unat iMin \<le> i \<and> i \<le> hi"
    show "?pg i \<noteq> p"
    proof
      assume p: "?pg i = p"
      then have "unat iZ < i" "pg (i - unat iZ) = p" by (auto split: if_splits)
      moreover have "1 \<le> i - unat iZ" "i - unat iZ \<le> n" using \<open>unat iZ < i\<close> i hi by auto
      then obtain b where "b < d" "unat (h (slot p b)) = i - unat iZ"
        using at \<open>pg (i - unat iZ) = p\<close> by blast
      moreover from this have "unat (?f b) = i" using frame [of b] d n \<open>unat iZ < i\<close> by simp
      moreover have "i \<le> unat iLast" using i hi by simp
      ultimately show False using noQ i by (auto simp: word_le_nat_alt)
    qed
  qed
  have "newest ?pg p (unat iMin) hi (unat ?r)"
  proof (cases "\<exists>b<d. ?Q b")
    case False
    have "fold (\<lambda>b r. if ?Q b then ?f b else r) xs 0 = 0" if "set xs \<subseteq> {..<d}" for xs
      using that False by (induction xs) auto
    from this [of "[0..<d]"] have "?r = 0" by (simp add: atLeast0LessThan)
    moreover have "\<forall>i. unat iMin \<le> i \<and> i \<le> hi \<longrightarrow> ?pg i \<noteq> p" using none False by blast
    ultimately show ?thesis by (simp only: newest_def unat_0 if_True simp_thms)
  next
    case True
    define b where "b = Max {b. b < d \<and> ?Q b}"
    have fin: "finite {b. b < d \<and> ?Q b}" by simp
    have ne: "{b. b < d \<and> ?Q b} \<noteq> {}" using True by blast
    have b: "b < d" "?Q b" using Max_in [OF fin ne] by (auto simp: b_def)
    have after: "\<not> ?Q e" if "b < e" "e < d" for e
    proof
      assume "?Q e"
      then have "e \<le> b" unfolding b_def by (intro Max_ge [OF fin]) (simp add: that(2))
      then show False using that(1) by simp
    qed
    have "[0..<d] = [0..<b] @ b # [Suc b..<d]"
      using b(1) upt_add_eq_append [of 0 b "d - b"] upt_conv_Cons [of b d] by simp
    moreover have "\<forall>e\<in>set [Suc b..<d]. \<not> ?Q e" using after by (simp only: set_upt) simp
    ultimately have r: "?r = ?f b" by (simp only: fold_last_match [where Q = ?Q, OF _ b(2)])
    let ?i = "unat (h (slot p b))"
    have b8: "b < 8192" using b(1) d n by simp
    have f: "unat (?f b) = unat iZ + ?i" using frame [OF b8] .
    have i1: "1 \<le> ?i" using before b(1) by (metis less_one not_less unat_eq_zero)
    have i_n: "?i \<le> n" using tab_okD(2) [OF ok] by simp
    have "pg (j - unat iZ) \<noteq> p" if j: "unat iZ + ?i < j" "j \<le> hi" for j
    proof
      assume pj: "pg (j - unat iZ) = p"
      moreover have j_n: "1 \<le> j - unat iZ" "j - unat iZ \<le> n" using j hi by auto
      ultimately obtain e where e: "e < d" "unat (h (slot p e)) = j - unat iZ" using at by blast
      have "b < e"
        using tab_ok_order [OF ok i1, of "j - unat iZ" p b e] j pj b(2) e b8 d n j_n by simp
      moreover have "?Q e"
      proof -
        have "unat (?f e) = j" using frame [of e] e d n j by simp
        moreover have "unat iMin \<le> j" using b(2) f j by (simp add: word_le_nat_alt)
        moreover have "j \<le> unat iLast" using j hi by simp
        ultimately show ?thesis using j pj e(2) by (simp add: word_le_nat_alt)
      qed
      ultimately show False using after e(1) by blast
    qed
    then show ?thesis using b(2) i1 i_n f hi unfolding newest_def r by (auto simp: word_le_nat_alt)
  qed
  moreover have "find_slots h pg iZ iLast iMin p (walHash p) c 0 = Some ?r"
    using find_slots_fold [OF d(2) before, of 0 c] d(1) c
    by (simp add: find_step_def [abs_def] Let_def)
  ultimately show thesis using that by blast
qed

section \<open>The tables of the index\<close>

definition table_start :: "nat \<Rightarrow> nat" where
  "table_start t = (if t = 0 then 0 else 4062 + (t - 1) * 4096)"

definition table_size :: "nat \<Rightarrow> nat" where
  "table_size t = (if t = 0 then 4062 else 4096)"

definition table_base :: "nat \<Rightarrow> nat" where
  "table_base t = (if t = 0 then 34 else 0)"

definition table_of :: "nat \<Rightarrow> nat" where
  "table_of f = (f + 33) div 4096"

lemma table_of_bounds:
  assumes "1 \<le> f"
  shows "table_start (table_of f) < f" "f \<le> table_start (table_of f) + table_size (table_of f)"
  using assms unfolding table_start_def table_size_def table_of_def by (simp_all; linarith)+

lemma table_start_Suc: "table_start (Suc t) = table_start t + table_size t"
  by (cases t) (simp_all add: table_start_def table_size_def)

lemma table_start_mono: "t \<le> u \<Longrightarrow> table_start t \<le> table_start u"
  by (induction rule: dec_induct) (simp_all add: table_start_Suc)

lemma table_start_unique:
  assumes "table_start t < f" "f \<le> table_start t + table_size t"
  shows "table_of f = t"
proof (cases t)
  case 0
  then show ?thesis using assms by (simp add: table_start_def table_size_def table_of_def)
next
  case (Suc u)
  then have "4062 + u * 4096 < f" "f \<le> 4062 + u * 4096 + 4096"
    using assms by (simp_all add: table_start_def table_size_def)
  then have "(f + 33) div 4096 = Suc u" by (intro div_nat_eqI) simp_all
  then show ?thesis using Suc by (simp add: table_of_def)
qed

lemma table_base_size: "table_base t + table_size t = 4096"
  by (simp add: table_base_def table_size_def)

abbreviation MAX_FRAMES :: nat where "MAX_FRAMES \<equiv> 2 ^ 31"

lemma walFramePage_eq:
  assumes "unat f \<le> MAX_FRAMES"
  shows "walFramePage f = int (table_of (unat f))"
proof -
  have "unat (f + 4096) = unat f + 4096"
    using assms by (simp add: unat_plus_if_size word_size)
  then have "(ucast (f + 4096) :: u64) = of_nat (unat f + 4096)"
    by (metis of_nat_unat)
  then have 1: "(ucast (f + 4096) :: u64) - 4062 - 1 = of_nat (unat f + 33)"
    by simp
  let ?m = "(unat f + 33) div 4096"
  have m: "?m < 2 ^ 31" using assms by simp
  have "unat (of_nat (unat f + 33) :: u64) = unat f + 33"
    using assms by (simp add: unat_of_nat take_bit_nat_eq_self del: of_nat_add)
  then have "unat ((of_nat (unat f + 33) :: u64) div 4096) = ?m" by (simp add: unat_div)
  moreover have "unat (of_nat ?m :: u64) = ?m"
    using m by (simp add: unat_of_nat take_bit_nat_eq_self)
  ultimately have 2: "(of_nat (unat f + 33) :: u64) div 4096 = of_nat ?m"
    by (simp only: word_unat_eq_iff)
  have "sint (of_nat ?m :: u32) = int ?m"
    using m by (simp add: signed_of_nat signed_take_bit_int_eq_self)
  moreover have 3: "(ucast (of_nat ?m :: u64) :: u32) = of_nat ?m"
    using m by (simp add: unsigned_of_nat take_bit_nat_eq_self)
  moreover have 4: "(of_nat HASHTABLE_NPAGE :: u32) = 4096" "(of_nat HASHTABLE_NPAGE :: u64) = 4096"
    "(of_nat HASHTABLE_NPAGE_ONE :: u64) = 4062"
    by (simp_all add: wal_consts)
  ultimately show ?thesis
    unfolding walFramePage_def table_of_def 4 1 2 3 by simp
qed

definition table_loc :: "nat \<Rightarrow> hash_loc" where
  "table_loc t = \<lparr>loc_page = t, loc_base = table_base t, iZero = of_nat (table_start t)\<rparr>"

lemma table_loc_simps [simp]:
  "loc_page (table_loc t) = t" "loc_base (table_loc t) = table_base t"
  "iZero (table_loc t) = of_nat (table_start t)"
  by (simp_all add: table_loc_def)

lemma unat_table_start [simp]:
  "table_start t \<le> MAX_FRAMES \<Longrightarrow> unat (of_nat (table_start t) :: u32) = table_start t"
  by (simp add: unat_of_nat take_bit_nat_eq_self)

lemma walHashGet_eq:
  "walHashGet E W (int t) = (case walIndexPage E W t of (rc, p, W') \<Rightarrow> (rc, table_loc t, W'))"
proof (cases "t = 0")
  case True
  then show ?thesis
    by (simp add: walHashGet_def table_loc_def table_base_def table_start_def wal_consts)
next
  case False
  then obtain u where u: "t = Suc u" by (cases t) auto
  have "(of_int (int t) :: u32) - 1 = of_nat u" using u by simp
  then have "of_nat HASHTABLE_NPAGE_ONE + (of_int (int t) - 1) * of_nat HASHTABLE_NPAGE
    = (of_nat (table_start t) :: u32)"
    using u by (simp add: wal_consts table_start_def)
  then show ?thesis
    using False unfolding walHashGet_def table_loc_def table_base_def by simp
qed

lemma set_page_simps [simp]:
  "ipage (wi (set_page W L f h)) t
    = (if t = loc_page L then \<lparr>aWord = f, aHash = h\<rparr> else ipage (wi W) t)"
  "hdr (set_page W L f h) = hdr W" "apWiData (set_page W L f h) = apWiData W"
  "nWiData (set_page W L f h) = nWiData W" "exclusiveMode (set_page W L f h) = exclusiveMode W"
  "readLock (set_page W L f h) = readLock W" "minFrame (set_page W L f h) = minFrame W"
  "writeLock (set_page W L f h) = writeLock W"
  "hdr0 (wi (set_page W L f h)) = hdr0 (wi W)" "hdr1 (wi (set_page W L f h)) = hdr1 (wi W)"
  "ckptInfo (wi (set_page W L f h)) = ckptInfo (wi W)"
  by (simp_all add: set_page_def)

text \<open>
  The tables of the index of a log whose frames hold the pages \<open>pgs\<close>. Tables behind the last
  frame may hold anything: they are cleared when the log reaches them.
\<close>

definition page_no :: "index_page \<Rightarrow> nat \<Rightarrow> nat \<Rightarrow> u32" where
  "page_no P t i = aWord P (table_base t + i - 1)"

definition in_table :: "nat \<Rightarrow> nat \<Rightarrow> nat" where
  "in_table t len = min (table_size t) (len - table_start t)"

definition table_repr :: "index_page \<Rightarrow> nat \<Rightarrow> u32 list \<Rightarrow> bool" where
  "table_repr P t pgs \<longleftrightarrow>
     tab_ok (aHash P) (page_no P t) (in_table t (length pgs)) \<and>
     (\<forall>i. 1 \<le> i \<and> i \<le> in_table t (length pgs) \<longrightarrow> page_no P t i = pgs ! (table_start t + i - 1)) \<and>
     (\<forall>i. in_table t (length pgs) < i \<and> i \<le> table_size t \<longrightarrow> page_no P t i = 0)"

lemma table_reprD:
  assumes "table_repr P t pgs"
  shows "tab_ok (aHash P) (page_no P t) (in_table t (length pgs))"
    and "1 \<le> i \<Longrightarrow> i \<le> in_table t (length pgs) \<Longrightarrow> page_no P t i = pgs ! (table_start t + i - 1)"
    and "in_table t (length pgs) < i \<Longrightarrow> i \<le> table_size t \<Longrightarrow> page_no P t i = 0"
  using assms unfolding table_repr_def by blast+

lemma table_reprI:
  assumes "in_table t (length pgs) = n" and "tab_ok (aHash P) (page_no P t) n"
    and "\<And>i. 1 \<le> i \<Longrightarrow> i \<le> n \<Longrightarrow> page_no P t i = pgs ! (table_start t + i - 1)"
    and "\<And>i. n < i \<Longrightarrow> i \<le> table_size t \<Longrightarrow> page_no P t i = 0"
  shows "table_repr P t pgs"
  using assms unfolding table_repr_def by blast

definition map_ok :: "Wal \<Rightarrow> bool" where
  "map_ok W \<longleftrightarrow> (\<forall>t. apWiData W t \<longrightarrow> t < nWiData W)"

definition index_repr :: "Wal \<Rightarrow> u32 list \<Rightarrow> bool" where
  "index_repr W pgs \<longleftrightarrow>
     length pgs \<le> MAX_FRAMES \<and> 0 \<notin> set pgs \<and> map_ok W \<and>
     (\<forall>t. table_start t < length pgs \<longrightarrow>
        table_repr (ipage (wi W) t) t pgs \<and>
        (exclusiveMode W = WAL_HEAPMEMORY_MODE \<longrightarrow> apWiData W t))"

lemma index_reprD:
  assumes "index_repr W pgs"
  shows "length pgs \<le> MAX_FRAMES" "0 \<notin> set pgs" "map_ok W"
    and "table_start t < length pgs \<Longrightarrow> table_repr (ipage (wi W) t) t pgs"
    and "table_start t < length pgs \<Longrightarrow> exclusiveMode W = WAL_HEAPMEMORY_MODE \<Longrightarrow> apWiData W t"
  using assms unfolding index_repr_def by blast+

lemma index_repr_Nil: "map_ok W \<Longrightarrow> index_repr W []"
  by (simp add: index_repr_def)

text \<open>Mapping a page changes nothing that is in use.\<close>

lemma walIndexPage_fields:
  assumes "walIndexPage E W i = (rc, p, W')"
  shows "hdr W' = hdr W" "readLock W' = readLock W" "minFrame W' = minFrame W"
    "exclusiveMode W' = exclusiveMode W" "writeLock W' = writeLock W" "szPage W' = szPage W"
    "iReCksum W' = iReCksum W" "nCkpt W' = nCkpt W" "ckptLock W' = ckptLock W"
    "mxWalSize W' = mxWalSize W" "truncateOnCommit W' = truncateOnCommit W"
    "syncHeader W' = syncHeader W" "padToSectorBoundary W' = padToSectorBoundary W"
  using assms
  by (auto simp: walIndexPage_def Let_def split: if_splits prod.splits)

lemma walIndexPage_maps:
  assumes "walIndexPage E W i = (rc, p, W')" and "map_ok W"
  shows "map_ok W'"
    and "exclusiveMode W = WAL_HEAPMEMORY_MODE \<Longrightarrow> apWiData W t \<Longrightarrow> apWiData W' t"
    and "exclusiveMode W = WAL_HEAPMEMORY_MODE \<Longrightarrow> rc = SQLITE_OK \<Longrightarrow> apWiData W' i"
    and "(exclusiveMode W = WAL_HEAPMEMORY_MODE \<Longrightarrow> apWiData W t) \<Longrightarrow> ipage (wi W') t = ipage (wi W) t"
proof -
  have less: "apWiData W t \<Longrightarrow> t < nWiData W" for t using assms(2) by (simp add: map_ok_def)
  show "map_ok W'"
    unfolding map_ok_def
  proof (intro allI impI)
    fix t assume "apWiData W' t"
    then show "t < nWiData W'"
      using assms(1) less [of t] unfolding walIndexPage_def Let_def
      by (auto split: if_splits prod.splits)
  qed
  show "apWiData W' t" if "exclusiveMode W = WAL_HEAPMEMORY_MODE" "apWiData W t"
    using assms(1) that less [of t] unfolding walIndexPage_def Let_def
    by (auto split: if_splits prod.splits)
  show "apWiData W' i" if "exclusiveMode W = WAL_HEAPMEMORY_MODE" "rc = SQLITE_OK"
    using assms(1) that unfolding walIndexPage_def Let_def
    by (auto simp: result_codes split: if_splits prod.splits)
  show "ipage (wi W') t = ipage (wi W) t" if "exclusiveMode W = WAL_HEAPMEMORY_MODE \<Longrightarrow> apWiData W t"
    using assms(1) that less [of t] unfolding walIndexPage_def Let_def
    by (auto simp: zero_page_def Let_def split: if_splits prod.splits)
qed

lemma index_repr_map:
  assumes "index_repr W pgs" and "walIndexPage E W i = (rc, p, W')"
  shows "index_repr W' pgs"
  using assms(1) walIndexPage_maps [OF assms(2)] walIndexPage_fields(4) [OF assms(2)]
  unfolding index_repr_def by (metis (no_types))

section \<open>Removing and appending frames\<close>

lemma table_repr_prefix:
  assumes old: "table_repr P u pgs" and n: "table_start u + table_size u \<le> n"
    and len: "n \<le> length pgs" "n \<le> length pgs'" and same: "take n pgs' = take n pgs"
  shows "table_repr P u pgs'"
proof -
  have full: "in_table u (length pgs) = table_size u" "in_table u (length pgs') = table_size u"
    using n len by (auto simp: in_table_def)
  show ?thesis
  proof (rule table_reprI [OF full(2)])
    fix i assume i: "1 \<le> i" "i \<le> table_size u"
    then have "table_start u + i - 1 < n" using n by simp
    then have "pgs' ! (table_start u + i - 1) = pgs ! (table_start u + i - 1)"
      using same by (metis nth_take)
    then show "page_no P u i = pgs' ! (table_start u + i - 1)"
      using table_reprD(2) [OF old i(1)] i(2) full(1) by simp
  qed (use table_reprD(1) [OF old] full in simp_all)
qed

lemma table_repr_remove:
  assumes repr: "table_repr P t pgs" and m: "table_start t < m" "m \<le> table_start t + table_size t"
    and len: "m \<le> length pgs" and d: "d = m - table_start t"
  shows "table_repr \<lparr>aWord = (\<lambda>j. if table_base t + d \<le> j \<and> j < 4096 then 0 else aWord P j),
                     aHash = (\<lambda>k. if k < 8192 \<and> d < unat (aHash P k) then 0 else aHash P k)\<rparr>
           t (take m pgs)" (is "table_repr ?P t _")
proof (rule table_reprI)
  show n: "in_table t (length (take m pgs)) = d" using m len d by (auto simp: in_table_def)
  have le: "d \<le> in_table t (length pgs)" using m len d by (auto simp: in_table_def)
  have same: "page_no ?P t i = page_no P t i" if "1 \<le> i" "i \<le> d" for i
    using that by (auto simp: page_no_def)
  have "tab_ok (aHash ?P) (page_no P t) d"
    by (rule tab_ok_remove [OF table_reprD(1) [OF repr] le]) simp
  then show "tab_ok (aHash ?P) (page_no ?P t) d"
    by (rule tab_ok_cong) (use same in auto)
  show "page_no ?P t i = take m pgs ! (table_start t + i - 1)" if "1 \<le> i" "i \<le> d" for i
    using same [OF that] table_reprD(2) [OF repr that(1)] le that d m by simp
  show "page_no ?P t i = 0" if "d < i" "i \<le> table_size t" for i
    using that table_base_size [of t] by (auto simp: page_no_def)
qed

lemma sint_small: "unat (x :: u32) < 2 ^ 31 \<Longrightarrow> sint x = int (unat x)"
proof -
  assume "unat x < 2 ^ 31"
  then have "int (unat x) < 2 ^ 31" by (simp only: of_nat_less_iff [symmetric, where 'a = int]) simp
  then have "uint x < 2 ^ 31" by simp
  moreover have "- (2 ^ 31) \<le> uint x" by (rule order_trans [of _ 0]) simp_all
  ultimately have "signed_take_bit 31 (uint x) = uint x" by (intro signed_take_bit_int_eq_self)
  then show ?thesis by (simp add: sint_uint)
qed

text \<open>The tables before the last one of a log of \<open>m\<close> frames are full.\<close>

lemma earlier_table:
  assumes "table_start t < m" "m \<le> table_start t + table_size t" "table_start u < m" "u \<noteq> t"
  shows "table_start u + table_size u \<le> table_start t"
proof -
  have "u < t"
  proof (rule ccontr)
    assume "\<not> u < t"
    then have "table_start (Suc t) \<le> table_start u" using assms(4) by (intro table_start_mono) simp
    then show False using assms(2,3) table_start_Suc [of t] by simp
  qed
  then have "table_start (Suc u) \<le> table_start t" by (intro table_start_mono) simp
  then show ?thesis by (simp add: table_start_Suc)
qed

lemma index_repr_set_page:
  assumes repr: "index_repr W pgs" and t: "table_start t < m" "m \<le> table_start t + table_size t"
    and m: "length pgs' = m" "m \<le> MAX_FRAMES" "0 \<notin> set pgs'"
    and prefix: "table_start t \<le> length pgs" "take (table_start t) pgs' = take (table_start t) pgs"
    and new: "table_repr \<lparr>aWord = f, aHash = h\<rparr> t pgs'"
    and mapped: "exclusiveMode W = WAL_HEAPMEMORY_MODE \<Longrightarrow> apWiData W t"
  shows "index_repr (set_page W (table_loc t) f h) pgs'"
proof -
  have "table_repr (ipage (wi W) u) u pgs'" and "exclusiveMode W = WAL_HEAPMEMORY_MODE \<longrightarrow> apWiData W u"
    if u: "table_start u < m" "u \<noteq> t" for u
  proof -
    have full: "table_start u + table_size u \<le> table_start t" using earlier_table [OF t u] .
    then have less: "table_start u < length pgs"
      using prefix(1) by (auto simp: table_size_def split: if_splits)
    then show "exclusiveMode W = WAL_HEAPMEMORY_MODE \<longrightarrow> apWiData W u"
      using index_reprD(5) [OF repr] by blast
    show "table_repr (ipage (wi W) u) u pgs'"
      using table_repr_prefix [OF index_reprD(4) [OF repr less] full] prefix t(1) m(1) by simp
  qed
  then show ?thesis
    using index_reprD(3) [OF repr] m new mapped
    by (auto simp: index_repr_def map_ok_def)
qed

lemma index_repr_cleanup:
  assumes "index_repr W pgs" and len: "unat (mxFrame (hdr W)) \<le> length pgs"
  shows "index_repr (walCleanupHash E W) (take (unat (mxFrame (hdr W))) pgs)"
proof (cases "mxFrame (hdr W) = 0")
  case True
  then show ?thesis
    using index_repr_Nil index_reprD(3) [OF assms(1)] by (simp add: walCleanupHash_def)
next
  case False
  define m where "m = unat (mxFrame (hdr W))"
  define t where "t = table_of m"
  have m1: "1 \<le> m" using False by (simp add: m_def unat_gt_0 Suc_leI)
  have start: "table_start t < m" "m \<le> table_start t + table_size t"
    using table_of_bounds [OF m1] by (simp_all add: t_def)
  have max: "m \<le> MAX_FRAMES" using len index_reprD(1) [OF assms(1)] by (simp add: m_def)
  obtain rc p W' where map: "walIndexPage E W t = (rc, p, W')" by (cases "walIndexPage E W t")
  have W': "index_repr W' pgs" using index_repr_map [OF assms(1) map] .
  have hdr: "hdr W' = hdr W" using walIndexPage_fields [OF map] by simp
  have "walFramePage (mxFrame (hdr W)) = int t"
    using walFramePage_eq max by (simp add: t_def m_def)
  then have get: "walHashGet E W (walFramePage (mxFrame (hdr W))) = (rc, table_loc t, W')"
    by (simp add: walHashGet_eq map)
  have "unat (mxFrame (hdr W) - of_nat (table_start t)) = m - table_start t"
    using start max by (simp add: unat_sub_if_size m_def)
  then have lim: "sint (mxFrame (hdr W) - of_nat (table_start t)) = int (m - table_start t)"
    using start by (subst sint_small) (auto simp: table_size_def split: if_splits)
  have page: "table_repr (ipage (wi W') t) t pgs"
    using index_reprD(4) [OF W'] start len by (simp add: m_def)
  let ?P = "ipage (wi W') t" and ?d = "m - table_start t"
  have eq: "walCleanupHash E W = set_page W' (table_loc t)
      (\<lambda>j. if table_base t + ?d \<le> j \<and> j < 4096 then 0 else aWord ?P j)
      (\<lambda>k. if k < 8192 \<and> ?d < unat (aHash ?P k) then 0 else aHash ?P k)"
  proof -
    have "int (table_base t) + int ?d \<le> int j \<longleftrightarrow> table_base t + ?d \<le> j" for j by linarith
    moreover have "int ?d < uint (aHash ?P k) \<longleftrightarrow> ?d < unat (aHash ?P k)" for k
      by (metis of_nat_less_iff uint_nat)
    ultimately show ?thesis
      using False unfolding walCleanupHash_def get Let_def prod.case hdr
      by (simp only: table_loc_simps lim hash_at_def wal_consts if_False) simp
  qed
  show ?thesis
    unfolding eq m_def [symmetric]
  proof (rule index_repr_set_page [OF W' start])
    show "length (take m pgs) = m" "m \<le> MAX_FRAMES" "table_start t \<le> length pgs"
      using len max start by (simp_all add: m_def)
    show "0 \<notin> set (take m pgs)" using index_reprD(2) [OF W'] by (meson in_set_takeD)
    show "take (table_start t) (take m pgs) = take (table_start t) pgs" using start by (simp add: min_def)
    show "apWiData W' t" if "exclusiveMode W' = WAL_HEAPMEMORY_MODE"
      using index_reprD(5) [OF W' _ that] start len by (simp add: m_def)
    show "table_repr \<lparr>aWord = \<lambda>j. if table_base t + ?d \<le> j \<and> j < 4096 then 0 else aWord ?P j,
        aHash = \<lambda>k. if k < 8192 \<and> ?d < unat (aHash ?P k) then 0 else aHash ?P k\<rparr> t (take m pgs)"
      using table_repr_remove [OF page start] len by (simp add: m_def)
  qed
qed

lemma index_repr_clear:
  assumes repr: "index_repr W pgs" and t: "table_start t \<le> length pgs"
  shows "index_repr (set_page W (table_loc t) f h) (take (table_start t) pgs)"
proof -
  have "table_repr (ipage (wi W) u) u (take (table_start t) pgs)"
    and "exclusiveMode W = WAL_HEAPMEMORY_MODE \<longrightarrow> apWiData W u" and "u \<noteq> t"
    if u: "table_start u < table_start t" for u
  proof -
    have "u < t" using u table_start_mono [of t u] by (meson leD leI)
    then show "u \<noteq> t" by simp
    from \<open>u < t\<close> have full: "table_start u + table_size u \<le> table_start t"
      using table_start_mono [of "Suc u" t] by (simp add: table_start_Suc)
    have less: "table_start u < length pgs" using u t by simp
    then show "exclusiveMode W = WAL_HEAPMEMORY_MODE \<longrightarrow> apWiData W u"
      using index_reprD(5) [OF repr] by blast
    show "table_repr (ipage (wi W) u) u (take (table_start t) pgs)"
      using table_repr_prefix [OF index_reprD(4) [OF repr less] full t] t by simp
  qed
  then show ?thesis
    using index_reprD(1,2,3) [OF repr] t
    by (auto simp: index_repr_def map_ok_def dest: in_set_takeD)
qed

lemma pgno_at_table: "pgno_at W (table_loc t) i = page_no (ipage (wi W) t) t i"
  by (simp add: pgno_at_def page_no_def)

lemma hash_at_table: "hash_at W (table_loc t) = aHash (ipage (wi W) t)"
  by (simp add: hash_at_def)

text \<open>
  What an append needs before its last step: the frames before it are indexed, and the
  table \<open>t\<close> it goes to holds exactly those of them that fall in it, \<open>n\<close> of them.
\<close>

definition ready_for :: "Wal \<Rightarrow> u32 list \<Rightarrow> nat \<Rightarrow> nat \<Rightarrow> bool" where
  "ready_for W qs t n \<longleftrightarrow>
     index_repr W qs \<and> (exclusiveMode W = WAL_HEAPMEMORY_MODE \<longrightarrow> apWiData W t) \<and>
     tab_ok (aHash (ipage (wi W) t)) (page_no (ipage (wi W) t) t) n \<and>
     (\<forall>i. 1 \<le> i \<and> i \<le> n \<longrightarrow> page_no (ipage (wi W) t) t i = qs ! (table_start t + i - 1)) \<and>
     (\<forall>i. n < i \<and> i \<le> table_size t \<longrightarrow> page_no (ipage (wi W) t) t i = 0)"

lemma ready_forD:
  assumes "ready_for W qs t n"
  shows "index_repr W qs" "exclusiveMode W = WAL_HEAPMEMORY_MODE \<Longrightarrow> apWiData W t"
    "tab_ok (aHash (ipage (wi W) t)) (page_no (ipage (wi W) t) t) n"
    "1 \<le> i \<Longrightarrow> i \<le> n \<Longrightarrow> page_no (ipage (wi W) t) t i = qs ! (table_start t + i - 1)"
    "n < i \<Longrightarrow> i \<le> table_size t \<Longrightarrow> page_no (ipage (wi W) t) t i = 0"
  using assms unfolding ready_for_def by blast+

lemma ready_for_in_use:
  assumes repr: "index_repr W qs" and t: "table_start t < length qs" and n: "n = in_table t (length qs)"
  shows "ready_for W qs t n"
  using assms index_reprD(4,5) [OF repr t] unfolding ready_for_def table_repr_def n by blast

text \<open>The last step of an append: the table holds the frames before \<open>iFrame\<close> and no others.\<close>

lemma append_to_table:
  assumes ready: "ready_for W qs t (idx - 1)" and f: "length qs = f - 1" "1 \<le> f" "f \<le> MAX_FRAMES"
    and t: "t = table_of f" and idx: "idx = f - table_start t" and p: "p \<noteq> 0"
  obtains k where "append_slot (aHash (ipage (wi W) t)) (walHash p) idx = Some k"
    and "index_repr (set_page W (table_loc t)
           ((aWord (ipage (wi W) t))(table_base t + idx - 1 := p))
           ((aHash (ipage (wi W) t))(k := of_nat idx))) (qs @ [p])"
proof -
  note repr = ready_forD(1) [OF ready] and mapped = ready_forD(2) [OF ready]
    and tab = ready_forD(3) [OF ready] and old = ready_forD(4) [OF ready] and zero = ready_forD(5) [OF ready]
  let ?P = "ipage (wi W) t"
  let ?P' = "\<lambda>k. \<lparr>aWord = (aWord ?P)(table_base t + idx - 1 := p), aHash = (aHash ?P)(k := of_nat idx)\<rparr>"
  have start: "table_start t < f" "f \<le> table_start t + table_size t"
    using table_of_bounds [OF f(2)] t by simp_all
  then have i1: "1 \<le> idx" and size: "idx \<le> table_size t" using idx by auto
  then have lt: "idx - 1 < 4096" by (auto simp: table_size_def split: if_splits)
  obtain d where d: "d \<le> idx - 1" "aHash ?P (slot p d) = 0" "\<forall>e<d. aHash ?P (slot p e) \<noteq> 0"
    by (rule tab_ok_empty_slot [OF tab])
  have "append_slot (aHash ?P) (slot p 0) idx = Some (slot p d)"
    using d by (intro append_slot_from) auto
  moreover have "index_repr (set_page W (table_loc t) ((aWord ?P)(table_base t + idx - 1 := p))
      ((aHash ?P)(slot p d := of_nat idx))) (qs @ [p])"
  proof (rule index_repr_set_page [OF repr start])
    show "length (qs @ [p]) = f" "f \<le> MAX_FRAMES" using f by simp_all
    show "0 \<notin> set (qs @ [p])" using index_reprD(2) [OF repr] p by simp
    show "table_start t \<le> length qs" using start(1) f by simp
    then show "take (table_start t) (qs @ [p]) = take (table_start t) qs" by simp
    show "table_repr (?P' (slot p d)) t (qs @ [p])"
    proof (rule table_reprI)
      show "in_table t (length (qs @ [p])) = idx"
        using f idx size start by (simp add: in_table_def)
      have no: "page_no (?P' k) t i = (if i = idx then p else page_no ?P t i)" if "1 \<le> i" for i k
        using that i1 by (auto simp: page_no_def)
      have "tab_ok ((aHash ?P)(slot p d := of_nat (idx - 1 + 1))) ((page_no ?P t)(idx - 1 + 1 := p)) (idx - 1 + 1)"
        by (rule tab_ok_insert [OF tab lt d(2,3,1)])
      then have "tab_ok (aHash (?P' (slot p d))) ((page_no ?P t)(idx := p)) idx" using i1 by simp
      then show "tab_ok (aHash (?P' (slot p d))) (page_no (?P' (slot p d)) t) idx"
        by (rule tab_ok_cong) (use no in auto)
      show "page_no (?P' (slot p d)) t i = (qs @ [p]) ! (table_start t + i - 1)" if "1 \<le> i" "i \<le> idx" for i
        using no [OF that(1)] old [OF that(1)] that idx f start by (auto simp: nth_append)
      show "page_no (?P' (slot p d)) t i = 0" if "idx < i" "i \<le> table_size t" for i
        using no [of i] zero [of i] that by simp
    qed
  qed (use mapped in simp)
  ultimately show thesis using that by simp
qed

lemma walCleanupHash_fields:
  "hdr (walCleanupHash E W) = hdr W" "readLock (walCleanupHash E W) = readLock W"
  "minFrame (walCleanupHash E W) = minFrame W"
  "exclusiveMode (walCleanupHash E W) = exclusiveMode W"
  using walIndexPage_fields [of E W]
  by (auto simp: walCleanupHash_def walHashGet_def Let_def split: prod.splits)

lemma append_reached:
  assumes repr: "index_repr W pgs" and f: "1 \<le> f" "f \<le> length pgs + 1"
    and t: "t = table_of f" and idx: "idx = f - table_start t" "idx \<noteq> 1"
    and zero: "page_no (ipage (wi W) t) t idx = 0"
  shows "f = length pgs + 1"
proof (rule ccontr)
  assume "f \<noteq> length pgs + 1"
  then have "f \<le> length pgs" using f by simp
  have start: "table_start t < f" "f \<le> table_start t + table_size t"
    using table_of_bounds [OF f(1)] t by simp_all
  have "page_no (ipage (wi W) t) t idx = pgs ! (table_start t + idx - 1)"
    using start idx \<open>f \<le> length pgs\<close>
    by (intro table_reprD(2) [OF index_reprD(4) [OF repr]]) (auto simp: in_table_def)
  moreover have "pgs ! (table_start t + idx - 1) \<in> set pgs"
    using start idx \<open>f \<le> length pgs\<close> by simp
  ultimately show False using zero index_reprD(2) [OF repr] by simp
qed

text \<open>The first frame of a table clears it, whatever it holds.\<close>

lemma ready_for_first:
  assumes V: "index_repr V pgs" and len: "table_start t \<le> length pgs"
    and mapped: "exclusiveMode V = WAL_HEAPMEMORY_MODE \<Longrightarrow> apWiData V t"
    and h: "\<forall>k<8192. h k = 0" and f: "\<forall>j. table_base t \<le> j \<and> j < 4096 \<longrightarrow> f j = 0"
  shows "ready_for (set_page V (table_loc t) f h) (take (table_start t) pgs) t 0"
proof -
  have "page_no \<lparr>aWord = f, aHash = h\<rparr> t i = 0" if "1 \<le> i" "i \<le> table_size t" for i
  proof -
    have "table_base t \<le> table_base t + i - 1 \<and> table_base t + i - 1 < 4096"
      using that table_base_size [of t] by linarith
    then show ?thesis using f unfolding page_no_def by simp
  qed
  then show ?thesis
    using index_repr_clear [OF V len] mapped tab_ok_empty [OF h]
    unfolding ready_for_def by (simp add: Suc_le_eq)
qed

text \<open>A further frame removes what a writer that did not finish left behind.\<close>

lemma ready_for_further:
  assumes V: "index_repr V pgs" and f: "1 \<le> f" "f \<le> length pgs + 1"
    and t: "t = table_of f" and idx: "idx = f - table_start t" "idx \<noteq> 1"
    and after: "f = length pgs + 1 \<or> f = unat (mxFrame (hdr V)) + 1"
    and W: "W = (if page_no (ipage (wi V) t) t idx \<noteq> 0 then walCleanupHash E V else V)"
  shows "ready_for W (take (f - 1) pgs) t (idx - 1)"
proof -
  have start: "table_start t < f" "f \<le> table_start t + table_size t"
    using table_of_bounds [OF f(1)] by (simp_all add: t)
  have "index_repr W (take (f - 1) pgs)"
  proof (cases "page_no (ipage (wi V) t) t idx = 0")
    case True
    then have "f = length pgs + 1" using append_reached [OF V f t idx] by simp
    then show ?thesis using V True by (simp add: W)
  next
    case nz: False
    have "f \<noteq> length pgs + 1"
    proof
      assume len: "f = length pgs + 1"
      have "page_no (ipage (wi V) t) t idx = 0"
        using len idx(2) start
        by (intro table_reprD(3) [OF index_reprD(4) [OF V]]) (auto simp: in_table_def idx(1))
      then show False using nz by simp
    qed
    then have "unat (mxFrame (hdr V)) = f - 1" "f - 1 \<le> length pgs" using after f by auto
    then show ?thesis using index_repr_cleanup [OF V, of E] nz by (simp add: W)
  qed
  moreover have "table_start t < length (take (f - 1) pgs)" "idx - 1 = in_table t (length (take (f - 1) pgs))"
    using start idx f by (auto simp: in_table_def)
  ultimately show ?thesis by (rule ready_for_in_use)
qed

lemma npage: "HASHTABLE_NPAGE = 4096" "HASHTABLE_NSLOT = 8192"
  by (simp_all add: wal_consts)

lemma walIndexAppend_repr:
  assumes repr: "index_repr W pgs" and f: "1 \<le> unat iFrame" "unat iFrame \<le> length pgs + 1"
    and max: "unat iFrame \<le> MAX_FRAMES" and p: "iPage \<noteq> 0"
    and after: "unat iFrame = length pgs + 1 \<or> unat iFrame = unat (mxFrame (hdr W)) + 1"
    and append: "walIndexAppend E W iFrame iPage = (rc, W')"
    and page: "walIndexPage E W (table_of (unat iFrame)) = (rc', q, V)"
  shows "rc = rc'"
    and "index_repr W' (if rc = SQLITE_OK then take (unat iFrame - 1) pgs @ [iPage] else pgs)"
    and "hdr W' = hdr W" and "exclusiveMode W' = exclusiveMode W"
    and "readLock W' = readLock W" and "minFrame W' = minFrame W"
proof -
  define f where "f = unat iFrame"
  define t where "t = table_of f"
  define idx where "idx = f - table_start t"
  define qs where "qs = take (f - 1) pgs"
  have start: "table_start t < f" "f \<le> table_start t + table_size t"
    using table_of_bounds [OF f(1)] by (simp_all add: t_def f_def)
  have qs: "length qs = f - 1" using f by (simp add: qs_def f_def)
  have V: "index_repr V pgs" using index_repr_map [OF repr page] .
  note fields = walIndexPage_fields [OF page]
  have "walHashGet E W (walFramePage iFrame) = (rc', table_loc t, V)"
    using walFramePage_eq [OF max] page by (simp add: walHashGet_eq t_def f_def)
  moreover have "unat (iFrame - of_nat (table_start t)) = idx"
    using start max by (simp add: unat_sub_if_size idx_def f_def)
  ultimately have eq: "walIndexAppend E W iFrame iPage =
    (if rc' \<noteq> SQLITE_OK then (rc', V)
     else
       let W1 = (if idx = 1
                 then set_page V (table_loc t)
                        (\<lambda>j. if table_base t \<le> j \<and> j < 4096 then 0 else aWord (ipage (wi V) t) j)
                        (\<lambda>i. if i < 8192 then 0 else aHash (ipage (wi V) t) i)
                 else V);
           W2 = (if page_no (ipage (wi W1) t) t idx \<noteq> 0 then walCleanupHash E W1 else W1)
       in case append_slot (aHash (ipage (wi W2) t)) (walHash iPage) idx of
            None \<Rightarrow> (SQLITE_CORRUPT, W2)
          | Some iKey \<Rightarrow>
              (SQLITE_OK,
               set_page W2 (table_loc t)
                 ((aWord (ipage (wi W2) t))(table_base t + idx - 1 := iPage))
                 ((aHash (ipage (wi W2) t))(iKey := of_nat idx))))"
    unfolding walIndexAppend_def
    by (simp only: table_loc_simps pgno_at_table hash_at_table npage Let_def prod.case)
  have "rc = rc' \<and> index_repr W' (if rc = SQLITE_OK then qs @ [iPage] else pgs) \<and>
      hdr W' = hdr W \<and> exclusiveMode W' = exclusiveMode W \<and>
      readLock W' = readLock W \<and> minFrame W' = minFrame W"
  proof (cases "rc' = SQLITE_OK")
    case False
    then show ?thesis using append fields eq V by simp
  next
    case True
    have mapped: "apWiData V t" if "exclusiveMode W = WAL_HEAPMEMORY_MODE"
      using walIndexPage_maps(3) [OF page index_reprD(3) [OF repr] that True]
      by (simp add: t_def f_def)
    define W1 where "W1 = (if idx = 1
                 then set_page V (table_loc t)
                        (\<lambda>j. if table_base t \<le> j \<and> j < 4096 then 0 else aWord (ipage (wi V) t) j)
                        (\<lambda>i. if i < 8192 then 0 else aHash (ipage (wi V) t) i)
                 else V)"
    define W2 where "W2 = (if page_no (ipage (wi W1) t) t idx \<noteq> 0 then walCleanupHash E W1 else W1)"
    let ?P = "ipage (wi W2) t"
    have W2: "hdr W2 = hdr V" "exclusiveMode W2 = exclusiveMode V" "readLock W2 = readLock V" "minFrame W2 = minFrame V"
      by (simp_all add: W2_def W1_def walCleanupHash_fields)
    have "ready_for W2 qs t (idx - 1)"
    proof (cases "idx = 1")
      case True
      then have "table_start t = f - 1" "table_start t \<le> length pgs"
        using start f by (auto simp: idx_def f_def)
      then have "ready_for W1 qs t (idx - 1)"
        using ready_for_first [OF V, of t] mapped fields True by (simp add: W1_def qs_def)
      moreover from this have "page_no (ipage (wi W1) t) t idx = 0"
        using start True by (intro ready_forD(5)) (auto simp: idx_def)
      ultimately show ?thesis by (simp add: W2_def)
    next
      case False
      then have "W1 = V" by (simp add: W1_def)
      moreover have "f = length pgs + 1 \<or> f = unat (mxFrame (hdr V)) + 1"
        using after fields by (simp add: f_def)
      ultimately show ?thesis
        unfolding qs_def
        by (intro ready_for_further [OF V f [folded f_def] t_def idx_def False]) (simp_all only: W2_def)
    qed
    from append_to_table [OF this qs f(1) [folded f_def] max [folded f_def] t_def idx_def p]
    obtain k where k: "append_slot (aHash ?P) (walHash iPage) idx = Some k"
      and final: "index_repr (set_page W2 (table_loc t) ((aWord ?P)(table_base t + idx - 1 := iPage))
           ((aHash ?P)(k := of_nat idx))) (qs @ [iPage])" .
    have "walIndexAppend E W iFrame iPage = (SQLITE_OK, set_page W2 (table_loc t)
        ((aWord ?P)(table_base t + idx - 1 := iPage)) ((aHash ?P)(k := of_nat idx)))"
      unfolding eq Let_def W1_def [symmetric] W2_def [symmetric] k using True by simp
    then show ?thesis using append True final W2 fields by simp
  qed
  then show "rc = rc'"
    and "index_repr W' (if rc = SQLITE_OK then take (unat iFrame - 1) pgs @ [iPage] else pgs)"
    and "hdr W' = hdr W" and "exclusiveMode W' = exclusiveMode W"
    and "readLock W' = readLock W" and "minFrame W' = minFrame W"
    unfolding qs_def f_def by blast+
qed

end
