(* ===== verification/WalSearch.thy ===== *)
theory WalSearch
  imports WalIndex
begin

text \<open>
  What a connection finds in the index of the write-ahead log: the newest frame of a page among
  the frames of its snapshot, however many frames were appended after the snapshot was taken.
\<close>

section \<open>What an operation on the index leaves alone\<close>

text \<open>Everything but the shared memory and its mapping.\<close>

definition index_only :: "Wal \<Rightarrow> Wal \<Rightarrow> bool" where
  "index_only W W' \<longleftrightarrow>
     W' = W\<lparr>wi := wi W', nWiData := nWiData W', apWiData := apWiData W', readOnly := readOnly W'\<rparr>"

lemma index_only_refl [simp]: "index_only W W"
  by (simp add: index_only_def)

lemma index_only_fields:
  assumes "index_only W W'"
  shows "hdr W' = hdr W" "szPage W' = szPage W" "iReCksum W' = iReCksum W" "nCkpt W' = nCkpt W"
    "readLock W' = readLock W" "minFrame W' = minFrame W" "exclusiveMode W' = exclusiveMode W"
    "writeLock W' = writeLock W" "ckptLock W' = ckptLock W" "mxWalSize W' = mxWalSize W"
    "truncateOnCommit W' = truncateOnCommit W" "syncHeader W' = syncHeader W"
    "padToSectorBoundary W' = padToSectorBoundary W" "iCallback W' = iCallback W"
proof -
  obtain x n a r where W': "W' = W\<lparr>wi := x, nWiData := n, apWiData := a, readOnly := r\<rparr>"
    using assms unfolding index_only_def by blast
  show "hdr W' = hdr W" "szPage W' = szPage W" "iReCksum W' = iReCksum W" "nCkpt W' = nCkpt W"
    "readLock W' = readLock W" "minFrame W' = minFrame W" "exclusiveMode W' = exclusiveMode W"
    "writeLock W' = writeLock W" "ckptLock W' = ckptLock W" "mxWalSize W' = mxWalSize W"
    "truncateOnCommit W' = truncateOnCommit W" "syncHeader W' = syncHeader W"
    "padToSectorBoundary W' = padToSectorBoundary W" "iCallback W' = iCallback W"
    unfolding W' by simp_all
qed

lemma index_only_trans: "index_only U V \<Longrightarrow> index_only V W \<Longrightarrow> index_only U W"
  using index_only_fields [of U V] index_only_fields [of V W] unfolding index_only_def
  by (cases U; cases V; cases W) simp

lemma index_only_page: "walIndexPage E W i = (rc, p, W') \<Longrightarrow> index_only W W'"
  unfolding index_only_def by (auto simp: walIndexPage_def Let_def split: if_splits prod.splits)

lemma index_only_set_page [simp]: "index_only W (set_page W L f h)"
  by (simp add: index_only_def set_page_def)

lemma index_only_get: "walHashGet E W i = (rc, L, W') \<Longrightarrow> index_only W W'"
  by (auto simp: walHashGet_def split: prod.splits intro: index_only_page)

lemma index_only_cleanup [simp]: "index_only W (walCleanupHash E W)"
  by (auto simp: walCleanupHash_def Let_def split: prod.splits
      intro: index_only_trans [OF index_only_get index_only_set_page])

lemma index_only_then:
  "index_only W V \<Longrightarrow> index_only W (set_page V L f h)"
  "index_only W V \<Longrightarrow> index_only W (walCleanupHash E V)"
  by (auto intro: index_only_trans)

lemma index_only_append:
  assumes "walIndexAppend E W iFrame iPage = (rc, W')"
  shows "index_only W W'"
proof -
  obtain rc1 L V where get: "walHashGet E W (walFramePage iFrame) = (rc1, L, V)" by (metis prod_cases3)
  show ?thesis
    using assms get index_only_get [OF get]
    by (auto simp: walIndexAppend_def Let_def split: if_splits option.splits intro: index_only_then)
qed

section \<open>The search over the tables\<close>

definition page_at :: "u32 list \<Rightarrow> nat \<Rightarrow> u32" where
  "page_at pgs f = pgs ! (f - 1)"

lemma newest_cong: "(\<And>f. f \<le> hi \<Longrightarrow> pg f = pg' f) \<Longrightarrow> newest pg p lo hi r = newest pg' p lo hi r"
  unfolding newest_def by (cases "r = 0") auto

lemma find_one_table:
  assumes repr: "index_repr W pgs" and t: "table_start t < unat iLast" and last: "unat iLast \<le> length pgs"
    and iM: "0 < iMin"
  obtains r where "find_slots (hash_at W (table_loc t)) (pgno_at W (table_loc t)) (of_nat (table_start t))
      iLast iMin p (walHash p) HASHTABLE_NSLOT 0 = Some r"
    and "newest (\<lambda>f. if table_start t < f then page_at pgs f else p + 1) p (unat iMin)
           (min (unat iLast) (table_start t + table_size t)) (unat r)"
proof -
  let ?n = "in_table t (length pgs)" and ?P = "ipage (wi W) t"
  let ?hi = "min (unat iLast) (table_start t + table_size t)"
  have "table_start t < length pgs" using t last by simp
  then have tab: "table_repr ?P t pgs" by (rule index_reprD(4) [OF repr])
  have max: "length pgs \<le> MAX_FRAMES" using index_reprD(1) [OF repr] .
  then have start: "unat (of_nat (table_start t) :: u32) = table_start t" using t last by simp
  have n: "?n \<le> HASHTABLE_NSLOT" "table_start t + ?n < 2 ^ 32"
    using max \<open>table_start t < length pgs\<close> by (auto simp: in_table_def table_size_def npage)
  have hi: "?hi = min (unat iLast) (table_start t + ?n)"
    using t last by (auto simp: in_table_def)
  obtain r where r: "find_slots (aHash ?P) (page_no ?P t) (of_nat (table_start t)) iLast iMin p
        (walHash p) HASHTABLE_NSLOT 0 = Some r"
    and new: "newest (\<lambda>f. if table_start t < f then page_no ?P t (f - table_start t) else p + 1) p
        (unat iMin) ?hi (unat r)"
    by (rule find_slots_newest [where iZ = "of_nat (table_start t)", unfolded start,
          OF table_reprD(1) [OF tab] n(2) iM n(1) hi])
  have "page_no ?P t (f - table_start t) = page_at pgs f" if "table_start t < f" "f \<le> ?hi" for f
  proof -
    have "1 \<le> f - table_start t" "f - table_start t \<le> ?n" using that hi by auto
    then show ?thesis using table_reprD(2) [OF tab, of "f - table_start t"] that by (simp add: page_at_def)
  qed
  then have "newest (\<lambda>f. if table_start t < f then page_at pgs f else p + 1) p (unat iMin) ?hi (unat r)"
    using new newest_cong [of ?hi "\<lambda>f. if table_start t < f then page_no ?P t (f - table_start t) else p + 1"
        "\<lambda>f. if table_start t < f then page_at pgs f else p + 1"] by simp
  moreover have "pgno_at W (table_loc t) = page_no ?P t" by (rule ext) (rule pgno_at_table)
  ultimately show thesis using that r by (simp add: hash_at_table)
qed

text \<open>The outer loop goes from the table of the last frame down to that of the first one.\<close>

lemma find_tables_newest:
  assumes "index_repr W pgs" and last: "unat iLast \<le> length pgs" and iM: "0 < iMin"
    and "minFrame W = iMin"
    and "u = table_of (unat iMin)" and "u \<le> t" and "table_start t < unat iLast"
    and "\<forall>f. table_start t + table_size t < f \<and> unat iMin \<le> f \<and> f \<le> unat iLast \<longrightarrow> page_at pgs f \<noteq> p"
    and "find_tables E W p iLast (int u) (int t) 0 = (SQLITE_OK, r, W')"
  shows "newest (page_at pgs) p (unat iMin) (unat iLast) (unat r)"
  using assms(1,4,6-)
proof (induction t arbitrary: W rule: less_induct)
  case (less t)
  obtain rc q V where page: "walIndexPage E W t = (rc, q, V)" by (cases "walIndexPage E W t")
  have V: "index_repr V pgs" using index_repr_map [OF less.prems(1) page] .
  have min: "minFrame V = iMin" using less.prems(2) walIndexPage_fields [OF page] by simp
  let ?hi = "min (unat iLast) (table_start t + table_size t)"
  obtain s where s: "find_slots (hash_at V (table_loc t)) (pgno_at V (table_loc t)) (of_nat (table_start t))
      iLast iMin p (walHash p) HASHTABLE_NSLOT 0 = Some s"
    and new: "newest (\<lambda>f. if table_start t < f then page_at pgs f else p + 1) p (unat iMin) ?hi (unat s)"
    by (rule find_one_table [OF V less.prems(4) last iM])
  have rec: "find_tables E V p iLast (int u) (int t - 1) s = (SQLITE_OK, r, W')"
    using less.prems(6) less.prems(3) page s min
    by (subst (asm) find_tables.simps) (auto simp: walHashGet_eq split: if_splits)
  show ?case
  proof (cases "s = 0")
    case False
    then have "r = s" using rec by (subst (asm) find_tables.simps) auto
    moreover have "unat s \<noteq> 0" using False by (simp add: unat_eq_zero)
    ultimately show ?thesis
      using new less.prems(5) unfolding newest_def by (auto split: if_splits) (meson dual_order.trans less_imp_le_nat not_le)
  next
    case True
    have none: "page_at pgs f \<noteq> p" if "table_start t < f" "unat iMin \<le> f" "f \<le> unat iLast" for f
    proof (cases "f \<le> table_start t + table_size t")
      case le: True
      then show ?thesis using new True that unfolding newest_def by (auto dest: spec [of _ f])
    next
      case False
      then show ?thesis using less.prems(5) that by simp
    qed
    show ?thesis
    proof (cases "t = u")
      case True
      then have "r = 0" using rec \<open>s = 0\<close> by (subst (asm) find_tables.simps) auto
      moreover have "table_start t < unat iMin"
        using table_of_bounds(1) [of "unat iMin"] iM assms(5) True by (simp add: unat_gt_0 Suc_leI)
      ultimately show ?thesis using none by (auto simp: newest_def)
    next
      case False
      then obtain v where v: "t = Suc v" "u \<le> v" using less.prems(3) by (cases t) auto
      then have "table_start v + table_size v = table_start t" by (simp add: table_start_Suc)
      moreover from this have "table_start v < unat iLast" using less.prems(4) by simp
      moreover have "find_tables E V p iLast (int u) (int v) 0 = (SQLITE_OK, r, W')"
        using rec v(1) True by simp
      ultimately show ?thesis using less.IH [of v V] v V min none by simp
    qed
  qed
qed

text \<open>When every page can be mapped, no search fails.\<close>

definition env_ok :: "wal_env \<Rightarrow> bool" where
  "env_ok E \<longleftrightarrow> (\<forall>i w. grow E i \<and> page_alloc E i \<and> fst (shm_map E i w) \<in> {SQLITE_OK, SQLITE_READONLY})"

lemma walIndexPage_ok: "env_ok E \<Longrightarrow> walIndexPage E W i = (rc, q, W') \<Longrightarrow> rc = SQLITE_OK"
  by (auto simp: walIndexPage_def env_ok_def Let_def split: if_splits prod.splits)
    (metis fst_conv)+

lemma find_tables_ok:
  assumes "index_repr W pgs" and last: "unat iLast \<le> length pgs" and iM: "0 < iMin" and E: "env_ok E"
    and "minFrame W = iMin" and "table_start t < unat iLast"
  shows "fst (find_tables E W p iLast (int u) (int t) 0) = SQLITE_OK"
  using assms(1,5,6)
proof (induction t arbitrary: W)
  case prem: (0 W)
  obtain q V where page: "walIndexPage E W 0 = (SQLITE_OK, q, V)"
    using walIndexPage_ok [OF E] by (metis prod_cases3)
  obtain s where s: "find_slots (hash_at V (table_loc 0)) (pgno_at V (table_loc 0)) (of_nat (table_start 0))
      iLast iMin p (walHash p) HASHTABLE_NSLOT 0 = Some s"
    by (rule find_one_table [OF index_repr_map [OF prem(1) page] prem(3) last iM])
  have stop: "fst (find_tables E V p iLast 0 (- 1) s) = SQLITE_OK"
    by (subst find_tables.simps) simp
  have "minFrame V = iMin" using prem(2) walIndexPage_fields [OF page] by simp
  then show ?case
    using page s stop walHashGet_eq [of E W 0]
    by (subst find_tables.simps) simp
next
  case (Suc t W)
  obtain q V where page: "walIndexPage E W (Suc t) = (SQLITE_OK, q, V)"
    using walIndexPage_ok [OF E] by (metis prod_cases3)
  have V: "index_repr V pgs" using index_repr_map [OF Suc.prems(1) page] .
  have min: "minFrame V = iMin" using Suc.prems(2) walIndexPage_fields [OF page] by simp
  obtain s where s: "find_slots (hash_at V (table_loc (Suc t))) (pgno_at V (table_loc (Suc t)))
      (of_nat (table_start (Suc t))) iLast iMin p (walHash p) HASHTABLE_NSLOT 0 = Some s"
    by (rule find_one_table [OF V Suc.prems(3) last iM])
  have "fst (find_tables E V p iLast (int u) (int t) s) = SQLITE_OK"
  proof (cases "s = 0")
    case True
    have "table_start t < unat iLast" using Suc.prems(3) by (simp add: table_start_Suc)
    then show ?thesis using Suc.IH [OF V min] True by simp
  next
    case False
    then show ?thesis by (subst find_tables.simps) simp
  qed
  then show ?case
    using page s min walHashGet_eq [of E W "Suc t"]
    by (subst find_tables.simps) simp
qed

lemma find_tables_fields:
  assumes "find_tables E W p iLast u i s = (rc, r, W')"
  shows "index_only W W' \<and> (\<forall>pgs. index_repr W pgs \<longrightarrow> index_repr W' pgs)"
  using assms
proof (induction E W p iLast u i s rule: find_tables.induct)
  case (1 E W p iLast u i s)
  show ?case
  proof (cases "u \<le> i \<and> s = 0")
    case True
    obtain rc0 q V where page: "walIndexPage E W (nat i) = (rc0, q, V)"
      by (cases "walIndexPage E W (nat i)")
    then obtain L where get: "walHashGet E W i = (rc0, L, V)" by (simp add: walHashGet_def)
    have V: "\<forall>pgs. index_repr W pgs \<longrightarrow> index_repr V pgs" using index_repr_map page by blast
    note fields = index_only_page [OF page]
    show ?thesis
    proof (cases "\<exists>s'. rc0 = SQLITE_OK \<and> find_slots (hash_at V L) (pgno_at V L) (iZero L) iLast (minFrame V) p
                       (walHash p) HASHTABLE_NSLOT s = Some s'")
      case False
      then have "W' = V"
        using "1.prems" True get
        by (subst (asm) find_tables.simps) (auto split: if_splits option.splits)
      then show ?thesis using fields V by simp
    next
      case True': True
      then obtain s' where s': "rc0 = SQLITE_OK" "find_slots (hash_at V L) (pgno_at V L) (iZero L) iLast
          (minFrame V) p (walHash p) HASHTABLE_NSLOT s = Some s'" by blast
      then have "find_tables E V p iLast u (i - 1) s' = (rc, r, W')"
        using "1.prems" True get by (subst (asm) find_tables.simps) simp
      then show ?thesis
        using "1.IH" [OF True get [symmetric] refl] s' index_only_trans [OF fields] V by simp
    qed
  next
    case False
    then show ?thesis using "1.prems" by (subst (asm) find_tables.simps) auto
  qed
qed

lemma FindFrame_newest:
  assumes repr: "index_repr W pgs" and last: "unat (mxFrame (hdr W)) \<le> length pgs"
    and iM: "0 < minFrame W" "unat (minFrame W) \<le> MAX_FRAMES" and lock: "readLock W \<noteq> 0"
    and find: "sqlite3WalFindFrame E W p = (rc, r, W')"
  shows "rc = SQLITE_OK \<Longrightarrow>
      newest (page_at pgs) p (unat (minFrame W)) (unat (mxFrame (hdr W))) (unat r)"
    and "env_ok E \<Longrightarrow> rc = SQLITE_OK"
    and "index_repr W' pgs" "index_only W W'"
proof -
  let ?u = "table_of (unat (minFrame W))" and ?last = "unat (mxFrame (hdr W))"
  let ?t = "table_of ?last"
  have max: "?last \<le> MAX_FRAMES" using last index_reprD(1) [OF repr] by simp
  have nohit: "newest (page_at pgs) p (unat (minFrame W)) ?last 0" if "?last < unat (minFrame W)"
    using that by (auto simp: newest_def)
  have one: "1 \<le> unat (minFrame W)" using iM by (simp add: word_less_nat_alt Suc_le_eq)
  consider (empty) "mxFrame (hdr W) = 0" | (search) "mxFrame (hdr W) \<noteq> 0"
    "find_tables E W p (mxFrame (hdr W)) (int ?u) (int ?t) 0 = (rc, r, W')" "table_start ?t < ?last"
    using find lock walFramePage_eq [OF iM(2)] walFramePage_eq [OF max] table_of_bounds(1) [of ?last]
    by (auto simp: sqlite3WalFindFrame_def unat_gt_0 Suc_le_eq Let_def split: if_splits)
  then have "(rc = SQLITE_OK \<longrightarrow> newest (page_at pgs) p (unat (minFrame W)) ?last (unat r))
    \<and> (env_ok E \<longrightarrow> rc = SQLITE_OK) \<and> index_repr W' pgs \<and> index_only W W'"
  proof cases
    case empty
    then show ?thesis
      using find repr one by (auto simp: sqlite3WalFindFrame_def newest_def Let_def)
  next
    case search
    have "newest (page_at pgs) p (unat (minFrame W)) ?last (unat r)" if rc: "rc = SQLITE_OK"
    proof (cases "?u \<le> ?t")
      case True
      have "\<forall>f. table_start ?t + table_size ?t < f \<and> unat (minFrame W) \<le> f \<and> f \<le> ?last \<longrightarrow> page_at pgs f \<noteq> p"
        using table_of_bounds(2) [of ?last] search(3) by auto
      then show ?thesis
        using find_tables_newest [OF repr last iM(1) refl refl True search(3)] search(2) rc by simp
    next
      case False
      have "?last < unat (minFrame W)"
      proof (rule ccontr)
        assume "\<not> ?last < unat (minFrame W)"
        then have "?u \<le> ?t" unfolding table_of_def by (intro div_le_mono) simp
        then show False using False by simp
      qed
      moreover have "r = 0" using search(2) False by (subst (asm) find_tables.simps) auto
      ultimately show ?thesis using nohit by simp
    qed
    moreover have "rc = SQLITE_OK" if "env_ok E"
      using find_tables_ok [OF repr last iM(1) that refl search(3), of p ?u] search(2) by simp
    ultimately show ?thesis using find_tables_fields [OF search(2)] repr by blast
  qed
  then show "rc = SQLITE_OK \<Longrightarrow> newest (page_at pgs) p (unat (minFrame W)) ?last (unat r)"
    and "env_ok E \<Longrightarrow> rc = SQLITE_OK"
    and "index_repr W' pgs" "index_only W W'"
    by blast+
qed

section \<open>Taking frames back\<close>

text \<open>
  The callback \<open>xUndo\<close> works on a state of its caller. The frames it is called for are the
  list \<open>fs\<close>; a result other than \<open>SQLITE_OK\<close> ends the loop.
\<close>

fun undo_frames :: "(u32 \<Rightarrow> 'c \<Rightarrow> nat \<times> 'c) \<Rightarrow> Wal \<Rightarrow> nat list \<Rightarrow> 'c \<Rightarrow> nat \<times> 'c" where
  "undo_frames xUndo W [] c = (SQLITE_OK, c)"
| "undo_frames xUndo W (f # fs) c =
     (let (rc, c') = xUndo (walFramePgno W (of_nat f)) c
      in if rc = SQLITE_OK then undo_frames xUndo W fs c' else (rc, c'))"

definition sqlite3WalUndo :: "wal_env \<Rightarrow> (u32 \<Rightarrow> 'c \<Rightarrow> nat \<times> 'c) \<Rightarrow> Wal \<Rightarrow> 'c \<Rightarrow> nat \<times> Wal \<times> 'c" where
  "sqlite3WalUndo E xUndo W c =
     (if writeLock W then
        let iMax = mxFrame (hdr W);
            W1 = W\<lparr>hdr := hdr0 (wi W)\<rparr>;
            (rc, c') = undo_frames xUndo W1 [unat (mxFrame (hdr W1)) + 1 ..< unat iMax + 1] c
        in (rc, if iMax \<noteq> mxFrame (hdr W1) then walCleanupHash E W1 else W1, c')
      else (SQLITE_OK, W, c))"

type_synonym savepoint = "u32 \<times> u32 \<times> u32 \<times> u32"

definition sqlite3WalSavepoint :: "Wal \<Rightarrow> savepoint" where
  "sqlite3WalSavepoint W =
     (mxFrame (hdr W), fst (aFrameCksum (hdr W)), snd (aFrameCksum (hdr W)), nCkpt W)"

definition sqlite3WalSavepointUndo :: "wal_env \<Rightarrow> Wal \<Rightarrow> savepoint \<Rightarrow> nat \<times> Wal \<times> savepoint" where
  "sqlite3WalSavepointUndo E W aWalData =
     (let (d0, d1, d2, d3) = aWalData;
          (d0, d3) = (if d3 \<noteq> nCkpt W then (0, nCkpt W) else (d0, d3))
      in (SQLITE_OK,
          if d0 < mxFrame (hdr W)
          then walCleanupHash E (W\<lparr>hdr := (hdr W)\<lparr>mxFrame := d0, aFrameCksum := (d1, d2)\<rparr>\<rparr>)
          else W,
          (d0, d1, d2, d3)))"

lemma index_repr_hdr [simp]: "index_repr (W\<lparr>hdr := h\<rparr>) pgs = index_repr W pgs"
  by (simp add: index_repr_def map_ok_def)

text \<open>\<open>walFramePgno\<close> reads the page number of a frame without the hash table.\<close>

lemma walFramePgno_repr:
  assumes repr: "index_repr W pgs" and f: "1 \<le> f" "f \<le> length pgs"
  shows "walFramePgno W (of_nat f) = page_at pgs f"
proof -
  let ?t = "table_of f" and ?w = "of_nat f :: u32"
  have max: "f \<le> MAX_FRAMES" using f index_reprD(1) [OF repr] by simp
  then have w: "unat ?w = f" by (simp add: unat_of_nat take_bit_nat_eq_self)
  have start: "table_start ?t < f" "f \<le> table_start ?t + table_size ?t"
    using table_of_bounds [OF f(1)] by auto
  have "1 \<le> f - table_start ?t" "f - table_start ?t \<le> in_table ?t (length pgs)"
    using start f by (auto simp: in_table_def)
  then have page: "page_no (ipage (wi W) ?t) ?t (f - table_start ?t) = page_at pgs f"
    using table_reprD(2) [OF index_reprD(4) [OF repr], of ?t "f - table_start ?t"] start f
    by (simp add: page_at_def)
  obtain g where g: "f = Suc g" using f(1) by (cases f) auto
  have small: "unat (of_nat k :: u64) = k" if "k \<le> 2 ^ 32" for k
    using that by (simp add: unat_of_nat take_bit_nat_eq_self)
  have "unat (?w - 1) = g" using max g by (simp add: unat_of_nat take_bit_nat_eq_self)
  then have u: "(ucast ?w :: u64) = of_nat f" "(ucast (?w - 1) :: u64) = of_nat g"
    using w by (metis of_nat_unat)+
  have "walFramePage ?w = int ?t" using walFramePage_eq [of ?w] max w by simp
  moreover have "unat (of_nat 34 + (ucast ?w :: u64) - 1) = table_base ?t + (f - table_start ?t) - 1" if "?t = 0"
  proof -
    have "of_nat 34 + (ucast ?w :: u64) - 1 = of_nat (34 + g)" unfolding u unfolding g by simp
    then show ?thesis using small [of "34 + g"] that max g by (simp add: table_base_def table_start_def)
  qed
  moreover have "unat (((ucast (?w - 1) :: u64) - of_nat HASHTABLE_NPAGE_ONE) mod of_nat HASHTABLE_NPAGE)
      = table_base ?t + (f - table_start ?t) - 1" if t0: "?t \<noteq> 0"
  proof -
    obtain k where k: "?t = Suc k" using t0 by (cases ?t) auto
    have g': "g = 4062 + k * 4096 + (g - table_start ?t)" "g - table_start ?t < 4096"
      using start k g by (simp_all add: table_start_def table_size_def)
    have "(ucast (?w - 1) :: u64) - of_nat HASHTABLE_NPAGE_ONE = of_nat (g - 4062)"
      unfolding u using g' by (simp add: wal_consts of_nat_diff)
    then have "unat (((ucast (?w - 1) :: u64) - of_nat HASHTABLE_NPAGE_ONE) mod of_nat HASHTABLE_NPAGE)
        = (g - 4062) mod 4096"
      using small [of "g - 4062"] max g by (simp add: unat_mod wal_consts)
    also have "\<dots> = g - table_start ?t"
    proof -
      have "g - 4062 = (g - table_start ?t) + k * 4096" using g' by linarith
      then show ?thesis using g'(2) by simp
    qed
    finally show ?thesis using t0 g by (simp add: table_base_def)
  qed
  ultimately show ?thesis
    using page by (cases "?t = 0") (simp_all add: walFramePgno_def page_no_def wal_consts)
qed

end
