(* ===== verification/WalIterate.thy ===== *)
theory WalIterate
  imports WalSearch
begin

text \<open>
  The iterator with which a checkpoint visits the pages of the write-ahead log
  (\<open>src/wal.c\<close>): the entries of every table of the index are sorted by page number, keeping
  of the entries of a page only the last, and the sorted tables are merged on the fly.
  The code sorts arrays of indices in place; a sublist of the array is a list here. The
  sublists lie next to each other, so that a merge has room for its result in the memory of
  its two arguments.
\<close>

section \<open>Sorting a table\<close>

function walMerge :: "(nat \<Rightarrow> u32) \<Rightarrow> nat list \<Rightarrow> nat list \<Rightarrow> nat list" where
  "walMerge aContent aLeft aRight =
     (if aLeft = [] \<and> aRight = [] then []
      else
        let (logpage, l, r) =
              (if aLeft \<noteq> [] \<and> (aRight = [] \<or> aContent (hd aLeft) < aContent (hd aRight))
               then (hd aLeft, tl aLeft, aRight) else (hd aRight, aLeft, tl aRight));
            dbpage = aContent logpage;
            l' = (if l \<noteq> [] \<and> aContent (hd l) = dbpage then tl l else l)
        in logpage # walMerge aContent l' r)"
  by pat_completeness auto
termination
  by (relation "measure (\<lambda>(c, l, r). length l + length r)")
    (auto split: if_splits simp: neq_Nil_conv)

declare walMerge.simps [simp del]

lemma bit_imp_less: "bit (i :: nat) s \<Longrightarrow> s < i"
proof -
  assume "bit i s"
  then have "odd (i div 2 ^ s)" by (simp add: bit_iff_odd)
  then have "2 ^ s \<le> i" by (metis div_less even_zero not_le)
  then show ?thesis using less_exp [of s] by (rule less_le_trans [rotated])
qed

text \<open>
  The inner loop: while bit \<open>iSub\<close> of \<open>iList\<close> is set, the list is merged with the sublist of
  that size. It ends because \<open>iList\<close> has finitely many bits.
\<close>

function merge_carry :: "(nat \<Rightarrow> u32) \<Rightarrow> (nat \<Rightarrow> nat list) \<Rightarrow> nat \<Rightarrow> nat \<Rightarrow> nat list \<Rightarrow> nat \<times> nat list" where
  "merge_carry aContent aSub iList iSub aMerge =
     (if bit iList iSub
      then merge_carry aContent aSub iList (iSub + 1) (walMerge aContent (aSub iSub) aMerge)
      else (iSub, aMerge))"
  by pat_completeness auto
termination
  by (relation "measure (\<lambda>(c, a, i, s, m). i - s)") (auto dest: bit_imp_less)

declare merge_carry.simps [simp del]

fun sort_loop :: "(nat \<Rightarrow> u32) \<Rightarrow> nat list \<Rightarrow> nat \<Rightarrow> (nat \<Rightarrow> nat list) \<Rightarrow> nat \<Rightarrow> nat list
    \<Rightarrow> (nat \<Rightarrow> nat list) \<times> nat \<times> nat list" where
  "sort_loop aContent [] iList aSub iSub aMerge = (aSub, iSub, aMerge)"
| "sort_loop aContent (x # xs) iList aSub iSub aMerge =
     (let (s, m) = merge_carry aContent aSub iList 0 [x]
      in sort_loop aContent xs (iList + 1) (aSub(s := m)) s m)"

definition walMergesort :: "(nat \<Rightarrow> u32) \<Rightarrow> nat list \<Rightarrow> nat list" where
  "walMergesort aContent aList =
     (let (aSub, iSub, aMerge) = sort_loop aContent aList 0 (\<lambda>_. []) 0 []
      in fold (\<lambda>s m. if bit (length aList) s then walMerge aContent (aSub s) m else m)
              [iSub + 1 ..< 13] aMerge)"

section \<open>The iterator\<close>

text \<open>
  A segment refers to the array of page numbers in shared memory by its place;
  \<open>seg_pgno W s j\<close> is \<open>s->aPgno[j]\<close>, whose first element is \<open>aPgno[1]\<close> of the table.
\<close>

record WalSegment =
  iNext :: nat
  aIndex :: "nat list"
  seg_loc :: hash_loc
  nEntry :: nat
  seg_iZero :: u32

record WalIterator =
  iPrior :: u32
  aSegment :: "WalSegment list"

definition seg_pgno :: "Wal \<Rightarrow> WalSegment \<Rightarrow> nat \<Rightarrow> u32" where
  "seg_pgno W s j = pgno_at W (seg_loc s) (j + 1)"

fun init_segments :: "wal_env \<Rightarrow> Wal \<Rightarrow> u32 \<Rightarrow> nat \<Rightarrow> nat list \<Rightarrow> nat \<times> WalSegment list \<times> Wal" where
  "init_segments E W iLast nSegment [] = (SQLITE_OK, [], W)"
| "init_segments E W iLast nSegment (i # is) =
     (let (rc, L, W1) = walHashGet E W (int i)
      in if rc \<noteq> SQLITE_OK then (rc, [], W1)
         else
           let n = (if i + 1 = nSegment then unat (iLast - iZero L) else HASHTABLE_NPAGE - loc_base L);
               ix = walMergesort (\<lambda>j. pgno_at W1 L (j + 1)) [0..<n];
               seg = \<lparr>iNext = 0, aIndex = ix, seg_loc = L, nEntry = length ix, seg_iZero = iZero L + 1\<rparr>;
               (rc, segs, W2) = init_segments E W1 iLast nSegment is
           in (rc, seg # segs, W2))"

text \<open>\<open>mem\<close> says whether the iterator and the temporary array can be allocated.\<close>

definition walIteratorInit :: "wal_env \<Rightarrow> bool list \<Rightarrow> Wal \<Rightarrow> nat \<times> WalIterator option \<times> Wal" where
  "walIteratorInit E mem W =
     (let iLast = mxFrame (hdr W);
          nSegment = nat (walFramePage iLast + 1);
          (ok1, mem) = alloc mem;
          (ok2, mem) = alloc mem
      in if \<not> ok1 \<or> \<not> ok2 then (SQLITE_NOMEM, None, W)
         else
           let (rc, segs, W1) = init_segments E W iLast nSegment [0..<nSegment]
           in (rc, if rc = SQLITE_OK then Some \<lparr>iPrior = 0, aSegment = segs\<rparr> else None, W1))"

text \<open>Skipping the entries of a segment up to page \<open>iMin\<close>.\<close>

function skip_entries :: "Wal \<Rightarrow> u32 \<Rightarrow> WalSegment \<Rightarrow> WalSegment" where
  "skip_entries W iMin s =
     (if iNext s < nEntry s \<and> \<not> iMin < seg_pgno W s (aIndex s ! iNext s)
      then skip_entries W iMin (s\<lparr>iNext := iNext s + 1\<rparr>) else s)"
  by pat_completeness auto
termination
  by (relation "measure (\<lambda>(W, m, s). nEntry s - iNext s)") auto

declare skip_entries.simps [simp del]

text \<open>The loop over the segments, from the last to the first.\<close>

fun next_segments :: "Wal \<Rightarrow> u32 \<Rightarrow> WalSegment list \<Rightarrow> u32 \<times> u32 \<Rightarrow> WalSegment list \<times> u32 \<times> u32" where
  "next_segments W iMin [] (iRet, iFrame) = ([], iRet, iFrame)"
| "next_segments W iMin (s # segs) (iRet, iFrame) =
     (let (segs', iRet, iFrame) = next_segments W iMin segs (iRet, iFrame);
          s' = skip_entries W iMin s
      in if iNext s' < nEntry s'
         then let j = aIndex s' ! iNext s'; iPg = seg_pgno W s' j
              in if iPg < iRet then (s' # segs', iPg, seg_iZero s' + of_nat j)
                 else (s' # segs', iRet, iFrame)
         else (s' # segs', iRet, iFrame))"

definition walIteratorNext :: "Wal \<Rightarrow> WalIterator \<Rightarrow> u32 \<Rightarrow> bool \<times> u32 \<times> u32 \<times> WalIterator" where
  "walIteratorNext W p iFrame =
     (let (segs, iRet, iFrame) = next_segments W (iPrior p) (aSegment p) (0xFFFFFFFF, iFrame)
      in (iRet = 0xFFFFFFFF, iRet, iFrame, \<lparr>iPrior = iRet, aSegment = segs\<rparr>))"

section \<open>What the sort computes\<close>

text \<open>\<open>L\<close> holds, in the order of their keys, the last entry of \<open>S\<close> for every key.\<close>

definition last_entries :: "(nat \<Rightarrow> u32) \<Rightarrow> nat set \<Rightarrow> nat list \<Rightarrow> bool" where
  "last_entries c S L \<longleftrightarrow>
     sorted_wrt (\<lambda>x y. c x < c y) L \<and> set L \<subseteq> S \<and> (\<forall>x\<in>S. \<exists>y\<in>set L. c y = c x \<and> x \<le> y)"

text \<open>One round of the loop, by the three ways it can go.\<close>

lemma walMerge_Nil [simp]: "walMerge c [] [] = []"
  by (simp add: walMerge.simps)

lemma walMerge_left: "r = [] \<or> c x < c (hd r) \<Longrightarrow> sorted_wrt (\<lambda>x y. c x < c y) (x # l) \<Longrightarrow>
    walMerge c (x # l) r = x # walMerge c l r"
  by (subst walMerge.simps) (cases l; auto)

lemma walMerge_right:
  "l = [] \<or> c y < c (hd l) \<Longrightarrow> walMerge c l (y # r) = y # walMerge c l r"
  by (subst walMerge.simps) (cases l; auto simp: Let_def)

lemma walMerge_both: "c x = c y \<Longrightarrow> walMerge c (x # l) (y # r) = y # walMerge c l r"
  by (subst walMerge.simps) (auto simp: Let_def)

lemma walMerge_sorted:
  assumes "sorted_wrt (\<lambda>x y. c x < c y) l" and "sorted_wrt (\<lambda>x y. c x < c y) r"
  shows "sorted_wrt (\<lambda>x y. c x < c y) (walMerge c l r) \<and> set (walMerge c l r) \<subseteq> set l \<union> set r \<and>
    (\<forall>x\<in>set r. x \<in> set (walMerge c l r)) \<and>
    (\<forall>x\<in>set l. x \<in> set (walMerge c l r) \<or> (\<exists>y\<in>set r. c y = c x))"
  using assms
proof (induction "length l + length r" arbitrary: l r rule: less_induct)
  case less
  consider "l = []" "r = []" | (left) x l' where "l = x # l'" "r = [] \<or> c x < c (hd r)"
    | (right) y r' where "r = y # r'" "l = [] \<or> c y < c (hd l)"
    | (both) x l' y r' where "l = x # l'" "r = y # r'" "c x = c y"
    by (cases l; cases r) (auto simp: not_less_iff_gr_or_eq, metis linorder_neqE)
  then show ?case
  proof cases
    case left
    have eq: "walMerge c l r = x # walMerge c l' r"
      using walMerge_left [OF left(2)] less.prems(1) left(1) by simp
    have IH: "sorted_wrt (\<lambda>x y. c x < c y) (walMerge c l' r) \<and> set (walMerge c l' r) \<subseteq> set l' \<union> set r \<and>
        (\<forall>x\<in>set r. x \<in> set (walMerge c l' r)) \<and>
        (\<forall>x\<in>set l'. x \<in> set (walMerge c l' r) \<or> (\<exists>y\<in>set r. c y = c x))"
      using less left(1) by simp
    have "c x < c z" if "z \<in> set (walMerge c l' r)" for z
    proof -
      have "z \<in> set l' \<or> z \<in> set r" using that IH by blast
      then show ?thesis using less.prems left by (cases r) (auto intro: less_trans)
    qed
    then show ?thesis using IH eq left(1) by auto
  next
    case right
    have eq: "walMerge c l r = y # walMerge c l r'"
      using walMerge_right [OF right(2)] right(1) by simp
    have IH: "sorted_wrt (\<lambda>x y. c x < c y) (walMerge c l r') \<and> set (walMerge c l r') \<subseteq> set l \<union> set r' \<and>
        (\<forall>x\<in>set r'. x \<in> set (walMerge c l r')) \<and>
        (\<forall>x\<in>set l. x \<in> set (walMerge c l r') \<or> (\<exists>y\<in>set r'. c y = c x))"
      using less right(1) by simp
    have "c y < c z" if "z \<in> set (walMerge c l r')" for z
    proof -
      have "z \<in> set l \<or> z \<in> set r'" using that IH by blast
      then show ?thesis using less.prems right by (cases l) (auto intro: less_trans)
    qed
    then show ?thesis using IH eq right(1) by auto
  next
    case both
    have eq: "walMerge c l r = y # walMerge c l' r'"
      using walMerge_both [OF both(3)] both by simp
    have IH: "sorted_wrt (\<lambda>x y. c x < c y) (walMerge c l' r') \<and> set (walMerge c l' r') \<subseteq> set l' \<union> set r' \<and>
        (\<forall>x\<in>set r'. x \<in> set (walMerge c l' r')) \<and>
        (\<forall>x\<in>set l'. x \<in> set (walMerge c l' r') \<or> (\<exists>y\<in>set r'. c y = c x))"
      using less both by simp
    have "c y < c z" if "z \<in> set (walMerge c l' r')" for z
    proof -
      have "z \<in> set l' \<or> z \<in> set r'" using that IH by blast
      then show ?thesis using less.prems both by auto
    qed
    then show ?thesis using IH eq both by auto
  qed simp
qed

lemma last_entries_merge:
  assumes l: "last_entries c S L" and r: "last_entries c T R" and "\<forall>x\<in>S. \<forall>y\<in>T. x < y"
  shows "last_entries c (S \<union> T) (walMerge c L R)"
proof -
  let ?M = "walMerge c L R"
  have m: "sorted_wrt (\<lambda>x y. c x < c y) ?M" "set ?M \<subseteq> set L \<union> set R" "\<forall>x\<in>set R. x \<in> set ?M"
    "\<forall>x\<in>set L. x \<in> set ?M \<or> (\<exists>y\<in>set R. c y = c x)"
    using walMerge_sorted [of c L R] l r unfolding last_entries_def by simp_all
  have sub: "set L \<subseteq> S" "set R \<subseteq> T" using l r by (simp_all add: last_entries_def)
  have "\<exists>y\<in>set ?M. c y = c x \<and> x \<le> y" if "x \<in> S \<union> T" for x
  proof (cases "x \<in> T")
    case True
    then obtain y where "y \<in> set R" "c y = c x" "x \<le> y" using r unfolding last_entries_def by blast
    then show ?thesis using m(3) by blast
  next
    case False
    then have x: "x \<in> S" using that by simp
    then obtain y where y: "y \<in> set L" "c y = c x" "x \<le> y" using l unfolding last_entries_def by blast
    show ?thesis
    proof (cases "y \<in> set ?M")
      case True
      then show ?thesis using y by blast
    next
      case False
      then obtain z where z: "z \<in> set R" "c z = c y" using m(4) y(1) by blast
      then have "x < z" using x sub(2) assms(3) by blast
      then show ?thesis using m(3) z y(2) by (intro bexI [of _ z]) auto
    qed
  qed
  moreover have "set ?M \<subseteq> S \<union> T" using m(2) sub by blast
  ultimately show ?thesis using m(1) unfolding last_entries_def by simp
qed

text \<open>
  After \<open>k\<close> entries, the sublist of every bit \<open>j\<close> of \<open>k\<close> holds a block of \<open>2 ^ j\<close> entries.
\<close>

definition block :: "nat \<Rightarrow> nat \<Rightarrow> nat set" where
  "block k j = {k div 2 ^ Suc j * 2 ^ Suc j ..< k div 2 ^ Suc j * 2 ^ Suc j + 2 ^ j}"

definition blocks_ok :: "(nat \<Rightarrow> u32) \<Rightarrow> nat \<Rightarrow> (nat \<Rightarrow> nat list) \<Rightarrow> bool" where
  "blocks_ok c k aSub \<longleftrightarrow> (\<forall>j. bit k j \<longrightarrow> last_entries c (block k j) (aSub j))"

lemma mod_Suc_exp: "(k :: nat) mod 2 ^ Suc s = k mod 2 ^ s + (if bit k s then 2 ^ s else 0)"
  using take_bit_Suc_from_most [of s k] by (simp add: take_bit_eq_mod)

lemma block_start: "k div 2 ^ Suc j * 2 ^ Suc j = (k :: nat) - k mod 2 ^ Suc j"
  by (metis minus_mod_eq_div_mult)

lemma merge_carry_blocks:
  assumes "blocks_ok c k aSub" and "last_entries c {k + 1 - 2 ^ s ..< k + 1} m"
    and "k mod 2 ^ s = 2 ^ s - 1" and "merge_carry c aSub k s m = (s', m')"
  shows "\<not> bit k s' \<and> k mod 2 ^ s' = 2 ^ s' - 1 \<and> last_entries c {k + 1 - 2 ^ s' ..< k + 1} m'"
  using assms
proof (induction c aSub k s m rule: merge_carry.induct)
  case (1 c aSub k s m)
  show ?case
  proof (cases "bit k s")
    case False
    then have "s' = s" "m' = m" using "1.prems"(4) by (simp_all add: merge_carry.simps [of _ _ _ s])
    then show ?thesis using "1.prems" False by simp
  next
    case True
    have mod: "k mod 2 ^ Suc s = 2 ^ Suc s - 1"
      using "1.prems"(3) True by (simp only: mod_Suc_exp) simp
    have le: "2 ^ Suc s - 1 \<le> k" using mod by (metis mod_less_eq_dividend)
    have "k div 2 ^ Suc s * 2 ^ Suc s = k + 1 - 2 ^ Suc s"
      unfolding block_start mod by simp
    then have "block k s = {k + 1 - 2 ^ Suc s ..< k + 1 - 2 ^ s}"
      using le unfolding block_def by simp
    moreover have "last_entries c (block k s) (aSub s)"
      using "1.prems"(1) True by (simp add: blocks_ok_def)
    ultimately have "last_entries c ({k + 1 - 2 ^ Suc s ..< k + 1 - 2 ^ s} \<union> {k + 1 - 2 ^ s ..< k + 1})
        (walMerge c (aSub s) m)"
      using last_entries_merge "1.prems"(2) by simp
    moreover have "{k + 1 - 2 ^ Suc s ..< k + 1 - 2 ^ s} \<union> {k + 1 - 2 ^ s ..< k + 1}
        = {k + 1 - 2 ^ Suc s ..< k + 1}"
      by (intro ivl_disj_un_two(3)) simp_all
    ultimately have "last_entries c {k + 1 - 2 ^ Suc s ..< k + 1} (walMerge c (aSub s) m)" by simp
    moreover have "merge_carry c aSub k (s + 1) (walMerge c (aSub s) m) = (s', m')"
      using "1.prems"(4) True by (simp add: merge_carry.simps [of _ _ _ s])
    ultimately show ?thesis using "1.IH" [OF True "1.prems"(1)] mod by simp
  qed
qed

lemma carry_div:
  assumes "k mod 2 ^ s = 2 ^ s - 1" and "\<not> bit (k :: nat) s" and "s < j"
  shows "(k + 1) div 2 ^ j = k div 2 ^ j"
proof -
  have "k mod 2 ^ Suc s + 1 < 2 ^ Suc s" using assms(1,2) by (simp only: mod_Suc_exp) simp
  then have "(k + 1) div 2 ^ Suc s = k div 2 ^ Suc s"
    by (simp only: Suc_eq_plus1 [symmetric] div_Suc mod_Suc) simp
  moreover have "(2 :: nat) ^ j = 2 ^ Suc s * 2 ^ (j - Suc s)"
    using assms(3) by (metis Suc_leI le_add_diff_inverse power_add)
  ultimately show ?thesis by (simp only: div_mult2_eq)
qed

lemma blocks_ok_step:
  assumes "blocks_ok c k aSub" and s: "k mod 2 ^ s = 2 ^ s - 1" "\<not> bit k s"
    and m: "last_entries c {k + 1 - 2 ^ s ..< k + 1} m"
  shows "blocks_ok c (k + 1) (aSub(s := m))" and "(k + 1) mod 2 ^ Suc s = 2 ^ s"
proof -
  have "(k + 1) div 2 ^ Suc s * 2 ^ Suc s = k div 2 ^ Suc s * 2 ^ Suc s"
    using carry_div [OF s, of "Suc s"] by simp
  also have "\<dots> = k - (2 ^ s - 1)" using block_start [of k s] s by (simp only: mod_Suc_exp) simp
  finally have start: "(k + 1) div 2 ^ Suc s * 2 ^ Suc s = k + 1 - 2 ^ s" by simp
  have le: "2 ^ s \<le> k + 1" using s(1) mod_less_eq_dividend [of k "2 ^ s"] by simp
  show mod: "(k + 1) mod 2 ^ Suc s = 2 ^ s"
    using start le by (metis block_start diff_diff_cancel mod_less_eq_dividend)
  have "last_entries c (block (k + 1) j) ((aSub(s := m)) j)" if j: "bit (k + 1) j" for j
  proof -
    consider "j < s" | "j = s" | "s < j" by linarith
    then show ?thesis
    proof cases
      case 1
      have "2 ^ Suc j dvd k + 1"
      proof -
        have "(2 :: nat) ^ Suc j dvd 2 ^ s" using 1 by (intro le_imp_power_dvd) simp
        moreover have "2 ^ s dvd k + 1"
          using start le by (metis dvd_add_right_iff dvd_diff_nat dvd_triv_right dvd_refl le_add_diff_inverse2 dvd_mult power_Suc)
        ultimately show ?thesis by (rule dvd_trans)
      qed
      then have "\<not> bit (k + 1) j" using mod_Suc_exp [of "k + 1" j] by (auto simp: dvd_eq_mod_eq_0)
      then show ?thesis using j by simp
    next
      case 2
      then show ?thesis using m start le by (simp add: block_def)
    next
      case 3
      then have "bit k j" using j carry_div [OF s 3] by (simp add: bit_iff_odd)
      moreover have "block (k + 1) j = block k j" using carry_div [OF s, of "Suc j"] 3 by (simp add: block_def)
      ultimately show ?thesis using assms(1) 3 by (simp add: blocks_ok_def)
    qed
  qed
  then show "blocks_ok c (k + 1) (aSub(s := m))" by (simp add: blocks_ok_def)
qed

lemma last_entries_single: "last_entries c {k ..< k + 1} [k]"
  by (auto simp: last_entries_def)

lemma sort_loop_blocks:
  assumes "blocks_ok c k aSub" and "k \<le> n"
    and "0 < k \<longrightarrow> last_entries c {k - 2 ^ s ..< k} m \<and> k mod 2 ^ Suc s = 2 ^ s"
    and "sort_loop c [k..<n] k aSub s m = (aSub', s', m')"
  shows "blocks_ok c n aSub' \<and> (0 < n \<longrightarrow> last_entries c {n - 2 ^ s' ..< n} m' \<and> n mod 2 ^ Suc s' = 2 ^ s')"
  using assms
proof (induction "n - k" arbitrary: k aSub s m)
  case 0
  then show ?case by simp
next
  case (Suc d)
  have range: "[k..<n] = k # [k + 1..<n]" using Suc.hyps(2) by (simp add: upt_conv_Cons)
  obtain s1 m1 where carry: "merge_carry c aSub k 0 [k] = (s1, m1)" by (cases "merge_carry c aSub k 0 [k]")
  have 1: "\<not> bit k s1" "k mod 2 ^ s1 = 2 ^ s1 - 1" "last_entries c {k + 1 - 2 ^ s1 ..< k + 1} m1"
    using merge_carry_blocks [OF Suc.prems(1) _ _ carry] last_entries_single by simp_all
  note step = blocks_ok_step [OF Suc.prems(1) 1(2,1,3)]
  have "sort_loop c [k + 1..<n] (k + 1) (aSub(s1 := m1)) s1 m1 = (aSub', s', m')"
    using Suc.prems(4) carry by (simp only: range sort_loop.simps Let_def prod.case)
  then show ?case
    using Suc.hyps(1) [OF _ step(1)] Suc.hyps(2) 1(3) step(2) by simp
qed

lemma merge_rest:
  assumes "blocks_ok c n aSub" and "last_entries c {n - n mod 2 ^ s ..< n} m" and "s \<le> t"
  shows "last_entries c {n - n mod 2 ^ t ..< n}
    (fold (\<lambda>s m. if bit n s then walMerge c (aSub s) m else m) [s ..< t] m)"
  using assms(2,3)
proof (induction "t - s" arbitrary: s m)
  case 0
  then show ?case by simp
next
  case (Suc d)
  let ?m = "if bit n s then walMerge c (aSub s) m else m"
  have "last_entries c {n - n mod 2 ^ Suc s ..< n} ?m"
  proof (cases "bit n s")
    case True
    have le: "n mod 2 ^ s + 2 ^ s \<le> n" using mod_Suc_exp [of n s] True by (metis mod_less_eq_dividend)
    have "block n s = {n - n mod 2 ^ Suc s ..< n - n mod 2 ^ s}"
      using le True unfolding block_def block_start mod_Suc_exp by auto
    moreover have "last_entries c (block n s) (aSub s)"
      using assms(1) True by (simp add: blocks_ok_def)
    ultimately have "last_entries c ({n - n mod 2 ^ Suc s ..< n - n mod 2 ^ s} \<union> {n - n mod 2 ^ s ..< n}) ?m"
      using last_entries_merge Suc.prems(1) True by simp
    moreover have "{n - n mod 2 ^ Suc s ..< n - n mod 2 ^ s} \<union> {n - n mod 2 ^ s ..< n} = {n - n mod 2 ^ Suc s ..< n}"
      using mod_Suc_exp [of n s] True by (intro ivl_disj_un_two(3)) simp_all
    ultimately show ?thesis by simp
  next
    case False
    then show ?thesis using Suc.prems(1) mod_Suc_exp [of n s] by simp
  qed
  moreover have "[s ..< t] = s # [Suc s ..< t]" using Suc.hyps(2) by (simp add: upt_conv_Cons)
  ultimately show ?case using Suc.hyps(1) [of "Suc s" ?m] Suc.hyps(2) by simp
qed

lemma walMergesort_last_entries:
  assumes "0 < n" and "n \<le> 4096"
  shows "last_entries c {0 ..< n} (walMergesort c [0 ..< n])"
proof -
  obtain aSub s m where loop: "sort_loop c [0 ..< n] 0 (\<lambda>_. []) 0 [] = (aSub, s, m)"
    by (cases "sort_loop c [0 ..< n] 0 (\<lambda>_. []) 0 []")
  have ok: "blocks_ok c n aSub" and m: "last_entries c {n - 2 ^ s ..< n} m" "n mod 2 ^ Suc s = 2 ^ s"
    using sort_loop_blocks [OF _ _ _ loop] assms(1) by (simp_all add: blocks_ok_def)
  have "(2 :: nat) ^ s \<le> 2 ^ 12" using m(2) assms(2) mod_less_eq_dividend [of n "2 ^ Suc s"] by simp
  then have "s \<le> 12" by (rule power_le_imp_le_exp [rotated]) simp
  then have "s + 1 \<le> 13" by simp
  then have "last_entries c {n - n mod 2 ^ 13 ..< n}
      (fold (\<lambda>s m. if bit n s then walMerge c (aSub s) m else m) [s + 1 ..< 13] m)"
    using m merge_rest [OF ok, of "s + 1" m 13] by simp
  moreover have "n mod 2 ^ 13 = n" using assms(2) by simp
  ultimately show ?thesis by (simp add: walMergesort_def loop)
qed

section \<open>What the iterator computes\<close>

definition seg_entries :: "nat \<Rightarrow> nat \<Rightarrow> nat" where
  "seg_entries mx i = min (table_size i) (mx - table_start i)"

text \<open>Segment \<open>i\<close> over the first \<open>mx\<close> frames of the log, its entries up to page \<open>m\<close> consumed.\<close>

definition seg_ok :: "u32 list \<Rightarrow> nat \<Rightarrow> u32 \<Rightarrow> nat \<Rightarrow> WalSegment \<Rightarrow> bool" where
  "seg_ok pgs mx m i s \<longleftrightarrow>
     seg_loc s = table_loc i \<and> seg_iZero s = of_nat (table_start i + 1) \<and>
     nEntry s = length (aIndex s) \<and>
     last_entries (\<lambda>j. page_at pgs (table_start i + j + 1)) {0 ..< seg_entries mx i} (aIndex s) \<and>
     iNext s \<le> nEntry s \<and>
     (\<forall>k<iNext s. page_at pgs (table_start i + aIndex s ! k + 1) \<le> m)"

lemma seg_pgno_page:
  assumes repr: "index_repr W pgs" and mx: "mx \<le> length pgs" and loc: "seg_loc s = table_loc i"
    and j: "j < seg_entries mx i"
  shows "seg_pgno W s j = page_at pgs (table_start i + j + 1)"
proof -
  have "table_start i < length pgs" "j + 1 \<le> in_table i (length pgs)"
    using j mx by (auto simp: seg_entries_def in_table_def)
  then show ?thesis
    using table_reprD(2) [OF index_reprD(4) [OF repr], of i "j + 1"]
    by (simp add: seg_pgno_def loc pgno_at_table page_at_def)
qed

lemma seg_ok_mono: "seg_ok pgs mx m i s \<Longrightarrow> m \<le> m' \<Longrightarrow> seg_ok pgs mx m' i s"
  unfolding seg_ok_def by (meson order_trans)

lemma skip_entries_ok:
  assumes repr: "index_repr W pgs" and mx: "mx \<le> length pgs" and "seg_ok pgs mx iMin i s"
  shows "seg_ok pgs mx iMin i (skip_entries W iMin s) \<and>
    (iNext (skip_entries W iMin s) < nEntry (skip_entries W iMin s) \<longrightarrow>
       iMin < page_at pgs (table_start i + aIndex (skip_entries W iMin s) ! iNext (skip_entries W iMin s) + 1))"
  using assms(3)
proof (induction "nEntry s - iNext s" arbitrary: s)
  case 0
  then have stop: "\<not> iNext s < nEntry s" by simp
  then have "skip_entries W iMin s = s" by (subst skip_entries.simps) simp
  then show ?case using 0 stop by simp
next
  case (Suc d)
  let ?j = "aIndex s ! iNext s"
  have "?j \<in> set (aIndex s)" using Suc by (simp add: seg_ok_def)
  then have "?j < seg_entries mx i" using Suc.prems by (auto simp: seg_ok_def last_entries_def)
  then have pg: "seg_pgno W s ?j = page_at pgs (table_start i + ?j + 1)"
    using seg_pgno_page [OF repr mx] Suc.prems by (simp add: seg_ok_def)
  show ?case
  proof (cases "iMin < seg_pgno W s ?j")
    case True
    then have "skip_entries W iMin s = s" by (subst skip_entries.simps) simp
    then show ?thesis using Suc.prems True pg by simp
  next
    case False
    let ?s = "s\<lparr>iNext := iNext s + 1\<rparr>"
    have eq: "skip_entries W iMin s = skip_entries W iMin ?s"
      using False Suc.hyps(2) by (subst skip_entries.simps) simp
    have "seg_ok pgs mx iMin i ?s"
      using Suc.prems Suc.hyps(2) False pg by (auto simp: seg_ok_def less_Suc_eq)
    then show ?thesis using Suc.hyps(1) [of ?s] Suc.hyps(2) unfolding eq by simp
  qed
qed

text \<open>
  The smallest page above \<open>m\<close> among the frames after \<open>lo\<close>, with its newest frame; \<open>0xFFFFFFFF\<close>
  when there is none.
\<close>

definition next_page :: "u32 list \<Rightarrow> u32 \<Rightarrow> nat \<Rightarrow> nat \<Rightarrow> u32 \<Rightarrow> nat \<Rightarrow> bool" where
  "next_page pgs m lo mx r fr \<longleftrightarrow>
     (if r = 0xFFFFFFFF then \<forall>f. lo < f \<and> f \<le> mx \<longrightarrow> page_at pgs f \<le> m
      else m < r \<and> lo < fr \<and> fr \<le> mx \<and> page_at pgs fr = r \<and>
           (\<forall>f. lo < f \<and> f \<le> mx \<and> m < page_at pgs f \<longrightarrow>
                r \<le> page_at pgs f \<and> (page_at pgs f = r \<longrightarrow> f \<le> fr)))"

lemma next_page_none: "next_page pgs m lo mx 0xFFFFFFFF fr \<longleftrightarrow> (\<forall>f. lo < f \<and> f \<le> mx \<longrightarrow> page_at pgs f \<le> m)"
  by (simp add: next_page_def)

lemma next_page_some: "r \<noteq> 0xFFFFFFFF \<Longrightarrow> next_page pgs m lo mx r fr \<longleftrightarrow>
    m < r \<and> lo < fr \<and> fr \<le> mx \<and> page_at pgs fr = r \<and>
    (\<forall>f. lo < f \<and> f \<le> mx \<and> m < page_at pgs f \<longrightarrow>
      r \<le> page_at pgs f \<and> (page_at pgs f = r \<longrightarrow> f \<le> fr))"
  by (simp add: next_page_def)

text \<open>A table before the frames after \<open>lo'\<close>, whose smallest page above \<open>m\<close> has frame \<open>g\<close>.\<close>

lemma next_page_table:
  assumes rest: "next_page pgs m lo' mx r fr" and "lo \<le> lo'"
    and g: "C \<Longrightarrow> lo < g \<and> g \<le> mx \<and> g \<le> lo' \<and> m < page_at pgs g \<and> page_at pgs g < 0xFFFFFFFF"
    and here: "\<And>f. lo < f \<Longrightarrow> f \<le> mx \<Longrightarrow> f \<le> lo' \<Longrightarrow> m < page_at pgs f \<Longrightarrow>
      C \<and> page_at pgs g \<le> page_at pgs f \<and> (page_at pgs f = page_at pgs g \<longrightarrow> f \<le> g)"
  shows "next_page pgs m lo mx (if C \<and> page_at pgs g < r then page_at pgs g else r)
    (if C \<and> page_at pgs g < r then g else fr)"
proof -
  have later: "r \<noteq> 0xFFFFFFFF \<and> r \<le> page_at pgs f \<and> (page_at pgs f = r \<longrightarrow> f \<le> fr)"
    if f: "f \<le> mx" "m < page_at pgs f" "\<not> f \<le> lo'" for f
  proof (cases "r = 0xFFFFFFFF")
    case True
    have "page_at pgs f \<le> m" using rest f(1,3) unfolding True next_page_none by simp
    then show ?thesis using f(2) by simp
  next
    case False
    then show ?thesis using rest f by (simp add: next_page_some)
  qed
  show ?thesis
  proof (cases "C \<and> page_at pgs g < r")
    case True
    have "page_at pgs g \<le> page_at pgs f \<and> (page_at pgs f = page_at pgs g \<longrightarrow> f \<le> g)"
      if f: "lo < f" "f \<le> mx" "m < page_at pgs f" for f
    proof (cases "f \<le> lo'")
      case False
      then have "page_at pgs g < page_at pgs f"
        using later [OF f(2,3) False] True less_le_trans by blast
      then show ?thesis by auto
    qed (use here f in blast)
    moreover have "page_at pgs g \<noteq> 0xFFFFFFFF" using True g by auto
    ultimately show ?thesis using True g by (simp add: next_page_some)
  next
    case F: False
    have all: "r \<noteq> 0xFFFFFFFF \<and> r \<le> page_at pgs f \<and> (page_at pgs f = r \<longrightarrow> f \<le> fr)"
      if f: "lo < f" "f \<le> mx" "m < page_at pgs f" for f
    proof (cases "f \<le> lo'")
      case True
      then have C: "C" "page_at pgs g \<le> page_at pgs f" using here f by blast+
      then have r: "r \<le> page_at pgs g" "r \<noteq> 0xFFFFFFFF" using F g by auto
      then have "lo' < fr" using rest by (simp add: next_page_some)
      then show ?thesis using C r True by auto
    qed (use later f in blast)
    have "next_page pgs m lo mx r fr"
    proof (cases "r = 0xFFFFFFFF")
      case True
      then show ?thesis using all by (auto simp: next_page_none not_less [symmetric])
    next
      case False
      then show ?thesis using all rest \<open>lo \<le> lo'\<close> by (auto simp: next_page_some)
    qed
    then show ?thesis using F by (simp only: if_False)
  qed
qed

lemma seg_next:
  assumes ok: "seg_ok pgs mx m i s" and least: "iNext s < nEntry s \<longrightarrow>
      m < page_at pgs (table_start i + aIndex s ! iNext s + 1)"
    and f: "table_start i < f" "f \<le> mx" "f \<le> table_start i + table_size i" "m < page_at pgs f"
  shows "iNext s < nEntry s \<and> (let g = table_start i + aIndex s ! iNext s + 1
    in page_at pgs g \<le> page_at pgs f \<and> (page_at pgs f = page_at pgs g \<longrightarrow> f \<le> g))"
proof -
  let ?c = "\<lambda>j. page_at pgs (table_start i + j + 1)"
  have len: "nEntry s = length (aIndex s)"
    and last: "last_entries ?c {0 ..< seg_entries mx i} (aIndex s)"
    and before: "\<forall>k<iNext s. ?c (aIndex s ! k) \<le> m"
    using ok unfolding seg_ok_def by blast+
  let ?j = "f - table_start i - 1"
  have j: "?j < seg_entries mx i" "table_start i + ?j + 1 = f" using f by (auto simp: seg_entries_def)
  then have "?j \<in> {0 ..< seg_entries mx i}" by simp
  with last have "\<exists>y\<in>set (aIndex s). ?c y = ?c ?j \<and> ?j \<le> y" unfolding last_entries_def by blast
  then obtain y where y: "y \<in> set (aIndex s)" "?c y = page_at pgs f" "?j \<le> y" using j(2) by auto
  then obtain k where k: "k < length (aIndex s)" "aIndex s ! k = y" by (auto simp: in_set_conv_nth)
  have "iNext s \<le> k"
  proof (rule ccontr)
    assume "\<not> iNext s \<le> k"
    then show False using before k y f(4) by (metis linorder_not_less not_le_imp_less)
  qed
  then have more: "iNext s < nEntry s" using k len by simp
  have "?c (aIndex s ! iNext s) \<le> ?c y \<and> (?c (aIndex s ! iNext s) = ?c y \<longrightarrow> aIndex s ! iNext s = y)"
  proof (cases "iNext s = k")
    case False
    then have "?c (aIndex s ! iNext s) < ?c (aIndex s ! k)"
      using last k \<open>iNext s \<le> k\<close> unfolding last_entries_def by (auto simp: sorted_wrt_iff_nth_less)
    then show ?thesis using k by auto
  qed (use k in simp)
  then show ?thesis using more y j(2) by (auto simp: Let_def)
qed

lemma next_segments_page:
  assumes repr: "index_repr W pgs" and mx: "mx \<le> length pgs"
    and valid: "\<forall>f. 1 \<le> f \<and> f \<le> mx \<longrightarrow> page_at pgs f < 0xFFFFFFFF"
    and "\<forall>k<length segs. seg_ok pgs mx m (i + k) (segs ! k)"
    and "mx \<le> table_start (i + length segs)"
    and "next_segments W m segs (0xFFFFFFFF, fr0) = (segs', r, fr)"
  shows "length segs' = length segs \<and> (\<forall>k<length segs. seg_ok pgs mx m (i + k) (segs' ! k)) \<and>
    next_page pgs m (table_start i) mx r (unat fr)"
  using assms(4-)
proof (induction segs arbitrary: i segs' r fr)
  case Nil
  then show ?case by (auto simp: next_page_def)
next
  case (Cons s segs)
  obtain segs1 r1 fr1 where rest: "next_segments W m segs (0xFFFFFFFF, fr0) = (segs1, r1, fr1)"
    by (metis prod_cases3)
  have oks: "\<forall>k<length segs. seg_ok pgs mx m (Suc i + k) (segs ! k)"
    using Cons.prems(1) by (auto dest: spec [of _ "Suc _"])
  have IH: "length segs1 = length segs" "\<forall>k<length segs. seg_ok pgs mx m (Suc i + k) (segs1 ! k)"
    "next_page pgs m (table_start (Suc i)) mx r1 (unat fr1)"
    using Cons.IH [OF oks _ rest] Cons.prems(2) by simp_all
  let ?s = "skip_entries W m s"
  have s: "seg_ok pgs mx m i ?s" and least: "iNext ?s < nEntry ?s \<longrightarrow>
      m < page_at pgs (table_start i + aIndex ?s ! iNext ?s + 1)"
    using skip_entries_ok [OF repr mx, of m i s] Cons.prems(1) by force+
  have out: "next_segments W m (s # segs) (0xFFFFFFFF, fr0) =
    (let j = aIndex ?s ! iNext ?s; iPg = seg_pgno W ?s j
     in if iNext ?s < nEntry ?s \<and> iPg < r1 then (?s # segs1, iPg, seg_iZero ?s + of_nat j)
        else (?s # segs1, r1, fr1))"
    by (simp add: rest Let_def)
  let ?j = "aIndex ?s ! iNext ?s" and ?cond = "iNext ?s < nEntry ?s"
  let ?g = "table_start i + ?j + 1"
  have g: "?g \<le> mx" "?g \<le> table_start i + table_size i" "seg_pgno W ?s ?j = page_at pgs ?g"
    "m < page_at pgs ?g" "unat (seg_iZero ?s + of_nat ?j) = ?g" if ?cond
  proof -
    have "?j \<in> set (aIndex ?s)" using that s by (simp add: seg_ok_def)
    then have j: "?j < seg_entries mx i" using s by (auto simp: seg_ok_def last_entries_def)
    then show "?g \<le> mx" "?g \<le> table_start i + table_size i" by (auto simp: seg_entries_def)
    show "seg_pgno W ?s ?j = page_at pgs ?g"
      using seg_pgno_page [OF repr mx _ j] s by (simp add: seg_ok_def)
    show "m < page_at pgs ?g" using least that by simp
    have "?g \<le> MAX_FRAMES" using \<open>?g \<le> mx\<close> mx index_reprD(1) [OF repr] by simp
    moreover have "seg_iZero ?s + of_nat ?j = of_nat ?g" using s by (simp add: seg_ok_def)
    ultimately show "unat (seg_iZero ?s + of_nat ?j) = ?g"
      by (simp add: unat_of_nat take_bit_nat_eq_self del: of_nat_add of_nat_Suc)
  qed
  have rf: "(r, fr) = (if ?cond \<and> seg_pgno W ?s ?j < r1
      then (seg_pgno W ?s ?j, seg_iZero ?s + of_nat ?j) else (r1, fr1))"
    using Cons.prems(3) unfolding out by (auto simp: Let_def split: if_splits)
  have here: "?cond \<and> page_at pgs ?g \<le> page_at pgs f \<and> (page_at pgs f = page_at pgs ?g \<longrightarrow> f \<le> ?g)"
    if "table_start i < f" "f \<le> mx" "f \<le> table_start i + table_size i" "m < page_at pgs f" for f
    using seg_next [OF s least that] by (simp add: Let_def)
  have "next_page pgs m (table_start i) mx (if ?cond \<and> page_at pgs ?g < r1 then page_at pgs ?g else r1)
      (if ?cond \<and> page_at pgs ?g < r1 then ?g else unat fr1)"
    using g valid here by (intro next_page_table [OF IH(3)]) (auto simp: table_start_Suc)
  then have "next_page pgs m (table_start i) mx r (unat fr)"
    using rf g(3,5) by (auto split: if_splits)
  moreover have "segs' = ?s # segs1"
    using Cons.prems(3) unfolding out by (auto simp: Let_def split: if_splits)
  moreover have "seg_ok pgs mx m (i + k) ((?s # segs1) ! k)" if "k < length (s # segs)" for k
    using s IH(1,2) that by (cases k) auto
  ultimately show ?case using IH(1) by simp
qed

definition iterator_ok :: "u32 list \<Rightarrow> nat \<Rightarrow> WalIterator \<Rightarrow> bool" where
  "iterator_ok pgs mx p \<longleftrightarrow>
     length (aSegment p) = table_of mx + 1 \<and>
     (\<forall>k<length (aSegment p). seg_ok pgs mx (iPrior p) k (aSegment p ! k))"

lemma walIteratorNext_page:
  assumes repr: "index_repr W pgs" and mx: "1 \<le> mx" "mx \<le> length pgs"
    and valid: "\<forall>f. 1 \<le> f \<and> f \<le> mx \<longrightarrow> page_at pgs f < 0xFFFFFFFF"
    and ok: "iterator_ok pgs mx p" and step: "walIteratorNext W p fr0 = (e, r, fr, p')"
  shows "iterator_ok pgs mx (p'\<lparr>iPrior := iPrior p\<rparr>)" "iPrior p' = r" "e \<longleftrightarrow> r = 0xFFFFFFFF"
    and "next_page pgs (iPrior p) 0 mx r (unat fr)"
proof -
  obtain segs where segs: "next_segments W (iPrior p) (aSegment p) (0xFFFFFFFF, fr0) = (segs, r, fr)"
    and p': "p' = \<lparr>iPrior = r, aSegment = segs\<rparr>" "e \<longleftrightarrow> r = 0xFFFFFFFF"
    using step by (auto simp: walIteratorNext_def Let_def split: prod.splits)
  have "mx \<le> table_start (0 + length (aSegment p))"
    using ok table_of_bounds(2) [OF mx(1)] by (simp add: iterator_ok_def table_start_Suc)
  then have "length segs = length (aSegment p) \<and>
      (\<forall>k<length (aSegment p). seg_ok pgs mx (iPrior p) (0 + k) (segs ! k)) \<and>
      next_page pgs (iPrior p) (table_start 0) mx r (unat fr)"
    using ok by (intro next_segments_page [OF repr mx(2) valid _ _ segs]) (simp_all add: iterator_ok_def)
  then show "iterator_ok pgs mx (p'\<lparr>iPrior := iPrior p\<rparr>)" "iPrior p' = r" "e \<longleftrightarrow> r = 0xFFFFFFFF"
    "next_page pgs (iPrior p) 0 mx r (unat fr)"
    using ok p' by (simp_all add: iterator_ok_def table_start_def)
qed

lemma iterator_ok_prior: "iterator_ok pgs mx (p\<lparr>iPrior := m\<rparr>) \<Longrightarrow> m \<le> iPrior p \<Longrightarrow> iterator_ok pgs mx p"
  by (auto simp: iterator_ok_def intro: seg_ok_mono)

lemma last_entries_cong:
  assumes "last_entries c S L" and same: "\<And>x. x \<in> S \<Longrightarrow> c x = c' x"
  shows "last_entries c' S L"
proof -
  have "sorted_wrt (\<lambda>x y. c x < c y) L" "set L \<subseteq> S" using assms(1) by (simp_all add: last_entries_def)
  then have "sorted_wrt (\<lambda>x y. c' x < c' y) L"
    by (elim sorted_wrt_mono_rel [rotated]) (metis same subsetD)
  then show ?thesis using assms unfolding last_entries_def by (metis subsetD)
qed

lemma init_segments_ok:
  assumes "index_repr W pgs" and mx: "1 \<le> unat iLast" "unat iLast \<le> length pgs"
    and n: "n = table_of (unat iLast) + 1" and "i \<le> n"
    and "init_segments E W iLast n [i..<n] = (rc, segs, W')"
  shows "index_repr W' pgs \<and> hdr W' = hdr W \<and>
    (rc = SQLITE_OK \<longrightarrow> length segs = n - i \<and>
       (\<forall>k<length segs. seg_ok pgs (unat iLast) 0 (i + k) (segs ! k)))"
  using assms(1,5,6)
proof (induction "n - i" arbitrary: i W rc segs W')
  case 0
  then show ?case by simp
next
  case (Suc d)
  let ?mx = "unat iLast"
  have range: "[i..<n] = i # [i + 1..<n]" using Suc.hyps(2) by (simp add: upt_conv_Cons)
  obtain rc1 q W1 where page: "walIndexPage E W i = (rc1, q, W1)" by (cases "walIndexPage E W i")
  have get: "walHashGet E W (int i) = (rc1, table_loc i, W1)" by (simp add: walHashGet_eq page)
  have W1: "index_repr W1 pgs" "hdr W1 = hdr W"
    using index_repr_map [OF Suc.prems(1) page] walIndexPage_fields [OF page] by simp_all
  show ?case
  proof (cases "rc1 = SQLITE_OK")
    case False
    then show ?thesis using Suc.prems(3) get W1 by (simp add: range)
  next
    case True
    let ?n = "if i + 1 = n then unat (iLast - of_nat (table_start i)) else HASHTABLE_NPAGE - table_base i"
    let ?ix = "walMergesort (\<lambda>j. pgno_at W1 (table_loc i) (j + 1)) [0..<?n]"
    let ?seg = "\<lparr>iNext = 0, aIndex = ?ix, seg_loc = table_loc i, nEntry = length ?ix,
      seg_iZero = of_nat (table_start i) + 1\<rparr>"
    obtain rc2 segs2 W2 where rest: "init_segments E W1 iLast n [i + 1..<n] = (rc2, segs2, W2)"
      by (metis prod_cases3)
    have "(rc2, ?seg # segs2, W2) = (rc, segs, W')"
      using Suc.prems(3)
      by (simp only: range init_segments.simps get True Let_def prod.case rest table_loc_simps simp_thms if_False)
    then have out: "rc = rc2" "segs = ?seg # segs2" "W' = W2" by blast+
    have IH: "index_repr W2 pgs" "hdr W2 = hdr W1" "rc2 = SQLITE_OK \<longrightarrow> length segs2 = n - (i + 1) \<and>
       (\<forall>k<length segs2. seg_ok pgs ?mx 0 (i + 1 + k) (segs2 ! k))"
      using Suc.hyps(1) [OF _ W1(1) _ rest] Suc.hyps(2) by simp_all
    have i: "i \<le> table_of ?mx" using Suc.hyps(2) n by simp
    have start: "table_start i < ?mx"
      using table_start_mono [OF i] table_of_bounds(1) [OF mx(1)] by simp
    have max: "?mx \<le> MAX_FRAMES" using mx index_reprD(1) [OF W1(1)] by simp
    have n_eq: "?n = seg_entries ?mx i"
    proof (cases "i + 1 = n")
      case True
      then have "?mx \<le> table_start i + table_size i" using table_of_bounds(2) [OF mx(1)] n by simp
      then show ?thesis using True start max by (simp add: seg_entries_def unat_sub_if_size)
    next
      case False
      then have "table_start i + table_size i < ?mx"
        using table_start_mono [of "Suc i" "table_of ?mx"] i n table_of_bounds(1) [OF mx(1)]
        by (simp add: table_start_Suc)
      then show ?thesis using False table_base_size [of i] by (simp add: seg_entries_def npage)
    qed
    have seg: "seg_ok pgs ?mx 0 i ?seg"
    proof -
      let ?e = "seg_entries ?mx i"
      have e: "0 < ?e" "?e \<le> 4096" using start by (auto simp: seg_entries_def table_size_def)
      have same: "pgno_at W1 (table_loc i) (j + 1) = page_at pgs (table_start i + j + 1)" if "j < ?e" for j
        using seg_pgno_page [OF W1(1) mx(2), of "?seg" i j] that by (simp add: seg_pgno_def)
      have "last_entries (\<lambda>j. pgno_at W1 (table_loc i) (j + 1)) {0..<?e}
          (walMergesort (\<lambda>j. pgno_at W1 (table_loc i) (j + 1)) [0..<?e])"
        by (rule walMergesort_last_entries [OF e])
      then have "last_entries (\<lambda>j. page_at pgs (table_start i + j + 1)) {0..<?e}
          (walMergesort (\<lambda>j. pgno_at W1 (table_loc i) (j + 1)) [0..<?e])"
        by (rule last_entries_cong) (use same in auto)
      then show ?thesis unfolding n_eq by (simp add: seg_ok_def)
    qed
    obtain sg where sg: "segs = sg # segs2" "seg_ok pgs ?mx 0 i sg" using out(2) seg by blast
    have "seg_ok pgs ?mx 0 (i + k) (segs ! k)" if "rc2 = SQLITE_OK" "k < length segs" for k
      using that sg IH(3) by (cases k) auto
    moreover have "Suc (n - Suc i) = n - i" using Suc.hyps(2) by linarith
    ultimately show ?thesis using IH W1 out(1,3) sg(1) by simp
  qed
qed

lemma walIteratorInit_ok:
  assumes repr: "index_repr W pgs" and mx: "1 \<le> unat (mxFrame (hdr W))" "unat (mxFrame (hdr W)) \<le> length pgs"
    and init: "walIteratorInit E mem W = (rc, po, W')"
  shows "index_repr W' pgs" and "hdr W' = hdr W"
    and "rc = SQLITE_OK \<Longrightarrow> \<exists>p. po = Some p \<and> iPrior p = 0 \<and> iterator_ok pgs (unat (mxFrame (hdr W))) p"
proof -
  let ?iLast = "mxFrame (hdr W)"
  have "unat ?iLast \<le> MAX_FRAMES" using mx index_reprD(1) [OF repr] by simp
  then have n: "nat (walFramePage ?iLast + 1) = table_of (unat ?iLast) + 1"
    using walFramePage_eq by (simp add: nat_add_distrib)
  obtain rc1 segs W1 where segs: "init_segments E W ?iLast (table_of (unat ?iLast) + 1)
      [0..<table_of (unat ?iLast) + 1] = (rc1, segs, W1)" by (metis prod_cases3)
  note ok = init_segments_ok [OF repr mx refl _ segs]
  have "(rc = SQLITE_NOMEM \<and> W' = W) \<or>
      (rc = rc1 \<and> po = (if rc1 = SQLITE_OK then Some \<lparr>iPrior = 0, aSegment = segs\<rparr> else None) \<and> W' = W1)"
    using init segs by (auto simp: walIteratorInit_def n Let_def split: if_splits prod.splits)
  then show "index_repr W' pgs" "hdr W' = hdr W"
    "rc = SQLITE_OK \<Longrightarrow> \<exists>p. po = Some p \<and> iPrior p = 0 \<and> iterator_ok pgs (unat ?iLast) p"
    using ok repr by (auto simp: iterator_ok_def result_codes)
qed
section \<open>The sort as a property\<close>

text \<open>
  C23: The sort of a table keeps of the entries of every page only the newest, in the order of the
  page numbers: for a table of at most 4096 frames, \<open>walMergesort\<close> gives the frames that no later
  frame of the same page follows, each once, with strictly increasing page numbers.
\<close>

theorem walMergesort_newest:
  assumes "0 < n" and "n \<le> 4096"
  shows "set (walMergesort c [0 ..< n]) = {i. i < n \<and> (\<forall>j. i < j \<and> j < n \<longrightarrow> c j \<noteq> c i)} \<and>
    sorted_wrt (\<lambda>x y. c x < c y) (walMergesort c [0 ..< n]) \<and> distinct (map c (walMergesort c [0 ..< n]))"
proof -
  let ?L = "walMergesort c [0 ..< n]"
  have L: "sorted_wrt (\<lambda>x y. c x < c y) ?L" "set ?L \<subseteq> {0 ..< n}" "\<forall>x\<in>{0 ..< n}. \<exists>y\<in>set ?L. c y = c x \<and> x \<le> y"
    using walMergesort_last_entries [OF assms, of c] unfolding last_entries_def by blast+
  have inj: "x = y" if x: "x \<in> set ?L" and y: "y \<in> set ?L" and eq: "c x = c y" for x y
  proof -
    obtain i j where "i < length ?L" "?L ! i = x" "j < length ?L" "?L ! j = y"
      using x y by (auto simp: in_set_conv_nth)
    then show ?thesis using L(1) eq unfolding sorted_wrt_iff_nth_less by (metis linorder_neqE_nat order_less_irrefl)
  qed
  have "i \<in> set ?L \<longleftrightarrow> i < n \<and> (\<forall>j. i < j \<and> j < n \<longrightarrow> c j \<noteq> c i)" for i
  proof
    assume i: "i \<in> set ?L"
    have "c j \<noteq> c i" if j: "i < j" "j < n" for j
    proof
      assume eq: "c j = c i"
      obtain y where "y \<in> set ?L" "c y = c j" "j \<le> y"
        using bspec [OF L(3), of j] j(2) by auto
      then show False using inj [OF i, of y] eq j(1) by simp
    qed
    then show "i < n \<and> (\<forall>j. i < j \<and> j < n \<longrightarrow> c j \<noteq> c i)" using i L(2) by auto
  next
    assume i: "i < n \<and> (\<forall>j. i < j \<and> j < n \<longrightarrow> c j \<noteq> c i)"
    then obtain y where y: "y \<in> set ?L" "c y = c i" "i \<le> y"
      using bspec [OF L(3), of i] by auto
    moreover have "y < n" using y(1) L(2) by auto
    ultimately have "y = i" using i by (metis le_neq_implies_less)
    then show "i \<in> set ?L" using y(1) by simp
  qed
  moreover have "distinct (map c ?L)"
    using L(1) by (auto simp: distinct_conv_nth sorted_wrt_iff_nth_less) (metis linorder_neqE_nat order_less_irrefl)
  ultimately show ?thesis using L(1) by blast
qed

theorem walMergesort_newest_witness:
  "set (walMergesort (\<lambda>i. if even i then 7 else 3) [0 ..< 5]) = {3, 4}"
proof -
  have "{i. i < 5 \<and> (\<forall>j. i < j \<and> j < 5 \<longrightarrow> (if even j then 7 else 3 :: u32) \<noteq> (if even i then 7 else 3))} = {3, 4 :: nat}"
  proof (intro set_eqI iffI)
    fix i :: nat assume "i \<in> {i. i < 5 \<and> (\<forall>j. i < j \<and> j < 5 \<longrightarrow> (if even j then 7 else 3 :: u32) \<noteq> (if even i then 7 else 3))}"
    then have i: "i < 5" "\<not> (i + 2 < 5)" by (auto dest: spec [of _ "i + 2"])
    then show "i \<in> {3, 4}" by auto
  next
    fix i :: nat assume "i \<in> {3, 4}"
    then have "i = 3 \<or> i = 4" by simp
    moreover have "even j" if "3 < j \<and> j < 5" for j :: nat
    proof -
      have "j = 4" using that by simp
      then show ?thesis by simp
    qed
    ultimately show "i \<in> {i. i < 5 \<and> (\<forall>j. i < j \<and> j < 5 \<longrightarrow> (if even j then 7 else 3 :: u32) \<noteq> (if even i then 7 else 3))}"
      by auto
  qed
  then show ?thesis using walMergesort_newest [of 5 "\<lambda>i. if even i then 7 else 3"] by simp
qed

end
