(* ===== verification/WalLog.thy ===== *)
theory WalLog
  imports WalSearch
begin

text \<open>
  The file of the write-ahead log (\<open>src/wal.c\<close>): a header of 32 bytes and frames, each a header
  of 24 bytes and a page, chained by a checksum; and the recovery that rebuilds the index from
  such a file.

  The state \<open>wal_sys\<close> is a handle with the log and the database file as the operating
  system holds them. What the operating system reports is part of the state: \<open>ios\<close> has the
  results of the next reads, writes, syncs and so on, each a result code and, for a write that
  fails, how many bytes reached the file; \<open>locks\<close> has for the next requests for a lock the
  result and what other connections did to the shared memory in the meantime. Past the end of
  the lists requests succeed and nothing interferes. \<open>rnd\<close> has the random bytes that come next
  (theory \<open>RandomStream\<close> has their generator), \<open>xCodec\<close> the codec of the pager if it has one: what
  its next calls make of a page number and the content of a page.
\<close>

record wal_sys =
  wal :: Wal
  logF :: "u8 list"
  dbF :: "u8 list"
  ios :: "(nat \<times> nat) list"
  locks :: "(nat \<times> (wal_index \<Rightarrow> wal_index)) list"
  rnd :: "nat \<Rightarrow> u8"
  xCodec :: "(nat \<Rightarrow> u32 \<Rightarrow> u8 list \<Rightarrow> u8 list option) option"

definition SQLITE_IOERR_SHORT_READ :: nat where
  "SQLITE_IOERR_SHORT_READ = SQLITE_IOERR OR push_bit 8 2"

section \<open>The operating system\<close>

definition io_next :: "wal_sys \<Rightarrow> nat \<times> nat \<times> wal_sys" where
  "io_next s = (case ios s of [] \<Rightarrow> (SQLITE_OK, 0, s) | (rc, k) # r \<Rightarrow> (rc, k, s\<lparr>ios := r\<rparr>))"

definition file_write :: "u8 list \<Rightarrow> nat \<Rightarrow> u8 list \<Rightarrow> u8 list" where
  "file_write f ofst d =
     (if d = [] then f
      else take ofst (f @ replicate (ofst - length f) 0) @ d @ drop (ofst + length d) f)"

definition os_write :: "wal_sys \<Rightarrow> u8 list \<Rightarrow> nat \<Rightarrow> nat \<times> wal_sys" where
  "os_write s d ofst =
     (let (rc, k, s) = io_next s
      in (rc, s\<lparr>logF := file_write (logF s) ofst (if rc = SQLITE_OK then d else take k d)\<rparr>))"

text \<open>A read behind the end of the file gives what there is, and zeros.\<close>

definition os_read :: "wal_sys \<Rightarrow> nat \<Rightarrow> nat \<Rightarrow> nat \<times> u8 list \<times> wal_sys" where
  "os_read s n ofst =
     (let (rc, k, s) = io_next s;
          d = take n (drop ofst (logF s))
      in (if rc = SQLITE_OK \<and> length d < n then SQLITE_IOERR_SHORT_READ else rc,
          d @ replicate (n - length d) 0, s))"

definition os_sync :: "wal_sys \<Rightarrow> nat \<times> wal_sys" where
  "os_sync s = (let (rc, k, s) = io_next s in (rc, s))"

definition os_size :: "wal_sys \<Rightarrow> nat \<times> nat \<times> wal_sys" where
  "os_size s = (let (rc, k, s) = io_next s in (rc, length (logF s), s))"

section \<open>Locks\<close>

definition WAL_WRITE_LOCK :: nat where "WAL_WRITE_LOCK = 0"
definition WAL_ALL_BUT_WRITE :: nat where "WAL_ALL_BUT_WRITE = 1"
definition WAL_CKPT_LOCK :: nat where "WAL_CKPT_LOCK = 1"
definition WAL_RECOVER_LOCK :: nat where "WAL_RECOVER_LOCK = 2"
definition WAL_READ_LOCK :: "nat \<Rightarrow> nat" where "WAL_READ_LOCK i = 3 + i"
definition SQLITE_SHM_NLOCK :: nat where "SQLITE_SHM_NLOCK = 8"
definition WAL_NREADER :: nat where "WAL_NREADER = SQLITE_SHM_NLOCK - 3"
definition READMARK_NOT_USED :: u32 where "READMARK_NOT_USED = 0xffffffff"

definition lock_next :: "wal_sys \<Rightarrow> nat \<times> wal_sys" where
  "lock_next s = (case locks s of
       [] \<Rightarrow> (SQLITE_OK, s)
     | (rc, others) # r \<Rightarrow> (rc, s\<lparr>wal := (wal s)\<lparr>wi := others (wi (wal s))\<rparr>, locks := r\<rparr>))"

definition walLockShared :: "wal_sys \<Rightarrow> nat \<Rightarrow> nat \<times> wal_sys" where
  "walLockShared s lockIdx =
     (if exclusiveMode (wal s) \<noteq> WAL_NORMAL_MODE then (SQLITE_OK, s) else lock_next s)"

definition walLockExclusive :: "wal_sys \<Rightarrow> nat \<Rightarrow> nat \<Rightarrow> nat \<times> wal_sys" where
  "walLockExclusive s lockIdx n =
     (if exclusiveMode (wal s) \<noteq> WAL_NORMAL_MODE then (SQLITE_OK, s) else lock_next s)"

section \<open>Checksums\<close>

definition load32 :: "u8 \<Rightarrow> u8 \<Rightarrow> u8 \<Rightarrow> u8 \<Rightarrow> u32" where
  "load32 b0 b1 b2 b3 =
     ucast b0 OR push_bit 8 (ucast b1) OR push_bit 16 (ucast b2) OR push_bit 24 (ucast b3)"

definition BYTESWAP32 :: "u32 \<Rightarrow> u32" where
  "BYTESWAP32 x =
     push_bit 24 (x AND 0x000000FF) + push_bit 8 (x AND 0x0000FF00)
     + drop_bit 8 (x AND 0x00FF0000) + drop_bit 24 (x AND 0xFF000000)"

text \<open>
  The sum over words of 32 bits, two at a time, in the byte order of the machine, which is
  little-endian, or in the other one. The bytes come in multiples of eight.
\<close>

fun walChecksumBytes :: "bool \<Rightarrow> u8 list \<Rightarrow> u32 \<times> u32 \<Rightarrow> u32 \<times> u32" where
  "walChecksumBytes nativeCksum (a0 # a1 # a2 # a3 # a4 # a5 # a6 # a7 # a) (s1, s2) =
     (let w0 = load32 a0 a1 a2 a3;
          w1 = load32 a4 a5 a6 a7;
          s1 = s1 + ((if nativeCksum then w0 else BYTESWAP32 w0) + s2);
          s2 = s2 + ((if nativeCksum then w1 else BYTESWAP32 w1) + s1)
      in walChecksumBytes nativeCksum a (s1, s2))"
| "walChecksumBytes nativeCksum a s = s"

text \<open>The machine is little-endian.\<close>

definition SQLITE_BIGENDIAN :: u8 where "SQLITE_BIGENDIAN = 0"

section \<open>Frames\<close>

definition WAL_FRAME_HDRSIZE :: nat where "WAL_FRAME_HDRSIZE = 24"
definition WAL_HDRSIZE :: nat where "WAL_HDRSIZE = 32"
definition WAL_MAGIC :: u32 where "WAL_MAGIC = 0x377f0682"
definition WAL_MAX_VERSION :: u32 where "WAL_MAX_VERSION = 3007000"
definition WALINDEX_MAX_VERSION :: u32 where "WALINDEX_MAX_VERSION = 3007000"
definition SQLITE_MAX_PAGE_SIZE :: nat where "SQLITE_MAX_PAGE_SIZE = 65536"

definition walFrameOffset :: "nat \<Rightarrow> nat \<Rightarrow> nat" where
  "walFrameOffset iFrame szPg = WAL_HDRSIZE + (iFrame - 1) * (szPg + WAL_FRAME_HDRSIZE)"

text \<open>\<open>sqlite3Get4byte(&p[i])\<close> for a buffer that has the four bytes.\<close>

definition get4 :: "u8 list \<Rightarrow> nat \<Rightarrow> u32" where
  "get4 p i = the (sqlite3Get4byte (drop i p))"

definition native_cksum :: "Wal \<Rightarrow> bool" where
  "native_cksum W = (bigEndCksum (hdr W) = SQLITE_BIGENDIAN)"

definition walEncodeFrame :: "Wal \<Rightarrow> u32 \<Rightarrow> u32 \<Rightarrow> u8 list \<Rightarrow> u8 list \<times> Wal" where
  "walEncodeFrame W iPage nTruncate aData =
     (let aFrame = sqlite3Put4byte iPage @ sqlite3Put4byte nTruncate
      in if iReCksum W = 0 then
           let ck = walChecksumBytes (native_cksum W) aFrame (aFrameCksum (hdr W));
               ck = walChecksumBytes (native_cksum W) (take (unat (szPage W)) aData) ck
           in (aFrame @ aSalt (hdr W) @ sqlite3Put4byte (fst ck) @ sqlite3Put4byte (snd ck),
               W\<lparr>hdr := (hdr W)\<lparr>aFrameCksum := ck\<rparr>\<rparr>)
         else (aFrame @ replicate 16 0, W))"

definition walDecodeFrame :: "Wal \<Rightarrow> u8 list \<Rightarrow> u8 list \<Rightarrow> (u32 \<times> u32) option \<times> Wal" where
  "walDecodeFrame W aData aFrame =
     (if aSalt (hdr W) \<noteq> take 8 (drop 8 aFrame) then (None, W)
      else if get4 aFrame 0 = 0 then (None, W)
      else
        let ck = walChecksumBytes (native_cksum W) (take 8 aFrame) (aFrameCksum (hdr W));
            ck = walChecksumBytes (native_cksum W) (take (unat (szPage W)) aData) ck;
            W1 = W\<lparr>hdr := (hdr W)\<lparr>aFrameCksum := ck\<rparr>\<rparr>
        in if fst ck \<noteq> get4 aFrame 16 \<or> snd ck \<noteq> get4 aFrame 20 then (None, W1)
           else (Some (get4 aFrame 0, get4 aFrame 4), W1))"

section \<open>The header of the index\<close>

text \<open>The bytes of a header in memory, up to its checksum.\<close>

definition le32 :: "u32 \<Rightarrow> u8 list" where
  "le32 v = [ucast v, ucast (drop_bit 8 v), ucast (drop_bit 16 v), ucast (drop_bit 24 v)]"

definition hdr_bytes :: "WalIndexHdr \<Rightarrow> u8 list" where
  "hdr_bytes h =
     le32 (iVersion h) @ le32 (unused h) @ le32 (iChange h) @
     [isInit h, bigEndCksum h, ucast (hszPage h), ucast (drop_bit 8 (hszPage h))] @
     le32 (mxFrame h) @ le32 (nPage h) @ le32 (fst (aFrameCksum h)) @ le32 (snd (aFrameCksum h)) @
     aSalt h"

definition walIndexWriteHdr :: "Wal \<Rightarrow> Wal" where
  "walIndexWriteHdr W =
     (let h = (hdr W)\<lparr>isInit := 1, iVersion := WALINDEX_MAX_VERSION\<rparr>;
          h = h\<lparr>aCksum := walChecksumBytes True (hdr_bytes h) (0, 0)\<rparr>
      in W\<lparr>hdr := h, wi := (wi W)\<lparr>hdr1 := h, hdr0 := h\<rparr>\<rparr>)"

text \<open>The result is the return value, nonzero for a problem, and whether the header changed.\<close>

definition walIndexTryHdr :: "Wal \<Rightarrow> bool \<times> bool \<times> Wal" where
  "walIndexTryHdr W =
     (let h1 = hdr0 (wi W); h2 = hdr1 (wi W)
      in if h1 \<noteq> h2 then (True, False, W)
         else if isInit h1 = 0 then (True, False, W)
         else if walChecksumBytes True (hdr_bytes h1) (0, 0) \<noteq> aCksum h1 then (True, False, W)
         else if hdr W \<noteq> h1
         then (False, True,
               W\<lparr>hdr := h1,
                 szPage := (ucast (hszPage h1) AND 0xfe00) + push_bit 16 (ucast (hszPage h1) AND 0x0001)\<rparr>)
         else (False, False, W))"

section \<open>Opening a log\<close>

definition SQLITE_OPEN_READONLY :: nat where "SQLITE_OPEN_READONLY = 1"
definition SQLITE_IOCAP_SEQUENTIAL :: nat where "SQLITE_IOCAP_SEQUENTIAL = 0x400"
definition SQLITE_IOCAP_POWERSAFE_OVERWRITE :: nat where "SQLITE_IOCAP_POWERSAFE_OVERWRITE = 0x1000"
definition WAL_RDONLY :: nat where "WAL_RDONLY = 1"

definition zero_index :: wal_index where
  "zero_index = zero_page 0 \<lparr>hdr0 = zero_hdr, hdr1 = zero_hdr,
     ckptInfo = \<lparr>nBackfill = 0, aReadMark = [], nBackfillAttempted = 0\<rparr>,
     ipage = (\<lambda>_. \<lparr>aWord = (\<lambda>_. 0), aHash = (\<lambda>_. 0)\<rparr>)\<rparr>"

text \<open>
  \<open>mem\<close>, \<open>openLog\<close> and \<open>iDC\<close> are what the allocation, the opening of the file (result code and
  flags) and the device report; \<open>shm\<close> is the shared memory that the handle will map.
\<close>

definition sqlite3WalOpen :: "bool \<Rightarrow> nat \<times> nat \<Rightarrow> nat \<Rightarrow> wal_index \<Rightarrow> bool \<Rightarrow> int \<Rightarrow> nat \<times> Wal option" where
  "sqlite3WalOpen mem openLog iDC shm bNoShm mx =
     (if \<not> mem then (SQLITE_NOMEM, None)
      else
        let (rc, flags) = openLog;
            W = \<lparr>wi = shm, iCallback = 0, mxWalSize = mx, nWiData = 0, apWiData = (\<lambda>_. False),
                 szPage = 0, readLock = - 1,
                 exclusiveMode = (if bNoShm then WAL_HEAPMEMORY_MODE else WAL_NORMAL_MODE),
                 writeLock = False, ckptLock = False,
                 readOnly = (if rc = SQLITE_OK \<and> flags AND SQLITE_OPEN_READONLY \<noteq> 0 then WAL_RDONLY else 0),
                 truncateOnCommit = False, syncHeader = (iDC AND SQLITE_IOCAP_SEQUENTIAL = 0),
                 padToSectorBoundary = (iDC AND SQLITE_IOCAP_POWERSAFE_OVERWRITE = 0),
                 hdr = zero_hdr, minFrame = 0, iReCksum = 0, nCkpt = 0\<rparr>
        in if rc \<noteq> SQLITE_OK then (rc, None) else (SQLITE_OK, Some W))"

definition sqlite3WalLimit :: "Wal \<Rightarrow> int \<Rightarrow> Wal" where
  "sqlite3WalLimit W iLimit = W\<lparr>mxWalSize := iLimit\<rparr>"

lemma map_ok_open: "sqlite3WalOpen mem openLog iDC shm bNoShm mx = (rc, Some W) \<Longrightarrow> map_ok W"
  by (auto simp: sqlite3WalOpen_def map_ok_def Let_def split: if_splits prod.splits)

section \<open>Recovery\<close>

text \<open>
  The loop over the frames of a log of \<open>nSize\<close> bytes: \<open>iFrame\<close> frames are read, \<open>ck\<close> is the
  checksum after the last frame that ends a transaction.
\<close>

function recover_frames :: "wal_env \<Rightarrow> u32 \<Rightarrow> nat \<Rightarrow> wal_sys \<Rightarrow> u32 \<Rightarrow> nat \<Rightarrow> u32 \<times> u32
    \<Rightarrow> nat \<times> (u32 \<times> u32) \<times> wal_sys" where
  "recover_frames E szPg nSize s iFrame iOffset ck =
     (if iOffset + (unat szPg + WAL_FRAME_HDRSIZE) \<le> nSize then
        let iFrame = iFrame + 1;
            (rc, aFrame, s) = os_read s (unat szPg + WAL_FRAME_HDRSIZE) iOffset
        in if rc \<noteq> SQLITE_OK then (rc, ck, s)
           else case walDecodeFrame (wal s) (drop WAL_FRAME_HDRSIZE aFrame) aFrame of
             (None, W) \<Rightarrow> (rc, ck, s\<lparr>wal := W\<rparr>)
           | (Some (pgno, nTruncate), W) \<Rightarrow>
               let (rc, W) = walIndexAppend E W iFrame pgno
               in if rc \<noteq> SQLITE_OK then (rc, ck, s\<lparr>wal := W\<rparr>)
                  else
                    let (W, ck) =
                          (if nTruncate \<noteq> 0
                           then (W\<lparr>hdr := (hdr W)\<lparr>mxFrame := iFrame, nPage := nTruncate,
                                    hszPage := ucast ((szPg AND 0xff00) OR drop_bit 16 szPg)\<rparr>\<rparr>,
                                 aFrameCksum (hdr W))
                           else (W, ck))
                    in recover_frames E szPg nSize (s\<lparr>wal := W\<rparr>) iFrame
                         (iOffset + (unat szPg + WAL_FRAME_HDRSIZE)) ck
      else (SQLITE_OK, ck, s))"
  by pat_completeness auto
termination
  by (relation "measure (\<lambda>(E, sz, n, s, i, off, ck). n - off)") (auto simp: WAL_FRAME_HDRSIZE_def)

declare recover_frames.simps [simp del]

text \<open>
  The part for a log that is longer than its header. The Boolean says that an error skips
  everything that follows; \<open>mem\<close> whether the buffer for a frame can be allocated.
\<close>

definition recover_log :: "wal_env \<Rightarrow> bool \<Rightarrow> nat \<Rightarrow> wal_sys \<Rightarrow> nat \<times> bool \<times> (u32 \<times> u32) \<times> wal_sys" where
  "recover_log E mem nSize s =
     (let (rc, aBuf, s) = os_read s WAL_HDRSIZE 0
      in if rc \<noteq> SQLITE_OK then (rc, True, (0, 0), s)
         else
           let magic = get4 aBuf 0; szPg = get4 aBuf 8
           in if magic AND 0xFFFFFFFE \<noteq> WAL_MAGIC \<or> szPg AND (szPg - 1) \<noteq> 0
                 \<or> int SQLITE_MAX_PAGE_SIZE < sint szPg \<or> sint szPg < 512
              then (rc, False, (0, 0), s)
              else
                let h = (hdr (wal s))\<lparr>bigEndCksum := ucast (magic AND 1), aSalt := take 8 (drop 16 aBuf)\<rparr>;
                    W = (wal s)\<lparr>szPage := szPg, nCkpt := get4 aBuf 12, hdr := h\<rparr>;
                    c = walChecksumBytes (native_cksum W) (take (WAL_HDRSIZE - 2 * 4) aBuf) (0, 0);
                    W = W\<lparr>hdr := h\<lparr>aFrameCksum := c\<rparr>\<rparr>;
                    s = s\<lparr>wal := W\<rparr>
                in if fst c \<noteq> get4 aBuf 24 \<or> snd c \<noteq> get4 aBuf 28 then (rc, False, (0, 0), s)
                   else if get4 aBuf 4 \<noteq> WAL_MAX_VERSION then (SQLITE_CANTOPEN, False, (0, 0), s)
                   else if \<not> mem then (SQLITE_NOMEM, True, (0, 0), s)
                   else
                     let (rc, ck, s) = recover_frames E szPg nSize s 0 WAL_HDRSIZE (0, 0)
                     in (rc, False, ck, s))"

definition recover_finish :: "u32 \<times> u32 \<Rightarrow> wal_sys \<Rightarrow> wal_sys" where
  "recover_finish ck s =
     (let W = walIndexWriteHdr ((wal s)\<lparr>hdr := (hdr (wal s))\<lparr>aFrameCksum := ck\<rparr>\<rparr>);
          mx = mxFrame (hdr W);
          marks = 0 # (if mx \<noteq> 0 then mx else READMARK_NOT_USED) # replicate (WAL_NREADER - 2) READMARK_NOT_USED;
          info = \<lparr>nBackfill = 0, aReadMark = marks, nBackfillAttempted = mx\<rparr>
      in s\<lparr>wal := W\<lparr>wi := (wi W)\<lparr>ckptInfo := info\<rparr>\<rparr>\<rparr>)"

definition walIndexRecover :: "wal_env \<Rightarrow> bool \<Rightarrow> wal_sys \<Rightarrow> nat \<times> wal_sys" where
  "walIndexRecover E mem s =
     (let iLock = WAL_ALL_BUT_WRITE + (if ckptLock (wal s) then 1 else 0);
          nLock = SQLITE_SHM_NLOCK - iLock;
          (rc, s) = walLockExclusive s iLock nLock
      in if rc \<noteq> SQLITE_OK then (rc, s)
         else
           let s = s\<lparr>wal := (wal s)\<lparr>hdr := zero_hdr\<rparr>\<rparr>;
               (rc, nSize, s) = os_size s
           in if rc \<noteq> SQLITE_OK then (rc, s)
              else
                let (rc, err, ck, s) =
                      (if WAL_HDRSIZE < nSize then recover_log E mem nSize s else (rc, False, (0, 0), s))
                in if err \<or> rc \<noteq> SQLITE_OK then (rc, s) else (rc, recover_finish ck s))"

section \<open>The format of the log\<close>

text \<open>
  A frame is a page number, the size of the database for the last frame of a transaction or 0,
  and the content of the page. The checksum goes on from frame to frame.
\<close>

type_synonym wal_frame = "u32 \<times> u32 \<times> u8 list"

definition frame_ck :: "bool \<Rightarrow> u32 \<times> u32 \<Rightarrow> wal_frame \<Rightarrow> u32 \<times> u32" where
  "frame_ck native ck f = (case f of (pg, nt, d) \<Rightarrow>
     walChecksumBytes native d (walChecksumBytes native (sqlite3Put4byte pg @ sqlite3Put4byte nt) ck))"

definition enc_frame :: "bool \<Rightarrow> u8 list \<Rightarrow> u32 \<times> u32 \<Rightarrow> wal_frame \<Rightarrow> u8 list" where
  "enc_frame native salt ck f = (case f of (pg, nt, d) \<Rightarrow>
     sqlite3Put4byte pg @ sqlite3Put4byte nt @ salt @
     sqlite3Put4byte (fst (frame_ck native ck f)) @ sqlite3Put4byte (snd (frame_ck native ck f)) @ d)"

fun enc_frames :: "bool \<Rightarrow> u8 list \<Rightarrow> u32 \<times> u32 \<Rightarrow> wal_frame list \<Rightarrow> u8 list" where
  "enc_frames native salt ck [] = []"
| "enc_frames native salt ck (f # fs) =
     enc_frame native salt ck f @ enc_frames native salt (frame_ck native ck f) fs"

definition frame_ok :: "nat \<Rightarrow> wal_frame \<Rightarrow> bool" where
  "frame_ok sz f \<longleftrightarrow> fst f \<noteq> 0 \<and> length (snd (snd f)) = sz"

lemma length_Put4byte [simp]: "length (sqlite3Put4byte v) = 4"
  by (simp add: sqlite3Put4byte_def)

lemma length_enc_frame: "length salt = 8 \<Longrightarrow> length (enc_frame native salt ck (pg, nt, d)) = 24 + length d"
  by (simp add: enc_frame_def)

lemma length_enc_frames:
  "length salt = 8 \<Longrightarrow> \<forall>f\<in>set fs. frame_ok sz f \<Longrightarrow>
    length (enc_frames native salt ck fs) = length fs * (sz + 24)"
proof (induction fs arbitrary: ck)
  case (Cons f fs)
  then show ?case by (cases f) (simp add: length_enc_frame frame_ok_def)
qed simp

lemma get4_Put: "get4 (sqlite3Put4byte v @ r) 0 = v"
  by (simp add: get4_def Get4byte_Put4byte)

lemma get4_skip: "length a = n \<Longrightarrow> get4 (a @ r) (n + i) = get4 r i"
  by (simp add: get4_def)

lemma get4_frame:
  assumes "length salt = 8"
  shows "get4 (sqlite3Put4byte a @ sqlite3Put4byte b @ salt @ sqlite3Put4byte c @ sqlite3Put4byte d @ r) 0 = a"
    "get4 (sqlite3Put4byte a @ sqlite3Put4byte b @ salt @ sqlite3Put4byte c @ sqlite3Put4byte d @ r) 4 = b"
    "get4 (sqlite3Put4byte a @ sqlite3Put4byte b @ salt @ sqlite3Put4byte c @ sqlite3Put4byte d @ r) 16 = c"
    "get4 (sqlite3Put4byte a @ sqlite3Put4byte b @ salt @ sqlite3Put4byte c @ sqlite3Put4byte d @ r) 20 = d"
  using assms by (simp_all add: get4_def Get4byte_Put4byte)

lemma Put4byte_get4:
  assumes "i + 4 \<le> length p"
  shows "sqlite3Put4byte (get4 p i) = take 4 (drop i p)"
proof -
  have "0 < length (drop i p)" "1 < length (drop i p)" "2 < length (drop i p)" "3 < length (drop i p)"
    using assms by simp_all
  then have "sqlite3Get4byte (drop i p) \<noteq> None" unfolding sqlite3Get4byte_def rd_def by (simp only: if_True bind.bind_lunit) simp
  then obtain v where "sqlite3Get4byte (drop i p) = Some v" by blast
  then show ?thesis using Put4byte_Get4byte by (simp add: get4_def)
qed

text \<open>Decoding accepts exactly the encodings of the next frame of the chain.\<close>

lemma walDecodeFrame_enc:
  assumes "length (aSalt (hdr W)) = 8" and "frame_ok (unat (szPage W)) f"
    and b: "b = enc_frame (native_cksum W) (aSalt (hdr W)) (aFrameCksum (hdr W)) f"
  shows "walDecodeFrame W (drop 24 b) b =
    (Some (fst f, fst (snd f)), W\<lparr>hdr := (hdr W)\<lparr>aFrameCksum := frame_ck (native_cksum W) (aFrameCksum (hdr W)) f\<rparr>\<rparr>)"
proof -
  obtain pg nt d where f: "f = (pg, nt, d)" by (cases f) auto
  have d: "length d = unat (szPage W)" "pg \<noteq> 0" using assms(2) f by (simp_all add: frame_ok_def)
  let ?c = "frame_ck (native_cksum W) (aFrameCksum (hdr W)) f"
  have b': "b = sqlite3Put4byte pg @ sqlite3Put4byte nt @ aSalt (hdr W) @
      sqlite3Put4byte (fst ?c) @ sqlite3Put4byte (snd ?c) @ d"
    by (simp add: b f enc_frame_def)
  have salt: "take 8 (drop 8 b) = aSalt (hdr W)" "drop 24 b = d"
    "take 8 b = sqlite3Put4byte pg @ sqlite3Put4byte nt"
    using assms(1) by (simp_all add: b')
  show ?thesis
    using d salt get4_frame [OF assms(1)] unfolding walDecodeFrame_def
    by (simp add: b' f frame_ck_def Let_def)
qed

lemma walDecodeFrame_Some:
  assumes len: "length b = 24 + unat (szPage W)" "length (aSalt (hdr W)) = 8"
    and dec: "walDecodeFrame W (drop 24 b) b = (Some (pg, nt), W')"
  shows "frame_ok (unat (szPage W)) (pg, nt, drop 24 b) \<and>
    b = enc_frame (native_cksum W) (aSalt (hdr W)) (aFrameCksum (hdr W)) (pg, nt, drop 24 b)"
proof -
  let ?c = "frame_ck (native_cksum W) (aFrameCksum (hdr W)) (pg, nt, drop 24 b)"
  have h: "aSalt (hdr W) = take 8 (drop 8 b)" "pg = get4 b 0" "nt = get4 b 4" "pg \<noteq> 0"
    using dec by (auto simp: walDecodeFrame_def Let_def split: if_splits)
  have pgnt: "sqlite3Put4byte pg = take 4 b" "sqlite3Put4byte nt = take 4 (drop 4 b)"
    using Put4byte_get4 [of 0 b] Put4byte_get4 [of 4 b] len h by simp_all
  then have take8: "take 8 b = sqlite3Put4byte pg @ sqlite3Put4byte nt"
    using take_add [of 4 4 b] by simp
  have "fst ?c = get4 b 16" "snd ?c = get4 b 20"
    using dec len(1) take8 by (auto simp: walDecodeFrame_def Let_def frame_ck_def split: if_splits)
  then have c: "sqlite3Put4byte (fst ?c) = take 4 (drop 16 b)" "sqlite3Put4byte (snd ?c) = take 4 (drop 20 b)"
    using Put4byte_get4 [of 16 b] Put4byte_get4 [of 20 b] len by simp_all
  have split: "take n (drop i b) @ drop (i + n) b = drop i b" for i n
    by (metis append_take_drop_id drop_drop add.commute)
  have "b = take 4 b @ take 4 (drop 4 b) @ take 8 (drop 8 b) @ take 4 (drop 16 b) @ take 4 (drop 20 b) @ drop 24 b"
    using split [of 4 4] split [of 8 8] split [of 4 16] split [of 4 20] by simp
  then show ?thesis
    using h len pgnt c by (simp add: enc_frame_def frame_ok_def)
qed

section \<open>What recovery finds\<close>

definition chain :: "bool \<Rightarrow> u32 \<times> u32 \<Rightarrow> wal_frame list \<Rightarrow> u32 \<times> u32" where
  "chain native ck fs = fold (\<lambda>f c. frame_ck native c f) fs ck"

lemma chain_simps [simp]:
  "chain native ck [] = ck" "chain native ck (f # fs) = chain native (frame_ck native ck f) fs"
  "chain native ck (fs @ gs) = chain native (chain native ck fs) gs"
  by (simp_all add: chain_def)

lemma enc_frames_append [simp]:
  "enc_frames native salt ck (fs @ gs) = enc_frames native salt ck fs @ enc_frames native salt (chain native ck fs) gs"
  by (induction fs arbitrary: ck) simp_all

text \<open>The frames up to the last one that ends a transaction.\<close>

definition committed :: "wal_frame list \<Rightarrow> wal_frame list" where
  "committed fs = rev (dropWhile (\<lambda>f. fst (snd f) = 0) (rev fs))"

lemma committed_Nil [simp]: "committed [] = []"
  by (simp add: committed_def)

lemma committed_snoc: "committed (fs @ [f]) = (if fst (snd f) = 0 then committed fs else fs @ [f])"
  by (simp add: committed_def)

definition page_size_field :: "u32 \<Rightarrow> u16" where
  "page_size_field szPg = ucast ((szPg AND 0xff00) OR drop_bit 16 szPg)"

text \<open>The header of the index after the frames \<open>fs\<close> have been read.\<close>

definition read_hdr :: "bool \<Rightarrow> u32 \<Rightarrow> WalIndexHdr \<Rightarrow> u32 \<times> u32 \<Rightarrow> wal_frame list \<Rightarrow> WalIndexHdr" where
  "read_hdr native szPg h ck fs =
     (if committed fs = [] then h
      else h\<lparr>mxFrame := of_nat (length (committed fs)), nPage := fst (snd (last (committed fs))),
             hszPage := page_size_field szPg\<rparr>)\<lparr>aFrameCksum := chain native ck fs\<rparr>"

definition commit_ck :: "bool \<Rightarrow> u32 \<times> u32 \<Rightarrow> wal_frame list \<Rightarrow> u32 \<times> u32" where
  "commit_ck native ck fs = (if committed fs = [] then (0, 0) else chain native ck (committed fs))"

text \<open>The bytes \<open>r\<close> do not go on with a frame of the chain.\<close>

definition log_ends :: "bool \<Rightarrow> u8 list \<Rightarrow> nat \<Rightarrow> u32 \<times> u32 \<Rightarrow> u8 list \<Rightarrow> bool" where
  "log_ends native salt sz ck r \<longleftrightarrow> (\<forall>f. frame_ok sz f \<longrightarrow> take (24 + sz) r \<noteq> enc_frame native salt ck f)"

lemma os_read_ok:
  assumes "ios s = []" and "ofst + n \<le> length (logF s)"
  shows "os_read s n ofst = (SQLITE_OK, take n (drop ofst (logF s)), s)"
  using assms by (simp add: os_read_def io_next_def)

lemma read_hdr_simps [simp]:
  "aSalt (read_hdr native szPg h ck fs) = aSalt h" "bigEndCksum (read_hdr native szPg h ck fs) = bigEndCksum h"
  "aFrameCksum (read_hdr native szPg h ck fs) = chain native ck fs"
  by (simp_all add: read_hdr_def)

lemma walDecodeFrame_hdr:
  obtains c where "snd (walDecodeFrame W d b) = W\<lparr>hdr := (hdr W)\<lparr>aFrameCksum := c\<rparr>\<rparr>"
proof (cases "aSalt (hdr W) \<noteq> take 8 (drop 8 b) \<or> get4 b 0 = 0")
  case True
  then have "snd (walDecodeFrame W d b) = W" by (auto simp: walDecodeFrame_def)
  then show ?thesis using that [of "aFrameCksum (hdr W)"] by simp
next
  case False
  then show ?thesis
    by (intro that [of "walChecksumBytes (native_cksum W) (take (unat (szPage W)) d)
          (walChecksumBytes (native_cksum W) (take 8 b) (aFrameCksum (hdr W)))"])
      (simp add: walDecodeFrame_def Let_def)
qed

lemma recover_frames_end:
  assumes W: "hdr (wal s) = read_hdr native szPg h ck ds" "szPage (wal s) = szPg"
    and h: "native = (bigEndCksum h = SQLITE_BIGENDIAN)" "length (aSalt h) = 8"
    and log: "logF s = pre @ rest" "iOffset = length pre" "ios s = []"
    and ends: "log_ends native (aSalt h) (unat szPg) (chain native ck ds) rest"
  shows "\<exists>c. recover_frames E szPg (length (logF s)) s iFrame iOffset ckc =
    (SQLITE_OK, ckc, s\<lparr>wal := (wal s)\<lparr>hdr := (hdr (wal s))\<lparr>aFrameCksum := c\<rparr>\<rparr>\<rparr>)"
proof (cases "unat szPg + 24 \<le> length rest")
  case False
  show ?thesis
  proof -
    have "recover_frames E szPg (length (logF s)) s iFrame iOffset ckc = (SQLITE_OK, ckc, s)"
      using log False by (subst recover_frames.simps) (simp add: WAL_FRAME_HDRSIZE_def)
    then show ?thesis by (intro exI [of _ "aFrameCksum (hdr (wal s))"]) simp
  qed
next
  case True
  let ?b = "take (unat szPg + 24) rest"
  have b: "length ?b = 24 + unat (szPage (wal s))" using True W(2) by simp
  have "fst (walDecodeFrame (wal s) (drop 24 ?b) ?b) = None"
  proof (rule ccontr)
    assume "fst (walDecodeFrame (wal s) (drop 24 ?b) ?b) \<noteq> None"
    then obtain pg nt W' where "walDecodeFrame (wal s) (drop 24 ?b) ?b = (Some (pg, nt), W')"
      by (cases "walDecodeFrame (wal s) (drop 24 ?b) ?b") auto
    from walDecodeFrame_Some [OF b _ this] show False
      using ends W h by (auto simp: log_ends_def native_cksum_def add.commute)
  qed
  moreover obtain c where "snd (walDecodeFrame (wal s) (drop 24 ?b) ?b) = (wal s)\<lparr>hdr := (hdr (wal s))\<lparr>aFrameCksum := c\<rparr>\<rparr>"
    by (rule walDecodeFrame_hdr)
  ultimately have dec: "walDecodeFrame (wal s) (drop 24 ?b) ?b =
      (None, (wal s)\<lparr>hdr := (hdr (wal s))\<lparr>aFrameCksum := c\<rparr>\<rparr>)"
    by (simp add: prod_eq_iff)
  have "os_read s (unat szPg + 24) iOffset = (SQLITE_OK, ?b, s)"
    using log True by (subst os_read_ok) simp_all
  then show ?thesis
    using dec log True by (intro exI [of _ c], subst recover_frames.simps) (simp add: WAL_FRAME_HDRSIZE_def)
qed

text \<open>The state after the frames \<open>ds\<close> have been read.\<close>

definition reading :: "bool \<Rightarrow> u32 \<Rightarrow> WalIndexHdr \<Rightarrow> u32 \<times> u32 \<Rightarrow> Wal \<Rightarrow> wal_frame list \<Rightarrow> Wal \<Rightarrow> bool" where
  "reading native szPg h ck W0 ds W \<longleftrightarrow>
     index_repr W (map fst ds) \<and> hdr W = read_hdr native szPg h ck ds \<and> szPage W = szPg \<and>
     index_only (W0\<lparr>hdr := hdr W\<rparr>) W"

lemma index_only_hdr: "index_only (U\<lparr>hdr := h\<rparr>) V \<Longrightarrow> index_only (U\<lparr>hdr := h'\<rparr>) (V\<lparr>hdr := h'\<rparr>)"
  by (cases U; cases V) (simp add: index_only_def)

lemma reading_step:
  assumes r: "reading native szPg h ck W0 ds W" and E: "env_ok E" and len: "length ds < MAX_FRAMES"
    and h: "native = (bigEndCksum h = SQLITE_BIGENDIAN)" "length (aSalt h) = 8"
    and f: "frame_ok (unat szPg) f" and b: "b = enc_frame native (aSalt h) (chain native ck ds) f"
    and W1: "W1 = W\<lparr>hdr := (hdr W)\<lparr>aFrameCksum := chain native ck (ds @ [f])\<rparr>\<rparr>"
  obtains W2 where "walDecodeFrame W (drop 24 b) b = (Some (fst f, fst (snd f)), W1)"
    and "walIndexAppend E W1 (of_nat (length ds) + 1) (fst f) = (SQLITE_OK, W2)"
    and "reading native szPg h ck W0 (ds @ [f])
      (if fst (snd f) \<noteq> 0
       then W2\<lparr>hdr := (hdr W2)\<lparr>mxFrame := of_nat (length ds) + 1, nPage := fst (snd f),
                 hszPage := page_size_field szPg\<rparr>\<rparr> else W2)"
    and "hdr W2 = hdr W1"
proof -
  have W: "index_repr W (map fst ds)" "hdr W = read_hdr native szPg h ck ds" "szPage W = szPg"
    "index_only (W0\<lparr>hdr := hdr W\<rparr>) W"
    using r unfolding reading_def by blast+
  have native: "native_cksum W = native" using W(2) h(1) by (simp add: native_cksum_def)
  have dec: "walDecodeFrame W (drop 24 b) b = (Some (fst f, fst (snd f)), W1)"
    using walDecodeFrame_enc [of W f b] W native h(2) f b W1 by simp
  let ?i = "of_nat (length ds) + 1 :: u32"
  have i: "unat ?i = length ds + 1"
  proof -
    have "?i = of_nat (length ds + 1)" by simp
    then show ?thesis using len by (simp only: unat_of_nat) (simp add: take_bit_nat_eq_self)
  qed
  obtain rc W2 where app: "walIndexAppend E W1 ?i (fst f) = (rc, W2)" by (cases "walIndexAppend E W1 ?i (fst f)")
  obtain rc' q V where page: "walIndexPage E W1 (table_of (unat ?i)) = (rc', q, V)" by (metis prod_cases3)
  have rc': "rc' = SQLITE_OK" using walIndexPage_ok [OF E page] .
  have repr1: "index_repr W1 (map fst ds)" using W(1) W1 by simp
  have p: "fst f \<noteq> 0" using f by (simp add: frame_ok_def)
  note app_repr = walIndexAppend_repr [OF repr1 _ _ _ p _ app page]
  have rc: "rc = SQLITE_OK" and repr2: "index_repr W2 (map fst ds @ [fst f])" and hdr2: "hdr W2 = hdr W1"
    using app_repr(1,2,3) i len rc' by simp_all
  have only: "index_only W1 W2" using index_only_append [OF app] .
  have sz: "szPage W2 = szPg" using index_only_fields [OF only] W(3) W1 by simp
  have from_W0: "index_only (W0\<lparr>hdr := hdr W1\<rparr>) W2"
    using index_only_trans [OF _ only] index_only_hdr [OF W(4), of "hdr W1"] W1 by simp
  let ?W = "if fst (snd f) \<noteq> 0 then W2\<lparr>hdr := (hdr W2)\<lparr>mxFrame := ?i, nPage := fst (snd f),
                 hszPage := page_size_field szPg\<rparr>\<rparr> else W2"
  have "hdr ?W = read_hdr native szPg h ck (ds @ [f])"
  proof (cases "fst (snd f) = 0")
    case True
    then show ?thesis using hdr2 W1 W(2) by (simp add: read_hdr_def committed_snoc)
  next
    case False
    then show ?thesis using hdr2 W1 W(2) by (simp add: read_hdr_def committed_snoc add.commute)
  qed
  moreover have "index_only (W0\<lparr>hdr := hdr ?W\<rparr>) ?W"
    using index_only_hdr [OF from_W0] from_W0 hdr2 by auto
  ultimately have "reading native szPg h ck W0 (ds @ [f]) ?W"
    using repr2 sz by (simp add: reading_def)
  with dec app rc hdr2 show thesis using that by blast
qed

lemma recover_frames_read:
  assumes "reading native szPg h ck W0 ds (wal s)" and E: "env_ok E"
    and "length ds + length fs < MAX_FRAMES"
    and h: "native = (bigEndCksum h = SQLITE_BIGENDIAN)" "length (aSalt h) = 8"
    and fs: "\<forall>f\<in>set fs. frame_ok (unat szPg) f"
    and log: "logF s = pre @ enc_frames native (aSalt h) (chain native ck ds) fs @ rest" "ios s = []"
    and ends: "log_ends native (aSalt h) (unat szPg) (chain native ck (ds @ fs)) rest"
  shows "\<exists>c W. recover_frames E szPg (length (logF s)) s (of_nat (length ds)) (length pre) (commit_ck native ck ds) =
      (SQLITE_OK, commit_ck native ck (ds @ fs), s\<lparr>wal := W\<lparr>hdr := (hdr W)\<lparr>aFrameCksum := c\<rparr>\<rparr>\<rparr>)
    \<and> reading native szPg h ck W0 (ds @ fs) W"
  using assms(1,3,6-)
proof (induction fs arbitrary: ds s pre)
  case Nil
  have w: "hdr (wal s) = read_hdr native szPg h ck ds" "szPage (wal s) = szPg"
    using Nil.prems(1) unfolding reading_def by blast+
  have log0: "logF s = pre @ rest" and ends0: "log_ends native (aSalt h) (unat szPg) (chain native ck ds) rest"
    using Nil.prems(4,6) by simp_all
  obtain c where "recover_frames E szPg (length (logF s)) s (of_nat (length ds)) (length pre) (commit_ck native ck ds) =
      (SQLITE_OK, commit_ck native ck ds, s\<lparr>wal := (wal s)\<lparr>hdr := (hdr (wal s))\<lparr>aFrameCksum := c\<rparr>\<rparr>\<rparr>)"
    using recover_frames_end [OF w h log0 refl Nil.prems(5) ends0] by blast
  then show ?case using Nil.prems(1) by (intro exI [of _ c] exI [of _ "wal s"]) simp
next
  case (Cons f fs)
  let ?b = "enc_frame native (aSalt h) (chain native ck ds) f" and ?sz = "unat szPg"
  have f: "frame_ok ?sz f" "\<forall>f\<in>set fs. frame_ok ?sz f" using Cons.prems(3) by simp_all
  have len: "length ?b = ?sz + 24"
    using f(1) h(2) by (cases f) (simp add: length_enc_frame frame_ok_def)
  have log: "logF s = (pre @ ?b) @ enc_frames native (aSalt h) (chain native ck (ds @ [f])) fs @ rest"
    using Cons.prems(4) by simp
  have read: "os_read s (?sz + 24) (length pre) = (SQLITE_OK, ?b, s)"
    using log len Cons.prems(5) by (subst os_read_ok) simp_all
  obtain W2 where dec: "walDecodeFrame (wal s) (drop 24 ?b) ?b = (Some (fst f, fst (snd f)),
        (wal s)\<lparr>hdr := (hdr (wal s))\<lparr>aFrameCksum := chain native ck (ds @ [f])\<rparr>\<rparr>)"
    and app: "walIndexAppend E ((wal s)\<lparr>hdr := (hdr (wal s))\<lparr>aFrameCksum := chain native ck (ds @ [f])\<rparr>\<rparr>)
        (of_nat (length ds) + 1) (fst f) = (SQLITE_OK, W2)"
    and next_reading: "reading native szPg h ck W0 (ds @ [f])
      (if fst (snd f) \<noteq> 0
       then W2\<lparr>hdr := (hdr W2)\<lparr>mxFrame := of_nat (length ds) + 1, nPage := fst (snd f),
                 hszPage := page_size_field szPg\<rparr>\<rparr> else W2)"
    and hdr2: "hdr W2 = (hdr (wal s))\<lparr>aFrameCksum := chain native ck (ds @ [f])\<rparr>"
    by (rule reading_step [OF Cons.prems(1) E _ h f(1) refl refl])
      (use Cons.prems(2) in auto)
  let ?s = "s\<lparr>wal := if fst (snd f) \<noteq> 0
       then W2\<lparr>hdr := (hdr W2)\<lparr>mxFrame := of_nat (length ds) + 1, nPage := fst (snd f),
                 hszPage := page_size_field szPg\<rparr>\<rparr> else W2\<rparr>"
  have "recover_frames E szPg (length (logF s)) s (of_nat (length ds)) (length pre) (commit_ck native ck ds) =
      recover_frames E szPg (length (logF s)) ?s (of_nat (length ds) + 1) (length pre + (?sz + 24))
        (commit_ck native ck (ds @ [f]))"
  proof -
    have fits: "length pre + (?sz + WAL_FRAME_HDRSIZE) \<le> length (logF s)"
      using log len by (simp add: WAL_FRAME_HDRSIZE_def)
    have ck: "commit_ck native ck (ds @ [f]) =
        (if fst (snd f) \<noteq> 0 then chain native ck (ds @ [f]) else commit_ck native ck ds)"
      by (simp add: commit_ck_def committed_snoc)
    have hsz: "24 = WAL_FRAME_HDRSIZE" by (simp add: WAL_FRAME_HDRSIZE_def)
    show ?thesis
      using fits read [unfolded hsz] dec [unfolded hsz] app hdr2 ck
      by (subst recover_frames.simps) (cases "fst (snd f) = 0"; simp add: hsz page_size_field_def Let_def)
  qed
  moreover have "\<exists>c W. recover_frames E szPg (length (logF ?s)) ?s (of_nat (length (ds @ [f])))
        (length (pre @ ?b)) (commit_ck native ck (ds @ [f])) =
      (SQLITE_OK, commit_ck native ck ((ds @ [f]) @ fs), ?s\<lparr>wal := W\<lparr>hdr := (hdr W)\<lparr>aFrameCksum := c\<rparr>\<rparr>\<rparr>)
    \<and> reading native szPg h ck W0 ((ds @ [f]) @ fs) W"
    using Cons.prems(2,5,6) f(2) log next_reading by (intro Cons.IH) simp_all
  ultimately show ?case using len by (simp add: add.commute)
qed

text \<open>The header of the log; \<open>big\<close> is the byte order of the checksums.\<close>

definition enc_hdr_prefix :: "bool \<Rightarrow> u32 \<Rightarrow> u32 \<Rightarrow> u8 list \<Rightarrow> u8 list" where
  "enc_hdr_prefix big szPg n salt =
     sqlite3Put4byte (WAL_MAGIC OR (if big then 1 else 0)) @ sqlite3Put4byte WAL_MAX_VERSION @
     sqlite3Put4byte szPg @ sqlite3Put4byte n @ salt"

definition log_hdr_ck :: "bool \<Rightarrow> u32 \<Rightarrow> u32 \<Rightarrow> u8 list \<Rightarrow> u32 \<times> u32" where
  "log_hdr_ck big szPg n salt = walChecksumBytes (\<not> big) (enc_hdr_prefix big szPg n salt) (0, 0)"

definition enc_log_hdr :: "bool \<Rightarrow> u32 \<Rightarrow> u32 \<Rightarrow> u8 list \<Rightarrow> u8 list" where
  "enc_log_hdr big szPg n salt =
     enc_hdr_prefix big szPg n salt @
     sqlite3Put4byte (fst (log_hdr_ck big szPg n salt)) @ sqlite3Put4byte (snd (log_hdr_ck big szPg n salt))"

definition page_size_ok :: "u32 \<Rightarrow> bool" where
  "page_size_ok szPg \<longleftrightarrow> szPg AND (szPg - 1) = 0 \<and> 512 \<le> unat szPg \<and> unat szPg \<le> 65536"

lemma enc_log_hdr_parts:
  assumes "length salt = 8"
  shows "length (enc_log_hdr big szPg n salt) = 32"
    and "get4 (enc_log_hdr big szPg n salt) 0 = WAL_MAGIC OR (if big then 1 else 0)"
    and "get4 (enc_log_hdr big szPg n salt) 4 = WAL_MAX_VERSION"
    and "get4 (enc_log_hdr big szPg n salt) 8 = szPg"
    and "get4 (enc_log_hdr big szPg n salt) 12 = n"
    and "take 8 (drop 16 (enc_log_hdr big szPg n salt)) = salt"
    and "take 24 (enc_log_hdr big szPg n salt) = enc_hdr_prefix big szPg n salt"
    and "get4 (enc_log_hdr big szPg n salt) 24 = fst (log_hdr_ck big szPg n salt)"
    and "get4 (enc_log_hdr big szPg n salt) 28 = snd (log_hdr_ck big szPg n salt)"
  using assms Get4byte_Put4byte [of _ "[]"]
  by (simp_all add: enc_log_hdr_def enc_hdr_prefix_def get4_def Get4byte_Put4byte)

lemma magic_bits:
  "(WAL_MAGIC OR (if big then 1 else 0)) AND 0xFFFFFFFE = WAL_MAGIC"
  "(WAL_MAGIC OR (if big then 1 else 0)) AND 1 = (if big then 1 else 0)"
  by (cases big; simp add: WAL_MAGIC_def)+

text \<open>What holds after recovery of a log of frames \<open>fs\<close>.\<close>

definition recovered :: "u32 \<Rightarrow> u8 list \<Rightarrow> wal_frame list \<Rightarrow> Wal \<Rightarrow> bool" where
  "recovered szPg salt fs W \<longleftrightarrow>
     index_repr W (map fst fs) \<and> szPage W = szPg \<and> aSalt (hdr W) = salt \<and>
     mxFrame (hdr W) = of_nat (length (committed fs)) \<and>
     (committed fs \<noteq> [] \<longrightarrow> nPage (hdr W) = fst (snd (last (committed fs))) \<and>
                          hszPage (hdr W) = page_size_field szPg) \<and>
     hdr0 (wi W) = hdr W \<and> walIndexTryHdr W = (False, False, W) \<and>
     nBackfill (ckptInfo (wi W)) = 0 \<and>
     aReadMark (ckptInfo (wi W)) =
       [0, if committed fs = [] then READMARK_NOT_USED else mxFrame (hdr W),
        READMARK_NOT_USED, READMARK_NOT_USED, READMARK_NOT_USED]"

lemma index_repr_same:
  assumes "index_repr W pgs" and "ipage (wi W') = ipage (wi W)" "nWiData W' = nWiData W"
    "apWiData W' = apWiData W" "exclusiveMode W' = exclusiveMode W"
  shows "index_repr W' pgs"
  using assms by (simp add: index_repr_def map_ok_def)

lemma hdr_bytes_cksum [simp]: "hdr_bytes (h\<lparr>aCksum := c\<rparr>) = hdr_bytes h"
  by (simp add: hdr_bytes_def)

lemma length_committed: "length (committed fs) \<le> length fs"
  using length_dropWhile_le [of "\<lambda>f. fst (snd f) = 0" "rev fs"] by (simp add: committed_def)

lemma walIndexTryHdr_ok:
  assumes "hdr0 (wi W) = hdr W" "hdr1 (wi W) = hdr W" "isInit (hdr W) \<noteq> 0"
    "walChecksumBytes True (hdr_bytes (hdr W)) (0, 0) = aCksum (hdr W)"
  shows "walIndexTryHdr W = (False, False, W)"
  using assms by (simp add: walIndexTryHdr_def)

lemma recover_finish_recovered:
  assumes W: "index_repr (wal s) (map fst fs)" "szPage (wal s) = szPg"
    and h: "hdr (wal s) = (read_hdr native szPg h ck fs)\<lparr>aFrameCksum := c\<rparr>" "mxFrame h = 0" "aSalt h = salt"
    and len: "length fs \<le> MAX_FRAMES"
  shows "recovered szPg salt fs (wal (recover_finish ck' s))"
proof -
  have u: "unat (of_nat (length (committed fs)) :: u32) = length (committed fs)"
    using len length_committed [of fs] by (simp add: unat_of_nat take_bit_nat_eq_self)
  have zero: "(of_nat (length (committed fs)) :: u32) = 0 \<longleftrightarrow> committed fs = []"
  proof
    assume "(of_nat (length (committed fs)) :: u32) = 0"
    then have "length (committed fs) = 0" using u by (simp only: unat_0)
    then show "committed fs = []" by simp
  qed simp
  have repr: "index_repr (wal (recover_finish ck' s)) (map fst fs)"
    by (rule index_repr_same [OF W(1)]) (simp_all add: recover_finish_def walIndexWriteHdr_def Let_def)
  let ?W = "wal (recover_finish ck' s)"
  have hd: "hdr ?W = (let h = (hdr (wal s))\<lparr>aFrameCksum := ck', isInit := 1, iVersion := WALINDEX_MAX_VERSION\<rparr>
      in h\<lparr>aCksum := walChecksumBytes True (hdr_bytes h) (0, 0)\<rparr>)"
    by (simp add: recover_finish_def walIndexWriteHdr_def Let_def)
  have same: "hdr0 (wi ?W) = hdr ?W" "hdr1 (wi ?W) = hdr ?W" "szPage ?W = szPage (wal s)"
    by (simp_all add: recover_finish_def walIndexWriteHdr_def Let_def)
  have fields: "mxFrame (hdr ?W) = mxFrame (hdr (wal s))" "nPage (hdr ?W) = nPage (hdr (wal s))"
    "hszPage (hdr ?W) = hszPage (hdr (wal s))" "aSalt (hdr ?W) = aSalt (hdr (wal s))"
    unfolding hd by (simp_all add: Let_def)
  have mx: "mxFrame (hdr (wal s)) = of_nat (length (committed fs))"
    unfolding h(1) read_hdr_def using h(2) by simp
  have "isInit (hdr ?W) \<noteq> 0" "walChecksumBytes True (hdr_bytes (hdr ?W)) (0, 0) = aCksum (hdr ?W)"
    unfolding hd by (simp_all add: Let_def)
  then have "walIndexTryHdr ?W = (False, False, ?W)"
    by (rule walIndexTryHdr_ok [OF same(1,2)])
  moreover have "ckptInfo (wi ?W) = \<lparr>nBackfill = 0,
      aReadMark = [0, if committed fs = [] then READMARK_NOT_USED else mxFrame (hdr ?W),
        READMARK_NOT_USED, READMARK_NOT_USED, READMARK_NOT_USED],
      nBackfillAttempted = mxFrame (hdr ?W)\<rparr>"
    using zero mx
    by (simp add: recover_finish_def walIndexWriteHdr_def Let_def WAL_NREADER_def SQLITE_SHM_NLOCK_def
        numeral_eq_Suc)
  moreover have "committed fs \<noteq> [] \<longrightarrow> nPage (hdr (wal s)) = fst (snd (last (committed fs))) \<and>
      hszPage (hdr (wal s)) = page_size_field szPg"
    unfolding h(1) read_hdr_def by simp
  ultimately show ?thesis
    using repr same fields mx W(2) h(3) unfolding recovered_def h(1) by simp
qed

lemma recover_log_read:
  assumes E: "env_ok E" and map: "map_ok (wal s)" and len: "length fs < MAX_FRAMES"
    and sz: "page_size_ok szPg" and salt: "length salt = 8" and fs: "\<forall>f\<in>set fs. frame_ok (unat szPg) f"
    and log: "logF s = enc_log_hdr big szPg n salt @ enc_frames (\<not> big) salt (log_hdr_ck big szPg n salt) fs @ rest"
    and ios: "ios s = []" and hdr: "hdr (wal s) = zero_hdr"
    and ends: "log_ends (\<not> big) salt (unat szPg) (chain (\<not> big) (log_hdr_ck big szPg n salt) fs) rest"
  obtains W h c where "recover_log E True (length (logF s)) s =
      (SQLITE_OK, False, commit_ck (\<not> big) (log_hdr_ck big szPg n salt) fs,
       s\<lparr>wal := W\<lparr>hdr := (hdr W)\<lparr>aFrameCksum := c\<rparr>\<rparr>\<rparr>)"
    and "reading (\<not> big) szPg h (log_hdr_ck big szPg n salt) ((wal s)\<lparr>szPage := szPg, nCkpt := n\<rparr>) fs W"
    and "mxFrame h = 0" "aSalt h = salt"
proof -
  let ?h = "zero_hdr\<lparr>bigEndCksum := (if big then 1 else 0), aSalt := salt\<rparr>"
  let ?ck = "log_hdr_ck big szPg n salt"
  let ?W = "(wal s)\<lparr>szPage := szPg, nCkpt := n, hdr := ?h\<lparr>aFrameCksum := ?ck\<rparr>\<rparr>"
  note parts = enc_log_hdr_parts [OF salt, of big szPg n]
  have read: "os_read s WAL_HDRSIZE 0 = (SQLITE_OK, enc_log_hdr big szPg n salt, s)"
    using log parts(1) ios by (subst os_read_ok) (simp_all add: WAL_HDRSIZE_def)
  have "sint szPg = int (unat szPg)"
    using sz by (intro sint_small) (simp add: page_size_ok_def)
  then have sz': "\<not> (int SQLITE_MAX_PAGE_SIZE < sint szPg)" "\<not> sint szPg < 512" "szPg AND (szPg - 1) = 0"
    using sz unfolding page_size_ok_def SQLITE_MAX_PAGE_SIZE_def by linarith+
  have big8: "(ucast (if big then 1 else 0 :: u32) :: u8) = (if big then 1 else 0)" by simp
  have native: "native_cksum ((wal s)\<lparr>szPage := szPg, nCkpt := n, hdr := ?h\<rparr>) = (\<not> big)"
    by (simp add: native_cksum_def SQLITE_BIGENDIAN_def)
  have h: "(\<not> big) = (bigEndCksum ?h = SQLITE_BIGENDIAN)" "length (aSalt ?h) = 8"
    using salt by (simp_all add: SQLITE_BIGENDIAN_def)
  have eq: "recover_log E True (length (logF s)) s =
      (case recover_frames E szPg (length (logF s)) (s\<lparr>wal := ?W\<rparr>) 0 WAL_HDRSIZE (0, 0) of
         (rc, ck, s) \<Rightarrow> (rc, False, ck, s))"
    unfolding recover_log_def read using sz' native parts magic_bits [of big] hdr
    by (cases big; simp add: Let_def log_hdr_ck_def WAL_HDRSIZE_def split: prod.split)
  have start: "reading (\<not> big) szPg ?h ?ck ((wal s)\<lparr>szPage := szPg, nCkpt := n\<rparr>) [] ?W"
    using index_repr_Nil map by (simp add: reading_def read_hdr_def map_ok_def)
  have "\<exists>c W. recover_frames E szPg (length (logF s)) (s\<lparr>wal := ?W\<rparr>) 0 WAL_HDRSIZE (0, 0) =
      (SQLITE_OK, commit_ck (\<not> big) ?ck fs, s\<lparr>wal := W\<lparr>hdr := (hdr W)\<lparr>aFrameCksum := c\<rparr>\<rparr>\<rparr>)
    \<and> reading (\<not> big) szPg ?h ?ck ((wal s)\<lparr>szPage := szPg, nCkpt := n\<rparr>) fs W"
    using recover_frames_read [of "\<not> big" szPg ?h ?ck _ "[]" "s\<lparr>wal := ?W\<rparr>" E fs "enc_log_hdr big szPg n salt" rest,
        OF _ E _ h fs] start len log ios ends parts(1)
    by (simp add: WAL_HDRSIZE_def commit_ck_def)
  then obtain c W where "recover_frames E szPg (length (logF s)) (s\<lparr>wal := ?W\<rparr>) 0 WAL_HDRSIZE (0, 0) =
      (SQLITE_OK, commit_ck (\<not> big) ?ck fs, s\<lparr>wal := W\<lparr>hdr := (hdr W)\<lparr>aFrameCksum := c\<rparr>\<rparr>\<rparr>)"
    and "reading (\<not> big) szPg ?h ?ck ((wal s)\<lparr>szPage := szPg, nCkpt := n\<rparr>) fs W" by blast
  then show thesis
    using that [where W = W and h = ?h and c = c] by (simp add: eq zero_hdr_def)
qed

section \<open>Reading a page\<close>

definition hdr_page_size :: "WalIndexHdr \<Rightarrow> nat" where
  "hdr_page_size h = unat ((ucast (hszPage h) AND 0xfe00) + push_bit 16 (ucast (hszPage h) AND 1 :: u32))"

definition sqlite3WalReadFrame :: "wal_sys \<Rightarrow> u32 \<Rightarrow> nat \<Rightarrow> nat \<times> u8 list \<times> wal_sys" where
  "sqlite3WalReadFrame s iRead nOut =
     (let sz = hdr_page_size (hdr (wal s));
          iOffset = walFrameOffset (unat iRead) sz + WAL_FRAME_HDRSIZE
      in os_read s (if sz < nOut then sz else nOut) iOffset)"

lemma recover_log_committed:
  assumes "env_ok E" and "map_ok (wal s)" and "length fs < MAX_FRAMES"
    and "page_size_ok szPg" and "length salt = 8" and "\<forall>f\<in>set fs. frame_ok (unat szPg) f"
    and "logF s = enc_log_hdr big szPg n salt @ enc_frames (\<not> big) salt (log_hdr_ck big szPg n salt) fs @ rest"
    and "log_ends (\<not> big) salt (unat szPg) (chain (\<not> big) (log_hdr_ck big szPg n salt) fs) rest"
    and "fs \<noteq> []" and "ios s = []" and "locks s = []"
  shows "\<exists>W. walIndexRecover E True s = (SQLITE_OK, s\<lparr>wal := W\<rparr>) \<and> recovered szPg salt fs W"
proof -
  let ?s = "s\<lparr>wal := (wal s)\<lparr>hdr := zero_hdr\<rparr>\<rparr>"
  have lock: "walLockExclusive s i k = (SQLITE_OK, s)" for i k
    using assms(11) by (simp add: walLockExclusive_def lock_next_def)
  have size: "os_size ?s = (SQLITE_OK, length (logF s), ?s)"
    using assms(10) by (simp add: os_size_def io_next_def)
  have len: "32 < length (logF s)"
    using assms(5-7,9) enc_log_hdr_parts(1) [OF assms(5)] length_enc_frames [OF assms(5), of fs "unat szPg"]
    by simp
  have s: "map_ok (wal ?s)" "ios ?s = []" "hdr (wal ?s) = zero_hdr"
    "logF ?s = enc_log_hdr big szPg n salt @ enc_frames (\<not> big) salt (log_hdr_ck big szPg n salt) fs @ rest"
    using assms(2,7,10) by (simp_all add: map_ok_def)
  obtain W h c where log: "recover_log E True (length (logF ?s)) ?s =
      (SQLITE_OK, False, commit_ck (\<not> big) (log_hdr_ck big szPg n salt) fs,
       ?s\<lparr>wal := W\<lparr>hdr := (hdr W)\<lparr>aFrameCksum := c\<rparr>\<rparr>\<rparr>)"
    and W: "reading (\<not> big) szPg h (log_hdr_ck big szPg n salt) ((wal ?s)\<lparr>szPage := szPg, nCkpt := n\<rparr>) fs W"
    and h: "mxFrame h = 0" "aSalt h = salt"
    by (rule recover_log_read [OF assms(1) s(1) assms(3-6) s(4,2,3) assms(8)])
  let ?s' = "s\<lparr>wal := W\<lparr>hdr := (hdr W)\<lparr>aFrameCksum := c\<rparr>\<rparr>\<rparr>"
  have W': "index_repr W (map fst fs)" "szPage W = szPg"
    "hdr W = read_hdr (\<not> big) szPg h (log_hdr_ck big szPg n salt) fs"
    using W unfolding reading_def by blast+
  have "walIndexRecover E True s = (SQLITE_OK, recover_finish (commit_ck (\<not> big) (log_hdr_ck big szPg n salt) fs) ?s')"
    using lock size len log by (simp add: walIndexRecover_def WAL_HDRSIZE_def Let_def)
  moreover have "recovered szPg salt fs (wal (recover_finish (commit_ck (\<not> big) (log_hdr_ck big szPg n salt) fs) ?s'))"
    using W' h assms(3) by (intro recover_finish_recovered) simp_all
  moreover have "recover_finish ck ?s' = s\<lparr>wal := wal (recover_finish ck ?s')\<rparr>" for ck
    by (simp add: recover_finish_def Let_def)
  ultimately show ?thesis by metis
qed

lemma power_of_2_nat: "n AND (n - 1) = 0 \<Longrightarrow> 0 < n \<Longrightarrow> \<exists>k. n = 2 ^ k" for n :: nat
proof (induction n rule: less_induct)
  case (less n)
  obtain m where m: "n = 2 * m \<or> n = 2 * m + 1" by (metis oddE evenE)
  show ?case
  proof (cases "even n")
    case True
    then obtain m where n: "n = 2 * m" "0 < m" using less.prems(2) by auto
    have "n - 1 = 2 * (m - 1) + 1" using n by simp
    then have "(2 * m) AND (2 * (m - 1) + 1) = 0" using less.prems(1) n(1) by simp
    then have "m AND (m - 1) = 0" by (subst (asm) and_rec) simp
    then obtain k where "m = 2 ^ k" using less.IH [of m] n by auto
    then have "n = 2 ^ Suc k" using n by simp
    then show ?thesis by blast
  next
    case False
    then obtain m where n: "n = 2 * m + 1" by (rule oddE)
    then have "(2 * m + 1) AND (2 * m) = 0" using less.prems(1) by simp
    then have "m AND m = 0" by (subst (asm) and_rec) simp
    then show ?thesis using n by (intro exI [of _ 0]) simp
  qed
qed

lemma page_size_cases:
  assumes "page_size_ok szPg"
  shows "szPg \<in> {512, 1024, 2048, 4096, 8192, 16384, 32768, 65536}"
proof -
  have le: "512 \<le> unat szPg" "unat szPg \<le> 65536" and bits: "szPg AND (szPg - 1) = 0"
    using assms by (simp_all add: page_size_ok_def)
  have "unat (szPg - 1) = unat szPg - 1" using le by (simp add: unat_sub_if_size)
  then have "unat szPg AND (unat szPg - 1) = 0" using bits by (metis unsigned_and_eq unat_0)
  moreover have "0 < unat szPg" using le(1) by linarith
  ultimately obtain k where k: "unat szPg = 2 ^ k" using power_of_2_nat by blast
  have "(2 :: nat) ^ 9 = 512" "(2 :: nat) ^ 16 = 65536" by simp_all
  then have pow: "2 ^ 9 \<le> (2 :: nat) ^ k" "(2 :: nat) ^ k \<le> 2 ^ 16" using le unfolding k by (simp_all only:)
  have "9 \<le> k" "k \<le> 16"
    by (rule power_le_imp_le_exp [OF _ pow(1)], simp) (rule power_le_imp_le_exp [OF _ pow(2)], simp)
  then have "k = 9 \<or> k = 10 \<or> k = 11 \<or> k = 12 \<or> k = 13 \<or> k = 14 \<or> k = 15 \<or> k = 16" by presburger
  then have "unat szPg \<in> {512, 1024, 2048, 4096, 8192, 16384, 32768, 65536}"
    using k by (elim disjE) simp_all
  then show ?thesis by (simp add: word_unat_eq_iff)
qed

lemma hdr_page_size_field:
  assumes "page_size_ok szPg" and "hszPage h = page_size_field szPg"
  shows "hdr_page_size h = unat szPg"
  using page_size_cases [OF assms(1)] assms(2)
  by (auto simp: hdr_page_size_def page_size_field_def)

lemma enc_frames_drop:
  assumes "length salt = 8" and "\<forall>f\<in>set fs. frame_ok sz f" and "k < length fs"
  shows "take sz (drop (k * (sz + 24) + 24) (enc_frames native salt ck fs @ r)) = snd (snd (fs ! k))"
  using assms(2,3)
proof (induction fs arbitrary: k ck)
  case (Cons f fs)
  obtain pg nt d where f: "f = (pg, nt, d)" by (cases f) auto
  have d: "length d = sz" using Cons.prems(1) f by (simp add: frame_ok_def)
  have len: "length (enc_frame native salt ck f) = sz + 24"
    using length_enc_frame [OF assms(1)] d f by simp
  show ?case
  proof (cases k)
    case 0
    have "drop 24 (enc_frame native salt ck f) = d" using assms(1) f by (simp add: enc_frame_def)
    then show ?thesis using 0 len d f by simp
  next
    case (Suc j)
    have "drop (k * (sz + 24) + 24) (enc_frame native salt ck f @ x) = drop (j * (sz + 24) + 24) x" for x
      using Suc len by (simp add: add.commute)
    then have "take sz (drop (k * (sz + 24) + 24) (enc_frames native salt ck (f # fs) @ r))
        = take sz (drop (j * (sz + 24) + 24) (enc_frames native salt (frame_ck native ck f) fs @ r))"
      by (simp only: enc_frames.simps append_assoc)
    also have "\<dots> = snd (snd (fs ! j))" using Cons.prems Suc by (intro Cons.IH) simp_all
    finally show ?thesis using Suc by simp
  qed
qed simp

section \<open>Recovery and the pages read after it\<close>

text \<open>What the frames \<open>fs\<close> say of page \<open>p\<close>: the content of its last frame, if there is one.\<close>

definition content_of :: "wal_frame list \<Rightarrow> u32 \<Rightarrow> u8 list option" where
  "content_of fs p =
     (let gs = filter (\<lambda>f. fst f = p) fs in if gs = [] then None else Some (snd (snd (last gs))))"

text \<open>
  How a page is looked up in the log: \<open>sqlite3WalFindFrame\<close>, then \<open>sqlite3WalReadFrame\<close>. The outer
  \<open>None\<close> is an error, the inner one a page that is not in the log.
\<close>

definition wal_lookup :: "wal_env \<Rightarrow> wal_sys \<Rightarrow> u32 \<Rightarrow> u8 list option option" where
  "wal_lookup E s p =
     (let (rc, r, W) = sqlite3WalFindFrame E (wal s) p
      in if rc \<noteq> SQLITE_OK then None
         else if r = 0 then Some None
         else let (rc, d, s) = sqlite3WalReadFrame (s\<lparr>wal := W\<rparr>) r (unat (szPage W))
              in if rc \<noteq> SQLITE_OK then None else Some (Some d))"

lemma take_committed: "take (length (committed fs)) fs = committed fs"
proof -
  have "fs = committed fs @ rev (takeWhile (\<lambda>f. fst (snd f) = 0) (rev fs))"
    unfolding committed_def by (metis rev_append rev_rev_ident takeWhile_dropWhile_id)
  then show ?thesis by (metis append_eq_conv_conj)
qed

lemma content_of_newest:
  assumes "newest (page_at (map fst fs)) p 1 mx r" and mx: "mx \<le> length fs"
  shows "content_of (take mx fs) p = (if r = 0 then None else Some (snd (snd (fs ! (r - 1)))))"
proof (cases "r = 0")
  case True
  have "fst f \<noteq> p" if f: "f \<in> set (take mx fs)" for f
  proof -
    obtain k where "k < mx" "k < length fs" "fs ! k = f" using f by (auto simp: in_set_conv_nth)
    then show ?thesis
      using assms(1) True unfolding newest_def by (auto simp: page_at_def dest: spec [of _ "Suc k"])
  qed
  then have "filter (\<lambda>f. fst f = p) (take mx fs) = []" by (simp add: filter_empty_conv)
  then show ?thesis using True by (simp add: content_of_def)
next
  case False
  then have r: "1 \<le> r" "r \<le> mx" "page_at (map fst fs) r = p"
    and later: "\<forall>i. r < i \<and> i \<le> mx \<longrightarrow> page_at (map fst fs) i \<noteq> p"
    using assms(1) by (simp_all add: newest_def)
  have split: "take mx fs = take (r - 1) fs @ fs ! (r - 1) # drop r (take mx fs)"
  proof -
    have "r - 1 < length (take mx fs)" using r mx by simp
    from id_take_nth_drop [OF this] have "take mx fs =
        take (r - 1) (take mx fs) @ take mx fs ! (r - 1) # drop (Suc (r - 1)) (take mx fs)" .
    moreover have "take (r - 1) (take mx fs) = take (r - 1) fs" "take mx fs ! (r - 1) = fs ! (r - 1)"
      "Suc (r - 1) = r"
      using r by simp_all
    ultimately show ?thesis by (simp only:)
  qed
  have "fst f \<noteq> p" if f: "f \<in> set (drop r (take mx fs))" for f
  proof -
    obtain k where k: "k < mx - r" "f = fs ! (r + k)" using f mx by (auto simp: in_set_conv_nth)
    then show ?thesis using later r mx by (auto simp: page_at_def dest: spec [of _ "Suc (r + k)"])
  qed
  then have "filter (\<lambda>f. fst f = p) (drop r (take mx fs)) = []" by (simp add: filter_empty_conv)
  moreover have "fst (fs ! (r - 1)) = p" using r mx by (simp add: page_at_def)
  ultimately have "filter (\<lambda>f. fst f = p) (take mx fs) = filter (\<lambda>f. fst f = p) (take (r - 1) fs) @ [fs ! (r - 1)]"
    by (subst split) simp
  then show ?thesis using False by (simp add: content_of_def)
qed

text \<open>A handle whose index and file show the frames \<open>fs\<close> finds the content of every page.\<close>

lemma wal_lookup_content:
  assumes E: "env_ok E" and repr: "index_repr (wal s) (map fst fs)" and sz: "page_size_ok (szPage (wal s))"
    and mx: "unat (mxFrame (hdr (wal s))) \<le> length fs"
    and size: "mxFrame (hdr (wal s)) \<noteq> 0 \<longrightarrow> hszPage (hdr (wal s)) = page_size_field (szPage (wal s))"
    and read: "readLock (wal s) \<noteq> 0" "minFrame (wal s) = 1"
    and log: "\<And>k. k < unat (mxFrame (hdr (wal s))) \<Longrightarrow>
      take (unat (szPage (wal s))) (drop (walFrameOffset (k + 1) (unat (szPage (wal s))) + 24) (logF s)) = snd (snd (fs ! k))"
      "\<And>k. k < unat (mxFrame (hdr (wal s))) \<Longrightarrow>
        walFrameOffset (k + 1) (unat (szPage (wal s))) + 24 + unat (szPage (wal s)) \<le> length (logF s)"
    and io: "ios s = []"
  shows "wal_lookup E s p = Some (content_of (take (unat (mxFrame (hdr (wal s)))) fs) p)"
proof -
  let ?mx = "unat (mxFrame (hdr (wal s)))" and ?sz = "unat (szPage (wal s))"
  obtain rc r W where find: "sqlite3WalFindFrame E (wal s) p = (rc, r, W)" by (metis prod_cases3)
  have iM: "0 < minFrame (wal s)" "unat (minFrame (wal s)) \<le> MAX_FRAMES" using read(2) by simp_all
  note ff = FindFrame_newest [OF repr _ iM read(1) find]
  have rc: "rc = SQLITE_OK" and hdr: "hdr W = hdr (wal s)" and szW: "szPage W = szPage (wal s)"
    using ff(2) E mx index_only_fields [OF ff(4)] by simp_all
  have new: "newest (page_at (map fst fs)) p 1 ?mx (unat r)" using ff(1) rc mx read(2) by simp
  note content = content_of_newest [OF new mx]
  show ?thesis
  proof (cases "r = 0")
    case True
    then show ?thesis using content find rc by (simp add: wal_lookup_def)
  next
    case False
    then have r0: "unat r \<noteq> 0" by (simp add: unat_eq_zero)
    then have r: "unat r - 1 < ?mx" "mxFrame (hdr (wal s)) \<noteq> 0" using new by (auto simp: newest_def)
    have "hdr_page_size (hdr W) = ?sz" using hdr_page_size_field [OF sz] size r(2) hdr by simp
    moreover have "os_read (s\<lparr>wal := W\<rparr>) ?sz (walFrameOffset (unat r) ?sz + 24) =
        (SQLITE_OK, snd (snd (fs ! (unat r - 1))), s\<lparr>wal := W\<rparr>)"
      using log [OF r(1)] r0 io by (subst os_read_ok) simp_all
    ultimately show ?thesis
      using content find rc False r0 szW
      by (simp add: wal_lookup_def sqlite3WalReadFrame_def WAL_FRAME_HDRSIZE_def)
  qed
qed

text \<open>
  C16: Recovery gives exactly the committed transactions. For a log file that begins with a
  well-formed header and a chain of frames \<open>fs\<close> and goes on with anything that is not the next
  frame of the chain (the remains of an earlier log, a frame that was only partly written,
  nothing), \<open>walIndexRecover\<close> succeeds and leaves a valid index header, published in both
  copies, whose last frame is the last one of \<open>fs\<close> that ends a transaction; and a connection that
  then looks up a page in the log reads what the last committed frame of the page holds, or learns
  that the log does not have it.
\<close>

theorem recovery_committed:
  assumes "env_ok E" and "map_ok (wal s)" and "length fs < MAX_FRAMES"
    and "page_size_ok szPg" and "length salt = 8" and "\<forall>f\<in>set fs. frame_ok (unat szPg) f"
    and "logF s = enc_log_hdr big szPg n salt @ enc_frames (\<not> big) salt (log_hdr_ck big szPg n salt) fs @ rest"
    and "log_ends (\<not> big) salt (unat szPg) (chain (\<not> big) (log_hdr_ck big szPg n salt) fs) rest"
    and "fs \<noteq> []" and "ios s = []" and "locks s = []"
  shows "\<exists>W. walIndexRecover E True s = (SQLITE_OK, s\<lparr>wal := W\<rparr>) \<and> recovered szPg salt fs W \<and>
    (\<forall>p. wal_lookup E (s\<lparr>wal := W\<lparr>readLock := 1, minFrame := 1\<rparr>\<rparr>) p = Some (content_of (committed fs) p))"
proof -
  obtain W where W: "walIndexRecover E True s = (SQLITE_OK, s\<lparr>wal := W\<rparr>)" "recovered szPg salt fs W"
    using recover_log_committed [OF assms] by blast
  let ?s = "s\<lparr>wal := W\<lparr>readLock := 1, minFrame := 1\<rparr>\<rparr>"
  have u: "unat (mxFrame (hdr W)) = length (committed fs)"
    using W(2) length_committed [of fs] assms(3) by (simp add: recovered_def unat_of_nat take_bit_nat_eq_self)
  have frames: "length (enc_frames (\<not> big) salt (log_hdr_ck big szPg n salt) fs) = length fs * (unat szPg + 24)"
    using length_enc_frames [OF assms(5,6)] .
  have data: "take (unat szPg) (drop (walFrameOffset (k + 1) (unat szPg) + 24) (logF s)) = snd (snd (fs ! k))"
    if k: "k < length fs" for k
  proof -
    have "walFrameOffset (k + 1) (unat szPg) + 24 = 32 + (k * (unat szPg + 24) + 24)"
      by (simp add: walFrameOffset_def WAL_HDRSIZE_def WAL_FRAME_HDRSIZE_def)
    moreover have "drop (32 + m) (logF s) =
        drop m (enc_frames (\<not> big) salt (log_hdr_ck big szPg n salt) fs @ rest)" for m
      using enc_log_hdr_parts(1) [OF assms(5)] by (simp add: assms(7))
    ultimately show ?thesis using enc_frames_drop [OF assms(5,6) k] by (simp only:)
  qed
  have repr: "index_repr W (map fst fs)" and szW: "szPage W = szPg"
    and field: "committed fs \<noteq> [] \<longrightarrow> hszPage (hdr W) = page_size_field szPg"
    using W(2) unfolding recovered_def by blast+
  have "mxFrame (hdr W) \<noteq> 0 \<longrightarrow> committed fs \<noteq> []"
    using u by (metis length_0_conv unat_eq_zero)
  then have field': "mxFrame (hdr W) \<noteq> 0 \<longrightarrow> hszPage (hdr W) = page_size_field szPg" using field by blast
  have mx: "unat (mxFrame (hdr W)) \<le> length fs" using u length_committed [of fs] by simp
  have fits: "walFrameOffset (k + 1) (unat szPg) + 24 + unat szPg \<le> length (logF s)" if "k < length fs" for k
  proof -
    have "(k + 1) * (unat szPg + 24) \<le> length fs * (unat szPg + 24)" using that by (intro mult_le_mono1) simp
    then show ?thesis
      using frames enc_log_hdr_parts(1) [OF assms(5)]
      by (simp add: assms(7) walFrameOffset_def WAL_HDRSIZE_def WAL_FRAME_HDRSIZE_def)
  qed
  have repr': "index_repr (wal ?s) (map fst fs)" by (rule index_repr_same [OF repr]) simp_all
  have "wal_lookup E ?s p = Some (content_of (take (unat (mxFrame (hdr (wal ?s)))) fs) p)" for p
    by (rule wal_lookup_content [OF assms(1) repr'])
      (use szW field' mx data fits assms(4,10) in simp_all)
  moreover have "take (unat (mxFrame (hdr (wal ?s)))) fs = committed fs"
    using take_committed u by simp
  ultimately show ?thesis using W by (intro exI [of _ W]) simp
qed

text \<open>A log of three frames, the last of them not committed.\<close>

definition good_env :: wal_env where
  "good_env = \<lparr>grow = (\<lambda>_. True), page_alloc = (\<lambda>_. True), shm_map = (\<lambda>_ _. (SQLITE_OK, True))\<rparr>"

definition sample_frames :: "wal_frame list" where
  "sample_frames = [(1, 0, replicate 512 1), (2, 2, replicate 512 5), (1, 0, replicate 512 9)]"

definition sample_log :: "u8 list" where
  "sample_log =
     enc_log_hdr False 512 0 (replicate 8 7) @
     enc_frames True (replicate 8 7) (log_hdr_ck False 512 0 (replicate 8 7)) sample_frames"

definition sample_sys :: wal_sys where
  "sample_sys =
     \<lparr>wal = the (snd (sqlite3WalOpen True (SQLITE_OK, 0) 0 zero_index False (- 1))),
      logF = sample_log, dbF = [], ios = [], locks = [],
      rnd = (\<lambda>_. 7), xCodec = None\<rparr>"

lemma sample_committed: "committed sample_frames = take 2 sample_frames"
  by (simp add: sample_frames_def committed_def)

theorem recovery_committed_witness:
  "\<exists>W. walIndexRecover good_env True sample_sys = (SQLITE_OK, sample_sys\<lparr>wal := W\<rparr>) \<and>
     unat (mxFrame (hdr W)) = 2 \<and>
     wal_lookup good_env (sample_sys\<lparr>wal := W\<lparr>readLock := 1, minFrame := 1\<rparr>\<rparr>) 1 = Some (Some (replicate 512 1)) \<and>
     wal_lookup good_env (sample_sys\<lparr>wal := W\<lparr>readLock := 1, minFrame := 1\<rparr>\<rparr>) 3 = Some None"
proof -
  have sys: "map_ok (wal sample_sys)" "ios sample_sys = []" "locks sample_sys = []"
    by (simp_all add: sample_sys_def sqlite3WalOpen_def map_ok_def)
  have log: "logF sample_sys = enc_log_hdr False 512 0 (replicate 8 7) @
      enc_frames (\<not> False) (replicate 8 7) (log_hdr_ck False 512 0 (replicate 8 7)) sample_frames @ []"
    by (simp add: sample_sys_def sample_log_def)
  have ends: "log_ends (\<not> False) (replicate 8 7) (unat (512 :: u32)) ck []" for ck
    by (auto simp: log_ends_def enc_frame_def)
  have env: "env_ok good_env" by (simp add: env_ok_def good_env_def)
  have fs: "length sample_frames < MAX_FRAMES" "\<forall>f\<in>set sample_frames. frame_ok (unat (512 :: u32)) f"
    "sample_frames \<noteq> []"
    by (simp_all add: sample_frames_def frame_ok_def)
  have sz: "page_size_ok 512" "length (replicate 8 (7 :: u8)) = 8" by (simp_all add: page_size_ok_def)
  have "content_of (committed sample_frames) 1 = Some (replicate 512 1)"
    "content_of (committed sample_frames) 3 = None"
    by (simp_all add: sample_committed content_of_def) (simp_all add: sample_frames_def)
  moreover have "unat (of_nat (length (committed sample_frames)) :: u32) = 2"
    unfolding sample_committed by (simp add: sample_frames_def)
  ultimately show ?thesis
    using recovery_committed [OF env sys(1) fs(1) sz fs(2) log ends fs(3) sys(2,3)]
    by (auto simp: recovered_def)
qed

end
