(* ===== verification/WalRead.thy ===== *)
theory WalRead
  imports WalLog
begin

text \<open>
  The transactions of a connection on the write-ahead log (\<open>src/wal.c\<close>): reading the header of
  the index, choosing a read mark and locking it, the write lock, and the restart of a log that
  has been copied back completely.
\<close>

section \<open>Reading the header\<close>

definition SQLITE_READONLY_RECOVERY :: nat where
  "SQLITE_READONLY_RECOVERY = SQLITE_READONLY OR push_bit 8 1"
definition SQLITE_READONLY_CANTLOCK :: nat where
  "SQLITE_READONLY_CANTLOCK = SQLITE_READONLY OR push_bit 8 2"
definition SQLITE_BUSY_RECOVERY :: nat where "SQLITE_BUSY_RECOVERY = SQLITE_BUSY OR push_bit 8 1"
definition SQLITE_BUSY_SNAPSHOT :: nat where "SQLITE_BUSY_SNAPSHOT = SQLITE_BUSY OR push_bit 8 2"

definition try_hdr :: "wal_sys \<Rightarrow> bool \<times> bool \<times> wal_sys" where
  "try_hdr s = (let (bad, chg, W) = walIndexTryHdr (wal s) in (bad, chg, s\<lparr>wal := W\<rparr>))"

text \<open>
  The second result is \<open>*pChanged\<close>, given its value before; \<open>mem\<close> is for the recovery.
\<close>

definition walIndexReadHdr :: "wal_env \<Rightarrow> bool \<Rightarrow> wal_sys \<Rightarrow> bool \<Rightarrow> nat \<times> bool \<times> wal_sys" where
  "walIndexReadHdr E mem s chg =
     (let (rc, page0, W) = walIndexPage E (wal s) 0; s = s\<lparr>wal := W\<rparr>
      in if rc \<noteq> SQLITE_OK then (rc, chg, s)
         else
           let (bad, c, s) = (if page0 \<noteq> None then try_hdr s else (True, False, s));
               chg = (chg \<or> c);
               (rc, bad, chg, s) =
                 (if \<not> bad then (rc, bad, chg, s)
                  else if readOnly (wal s) AND WAL_SHM_RDONLY \<noteq> 0 then
                    let (rc, s) = walLockShared s WAL_WRITE_LOCK
                    in (if rc = SQLITE_OK then SQLITE_READONLY_RECOVERY else rc, bad, chg, s)
                  else
                    let (rc, s) = walLockExclusive s WAL_WRITE_LOCK 1
                    in if rc \<noteq> SQLITE_OK then (rc, bad, chg, s)
                       else
                         let s = s\<lparr>wal := (wal s)\<lparr>writeLock := True\<rparr>\<rparr>;
                             (rc, page0, W) = walIndexPage E (wal s) 0; s = s\<lparr>wal := W\<rparr>;
                             (rc, bad, chg, s) =
                               (if rc \<noteq> SQLITE_OK then (rc, bad, chg, s)
                                else
                                  let (bad, c, s) = try_hdr s
                                  in if bad then let (rc, s) = walIndexRecover E mem s in (rc, bad, True, s)
                                     else (rc, bad, chg \<or> c, s))
                         in (rc, bad, chg, s\<lparr>wal := (wal s)\<lparr>writeLock := False\<rparr>\<rparr>))
           in (if \<not> bad \<and> iVersion (hdr (wal s)) \<noteq> WALINDEX_MAX_VERSION then SQLITE_CANTOPEN else rc, chg, s))"

section \<open>Starting a read transaction\<close>

datatype try_result = WAL_RETRY | RC nat

text \<open>The mark that is largest without exceeding \<open>mx\<close>; of equal ones the last.\<close>

definition best_mark :: "u32 list \<Rightarrow> u32 \<Rightarrow> u32 \<times> nat" where
  "best_mark marks mx =
     fold (\<lambda>i (best, mxI). if best \<le> marks ! i \<and> marks ! i \<le> mx then (marks ! i, i) else (best, mxI))
          [1 ..< WAL_NREADER] (0, 0)"

definition set_mark :: "Wal \<Rightarrow> nat \<Rightarrow> u32 \<Rightarrow> Wal" where
  "set_mark W i m =
     W\<lparr>wi := (wi W)\<lparr>ckptInfo := (ckptInfo (wi W))\<lparr>aReadMark := (aReadMark (ckptInfo (wi W)))[i := m]\<rparr>\<rparr>\<rparr>"

text \<open>
  The loop that claims a mark for \<open>mxFrame\<close>: the first one that can be locked exclusively. The
  Boolean says that the function returns.
\<close>

fun claim_mark :: "wal_sys \<Rightarrow> u32 \<Rightarrow> nat list \<Rightarrow> nat \<Rightarrow> u32 \<times> nat \<Rightarrow> bool \<times> nat \<times> (u32 \<times> nat) \<times> wal_sys" where
  "claim_mark s mx [] rc best = (False, rc, best, s)"
| "claim_mark s mx (i # is) rc best =
     (let (rc, s) = walLockExclusive s (WAL_READ_LOCK i) 1
      in if rc = SQLITE_OK then (False, rc, (mx, i), s\<lparr>wal := set_mark (wal s) i mx\<rparr>)
         else if rc \<noteq> SQLITE_BUSY then (True, rc, best, s)
         else claim_mark s mx is rc best)"

definition try_wal :: "wal_sys \<Rightarrow> nat \<Rightarrow> try_result \<times> wal_sys" where
  "try_wal s rc =
     (let mx = mxFrame (hdr (wal s));
          (mark, mxI) = best_mark (aReadMark (ckptInfo (wi (wal s)))) mx;
          (ret, rc, (mark, mxI), s) =
            (if readOnly (wal s) AND WAL_SHM_RDONLY = 0 \<and> (mark < mx \<or> mxI = 0)
             then claim_mark s mx [1 ..< WAL_NREADER] rc (mark, mxI) else (False, rc, (mark, mxI), s))
      in if ret then (RC rc, s)
         else if mxI = 0 then (if rc = SQLITE_BUSY then WAL_RETRY else RC SQLITE_READONLY_CANTLOCK, s)
         else
           let (rc, s) = walLockShared s (WAL_READ_LOCK mxI)
           in if rc \<noteq> SQLITE_OK then (if rc = SQLITE_BUSY then WAL_RETRY else RC rc, s)
              else
                let s = s\<lparr>wal := (wal s)\<lparr>minFrame := nBackfill (ckptInfo (wi (wal s))) + 1\<rparr>\<rparr>
                in if aReadMark (ckptInfo (wi (wal s))) ! mxI \<noteq> mark \<or> hdr0 (wi (wal s)) \<noteq> hdr (wal s)
                   then (WAL_RETRY, s)
                   else (RC rc, s\<lparr>wal := (wal s)\<lparr>readLock := int mxI\<rparr>\<rparr>))"

text \<open>The part that reads the header: a busy index is tried again unless a recovery is running.\<close>

definition try_read_hdr :: "wal_env \<Rightarrow> bool \<Rightarrow> wal_sys \<Rightarrow> bool \<Rightarrow> try_result \<times> bool \<times> wal_sys" where
  "try_read_hdr E mem s chg =
     (let (rc, chg, s) = walIndexReadHdr E mem s chg
      in if rc = SQLITE_BUSY then
           (if \<not> apWiData (wal s) 0 then (WAL_RETRY, chg, s)
            else let (rc, s) = walLockShared s WAL_RECOVER_LOCK
                 in (if rc = SQLITE_OK then WAL_RETRY
                     else if rc = SQLITE_BUSY then RC SQLITE_BUSY_RECOVERY else RC rc, chg, s))
         else (RC rc, chg, s))"

definition walTryBeginRead :: "wal_env \<Rightarrow> bool \<Rightarrow> wal_sys \<Rightarrow> bool \<Rightarrow> bool \<Rightarrow> nat \<Rightarrow> try_result \<times> bool \<times> wal_sys" where
  "walTryBeginRead E mem s chg useWal cnt =
     (if 100 < cnt then (RC SQLITE_PROTOCOL, chg, s)
      else
        let (res, chg, s) = (if useWal then (RC SQLITE_OK, chg, s) else try_read_hdr E mem s chg)
        in if res \<noteq> RC SQLITE_OK then (res, chg, s)
           else if \<not> useWal \<and> nBackfill (ckptInfo (wi (wal s))) = mxFrame (hdr (wal s)) then
             let (rc, s) = walLockShared s (WAL_READ_LOCK 0)
             in if rc = SQLITE_OK then
                  (if hdr0 (wi (wal s)) \<noteq> hdr (wal s) then (WAL_RETRY, chg, s)
                   else (RC SQLITE_OK, chg, s\<lparr>wal := (wal s)\<lparr>readLock := 0\<rparr>\<rparr>))
                else if rc \<noteq> SQLITE_BUSY then (RC rc, chg, s)
                else (case try_wal s rc of (res, s) \<Rightarrow> (res, chg, s))
           else (case try_wal s SQLITE_OK of (res, s) \<Rightarrow> (res, chg, s)))"

lemma walTryBeginRead_gives_up: "100 < cnt \<Longrightarrow> fst (walTryBeginRead E mem s chg useWal cnt) \<noteq> WAL_RETRY"
  by (simp add: walTryBeginRead_def)

lemma walTryBeginRead_retry: "(WAL_RETRY, y) = walTryBeginRead E mem s chg useWal cnt \<Longrightarrow> cnt \<le> 100"
  using walTryBeginRead_gives_up [of cnt E mem s chg useWal] by (metis fst_conv not_le)

text \<open>The loop ends because the attempt after the hundredth gives up.\<close>

function begin_read_loop :: "wal_env \<Rightarrow> bool \<Rightarrow> wal_sys \<Rightarrow> bool \<Rightarrow> bool \<Rightarrow> nat \<Rightarrow> nat \<times> bool \<times> wal_sys" where
  "begin_read_loop E mem s chg useWal cnt =
     (case walTryBeginRead E mem s chg useWal (cnt + 1) of
        (WAL_RETRY, chg, s) \<Rightarrow> begin_read_loop E mem s chg useWal (cnt + 1)
      | (RC rc, chg, s) \<Rightarrow> (rc, chg, s))"
  by pat_completeness auto
termination
  by (relation "measure (\<lambda>(E, mem, s, chg, useWal, cnt). 101 - cnt)") (auto dest!: walTryBeginRead_retry)
section \<open>Transactions\<close>

definition sqlite3WalBeginReadTransaction :: "wal_env \<Rightarrow> bool \<Rightarrow> wal_sys \<Rightarrow> bool \<Rightarrow> nat \<times> bool \<times> wal_sys" where
  "sqlite3WalBeginReadTransaction E mem s chg = begin_read_loop E mem s chg False 0"

definition sqlite3WalEndWriteTransaction :: "wal_sys \<Rightarrow> nat \<times> wal_sys" where
  "sqlite3WalEndWriteTransaction s =
     (SQLITE_OK,
      if writeLock (wal s)
      then s\<lparr>wal := (wal s)\<lparr>writeLock := False, iReCksum := 0, truncateOnCommit := False\<rparr>\<rparr> else s)"

definition sqlite3WalEndReadTransaction :: "wal_sys \<Rightarrow> wal_sys" where
  "sqlite3WalEndReadTransaction s =
     (let (rc, s) = sqlite3WalEndWriteTransaction s
      in if 0 \<le> readLock (wal s) then s\<lparr>wal := (wal s)\<lparr>readLock := - 1\<rparr>\<rparr> else s)"

definition sqlite3WalBeginWriteTransaction :: "wal_sys \<Rightarrow> nat \<times> wal_sys" where
  "sqlite3WalBeginWriteTransaction s =
     (if readOnly (wal s) \<noteq> 0 then (SQLITE_READONLY, s)
      else
        let (rc, s) = walLockExclusive s WAL_WRITE_LOCK 1
        in if rc \<noteq> SQLITE_OK then (rc, s)
           else if hdr (wal s) \<noteq> hdr0 (wi (wal s))
           then (SQLITE_BUSY_SNAPSHOT, s\<lparr>wal := (wal s)\<lparr>writeLock := False\<rparr>\<rparr>)
           else (rc, s\<lparr>wal := (wal s)\<lparr>writeLock := True\<rparr>\<rparr>))"

section \<open>Restarting the log\<close>

definition wal_randomness :: "nat \<Rightarrow> wal_sys \<Rightarrow> u8 list \<times> wal_sys" where
  "wal_randomness n s = (map (rnd s) [0 ..< n], s\<lparr>rnd := (\<lambda>i. rnd s (i + n))\<rparr>)"

text \<open>\<open>salt1\<close> are the four bytes that become the second half of the salt.\<close>

definition walRestartHdr :: "Wal \<Rightarrow> u8 list \<Rightarrow> Wal" where
  "walRestartHdr W salt1 =
     (let W = W\<lparr>nCkpt := nCkpt W + 1,
               hdr := (hdr W)\<lparr>mxFrame := 0,
                 aSalt := sqlite3Put4byte (1 + get4 (aSalt (hdr W)) 0) @ salt1\<rparr>\<rparr>;
          W = walIndexWriteHdr W;
          info = ckptInfo (wi W)
      in W\<lparr>wi := (wi W)\<lparr>ckptInfo := info\<lparr>nBackfill := 0, nBackfillAttempted := 0,
             aReadMark := aReadMark info ! 0 # 0 # replicate (WAL_NREADER - 2) READMARK_NOT_USED\<rparr>\<rparr>\<rparr>)"

definition walRestartLog :: "wal_env \<Rightarrow> bool \<Rightarrow> wal_sys \<Rightarrow> nat \<times> wal_sys" where
  "walRestartLog E mem s =
     (if readLock (wal s) \<noteq> 0 then (SQLITE_OK, s)
      else
        let (rc, s) =
              (if nBackfill (ckptInfo (wi (wal s))) = 0 then (SQLITE_OK, s)
               else
                 let (salt1, s) = wal_randomness 4 s;
                     (rc, s) = walLockExclusive s (WAL_READ_LOCK 1) (WAL_NREADER - 1)
                 in (rc, if rc = SQLITE_OK then s\<lparr>wal := walRestartHdr (wal s) salt1\<rparr> else s))
        in if rc \<noteq> SQLITE_OK \<and> rc \<noteq> SQLITE_BUSY then (rc, s)
           else
             let (rc, chg, s) = begin_read_loop E mem (s\<lparr>wal := (wal s)\<lparr>readLock := - 1\<rparr>\<rparr>) False True 0
             in (rc, s))"
section \<open>The loop of attempts ends\<close>

text \<open>The attempt number \<open>k\<close>, counted from 0, when all before it asked for another one.\<close>

fun tries :: "wal_env \<Rightarrow> bool \<Rightarrow> wal_sys \<Rightarrow> bool \<Rightarrow> bool \<Rightarrow> nat \<Rightarrow> try_result \<times> bool \<times> wal_sys" where
  "tries E mem s chg useWal 0 = walTryBeginRead E mem s chg useWal 1"
| "tries E mem s chg useWal (Suc k) =
     (case tries E mem s chg useWal k of (r, chg, s) \<Rightarrow> walTryBeginRead E mem s chg useWal (k + 2))"

lemma tries_from:
  assumes "\<forall>k<n. fst (tries E mem s chg useWal k) = WAL_RETRY"
    and "n = 0 \<Longrightarrow> (chg', s') = (chg, s)" and "\<And>m. n = Suc m \<Longrightarrow> snd (tries E mem s chg useWal m) = (chg', s')"
    and "n \<le> 100"
  shows "\<exists>N\<ge>n. N \<le> 100 \<and> (\<forall>k<N. fst (tries E mem s chg useWal k) = WAL_RETRY) \<and>
    (\<exists>rc chg2 s2. tries E mem s chg useWal N = (RC rc, chg2, s2) \<and>
      begin_read_loop E mem s' chg' useWal n = (rc, chg2, s2))"
  using assms
proof (induction "100 - n" arbitrary: n chg' s' rule: less_induct)
  case less
  have step: "tries E mem s chg useWal n = walTryBeginRead E mem s' chg' useWal (n + 1)"
  proof (cases n)
    case 0
    then show ?thesis using less.prems(2) by simp
  next
    case (Suc m)
    then show ?thesis using less.prems(3) [of m] by (cases "tries E mem s chg useWal m") simp
  qed
  obtain r c2 s2 where t: "walTryBeginRead E mem s' chg' useWal (n + 1) = (r, c2, s2)" by (metis prod_cases3)
  show ?case
  proof (cases r)
    case (RC rc)
    then have "begin_read_loop E mem s' chg' useWal n = (rc, c2, s2)"
      using t by (subst begin_read_loop.simps) simp
    then show ?thesis using less.prems(1,4) step t RC by auto
  next
    case WAL_RETRY
    then have n: "n + 1 \<le> 100" using walTryBeginRead_retry [of "(c2, s2)"] t by metis
    have "\<exists>N\<ge>n + 1. N \<le> 100 \<and> (\<forall>k<N. fst (tries E mem s chg useWal k) = WAL_RETRY) \<and>
      (\<exists>rc chg3 s3. tries E mem s chg useWal N = (RC rc, chg3, s3) \<and>
        begin_read_loop E mem s2 c2 useWal (n + 1) = (rc, chg3, s3))"
    proof (rule less.hyps)
      show "\<forall>k<n + 1. fst (tries E mem s chg useWal k) = WAL_RETRY"
        using less.prems(1) step t WAL_RETRY by (auto simp: less_Suc_eq)
    qed (use n step t in auto)
    moreover have "begin_read_loop E mem s' chg' useWal n = begin_read_loop E mem s2 c2 useWal (n + 1)"
      using t WAL_RETRY by (subst begin_read_loop.simps) simp
    ultimately show ?thesis by (metis Suc_eq_plus1 Suc_leD)
  qed
qed

text \<open>
  C22: Whatever the other connections do and whatever the operating system reports, starting a read
  transaction comes back after at most 101 attempts: its result is that of the first attempt that
  does not ask for another one, and if the first hundred all do, it is \<open>SQLITE_PROTOCOL\<close>.
\<close>

theorem begin_read_returns:
  "\<exists>n\<le>100. (\<forall>k<n. fst (tries E mem s chg False k) = WAL_RETRY) \<and>
    (\<exists>rc chg' s'. tries E mem s chg False n = (RC rc, chg', s') \<and>
      sqlite3WalBeginReadTransaction E mem s chg = (rc, chg', s') \<and>
      (n = 100 \<longrightarrow> rc = SQLITE_PROTOCOL))"
proof -
  obtain N rc chg' s' where N: "N \<le> 100" "\<forall>k<N. fst (tries E mem s chg False k) = WAL_RETRY"
    and r: "tries E mem s chg False N = (RC rc, chg', s')" "begin_read_loop E mem s chg False 0 = (rc, chg', s')"
    using tries_from [of 0 E mem s chg False chg s] by auto
  have "rc = SQLITE_PROTOCOL" if n: "N = 100"
  proof -
    obtain r0 c0 s0 where "tries E mem s chg False 99 = (r0, c0, s0)" by (metis prod_cases3)
    moreover have "tries E mem s chg False (Suc 99) = (RC rc, chg', s')" using r(1) n by simp
    ultimately have "walTryBeginRead E mem s0 c0 False (99 + 2) = (RC rc, chg', s')"
      by (simp only: tries.simps prod.case)
    then show ?thesis by (simp add: walTryBeginRead_def)
  qed
  then show ?thesis
    using N r unfolding sqlite3WalBeginReadTransaction_def by blast
qed

section \<open>What a read transaction sees\<close>

lemma lock_next_hdr: "lock_next s = (rc, s') \<Longrightarrow> hdr (wal s') = hdr (wal s)"
  by (auto simp: lock_next_def split: list.splits)

lemma walLock_hdr:
  "walLockShared s i = (rc, s') \<Longrightarrow> hdr (wal s') = hdr (wal s)"
  "walLockExclusive s i n = (rc, s') \<Longrightarrow> hdr (wal s') = hdr (wal s)"
  by (auto simp: walLockShared_def walLockExclusive_def lock_next_hdr split: if_splits)

lemma set_mark_hdr [simp]: "hdr (set_mark W i m) = hdr W"
  by (simp add: set_mark_def)

definition mark_ok :: "u32 \<Rightarrow> u32 \<times> nat \<Rightarrow> bool" where
  "mark_ok mx b \<longleftrightarrow> fst b \<le> mx \<and> snd b < WAL_NREADER"

lemma best_mark_ok: "mark_ok mx (best_mark marks mx)"
proof -
  have "mark_ok mx (fold (\<lambda>i (best, mxI). if best \<le> marks ! i \<and> marks ! i \<le> mx then (marks ! i, i) else (best, mxI)) is b)"
    if "mark_ok mx b" "\<forall>i\<in>set is. i < WAL_NREADER" for "is" b
    using that by (induction "is" arbitrary: b) (auto simp: mark_ok_def split: prod.splits)
  then show ?thesis by (simp add: best_mark_def mark_ok_def WAL_NREADER_def SQLITE_SHM_NLOCK_def)
qed

lemma claim_mark_ok:
  assumes "claim_mark s mx is rc b = (ret, rc', b', s')" and "mark_ok mx b" and "\<forall>i\<in>set is. i < WAL_NREADER"
  shows "mark_ok mx b' \<and> hdr (wal s') = hdr (wal s) \<and> (ret \<longrightarrow> rc' \<noteq> SQLITE_OK)"
  using assms
proof (induction "is" arbitrary: s rc)
  case (Cons i "is")
  obtain rc1 s1 where l: "walLockExclusive s (WAL_READ_LOCK i) 1 = (rc1, s1)" by fastforce
  note h = walLock_hdr(2) [OF l]
  show ?case
  proof (cases "rc1 = SQLITE_BUSY")
    case True
    then have "rc1 \<noteq> SQLITE_OK" by (simp add: result_codes)
    then have "claim_mark s1 mx is rc1 b = (ret, rc', b', s')" using Cons.prems(1) l True by simp
    from Cons.IH [OF this Cons.prems(2)] show ?thesis using Cons.prems(3) h by simp
  next
    case False
    then show ?thesis using Cons.prems l h by (auto simp: mark_ok_def split: if_splits)
  qed
qed auto

text \<open>The snapshot of a reader: its header is the published one, and its mark protects it.\<close>

definition snapshot_ok :: "wal_sys \<Rightarrow> bool" where
  "snapshot_ok s \<longleftrightarrow> hdr0 (wi (wal s)) = hdr (wal s) \<and> 0 \<le> readLock (wal s) \<and>
     (readLock (wal s) > 0 \<longrightarrow>
       readLock (wal s) < int WAL_NREADER \<and>
       aReadMark (ckptInfo (wi (wal s))) ! nat (readLock (wal s)) \<le> mxFrame (hdr (wal s)) \<and>
       minFrame (wal s) = nBackfill (ckptInfo (wi (wal s))) + 1)"

lemma try_wal_snapshot:
  assumes "try_wal s rc = (RC SQLITE_OK, s')"
  shows "snapshot_ok s' \<and> 0 < readLock (wal s')"
proof -
  let ?mx = "mxFrame (hdr (wal s))"
  obtain m0 i0 where best: "best_mark (aReadMark (ckptInfo (wi (wal s)))) ?mx = (m0, i0)" by fastforce
  obtain ret rc1 m i s1 where cl:
    "(if readOnly (wal s) AND WAL_SHM_RDONLY = 0 \<and> (m0 < ?mx \<or> i0 = 0)
      then claim_mark s ?mx [1 ..< WAL_NREADER] rc (m0, i0) else (False, rc, (m0, i0), s)) = (ret, rc1, (m, i), s1)"
    by (metis prod_cases4 prod.collapse)
  have "mark_ok ?mx (m0, i0)" using best_mark_ok best by metis
  then have s1: "mark_ok ?mx (m, i) \<and> hdr (wal s1) = hdr (wal s) \<and> (ret \<longrightarrow> rc1 \<noteq> SQLITE_OK)"
    using cl claim_mark_ok [of s ?mx "[1 ..< WAL_NREADER]" rc "(m0, i0)" ret rc1 "(m, i)" s1]
    by (auto split: if_splits)
  have tw: "try_wal s rc =
     (if ret then (RC rc1, s1)
      else if i = 0 then (if rc1 = SQLITE_BUSY then WAL_RETRY else RC SQLITE_READONLY_CANTLOCK, s1)
      else
        let (rc, s) = walLockShared s1 (WAL_READ_LOCK i)
        in if rc \<noteq> SQLITE_OK then (if rc = SQLITE_BUSY then WAL_RETRY else RC rc, s)
           else
             let s = s\<lparr>wal := (wal s)\<lparr>minFrame := nBackfill (ckptInfo (wi (wal s))) + 1\<rparr>\<rparr>
             in if aReadMark (ckptInfo (wi (wal s))) ! i \<noteq> m \<or> hdr0 (wi (wal s)) \<noteq> hdr (wal s)
                then (WAL_RETRY, s)
                else (RC rc, s\<lparr>wal := (wal s)\<lparr>readLock := int i\<rparr>\<rparr>))"
    unfolding try_wal_def Let_def best prod.case cl ..
  have "SQLITE_READONLY_CANTLOCK \<noteq> SQLITE_OK" by (simp add: SQLITE_READONLY_CANTLOCK_def result_codes)
  moreover obtain rc2 s2 where l: "walLockShared s1 (WAL_READ_LOCK i) = (rc2, s2)" by fastforce
  ultimately have ok: "i \<noteq> 0" "rc2 = SQLITE_OK"
    "aReadMark (ckptInfo (wi (wal s2))) ! i = m" "hdr0 (wi (wal s2)) = hdr (wal s2)"
    "s' = s2\<lparr>wal := (wal s2)\<lparr>minFrame := nBackfill (ckptInfo (wi (wal s2))) + 1, readLock := int i\<rparr>\<rparr>"
    using assms s1 unfolding tw by (auto simp: Let_def split: if_splits)
  have "hdr (wal s2) = hdr (wal s)" using walLock_hdr(1) [OF l] s1 by simp
  then show ?thesis
    using ok s1 by (simp add: snapshot_ok_def mark_ok_def)
qed
lemma walTryBeginRead_snapshot:
  assumes "walTryBeginRead E mem s chg useWal cnt = (RC SQLITE_OK, chg', s')"
  shows "snapshot_ok s' \<and> (useWal \<longrightarrow> 0 < readLock (wal s'))"
proof -
  have cnt: "\<not> 100 < cnt" using assms by (auto simp: walTryBeginRead_def result_codes)
  obtain res chg1 s1 where pre:
    "(if useWal then (RC SQLITE_OK, chg, s) else try_read_hdr E mem s chg) = (res, chg1, s1)"
    by (cases "if useWal then (RC SQLITE_OK, chg, s) else try_read_hdr E mem s chg")
  obtain rc2 s2 where l: "walLockShared s1 (WAL_READ_LOCK 0) = (rc2, s2)" by fastforce
  obtain rb sb where tb: "try_wal s2 rc2 = (rb, sb)" by fastforce
  obtain rk sk where tk: "try_wal s1 SQLITE_OK = (rk, sk)" by fastforce
  have r: "walTryBeginRead E mem s chg useWal cnt =
    (if res \<noteq> RC SQLITE_OK then (res, chg1, s1)
     else if \<not> useWal \<and> nBackfill (ckptInfo (wi (wal s1))) = mxFrame (hdr (wal s1)) then
       if rc2 = SQLITE_OK then
            (if hdr0 (wi (wal s2)) \<noteq> hdr (wal s2) then (WAL_RETRY, chg1, s2)
             else (RC SQLITE_OK, chg1, s2\<lparr>wal := (wal s2)\<lparr>readLock := 0\<rparr>\<rparr>))
       else if rc2 \<noteq> SQLITE_BUSY then (RC rc2, chg1, s2) else (rb, chg1, sb)
     else (rk, chg1, sk))"
    using cnt unfolding walTryBeginRead_def pre Let_def prod.case l tb tk by (simp only: if_False)
  have tw: "rb = RC SQLITE_OK \<Longrightarrow> snapshot_ok sb \<and> 0 < readLock (wal sb)"
    "rk = RC SQLITE_OK \<Longrightarrow> snapshot_ok sk \<and> 0 < readLock (wal sk)"
    using try_wal_snapshot tb tk by blast+
  consider "res = RC SQLITE_OK" "rk = RC SQLITE_OK" "s' = sk"
    | "res = RC SQLITE_OK" "rb = RC SQLITE_OK" "s' = sb"
    | "\<not> useWal" "hdr0 (wi (wal s2)) = hdr (wal s2)" "s' = s2\<lparr>wal := (wal s2)\<lparr>readLock := 0\<rparr>\<rparr>"
    using assms unfolding r by (simp split: if_splits)
  then show ?thesis
    by cases (use tw in \<open>simp_all add: snapshot_ok_def\<close>)
qed

lemma begin_read_loop_snapshot:
  "begin_read_loop E mem s chg useWal cnt = (SQLITE_OK, chg', s') \<Longrightarrow>
    snapshot_ok s' \<and> (useWal \<longrightarrow> 0 < readLock (wal s'))"
proof (induction E mem s chg useWal cnt rule: begin_read_loop.induct)
  case (1 E mem s chg useWal cnt)
  obtain r c1 s1 where t: "walTryBeginRead E mem s chg useWal (cnt + 1) = (r, c1, s1)" by (metis prod_cases3)
  show ?case
  proof (cases r)
    case WAL_RETRY
    then have "begin_read_loop E mem s1 c1 useWal (cnt + 1) = (SQLITE_OK, chg', s')"
      using 1(2) t by (subst (asm) begin_read_loop.simps) simp
    then show ?thesis using 1(1) [of r "(c1, s1)" c1 s1] t WAL_RETRY by simp
  next
    case (RC rc)
    then have "walTryBeginRead E mem s chg useWal (cnt + 1) = (RC SQLITE_OK, chg', s')"
      using 1(2) t by (subst (asm) begin_read_loop.simps) simp
    then show ?thesis by (rule walTryBeginRead_snapshot)
  qed
qed

text \<open>
  C21: A read transaction that starts has a consistent snapshot, whatever other connections did
  during the attempts: the header it works with is the one published in the shared memory at the
  moment the last lock was taken, and unless it reads the database file alone it holds a lock on
  a mark that does not exceed the last frame of its snapshot, so that no checkpoint goes past it,
  and it takes the pages before the first frame that is not copied back from the database.
\<close>

theorem begin_read_snapshot:
  assumes "sqlite3WalBeginReadTransaction E mem s chg = (SQLITE_OK, chg', s')"
  shows "hdr0 (wi (wal s')) = hdr (wal s') \<and>
    (readLock (wal s') = 0 \<or>
     1 \<le> readLock (wal s') \<and> readLock (wal s') < int WAL_NREADER \<and>
     aReadMark (ckptInfo (wi (wal s'))) ! nat (readLock (wal s')) \<le> mxFrame (hdr (wal s')) \<and>
     minFrame (wal s') = nBackfill (ckptInfo (wi (wal s'))) + 1)"
  using begin_read_loop_snapshot [OF assms [unfolded sqlite3WalBeginReadTransaction_def]]
  by (auto simp: snapshot_ok_def)
text \<open>A header that was written by \<open>walIndexWriteHdr\<close> is read back.\<close>

definition published :: "Wal \<Rightarrow> bool" where
  "published W \<longleftrightarrow> hdr1 (wi W) = hdr0 (wi W) \<and> isInit (hdr0 (wi W)) \<noteq> 0 \<and>
     iVersion (hdr0 (wi W)) = WALINDEX_MAX_VERSION \<and>
     aCksum (hdr0 (wi W)) = walChecksumBytes True (hdr_bytes (hdr0 (wi W))) (0, 0)"

lemma published_WriteHdr: "published (walIndexWriteHdr W)" "hdr0 (wi (walIndexWriteHdr W)) = hdr (walIndexWriteHdr W)"
  by (simp_all add: published_def walIndexWriteHdr_def Let_def)

lemma walIndexTryHdr_published:
  assumes "published W"
  obtains sz where "walIndexTryHdr W =
    (False, hdr W \<noteq> hdr0 (wi W), W\<lparr>hdr := hdr0 (wi W), szPage := sz\<rparr>)"
proof (cases "hdr W = hdr0 (wi W)")
  case True
  then have "walIndexTryHdr W = (False, False, W)"
    using assms by (simp add: walIndexTryHdr_def published_def Let_def)
  moreover have "W\<lparr>hdr := hdr0 (wi W), szPage := szPage W\<rparr> = W" using True by simp
  ultimately show ?thesis using that [of "szPage W"] True by simp
next
  case False
  then show ?thesis
    using assms that by (simp add: walIndexTryHdr_def published_def Let_def)
qed

text \<open>A reader of an index with two frames.\<close>

definition sample_index :: wal_index where
  "sample_index =
     (wi (walIndexWriteHdr ((the (snd (sqlite3WalOpen True (SQLITE_OK, 0) 0 zero_index False (- 1))))
            \<lparr>hdr := zero_hdr\<lparr>mxFrame := 2, hszPage := 512\<rparr>\<rparr>)))
     \<lparr>ckptInfo := \<lparr>nBackfill = 0, aReadMark = [0, 2, READMARK_NOT_USED, READMARK_NOT_USED, READMARK_NOT_USED],
                    nBackfillAttempted = 0\<rparr>\<rparr>"

definition sample_reader :: wal_sys where
  "sample_reader = sample_sys\<lparr>wal := (wal sample_sys)\<lparr>wi := sample_index\<rparr>\<rparr>"

lemma sample_index_parts:
  "mxFrame (hdr0 sample_index) = 2" "nBackfill (ckptInfo sample_index) = 0"
  "aReadMark (ckptInfo sample_index) = [0, 2, READMARK_NOT_USED, READMARK_NOT_USED, READMARK_NOT_USED]"
  by (simp_all add: sample_index_def walIndexWriteHdr_def Let_def)

lemma published_same:
  "hdr0 (wi W) = hdr0 (wi V) \<Longrightarrow> hdr1 (wi W) = hdr1 (wi V) \<Longrightarrow> published W = published V"
  by (simp add: published_def)

lemma sample_reader_published: "published (wal sample_reader)"
proof -
  let ?V = "walIndexWriteHdr ((the (snd (sqlite3WalOpen True (SQLITE_OK, 0) 0 zero_index False (- 1))))
            \<lparr>hdr := zero_hdr\<lparr>mxFrame := 2, hszPage := 512\<rparr>\<rparr>)"
  have "published (wal sample_reader) = published ?V"
    by (rule published_same) (simp_all add: sample_reader_def sample_index_def)
  then show ?thesis using published_WriteHdr by blast
qed
lemma sample_begin_read:
  "\<exists>s'. sqlite3WalBeginReadTransaction good_env True sample_reader False = (SQLITE_OK, True, s') \<and>
     readLock (wal s') = 1 \<and> mxFrame (hdr (wal s')) = 2"
proof -
  let ?W = "(wal sample_reader)\<lparr>nWiData := 1, apWiData := (\<lambda>j. j = 0)\<rparr>"
  have mode: "exclusiveMode (wal sample_reader) = WAL_NORMAL_MODE" "readOnly (wal sample_reader) = 0"
    "hdr (wal sample_reader) = zero_hdr" "locks sample_reader = []" "wi (wal sample_reader) = sample_index"
    "nWiData (wal sample_reader) = 0" "apWiData (wal sample_reader) = (\<lambda>_. False)"
    by (simp_all add: sample_reader_def sample_sys_def sqlite3WalOpen_def)
  have page: "walIndexPage good_env (wal sample_reader) 0 = (SQLITE_OK, Some 0, ?W)"
    using mode by (simp add: walIndexPage_def good_env_def fun_upd_def WAL_NORMAL_MODE_def WAL_HEAPMEMORY_MODE_def
        result_codes Let_def)
  have pub: "published ?W" using published_same [of ?W "wal sample_reader"] sample_reader_published by simp
  have neq: "hdr0 sample_index \<noteq> zero_hdr" using sample_index_parts(1) by (auto simp: zero_hdr_def)
  obtain sz where rd: "walIndexTryHdr ?W = (False, True, ?W\<lparr>hdr := hdr0 sample_index, szPage := sz\<rparr>)"
    by (rule walIndexTryHdr_published [OF pub]) (use mode neq in simp)
  let ?s = "sample_reader\<lparr>wal := ?W\<lparr>hdr := hdr0 sample_index, szPage := sz\<rparr>\<rparr>"
  have ver: "iVersion (hdr0 sample_index) = WALINDEX_MAX_VERSION"
    using pub mode by (simp add: published_def)
  have hdr: "walIndexReadHdr good_env True sample_reader False = (SQLITE_OK, True, ?s)"
    using page rd ver unfolding walIndexReadHdr_def try_hdr_def by (simp add: Let_def)
  have "best_mark (aReadMark (ckptInfo sample_index)) 2 = (2, 1)"
    by (simp add: best_mark_def sample_index_parts WAL_NREADER_def SQLITE_SHM_NLOCK_def READMARK_NOT_USED_def upt_rec)
  then have tw: "try_wal ?s SQLITE_OK =
      (RC SQLITE_OK, ?s\<lparr>wal := (wal ?s)\<lparr>minFrame := 1, readLock := 1\<rparr>\<rparr>)"
    using mode by (simp add: try_wal_def sample_index_parts walLockShared_def lock_next_def)
  have "walTryBeginRead good_env True sample_reader False False 1 =
      (RC SQLITE_OK, True, ?s\<lparr>wal := (wal ?s)\<lparr>minFrame := 1, readLock := 1\<rparr>\<rparr>)"
    using hdr tw mode by (simp add: walTryBeginRead_def try_read_hdr_def sample_index_parts result_codes)
  then show ?thesis
    unfolding sqlite3WalBeginReadTransaction_def
    by (subst begin_read_loop.simps) (simp add: sample_index_parts)
qed

theorem begin_read_snapshot_witness:
  "\<exists>s'. sqlite3WalBeginReadTransaction good_env True sample_reader False = (SQLITE_OK, True, s') \<and>
     hdr0 (wi (wal s')) = hdr (wal s') \<and> readLock (wal s') = 1 \<and> mxFrame (hdr (wal s')) = 2 \<and>
     aReadMark (ckptInfo (wi (wal s'))) ! 1 \<le> 2"
proof -
  obtain s' where s': "sqlite3WalBeginReadTransaction good_env True sample_reader False = (SQLITE_OK, True, s')"
    "readLock (wal s') = 1" "mxFrame (hdr (wal s')) = 2"
    using sample_begin_read by blast
  show ?thesis using begin_read_snapshot [OF s'(1)] s' by auto
qed

theorem begin_read_returns_witness:
  "\<exists>n s'. n < 100 \<and> tries good_env True sample_reader False False n = (RC SQLITE_OK, True, s') \<and>
     sqlite3WalBeginReadTransaction good_env True sample_reader False = (SQLITE_OK, True, s')"
proof -
  obtain s' where s': "sqlite3WalBeginReadTransaction good_env True sample_reader False = (SQLITE_OK, True, s')"
    using sample_begin_read by blast
  obtain n where n: "n \<le> 100" "tries good_env True sample_reader False False n = (RC SQLITE_OK, True, s')"
      "n = 100 \<longrightarrow> SQLITE_OK = SQLITE_PROTOCOL"
    using begin_read_returns [of good_env True sample_reader False] s' by auto
  have "(SQLITE_OK :: nat) \<noteq> SQLITE_PROTOCOL" by (simp add: SQLITE_OK_def SQLITE_PROTOCOL_def)
  then show ?thesis using n s' by (metis order_le_neq_trans)
qed

end
