(* ===== verification/WalWrite.thy ===== *)
theory WalWrite
  imports WalRead
begin

text \<open>
  Writing frames to the log (\<open>sqlite3WalFrames\<close> of \<open>src/wal.c\<close>): the restart of a log that has been
  copied back, its header, the frames of the dirty pages, the ones that overwrite a frame of the
  same transaction and the new checksums that this needs, the padding to a sector, and the new
  entries of the index.
\<close>

section \<open>Pages\<close>

record PgHdr =
  pgno :: u32
  pData :: "u8 list"
  wal_append :: bool

definition sqlite3PagerCodec :: "wal_sys \<Rightarrow> PgHdr \<Rightarrow> u8 list option \<times> wal_sys" where
  "sqlite3PagerCodec s p = (case xCodec s of
       None \<Rightarrow> (Some (pData p), s)
     | Some f \<Rightarrow> (f 0 (pgno p) (pData p), s\<lparr>xCodec := Some (\<lambda>i. f (i + 1))\<rparr>))"

definition MAX_SECTOR_SIZE :: nat where "MAX_SECTOR_SIZE = 0x10000"

definition sqlite3SectorSize :: "int \<Rightarrow> nat" where
  "sqlite3SectorSize os_sector =
     (if os_sector < 32 then 512 else if int MAX_SECTOR_SIZE < os_sector then MAX_SECTOR_SIZE else nat os_sector)"

section \<open>One frame\<close>

text \<open>\<open>iSyncPoint\<close> is the field of the \<open>WalWriter\<close>; its other fields are those of the handle.\<close>

definition walWriteToLog :: "wal_sys \<Rightarrow> nat \<Rightarrow> u8 list \<Rightarrow> nat \<Rightarrow> nat \<times> wal_sys" where
  "walWriteToLog s iSyncPoint pContent iOffset =
     (if iOffset < iSyncPoint \<and> iSyncPoint \<le> iOffset + length pContent then
        let iFirstAmt = iSyncPoint - iOffset;
            (rc, s) = os_write s (take iFirstAmt pContent) iOffset
        in if rc \<noteq> SQLITE_OK then (rc, s)
           else
             let pContent = drop iFirstAmt pContent;
                 (rc, s) = os_sync s
             in if pContent = [] \<or> rc \<noteq> SQLITE_OK then (rc, s)
                else os_write s pContent (iOffset + iFirstAmt)
      else os_write s pContent iOffset)"

definition walWriteOneFrame :: "wal_sys \<Rightarrow> nat \<Rightarrow> u32 \<Rightarrow> PgHdr \<Rightarrow> u32 \<Rightarrow> nat \<Rightarrow> nat \<times> wal_sys" where
  "walWriteOneFrame s iSyncPoint szPg pPage nTruncate iOffset =
     (case sqlite3PagerCodec s pPage of
        (None, s) \<Rightarrow> (SQLITE_NOMEM, s)
      | (Some d, s) \<Rightarrow>
          let (aFrame, W) = walEncodeFrame (wal s) (pgno pPage) nTruncate d;
              (rc, s) = walWriteToLog (s\<lparr>wal := W\<rparr>) iSyncPoint aFrame iOffset
          in if rc \<noteq> SQLITE_OK then (rc, s)
             else walWriteToLog s iSyncPoint (take (unat szPg) d) (iOffset + WAL_FRAME_HDRSIZE))"

section \<open>New checksums\<close>

primrec rewrite_frames :: "nat \<Rightarrow> wal_sys \<Rightarrow> nat list \<Rightarrow> nat \<times> wal_sys" where
  "rewrite_frames sz s [] = (SQLITE_OK, s)"
| "rewrite_frames sz s (iRead # js) =
     (let iOff = walFrameOffset iRead sz;
          (rc, aBuf, s) = os_read s (sz + WAL_FRAME_HDRSIZE) iOff
      in if rc \<noteq> SQLITE_OK then (rc, s)
         else
           let (aFrame, W) = walEncodeFrame (wal s) (get4 aBuf 0) (get4 aBuf 4) (drop WAL_FRAME_HDRSIZE aBuf);
               (rc, s) = os_write (s\<lparr>wal := W\<rparr>) aFrame iOff
           in if rc \<noteq> SQLITE_OK then (rc, s) else rewrite_frames sz s js)"

definition walRewriteChecksums :: "bool \<Rightarrow> wal_sys \<Rightarrow> u32 \<Rightarrow> nat \<times> wal_sys" where
  "walRewriteChecksums mem s iLast =
     (if \<not> mem then (SQLITE_NOMEM, s)
      else
        let sz = unat (szPage (wal s)); i0 = iReCksum (wal s);
            iCksumOff = (if i0 = 1 then 24 else walFrameOffset (unat (i0 - 1)) sz + 16);
            (rc, aBuf, s) = os_read s 8 iCksumOff;
            s = s\<lparr>wal := (wal s)\<lparr>hdr := (hdr (wal s))\<lparr>aFrameCksum := (get4 aBuf 0, get4 aBuf 4)\<rparr>,
                                iReCksum := 0\<rparr>\<rparr>
        in if rc \<noteq> SQLITE_OK then (rc, s) else rewrite_frames sz s [unat i0 ..< unat iLast + 1])"

section \<open>The header of the log\<close>

definition write_log_hdr :: "wal_sys \<Rightarrow> u32 \<Rightarrow> nat \<Rightarrow> nat \<times> wal_sys" where
  "write_log_hdr s szPg sync_flags =
     (let s = (if nCkpt (wal s) = 0
               then let (salt, s) = wal_randomness 8 s
                    in s\<lparr>wal := (wal s)\<lparr>hdr := (hdr (wal s))\<lparr>aSalt := salt\<rparr>\<rparr>\<rparr>
               else s);
          W = wal s;
          aWalHdr = sqlite3Put4byte (WAL_MAGIC OR ucast SQLITE_BIGENDIAN) @ sqlite3Put4byte WAL_MAX_VERSION @
            sqlite3Put4byte szPg @ sqlite3Put4byte (nCkpt W) @ aSalt (hdr W);
          c = walChecksumBytes True aWalHdr (0, 0);
          aWalHdr = aWalHdr @ sqlite3Put4byte (fst c) @ sqlite3Put4byte (snd c);
          W = W\<lparr>szPage := szPg, hdr := (hdr W)\<lparr>bigEndCksum := SQLITE_BIGENDIAN, aFrameCksum := c\<rparr>,
                truncateOnCommit := True\<rparr>;
          (rc, s) = os_write (s\<lparr>wal := W\<rparr>) aWalHdr 0
      in if rc \<noteq> SQLITE_OK then (rc, s)
         else if syncHeader (wal s) \<and> sync_flags \<noteq> 0 then os_sync s
         else (SQLITE_OK, s))"

section \<open>A set of frames\<close>

text \<open>
  Where the loop over the dirty pages stands: the frame written last and the offset behind it,
  and the page written last.
\<close>

record wal_pos =
  pos_frame :: u32
  pos_ofst :: nat
  pos_last :: "PgHdr option"

text \<open>
  The frame of this transaction that page \<open>p\<close> has already, if frames of it are in the log; 0 for
  none. The last page of a commit always gets a new frame.
\<close>

definition own_frame :: "wal_env \<Rightarrow> u32 \<Rightarrow> bool \<Rightarrow> wal_sys \<Rightarrow> PgHdr \<Rightarrow> bool \<Rightarrow> u32 \<times> wal_sys" where
  "own_frame E iFirst isCommit s p isLast =
     (if iFirst \<noteq> 0 \<and> (\<not> isLast \<or> \<not> isCommit) then
        let (rc, iWrite, W) = sqlite3WalFindFrame E (wal s) (pgno p)
        in (if rc = SQLITE_OK \<and> iFirst \<le> iWrite then iWrite else 0, s\<lparr>wal := W\<rparr>)
      else (0, s))"

fun write_frames :: "wal_env \<Rightarrow> u32 \<Rightarrow> u32 \<Rightarrow> bool \<Rightarrow> u32 \<Rightarrow> wal_sys \<Rightarrow> wal_pos \<Rightarrow> PgHdr list
    \<Rightarrow> nat \<times> PgHdr list \<times> wal_pos \<times> wal_sys" where
  "write_frames E szPg iFirst isCommit nTruncate s pos [] = (SQLITE_OK, [], pos, s)"
| "write_frames E szPg iFirst isCommit nTruncate s pos (p # ps) =
     (let (iWrite, s) = own_frame E iFirst isCommit s p (ps = [])
      in if iWrite \<noteq> 0 then
           let iOff = walFrameOffset (unat iWrite) (unat szPg) + WAL_FRAME_HDRSIZE;
               s = (if iReCksum (wal s) = 0 \<or> iWrite < iReCksum (wal s)
                    then s\<lparr>wal := (wal s)\<lparr>iReCksum := iWrite\<rparr>\<rparr> else s)
           in (case sqlite3PagerCodec s p of
                 (None, s) \<Rightarrow> (SQLITE_NOMEM, p # ps, pos, s)
               | (Some d, s) \<Rightarrow>
                   let (rc, s) = os_write s (take (unat szPg) d) iOff
                   in if rc \<noteq> SQLITE_OK then (rc, p # ps, pos, s)
                      else let (rc, qs, pos, s) = write_frames E szPg iFirst isCommit nTruncate s pos ps
                           in (rc, p\<lparr>wal_append := False\<rparr> # qs, pos, s))
         else
           let nDbSize = (if isCommit \<and> ps = [] then nTruncate else 0);
               (rc, s) = walWriteOneFrame s 0 szPg p nDbSize (pos_ofst pos);
               pos1 = pos\<lparr>pos_frame := pos_frame pos + 1\<rparr>
           in if rc \<noteq> SQLITE_OK then (rc, p # ps, pos1, s)
              else
                let q = p\<lparr>wal_append := True\<rparr>;
                    pos1 = pos1\<lparr>pos_last := Some q, pos_ofst := pos_ofst pos + (unat szPg + WAL_FRAME_HDRSIZE)\<rparr>;
                    (rc, qs, pos, s) = write_frames E szPg iFirst isCommit nTruncate s pos1 ps
                in (rc, q # qs, pos, s))"

function pad_frames :: "wal_sys \<Rightarrow> nat \<Rightarrow> u32 \<Rightarrow> PgHdr \<Rightarrow> u32 \<Rightarrow> nat \<Rightarrow> nat \<Rightarrow> nat \<times> nat \<times> wal_sys" where
  "pad_frames s iSyncPoint szPg p nTruncate ofst nExtra =
     (if ofst < iSyncPoint then
        let (rc, s) = walWriteOneFrame s iSyncPoint szPg p nTruncate ofst
        in if rc \<noteq> SQLITE_OK then (rc, nExtra, s)
           else pad_frames s iSyncPoint szPg p nTruncate (ofst + (unat szPg + WAL_FRAME_HDRSIZE)) (nExtra + 1)
      else (SQLITE_OK, nExtra, s))"
  by pat_completeness auto
termination
  by (relation "measure (\<lambda>(s, iSyncPoint, sz, p, nt, ofst, n). iSyncPoint - ofst)")
    (auto simp: WAL_FRAME_HDRSIZE_def)

declare pad_frames.simps [simp del]

text \<open>
  Padding and syncing at the end of a transaction. The Boolean says that an error returns at once;
  the result of the last sync does not.
\<close>

definition WAL_SYNC_TRANSACTIONS :: nat where "WAL_SYNC_TRANSACTIONS = 0x20"

definition sync_frames :: "int \<Rightarrow> wal_sys \<Rightarrow> u32 \<Rightarrow> u32 \<Rightarrow> wal_pos \<Rightarrow> nat \<times> bool \<times> nat \<times> wal_sys" where
  "sync_frames os_sector s szPg nTruncate pos =
     (if padToSectorBoundary (wal s) then
        let sectorSize = sqlite3SectorSize os_sector;
            iSyncPoint = ((pos_ofst pos + sectorSize - 1) div sectorSize) * sectorSize;
            (rc, nExtra, s) = pad_frames s iSyncPoint szPg (the (pos_last pos)) nTruncate (pos_ofst pos) 0
        in if rc \<noteq> SQLITE_OK then (rc, True, nExtra, s)
           else if iSyncPoint = pos_ofst pos then let (rc, s) = os_sync s in (rc, False, nExtra, s)
           else (SQLITE_OK, False, nExtra, s)
      else let (rc, s) = os_sync s in (rc, False, 0, s))"

definition os_truncate :: "wal_sys \<Rightarrow> nat \<Rightarrow> nat \<times> wal_sys" where
  "os_truncate s n =
     (let (rc, k, s) = io_next s
      in (rc, if rc = SQLITE_OK then s\<lparr>logF := take n (logF s @ replicate (n - length (logF s)) 0)\<rparr> else s))"

definition walLimitSize :: "wal_sys \<Rightarrow> nat \<Rightarrow> wal_sys" where
  "walLimitSize s nMax =
     (let (rx, sz, s) = os_size s
      in if rx = SQLITE_OK \<and> nMax < sz then snd (os_truncate s nMax) else s)"

fun append_frames :: "wal_env \<Rightarrow> nat \<Rightarrow> Wal \<Rightarrow> u32 \<Rightarrow> u32 list \<Rightarrow> nat \<times> u32 \<times> Wal" where
  "append_frames E rc W iFrame [] = (rc, iFrame, W)"
| "append_frames E rc W iFrame (g # gs) =
     (if rc \<noteq> SQLITE_OK then (rc, iFrame, W)
      else let (rc, W) = walIndexAppend E W (iFrame + 1) g in append_frames E rc W (iFrame + 1) gs)"

text \<open>The part after the frames are in the file.\<close>

definition finish_frames :: "wal_env \<Rightarrow> nat \<Rightarrow> wal_sys \<Rightarrow> u32 \<Rightarrow> PgHdr list \<Rightarrow> u32 \<Rightarrow> bool \<Rightarrow> wal_pos \<Rightarrow> nat
    \<Rightarrow> nat \<times> wal_sys" where
  "finish_frames E rc s szPg qs nTruncate isCommit pos nExtra =
     (let end = walFrameOffset (unat (pos_frame pos) + nExtra + 1) (unat szPg);
          s = (if isCommit \<and> truncateOnCommit (wal s) \<and> 0 \<le> mxWalSize (wal s)
               then let s = walLimitSize s (max end (nat (mxWalSize (wal s))))
                    in s\<lparr>wal := (wal s)\<lparr>truncateOnCommit := False\<rparr>\<rparr>
               else s);
          gs = map pgno (filter wal_append qs) @ replicate nExtra (pgno (the (pos_last pos)));
          (rc, iFrame, W) = append_frames E rc (wal s) (mxFrame (hdr (wal s))) gs
      in if rc \<noteq> SQLITE_OK then (rc, s\<lparr>wal := W\<rparr>)
         else
           let h = (hdr W)\<lparr>hszPage := page_size_field szPg, mxFrame := iFrame\<rparr>;
               W = (if isCommit
                    then (walIndexWriteHdr (W\<lparr>hdr := h\<lparr>iChange := iChange h + 1, nPage := nTruncate\<rparr>\<rparr>))
                           \<lparr>iCallback := iFrame\<rparr>
                    else W\<lparr>hdr := h\<rparr>)
           in (rc, s\<lparr>wal := W\<rparr>))"

text \<open>The part for a log that has its header, and then the whole.\<close>

definition put_frames :: "wal_env \<Rightarrow> bool \<Rightarrow> int \<Rightarrow> wal_sys \<Rightarrow> u32 \<Rightarrow> u32 \<Rightarrow> PgHdr list \<Rightarrow> u32 \<Rightarrow> bool \<Rightarrow> nat
    \<Rightarrow> nat \<times> wal_sys" where
  "put_frames E mem os_sector s szPg iFirst pList nTruncate isCommit sync_flags =
     (let iFr = mxFrame (hdr (wal s));
          pos = \<lparr>pos_frame = iFr, pos_ofst = walFrameOffset (unat (iFr + 1)) (unat szPg), pos_last = None\<rparr>;
          (rc, qs, pos, s) = write_frames E szPg iFirst isCommit nTruncate s pos pList
      in if rc \<noteq> SQLITE_OK then (rc, s)
         else
           let (rc, s) = (if isCommit \<and> iReCksum (wal s) \<noteq> 0
                          then walRewriteChecksums mem s (pos_frame pos) else (SQLITE_OK, s))
           in if rc \<noteq> SQLITE_OK then (rc, s)
              else
                let (rc, stop, nExtra, s) =
                      (if isCommit \<and> sync_flags AND WAL_SYNC_TRANSACTIONS \<noteq> 0
                       then sync_frames os_sector s szPg nTruncate pos else (SQLITE_OK, False, 0, s))
                in if stop then (rc, s)
                   else finish_frames E rc s szPg qs nTruncate isCommit pos nExtra)"

definition sqlite3WalFrames :: "wal_env \<Rightarrow> bool \<Rightarrow> int \<Rightarrow> wal_sys \<Rightarrow> u32 \<Rightarrow> PgHdr list \<Rightarrow> u32 \<Rightarrow> bool \<Rightarrow> nat
    \<Rightarrow> nat \<times> wal_sys" where
  "sqlite3WalFrames E mem os_sector s szPg pList nTruncate isCommit sync_flags =
     (let live = hdr0 (wi (wal s));
          iFirst = (if hdr (wal s) \<noteq> live then mxFrame live + 1 else 0);
          (rc, s) = walRestartLog E mem s
      in if rc \<noteq> SQLITE_OK then (rc, s)
         else
           let (rc, s) = (if mxFrame (hdr (wal s)) = 0 then write_log_hdr s szPg sync_flags else (SQLITE_OK, s))
           in if rc \<noteq> SQLITE_OK then (rc, s)
              else put_frames E mem os_sector s szPg iFirst pList nTruncate isCommit sync_flags)"

section \<open>Frames reach the file\<close>

lemma file_write_at: "file_write (pre @ rest) (length pre) d = pre @ d @ drop (length d) rest"
  by (simp add: file_write_def)

lemma os_write_at:
  "ios s = [] \<Longrightarrow> logF s = pre @ rest \<Longrightarrow>
    os_write s d (length pre) = (SQLITE_OK, s\<lparr>logF := pre @ d @ drop (length d) rest\<rparr>)"
  by (simp add: os_write_def io_next_def file_write_at)

definition codec_out :: "(nat \<Rightarrow> u32 \<Rightarrow> u8 list \<Rightarrow> u8 list option) option \<Rightarrow> PgHdr \<Rightarrow> u8 list option" where
  "codec_out c p = (case c of None \<Rightarrow> Some (pData p) | Some f \<Rightarrow> f 0 (pgno p) (pData p))"

definition codec_next :: "(nat \<Rightarrow> u32 \<Rightarrow> u8 list \<Rightarrow> u8 list option) option
    \<Rightarrow> (nat \<Rightarrow> u32 \<Rightarrow> u8 list \<Rightarrow> u8 list option) option" where
  "codec_next c = map_option (\<lambda>f i. f (i + 1)) c"

lemma sqlite3PagerCodec_eq:
  "sqlite3PagerCodec s p = (codec_out (xCodec s) p, s\<lparr>xCodec := codec_next (xCodec s)\<rparr>)"
  by (cases "xCodec s") (simp_all add: sqlite3PagerCodec_def codec_out_def codec_next_def)

text \<open>The frames that a list of dirty pages makes, and that the codec has them all.\<close>

fun new_frames :: "(nat \<Rightarrow> u32 \<Rightarrow> u8 list \<Rightarrow> u8 list option) option \<Rightarrow> nat \<Rightarrow> u32 \<Rightarrow> PgHdr list \<Rightarrow> wal_frame list" where
  "new_frames c sz nTruncate [] = []"
| "new_frames c sz nTruncate (p # ps) =
     (pgno p, if ps = [] then nTruncate else 0, take sz (the (codec_out c p)))
       # new_frames (codec_next c) sz nTruncate ps"

fun pages_ok :: "(nat \<Rightarrow> u32 \<Rightarrow> u8 list \<Rightarrow> u8 list option) option \<Rightarrow> nat \<Rightarrow> PgHdr list \<Rightarrow> bool" where
  "pages_ok c sz [] = True"
| "pages_ok c sz (p # ps) =
     (pgno p \<noteq> 0 \<and> (\<exists>d. codec_out c p = Some d \<and> sz \<le> length d) \<and> pages_ok (codec_next c) sz ps)"

lemma new_frames_ok: "pages_ok c sz ps \<Longrightarrow> f \<in> set (new_frames c sz nTruncate ps) \<Longrightarrow> frame_ok sz f"
  by (induction ps arbitrary: c) (auto simp: frame_ok_def)

lemma new_frames_simps [simp]:
  "length (new_frames c sz nTruncate ps) = length ps"
  "map fst (new_frames c sz nTruncate ps) = map pgno ps"
  by (induction ps arbitrary: c) simp_all

lemma walWriteOneFrame_ok:
  assumes W: "native_cksum (wal s) = native" "aSalt (hdr (wal s)) = salt" "aFrameCksum (hdr (wal s)) = ck"
    "iReCksum (wal s) = 0" "szPage (wal s) = szPg" "length salt = 8"
    and d: "codec_out (xCodec s) p = Some d" "unat szPg \<le> length d"
    and log: "logF s = pre @ rest" "ios s = []"
    and f: "f = (pgno p, nTruncate, take (unat szPg) d)"
  shows "walWriteOneFrame s 0 szPg p nTruncate (length pre) =
    (SQLITE_OK, s\<lparr>wal := (wal s)\<lparr>hdr := (hdr (wal s))\<lparr>aFrameCksum := frame_ck native ck f\<rparr>\<rparr>,
       logF := pre @ enc_frame native salt ck f @ drop (24 + unat szPg) rest, xCodec := codec_next (xCodec s)\<rparr>)"
proof -
  let ?c = "frame_ck native ck f"
  let ?a = "sqlite3Put4byte (pgno p) @ sqlite3Put4byte nTruncate @ salt @ sqlite3Put4byte (fst ?c) @ sqlite3Put4byte (snd ?c)"
  let ?W = "(wal s)\<lparr>hdr := (hdr (wal s))\<lparr>aFrameCksum := ?c\<rparr>\<rparr>"
  have enc: "walEncodeFrame (wal s) (pgno p) nTruncate d = (?a, ?W)"
    using W by (simp add: walEncodeFrame_def frame_ck_def f Let_def)
  have a: "length ?a = 24" using W(6) by simp
  let ?s = "s\<lparr>xCodec := codec_next (xCodec s), wal := ?W\<rparr>"
  have w1: "os_write ?s ?a (length pre) = (SQLITE_OK, ?s\<lparr>logF := pre @ ?a @ drop 24 rest\<rparr>)"
    using log a os_write_at [of ?s pre rest ?a] by simp
  have w2: "os_write (?s\<lparr>logF := pre @ ?a @ drop 24 rest\<rparr>) (take (unat szPg) d) (length pre + 24) =
      (SQLITE_OK, ?s\<lparr>logF := (pre @ ?a) @ take (unat szPg) d @ drop (unat szPg) (drop 24 rest)\<rparr>)"
    using log a d(2) os_write_at [of "?s\<lparr>logF := pre @ ?a @ drop 24 rest\<rparr>" "pre @ ?a" "drop 24 rest" "take (unat szPg) d"]
    by simp
  have "walWriteOneFrame s 0 szPg p nTruncate (length pre) =
      (SQLITE_OK, ?s\<lparr>logF := (pre @ ?a) @ take (unat szPg) d @ drop (unat szPg) (drop 24 rest)\<rparr>)"
    using enc w1 w2 by (simp add: walWriteOneFrame_def sqlite3PagerCodec_eq d(1) walWriteToLog_def WAL_FRAME_HDRSIZE_def)
  moreover have "enc_frame native salt ck f = ?a @ take (unat szPg) d"
    by (simp add: enc_frame_def f)
  ultimately show ?thesis by (simp add: add.commute)
qed
lemma write_frames_ok:
  assumes "native_cksum (wal s) = native" "aSalt (hdr (wal s)) = salt" "aFrameCksum (hdr (wal s)) = ck"
    "iReCksum (wal s) = 0" "szPage (wal s) = szPg" "length salt = 8" "pages_ok (xCodec s) (unat szPg) ps"
    "logF s = pre @ rest" "ios s = []" "pos_ofst pos = length pre" "isCommit = (nTruncate \<noteq> 0)"
    and "fs = new_frames (xCodec s) (unat szPg) nTruncate ps"
  shows "write_frames E szPg 0 isCommit nTruncate s pos ps =
    (SQLITE_OK, map (\<lambda>p. p\<lparr>wal_append := True\<rparr>) ps,
     pos\<lparr>pos_frame := pos_frame pos + of_nat (length ps),
         pos_ofst := length pre + length ps * (unat szPg + 24),
         pos_last := if ps = [] then pos_last pos else Some ((last ps)\<lparr>wal_append := True\<rparr>)\<rparr>,
     s\<lparr>wal := (wal s)\<lparr>hdr := (hdr (wal s))\<lparr>aFrameCksum := chain native ck fs\<rparr>\<rparr>,
       logF := pre @ enc_frames native salt ck fs @ drop (length ps * (unat szPg + 24)) rest,
       xCodec := (codec_next ^^ length ps) (xCodec s)\<rparr>)"
  using assms
proof (induction ps arbitrary: s pos ck pre rest fs)
  case Nil
  then show ?case by (simp add: Nil)
next
  case (Cons p ps)
  obtain d where d: "codec_out (xCodec s) p = Some d" "unat szPg \<le> length d"
    using Cons.prems(7) by auto
  define nt where "nt = (if isCommit \<and> ps = [] then nTruncate else 0)"
  define f where "f = (pgno p, nt, take (unat szPg) d)"
  let ?b = "enc_frame native salt ck f"
  let ?s = "s\<lparr>wal := (wal s)\<lparr>hdr := (hdr (wal s))\<lparr>aFrameCksum := frame_ck native ck f\<rparr>\<rparr>,
       logF := pre @ ?b @ drop (24 + unat szPg) rest, xCodec := codec_next (xCodec s)\<rparr>"
  let ?q = "p\<lparr>wal_append := True\<rparr>"
  let ?pos = "pos\<lparr>pos_frame := pos_frame pos + 1, pos_last := Some ?q,
      pos_ofst := pos_ofst pos + (unat szPg + WAL_FRAME_HDRSIZE)\<rparr>"
  have nt: "nt = (if ps = [] then nTruncate else 0)" using Cons.prems(11) by (auto simp: nt_def)
  have len: "length ?b = 24 + unat szPg"
    using d(2) Cons.prems(6) by (simp add: f_def length_enc_frame)
  have one: "walWriteOneFrame s 0 szPg p nt (pos_ofst pos) = (SQLITE_OK, ?s)"
    using walWriteOneFrame_ok [OF Cons.prems(1-6) d Cons.prems(8,9) f_def] Cons.prems(10) by simp
  let ?fs = "new_frames (codec_next (xCodec s)) (unat szPg) nTruncate ps"
  have fs: "fs = f # ?fs" using d nt Cons.prems(12) by (simp add: f_def)
  have ih: "write_frames E szPg 0 isCommit nTruncate ?s ?pos ps =
    (SQLITE_OK, map (\<lambda>p. p\<lparr>wal_append := True\<rparr>) ps,
     ?pos\<lparr>pos_frame := pos_frame ?pos + of_nat (length ps),
         pos_ofst := length (pre @ ?b) + length ps * (unat szPg + 24),
         pos_last := if ps = [] then pos_last ?pos else Some ((last ps)\<lparr>wal_append := True\<rparr>)\<rparr>,
     ?s\<lparr>wal := (wal ?s)\<lparr>hdr := (hdr (wal ?s))\<lparr>aFrameCksum := chain native (frame_ck native ck f) ?fs\<rparr>\<rparr>,
       logF := (pre @ ?b) @ enc_frames native salt (frame_ck native ck f) ?fs
                 @ drop (length ps * (unat szPg + 24)) (drop (24 + unat szPg) rest),
       xCodec := (codec_next ^^ length ps) (xCodec ?s)\<rparr>)"
    by (rule Cons.IH) (use Cons.prems len in \<open>simp_all add: native_cksum_def WAL_FRAME_HDRSIZE_def\<close>)
  have own: "own_frame E 0 isCommit s p (ps = []) = (0, s)" by (simp add: own_frame_def)
  have "write_frames E szPg 0 isCommit nTruncate s pos (p # ps) =
      (let (rc, qs, pos, s) = write_frames E szPg 0 isCommit nTruncate ?s ?pos ps in (rc, ?q # qs, pos, s))"
    using own one nt_def by (simp add: Let_def)
  then show ?case
    unfolding ih using len fs
    by (simp add: add.commute add.left_commute funpow_swap1)
qed

lemma append_frames_ok:
  assumes "env_ok E" and "index_repr W qs" and "n \<le> length qs" and "n = length qs \<or> n = unat (mxFrame (hdr W))"
    and "n + length gs \<le> MAX_FRAMES" and "0 \<notin> set gs"
  shows "\<exists>W'. append_frames E SQLITE_OK W (of_nat n) gs = (SQLITE_OK, of_nat (n + length gs), W') \<and>
    index_only W W' \<and> index_repr W' (if gs = [] then qs else take n qs @ gs)"
  using assms(2-)
proof (induction gs arbitrary: W qs n)
  case (Cons g gs)
  let ?i = "of_nat n + 1 :: u32"
  have i: "unat ?i = n + 1"
  proof -
    have "?i = of_nat (n + 1)" by simp
    then show ?thesis using Cons.prems(4) by (simp only: unat_of_nat) (simp add: take_bit_nat_eq_self)
  qed
  obtain rc W2 where app: "walIndexAppend E W ?i g = (rc, W2)" by fastforce
  obtain rc' q V where page: "walIndexPage E W (table_of (unat ?i)) = (rc', q, V)" by (metis prod_cases3)
  have rc': "rc' = SQLITE_OK" using walIndexPage_ok [OF assms(1) page] .
  have g: "g \<noteq> 0" using Cons.prems(5) by simp
  note app_repr = walIndexAppend_repr [OF Cons.prems(1) _ _ _ g _ app page]
  have rc: "rc = SQLITE_OK" and repr2: "index_repr W2 (take n qs @ [g])" and hdr2: "hdr W2 = hdr W"
    using app_repr(1,2,3) i rc' Cons.prems by auto
  have only: "index_only W W2" using index_only_append [OF app] .
  have "\<exists>W'. append_frames E SQLITE_OK W2 (of_nat (n + 1)) gs = (SQLITE_OK, of_nat (n + 1 + length gs), W') \<and>
      index_only W2 W' \<and> index_repr W' (if gs = [] then take n qs @ [g] else take (n + 1) (take n qs @ [g]) @ gs)"
    by (rule Cons.IH [OF repr2]) (use Cons.prems in auto)
  then obtain W' where "append_frames E SQLITE_OK W2 (of_nat (n + 1)) gs = (SQLITE_OK, of_nat (n + 1 + length gs), W')"
    "index_only W2 W'" "index_repr W' (take n qs @ g # gs)"
    using Cons.prems(2) by (auto split: if_splits)
  then show ?case
    using app rc only by (intro exI [of _ W']) (auto simp: add.commute intro: index_only_trans)
qed (auto)
section \<open>What a log holds\<close>

text \<open>
  The file of the handle has the header of a log and the frames \<open>fs\<close>, the header of the handle is
  the one after them, and the index has them, and perhaps frames behind them that a rollback left.
\<close>

definition log_start :: "u32 \<Rightarrow> u8 list \<Rightarrow> Wal \<Rightarrow> u32 \<times> u32" where
  "log_start n salt W = log_hdr_ck False (szPage W) n salt"

definition log_bytes :: "u32 \<Rightarrow> u8 list \<Rightarrow> Wal \<Rightarrow> wal_frame list \<Rightarrow> u8 list" where
  "log_bytes n salt W fs =
     enc_log_hdr False (szPage W) n salt @ enc_frames True salt (log_start n salt W) fs"

definition log_holds :: "u32 \<Rightarrow> u8 list \<Rightarrow> wal_frame list \<Rightarrow> wal_sys \<Rightarrow> bool" where
  "log_holds n salt fs s \<longleftrightarrow>
     page_size_ok (szPage (wal s)) \<and> length salt = 8 \<and> aSalt (hdr (wal s)) = salt \<and>
     bigEndCksum (hdr (wal s)) = SQLITE_BIGENDIAN \<and>
     (\<forall>f\<in>set fs. frame_ok (unat (szPage (wal s))) f) \<and> length fs < MAX_FRAMES \<and>
     aFrameCksum (hdr (wal s)) = chain True (log_start n salt (wal s)) fs \<and>
     mxFrame (hdr (wal s)) = of_nat (length fs) \<and>
     (\<exists>tail. index_repr (wal s) (map fst fs @ tail)) \<and>
     (\<exists>rest. logF s = log_bytes n salt (wal s) fs @ rest)"

lemma log_bytes_append:
  "log_bytes n salt W (fs @ gs) =
    log_bytes n salt W fs @ enc_frames True salt (chain True (log_start n salt W) fs) gs"
  by (simp add: log_bytes_def)

lemma log_bytes_same: "szPage W = szPage W' \<Longrightarrow> log_bytes n salt W fs = log_bytes n salt W' fs"
  "szPage W = szPage W' \<Longrightarrow> log_start n salt W = log_start n salt W'"
  by (simp_all add: log_bytes_def log_start_def)

lemma length_log_bytes:
  assumes "length salt = 8" and "\<forall>f\<in>set fs. frame_ok (unat (szPage W)) f"
  shows "length (log_bytes n salt W fs) = 32 + length fs * (unat (szPage W) + 24)"
  using length_enc_frames [OF assms] enc_log_hdr_parts(1) [OF assms(1)]
  by (simp add: log_bytes_def)

lemma walFrameOffset_Suc: "walFrameOffset (k + 1) sz = 32 + k * (sz + 24)"
  by (simp add: walFrameOffset_def WAL_HDRSIZE_def WAL_FRAME_HDRSIZE_def)

lemma unat_frame: "n < MAX_FRAMES \<Longrightarrow> unat (of_nat n :: u32) = n"
  by (simp add: unat_of_nat take_bit_nat_eq_self)

lemma unat_frame_Suc: "n < MAX_FRAMES \<Longrightarrow> unat (of_nat n + 1 :: u32) = n + 1"
proof -
  assume n: "n < MAX_FRAMES"
  have "of_nat n + 1 = (of_nat (n + 1) :: u32)" by simp
  then show ?thesis using n by (simp only: unat_of_nat) (simp add: take_bit_nat_eq_self)
qed

text \<open>Truncating the log behind its frames.\<close>

lemma walLimitSize_ok:
  assumes "ios s = []" and "logF s = pre @ rest" and "length pre \<le> m"
  shows "\<exists>rest'. walLimitSize s m = s\<lparr>logF := pre @ rest'\<rparr>"
proof (cases "m < length (logF s)")
  case True
  then have "walLimitSize s m = s\<lparr>logF := pre @ take (m - length pre) rest\<rparr>"
    using assms by (simp add: walLimitSize_def os_size_def os_truncate_def io_next_def)
  then show ?thesis by blast
next
  case False
  then have "walLimitSize s m = s\<lparr>logF := pre @ rest\<rparr>"
    using assms by (simp add: walLimitSize_def os_size_def io_next_def)
  then show ?thesis by blast
qed

definition limit_step :: "bool \<Rightarrow> nat \<Rightarrow> wal_sys \<Rightarrow> wal_sys" where
  "limit_step isCommit m s =
     (if isCommit \<and> truncateOnCommit (wal s) \<and> 0 \<le> mxWalSize (wal s)
      then (walLimitSize s (max m (nat (mxWalSize (wal s)))))
             \<lparr>wal := (wal (walLimitSize s (max m (nat (mxWalSize (wal s))))))\<lparr>truncateOnCommit := False\<rparr>\<rparr>
      else s)"

lemma limit_step_ok:
  assumes "ios s = []" and "logF s = pre @ rest" and "length pre \<le> m"
  shows "\<exists>t rest'. limit_step isCommit m s = s\<lparr>logF := pre @ rest', wal := (wal s)\<lparr>truncateOnCommit := t\<rparr>\<rparr>"
proof (cases "isCommit \<and> truncateOnCommit (wal s) \<and> 0 \<le> mxWalSize (wal s)")
  case True
  have "length pre \<le> max m (nat (mxWalSize (wal s)))" using assms(3) by simp
  then obtain rest' where "walLimitSize s (max m (nat (mxWalSize (wal s)))) = s\<lparr>logF := pre @ rest'\<rparr>"
    using walLimitSize_ok [OF assms(1,2)] by blast
  then have "limit_step isCommit m s = s\<lparr>logF := pre @ rest', wal := (wal s)\<lparr>truncateOnCommit := False\<rparr>\<rparr>"
    using True by (simp add: limit_step_def)
  then show ?thesis by blast
next
  case False
  then have "limit_step isCommit m s = s" unfolding limit_step_def by (rule if_not_P)
  then have "limit_step isCommit m s = s\<lparr>logF := pre @ rest, wal := (wal s)\<lparr>truncateOnCommit := truncateOnCommit (wal s)\<rparr>\<rparr>"
    using assms(2) by simp
  then show ?thesis by blast
qed

lemma finish_frames_eq:
  "finish_frames E rc s szPg qs nTruncate isCommit pos nExtra =
    (let s = limit_step isCommit (walFrameOffset (unat (pos_frame pos) + nExtra + 1) (unat szPg)) s;
         gs = map pgno (filter wal_append qs) @ replicate nExtra (pgno (the (pos_last pos)));
         (rc, iFrame, W) = append_frames E rc (wal s) (mxFrame (hdr (wal s))) gs
     in if rc \<noteq> SQLITE_OK then (rc, s\<lparr>wal := W\<rparr>)
        else
          let h = (hdr W)\<lparr>hszPage := page_size_field szPg, mxFrame := iFrame\<rparr>
          in (rc, s\<lparr>wal :=
            (if isCommit
             then (walIndexWriteHdr (W\<lparr>hdr := h\<lparr>iChange := iChange h + 1, nPage := nTruncate\<rparr>\<rparr>))
                    \<lparr>iCallback := iFrame\<rparr>
             else W\<lparr>hdr := h\<rparr>)\<rparr>))"
  unfolding finish_frames_def limit_step_def Let_def by simp

text \<open>The new header that \<open>finish_frames\<close> makes.\<close>

definition commit_hdr :: "WalIndexHdr \<Rightarrow> u32 \<Rightarrow> nat \<Rightarrow> u32 \<Rightarrow> WalIndexHdr" where
  "commit_hdr h szPg mx nTruncate =
     (let h1 = h\<lparr>hszPage := page_size_field szPg, mxFrame := of_nat mx\<rparr>
      in if nTruncate = 0 then h1 else h1\<lparr>iChange := iChange h + 1, nPage := nTruncate\<rparr>)"

definition set_hdr :: "Wal \<Rightarrow> WalIndexHdr \<Rightarrow> bool \<Rightarrow> Wal" where
  "set_hdr W h isCommit =
     (if isCommit then (walIndexWriteHdr (W\<lparr>hdr := h\<rparr>))\<lparr>iCallback := mxFrame h\<rparr> else W\<lparr>hdr := h\<rparr>)"

lemma finish_frames_ok:
  assumes E: "env_ok E" and log: "ios s = []" "logF s = pre @ rest"
    and len: "length pre \<le> walFrameOffset (unat (pos_frame pos) + 1) (unat szPg)"
    and repr: "index_repr (wal s) (map fst fs @ tail)" "mxFrame (hdr (wal s)) = of_nat (length fs)"
    and qs: "qs = map (\<lambda>p. p\<lparr>wal_append := True\<rparr>) ps" "pages_ok c sz ps" "length fs + length ps < MAX_FRAMES"
    and commit: "isCommit = (nTruncate \<noteq> 0)"
  shows "\<exists>W t rest'. finish_frames E SQLITE_OK s szPg qs nTruncate isCommit pos 0 =
      (SQLITE_OK, s\<lparr>logF := pre @ rest',
        wal := set_hdr W (commit_hdr (hdr (wal s)) szPg (length fs + length ps) nTruncate) isCommit\<rparr>) \<and>
    index_only ((wal s)\<lparr>truncateOnCommit := t\<rparr>) W \<and>
    (\<exists>tail'. index_repr W (map fst fs @ map pgno ps @ tail'))"
proof -
  let ?m = "walFrameOffset (unat (pos_frame pos) + 0 + 1) (unat szPg)"
  have "\<exists>t rest'. limit_step isCommit ?m s = s\<lparr>logF := pre @ rest', wal := (wal s)\<lparr>truncateOnCommit := t\<rparr>\<rparr>"
    by (rule limit_step_ok [OF log]) (use len in simp)
  then obtain t rest' where lim: "limit_step isCommit ?m s =
      s\<lparr>logF := pre @ rest', wal := (wal s)\<lparr>truncateOnCommit := t\<rparr>\<rparr>"
    by blast
  let ?W = "(wal s)\<lparr>truncateOnCommit := t\<rparr>"
  have gs: "map pgno (filter wal_append qs) @ replicate 0 (pgno (the (pos_last pos))) = map pgno ps"
    by (simp add: qs(1) filter_map o_def)
  have nz: "0 \<notin> set (map pgno ps)" using qs(2) by (induction ps arbitrary: c) auto
  have repr1: "index_repr ?W (map fst fs @ tail)" by (rule index_repr_same [OF repr(1)]) simp_all
  obtain W where W: "append_frames E SQLITE_OK ?W (of_nat (length fs)) (map pgno ps) =
      (SQLITE_OK, of_nat (length fs + length ps), W)" "index_only ?W W"
    "index_repr W (if ps = [] then map fst fs @ tail else take (length fs) (map fst fs @ tail) @ map pgno ps)"
    using append_frames_ok [OF E repr1, of "length fs" "map pgno ps"] nz qs(3) repr(2) unat_frame [of "length fs"]
    by auto
  have hdr: "hdr W = hdr (wal s)" using index_only_fields(1) [OF W(2)] by simp
  have "\<exists>tail'. index_repr W (map fst fs @ map pgno ps @ tail')"
    using W(3) by (cases "ps = []") (auto intro: exI [of _ "[]"])
  moreover have "finish_frames E SQLITE_OK s szPg qs nTruncate isCommit pos 0 =
      (SQLITE_OK, s\<lparr>logF := pre @ rest',
        wal := set_hdr W (commit_hdr (hdr (wal s)) szPg (length fs + length ps) nTruncate) isCommit\<rparr>)"
    unfolding finish_frames_eq lim gs using W(1) repr(2) hdr commit
    by (simp add: set_hdr_def commit_hdr_def walIndexWriteHdr_def Let_def)
  ultimately show ?thesis using W(2) by blast
qed
lemma set_hdr_fields:
  "szPage (set_hdr W h b) = szPage W" "readLock (set_hdr W h b) = readLock W"
  "minFrame (set_hdr W h b) = minFrame W" "iReCksum (set_hdr W h b) = iReCksum W"
  "mxFrame (hdr (set_hdr W h b)) = mxFrame h" "aFrameCksum (hdr (set_hdr W h b)) = aFrameCksum h"
  "aSalt (hdr (set_hdr W h b)) = aSalt h" "bigEndCksum (hdr (set_hdr W h b)) = bigEndCksum h"
  "hszPage (hdr (set_hdr W h b)) = hszPage h" "nPage (hdr (set_hdr W h b)) = nPage h"
  "nCkpt (set_hdr W h b) = nCkpt W" "padToSectorBoundary (set_hdr W h b) = padToSectorBoundary W"
  by (simp_all add: set_hdr_def walIndexWriteHdr_def Let_def)

lemma set_hdr_repr: "index_repr W pgs \<Longrightarrow> index_repr (set_hdr W h b) pgs"
  by (erule index_repr_same) (simp_all add: set_hdr_def walIndexWriteHdr_def Let_def)

lemma set_hdr_published: "published (set_hdr W h True)" "hdr0 (wi (set_hdr W h True)) = hdr (set_hdr W h True)"
  by (simp_all add: set_hdr_def published_def walIndexWriteHdr_def Let_def)

lemma commit_hdr_fields:
  "mxFrame (commit_hdr h szPg mx nt) = of_nat mx" "aFrameCksum (commit_hdr h szPg mx nt) = aFrameCksum h"
  "aSalt (commit_hdr h szPg mx nt) = aSalt h" "bigEndCksum (commit_hdr h szPg mx nt) = bigEndCksum h"
  "hszPage (commit_hdr h szPg mx nt) = page_size_field szPg"
  "nt \<noteq> 0 \<Longrightarrow> nPage (commit_hdr h szPg mx nt) = nt"
  by (simp_all add: commit_hdr_def Let_def)

definition plain_sync :: "bool \<Rightarrow> nat \<Rightarrow> Wal \<Rightarrow> bool" where
  "plain_sync isCommit sync_flags W \<longleftrightarrow>
     isCommit \<and> sync_flags AND WAL_SYNC_TRANSACTIONS \<noteq> 0 \<longrightarrow> \<not> padToSectorBoundary W"

lemma put_frames_ok:
  assumes E: "env_ok E" and holds: "log_holds n salt fs s" and io: "ios s = []" "iReCksum (wal s) = 0"
    and ps: "pages_ok (xCodec s) (unat szPg) ps" "szPg = szPage (wal s)"
    and len: "length fs + length ps < MAX_FRAMES" and commit: "isCommit = (nTruncate \<noteq> 0)"
    and sync: "plain_sync isCommit sync_flags (wal s)"
  shows "\<exists>s'. put_frames E mem os_sector s szPg 0 ps nTruncate isCommit sync_flags = (SQLITE_OK, s') \<and>
    log_holds n salt (fs @ new_frames (xCodec s) (unat szPg) nTruncate ps) s' \<and>
    (isCommit \<longrightarrow> published (wal s') \<and> hdr0 (wi (wal s')) = hdr (wal s') \<and> nPage (hdr (wal s')) = nTruncate) \<and>
    hszPage (hdr (wal s')) = page_size_field szPg \<and> szPage (wal s') = szPg \<and> ios s' = [] \<and> iReCksum (wal s') = 0 \<and>
    readLock (wal s') = readLock (wal s) \<and> minFrame (wal s') = minFrame (wal s) \<and> dbF s' = dbF s \<and>
    xCodec s' = (codec_next ^^ length ps) (xCodec s) \<and>
    nCkpt (wal s') = nCkpt (wal s) \<and> padToSectorBoundary (wal s') = padToSectorBoundary (wal s)"
proof -
  let ?ck = "chain True (log_start n salt (wal s)) fs" and ?gs = "new_frames (xCodec s) (unat szPg) nTruncate ps"
  let ?pre = "log_bytes n salt (wal s) fs"
  obtain tail rest where repr: "index_repr (wal s) (map fst fs @ tail)" and log: "logF s = ?pre @ rest"
    using holds unfolding log_holds_def by blast
  have h: "page_size_ok (szPage (wal s))" "length salt = 8" "aSalt (hdr (wal s)) = salt"
    "bigEndCksum (hdr (wal s)) = SQLITE_BIGENDIAN" "\<forall>f\<in>set fs. frame_ok (unat (szPage (wal s))) f"
    "length fs < MAX_FRAMES" "aFrameCksum (hdr (wal s)) = ?ck" "mxFrame (hdr (wal s)) = of_nat (length fs)"
    using holds unfolding log_holds_def by blast+
  have native: "native_cksum (wal s) = True" using h(4) by (simp add: native_cksum_def)
  have lpre: "length ?pre = walFrameOffset (length fs + 1) (unat szPg)"
    using length_log_bytes [OF h(2,5)] ps(2) walFrameOffset_Suc by simp
  let ?pos0 = "\<lparr>pos_frame = mxFrame (hdr (wal s)),
      pos_ofst = walFrameOffset (unat (mxFrame (hdr (wal s)) + 1)) (unat szPg), pos_last = None\<rparr>"
  have pos: "pos_ofst ?pos0 = length ?pre"
    using lpre h(6,8) unat_frame_Suc by (simp only: wal_pos.simps)
  let ?pos1 = "?pos0\<lparr>pos_frame := pos_frame ?pos0 + of_nat (length ps),
         pos_ofst := length ?pre + length ps * (unat szPg + 24),
         pos_last := if ps = [] then pos_last ?pos0 else Some ((last ps)\<lparr>wal_append := True\<rparr>)\<rparr>"
  let ?qs = "map (\<lambda>p. p\<lparr>wal_append := True\<rparr>) ps"
  let ?s1 = "s\<lparr>wal := (wal s)\<lparr>hdr := (hdr (wal s))\<lparr>aFrameCksum := chain True ?ck ?gs\<rparr>\<rparr>,
       logF := ?pre @ enc_frames True salt ?ck ?gs @ drop (length ps * (unat szPg + 24)) rest,
       xCodec := (codec_next ^^ length ps) (xCodec s)\<rparr>"
  have wf: "write_frames E szPg 0 isCommit nTruncate s ?pos0 ps = (SQLITE_OK, ?qs, ?pos1, ?s1)"
    by (rule write_frames_ok [OF native h(3,7) io(2) ps(2) [symmetric] h(2) ps(1) log io(1) pos commit refl])
  let ?pre1 = "log_bytes n salt (wal s) (fs @ ?gs)"
  have log1: "logF ?s1 = ?pre1 @ drop (length ps * (unat szPg + 24)) rest"
    by (simp add: log_bytes_append)
  have frames: "\<forall>f\<in>set (fs @ ?gs). frame_ok (unat (szPage (wal s))) f"
    using h(5) new_frames_ok [OF ps(1)] ps(2) by auto
  have "pos_frame ?pos1 = of_nat (length fs + length ps)" using h(8) by simp
  then have "unat (pos_frame ?pos1) = length fs + length ps" using len unat_frame by (simp only:)
  then have lpre1: "length ?pre1 \<le> walFrameOffset (unat (pos_frame ?pos1) + 1) (unat szPg)"
    using length_log_bytes [OF h(2) frames] ps(2) walFrameOffset_Suc [of "length fs + length ps" "unat szPg"]
    by (simp only: length_append new_frames_simps)
  have repr1: "index_repr (wal ?s1) (map fst fs @ tail)" by (rule index_repr_same [OF repr]) simp_all
  have fin: "\<exists>W t rest'. finish_frames E SQLITE_OK ?s1 szPg ?qs nTruncate isCommit ?pos1 0 =
      (SQLITE_OK, ?s1\<lparr>logF := ?pre1 @ rest',
        wal := set_hdr W (commit_hdr (hdr (wal ?s1)) szPg (length fs + length ps) nTruncate) isCommit\<rparr>) \<and>
    index_only ((wal ?s1)\<lparr>truncateOnCommit := t\<rparr>) W \<and>
    (\<exists>tail'. index_repr W (map fst fs @ map pgno ps @ tail'))"
    by (rule finish_frames_ok [OF E _ log1 lpre1 repr1 _ refl ps(1) len commit]) (use io h(8) in simp_all)
  then obtain W t rest' tail' where fin: "finish_frames E SQLITE_OK ?s1 szPg ?qs nTruncate isCommit ?pos1 0 =
      (SQLITE_OK, ?s1\<lparr>logF := ?pre1 @ rest',
        wal := set_hdr W (commit_hdr (hdr (wal ?s1)) szPg (length fs + length ps) nTruncate) isCommit\<rparr>)"
    and only: "index_only ((wal ?s1)\<lparr>truncateOnCommit := t\<rparr>) W"
    and reprW: "index_repr W (map fst fs @ map pgno ps @ tail')"
    by blast
  let ?s2 = "?s1\<lparr>logF := ?pre1 @ rest',
        wal := set_hdr W (commit_hdr (hdr (wal ?s1)) szPg (length fs + length ps) nTruncate) isCommit\<rparr>"
  have sf: "sync_frames os_sector ?s1 szPg nTruncate ?pos1 = (SQLITE_OK, False, 0, ?s1)"
    if "\<not> padToSectorBoundary (wal s)"
    using that io by (simp add: sync_frames_def os_sync_def io_next_def)
  have "put_frames E mem os_sector s szPg 0 ps nTruncate isCommit sync_flags = (SQLITE_OK, ?s2)"
    unfolding put_frames_def Let_def wf prod.case
    using io(2) sync sf fin by (auto simp: plain_sync_def)
  moreover have "log_holds n salt (fs @ ?gs) ?s2"
  proof -
    note f = index_only_fields [OF only]
    have sz: "szPage (wal ?s2) = szPage (wal s)" using f(2) by (simp add: set_hdr_fields)
    have "index_repr (wal ?s2) (map fst (fs @ ?gs) @ tail')" using set_hdr_repr [OF reprW] by simp
    moreover have "logF ?s2 = log_bytes n salt (wal ?s2) (fs @ ?gs) @ rest'" using log_bytes_same(1) [OF sz] by simp
    ultimately show ?thesis
      unfolding log_holds_def
      using h frames len sz log_bytes_same(2) [OF sz]
      by (simp add: set_hdr_fields commit_hdr_fields) blast
  qed
  ultimately show ?thesis
    using index_only_fields [OF only] io ps(2) commit
    by (intro exI [of _ ?s2]) (simp add: set_hdr_fields commit_hdr_fields set_hdr_published)
qed
section \<open>Reading what the log holds\<close>

lemma log_bytes_page:
  assumes "length salt = 8" and "\<forall>f\<in>set fs. frame_ok (unat (szPage W)) f" and k: "k < length fs"
  shows "take (unat (szPage W)) (drop (walFrameOffset (k + 1) (unat (szPage W)) + 24) (log_bytes n salt W fs @ rest))
      = snd (snd (fs ! k))"
    and "walFrameOffset (k + 1) (unat (szPage W)) + 24 + unat (szPage W) \<le> length (log_bytes n salt W fs @ rest)"
proof -
  let ?sz = "unat (szPage W)" and ?es = "enc_frames True salt (log_start n salt W) fs"
  have "walFrameOffset (k + 1) ?sz + 24 = 32 + (k * (?sz + 24) + 24)"
    by (simp add: walFrameOffset_def WAL_HDRSIZE_def WAL_FRAME_HDRSIZE_def)
  moreover have "drop (32 + m) (log_bytes n salt W fs @ rest) = drop m (?es @ rest)" for m
    using enc_log_hdr_parts(1) [OF assms(1)] by (simp add: log_bytes_def)
  ultimately show "take ?sz (drop (walFrameOffset (k + 1) ?sz + 24) (log_bytes n salt W fs @ rest)) = snd (snd (fs ! k))"
    using enc_frames_drop [OF assms] by (simp only:)
  have "(k + 1) * (?sz + 24) \<le> length fs * (?sz + 24)" using k by (intro mult_le_mono1) simp
  then show "walFrameOffset (k + 1) ?sz + 24 + ?sz \<le> length (log_bytes n salt W fs @ rest)"
    using length_log_bytes [OF assms(1,2), of n] by (simp add: walFrameOffset_def WAL_HDRSIZE_def WAL_FRAME_HDRSIZE_def)
qed

lemma log_holds_lookup:
  assumes E: "env_ok E" and holds: "log_holds n salt fs s" and read: "readLock (wal s) \<noteq> 0" "minFrame (wal s) = 1"
    and size: "mxFrame (hdr (wal s)) \<noteq> 0 \<longrightarrow> hszPage (hdr (wal s)) = page_size_field (szPage (wal s))" and io: "ios s = []"
  shows "wal_lookup E s p = Some (content_of fs p)"
proof -
  obtain tail rest where repr: "index_repr (wal s) (map fst fs @ tail)" and log: "logF s = log_bytes n salt (wal s) fs @ rest"
    using holds unfolding log_holds_def by blast
  have h: "page_size_ok (szPage (wal s))" "length salt = 8" "\<forall>f\<in>set fs. frame_ok (unat (szPage (wal s))) f"
    "length fs < MAX_FRAMES" "mxFrame (hdr (wal s)) = of_nat (length fs)"
    using holds unfolding log_holds_def by blast+
  have mx: "unat (mxFrame (hdr (wal s))) = length fs" using h(4,5) unat_frame by simp
  let ?fs = "fs @ map (\<lambda>p. (p, 0, [])) tail"
  have repr': "index_repr (wal s) (map fst ?fs)" using repr by (simp add: o_def)
  have "wal_lookup E s p = Some (content_of (take (unat (mxFrame (hdr (wal s)))) ?fs) p)"
    by (rule wal_lookup_content [OF E repr' h(1)])
      (use mx size read io log_bytes_page [OF h(2,3)] in \<open>simp_all add: log nth_append del: append_assoc\<close>)
  then show ?thesis using mx by simp
qed

text \<open>
  Bytes that do not have the salt of the log do not go on with its chain: so it is with the frames
  that an earlier log left in the file.
\<close>

lemma log_ends_salt:
  assumes "length salt = 8" and "take 8 (drop 8 r) \<noteq> salt"
  shows "log_ends native salt sz ck r"
proof (unfold log_ends_def, intro allI impI notI)
  fix f assume f: "frame_ok sz f" and eq: "take (24 + sz) r = enc_frame native salt ck f"
  obtain pg nt d where "f = (pg, nt, d)" by (cases f) auto
  then have "take 8 (drop 8 (enc_frame native salt ck f)) = salt" using assms(1) by (simp add: enc_frame_def)
  moreover have "take 8 (drop 8 (take (24 + sz) r)) = take 8 (drop 8 r)" by (simp add: take_drop)
  ultimately show False using eq assms(2) by simp
qed

section \<open>Commits\<close>

text \<open>A handle on which a write transaction has begun and nothing is written yet.\<close>

definition ready_to_write :: "wal_sys \<Rightarrow> bool" where
  "ready_to_write s \<longleftrightarrow> hdr0 (wi (wal s)) = hdr (wal s) \<and> readLock (wal s) \<noteq> 0 \<and>
     mxFrame (hdr (wal s)) \<noteq> 0 \<and> iReCksum (wal s) = 0 \<and> ios s = []"

lemma WalFrames_append:
  assumes "ready_to_write s"
  shows "sqlite3WalFrames E mem os_sector s szPg ps nTruncate isCommit sync_flags =
    put_frames E mem os_sector s szPg 0 ps nTruncate isCommit sync_flags"
  using assms by (simp add: sqlite3WalFrames_def walRestartLog_def ready_to_write_def Let_def)

text \<open>
  C15: A commit appends the dirty pages. When a transaction that has written nothing yet writes its
  pages with the commit flag and no I/O operation fails, \<open>sqlite3WalFrames\<close> succeeds; the file is
  then the encoding of the frames that were there and of one frame per page, each with the output
  of the codec, the last one marked as a commit; the new header is published; and every page is
  looked up with its newest content, that of the transaction for the pages in it.
\<close>

theorem commit_appends:
  assumes "env_ok E" and "log_holds n salt fs s" and "ready_to_write s"
    and "pages_ok (xCodec s) (unat (szPage (wal s))) ps" and "length fs + length ps < MAX_FRAMES"
    and "nTruncate \<noteq> 0" and "plain_sync True sync_flags (wal s)"
    and "gs = new_frames (xCodec s) (unat (szPage (wal s))) nTruncate ps"
  shows "\<exists>s'. sqlite3WalFrames E mem os_sector s (szPage (wal s)) ps nTruncate True sync_flags = (SQLITE_OK, s') \<and>
    log_holds n salt (fs @ gs) s' \<and> hdr0 (wi (wal s')) = hdr (wal s') \<and> nPage (hdr (wal s')) = nTruncate \<and>
    (minFrame (wal s) = 1 \<longrightarrow> (\<forall>p. wal_lookup E s' p = Some (content_of (fs @ gs) p)))"
proof -
  have r: "readLock (wal s) \<noteq> 0" "iReCksum (wal s) = 0" "ios s = []" using assms(3) by (simp_all add: ready_to_write_def)
  have c: "True = (nTruncate \<noteq> 0)" using assms(6) by simp
  obtain s' where s': "put_frames E mem os_sector s (szPage (wal s)) 0 ps nTruncate True sync_flags = (SQLITE_OK, s')"
    and holds: "log_holds n salt (fs @ gs) s'"
    and commit: "True \<longrightarrow> published (wal s') \<and> hdr0 (wi (wal s')) = hdr (wal s') \<and> nPage (hdr (wal s')) = nTruncate"
    and f: "hszPage (hdr (wal s')) = page_size_field (szPage (wal s))" "szPage (wal s') = szPage (wal s)" "ios s' = []"
      "readLock (wal s') = readLock (wal s)" "minFrame (wal s') = minFrame (wal s)"
    using put_frames_ok [OF assms(1,2) r(3,2) assms(4) refl assms(5) c assms(7), of mem os_sector]
    unfolding assms(8) by blast
  have "wal_lookup E s' p = Some (content_of (fs @ gs) p)" if "minFrame (wal s) = 1" for p
    by (rule log_holds_lookup [OF assms(1) holds]) (use f r that in simp_all)
  then show ?thesis using s' holds commit WalFrames_append [OF assms(3)] by auto
qed
section \<open>Failures while frames are written\<close>

text \<open>Every operation leaves the first \<open>m\<close> bytes of the log and the database file alone.\<close>

definition keeps :: "nat \<Rightarrow> wal_sys \<Rightarrow> wal_sys \<Rightarrow> bool" where
  "keeps m s s' \<longleftrightarrow> dbF s' = dbF s \<and>
     (m \<le> length (logF s) \<longrightarrow> m \<le> length (logF s') \<and> take m (logF s') = take m (logF s))"

lemma keeps_refl [simp]: "keeps m s s" "keeps m s (s\<lparr>wal := W\<rparr>)" "keeps m s (s\<lparr>xCodec := c\<rparr>)"
  by (simp_all add: keeps_def)

lemma keeps_trans [trans]: "keeps m s t \<Longrightarrow> keeps m t u \<Longrightarrow> keeps m s u"
  by (simp add: keeps_def)

lemma keeps_sys [simp]: "keeps m (s\<lparr>wal := W\<rparr>) t = keeps m s t" "keeps m s (t\<lparr>wal := W\<rparr>) = keeps m s t"
  "keeps m (s\<lparr>xCodec := c\<rparr>) t = keeps m s t" "keeps m s (t\<lparr>xCodec := c\<rparr>) = keeps m s t"
  by (simp_all add: keeps_def)

lemma io_next_logF: "io_next s = (rc, k, s') \<Longrightarrow> logF s' = logF s \<and> dbF s' = dbF s \<and> wal s' = wal s"
  by (auto simp: io_next_def split: list.splits)

lemma keeps_os_write:
  assumes "os_write s d ofst = (rc, s')" and "m \<le> ofst"
  shows "keeps m s s'" "wal s' = wal s"
proof -
  obtain rc1 k s1 where io: "io_next s = (rc1, k, s1)" by (metis prod_cases3)
  have "take m (file_write f ofst e) = take m f \<and> m \<le> length (file_write f ofst e)" if "m \<le> length f" for f e
    using that assms(2) by (auto simp: file_write_def min_def)
  then show "keeps m s s'" "wal s' = wal s"
    using assms(1) io io_next_logF [OF io] by (auto simp: os_write_def keeps_def)
qed

lemma keeps_os_sync:
  "os_sync s = (rc, s') \<Longrightarrow> keeps m s s'" "os_sync s = (rc, s') \<Longrightarrow> wal s' = wal s"
  by (auto simp: os_sync_def keeps_def dest: io_next_logF split: prod.splits)

lemma keeps_walWriteToLog:
  assumes "walWriteToLog s iSync d ofst = (rc, s')" and "m \<le> ofst"
  shows "keeps m s s' \<and> wal s' = wal s"
proof (cases "ofst < iSync \<and> iSync \<le> ofst + length d")
  case False
  then show ?thesis using assms keeps_os_write by (auto simp: walWriteToLog_def)
next
  case True
  let ?k = "iSync - ofst"
  obtain rc1 s1 where w: "os_write s (take ?k d) ofst = (rc1, s1)" by fastforce
  obtain rc2 s2 where y: "os_sync s1 = (rc2, s2)" by fastforce
  obtain rc3 s3 where z: "os_write s2 (drop ?k d) (ofst + ?k) = (rc3, s3)" by fastforce
  have "keeps m s s1" "wal s1 = wal s" using keeps_os_write [OF w assms(2)] by simp_all
  moreover have "keeps m s1 s2" "wal s2 = wal s1" using keeps_os_sync [OF y] by simp_all
  moreover have "keeps m s2 s3" "wal s3 = wal s2"
    using keeps_os_write(1) [OF z] keeps_os_write(2) [OF z order_refl] assms(2) by simp_all
  moreover have "s' \<in> {s1, s2, s3}"
    using assms(1) True w y z by (auto simp: walWriteToLog_def Let_def split: if_splits)
  ultimately show ?thesis by (auto intro: keeps_trans)
qed

text \<open>Writing a frame changes only the running checksum of the handle.\<close>

definition same_log :: "Wal \<Rightarrow> Wal \<Rightarrow> bool" where
  "same_log W W' \<longleftrightarrow>
     W\<lparr>hdr := (hdr W)\<lparr>aFrameCksum := (0, 0)\<rparr>\<rparr> = W'\<lparr>hdr := (hdr W')\<lparr>aFrameCksum := (0, 0)\<rparr>\<rparr>"

lemma same_log_refl [simp]: "same_log W W"
  by (simp add: same_log_def)

lemma same_log_trans: "same_log U V \<Longrightarrow> same_log V W \<Longrightarrow> same_log U W"
  by (simp add: same_log_def)

lemma same_log_fields:
  assumes "same_log W W'"
  shows "iReCksum W' = iReCksum W" "mxFrame (hdr W') = mxFrame (hdr W)"
proof -
  have "f (W\<lparr>hdr := (hdr W)\<lparr>aFrameCksum := (0, 0)\<rparr>\<rparr>) = f (W'\<lparr>hdr := (hdr W')\<lparr>aFrameCksum := (0, 0)\<rparr>\<rparr>)" for f :: "Wal \<Rightarrow> u32"
    using assms by (simp add: same_log_def)
  from this [of iReCksum] this [of "\<lambda>W. mxFrame (hdr W)"]
  show "iReCksum W' = iReCksum W" "mxFrame (hdr W') = mxFrame (hdr W)" by simp_all
qed

lemma same_log_Encode: "walEncodeFrame W p nt d = (b, W') \<Longrightarrow> same_log W W'"
  by (cases "iReCksum W = 0") (auto simp: walEncodeFrame_def same_log_def Let_def)

lemma keeps_walWriteOneFrame:
  assumes "walWriteOneFrame s iSync szPg p nt ofst = (rc, s')" and "m \<le> ofst"
  shows "keeps m s s' \<and> same_log (wal s) (wal s')"
proof (cases "codec_out (xCodec s) p")
  case None
  then show ?thesis using assms(1) by (auto simp: walWriteOneFrame_def sqlite3PagerCodec_eq)
next
  case (Some d)
  let ?s0 = "s\<lparr>xCodec := codec_next (xCodec s)\<rparr>"
  obtain b W where e: "walEncodeFrame (wal s) (pgno p) nt d = (b, W)" by fastforce
  obtain rc1 s1 where w1: "walWriteToLog (?s0\<lparr>wal := W\<rparr>) iSync b ofst = (rc1, s1)" by fastforce
  obtain rc2 s2 where w2: "walWriteToLog s1 iSync (take (unat szPg) d) (ofst + WAL_FRAME_HDRSIZE) = (rc2, s2)" by fastforce
  have k1: "keeps m s s1" "wal s1 = W" using keeps_walWriteToLog [OF w1 assms(2)] by simp_all
  have "m \<le> ofst + WAL_FRAME_HDRSIZE" using assms(2) by simp
  from keeps_walWriteToLog [OF w2 this] have k2: "keeps m s1 s2" "wal s2 = wal s1" by simp_all
  have "s' \<in> {s1, s2}"
    using assms(1) Some e w1 w2 by (auto simp: walWriteOneFrame_def sqlite3PagerCodec_eq split: if_splits)
  then show ?thesis using k1 k2 same_log_Encode [OF e] keeps_trans [OF k1(1) k2(1)] by auto
qed

lemma keeps_write_frames:
  assumes "write_frames E szPg 0 isCommit nt s pos ps = (rc, qs, pos', s')" and "m \<le> pos_ofst pos"
  shows "keeps m s s' \<and> same_log (wal s) (wal s') \<and> m \<le> pos_ofst pos' \<and>
    (rc = SQLITE_OK \<longrightarrow> pos_frame pos' = pos_frame pos + of_nat (length ps))"
  using assms
proof (induction ps arbitrary: s pos rc qs pos' s')
  case (Cons p ps)
  let ?nt = "if isCommit \<and> ps = [] then nt else 0" and ?q = "p\<lparr>wal_append := True\<rparr>"
  let ?pos = "pos\<lparr>pos_frame := pos_frame pos + 1, pos_last := Some ?q,
      pos_ofst := pos_ofst pos + (unat szPg + WAL_FRAME_HDRSIZE)\<rparr>"
  obtain rc1 s1 where one: "walWriteOneFrame s 0 szPg p ?nt (pos_ofst pos) = (rc1, s1)" by fastforce
  obtain rc2 qs2 pos2 s2 where wf: "write_frames E szPg 0 isCommit nt s1 ?pos ps = (rc2, qs2, pos2, s2)"
    by (metis prod_cases4)
  note k1 = keeps_walWriteOneFrame [OF one Cons.prems(2)]
  have m: "m \<le> pos_ofst ?pos" using Cons.prems(2) by simp
  note k2 = Cons.IH [OF wf m]
  have own: "own_frame E 0 isCommit s p (ps = []) = (0, s)" by (simp add: own_frame_def)
  have eq: "write_frames E szPg 0 isCommit nt s pos (p # ps) =
      (if rc1 \<noteq> SQLITE_OK then (rc1, p # ps, pos\<lparr>pos_frame := pos_frame pos + 1\<rparr>, s1)
       else (rc2, ?q # qs2, pos2, s2))"
    using own one wf by (simp add: Let_def)
  show ?case
  proof (cases "rc1 = SQLITE_OK")
    case True
    then show ?thesis
      using Cons.prems(1) k1 k2 unfolding eq by (auto intro: keeps_trans same_log_trans)
  next
    case False
    then show ?thesis using Cons.prems k1 unfolding eq by auto
  qed
qed simp
lemma keeps_pad_frames:
  "pad_frames s iSync szPg p nt ofst n = (rc, n', s') \<Longrightarrow> m \<le> ofst \<Longrightarrow> keeps m s s'"
proof (induction s iSync szPg p nt ofst n arbitrary: rc n' s' rule: pad_frames.induct)
  case (1 s iSync szPg p nt ofst n)
  obtain rc1 s1 where one: "walWriteOneFrame s iSync szPg p nt ofst = (rc1, s1)" by fastforce
  have k1: "keeps m s s1" using keeps_walWriteOneFrame [OF one 1(3)] by simp
  have step: "pad_frames s iSync szPg p nt ofst n =
    (if ofst < iSync then
       if rc1 \<noteq> SQLITE_OK then (rc1, n, s1)
       else pad_frames s1 iSync szPg p nt (ofst + (unat szPg + WAL_FRAME_HDRSIZE)) (n + 1)
     else (SQLITE_OK, n, s))"
    using one by (subst pad_frames.simps) simp
  show ?case
  proof (cases "ofst < iSync \<and> rc1 = SQLITE_OK")
    case True
    then have "pad_frames s1 iSync szPg p nt (ofst + (unat szPg + WAL_FRAME_HDRSIZE)) (n + 1) = (rc, n', s')"
      using 1(2) step by simp
    then have "keeps m s1 s'"
      using 1(1) [OF _ one [symmetric] refl] True 1(3) by simp
    then show ?thesis using k1 keeps_trans by blast
  next
    case False
    then show ?thesis using 1(2) step k1 by (auto split: if_splits)
  qed
qed

lemma keeps_sync_frames:
  assumes "sync_frames os_sector s szPg nt pos = (rc, stop, n, s')" and "m \<le> pos_ofst pos"
  shows "keeps m s s'"
proof (cases "padToSectorBoundary (wal s)")
  case True
  let ?sec = "sqlite3SectorSize os_sector"
  let ?iSync = "((pos_ofst pos + ?sec - 1) div ?sec) * ?sec"
  obtain rc1 n1 s1 where pad: "pad_frames s ?iSync szPg (the (pos_last pos)) nt (pos_ofst pos) 0 = (rc1, n1, s1)"
    by (metis prod_cases3)
  obtain rc2 s2 where y: "os_sync s1 = (rc2, s2)" by fastforce
  have "s' = s1 \<or> s' = s2"
    using assms(1) True pad y by (auto simp: sync_frames_def Let_def split: if_splits)
  then show ?thesis using keeps_pad_frames [OF pad assms(2)] keeps_os_sync(1) [OF y] keeps_trans by blast
next
  case False
  then show ?thesis using assms(1) keeps_os_sync by (auto simp: sync_frames_def split: prod.splits)
qed

lemma keeps_walLimitSize: "m \<le> k \<Longrightarrow> keeps m s (walLimitSize s k)"
proof -
  assume m: "m \<le> k"
  obtain rc1 k1 s1 where io: "io_next s = (rc1, k1, s1)" by (metis prod_cases3)
  obtain rc2 k2 s2 where io2: "io_next s1 = (rc2, k2, s2)" by (metis prod_cases3)
  show ?thesis
    using m io io2 io_next_logF [OF io] io_next_logF [OF io2]
    by (auto simp: walLimitSize_def os_size_def os_truncate_def keeps_def min_def)
qed

lemma keeps_limit_step: "m \<le> k \<Longrightarrow> keeps m s (limit_step isCommit k s)"
  using keeps_walLimitSize [of m "max k (nat (mxWalSize (wal s)))" s] by (simp add: limit_step_def)

lemma keeps_finish_frames:
  assumes "finish_frames E rc0 s szPg qs nt isCommit pos n = (rc, s')"
    and "m \<le> walFrameOffset (unat (pos_frame pos) + n + 1) (unat szPg)"
  shows "keeps m s s'"
proof -
  let ?s = "limit_step isCommit (walFrameOffset (unat (pos_frame pos) + n + 1) (unat szPg)) s"
  obtain W where "s' = ?s\<lparr>wal := W\<rparr>"
    using assms(1) unfolding finish_frames_eq by (auto simp: Let_def split: prod.splits if_splits)
  then show ?thesis using keeps_limit_step [OF assms(2)] by simp
qed

lemma keeps_put_frames:
  assumes put: "put_frames E mem os_sector s szPg 0 ps nt isCommit sync_flags = (rc, s')"
    and m: "m = 32 + length fs * (unat szPg + 24)" and re: "iReCksum (wal s) = 0"
    and mx: "mxFrame (hdr (wal s)) = of_nat (length fs)" "length fs + length ps < MAX_FRAMES"
  shows "keeps m s s'"
proof -
  let ?pos0 = "\<lparr>pos_frame = mxFrame (hdr (wal s)),
      pos_ofst = walFrameOffset (unat (mxFrame (hdr (wal s)) + 1)) (unat szPg), pos_last = None\<rparr>"
  obtain rc1 qs pos s1 where wf: "write_frames E szPg 0 isCommit nt s ?pos0 ps = (rc1, qs, pos, s1)"
    by (metis prod_cases4)
  have "length fs < MAX_FRAMES" using mx(2) by simp
  then have "m \<le> pos_ofst ?pos0"
    using m mx(1) unat_frame_Suc walFrameOffset_Suc by (simp only: wal_pos.simps)
  note k1 = keeps_write_frames [OF wf this]
  have re1: "iReCksum (wal s1) = 0" using same_log_fields(1) [of "wal s" "wal s1"] k1 re by simp
  have "m \<le> walFrameOffset (unat (pos_frame pos) + n + 1) (unat szPg)" if "rc1 = SQLITE_OK" for n
  proof -
    have "pos_frame pos = of_nat (length fs + length ps)" using k1 that mx(1) by simp
    then have "unat (pos_frame pos) = length fs + length ps" using mx(2) unat_frame by (simp only:)
    then show ?thesis using m walFrameOffset_Suc [of "length fs + length ps + n"] by simp
  qed
  note fin = keeps_finish_frames [OF _ this]
  obtain rc2 stop n s2 where sy:
    "(if isCommit \<and> sync_flags AND WAL_SYNC_TRANSACTIONS \<noteq> 0
      then sync_frames os_sector s1 szPg nt pos else (SQLITE_OK, False, 0, s1)) = (rc2, stop, n, s2)"
    by (metis prod_cases4)
  have k2: "keeps m s1 s2" using sy k1 keeps_sync_frames by (auto split: if_splits)
  obtain rc3 s3 where f: "finish_frames E rc2 s2 szPg qs nt isCommit pos n = (rc3, s3)" by fastforce
  have "put_frames E mem os_sector s szPg 0 ps nt isCommit sync_flags =
    (if rc1 \<noteq> SQLITE_OK then (rc1, s1) else if stop then (rc2, s2) else (rc3, s3))"
    unfolding put_frames_def Let_def wf prod.case using re1 sy f by simp
  then have "s' = s1 \<or> s' = s2 \<or> rc1 = SQLITE_OK \<and> s' = s3" using put by (auto split: if_splits)
  then show ?thesis using k1 k2 fin [OF f] keeps_trans by blast
qed
section \<open>A crash loses no committed transaction\<close>

text \<open>Any bytes go on with as many frames of the chain as possible, and then with something else.\<close>

lemma longest_chain:
  assumes "length salt = 8"
  shows "\<exists>gs rest. r = enc_frames native salt ck gs @ rest \<and> (\<forall>g\<in>set gs. frame_ok sz g) \<and>
    log_ends native salt sz (chain native ck gs) rest"
proof (induction "length r" arbitrary: r ck rule: less_induct)
  case less
  show ?case
  proof (cases "log_ends native salt sz ck r")
    case True
    then show ?thesis by (intro exI [of _ "[]"] exI [of _ r]) simp
  next
    case False
    then obtain f where f: "frame_ok sz f" "take (24 + sz) r = enc_frame native salt ck f"
      by (auto simp: log_ends_def)
    have len: "length (enc_frame native salt ck f) = 24 + sz"
      using f(1) assms by (cases f) (simp add: length_enc_frame frame_ok_def)
    have "length (take (24 + sz) r) = 24 + sz" unfolding f(2) by (rule len)
    then have r: "24 + sz \<le> length r" by simp
    then have "length (drop (24 + sz) r) < length r" by simp
    from less [OF this] obtain gs rest where
      "drop (24 + sz) r = enc_frames native salt (frame_ck native ck f) gs @ rest"
      "\<forall>g\<in>set gs. frame_ok sz g" "log_ends native salt sz (chain native (frame_ck native ck f) gs) rest" by blast
    then show ?thesis
      using f append_take_drop_id [of "24 + sz" r]
      by (intro exI [of _ "f # gs"] exI [of _ rest]) simp
  qed
qed

lemma committed_prefix: "\<exists>hs. committed (fs @ gs) = committed fs @ hs"
proof (induction gs rule: rev_induct)
  case (snoc g gs)
  then obtain hs where hs: "committed (fs @ gs) = committed fs @ hs" by blast
  show ?case
  proof (cases "fst (snd g) = 0")
    case True
    then show ?thesis using hs committed_snoc [of "fs @ gs" g] by (intro exI [of _ hs]) simp
  next
    case False
    have "fs = committed fs @ drop (length (committed fs)) fs"
      using take_committed [of fs] by (metis append_take_drop_id)
    then show ?thesis
      using False committed_snoc [of "fs @ gs" g]
      by (intro exI [of _ "drop (length (committed fs)) fs @ gs @ [g]"]) (metis append.assoc)
  qed
qed simp

text \<open>
  C14: A transaction that was committed is never lost. Whatever goes wrong while
  \<open>sqlite3WalFrames\<close> appends frames (a write that stops in the middle of a frame, a sync, a size
  or a truncation that fails, a codec that gives nothing), and even if it goes wrong while the
  transaction pads the log or commits, a process that opens the file after the crash recovers, and
  the transactions it finds begin with all those that the log had before.
\<close>

theorem crash_keeps_committed:
  assumes "env_ok E" and holds: "log_holds n salt fs s"
    and "hdr0 (wi (wal s)) = hdr (wal s)" "readLock (wal s) \<noteq> 0" "fs \<noteq> []" "iReCksum (wal s) = 0"
    and len: "length fs + length ps < MAX_FRAMES"
    and put: "sqlite3WalFrames E mem os_sector s (szPage (wal s)) ps nTruncate isCommit sync_flags = (rc, s')"
    and r: "logF r = logF s'" "length (logF s') < MAX_FRAMES * 536" "map_ok (wal r)" "ios r = []" "locks r = []"
  shows "\<exists>gs hs W. walIndexRecover E True r = (SQLITE_OK, r\<lparr>wal := W\<rparr>) \<and>
    recovered (szPage (wal s)) salt (fs @ gs) W \<and> committed (fs @ gs) = committed fs @ hs"
proof -
  obtain rest where log: "logF s = log_bytes n salt (wal s) fs @ rest" using holds unfolding log_holds_def by blast
  have h: "page_size_ok (szPage (wal s))" "length salt = 8" "\<forall>f\<in>set fs. frame_ok (unat (szPage (wal s))) f"
    "mxFrame (hdr (wal s)) = of_nat (length fs)"
    using holds unfolding log_holds_def by blast+
  let ?sz = "unat (szPage (wal s))" and ?m = "32 + length fs * (unat (szPage (wal s)) + 24)"
  have m: "length (log_bytes n salt (wal s) fs) = ?m" by (rule length_log_bytes [OF h(2,3)])
  have "length fs < MAX_FRAMES" using len by simp
  then have "unat (mxFrame (hdr (wal s))) \<noteq> 0" using h(4) assms(5) unat_frame by simp
  then have "mxFrame (hdr (wal s)) \<noteq> 0" by auto
  then have "put_frames E mem os_sector s (szPage (wal s)) 0 ps nTruncate isCommit sync_flags = (rc, s')"
    using put assms(3,4) by (simp add: sqlite3WalFrames_def walRestartLog_def Let_def)
  from keeps_put_frames [OF this refl assms(6) h(4) len] have k: "keeps ?m s s'" .
  have lens: "?m \<le> length (logF s)" using log m by simp
  have "?m \<le> length (logF s')" "take ?m (logF s') = take ?m (logF s)"
    using k lens unfolding keeps_def by blast+
  then have "logF s' = log_bytes n salt (wal s) fs @ drop ?m (logF s')"
    using log m by (metis append_eq_conv_conj append_take_drop_id)
  moreover obtain gs rest' where gs: "drop ?m (logF s') =
      enc_frames True salt (chain True (log_start n salt (wal s)) fs) gs @ rest'"
    "\<forall>g\<in>set gs. frame_ok ?sz g"
    "log_ends True salt ?sz (chain True (chain True (log_start n salt (wal s)) fs) gs) rest'"
    using longest_chain [OF h(2)] by blast
  ultimately have bytes: "logF s' = log_bytes n salt (wal s) (fs @ gs) @ rest'"
    by (simp add: log_bytes_append)
  have ok: "\<forall>f\<in>set (fs @ gs). frame_ok ?sz f" using h(3) gs(2) by auto
  have "length (log_bytes n salt (wal s) (fs @ gs)) \<le> length (logF s')" unfolding bytes by simp
  then have "32 + length (fs @ gs) * (?sz + 24) < MAX_FRAMES * 536"
    using r(2) length_log_bytes [OF h(2) ok] by simp
  moreover have "length (fs @ gs) * 536 \<le> length (fs @ gs) * (?sz + 24)"
    using h(1) by (intro mult_le_mono2) (simp add: page_size_ok_def)
  ultimately have max: "length (fs @ gs) < MAX_FRAMES" by simp
  have r_log: "logF r = enc_log_hdr False (szPage (wal s)) n salt @
      enc_frames (\<not> False) salt (log_hdr_ck False (szPage (wal s)) n salt) (fs @ gs) @ rest'"
    using r(1) bytes by (simp add: log_bytes_def log_start_def)
  have ends: "log_ends (\<not> False) salt ?sz (chain (\<not> False) (log_hdr_ck False (szPage (wal s)) n salt) (fs @ gs)) rest'"
    using gs(3) by (simp add: log_start_def)
  have "\<exists>W. walIndexRecover E True r = (SQLITE_OK, r\<lparr>wal := W\<rparr>) \<and> recovered (szPage (wal s)) salt (fs @ gs) W"
    by (rule recover_log_committed [OF assms(1) r(3) max h(1,2) ok r_log ends _ r(4,5)]) (use assms(5) in simp)
  then show ?thesis using committed_prefix [of fs gs] by blast
qed
section \<open>The first frames of a log\<close>

lemma best_mark_at:
  assumes "best_mark marks mx = (m, i)" and "i \<noteq> 0"
  shows "m = marks ! i"
proof -
  have "snd (fold (\<lambda>i (best, mxI). if best \<le> marks ! i \<and> marks ! i \<le> mx then (marks ! i, i) else (best, mxI)) is b) \<noteq> 0
      \<longrightarrow> fst (fold (\<lambda>i (best, mxI). if best \<le> marks ! i \<and> marks ! i \<le> mx then (marks ! i, i) else (best, mxI)) is b)
        = marks ! snd (fold (\<lambda>i (best, mxI). if best \<le> marks ! i \<and> marks ! i \<le> mx then (marks ! i, i) else (best, mxI)) is b)"
    if "snd b \<noteq> 0 \<longrightarrow> fst b = marks ! snd b" for "is" b
    using that by (induction "is" arbitrary: b) (auto split: prod.splits)
  from this [of "(0, 0)" "[1 ..< WAL_NREADER]"] show ?thesis
    using assms by (simp add: best_mark_def)
qed

lemma lock_free:
  assumes "locks s = []"
  shows "walLockShared s i = (SQLITE_OK, s)" "walLockExclusive s i n = (SQLITE_OK, s)"
  using assms by (simp_all add: walLockShared_def walLockExclusive_def lock_next_def)

text \<open>A reader of an empty log that is alone.\<close>

lemma try_wal_empty:
  assumes "locks s = []" and "readOnly (wal s) = 0" and "hdr0 (wi (wal s)) = hdr (wal s)"
    and "mxFrame (hdr (wal s)) = 0" and "length (aReadMark (ckptInfo (wi (wal s)))) = WAL_NREADER"
  shows "\<exists>info i. 0 < i \<and> nBackfill info = nBackfill (ckptInfo (wi (wal s))) \<and> try_wal s SQLITE_OK = (RC SQLITE_OK,
    s\<lparr>wal := (wal s)\<lparr>wi := (wi (wal s))\<lparr>ckptInfo := info\<rparr>,
         minFrame := nBackfill (ckptInfo (wi (wal s))) + 1, readLock := int i\<rparr>\<rparr>)"
proof -
  let ?info = "ckptInfo (wi (wal s))"
  obtain m i where best: "best_mark (aReadMark ?info) 0 = (m, i)" by fastforce
  have m: "m = 0" using best_mark_ok [of 0 "aReadMark ?info"] best by (simp add: mark_ok_def)
  have len: "1 < length (aReadMark ?info)" using assms(5) by (simp add: WAL_NREADER_def SQLITE_SHM_NLOCK_def)
  show ?thesis
  proof (cases "i = 0")
    case False
    have "aReadMark ?info ! i = 0" using best_mark_at [OF best False] m by simp
    then have "try_wal s SQLITE_OK = (RC SQLITE_OK,
      s\<lparr>wal := (wal s)\<lparr>wi := (wi (wal s))\<lparr>ckptInfo := ?info\<rparr>, minFrame := nBackfill ?info + 1, readLock := int i\<rparr>\<rparr>)"
      using best m False assms by (simp add: try_wal_def lock_free)
    then show ?thesis using False by blast
  next
    case True
    have reader: "[1 ..< WAL_NREADER] = 1 # [2 ..< WAL_NREADER]"
      by (simp add: WAL_NREADER_def SQLITE_SHM_NLOCK_def upt_rec)
    let ?s = "s\<lparr>wal := set_mark (wal s) 1 0\<rparr>"
    have claim: "claim_mark s 0 [1 ..< WAL_NREADER] SQLITE_OK (m, i) = (False, SQLITE_OK, (0, 1), ?s)"
      unfolding reader by (simp add: lock_free [OF assms(1)])
    have mark: "aReadMark (ckptInfo (wi (wal ?s))) ! 1 = 0" using len by (simp add: set_mark_def)
    have "try_wal s SQLITE_OK = (RC SQLITE_OK,
      s\<lparr>wal := (wal s)\<lparr>wi := (wi (wal s))\<lparr>ckptInfo := ?info\<lparr>aReadMark := (aReadMark ?info)[1 := 0]\<rparr>\<rparr>,
         minFrame := nBackfill ?info + 1, readLock := int 1\<rparr>\<rparr>)"
      using best True assms(1-4) claim mark m by (simp add: try_wal_def lock_free set_mark_def)
    then show ?thesis by (intro exI [of _ "?info\<lparr>aReadMark := (aReadMark ?info)[1 := 0]\<rparr>"] exI [of _ 1]) simp
  qed
qed

text \<open>A handle whose reader takes everything from the database, with nobody else on the log.\<close>

definition log_unused :: "wal_sys \<Rightarrow> bool" where
  "log_unused s \<longleftrightarrow> hdr0 (wi (wal s)) = hdr (wal s) \<and> readLock (wal s) = 0 \<and> readOnly (wal s) = 0 \<and>
     nBackfill (ckptInfo (wi (wal s))) = mxFrame (hdr (wal s)) \<and>
     length (aReadMark (ckptInfo (wi (wal s)))) = WAL_NREADER \<and> length (aSalt (hdr (wal s))) = 8 \<and>
     iReCksum (wal s) = 0 \<and> map_ok (wal s) \<and> ios s = [] \<and> locks s = []"

text \<open>What stays of a handle when its log is restarted.\<close>

definition restarted :: "wal_sys \<Rightarrow> wal_sys \<Rightarrow> bool" where
  "restarted s s' \<longleftrightarrow> hdr0 (wi (wal s')) = hdr (wal s') \<and> 0 < readLock (wal s') \<and> minFrame (wal s') = 1 \<and>
     mxFrame (hdr (wal s')) = 0 \<and> length (aSalt (hdr (wal s'))) = 8 \<and>
     (mxFrame (hdr (wal s)) \<noteq> 0 \<longrightarrow> nCkpt (wal s') = nCkpt (wal s) + 1 \<and>
        get4 (aSalt (hdr (wal s'))) 0 = get4 (aSalt (hdr (wal s))) 0 + 1) \<and>
     iReCksum (wal s') = 0 \<and> map_ok (wal s') \<and> ios s' = [] \<and> locks s' = [] \<and> dbF s' = dbF s \<and>
     logF s' = logF s \<and> xCodec s' = xCodec s \<and> padToSectorBoundary (wal s') = padToSectorBoundary (wal s)"

lemma begin_read_useWal:
  assumes "try_wal s SQLITE_OK = (RC SQLITE_OK, s')"
  shows "begin_read_loop E mem s chg True 0 = (SQLITE_OK, chg, s')"
  using assms by (subst begin_read_loop.simps) (simp add: walTryBeginRead_def)

lemma walRestartHdr_fields:
  "mxFrame (hdr (walRestartHdr W salt1)) = 0" "nCkpt (walRestartHdr W salt1) = nCkpt W + 1"
  "aSalt (hdr (walRestartHdr W salt1)) = sqlite3Put4byte (1 + get4 (aSalt (hdr W)) 0) @ salt1"
  "hdr0 (wi (walRestartHdr W salt1)) = hdr (walRestartHdr W salt1)" "readOnly (walRestartHdr W salt1) = readOnly W"
  "nBackfill (ckptInfo (wi (walRestartHdr W salt1))) = 0"
  "length (aReadMark (ckptInfo (wi (walRestartHdr W salt1)))) = WAL_NREADER"
  "iReCksum (walRestartHdr W salt1) = iReCksum W" "map_ok (walRestartHdr W salt1) = map_ok W"
  "padToSectorBoundary (walRestartHdr W salt1) = padToSectorBoundary W"
  by (simp_all add: walRestartHdr_def walIndexWriteHdr_def map_ok_def WAL_NREADER_def SQLITE_SHM_NLOCK_def Let_def)

lemma walRestartLog_ok:
  assumes un: "log_unused s"
  shows "\<exists>s'. walRestartLog E mem s = (SQLITE_OK, s') \<and> restarted s s'"
proof -
  let ?salt = "map (rnd s) [0 ..< 4]" and ?r = "\<lambda>i. rnd s (i + 4)"
  define s1 where "s1 = (if mxFrame (hdr (wal s)) = 0 then s
      else s\<lparr>rnd := ?r, wal := walRestartHdr (wal s) ?salt\<rparr>)"
  let ?s2 = "s1\<lparr>wal := (wal s1)\<lparr>readLock := - 1\<rparr>\<rparr>"
  have u: "hdr0 (wi (wal s)) = hdr (wal s)" "readLock (wal s) = 0" "readOnly (wal s) = 0"
    "nBackfill (ckptInfo (wi (wal s))) = mxFrame (hdr (wal s))"
    "length (aReadMark (ckptInfo (wi (wal s)))) = WAL_NREADER" "length (aSalt (hdr (wal s))) = 8"
    "iReCksum (wal s) = 0" "map_ok (wal s)" "ios s = []" "locks s = []"
    using un unfolding log_unused_def by blast+
  have s1: "locks s1 = []" "readOnly (wal s1) = 0" "hdr0 (wi (wal s1)) = hdr (wal s1)" "mxFrame (hdr (wal s1)) = 0"
    "length (aReadMark (ckptInfo (wi (wal s1)))) = WAL_NREADER" "nBackfill (ckptInfo (wi (wal s1))) = 0"
    "length (aSalt (hdr (wal s1))) = 8" "iReCksum (wal s1) = 0" "map_ok (wal s1)" "ios s1 = []" "dbF s1 = dbF s"
    "logF s1 = logF s" "xCodec s1 = xCodec s" "padToSectorBoundary (wal s1) = padToSectorBoundary (wal s)"
    using u by (simp_all add: s1_def walRestartHdr_fields)
  have salt: "nCkpt (wal s1) = nCkpt (wal s) + 1 \<and> get4 (aSalt (hdr (wal s1))) 0 = get4 (aSalt (hdr (wal s))) 0 + 1"
    if "mxFrame (hdr (wal s)) \<noteq> 0"
    using that by (simp add: s1_def walRestartHdr_fields get4_Put)
  obtain info i where t: "0 < i" "try_wal ?s2 SQLITE_OK = (RC SQLITE_OK,
    ?s2\<lparr>wal := (wal ?s2)\<lparr>wi := (wi (wal ?s2))\<lparr>ckptInfo := info\<rparr>,
         minFrame := nBackfill (ckptInfo (wi (wal ?s2))) + 1, readLock := int i\<rparr>\<rparr>)"
    using try_wal_empty [of ?s2] s1 by auto
  let ?s3 = "?s2\<lparr>wal := (wal ?s2)\<lparr>wi := (wi (wal ?s2))\<lparr>ckptInfo := info\<rparr>,
         minFrame := nBackfill (ckptInfo (wi (wal ?s2))) + 1, readLock := int i\<rparr>\<rparr>"
  have "walRestartLog E mem s = (let (rc, chg, s) = begin_read_loop E mem ?s2 False True 0 in (rc, s))"
    using u(2,4,10) by (cases "mxFrame (hdr (wal s)) = 0")
      (simp_all add: walRestartLog_def s1_def lock_free wal_randomness_def)
  then have "walRestartLog E mem s = (SQLITE_OK, ?s3)"
    using begin_read_useWal [OF t(2)] by simp
  moreover have "restarted s ?s3"
    using s1 salt t(1) by (simp add: restarted_def map_ok_def)
  ultimately show ?thesis by blast
qed
lemma write_log_hdr_ok:
  assumes s: "restarted s0 s" and sz: "page_size_ok szPg"
  shows "\<exists>n salt s'. write_log_hdr s szPg sync_flags = (SQLITE_OK, s') \<and> log_holds n salt [] s' \<and>
    (nCkpt (wal s) \<noteq> 0 \<longrightarrow> salt = aSalt (hdr (wal s))) \<and>
    szPage (wal s') = szPg \<and> readLock (wal s') = readLock (wal s) \<and> minFrame (wal s') = 1 \<and>
    iReCksum (wal s') = 0 \<and> ios s' = [] \<and> dbF s' = dbF s \<and> xCodec s' = xCodec s \<and>
    padToSectorBoundary (wal s') = padToSectorBoundary (wal s)"
proof -
  have u: "minFrame (wal s) = 1" "mxFrame (hdr (wal s)) = 0" "length (aSalt (hdr (wal s))) = 8"
    "iReCksum (wal s) = 0" "map_ok (wal s)" "ios s = []"
    using s unfolding restarted_def by blast+
  define n where "n = nCkpt (wal s)"
  define salt where "salt = (if n = 0 then map (rnd s) [0 ..< 8] else aSalt (hdr (wal s)))"
  define s1 where "s1 = (if n = 0
      then s\<lparr>rnd := (\<lambda>i. rnd s (i + 8)), wal := (wal s)\<lparr>hdr := (hdr (wal s))\<lparr>aSalt := salt\<rparr>\<rparr>\<rparr> else s)"
  have s1: "(if nCkpt (wal s) = 0
         then let (salt, s) = wal_randomness 8 s in s\<lparr>wal := (wal s)\<lparr>hdr := (hdr (wal s))\<lparr>aSalt := salt\<rparr>\<rparr>\<rparr>
         else s) = s1"
    unfolding s1_def by (simp only: wal_randomness_def Let_def prod.case n_def [symmetric] salt_def) simp
  have f: "aSalt (hdr (wal s1)) = salt" "nCkpt (wal s1) = n" "ios s1 = []" "logF s1 = logF s" "map_ok (wal s1)"
    "mxFrame (hdr (wal s1)) = 0" "iReCksum (wal s1) = 0" "minFrame (wal s1) = 1" "readLock (wal s1) = readLock (wal s)"
    "dbF s1 = dbF s" "xCodec s1 = xCodec s" "padToSectorBoundary (wal s1) = padToSectorBoundary (wal s)"
    using u by (simp_all add: s1_def salt_def n_def map_ok_def)
  have salt: "length salt = 8" using u by (simp add: salt_def)
  let ?p = "sqlite3Put4byte (WAL_MAGIC OR ucast SQLITE_BIGENDIAN) @ sqlite3Put4byte WAL_MAX_VERSION @
            sqlite3Put4byte szPg @ sqlite3Put4byte n @ salt"
  let ?c = "log_hdr_ck False szPg n salt" and ?h = "enc_log_hdr False szPg n salt"
  have p: "?p = enc_hdr_prefix False szPg n salt" by (simp add: enc_hdr_prefix_def SQLITE_BIGENDIAN_def)
  let ?W = "(wal s1)\<lparr>szPage := szPg, hdr := (hdr (wal s1))\<lparr>bigEndCksum := SQLITE_BIGENDIAN, aFrameCksum := ?c\<rparr>,
                truncateOnCommit := True\<rparr>"
  let ?s2 = "s1\<lparr>wal := ?W, logF := ?h @ drop (length ?h) (logF s)\<rparr>"
  have w: "os_write (s1\<lparr>wal := ?W\<rparr>) ?h 0 = (SQLITE_OK, ?s2)"
    using os_write_at [of "s1\<lparr>wal := ?W\<rparr>" "[]" "logF s" ?h] f by simp
  have "write_log_hdr s szPg sync_flags = (let (rc, s) = os_write (s1\<lparr>wal := ?W\<rparr>) ?h 0
      in if rc \<noteq> SQLITE_OK then (rc, s)
         else if syncHeader (wal s) \<and> sync_flags \<noteq> 0 then os_sync s else (SQLITE_OK, s))"
    unfolding write_log_hdr_def s1 unfolding Let_def f p by (simp add: log_hdr_ck_def enc_log_hdr_def)
  then have "write_log_hdr s szPg sync_flags = (SQLITE_OK, ?s2)"
    using w f by (simp add: os_sync_def io_next_def)
  moreover have "log_holds n salt [] ?s2"
  proof -
    have "map_ok (wal ?s2)" using f(5) by (simp add: map_ok_def)
    then have "index_repr (wal ?s2) (map fst [] @ [])" by (simp add: index_repr_Nil)
    then show ?thesis
      unfolding log_holds_def using sz salt f by (simp add: log_bytes_def log_start_def) blast
  qed
  ultimately show ?thesis
    using f n_def salt_def by (intro exI [of _ n] exI [of _ salt] exI [of _ ?s2]) simp
qed

text \<open>
  C19: The first commit after the log was copied back starts the log anew. With no other reader
  of the log and no failing operation, \<open>sqlite3WalFrames\<close> restarts the log, writes a new header at
  the start of the file and the frames behind it, and publishes them; the log then holds the frames
  of this transaction alone, with a salt whose first word is one more than that of the frames it
  overwrites (unless the log was empty), so that what is left of those is never taken for a part
  of it; and the reader of the connection finds the new content of the pages in the log.
\<close>

theorem first_commit_restarts:
  assumes "env_ok E" and "log_unused s" and "page_size_ok szPg"
    and "pages_ok (xCodec s) (unat szPg) ps" and "length ps < MAX_FRAMES"
    and "nTruncate \<noteq> 0" and "plain_sync True sync_flags (wal s)"
    and "gs = new_frames (xCodec s) (unat szPg) nTruncate ps"
  shows "\<exists>n salt s'. sqlite3WalFrames E mem os_sector s szPg ps nTruncate True sync_flags = (SQLITE_OK, s') \<and>
    log_holds n salt gs s' \<and> hdr0 (wi (wal s')) = hdr (wal s') \<and> nPage (hdr (wal s')) = nTruncate \<and>
    (mxFrame (hdr (wal s)) \<noteq> 0 \<and> nCkpt (wal s) + 1 \<noteq> 0 \<longrightarrow>
      get4 salt 0 = get4 (aSalt (hdr (wal s))) 0 + 1) \<and>
    (\<forall>p. wal_lookup E s' p = Some (content_of gs p))"
proof -
  obtain s1 where s1: "walRestartLog E mem s = (SQLITE_OK, s1)" "restarted s s1"
    using walRestartLog_ok [OF assms(2)] by blast
  have r: "0 < readLock (wal s1)" "mxFrame (hdr (wal s1)) = 0" "xCodec s1 = xCodec s"
    "padToSectorBoundary (wal s1) = padToSectorBoundary (wal s)"
    "mxFrame (hdr (wal s)) \<noteq> 0 \<longrightarrow> nCkpt (wal s1) = nCkpt (wal s) + 1 \<and>
        get4 (aSalt (hdr (wal s1))) 0 = get4 (aSalt (hdr (wal s))) 0 + 1"
    using s1(2) unfolding restarted_def by blast+
  obtain n salt s2 where s2: "write_log_hdr s1 szPg sync_flags = (SQLITE_OK, s2)" "log_holds n salt [] s2"
    "nCkpt (wal s1) \<noteq> 0 \<longrightarrow> salt = aSalt (hdr (wal s1))"
    and f2: "szPage (wal s2) = szPg" "readLock (wal s2) = readLock (wal s1)" "minFrame (wal s2) = 1"
    "iReCksum (wal s2) = 0" "ios s2 = []" "xCodec s2 = xCodec s1"
    "padToSectorBoundary (wal s2) = padToSectorBoundary (wal s1)"
    using write_log_hdr_ok [OF s1(2) assms(3), of sync_flags] by blast
  have c: "True = (nTruncate \<noteq> 0)" using assms(6) by simp
  have pk: "pages_ok (xCodec s2) (unat szPg) ps" "szPg = szPage (wal s2)"
    "length ([] :: wal_frame list) + length ps < MAX_FRAMES" "plain_sync True sync_flags (wal s2)"
    using assms(4,5,7) f2 r by (simp_all add: plain_sync_def)
  have gs: "[] @ new_frames (xCodec s2) (unat szPg) nTruncate ps = gs" using assms(8) f2 r by simp
  obtain s' where s': "put_frames E mem os_sector s2 szPg 0 ps nTruncate True sync_flags = (SQLITE_OK, s')"
    and holds: "log_holds n salt gs s'"
    and commit: "True \<longrightarrow> published (wal s') \<and> hdr0 (wi (wal s')) = hdr (wal s') \<and> nPage (hdr (wal s')) = nTruncate"
    and f: "hszPage (hdr (wal s')) = page_size_field szPg" "szPage (wal s') = szPg" "ios s' = []"
      "readLock (wal s') = readLock (wal s2)" "minFrame (wal s') = minFrame (wal s2)"
    using put_frames_ok [OF assms(1) s2(2) f2(5,4) pk(1,2,3) c pk(4), of mem os_sector]
    unfolding gs by blast
  have "hdr0 (wi (wal s)) = hdr (wal s)" using assms(2) by (simp add: log_unused_def)
  then have "sqlite3WalFrames E mem os_sector s szPg ps nTruncate True sync_flags = (SQLITE_OK, s')"
    using s1(1) s2(1) s' r(2) by (simp add: sqlite3WalFrames_def)
  moreover have "wal_lookup E s' p = Some (content_of gs p)" for p
    by (rule log_holds_lookup [OF assms(1) holds]) (use f f2 r in simp_all)
  ultimately show ?thesis using holds commit s2(3) r(5) by (intro exI [of _ n] exI [of _ salt] exI [of _ s']) auto
qed
section \<open>Samples\<close>

text \<open>A connection to an empty log, and the pages that it writes.\<close>

definition sample_empty :: wal_sys where
  "sample_empty = sample_sys\<lparr>logF := [],
     wal := (wal sample_sys)\<lparr>readLock := 0,
       wi := zero_index\<lparr>ckptInfo := \<lparr>nBackfill = 0, aReadMark = replicate 5 0, nBackfillAttempted = 0\<rparr>\<rparr>\<rparr>\<rparr>"

definition sample_page :: "nat \<Rightarrow> nat \<Rightarrow> PgHdr" where
  "sample_page p b = \<lparr>pgno = of_nat p, pData = replicate 512 (of_nat b), wal_append = False\<rparr>"

lemma sample_empty_unused: "log_unused sample_empty"
  by (simp add: log_unused_def sample_empty_def sample_sys_def sqlite3WalOpen_def zero_index_def zero_hdr_def
      zero_page_def map_ok_def WAL_NREADER_def SQLITE_SHM_NLOCK_def Let_def)

lemma sample_size: "page_size_ok 512" "unat (512 :: u32) = 512"
  by (simp_all add: page_size_ok_def)

lemma sample_pages_ok:
  "pages_ok None 512 [sample_page 1 5]" "pages_ok None 512 [sample_page 2 6, sample_page 1 7]"
  by (simp_all add: sample_page_def codec_out_def codec_next_def)

lemma sample_frames_new:
  "new_frames None 512 1 [sample_page 1 5] = [(1, 1, replicate 512 5)]"
  "new_frames None 512 2 [sample_page 2 6, sample_page 1 7] = [(2, 0, replicate 512 6), (1, 2, replicate 512 7)]"
  by (simp_all add: sample_page_def codec_out_def codec_next_def)

theorem first_commit_restarts_witness:
  "\<exists>n salt s'. sqlite3WalFrames good_env True 512 sample_empty 512 [sample_page 1 5] 1 True 0 = (SQLITE_OK, s') \<and>
    log_holds n salt [(1, 1, replicate 512 5)] s' \<and> hdr0 (wi (wal s')) = hdr (wal s') \<and>
    wal_lookup good_env s' 1 = Some (Some (replicate 512 5)) \<and> wal_lookup good_env s' 2 = Some None"
proof -
  have env: "env_ok good_env" by (simp add: env_ok_def good_env_def)
  have codec: "xCodec sample_empty = None" by (simp add: sample_empty_def sample_sys_def)
  have pages: "pages_ok (xCodec sample_empty) (unat (512 :: u32)) [sample_page 1 5]"
    "[(1, 1, replicate 512 5)] = new_frames (xCodec sample_empty) (unat (512 :: u32)) 1 [sample_page 1 5]"
    using sample_pages_ok sample_frames_new unfolding codec sample_size by simp_all
  have len: "length [sample_page 1 5] < MAX_FRAMES" by simp
  have sync: "plain_sync True 0 (wal sample_empty)" by (simp add: plain_sync_def)
  have content: "content_of [(1, 1, replicate 512 5)] 1 = Some (replicate 512 (5 :: u8))"
    "content_of [(1, 1, replicate 512 (5 :: u8))] 2 = None"
    by (simp_all add: content_of_def)
  have nt: "(1 :: u32) \<noteq> 0" by simp
  show ?thesis
    using first_commit_restarts [OF env sample_empty_unused sample_size(1) pages(1) len nt sync pages(2)] content
    by metis
qed

text \<open>A log with one committed frame, with nothing behind it.\<close>

lemma sample_written:
  obtains n salt s where "log_holds n salt [(1, 1, replicate 512 5)] s" "ready_to_write s" "minFrame (wal s) = 1"
    "szPage (wal s) = 512" "xCodec s = None" "logF s = log_bytes n salt (wal s) [(1, 1, replicate 512 5)]"
    "hszPage (hdr (wal s)) = page_size_field 512" "nPage (hdr (wal s)) = 1"
proof -
  have env: "env_ok good_env" by (simp add: env_ok_def good_env_def)
  obtain s1 where s1: "restarted sample_empty s1" using walRestartLog_ok [OF sample_empty_unused] by blast
  have codec: "xCodec s1 = None" "0 < readLock (wal s1)"
    using s1 by (simp_all add: restarted_def sample_empty_def sample_sys_def)
  obtain n salt s2 where s2: "log_holds n salt [] s2"
    and f2: "szPage (wal s2) = 512" "readLock (wal s2) = readLock (wal s1)" "minFrame (wal s2) = 1"
    "iReCksum (wal s2) = 0" "ios s2 = []" "xCodec s2 = xCodec s1"
    using write_log_hdr_ok [OF s1 sample_size(1), of 0] by blast
  have pk: "pages_ok (xCodec s2) (unat (512 :: u32)) [sample_page 1 5]" "512 = szPage (wal s2)"
    "length ([] :: wal_frame list) + length [sample_page 1 5] < MAX_FRAMES" "True = ((1 :: u32) \<noteq> 0)"
    "plain_sync True 0 (wal s2)"
    using f2 codec sample_pages_ok sample_size(2) by (simp_all only: plain_sync_def) simp_all
  have new: "[] @ new_frames (xCodec s2) (unat (512 :: u32)) 1 [sample_page 1 5] = [(1, 1, replicate 512 5)]"
    using f2(6) codec sample_frames_new(1) unfolding sample_size(2) by simp
  obtain s' where holds: "log_holds n salt [(1, 1, replicate 512 5)] s'"
    and commit: "True \<longrightarrow> published (wal s') \<and> hdr0 (wi (wal s')) = hdr (wal s') \<and> nPage (hdr (wal s')) = 1"
    and f: "szPage (wal s') = 512" "ios s' = []" "iReCksum (wal s') = 0" "hszPage (hdr (wal s')) = page_size_field 512"
      "readLock (wal s') = readLock (wal s2)" "minFrame (wal s') = minFrame (wal s2)"
      "xCodec s' = (codec_next ^^ length [sample_page 1 5]) (xCodec s2)"
    using put_frames_ok [OF env s2 f2(5,4) pk, of True 512]
    unfolding new by blast
  let ?s = "s'\<lparr>logF := log_bytes n salt (wal s') [(1, 1, replicate 512 5)]\<rparr>"
  have h: "log_holds n salt [(1, 1, replicate 512 5)] ?s"
    using holds unfolding log_holds_def by (simp only: wal_sys.simps) simp
  have "mxFrame (hdr (wal s')) = of_nat (length [(1 :: u32, 1 :: u32, replicate 512 (5 :: u8))])"
    using holds unfolding log_holds_def by blast
  then have "ready_to_write ?s" using commit f f2 codec by (simp add: ready_to_write_def)
  then show thesis
    using that [OF h] f f2 codec commit by (simp add: codec_next_def)
qed

theorem commit_appends_witness:
  "\<exists>n salt s s'. log_holds n salt [(1, 1, replicate 512 5)] s \<and>
    sqlite3WalFrames good_env True 512 s 512 [sample_page 2 6, sample_page 1 7] 2 True 0 = (SQLITE_OK, s') \<and>
    log_holds n salt [(1, 1, replicate 512 5), (2, 0, replicate 512 6), (1, 2, replicate 512 7)] s' \<and>
    wal_lookup good_env s' 1 = Some (Some (replicate 512 7))"
proof -
  obtain n salt s where s: "log_holds n salt [(1, 1, replicate 512 5)] s" "ready_to_write s" "minFrame (wal s) = 1"
    "szPage (wal s) = 512" "xCodec s = None"
    by (rule sample_written)
  have env: "env_ok good_env" by (simp add: env_ok_def good_env_def)
  have pages: "pages_ok (xCodec s) (unat (szPage (wal s))) [sample_page 2 6, sample_page 1 7]"
    "[(2, 0, replicate 512 6), (1, 2, replicate 512 7)] =
      new_frames (xCodec s) (unat (szPage (wal s))) 2 [sample_page 2 6, sample_page 1 7]"
    using sample_pages_ok sample_frames_new unfolding s(4,5) sample_size by simp_all
  have len: "length [(1 :: u32, 1 :: u32, replicate 512 (5 :: u8))] + length [sample_page 2 6, sample_page 1 7] < MAX_FRAMES"
    by simp
  have sync: "plain_sync True 0 (wal s)" by (simp add: plain_sync_def)
  have nt: "(2 :: u32) \<noteq> 0" by simp
  have app: "[(1, 1, replicate 512 5)] @ [(2, 0, replicate 512 6), (1, 2, replicate 512 7)] =
      [(1 :: u32, 1 :: u32, replicate 512 (5 :: u8)), (2, 0, replicate 512 6), (1, 2, replicate 512 7)]" by simp
  have content: "content_of [(1, 1, replicate 512 5), (2, 0, replicate 512 6), (1, 2, replicate 512 7)] 1 =
      Some (replicate 512 (7 :: u8))"
    by (simp add: content_of_def)
  show ?thesis
    using commit_appends [OF env s(1,2) pages(1) len nt sync pages(2), of True 512] s(1,3) content
    unfolding app s(4) by metis
qed
lemma length_file_write: "d \<noteq> [] \<Longrightarrow> length f \<le> ofst \<Longrightarrow> length (file_write f ofst d) = ofst + length d"
  by (simp add: file_write_def)

theorem crash_keeps_committed_witness:
  "\<exists>n salt s s' gs hs W. log_holds n salt [(1, 1, replicate 512 5)] s \<and> ios s = [(SQLITE_IOERR, 5)] \<and>
    sqlite3WalFrames good_env True 512 s 512 [sample_page 2 6] 2 True 0 = (SQLITE_IOERR, s') \<and>
    length (logF s') = 573 \<and>
    walIndexRecover good_env True (sample_sys\<lparr>logF := logF s'\<rparr>) = (SQLITE_OK, sample_sys\<lparr>logF := logF s', wal := W\<rparr>) \<and>
    recovered 512 salt ([(1, 1, replicate 512 5)] @ gs) W \<and>
    committed ([(1, 1, replicate 512 5)] @ gs) = [(1, 1, replicate 512 5)] @ hs"
proof -
  let ?fs = "[(1 :: u32, 1 :: u32, replicate 512 (5 :: u8))]"
  obtain n salt s0 where s0: "log_holds n salt ?fs s0" "ready_to_write s0" "szPage (wal s0) = 512" "xCodec s0 = None"
    "logF s0 = log_bytes n salt (wal s0) ?fs"
    by (rule sample_written)
  let ?s = "s0\<lparr>ios := [(SQLITE_IOERR, 5)]\<rparr>"
  have holds: "log_holds n salt ?fs ?s" using s0(1) unfolding log_holds_def by simp
  have h: "length salt = 8" "\<forall>f\<in>set ?fs. frame_ok (unat (szPage (wal s0))) f" "mxFrame (hdr (wal s0)) = of_nat (length ?fs)"
    using s0(1) unfolding log_holds_def by blast+
  have r: "hdr0 (wi (wal ?s)) = hdr (wal ?s)" "readLock (wal ?s) \<noteq> 0" "iReCksum (wal ?s) = 0"
    using s0(2) by (simp_all add: ready_to_write_def)
  have len: "length (logF ?s) = 568" using length_log_bytes [OF h(1,2), of n] s0(3,5) by simp
  obtain b W0 where e: "walEncodeFrame (wal s0) 2 2 (replicate 512 6) = (b, W0)" by fastforce
  have b: "5 \<le> length b" using e h(1) by (auto simp: walEncodeFrame_def Let_def split: if_splits)
  let ?s' = "s0\<lparr>ios := [], wal := W0, logF := file_write (logF s0) 568 (take 5 b)\<rparr>"
  have ofst: "walFrameOffset (unat (mxFrame (hdr (wal s0)) + 1)) (unat (512 :: u32)) = 568"
    using h(3) by (simp add: walFrameOffset_def WAL_HDRSIZE_def WAL_FRAME_HDRSIZE_def)
  have codec: "codec_next None = None" by (simp add: codec_next_def)
  have one: "walWriteOneFrame ?s 0 512 (sample_page 2 6) 2 568 = (SQLITE_IOERR, ?s')"
    using e s0(4) by (simp add: walWriteOneFrame_def sqlite3PagerCodec_eq codec codec_out_def sample_page_def
        walWriteToLog_def os_write_def io_next_def result_codes)
  have "put_frames good_env True 512 ?s 512 0 [sample_page 2 6] 2 True 0 = (SQLITE_IOERR, ?s')"
    using one ofst by (simp add: put_frames_def own_frame_def result_codes)
  then have put: "sqlite3WalFrames good_env True 512 ?s (szPage (wal ?s)) [sample_page 2 6] 2 True 0 = (SQLITE_IOERR, ?s')"
    using r h(3) s0(3) by (simp add: sqlite3WalFrames_def walRestartLog_def)
  have "b \<noteq> []" using b by auto
  then have len': "length (logF ?s') = 573" using len b length_file_write [of "take 5 b" "logF s0" 568] by simp
  let ?r = "sample_sys\<lparr>logF := logF ?s'\<rparr>"
  have rr: "map_ok (wal ?r)" "ios ?r = []" "locks ?r = []"
    by (simp_all add: sample_sys_def sqlite3WalOpen_def map_ok_def)
  have env: "env_ok good_env" by (simp add: env_ok_def good_env_def)
  have fl: "logF ?r = logF ?s'" "length (logF ?s') < MAX_FRAMES * 536" using len' by simp_all
  have small: "length ?fs + length [sample_page 2 6] < MAX_FRAMES" "?fs \<noteq> []" by simp_all
  have "committed ?fs = ?fs" by (simp add: committed_def)
  then obtain gs hs W where "walIndexRecover good_env True ?r = (SQLITE_OK, ?r\<lparr>wal := W\<rparr>)"
    "recovered 512 salt (?fs @ gs) W" "committed (?fs @ gs) = ?fs @ hs"
    using crash_keeps_committed [OF env holds r(1,2) small(2) r(3) small(1) put fl rr] s0(3) by auto
  then show ?thesis
    using holds put len' s0(3)
    by (intro exI [of _ n] exI [of _ salt] exI [of _ ?s] exI [of _ ?s'] exI [of _ gs] exI [of _ hs] exI [of _ W]) simp
qed

end
