(* ===== verification/WalRewrite.thy ===== *)
theory WalRewrite
  imports WalWrite
begin

text \<open>
  A transaction that overwrites frames of its own in the log breaks the chain of checksums from the
  first of them on; \<open>walRewriteChecksums\<close> (\<open>src/wal.c\<close>) repairs it before the commit. This theory shows
  that the repaired log is the encoding of its frames again.
\<close>

section \<open>Frames with stale checksums\<close>

text \<open>A frame as it is in the file, with 16 bytes \<open>j\<close> where the salt and the checksum go.\<close>

definition raw_frame :: "u8 list \<Rightarrow> wal_frame \<Rightarrow> u8 list" where
  "raw_frame j f = (case f of (pg, nt, d) \<Rightarrow> sqlite3Put4byte pg @ sqlite3Put4byte nt @ j @ d)"

fun raw_frames :: "(u8 list \<times> wal_frame) list \<Rightarrow> u8 list" where
  "raw_frames [] = []"
| "raw_frames ((j, f) # rs) = raw_frame j f @ raw_frames rs"

definition raw_ok :: "nat \<Rightarrow> u8 list \<times> wal_frame \<Rightarrow> bool" where
  "raw_ok sz r \<longleftrightarrow> length (fst r) = 16 \<and> frame_ok sz (snd r)"

lemma rewrite_frames_ok:
  assumes "aSalt (hdr (wal s)) = salt" "length salt = 8" "bigEndCksum (hdr (wal s)) = SQLITE_BIGENDIAN"
    and "aFrameCksum (hdr (wal s)) = ck" "iReCksum (wal s) = 0" "unat (szPage (wal s)) = sz"
    and "ios s = []" "logF s = pre @ raw_frames rs @ rest" "length pre = 32 + k * (sz + 24)"
    and "\<forall>r\<in>set rs. raw_ok sz r"
  shows "rewrite_frames sz s [k + 1 ..< k + 1 + length rs] = (SQLITE_OK,
    s\<lparr>wal := (wal s)\<lparr>hdr := (hdr (wal s))\<lparr>aFrameCksum := chain True ck (map snd rs)\<rparr>\<rparr>,
      logF := pre @ enc_frames True salt ck (map snd rs) @ rest\<rparr>)"
  using assms
proof (induction rs arbitrary: s ck pre k)
  case Nil
  then show ?case by simp
next
  case (Cons r rs)
  obtain j pg nt d where r: "r = (j, pg, nt, d)" by (metis prod_cases4)
  let ?f = "(pg, nt, d)" and ?raw = "raw_frame j (pg, nt, d)" and ?c = "frame_ck True ck (pg, nt, d)"
  have d: "length j = 16" "length d = sz" using Cons.prems(10) r by (simp_all add: raw_ok_def frame_ok_def)
  have raw: "length ?raw = sz + 24" "get4 ?raw 0 = pg" "get4 ?raw 4 = nt" "drop 24 ?raw = d" "drop 8 ?raw = j @ d"
    using d by (simp_all add: raw_frame_def get4_def Get4byte_Put4byte)
  have log: "logF s = pre @ ?raw @ (raw_frames rs @ rest)" using Cons.prems(8) r by simp
  have off: "walFrameOffset (k + 1) sz = length pre" using Cons.prems(9) walFrameOffset_Suc by simp
  have rd: "os_read s (sz + WAL_FRAME_HDRSIZE) (walFrameOffset (k + 1) sz) = (SQLITE_OK, ?raw, s)"
    using log raw(1) Cons.prems(7) off by (subst os_read_ok) (simp_all add: WAL_FRAME_HDRSIZE_def)
  let ?a = "sqlite3Put4byte pg @ sqlite3Put4byte nt @ salt @ sqlite3Put4byte (fst ?c) @ sqlite3Put4byte (snd ?c)"
  let ?W = "(wal s)\<lparr>hdr := (hdr (wal s))\<lparr>aFrameCksum := ?c\<rparr>\<rparr>"
  have native: "native_cksum (wal s) = True" using Cons.prems(3) by (simp add: native_cksum_def)
  have enc: "walEncodeFrame (wal s) pg nt d = (?a, ?W)"
    using Cons.prems(1,4,5,6) native d by (simp add: walEncodeFrame_def frame_ck_def Let_def)
  have a: "length ?a = 24" using Cons.prems(2) by simp
  have e: "?a @ d = enc_frame True salt ck ?f" by (simp add: enc_frame_def)
  let ?pre = "pre @ enc_frame True salt ck ?f"
  let ?s = "s\<lparr>wal := ?W, logF := ?pre @ raw_frames rs @ rest\<rparr>"
  have "drop 24 (?raw @ raw_frames rs @ rest) = d @ raw_frames rs @ rest" using raw(1,4) by simp
  then have "os_write (s\<lparr>wal := ?W\<rparr>) ?a (walFrameOffset (k + 1) sz) = (SQLITE_OK, ?s)"
    using os_write_at [of "s\<lparr>wal := ?W\<rparr>" pre "?raw @ raw_frames rs @ rest" ?a] log Cons.prems(7) off a
    by (simp add: e [symmetric])
  moreover have "[k + 1 ..< k + 1 + length (r # rs)] = (k + 1) # [(k + 1) + 1 ..< (k + 1) + 1 + length rs]"
    by (subst upt_conv_Cons) simp_all
  ultimately have step: "rewrite_frames sz s [k + 1 ..< k + 1 + length (r # rs)] =
      rewrite_frames sz ?s [(k + 1) + 1 ..< (k + 1) + 1 + length rs]"
    using rd raw enc by (simp only: rewrite_frames.simps Let_def prod.case WAL_FRAME_HDRSIZE_def simp_thms if_False)
  have len: "length (enc_frame True salt ck ?f) = 24 + sz" using Cons.prems(2) d by (simp add: length_enc_frame)
  have "rewrite_frames sz ?s [(k + 1) + 1 ..< (k + 1) + 1 + length rs] = (SQLITE_OK,
    ?s\<lparr>wal := (wal ?s)\<lparr>hdr := (hdr (wal ?s))\<lparr>aFrameCksum := chain True ?c (map snd rs)\<rparr>\<rparr>,
      logF := ?pre @ enc_frames True salt ?c (map snd rs) @ rest\<rparr>)"
    by (rule Cons.IH) (use Cons.prems len in \<open>simp_all add: algebra_simps\<close>)
  then show ?case unfolding step using r by simp
qed
section \<open>The whole repair\<close>

text \<open>The checksum that the chain continues from is read from the file: from the header or the frame before.\<close>

lemma last_cksum:
  assumes salt: "length salt = 8" and fs: "\<forall>f\<in>set fs. frame_ok (unat (szPage W)) f"
    and ofst: "ofst = (if fs = [] then 24 else walFrameOffset (length fs) (unat (szPage W)) + 16)"
    and c: "c = chain True (log_start n salt W) fs"
  shows "\<exists>r. drop ofst (log_bytes n salt W fs @ rest) = sqlite3Put4byte (fst c) @ sqlite3Put4byte (snd c) @ r"
proof (cases fs rule: rev_cases)
  case Nil
  then have c: "c = log_hdr_ck False (szPage W) n salt" using c by (simp add: log_start_def)
  have "length (enc_hdr_prefix False (szPage W) n salt) = 24" using salt by (simp add: enc_hdr_prefix_def)
  then have "drop 24 (log_bytes n salt W [] @ rest) = sqlite3Put4byte (fst c) @ sqlite3Put4byte (snd c) @ rest"
    using c by (simp add: log_bytes_def enc_log_hdr_def)
  then show ?thesis using ofst Nil by auto
next
  case (snoc gs f)
  obtain pg nt d where f: "f = (pg, nt, d)" by (metis prod_cases3)
  have gs: "\<forall>f\<in>set gs. frame_ok (unat (szPage W)) f" using fs snoc by simp
  let ?ck = "chain True (log_start n salt W) gs"
  have "c = frame_ck True ?ck f" using c snoc by simp
  then have "log_bytes n salt W fs @ rest = log_bytes n salt W gs @
      (sqlite3Put4byte pg @ sqlite3Put4byte nt @ salt) @ sqlite3Put4byte (fst c) @ sqlite3Put4byte (snd c) @ d @ rest"
    using snoc f by (simp add: log_bytes_append enc_frame_def)
  moreover have "ofst = length (log_bytes n salt W gs) + 16"
    using ofst snoc length_log_bytes [OF salt gs, of n] walFrameOffset_Suc [of "length gs"] by simp
  ultimately show ?thesis using salt by simp
qed

text \<open>
  C20: Overwriting frames of the running transaction in place leaves a valid log. When the file has
  the frames \<open>fs\<close> of the log, then frames of the transaction whose salts and checksums may be
  anything, and nothing fails, \<open>walRewriteChecksums\<close> turns the file into the encoding of all these
  frames, with the checksums chained through them, touches nothing behind them, and leaves the
  handle with the checksum after the last one.
\<close>

theorem rewrite_checksums_repairs:
  assumes "length salt = 8" and "aSalt (hdr (wal s)) = salt" and "bigEndCksum (hdr (wal s)) = SQLITE_BIGENDIAN"
    and fs: "\<forall>f\<in>set fs. frame_ok (unat (szPage (wal s))) f" and rs: "\<forall>r\<in>set rs. raw_ok (unat (szPage (wal s))) r"
    and len: "length fs + length rs < MAX_FRAMES" and re: "iReCksum (wal s) = of_nat (length fs + 1)"
    and io: "ios s = []" and log: "logF s = log_bytes n salt (wal s) fs @ raw_frames rs @ rest"
    and gs: "gs = map snd rs" and last: "iLast = of_nat (length fs + length rs)"
  shows "\<exists>s'. walRewriteChecksums True s iLast = (SQLITE_OK, s') \<and>
    logF s' = log_bytes n salt (wal s') (fs @ gs) @ rest \<and> szPage (wal s') = szPage (wal s) \<and>
    aFrameCksum (hdr (wal s')) = chain True (log_start n salt (wal s')) (fs @ gs) \<and> iReCksum (wal s') = 0 \<and>
    same_log (wal s) ((wal s')\<lparr>iReCksum := iReCksum (wal s)\<rparr>)"
proof -
  let ?sz = "unat (szPage (wal s))" and ?c = "chain True (log_start n salt (wal s)) fs" and ?k = "length fs"
  let ?i0 = "of_nat (?k + 1) :: u32"
  have k: "?k < MAX_FRAMES" using len by simp
  then have i0: "unat ?i0 = ?k + 1" "unat iLast = ?k + length rs"
    using unat_frame_Suc [OF k] unat_frame [OF len] last by (simp_all add: add.commute)
  have one: "?i0 = 1 \<longleftrightarrow> fs = []" using i0(1) by (auto simp: word_unat_eq_iff)
  have prev: "unat (?i0 - 1) = ?k" using unat_frame [OF k] by simp
  define ofst where "ofst = (if fs = [] then 24 else walFrameOffset ?k ?sz + 16)"
  obtain r where r: "drop ofst (logF s) = sqlite3Put4byte (fst ?c) @ sqlite3Put4byte (snd ?c) @ r"
    using last_cksum [OF assms(1) fs ofst_def refl, of n "raw_frames rs @ rest"] log by auto
  then have "length (drop ofst (logF s)) \<ge> 8" by simp
  then have fits: "ofst + 8 \<le> length (logF s)" by simp
  let ?b = "sqlite3Put4byte (fst ?c) @ sqlite3Put4byte (snd ?c)"
  have "take 8 (drop ofst (logF s)) = ?b" unfolding r by simp
  then have rd: "os_read s 8 ofst = (SQLITE_OK, ?b, s)" using os_read_ok [OF io fits] by simp
  have g: "get4 ?b 0 = fst ?c" "get4 ?b 4 = snd ?c"
    using Get4byte_Put4byte [of _ "[]"] by (simp_all add: get4_def Get4byte_Put4byte)
  let ?s1 = "s\<lparr>wal := (wal s)\<lparr>hdr := (hdr (wal s))\<lparr>aFrameCksum := ?c\<rparr>, iReCksum := 0\<rparr>\<rparr>"
  have pre: "length (log_bytes n salt (wal s) fs) = 32 + ?k * (?sz + 24)" by (rule length_log_bytes [OF assms(1) fs])
  have rw: "rewrite_frames ?sz ?s1 [?k + 1 ..< ?k + 1 + length rs] = (SQLITE_OK,
    ?s1\<lparr>wal := (wal ?s1)\<lparr>hdr := (hdr (wal ?s1))\<lparr>aFrameCksum := chain True ?c (map snd rs)\<rparr>\<rparr>,
      logF := log_bytes n salt (wal s) fs @ enc_frames True salt ?c (map snd rs) @ rest\<rparr>)"
    by (rule rewrite_frames_ok [OF _ assms(1) _ _ _ _ _ _ pre rs]) (use assms(2,3) io log in simp_all)
  let ?s' = "?s1\<lparr>wal := (wal ?s1)\<lparr>hdr := (hdr (wal ?s1))\<lparr>aFrameCksum := chain True ?c (map snd rs)\<rparr>\<rparr>,
      logF := log_bytes n salt (wal s) fs @ enc_frames True salt ?c (map snd rs) @ rest\<rparr>"
  have range: "?k + length rs + 1 = ?k + 1 + length rs" by simp
  have eq: "walRewriteChecksums True s iLast = (let (rc, aBuf, s) = os_read s 8 ofst;
       s = s\<lparr>wal := (wal s)\<lparr>hdr := (hdr (wal s))\<lparr>aFrameCksum := (get4 aBuf 0, get4 aBuf 4)\<rparr>, iReCksum := 0\<rparr>\<rparr>
     in if rc \<noteq> SQLITE_OK then (rc, s) else rewrite_frames ?sz s [?k + 1 ..< ?k + 1 + length rs])"
    by (simp only: walRewriteChecksums_def Let_def re one prev i0 ofst_def range simp_thms if_False)
  have "walRewriteChecksums True s iLast = (SQLITE_OK, ?s')"
    unfolding eq rd Let_def prod.case g using rw by simp
  moreover have "logF ?s' = log_bytes n salt (wal ?s') (fs @ gs) @ rest"
    using log_bytes_same [of "wal ?s'" "wal s"] by (simp add: log_bytes_append gs)
  moreover have "same_log (wal s) ((wal ?s')\<lparr>iReCksum := iReCksum (wal s)\<rparr>)" by (simp add: same_log_def)
  moreover have "aFrameCksum (hdr (wal ?s')) = chain True (log_start n salt (wal ?s')) (fs @ gs)"
    using log_bytes_same(2) [of "wal ?s'" "wal s"] by (simp add: gs)
  ultimately show ?thesis by (intro exI [of _ ?s']) simp
qed
definition sample_stale :: wal_sys where
  "sample_stale = sample_sys\<lparr>
     wal := (wal sample_sys)\<lparr>szPage := 512, iReCksum := 1, hdr := zero_hdr\<lparr>aSalt := replicate 8 7\<rparr>\<rparr>,
     logF := enc_log_hdr False 512 0 (replicate 8 7) @ raw_frame (replicate 16 0) (1, 1, replicate 512 5)\<rparr>"

theorem rewrite_checksums_repairs_witness:
  "\<exists>s'. walRewriteChecksums True sample_stale 1 = (SQLITE_OK, s') \<and>
    logF s' = log_bytes 0 (replicate 8 7) (wal s') [(1, 1, replicate 512 5)] \<and> iReCksum (wal s') = 0"
proof -
  let ?salt = "replicate 8 (7 :: u8)" and ?rs = "[(replicate 16 (0 :: u8), (1 :: u32, 1 :: u32, replicate 512 (5 :: u8)))]"
  have s: "length ?salt = 8" "aSalt (hdr (wal sample_stale)) = ?salt"
    "bigEndCksum (hdr (wal sample_stale)) = SQLITE_BIGENDIAN" "\<forall>f\<in>set []. frame_ok (unat (szPage (wal sample_stale))) f"
    by (simp_all add: sample_stale_def zero_hdr_def SQLITE_BIGENDIAN_def)
  have r: "\<forall>r\<in>set ?rs. raw_ok (unat (szPage (wal sample_stale))) r" "length ([] :: wal_frame list) + length ?rs < MAX_FRAMES"
    "iReCksum (wal sample_stale) = of_nat (length ([] :: wal_frame list) + 1)" "ios sample_stale = []"
    by (simp_all add: sample_stale_def sample_sys_def raw_ok_def frame_ok_def)
  have log: "logF sample_stale = log_bytes 0 ?salt (wal sample_stale) [] @ raw_frames ?rs @ []"
    by (simp add: sample_stale_def log_bytes_def)
  have gs: "[(1, 1, replicate 512 5)] = map snd ?rs" "1 = (of_nat (length ([] :: wal_frame list) + length ?rs) :: u32)"
    by simp_all
  show ?thesis using rewrite_checksums_repairs [OF s r log gs] by auto
qed

end
