(* ===== verification/WalCheckpoint.thy ===== *)
theory WalCheckpoint
  imports WalIterate WalWrite
begin

text \<open>
  Checkpoints (\<open>src/wal.c\<close>): how far the log may be copied back, given the readers that are active,
  the copying of the newest frame of every page to the database file, and the restart or
  truncation of a log that has been copied completely.
\<close>

section \<open>The database file\<close>

definition db_write :: "wal_sys \<Rightarrow> u8 list \<Rightarrow> nat \<Rightarrow> nat \<times> wal_sys" where
  "db_write s d ofst =
     (let (rc, k, s) = io_next s
      in (rc, s\<lparr>dbF := file_write (dbF s) ofst (if rc = SQLITE_OK then d else take k d)\<rparr>))"

definition db_size :: "wal_sys \<Rightarrow> nat \<times> nat \<times> wal_sys" where
  "db_size s = (let (rc, k, s) = io_next s in (rc, length (dbF s), s))"

definition db_truncate :: "wal_sys \<Rightarrow> nat \<Rightarrow> nat \<times> wal_sys" where
  "db_truncate s n =
     (let (rc, k, s) = io_next s
      in (rc, if rc = SQLITE_OK then s\<lparr>dbF := take n (dbF s @ replicate (n - length (dbF s)) 0)\<rparr> else s))"

section \<open>Busy locks\<close>

text \<open>
  The busy handler, if there is one, is the list of its next answers: whether to try again. After
  the list it gives up.
\<close>

fun walBusyLock :: "wal_sys \<Rightarrow> bool list option \<Rightarrow> nat \<Rightarrow> nat \<Rightarrow> nat \<times> bool list option \<times> wal_sys" where
  "walBusyLock s None lockIdx n = (let (rc, s) = walLockExclusive s lockIdx n in (rc, None, s))"
| "walBusyLock s (Some []) lockIdx n = (let (rc, s) = walLockExclusive s lockIdx n in (rc, Some [], s))"
| "walBusyLock s (Some (again # bs)) lockIdx n =
     (let (rc, s) = walLockExclusive s lockIdx n
      in if rc \<noteq> SQLITE_BUSY then (rc, Some (again # bs), s)
         else if again then walBusyLock s (Some bs) lockIdx n
         else (rc, Some bs, s))"

section \<open>The last frame that may be copied\<close>

text \<open>
  The loop over the read marks. The Boolean says that an error ends the checkpoint; \<open>rc\<close> is the
  result of the last request for a lock.
\<close>

fun safe_frames :: "wal_sys \<Rightarrow> bool list option \<Rightarrow> nat \<Rightarrow> u32 \<Rightarrow> nat list
    \<Rightarrow> nat \<times> bool \<times> u32 \<times> bool list option \<times> wal_sys" where
  "safe_frames s xBusy rc mxSafe [] = (rc, False, mxSafe, xBusy, s)"
| "safe_frames s xBusy rc mxSafe (i # is) =
     (let y = aReadMark (ckptInfo (wi (wal s))) ! i
      in if y < mxSafe then
           let (rc, xBusy, s) = walBusyLock s xBusy (WAL_READ_LOCK i) 1
           in if rc = SQLITE_OK
              then safe_frames (s\<lparr>wal := set_mark (wal s) i (if i = 1 then mxSafe else READMARK_NOT_USED)\<rparr>)
                     xBusy rc mxSafe is
              else if rc = SQLITE_BUSY then safe_frames s None rc y is
              else (rc, True, mxSafe, xBusy, s)
         else safe_frames s xBusy rc mxSafe is)"

section \<open>Copying\<close>

lemma skip_entries_above:
  "iNext (skip_entries W m s) < nEntry (skip_entries W m s) \<Longrightarrow>
    m < seg_pgno W (skip_entries W m s) (aIndex (skip_entries W m s) ! iNext (skip_entries W m s))"
proof (induction W m s rule: skip_entries.induct)
  case (1 W m s)
  show ?case
  proof (cases "iNext s < nEntry s \<and> \<not> m < seg_pgno W s (aIndex s ! iNext s)")
    case True
    then have eq: "skip_entries W m s = skip_entries W m (s\<lparr>iNext := iNext s + 1\<rparr>)" by (subst skip_entries.simps) simp
    show ?thesis using 1(1) [OF True] 1(2) unfolding eq .
  next
    case False
    then have "skip_entries W m s = s" by (subst skip_entries.simps) (rule if_not_P)
    then show ?thesis using 1(2) False by simp
  qed
qed

lemma next_segments_above:
  "next_segments W m segs (r0, f0) = (segs', r, f) \<Longrightarrow> r = r0 \<or> m < r"
proof (induction segs arbitrary: segs' r f)
  case (Cons sg segs)
  obtain segs1 r1 f1 where "next_segments W m segs (r0, f0) = (segs1, r1, f1)" by (metis prod_cases3)
  then show ?case using Cons skip_entries_above [of W m sg] by (auto simp: Let_def split: if_splits)
qed simp

lemma walIteratorNext_above: "(False, pg, fr, p') = walIteratorNext W p f0 \<Longrightarrow> iPrior p' = pg \<and> iPrior p < pg"
  by (auto simp: walIteratorNext_def Let_def split: prod.splits dest!: next_segments_above)

lemma rest_of_pages: "(m :: u32) < r \<Longrightarrow> unat (0xFFFFFFFF - r) < unat (0xFFFFFFFF - m)"
proof -
  have top: "x \<le> (0xFFFFFFFF :: u32)" for x
  proof -
    have "unat x < 2 ^ LENGTH(32)" by (rule unsigned_less)
    then show ?thesis by (simp add: word_le_nat_alt)
  qed
  assume "m < r"
  moreover have "unat r \<le> 4294967295" using top [of r] by (simp add: word_le_nat_alt)
  ultimately show ?thesis using unat_sub [OF top [of r]] unat_sub [OF top [of m]] by (simp add: word_less_nat_alt)
qed

text \<open>The loop ends because the pages that the iterator gives increase.\<close>

function copy_pages :: "nat \<Rightarrow> u32 \<Rightarrow> u32 \<Rightarrow> u32 \<Rightarrow> wal_sys \<Rightarrow> WalIterator \<Rightarrow> u32 \<Rightarrow> nat \<times> wal_sys" where
  "copy_pages szPg nBack mxSafe mxPage s p iFrame =
     (case walIteratorNext (wal s) p iFrame of (stop, iDbpage, iFrame, p) \<Rightarrow>
        if stop then (SQLITE_OK, s)
        else if iFrame \<le> nBack \<or> mxSafe < iFrame \<or> mxPage < iDbpage
        then copy_pages szPg nBack mxSafe mxPage s p iFrame
        else
          let (rc, zBuf, s) = os_read s szPg (walFrameOffset (unat iFrame) szPg + WAL_FRAME_HDRSIZE)
          in if rc \<noteq> SQLITE_OK then (rc, s)
             else let (rc, s) = db_write s zBuf (unat (iDbpage - 1) * szPg)
                  in if rc \<noteq> SQLITE_OK then (rc, s)
                     else copy_pages szPg nBack mxSafe mxPage s p iFrame)"
  by pat_completeness auto
termination
  by (relation "measure (\<lambda>(sz, b, sf, mx, s, p, f). unat (0xFFFFFFFF - iPrior p))")
    (auto dest!: walIteratorNext_above intro: rest_of_pages)
section \<open>A checkpoint\<close>

definition SQLITE_CHECKPOINT_PASSIVE :: nat where "SQLITE_CHECKPOINT_PASSIVE = 0"
definition SQLITE_CHECKPOINT_RESTART :: nat where "SQLITE_CHECKPOINT_RESTART = 2"
definition SQLITE_CHECKPOINT_TRUNCATE :: nat where "SQLITE_CHECKPOINT_TRUNCATE = 3"

definition set_info :: "(WalCkptInfo \<Rightarrow> WalCkptInfo) \<Rightarrow> wal_sys \<Rightarrow> wal_sys" where
  "set_info f s = s\<lparr>wal := (wal s)\<lparr>wi := (wi (wal s))\<lparr>ckptInfo := f (ckptInfo (wi (wal s)))\<rparr>\<rparr>\<rparr>"

text \<open>
  The copying and what follows it while the lock of the readers of the database alone is held. The
  hint of the final size to the file system has no effect here.
\<close>

definition backfill :: "wal_sys \<Rightarrow> WalIterator \<Rightarrow> nat \<Rightarrow> u32 \<Rightarrow> u32 \<Rightarrow> nat \<Rightarrow> nat \<times> wal_sys" where
  "backfill s p szPg mxSafe mxPage sync_flags =
     (let nBack = nBackfill (ckptInfo (wi (wal s)));
          s = set_info (nBackfillAttempted_update (\<lambda>_. mxSafe)) s;
          (rc, s) = (if sync_flags \<noteq> 0 then os_sync s else (SQLITE_OK, s));
          (rc, s) = (if rc = SQLITE_OK then let (rc, nSize, s) = db_size s in (rc, s) else (rc, s));
          (rc, s) = (if rc = SQLITE_OK then copy_pages szPg nBack mxSafe mxPage s p 0 else (rc, s))
      in if rc \<noteq> SQLITE_OK then (rc, s)
         else
           let (rc, s) =
                 (if mxSafe = mxFrame (hdr0 (wi (wal s))) then
                    let (rc, s) = db_truncate s (unat (nPage (hdr (wal s))) * szPg)
                    in if rc = SQLITE_OK \<and> sync_flags \<noteq> 0 then os_sync s else (rc, s)
                  else (SQLITE_OK, s))
           in (rc, if rc = SQLITE_OK then set_info (nBackfill_update (\<lambda>_. mxSafe)) s else s))"

text \<open>The first part of \<open>walCheckpoint\<close>; the Boolean says that it returns at once.\<close>

definition ckpt_copy :: "wal_env \<Rightarrow> bool list \<Rightarrow> wal_sys \<Rightarrow> bool list option \<Rightarrow> nat
    \<Rightarrow> nat \<times> bool \<times> bool list option \<times> wal_sys" where
  "ckpt_copy E mem s xBusy sync_flags =
     (let (rc, pIter, W) = walIteratorInit E mem (wal s); s = s\<lparr>wal := W\<rparr>
      in case pIter of
           None \<Rightarrow> (rc, True, xBusy, s)
         | Some p \<Rightarrow>
             let mxPage = nPage (hdr (wal s));
                 (rc, out, mxSafe, xBusy, s) = safe_frames s xBusy rc (mxFrame (hdr (wal s))) [1 ..< WAL_NREADER]
             in if out then (rc, True, xBusy, s)
                else
                  let (rc, xBusy, s) =
                        (if nBackfill (ckptInfo (wi (wal s))) < mxSafe then
                           let (rc, xBusy, s) = walBusyLock s xBusy (WAL_READ_LOCK 0) 1
                           in if rc = SQLITE_OK
                              then let (rc, s) = backfill s p (hdr_page_size (hdr (wal s))) mxSafe mxPage sync_flags
                                   in (rc, xBusy, s)
                              else (rc, xBusy, s)
                         else (rc, xBusy, s))
                  in (if rc = SQLITE_BUSY then SQLITE_OK else rc, False, xBusy, s))"

definition walCheckpoint :: "wal_env \<Rightarrow> bool list \<Rightarrow> wal_sys \<Rightarrow> nat \<Rightarrow> bool list option \<Rightarrow> nat \<Rightarrow> nat \<times> wal_sys" where
  "walCheckpoint E mem s eMode xBusy sync_flags =
     (let (rc, out, xBusy, s) =
            (if nBackfill (ckptInfo (wi (wal s))) < mxFrame (hdr (wal s))
             then ckpt_copy E mem s xBusy sync_flags else (SQLITE_OK, False, xBusy, s))
      in if out \<or> rc \<noteq> SQLITE_OK \<or> eMode = SQLITE_CHECKPOINT_PASSIVE then (rc, s)
         else if nBackfill (ckptInfo (wi (wal s))) < mxFrame (hdr (wal s)) then (SQLITE_BUSY, s)
         else if eMode < SQLITE_CHECKPOINT_RESTART then (rc, s)
         else
           let (salt1, s) = wal_randomness 4 s;
               (rc, xBusy, s) = walBusyLock s xBusy (WAL_READ_LOCK 1) (WAL_NREADER - 1)
           in if rc = SQLITE_OK \<and> eMode = SQLITE_CHECKPOINT_TRUNCATE
              then os_truncate (s\<lparr>wal := walRestartHdr (wal s) salt1\<rparr>) 0
              else (rc, s))"

text \<open>
  \<open>handler\<close> is what the checkpoint handler of the application says first, 0 when there is none. The
  result has what is stored in \<open>*pnLog\<close> and \<open>*pnCkpt\<close>.
\<close>

definition sqlite3WalCheckpoint :: "wal_env \<Rightarrow> bool \<Rightarrow> bool list \<Rightarrow> nat \<Rightarrow> wal_sys \<Rightarrow> nat \<Rightarrow> bool list option \<Rightarrow> nat \<Rightarrow> nat
    \<Rightarrow> nat \<times> (u32 \<times> u32) option \<times> wal_sys" where
  "sqlite3WalCheckpoint E memR mem handler s eMode xBusy sync_flags nBuf =
     (if readOnly (wal s) \<noteq> 0 then (SQLITE_READONLY, None, s)
      else if handler \<noteq> 0 then (handler, None, s)
      else
        let (rc, s) = walLockExclusive s WAL_CKPT_LOCK 1
        in if rc \<noteq> SQLITE_OK then (rc, None, s)
           else
             let s = s\<lparr>wal := (wal s)\<lparr>ckptLock := True\<rparr>\<rparr>;
                 (rc, eMode2, xBusy2, s) =
                   (if eMode \<noteq> SQLITE_CHECKPOINT_PASSIVE then
                      let (rc, xBusy1, s) = walBusyLock s xBusy WAL_WRITE_LOCK 1
                      in if rc = SQLITE_OK then (rc, eMode, xBusy1, s\<lparr>wal := (wal s)\<lparr>writeLock := True\<rparr>\<rparr>)
                         else if rc = SQLITE_BUSY then (SQLITE_OK, SQLITE_CHECKPOINT_PASSIVE, None, s)
                         else (rc, eMode, xBusy1, s)
                    else (SQLITE_OK, eMode, xBusy, s));
                 (rc, isChanged, s) =
                   (if rc = SQLITE_OK then walIndexReadHdr E memR s False else (rc, False, s));
                 (rc, outs, s) =
                   (if rc \<noteq> SQLITE_OK then (rc, None, s)
                    else
                      let (rc, s) =
                            (if mxFrame (hdr (wal s)) \<noteq> 0 \<and> hdr_page_size (hdr (wal s)) \<noteq> nBuf
                             then (SQLITE_CORRUPT, s) else walCheckpoint E mem s eMode2 xBusy2 sync_flags)
                      in (rc, if rc = SQLITE_OK \<or> rc = SQLITE_BUSY
                              then Some (mxFrame (hdr (wal s)), nBackfill (ckptInfo (wi (wal s)))) else None, s));
                 s = (if isChanged then s\<lparr>wal := (wal s)\<lparr>hdr := zero_hdr\<rparr>\<rparr> else s);
                 (rc', s) = sqlite3WalEndWriteTransaction s;
                 s = s\<lparr>wal := (wal s)\<lparr>ckptLock := False\<rparr>\<rparr>
             in (if rc = SQLITE_OK \<and> eMode \<noteq> eMode2 then SQLITE_BUSY else rc, outs, s))"
section \<open>Pages of the database file\<close>

text \<open>The file is read as if it went on with zeros.\<close>

definition file_byte :: "u8 list \<Rightarrow> nat \<Rightarrow> u8" where
  "file_byte f i = (if i < length f then f ! i else 0)"

definition db_page :: "nat \<Rightarrow> u8 list \<Rightarrow> u32 \<Rightarrow> u8 list" where
  "db_page sz f p = map (\<lambda>i. file_byte f ((unat p - 1) * sz + i)) [0 ..< sz]"

lemma file_byte_write:
  "file_byte (file_write f ofst d) i = (if ofst \<le> i \<and> i < ofst + length d then d ! (i - ofst) else file_byte f i)"
proof (cases "d = []")
  case False
  let ?f = "f @ replicate (ofst - length f) 0"
  have len: "length (take ofst ?f) = ofst" by simp
  show ?thesis
  proof (cases "i < ofst")
    case True
    then show ?thesis using False by (auto simp: file_byte_def file_write_def nth_append)
  next
    case ge: False
    then show ?thesis using False len by (auto simp: file_byte_def file_write_def nth_append)
  qed
qed (auto simp: file_write_def)

lemma file_byte_truncate:
  "file_byte (take n (f @ replicate (n - length f) 0)) i = (if i < n then file_byte f i else 0)"
  by (auto simp: file_byte_def nth_append)

lemma db_page_write:
  assumes "length d = sz" and "q \<noteq> 0" and "p \<noteq> 0"
  shows "db_page sz (file_write f ((unat q - 1) * sz) d) p = (if p = q then d else db_page sz f p)"
proof (cases "p = q")
  case True
  have "db_page sz (file_write f ((unat q - 1) * sz) d) q = d"
    using assms(1) by (intro nth_equalityI) (simp_all add: db_page_def file_byte_write)
  then show ?thesis using True by simp
next
  case False
  have pq: "unat p \<noteq> unat q" "0 < unat p" "0 < unat q"
    using False assms by (auto simp: word_unat_eq_iff)
  have "file_byte (file_write f ((unat q - 1) * sz) d) ((unat p - 1) * sz + i) = file_byte f ((unat p - 1) * sz + i)"
    if i: "i < sz" for i
  proof -
    have "\<not> ((unat q - 1) * sz \<le> (unat p - 1) * sz + i \<and> (unat p - 1) * sz + i < (unat q - 1) * sz + sz)"
    proof (cases "unat p < unat q")
      case True
      then have "(unat p - 1 + 1) * sz \<le> (unat q - 1) * sz" using pq by (intro mult_le_mono1) linarith
      then show ?thesis using i by (simp add: add_mult_distrib)
    next
      case False
      then have "(unat q - 1 + 1) * sz \<le> (unat p - 1) * sz" using pq by (intro mult_le_mono1) linarith
      then show ?thesis using i by (simp add: add_mult_distrib)
    qed
    then show ?thesis unfolding file_byte_write assms(1) by (rule if_not_P)
  qed
  then show ?thesis using False by (simp add: db_page_def)
qed

lemma db_page_truncate:
  assumes "p \<noteq> 0" and "unat p \<le> n"
  shows "db_page sz (take (n * sz) (f @ replicate (n * sz - length f) 0)) p = db_page sz f p"
proof -
  have p: "0 < unat p" using assms(1) by (simp add: unat_gt_0)
  have "(unat p - 1) * sz + i < n * sz" if "i < sz" for i
  proof -
    have "(unat p - 1 + 1) * sz \<le> n * sz" using assms(2) p by (intro mult_le_mono1) linarith
    then show ?thesis using that by (simp add: add_mult_distrib)
  qed
  then show ?thesis unfolding db_page_def file_byte_truncate by simp
qed
section \<open>What is copied\<close>

text \<open>
  \<open>dat f\<close> is the content of frame \<open>f\<close>. A page is copied when its newest frame is one of those to be
  copied and the page is not behind the end of the database.
\<close>

definition copied :: "u32 list \<Rightarrow> (nat \<Rightarrow> u8 list) \<Rightarrow> nat \<Rightarrow> nat \<Rightarrow> nat \<Rightarrow> u32 \<Rightarrow> u32 \<Rightarrow> nat \<Rightarrow> u8 list \<Rightarrow> u8 list \<Rightarrow> bool" where
  "copied pgs dat mx nBack mxSafe mxPage m sz db db' \<longleftrightarrow>
     (\<forall>q r. q \<noteq> 0 \<and> newest (page_at pgs) q 1 mx r \<longrightarrow>
        db_page sz db' q =
          (if m < q \<and> q \<le> mxPage \<and> nBack < r \<and> r \<le> mxSafe then dat r else db_page sz db q))"

lemma copy_pages_ok:
  assumes "index_repr (wal s) pgs" and "1 \<le> mx" "mx \<le> length pgs"
    and "\<forall>f. 1 \<le> f \<and> f \<le> mx \<longrightarrow> page_at pgs f < 0xFFFFFFFF"
    and "iterator_ok pgs mx p" and "ios s = []"
    and "\<And>f. 1 \<le> f \<Longrightarrow> f \<le> mx \<Longrightarrow> take sz (drop (walFrameOffset f sz + 24) (logF s)) = dat f \<and>
          walFrameOffset f sz + 24 + sz \<le> length (logF s)"
  shows "\<exists>db. copy_pages sz nBack mxSafe mxPage s p fr = (SQLITE_OK, s\<lparr>dbF := db\<rparr>) \<and>
    copied pgs dat mx (unat nBack) (unat mxSafe) mxPage (iPrior p) sz (dbF s) db"
  using assms
proof (induction sz nBack mxSafe mxPage s p fr rule: copy_pages.induct)
  case (1 sz nBack mxSafe mxPage s p fr)
  obtain e pg fr' p' where step: "walIteratorNext (wal s) p fr = (e, pg, fr', p')" by (metis prod_cases4)
  note nx = walIteratorNext_page [OF 1(3,4,5,6,7) step]
  show ?case
  proof (cases e)
    case True
    then have "\<forall>f. 1 \<le> f \<and> f \<le> mx \<longrightarrow> page_at pgs f \<le> iPrior p"
      using nx(3,4) by (auto simp: next_page_def)
    then have none: "\<not> (newest (page_at pgs) q 1 mx r \<and> b < r \<and> iPrior p < q)" for q r b
      by (auto simp: newest_def not_less)
    have "copy_pages sz nBack mxSafe mxPage s p fr = (SQLITE_OK, s\<lparr>dbF := dbF s\<rparr>)"
      using step True by (subst copy_pages.simps) simp
    moreover have "copied pgs dat mx (unat nBack) (unat mxSafe) mxPage (iPrior p) sz (dbF s) (dbF s)"
      unfolding copied_def using none by (metis (no_types))
    ultimately show ?thesis by blast
  next
    case False
    then have pg: "pg \<noteq> 0xFFFFFFFF" using nx(3) by simp
    then have n: "iPrior p < pg" "1 \<le> unat fr'" "unat fr' \<le> mx" "page_at pgs (unat fr') = pg"
      "\<forall>f. 0 < f \<and> f \<le> mx \<and> iPrior p < page_at pgs f \<longrightarrow>
                pg \<le> page_at pgs f \<and> (page_at pgs f = pg \<longrightarrow> f \<le> unat fr')"
      using nx(4) by (auto simp: next_page_def)
    have pg0: "pg \<noteq> 0" using n(1) by auto
    have ok': "iterator_ok pgs mx p'"
      using iterator_ok_prior [OF nx(1)] nx(2) n(1) by simp
    have fr_new: "newest (page_at pgs) pg 1 mx r \<longleftrightarrow> r = unat fr'" for r
    proof
      assume r: "newest (page_at pgs) pg 1 mx r"
      have "r \<noteq> 0"
      proof
        assume "r = 0"
        then have "page_at pgs (unat fr') \<noteq> pg" using r n(2,3) by (simp add: newest_def)
        then show False using n(4) by simp
      qed
      then have "r \<le> mx" "page_at pgs r = pg" "\<forall>i. r < i \<and> i \<le> mx \<longrightarrow> page_at pgs i \<noteq> pg"
        using r by (simp_all add: newest_def)
      then have "r \<le> unat fr'" "\<not> r < unat fr'"
        using n \<open>r \<noteq> 0\<close> by blast+
      then show "r = unat fr'" by simp
    next
      assume "r = unat fr'"
      moreover have "page_at pgs i \<noteq> pg" if "unat fr' < i \<and> i \<le> mx" for i
        using n(1,5) that by (metis not_le order_le_less_trans zero_le)
      ultimately show "newest (page_at pgs) pg 1 mx r" using n(2-4) by (simp add: newest_def)
    qed
    have between: "r = 0" if "newest (page_at pgs) q 1 mx r" "iPrior p < q" "q < pg" for q r
    proof (rule ccontr)
      assume "r \<noteq> 0"
      then have "0 < r" "r \<le> mx" "page_at pgs r = q" using that(1) by (simp_all add: newest_def)
      then have "pg \<le> q" using n(5) that(2) by blast
      then show False using that(3) by simp
    qed
    have later: "copied pgs dat mx (unat nBack) (unat mxSafe) mxPage (iPrior p) sz db0 db"
      if c: "copied pgs dat mx (unat nBack) (unat mxSafe) mxPage pg sz db1 db"
        and d: "\<And>q. q \<noteq> 0 \<Longrightarrow> db_page sz db1 q = (if q = pg \<and> pg \<le> mxPage \<and> nBack < fr' \<and> fr' \<le> mxSafe
                  then dat (unat fr') else db_page sz db0 q)" for db0 db1 db
    proof (unfold copied_def, intro allI impI)
      fix q r assume q: "q \<noteq> 0 \<and> newest (page_at pgs) q 1 mx r"
      have e: "db_page sz db q = (if pg < q \<and> q \<le> mxPage \<and> unat nBack < r \<and> r \<le> unat mxSafe then dat r else db_page sz db1 q)"
        using c [unfolded copied_def, rule_format, OF q] .
      consider "q = pg" "r = unat fr'" | "iPrior p < q" "q < pg" "r = 0" | "pg < q" "iPrior p < q" | "q \<le> iPrior p" "q < pg"
      proof (cases q pg rule: linorder_cases)
        case less
        then show ?thesis
          using that(2) [OF _ less between [OF conjunct2 [OF q] _ less]] that(4) [OF _ less] by (meson not_less)
      next
        case equal
        then show ?thesis using that(1) fr_new [of r] q by blast
      next
        case greater
        then show ?thesis using that(3) n(1) by (meson order_less_trans)
      qed
      then show "db_page sz db q = (if iPrior p < q \<and> q \<le> mxPage \<and> unat nBack < r \<and> r \<le> unat mxSafe
          then dat r else db_page sz db0 q)"
      proof cases
        case 1
        then show ?thesis unfolding e using d [of q] q n(1) by (simp add: word_less_nat_alt word_le_nat_alt)
      next
        case 2
        then have "q \<noteq> pg" "\<not> pg < q" by auto
        then show ?thesis unfolding e using d [of q] q 2 by simp
      next
        case 3
        then have "q \<noteq> pg" by auto
        then show ?thesis unfolding e using d [of q] q 3 by simp
      next
        case 4
        then have "\<not> iPrior p < q" "\<not> pg < q" "q \<noteq> pg" by auto
        then show ?thesis unfolding e using d [of q] q by simp
      qed
    qed
    define skip where "skip \<longleftrightarrow> fr' \<le> nBack \<or> mxSafe < fr' \<or> mxPage < pg"
    show ?thesis
    proof (cases skip)
      case True
      then have eq: "copy_pages sz nBack mxSafe mxPage s p fr = copy_pages sz nBack mxSafe mxPage s p' fr'"
        using step False by (subst copy_pages.simps) (simp add: skip_def)
      have "\<exists>db. copy_pages sz nBack mxSafe mxPage s p' fr' = (SQLITE_OK, s\<lparr>dbF := db\<rparr>) \<and>
          copied pgs dat mx (unat nBack) (unat mxSafe) mxPage (iPrior p') sz (dbF s) db"
        by (rule 1(1) [OF step [symmetric] refl refl _ _ 1(3,4,5,6) ok' 1(8,9)])
          (use False True in \<open>auto simp: skip_def\<close>)
      then obtain db where db: "copy_pages sz nBack mxSafe mxPage s p' fr' = (SQLITE_OK, s\<lparr>dbF := db\<rparr>)"
        "copied pgs dat mx (unat nBack) (unat mxSafe) mxPage pg sz (dbF s) db"
        unfolding nx(2) by blast
      have "copied pgs dat mx (unat nBack) (unat mxSafe) mxPage (iPrior p) sz (dbF s) db"
        by (rule later [OF db(2)]) (use True in \<open>auto simp: skip_def\<close>)
      then show ?thesis using db(1) eq by auto
    next
      case ns: False
      have d: "take sz (drop (walFrameOffset (unat fr') sz + 24) (logF s)) = dat (unat fr')"
        "walFrameOffset (unat fr') sz + 24 + sz \<le> length (logF s)"
        using 1(9) [OF n(2,3)] by blast+
      have "length (take sz (drop (walFrameOffset (unat fr') sz + 24) (logF s))) = sz" using d(2) by simp
      then have ld: "length (dat (unat fr')) = sz" unfolding d(1) .
      have rd: "os_read s sz (walFrameOffset (unat fr') sz + WAL_FRAME_HDRSIZE) = (SQLITE_OK, dat (unat fr'), s)"
        using d 1(8) by (subst os_read_ok) (simp_all add: WAL_FRAME_HDRSIZE_def)
      have "unat (pg - 1) = unat pg - 1"
        using pg0 by (metis unat_minus_one)
      then have wr: "db_write s (dat (unat fr')) (unat (pg - 1) * sz) =
          (SQLITE_OK, s\<lparr>dbF := file_write (dbF s) ((unat pg - 1) * sz) (dat (unat fr'))\<rparr>)"
        using 1(8) by (simp add: db_write_def io_next_def)
      let ?s = "s\<lparr>dbF := file_write (dbF s) ((unat pg - 1) * sz) (dat (unat fr'))\<rparr>"
      have eq: "copy_pages sz nBack mxSafe mxPage s p fr = copy_pages sz nBack mxSafe mxPage ?s p' fr'"
        using step False ns rd wr by (subst copy_pages.simps) (simp add: skip_def)
      have "\<exists>db. copy_pages sz nBack mxSafe mxPage ?s p' fr' = (SQLITE_OK, ?s\<lparr>dbF := db\<rparr>) \<and>
          copied pgs dat mx (unat nBack) (unat mxSafe) mxPage (iPrior p') sz (dbF ?s) db"
        by (rule 1(2) [OF step [symmetric] refl refl _ _ refl rd [symmetric] refl _ refl wr [symmetric] _ _ 1(4,5,6) ok'])
          (use False ns 1(3,8,9) in \<open>auto simp: skip_def\<close>)
      then obtain db where db: "copy_pages sz nBack mxSafe mxPage ?s p' fr' = (SQLITE_OK, s\<lparr>dbF := db\<rparr>)"
        "copied pgs dat mx (unat nBack) (unat mxSafe) mxPage pg sz (dbF ?s) db"
        unfolding nx(2) by auto
      have "copied pgs dat mx (unat nBack) (unat mxSafe) mxPage (iPrior p) sz (dbF s) db"
      proof (rule later [OF db(2)])
        fix q :: u32 assume "q \<noteq> 0"
        from db_page_write [OF ld pg0 this, of "dbF s"] show "db_page sz (dbF ?s) q =
            (if q = pg \<and> pg \<le> mxPage \<and> nBack < fr' \<and> fr' \<le> mxSafe then dat (unat fr') else db_page sz (dbF s) q)"
          using ns by (simp add: skip_def not_less not_le)
      qed
      then show ?thesis using db(1) eq by auto
    qed
  qed
qed
section \<open>A whole checkpoint\<close>

lemma walIndexPage_mapped:
  assumes "walIndexPage E W i = (rc, q, W')" and "map_ok W" and "exclusiveMode W = WAL_HEAPMEMORY_MODE \<Longrightarrow> apWiData W i"
  shows "wi W' = wi W"
proof (cases "exclusiveMode W = WAL_HEAPMEMORY_MODE")
  case True
  then have "apWiData W i" "i < nWiData W" using assms(2,3) by (simp_all add: map_ok_def)
  then show ?thesis using assms(1) by (auto simp: walIndexPage_def Let_def split: if_splits)
next
  case False
  then show ?thesis using assms(1) by (auto simp: walIndexPage_def Let_def split: if_splits prod.splits)
qed

lemma init_segments_env:
  assumes "env_ok E" and "index_repr W pgs" and "\<forall>i\<in>set is. table_start i < length pgs"
    and "init_segments E W iLast n is = (rc, segs, W')"
  shows "rc = SQLITE_OK \<and> wi W' = wi W \<and> index_only W W'"
  using assms(2-)
proof (induction "is" arbitrary: W rc segs W')
  case (Cons i "is")
  obtain rc1 q W1 where page: "walIndexPage E W i = (rc1, q, W1)" by (metis prod_cases3)
  have rc1: "rc1 = SQLITE_OK" by (rule walIndexPage_ok [OF assms(1) page])
  have get: "walHashGet E W (int i) = (rc1, table_loc i, W1)" by (simp add: walHashGet_eq page)
  have start: "table_start i < length pgs" using Cons.prems(2) by simp
  have wi: "wi W1 = wi W"
    by (rule walIndexPage_mapped [OF page index_reprD(3) [OF Cons.prems(1)] index_reprD(5) [OF Cons.prems(1) start]])
  obtain rc2 segs2 W2 where rest: "init_segments E W1 iLast n is = (rc2, segs2, W2)" by (metis prod_cases3)
  have IH: "rc2 = SQLITE_OK \<and> wi W2 = wi W1 \<and> index_only W1 W2"
    by (rule Cons.IH [OF index_repr_map [OF Cons.prems(1) page] _ rest]) (use Cons.prems(2) in simp)
  have "rc = rc2 \<and> W' = W2"
    using Cons.prems(3) rc1 get rest by (auto simp: Let_def)
  then show ?case using IH wi index_only_page [OF page] index_only_trans by auto
qed simp

lemma walIteratorInit_env:
  assumes E: "env_ok E" and repr: "index_repr W pgs" and mx: "1 \<le> unat (mxFrame (hdr W))" "unat (mxFrame (hdr W)) \<le> length pgs"
    and init: "walIteratorInit E mem W = (rc, po, W')"
  shows "wi W' = wi W" "index_only W W'" "mem = [] \<Longrightarrow> rc = SQLITE_OK" "rc = SQLITE_OK \<or> rc = SQLITE_NOMEM \<and> po = None"
proof -
  let ?iLast = "mxFrame (hdr W)"
  have "unat ?iLast \<le> MAX_FRAMES" using mx index_reprD(1) [OF repr] by simp
  then have n: "nat (walFramePage ?iLast + 1) = table_of (unat ?iLast) + 1"
    using walFramePage_eq by (simp add: nat_add_distrib)
  obtain rc1 segs W1 where segs: "init_segments E W ?iLast (table_of (unat ?iLast) + 1)
      [0..<table_of (unat ?iLast) + 1] = (rc1, segs, W1)" by (metis prod_cases3)
  have "table_start i < length pgs" if "i \<le> table_of (unat ?iLast)" for i
    using table_start_mono [OF that] table_of_bounds(1) [OF mx(1)] mx(2) by simp
  then have "rc1 = SQLITE_OK \<and> wi W1 = wi W \<and> index_only W W1"
    by (intro init_segments_env [OF E repr _ segs]) auto
  moreover have "rc = rc1 \<and> W' = W1 \<or> rc = SQLITE_NOMEM \<and> po = None \<and> W' = W \<and> mem \<noteq> []"
    using init segs by (auto simp: walIteratorInit_def n alloc_def Let_def split: if_splits prod.splits)
  ultimately show "wi W' = wi W" "index_only W W'" "mem = [] \<Longrightarrow> rc = SQLITE_OK" "rc = SQLITE_OK \<or> rc = SQLITE_NOMEM \<and> po = None"
    by auto
qed

lemma safe_frames_free:
  assumes "locks s = []" and "xBusy = None"
  shows "\<exists>info. safe_frames s xBusy SQLITE_OK mx is =
    (SQLITE_OK, False, mx, None, set_info (\<lambda>c. c\<lparr>aReadMark := info\<rparr>) s)"
  using assms
proof (induction "is" arbitrary: s xBusy)
  case Nil
  have "set_info (\<lambda>c. c\<lparr>aReadMark := aReadMark (ckptInfo (wi (wal s)))\<rparr>) s = s" by (simp add: set_info_def)
  then show ?case using Nil by (metis safe_frames.simps(1))
next
  case (Cons i "is")
  let ?y = "aReadMark (ckptInfo (wi (wal s))) ! i" and ?m = "if i = 1 then mx else READMARK_NOT_USED"
  show ?case
  proof (cases "?y < mx")
    case True
    let ?s = "s\<lparr>wal := set_mark (wal s) i ?m\<rparr>"
    have "safe_frames s xBusy SQLITE_OK mx (i # is) = safe_frames ?s None SQLITE_OK mx is"
      using True Cons.prems lock_free [OF Cons.prems(1)] by simp
    moreover obtain info where "safe_frames ?s None SQLITE_OK mx is =
        (SQLITE_OK, False, mx, None, set_info (\<lambda>c. c\<lparr>aReadMark := info\<rparr>) ?s)"
      using Cons.IH [of ?s None] Cons.prems by auto
    moreover have "set_info (\<lambda>c. c\<lparr>aReadMark := info\<rparr>) ?s = set_info (\<lambda>c. c\<lparr>aReadMark := info\<rparr>) s" for info
      by (simp add: set_info_def set_mark_def)
    ultimately show ?thesis by auto
  next
    case False
    then show ?thesis using Cons.IH [OF Cons.prems] by simp
  qed
qed

lemma backfill_ok:
  assumes repr: "index_repr (wal s) pgs" and mx: "1 \<le> mx" "mx \<le> length pgs"
    and valid: "\<forall>f. 1 \<le> f \<and> f \<le> mx \<longrightarrow> page_at pgs f < 0xFFFFFFFF"
    and iter: "iterator_ok pgs mx p" "iPrior p = 0" and io: "ios s = []"
    and log: "\<And>f. 1 \<le> f \<Longrightarrow> f \<le> mx \<Longrightarrow> take sz (drop (walFrameOffset f sz + 24) (logF s)) = dat f \<and>
          walFrameOffset f sz + 24 + sz \<le> length (logF s)"
    and all: "mxSafe = mxFrame (hdr0 (wi (wal s)))" "unat mxSafe = mx"
  shows "\<exists>db. backfill s p sz mxSafe (nPage (hdr (wal s))) sync_flags =
      (SQLITE_OK, set_info (\<lambda>c. c\<lparr>nBackfill := mxSafe, nBackfillAttempted := mxSafe\<rparr>) (s\<lparr>dbF := db\<rparr>)) \<and>
    length db = unat (nPage (hdr (wal s))) * sz \<and>
    (\<forall>q r. q \<noteq> 0 \<and> q \<le> nPage (hdr (wal s)) \<and> newest (page_at pgs) q 1 mx r \<longrightarrow>
       db_page sz db q = (if unat (nBackfill (ckptInfo (wi (wal s)))) < r then dat r else db_page sz (dbF s) q))"
proof -
  let ?nB = "nBackfill (ckptInfo (wi (wal s)))" and ?n = "unat (nPage (hdr (wal s)))"
  let ?s1 = "set_info (nBackfillAttempted_update (\<lambda>_. mxSafe)) s"
  have s1: "ios ?s1 = []" "dbF ?s1 = dbF s" "logF ?s1 = logF s" "hdr (wal ?s1) = hdr (wal s)"
    "hdr0 (wi (wal ?s1)) = hdr0 (wi (wal s))"
    using io by (simp_all add: set_info_def)
  have repr1: "index_repr (wal ?s1) pgs" by (rule index_repr_same [OF repr]) (simp_all add: set_info_def)
  obtain db where db: "copy_pages sz ?nB mxSafe (nPage (hdr (wal s))) ?s1 p 0 = (SQLITE_OK, ?s1\<lparr>dbF := db\<rparr>)"
    "copied pgs dat mx (unat ?nB) (unat mxSafe) (nPage (hdr (wal s))) 0 sz (dbF s) db"
    using copy_pages_ok [OF repr1 mx valid iter(1) s1(1), of sz dat ?nB mxSafe "nPage (hdr (wal s))" 0] log s1 iter(2)
    by auto
  let ?db = "take (?n * sz) (db @ replicate (?n * sz - length db) 0)"
  have tr: "db_truncate (?s1\<lparr>dbF := db\<rparr>) (?n * sz) = (SQLITE_OK, ?s1\<lparr>dbF := ?db\<rparr>)"
    using s1 by (simp add: db_truncate_def io_next_def)
  have sy: "os_sync t = (SQLITE_OK, t)" "db_size t = (SQLITE_OK, length (dbF t), t)" if "ios t = []" for t
    using that by (simp_all add: os_sync_def db_size_def io_next_def)
  have "backfill s p sz mxSafe (nPage (hdr (wal s))) sync_flags =
      (SQLITE_OK, set_info (nBackfill_update (\<lambda>_. mxSafe)) (?s1\<lparr>dbF := ?db\<rparr>))"
    using sy [of ?s1] sy [of "?s1\<lparr>dbF := ?db\<rparr>"] s1 db(1) tr all(1)
    by (cases "sync_flags = 0") (simp_all add: backfill_def)
  moreover have "set_info (nBackfill_update (\<lambda>_. mxSafe)) (?s1\<lparr>dbF := ?db\<rparr>) =
      set_info (\<lambda>c. c\<lparr>nBackfill := mxSafe, nBackfillAttempted := mxSafe\<rparr>) (s\<lparr>dbF := ?db\<rparr>)"
    by (simp add: set_info_def)
  moreover have "db_page sz ?db q = (if unat ?nB < r then dat r else db_page sz (dbF s) q)"
    if q: "q \<noteq> 0" "q \<le> nPage (hdr (wal s))" "newest (page_at pgs) q 1 mx r" for q r
  proof -
    have "unat q \<le> ?n" using q(2) by (simp add: word_le_nat_alt)
    then have "db_page sz ?db q = db_page sz db q" by (rule db_page_truncate [OF q(1)])
    moreover have "0 < q" using q(1) by (simp add: word_neq_0_conv)
    moreover have "r \<le> unat mxSafe" using q(3) all(2) by (auto simp: newest_def split: if_splits)
    ultimately show ?thesis using db(2) [unfolded copied_def, rule_format, of q r] q by simp
  qed
  ultimately show ?thesis by (intro exI [of _ ?db]) simp
qed
lemma newest_exists: "\<exists>r. newest pg q 1 mx r"
proof (induction mx)
  case 0
  have "newest pg q 1 0 0" by (simp add: newest_def)
  then show ?case by blast
next
  case (Suc mx)
  then obtain r where r: "newest pg q 1 mx r" by blast
  show ?case
  proof (cases "pg (Suc mx) = q")
    case True
    then have "newest pg q 1 (Suc mx) (Suc mx)" by (auto simp: newest_def)
    then show ?thesis by blast
  next
    case False
    then have "newest pg q 1 (Suc mx) r" using r by (auto simp: newest_def le_Suc_eq split: if_splits)
    then show ?thesis by blast
  qed
qed

lemma content_after:
  assumes "newest (page_at (map fst fs)) q 1 (length fs) r"
  shows "content_of (drop b fs) q = (if b < r then Some (snd (snd (fs ! (r - 1)))) else None)"
proof -
  let ?gs = "drop b fs" and ?r = "if b < r then r - b else 0"
  have at: "page_at (map fst ?gs) i = page_at (map fst fs) (b + i)" if "1 \<le> i" "i \<le> length ?gs" for i
    using that by (cases i) (simp_all add: page_at_def)
  have "newest (page_at (map fst ?gs)) q 1 (length ?gs) ?r"
  proof (cases "b < r")
    case True
    then have r: "r \<le> length fs" "page_at (map fst fs) r = q"
      "\<forall>i. r < i \<and> i \<le> length fs \<longrightarrow> page_at (map fst fs) i \<noteq> q"
      using assms by (simp_all add: newest_def)
    have "page_at (map fst ?gs) (r - b) = q" using at [of "r - b"] r True by simp
    moreover have "page_at (map fst ?gs) i \<noteq> q" if i: "r - b < i \<and> i \<le> length ?gs" for i
    proof -
      have "r < b + i \<and> b + i \<le> length fs" using i True by auto
      then have "page_at (map fst fs) (b + i) \<noteq> q" using r(3) by blast
      then show ?thesis using at [of i] i by simp
    qed
    moreover have "1 \<le> r - b" "r - b \<le> length ?gs" using True r(1) by auto
    ultimately show ?thesis using True by (simp add: newest_def)
  next
    case False
    have "page_at (map fst ?gs) i \<noteq> q" if i: "1 \<le> i \<and> i \<le> length ?gs" for i
    proof -
      have bi: "1 \<le> b + i \<and> b + i \<le> length fs \<and> r < b + i" using i False by auto
      have "page_at (map fst fs) (b + i) \<noteq> q"
      proof (cases "r = 0")
        case True
        then have "\<forall>i. 1 \<le> i \<and> i \<le> length fs \<longrightarrow> page_at (map fst fs) i \<noteq> q" using assms by (simp add: newest_def)
        then show ?thesis using bi by blast
      next
        case False
        then have "\<forall>i. r < i \<and> i \<le> length fs \<longrightarrow> page_at (map fst fs) i \<noteq> q" using assms by (simp add: newest_def)
        then show ?thesis using bi by blast
      qed
      then show ?thesis using at [of i] i by simp
    qed
    then show ?thesis using False by (simp add: newest_def)
  qed
  from content_of_newest [OF this order_refl] assms show ?thesis
    by (auto simp: newest_def)
qed

text \<open>
  C17: A checkpoint brings the database up to date and changes nothing that is read. With no other
  connection in the way and no failing operation, a checkpoint of a log of which the first \<open>b\<close> frames
  were copied back before succeeds and marks all frames as copied; the database file then has
  exactly as many pages as the last commit says, and each of them has the content that a reader
  found before: that of its newest frame after the first \<open>b\<close>, or else what the file had. The log
  itself is unchanged.
\<close>

theorem checkpoint_copies:
  assumes "env_ok E" and holds: "log_holds n salt fs s" and "hdr0 (wi (wal s)) = hdr (wal s)"
    and "hszPage (hdr (wal s)) = page_size_field (szPage (wal s))" and valid: "\<forall>f\<in>set fs. fst f < 0xFFFFFFFF"
    and io: "ios s = []" "locks s = []" and b: "b = unat (nBackfill (ckptInfo (wi (wal s))))" "b < length fs"
  shows "\<exists>s'. walCheckpoint E [] s SQLITE_CHECKPOINT_PASSIVE None sync_flags = (SQLITE_OK, s') \<and>
    nBackfill (ckptInfo (wi (wal s'))) = mxFrame (hdr (wal s)) \<and> hdr (wal s') = hdr (wal s) \<and> logF s' = logF s \<and>
    length (dbF s') = unat (nPage (hdr (wal s))) * unat (szPage (wal s)) \<and>
    (\<forall>p. p \<noteq> 0 \<and> p \<le> nPage (hdr (wal s)) \<longrightarrow> db_page (unat (szPage (wal s))) (dbF s') p =
       (case content_of (drop b fs) p of Some d \<Rightarrow> d | None \<Rightarrow> db_page (unat (szPage (wal s))) (dbF s) p))"
proof -
  let ?sz = "unat (szPage (wal s))" and ?mx = "length fs" and ?n = "nPage (hdr (wal s))" and ?mf = "mxFrame (hdr (wal s))"
  obtain tail rest where repr: "index_repr (wal s) (map fst fs @ tail)" and log: "logF s = log_bytes n salt (wal s) fs @ rest"
    using holds unfolding log_holds_def by blast
  have h: "page_size_ok (szPage (wal s))" "length salt = 8" "\<forall>f\<in>set fs. frame_ok ?sz f"
    "?mx < MAX_FRAMES" "?mf = of_nat ?mx"
    using holds unfolding log_holds_def by blast+
  let ?pgs = "map fst fs @ tail"
  have mx: "unat ?mf = ?mx" using h(4,5) unat_frame by simp
  then have mx1: "1 \<le> unat ?mf" "unat ?mf \<le> length ?pgs" using b(2) by simp_all
  obtain rc po W where init: "walIteratorInit E [] (wal s) = (rc, po, W)" by (metis prod_cases3)
  have W: "rc = SQLITE_OK" "wi W = wi (wal s)" "index_only (wal s) W"
    using walIteratorInit_env [OF assms(1) repr mx1 init] by blast+
  have reprW: "index_repr W ?pgs" and hdrW: "hdr W = hdr (wal s)" using walIteratorInit_ok(1,2) [OF repr mx1 init] .
  obtain p where p: "po = Some p" "iPrior p = 0" "iterator_ok ?pgs (unat ?mf) p"
    using walIteratorInit_ok(3) [OF repr mx1 init W(1)] by blast
  let ?s1 = "s\<lparr>wal := W\<rparr>"
  obtain info where sf: "safe_frames ?s1 None SQLITE_OK ?mf [1 ..< WAL_NREADER] =
      (SQLITE_OK, False, ?mf, None, set_info (\<lambda>c. c\<lparr>aReadMark := info\<rparr>) ?s1)"
    using safe_frames_free [of ?s1 None ?mf "[1 ..< WAL_NREADER]"] io by auto
  define s2 where "s2 = set_info (\<lambda>c. c\<lparr>aReadMark := info\<rparr>) ?s1"
  have s2: "hdr (wal s2) = hdr (wal s)" "ios s2 = []" "locks s2 = []" "logF s2 = logF s" "dbF s2 = dbF s"
    "hdr0 (wi (wal s2)) = hdr (wal s)" "nBackfill (ckptInfo (wi (wal s2))) = nBackfill (ckptInfo (wi (wal s)))"
    using W hdrW io assms(3) by (simp_all add: s2_def set_info_def)
  have repr2: "index_repr (wal s2) ?pgs" by (rule index_repr_same [OF reprW]) (simp_all add: s2_def set_info_def)
  have at: "page_at ?pgs f = page_at (map fst fs) f" if "f \<le> ?mx" for f
  proof -
    have "f - 1 < ?mx" using that b(2) by auto
    then show ?thesis by (simp add: page_at_def nth_append)
  qed
  have small: "\<forall>f. 1 \<le> f \<and> f \<le> unat ?mf \<longrightarrow> page_at ?pgs f < 0xFFFFFFFF"
  proof (intro allI impI)
    fix f assume f: "1 \<le> f \<and> f \<le> unat ?mf"
    then have "f - 1 < ?mx" "f \<le> ?mx" using mx by auto
    then show "page_at ?pgs f < 0xFFFFFFFF" using at [of f] valid by (simp add: page_at_def)
  qed
  let ?dat = "\<lambda>f. snd (snd (fs ! (f - 1)))"
  have dat: "take ?sz (drop (walFrameOffset f ?sz + 24) (logF s2)) = ?dat f \<and>
      walFrameOffset f ?sz + 24 + ?sz \<le> length (logF s2)" if "1 \<le> f" "f \<le> unat ?mf" for f
    using log_bytes_page [OF h(2,3), of "f - 1" n rest] that mx s2(4) log by simp
  have size: "hdr_page_size (hdr (wal s2)) = ?sz" using hdr_page_size_field [OF h(1) assms(4)] s2(1) by simp
  have all: "?mf = mxFrame (hdr0 (wi (wal s2)))" using s2(6) by simp
  obtain db where db: "backfill s2 p ?sz ?mf ?n sync_flags =
      (SQLITE_OK, set_info (\<lambda>c. c\<lparr>nBackfill := ?mf, nBackfillAttempted := ?mf\<rparr>) (s2\<lparr>dbF := db\<rparr>))"
    "length db = unat ?n * ?sz"
    "\<forall>q r. q \<noteq> 0 \<and> q \<le> ?n \<and> newest (page_at ?pgs) q 1 (unat ?mf) r \<longrightarrow>
       db_page ?sz db q = (if b < r then ?dat r else db_page ?sz (dbF s) q)"
    using backfill_ok [OF repr2 mx1 small p(3,2) s2(2) dat all refl, of sync_flags]
    unfolding s2(1,5,7) b(1) [symmetric] by blast
  let ?s' = "set_info (\<lambda>c. c\<lparr>nBackfill := ?mf, nBackfillAttempted := ?mf\<rparr>) (s2\<lparr>dbF := db\<rparr>)"
  have bk: "nBackfill (ckptInfo (wi (wal s))) < ?mf"
    using b mx by (simp add: word_less_nat_alt)
  have "walCheckpoint E [] s SQLITE_CHECKPOINT_PASSIVE None sync_flags = (SQLITE_OK, ?s')"
    using bk init W(1) p(1) sf [folded s2_def] s2 size db(1) lock_free [OF s2(3)] hdrW
    by (simp add: walCheckpoint_def ckpt_copy_def)
  moreover have "db_page ?sz db q = (case content_of (drop b fs) q of Some d \<Rightarrow> d | None \<Rightarrow> db_page ?sz (dbF s) q)"
    if q: "q \<noteq> 0" "q \<le> ?n" for q
  proof -
    obtain r where r: "newest (page_at (map fst fs)) q 1 ?mx r" using newest_exists by blast
    have "newest (page_at ?pgs) q 1 ?mx r = newest (page_at (map fst fs)) q 1 ?mx r"
      by (rule newest_cong) (rule at)
    then have "newest (page_at ?pgs) q 1 ?mx r" using r by blast
    then have "db_page ?sz db q = (if b < r then ?dat r else db_page ?sz (dbF s) q)"
      using db(3) q mx by simp
    then show ?thesis using content_after [OF r, of b] by simp
  qed
  moreover have "nBackfill (ckptInfo (wi (wal ?s'))) = ?mf" "hdr (wal ?s') = hdr (wal s)" "logF ?s' = logF s" "dbF ?s' = db"
    using s2 by (simp_all add: set_info_def)
  ultimately show ?thesis using db(2) by (intro exI [of _ ?s']) simp
qed
section \<open>Failures of a checkpoint\<close>

lemma copy_pages_keeps:
  "copy_pages sz nBack mxSafe mxPage s p fr = (rc, s') \<Longrightarrow> wal s' = wal s \<and> logF s' = logF s"
proof (induction sz nBack mxSafe mxPage s p fr rule: copy_pages.induct)
  case (1 sz nBack mxSafe mxPage s p fr)
  obtain e pg fr' p' where step: "walIteratorNext (wal s) p fr = (e, pg, fr', p')" by (metis prod_cases4)
  obtain rc1 d s1 where rd: "os_read s sz (walFrameOffset (unat fr') sz + WAL_FRAME_HDRSIZE) = (rc1, d, s1)"
    by (metis prod_cases3)
  obtain rc2 s2 where wr: "db_write s1 d (unat (pg - 1) * sz) = (rc2, s2)" by fastforce
  have s1: "wal s1 = wal s \<and> logF s1 = logF s"
    using rd by (auto simp: os_read_def dest: io_next_logF split: prod.splits)
  have s2: "wal s2 = wal s1 \<and> logF s2 = logF s1"
    using wr by (auto simp: db_write_def dest: io_next_logF split: prod.splits)
  define skip where "skip \<longleftrightarrow> fr' \<le> nBack \<or> mxSafe < fr' \<or> mxPage < pg"
  have eq: "copy_pages sz nBack mxSafe mxPage s p fr =
    (if e then (SQLITE_OK, s) else if skip then copy_pages sz nBack mxSafe mxPage s p' fr'
     else if rc1 \<noteq> SQLITE_OK then (rc1, s1) else if rc2 \<noteq> SQLITE_OK then (rc2, s2)
     else copy_pages sz nBack mxSafe mxPage s2 p' fr')"
    using step rd wr by (subst copy_pages.simps) (simp add: skip_def)
  consider "e" | "\<not> e" "skip" | "\<not> e" "\<not> skip" "rc1 \<noteq> SQLITE_OK" | "\<not> e" "\<not> skip" "rc1 = SQLITE_OK" "rc2 \<noteq> SQLITE_OK"
    | "\<not> e" "\<not> skip" "rc1 = SQLITE_OK" "rc2 = SQLITE_OK" by blast
  then show ?case
  proof cases
    case 2
    show ?thesis
      by (rule 1(1) [OF step [symmetric] refl refl]) (use 2 1(3) eq in \<open>simp_all add: skip_def\<close>)
  next
    case 5
    have "wal s' = wal s2 \<and> logF s' = logF s2"
      by (rule 1(2) [OF step [symmetric] refl refl _ _ refl rd [symmetric] refl _ refl wr [symmetric]])
        (use 5 1(3) eq in \<open>simp_all add: skip_def\<close>)
    then show ?thesis using s1 s2 by simp
  qed (use 1(3) eq s1 s2 in auto)
qed

definition untouched :: "wal_sys \<Rightarrow> wal_sys \<Rightarrow> bool" where
  "untouched s s' \<longleftrightarrow> logF s' = logF s \<and> nBackfill (ckptInfo (wi (wal s'))) = nBackfill (ckptInfo (wi (wal s)))"

lemma untouched_refl [simp]: "untouched s s"
  by (simp add: untouched_def)

lemma untouched_trans: "untouched s t \<Longrightarrow> untouched t u \<Longrightarrow> untouched s u"
  by (simp add: untouched_def)

lemma untouched_io:
  "os_sync s = (rc, s') \<Longrightarrow> untouched s s'" "db_size s = (rc, n, s') \<Longrightarrow> untouched s s'"
  "db_truncate s m = (rc, s') \<Longrightarrow> untouched s s'"
  by (auto simp: os_sync_def db_size_def db_truncate_def untouched_def dest!: io_next_logF split: prod.splits if_splits)

lemma backfill_failure:
  assumes "backfill s p sz mxSafe mxPage sync_flags = (rc, s')"
  shows "logF s' = logF s \<and> (rc \<noteq> SQLITE_OK \<longrightarrow> untouched s s')"
proof -
  let ?nB = "nBackfill (ckptInfo (wi (wal s)))"
  let ?s1 = "set_info (nBackfillAttempted_update (\<lambda>_. mxSafe)) s"
  obtain rc2 s2 where y: "(if sync_flags \<noteq> 0 then os_sync ?s1 else (SQLITE_OK, ?s1)) = (rc2, s2)" by fastforce
  obtain rc3 s3 where z: "(if rc2 = SQLITE_OK then let (rc, nSize, s) = db_size s2 in (rc, s) else (rc2, s2)) = (rc3, s3)" by fastforce
  obtain rc4 s4 where c: "(if rc3 = SQLITE_OK then copy_pages sz ?nB mxSafe mxPage s3 p 0 else (rc3, s3)) = (rc4, s4)" by fastforce
  obtain rc5 s5 where t: "(if mxSafe = mxFrame (hdr0 (wi (wal s4))) then
        let (rc, s) = db_truncate s4 (unat (nPage (hdr (wal s4))) * sz)
        in if rc = SQLITE_OK \<and> sync_flags \<noteq> 0 then os_sync s else (rc, s)
      else (SQLITE_OK, s4)) = (rc5, s5)" by fastforce
  have eq: "backfill s p sz mxSafe mxPage sync_flags =
    (if rc4 \<noteq> SQLITE_OK then (rc4, s4)
     else (rc5, if rc5 = SQLITE_OK then set_info (nBackfill_update (\<lambda>_. mxSafe)) s5 else s5))"
    by (simp only: backfill_def Let_def y z [unfolded Let_def] c t [unfolded Let_def] prod.case)
  have 1: "untouched s ?s1" by (simp add: untouched_def set_info_def)
  have 2: "untouched ?s1 s2" using y untouched_io(1) by (auto split: if_splits)
  have 3: "untouched s2 s3" using z untouched_io(2) by (auto split: if_splits prod.splits)
  have 4: "untouched s3 s4" using c copy_pages_keeps by (auto simp: untouched_def split: if_splits)
  have 5: "untouched s4 s5"
    using t untouched_io(1,3) by (auto simp: Let_def split: if_splits prod.splits) (blast intro: untouched_trans)
  have 45: "untouched s s4" "untouched s s5" using 1 2 3 4 5 untouched_trans by blast+
  then show ?thesis
    using assms unfolding eq by (auto simp: untouched_def set_info_def split: if_splits)
qed
text \<open>
  C18: A checkpoint that fails loses nothing. With nobody else on the log, whichever of its
  operations fails (an allocation, a sync, reading the log, a write that stops in the middle of a
  page of the database, the truncation), the log and the count of copied frames are as before, so
  that every reader still takes the pages from the log and a later checkpoint copies them again;
  and in no case does a passive checkpoint change the log.
\<close>

theorem checkpoint_failure:
  assumes "env_ok E" and holds: "log_holds n salt fs s" and "locks s = []"
    and ck: "walCheckpoint E mem s SQLITE_CHECKPOINT_PASSIVE None sync_flags = (rc, s')"
  shows "logF s' = logF s \<and>
    (rc \<noteq> SQLITE_OK \<longrightarrow> nBackfill (ckptInfo (wi (wal s'))) = nBackfill (ckptInfo (wi (wal s))))"
proof (cases "nBackfill (ckptInfo (wi (wal s))) < mxFrame (hdr (wal s))")
  case False
  then show ?thesis using ck by (simp add: walCheckpoint_def)
next
  case True
  let ?mf = "mxFrame (hdr (wal s))"
  obtain tail where repr: "index_repr (wal s) (map fst fs @ tail)" using holds unfolding log_holds_def by blast
  have "?mf = of_nat (length fs)" "length fs < MAX_FRAMES" using holds unfolding log_holds_def by blast+
  then have mx: "1 \<le> unat ?mf" "unat ?mf \<le> length (map fst fs @ tail)"
    using True unat_frame [of "length fs"] by (simp_all add: word_less_nat_alt)
  obtain rc1 po W where init: "walIteratorInit E mem (wal s) = (rc1, po, W)" by (metis prod_cases3)
  note env = walIteratorInit_env [OF assms(1) repr mx init]
  let ?s1 = "s\<lparr>wal := W\<rparr>"
  have s1: "untouched s ?s1" using env(1) by (simp add: untouched_def)
  show ?thesis
  proof (cases po)
    case None
    then have "s' = ?s1" using ck True init by (simp add: walCheckpoint_def ckpt_copy_def)
    then show ?thesis using s1 by (simp add: untouched_def)
  next
    case (Some p)
    then have rc1: "rc1 = SQLITE_OK" using env(4) by auto
    obtain info where sf: "safe_frames ?s1 None SQLITE_OK (mxFrame (hdr W)) [1 ..< WAL_NREADER] =
        (SQLITE_OK, False, mxFrame (hdr W), None, set_info (\<lambda>c. c\<lparr>aReadMark := info\<rparr>) ?s1)"
      using safe_frames_free [of ?s1 None "mxFrame (hdr W)" "[1 ..< WAL_NREADER]"] assms(3) by auto
    define s2 where "s2 = set_info (\<lambda>c. c\<lparr>aReadMark := info\<rparr>) ?s1"
    have s2: "untouched s s2" "locks s2 = []" using s1 assms(3) by (simp_all add: untouched_def s2_def set_info_def)
    have hdr2: "hdr (wal s2) = hdr (wal s)" "nBackfill (ckptInfo (wi (wal s2))) = nBackfill (ckptInfo (wi (wal s)))"
      using index_only_fields(1) [OF env(2)] s2(1) by (simp_all add: s2_def set_info_def untouched_def)
    have hW: "hdr W = hdr (wal s)" using index_only_fields(1) [OF env(2)] .
    obtain rc3 s3 where bf: "backfill s2 p (hdr_page_size (hdr (wal s))) ?mf (nPage (hdr (wal s))) sync_flags = (rc3, s3)"
      by fastforce
    have "walCheckpoint E mem s SQLITE_CHECKPOINT_PASSIVE None sync_flags =
        (if rc3 = SQLITE_BUSY then SQLITE_OK else rc3, s3)"
      using True init Some rc1 sf [folded s2_def] hdr2 hW bf lock_free [OF s2(2)]
      by (simp add: walCheckpoint_def ckpt_copy_def)
    then have "s' = s3" "rc \<noteq> SQLITE_OK \<longrightarrow> rc3 \<noteq> SQLITE_OK" using ck by auto
    then show ?thesis using backfill_failure [OF bf] s2(1) by (auto simp: untouched_def)
  qed
qed

section \<open>Samples of checkpoints\<close>

lemma log_holds_sys:
  "log_holds n salt fs (set_info f s) = log_holds n salt fs s"
  "log_holds n salt fs (s\<lparr>locks := l\<rparr>) = log_holds n salt fs s"
  "log_holds n salt fs (s\<lparr>ios := x\<rparr>) = log_holds n salt fs s"
  "log_holds n salt fs (s\<lparr>dbF := d\<rparr>) = log_holds n salt fs s"
proof -
  have "index_repr (wal (set_info f s)) pgs = index_repr (wal s) pgs" for pgs
    by (simp add: index_repr_def map_ok_def set_info_def)
  then show "log_holds n salt fs (set_info f s) = log_holds n salt fs s"
    by (simp add: log_holds_def set_info_def log_bytes_def log_start_def)
qed (simp_all add: log_holds_def)

lemma sample_to_copy:
  obtains n salt s where "log_holds n salt [(1, 1, replicate 512 5)] s" "hdr0 (wi (wal s)) = hdr (wal s)"
    "hszPage (hdr (wal s)) = page_size_field (szPage (wal s))" "szPage (wal s) = 512" "nPage (hdr (wal s)) = 1"
    "ios s = []" "locks s = []" "nBackfill (ckptInfo (wi (wal s))) = 0" "dbF s = []" "mxFrame (hdr (wal s)) = 1"
proof -
  obtain n salt s0 where s0: "log_holds n salt [(1, 1, replicate 512 5)] s0" "ready_to_write s0" "szPage (wal s0) = 512"
    "hszPage (hdr (wal s0)) = page_size_field 512" "nPage (hdr (wal s0)) = 1"
    by (rule sample_written)
  let ?s = "(set_info (nBackfill_update (\<lambda>_. 0)) s0)\<lparr>locks := [], dbF := []\<rparr>"
  have h: "log_holds n salt [(1, 1, replicate 512 5)] ?s" using s0(1) by (simp only: log_holds_sys)
  have "mxFrame (hdr (wal s0)) = of_nat (length [(1 :: u32, 1 :: u32, replicate 512 (5 :: u8))])"
    using s0(1) unfolding log_holds_def by blast
  then show thesis using that [OF h] s0(2-5) by (simp add: set_info_def ready_to_write_def)
qed

theorem checkpoint_copies_witness:
  "\<exists>n salt s s'. log_holds n salt [(1, 1, replicate 512 5)] s \<and> dbF s = [] \<and>
    walCheckpoint good_env [] s SQLITE_CHECKPOINT_PASSIVE None 2 = (SQLITE_OK, s') \<and>
    length (dbF s') = 512 \<and> db_page 512 (dbF s') 1 = replicate 512 5"
proof -
  obtain n salt s where s: "log_holds n salt [(1, 1, replicate 512 5)] s" "hdr0 (wi (wal s)) = hdr (wal s)"
    "hszPage (hdr (wal s)) = page_size_field (szPage (wal s))" "szPage (wal s) = 512" "nPage (hdr (wal s)) = 1"
    "ios s = []" "locks s = []" "nBackfill (ckptInfo (wi (wal s))) = 0" "dbF s = []"
    by (rule sample_to_copy)
  have env: "env_ok good_env" by (simp add: env_ok_def good_env_def)
  have valid: "\<forall>f\<in>set [(1 :: u32, 1 :: u32, replicate 512 (5 :: u8))]. fst f < 0xFFFFFFFF" by simp
  have b: "0 = unat (nBackfill (ckptInfo (wi (wal s))))" "0 < length [(1 :: u32, 1 :: u32, replicate 512 (5 :: u8))]"
    using s(8) by simp_all
  obtain s' where s': "walCheckpoint good_env [] s SQLITE_CHECKPOINT_PASSIVE None 2 = (SQLITE_OK, s')"
    "length (dbF s') = unat (nPage (hdr (wal s))) * unat (szPage (wal s))"
    "\<forall>p. p \<noteq> 0 \<and> p \<le> nPage (hdr (wal s)) \<longrightarrow> db_page (unat (szPage (wal s))) (dbF s') p =
       (case content_of (drop 0 [(1, 1, replicate 512 5)]) p of Some d \<Rightarrow> d | None \<Rightarrow> db_page (unat (szPage (wal s))) (dbF s) p)"
    using checkpoint_copies [OF env s(1,2,3) valid s(6,7) b, of 2] by blast
  have "db_page 512 (dbF s') 1 = replicate 512 5"
    using s'(3) [rule_format, of 1] s(4,5) by (simp add: content_of_def)
  then show ?thesis using s' s(1,4,5,9) by (intro exI [of _ n] exI [of _ salt] exI [of _ s] exI [of _ s']) simp
qed

theorem checkpoint_failure_witness:
  "\<exists>n salt s rc s'. log_holds n salt [(1, 1, replicate 512 5)] s \<and> ios s = [(SQLITE_IOERR, 0)] \<and>
    walCheckpoint good_env [] s SQLITE_CHECKPOINT_PASSIVE None 2 = (rc, s') \<and> logF s' = logF s"
proof -
  obtain n salt s0 where s0: "log_holds n salt [(1, 1, replicate 512 5)] s0" "locks s0 = []"
    by (rule sample_to_copy)
  let ?s = "s0\<lparr>ios := [(SQLITE_IOERR, 0)]\<rparr>"
  have env: "env_ok good_env" by (simp add: env_ok_def good_env_def)
  have s: "log_holds n salt [(1, 1, replicate 512 5)] ?s" "locks ?s = []" using s0 by (simp_all add: log_holds_sys)
  obtain rc s' where ck: "walCheckpoint good_env [] ?s SQLITE_CHECKPOINT_PASSIVE None 2 = (rc, s')" by fastforce
  show ?thesis
    using checkpoint_failure [OF env s ck] s ck
    by (intro exI [of _ n] exI [of _ salt] exI [of _ ?s] exI [of _ rc] exI [of _ s']) simp
qed
section \<open>Closing, and small operations\<close>

text \<open>
  \<open>walIndexClose\<close> and \<open>sqlite3WalClose\<close>. What the operating system says to the request for the
  exclusive lock of the database, to the question whether the log is to persist, and to the deletion
  (whose result is ignored) are arguments; the first result says whether the log is deleted. The
  handle is freed, so what remains is the state of the files and of the shared memory.
\<close>

definition walIndexClose :: "wal_sys \<Rightarrow> wal_sys" where
  "walIndexClose s =
     (if exclusiveMode (wal s) = WAL_HEAPMEMORY_MODE
      then s\<lparr>wal := (wal s)\<lparr>apWiData := (\<lambda>i. if i < nWiData (wal s) then False else apWiData (wal s) i)\<rparr>\<rparr>
      else s)"

definition sqlite3WalClose :: "wal_env \<Rightarrow> bool \<Rightarrow> bool list \<Rightarrow> nat \<Rightarrow> nat \<Rightarrow> int \<Rightarrow> nat \<Rightarrow> wal_sys \<Rightarrow> nat \<Rightarrow> nat
    \<Rightarrow> nat \<times> bool \<times> wal_sys" where
  "sqlite3WalClose E memR mem handler lock bPersist del s sync_flags nBuf =
     (let (rc, isDelete, s) =
            (if lock \<noteq> SQLITE_OK then (lock, False, s)
             else
               let s = (if exclusiveMode (wal s) = WAL_NORMAL_MODE
                        then s\<lparr>wal := (wal s)\<lparr>exclusiveMode := WAL_EXCLUSIVE_MODE\<rparr>\<rparr> else s);
                   (rc, outs, s) =
                     sqlite3WalCheckpoint E memR mem handler s SQLITE_CHECKPOINT_PASSIVE None sync_flags nBuf
               in if rc \<noteq> SQLITE_OK then (rc, False, s)
                  else if bPersist \<noteq> 1 then (rc, True, s)
                  else (rc, False, if 0 \<le> mxWalSize (wal s) then walLimitSize s 0 else s));
          s = walIndexClose s
      in (rc, isDelete, if isDelete \<and> del = SQLITE_OK then s\<lparr>logF := []\<rparr> else s))"

definition sqlite3WalCallback :: "Wal \<Rightarrow> u32 \<times> Wal" where
  "sqlite3WalCallback W = (iCallback W, W\<lparr>iCallback := 0\<rparr>)"

definition sqlite3WalExclusiveMode :: "wal_sys \<Rightarrow> int \<Rightarrow> bool \<times> wal_sys" where
  "sqlite3WalExclusiveMode s op =
     (if op = 0 then
        if exclusiveMode (wal s) \<noteq> WAL_NORMAL_MODE then
          let s = s\<lparr>wal := (wal s)\<lparr>exclusiveMode := WAL_NORMAL_MODE\<rparr>\<rparr>;
              (rc, s) = walLockShared s (WAL_READ_LOCK (nat (readLock (wal s))));
              s = (if rc \<noteq> SQLITE_OK then s\<lparr>wal := (wal s)\<lparr>exclusiveMode := WAL_EXCLUSIVE_MODE\<rparr>\<rparr> else s)
          in (exclusiveMode (wal s) = WAL_NORMAL_MODE, s)
        else (False, s)
      else if 0 < op then (True, s\<lparr>wal := (wal s)\<lparr>exclusiveMode := WAL_EXCLUSIVE_MODE\<rparr>\<rparr>)
      else (exclusiveMode (wal s) = WAL_NORMAL_MODE, s))"

definition sqlite3WalHeapMemory :: "Wal option \<Rightarrow> bool" where
  "sqlite3WalHeapMemory W = (case W of None \<Rightarrow> False | Some W \<Rightarrow> exclusiveMode W = WAL_HEAPMEMORY_MODE)"

end
