(* ===== verification/Spec2Isabelle.thy ===== *)
theory Spec2Isabelle
  imports FileSave NetService ProtocolFinder Varint IntArith Ctype HashTable FtsHash Complete
    Bitvec RowSet MemJournal RandomStream Numbers Utf Patterns S3Hander RecordCompare
    WalIterate WalWrite WalRewrite WalCheckpoint
begin

text \<open>
  LCCFileService is an iOS library that stores files once per content and moves them to and
  from a server, with its data in a WCDB/SQLCipher database. The repository holds the library
  (\<open>src/LCCFileService/Classes/\<close>, Objective-C), an example application and its pods, among
  them the C sources of the SQL engine (\<open>src/Example/Pods/WCDBOptimizedSQLCipher/\<close>). This
  library of theories models the service and self-contained parts of the engine.

  \<^bold>\<open>The service.\<close>
  \<^item> \<open>Md5Tools\<close> (\<open>Tools/Md5Tools.m\<close>): the hash by which files are shared, computed at
    once, in chunks or from a stream. The digest itself (CommonCrypto) is a parameter.
  \<^item> \<open>FileDB\<close> (\<open>FileSaveService/DB/LCFileDB.mm\<close>, \<open>Model/\<close>): the tables of files and
    tags as lists in the order of their row ids, with nil and SQL NULL; \<open>FileSave\<close>
    (\<open>LCFileSaveService.m\<close>) works on them and on a file system (a record of the paths with
    their contents, and the directories). Operations return the new state, and
    the theorems quantify over all sequences of them.
  \<^item> \<open>NetTask\<close> (\<open>FileNetService/Model/LCFileNetTask.m\<close>, \<open>DB/LCFileTaskDB.mm\<close>) and
    \<open>NetService\<close> (\<open>LCFileNetService.m\<close>, \<open>Model/LCFileNetOperation.m\<close>): tasks, their table and
    the transfers. Objects live in heaps by address, and a transfer runs in steps of an inductive relation: a
    call of the program, the start of a queued operation, a callback of the handler. The
    handler is a parameter, as are the callbacks it makes before it returns.
  \<^item> \<open>S3Hander\<close> (\<open>FileNetService/AWSS3/LCS3Hander.m\<close>): the handler that drives the AWS
    SDK. The SDK is a parameter: what a request of it reports, and when. The theorems are
    about the handler alone and composed with the transfer service.
  \<^item> \<open>ProtocolFinder\<close> (\<open>Tools/ProtocolFinder.m\<close>): the registry of weak observers.

  \<^bold>\<open>The engine.\<close> Paths are below \<open>Example/Pods/WCDBOptimizedSQLCipher/\<close>.
  \<^item> \<open>LinkedList\<close>, \<open>HashTable\<close>, \<open>FtsHash\<close> (\<open>src/hash.c\<close>, \<open>ext/fts3/fts3_hash.c\<close>): two hash
    tables over one doubly linked list; \<open>Dictionary\<close> states as a locale what they promise,
    and each table interprets it.
  \<^item> \<open>Bitvec\<close> (\<open>src/bitvec.c\<close>), \<open>RowSet\<close> (\<open>src/rowset.c\<close>): sets of page numbers and row ids.
  \<^item> \<open>MemJournal\<close> (\<open>src/memjournal.c\<close>, \<open>src/os.c\<close>): the journal that moves to a file when
    it grows; the locale \<open>append_file\<close> says what a file is.
  \<^item> \<open>Varint\<close>, \<open>IntArith\<close>, \<open>Numbers\<close> (\<open>src/util.c\<close>): variable-length integers, checked
    arithmetic, numbers in text; \<open>RandomStream\<close> (\<open>src/random.c\<close>): the random stream.
  \<^item> \<open>Ctype\<close> (\<open>src/global.c\<close>, \<open>src/util.c\<close>), \<open>Utf\<close> (\<open>src/utf.c\<close>), \<open>Like\<close>
    (\<open>src/func.c\<close>), \<open>Complete\<close> (\<open>src/complete.c\<close>): character classes, encodings, \<open>LIKE\<close> and
    \<open>GLOB\<close>, the end of a statement. \<open>Patterns\<close> holds the reference definition for \<open>Like\<close>.
  \<^item> \<open>Doubles\<close>, \<open>RecordFormat\<close>, \<open>RecordCompare\<close> (\<open>src/vdbeaux.c\<close>, \<open>src/vdbe.c\<close>,
    \<open>src/util.c\<close>): the bits of a floating-point number and its comparison with an integer, the
    format in which a row or an index entry is stored, and the order of values and of stored
    records under the collations; the locale \<open>collation\<close> says what a collation is.
  \<^item> The write-ahead log (\<open>src/wal.c\<close>). \<open>WalIndex\<close> has the shared index with its hash tables,
    \<open>WalSearch\<close> what a connection finds in it and the undo of frames, \<open>WalIterate\<close> the iterator of a
    checkpoint with its merge sort, \<open>WalLog\<close> the format of the log, its opening and recovery,
    \<open>WalRead\<close> read and write transactions and the restart of a log, \<open>WalWrite\<close> and \<open>WalRewrite\<close>
    the writing of frames (\<open>sqlite3WalFrames\<close>) and the repair of their checksums,
    \<open>WalCheckpoint\<close> checkpoints and closing. A connection is a record \<open>wal_sys\<close>: its handle with the shared
    index, the two files as lists of bytes, and what the operating system and the other
    connections will do, as lists of results. Other connections change the shared index when a
    lock is requested.

  \<^bold>\<open>How the code is represented.\<close> C's unsigned integers are words (\<open>u8\<close> to \<open>u64\<close>), signed
  ones integers with the overflow written out; counts of objects in memory are naturals. A pointer into a
  buffer is the rest of the buffer and a read behind its end is \<open>None\<close>; a zero-terminated
  string is the list of its bytes. Pointers of linked structures are addresses into a heap
  of records, where the code relies on aliasing, and lists or trees where it does not.
  Allocations take a Boolean or a stream of Booleans that says which fail. Code outside the
  repository (CommonCrypto, the operating system, the virtual file system, the transfer
  handler) is an argument of the definitions that use it.

  \<^bold>\<open>What is proved.\<close> For each structure an invariant that every operation keeps, and over
  all histories of operations the abstract value it stands for: a map, a set, a list of bytes
  (\<open>Hash_history\<close>, \<open>Bitvec_history\<close>, \<open>RowSet_history\<close>, \<open>Journal_history\<close>,
  \<open>Fts3Hash_history\<close>), with what remains when memory runs out. For each codec the round trip
  and that it stays inside its buffers; for each recogniser (numbers, patterns, statements) the
  equivalence with a reference definition. For the write-ahead log: recovery finds exactly the committed transactions
  (\<open>recovery_committed\<close>), whatever fails while frames are written
  (\<open>crash_keeps_committed\<close>); a commit appends its pages and readers then find them
  (\<open>commit_appends\<close>, \<open>first_commit_restarts\<close>), also after frames were overwritten in place
  (\<open>rewrite_checksums_repairs\<close>); a checkpoint makes the database file what readers saw through the
  log, and marks nothing as copied when it fails (\<open>checkpoint_copies\<close>,
  \<open>checkpoint_failure\<close>); a read transaction starts after finitely many attempts and on a consistent
  header (\<open>begin_read_returns\<close>, \<open>begin_read_snapshot\<close>). For the service, the invariants of its two
  databases and of its running transfers over all sequences of steps, and what its operations do, including
  where that is not what the comments promise: saved files that cannot be read back,
  tags that are lost, transfers that get stuck or come back after being cancelled.

  \<^bold>\<open>Bounds and fuel.\<close> Functions terminate by their arguments, with two exceptions. \<open>Bitvec\<close>
  gives \<open>sqlite3BitvecSet\<close> fuel for its descent and the insertions of a
  conversion: every level divides the size by 62, so that 10 levels are
  enough for 32-bit sizes, which is part of \<open>BitvecSet_contract\<close>. \<open>RowSet\<close> sorts with
  40 buckets as the code does; they hold \<open>2 ^ 40\<close> entries, the hypothesis of its theorems.
  The loops of the write-ahead log need no fuel: they have measures, and the attempts to start a
  read transaction are bounded by the code's own counter. Frames are numbered with 32 bits; the theorems
  ask for fewer than \<open>MAX_FRAMES = 2 ^ 31\<close> of them.

  \<^bold>\<open>The build.\<close> Objective-C is modelled in its release build, where \<open>NSAssert\<close> does nothing. The engine is
  modelled for a little-endian 64-bit target with the pod's options where they matter:
  \<open>SQLITE_OMIT_BUILTIN_TEST\<close>, no \<open>SQLITE_ENABLE_ATOMIC_WRITE\<close>,
  \<open>SQLITE_LIKE_DOESNT_MATCH_BLOBS\<close>, and for the write-ahead log \<open>SQLITE_HAS_CODEC\<close>,
  \<open>SQLITE_WCDB_SIGNAL_RETRY\<close>, \<open>SQLITE_WCDB_CHECKPOINT_HANDLER\<close>, no \<open>SQLITE_ENABLE_SNAPSHOT\<close> and no
  \<open>SQLITE_ENABLE_ZIPVFS\<close>. The soft limit under which \<open>HashTable\<close> keeps its arrays
  is the default of \<open>sqliteInt.h\<close>.

  \<^bold>\<open>Not modelled.\<close> The vendored AWS SDK, the C++ and
  Objective-C++ of WCDB, the repair kit for damaged databases, and of the engine the storage layers (b-tree, pager but for
  what the write-ahead log calls, operating system), the virtual machine and its code generation, the parser, the
  full-text modules beyond their hash table, the cipher, and the arithmetic of
  floating point. Of the record format: the affinities applied before a record is made, the
  allocation of an unpacked record and the variants for debugging. Of the write-ahead log:
  the release of a lock, which reports nothing and changes nothing a connection reads, sleeping
  and the wait flag of WCDB, the size hint and the memory map of the database file, and
  snapshots; the busy handler is the list of its answers. What is left out is large and leans on
  much of the rest; the parts chosen here are the ones whose whole behaviour can be stated on their own.
\<close>

end
